(* ===== verification/Prelude.thy ===== *)
theory Prelude
  imports Main "HOL-Library.Word" "HOL-Library.List_Lexorder" "HOL-Library.Product_Lexorder"
begin

text \<open>
  Shared vocabulary of the development: names for Rust's integer types, the
  little-endian byte conversions, the slice searches of the standard library
  (\<open>partition_point\<close>, \<open>binary_search\<close>), and the two contracts every wire codec
  of the program is held to (\<open>codec\<close>: what was encoded decodes to the same
  value; \<open>canonical_codec\<close>: nothing but an encoder's output decodes).

  A signed integer of width \<open>w\<close> is a \<open>w word\<close> read through \<open>sint\<close>; its order is
  \<open><s\<close> and \<open>\<le>s\<close>. Byte strings are \<open>8 word list\<close>, whose order (from
  \<open>List_Lexorder\<close>) is Rust's order on \<open>[u8]\<close>; tuples are ordered
  lexicographically (\<open>Product_Lexorder\<close>), as Rust's derived \<open>Ord\<close> does.
\<close>

unbundle bit_operations_syntax

type_synonym u8 = "8 word"
type_synonym u16 = "16 word"
type_synonym u32 = "32 word"
type_synonym u64 = "64 word"
type_synonym i32 = "32 word"
type_synonym i64 = "64 word"
type_synonym bytes = "8 word list"

named_theorems wire_simps \<open>unfolding rules of the wire formats\<close>
named_theorems signed_simps \<open>signed comparisons as comparisons of \<open>sint\<close>\<close>

declare word_sless_alt [signed_simps] word_sle_eq [signed_simps]

section \<open>Signed extremes\<close>

definition i64_MAX :: i64 where "i64_MAX = 0x7FFFFFFFFFFFFFFF"
definition i64_MIN :: i64 where "i64_MIN = 0x8000000000000000"
definition i32_MAX :: i32 where "i32_MAX = 0x7FFFFFFF"
definition i32_MIN :: i32 where "i32_MIN = 0x80000000"

definition smin :: "'a::len word \<Rightarrow> 'a word \<Rightarrow> 'a word" where
  "smin a b = (if b <s a then b else a)"

definition smax :: "'a::len word \<Rightarrow> 'a word \<Rightarrow> 'a word" where
  "smax a b = (if a <s b then b else a)"

lemma sint_smin [simp]: "sint (smin a b) = min (sint a) (sint b)"
  by (simp add: smin_def signed_simps)

lemma sint_smax [simp]: "sint (smax a b) = max (sint a) (sint b)"
  by (simp add: smax_def signed_simps)

lemma sint_i64_MAX [simp]: "sint i64_MAX = 2 ^ 63 - 1"
  by (simp add: i64_MAX_def)

lemma sint_i64_MIN [simp]: "sint i64_MIN = - (2 ^ 63)"
  by (simp add: i64_MIN_def)

lemma sint_i32_MAX [simp]: "sint i32_MAX = 2 ^ 31 - 1"
  by (simp add: i32_MAX_def)

lemma sint_i32_MIN [simp]: "sint i32_MIN = - (2 ^ 31)"
  by (simp add: i32_MIN_def)

lemma i64_bounds: "- (2 ^ 63) \<le> sint (x :: i64)" "sint (x :: i64) < 2 ^ 63"
  using sint_ge [of x] sint_lt [of x] by simp_all

lemma i32_bounds: "- (2 ^ 31) \<le> sint (x :: i32)" "sint (x :: i32) < 2 ^ 31"
  using sint_ge [of x] sint_lt [of x] by simp_all

lemma uint_sint_mod: "uint w = sint w mod 2 ^ LENGTH('a)" for w :: "'a::len word"
  by (simp add: uint_sint take_bit_eq_mod)

lemma uint_sint_nonneg: "0 \<le> sint w \<Longrightarrow> uint w = sint w" for w :: "'a::len word"
  using sint_lt [of w] power_increasing [of "LENGTH('a) - 1" "LENGTH('a)" "2 :: int"]
  by (subst uint_sint_mod, intro mod_pos_pos_trivial) (auto intro: order_less_le_trans)

lemma sint_eq_iff: "sint a = sint b \<longleftrightarrow> a = (b :: 'a::len word)"
  by (rule signed_word_eqI [THEN iffI]) auto

lemma unat_lt: "unat w < 2 ^ LENGTH('a)" for w :: "'a::len word"
  by (rule unsigned_less)

section \<open>Little-endian bytes\<close>

text \<open>
  \<open>to_le_bytes\<close> and \<open>from_le_bytes\<close> of the fixed-width integers: \<open>le_bytes n w\<close> is
  the \<open>n\<close> low bytes of \<open>w\<close>, least significant first.
\<close>

fun le_bytes :: "nat \<Rightarrow> 'a::len word \<Rightarrow> bytes" where
  "le_bytes 0 w = []"
| "le_bytes (Suc n) w = ucast w # le_bytes n (drop_bit 8 w)"

fun of_le_bytes :: "bytes \<Rightarrow> 'a::len word" where
  "of_le_bytes [] = 0"
| "of_le_bytes (b # bs) = ucast b OR push_bit 8 (of_le_bytes bs)"

lemma length_le_bytes [simp]: "length (le_bytes n w) = n"
  by (induction n arbitrary: w) auto

lemma bit_of_le_bytes_Cons:
  "bit (of_le_bytes (b # bs) :: 'a::len word) i \<longleftrightarrow>
     i < LENGTH('a) \<and> (if i < 8 then bit b i else bit (of_le_bytes bs :: 'a word) (i - 8))"
  by (auto simp: bit_simps dest: bit_imp_le_length)

lemma of_le_bytes_le_bytes: "of_le_bytes (le_bytes n w) = take_bit (8 * n) (w :: 'a::len word)"
proof (induction n arbitrary: w)
  case 0
  then show ?case by simp
next
  case (Suc n)
  show ?case
  proof (rule bit_word_eqI)
    fix i
    assume i: "i < LENGTH('a)"
    have "bit (of_le_bytes (le_bytes (Suc n) w) :: 'a word) i \<longleftrightarrow>
        (if i < 8 then bit w i else bit (take_bit (8 * n) (drop_bit 8 w)) (i - 8))"
      using i Suc.IH [of "drop_bit 8 w"] by (simp add: bit_of_le_bytes_Cons bit_ucast_iff del: of_le_bytes.simps)
    also have "\<dots> \<longleftrightarrow> bit (take_bit (8 * Suc n) w) i"
      using i by (auto simp: bit_take_bit_iff bit_drop_bit_eq)
    finally show "bit (of_le_bytes (le_bytes (Suc n) w) :: 'a word) i \<longleftrightarrow> bit (take_bit (8 * Suc n) w) i" .
  qed
qed

lemma of_le_bytes_id [simp]:
  "LENGTH('a) \<le> 8 * n \<Longrightarrow> of_le_bytes (le_bytes n w) = (w :: 'a::len word)"
  by (simp add: of_le_bytes_le_bytes take_bit_word_eq_self)

lemma le_bytes_of_le_bytes [simp]:
  "8 * length bs \<le> LENGTH('a) \<Longrightarrow> n = length bs \<Longrightarrow> le_bytes n (of_le_bytes bs :: 'a::len word) = bs"
proof (induction bs arbitrary: n)
  case Nil
  then show ?case by simp
next
  case (Cons b bs)
  have "ucast (of_le_bytes (b # bs) :: 'a word) = b"
    using Cons.prems
    by (intro bit_word_eqI) (auto simp: bit_ucast_iff bit_of_le_bytes_Cons simp del: of_le_bytes.simps)
  moreover have "drop_bit 8 (of_le_bytes (b # bs) :: 'a word) = take_bit (LENGTH('a) - 8) (of_le_bytes bs)"
    by (intro bit_word_eqI)
      (auto simp: bit_drop_bit_eq bit_of_le_bytes_Cons bit_take_bit_iff simp del: of_le_bytes.simps)
  moreover have "take_bit (LENGTH('a) - 8) (of_le_bytes bs :: 'a word) = of_le_bytes bs"
  proof -
    have "\<not> bit (of_le_bytes bs :: 'a word) i" if "8 * length bs \<le> i" for i
      using that
      by (induction bs arbitrary: i) (auto simp: bit_of_le_bytes_Cons simp del: of_le_bytes.simps(2))
    then have "i < 8 * length bs" if "bit (of_le_bytes bs :: 'a word) i" for i
      using that not_le_imp_less by blast
    moreover have "8 * length bs \<le> LENGTH('a) - 8"
      using Cons.prems(1) by simp
    ultimately have "i < LENGTH('a) - 8" if "bit (of_le_bytes bs :: 'a word) i" for i
      using that order_less_le_trans by blast
    then show ?thesis
      by (intro bit_word_eqI) (auto simp: bit_take_bit_iff)
  qed
  ultimately show ?case using Cons by simp
qed

section \<open>Slices\<close>

definition slice :: "nat \<Rightarrow> nat \<Rightarrow> 'a list \<Rightarrow> 'a list" where
  "slice a b xs = take (b - a) (drop a xs)"

lemma length_slice [simp]: "length (slice a b xs) = min (b - a) (length xs - a)"
  by (simp add: slice_def min.commute)

lemma slice_append_left [simp]: "b \<le> length xs \<Longrightarrow> slice a b (xs @ ys) = slice a b xs"
  by (simp add: slice_def)

lemma slice_append_right: "length xs \<le> a \<Longrightarrow> slice a b (xs @ ys) = slice (a - length xs) (b - length xs) ys"
  by (simp add: slice_def)

lemma slice_all [simp]: "length xs \<le> b \<Longrightarrow> slice 0 b xs = xs"
  by (simp add: slice_def)

lemma slice_self [simp]: "slice a a xs = []"
  by (simp add: slice_def)

lemma slice_join: "a \<le> b \<Longrightarrow> b \<le> c \<Longrightarrow> slice a c xs = slice a b xs @ slice b c xs"
proof -
  assume "a \<le> b" "b \<le> c"
  then have "c - a = (b - a) + (c - b)" "(b - a) + a = b" by simp_all
  then show ?thesis by (simp only: slice_def take_add drop_drop)
qed

section \<open>Slice searches of the standard library\<close>

text \<open>
  \<open>partition_point\<close> bisects a slice for the first element that fails the
  predicate. Its documentation requires the slice to be partitioned (every
  element that satisfies the predicate before every element that does not);
  on any other slice the bisection below returns some index, as the library does.
\<close>

function bisect :: "('a \<Rightarrow> bool) \<Rightarrow> 'a list \<Rightarrow> nat \<Rightarrow> nat \<Rightarrow> nat" where
  "bisect P xs lo hi =
     (if lo < hi
      then let mid = (lo + hi) div 2 in
           if P (xs ! mid) then bisect P xs (Suc mid) hi else bisect P xs lo mid
      else lo)"
  by pat_completeness auto
termination
  by (relation "measure (\<lambda>(P, xs, lo, hi). hi - lo)") auto

declare bisect.simps [simp del]

definition partition_point :: "('a \<Rightarrow> bool) \<Rightarrow> 'a list \<Rightarrow> nat" where
  "partition_point P xs = bisect P xs 0 (length xs)"

text \<open>The slice is partitioned: an element satisfying \<open>P\<close> never follows one that does not.\<close>

definition partitioned :: "('a \<Rightarrow> bool) \<Rightarrow> 'a list \<Rightarrow> bool" where
  "partitioned P xs \<longleftrightarrow> sorted_wrt (\<lambda>a b. P b \<longrightarrow> P a) xs"

lemma bisect_partition:
  assumes "partitioned P xs" "hi \<le> length xs" "lo \<le> hi"
    "\<And>i. i < lo \<Longrightarrow> P (xs ! i)" "\<And>i. hi \<le> i \<Longrightarrow> i < length xs \<Longrightarrow> \<not> P (xs ! i)"
  shows "let k = bisect P xs lo hi in
    k \<le> length xs \<and> (\<forall>i < k. P (xs ! i)) \<and> (\<forall>i. k \<le> i \<longrightarrow> i < length xs \<longrightarrow> \<not> P (xs ! i))"
  using assms
proof (induction P xs lo hi rule: bisect.induct)
  case (1 P xs lo hi)
  define mid where "mid = (lo + hi) div 2"
  have mono: "P (xs ! i)" if "i \<le> j" "j < length xs" "P (xs ! j)" for i j
    using that "1.prems"(1) unfolding partitioned_def sorted_wrt_iff_nth_less
    by (metis le_neq_implies_less)
  show ?case
  proof (cases "lo < hi")
    case False
    then have "bisect P xs lo hi = lo" by (simp add: bisect.simps)
    with "1.prems" False show ?thesis by (simp add: Let_def)
  next
    case True
    then have mid: "lo \<le> mid" "mid < hi" by (auto simp: mid_def)
    show ?thesis
    proof (cases "P (xs ! mid)")
      case P: True
      have "\<And>i. i < Suc mid \<Longrightarrow> P (xs ! i)"
        using mono [of _ mid] P mid "1.prems"(2) by auto
      with "1.IH"(1) [OF True mid_def P "1.prems"(1,2)] mid "1.prems"(5)
      show ?thesis using True P by (simp add: bisect.simps [of P xs lo hi] Let_def mid_def)
    next
      case P: False
      have "\<And>i. mid \<le> i \<Longrightarrow> i < length xs \<Longrightarrow> \<not> P (xs ! i)"
        using mono [of mid] P by blast
      with "1.IH"(2) [OF True mid_def P "1.prems"(1)] mid "1.prems"(2,4)
      show ?thesis using True P by (simp add: bisect.simps [of P xs lo hi] Let_def mid_def)
    qed
  qed
qed

lemma partition_point_spec:
  assumes "partitioned P xs"
  shows "partition_point P xs \<le> length xs"
    and "i < partition_point P xs \<Longrightarrow> P (xs ! i)"
    and "partition_point P xs \<le> i \<Longrightarrow> i < length xs \<Longrightarrow> \<not> P (xs ! i)"
  using bisect_partition [OF assms, of "length xs" 0] by (auto simp: partition_point_def Let_def)

lemma partition_point_takeWhile:
  assumes "partitioned P xs"
  shows "partition_point P xs = length (takeWhile P xs)"
proof (rule antisym)
  note pp = partition_point_spec [OF assms]
  have "length (takeWhile P xs) = length xs \<or> \<not> P (xs ! length (takeWhile P xs))"
    by (metis length_takeWhile_le le_neq_implies_less nth_length_takeWhile)
  then show "partition_point P xs \<le> length (takeWhile P xs)"
    using pp(1,2) by (metis not_le)
  have "P (xs ! partition_point P xs)" if "partition_point P xs < length (takeWhile P xs)"
    using that by (metis nth_mem set_takeWhileD takeWhile_nth)
  then show "length (takeWhile P xs) \<le> partition_point P xs"
    using pp(3) by (metis length_takeWhile_le not_le order_refl order_less_le_trans)
qed

lemma partitioned_filter:
  assumes "partitioned P xs"
  shows "filter P xs = takeWhile P xs"
  using assms
proof (induction xs)
  case (Cons x xs)
  show ?case
  proof (cases "P x")
    case True
    then show ?thesis using Cons by (simp add: partitioned_def)
  next
    case False
    then have "\<forall>y \<in> set xs. \<not> P y" using Cons.prems by (simp add: partitioned_def)
    with False show ?thesis by (simp add: filter_empty_conv)
  qed
qed simp

lemma partition_point_filter:
  assumes "partitioned P xs"
  shows "partition_point P xs = length (filter P xs)"
  by (simp add: partition_point_takeWhile [OF assms] partitioned_filter [OF assms])

lemma partition_point_take:
  assumes "partitioned P xs"
  shows "take (partition_point P xs) xs = filter P xs"
  by (simp only: partition_point_takeWhile [OF assms] partitioned_filter [OF assms] takeWhile_eq_take [symmetric])

text \<open>\<open>binary_search\<close>: \<open>Ok\<close> (here \<open>Inr\<close>) of an index holding the key, or \<open>Err\<close>
  (\<open>Inl\<close>) of the index where inserting it keeps the slice sorted.\<close>

definition binary_search :: "'a::linorder list \<Rightarrow> 'a \<Rightarrow> nat + nat" where
  "binary_search xs k =
     (let i = partition_point (\<lambda>x. x < k) xs in
      if i < length xs \<and> xs ! i = k then Inr i else Inl i)"

abbreviation is_ok :: "'e + 'a \<Rightarrow> bool" where "is_ok r \<equiv> \<not> isl r"

lemma ex_Inr_iff: "(\<exists>y. r = Inr y) \<longleftrightarrow> is_ok r"
  by (cases r) auto

lemma partitioned_less: "sorted xs \<Longrightarrow> partitioned (\<lambda>x. x < (k :: 'a::linorder)) xs"
  unfolding partitioned_def by (rule sorted_wrt_mono_rel) auto

lemma partitioned_key: "sorted (map f xs) \<Longrightarrow> partitioned (\<lambda>x. f x < (k :: 'a::linorder)) xs"
  unfolding partitioned_def by (simp add: sorted_wrt_map) (rule sorted_wrt_mono_rel, auto)

lemma partitioned_key_le: "sorted (map f xs) \<Longrightarrow> partitioned (\<lambda>x. f x \<le> (k :: 'a::linorder)) xs"
  unfolding partitioned_def by (simp add: sorted_wrt_map) (rule sorted_wrt_mono_rel, auto)

text \<open>On a sorted slice the element at the partition point is the least one not below the key.\<close>

lemma partition_point_hit:
  assumes "sorted (map f xs)"
  shows "(partition_point (\<lambda>x. f x < k) xs < length xs \<and> Q (xs ! partition_point (\<lambda>x. f x < k) xs)) \<longleftrightarrow>
    (\<exists>i < length xs. (k :: 'a::linorder) \<le> f (xs ! i) \<and> (\<forall>j < i. f (xs ! j) < k) \<and> Q (xs ! i))"
    (is "?L \<longleftrightarrow> ?R")
proof -
  note pp = partition_point_spec [OF partitioned_key [OF assms, of k]]
  show ?thesis
  proof
    assume ?L
    then show ?R
      using pp(2) pp(3) [of "partition_point (\<lambda>x. f x < k) xs"]
      by (intro exI [of _ "partition_point (\<lambda>x. f x < k) xs"]) (auto simp: not_less)
  next
    assume ?R
    then obtain i where i: "i < length xs" "k \<le> f (xs ! i)" "\<forall>j < i. f (xs ! j) < k" "Q (xs ! i)" by blast
    have "\<not> i < partition_point (\<lambda>x. f x < k) xs"
      using pp(2) [of i] i(2) by auto
    moreover have "\<not> partition_point (\<lambda>x. f x < k) xs < i"
      using pp(3) [of "partition_point (\<lambda>x. f x < k) xs"] i(1,3) by auto
    ultimately have "partition_point (\<lambda>x. f x < k) xs = i" by simp
    with i show ?L by simp
  qed
qed

lemma binary_search_member:
  assumes "sorted xs"
  shows "is_ok (binary_search xs k) \<longleftrightarrow> k \<in> set xs"
proof -
  note pp = partition_point_spec [OF partitioned_less [OF assms, of k]]
  have "xs ! partition_point (\<lambda>x. x < k) xs = k" if "i < length xs" "xs ! i = k" for i
  proof -
    have "partition_point (\<lambda>x. x < k) xs \<le> i" using pp(2) [of i] that by (auto simp: not_less [symmetric])
    moreover from this that have "\<not> xs ! partition_point (\<lambda>x. x < k) xs < k"
      by (intro pp(3)) auto
    ultimately show ?thesis
      using sorted_nth_mono [OF assms, of "partition_point (\<lambda>x. x < k) xs" i] that by simp
  qed
  moreover have "partition_point (\<lambda>x. x < k) xs < length xs" if "k \<in> set xs"
    using that pp(1,2) by (metis in_set_conv_nth less_irrefl not_le_imp_less order_less_le_trans)
  ultimately show ?thesis
    by (auto simp: binary_search_def Let_def in_set_conv_nth)
qed

lemma binary_search_Inl:
  assumes "sorted xs" "binary_search xs k = Inl p"
  shows "p \<le> length xs" "i < p \<Longrightarrow> xs ! i < k" "p \<le> i \<Longrightarrow> i < length xs \<Longrightarrow> k < xs ! i"
proof -
  note pp = partition_point_spec [OF partitioned_less [OF assms(1), of k]]
  have p: "p = partition_point (\<lambda>x. x < k) xs" and "k \<notin> set xs"
    using assms binary_search_member [OF assms(1), of k]
    by (auto simp: binary_search_def Let_def split: if_splits)
  then show "p \<le> length xs" "i < p \<Longrightarrow> xs ! i < k" "p \<le> i \<Longrightarrow> i < length xs \<Longrightarrow> k < xs ! i"
    using pp by (auto intro: le_neq_trans simp: not_less)
qed

section \<open>Sorted lists\<close>

lemma find_append: "find P (xs @ ys) = (case find P xs of None \<Rightarrow> find P ys | Some x \<Rightarrow> Some x)"
  by (induction xs) auto

lemma sorted_hd_le: "sorted xs \<Longrightarrow> x \<in> set xs \<Longrightarrow> hd xs \<le> (x :: 'a::linorder)"
  by (cases xs) auto

lemma sorted_le_last: "sorted xs \<Longrightarrow> x \<in> set xs \<Longrightarrow> (x :: 'a::linorder) \<le> last xs"
  by (induction xs) auto

text \<open>A chain through a non-empty middle segment is checked at the segment's ends.\<close>

lemma sorted_join:
  fixes x :: "'a::linorder"
  assumes "ys \<noteq> []"
  shows "sorted (x # ys @ zs) \<longleftrightarrow> x \<le> hd ys \<and> sorted ys \<and> sorted (last ys # zs)"
proof
  assume "sorted (x # ys @ zs)"
  with assms show "x \<le> hd ys \<and> sorted ys \<and> sorted (last ys # zs)"
    by (auto simp: sorted_append)
next
  assume R: "x \<le> hd ys \<and> sorted ys \<and> sorted (last ys # zs)"
  then have "x \<le> y" "y \<le> last ys" if "y \<in> set ys" for y
    using that sorted_hd_le sorted_le_last order_trans by blast+
  moreover have "last ys \<in> set ys" using assms by simp
  ultimately show "sorted (x # ys @ zs)"
    using R by (fastforce simp: sorted_append)
qed

lemma sorted_append_last:
  fixes ys :: "'a::linorder list"
  assumes "ys \<noteq> []"
  shows "sorted (ys @ zs) \<longleftrightarrow> sorted ys \<and> sorted (last ys # zs)"
proof
  assume "sorted (ys @ zs)"
  with assms show "sorted ys \<and> sorted (last ys # zs)"
    by (auto simp: sorted_append)
next
  assume "sorted ys \<and> sorted (last ys # zs)"
  then show "sorted (ys @ zs)"
    using sorted_le_last [of ys] by (fastforce simp: sorted_append)
qed

lemma sorted_remdups_adj_strict: "sorted xs \<Longrightarrow> sorted_wrt (<) (remdups_adj (xs :: 'a::linorder list))"
  by (induction xs rule: remdups_adj.induct) (auto simp: le_less_trans order.strict_iff_order)

text \<open>The first hit in a sorted list is the least hit.\<close>

lemma find_sorted_Min:
  assumes "sorted xs" "\<exists>x \<in> set xs. P x"
  shows "find P xs = Some (Min {x \<in> set xs. P (x :: 'a::linorder)})"
  using assms
proof (induction xs)
  case Nil
  then show ?case by simp
next
  case (Cons x xs)
  show ?case
  proof (cases "P x")
    case True
    then have "Min {y \<in> set (x # xs). P y} = x"
      using Cons.prems(1) by (intro Min_eqI) auto
    with True show ?thesis by simp
  next
    case False
    then have "{y \<in> set (x # xs). P y} = {y \<in> set xs. P y}" by auto
    with False Cons show ?thesis by simp
  qed
qed

section \<open>Growable slot arrays\<close>

text \<open>\<open>resize_with(n, || None)\<close> for a vector no longer than \<open>n\<close>\<close>

definition resize_none :: "nat \<Rightarrow> 'a option list \<Rightarrow> 'a option list" where
  "resize_none n xs = xs @ replicate (n - length xs) None"

lemma length_resize_none [simp]: "length xs \<le> n \<Longrightarrow> length (resize_none n xs) = n"
  by (simp add: resize_none_def)

lemma nth_resize_none: "i < n \<Longrightarrow> length xs \<le> n \<Longrightarrow>
  resize_none n xs ! i = (if i < length xs then xs ! i else None)"
  by (simp add: resize_none_def nth_append)

section \<open>Ordered maps\<close>

text \<open>
  \<open>BTreeMap\<close> as its entries in key order. \<open>bt_entry k f m\<close> is the entry interface: \<open>f\<close>
  maps the value found (or \<open>None\<close> for a vacant entry) to the value stored.
\<close>

fun bt_entry :: "'k::linorder \<Rightarrow> ('v option \<Rightarrow> 'v) \<Rightarrow> ('k \<times> 'v) list \<Rightarrow> ('k \<times> 'v) list" where
  "bt_entry k f [] = [(k, f None)]"
| "bt_entry k f ((k', v) # m) =
     (if k < k' then (k, f None) # (k', v) # m
      else if k = k' then (k', f (Some v)) # m
      else (k', v) # bt_entry k f m)"

abbreviation bt_get :: "('k \<times> 'v) list \<Rightarrow> 'k \<Rightarrow> 'v option" where "bt_get \<equiv> map_of"

definition bt_wf :: "('k::linorder \<times> 'v) list \<Rightarrow> bool" where
  "bt_wf m \<longleftrightarrow> sorted_wrt (<) (map fst m)"

lemma bt_wf_simps [simp]: "bt_wf []" "bt_wf ((k, v) # m) \<longleftrightarrow> (\<forall>k' \<in> fst ` set m. k < k') \<and> bt_wf m"
  by (auto simp: bt_wf_def)

lemma fst_set_bt_entry [simp]: "fst ` set (bt_entry k f m) = insert k (fst ` set m)"
  by (induction k f m rule: bt_entry.induct) auto

lemma bt_wf_entry: "bt_wf m \<Longrightarrow> bt_wf (bt_entry k f m)"
  by (induction k f m rule: bt_entry.induct) (auto intro: less_trans)

lemma bt_get_below: "\<forall>k' \<in> fst ` set m. k < k' \<Longrightarrow> bt_get m (k :: 'k::linorder) = None"
  by (auto simp: map_of_eq_None_iff)

lemma bt_get_entry: "bt_wf m \<Longrightarrow> bt_get (bt_entry k f m) k' = (if k' = k then Some (f (bt_get m k)) else bt_get m k')"
proof (induction k f m rule: bt_entry.induct)
  case (2 k f l v m)
  then have "bt_get m k = None" if "k < l" using that by (intro bt_get_below) (auto intro: less_trans)
  with 2 show ?case by auto
qed simp

lemma bt_get_Some: "bt_wf m \<Longrightarrow> bt_get m k = Some v \<longleftrightarrow> (k, v) \<in> set m"
  by (auto simp: bt_wf_def strict_sorted_iff)

lemma bt_wf_filter: "bt_wf m \<Longrightarrow> bt_wf (filter P m)"
  unfolding bt_wf_def sorted_wrt_map by (rule sorted_wrt_filter)

text \<open>Updating the entries of several distinct keys in turn.\<close>

abbreviation bt_entries :: "('x \<Rightarrow> 'v option \<Rightarrow> 'v) \<Rightarrow> ('k::linorder \<times> 'v) list \<Rightarrow> ('k \<times> 'x) list \<Rightarrow> ('k \<times> 'v) list" where
  "bt_entries g \<equiv> foldl (\<lambda>m (k, x). bt_entry k (g x) m)"

lemma bt_entries_spec:
  "bt_wf m \<Longrightarrow> distinct (map fst kxs) \<Longrightarrow>
    bt_wf (bt_entries g m kxs) \<and> fst ` set (bt_entries g m kxs) = fst ` set m \<union> fst ` set kxs \<and>
    bt_get (bt_entries g m kxs) k =
      (case map_of kxs k of Some x \<Rightarrow> Some (g x (bt_get m k)) | None \<Rightarrow> bt_get m k)"
proof (induction kxs arbitrary: m)
  case (Cons p kxs)
  obtain k0 x where p: "p = (k0, x)" by (cases p)
  with Cons.prems(2) have "map_of kxs k0 = None" by (auto simp: map_of_eq_None_iff)
  with Cons p show ?case
    by (auto simp: bt_wf_entry bt_get_entry split: option.splits)
qed simp

section \<open>Duplicate detection\<close>

text \<open>
  The contract of a set with a reporting insert: \<open>add\<close> returns whether the element was new,
  \<open>abs\<close> is the set held, \<open>valid\<close> the elements it can hold. From it, the answers of a run of
  inserts mark exactly the first occurrences.
\<close>

fun add_run :: "('s \<Rightarrow> 'x \<Rightarrow> 's \<times> bool) \<Rightarrow> 's \<Rightarrow> 'x list \<Rightarrow> 's \<times> bool list" where
  "add_run add s [] = (s, [])"
| "add_run add s (x # xs) =
     (let (s', new) = add s x; (s'', news) = add_run add s' xs in (s'', new # news))"

locale reporting_set =
  fixes inv :: "'s \<Rightarrow> bool"
    and abs :: "'s \<Rightarrow> 'x set"
    and valid :: "'x \<Rightarrow> bool"
    and add :: "'s \<Rightarrow> 'x \<Rightarrow> 's \<times> bool"
    and mem :: "'s \<Rightarrow> 'x \<Rightarrow> bool"
  assumes add_inv: "inv s \<Longrightarrow> valid x \<Longrightarrow> inv (fst (add s x))"
    and add_abs: "inv s \<Longrightarrow> valid x \<Longrightarrow> abs (fst (add s x)) = insert x (abs s)"
    and add_new: "inv s \<Longrightarrow> valid x \<Longrightarrow> snd (add s x) \<longleftrightarrow> x \<notin> abs s"
    and mem_abs: "inv s \<Longrightarrow> valid x \<Longrightarrow> mem s x \<longleftrightarrow> x \<in> abs s"
begin

lemma add_run_state:
  "inv s \<Longrightarrow> \<forall>x \<in> set xs. valid x \<Longrightarrow>
    inv (fst (add_run add s xs)) \<and> abs (fst (add_run add s xs)) = abs s \<union> set xs \<and>
    length (snd (add_run add s xs)) = length xs"
  by (induction xs arbitrary: s) (auto simp: split_beta Let_def add_inv add_abs)

lemma add_run_answers:
  "inv s \<Longrightarrow> \<forall>x \<in> set xs. valid x \<Longrightarrow> i < length xs \<Longrightarrow>
    snd (add_run add s xs) ! i \<longleftrightarrow> xs ! i \<notin> abs s \<union> set (take i xs)"
proof (induction xs arbitrary: s i)
  case (Cons x xs)
  then show ?case
    by (cases i) (auto simp: split_beta Let_def add_inv add_abs add_new)
qed simp

lemma mem_after_run:
  "inv s \<Longrightarrow> \<forall>x \<in> set xs. valid x \<Longrightarrow> valid y \<Longrightarrow> mem (fst (add_run add s xs)) y \<longleftrightarrow> y \<in> abs s \<union> set xs"
  using add_run_state mem_abs by blast

end

text \<open>
  A set of non-negative IDs as its clients use it: \<open>put\<close> ignores a negative ID, \<open>put_new\<close> is
  \<open>put\<close> and reports novelty.
\<close>

locale id_container =
  fixes ok :: "'s \<Rightarrow> bool"
    and none :: 's
    and put :: "'s \<Rightarrow> i64 \<Rightarrow> 's"
    and put_new :: "'s \<Rightarrow> i64 \<Rightarrow> 's \<times> bool"
    and has :: "'s \<Rightarrow> i64 \<Rightarrow> bool"
  assumes none_ok: "ok none"
    and none_has: "\<not> has none i"
    and put_ok: "ok s \<Longrightarrow> ok (put s i)"
    and put_has: "ok s \<Longrightarrow> has (put s i) j \<longleftrightarrow> has s j \<or> j = i \<and> 0 \<le>s i"
    and put_new_eq: "ok s \<Longrightarrow> put_new s i = (put s i, 0 \<le>s i \<and> \<not> has s i)"
begin

lemma put_all:
  "ok s \<Longrightarrow> ok (foldl put s xs) \<and> (\<forall>j. has (foldl put s xs) j \<longleftrightarrow> has s j \<or> j \<in> set xs \<and> 0 \<le>s j)"
  by (induction xs arbitrary: s) (auto simp: put_ok put_has)

text \<open>Inserting changed nothing exactly when nothing new was reported.\<close>

lemma put_new_none: "ok s \<Longrightarrow> \<not> snd (put_new s i) \<longleftrightarrow> (\<forall>j. has (put s i) j \<longleftrightarrow> has s j)"
  by (auto simp: put_new_eq put_has)

end

section \<open>Codec contracts\<close>

text \<open>
  An encoder may refuse a value (\<open>None\<close>), a decoder may refuse bytes. The first
  contract is that whatever was encoded decodes to itself; from it, two values with
  the same encoding are equal.
\<close>

locale codec =
  fixes enc :: "'a \<Rightarrow> 'b option"
    and dec :: "'b \<Rightarrow> 'a option"
  assumes dec_enc: "enc x = Some b \<Longrightarrow> dec b = Some x"
begin

lemma enc_unique: "enc x = Some b \<Longrightarrow> enc y = Some b \<Longrightarrow> x = y"
  by (metis dec_enc option.inject)

lemma enc_inj_on: "inj_on enc {x. enc x \<noteq> None}"
  by (auto intro!: inj_onI dest: enc_unique)

end

text \<open>The second contract: a decoder that accepts only what its encoder writes.\<close>

locale canonical_codec = codec +
  assumes enc_dec: "dec b = Some x \<Longrightarrow> enc x = Some b"
begin

lemma dec_iff_enc: "dec b = Some x \<longleftrightarrow> enc x = Some b"
  using dec_enc enc_dec by blast

lemma dec_unique: "dec b = Some x \<Longrightarrow> dec c = Some x \<Longrightarrow> b = c"
  by (metis enc_dec option.inject)

lemma dec_accepts_range: "(\<exists>x. dec b = Some x) \<longleftrightarrow> Some b \<in> range enc"
  by (auto simp: dec_iff_enc) (metis rangeI)

end

end
