(* ===== verification/Coord_Pack.thy ===== *)
theory Coord_Pack
  imports Prelude
begin

text \<open>
  The coordinate slot of \<open>src/src/coord_pack.rs\<close>: one 64-bit word holding a biased latitude
  with a presence flag in its low half and the longitude bits in its high half. Shown:
  packing succeeds exactly on the geographic domain, every packed coordinate unpacks to
  itself, and a packed slot is never the all-zero (never written) word.
\<close>

section \<open>Definitions\<close>

definition LAT_BIAS :: i64 where "LAT_BIAS = 900000000"
definition PRESENT :: u64 where "PRESENT = push_bit 31 1"
definition LON_LIMIT :: i64 where "LON_LIMIT = 1800000000"

text \<open>\<open>i64::from\<close> of an \<open>i32\<close>\<close>

abbreviation i64_from :: "i32 \<Rightarrow> i64" where "i64_from x \<equiv> scast x"

definition in_domain :: "i32 \<Rightarrow> i32 \<Rightarrow> bool" where
  "in_domain lat lon \<longleftrightarrow>
     (- LAT_BIAS \<le>s i64_from lat \<and> i64_from lat \<le>s LAT_BIAS) \<and>
     (- LON_LIMIT \<le>s i64_from lon \<and> i64_from lon \<le>s LON_LIMIT)"

definition pack :: "i32 \<Rightarrow> i32 \<Rightarrow> u64 option" where
  "pack lat lon =
     (if \<not> in_domain lat lon then None
      else let lat = i64_from lat;
               lon = i64_from lon;
               biased_lat = lat + LAT_BIAS;
               lon_bits = (ucast (ucast lon :: u32) :: u64)
           in Some (biased_lat OR PRESENT OR push_bit 32 lon_bits))"

definition unpack :: "u64 \<Rightarrow> (i32 \<times> i32) option" where
  "unpack packed =
     (if packed AND PRESENT = 0 then None
      else let lat = (ucast ((packed AND 0x7FFFFFFF) - LAT_BIAS) :: i32);
               lon = (ucast (drop_bit 32 packed) :: u32)
           in Some (lat, lon))"

section \<open>The domain\<close>

lemma sint_i64_from [simp]: "sint (i64_from x) = sint x"
  by (rule sint_up_scast) (simp add: is_up)

lemma in_domain_iff:
  "in_domain lat lon \<longleftrightarrow> \<bar>sint lat\<bar> \<le> 900000000 \<and> \<bar>sint lon\<bar> \<le> 1800000000"
  by (auto simp: in_domain_def LAT_BIAS_def LON_LIMIT_def signed_simps)

lemma ucast_scast [simp]: "(ucast (i64_from x) :: 32 word) = x"
  by (intro bit_word_eqI) (simp add: bit_ucast_iff bit_word_scast_iff)

lemma ucast_ucast_32_64 [simp]: "(ucast (ucast x :: 64 word) :: 32 word) = x" for x :: "32 word"
  by (intro bit_word_eqI) (simp add: bit_ucast_iff)

section \<open>Round trip\<close>

lemma mask_31: "(0x7FFFFFFF :: u64) = mask 31"
  by (simp add: mask_eq_decr_exp)

lemma biased_lat_bounds:
  assumes "in_domain lat lon"
  shows "uint (i64_from lat + LAT_BIAS) = sint lat + 900000000"
proof -
  have lat: "- 900000000 \<le> sint lat" "sint lat \<le> 900000000"
    using assms by (auto simp: in_domain_iff)
  have "uint (i64_from lat + LAT_BIAS) = (uint (i64_from lat) + 900000000) mod 2 ^ 64"
    by (simp add: uint_word_ariths(1) LAT_BIAS_def)
  also have "\<dots> = (sint lat + 900000000) mod 2 ^ 64"
    by (simp add: uint_sint_mod mod_simps)
  also have "\<dots> = sint lat + 900000000"
    using lat by (intro mod_pos_pos_trivial) auto
  finally show ?thesis .
qed

lemma take_bit_small: "uint w < 2 ^ n \<Longrightarrow> take_bit n w = (w :: 'a::len word)"
  by (metis take_bit_int_eq_self unsigned_take_bit_eq uint_nonnegative word_uint_eqI)

lemma drop_bit_small: "uint w < 2 ^ n \<Longrightarrow> n \<le> m \<Longrightarrow> drop_bit m w = (0 :: 'a::len word)"
  by (intro bit_word_eqI) (metis bit_0_eq bit_drop_bit_eq bit_take_bit_iff bot_apply bot_bool_def
      le_add1 linorder_not_le order_trans take_bit_small comp_apply)

lemma pack_fields:
  assumes "pack lat lon = Some w"
  shows "take_bit 31 w = i64_from lat + LAT_BIAS" "bit w 31" "drop_bit 32 w = ucast lon"
proof -
  let ?b = "i64_from lat + LAT_BIAS"
  have dom: "in_domain lat lon" and w: "w = ?b OR PRESENT OR push_bit 32 (ucast lon)"
    using assms by (auto simp: pack_def Let_def split: if_splits)
  have small: "uint ?b < 2 ^ 31"
    using biased_lat_bounds [OF dom] dom by (auto simp: in_domain_iff)
  have "take_bit 31 PRESENT = 0" "drop_bit 32 PRESENT = 0" "bit PRESENT 31"
    by (simp_all add: PRESENT_def)
  moreover have "take_bit 31 (push_bit 32 (ucast lon) :: u64) = 0"
    by (intro bit_word_eqI) (auto simp: bit_simps)
  moreover have "drop_bit 32 (push_bit 32 (ucast lon) :: u64) = ucast lon"
    by (intro bit_word_eqI) (auto simp: bit_simps dest: bit_imp_le_length)
  ultimately show "take_bit 31 w = ?b" "bit w 31" "drop_bit 32 w = ucast lon"
    using take_bit_small [OF small] drop_bit_small [OF small, of 32]
    by (simp_all add: w bit_or_iff)
qed

lemma unpack_pack: "pack lat lon = Some w \<Longrightarrow> unpack w = Some (lat, lon)"
proof -
  assume w: "pack lat lon = Some w"
  note f = pack_fields [OF w]
  have "w AND PRESENT \<noteq> 0"
    using f(2) by (simp add: PRESENT_def bit_iff_and_push_bit_not_eq_0 del: push_bit_of_1)
  moreover have "(w AND 0x7FFFFFFF) - LAT_BIAS = i64_from lat"
    using f(1) by (simp add: mask_31 flip: take_bit_eq_mask)
  ultimately show ?thesis
    using f(3) by (simp add: unpack_def Let_def)
qed

interpretation coord_slot: codec "\<lambda>(lat, lon). pack lat lon" unpack
  by unfold_locales (auto simp: unpack_pack)

text \<open>
  The coordinate slot round trip. A coordinate packs exactly when it is in the
  geographic domain, a packed coordinate unpacks to itself, and a packed slot differs
  from the zero word, so a node at (0, 0) is never read as an unwritten slot.
\<close>

theorem coord_slot_roundtrip:
  "(pack lat lon = None \<longleftrightarrow> \<not> (\<bar>sint lat\<bar> \<le> 900000000 \<and> \<bar>sint lon\<bar> \<le> 1800000000)) \<and>
   (\<forall>w. pack lat lon = Some w \<longrightarrow> unpack w = Some (lat, lon) \<and> w \<noteq> 0) \<and>
   unpack 0 = None"
proof -
  have "pack lat lon = None \<longleftrightarrow> \<not> in_domain lat lon"
    by (simp add: pack_def Let_def)
  moreover have "pack lat lon \<noteq> Some 0"
    using pack_fields(2) [of lat lon 0] by auto
  moreover have "unpack 0 = None" by (simp add: unpack_def)
  ultimately show ?thesis
    by (auto simp: unpack_pack in_domain_iff)
qed

theorem coord_slot_roundtrip_witness:
  "pack 0 0 = Some 3047483648 \<and> unpack 3047483648 = Some (0, 0)"
proof -
  have "pack 0 0 = Some 3047483648"
    by (simp add: pack_def in_domain_iff LAT_BIAS_def PRESENT_def)
  with coord_slot_roundtrip [of 0 0] show ?thesis by simp
qed

end
