(* ===== verification/Reorder_Buffer.thy ===== *)
theory Reorder_Buffer
  imports Prelude
begin

text \<open>
  The sequence-number reorder buffer of \<open>src/src/reorder_buffer.rs\<close>, through which every
  pooled reader and writer of the program turns out-of-order worker results back into
  file order. The buffer is a window of optional items starting at the next expected
  sequence number. Shown: its representation invariant, that its operations implement a
  partial map from sequence numbers to items, and (through the \<open>seq_buffer\<close> contract)
  that any interleaving of pushes and pops delivers the items in sequence order, each
  one once, with none lost.
\<close>

section \<open>Definitions\<close>

definition DEFAULT_MAX_WINDOW :: nat where "DEFAULT_MAX_WINDOW = 65536"

record 'a ReorderBuffer =
  rb_next_seq :: nat
  rb_filled :: nat
  rb_max_window :: nat
  rb_pending :: "'a option list"

datatype RejectReason =
    Stale nat nat \<comment> \<open>seq, next expected\<close>
  | WindowExceeded nat nat nat nat \<comment> \<open>seq, distance, next expected, window\<close>
  | Duplicate nat

record 'a Rejected =
  rej_item :: 'a
  rej_reason :: RejectReason

text \<open>\<open>assert!\<close> panics when the window is below the capacity: \<open>None\<close>.\<close>

definition with_max_window :: "nat \<Rightarrow> nat \<Rightarrow> 'a ReorderBuffer option" where
  "with_max_window capacity max_window =
     (if capacity \<le> max_window
      then Some \<lparr>rb_next_seq = 0, rb_filled = 0, rb_max_window = max_window, rb_pending = []\<rparr>
      else None)"

definition with_capacity :: "nat \<Rightarrow> 'a ReorderBuffer option" where
  "with_capacity capacity = with_max_window capacity (max DEFAULT_MAX_WINDOW capacity)"

text \<open>A refused push leaves the buffer as it was, so the error carries no state.\<close>

definition try_push :: "'a ReorderBuffer \<Rightarrow> nat \<Rightarrow> 'a \<Rightarrow> 'a Rejected + 'a ReorderBuffer" where
  "try_push rb seq item =
     (if seq < rb_next_seq rb
      then Inl \<lparr>rej_item = item, rej_reason = Stale seq (rb_next_seq rb)\<rparr>
      else
        let slot_idx = seq - rb_next_seq rb in
        if rb_max_window rb \<le> slot_idx
        then Inl \<lparr>rej_item = item,
               rej_reason = WindowExceeded seq slot_idx (rb_next_seq rb) (rb_max_window rb)\<rparr>
        else
          let pending = (if length (rb_pending rb) \<le> slot_idx
                         then resize_none (slot_idx + 1) (rb_pending rb)
                         else rb_pending rb) in
          if pending ! slot_idx \<noteq> None
          then Inl \<lparr>rej_item = item, rej_reason = Duplicate seq\<rparr>
          else Inr (rb\<lparr>rb_pending := pending[slot_idx := Some item],
                       rb_filled := rb_filled rb + 1\<rparr>))"

text \<open>\<open>push\<close> panics where \<open>try_push\<close> refuses.\<close>

definition push :: "'a ReorderBuffer \<Rightarrow> nat \<Rightarrow> 'a \<Rightarrow> 'a ReorderBuffer option" where
  "push rb seq item =
     (case try_push rb seq item of Inl rejected \<Rightarrow> None | Inr rb' \<Rightarrow> Some rb')"

definition drain_filled :: "'a ReorderBuffer \<Rightarrow> 'a list \<times> 'a ReorderBuffer" where
  "drain_filled rb =
     (List.map_filter id (rb_pending rb), rb\<lparr>rb_filled := 0, rb_pending := []\<rparr>)"

definition pop_ready :: "'a ReorderBuffer \<Rightarrow> 'a option \<times> 'a ReorderBuffer" where
  "pop_ready rb =
     (case rb_pending rb of
        Some item # rest \<Rightarrow>
          (Some item, rb\<lparr>rb_pending := rest, rb_filled := rb_filled rb - 1,
                         rb_next_seq := rb_next_seq rb + 1\<rparr>)
      | _ \<Rightarrow> (None, rb))"

definition next_seq :: "'a ReorderBuffer \<Rightarrow> nat" where "next_seq rb = rb_next_seq rb"
definition filled_len :: "'a ReorderBuffer \<Rightarrow> nat" where "filled_len rb = rb_filled rb"
definition pending_len :: "'a ReorderBuffer \<Rightarrow> nat" where "pending_len rb = length (rb_pending rb)"

text \<open>The consumer's loop: pop until nothing is ready.\<close>

function drain_ready :: "'a ReorderBuffer \<Rightarrow> 'a list \<times> 'a ReorderBuffer" where
  "drain_ready rb =
     (case pop_ready rb of
        (None, rb') \<Rightarrow> ([], rb')
      | (Some x, rb') \<Rightarrow> (let (xs, rb'') = drain_ready rb' in (x # xs, rb'')))"
  by pat_completeness auto
termination
  by (relation "measure (\<lambda>rb. length (rb_pending rb))")
    (auto simp: pop_ready_def split: list.splits option.splits)

declare drain_ready.simps [simp del]

section \<open>Representation invariant and abstraction\<close>

fun occupied :: "'a option list \<Rightarrow> nat" where
  "occupied [] = 0"
| "occupied (None # xs) = occupied xs"
| "occupied (Some _ # xs) = Suc (occupied xs)"

definition rb_wf :: "'a ReorderBuffer \<Rightarrow> bool" where
  "rb_wf rb \<longleftrightarrow>
     rb_filled rb = occupied (rb_pending rb) \<and>
     length (rb_pending rb) \<le> rb_max_window rb"

definition held :: "'a ReorderBuffer \<Rightarrow> nat \<rightharpoonup> 'a" where
  "held rb seq =
     (if rb_next_seq rb \<le> seq \<and> seq < rb_next_seq rb + length (rb_pending rb)
      then rb_pending rb ! (seq - rb_next_seq rb) else None)"

lemma occupied_append [simp]: "occupied (xs @ ys) = occupied xs + occupied ys"
  by (induction xs rule: occupied.induct) auto

lemma occupied_replicate_None [simp]: "occupied (replicate n None) = 0"
  by (induction n) auto

lemma occupied_resize_none [simp]: "occupied (resize_none n xs) = occupied xs"
  by (simp add: resize_none_def)

lemma occupied_update:
  "i < length xs \<Longrightarrow> xs ! i = None \<Longrightarrow> occupied (xs[i := Some y]) = Suc (occupied xs)"
proof (induction xs arbitrary: i rule: occupied.induct)
  case (2 xs)
  then show ?case by (cases i) auto
next
  case (3 z xs)
  then show ?case by (cases i) auto
qed simp

text \<open>The queue \<open>try_push\<close> writes into: the pending queue, long enough for the slot.\<close>

definition grown :: "'a ReorderBuffer \<Rightarrow> nat \<Rightarrow> 'a option list" where
  "grown rb i = (if length (rb_pending rb) \<le> i then resize_none (i + 1) (rb_pending rb) else rb_pending rb)"

lemma grown_simps [simp]:
  "i < length (grown rb i)" "length (rb_pending rb) \<le> length (grown rb i)"
  "length (grown rb i) \<le> max (length (rb_pending rb)) (i + 1)"
  "occupied (grown rb i) = occupied (rb_pending rb)"
  by (auto simp: grown_def)

lemma nth_grown: "j < length (grown rb i) \<Longrightarrow>
  grown rb i ! j = (if j < length (rb_pending rb) then rb_pending rb ! j else None)"
  by (auto simp: grown_def nth_resize_none split: if_splits)

lemma try_push_eq:
  "try_push rb seq item =
     (if seq < rb_next_seq rb
      then Inl \<lparr>rej_item = item, rej_reason = Stale seq (rb_next_seq rb)\<rparr>
      else if rb_next_seq rb + rb_max_window rb \<le> seq
      then Inl \<lparr>rej_item = item, rej_reason =
              WindowExceeded seq (seq - rb_next_seq rb) (rb_next_seq rb) (rb_max_window rb)\<rparr>
      else if held rb seq \<noteq> None
      then Inl \<lparr>rej_item = item, rej_reason = Duplicate seq\<rparr>
      else Inr (rb\<lparr>rb_pending := (grown rb (seq - rb_next_seq rb))[seq - rb_next_seq rb := Some item],
                   rb_filled := rb_filled rb + 1\<rparr>))"
  by (auto simp: try_push_def Let_def grown_def [symmetric] held_def nth_grown)

lemma held_push:
  assumes "try_push rb seq item = Inr rb'"
  shows "held rb' = (held rb)(seq \<mapsto> item)"
proof
  fix n
  let ?i = "seq - rb_next_seq rb"
  have rb': "rb' = rb\<lparr>rb_pending := (grown rb ?i)[?i := Some item], rb_filled := rb_filled rb + 1\<rparr>"
    and le: "rb_next_seq rb \<le> seq"
    using assms by (auto simp: try_push_eq split: if_splits)
  show "held rb' n = ((held rb)(seq \<mapsto> item)) n"
  proof (cases "rb_next_seq rb \<le> n \<and> n < rb_next_seq rb + length (grown rb ?i)")
    case True
    then have "held rb' n = (if n = seq then Some item else grown rb ?i ! (n - rb_next_seq rb))"
      using le by (auto simp: held_def rb' nth_list_update)
    with True show ?thesis by (auto simp: held_def nth_grown)
  next
    case False
    moreover from this have "n \<noteq> seq"
      using le grown_simps(1) [of ?i rb] by linarith
    ultimately show ?thesis
      using grown_simps(2) [of rb ?i] by (auto simp: held_def rb' simp del: grown_simps)
  qed
qed

lemma rb_wf_push:
  assumes "rb_wf rb" "try_push rb seq item = Inr rb'"
  shows "rb_wf rb'"
proof -
  let ?i = "seq - rb_next_seq rb"
  have rb': "rb' = rb\<lparr>rb_pending := (grown rb ?i)[?i := Some item], rb_filled := rb_filled rb + 1\<rparr>"
    and lo: "rb_next_seq rb \<le> seq" and hi: "seq < rb_next_seq rb + rb_max_window rb"
    and free: "held rb seq = None"
    using assms(2) by (auto simp: try_push_eq split: if_splits)
  have "grown rb ?i ! ?i = None"
    using free lo by (auto simp: nth_grown held_def split: if_splits)
  moreover have "length (grown rb ?i) \<le> rb_max_window rb"
    using assms(1) grown_simps(3) [of rb ?i] lo hi by (auto simp: rb_wf_def max_def split: if_splits)
  ultimately show ?thesis
    using assms(1) by (simp add: rb_wf_def rb' occupied_update)
qed

lemma pop_ready_None: "fst (pop_ready rb) = None \<longleftrightarrow> held rb (rb_next_seq rb) = None"
  by (auto simp: pop_ready_def held_def split: list.splits option.splits)

lemma pop_ready_unready: "pop_ready rb = (None, rb') \<Longrightarrow> rb' = rb"
  by (auto simp: pop_ready_def split: list.splits option.splits)

lemma pop_ready_Some:
  assumes "pop_ready rb = (Some x, rb')"
  shows "held rb (rb_next_seq rb) = Some x" "held rb' = (held rb)(rb_next_seq rb := None)"
    "rb_next_seq rb' = Suc (rb_next_seq rb)" "rb_max_window rb' = rb_max_window rb"
    "rb_wf rb \<Longrightarrow> rb_wf rb'"
proof -
  obtain rest where p: "rb_pending rb = Some x # rest"
    and rb': "rb' = rb\<lparr>rb_pending := rest, rb_filled := rb_filled rb - 1, rb_next_seq := rb_next_seq rb + 1\<rparr>"
    using assms by (auto simp: pop_ready_def split: list.splits option.splits)
  show "held rb (rb_next_seq rb) = Some x" "rb_next_seq rb' = Suc (rb_next_seq rb)"
    "rb_max_window rb' = rb_max_window rb" "rb_wf rb \<Longrightarrow> rb_wf rb'"
    by (auto simp: held_def p rb' rb_wf_def)
  show "held rb' = (held rb)(rb_next_seq rb := None)"
    by (rule ext) (auto simp: held_def p rb' nth_Cons' Suc_le_eq)
qed

section \<open>The contract of a sequence buffer\<close>

text \<open>
  The histories of a buffer: \<open>P\<close> is what producers pushed so far, \<open>out\<close> what the consumer
  popped, in any interleaving.
\<close>

inductive seq_run ::
  "('b \<Rightarrow> nat \<Rightarrow> 'a \<Rightarrow> 'b option) \<Rightarrow> ('b \<Rightarrow> 'a option \<times> 'b) \<Rightarrow> 'b \<Rightarrow>
   (nat \<rightharpoonup> 'a) \<Rightarrow> 'a list \<Rightarrow> 'b \<Rightarrow> bool"
  for ins del b0 where
  start: "seq_run ins del b0 Map.empty [] b0"
| pushed: "seq_run ins del b0 P out b \<Longrightarrow> ins b n x = Some b' \<Longrightarrow>
     seq_run ins del b0 (P(n \<mapsto> x)) out b'"
| popped: "seq_run ins del b0 P out b \<Longrightarrow> del b = (Some x, b') \<Longrightarrow>
     seq_run ins del b0 P (out @ [x]) b'"

locale seq_buffer =
  fixes ins :: "'b \<Rightarrow> nat \<Rightarrow> 'a \<Rightarrow> 'b option"
    and del :: "'b \<Rightarrow> 'a option \<times> 'b"
    and nxt :: "'b \<Rightarrow> nat"
    and cells :: "'b \<Rightarrow> nat \<rightharpoonup> 'a"
    and b0 :: 'b
  assumes init: "nxt b0 = 0" "cells b0 = Map.empty"
    and ins_Some: "ins b n x = Some b' \<Longrightarrow>
      nxt b \<le> n \<and> cells b n = None \<and> cells b' = (cells b)(n \<mapsto> x) \<and> nxt b' = nxt b"
    and del_Some: "del b = (Some x, b') \<Longrightarrow>
      cells b (nxt b) = Some x \<and> cells b' = (cells b)(nxt b := None) \<and> nxt b' = Suc (nxt b)"
    and del_None: "fst (del b) = None \<longleftrightarrow> cells b (nxt b) = None"
begin

text \<open>What was delivered is what was pushed at the delivered positions, the rest is held.\<close>

lemma run_inv:
  assumes "seq_run ins del b0 P out b"
  shows "nxt b = length out \<and> (\<forall>i < length out. P i = Some (out ! i)) \<and>
    (\<forall>n. cells b n = (if n < length out then None else P n))"
  using assms
proof (induction rule: seq_run.induct)
  case start
  then show ?case by (simp add: init)
next
  case (pushed P out b n x b')
  from ins_Some [OF pushed.hyps(2)] pushed.IH show ?case by auto
next
  case (popped P out b x b')
  from del_Some [OF popped.hyps(2)] popped.IH show ?case
    by (auto simp: nth_append less_Suc_eq split: if_splits)
qed

lemma pushed_once: "seq_run ins del b0 P out b \<Longrightarrow> ins b n x = Some b' \<Longrightarrow> P n = None"
  using run_inv [of P out b] ins_Some [of b n x b'] by (auto split: if_splits)

lemma stalled_complete:
  assumes run: "seq_run ins del b0 P out b" and stalled: "fst (del b) = None"
    and all: "{..<n} \<subseteq> dom P"
  shows "n \<le> length out" "take n out = map (the \<circ> P) [0..<n]"
proof -
  note inv = run_inv [OF run]
  have "P (length out) = None"
    using inv stalled by (simp add: del_None)
  then have "\<not> length out < n"
    using all by (metis domIff lessThan_iff subsetD)
  then show "n \<le> length out" by simp
  with inv show "take n out = map (the \<circ> P) [0..<n]"
    by (intro nth_equalityI) auto
qed

end

definition rb_new :: "nat \<Rightarrow> 'a ReorderBuffer" where
  "rb_new w = \<lparr>rb_next_seq = 0, rb_filled = 0, rb_max_window = w, rb_pending = []\<rparr>"

lemma push_Some: "push rb n x = Some rb' \<longleftrightarrow> try_push rb n x = Inr rb'"
  by (auto simp: push_def split: sum.splits)

interpretation rb: seq_buffer push pop_ready next_seq held "rb_new w" for w
proof unfold_locales
  show "next_seq (rb_new w) = 0" "held (rb_new w) = Map.empty"
    by (auto simp: next_seq_def held_def rb_new_def)
  show "next_seq b \<le> n \<and> held b n = None \<and> held b' = (held b)(n \<mapsto> x) \<and> next_seq b' = next_seq b"
    if "push b n x = Some b'" for b n and x :: 'a and b'
  proof -
    from that have push: "try_push b n x = Inr b'" by (simp add: push_Some)
    with held_push [OF push] show ?thesis
      by (auto simp: next_seq_def try_push_eq split: if_splits)
  qed
  show "held b (next_seq b) = Some x \<and> held b' = (held b)(next_seq b := None) \<and> next_seq b' = Suc (next_seq b)"
    if "pop_ready b = (Some x, b')" for b and x :: 'a and b'
    using pop_ready_Some [OF that] by (simp add: next_seq_def)
  show "(fst (pop_ready b) = None) = (held b (next_seq b) = None)" for b :: "'a ReorderBuffer"
    by (simp add: pop_ready_None next_seq_def)
qed

lemma with_max_window_new: "with_max_window c w = Some b \<Longrightarrow> b = rb_new w"
  by (auto simp: with_max_window_def rb_new_def split: if_splits)

section \<open>Ordered delivery\<close>

text \<open>A run in which the second item arrives first.\<close>

lemma example_run:
  "\<exists>rb. seq_run push pop_ready (rb_new 4) [1 \<mapsto> CHR ''b'', 0 \<mapsto> CHR ''a''] ''ab'' rb \<and>
        fst (pop_ready rb) = None"
proof -
  let ?b0 = "rb_new 4 :: char ReorderBuffer"
  define rb1 where "rb1 = the (push ?b0 1 (CHR ''b''))"
  define rb2 where "rb2 = the (push rb1 0 (CHR ''a''))"
  define rb3 where "rb3 = snd (pop_ready rb2)"
  define rb4 where "rb4 = snd (pop_ready rb3)"
  note defs = rb1_def rb2_def rb3_def rb4_def push_def try_push_def resize_none_def rb_new_def pop_ready_def
  have p: "push ?b0 1 (CHR ''b'') = Some rb1" "push rb1 0 (CHR ''a'') = Some rb2"
    "pop_ready rb2 = (Some (CHR ''a''), rb3)" "pop_ready rb3 = (Some (CHR ''b''), rb4)"
    "fst (pop_ready rb4) = None"
    by (simp_all add: defs)
  have "seq_run push pop_ready ?b0 Map.empty [] ?b0" by (rule seq_run.start)
  then have "seq_run push pop_ready ?b0 [1 \<mapsto> CHR ''b''] [] rb1"
    using p(1) by (rule seq_run.pushed)
  then have "seq_run push pop_ready ?b0 [1 \<mapsto> CHR ''b'', 0 \<mapsto> CHR ''a''] [] rb2"
    using p(2) by (rule seq_run.pushed)
  then have "seq_run push pop_ready ?b0 [1 \<mapsto> CHR ''b'', 0 \<mapsto> CHR ''a''] ([] @ [CHR ''a'']) rb3"
    using p(3) by (rule seq_run.popped)
  then have "seq_run push pop_ready ?b0 [1 \<mapsto> CHR ''b'', 0 \<mapsto> CHR ''a'']
      (([] @ [CHR ''a'']) @ [CHR ''b'']) rb4"
    using p(4) by (rule seq_run.popped)
  with p(5) show ?thesis by auto
qed

text \<open>
  C38: in every interleaving of accepted pushes and pops from a fresh buffer, the \<open>i\<close>-th
  item popped is the item pushed under sequence number \<open>i\<close>, and the buffer expects next
  the number of items popped: results leave in sequence order whatever order they arrive in.
\<close>

theorem reorder_in_order:
  assumes "with_max_window c w = Some b0" "seq_run push pop_ready b0 P out rb"
  shows "next_seq rb = length out \<and> (\<forall>i < length out. P i = Some (out ! i))"
  using rb.run_inv [of w P out rb] assms with_max_window_new by blast

theorem reorder_in_order_witness:
  "\<exists>rb. seq_run push pop_ready (rb_new 4) [1 \<mapsto> CHR ''b'', 0 \<mapsto> CHR ''a''] ''ab'' rb \<and> next_seq rb = 2 \<and>
     [1 \<mapsto> CHR ''b'', 0 \<mapsto> CHR ''a''] (1 :: nat) = Some (''ab'' ! 1)"
proof -
  obtain rb where run: "seq_run push pop_ready (rb_new 4) [1 \<mapsto> CHR ''b'', 0 \<mapsto> CHR ''a''] ''ab'' rb"
    using example_run by blast
  have "with_max_window 2 4 = Some (rb_new 4 :: char ReorderBuffer)"
    by (simp add: with_max_window_def rb_new_def)
  from reorder_in_order [OF this run] run show ?thesis by auto
qed

text \<open>
  C39: nothing is lost. When every sequence number below \<open>n\<close> has been pushed and the buffer
  has nothing ready, all \<open>n\<close> items have been delivered, in order. (A buffer with nothing
  ready and nothing pending may still miss a tail, which is why callers compare
  \<open>next_seq\<close> with the announced total.)
\<close>

theorem reorder_complete:
  assumes "with_max_window c w = Some b0" "seq_run push pop_ready b0 P out rb"
    and "{..<n} \<subseteq> dom P" "fst (pop_ready rb) = None"
  shows "take n out = map (the \<circ> P) [0..<n] \<and> n \<le> next_seq rb"
  using rb.stalled_complete [of w P out rb n] rb.run_inv [of w P out rb] assms with_max_window_new
  by fastforce

theorem reorder_complete_witness:
  "\<exists>rb. seq_run push pop_ready (rb_new 4) [1 \<mapsto> CHR ''b'', 0 \<mapsto> CHR ''a''] ''ab'' rb \<and>
     take 2 ''ab'' = map (the \<circ> [1 \<mapsto> CHR ''b'', 0 \<mapsto> CHR ''a'']) [0..<2] \<and> 2 \<le> next_seq rb"
proof -
  obtain rb where run: "seq_run push pop_ready (rb_new 4) [1 \<mapsto> CHR ''b'', 0 \<mapsto> CHR ''a''] ''ab'' rb"
    and stalled: "fst (pop_ready rb) = None"
    using example_run by blast
  have "with_max_window 2 4 = Some (rb_new 4 :: char ReorderBuffer)"
    by (simp add: with_max_window_def rb_new_def)
  moreover have "{..<2 :: nat} \<subseteq> dom [1 \<mapsto> CHR ''b'', 0 \<mapsto> CHR ''a'']" by auto
  ultimately show ?thesis using reorder_complete [OF _ run _ stalled, of 2 4 2] run by blast
qed

text \<open>
  One push, on every branch. A push is refused exactly when its number is below the
  next expected one, at or past the window, or already held, and otherwise adds exactly
  that item; the invariant (fill counter exact, queue within the window) is kept.
\<close>

theorem try_push_spec:
  assumes "rb_wf rb"
  shows "(case try_push rb seq item of
            Inr rb' \<Rightarrow> held rb' = (held rb)(seq \<mapsto> item) \<and> rb_wf rb' \<and>
              filled_len rb' = filled_len rb + 1 \<and> next_seq rb' = next_seq rb
          | Inl e \<Rightarrow> rej_item e = item \<and>
              (seq < next_seq rb \<or> next_seq rb + rb_max_window rb \<le> seq \<or> held rb seq \<noteq> None)) \<and>
         (is_ok (try_push rb seq item) \<longleftrightarrow>
            next_seq rb \<le> seq \<and> seq < next_seq rb + rb_max_window rb \<and> held rb seq = None)"
proof (cases "try_push rb seq item")
  case (Inl e)
  then have "rej_item e = item \<and>
      (seq < next_seq rb \<or> next_seq rb + rb_max_window rb \<le> seq \<or> held rb seq \<noteq> None)"
    by (auto simp: try_push_eq next_seq_def split: if_splits)
  with Inl show ?thesis by auto
next
  case (Inr rb')
  then have "filled_len rb' = filled_len rb + 1 \<and> next_seq rb' = next_seq rb \<and>
      next_seq rb \<le> seq \<and> seq < next_seq rb + rb_max_window rb \<and> held rb seq = None"
    by (auto simp: try_push_eq next_seq_def filled_len_def split: if_splits)
  with Inr held_push [OF Inr] rb_wf_push [OF assms Inr] show ?thesis by simp
qed

theorem try_push_spec_witness:
  "rb_wf (rb_new 1 :: char ReorderBuffer) \<and> \<not> is_ok (try_push (rb_new 1) 1 (CHR ''x'')) \<and>
   is_ok (try_push (rb_new 1) 0 (CHR ''x''))"
proof -
  have wf: "rb_wf (rb_new 1 :: char ReorderBuffer)" by (simp add: rb_wf_def rb_new_def)
  from try_push_spec [OF wf, where seq = 1 and item = "CHR ''x''"]
    try_push_spec [OF wf, where seq = 0 and item = "CHR ''x''"] wf
  show ?thesis by (simp add: next_seq_def held_def rb_new_def)
qed

text \<open>
  The consumer's pop loop ends and returns exactly the longest run of held items
  starting at the next expected number, leaving the rest held.
\<close>

lemma drain_ready_spec:
  "let (xs, rb') = drain_ready rb in
     (\<forall>i < length xs. held rb (next_seq rb + i) = Some (xs ! i)) \<and>
     held rb (next_seq rb + length xs) = None \<and>
     next_seq rb' = next_seq rb + length xs \<and>
     held rb' = held rb |` {next_seq rb'..}"
proof (induction rb rule: drain_ready.induct)
  case (1 rb)
  show ?case
  proof (cases "pop_ready rb")
    case (Pair r rb1)
    show ?thesis
    proof (cases r)
      case None
      with Pair have "rb1 = rb" "held rb (rb_next_seq rb) = None"
        using pop_ready_unready pop_ready_None [of rb] by auto
      then show ?thesis
        by (auto simp: drain_ready.simps [of rb] Pair None next_seq_def held_def restrict_map_def intro!: ext)
    next
      case (Some x)
      obtain xs rb2 where rec: "drain_ready rb1 = (xs, rb2)" by fastforce
      note pop = pop_ready_Some [OF Pair [unfolded Some]]
      have IH: "(\<forall>i < length xs. held rb1 (next_seq rb1 + i) = Some (xs ! i)) \<and>
         held rb1 (next_seq rb1 + length xs) = None \<and>
         next_seq rb2 = next_seq rb1 + length xs \<and> held rb2 = held rb1 |` {next_seq rb2..}"
        using "1.IH" [OF Pair [symmetric] Some] rec by simp
      have "held rb (next_seq rb + i) = Some ((x # xs) ! i)" if "i < length (x # xs)" for i
        using that IH pop(1-3) by (cases i) (auto simp: next_seq_def)
      with IH pop(1-3) show ?thesis
        by (auto simp: drain_ready.simps [of rb] Pair Some rec next_seq_def restrict_map_def intro!: ext)
    qed
  qed
qed

end
