(* ===== verification/Element_Kind.thy ===== *)
theory Element_Kind
  imports Prelude
begin

text \<open>
  The element kinds of \<open>src/src/element_kind.rs\<close>: the enum \<open>ElementKind\<close> with its
  derived order and spellings, and \<open>KindSet\<close>, the three-bit set of kinds a decoded
  block holds, which readers compare with a blob's claimed kind. The set is shown to
  implement sets of kinds, and its foreign-kind test to name the least foreign kind.
\<close>

section \<open>Definitions\<close>

datatype ElementKind = Node | Way | Relation

fun as_str :: "ElementKind \<Rightarrow> string" where
  "as_str Node = ''node''"
| "as_str Way = ''way''"
| "as_str Relation = ''relation''"

fun ordinal :: "ElementKind \<Rightarrow> u8" where
  "ordinal Node = 0"
| "ordinal Way = 1"
| "ordinal Relation = 2"

fun type_char :: "ElementKind \<Rightarrow> char" where
  "type_char Node = CHR ''n''"
| "type_char Way = CHR ''w''"
| "type_char Relation = CHR ''r''"

definition from_name :: "string \<Rightarrow> ElementKind option" where
  "from_name name =
     (if name = ''node'' then Some Node
      else if name = ''way'' then Some Way
      else if name = ''relation'' then Some Relation
      else None)"

definition from_ordinal :: "u8 \<Rightarrow> ElementKind option" where
  "from_ordinal n =
     (if n = 0 then Some Node
      else if n = 1 then Some Way
      else if n = 2 then Some Relation
      else None)"

text \<open>The derived \<open>Ord\<close>: declaration order.\<close>

instantiation ElementKind :: linorder
begin

definition less_eq_ElementKind :: "ElementKind \<Rightarrow> ElementKind \<Rightarrow> bool" where
  "less_eq_ElementKind a b \<longleftrightarrow> ordinal a \<le> ordinal b"

definition less_ElementKind :: "ElementKind \<Rightarrow> ElementKind \<Rightarrow> bool" where
  "less_ElementKind a b \<longleftrightarrow> ordinal a < ordinal b"

instance
proof
  fix x y z :: ElementKind
  show "(x < y) = (x \<le> y \<and> \<not> y \<le> x)" "x \<le> x" "x \<le> y \<or> y \<le> x"
    by (auto simp: less_eq_ElementKind_def less_ElementKind_def)
  show "x \<le> y \<Longrightarrow> y \<le> z \<Longrightarrow> x \<le> z"
    by (simp add: less_eq_ElementKind_def)
  show "x \<le> y \<Longrightarrow> y \<le> x \<Longrightarrow> x = y"
    by (cases x; cases y) (auto simp: less_eq_ElementKind_def word_le_nat_alt)
qed

end

datatype kind_error =
    KindContradiction ElementKind ElementKind \<comment> \<open>claimed, found\<close>
  | InvalidKind string

definition from_str :: "string \<Rightarrow> kind_error + ElementKind" where
  "from_str s =
     (if s = ''n'' then Inr Node
      else if s = ''w'' then Inr Way
      else if s = ''r'' then Inr Relation
      else case from_name s of Some k \<Rightarrow> Inr k | None \<Rightarrow> Inl (InvalidKind s))"

datatype KindSet = KindSet u8

definition kind_bit :: "ElementKind \<Rightarrow> u8" where
  "kind_bit k = push_bit (unat (ordinal k)) 1"

definition KindSet_default :: KindSet where
  "KindSet_default = KindSet 0"

fun KindSet_add :: "KindSet \<Rightarrow> ElementKind \<Rightarrow> KindSet" where
  "KindSet_add (KindSet s) k = KindSet (s OR kind_bit k)"

fun KindSet_union :: "KindSet \<Rightarrow> KindSet \<Rightarrow> KindSet" where
  "KindSet_union (KindSet a) (KindSet b) = KindSet (a OR b)"

fun KindSet_has :: "KindSet \<Rightarrow> ElementKind \<Rightarrow> bool" where
  "KindSet_has (KindSet s) k \<longleftrightarrow> s AND kind_bit k \<noteq> 0"

fun KindSet_foreign_to :: "KindSet \<Rightarrow> ElementKind \<Rightarrow> ElementKind option" where
  "KindSet_foreign_to (KindSet s) claimed =
     (if s AND NOT (kind_bit claimed) = 0 then None
      else find (\<lambda>k. k \<noteq> claimed \<and> KindSet_has (KindSet s) k) [Node, Way, Relation])"

definition KindSet_refuse_under :: "KindSet \<Rightarrow> ElementKind option \<Rightarrow> kind_error + unit" where
  "KindSet_refuse_under s claim =
     (case claim of
        None \<Rightarrow> Inr ()
      | Some claimed \<Rightarrow>
          (case KindSet_foreign_to s claimed of
             Some found \<Rightarrow> Inl (KindContradiction claimed found)
           | None \<Rightarrow> Inr ()))"

section \<open>Spellings and order\<close>

lemma from_name_as_str [simp]: "from_name (as_str k) = Some k"
  by (cases k) (simp_all add: from_name_def)

lemma from_name_Some: "from_name s = Some k \<longleftrightarrow> s = as_str k"
  by (cases k) (auto simp: from_name_def split: if_splits)

lemma from_ordinal_ordinal [simp]: "from_ordinal (ordinal k) = Some k"
  by (cases k) (simp_all add: from_ordinal_def)

lemma from_ordinal_Some: "from_ordinal n = Some k \<longleftrightarrow> n = ordinal k"
  by (cases k) (auto simp: from_ordinal_def split: if_splits)

lemma ordinal_inj [simp]: "ordinal a = ordinal b \<longleftrightarrow> a = b"
  by (cases a; cases b) simp_all

interpretation kind_name: canonical_codec "\<lambda>k. Some (as_str k)" from_name
  by unfold_locales (auto simp: from_name_Some)

interpretation kind_ordinal: canonical_codec "\<lambda>k. Some (ordinal k)" from_ordinal
  by unfold_locales (auto simp: from_ordinal_Some)

lemma kind_less_simps [simp]:
  "Node < Way" "Node < Relation" "Way < Relation"
  "\<not> Way < Node" "\<not> Relation < Node" "\<not> Relation < Way"
  by (simp_all add: less_ElementKind_def)

lemma UNIV_kind: "UNIV = {Node, Way, Relation}"
  using ElementKind.exhaust by auto

section \<open>The kind set as a set of kinds\<close>

definition kinds :: "KindSet \<Rightarrow> ElementKind set" where
  "kinds s = {k. KindSet_has s k}"

lemma unat_ordinal_less: "unat (ordinal k) < 8"
  by (cases k) simp_all

lemma unat_ordinal_inj [simp]: "unat (ordinal a) = unat (ordinal b) \<longleftrightarrow> a = b"
  by (metis ordinal_inj word_unat_eq_iff)

lemma bit_kind_bit: "bit (kind_bit k) i \<longleftrightarrow> i = unat (ordinal k)"
  using unat_ordinal_less [of k] by (auto simp: kind_bit_def bit_exp_iff)

lemma has_bit: "KindSet_has (KindSet s) k \<longleftrightarrow> bit s (unat (ordinal k))"
  by (simp add: bit_iff_and_push_bit_not_eq_0 kind_bit_def)

lemma kinds_default [simp]: "kinds KindSet_default = {}"
  by (simp add: kinds_def KindSet_default_def)

lemma kinds_add [simp]: "kinds (KindSet_add s k) = insert k (kinds s)"
  by (cases s) (auto simp: kinds_def has_bit bit_or_iff bit_kind_bit simp del: KindSet_has.simps)

lemma kinds_union [simp]: "kinds (KindSet_union s t) = kinds s \<union> kinds t"
  by (cases s; cases t) (auto simp: kinds_def has_bit bit_or_iff simp del: KindSet_has.simps)

lemma foreign_mask:
  assumes "s AND NOT (kind_bit c) = 0" "k \<noteq> c"
  shows "\<not> KindSet_has (KindSet s) k"
proof -
  have "\<not> bit (s AND NOT (kind_bit c)) (unat (ordinal k))"
    using assms(1) by simp
  then show ?thesis using assms(2) unat_ordinal_less [of k]
    by (simp add: has_bit bit_and_iff bit_not_iff bit_kind_bit del: KindSet_has.simps)
qed

lemma foreign_to_eq_find:
  "KindSet_foreign_to s c = find (\<lambda>k. k \<noteq> c \<and> KindSet_has s k) [Node, Way, Relation]"
  by (cases s) (auto simp: find_None_iff2 dest: foreign_mask simp del: KindSet_has.simps)

text \<open>
  The foreign-kind test of a kind set names a foreign kind exactly when the set
  holds a kind other than the claimed one, and then the least one in the node, way,
  relation order, so the same block always yields the same witness.
\<close>

lemma foreign_to_least:
  "KindSet_foreign_to s c =
     (if kinds s \<subseteq> {c} then None else Some (Min (kinds s - {c})))"
proof (cases "kinds s \<subseteq> {c}")
  case True
  then show ?thesis by (auto simp: foreign_to_eq_find find_None_iff2 kinds_def)
next
  case False
  have all: "set [Node, Way, Relation] = UNIV" by (simp add: UNIV_kind)
  have "{k \<in> set [Node, Way, Relation]. k \<noteq> c \<and> KindSet_has s k} = kinds s - {c}"
    unfolding all by (auto simp: kinds_def)
  moreover have "\<exists>k \<in> set [Node, Way, Relation]. k \<noteq> c \<and> KindSet_has s k"
    unfolding all using False by (auto simp: kinds_def)
  ultimately show ?thesis
    using False find_sorted_Min [of "[Node, Way, Relation]" "\<lambda>k. k \<noteq> c \<and> KindSet_has s k"]
    by (simp add: foreign_to_eq_find less_imp_le)
qed

end
