(* ===== verification/Tag_Index.thy ===== *)
theory Tag_Index
  imports Prelude
begin

text \<open>
  The per-blob tag key index of \<open>src/src/blob_meta/tag_index.rs\<close>: its encoder, its strict
  decoder, the constructor that sorts and deduplicates a block's keys, and the two
  lookups, which bisect the sorted key list. Shown: encoder and decoder are inverse and
  the decoder accepts nothing but encoder output, every decoded index is strictly
  ascending, and under that invariant the bisecting lookups decide membership and
  prefix containment exactly. (\<open>src/src/blob_meta/mod.rs\<close> provides \<open>le_at\<close>.)
\<close>

section \<open>Definitions\<close>

definition TAG_INDEX_VERSION :: u8 where "TAG_INDEX_VERSION = 1"
definition TAG_INDEX_MAX_KEYS :: nat where "TAG_INDEX_MAX_KEYS = 65535"
definition TAG_INDEX_MAX_KEY_LEN :: nat where "TAG_INDEX_MAX_KEY_LEN = 65535"

text \<open>The \<open>n\<close> bytes of \<open>data\<close> at \<open>at\<close>, or \<open>None\<close> when they run past its end.\<close>

definition le_at :: "nat \<Rightarrow> bytes \<Rightarrow> nat \<Rightarrow> bytes option" where
  "le_at n data at = (if at + n \<le> length data then Some (slice at (at + n) data) else None)"

text \<open>The record loop of the encoder: \<open>prev\<close> is the key written before.\<close>

fun encode_keys :: "bytes option \<Rightarrow> bytes list \<Rightarrow> bytes option" where
  "encode_keys prev [] = Some []"
| "encode_keys prev (key # keys) =
     (if TAG_INDEX_MAX_KEY_LEN < length key \<or> (case prev of None \<Rightarrow> False | Some p \<Rightarrow> key \<le> p)
      then None
      else case encode_keys (Some key) keys of
             None \<Rightarrow> None
           | Some rest \<Rightarrow> Some (le_bytes 2 (of_nat (length key) :: u16) @ key @ rest))"

definition encode_tag_index :: "bytes list \<Rightarrow> bytes option" where
  "encode_tag_index keys =
     (if TAG_INDEX_MAX_KEYS < length keys then None
      else case encode_keys None keys of
             None \<Rightarrow> None
           | Some recs \<Rightarrow>
               Some (TAG_INDEX_VERSION # le_bytes 2 (of_nat (length keys) :: u16) @ recs))"

datatype TagIndex = TagIndex (ti_keys: "bytes list")

definition TagIndex_serialize :: "TagIndex \<Rightarrow> bytes option" where
  "TagIndex_serialize t = encode_tag_index (ti_keys t)"

text \<open>The record loop of the decoder: \<open>n\<close> records left, reading at \<open>pos\<close>, \<open>keys\<close> read so far.\<close>

fun decode_keys :: "bytes \<Rightarrow> nat \<Rightarrow> nat \<Rightarrow> bytes list \<Rightarrow> (nat \<times> bytes list) option" where
  "decode_keys data 0 pos keys = Some (pos, keys)"
| "decode_keys data (Suc n) pos keys =
     (if length data < pos + 2 then None
      else case le_at 2 data pos of
             None \<Rightarrow> None
           | Some b \<Rightarrow>
               let key_len = unat (of_le_bytes b :: u16);
                   pos = pos + 2
               in if length data < pos + key_len then None
                  else let key = slice pos (pos + key_len) data in
                       if keys \<noteq> [] \<and> key \<le> last keys then None
                       else decode_keys data n (pos + key_len) (keys @ [key]))"

definition TagIndex_deserialize :: "bytes \<Rightarrow> TagIndex option" where
  "TagIndex_deserialize data =
     (if length data < 3 then None
      else if data ! 0 \<noteq> TAG_INDEX_VERSION then None
      else case le_at 2 data 1 of
             None \<Rightarrow> None
           | Some b \<Rightarrow>
               let key_count = unat (of_le_bytes b :: u16) in
               if (length data - 3) div 2 < key_count then None
               else case decode_keys data key_count 3 [] of
                      None \<Rightarrow> None
                    | Some (pos, keys) \<Rightarrow>
                        if pos \<noteq> length data then None else Some (TagIndex keys))"

text \<open>\<open>sort_unstable\<close> on byte strings followed by \<open>dedup\<close>, which drops equal neighbours.\<close>

definition TagIndex_from_keys :: "bytes list \<Rightarrow> TagIndex" where
  "TagIndex_from_keys keys = TagIndex (remdups_adj (sort keys))"

definition TagIndex_keys_empty :: "TagIndex \<Rightarrow> bool" where
  "TagIndex_keys_empty t \<longleftrightarrow> ti_keys t = []"

definition has_any_key :: "TagIndex \<Rightarrow> bytes list \<Rightarrow> bool" where
  "has_any_key t required \<longleftrightarrow> list_ex (\<lambda>rk. is_ok (binary_search (ti_keys t) rk)) required"

definition starts_with :: "bytes \<Rightarrow> bytes \<Rightarrow> bool" where
  "starts_with s pre \<longleftrightarrow> take (length pre) s = pre"

definition has_any_prefix :: "TagIndex \<Rightarrow> bytes list \<Rightarrow> bool" where
  "has_any_prefix t prefixes \<longleftrightarrow>
     list_ex (\<lambda>pre.
       let idx = partition_point (\<lambda>k. k < pre) (ti_keys t) in
       idx < length (ti_keys t) \<and> starts_with (ti_keys t ! idx) pre) prefixes"

section \<open>Invariant\<close>

definition ti_wf :: "TagIndex \<Rightarrow> bool" where
  "ti_wf t \<longleftrightarrow> sorted_wrt (<) (ti_keys t)"

lemma ti_wf_sorted: "ti_wf t \<Longrightarrow> sorted (ti_keys t)"
  by (simp add: ti_wf_def strict_sorted_imp_sorted)

lemma from_keys_wf: "ti_wf (TagIndex_from_keys keys)"
  by (simp add: ti_wf_def TagIndex_from_keys_def sorted_remdups_adj_strict)

section \<open>The wire format\<close>

text \<open>The key an encoder or decoder compares the next one with.\<close>

definition prev_key :: "bytes list \<Rightarrow> bytes option" where
  "prev_key keys = (if keys = [] then None else Some (last keys))"

lemma prev_key_simps [simp]: "prev_key [] = None" "prev_key (ks @ [k]) = Some k"
  by (simp_all add: prev_key_def)

lemma le_at_Some: "le_at n data at = Some b \<longleftrightarrow> at + n \<le> length data \<and> b = slice at (at + n) data"
  by (auto simp: le_at_def)

lemma u16_len: "n \<le> 65535 \<Longrightarrow> unat (of_nat n :: u16) = n"
  by (simp add: unat_of_nat take_bit_nat_eq_self)

lemma u16_bytes: "length b = 2 \<Longrightarrow> le_bytes 2 (of_le_bytes b :: u16) = b"
  by (rule le_bytes_of_le_bytes) auto

lemma decode_encode_keys:
  assumes "encode_keys (prev_key keys) new = Some recs"
    "pos + length recs \<le> length data" "slice pos (pos + length recs) data = recs"
  shows "decode_keys data (length new) pos keys = Some (pos + length recs, keys @ new)"
  using assms
proof (induction new arbitrary: keys pos recs)
  case Nil
  then show ?case by simp
next
  case (Cons k new)
  then obtain rest where k: "length k \<le> 65535" "\<not> (keys \<noteq> [] \<and> k \<le> last keys)"
    and rest: "encode_keys (Some k) new = Some rest"
    and recs: "recs = le_bytes 2 (of_nat (length k) :: u16) @ k @ rest"
    by (auto simp: TAG_INDEX_MAX_KEY_LEN_def prev_key_def split: if_splits option.splits)
  let ?p = "pos + 2" and ?q = "pos + 2 + length k"
  have len: "length recs = 2 + length k + length rest" by (simp add: recs)
  have "slice pos ?p data @ slice ?p ?q data @ slice ?q (?q + length rest) data = recs"
    using Cons.prems(3) len slice_join [of pos ?p "?q + length rest" data] slice_join [of ?p ?q "?q + length rest" data]
    by (simp add: add.assoc)
  then have parts: "slice pos ?p data = le_bytes 2 (of_nat (length k) :: u16)"
      "slice ?p ?q data = k" "slice ?q (?q + length rest) data = rest"
    using Cons.prems(2) len by (auto simp: recs append_eq_append_conv)
  have "decode_keys data (length new) ?q (keys @ [k]) = Some (?q + length rest, (keys @ [k]) @ new)"
    using Cons.prems(2) len rest parts(3) by (intro Cons.IH) auto
  with Cons.prems(2) len k parts(1,2) show ?case
    by (simp add: le_at_def u16_len Let_def)
qed

lemma encode_decode_keys:
  assumes "decode_keys data n pos keys = Some (pos', keys')" "pos \<le> length data"
  shows "\<exists>new. keys' = keys @ new \<and> length new = n \<and> pos \<le> pos' \<and> pos' \<le> length data \<and>
    encode_keys (prev_key keys) new = Some (slice pos pos' data)"
  using assms
proof (induction n arbitrary: pos keys)
  case 0
  then show ?case by simp
next
  case (Suc n)
  define b where "b = slice pos (pos + 2) data"
  define kl where "kl = unat (of_le_bytes b :: u16)"
  define k where "k = slice (pos + 2) (pos + 2 + kl) data"
  from Suc.prems have step: "pos + 2 + kl \<le> length data" "\<not> (keys \<noteq> [] \<and> k \<le> last keys)"
      "decode_keys data n (pos + 2 + kl) (keys @ [k]) = Some (pos', keys')"
    by (auto simp: b_def kl_def k_def Let_def le_at_def split: if_splits)
  then obtain new where new: "keys' = (keys @ [k]) @ new" "length new = n" "pos + 2 + kl \<le> pos'"
      "pos' \<le> length data" "encode_keys (Some k) new = Some (slice (pos + 2 + kl) pos' data)"
    using Suc.IH [OF step(3,1)] by auto
  have k: "length k = kl" "kl \<le> 65535"
    using step(1) unat_lt [of "of_le_bytes b :: u16"] by (auto simp: k_def kl_def)
  have "le_bytes 2 (of_nat (length k) :: u16) = b"
    using step(1) by (simp only: k kl_def of_nat_unat ucast_id) (rule u16_bytes, simp add: b_def)
  moreover have "slice pos pos' data = b @ k @ slice (pos + 2 + kl) pos' data"
    using new(3) slice_join [of pos "pos + 2" pos' data] slice_join [of "pos + 2" "pos + 2 + kl" pos' data]
    by (simp add: b_def k_def)
  ultimately have "encode_keys (prev_key keys) (k # new) = Some (slice pos pos' data)"
    using step(2) k new(5) by (cases "keys = []") (simp_all add: TAG_INDEX_MAX_KEY_LEN_def prev_key_def)
  with new show ?case by (intro exI [of _ "k # new"]) simp
qed

lemma encode_keys_sorted:
  "encode_keys prev keys = Some recs \<Longrightarrow>
    sorted_wrt (<) keys \<and> (\<forall>p k. prev = Some p \<longrightarrow> k \<in> set keys \<longrightarrow> p < k)"
proof (induction prev keys arbitrary: recs rule: encode_keys.induct)
  case (2 prev key keys)
  then obtain rest where "encode_keys (Some key) keys = Some rest" "\<forall>p. prev = Some p \<longrightarrow> p < key"
    by (auto simp: not_le split: if_splits option.splits)
  with 2 show ?case by (fastforce split: if_splits)
qed simp

lemma encode_keys_total:
  "sorted_wrt (<) keys \<Longrightarrow> \<forall>k \<in> set keys. length k \<le> TAG_INDEX_MAX_KEY_LEN \<Longrightarrow>
    \<forall>p k. prev = Some p \<longrightarrow> k \<in> set keys \<longrightarrow> p < k \<Longrightarrow> \<exists>recs. encode_keys prev keys = Some recs"
proof (induction prev keys rule: encode_keys.induct)
  case (2 prev key keys)
  have "\<not> (TAG_INDEX_MAX_KEY_LEN < length key \<or> (case prev of None \<Rightarrow> False | Some p \<Rightarrow> key \<le> p))"
    using "2.prems" by (cases prev) (auto simp: not_le)
  with 2 show ?case by fastforce
qed simp

lemma tag_dec_enc:
  assumes "TagIndex_serialize t = Some data"
  shows "TagIndex_deserialize data = Some t"
proof -
  obtain ks where t: "t = TagIndex ks" by (cases t)
  from assms obtain recs where recs: "encode_keys None ks = Some recs" and n: "length ks \<le> 65535"
    and data: "data = TAG_INDEX_VERSION # le_bytes 2 (of_nat (length ks) :: u16) @ recs"
    by (auto simp: t TagIndex_serialize_def encode_tag_index_def TAG_INDEX_MAX_KEYS_def
        split: if_splits option.splits)
  have sl: "le_at 2 data 1 = Some (le_bytes 2 (of_nat (length ks) :: u16))"
    "slice 3 (3 + length recs) data = recs" "length data = 3 + length recs" "data ! 0 = TAG_INDEX_VERSION"
    by (simp_all add: data le_at_def slice_def numeral_3_eq_3)
  have "2 * length keys \<le> length r" if "encode_keys p keys = Some r" for p keys r
    using that by (induction p keys arbitrary: r rule: encode_keys.induct)
      (fastforce split: if_splits option.splits)+
  from this [OF recs] have "2 * length ks \<le> length recs" .
  moreover have "decode_keys data (length ks) 3 [] = Some (3 + length recs, ks)"
    using decode_encode_keys [of "[]" ks recs 3 data] recs sl by simp
  ultimately show ?thesis
    using n sl by (simp add: TagIndex_deserialize_def u16_len t Let_def)
qed

lemma tag_enc_dec:
  assumes "TagIndex_deserialize data = Some t"
  shows "TagIndex_serialize t = Some data"
proof -
  define n where "n = unat (of_le_bytes (slice 1 3 data) :: u16)"
  from assms obtain keys where len: "3 \<le> length data" and v: "data ! 0 = TAG_INDEX_VERSION"
    and dec: "decode_keys data n 3 [] = Some (length data, keys)" and t: "t = TagIndex keys"
    by (auto simp: TagIndex_deserialize_def le_at_def n_def Let_def numeral_3_eq_3
        split: if_splits option.splits prod.splits)
  from encode_decode_keys [OF dec len] have keys: "length keys = n"
    and enc: "encode_keys None keys = Some (slice 3 (length data) data)" by auto
  have n: "n \<le> 65535" using unat_lt [of "of_le_bytes (slice 1 3 data) :: u16"] by (simp add: n_def)
  have "le_bytes 2 (of_nat n :: u16) = slice 1 3 data"
    unfolding n_def of_nat_unat ucast_id by (rule u16_bytes) (use len in simp)
  moreover have "data = slice 0 1 data @ slice 1 3 data @ slice 3 (length data) data"
    using len slice_join [of 0 1 "length data" data] slice_join [of 1 3 "length data" data] by simp
  moreover have "slice 0 1 data = [TAG_INDEX_VERSION]"
    using len v by (cases data) (auto simp: slice_def)
  ultimately show ?thesis
    using n enc keys
    by (simp add: t TagIndex_serialize_def encode_tag_index_def TAG_INDEX_MAX_KEYS_def)
qed

interpretation tag_index: canonical_codec TagIndex_serialize TagIndex_deserialize
  by unfold_locales (fact tag_dec_enc, fact tag_enc_dec)

lemma serialize_wf: "TagIndex_serialize t = Some data \<Longrightarrow> ti_wf t"
  by (auto simp: TagIndex_serialize_def encode_tag_index_def ti_wf_def
      split: if_splits option.splits dest: encode_keys_sorted)

lemma serialize_total:
  "ti_wf t \<Longrightarrow> length (ti_keys t) \<le> TAG_INDEX_MAX_KEYS \<Longrightarrow>
    \<forall>k \<in> set (ti_keys t). length k \<le> TAG_INDEX_MAX_KEY_LEN \<Longrightarrow> \<exists>data. TagIndex_serialize t = Some data"
  using encode_keys_total [of "ti_keys t" None]
  by (auto simp: TagIndex_serialize_def encode_tag_index_def ti_wf_def)

section \<open>Lookups\<close>

lemma has_any_key_iff:
  "ti_wf t \<Longrightarrow> has_any_key t required \<longleftrightarrow> set required \<inter> set (ti_keys t) \<noteq> {}"
  by (auto simp: has_any_key_def list_ex_iff binary_search_member [OF ti_wf_sorted])

lemma take_le_self: "take n xs \<le> (xs :: bytes)"
  by (induction xs arbitrary: n) (auto simp: take_Cons' )

lemma starts_with_convex:
  "pre \<le> a \<Longrightarrow> a \<le> b \<Longrightarrow> starts_with b pre \<Longrightarrow> starts_with a pre"
proof (induction pre arbitrary: a b)
  case Nil
  then show ?case by (simp add: starts_with_def)
next
  case (Cons p pre)
  then show ?case
    by (cases a; cases b) (auto simp: starts_with_def)
qed

lemma has_any_prefix_iff:
  assumes "ti_wf t"
  shows "has_any_prefix t prefixes \<longleftrightarrow> (\<exists>k \<in> set (ti_keys t). \<exists>pre \<in> set prefixes. starts_with k pre)"
proof -
  have s: "sorted (ti_keys t)" by (rule ti_wf_sorted [OF assms])
  have "(let idx = partition_point (\<lambda>k. k < pre) (ti_keys t) in
       idx < length (ti_keys t) \<and> starts_with (ti_keys t ! idx) pre) \<longleftrightarrow>
      (\<exists>k \<in> set (ti_keys t). starts_with k pre)" for pre
  proof -
    note pp = partition_point_spec [OF partitioned_less [OF s, of pre]]
    let ?i = "partition_point (\<lambda>k. k < pre) (ti_keys t)"
    have "?i < length (ti_keys t) \<and> starts_with (ti_keys t ! ?i) pre"
      if k: "k \<in> set (ti_keys t)" "starts_with k pre" for k
    proof -
      obtain j where j: "j < length (ti_keys t)" "k = ti_keys t ! j" using k by (auto simp: in_set_conv_nth)
      have "pre \<le> k" using k(2) take_le_self [of "length pre" k] by (simp add: starts_with_def)
      then have "?i \<le> j" using pp(2) [of j] j by (auto simp: not_less [symmetric])
      then show ?thesis
        using j k(2) pp(3) [of ?i] sorted_nth_mono [OF s, of ?i j]
        by (auto intro: starts_with_convex [of _ _ k] simp: not_less)
    qed
    then show ?thesis by (auto simp: Let_def)
  qed
  then show ?thesis by (auto simp: has_any_prefix_def list_ex_iff)
qed

section \<open>Properties\<close>

text \<open>
  C40: the tag index wire format. A byte string decodes to an index exactly when the
  encoder writes that byte string for the index, and the encoder writes one exactly when
  the keys are strictly ascending and fit the two 16-bit counts.
\<close>

theorem tag_index_wire:
  "(TagIndex_deserialize data = Some t \<longleftrightarrow> TagIndex_serialize t = Some data) \<and>
   ((\<exists>d. TagIndex_serialize u = Some d) \<longleftrightarrow>
      sorted_wrt (<) (ti_keys u) \<and> length (ti_keys u) \<le> 65535 \<and>
      list_all (\<lambda>k. length k \<le> 65535) (ti_keys u))"
proof -
  have bound: "length (ti_keys u) \<le> 65535 \<and> list_all (\<lambda>k. length k \<le> 65535) (ti_keys u)"
    if "TagIndex_serialize u = Some d" for d
  proof -
    have "\<forall>k \<in> set keys. length k \<le> 65535" if "encode_keys p keys = Some r" for p keys r
      using that by (induction p keys arbitrary: r rule: encode_keys.induct)
        (auto simp: TAG_INDEX_MAX_KEY_LEN_def split: if_splits option.splits)
    with that show ?thesis
      by (auto simp: TagIndex_serialize_def encode_tag_index_def TAG_INDEX_MAX_KEYS_def list_all_iff
          split: if_splits option.splits)
  qed
  have total: "\<exists>d. TagIndex_serialize u = Some d"
    if "sorted_wrt (<) (ti_keys u)" "length (ti_keys u) \<le> 65535" "list_all (\<lambda>k. length k \<le> 65535) (ti_keys u)"
    using that by (intro serialize_total)
      (auto simp: ti_wf_def TAG_INDEX_MAX_KEYS_def TAG_INDEX_MAX_KEY_LEN_def list_all_iff)
  show ?thesis
    using tag_index.dec_iff_enc [of data t] bound total serialize_wf [of u] by (auto simp: ti_wf_def)
qed

text \<open>
  On every index the decoder accepts, the two bisecting lookups are exact: a required
  key is found exactly when it is one of the stored keys, a prefix exactly when some
  stored key starts with it.
\<close>

theorem tag_lookup_exact:
  assumes "TagIndex_deserialize data = Some t"
  shows "(has_any_key t required \<longleftrightarrow> set required \<inter> set (ti_keys t) \<noteq> {}) \<and>
    (has_any_prefix t prefixes \<longleftrightarrow> (\<exists>k \<in> set (ti_keys t). \<exists>pre \<in> set prefixes. starts_with k pre))"
proof -
  have "ti_wf t" using assms tag_index.enc_dec serialize_wf by blast
  then show ?thesis using has_any_key_iff has_any_prefix_iff by blast
qed

theorem tag_lookup_exact_witness:
  "has_any_prefix (TagIndex [[97], [97, 58, 98]]) [[97, 58]] \<and>
   \<not> has_any_key (TagIndex [[97], [97, 58, 98]]) [[98]]"
proof -
  have "TagIndex_deserialize [1, 2, 0, 1, 0, 97, 3, 0, 97, 58, 98] = Some (TagIndex [[97], [97, 58, 98]])"
    by code_simp
  from tag_lookup_exact [OF this, of "[[98]]" "[[97, 58]]"] show ?thesis
    by (auto simp: starts_with_def)
qed

end
