(* ===== verification/Blob_Index.thy ===== *)
theory Blob_Index
  imports Element_Kind Tag_Index "HOL-Library.Monad_Syntax"
begin

text \<open>
  The per-blob index of \<open>src/src/blob_meta/mod.rs\<close>: the 26- and 42-byte indexdata
  formats, the classifier that puts a wire field into the fixed-size carrier, the bbox
  claim of a stored index against a scanned one, and \<open>BlobFilter\<close>, which decides from an
  index and a tag index whether a blob may be skipped. Shown: what survives a write and a
  read, that the carrier loses nothing, that every index read is well formed, and that a
  blob the filter skips holds no element the filter would select.
\<close>

section \<open>Boxes and indexes\<close>

record BlobBbox =
  min_lat :: i32
  max_lat :: i32
  min_lon :: i32
  max_lon :: i32

definition BlobBbox_new :: "i32 \<Rightarrow> i32 \<Rightarrow> i32 \<Rightarrow> i32 \<Rightarrow> BlobBbox" where
  "BlobBbox_new a b c d = \<lparr>min_lat = a, max_lat = b, min_lon = c, max_lon = d\<rparr>"

definition bbox_contains :: "BlobBbox \<Rightarrow> BlobBbox \<Rightarrow> bool" where
  "bbox_contains b inner \<longleftrightarrow>
     min_lat b \<le>s min_lat inner \<and> max_lat inner \<le>s max_lat b \<and>
     min_lon b \<le>s min_lon inner \<and> max_lon inner \<le>s max_lon b"

definition intersects :: "BlobBbox \<Rightarrow> BlobBbox \<Rightarrow> bool" where
  "intersects b other \<longleftrightarrow>
     min_lat b \<le>s max_lat other \<and> min_lat other \<le>s max_lat b \<and>
     min_lon b \<le>s max_lon other \<and> min_lon other \<le>s max_lon b"

record BlobIndex =
  kind :: ElementKind
  min_id :: i64
  max_id :: i64
  count :: u64
  bbox :: "BlobBbox option"

datatype BboxClaim =
    Absent
  | NotNodes
  | Holds
  | TooSmall BlobBbox BlobBbox
  | OutOfRange BlobBbox

definition bbox_claim :: "BlobIndex \<Rightarrow> BlobIndex \<Rightarrow> BboxClaim" where
  "bbox_claim self scanned =
     (case bbox self of
        None \<Rightarrow> Absent
      | Some claimed \<Rightarrow>
          if kind scanned \<noteq> Node then NotNodes
          else case bbox scanned of
                 Some observed \<Rightarrow>
                   if bbox_contains claimed observed then Holds else TooSmall claimed observed
               | None \<Rightarrow> OutOfRange claimed)"

section \<open>The wire formats\<close>

definition INDEX_VERSION_V1 :: u8 where "INDEX_VERSION_V1 = 1"
definition INDEX_VERSION_V2 :: u8 where "INDEX_VERSION_V2 = 2"
definition INDEX_VERSION :: u8 where "INDEX_VERSION = 3"

definition BBOX_ABSENT :: "i32 list" where
  "BBOX_ABSENT = [i32_MAX, i32_MIN, i32_MAX, i32_MIN]"

definition INDEX_SIZE_V1 :: nat where "INDEX_SIZE_V1 = 26"
definition INDEX_SIZE :: nat where "INDEX_SIZE = 42"

definition version_size :: "u8 \<Rightarrow> nat option" where
  "version_size version =
     (if version = INDEX_VERSION_V1 then Some INDEX_SIZE_V1
      else if version = INDEX_VERSION_V2 \<or> version = INDEX_VERSION then Some INDEX_SIZE
      else None)"

datatype WireIndexdata =
    Carrier bytes
  | UnrecognisedLength nat
  | VersionLengthMismatch

definition classify_wire_indexdata :: "bytes \<Rightarrow> WireIndexdata" where
  "classify_wire_indexdata bs =
     (let len = length bs in
      if len \<noteq> INDEX_SIZE_V1 \<and> len \<noteq> INDEX_SIZE then UnrecognisedLength len
      else if (case version_size (hd bs) of Some declared \<Rightarrow> declared \<noteq> len | None \<Rightarrow> False)
      then VersionLengthMismatch
      else Carrier (bs @ replicate (INDEX_SIZE - len) 0))"

definition BlobIndex_serialize :: "BlobIndex \<Rightarrow> bytes" where
  "BlobIndex_serialize b =
     [INDEX_VERSION, ordinal (kind b)]
     @ le_bytes 8 (min_id b) @ le_bytes 8 (max_id b) @ le_bytes 8 (count b)
     @ concat (map (le_bytes 4)
         (case bbox b of
            None \<Rightarrow> BBOX_ABSENT
          | Some x \<Rightarrow> [min_lat x, max_lat x, min_lon x, max_lon x]))"

definition read_i32 :: "bytes \<Rightarrow> nat \<Rightarrow> i32 option" where
  "read_i32 data at = map_option of_le_bytes (le_at 4 data at)"

definition read_u64 :: "bytes \<Rightarrow> nat \<Rightarrow> u64 option" where
  "read_u64 data at = map_option of_le_bytes (le_at 8 data at)"

text \<open>The bbox part of \<open>deserialize\<close>: \<open>None\<close> fails the whole read, \<open>Some None\<close> is no box.\<close>

definition deserialize_bbox :: "u8 \<Rightarrow> bytes \<Rightarrow> BlobBbox option option" where
  "deserialize_bbox version data = do {
     a \<leftarrow> read_i32 data 26;
     b \<leftarrow> read_i32 data 30;
     c \<leftarrow> read_i32 data 34;
     d \<leftarrow> read_i32 data 38;
     Some (if version = INDEX_VERSION_V2 \<and> [a, b, c, d] = [0, 0, 0, 0] \<or> b <s a \<or> d <s c
           then None else Some (BlobBbox_new a b c d))
   }"

definition BlobIndex_deserialize :: "bytes \<Rightarrow> BlobIndex option" where
  "BlobIndex_deserialize data =
     (if data = [] then None
      else let version = hd data in do {
        declared \<leftarrow> version_size version;
        if length data \<noteq> declared \<and> length data \<noteq> INDEX_SIZE then None
        else do {
          k \<leftarrow> from_ordinal (data ! 1);
          lo \<leftarrow> read_u64 data 2;
          hi \<leftarrow> read_u64 data 10;
          n \<leftarrow> read_u64 data 18;
          if hi <s lo then None
          else do {
            box \<leftarrow> (if declared = INDEX_SIZE \<and> k = Node then deserialize_bbox version data else Some None);
            Some \<lparr>kind = k, min_id = lo, max_id = hi, count = n, bbox = box\<rparr>
          }
        }
      })"

section \<open>The blob filter\<close>

record BlobFilter =
  want_nodes :: bool
  want_ways :: bool
  want_relations :: bool
  node_bbox :: "BlobBbox option"
  required_tag_keys :: "bytes list option"
  required_tag_prefixes :: "bytes list option"

definition BlobFilter_new :: "bool \<Rightarrow> bool \<Rightarrow> bool \<Rightarrow> BlobFilter" where
  "BlobFilter_new n w r =
     \<lparr>want_nodes = n, want_ways = w, want_relations = r, node_bbox = None,
      required_tag_keys = None, required_tag_prefixes = None\<rparr>"

definition only_nodes :: BlobFilter where "only_nodes = BlobFilter_new True False False"
definition only_ways :: BlobFilter where "only_ways = BlobFilter_new False True False"
definition only_relations :: BlobFilter where "only_relations = BlobFilter_new False False True"

definition with_node_bbox :: "BlobFilter \<Rightarrow> BlobBbox \<Rightarrow> BlobFilter" where
  "with_node_bbox f b = f\<lparr>node_bbox := Some b\<rparr>"

definition with_required_tag_keys :: "BlobFilter \<Rightarrow> bytes list \<Rightarrow> BlobFilter" where
  "with_required_tag_keys f keys = f\<lparr>required_tag_keys := Some keys\<rparr>"

definition with_required_tag_prefixes :: "BlobFilter \<Rightarrow> bytes list \<Rightarrow> BlobFilter" where
  "with_required_tag_prefixes f prefixes = f\<lparr>required_tag_prefixes := Some prefixes\<rparr>"

definition wants :: "BlobFilter \<Rightarrow> ElementKind \<Rightarrow> bool" where
  "wants f k = (case k of Node \<Rightarrow> want_nodes f | Way \<Rightarrow> want_ways f | Relation \<Rightarrow> want_relations f)"

definition uses_index :: "BlobFilter \<Rightarrow> bool" where
  "uses_index f \<longleftrightarrow> \<not> (want_nodes f \<and> want_ways f \<and> want_relations f) \<or> node_bbox f \<noteq> None"

definition wants_index :: "BlobFilter \<Rightarrow> BlobIndex \<Rightarrow> bool" where
  "wants_index f index =
     (if \<not> wants f (kind index) then False
      else case (node_bbox f, kind index, bbox index) of
             (Some filter_bbox, Node, Some blob_bbox) \<Rightarrow> intersects filter_bbox blob_bbox
           | _ \<Rightarrow> True)"

definition has_tag_filter :: "BlobFilter \<Rightarrow> bool" where
  "has_tag_filter f \<longleftrightarrow> required_tag_keys f \<noteq> None \<or> required_tag_prefixes f \<noteq> None"

definition wants_tag_index :: "BlobFilter \<Rightarrow> TagIndex \<Rightarrow> bool" where
  "wants_tag_index f t =
     (if (case required_tag_keys f of Some keys \<Rightarrow> has_any_key t keys | None \<Rightarrow> False) then True
      else if (case required_tag_prefixes f of Some ps \<Rightarrow> has_any_prefix t ps | None \<Rightarrow> False) then True
      else \<not> has_tag_filter f)"

section \<open>Where the filter is applied\<close>

text \<open>
  A blob's header fields as the readers hold them: the indexdata carrier and the tagdata
  bytes, each optional. \<open>should_skip_blob\<close> is the pipelined reader's test,
  \<open>blob_filter_check\<close> the one of the schedule builder; the latter returns
  \<open>(skip, tag_skip)\<close> and never looks at \<open>node_bbox\<close>.
\<close>

record BlobFields =
  indexdata :: "bytes option"
  tagdata :: "bytes option"

definition blob_index :: "BlobFields \<Rightarrow> BlobIndex option" where
  "blob_index blob = Option.bind (indexdata blob) BlobIndex_deserialize"

definition blob_tag_index :: "BlobFields \<Rightarrow> TagIndex option" where
  "blob_tag_index blob = Option.bind (tagdata blob) TagIndex_deserialize"

definition should_skip_blob :: "BlobFilter \<Rightarrow> BlobFields \<Rightarrow> bool" where
  "should_skip_blob f blob =
     (if (case blob_index blob of Some idx \<Rightarrow> \<not> wants_index f idx | None \<Rightarrow> False) then True
      else if has_tag_filter f
              \<and> (case blob_tag_index blob of Some t \<Rightarrow> \<not> wants_tag_index f t | None \<Rightarrow> False)
      then True
      else False)"

definition blob_filter_check ::
    "BlobIndex option \<Rightarrow> bytes option \<Rightarrow> BlobFilter option \<Rightarrow> bool \<times> bool" where
  "blob_filter_check index tags flt =
     (case flt of
        None \<Rightarrow> (False, False)
      | Some f \<Rightarrow>
          if (case index of
                Some idx \<Rightarrow> kind idx = Node \<and> \<not> want_nodes f \<or> kind idx = Way \<and> \<not> want_ways f
                            \<or> kind idx = Relation \<and> \<not> want_relations f
              | None \<Rightarrow> False)
          then (True, False)
          else if has_tag_filter f
                  \<and> (case Option.bind tags TagIndex_deserialize of
                       Some t \<Rightarrow> \<not> wants_tag_index f t | None \<Rightarrow> False)
          then (True, True)
          else (False, False))"

section \<open>What an index survives\<close>

lemmas index_consts [wire_simps] =
  INDEX_VERSION_V1_def INDEX_VERSION_V2_def INDEX_VERSION_def INDEX_SIZE_V1_def INDEX_SIZE_def

definition bbox_wf :: "BlobBbox \<Rightarrow> bool" where
  "bbox_wf b \<longleftrightarrow> min_lat b \<le>s max_lat b \<and> min_lon b \<le>s max_lon b"

text \<open>The invariant of every index read: a non-empty ID range, a box only on a node index
  and never inverted.\<close>

definition index_wf :: "BlobIndex \<Rightarrow> bool" where
  "index_wf b \<longleftrightarrow> min_id b \<le>s max_id b \<and> (case bbox b of None \<Rightarrow> True | Some x \<Rightarrow> kind b = Node \<and> bbox_wf x)"

text \<open>The part of an index's box the format carries.\<close>

definition carried_bbox :: "BlobIndex \<Rightarrow> BlobBbox option" where
  "carried_bbox b =
     (case bbox b of
        Some x \<Rightarrow> if kind b = Node \<and> bbox_wf x then Some x else None
      | None \<Rightarrow> None)"

lemma carried_bbox_wf: "index_wf b \<Longrightarrow> carried_bbox b = bbox b"
  by (auto simp: index_wf_def carried_bbox_def split: option.splits)

lemma le_bytes_4: "\<exists>a b c d. le_bytes 4 (w :: i32) = [a, b, c, d] \<and> of_le_bytes [a, b, c, d] = w"
proof -
  have "length (le_bytes 4 w) = 4" by simp
  then obtain a b c d where "le_bytes 4 w = [a, b, c, d]"
    by (auto simp: length_Suc_conv numeral_eq_Suc simp del: length_le_bytes)
  moreover have "of_le_bytes (le_bytes 4 w) = w" by (rule of_le_bytes_id) simp
  ultimately show ?thesis by metis
qed

lemma slice_index_prefix:
  assumes "length x = 2" "length a = 8" "length b = 8" "length c = 8"
    "length d = 4" "length e = 4" "length f = 4" "length g = 4"
  shows "slice 2 10 (x @ a @ b @ c @ d @ e @ f @ g) = a" "slice 10 18 (x @ a @ b @ c @ d @ e @ f @ g) = b"
    "slice 18 26 (x @ a @ b @ c @ d @ e @ f @ g) = c" "slice 26 30 (x @ a @ b @ c @ d @ e @ f @ g) = d"
    "slice 30 34 (x @ a @ b @ c @ d @ e @ f @ g) = e" "slice 34 38 (x @ a @ b @ c @ d @ e @ f @ g) = f"
    "slice 38 42 (x @ a @ b @ c @ d @ e @ f @ g) = g"
  using assms by (simp_all add: slice_append_right)

definition bbox_words :: "BlobIndex \<Rightarrow> i32 list" where
  "bbox_words b = (case bbox b of None \<Rightarrow> BBOX_ABSENT | Some x \<Rightarrow> [min_lat x, max_lat x, min_lon x, max_lon x])"

lemma serialize_reads:
  fixes b :: BlobIndex
  defines "data \<equiv> BlobIndex_serialize b"
  shows "length data = 42" "hd data = INDEX_VERSION" "data ! Suc 0 = ordinal (kind b)"
    "read_u64 data 2 = Some (min_id b)" "read_u64 data 10 = Some (max_id b)" "read_u64 data 18 = Some (count b)"
    "read_i32 data 26 = Some (bbox_words b ! 0)" "read_i32 data 30 = Some (bbox_words b ! 1)"
    "read_i32 data 34 = Some (bbox_words b ! 2)" "read_i32 data 38 = Some (bbox_words b ! 3)"
proof -
  obtain p q r s where w: "bbox_words b = [p, q, r, s]"
    by (cases "bbox b") (simp_all add: bbox_words_def BBOX_ABSENT_def)
  have data: "data = [INDEX_VERSION, ordinal (kind b)] @ le_bytes 8 (min_id b) @ le_bytes 8 (max_id b)
      @ le_bytes 8 (count b) @ le_bytes 4 p @ le_bytes 4 q @ le_bytes 4 r @ le_bytes 4 s"
    using w by (simp add: data_def BlobIndex_serialize_def bbox_words_def)
  show len: "length data = 42" by (simp add: data)
  show "hd data = INDEX_VERSION" "data ! Suc 0 = ordinal (kind b)" by (simp_all add: data)
  note sl = slice_index_prefix [of "[INDEX_VERSION, ordinal (kind b)]" "le_bytes 8 (min_id b)" "le_bytes 8 (max_id b)"
      "le_bytes 8 (count b)" "le_bytes 4 p" "le_bytes 4 q" "le_bytes 4 r" "le_bytes 4 s", folded data]
  show "read_u64 data 2 = Some (min_id b)" "read_u64 data 10 = Some (max_id b)" "read_u64 data 18 = Some (count b)"
    using len sl by (simp_all add: read_u64_def le_at_def del: le_bytes.simps)
  show "read_i32 data 26 = Some (bbox_words b ! 0)" "read_i32 data 30 = Some (bbox_words b ! 1)"
    "read_i32 data 34 = Some (bbox_words b ! 2)" "read_i32 data 38 = Some (bbox_words b ! 3)"
    using len sl by (simp_all add: read_i32_def le_at_def w del: le_bytes.simps)
qed

lemma deserialize_serialize:
  "BlobIndex_deserialize (BlobIndex_serialize b) =
     (if max_id b <s min_id b then None else Some (b\<lparr>bbox := carried_bbox b\<rparr>))"
proof -
  have "BlobIndex_serialize b \<noteq> []" by (simp add: BlobIndex_serialize_def)
  moreover have "deserialize_bbox INDEX_VERSION (BlobIndex_serialize b) =
      Some (case bbox b of Some x \<Rightarrow> if bbox_wf x then Some x else None | None \<Rightarrow> None)"
    by (cases "bbox b")
      (auto simp: deserialize_bbox_def serialize_reads bbox_words_def BBOX_ABSENT_def bbox_wf_def signed_simps
        BlobBbox_new_def index_consts)
  ultimately show ?thesis
    by (cases "bbox b")
      (simp_all add: BlobIndex_deserialize_def serialize_reads version_size_def index_consts Let_def carried_bbox_def)
qed

lemma deserialize_wf: "BlobIndex_deserialize data = Some b \<Longrightarrow> index_wf b"
  by (auto simp: BlobIndex_deserialize_def deserialize_bbox_def index_wf_def bbox_wf_def BlobBbox_new_def
      signed_simps Let_def split: if_splits option.splits bind_splits)

section \<open>The carrier\<close>

lemma read_padded:
  "at + 8 \<le> length data \<Longrightarrow> read_u64 (data @ pad) at = read_u64 data at"
  by (simp add: read_u64_def le_at_def)

lemma carrier_deserialize:
  assumes "classify_wire_indexdata data = Carrier c"
  shows "length c = 42 \<and> BlobIndex_deserialize c = BlobIndex_deserialize data"
proof -
  from assms have c: "c = data @ replicate (42 - length data) 0"
    and len: "length data = 26 \<or> length data = 42"
    and v: "version_size (hd data) = None \<or> version_size (hd data) = Some (length data)"
    by (auto simp: classify_wire_indexdata_def Let_def index_consts split: if_splits option.splits)
  from len have ne: "data \<noteq> []" "hd c = hd data" "c ! Suc 0 = data ! Suc 0"
    by (auto simp: c nth_append hd_append)
  show ?thesis
  proof (cases "length data = 42")
    case True
    then show ?thesis by (simp add: c)
  next
    case False
    then have 26: "length data = 26" using len by blast
    then have "version_size (hd data) \<noteq> Some 42" using v by auto
    with 26 ne v show ?thesis
      by (auto simp: BlobIndex_deserialize_def c read_padded index_consts Let_def cong: if_cong)
  qed
qed

section \<open>Skipping\<close>

text \<open>
  The contract of a blob-level test: \<open>covers c e\<close> says the claim \<open>c\<close> is true of element
  \<open>e\<close>, \<open>sel f e\<close> that the caller of the filter wants \<open>e\<close>, \<open>keep f c\<close> is the test. A
  wanted element covered by the claim is never skipped.
\<close>

locale skip_test =
  fixes covers :: "'c \<Rightarrow> 'e \<Rightarrow> bool"
    and sel :: "'f \<Rightarrow> 'e \<Rightarrow> bool"
    and keep :: "'f \<Rightarrow> 'c \<Rightarrow> bool"
  assumes keep_sound: "covers c e \<Longrightarrow> sel f e \<Longrightarrow> keep f c"
begin

lemma skipped_none: "\<forall>e \<in> set es. covers c e \<Longrightarrow> \<not> keep f c \<Longrightarrow> filter (sel f) es = []"
  using keep_sound by (auto simp: filter_empty_conv)

text \<open>Reading only the kept blobs and filtering gives what filtering everything gives.\<close>

lemma filter_kept:
  "\<forall>(c, es) \<in> set blobs. \<forall>e \<in> set es. covers c e \<Longrightarrow>
    filter (sel f) (concat (map snd (filter (\<lambda>(c, es). keep f c) blobs))) = filter (sel f) (concat (map snd blobs))"
  by (induction blobs) (auto simp: skipped_none)

end

text \<open>What the filter looks at in an element: its kind, a node's coordinate and the tag keys.\<close>

record ElementView =
  view_kind :: ElementKind
  view_lat :: i32
  view_lon :: i32
  view_keys :: "bytes list"

definition in_bbox :: "BlobBbox \<Rightarrow> ElementView \<Rightarrow> bool" where
  "in_bbox b e \<longleftrightarrow> min_lat b \<le>s view_lat e \<and> view_lat e \<le>s max_lat b \<and>
     min_lon b \<le>s view_lon e \<and> view_lon e \<le>s max_lon b"

definition index_covers :: "BlobIndex \<Rightarrow> ElementView \<Rightarrow> bool" where
  "index_covers idx e \<longleftrightarrow> view_kind e = kind idx \<and>
     (case bbox idx of Some b \<Rightarrow> kind idx = Node \<longrightarrow> in_bbox b e | None \<Rightarrow> True)"

definition selects_place :: "BlobFilter \<Rightarrow> ElementView \<Rightarrow> bool" where
  "selects_place f e \<longleftrightarrow> wants f (view_kind e) \<and>
     (case node_bbox f of Some b \<Rightarrow> view_kind e = Node \<longrightarrow> in_bbox b e | None \<Rightarrow> True)"

definition tags_cover :: "TagIndex \<Rightarrow> ElementView \<Rightarrow> bool" where
  "tags_cover t e \<longleftrightarrow> ti_wf t \<and> set (view_keys e) \<subseteq> set (ti_keys t)"

definition selects_tags :: "BlobFilter \<Rightarrow> ElementView \<Rightarrow> bool" where
  "selects_tags f e \<longleftrightarrow>
     (has_tag_filter f \<longrightarrow>
        (\<exists>k \<in> set (view_keys e).
           (case required_tag_keys f of Some ks \<Rightarrow> k \<in> set ks | None \<Rightarrow> False) \<or>
           (case required_tag_prefixes f of Some ps \<Rightarrow> (\<exists>p \<in> set ps. starts_with k p) | None \<Rightarrow> False)))"

lemma in_bbox_intersects: "in_bbox a e \<Longrightarrow> in_bbox b e \<Longrightarrow> intersects a b"
  by (auto simp: in_bbox_def intersects_def signed_simps)

lemma contains_in_bbox: "bbox_contains a b \<Longrightarrow> in_bbox b e \<Longrightarrow> in_bbox a e"
  by (auto simp: in_bbox_def bbox_contains_def signed_simps)

interpretation by_index: skip_test index_covers selects_place wants_index
  by unfold_locales
    (auto simp: index_covers_def selects_place_def wants_index_def
      split: option.splits ElementKind.splits intro: in_bbox_intersects)

interpretation by_tags: skip_test tags_cover selects_tags wants_tag_index
proof (unfold_locales)
  fix t e f
  assume t: "tags_cover t e" and s: "selects_tags f e"
  then have wf: "ti_wf t" by (simp add: tags_cover_def)
  show "wants_tag_index f t"
    using t s unfolding tags_cover_def selects_tags_def wants_tag_index_def has_any_key_iff [OF wf]
      has_any_prefix_iff [OF wf]
    by (auto simp: disjoint_iff dest: subsetD split: option.splits)
qed

text \<open>The two header fields together: a missing or unreadable field claims nothing.\<close>

definition fields_cover :: "BlobFields \<Rightarrow> ElementView \<Rightarrow> bool" where
  "fields_cover blob e \<longleftrightarrow>
     (case blob_index blob of Some idx \<Rightarrow> index_covers idx e | None \<Rightarrow> True) \<and>
     (case blob_tag_index blob of Some t \<Rightarrow> set (view_keys e) \<subseteq> set (ti_keys t) | None \<Rightarrow> True)"

definition selects :: "BlobFilter \<Rightarrow> ElementView \<Rightarrow> bool" where
  "selects f e \<longleftrightarrow> selects_place f e \<and> selects_tags f e"

lemma blob_tag_index_wf: "blob_tag_index blob = Some t \<Longrightarrow> ti_wf t"
  by (auto simp: blob_tag_index_def split: bind_splits dest!: tag_enc_dec serialize_wf)

interpretation by_fields: skip_test fields_cover selects "\<lambda>f blob. \<not> should_skip_blob f blob"
proof (unfold_locales)
  fix blob e f
  assume c: "fields_cover blob e" and s: "selects f e"
  have "wants_index f idx" if "blob_index blob = Some idx" for idx
    using that c s by (auto simp: fields_cover_def selects_def intro: by_index.keep_sound)
  moreover have "wants_tag_index f t" if "blob_tag_index blob = Some t" for t
    using that c s blob_tag_index_wf [OF that]
    by (auto simp: fields_cover_def selects_def tags_cover_def intro: by_tags.keep_sound)
  ultimately show "\<not> should_skip_blob f blob"
    by (auto simp: should_skip_blob_def split: option.splits)
qed

section \<open>Properties\<close>

text \<open>
  Writing an index and reading it back. An inverted ID range is refused; otherwise
  kind, range and count survive unchanged, and the box survives exactly when the index is
  a node index and the box is not inverted, the zero box of a blob at (0, 0) included.
\<close>

theorem blob_index_roundtrip:
  "BlobIndex_deserialize (BlobIndex_serialize b) =
     (if max_id b <s min_id b then None
      else Some (b\<lparr>bbox := (case bbox b of
              Some x \<Rightarrow> if kind b = Node \<and> min_lat x \<le>s max_lat x \<and> min_lon x \<le>s max_lon x
                        then Some x else None
            | None \<Rightarrow> None)\<rparr>))"
  using deserialize_serialize [of b] by (simp add: carried_bbox_def bbox_wf_def cong: option.case_cong)

text \<open>
  The fixed-size carrier is lossless. A field the classifier accepts deserializes from
  its zero-padded 42-byte carrier to exactly what the field itself says, and whatever is
  read is well formed: a non-inverted range, a box only on a node index and never inverted.
\<close>

theorem carrier_lossless:
  assumes "classify_wire_indexdata field = Carrier c"
  shows "length c = 42 \<and> BlobIndex_deserialize c = BlobIndex_deserialize field \<and>
    (\<forall>b. BlobIndex_deserialize c = Some b \<longrightarrow> index_wf b)"
  using carrier_deserialize [OF assms] deserialize_wf by blast

theorem carrier_lossless_witness:
  "BlobIndex_deserialize ([1, 1] @ replicate 40 0) = BlobIndex_deserialize ([1, 1] @ replicate 24 0)"
proof -
  have "classify_wire_indexdata ([1, 1] @ replicate 24 0) = Carrier ([1, 1] @ replicate 40 0)"
    by code_simp
  from carrier_lossless [OF this] show ?thesis by simp
qed

text \<open>
  C33: skipping blobs loses nothing. Over any sequence of blobs whose header fields are
  true of their elements, decoding only the blobs the pipeline does not skip and then
  filtering gives the same elements, in the same order, as filtering every element.
\<close>

theorem skip_keeps_selection:
  assumes "\<forall>(blob, es) \<in> set file. \<forall>e \<in> set es. fields_cover blob e"
  shows "filter (selects f) (concat (map snd (filter (\<lambda>(blob, es). \<not> should_skip_blob f blob) file))) =
    filter (selects f) (concat (map snd file))"
  using by_fields.filter_kept [OF assms] .

theorem skip_keeps_selection_witness:
  "filter (selects only_ways)
     (concat (map snd (filter (\<lambda>(blob, es). \<not> should_skip_blob only_ways blob)
        [(\<lparr>indexdata = Some ([1, 0] @ replicate 24 0), tagdata = None\<rparr>,
          [\<lparr>view_kind = Node, view_lat = 0, view_lon = 0, view_keys = []\<rparr>])]))) = []"
proof -
  let ?file = "[(\<lparr>indexdata = Some ([1, 0] @ replicate 24 0), tagdata = None\<rparr>,
    [\<lparr>view_kind = Node, view_lat = 0, view_lon = 0, view_keys = []\<rparr>])]"
  have "BlobIndex_deserialize ([1, 0] @ replicate 24 0) =
      Some \<lparr>kind = Node, min_id = 0, max_id = 0, count = 0, bbox = None\<rparr>" by code_simp
  then have "\<forall>(blob, es) \<in> set ?file. \<forall>e \<in> set es. fields_cover blob e"
    by (simp add: fields_cover_def blob_index_def blob_tag_index_def index_covers_def)
  from skip_keeps_selection [OF this, of only_ways] show ?thesis
    by (simp add: selects_def selects_place_def wants_def only_ways_def BlobFilter_new_def)
qed

text \<open>
  The two copies of the skip rule agree. For a filter without a node box, the schedule
  builder's check and the pipeline's check skip the same blobs; with a box the schedule
  builder only ever skips fewer.
\<close>

theorem skip_rules_agree:
  "fst (blob_filter_check (blob_index blob) (tagdata blob) (Some f)) =
     should_skip_blob (f\<lparr>node_bbox := None\<rparr>) blob \<and>
   (fst (blob_filter_check (blob_index blob) (tagdata blob) (Some f)) \<le> should_skip_blob f blob)"
  unfolding blob_filter_check_def should_skip_blob_def blob_tag_index_def wants_index_def wants_def
    wants_tag_index_def has_tag_filter_def
  by (auto split: option.splits ElementKind.splits)

text \<open>
  A bbox claim that a scan confirms (or that makes no spatial claim) may be trusted:
  every element the scanned index covers is covered by the stored one, so a blob skipped
  by the stored index holds no selected element.
\<close>

theorem confirmed_claim_trusted:
  assumes "kind stored = kind scanned" "bbox_claim stored scanned \<in> {Absent, Holds}"
    "\<forall>e \<in> set es. index_covers scanned e" "\<not> wants_index f stored"
  shows "filter (selects_place f) es = []"
proof (rule by_index.skipped_none [OF _ assms(4)])
  show "\<forall>e \<in> set es. index_covers stored e"
    using assms(1-3) contains_in_bbox
    by (auto simp: bbox_claim_def index_covers_def split: option.splits if_splits)
qed

theorem confirmed_claim_trusted_witness:
  "filter (selects_place (with_node_bbox only_nodes (BlobBbox_new 5 6 5 6)))
     [\<lparr>view_kind = Node, view_lat = 1, view_lon = 1, view_keys = []\<rparr>] = []"
proof -
  let ?e = "\<lparr>view_kind = Node, view_lat = 1, view_lon = 1, view_keys = []\<rparr>"
  let ?stored = "\<lparr>kind = Node, min_id = 1, max_id = 1, count = 1, bbox = Some (BlobBbox_new 0 2 0 2)\<rparr>"
  let ?scanned = "\<lparr>kind = Node, min_id = 1, max_id = 1, count = 1, bbox = Some (BlobBbox_new 1 1 1 1)\<rparr>"
  have "bbox_claim ?stored ?scanned \<in> {Absent, Holds}" "\<forall>e \<in> set [?e]. index_covers ?scanned e"
    "\<not> wants_index (with_node_bbox only_nodes (BlobBbox_new 5 6 5 6)) ?stored"
    by (simp_all add: bbox_claim_def bbox_contains_def BlobBbox_new_def index_covers_def in_bbox_def wants_index_def
        wants_def with_node_bbox_def only_nodes_def BlobFilter_new_def intersects_def signed_simps)
  from confirmed_claim_trusted [OF _ this] show ?thesis by simp
qed

end
