(* ===== verification/Osm_Id.thy ===== *)
theory Osm_Id
  imports Element_Kind
begin

text \<open>
  The value semantics of OSM element IDs, \<open>src/src/osm_id.rs\<close>: the canonical order key,
  the key bounds of a blob's numeric ID range, and \<open>OrderWatermark\<close>, the running bound
  that sorted readers and writers refuse disorder with. The key is shown to be an
  order isomorphism onto its image (injective, invertible, ordered as documented), the
  range keys to bound every ID of the range, and the watermark to refuse exactly the
  disorder of the blobs it was shown.
\<close>

section \<open>Definitions\<close>

type_synonym OsmIdKey = "u8 \<times> u64"

text \<open>\<open>i64::unsigned_abs\<close>\<close>

definition unsigned_abs :: "i64 \<Rightarrow> u64" where
  "unsigned_abs x = (if x <s 0 then - x else x)"

definition osm_id_key :: "i64 \<Rightarrow> OsmIdKey" where
  "osm_id_key i =
     (if 0 <s i then (2, unsigned_abs i)
      else if i = 0 then (0, 0)
      else (1, unsigned_abs i))"

definition osm_id_from_key :: "OsmIdKey \<Rightarrow> i64" where
  "osm_id_from_key key =
     (if fst key = 0 then 0
      else if fst key = 1 then - snd key
      else snd key)"

datatype Ordering = Less | Equal | Greater

definition cmp :: "'a::linorder \<Rightarrow> 'a \<Rightarrow> Ordering" where
  "cmp a b = (if a < b then Less else if a = b then Equal else Greater)"

definition osm_id_cmp :: "i64 \<Rightarrow> i64 \<Rightarrow> Ordering" where
  "osm_id_cmp a b = cmp (osm_id_key a) (osm_id_key b)"

definition blob_osm_first_key :: "i64 \<Rightarrow> i64 \<Rightarrow> OsmIdKey" where
  "blob_osm_first_key min_id max_id =
     (if 0 \<le>s min_id then osm_id_key min_id
      else if max_id \<le>s 0 then osm_id_key max_id
      else osm_id_key 0)"

definition blob_osm_last_key :: "i64 \<Rightarrow> i64 \<Rightarrow> OsmIdKey" where
  "blob_osm_last_key min_id max_id =
     (if 0 \<le>s min_id then osm_id_key max_id
      else if max_id \<le>s 0 then osm_id_key min_id
      else osm_id_key max_id)"

definition blob_osm_first_id :: "i64 \<Rightarrow> i64 \<Rightarrow> i64" where
  "blob_osm_first_id min_id max_id =
     (if 0 \<le>s min_id then min_id else if max_id \<le>s 0 then max_id else 0)"

definition blob_osm_last_id :: "i64 \<Rightarrow> i64 \<Rightarrow> i64" where
  "blob_osm_last_id min_id max_id =
     (if max_id \<le>s 0 \<and> min_id <s 0 then min_id else max_id)"

definition blob_osm_present_first_key :: "i64 \<Rightarrow> i64 \<Rightarrow> OsmIdKey" where
  "blob_osm_present_first_key min_id max_id =
     (if min_id <s 0 \<and> 0 <s max_id then osm_id_key min_id
      else blob_osm_first_key min_id max_id)"

record OrderViolation =
  previous_kind :: u8
  previous_id :: i64
  first_id :: i64

record OrderWatermark =
  wm_last :: "(u8 \<times> OsmIdKey) option"

definition OrderWatermark_default :: OrderWatermark where
  "OrderWatermark_default = \<lparr>wm_last = None\<rparr>"

definition observe_keys ::
  "OrderWatermark \<Rightarrow> u8 \<Rightarrow> OsmIdKey \<Rightarrow> OsmIdKey \<Rightarrow> OrderViolation + OrderWatermark" where
  "observe_keys w kind first last_key =
     (let last = max last_key first in
      case wm_last w of
        None \<Rightarrow> Inr (w\<lparr>wm_last := Some (kind, last)\<rparr>)
      | Some (prev_kind, prev_last) \<Rightarrow>
          if kind < prev_kind \<or> (kind = prev_kind \<and> first < prev_last)
          then Inl \<lparr>previous_kind = prev_kind,
                    previous_id = osm_id_from_key prev_last,
                    first_id = osm_id_from_key first\<rparr>
          else Inr (w\<lparr>wm_last := Some (kind,
                 if kind = prev_kind then max last prev_last else last)\<rparr>))"

definition observe :: "OrderWatermark \<Rightarrow> u8 \<Rightarrow> i64 \<Rightarrow> i64 \<Rightarrow> OrderViolation + OrderWatermark" where
  "observe w kind min_id max_id =
     observe_keys w kind
       (blob_osm_present_first_key min_id max_id)
       (blob_osm_last_key min_id max_id)"

section \<open>The key\<close>

lemma uint_unsigned_abs: "uint (unsigned_abs x) = \<bar>sint x\<bar>"
proof (cases "x <s 0")
  case True
  then have neg: "sint x < 0" by (simp add: signed_simps)
  have "uint (- x) = (- uint x) mod 2 ^ 64" by (simp add: uint_word_ariths(4))
  also have "\<dots> = (- sint x) mod 2 ^ 64" by (simp add: uint_sint_mod [of x] mod_minus_eq)
  also have "\<dots> = - sint x"
    using neg i64_bounds(1) [of x] by (intro mod_pos_pos_trivial) auto
  finally show ?thesis using True neg by (simp add: unsigned_abs_def)
next
  case False
  then show ?thesis by (simp add: unsigned_abs_def signed_simps uint_sint_nonneg)
qed

lemma sint_0_iff [simp]: "sint x = 0 \<longleftrightarrow> x = 0" for x :: i64
  using sint_eq_iff [of x 0] by simp

text \<open>Canonical order, as documented: 0, then negatives by magnitude, then positives.\<close>

definition osm_before :: "int \<Rightarrow> int \<Rightarrow> bool" where
  "osm_before a b \<longleftrightarrow>
     (a = 0 \<and> b \<noteq> 0) \<or> (a < 0 \<and> 0 < b) \<or> (a < 0 \<and> b < a) \<or> (0 < a \<and> a < b)"

lemma osm_id_key_less: "osm_id_key a < osm_id_key b \<longleftrightarrow> osm_before (sint a) (sint b)"
  by (auto simp: osm_id_key_def osm_before_def less_prod_simp signed_simps
      word_less_def word_le_def uint_unsigned_abs sint_0_iff [symmetric] simp del: sint_0_iff)

lemma osm_id_from_key_key [simp]: "osm_id_from_key (osm_id_key i) = i"
  by (auto simp: osm_id_key_def osm_id_from_key_def unsigned_abs_def signed_simps)

lemma osm_id_key_inj [simp]: "osm_id_key a = osm_id_key b \<longleftrightarrow> a = b"
  by (metis osm_id_from_key_key)

lemma osm_id_key_0_le [simp]: "osm_id_key 0 \<le> k"
  by (cases k) (auto simp: osm_id_key_def less_eq_prod_simp word_neq_0_conv)

lemma osm_before_trichotomy: "osm_before a b \<or> a = b \<or> osm_before b a"
  by (auto simp: osm_before_def)

lemma osm_id_key_le: "osm_id_key a \<le> osm_id_key b \<longleftrightarrow> osm_before (sint a) (sint b) \<or> a = b"
  by (auto simp: le_less osm_id_key_less)

section \<open>The contract of an ID key\<close>

text \<open>
  What every merge, search and order check of the program relies on: an injective key
  into a linear order, with its inverse. \<open>ids_sorted\<close> is the order those components keep
  their ID lists in.
\<close>

locale id_key =
  fixes key :: "'i \<Rightarrow> 'k::linorder"
    and unkey :: "'k \<Rightarrow> 'i"
  assumes unkey_key: "unkey (key i) = i"
begin

lemma key_eq [simp]: "key a = key b \<longleftrightarrow> a = b"
  by (metis unkey_key)

lemma cmp_Equal: "cmp (key a) (key b) = Equal \<longleftrightarrow> a = b"
  by (auto simp: cmp_def)

lemma cmp_Less: "cmp (key a) (key b) = Less \<longleftrightarrow> key a < key b"
  by (auto simp: cmp_def)

lemma strict_sorted_distinct: "sorted_wrt (<) (map key ids) \<longleftrightarrow> sorted (map key ids) \<and> distinct ids"
  by (simp add: strict_sorted_iff distinct_map inj_on_def)

text \<open>A search by partition point finds a member of a key-sorted list.\<close>

lemma partition_point_member:
  assumes "sorted (map key ids)"
  shows "(let p = partition_point (\<lambda>x. key x < key i) ids in p < length ids \<and> ids ! p = i) \<longleftrightarrow>
    i \<in> set ids"
proof -
  have "sorted (map key ids) \<Longrightarrow> i \<in> set ids \<Longrightarrow> \<exists>n < length ids. (\<forall>j < n. key (ids ! j) < key i) \<and> ids ! n = i"
  proof (induction ids)
    case Nil
    then show ?case by simp
  next
    case (Cons x xs)
    show ?case
    proof (cases "x = i")
      case True
      then show ?thesis by (intro exI [of _ 0]) simp
    next
      case False
      with Cons obtain n where n: "n < length xs" "\<forall>j < n. key (xs ! j) < key i" "xs ! n = i" by auto
      have "key x < key i"
        using Cons.prems False by (auto simp: le_less)
      with n show ?thesis
        by (intro exI [of _ "Suc n"]) (auto simp: less_Suc_eq_0_disj)
    qed
  qed
  with assms partition_point_hit [OF assms, of "key i" "\<lambda>x. x = i"] show ?thesis
    by (auto simp: Let_def)
qed

end

interpretation osm: id_key osm_id_key osm_id_from_key
  by unfold_locales simp

interpretation osm_key: codec "\<lambda>i. Some (osm_id_key i)" "\<lambda>k. Some (osm_id_from_key k)"
  by unfold_locales auto

section \<open>Canonical order\<close>

text \<open>
  Comparing two IDs by their keys is the documented canonical order (0 first, then
  negative IDs by ascending magnitude, then positive IDs), and only equal IDs compare
  equal, over the whole range of \<open>i64\<close> including \<open>i64::MIN\<close>.
\<close>

theorem osm_id_cmp_canonical:
  "osm_id_cmp a b =
     (if osm_before (sint a) (sint b) then Less else if a = b then Equal else Greater)"
  by (simp add: osm_id_cmp_def cmp_def osm_id_key_less)

lemma osm_id_key_pos_mono: "0 \<le> sint a \<Longrightarrow> osm_id_key a \<le> osm_id_key b \<longleftrightarrow> sint a \<le> sint b"
  if "0 \<le> sint b" for a b
  using that
  by (auto simp: osm_id_key_le osm_before_def sint_eq_iff [symmetric] simp del: sint_0_iff)

section \<open>Keys of a blob's ID range\<close>

lemma range_key_bounds:
  assumes "min_id \<le>s i" "i \<le>s max_id"
  shows "blob_osm_first_key min_id max_id \<le> osm_id_key i"
    and "osm_id_key i \<le> blob_osm_last_key min_id max_id"
  using assms
  by (auto simp: blob_osm_first_key_def blob_osm_last_key_def osm_id_key_le osm_before_def
      signed_simps sint_eq_iff [symmetric] simp del: sint_0_iff)

lemma first_id_key: "osm_id_key (blob_osm_first_id a b) = blob_osm_first_key a b"
  by (simp add: blob_osm_first_id_def blob_osm_first_key_def)

lemma last_id_key: "osm_id_key (blob_osm_last_id a b) = blob_osm_last_key a b"
  by (auto simp: blob_osm_last_id_def blob_osm_last_key_def signed_simps)

text \<open>The bounds an exact range (both ends present) gives for a set of IDs.\<close>

definition exact_range :: "i64 \<Rightarrow> i64 \<Rightarrow> i64 set \<Rightarrow> bool" where
  "exact_range lo hi S \<longleftrightarrow> lo \<in> S \<and> hi \<in> S \<and> (\<forall>i \<in> S. lo \<le>s i \<and> i \<le>s hi)"

lemma last_key_present:
  assumes "exact_range lo hi S"
  shows "blob_osm_last_key lo hi \<in> osm_id_key ` S"
  using assms by (auto simp: exact_range_def blob_osm_last_key_def)

lemma present_first_key_present:
  assumes "exact_range lo hi S"
  shows "blob_osm_present_first_key lo hi \<in> osm_id_key ` S"
  using assms
  by (auto simp: exact_range_def blob_osm_present_first_key_def blob_osm_first_key_def signed_simps)

lemma last_key_greatest:
  assumes "exact_range lo hi S" "i \<in> S"
  shows "osm_id_key i \<le> blob_osm_last_key lo hi"
  using assms range_key_bounds(2) by (auto simp: exact_range_def)

section \<open>The order watermark\<close>

text \<open>Observing a sequence of blobs, each given as its kind, first key and last key.\<close>

fun watermark_run ::
  "OrderWatermark \<Rightarrow> (u8 \<times> OsmIdKey \<times> OsmIdKey) list \<Rightarrow> OrderViolation + OrderWatermark" where
  "watermark_run w [] = Inr w"
| "watermark_run w ((k, f, l) # blobs) =
     (case observe_keys w k f l of Inl e \<Rightarrow> Inl e | Inr w' \<Rightarrow> watermark_run w' blobs)"

text \<open>A blob is its kind and its IDs in file order; its elements are ordered by kind, then key.\<close>

type_synonym id_blob = "u8 \<times> i64 list"

definition blob_keys :: "id_blob \<Rightarrow> (u8 \<times> OsmIdKey) list" where
  "blob_keys b = map (\<lambda>i. (fst b, osm_id_key i)) (snd b)"

definition decoded_blob :: "id_blob \<Rightarrow> bool" where
  "decoded_blob b \<longleftrightarrow> snd b \<noteq> [] \<and> sorted (map osm_id_key (snd b))"

text \<open>One observation of a blob whose \<open>f\<close> is some key of the blob and \<open>l\<close> its last.\<close>

lemma observe_keys_step:
  assumes "f \<le> l"
  shows "wm_last w = None \<Longrightarrow> observe_keys w k f l = Inr \<lparr>wm_last = Some (k, l)\<rparr>"
    and "wm_last w = Some p \<Longrightarrow> p \<le> (k, f) \<Longrightarrow> observe_keys w k f l = Inr \<lparr>wm_last = Some (k, l)\<rparr>"
    and "wm_last w = Some p \<Longrightarrow> \<not> p \<le> (k, f) \<Longrightarrow> \<exists>e. observe_keys w k f l = Inl e"
  using assms
  by (cases w; cases p; auto simp: observe_keys_def Let_def less_eq_prod_simp max_def)+

text \<open>What the run does with the blobs after a first one whose last key is \<open>p\<close>.\<close>

lemma watermark_run_from:
  assumes "\<forall>b \<in> set blobs. decoded_blob b" "wm_last w = Some p"
  shows "isl (watermark_run w (map (\<lambda>(k, is). (k, osm_id_key (hd is), osm_id_key (last is))) blobs)) \<longleftrightarrow>
    \<not> sorted (p # concat (map blob_keys blobs))"
  using assms
proof (induction blobs arbitrary: w p)
  case Nil
  then show ?case by simp
next
  case (Cons b blobs)
  obtain k "is" where b: "b = (k, is)" by fastforce
  let ?f = "osm_id_key (hd is)" and ?l = "osm_id_key (last is)"
  from Cons.prems b have ne: "is \<noteq> []" and so: "sorted (map osm_id_key is)"
    by (auto simp: decoded_blob_def)
  have fl: "?f \<le> ?l"
    using so ne by (intro sorted_le_last [of "map osm_id_key is", unfolded last_map [OF ne]]) auto
  have seg: "blob_keys b \<noteq> []" "hd (blob_keys b) = (k, ?f)" "last (blob_keys b) = (k, ?l)"
    "sorted (blob_keys b)"
    using ne so
    by (simp_all add: b blob_keys_def hd_map last_map sorted_map less_eq_prod_simp)
  show ?case
  proof (cases "p \<le> (k, ?f)")
    case True
    with observe_keys_step(2) [OF fl Cons.prems(2)] Cons.IH [of "\<lparr>wm_last = Some (k, ?l)\<rparr>" "(k, ?l)"]
      Cons.prems(1) seg show ?thesis
      by (simp add: b sorted_join del: sorted_wrt.simps)
  next
    case False
    then obtain e where "observe_keys w k ?f ?l = Inl e"
      using observe_keys_step(3) [OF fl Cons.prems(2)] by blast
    with False seg show ?thesis by (simp add: b sorted_join del: sorted_wrt.simps)
  qed
qed

text \<open>
  A watermark shown the decoded first and last key of each blob in file order
  accepts the file exactly when the whole element sequence is ordered by kind, then
  canonical ID (equal IDs allowed): disorder across any two blobs is refused, and no
  ordered file is.
\<close>

theorem watermark_exact:
  assumes "\<forall>b \<in> set blobs. decoded_blob b"
  shows "(\<exists>w. watermark_run OrderWatermark_default
           (map (\<lambda>(k, is). (k, osm_id_key (hd is), osm_id_key (last is))) blobs) = Inr w) \<longleftrightarrow>
         sorted (concat (map blob_keys blobs))"
proof (cases blobs)
  case Nil
  then show ?thesis by simp
next
  case (Cons b rest)
  obtain k "is" where b: "b = (k, is)" by fastforce
  have ne: "is \<noteq> []" and so: "sorted (map osm_id_key is)"
    using assms by (auto simp: decoded_blob_def Cons b)
  have fl: "osm_id_key (hd is) \<le> osm_id_key (last is)"
    using so ne by (intro sorted_le_last [of "map osm_id_key is", unfolded last_map [OF ne]]) auto
  have "blob_keys b \<noteq> []" "last (blob_keys b) = (k, osm_id_key (last is))" "sorted (blob_keys b)"
    using ne so by (simp_all add: b blob_keys_def last_map sorted_map less_eq_prod_simp)
  then have "sorted (concat (map blob_keys blobs)) \<longleftrightarrow>
      sorted ((k, osm_id_key (last is)) # concat (map blob_keys rest))"
    by (simp add: Cons sorted_append_last del: sorted_wrt.simps)
  moreover have "observe_keys OrderWatermark_default k (osm_id_key (hd is)) (osm_id_key (last is)) =
      Inr \<lparr>wm_last = Some (k, osm_id_key (last is))\<rparr>"
    using observe_keys_step(1) [OF fl] by (simp add: OrderWatermark_default_def)
  ultimately show ?thesis
    using watermark_run_from [of rest "\<lparr>wm_last = Some (k, osm_id_key (last is))\<rparr>"] assms
    by (simp add: Cons b ex_Inr_iff del: sorted_wrt.simps)
qed

theorem watermark_exact_witness:
  "(\<exists>w. watermark_run OrderWatermark_default
      (map (\<lambda>(k, is). (k, osm_id_key (hd is), osm_id_key (last is)))
        [(0, [- 1, 4]), (0, [3]), (1, [2])]) = Inr w) \<longleftrightarrow>
   sorted (concat (map blob_keys [(0, [- 1, 4]), (0, [3]), (1, [2])]))"
  by (rule watermark_exact) (simp add: decoded_blob_def osm_id_key_le osm_before_def)

text \<open>The same run with each blob given by its indexdata range.\<close>

fun watermark_observe_run ::
  "OrderWatermark \<Rightarrow> (u8 \<times> i64 \<times> i64) list \<Rightarrow> OrderViolation + OrderWatermark" where
  "watermark_observe_run w [] = Inr w"
| "watermark_observe_run w ((k, lo, hi) # blobs) =
     (case observe w k lo hi of Inl e \<Rightarrow> Inl e | Inr w' \<Rightarrow> watermark_observe_run w' blobs)"

definition ranged_blob :: "(u8 \<times> i64 \<times> i64) \<times> i64 list \<Rightarrow> bool" where
  "ranged_blob b \<longleftrightarrow> (case b of ((k, lo, hi), is) \<Rightarrow> exact_range lo hi (set is))"

lemma observe_run_sorted:
  assumes "\<forall>b \<in> set blobs. ranged_blob b"
    "sorted (case wm_last w of None \<Rightarrow> xs | Some p \<Rightarrow> p # xs)"
    "xs = concat (map (\<lambda>((k, _), is). blob_keys (k, is)) blobs)"
  shows "\<exists>w'. watermark_observe_run w (map fst blobs) = Inr w'"
  using assms
proof (induction blobs arbitrary: w xs)
  case Nil
  then show ?case by simp
next
  case (Cons b blobs)
  obtain k lo hi "is" where b: "b = ((k, lo, hi), is)" by (metis prod.exhaust)
  let ?f = "blob_osm_present_first_key lo hi" and ?l = "blob_osm_last_key lo hi"
  define rest where "rest = concat (map (\<lambda>((k, _), is). blob_keys (k, is)) blobs)"
  have xr: "exact_range lo hi (set is)"
    using Cons.prems(1) by (simp add: ranged_blob_def b)
  have xs: "xs = blob_keys (k, is) @ rest"
    using Cons.prems(3) by (simp add: b rest_def)
  obtain i j where i: "i \<in> set is" "?f = osm_id_key i" and j: "j \<in> set is" "?l = osm_id_key j"
    using present_first_key_present [OF xr] last_key_present [OF xr] by blast
  have fl: "?f \<le> ?l" using last_key_greatest [OF xr i(1)] i(2) by simp
  have "sorted ((k, ?l) # rest)"
    using Cons.prems(2) j by (force simp: xs sorted_append blob_keys_def split: option.splits)
  then have "\<exists>w'. watermark_observe_run \<lparr>wm_last = Some (k, ?l)\<rparr> (map fst blobs) = Inr w'"
    using Cons.prems(1) by (intro Cons.IH) (auto simp: rest_def)
  moreover have "observe_keys w k ?f ?l = Inr \<lparr>wm_last = Some (k, ?l)\<rparr>"
  proof (cases "wm_last w")
    case None
    then show ?thesis by (rule observe_keys_step(1) [OF fl])
  next
    case (Some p)
    moreover have "(k, ?f) \<in> set xs" using i by (simp add: xs blob_keys_def)
    ultimately have "p \<le> (k, ?f)" using Cons.prems(2) by simp
    then show ?thesis by (rule observe_keys_step(2) [OF fl Some])
  qed
  ultimately show ?case by (simp add: b observe_def)
qed

text \<open>
  Given only exact indexdata ranges, the watermark refuses only disorder it has
  proof of: a file whose elements are in order, mixed-sign ranges included, is always
  accepted.
\<close>

theorem observe_no_false_refusal:
  assumes "\<forall>b \<in> set blobs. ranged_blob b"
    and "sorted (concat (map (\<lambda>((k, _), is). blob_keys (k, is)) blobs))"
  shows "\<exists>w. watermark_observe_run OrderWatermark_default (map fst blobs) = Inr w"
  using observe_run_sorted [OF assms(1)] assms(2) by (simp add: OrderWatermark_default_def)

theorem observe_no_false_refusal_witness:
  "\<exists>w. watermark_observe_run OrderWatermark_default
     (map fst [((0, - 1, - 1), [- 1 :: i64]), ((0, - 2, 1), [- 2, 1])]) = Inr w"
  by (rule observe_no_false_refusal)
    (simp_all add: ranged_blob_def exact_range_def signed_simps blob_keys_def less_eq_prod_simp
      osm_id_key_le osm_before_def)

end
