(* ===== verification/Tally.thy ===== *)
theory Tally
  imports Blob_Index Osm_Id
begin

text \<open>
  The claim checks of \<open>src/src/blob_meta/tally.rs\<close>: \<open>IdTally\<close> (count and extremes of the
  IDs a walk saw), \<open>ClaimWalk\<close> (a complete walk checked against the blob's indexdata claim
  and, when asked, canonical order), and \<open>AscendingTally\<close>, the cheap walk for non-negative
  claims. Shown: a claim walk accepts exactly the ordered ID sequences its claim is exact
  for, the cheap walk reaches the same verdict, and the replay that names a refusal always
  finds one.
\<close>

section \<open>Definitions\<close>

record IdTally =
  t_count :: u64
  t_min :: i64
  t_max :: i64

definition IdTally_default :: IdTally where
  "IdTally_default = \<lparr>t_count = 0, t_min = i64_MAX, t_max = i64_MIN\<rparr>"

definition IdTally_add :: "IdTally \<Rightarrow> i64 \<Rightarrow> IdTally" where
  "IdTally_add t i = \<lparr>t_count = t_count t + 1, t_min = smin (t_min t) i, t_max = smax (t_max t) i\<rparr>"

definition IdTally_of :: "u64 \<Rightarrow> i64 \<Rightarrow> i64 \<Rightarrow> IdTally" where
  "IdTally_of n lo hi = (if n = 0 then IdTally_default else \<lparr>t_count = n, t_min = lo, t_max = hi\<rparr>)"

definition IdTally_escapes :: "IdTally \<Rightarrow> BlobIndex \<Rightarrow> bool" where
  "IdTally_escapes t claim \<longleftrightarrow> t_count t \<noteq> 0 \<and> (t_min t <s min_id claim \<or> max_id claim <s t_max t)"

text \<open>The refusals, with the values their messages name.\<close>

datatype tally_error =
    IndexdataMismatch BlobIndex IdTally bool \<comment> \<open>claim, found, whether the walk was complete\<close>
  | Unsorted string i64 i64 \<comment> \<open>context, the ID, the ID it follows\<close>
  | NegativeClaim i64
  | ReplayPassed

definition IdTally_mismatch :: "IdTally \<Rightarrow> BlobIndex \<Rightarrow> bool \<Rightarrow> tally_error" where
  "IdTally_mismatch t claim complete = IndexdataMismatch claim t complete"

definition IdTally_refuse_inexact :: "IdTally \<Rightarrow> BlobIndex \<Rightarrow> tally_error + unit" where
  "IdTally_refuse_inexact t claim =
     (if t_count t \<noteq> 0 \<and> t_count t = count claim \<and> t_min t = min_id claim \<and> t_max t = max_id claim
      then Inr () else Inl (IdTally_mismatch t claim True))"

datatype Order = Required string | Free

record ClaimWalk =
  cw_claim :: "BlobIndex option"
  cw_order :: Order
  cw_tally :: IdTally
  cw_first :: i64
  cw_previous :: OsmIdKey

definition ClaimWalk_new :: "BlobIndex option \<Rightarrow> Order \<Rightarrow> ClaimWalk" where
  "ClaimWalk_new claim order =
     \<lparr>cw_claim = claim, cw_order = order, cw_tally = IdTally_default, cw_first = 0,
      cw_previous = osm_id_key 0\<rparr>"

definition ClaimWalk_disorder :: "ClaimWalk \<Rightarrow> i64 \<Rightarrow> tally_error" where
  "ClaimWalk_disorder w i =
     (let unsorted =
        Unsorted (case cw_order w of Required ctxt \<Rightarrow> ctxt | Free \<Rightarrow> []) i (osm_id_from_key (cw_previous w)) in
      case cw_claim w of
        Some claim \<Rightarrow>
          (let seen = IdTally_add (cw_tally w) i in
           if IdTally_escapes seen claim then IdTally_mismatch seen claim False else unsorted)
      | None \<Rightarrow> unsorted)"

definition ClaimWalk_observe :: "ClaimWalk \<Rightarrow> i64 \<Rightarrow> tally_error + ClaimWalk" where
  "ClaimWalk_observe w i =
     (let key = osm_id_key i;
          record_id = (\<lambda>w. w\<lparr>cw_first := (if t_count (cw_tally w) = 0 then i else cw_first w),
                             cw_tally := IdTally_add (cw_tally w) i\<rparr>) in
      case cw_order w of
        Required _ \<Rightarrow>
          if key < cw_previous w then Inl (ClaimWalk_disorder w i)
          else Inr (record_id (w\<lparr>cw_previous := key\<rparr>))
      | Free \<Rightarrow> Inr (record_id w))"

definition ClaimWalk_first :: "ClaimWalk \<Rightarrow> i64 option" where
  "ClaimWalk_first w = (if t_count (cw_tally w) \<noteq> 0 then Some (cw_first w) else None)"

definition ClaimWalk_finish :: "ClaimWalk \<Rightarrow> tally_error + i64 option" where
  "ClaimWalk_finish w =
     (case cw_claim w of
        Some claim \<Rightarrow>
          (case IdTally_refuse_inexact (cw_tally w) claim of
             Inl e \<Rightarrow> Inl e
           | Inr _ \<Rightarrow> Inr (ClaimWalk_first w))
      | None \<Rightarrow> Inr (ClaimWalk_first w))"

text \<open>The loop of a caller: every ID in turn, stopping at the first refusal.\<close>

fun observe_all :: "ClaimWalk \<Rightarrow> i64 list \<Rightarrow> tally_error + ClaimWalk" where
  "observe_all w [] = Inr w"
| "observe_all w (i # is) =
     (case ClaimWalk_observe w i of Inl e \<Rightarrow> Inl e | Inr w' \<Rightarrow> observe_all w' is)"

definition claim_walk :: "BlobIndex option \<Rightarrow> Order \<Rightarrow> i64 list \<Rightarrow> tally_error + i64 option" where
  "claim_walk claim order is =
     (case observe_all (ClaimWalk_new claim order) is of
        Inl e \<Rightarrow> Inl e
      | Inr w \<Rightarrow> ClaimWalk_finish w)"

record AscendingTally =
  a_count :: u64
  a_first :: i64
  a_last :: i64
  a_descended :: bool

definition AscendingTally_default :: AscendingTally where
  "AscendingTally_default = \<lparr>a_count = 0, a_first = 0, a_last = i64_MIN, a_descended = False\<rparr>"

definition AscendingTally_add :: "AscendingTally \<Rightarrow> i64 \<Rightarrow> AscendingTally" where
  "AscendingTally_add t i =
     \<lparr>a_count = a_count t + 1,
      a_first = (if a_count t = 0 then i else a_first t),
      a_last = i,
      a_descended = (a_descended t \<or> i <s a_last t)\<rparr>"

definition AscendingTally_holds :: "AscendingTally \<Rightarrow> BlobIndex \<Rightarrow> tally_error + bool" where
  "AscendingTally_holds t claim =
     (if min_id claim <s 0 then Inl (NegativeClaim (min_id claim))
      else Inr (\<not> a_descended t \<and> a_count t \<noteq> 0 \<and> a_count t = count claim
                \<and> a_first t = min_id claim \<and> a_last t = max_id claim))"

definition replay_refusal :: "BlobIndex \<Rightarrow> Order \<Rightarrow> i64 list \<Rightarrow> tally_error" where
  "replay_refusal claim order is =
     (case observe_all (ClaimWalk_new (Some claim) order) is of
        Inl e \<Rightarrow> e
      | Inr w \<Rightarrow> (case ClaimWalk_finish w of Inl e \<Rightarrow> e | Inr _ \<Rightarrow> ReplayPassed))"

section \<open>Tallies of a whole sequence\<close>

abbreviation tally_ids :: "i64 list \<Rightarrow> IdTally" where
  "tally_ids is \<equiv> foldl IdTally_add IdTally_default is"

lemma tally_count: "t_count (foldl IdTally_add t is) = t_count t + of_nat (length is)"
  by (induction "is" arbitrary: t) (auto simp: IdTally_add_def)

lemma exact_range_unique: "exact_range a b S \<Longrightarrow> exact_range c d S \<longleftrightarrow> a = c \<and> b = d"
proof -
  assume ab: "exact_range a b S"
  have "a = c \<and> b = d" if "exact_range c d S"
  proof
    show "a = c" using ab that unfolding sint_eq_iff [symmetric]
      by (intro antisym) (auto simp: exact_range_def signed_simps)
    show "b = d" using ab that unfolding sint_eq_iff [symmetric]
      by (intro antisym) (auto simp: exact_range_def signed_simps)
  qed
  with ab show ?thesis by blast
qed

lemma tally_range: "is \<noteq> [] \<Longrightarrow> exact_range (t_min (tally_ids is)) (t_max (tally_ids is)) (set is)"
proof (induction "is" rule: rev_induct)
  case (snoc i "is")
  show ?case
  proof (cases "is = []")
    case True
    have "smin i64_MAX i = i" "smax i64_MIN i = i"
      using i64_bounds [of i] by (auto simp: sint_eq_iff [symmetric])
    with True show ?thesis
      by (simp add: IdTally_add_def IdTally_default_def exact_range_def signed_simps)
  next
    case False
    with snoc show ?thesis
      by (auto simp: IdTally_add_def exact_range_def signed_simps smin_def smax_def)
  qed
qed simp

lemma word_count: "n < 2 ^ 64 \<Longrightarrow> (of_nat n = (w :: u64)) \<longleftrightarrow> n = unat w"
  by (auto simp: unat_of_nat take_bit_nat_eq_self)

text \<open>A claim is exact for a sequence of IDs: the same count, and both ends present.\<close>

definition exact_claim :: "BlobIndex \<Rightarrow> i64 list \<Rightarrow> bool" where
  "exact_claim claim is \<longleftrightarrow>
     is \<noteq> [] \<and> length is = unat (count claim) \<and> exact_range (min_id claim) (max_id claim) (set is)"

lemma refuse_inexact_iff:
  assumes "length is < 2 ^ 64"
  shows "IdTally_refuse_inexact (tally_ids is) claim =
    (if exact_claim claim is then Inr () else Inl (IndexdataMismatch claim (tally_ids is) True))"
proof -
  have "t_count (tally_ids is) = of_nat (length is)"
    by (simp add: tally_count IdTally_default_def)
  then have "t_count (tally_ids is) = 0 \<longleftrightarrow> is = []" "t_count (tally_ids is) = count claim \<longleftrightarrow> length is = unat (count claim)"
    using word_count [OF assms, of 0] word_count [OF assms, of "count claim"] by simp_all
  moreover have "is \<noteq> [] \<Longrightarrow> exact_range (min_id claim) (max_id claim) (set is) \<longleftrightarrow>
      t_min (tally_ids is) = min_id claim \<and> t_max (tally_ids is) = max_id claim"
    using exact_range_unique [OF tally_range] by blast
  ultimately show ?thesis
    by (auto simp: IdTally_refuse_inexact_def IdTally_mismatch_def exact_claim_def)
qed

section \<open>The claim walk\<close>

text \<open>The state of a walk that has accepted the IDs \<open>is\<close>.\<close>

definition walked :: "BlobIndex option \<Rightarrow> Order \<Rightarrow> i64 list \<Rightarrow> ClaimWalk" where
  "walked claim order is =
     \<lparr>cw_claim = claim, cw_order = order, cw_tally = tally_ids is,
      cw_first = (if is = [] then 0 else hd is),
      cw_previous = (if is = [] \<or> order = Free then osm_id_key 0 else osm_id_key (last is))\<rparr>"

lemma new_walked: "ClaimWalk_new claim order = walked claim order []"
  by (simp add: ClaimWalk_new_def walked_def)

lemma observe_walked:
  assumes "length is < 2 ^ 64"
  shows "ClaimWalk_observe (walked claim order is) i =
    (if order \<noteq> Free \<and> is \<noteq> [] \<and> osm_id_key i < osm_id_key (last is)
     then Inl (ClaimWalk_disorder (walked claim order is) i) else Inr (walked claim order (is @ [i])))"
proof -
  have "t_count (tally_ids is) = 0 \<longleftrightarrow> is = []"
    using word_count [OF assms, of 0] by (simp add: tally_count IdTally_default_def)
  moreover have "\<not> osm_id_key i < osm_id_key 0" by (simp add: not_less)
  ultimately show ?thesis
    by (cases order) (auto simp: ClaimWalk_observe_def walked_def Let_def)
qed

text \<open>The first position at which the order breaks: everything before it is accepted.\<close>

lemma observe_all_walked:
  assumes "length (done @ is) < 2 ^ 64" "sorted (map osm_id_key done)"
  shows "if sorted (map osm_id_key (done @ is))
    then observe_all (walked claim (Required c) done) is = Inr (walked claim (Required c) (done @ is))
    else \<exists>pre i post. done @ is = pre @ i # post \<and> pre \<noteq> [] \<and> osm_id_key i < osm_id_key (last pre) \<and>
        observe_all (walked claim (Required c) done) is = Inl (ClaimWalk_disorder (walked claim (Required c) pre) i)"
  using assms
proof (induction "is" arbitrary: "done")
  case Nil
  then show ?case by simp
next
  case (Cons i "is")
  show ?case
  proof (cases "done \<noteq> [] \<and> osm_id_key i < osm_id_key (last done)")
    case True
    then have "\<not> sorted (map osm_id_key (done @ i # is))"
      by (auto simp: sorted_append not_less [symmetric])
    with True Cons.prems(1) show ?thesis
      by (auto simp: observe_walked intro!: exI [of _ "done"])
  next
    case False
    then have "sorted (map osm_id_key (done @ [i]))"
      using Cons.prems(2) sorted_append_last [of "map osm_id_key done" "[osm_id_key i]"]
      by (cases "done = []") (simp_all add: last_map not_less)
    moreover have "observe_all (walked claim (Required c) done) (i # is) =
        observe_all (walked claim (Required c) (done @ [i])) is"
      using False Cons.prems(1) by (auto simp: observe_walked)
    ultimately show ?thesis
      using Cons.IH [of "done @ [i]"] Cons.prems(1)
      by (simp only: append_assoc append_Cons append_Nil length_append list.size) simp
  qed
qed

lemma claim_walk_sorted:
  assumes "length is < 2 ^ 64" "sorted (map osm_id_key is)"
  shows "claim_walk (Some claim) (Required c) is =
    (if exact_claim claim is then Inr (Some (hd is)) else Inl (IndexdataMismatch claim (tally_ids is) True))"
proof -
  have "observe_all (ClaimWalk_new (Some claim) (Required c)) is = Inr (walked (Some claim) (Required c) is)"
    using observe_all_walked [of "[]" "is" "Some claim" c] assms by (simp add: new_walked)
  moreover have "t_count (tally_ids is) = 0 \<longleftrightarrow> is = []"
    using word_count [OF assms(1), of 0] by (simp add: tally_count IdTally_default_def)
  ultimately show ?thesis
    using refuse_inexact_iff [OF assms(1), of claim]
    by (auto simp: claim_walk_def ClaimWalk_finish_def walked_def ClaimWalk_first_def exact_claim_def)
qed

lemma claim_walk_unsorted:
  assumes "length is < 2 ^ 64" "\<not> sorted (map osm_id_key is)"
  obtains pre i post where "is = pre @ i # post" "pre \<noteq> []" "osm_id_key i < osm_id_key (last pre)"
    "claim_walk (Some claim) (Required c) is = Inl (ClaimWalk_disorder (walked (Some claim) (Required c) pre) i)"
  using observe_all_walked [of "[]" "is" "Some claim" c] assms by (auto simp: new_walked claim_walk_def)

lemma disorder_cases:
  assumes "length pre < 2 ^ 64 - 1" "pre \<noteq> []"
  shows "ClaimWalk_disorder (walked (Some claim) (Required c) pre) i =
    (if \<exists>x \<in> set (pre @ [i]). x <s min_id claim \<or> max_id claim <s x
     then IndexdataMismatch claim (tally_ids (pre @ [i])) False
     else Unsorted c i (last pre))"
proof -
  have "t_count (tally_ids (pre @ [i])) \<noteq> 0"
    using word_count [of "length (pre @ [i])" 0] assms(1)
    by (simp only: tally_count) (simp add: IdTally_default_def)
  moreover have "t_min (tally_ids (pre @ [i])) <s min_id claim \<or> max_id claim <s t_max (tally_ids (pre @ [i])) \<longleftrightarrow>
      (\<exists>x \<in> set (pre @ [i]). x <s min_id claim \<or> max_id claim <s x)"
  proof -
    have "exact_range (t_min (tally_ids (pre @ [i]))) (t_max (tally_ids (pre @ [i]))) (set (pre @ [i]))"
      by (rule tally_range) simp
    then show ?thesis unfolding exact_range_def signed_simps
      by (blast intro: order.strict_trans1 order.strict_trans2)
  qed
  ultimately show ?thesis
    using assms(2)
    by (simp add: ClaimWalk_disorder_def walked_def IdTally_escapes_def IdTally_mismatch_def Let_def)
qed

lemma replay_refusal_eq:
  "replay_refusal claim order is =
    (case claim_walk (Some claim) order is of Inl e \<Rightarrow> e | Inr _ \<Rightarrow> ReplayPassed)"
  by (simp add: replay_refusal_def claim_walk_def split: sum.splits)

section \<open>The ascending tally\<close>

abbreviation ascending_ids :: "i64 list \<Rightarrow> AscendingTally" where
  "ascending_ids is \<equiv> foldl AscendingTally_add AscendingTally_default is"

lemma ascending_state:
  assumes "length is < 2 ^ 64"
  shows "ascending_ids is =
    \<lparr>a_count = of_nat (length is), a_first = (if is = [] then 0 else hd is),
     a_last = (if is = [] then i64_MIN else last is), a_descended = (\<not> sorted (map sint is))\<rparr>"
  using assms
proof (induction "is" rule: rev_induct)
  case Nil
  then show ?case by (simp add: AscendingTally_default_def)
next
  case (snoc i "is")
  have "of_nat (length is) = (0 :: u64) \<longleftrightarrow> is = []"
    using word_count [of "length is" 0] snoc.prems by simp
  moreover have "sorted (map sint (is @ [i])) \<longleftrightarrow> sorted (map sint is) \<and> (is \<noteq> [] \<longrightarrow> sint (last is) \<le> sint i)"
    using sorted_append_last [of "map sint is" "[sint i]"] by (cases "is = []") (auto simp: last_map)
  moreover have "\<not> i <s i64_MIN" using i64_bounds(1) [of i] by (simp add: signed_simps)
  ultimately show ?case
    using snoc by (auto simp: AscendingTally_add_def signed_simps hd_append)
qed

text \<open>For IDs that are not negative, canonical order and numeric order are the same.\<close>

lemma sorted_key_nonneg: "\<forall>i \<in> set is. 0 \<le> sint i \<Longrightarrow> sorted (map osm_id_key is) \<longleftrightarrow> sorted (map sint is)"
  by (induction "is") (auto simp: osm_id_key_pos_mono)

lemma exact_range_sorted:
  assumes "is \<noteq> []" "sorted (map sint is)"
  shows "exact_range lo hi (set is) \<longleftrightarrow> hd is = lo \<and> last is = hi"
proof -
  have "exact_range (hd is) (last is) (set is)"
    using assms sorted_hd_le [OF assms(2)] sorted_le_last [OF assms(2)]
    by (auto simp: exact_range_def signed_simps hd_map last_map)
  from exact_range_unique [OF this] show ?thesis .
qed

lemma ascending_holds:
  assumes "length is < 2 ^ 64" "0 \<le>s min_id claim"
  shows "AscendingTally_holds (ascending_ids is) claim = Inr (exact_claim claim is \<and> sorted (map osm_id_key is))"
proof -
  have "exact_claim claim is \<Longrightarrow> \<forall>i \<in> set is. 0 \<le> sint i"
    using assms(2) by (fastforce simp: exact_claim_def exact_range_def signed_simps)
  moreover have "sorted (map sint is) \<Longrightarrow> hd is = min_id claim \<Longrightarrow> \<forall>i \<in> set is. 0 \<le> sint i"
    using assms(2) sorted_hd_le [of "map sint is"] by (cases "is") (fastforce simp: signed_simps)+
  ultimately have "exact_claim claim is \<and> sorted (map osm_id_key is) \<longleftrightarrow>
      sorted (map sint is) \<and> is \<noteq> [] \<and> length is = unat (count claim) \<and> hd is = min_id claim \<and> last is = max_id claim"
    using exact_range_sorted [of "is"] sorted_key_nonneg [of "is"] unfolding exact_claim_def by blast
  then show ?thesis
    using assms(2) word_count [OF assms(1), of 0] word_count [OF assms(1), of "count claim"]
    by (auto simp: AscendingTally_holds_def ascending_state [OF assms(1)] signed_simps)
qed

section \<open>Properties\<close>

text \<open>
  C34: a claim walk under required order accepts exactly the ID sequences that are in
  canonical order and that its claim is exact for, and then returns the first ID. Every
  other sequence is refused: with \<open>Unsorted\<close> only at an ID that really sorts below its
  predecessor while every ID seen lies in the claimed range, else with a mismatch.
\<close>

theorem claim_walk_exact:
  assumes "length is < 2 ^ 63"
  shows "(case claim_walk (Some claim) (Required c) is of
     Inr r \<Rightarrow> exact_claim claim is \<and> sorted (map osm_id_key is) \<and> r = Some (hd is)
   | Inl (Unsorted c' i p) \<Rightarrow> c' = c \<and> (\<exists>pre post. is = pre @ p # i # post \<and> osm_id_key i < osm_id_key p \<and>
       (\<forall>x \<in> set (pre @ [p, i]). min_id claim \<le>s x \<and> x \<le>s max_id claim))
   | Inl (IndexdataMismatch claim' t complete) \<Rightarrow> claim' = claim \<and> \<not> exact_claim claim is
   | Inl _ \<Rightarrow> False)"
proof (cases "sorted (map osm_id_key is)")
  case True
  then show ?thesis using claim_walk_sorted [of "is" claim c] assms by simp
next
  case False
  have len: "length is < 2 ^ 64" using assms by simp
  obtain pre i post where p: "is = pre @ i # post" "pre \<noteq> []" "osm_id_key i < osm_id_key (last pre)"
    "claim_walk (Some claim) (Required c) is = Inl (ClaimWalk_disorder (walked (Some claim) (Required c) pre) i)"
    using claim_walk_unsorted [OF len False] by metis
  have plen: "length pre < 2 ^ 64 - 1" using p(1) assms by simp
  show ?thesis
  proof (cases "\<exists>x \<in> set (pre @ [i]). x <s min_id claim \<or> max_id claim <s x")
    case True
    then obtain x where "x \<in> set is" "\<not> (min_id claim \<le>s x \<and> x \<le>s max_id claim)"
      by (fastforce simp: p(1) signed_simps)
    then have "\<not> exact_claim claim is"
      by (auto simp: exact_claim_def exact_range_def)
    with True show ?thesis by (simp add: p(4) disorder_cases [OF plen p(2)])
  next
    case False
    then have "\<forall>x \<in> set (butlast pre @ [last pre, i]). min_id claim \<le>s x \<and> x \<le>s max_id claim"
      by (auto simp: signed_simps not_less p(2) dest: in_set_butlastD)
    moreover have "is = butlast pre @ last pre # i # post"
      using p(1,2) by (metis append.assoc append_Cons append_Nil append_butlast_last_id)
    ultimately show ?thesis
      using False p(3) unfolding p(4) disorder_cases [OF plen p(2)] by auto
  qed
qed

theorem claim_walk_exact_witness:
  "exact_claim \<lparr>kind = Node, min_id = - 2, max_id = 5, count = 2, bbox = None\<rparr> [- 2, 5]"
proof -
  let ?c = "\<lparr>kind = Node, min_id = - 2, max_id = 5, count = 2, bbox = None\<rparr>"
  have "claim_walk (Some ?c) (Required []) [- 2, 5] = Inr (Some (- 2))"
    by code_simp
  with claim_walk_exact [of "[- 2, 5]" ?c "[]"] show ?thesis by simp
qed

text \<open>
  C35: the cheap ascending tally decides a non-negative claim exactly as the full claim walk
  under required order does, although it compares raw integers only and keeps neither
  minimum nor maximum.
\<close>

theorem ascending_tally_decides:
  assumes "length is < 2 ^ 64" "0 \<le>s min_id claim"
  shows "AscendingTally_holds (foldl AscendingTally_add AscendingTally_default is) claim =
    Inr (is_ok (claim_walk (Some claim) (Required c) is))"
proof (cases "sorted (map osm_id_key is)")
  case True
  then show ?thesis
    using ascending_holds [OF assms] claim_walk_sorted [OF assms(1) True, of claim c] by simp
next
  case False
  obtain e where "claim_walk (Some claim) (Required c) is = Inl e"
    by (rule claim_walk_unsorted [OF assms(1) False, of claim c])
  then show ?thesis using False ascending_holds [OF assms] by simp
qed

theorem ascending_tally_decides_witness:
  "is_ok (claim_walk (Some \<lparr>kind = Way, min_id = 3, max_id = 9, count = 3, bbox = None\<rparr>) (Required []) [3, 3, 9])"
proof -
  let ?c = "\<lparr>kind = Way, min_id = 3, max_id = 9, count = 3, bbox = None\<rparr>"
  have "AscendingTally_holds (foldl AscendingTally_add AscendingTally_default [3, 3, 9]) ?c = Inr True"
    by code_simp
  with ascending_tally_decides [of "[3, 3, 9]" ?c "[]"] show ?thesis by (simp add: signed_simps)
qed

text \<open>
  The replay names a real refusal. When the ascending tally disproves a claim, the
  replay of the same IDs never ends in the internal error: it yields the false claim or
  the disorder.
\<close>

theorem replay_names_refusal:
  assumes "length is < 2 ^ 63"
    "AscendingTally_holds (foldl AscendingTally_add AscendingTally_default is) claim = Inr False"
  shows "(\<exists>t complete. replay_refusal claim (Required c) is = IndexdataMismatch claim t complete) \<or>
    (\<exists>i p. replay_refusal claim (Required c) is = Unsorted c i p)"
proof -
  have nonneg: "0 \<le>s min_id claim"
    using assms(2) by (auto simp: AscendingTally_holds_def signed_simps split: if_splits)
  then have no: "\<not> (exact_claim claim is \<and> sorted (map osm_id_key is))"
    using ascending_holds [of "is" claim] assms by simp
  have len: "length is < 2 ^ 64" using assms(1) by simp
  show ?thesis
  proof (cases "sorted (map osm_id_key is)")
    case True
    then show ?thesis using no claim_walk_sorted [OF len True, of claim c] by (auto simp: replay_refusal_eq)
  next
    case False
    then obtain pre i post where p: "is = pre @ i # post" "pre \<noteq> []"
      "claim_walk (Some claim) (Required c) is = Inl (ClaimWalk_disorder (walked (Some claim) (Required c) pre) i)"
      using claim_walk_unsorted [OF len False] by metis
    have "length pre < 2 ^ 64 - 1" using p(1) assms(1) by simp
    then show ?thesis by (auto simp: replay_refusal_eq p(3) disorder_cases p(2))
  qed
qed

theorem replay_names_refusal_witness:
  "(\<exists>t complete. replay_refusal \<lparr>kind = Way, min_id = 3, max_id = 9, count = 2, bbox = None\<rparr> (Required []) [9, 3] =
      IndexdataMismatch \<lparr>kind = Way, min_id = 3, max_id = 9, count = 2, bbox = None\<rparr> t complete) \<or>
   (\<exists>i p. replay_refusal \<lparr>kind = Way, min_id = 3, max_id = 9, count = 2, bbox = None\<rparr> (Required []) [9, 3] =
      Unsorted [] i p)"
  by (rule replay_names_refusal) (simp, code_simp)

end
