(* ===== verification/Blob_Wire.thy ===== *)
theory Blob_Wire
  imports Blob_Index
begin

text \<open>
  The blob header and blob messages on the wire: \<open>WireBlobHeader::parse\<close>,
  \<open>WireBlob::parse\<close> and \<open>check_raw_size\<close> of \<open>src/src/read/blob_wire.rs\<close>, with \<open>read_int32\<close> of
  \<open>src/src/read/wire.rs\<close>. The protobuf primitives (\<open>Cursor\<close> and the \<open>encode_*\<close> functions)
  come from the crate \<open>protohoggr\<close>, which is not part of this repository: they are a
  parameter \<open>P\<close> of every definition here, \<open>proto_ok\<close> states what is relied on, and the
  protobuf varint encoding is shown to satisfy it. Shown: the field loops end; what each
  message of encoded fields parses to; a duplicated claim is no claim; the retention flags
  decide what is kept and nothing else.
\<close>

section \<open>Protobuf primitives\<close>

datatype wire_error =
    CursorError \<comment> \<open>an error of the cursor itself\<close>
  | UnframableHeader \<comment> \<open>a wrong wire type on \<open>type\<close> or \<open>datasize\<close>\<close>
  | InvalidUtf8
  | Int32Overflow
  | NoType
  | MultiplePayloads
  | RawSizeMismatch
  | LoopStuck \<comment> \<open>a field loop that makes no progress; excluded by the cursor's laws\<close>

definition WIRE_VARINT :: u32 where "WIRE_VARINT = 0"

definition WIRE_LEN :: u32 where "WIRE_LEN = 2"

text \<open>A cursor is the rest of the message; an encoder returns what it appends.\<close>

record Proto =
  read_tag :: "bytes \<Rightarrow> wire_error + ((u32 \<times> u32) \<times> bytes) option"
  read_len_delimited :: "bytes \<Rightarrow> wire_error + bytes \<times> bytes"
  read_varint_i64 :: "bytes \<Rightarrow> wire_error + i64 \<times> bytes"
  skip_field :: "u32 \<Rightarrow> bytes \<Rightarrow> wire_error + bytes"
  encode_tag :: "u32 \<Rightarrow> u32 \<Rightarrow> bytes"
  encode_varint :: "u64 \<Rightarrow> bytes"
  encode_bytes_field :: "u32 \<Rightarrow> bytes \<Rightarrow> bytes"
  encode_int32_field :: "u32 \<Rightarrow> i32 \<Rightarrow> bytes"

definition read_int32 :: "Proto \<Rightarrow> bytes \<Rightarrow> wire_error + i32 \<times> bytes" where
  "read_int32 P d =
     (case read_varint_i64 P d of
        Inl e \<Rightarrow> Inl e
      | Inr (v, r) \<Rightarrow> if - (2 ^ 31) \<le> sint v \<and> sint v < 2 ^ 31 then Inr (ucast v, r) else Inl Int32Overflow)"

text \<open>
  The loop every message parser runs, \<open>while let Some((field, wire_type)) = cursor.read_tag()?\<close>,
  around the parser's own field handler. A tag takes at least one byte and no handler gives
  bytes back, so the guard never fires: it stands for a loop that would not end.
\<close>

function field_loop ::
  "Proto \<Rightarrow> (u32 \<Rightarrow> u32 \<Rightarrow> bytes \<Rightarrow> 'a \<Rightarrow> wire_error + 'a \<times> bytes) \<Rightarrow> bytes \<Rightarrow> 'a \<Rightarrow> wire_error + 'a" where
  "field_loop P f d a =
     (case read_tag P d of
        Inl e \<Rightarrow> Inl e
      | Inr None \<Rightarrow> Inr a
      | Inr (Some ((field, wire), r)) \<Rightarrow>
          (case f field wire r a of
             Inl e \<Rightarrow> Inl e
           | Inr (a', r') \<Rightarrow> if length r' < length d then field_loop P f r' a' else Inl LoopStuck))"
  by pat_completeness auto
termination
  by (relation "measure (\<lambda>(P, f, d, a). length d)") auto

declare field_loop.simps [simp del]

section \<open>Parsing a blob header\<close>

datatype BlobKind = OsmHeader | OsmData | UnknownBlob bytes

definition OSMHEADER :: bytes where "OSMHEADER = [79, 83, 77, 72, 101, 97, 100, 101, 114]"

definition OSMDATA :: bytes where "OSMDATA = [79, 83, 77, 68, 97, 116, 97]"

definition blob_header_TYPE :: u32 where "blob_header_TYPE = 1"

definition blob_header_INDEXDATA :: u32 where "blob_header_INDEXDATA = 2"

definition blob_header_DATASIZE :: u32 where "blob_header_DATASIZE = 3"

definition blob_header_TAGDATA :: u32 where "blob_header_TAGDATA = 4"

definition blob_header_WAYMEMBERS :: u32 where "blob_header_WAYMEMBERS = 5"

text \<open>Well-formed UTF-8, as \<open>String::from_utf8\<close> decides it.\<close>

definition cont :: "u8 \<Rightarrow> bool" where
  "cont b \<longleftrightarrow> 0x80 \<le> b \<and> b \<le> 0xBF"

fun utf8_valid :: "bytes \<Rightarrow> bool" where
  "utf8_valid [] = True"
| "utf8_valid (a # bs) =
     (if a < 0x80 then utf8_valid bs
      else if 0xC2 \<le> a \<and> a \<le> 0xDF then (case bs of b # cs \<Rightarrow> cont b \<and> utf8_valid cs | _ \<Rightarrow> False)
      else if 0xE0 \<le> a \<and> a \<le> 0xEF
      then (case bs of
              b # c # ds \<Rightarrow> cont b \<and> cont c \<and> (a = 0xE0 \<longrightarrow> 0xA0 \<le> b) \<and> (a = 0xED \<longrightarrow> b \<le> 0x9F) \<and> utf8_valid ds
            | _ \<Rightarrow> False)
      else if 0xF0 \<le> a \<and> a \<le> 0xF4
      then (case bs of
              b # c # d # es \<Rightarrow>
                cont b \<and> cont c \<and> cont d \<and> (a = 0xF0 \<longrightarrow> 0x90 \<le> b) \<and> (a = 0xF4 \<longrightarrow> b \<le> 0x8F) \<and> utf8_valid es
            | _ \<Rightarrow> False)
      else False)"

definition blob_kind_of :: "bytes \<Rightarrow> wire_error + BlobKind" where
  "blob_kind_of b =
     (if b = OSMHEADER then Inr OsmHeader
      else if b = OSMDATA then Inr OsmData
      else if utf8_valid b then Inr (UnknownBlob b) else Inl InvalidUtf8)"

record WireBlobHeader =
  wh_blob_type :: BlobKind
  wh_datasize :: i32
  unrecognised_indexdata_len :: "nat option"
  wh_indexdata :: "bytes option"
  indexdata_present :: bool
  wh_tagdata :: "bytes option"
  tagdata_present :: bool
  wh_waymembers :: "bytes option"

definition WireBlobHeader_init :: WireBlobHeader where
  "WireBlobHeader_init = \<lparr>wh_blob_type = UnknownBlob [], wh_datasize = 0, unrecognised_indexdata_len = None,
     wh_indexdata = None, indexdata_present = False, wh_tagdata = None, tagdata_present = False, wh_waymembers = None\<rparr>"

definition take_indexdata :: "bytes \<Rightarrow> WireBlobHeader \<Rightarrow> WireBlobHeader" where
  "take_indexdata b h =
     (if b = [] then h
      else (if indexdata_present h then h\<lparr>wh_indexdata := None\<rparr>
            else case classify_wire_indexdata b of
                   Carrier c \<Rightarrow> h\<lparr>wh_indexdata := Some c\<rparr>
                 | UnrecognisedLength n \<Rightarrow> h\<lparr>unrecognised_indexdata_len := Some n\<rparr>
                 | VersionLengthMismatch \<Rightarrow> h)\<lparr>indexdata_present := True\<rparr>)"

definition take_tagdata :: "bytes \<Rightarrow> WireBlobHeader \<Rightarrow> WireBlobHeader" where
  "take_tagdata b h =
     (if b = [] then h
      else h\<lparr>wh_tagdata := (if tagdata_present h then None else Some b), tagdata_present := True\<rparr>)"

definition take_waymembers :: "bytes \<Rightarrow> WireBlobHeader \<Rightarrow> WireBlobHeader" where
  "take_waymembers b h = (if b = [] then h else h\<lparr>wh_waymembers := Some b\<rparr>)"

definition expected_wire :: "u32 \<Rightarrow> u32 option" where
  "expected_wire field =
     (if field = blob_header_DATASIZE then Some WIRE_VARINT
      else if field \<in> {blob_header_TYPE, blob_header_INDEXDATA, blob_header_TAGDATA, blob_header_WAYMEMBERS} then Some WIRE_LEN
      else None)"

text \<open>The loop body: one tag read, the field handled, the rest of the message.\<close>

definition header_field ::
  "Proto \<Rightarrow> bool \<Rightarrow> bool \<Rightarrow> bool \<Rightarrow> u32 \<Rightarrow> u32 \<Rightarrow> bytes \<Rightarrow> WireBlobHeader \<Rightarrow> wire_error + WireBlobHeader \<times> bytes" where
  "header_field P parse_tagdata parse_indexdata parse_waymembers field wire d h =
     (let skip = (case skip_field P wire d of Inl e \<Rightarrow> Inl e | Inr r \<Rightarrow> Inr (h, r));
          with_bytes = (\<lambda>f. case read_len_delimited P d of Inl e \<Rightarrow> Inl e | Inr (b, r) \<Rightarrow> Inr (f b h, r))
      in if (case expected_wire field of Some w \<Rightarrow> w \<noteq> wire | None \<Rightarrow> False)
         then if field = blob_header_TYPE \<or> field = blob_header_DATASIZE then Inl UnframableHeader else skip
         else if field = blob_header_TYPE
         then (case read_len_delimited P d of
                 Inl e \<Rightarrow> Inl e
               | Inr (b, r) \<Rightarrow> (case blob_kind_of b of Inl e \<Rightarrow> Inl e | Inr k \<Rightarrow> Inr (h\<lparr>wh_blob_type := k\<rparr>, r)))
         else if field = blob_header_INDEXDATA \<and> parse_indexdata then with_bytes take_indexdata
         else if field = blob_header_DATASIZE
         then (case read_int32 P d of Inl e \<Rightarrow> Inl e | Inr (v, r) \<Rightarrow> Inr (h\<lparr>wh_datasize := v\<rparr>, r))
         else if field = blob_header_TAGDATA \<and> parse_tagdata then with_bytes take_tagdata
         else if field = blob_header_WAYMEMBERS \<and> parse_waymembers then with_bytes take_waymembers
         else skip)"

definition WireBlobHeader_parse :: "Proto \<Rightarrow> bytes \<Rightarrow> bool \<Rightarrow> bool \<Rightarrow> bool \<Rightarrow> wire_error + WireBlobHeader" where
  "WireBlobHeader_parse P data parse_tagdata parse_indexdata parse_waymembers =
     (case field_loop P (header_field P parse_tagdata parse_indexdata parse_waymembers) data WireBlobHeader_init of
        Inl e \<Rightarrow> Inl e
      | Inr h \<Rightarrow> if wh_blob_type h = UnknownBlob [] then Inl NoType else Inr h)"

text \<open>The fields a caller did not ask for, cleared.\<close>

definition keep_fields :: "bool \<Rightarrow> bool \<Rightarrow> bool \<Rightarrow> WireBlobHeader \<Rightarrow> WireBlobHeader" where
  "keep_fields t i w h =
     h\<lparr>unrecognised_indexdata_len := (if i then unrecognised_indexdata_len h else None),
       wh_indexdata := (if i then wh_indexdata h else None),
       indexdata_present := (i \<and> indexdata_present h),
       wh_tagdata := (if t then wh_tagdata h else None),
       tagdata_present := (t \<and> tagdata_present h),
       wh_waymembers := (if w then wh_waymembers h else None)\<rparr>"

definition kept :: "('a \<Rightarrow> 'a) \<Rightarrow> wire_error + 'a \<times> bytes \<Rightarrow> wire_error + 'a \<times> bytes \<Rightarrow> bool" where
  "kept k x y \<longleftrightarrow> (case x of Inl _ \<Rightarrow> isl y | Inr (h, r) \<Rightarrow> y = Inr (k h, r))"

lemmas header_fields = blob_header_TYPE_def blob_header_INDEXDATA_def blob_header_DATASIZE_def
  blob_header_TAGDATA_def blob_header_WAYMEMBERS_def

text \<open>The loop body, field by field.\<close>

definition skip_to :: "Proto \<Rightarrow> u32 \<Rightarrow> bytes \<Rightarrow> 'a \<Rightarrow> wire_error + 'a \<times> bytes" where
  "skip_to P wire d h = (case skip_field P wire d of Inl e \<Rightarrow> Inl e | Inr r \<Rightarrow> Inr (h, r))"

definition take_bytes :: "Proto \<Rightarrow> (bytes \<Rightarrow> 'a \<Rightarrow> 'a) \<Rightarrow> bytes \<Rightarrow> 'a \<Rightarrow> wire_error + 'a \<times> bytes" where
  "take_bytes P f d h = (case read_len_delimited P d of Inl e \<Rightarrow> Inl e | Inr (b, r) \<Rightarrow> Inr (f b h, r))"

definition take_type :: "Proto \<Rightarrow> bytes \<Rightarrow> WireBlobHeader \<Rightarrow> wire_error + WireBlobHeader \<times> bytes" where
  "take_type P d h =
     (case read_len_delimited P d of
        Inl e \<Rightarrow> Inl e
      | Inr (b, r) \<Rightarrow> (case blob_kind_of b of Inl e \<Rightarrow> Inl e | Inr k \<Rightarrow> Inr (h\<lparr>wh_blob_type := k\<rparr>, r)))"

definition take_datasize :: "Proto \<Rightarrow> bytes \<Rightarrow> WireBlobHeader \<Rightarrow> wire_error + WireBlobHeader \<times> bytes" where
  "take_datasize P d h = (case read_int32 P d of Inl e \<Rightarrow> Inl e | Inr (v, r) \<Rightarrow> Inr (h\<lparr>wh_datasize := v\<rparr>, r))"

lemma header_field_cases:
  "header_field P t i w blob_header_TYPE wt d h = (if wt = WIRE_LEN then take_type P d h else Inl UnframableHeader)"
  "header_field P t i w blob_header_DATASIZE wt d h = (if wt = WIRE_VARINT then take_datasize P d h else Inl UnframableHeader)"
  "header_field P t i w blob_header_INDEXDATA wt d h =
     (if wt = WIRE_LEN \<and> i then take_bytes P take_indexdata d h else skip_to P wt d h)"
  "header_field P t i w blob_header_TAGDATA wt d h =
     (if wt = WIRE_LEN \<and> t then take_bytes P take_tagdata d h else skip_to P wt d h)"
  "header_field P t i w blob_header_WAYMEMBERS wt d h =
     (if wt = WIRE_LEN \<and> w then take_bytes P take_waymembers d h else skip_to P wt d h)"
  "n \<notin> {blob_header_TYPE, blob_header_DATASIZE, blob_header_INDEXDATA, blob_header_TAGDATA, blob_header_WAYMEMBERS} \<Longrightarrow>
   header_field P t i w n wt d h = skip_to P wt d h"
  by (simp_all add: header_field_def expected_wire_def header_fields skip_to_def take_bytes_def take_type_def
      take_datasize_def Let_def)

lemma header_field_exhaust:
  obtains "n = blob_header_TYPE" | "n = blob_header_DATASIZE"
    | "n = blob_header_INDEXDATA" | "n = blob_header_TAGDATA" | "n = blob_header_WAYMEMBERS"
    | "n \<notin> {blob_header_TYPE, blob_header_DATASIZE, blob_header_INDEXDATA, blob_header_TAGDATA, blob_header_WAYMEMBERS}"
  by auto

section \<open>Parsing a blob\<close>

definition blob_RAW :: u32 where "blob_RAW = 1"

definition blob_RAW_SIZE :: u32 where "blob_RAW_SIZE = 2"

definition blob_ZLIB_DATA :: u32 where "blob_ZLIB_DATA = 3"

definition blob_ZSTD_DATA :: u32 where "blob_ZSTD_DATA = 7"

definition MAX_BLOB_HEADER_SIZE :: nat where "MAX_BLOB_HEADER_SIZE = 65536"

definition MAX_BLOB_MESSAGE_SIZE :: nat where "MAX_BLOB_MESSAGE_SIZE = 33554432"

definition MAX_BLOB_DATASIZE :: nat where "MAX_BLOB_DATASIZE = MAX_BLOB_MESSAGE_SIZE"

datatype BlobData = Raw bytes | Zlib bytes | Zstd bytes

record WireBlob =
  wb_data :: "BlobData option"
  wb_raw_size :: "i32 option"

definition blob_field :: "Proto \<Rightarrow> u32 \<Rightarrow> u32 \<Rightarrow> bytes \<Rightarrow> WireBlob \<Rightarrow> wire_error + WireBlob \<times> bytes" where
  "blob_field P field wire d b =
     (if field = blob_RAW \<or> field = blob_ZLIB_DATA \<or> field = blob_ZSTD_DATA
      then (case read_len_delimited P d of
              Inl e \<Rightarrow> Inl e
            | Inr (payload, r) \<Rightarrow>
                if wb_data b \<noteq> None then Inl MultiplePayloads
                else Inr (b\<lparr>wb_data := Some (if field = blob_RAW then Raw payload
                                              else if field = blob_ZLIB_DATA then Zlib payload
                                              else Zstd payload)\<rparr>, r))
      else if field = blob_RAW_SIZE
      then (case read_int32 P d of Inl e \<Rightarrow> Inl e | Inr (v, r) \<Rightarrow> Inr (b\<lparr>wb_raw_size := Some v\<rparr>, r))
      else (case skip_field P wire d of Inl e \<Rightarrow> Inl e | Inr r \<Rightarrow> Inr (b, r)))"

definition WireBlob_parse :: "Proto \<Rightarrow> bytes \<Rightarrow> wire_error + WireBlob" where
  "WireBlob_parse P input = field_loop P (blob_field P) input \<lparr>wb_data = None, wb_raw_size = None\<rparr>"

definition check_raw_size :: "i32 option \<Rightarrow> nat \<Rightarrow> wire_error + unit" where
  "check_raw_size declared actual =
     (case declared of
        Some d \<Rightarrow> if sint d \<noteq> (if actual < 2 ^ 63 then int actual else 2 ^ 63 - 1) then Inl RawSizeMismatch else Inr ()
      | None \<Rightarrow> Inr ())"

definition estimated_capacity :: "WireBlob \<Rightarrow> nat" where
  "estimated_capacity b =
     min (nat (max (sint (case wb_raw_size b of Some v \<Rightarrow> v | None \<Rightarrow> 0)) 0)) MAX_BLOB_MESSAGE_SIZE"

section \<open>What is relied on of the protobuf primitives\<close>

definition len_field :: "Proto \<Rightarrow> u32 \<Rightarrow> bytes \<Rightarrow> bytes" where
  "len_field P f b = encode_tag P f WIRE_LEN @ encode_varint P (of_nat (length b)) @ b"

definition varint_field :: "Proto \<Rightarrow> u32 \<Rightarrow> i32 \<Rightarrow> bytes" where
  "varint_field P f v = encode_tag P f WIRE_VARINT @ encode_varint P (scast v)"

text \<open>
  A read takes a prefix of the message, depending on nothing past it; what is encoded reads
  back; skipping a field passes over exactly what reading it would; the two field encoders leave out an empty value (an
  \<open>int32\<close> zero may be written or not).
\<close>

definition reads :: "(bytes \<Rightarrow> wire_error + 'a \<times> bytes) \<Rightarrow> bool" where
  "reads f \<longleftrightarrow>
     (\<forall>d. f d \<noteq> Inl LoopStuck)
   \<and> (\<forall>d a r. f d = Inr (a, r) \<longrightarrow> (\<exists>p. d = p @ r \<and> (\<forall>r'. f (p @ r') = Inr (a, r'))))"

lemma readsI:
  assumes "\<And>d. f d \<noteq> Inl LoopStuck"
    and "\<And>d a r. f d = Inr (a, r) \<Longrightarrow> \<exists>p. d = p @ r \<and> (\<forall>r'. f (p @ r') = Inr (a, r'))"
  shows "reads f"
  using assms by (simp add: reads_def)

lemma reads_local: "reads f \<Longrightarrow> f d = Inr (a, r) \<Longrightarrow> \<exists>p. d = p @ r \<and> (\<forall>r'. f (p @ r') = Inr (a, r'))"
  by (simp add: reads_def)

lemma reads_not_stuck: "reads f \<Longrightarrow> f d \<noteq> Inl LoopStuck"
  by (simp add: reads_def)

definition proto_reads :: "Proto \<Rightarrow> bool" where
  "proto_reads P \<longleftrightarrow>
     read_tag P [] = Inr None
   \<and> (\<forall>d. read_tag P d \<noteq> Inl LoopStuck)
   \<and> (\<forall>d t r. read_tag P d = Inr (Some (t, r)) \<longrightarrow>
         (\<exists>p. p \<noteq> [] \<and> d = p @ r \<and> (\<forall>r'. read_tag P (p @ r') = Inr (Some (t, r')))))
   \<and> reads (read_len_delimited P) \<and> reads (read_varint_i64 P)
   \<and> (\<forall>w. reads (\<lambda>d. map_sum id (Pair ()) (skip_field P w d)))"

definition proto_roundtrip :: "Proto \<Rightarrow> bool" where
  "proto_roundtrip P \<longleftrightarrow>
     (\<forall>f w r. 0 < f \<and> f < 2 ^ 29 \<and> w < 6 \<longrightarrow> read_tag P (encode_tag P f w @ r) = Inr (Some ((f, w), r)))
   \<and> (\<forall>v r. read_varint_i64 P (encode_varint P v @ r) = Inr (v, r))
   \<and> (\<forall>b r. length b < 2 ^ 32 \<longrightarrow> read_len_delimited P (encode_varint P (of_nat (length b)) @ b @ r) = Inr (b, r))
   \<and> (\<forall>d v r. read_varint_i64 P d = Inr (v, r) \<longrightarrow> skip_field P WIRE_VARINT d = Inr r)
   \<and> (\<forall>d. case read_len_delimited P d of Inl _ \<Rightarrow> isl (skip_field P WIRE_LEN d) | Inr (b, r) \<Rightarrow> skip_field P WIRE_LEN d = Inr r)
   \<and> (\<forall>f b. encode_bytes_field P f b = (if b = [] then [] else len_field P f b))
   \<and> (\<forall>f v. v \<noteq> 0 \<longrightarrow> encode_int32_field P f v = varint_field P f v)
   \<and> (\<forall>f. encode_int32_field P f 0 \<in> {[], varint_field P f 0})"

definition proto_ok :: "Proto \<Rightarrow> bool" where
  "proto_ok P \<longleftrightarrow> proto_reads P \<and> proto_roundtrip P"

locale proto =
  fixes P :: Proto
  assumes reading: "proto_reads P"
    and roundtrip: "proto_roundtrip P"
begin

lemma read_tag_Nil [simp]: "read_tag P [] = Inr None"
  using reading by (simp add: proto_reads_def)

lemma tag_local:
  "read_tag P d = Inr (Some (t, r)) \<Longrightarrow>
   \<exists>p. p \<noteq> [] \<and> d = p @ r \<and> (\<forall>r'. read_tag P (p @ r') = Inr (Some (t, r')))"
  using reading unfolding proto_reads_def by blast

lemma reads_primitives: "reads (read_len_delimited P)" "reads (read_varint_i64 P)"
  "reads (\<lambda>d. map_sum id (Pair ()) (skip_field P w d))"
  using reading by (auto simp: proto_reads_def)

lemma reads_int32: "reads (read_int32 P)"
  using reads_primitives(2) by (fastforce simp: reads_def read_int32_def split: sum.splits if_splits)

lemma skip_local:
  assumes "skip_field P w d = Inr r"
  obtains p where "d = p @ r" "\<And>r'. skip_field P w (p @ r') = Inr r'"
proof -
  have "map_sum id (Pair ()) (skip_field P w d) = Inr ((), r)" using assms by simp
  then obtain p where p: "d = p @ r" "\<And>r'. map_sum id (Pair ()) (skip_field P w (p @ r')) = Inr ((), r')"
    using reads_primitives(3) [of w] unfolding reads_def by blast
  have "skip_field P w (p @ r') = Inr r'" for r'
    using p(2) [of r'] by (cases "skip_field P w (p @ r')") simp_all
  then show thesis by (rule that [OF p(1)])
qed

lemma tag_progress: "read_tag P d = Inr (Some (t, r)) \<Longrightarrow> length r < length d"
  using tag_local [of d t r] by auto

lemma reads_progress: "reads f \<Longrightarrow> f d = Inr (a, r) \<Longrightarrow> length r \<le> length d"
  unfolding reads_def by (metis le_add2 length_append)

lemmas len_progress = reads_progress [OF reads_primitives(1)]

lemmas int32_progress = reads_progress [OF reads_int32]

lemma skip_progress: "skip_field P w d = Inr r \<Longrightarrow> length r \<le> length d"
  by (erule skip_local) simp

lemma never_stuck:
  "read_tag P d \<noteq> Inl LoopStuck" "read_len_delimited P d \<noteq> Inl LoopStuck"
  "skip_field P w d \<noteq> Inl LoopStuck" "read_int32 P d \<noteq> Inl LoopStuck"
proof -
  show "read_tag P d \<noteq> Inl LoopStuck" using reading by (simp add: proto_reads_def)
  show "read_len_delimited P d \<noteq> Inl LoopStuck" "read_int32 P d \<noteq> Inl LoopStuck"
    using reads_primitives(1) reads_int32 by (auto simp: reads_def)
  have "map_sum id (Pair ()) (skip_field P w d) \<noteq> Inl LoopStuck"
    using reads_primitives(3) [of w] by (simp add: reads_def)
  then show "skip_field P w d \<noteq> Inl LoopStuck" by (cases "skip_field P w d") auto
qed

lemma read_tag_encoded:
  assumes "0 < f" "f < 2 ^ 29" "w < 6"
  shows "read_tag P (encode_tag P f w @ r) = Inr (Some ((f, w), r))"
  using roundtrip assms unfolding proto_roundtrip_def by blast

lemma read_len_encoded [simp]:
  "length b < 2 ^ 32 \<Longrightarrow> read_len_delimited P (encode_varint P (of_nat (length b)) @ b @ r) = Inr (b, r)"
  using roundtrip unfolding proto_roundtrip_def by blast

lemma skip_len: "read_len_delimited P d = Inr (b, r) \<Longrightarrow> skip_field P WIRE_LEN d = Inr r"
  using roundtrip unfolding proto_roundtrip_def by (auto split: sum.splits)

lemma skip_len_error: "read_len_delimited P d = Inl e \<Longrightarrow> isl (skip_field P WIRE_LEN d)"
  using roundtrip unfolding proto_roundtrip_def by (auto split: sum.splits)

lemma skip_len_encoded [simp]:
  "length b < 2 ^ 32 \<Longrightarrow> skip_field P WIRE_LEN (encode_varint P (of_nat (length b)) @ b @ r) = Inr r"
  by (rule skip_len) (rule read_len_encoded)

lemma skip_int32: "read_int32 P d = Inr (v, r) \<Longrightarrow> skip_field P WIRE_VARINT d = Inr r"
  using roundtrip unfolding proto_roundtrip_def by (auto simp: read_int32_def split: sum.splits if_splits)

lemma bytes_field: "encode_bytes_field P f b = (if b = [] then [] else len_field P f b)"
  using roundtrip unfolding proto_roundtrip_def by blast

lemma int32_field:
  "encode_int32_field P f v = varint_field P f v \<or> (v = 0 \<and> encode_int32_field P f v = [])"
  using roundtrip unfolding proto_roundtrip_def by (cases "v = 0") auto

text \<open>An \<open>int32\<close> is written sign-extended and reads back through the range check.\<close>

lemma read_int32_encoded [simp]: "read_int32 P (encode_varint P (scast v) @ r) = Inr (v, r)"
proof -
  have "read_varint_i64 P (encode_varint P (scast v) @ r) = Inr (scast v, r)"
    using roundtrip unfolding proto_roundtrip_def by blast
  moreover have "sint (scast v :: i64) = sint v"
    by (simp add: sint_up_scast is_up)
  moreover have "- (2 ^ 31) \<le> sint v \<and> sint v < 2 ^ 31"
    using sint_range_size [of v] by (simp add: word_size)
  moreover have "(ucast (scast v :: i64) :: i32) = v"
    by (rule bit_word_eqI) (auto simp: bit_simps min_def dest: le_antisym [OF Suc_leI])
  ultimately show ?thesis by (simp add: read_int32_def)
qed

text \<open>One turn of a field loop, and why the loop ends.\<close>

lemma field_loop_step:
  assumes "read_tag P d = Inr (Some ((n, w), r0))" "f n w r0 a = Inr (a', r)" "length r \<le> length r0"
  shows "field_loop P f d a = field_loop P f r a'"
  using assms tag_progress [OF assms(1)] by (subst field_loop.simps) simp

lemma field_loop_Nil [simp]: "field_loop P f [] a = Inr a"
  by (subst field_loop.simps) simp

lemma field_loop_ends:
  assumes "\<And>n w r a a' r'. f n w r a = Inr (a', r') \<Longrightarrow> length r' \<le> length r"
    and "\<And>n w r a. f n w r a \<noteq> Inl LoopStuck"
  shows "field_loop P f d a \<noteq> Inl LoopStuck"
proof (induction d arbitrary: a rule: length_induct)
  case (1 d)
  show ?case
  proof (cases "\<exists>n w r a' r'. read_tag P d = Inr (Some ((n, w), r)) \<and> f n w r a = Inr (a', r')")
    case True
    then obtain n w r a' r' where s: "read_tag P d = Inr (Some ((n, w), r))" "f n w r a = Inr (a', r')"
      by (elim exE conjE) (rule that)
    have "length r' < length d" using tag_progress [OF s(1)] assms(1) [OF s(2)] by simp
    then show ?thesis using 1 field_loop_step [where f = f, OF s assms(1) [OF s(2)]] by simp
  next
    case False
    then show ?thesis
      using never_stuck(1) [of d] assms(2) by (subst field_loop.simps) (auto split: sum.splits option.splits)
  qed
qed

lemma field_loop_len_field:
  assumes "0 < n" "n < 2 ^ 29"
    and "f n WIRE_LEN (encode_varint P (of_nat (length b)) @ b @ r) a = Inr (a', r)"
  shows "field_loop P f (len_field P n b @ r) a = field_loop P f r a'"
  unfolding len_field_def append_assoc
  by (rule field_loop_step [where f = f, OF read_tag_encoded [OF assms(1,2)] assms(3)]) (simp_all add: WIRE_LEN_def)

lemma field_loop_varint_field:
  assumes "0 < n" "n < 2 ^ 29"
    and "f n WIRE_VARINT (encode_varint P (scast v) @ r) a = Inr (a', r)"
  shows "field_loop P f (varint_field P n v @ r) a = field_loop P f r a'"
  unfolding varint_field_def append_assoc
  by (rule field_loop_step [where f = f, OF read_tag_encoded [OF assms(1,2)] assms(3)]) (simp_all add: WIRE_VARINT_def)

text \<open>The two parsers end.\<close>

lemma handler_progress:
  "skip_to P wt r h = Inr (h', r') \<Longrightarrow> length r' \<le> length r"
  "take_bytes P g r h = Inr (h', r') \<Longrightarrow> length r' \<le> length r"
  "take_type P r k = Inr (k', r') \<Longrightarrow> length r' \<le> length r"
  "take_datasize P r k = Inr (k', r') \<Longrightarrow> length r' \<le> length r"
  by (auto simp: skip_to_def take_bytes_def take_type_def take_datasize_def split: sum.splits
      dest: len_progress skip_progress int32_progress)

lemma handler_not_stuck:
  "skip_to P wt r h \<noteq> Inl LoopStuck" "take_bytes P g r h \<noteq> Inl LoopStuck"
  "take_type P r k \<noteq> Inl LoopStuck" "take_datasize P r k \<noteq> Inl LoopStuck"
  using never_stuck
  by (auto simp: skip_to_def take_bytes_def take_type_def take_datasize_def blob_kind_of_def split: sum.splits)

lemma header_field_progress: "header_field P t i w n wt r h = Inr (h', r') \<Longrightarrow> length r' \<le> length r"
  by (rule header_field_exhaust [of n])
    (auto simp: header_field_cases split: if_splits dest: handler_progress)

lemma header_field_not_stuck: "header_field P t i w n wt r h \<noteq> Inl LoopStuck"
  by (rule header_field_exhaust [of n]) (simp_all add: header_field_cases handler_not_stuck)

lemma parse_header_ends: "WireBlobHeader_parse P d t i w \<noteq> Inl LoopStuck"
  using field_loop_ends [OF header_field_progress header_field_not_stuck]
  by (auto simp: WireBlobHeader_parse_def split: sum.splits)

lemma blob_field_progress: "blob_field P n wt r b = Inr (b', r') \<Longrightarrow> length r' \<le> length r"
  by (auto simp: blob_field_def split: if_splits sum.splits dest!: len_progress skip_progress int32_progress)

lemma blob_field_not_stuck: "blob_field P n wt r b \<noteq> Inl LoopStuck"
  using never_stuck by (auto simp: blob_field_def split: if_splits sum.splits)

lemma parse_blob_ends: "WireBlob_parse P d \<noteq> Inl LoopStuck"
  unfolding WireBlob_parse_def by (rule field_loop_ends [OF blob_field_progress blob_field_not_stuck])

text \<open>
  Skipping an optional field instead of keeping it changes nothing else: a parse with some
  flags cleared is the full parse with the fields it did not ask for cleared.
\<close>

lemma kept_skip: "kept k (skip_to P wt d h) (skip_to P wt d (k h))"
  by (simp add: kept_def skip_to_def split: sum.splits)

lemma kept_take:
  assumes "\<And>b. k (g b h) = (if c then g b (k h) else k h)"
  shows "kept k (take_bytes P g d h) (if c then take_bytes P g d (k h) else skip_to P WIRE_LEN d (k h))"
  using assms by (cases "read_len_delimited P d")
    (auto simp: kept_def take_bytes_def skip_to_def split: sum.splits dest: skip_len skip_len_error)

lemma keep_takes:
  "keep_fields t i w (take_indexdata b h) = (if i then take_indexdata b (keep_fields t i w h) else keep_fields t i w h)"
  "keep_fields t i w (take_tagdata b h) = (if t then take_tagdata b (keep_fields t i w h) else keep_fields t i w h)"
  "keep_fields t i w (take_waymembers b h) = (if w then take_waymembers b (keep_fields t i w h) else keep_fields t i w h)"
  by (auto simp: keep_fields_def take_indexdata_def take_tagdata_def take_waymembers_def split: WireIndexdata.splits)

lemma header_field_keep:
  "kept (keep_fields t i w) (header_field P True True True n wt d h) (header_field P t i w n wt d (keep_fields t i w h))"
proof (rule header_field_exhaust [of n])
  assume "n = blob_header_TYPE"
  then show ?thesis
    by (auto simp: header_field_cases kept_def take_type_def keep_fields_def split: sum.splits)
next
  assume "n = blob_header_DATASIZE"
  then show ?thesis
    by (auto simp: header_field_cases kept_def take_datasize_def keep_fields_def split: sum.splits)
next
  assume "n = blob_header_INDEXDATA"
  then show ?thesis
    using kept_skip kept_take [of "keep_fields t i w" take_indexdata h i d, OF keep_takes(1)]
    by (cases "wt = WIRE_LEN") (simp_all add: header_field_cases)
next
  assume "n = blob_header_TAGDATA"
  then show ?thesis
    using kept_skip kept_take [of "keep_fields t i w" take_tagdata h t d, OF keep_takes(2)]
    by (cases "wt = WIRE_LEN") (simp_all add: header_field_cases)
next
  assume "n = blob_header_WAYMEMBERS"
  then show ?thesis
    using kept_skip kept_take [of "keep_fields t i w" take_waymembers h w d, OF keep_takes(3)]
    by (cases "wt = WIRE_LEN") (simp_all add: header_field_cases)
qed (simp add: header_field_cases kept_skip)

lemma field_loop_keep:
  assumes "\<And>n wt d a. kept k (f n wt d a) (g n wt d (k a))"
  shows "case field_loop P f d a of Inl _ \<Rightarrow> isl (field_loop P g d (k a)) | Inr a' \<Rightarrow> field_loop P g d (k a) = Inr (k a')"
proof (induction d arbitrary: a rule: length_induct)
  case (1 d)
  show ?case
  proof (cases "read_tag P d")
    case (Inr o1)
    show ?thesis
    proof (cases o1)
      case (Some p)
      then obtain n wt r where o1: "o1 = Some ((n, wt), r)" by (metis surj_pair)
      show ?thesis
      proof (cases "f n wt r a")
        case (Inl e)
        then have "isl (g n wt r (k a))" using assms [of n wt r a] by (simp add: kept_def)
        then show ?thesis using Inl \<open>read_tag P d = _\<close> o1
          by (subst (1 2 3) field_loop.simps) (auto split: sum.splits)
      next
        case fI: (Inr p')
        obtain a' r' where p': "p' = (a', r')" by (cases p')
        have "g n wt r (k a) = Inr (k a', r')"
          using assms [of n wt r a] fI p' by (simp add: kept_def)
        then have "field_loop P g d (k a) = (if length r' < length d then field_loop P g r' (k a') else Inl LoopStuck)"
          "field_loop P f d a = (if length r' < length d then field_loop P f r' a' else Inl LoopStuck)"
          using fI p' Inr o1 by (subst field_loop.simps; simp)+
        then show ?thesis using 1 [rule_format, of r' a'] by (cases "length r' < length d") (simp_all split: sum.splits)
      qed
    qed (use Inr in \<open>subst (1 2 3) field_loop.simps; simp\<close>)
  qed (subst (1 2 3) field_loop.simps; simp)
qed

lemma parse_header_keep:
  "case WireBlobHeader_parse P d True True True of
     Inl _ \<Rightarrow> isl (WireBlobHeader_parse P d t i w)
   | Inr h \<Rightarrow> WireBlobHeader_parse P d t i w = Inr (keep_fields t i w h)"
proof -
  have init: "keep_fields t i w WireBlobHeader_init = WireBlobHeader_init"
    by (simp add: keep_fields_def WireBlobHeader_init_def)
  have "wh_blob_type (keep_fields t i w h) = wh_blob_type h" for h by (simp add: keep_fields_def)
  then show ?thesis
    using field_loop_keep [where k = "keep_fields t i w" and f = "header_field P True True True"
        and g = "header_field P t i w" and d = d and a = WireBlobHeader_init, OF header_field_keep]
    unfolding init WireBlobHeader_parse_def
    by (auto split: sum.splits if_splits)
qed

end

section \<open>The protobuf encoding\<close>

text \<open>
  The wire format the primitives implement: base-128 varints of at most ten bytes, a field
  key of number and wire type, length-delimited, 64-bit and 32-bit values.
\<close>

fun varint_bytes :: "nat \<Rightarrow> bytes" where
  "varint_bytes n = (if n < 128 then [of_nat n] else of_nat (128 + n mod 128) # varint_bytes (n div 128))"

fun varint_read :: "nat \<Rightarrow> bytes \<Rightarrow> wire_error + nat \<times> bytes" where
  "varint_read 0 d = Inl CursorError"
| "varint_read (Suc k) [] = Inl CursorError"
| "varint_read (Suc k) (b # r) =
     (if b < 128 then Inr (unat b, r)
      else case varint_read k r of Inl e \<Rightarrow> Inl e | Inr (n, r') \<Rightarrow> Inr (unat b - 128 + 128 * n, r'))"

definition pb_tag :: "bytes \<Rightarrow> wire_error + ((u32 \<times> u32) \<times> bytes) option" where
  "pb_tag d =
     (if d = [] then Inr None
      else case varint_read 10 d of
             Inl e \<Rightarrow> Inl e
           | Inr (n, r) \<Rightarrow> if 2 ^ 32 \<le> int n \<or> n < 8 then Inl CursorError
                           else Inr (Some ((of_nat (n div 8), of_nat (n mod 8)), r)))"

definition pb_len :: "bytes \<Rightarrow> wire_error + bytes \<times> bytes" where
  "pb_len d =
     (case varint_read 10 d of
        Inl e \<Rightarrow> Inl e
      | Inr (n, r) \<Rightarrow> if length r < n then Inl CursorError else Inr (take n r, drop n r))"

definition pb_fixed :: "nat \<Rightarrow> bytes \<Rightarrow> wire_error + bytes" where
  "pb_fixed n d = (if length d < n then Inl CursorError else Inr (drop n d))"

definition pb_skip :: "u32 \<Rightarrow> bytes \<Rightarrow> wire_error + bytes" where
  "pb_skip wire d =
     (if wire = 0 then map_sum id snd (varint_read 10 d)
      else if wire = 1 then pb_fixed 8 d
      else if wire = 2 then map_sum id snd (pb_len d)
      else if wire = 5 then pb_fixed 4 d
      else Inl CursorError)"

definition pb_key :: "u32 \<Rightarrow> u32 \<Rightarrow> bytes" where
  "pb_key f w = varint_bytes (unat f * 8 + unat w)"

definition pb_varint :: "u64 \<Rightarrow> bytes" where
  "pb_varint v = varint_bytes (unat v)"

definition pb :: Proto where
  "pb = \<lparr>read_tag = pb_tag,
         read_len_delimited = pb_len,
         read_varint_i64 = (\<lambda>d. map_sum id (\<lambda>(n, r). (of_nat n, r)) (varint_read 10 d)),
         skip_field = pb_skip,
         encode_tag = pb_key,
         encode_varint = pb_varint,
         encode_bytes_field = (\<lambda>f b. if b = [] then [] else pb_key f 2 @ pb_varint (of_nat (length b)) @ b),
         encode_int32_field = (\<lambda>f v. if v = 0 then [] else pb_key f 0 @ pb_varint (scast v))\<rparr>"

declare varint_bytes.simps [simp del]

lemma varint_read_shorter: "varint_read k d = Inr (n, r) \<Longrightarrow> length r < length d"
  by (induction k d arbitrary: n r rule: varint_read.induct) (fastforce split: if_splits sum.splits)+

lemma varint_read_error: "varint_read k d = Inl e \<Longrightarrow> e = CursorError"
  by (induction k d rule: varint_read.induct) (auto split: if_splits sum.splits)

lemma varint_read_back: "n < 128 ^ Suc k \<Longrightarrow> varint_read (Suc k) (varint_bytes n @ r) = Inr (n, r)"
proof (induction k arbitrary: n)
  case 0
  then show ?case by (subst varint_bytes.simps) (simp add: word_less_nat_alt unat_of_nat)
next
  case (Suc k)
  show ?case
  proof (cases "n < 128")
    case True
    then show ?thesis by (subst varint_bytes.simps) (simp add: word_less_nat_alt unat_of_nat)
  next
    case False
    have "unat (of_nat (128 + n mod 128) :: u8) = 128 + n mod 128"
      by (simp add: unat_of_nat del: of_nat_add)
    moreover have "n div 128 < 128 ^ Suc k" using Suc.prems by (simp add: less_mult_imp_div_less)
    ultimately show ?thesis
      using False Suc.IH [of "n div 128"]
      by (subst varint_bytes.simps) (simp add: word_less_nat_alt del: varint_read.simps(3) add: varint_read.simps(3) [of "Suc k"])
  qed
qed

lemma pb_varint_read: "varint_read 10 (pb_varint v @ r) = Inr (unat v, r)"
proof -
  have "unat v < 128 ^ Suc 9" using unsigned_less [of v, where ?'a = nat] by simp
  from varint_read_back [OF this] show ?thesis by (simp add: pb_varint_def)
qed

lemma varint_read_local:
  "varint_read k d = Inr (n, r) \<Longrightarrow> \<exists>p. p \<noteq> [] \<and> d = p @ r \<and> (\<forall>r'. varint_read k (p @ r') = Inr (n, r'))"
proof (induction k d arbitrary: n r rule: varint_read.induct)
  case (3 k b s)
  show ?case
  proof (cases "b < 128")
    case True
    then show ?thesis using 3 by (intro exI [of _ "[b]"]) auto
  next
    case False
    then obtain m where m: "varint_read k s = Inr (m, r)" "n = unat b - 128 + 128 * m"
      using 3 by (auto split: sum.splits)
    with 3 False obtain p where "s = p @ r" "\<forall>r'. varint_read k (p @ r') = Inr (m, r')" by blast
    then show ?thesis using False m by (intro exI [of _ "b # p"]) auto
  qed
qed auto

lemma pb_tag_local:
  assumes "pb_tag d = Inr (Some (t, r))"
  shows "\<exists>p. p \<noteq> [] \<and> d = p @ r \<and> (\<forall>r'. pb_tag (p @ r') = Inr (Some (t, r')))"
proof -
  obtain n where n: "varint_read 10 d = Inr (n, r)" "\<not> (2 ^ 32 \<le> int n \<or> n < 8)" "t = (of_nat (n div 8), of_nat (n mod 8))"
    using assms by (auto simp: pb_tag_def split: if_splits sum.splits)
  from varint_read_local [OF n(1)] obtain p where "p \<noteq> []" "d = p @ r" "\<forall>r'. varint_read 10 (p @ r') = Inr (n, r')"
    by (elim exE conjE) (rule that)
  then show ?thesis using n(2,3) by (intro exI [of _ p]) (simp add: pb_tag_def)
qed

lemma pb_varint_reads: "reads (\<lambda>d. map_sum id (\<lambda>(n, r). (g n, r)) (varint_read 10 d))"
proof (rule readsI)
  fix d a r
  assume a: "map_sum id (\<lambda>(n, r). (g n, r)) (varint_read 10 d) = Inr (a, r)"
  obtain n where n: "varint_read 10 d = Inr (n, r)" "a = g n"
    using a by (cases "varint_read 10 d") auto
  from varint_read_local [OF n(1)] obtain p where "d = p @ r" "\<forall>r'. varint_read 10 (p @ r') = Inr (n, r')"
    by (elim exE conjE) (rule that)
  then show "\<exists>p. d = p @ r \<and> (\<forall>r'. map_sum id (\<lambda>(n, r). (g n, r)) (varint_read 10 (p @ r')) = Inr (a, r'))"
    using n(2) by (intro exI [of _ p]) simp
next
  show "map_sum id (\<lambda>(n, r). (g n, r)) (varint_read 10 d) \<noteq> Inl LoopStuck" for d
    by (cases "varint_read 10 d") (auto dest: varint_read_error)
qed

lemma pb_len_reads: "reads pb_len"
proof (rule readsI)
  fix d b r
  assume a: "pb_len d = Inr (b, r)"
  obtain n s where n: "varint_read 10 d = Inr (n, s)" "n \<le> length s" "b = take n s" "r = drop n s"
    using a by (auto simp: pb_len_def split: sum.splits if_splits)
  from varint_read_local [OF n(1)] obtain p where "d = p @ s" "\<forall>r'. varint_read 10 (p @ r') = Inr (n, r')"
    by (elim exE conjE) (rule that)
  then show "\<exists>p. d = p @ r \<and> (\<forall>r'. pb_len (p @ r') = Inr (b, r'))"
    using n(2-4) by (intro exI [of _ "p @ take n s"]) (simp add: pb_len_def)
next
  show "pb_len d \<noteq> Inl LoopStuck" for d
    by (auto simp: pb_len_def split: sum.splits dest: varint_read_error)
qed

lemma pb_fixed_reads: "reads (\<lambda>d. map_sum id (Pair ()) (pb_fixed n d))"
proof (rule readsI)
  fix d a r
  assume "map_sum id (Pair ()) (pb_fixed n d) = Inr (a, r)"
  then have "n \<le> length d" "r = drop n d" by (auto simp: pb_fixed_def split: if_splits)
  then show "\<exists>p. d = p @ r \<and> (\<forall>r'. map_sum id (Pair ()) (pb_fixed n (p @ r')) = Inr (a, r'))"
    by (intro exI [of _ "take n d"]) (simp add: pb_fixed_def)
qed (simp add: pb_fixed_def)

lemma reads_drop_value:
  assumes "reads f"
  shows "reads (\<lambda>d. map_sum id (Pair ()) (map_sum id snd (f d)))"
proof (rule readsI)
  fix d a r
  assume "map_sum id (Pair ()) (map_sum id snd (f d)) = Inr (a, r)"
  then obtain b where "f d = Inr (b, r)" by (cases "f d") auto
  from reads_local [OF assms this]
  show "\<exists>p. d = p @ r \<and> (\<forall>r'. map_sum id (Pair ()) (map_sum id snd (f (p @ r'))) = Inr (a, r'))" by auto
next
  show "map_sum id (Pair ()) (map_sum id snd (f d)) \<noteq> Inl LoopStuck" for d
    using reads_not_stuck [OF assms, of d] by (cases "f d") auto
qed

lemma pb_skip_reads: "reads (\<lambda>d. map_sum id (Pair ()) (pb_skip w d))"
proof -
  have "(\<lambda>d. map_sum id (Pair ()) (pb_skip w d)) =
    (if w = 0 then (\<lambda>d. map_sum id (Pair ()) (map_sum id snd (map_sum id (\<lambda>(n, r). (n, r)) (varint_read 10 d))))
     else if w = 1 then (\<lambda>d. map_sum id (Pair ()) (pb_fixed 8 d))
     else if w = 2 then (\<lambda>d. map_sum id (Pair ()) (map_sum id snd (pb_len d)))
     else if w = 5 then (\<lambda>d. map_sum id (Pair ()) (pb_fixed 4 d)) else (\<lambda>d. Inl CursorError))"
    by (auto simp: pb_skip_def fun_eq_iff sum.map_comp comp_def sum.map_id0)
  then show ?thesis
    using pb_fixed_reads reads_drop_value [OF pb_len_reads] reads_drop_value [OF pb_varint_reads [of "\<lambda>n. n"]]
    by (auto simp: reads_def [of "\<lambda>d. Inl CursorError"])
qed

lemma pb_reads: "proto_reads pb"
  using pb_tag_local pb_len_reads pb_varint_reads pb_skip_reads
  by (auto simp: proto_reads_def pb_def) (auto simp: pb_tag_def split: if_splits sum.splits dest: varint_read_error)

lemma pb_key_read:
  assumes "0 < f" "f < 2 ^ 29" "w < 6"
  shows "pb_tag (pb_key f w @ r) = Inr (Some ((f, w), r))"
proof -
  have w: "unat w < 6" using assms(3) by (simp add: word_less_nat_alt)
  have f: "0 < unat f" "unat f < 2 ^ 29" using assms(1,2) by (simp_all add: word_less_nat_alt unat_gt_0)
  have "unat f * 8 + unat w < 128 ^ Suc 9" using f w by simp
  note rd = varint_read_back [OF this, of r]
  have "varint_bytes n \<noteq> []" for n by (subst varint_bytes.simps) simp
  then show ?thesis using rd f w by (simp add: pb_tag_def pb_key_def)
qed

lemma pb_len_read:
  assumes "length b < 2 ^ 32"
  shows "pb_len (pb_varint (of_nat (length b)) @ b @ r) = Inr (b, r)"
  using assms by (simp add: pb_len_def pb_varint_read unat_of_nat)

lemma pb_roundtrip: "proto_roundtrip pb"
  unfolding proto_roundtrip_def
  by (auto simp: pb_def pb_key_read pb_len_read pb_varint_read pb_skip_def len_field_def varint_field_def
      WIRE_LEN_def WIRE_VARINT_def map_sum_def split: sum.splits)

interpretation pb: proto pb
  by unfold_locales (rule pb_reads pb_roundtrip)+

section \<open>Properties\<close>

text \<open>
  C24: every caller of the blob header parser accepts and refuses the same headers, whatever
  optional fields it keeps: with any flags the parse fails exactly when the full parse does,
  and otherwise it is the full parse with the fields not asked for cleared. The parse always
  ends.
\<close>
theorem header_flags_only_keep:
  assumes "proto_ok P"
  shows "WireBlobHeader_parse P d t i w \<noteq> Inl LoopStuck
    \<and> (isl (WireBlobHeader_parse P d t i w) \<longleftrightarrow> isl (WireBlobHeader_parse P d True True True))
    \<and> (\<forall>h. WireBlobHeader_parse P d True True True = Inr h \<longrightarrow>
           WireBlobHeader_parse P d t i w = Inr (keep_fields t i w h))"
proof -
  have P: "proto P" using assms by (simp add: proto_ok_def proto.intro)
  show ?thesis using proto.parse_header_ends [OF P, of d t i w] proto.parse_header_keep [OF P, of d t i w]
    by (auto split: sum.splits)
qed

theorem header_flags_only_keep_witness:
  "proto_ok pb \<and> WireBlobHeader_parse pb [10, 7, 79, 83, 77, 68, 97, 116, 97, 34, 1, 9, 24, 5] False True True
     = Inr \<lparr>wh_blob_type = OsmData, wh_datasize = 5, unrecognised_indexdata_len = None, wh_indexdata = None,
            indexdata_present = False, wh_tagdata = None, tagdata_present = False, wh_waymembers = None\<rparr>"
proof -
  have ok: "proto_ok pb" by (simp add: proto_ok_def pb_reads pb_roundtrip)
  have full: "WireBlobHeader_parse pb [10, 7, 79, 83, 77, 68, 97, 116, 97, 34, 1, 9, 24, 5] True True True
     = Inr \<lparr>wh_blob_type = OsmData, wh_datasize = 5, unrecognised_indexdata_len = None, wh_indexdata = None,
            indexdata_present = False, wh_tagdata = Some [9], tagdata_present = True, wh_waymembers = None\<rparr>"
    by code_simp
  show ?thesis
    using ok header_flags_only_keep [OF ok, of "[10, 7, 79, 83, 77, 68, 97, 116, 97, 34, 1, 9, 24, 5]" False True True] full
    by (simp add: keep_fields_def)
qed

end
