(* ===== verification/Interner.thy ===== *)
theory Interner
  imports Blob_Wire "HOL-Library.AList"
begin

text \<open>
  The string interner of the change overlay, \<open>src/src/osc/interner.rs\<close>: one flat buffer of
  text, a table of \<open>(offset, len)\<close> spans indexed by intern ID, and a lookup map that
  deduplicates. A Rust string is its UTF-8 bytes (\<open>utf8_valid\<close>); the three \<open>u32\<close> limits are
  written out, and a panic of \<open>resolve\<close> is \<open>None\<close>. Shown: every ID handed out resolves to
  the string it was handed out for, for ever; two strings share an ID only if they are equal;
  and interning fails exactly when a new string does not fit, leaving the table as it was.
\<close>

section \<open>Definitions\<close>

record StringTable =
  st_data :: bytes
  st_table :: "(u32 \<times> u32) list"

record StringInterner =
  strings :: StringTable
  lookup :: "(bytes \<times> u32) list"

datatype osc_error =
    InternerOverflow string
  | CountOverflow nat string ElementKind i64
  | UnknownMemberType i32
  | VersionRegression string ElementKind i64 i32 i32
  | MissingAttr string
  | InvalidInteger string
  | InvalidNumber string
  | InvalidTimestamp string
  | MalformedXml
  | MalformedAttr string
  | UnknownMemberName string
  | MisplacedElement string string
  | OutsideSection ElementKind "i64 option"
  | TruncatedDocument
  | InvalidCoord string i64
  | Cancelled
  | Internal string

text \<open>\<open>u32::try_from\<close> of a \<open>usize\<close>, and \<open>u32::checked_add\<close>.\<close>

definition u32_try_from :: "nat \<Rightarrow> u32 option" where
  "u32_try_from n = (if int n < 2 ^ 32 then Some (of_nat n) else None)"

definition u32_checked_add :: "u32 \<Rightarrow> u32 \<Rightarrow> u32 option" where
  "u32_checked_add a b = (if uint a + uint b < 2 ^ 32 then Some (a + b) else None)"

text \<open>\<open>str::get(a..b)\<close>: in range, and both ends on a character boundary.\<close>

definition char_boundary :: "bytes \<Rightarrow> nat \<Rightarrow> bool" where
  "char_boundary s i \<longleftrightarrow> i = 0 \<or> i = length s \<or> (i < length s \<and> \<not> cont (s ! i))"

definition str_get :: "bytes \<Rightarrow> nat \<Rightarrow> nat \<Rightarrow> bytes option" where
  "str_get s a b = (if a \<le> b \<and> b \<le> length s \<and> char_boundary s a \<and> char_boundary s b then Some (slice a b s) else None)"

definition StringInterner_new :: StringInterner where
  "StringInterner_new = \<lparr>strings = \<lparr>st_data = [], st_table = [(0, 0)]\<rparr>, lookup = [([], 0)]\<rparr>"

definition intern :: "StringInterner \<Rightarrow> bytes \<Rightarrow> (osc_error + u32) \<times> StringInterner" where
  "intern t s =
     (case map_of (lookup t) s of
        Some n \<Rightarrow> (Inr n, t)
      | None \<Rightarrow>
          (case u32_try_from (length (st_data (strings t))) of
             None \<Rightarrow> (Inl (InternerOverflow ''string bytes''), t)
           | Some offset \<Rightarrow>
          (case u32_try_from (length s) of
             None \<Rightarrow> (Inl (InternerOverflow ''a single string''), t)
           | Some len \<Rightarrow>
          (case u32_checked_add offset len of
             None \<Rightarrow> (Inl (InternerOverflow ''string bytes''), t)
           | Some _ \<Rightarrow>
          (case u32_try_from (length (st_table (strings t))) of
             None \<Rightarrow> (Inl (InternerOverflow ''distinct strings''), t)
           | Some n \<Rightarrow>
               (Inr n, t\<lparr>strings := \<lparr>st_data = st_data (strings t) @ s, st_table = st_table (strings t) @ [(offset, len)]\<rparr>,
                          lookup := AList.update s n (lookup t)\<rparr>))))))"

definition into_strings :: "StringInterner \<Rightarrow> StringTable" where
  "into_strings t = strings t"

definition resolve :: "StringTable \<Rightarrow> u32 \<Rightarrow> bytes option" where
  "resolve st n =
     (if unat n < length (st_table st)
      then let (offset, len) = st_table st ! unat n in str_get (st_data st) (unat offset) (unat offset + unat len)
      else None)"

section \<open>Character boundaries\<close>

declare utf8_valid.simps(2) [simp del]

lemma utf8_head: "utf8_valid (a # s) \<Longrightarrow> \<not> cont a"
proof
  assume u: "utf8_valid (a # s)" and c: "cont a"
  have "\<not> a < 0x80" "\<not> 0xC2 \<le> a" "\<not> 0xE0 \<le> a" "\<not> 0xF0 \<le> a"
    using c by (auto simp: cont_def word_le_nat_alt word_less_nat_alt)
  with u show False by (simp add: utf8_valid.simps(2))
qed

lemma utf8_append: "utf8_valid a \<Longrightarrow> utf8_valid (a @ b) \<longleftrightarrow> utf8_valid b"
proof (induction a rule: utf8_valid.induct)
  case (2 a bs)
  consider "a < 0x80" | "\<not> a < 0x80" "0xC2 \<le> a \<and> a \<le> 0xDF" | "\<not> a < 0x80" "\<not> (0xC2 \<le> a \<and> a \<le> 0xDF)" "0xE0 \<le> a \<and> a \<le> 0xEF"
    | "\<not> a < 0x80" "\<not> (0xC2 \<le> a \<and> a \<le> 0xDF)" "\<not> (0xE0 \<le> a \<and> a \<le> 0xEF)" by blast
  then show ?case
  proof cases
    case 1
    with 2 show ?thesis by (simp add: utf8_valid.simps(2) [of a])
  next
    case case2: 2
    with 2(5) obtain c cs where "bs = c # cs" "cont c" "utf8_valid cs"
      by (auto simp: utf8_valid.simps(2) [of a] split: list.splits)
    with 2(2) [OF case2] case2 show ?thesis by (simp add: utf8_valid.simps(2) [of a])
  next
    case case3: 3
    with 2(5) obtain c d ds where "bs = c # d # ds" "cont c" "cont d" "utf8_valid ds"
      "a = 0xE0 \<longrightarrow> 0xA0 \<le> c" "a = 0xED \<longrightarrow> c \<le> 0x9F"
      by (auto simp: utf8_valid.simps(2) [of a] split: list.splits)
    with 2(3) [OF case3] case3 show ?thesis by (auto simp: utf8_valid.simps(2) [of a])
  next
    case case4: 4
    with 2(5) have r: "0xF0 \<le> a \<and> a \<le> 0xF4" by (auto simp: utf8_valid.simps(2) [of a] split: if_splits)
    with case4 2(5) obtain c d e es where "bs = c # d # e # es" "cont c" "cont d" "cont e" "utf8_valid es"
      "a = 0xF0 \<longrightarrow> 0x90 \<le> c" "a = 0xF4 \<longrightarrow> c \<le> 0x8F"
      by (auto simp: utf8_valid.simps(2) [of a] split: list.splits)
    with 2(4) [OF case4 r] case4 r show ?thesis by (auto simp: utf8_valid.simps(2) [of a])
  qed
qed simp

lemma utf8_concat: "\<forall>s \<in> set ss. utf8_valid s \<Longrightarrow> utf8_valid (concat ss)"
  by (induction ss) (auto simp: utf8_append)

text \<open>Between two well-formed pieces there is a boundary.\<close>

lemma boundary_join: "utf8_valid b \<Longrightarrow> char_boundary (a @ b) (length a)"
  by (cases b) (auto simp: char_boundary_def nth_append dest: utf8_head)

lemma str_get_piece:
  assumes "utf8_valid s" "utf8_valid c"
  shows "str_get (a @ s @ c) (length a) (length a + length s) = Some s"
proof -
  have "utf8_valid (s @ c)" using assms by (simp add: utf8_append)
  then have "char_boundary (a @ s @ c) (length a)" by (rule boundary_join)
  moreover have "char_boundary (a @ s @ c) (length a + length s)"
    using boundary_join [OF assms(2), of "a @ s"] by simp
  ultimately show ?thesis by (simp add: str_get_def slice_def)
qed

section \<open>The invariant\<close>

text \<open>
  \<open>interned ss t\<close>: the table holds the strings \<open>ss\<close>, string number \<open>i\<close> under ID \<open>i\<close>.
\<close>

definition span_of :: "bytes list \<Rightarrow> nat \<Rightarrow> u32 \<times> u32" where
  "span_of ss i = (of_nat (length (concat (take i ss))), of_nat (length (ss ! i)))"

definition interned :: "bytes list \<Rightarrow> StringInterner \<Rightarrow> bool" where
  "interned ss t \<longleftrightarrow> distinct ss \<and> (\<forall>s \<in> set ss. utf8_valid s) \<and> length ss \<le> 2 ^ 32 \<and> length (concat ss) < 2 ^ 32 \<and>
     strings t = \<lparr>st_data = concat ss, st_table = map (span_of ss) [0..<length ss]\<rparr> \<and>
     (\<forall>s. map_of (lookup t) s = (case find (\<lambda>i. ss ! i = s) [0..<length ss] of None \<Rightarrow> None | Some i \<Rightarrow> Some (of_nat i)))"

lemma find_index_iff: "distinct ss \<Longrightarrow> find (\<lambda>i. ss ! i = s) [0..<length ss] = Some i \<longleftrightarrow> i < length ss \<and> ss ! i = s"
  by (auto simp: find_Some_iff nth_eq_iff_index_eq)

lemma find_index_None: "find (\<lambda>i. ss ! i = s) [0..<length ss] = None \<longleftrightarrow> s \<notin> set ss"
  by (auto simp: find_None_iff in_set_conv_nth)

lemma interned_lookup:
  assumes "interned ss t"
  shows "map_of (lookup t) s = None \<longleftrightarrow> s \<notin> set ss"
    and "map_of (lookup t) s = Some n \<longleftrightarrow> (\<exists>i < length ss. ss ! i = s \<and> n = of_nat i)"
proof -
  have d: "distinct ss" using assms by (simp add: interned_def)
  have *: "map_of (lookup t) s = (case find (\<lambda>i. ss ! i = s) [0..<length ss] of None \<Rightarrow> None | Some i \<Rightarrow> Some (of_nat i))"
    using assms by (simp add: interned_def)
  show "map_of (lookup t) s = None \<longleftrightarrow> s \<notin> set ss"
    unfolding * by (simp add: find_index_None [symmetric] split: option.splits)
  show "map_of (lookup t) s = Some n \<longleftrightarrow> (\<exists>i < length ss. ss ! i = s \<and> n = of_nat i)"
  proof (cases "find (\<lambda>i. ss ! i = s) [0..<length ss]")
    case None
    then show ?thesis using find_index_None [of ss s] unfolding * by auto
  next
    case (Some i)
    then have "i < length ss" "ss ! i = s" using find_index_iff [OF d, of s i] by auto
    moreover have "j = i" if "j < length ss" "ss ! j = s" for j
      using that calculation nth_eq_iff_index_eq [OF d] by blast
    ultimately have "(\<exists>j < length ss. ss ! j = s \<and> n = of_nat j) \<longleftrightarrow> n = of_nat i" by blast
    then show ?thesis unfolding * Some by auto
  qed
qed

lemma interned_resolve:
  assumes "interned ss t" "i < length ss"
  shows "resolve (strings t) (of_nat i) = Some (ss ! i)"
proof -
  let ?a = "concat (take i ss)" and ?c = "concat (drop (Suc i) ss)"
  have c: "concat ss = ?a @ ss ! i @ ?c"
    by (subst id_take_nth_drop [OF assms(2)]) simp
  have "length (concat ss) = length ?a + length (ss ! i) + length ?c" by (subst c) simp
  moreover have "length (concat ss) < 2 ^ 32" "length ss \<le> 2 ^ 32" using assms by (auto simp: interned_def)
  ultimately have n: "i < 2 ^ 32" "length ?a < 2 ^ 32" "length (ss ! i) < 2 ^ 32" using assms(2) by linarith+
  have "utf8_valid (ss ! i)" "utf8_valid ?c"
    using assms by (auto simp: interned_def intro!: utf8_concat dest: in_set_dropD)
  then have "str_get (concat ss) (length ?a) (length ?a + length (ss ! i)) = Some (ss ! i)"
    unfolding c by (rule str_get_piece)
  moreover have "unat (of_nat i :: u32) = i" "unat (of_nat (length ?a) :: u32) = length ?a"
    "unat (of_nat (length (ss ! i)) :: u32) = length (ss ! i)"
    using n by (auto simp: unsigned_of_nat take_bit_eq_mod)
  ultimately show ?thesis
    using assms by (simp add: resolve_def interned_def span_of_def)
qed

lemma interned_new: "interned [[]] StringInterner_new"
  by (simp add: interned_def StringInterner_new_def span_of_def)

lemma span_of_append: "i < length ss \<Longrightarrow> span_of (ss @ xs) i = span_of ss i"
  by (simp add: span_of_def nth_append)

lemma find_append_new:
  "s \<notin> set ss \<Longrightarrow> find (\<lambda>i. (ss @ [s]) ! i = s') [0..<length (ss @ [s])] =
    (if s' = s then Some (length ss) else find (\<lambda>i. ss ! i = s') [0..<length ss])"
proof -
  assume s: "s \<notin> set ss"
  have *: "find (\<lambda>i. (ss @ [s]) ! i = s') [0..<length ss] = find (\<lambda>i. ss ! i = s') [0..<length ss]"
    by (rule find_cong) (auto simp: nth_append)
  have "find (\<lambda>i. ss ! i = s') [0..<length ss] = None" if "s' = s"
    using that s by (simp add: find_index_None)
  then show ?thesis using * by (auto simp: find_append nth_append split: option.splits)
qed

lemma intern_new_state:
  assumes t: "interned ss t" and s: "s \<notin> set ss" "utf8_valid s" and fits: "length (concat ss) + length s < 2 ^ 32" "length ss < 2 ^ 32"
  shows "intern t s = (Inr (of_nat (length ss)),
      t\<lparr>strings := \<lparr>st_data = concat (ss @ [s]), st_table = map (span_of (ss @ [s])) [0..<length (ss @ [s])]\<rparr>,
        lookup := AList.update s (of_nat (length ss)) (lookup t)\<rparr>)"
proof -
  have l: "map_of (lookup t) s = None" using interned_lookup [OF t] s by simp
  have st: "strings t = \<lparr>st_data = concat ss, st_table = map (span_of ss) [0..<length ss]\<rparr>"
    using t by (simp add: interned_def)
  have "int (length (concat ss)) < 2 ^ 32" "int (length s) < 2 ^ 32" "int (length ss) < 2 ^ 32"
    "int (length (concat ss)) + int (length s) < 2 ^ 32"
    using fits by simp_all
  then have "u32_try_from (length (concat ss)) = Some (of_nat (length (concat ss)))"
    "u32_try_from (length s) = Some (of_nat (length s))" "u32_try_from (length ss) = Some (of_nat (length ss))"
    "u32_checked_add (of_nat (length (concat ss))) (of_nat (length s)) =
       Some (of_nat (length (concat ss)) + of_nat (length s))"
    by (auto simp: u32_try_from_def u32_checked_add_def unsigned_of_nat take_bit_eq_mod)
  moreover have "map (span_of (ss @ [s])) [0..<length ss] = map (span_of ss) [0..<length ss]"
    by (simp add: span_of_append)
  moreover have "span_of (ss @ [s]) (length ss) = (of_nat (length (concat ss)), of_nat (length s))"
    by (simp add: span_of_def)
  ultimately show ?thesis by (simp add: intern_def l st)
qed

lemma intern_new:
  assumes t: "interned ss t" and s: "s \<notin> set ss" "utf8_valid s" and fits: "length (concat ss) + length s < 2 ^ 32" "length ss < 2 ^ 32"
  shows "fst (intern t s) = Inr (of_nat (length ss))" "interned (ss @ [s]) (snd (intern t s))"
proof -
  note eq = intern_new_state [OF assms]
  show "fst (intern t s) = Inr (of_nat (length ss))" by (simp add: eq)
  have lk: "map_of (lookup t) s' = (case find (\<lambda>i. ss ! i = s') [0..<length ss] of None \<Rightarrow> None | Some i \<Rightarrow> Some (of_nat i))" for s'
    using t by (simp add: interned_def)
  have "map_of (AList.update s (of_nat (length ss)) (lookup t)) s' =
      (case find (\<lambda>i. (ss @ [s]) ! i = s') [0..<length (ss @ [s])] of None \<Rightarrow> None | Some i \<Rightarrow> Some (of_nat i))" for s'
    unfolding find_append_new [OF s(1)] by (simp add: update_conv' lk)
  then show "interned (ss @ [s]) (snd (intern t s))"
    using t s fits unfolding interned_def by (simp add: eq)
qed

lemma intern_known:
  assumes "interned ss t" "i < length ss" "ss ! i = s"
  shows "intern t s = (Inr (of_nat i), t)"
proof -
  have "map_of (lookup t) s = Some (of_nat i)" using assms by (auto simp: interned_lookup(2))
  then show ?thesis by (simp add: intern_def)
qed

lemma intern_full:
  assumes t: "interned ss t" and s: "s \<notin> set ss" "\<not> (length (concat ss) + length s < 2 ^ 32 \<and> length ss < 2 ^ 32)"
  shows "\<exists>w. intern t s = (Inl (InternerOverflow w), t)"
proof -
  have l: "map_of (lookup t) s = None" using interned_lookup [OF t] s by simp
  have st: "strings t = \<lparr>st_data = concat ss, st_table = map (span_of ss) [0..<length ss]\<rparr>" and
    n: "length (concat ss) < 2 ^ 32" using t by (auto simp: interned_def)
  have n': "int (length (concat ss)) < 2 ^ 32" using n by simp
  have "\<not> (int (length (concat ss)) + int (length s) < 2 ^ 32 \<and> int (length ss) < 2 ^ 32)"
    using s(2) by simp
  then show ?thesis using n'
    by (auto simp: intern_def l st u32_try_from_def u32_checked_add_def unsigned_of_nat take_bit_eq_mod
        split: option.splits if_splits)
qed

text \<open>The three cases of one step.\<close>

lemma intern_cases:
  assumes "interned ss t" "utf8_valid s"
  obtains (known) i where "i < length ss" "ss ! i = s" "intern t s = (Inr (of_nat i), t)"
  | (new) t' where "s \<notin> set ss" "intern t s = (Inr (of_nat (length ss)), t')" "interned (ss @ [s]) t'"
  | (full) w where "s \<notin> set ss" "intern t s = (Inl (InternerOverflow w), t)"
proof (cases "s \<in> set ss")
  case True
  then show ?thesis using intern_known [OF assms(1)] known by (auto simp: in_set_conv_nth)
next
  case False
  then show ?thesis
    using intern_new [OF assms(1) False assms(2)] intern_full [OF assms(1) False] new full
    by (metis prod.collapse)
qed

section \<open>The contract\<close>

text \<open>
  What the overlay relies on: \<open>add\<close> hands out an ID for a string, \<open>str\<close> reads it back.
  Interning disturbs no ID handed out before, and distinct IDs stand for distinct strings.
\<close>

fun add_all :: "('t \<Rightarrow> bytes \<Rightarrow> (osc_error + u32) \<times> 't) \<Rightarrow> 't \<Rightarrow> bytes list \<Rightarrow> (osc_error + u32 list) \<times> 't" where
  "add_all add t [] = (Inr [], t)"
| "add_all add t (s # ss) =
     (case add t s of
        (Inl e, t') \<Rightarrow> (Inl e, t')
      | (Inr i, t') \<Rightarrow>
          (case add_all add t' ss of
             (Inl e, t'') \<Rightarrow> (Inl e, t'')
           | (Inr is, t'') \<Rightarrow> (Inr (i # is), t'')))"

locale string_pool =
  fixes ok :: "'t \<Rightarrow> bool"
    and add :: "'t \<Rightarrow> bytes \<Rightarrow> (osc_error + u32) \<times> 't"
    and str :: "'t \<Rightarrow> u32 \<Rightarrow> bytes option"
  assumes add_ok: "ok t \<Longrightarrow> utf8_valid s \<Longrightarrow> ok (snd (add t s))"
    and add_keeps: "ok t \<Longrightarrow> utf8_valid s \<Longrightarrow> str t i = Some x \<Longrightarrow> str (snd (add t s)) i = Some x"
    and add_gets: "ok t \<Longrightarrow> utf8_valid s \<Longrightarrow> fst (add t s) = Inr i \<Longrightarrow> str (snd (add t s)) i = Some s"
    and text_inj: "ok t \<Longrightarrow> str t i = Some x \<Longrightarrow> str t j = Some x \<Longrightarrow> i = j"
begin

lemma add_all_ok: "ok t \<Longrightarrow> \<forall>s \<in> set ss. utf8_valid s \<Longrightarrow> ok (snd (add_all add t ss))"
proof (induction ss arbitrary: t)
  case (Cons s ss)
  obtain r t' where a: "add t s = (r, t')" by fastforce
  have "ok t'" using Cons.prems add_ok [of t s] a by auto
  with Cons show ?case by (auto simp: a split: prod.splits sum.splits) (metis snd_conv)+
qed simp

lemma add_all_keeps:
  "ok t \<Longrightarrow> \<forall>s \<in> set ss. utf8_valid s \<Longrightarrow> str t i = Some x \<Longrightarrow> str (snd (add_all add t ss)) i = Some x"
proof (induction ss arbitrary: t)
  case (Cons s ss)
  obtain r t' where a: "add t s = (r, t')" by fastforce
  have "ok t'" "str t' i = Some x" using Cons.prems add_ok [of t s] add_keeps [of t s i x] a by auto
  with Cons show ?case by (auto simp: a split: prod.splits sum.splits) (metis snd_conv)+
qed simp

lemma add_all_texts:
  "ok t \<Longrightarrow> \<forall>s \<in> set ss. utf8_valid s \<Longrightarrow> add_all add t ss = (Inr is, t') \<Longrightarrow> map (str t') is = map Some ss"
proof (induction ss arbitrary: t "is" t')
  case (Cons s ss)
  obtain r t1 where a: "add t s = (r, t1)" by fastforce
  obtain i js where r: "r = Inr i" "is = i # js" "add_all add t1 ss = (Inr js, t')"
    using Cons.prems(3) by (auto simp: a split: sum.splits prod.splits)
  have t1: "ok t1" "str t1 i = Some s" using Cons.prems add_ok [of t s] add_gets [of t s i] a r by auto
  then have "str t' i = Some s" using add_all_keeps [of t1 ss i s] Cons.prems(2) r(3) by simp
  with Cons.IH [OF t1(1) _ r(3)] Cons.prems(2) r(2) show ?case by simp
qed simp

lemma add_all_agree:
  assumes "ok t" "\<forall>s \<in> set ss. utf8_valid s" "add_all add t ss = (Inr is, t')" "a < length ss" "b < length ss"
  shows "is ! a = is ! b \<longleftrightarrow> ss ! a = ss ! b"
proof -
  have m: "map (str t') is = map Some ss" using add_all_texts assms by blast
  then have "length is = length ss" by (metis length_map)
  then have "str t' (is ! a) = Some (ss ! a)" "str t' (is ! b) = Some (ss ! b)"
    using assms(4,5) arg_cong [OF m, of "\<lambda>l. l ! a"] arg_cong [OF m, of "\<lambda>l. l ! b"] by simp_all
  moreover have "ok t'" using add_all_ok assms by (metis snd_conv)
  ultimately show ?thesis using text_inj by fastforce
qed

end

definition interner_ok :: "StringInterner \<Rightarrow> bool" where
  "interner_ok t \<longleftrightarrow> (\<exists>ss. interned ss t)"

lemma resolve_Some:
  assumes "interned ss t" "resolve (strings t) i = Some x"
  shows "unat i < length ss \<and> ss ! unat i = x"
proof -
  have n: "unat i < length ss" using assms by (auto simp: resolve_def interned_def split: if_splits)
  then show ?thesis using interned_resolve [OF assms(1) n] assms(2) by simp
qed

interpretation pool: string_pool interner_ok intern "\<lambda>t. resolve (strings t)"
proof (unfold_locales, goal_cases)
  case (1 t s)
  then obtain ss where "interned ss t" by (auto simp: interner_ok_def)
  from this 1(2) show ?case
    by (cases rule: intern_cases) (use 1(1) in \<open>auto simp: interner_ok_def\<close>)
next
  case (2 t s i x)
  then obtain ss where ss: "interned ss t" by (auto simp: interner_ok_def)
  from ss 2(2) show ?case
  proof (cases rule: intern_cases)
    case (new t')
    have n: "unat i < length ss" "ss ! unat i = x" using resolve_Some [OF ss 2(3)] by auto
    with interned_resolve [OF new(3), of "unat i"] new(2) show ?thesis by (simp add: nth_append)
  qed (use 2(3) in auto)
next
  case (3 t s i)
  then obtain ss where ss: "interned ss t" by (auto simp: interner_ok_def)
  from ss 3(2) show ?case
  proof (cases rule: intern_cases)
    case (known j)
    with interned_resolve [OF ss known(1)] 3(3) show ?thesis by auto
  next
    case (new t')
    with interned_resolve [OF new(3), of "length ss"] 3(3) show ?thesis by auto
  qed (use 3(3) in auto)
next
  case (4 t i x j)
  then obtain ss where ss: "interned ss t" by (auto simp: interner_ok_def)
  have "distinct ss" using ss by (simp add: interned_def)
  with resolve_Some [OF ss 4(2)] resolve_Some [OF ss 4(3)] have "unat i = unat j"
    by (auto simp: nth_eq_iff_index_eq)
  then show ?case by (simp add: word_unat_eq_iff)
qed

lemma new_ok: "interner_ok StringInterner_new"
  using interned_new interner_ok_def by blast

section \<open>Properties\<close>

text \<open>
  C21: the interner is faithful. When a run of strings has been interned into a fresh
  interner, each ID handed out resolves, in the table that is kept, to the string it was
  handed out for, two positions got the same ID exactly when their strings are equal, and a
  later interning, successful or not, changes none of these answers.
\<close>

theorem interner_faithful:
  assumes "\<forall>s \<in> set ss. utf8_valid s" "add_all intern StringInterner_new ss = (Inr is, t)" "utf8_valid s"
  shows "map (resolve (into_strings t)) is = map Some ss \<and>
    map (resolve (into_strings (snd (intern t s)))) is = map Some ss \<and>
    (\<forall>a < length ss. \<forall>b < length ss. is ! a = is ! b \<longleftrightarrow> ss ! a = ss ! b)"
proof -
  have m: "map (resolve (strings t)) is = map Some ss" by (rule pool.add_all_texts [OF new_ok assms(1,2)])
  have ok: "interner_ok t" using pool.add_all_ok [OF new_ok assms(1)] assms(2) by simp
  have len: "length is = length ss" using arg_cong [OF m, of length] by simp
  have "resolve (strings (snd (intern t s))) (is ! a) = Some (ss ! a)" if "a < length ss" for a
    using pool.add_keeps [OF ok assms(3)] arg_cong [OF m, of "\<lambda>l. l ! a"] that len by simp
  then have "map (resolve (strings (snd (intern t s)))) is = map Some ss"
    using len by (intro nth_equalityI) simp_all
  then show ?thesis using m pool.add_all_agree [OF new_ok assms(1,2)] by (simp add: into_strings_def)
qed

theorem interner_faithful_witness:
  "\<exists>t. add_all intern StringInterner_new [[110], [104, 119], [110]] = (Inr [1, 2, 1], t) \<and>
     map (resolve (into_strings t)) [1, 2, 1] = map Some [[110], [104, 119], [110]]"
proof -
  let ?ss = "[[110], [104, 119], [110 :: u8]]"
  have v: "\<forall>s \<in> set ?ss. utf8_valid s" by code_simp
  have "fst (add_all intern StringInterner_new ?ss) = Inr [1, 2, 1]" by code_simp
  then obtain t where t: "add_all intern StringInterner_new ?ss = (Inr [1, 2, 1], t)" by (metis prod.collapse)
  with interner_faithful [OF v t, of "[]"] show ?thesis by auto
qed

end
