(* ===== verification/Osc_Arena.thy ===== *)
theory Osc_Arena
  imports Interner
begin

text \<open>
  The packed records of the change overlay, \<open>src/src/osc/compact.rs\<close>: one byte arena per
  kind, appended to by \<open>arena_append_node\<close>, \<open>arena_append_way\<close> and \<open>arena_append_relation\<close>
  and read in place by the accessors and their iterators over tags, node references and
  members. An append that refuses a count keeps the bytes it had written, as the source
  does; a panic of a reader is \<open>None\<close>. Shown: whatever is appended is read back field by
  field at the offset returned, however much is appended after it.
\<close>

section \<open>Reading fixed-width integers\<close>

definition read_i64_le :: "bytes \<Rightarrow> nat \<Rightarrow> i64 option" where
  "read_i64_le data offset = map_option of_le_bytes (le_at 8 data offset)"

definition read_i32_le :: "bytes \<Rightarrow> nat \<Rightarrow> i32 option" where
  "read_i32_le data offset = map_option of_le_bytes (le_at 4 data offset)"

definition read_u32_le :: "bytes \<Rightarrow> nat \<Rightarrow> u32 option" where
  "read_u32_le data offset = map_option of_le_bytes (le_at 4 data offset)"

text \<open>\<open>data[i]\<close>\<close>

definition byte_at :: "bytes \<Rightarrow> nat \<Rightarrow> u8 option" where
  "byte_at data i = (if i < length data then Some (data ! i) else None)"

section \<open>Member types\<close>

datatype MemberType = MemberNode | MemberWay | MemberRelation | MemberUnknown i32

fun member_type_to_byte :: "MemberType \<Rightarrow> osc_error + u8" where
  "member_type_to_byte MemberNode = Inr 0"
| "member_type_to_byte MemberWay = Inr 1"
| "member_type_to_byte MemberRelation = Inr 2"
| "member_type_to_byte (MemberUnknown v) = Inl (UnknownMemberType v)"

definition byte_to_member_type :: "u8 \<Rightarrow> MemberType option" where
  "byte_to_member_type b =
     (if b = 0 then Some MemberNode else if b = 1 then Some MemberWay else if b = 2 then Some MemberRelation else None)"

section \<open>The metadata block\<close>

record ArenaMeta =
  am_flags :: u8
  am_version :: i32
  am_timestamp :: i64
  am_changeset :: i64
  am_uid :: i32
  am_user_id :: u32

definition W_FLAGS :: nat where "W_FLAGS = 1"
definition W_VERSION :: nat where "W_VERSION = 4"
definition W_TIMESTAMP :: nat where "W_TIMESTAMP = 8"
definition W_CHANGESET :: nat where "W_CHANGESET = 8"
definition W_UID :: nat where "W_UID = 4"
definition W_USER_ID :: nat where "W_USER_ID = 4"
definition M_VERSION :: nat where "M_VERSION = W_FLAGS"
definition M_TIMESTAMP :: nat where "M_TIMESTAMP = M_VERSION + W_VERSION"
definition M_CHANGESET :: nat where "M_CHANGESET = M_TIMESTAMP + W_TIMESTAMP"
definition M_UID :: nat where "M_UID = M_CHANGESET + W_CHANGESET"
definition M_USER_ID :: nat where "M_USER_ID = M_UID + W_UID"
definition META_LEN :: nat where "META_LEN = M_USER_ID + W_USER_ID"

definition META_FLAG_PRESENT :: u8 where "META_FLAG_PRESENT = 1"
definition META_FLAG_HIDDEN :: u8 where "META_FLAG_HIDDEN = 2"
definition META_FLAG_HAS_USER :: u8 where "META_FLAG_HAS_USER = 4"
definition META_FLAG_HAS_VERSION :: u8 where "META_FLAG_HAS_VERSION = 8"

definition NODE_META_OFF :: nat where "NODE_META_OFF = 8 + 4 + 4 + 4"
definition WAY_META_OFF :: nat where "WAY_META_OFF = 8 + 4 + 4"
definition RELATION_META_OFF :: nat where "RELATION_META_OFF = 8 + 4 + 4"

lemmas arena_consts [wire_simps] =
  W_FLAGS_def W_VERSION_def W_TIMESTAMP_def W_CHANGESET_def W_UID_def W_USER_ID_def
  M_VERSION_def M_TIMESTAMP_def M_CHANGESET_def M_UID_def M_USER_ID_def META_LEN_def
  NODE_META_OFF_def WAY_META_OFF_def RELATION_META_OFF_def

definition version_claim :: "ArenaMeta \<Rightarrow> i32 option" where
  "version_claim m = (if am_flags m AND META_FLAG_HAS_VERSION = 0 then None else Some (am_version m))"

definition version_at :: "bytes \<Rightarrow> nat \<Rightarrow> nat \<Rightarrow> i32 option option" where
  "version_at data record_offset meta_off = do {
     flags \<leftarrow> byte_at data (record_offset + meta_off);
     if flags AND META_FLAG_HAS_VERSION = 0 then Some None
     else map_option Some (read_i32_le data (record_offset + meta_off + M_VERSION))
   }"

definition arena_append_meta :: "bytes \<Rightarrow> ArenaMeta \<Rightarrow> bytes" where
  "arena_append_meta arena m = arena @ [am_flags m] @ le_bytes 4 (am_version m) @ le_bytes 8 (am_timestamp m)
     @ le_bytes 8 (am_changeset m) @ le_bytes 4 (am_uid m) @ le_bytes 4 (am_user_id m)"

record Metadata =
  md_version :: i32
  md_timestamp :: i64
  md_changeset :: i64
  md_uid :: i32
  md_user :: bytes
  md_visible :: bool

definition read_meta :: "bytes \<Rightarrow> nat \<Rightarrow> StringTable \<Rightarrow> Metadata option option" where
  "read_meta data offset st = do {
     flags \<leftarrow> byte_at data offset;
     if flags AND META_FLAG_PRESENT = 0 then Some None
     else do {
       version \<leftarrow> read_i32_le data (offset + M_VERSION);
       timestamp \<leftarrow> read_i64_le data (offset + M_TIMESTAMP);
       changeset \<leftarrow> read_i64_le data (offset + M_CHANGESET);
       uid \<leftarrow> read_i32_le data (offset + M_UID);
       user \<leftarrow> (if flags AND META_FLAG_HAS_USER \<noteq> 0
                then do { i \<leftarrow> read_u32_le data (offset + M_USER_ID); resolve st i } else Some []);
       Some (Some \<lparr>md_version = version, md_timestamp = timestamp, md_changeset = changeset, md_uid = uid,
         md_user = user, md_visible = (flags AND META_FLAG_HIDDEN = 0)\<rparr>)
     }
   }"

section \<open>Appending records\<close>

definition count_u32 :: "nat \<Rightarrow> string \<Rightarrow> ElementKind \<Rightarrow> i64 \<Rightarrow> osc_error + u32" where
  "count_u32 len what k i = (case u32_try_from len of Some n \<Rightarrow> Inr n | None \<Rightarrow> Inl (CountOverflow len what k i))"

fun append_tags :: "bytes \<Rightarrow> (u32 \<times> bytes) list \<Rightarrow> ElementKind \<Rightarrow> i64 \<Rightarrow> (osc_error + unit) \<times> bytes" where
  "append_tags arena [] k i = (Inr (), arena)"
| "append_tags arena ((key, val) # tags) k i =
     (let arena = arena @ le_bytes 4 key in
      case count_u32 (length val) ''tag value bytes'' k i of
        Inl e \<Rightarrow> (Inl e, arena)
      | Inr n \<Rightarrow> append_tags (arena @ le_bytes 4 n @ val) tags k i)"

definition arena_append_node ::
    "bytes \<Rightarrow> i64 \<Rightarrow> i32 \<Rightarrow> i32 \<Rightarrow> (u32 \<times> bytes) list \<Rightarrow> ArenaMeta \<Rightarrow> (osc_error + nat) \<times> bytes" where
  "arena_append_node arena i lat lon tags m =
     (let offset = length arena;
          arena = arena @ le_bytes 8 i @ le_bytes 4 lat @ le_bytes 4 lon in
      case count_u32 (length tags) ''tags'' Node i of
        Inl e \<Rightarrow> (Inl e, arena)
      | Inr n \<Rightarrow>
          (case append_tags (arena_append_meta (arena @ le_bytes 4 n) m) tags Node i of
             (Inl e, arena) \<Rightarrow> (Inl e, arena)
           | (Inr _, arena) \<Rightarrow> (Inr offset, arena)))"

definition arena_append_way ::
    "bytes \<Rightarrow> i64 \<Rightarrow> i64 list \<Rightarrow> (u32 \<times> bytes) list \<Rightarrow> ArenaMeta \<Rightarrow> (osc_error + nat) \<times> bytes" where
  "arena_append_way arena i refs tags m =
     (case count_u32 (length refs) ''node refs'' Way i of
        Inl e \<Rightarrow> (Inl e, arena)
      | Inr ref_count \<Rightarrow>
     (case count_u32 (length tags) ''tags'' Way i of
        Inl e \<Rightarrow> (Inl e, arena)
      | Inr tag_count \<Rightarrow>
          (let offset = length arena;
               arena = arena_append_meta (arena @ le_bytes 8 i @ le_bytes 4 ref_count @ le_bytes 4 tag_count) m
                 @ concat (map (le_bytes 8) refs) in
           case append_tags arena tags Way i of
             (Inl e, arena) \<Rightarrow> (Inl e, arena)
           | (Inr _, arena) \<Rightarrow> (Inr offset, arena))))"

definition member_bytes :: "i64 \<times> u8 \<times> u32 \<Rightarrow> bytes" where
  "member_bytes mb = (case mb of (ref_id, type_byte, role_id) \<Rightarrow> le_bytes 8 ref_id @ [type_byte] @ le_bytes 4 role_id)"

definition arena_append_relation ::
    "bytes \<Rightarrow> i64 \<Rightarrow> (i64 \<times> u8 \<times> u32) list \<Rightarrow> (u32 \<times> bytes) list \<Rightarrow> ArenaMeta \<Rightarrow> (osc_error + nat) \<times> bytes" where
  "arena_append_relation arena i members tags m =
     (case count_u32 (length members) ''members'' Relation i of
        Inl e \<Rightarrow> (Inl e, arena)
      | Inr member_count \<Rightarrow>
     (case count_u32 (length tags) ''tags'' Relation i of
        Inl e \<Rightarrow> (Inl e, arena)
      | Inr tag_count \<Rightarrow>
          (let offset = length arena;
               arena = arena_append_meta (arena @ le_bytes 8 i @ le_bytes 4 member_count @ le_bytes 4 tag_count) m
                 @ concat (map member_bytes members) in
           case append_tags arena tags Relation i of
             (Inl e, arena) \<Rightarrow> (Inl e, arena)
           | (Inr _, arena) \<Rightarrow> (Inr offset, arena))))"

section \<open>Iterators\<close>

text \<open>One call of \<open>next\<close>: a panic, the end, or an item and the advanced iterator.\<close>

datatype ('x, 'it) iter_step = Panicked | Ended | Yielded 'x 'it

primrec iter_collect :: "('it \<Rightarrow> ('x, 'it) iter_step) \<Rightarrow> nat \<Rightarrow> 'it \<Rightarrow> 'x list option" where
  "iter_collect nxt 0 it = (case nxt it of Ended \<Rightarrow> Some [] | _ \<Rightarrow> None)"
| "iter_collect nxt (Suc n) it =
     (case nxt it of Ended \<Rightarrow> Some [] | Panicked \<Rightarrow> None
      | Yielded x it' \<Rightarrow> map_option ((#) x) (iter_collect nxt n it'))"

definition yield :: "('x \<times> 'it) option \<Rightarrow> ('x, 'it) iter_step" where
  "yield r = (case r of None \<Rightarrow> Panicked | Some (x, it) \<Rightarrow> Yielded x it)"

record CompactTagIter =
  ti_data :: bytes
  ti_offset :: nat
  ti_remaining :: nat
  ti_strings :: StringTable

definition CompactTagIter_next :: "CompactTagIter \<Rightarrow> (bytes \<times> bytes, CompactTagIter) iter_step" where
  "CompactTagIter_next it =
     (if ti_remaining it = 0 then Ended
      else yield (do {
        key_id \<leftarrow> read_u32_le (ti_data it) (ti_offset it);
        value_len \<leftarrow> read_u32_le (ti_data it) (ti_offset it + 4);
        value_bytes \<leftarrow> le_at (unat value_len) (ti_data it) (ti_offset it + 8);
        key \<leftarrow> resolve (ti_strings it) key_id;
        if utf8_valid value_bytes
        then Some ((key, value_bytes), it\<lparr>ti_offset := ti_offset it + 8 + unat value_len, ti_remaining := ti_remaining it - 1\<rparr>)
        else None
      }))"

record CompactRefIter =
  ri_data :: bytes
  ri_offset :: nat
  ri_remaining :: nat

definition CompactRefIter_next :: "CompactRefIter \<Rightarrow> (i64, CompactRefIter) iter_step" where
  "CompactRefIter_next it =
     (if ri_remaining it = 0 then Ended
      else yield (do {
        val \<leftarrow> read_i64_le (ri_data it) (ri_offset it);
        Some (val, it\<lparr>ri_offset := ri_offset it + 8, ri_remaining := ri_remaining it - 1\<rparr>)
      }))"

record CompactMemberIter =
  mi_data :: bytes
  mi_offset :: nat
  mi_remaining :: nat
  mi_strings :: StringTable

definition CompactMemberIter_next :: "CompactMemberIter \<Rightarrow> (MemberType \<times> i64 \<times> bytes, CompactMemberIter) iter_step" where
  "CompactMemberIter_next it =
     (if mi_remaining it = 0 then Ended
      else yield (do {
        ref_id \<leftarrow> read_i64_le (mi_data it) (mi_offset it);
        type_byte \<leftarrow> byte_at (mi_data it) (mi_offset it + 8);
        role_id \<leftarrow> read_u32_le (mi_data it) (mi_offset it + 9);
        member_type \<leftarrow> byte_to_member_type type_byte;
        role \<leftarrow> resolve (mi_strings it) role_id;
        Some ((member_type, ref_id, role), it\<lparr>mi_offset := mi_offset it + 13, mi_remaining := mi_remaining it - 1\<rparr>)
      }))"

section \<open>Accessors\<close>

record CompactRef =
  cr_data :: bytes
  cr_strings :: StringTable

type_synonym CompactNodeRef = CompactRef
type_synonym CompactWayRef = CompactRef
type_synonym CompactRelationRef = CompactRef

definition NodeRef_HEADER_LEN :: nat where "NodeRef_HEADER_LEN = NODE_META_OFF + META_LEN"
definition WayRef_HEADER_LEN :: nat where "WayRef_HEADER_LEN = WAY_META_OFF + META_LEN"
definition RelationRef_HEADER_LEN :: nat where "RelationRef_HEADER_LEN = RELATION_META_OFF + META_LEN"
definition MEMBER_SIZE :: nat where "MEMBER_SIZE = 13"

declare NodeRef_HEADER_LEN_def [wire_simps] WayRef_HEADER_LEN_def [wire_simps]
  RelationRef_HEADER_LEN_def [wire_simps] MEMBER_SIZE_def [wire_simps]

definition NodeRef_id :: "CompactNodeRef \<Rightarrow> i64 option" where
  "NodeRef_id r = read_i64_le (cr_data r) 0"

definition decimicro_lat :: "CompactNodeRef \<Rightarrow> i32 option" where
  "decimicro_lat r = read_i32_le (cr_data r) 8"

definition decimicro_lon :: "CompactNodeRef \<Rightarrow> i32 option" where
  "decimicro_lon r = read_i32_le (cr_data r) 12"

definition NodeRef_tag_count :: "CompactNodeRef \<Rightarrow> nat option" where
  "NodeRef_tag_count r = map_option unat (read_u32_le (cr_data r) 16)"

definition NodeRef_metadata :: "CompactNodeRef \<Rightarrow> Metadata option option" where
  "NodeRef_metadata r = read_meta (cr_data r) NODE_META_OFF (cr_strings r)"

definition NodeRef_tags :: "CompactNodeRef \<Rightarrow> CompactTagIter option" where
  "NodeRef_tags r = do {
     n \<leftarrow> NodeRef_tag_count r;
     Some \<lparr>ti_data = cr_data r, ti_offset = NodeRef_HEADER_LEN, ti_remaining = n, ti_strings = cr_strings r\<rparr>
   }"

definition WayRef_id :: "CompactWayRef \<Rightarrow> i64 option" where
  "WayRef_id r = read_i64_le (cr_data r) 0"

definition ref_count :: "CompactWayRef \<Rightarrow> nat option" where
  "ref_count r = map_option unat (read_u32_le (cr_data r) 8)"

definition WayRef_tag_count :: "CompactWayRef \<Rightarrow> nat option" where
  "WayRef_tag_count r = map_option unat (read_u32_le (cr_data r) 12)"

definition WayRef_metadata :: "CompactWayRef \<Rightarrow> Metadata option option" where
  "WayRef_metadata r = read_meta (cr_data r) WAY_META_OFF (cr_strings r)"

definition WayRef_refs :: "CompactWayRef \<Rightarrow> CompactRefIter option" where
  "WayRef_refs r = do {
     n \<leftarrow> ref_count r;
     Some \<lparr>ri_data = cr_data r, ri_offset = WayRef_HEADER_LEN, ri_remaining = n\<rparr>
   }"

definition WayRef_tags :: "CompactWayRef \<Rightarrow> CompactTagIter option" where
  "WayRef_tags r = do {
     n \<leftarrow> ref_count r;
     m \<leftarrow> WayRef_tag_count r;
     Some \<lparr>ti_data = cr_data r, ti_offset = WayRef_HEADER_LEN + n * 8, ti_remaining = m, ti_strings = cr_strings r\<rparr>
   }"

definition RelationRef_id :: "CompactRelationRef \<Rightarrow> i64 option" where
  "RelationRef_id r = read_i64_le (cr_data r) 0"

definition member_count :: "CompactRelationRef \<Rightarrow> nat option" where
  "member_count r = map_option unat (read_u32_le (cr_data r) 8)"

definition RelationRef_tag_count :: "CompactRelationRef \<Rightarrow> nat option" where
  "RelationRef_tag_count r = map_option unat (read_u32_le (cr_data r) 12)"

definition RelationRef_metadata :: "CompactRelationRef \<Rightarrow> Metadata option option" where
  "RelationRef_metadata r = read_meta (cr_data r) RELATION_META_OFF (cr_strings r)"

definition RelationRef_members :: "CompactRelationRef \<Rightarrow> CompactMemberIter option" where
  "RelationRef_members r = do {
     n \<leftarrow> member_count r;
     Some \<lparr>mi_data = cr_data r, mi_offset = RelationRef_HEADER_LEN, mi_remaining = n, mi_strings = cr_strings r\<rparr>
   }"

definition RelationRef_tags :: "CompactRelationRef \<Rightarrow> CompactTagIter option" where
  "RelationRef_tags r = do {
     n \<leftarrow> member_count r;
     m \<leftarrow> RelationRef_tag_count r;
     Some \<lparr>ti_data = cr_data r, ti_offset = RelationRef_HEADER_LEN + n * MEMBER_SIZE, ti_remaining = m, ti_strings = cr_strings r\<rparr>
   }"

text \<open>Draining the iterators an accessor returns.\<close>

definition all_tags :: "CompactTagIter option \<Rightarrow> (bytes \<times> bytes) list option" where
  "all_tags src = do { it \<leftarrow> src; iter_collect CompactTagIter_next (ti_remaining it) it }"

definition all_refs :: "CompactRefIter option \<Rightarrow> i64 list option" where
  "all_refs src = do { it \<leftarrow> src; iter_collect CompactRefIter_next (ri_remaining it) it }"

definition all_members :: "CompactMemberIter option \<Rightarrow> (MemberType \<times> i64 \<times> bytes) list option" where
  "all_members src = do { it \<leftarrow> src; iter_collect CompactMemberIter_next (mi_remaining it) it }"

section \<open>Reading what was appended\<close>

text \<open>Positions are counted past the pieces in front of them.\<close>

lemma le_at_skip [wire_simps]: "length p \<le> i \<Longrightarrow> le_at n (p @ r) i = le_at n r (i - length p)"
  by (auto simp: le_at_def slice_append_right)

lemma le_at_here [wire_simps]: "length p = n \<Longrightarrow> le_at n (p @ r) 0 = Some p"
  by (simp add: le_at_def slice_def)

lemma le_at_Cons [wire_simps]: "0 < i \<Longrightarrow> le_at n (b # r) i = le_at n r (i - 1)"
  using le_at_skip [of "[b]" i n r] by simp

lemma byte_at_skip [wire_simps]: "length p \<le> i \<Longrightarrow> byte_at (p @ r) i = byte_at r (i - length p)"
  by (auto simp: byte_at_def nth_append)

lemma byte_at_here [wire_simps]: "byte_at (b # r) 0 = Some b"
  by (simp add: byte_at_def)

lemma read_here [wire_simps]:
  "read_i64_le (le_bytes 8 w @ r) 0 = Some w" "read_i32_le (le_bytes 4 v @ r) 0 = Some v" "read_u32_le (le_bytes 4 v @ r) 0 = Some v"
  by (simp_all add: read_i64_le_def read_i32_le_def read_u32_le_def le_at_here)

lemma read_skip [wire_simps]:
  "length p \<le> i \<Longrightarrow> read_i64_le (p @ r) i = read_i64_le r (i - length p)"
  "length p \<le> i \<Longrightarrow> read_i32_le (p @ r) i = read_i32_le r (i - length p)"
  "length p \<le> i \<Longrightarrow> read_u32_le (p @ r) i = read_u32_le r (i - length p)"
  by (simp_all add: read_i64_le_def read_i32_le_def read_u32_le_def le_at_skip)

lemma read_Cons [wire_simps]:
  "0 < i \<Longrightarrow> read_i64_le (b # r) i = read_i64_le r (i - 1)"
  "0 < i \<Longrightarrow> read_i32_le (b # r) i = read_i32_le r (i - 1)"
  "0 < i \<Longrightarrow> read_u32_le (b # r) i = read_u32_le r (i - 1)"
  by (simp_all add: read_i64_le_def read_i32_le_def read_u32_le_def le_at_Cons)

lemma unat_count: "n < 2 ^ 32 \<Longrightarrow> unat (of_nat n :: u32) = n"
  by (auto simp: unsigned_of_nat take_bit_eq_mod)

subsection \<open>Metadata\<close>

definition meta_bytes :: "ArenaMeta \<Rightarrow> bytes" where
  "meta_bytes m = arena_append_meta [] m"

lemma append_meta: "arena_append_meta a m = a @ meta_bytes m"
  by (simp add: meta_bytes_def arena_append_meta_def)

lemma length_meta [simp]: "length (meta_bytes m) = 29"
  by (simp add: meta_bytes_def arena_append_meta_def)

text \<open>What the metadata accessor answers for a record written with \<open>m\<close>.\<close>

definition meta_view :: "StringTable \<Rightarrow> ArenaMeta \<Rightarrow> Metadata option option" where
  "meta_view st m =
     (if am_flags m AND META_FLAG_PRESENT = 0 then Some None
      else map_option (\<lambda>u. Some \<lparr>md_version = am_version m, md_timestamp = am_timestamp m, md_changeset = am_changeset m,
             md_uid = am_uid m, md_user = u, md_visible = (am_flags m AND META_FLAG_HIDDEN = 0)\<rparr>)
           (if am_flags m AND META_FLAG_HAS_USER \<noteq> 0 then resolve st (am_user_id m) else Some []))"

lemma read_meta_skip: "length p \<le> i \<Longrightarrow> read_meta (p @ r) i st = read_meta r (i - length p) st"
  by (simp add: read_meta_def wire_simps Suc_diff_le cong: if_cong)

lemma read_meta_here: "read_meta (meta_bytes m @ r) 0 st = meta_view st m"
  by (cases "resolve st (am_user_id m)")
    (simp_all add: read_meta_def meta_view_def meta_bytes_def arena_append_meta_def wire_simps)

lemma version_at_skip: "version_at (p @ r) (length p) mo = version_at r 0 mo"
  by (simp add: version_at_def wire_simps cong: if_cong)

lemma version_at_meta: "length p = mo \<Longrightarrow> version_at (p @ meta_bytes m @ r) 0 mo = Some (version_claim m)"
  by (simp add: version_at_def version_claim_def meta_bytes_def arena_append_meta_def wire_simps)

subsection \<open>Iterators\<close>

text \<open>
  The contract of an exact-size iterator: \<open>at it xs\<close> says that \<open>it\<close> stands in front of the
  items \<open>xs\<close>. Draining it yields them all, without a panic.
\<close>

locale exact_iter =
  fixes nxt :: "'it \<Rightarrow> ('x, 'it) iter_step"
    and remaining :: "'it \<Rightarrow> nat"
    and stands :: "'it \<Rightarrow> 'x list \<Rightarrow> bool"
  assumes next_end: "stands it [] \<Longrightarrow> nxt it = Ended"
    and next_item: "stands it (x # xs) \<Longrightarrow> \<exists>it'. nxt it = Yielded x it' \<and> stands it' xs"
    and remaining_eq: "stands it xs \<Longrightarrow> remaining it = length xs"
begin

lemma collect_bound: "stands it xs \<Longrightarrow> length xs \<le> n \<Longrightarrow> iter_collect nxt n it = Some xs"
proof (induction xs arbitrary: it n)
  case Nil
  then show ?case by (cases n) (simp_all add: next_end)
next
  case (Cons x xs)
  obtain it' where "nxt it = Yielded x it'" "stands it' xs" using next_item Cons.prems(1) by blast
  moreover obtain m where "n = Suc m" using Cons.prems(2) by (cases n) auto
  ultimately show ?case using Cons by simp
qed

lemma collect_all: "stands it xs \<Longrightarrow> iter_collect nxt (remaining it) it = Some xs"
  using collect_bound remaining_eq by fastforce

end

definition tags_bytes :: "(u32 \<times> bytes) list \<Rightarrow> bytes" where
  "tags_bytes tags = concat (map (\<lambda>(k, v). le_bytes 4 k @ le_bytes 4 (of_nat (length v) :: u32) @ v) tags)"

definition tag_reads :: "StringTable \<Rightarrow> u32 \<times> bytes \<Rightarrow> bytes \<times> bytes \<Rightarrow> bool" where
  "tag_reads st t kv \<longleftrightarrow> resolve st (fst t) = Some (fst kv) \<and> snd t = snd kv \<and> utf8_valid (snd kv)"

definition tags_at :: "CompactTagIter \<Rightarrow> (bytes \<times> bytes) list \<Rightarrow> bool" where
  "tags_at it kvs \<longleftrightarrow> (\<exists>p tags r. ti_data it = p @ tags_bytes tags @ r \<and> ti_offset it = length p \<and>
     ti_remaining it = length tags \<and> (\<forall>t \<in> set tags. length (snd t) < 2 ^ 32) \<and> list_all2 (tag_reads (ti_strings it)) tags kvs)"

interpretation tag_iter: exact_iter CompactTagIter_next ti_remaining tags_at
proof (unfold_locales, goal_cases)
  case (1 it)
  then show ?case by (auto simp: tags_at_def CompactTagIter_next_def)
next
  case (2 it x xs)
  then obtain p t tags r where t: "ti_data it = p @ tags_bytes (t # tags) @ r" "ti_offset it = length p"
    "ti_remaining it = Suc (length tags)" "tag_reads (ti_strings it) t x" "list_all2 (tag_reads (ti_strings it)) tags xs"
    "length (snd t) < 2 ^ 32" "\<forall>t \<in> set tags. length (snd t) < 2 ^ 32"
    by (auto simp: tags_at_def list_all2_Cons2)
  obtain k v where kv: "t = (k, v)" by (cases t)
  then have x: "resolve (ti_strings it) k = Some (fst x)" "v = snd x" "utf8_valid v" "length v < 2 ^ 32"
    using t(4,6) by (auto simp: tag_reads_def)
  let ?it = "it\<lparr>ti_offset := ti_offset it + 8 + length v, ti_remaining := length tags\<rparr>"
  have "CompactTagIter_next it = Yielded x ?it"
    using t x by (simp add: CompactTagIter_next_def tags_bytes_def kv wire_simps unat_count yield_def)
  moreover have "tags_at ?it xs" unfolding tags_at_def
    by (intro exI [of _ "p @ le_bytes 4 k @ le_bytes 4 (of_nat (length v) :: u32) @ v"] exI [of _ tags] exI [of _ r])
      (use t in \<open>simp add: tags_bytes_def kv\<close>)
  ultimately show ?case by blast
next
  case (3 it xs)
  then show ?case by (auto simp: tags_at_def dest: list_all2_lengthD)
qed

definition refs_at :: "CompactRefIter \<Rightarrow> i64 list \<Rightarrow> bool" where
  "refs_at it refs \<longleftrightarrow> (\<exists>p r. ri_data it = p @ concat (map (le_bytes 8) refs) @ r \<and> ri_offset it = length p \<and> ri_remaining it = length refs)"

interpretation ref_iter: exact_iter CompactRefIter_next ri_remaining refs_at
proof (unfold_locales, goal_cases)
  case (1 it)
  then show ?case by (auto simp: refs_at_def CompactRefIter_next_def)
next
  case (2 it x xs)
  then obtain p r where t: "ri_data it = p @ le_bytes 8 x @ concat (map (le_bytes 8) xs) @ r" "ri_offset it = length p"
    "ri_remaining it = Suc (length xs)" by (auto simp: refs_at_def)
  let ?it = "it\<lparr>ri_offset := ri_offset it + 8, ri_remaining := length xs\<rparr>"
  have "CompactRefIter_next it = Yielded x ?it"
    using t by (simp add: CompactRefIter_next_def wire_simps yield_def)
  moreover have "refs_at ?it xs" unfolding refs_at_def
    by (intro exI [of _ "p @ le_bytes 8 x"] exI [of _ r]) (use t in simp)
  ultimately show ?case by blast
next
  case (3 it xs)
  then show ?case by (auto simp: refs_at_def)
qed

definition member_reads :: "StringTable \<Rightarrow> i64 \<times> u8 \<times> u32 \<Rightarrow> MemberType \<times> i64 \<times> bytes \<Rightarrow> bool" where
  "member_reads st m v = (case (m, v) of ((ref_id, type_byte, role_id), (t, ref_id', role)) \<Rightarrow>
     ref_id' = ref_id \<and> byte_to_member_type type_byte = Some t \<and> resolve st role_id = Some role)"

definition members_at :: "CompactMemberIter \<Rightarrow> (MemberType \<times> i64 \<times> bytes) list \<Rightarrow> bool" where
  "members_at it ms \<longleftrightarrow> (\<exists>p mbs r. mi_data it = p @ concat (map member_bytes mbs) @ r \<and> mi_offset it = length p \<and>
     mi_remaining it = length mbs \<and> list_all2 (member_reads (mi_strings it)) mbs ms)"

lemma length_member_bytes [simp]: "length (member_bytes m) = 13"
  by (simp add: member_bytes_def split: prod.splits)

interpretation member_iter: exact_iter CompactMemberIter_next mi_remaining members_at
proof (unfold_locales, goal_cases)
  case (1 it)
  then show ?case by (auto simp: members_at_def CompactMemberIter_next_def)
next
  case (2 it x xs)
  then obtain p m mbs r where t: "mi_data it = p @ member_bytes m @ concat (map member_bytes mbs) @ r" "mi_offset it = length p"
    "mi_remaining it = Suc (length mbs)" "member_reads (mi_strings it) m x" "list_all2 (member_reads (mi_strings it)) mbs xs"
    by (auto simp: members_at_def list_all2_Cons2)
  obtain a b c where m: "m = (a, b, c)" by (cases m)
  obtain mt rl where x: "x = (mt, a, rl)" "byte_to_member_type b = Some mt" "resolve (mi_strings it) c = Some rl"
    using t(4) by (cases x) (auto simp: member_reads_def m)
  let ?it = "it\<lparr>mi_offset := mi_offset it + 13, mi_remaining := length mbs\<rparr>"
  have "CompactMemberIter_next it = Yielded x ?it"
    using t x by (simp add: CompactMemberIter_next_def wire_simps yield_def m member_bytes_def)
  moreover have "members_at ?it xs" unfolding members_at_def
    by (intro exI [of _ "p @ member_bytes m"] exI [of _ mbs] exI [of _ r]) (use t in simp)
  ultimately show ?case by blast
next
  case (3 it xs)
  then show ?case by (auto simp: members_at_def dest: list_all2_lengthD)
qed

subsection \<open>Records\<close>

text \<open>What an accessor tells of a record, all of its fields read and its iterators drained.\<close>

datatype Content =
    NodeContent i32 i32 "(bytes \<times> bytes) list" "Metadata option"
  | WayContent "i64 list" "(bytes \<times> bytes) list" "Metadata option"
  | RelationContent "(MemberType \<times> i64 \<times> bytes) list" "(bytes \<times> bytes) list" "Metadata option"

definition read_element :: "ElementKind \<Rightarrow> CompactRef \<Rightarrow> (i64 \<times> Content) option" where
  "read_element k r =
     (case k of
        Node \<Rightarrow> do {
          i \<leftarrow> NodeRef_id r; lat \<leftarrow> decimicro_lat r; lon \<leftarrow> decimicro_lon r;
          tags \<leftarrow> all_tags (NodeRef_tags r); md \<leftarrow> NodeRef_metadata r;
          Some (i, NodeContent lat lon tags md)
        }
      | Way \<Rightarrow> do {
          i \<leftarrow> WayRef_id r; refs \<leftarrow> all_refs (WayRef_refs r);
          tags \<leftarrow> all_tags (WayRef_tags r); md \<leftarrow> WayRef_metadata r;
          Some (i, WayContent refs tags md)
        }
      | Relation \<Rightarrow> do {
          i \<leftarrow> RelationRef_id r; members \<leftarrow> all_members (RelationRef_members r);
          tags \<leftarrow> all_tags (RelationRef_tags r); md \<leftarrow> RelationRef_metadata r;
          Some (i, RelationContent members tags md)
        })"

lemma count_u32_Inr: "count_u32 n w k i = Inr c \<longleftrightarrow> n < 2 ^ 32 \<and> c = of_nat n"
proof -
  have "int n < 2 ^ 32 \<longleftrightarrow> n < 2 ^ 32" by simp
  then show ?thesis by (auto simp: count_u32_def u32_try_from_def)
qed

lemma append_tags_prefix: "\<exists>x. snd (append_tags a tags k i) = a @ x"
proof (induction a tags k i rule: append_tags.induct)
  case (2 a key val tags k i)
  then show ?case by (cases "count_u32 (length val) ''tag value bytes'' k i") (fastforce simp: Let_def)+
qed simp

lemma append_tags_Inr:
  "append_tags a tags k i = (Inr u, a') \<Longrightarrow> a' = a @ tags_bytes tags \<and> (\<forall>t \<in> set tags. length (snd t) < 2 ^ 32)"
proof (induction a tags k i rule: append_tags.induct)
  case (2 a key val tags k i)
  show ?case
  proof (cases "count_u32 (length val) ''tag value bytes'' k i")
    case (Inr n)
    then have "length val < 2 ^ 32" "n = of_nat (length val)" by (simp_all add: count_u32_Inr)
    with 2 Inr show ?thesis by (simp add: Let_def tags_bytes_def)
  qed (use 2 in \<open>simp add: Let_def\<close>)
qed (simp add: tags_bytes_def)

definition node_bytes :: "i64 \<Rightarrow> i32 \<Rightarrow> i32 \<Rightarrow> (u32 \<times> bytes) list \<Rightarrow> ArenaMeta \<Rightarrow> bytes" where
  "node_bytes i lat lon tags m = le_bytes 8 i @ le_bytes 4 lat @ le_bytes 4 lon @ le_bytes 4 (of_nat (length tags) :: u32)
     @ meta_bytes m @ tags_bytes tags"

definition way_bytes :: "i64 \<Rightarrow> i64 list \<Rightarrow> (u32 \<times> bytes) list \<Rightarrow> ArenaMeta \<Rightarrow> bytes" where
  "way_bytes i refs tags m = le_bytes 8 i @ le_bytes 4 (of_nat (length refs) :: u32) @ le_bytes 4 (of_nat (length tags) :: u32)
     @ meta_bytes m @ concat (map (le_bytes 8) refs) @ tags_bytes tags"

definition relation_bytes :: "i64 \<Rightarrow> (i64 \<times> u8 \<times> u32) list \<Rightarrow> (u32 \<times> bytes) list \<Rightarrow> ArenaMeta \<Rightarrow> bytes" where
  "relation_bytes i members tags m = le_bytes 8 i @ le_bytes 4 (of_nat (length members) :: u32)
     @ le_bytes 4 (of_nat (length tags) :: u32) @ meta_bytes m @ concat (map member_bytes members) @ tags_bytes tags"

text \<open>An append either refuses or writes exactly the record; in both cases it only appends.\<close>

lemma append_node_Inr:
  "arena_append_node a i lat lon tags m = (Inr off, a') \<Longrightarrow>
    off = length a \<and> a' = a @ node_bytes i lat lon tags m \<and> length tags < 2 ^ 32 \<and> (\<forall>t \<in> set tags. length (snd t) < 2 ^ 32)"
  by (auto simp: arena_append_node_def Let_def append_meta node_bytes_def count_u32_Inr dest!: append_tags_Inr
      split: sum.splits prod.splits)

lemma append_way_Inr:
  "arena_append_way a i refs tags m = (Inr off, a') \<Longrightarrow>
    off = length a \<and> a' = a @ way_bytes i refs tags m \<and> length refs < 2 ^ 32 \<and> length tags < 2 ^ 32 \<and>
    (\<forall>t \<in> set tags. length (snd t) < 2 ^ 32)"
  by (auto simp: arena_append_way_def Let_def append_meta way_bytes_def count_u32_Inr dest!: append_tags_Inr
      split: sum.splits prod.splits)

lemma append_relation_Inr:
  "arena_append_relation a i members tags m = (Inr off, a') \<Longrightarrow>
    off = length a \<and> a' = a @ relation_bytes i members tags m \<and> length members < 2 ^ 32 \<and> length tags < 2 ^ 32 \<and>
    (\<forall>t \<in> set tags. length (snd t) < 2 ^ 32)"
  by (auto simp: arena_append_relation_def Let_def append_meta relation_bytes_def count_u32_Inr dest!: append_tags_Inr
      split: sum.splits prod.splits)

lemma finish_prefix: "\<exists>x. snd (case append_tags (a @ y) tags k i of (Inl e, a) \<Rightarrow> (Inl e, a) | (Inr _, a) \<Rightarrow> (Inr n, a)) = a @ x"
  using append_tags_prefix [of "a @ y" tags k i] by (auto split: prod.splits sum.splits)

lemma append_prefix:
  "\<exists>x. snd (arena_append_node a i lat lon tags m) = a @ x"
  "\<exists>x. snd (arena_append_way a i refs tags m) = a @ x"
  "\<exists>x. snd (arena_append_relation a i members tags m) = a @ x"
  unfolding arena_append_node_def arena_append_way_def arena_append_relation_def Let_def append_meta append_assoc
  by (auto simp del: append_assoc split: sum.splits intro: finish_prefix [unfolded append_assoc])

lemma read_node:
  assumes "length tags < 2 ^ 32" "list_all2 (tag_reads st) tags kvs" "meta_view st m = Some md" "\<forall>t \<in> set tags. length (snd t) < 2 ^ 32"
  shows "read_element Node \<lparr>cr_data = node_bytes i lat lon tags m @ rest, cr_strings = st\<rparr> = Some (i, NodeContent lat lon kvs md)"
proof -
  let ?r = "\<lparr>cr_data = node_bytes i lat lon tags m @ rest, cr_strings = st\<rparr>"
  have f: "NodeRef_id ?r = Some i" "decimicro_lat ?r = Some lat" "decimicro_lon ?r = Some lon"
    "NodeRef_tag_count ?r = Some (length tags)" "NodeRef_metadata ?r = Some md"
    using assms by (simp_all add: NodeRef_id_def decimicro_lat_def decimicro_lon_def NodeRef_tag_count_def NodeRef_metadata_def
        node_bytes_def wire_simps unat_count read_meta_skip read_meta_here)
  let ?it = "\<lparr>ti_data = cr_data ?r, ti_offset = NodeRef_HEADER_LEN, ti_remaining = length tags, ti_strings = st\<rparr>"
  have "tags_at ?it kvs" unfolding tags_at_def
    by (rule exI [of _ "le_bytes 8 i @ le_bytes 4 lat @ le_bytes 4 lon @ le_bytes 4 (of_nat (length tags) :: u32) @ meta_bytes m"])
      (use assms(2,4) in \<open>auto simp: node_bytes_def wire_simps\<close>)
  from tag_iter.collect_all [OF this] have "all_tags (NodeRef_tags ?r) = Some kvs"
    by (simp add: all_tags_def NodeRef_tags_def f)
  with f show ?thesis by (simp add: read_element_def)
qed

lemma read_way:
  assumes "length refs < 2 ^ 32" "length tags < 2 ^ 32" "list_all2 (tag_reads st) tags kvs" "meta_view st m = Some md"
    "\<forall>t \<in> set tags. length (snd t) < 2 ^ 32"
  shows "read_element Way \<lparr>cr_data = way_bytes i refs tags m @ rest, cr_strings = st\<rparr> = Some (i, WayContent refs kvs md)"
proof -
  let ?r = "\<lparr>cr_data = way_bytes i refs tags m @ rest, cr_strings = st\<rparr>"
  let ?h = "le_bytes 8 i @ le_bytes 4 (of_nat (length refs) :: u32) @ le_bytes 4 (of_nat (length tags) :: u32) @ meta_bytes m"
  have f: "WayRef_id ?r = Some i" "ref_count ?r = Some (length refs)"
    "WayRef_tag_count ?r = Some (length tags)" "WayRef_metadata ?r = Some md"
    using assms by (simp_all add: WayRef_id_def ref_count_def WayRef_tag_count_def WayRef_metadata_def
        way_bytes_def wire_simps unat_count read_meta_skip read_meta_here)
  let ?ir = "\<lparr>ri_data = cr_data ?r, ri_offset = WayRef_HEADER_LEN, ri_remaining = length refs\<rparr>"
  have "refs_at ?ir refs" unfolding refs_at_def
    by (rule exI [of _ ?h]) (auto simp: way_bytes_def wire_simps)
  from ref_iter.collect_all [OF this] have refs: "all_refs (WayRef_refs ?r) = Some refs"
    by (simp add: all_refs_def WayRef_refs_def f)
  let ?it = "\<lparr>ti_data = cr_data ?r, ti_offset = WayRef_HEADER_LEN + length refs * 8, ti_remaining = length tags, ti_strings = st\<rparr>"
  have "tags_at ?it kvs" unfolding tags_at_def
    by (rule exI [of _ "?h @ concat (map (le_bytes 8) refs)"])
      (use assms(3,5) in \<open>auto simp: way_bytes_def wire_simps length_concat o_def sum_list_triv\<close>)
  from tag_iter.collect_all [OF this] have "all_tags (WayRef_tags ?r) = Some kvs"
    by (simp add: all_tags_def WayRef_tags_def f)
  with f refs show ?thesis by (simp add: read_element_def)
qed

lemma read_relation:
  assumes "length members < 2 ^ 32" "length tags < 2 ^ 32" "list_all2 (member_reads st) members ms"
    "list_all2 (tag_reads st) tags kvs" "meta_view st m = Some md" "\<forall>t \<in> set tags. length (snd t) < 2 ^ 32"
  shows "read_element Relation \<lparr>cr_data = relation_bytes i members tags m @ rest, cr_strings = st\<rparr> =
    Some (i, RelationContent ms kvs md)"
proof -
  let ?r = "\<lparr>cr_data = relation_bytes i members tags m @ rest, cr_strings = st\<rparr>"
  let ?h = "le_bytes 8 i @ le_bytes 4 (of_nat (length members) :: u32) @ le_bytes 4 (of_nat (length tags) :: u32) @ meta_bytes m"
  have f: "RelationRef_id ?r = Some i" "member_count ?r = Some (length members)"
    "RelationRef_tag_count ?r = Some (length tags)" "RelationRef_metadata ?r = Some md"
    using assms by (simp_all add: RelationRef_id_def member_count_def RelationRef_tag_count_def RelationRef_metadata_def
        relation_bytes_def wire_simps unat_count read_meta_skip read_meta_here)
  let ?im = "\<lparr>mi_data = cr_data ?r, mi_offset = RelationRef_HEADER_LEN, mi_remaining = length members, mi_strings = st\<rparr>"
  have "members_at ?im ms" unfolding members_at_def
    by (rule exI [of _ ?h]) (use assms(3) in \<open>auto simp: relation_bytes_def wire_simps\<close>)
  from member_iter.collect_all [OF this] have mem: "all_members (RelationRef_members ?r) = Some ms"
    by (simp add: all_members_def RelationRef_members_def f)
  let ?it = "\<lparr>ti_data = cr_data ?r, ti_offset = RelationRef_HEADER_LEN + length members * MEMBER_SIZE,
    ti_remaining = length tags, ti_strings = st\<rparr>"
  have "tags_at ?it kvs" unfolding tags_at_def
    by (rule exI [of _ "?h @ concat (map member_bytes members)"])
      (use assms(4,6) in \<open>auto simp: relation_bytes_def wire_simps length_concat o_def sum_list_triv\<close>)
  from tag_iter.collect_all [OF this] have "all_tags (RelationRef_tags ?r) = Some kvs"
    by (simp add: all_tags_def RelationRef_tags_def f)
  with f mem show ?thesis by (simp add: read_element_def)
qed

lemma record_version:
  "version_at (node_bytes i lat lon tags m @ r) 0 NODE_META_OFF = Some (version_claim m)"
  "version_at (way_bytes i refs tags m @ r) 0 WAY_META_OFF = Some (version_claim m)"
  "version_at (relation_bytes i members tags m @ r) 0 RELATION_META_OFF = Some (version_claim m)"
proof -
  have len: "length (le_bytes 8 i @ le_bytes 4 lat @ le_bytes 4 lon @ le_bytes 4 (n :: u32)) = NODE_META_OFF"
    "length (le_bytes 8 i @ le_bytes 4 (n :: u32) @ le_bytes 4 (n' :: u32)) = WAY_META_OFF"
    "length (le_bytes 8 i @ le_bytes 4 (n :: u32) @ le_bytes 4 (n' :: u32)) = RELATION_META_OFF" for n n'
    by (simp_all add: wire_simps)
  show "version_at (node_bytes i lat lon tags m @ r) 0 NODE_META_OFF = Some (version_claim m)"
    using version_at_meta [OF len(1)] by (simp add: node_bytes_def)
  show "version_at (way_bytes i refs tags m @ r) 0 WAY_META_OFF = Some (version_claim m)"
    using version_at_meta [OF len(2)] by (simp add: way_bytes_def)
  show "version_at (relation_bytes i members tags m @ r) 0 RELATION_META_OFF = Some (version_claim m)"
    using version_at_meta [OF len(3)] by (simp add: relation_bytes_def)
qed

text \<open>The views keep their value when more strings are interned.\<close>

definition pool_extends :: "StringTable \<Rightarrow> StringTable \<Rightarrow> bool" where
  "pool_extends st st' \<longleftrightarrow> (\<forall>i x. resolve st i = Some x \<longrightarrow> resolve st' i = Some x)"

lemma pool_extends_refl [simp]: "pool_extends st st"
  by (simp add: pool_extends_def)

lemma pool_extends_trans: "pool_extends a b \<Longrightarrow> pool_extends b c \<Longrightarrow> pool_extends a c"
  by (auto simp: pool_extends_def)

lemma views_extend:
  assumes "pool_extends st st'"
  shows "list_all2 (tag_reads st) tags kvs \<Longrightarrow> list_all2 (tag_reads st') tags kvs"
    "list_all2 (member_reads st) members ms \<Longrightarrow> list_all2 (member_reads st') members ms"
    "meta_view st m = Some md \<Longrightarrow> meta_view st' m = Some md"
proof -
  show "list_all2 (tag_reads st) tags kvs \<Longrightarrow> list_all2 (tag_reads st') tags kvs"
    by (erule list_all2_mono) (use assms in \<open>auto simp: tag_reads_def pool_extends_def\<close>)
  show "list_all2 (member_reads st) members ms \<Longrightarrow> list_all2 (member_reads st') members ms"
    by (erule list_all2_mono) (use assms in \<open>auto simp: member_reads_def pool_extends_def split: prod.splits\<close>)
  show "meta_view st m = Some md \<Longrightarrow> meta_view st' m = Some md"
    using assms by (auto simp: meta_view_def pool_extends_def split: if_splits)
qed

end
