(* ===== verification/Sorted_Diff.thy ===== *)
theory Sorted_Diff
  imports Tally Osc_Arena
begin

text \<open>
  The change file in ID order that apply-changes holds for its run,
  \<open>src/src/osc/sorted.rs\<close> (\<open>KindTable\<close>, \<open>SortedDiff\<close>, the forward cursor \<open>Seek\<close>), and the
  per-element overlap check of \<open>src/src/commands/apply_changes/classify.rs\<close>. Shown: the
  built tables are sorted and hold exactly the overlay's entries, the blob range test never
  misses a touched element, the upsert range is exact, and the forward cursors find in a
  block exactly the elements the diff touches, or the block's walk refuses it. The
  records behind the offsets are those of \<open>Osc_Arena\<close>.
\<close>

section \<open>Definitions\<close>

record KindTable =
  kt_arena :: bytes
  kt_ids :: "i64 list"
  kt_offsets :: "nat list"
  kt_deleted :: "i64 list"

text \<open>The hash map and set of the overlay are given as lists of their entries, in any order.\<close>

definition KindTable_build :: "bytes \<Rightarrow> (i64 \<times> nat) list \<Rightarrow> i64 list \<Rightarrow> KindTable" where
  "KindTable_build arena index del =
     (let prs = sort_key (\<lambda>p. osm_id_key (fst p)) index
      in \<lparr>kt_arena = arena, kt_ids = map fst prs, kt_offsets = map snd prs, kt_deleted = sort_key osm_id_key del\<rparr>)"

definition hit_range :: "i64 list \<Rightarrow> OsmIdKey \<Rightarrow> OsmIdKey \<Rightarrow> bool" where
  "hit_range is first last_key =
     (let pos = partition_point (\<lambda>i. osm_id_key i < first) is in
      pos < length is \<and> osm_id_key (is ! pos) \<le> last_key)"

definition KindTable_any_in :: "KindTable \<Rightarrow> OsmIdKey \<Rightarrow> OsmIdKey \<Rightarrow> bool" where
  "KindTable_any_in t first last_key \<longleftrightarrow>
     hit_range (kt_ids t) first last_key \<or> hit_range (kt_deleted t) first last_key"

record SortedDiff =
  sd_nodes :: KindTable
  sd_ways :: KindTable
  sd_relations :: KindTable
  sd_strings :: StringTable

definition diff_kind :: "SortedDiff \<Rightarrow> ElementKind \<Rightarrow> KindTable" where
  "diff_kind d k = (case k of Node \<Rightarrow> sd_nodes d | Way \<Rightarrow> sd_ways d | Relation \<Rightarrow> sd_relations d)"

definition upserts :: "SortedDiff \<Rightarrow> ElementKind \<Rightarrow> i64 list" where
  "upserts d k = kt_ids (diff_kind d k)"

definition deleted :: "SortedDiff \<Rightarrow> ElementKind \<Rightarrow> i64 list" where
  "deleted d k = kt_deleted (diff_kind d k)"

text \<open>The record of upsert number \<open>n\<close>; \<open>None\<close> is an index out of range.\<close>

definition KindTable_record :: "KindTable \<Rightarrow> nat \<Rightarrow> bytes option" where
  "KindTable_record t n =
     (if n < length (kt_offsets t) \<and> kt_offsets t ! n \<le> length (kt_arena t) then Some (drop (kt_offsets t ! n) (kt_arena t)) else None)"

definition SortedDiff_node :: "SortedDiff \<Rightarrow> nat \<Rightarrow> CompactNodeRef option" where
  "SortedDiff_node d n = do { data \<leftarrow> KindTable_record (sd_nodes d) n; Some \<lparr>cr_data = data, cr_strings = sd_strings d\<rparr> }"

definition SortedDiff_way :: "SortedDiff \<Rightarrow> nat \<Rightarrow> CompactWayRef option" where
  "SortedDiff_way d n = do { data \<leftarrow> KindTable_record (sd_ways d) n; Some \<lparr>cr_data = data, cr_strings = sd_strings d\<rparr> }"

definition SortedDiff_relation :: "SortedDiff \<Rightarrow> nat \<Rightarrow> CompactRelationRef option" where
  "SortedDiff_relation d n = do { data \<leftarrow> KindTable_record (sd_relations d) n; Some \<lparr>cr_data = data, cr_strings = sd_strings d\<rparr> }"

definition range_overlaps :: "SortedDiff \<Rightarrow> ElementKind \<Rightarrow> i64 \<Rightarrow> i64 \<Rightarrow> bool" where
  "range_overlaps d k lo hi =
     KindTable_any_in (diff_kind d k) (blob_osm_first_key lo hi) (blob_osm_last_key lo hi)"

definition upsert_range :: "SortedDiff \<Rightarrow> ElementKind \<Rightarrow> i64 \<Rightarrow> OsmIdKey \<Rightarrow> nat \<times> nat" where
  "upsert_range d k first last_key =
     (let is = upserts d k;
          start = partition_point (\<lambda>i. osm_id_key i < osm_id_key first) is
      in (start, partition_point (\<lambda>i. osm_id_key i \<le> last_key) (drop start is) + start))"

datatype Seek = Seek "nat option"

function seek_advance :: "i64 list \<Rightarrow> i64 \<Rightarrow> nat \<Rightarrow> nat" where
  "seek_advance is i pos =
     (if pos < length is \<and> osm_id_cmp (is ! pos) i = Less then seek_advance is i (Suc pos) else pos)"
  by pat_completeness auto
termination
  by (relation "measure (\<lambda>(is, i, pos). length is - pos)") auto

declare seek_advance.simps [simp del]

fun Seek_find :: "Seek \<Rightarrow> i64 list \<Rightarrow> i64 \<Rightarrow> Seek \<times> nat option" where
  "Seek_find (Seek s) is i =
     (let pos = (case s of Some p \<Rightarrow> p | None \<Rightarrow> partition_point (\<lambda>x. osm_id_cmp x i = Less) is);
          pos = seek_advance is i pos
      in (Seek (Some pos), if pos < length is \<and> is ! pos = i then Some pos else None))"

datatype DiffHit = Untouched | Deleted | Upserted nat

record KindSeeks =
  ks_upserts :: "Seek list"
  ks_deleted :: "Seek list"

definition KindSeeks_default :: KindSeeks where
  "KindSeeks_default = \<lparr>ks_upserts = replicate 3 (Seek None), ks_deleted = replicate 3 (Seek None)\<rparr>"

definition KindSeeks_find :: "KindSeeks \<Rightarrow> SortedDiff \<Rightarrow> ElementKind \<Rightarrow> i64 \<Rightarrow> KindSeeks \<times> DiffHit" where
  "KindSeeks_find c d kd i =
     (let k = unat (ordinal kd);
          (sk, found) = Seek_find (ks_deleted c ! k) (deleted d kd) i;
          c = c\<lparr>ks_deleted := (ks_deleted c)[k := sk]\<rparr>
      in if found \<noteq> None then (c, Deleted)
         else let (sk, found) = Seek_find (ks_upserts c ! k) (upserts d kd) i;
                  c = c\<lparr>ks_upserts := (ks_upserts c)[k := sk]\<rparr>
              in case found of Some n \<Rightarrow> (c, Upserted n) | None \<Rightarrow> (c, Untouched))"

definition blob_walk :: "BlobIndex option \<Rightarrow> ClaimWalk" where
  "blob_walk claim = ClaimWalk_new claim
     (Required ''apply-changes: refusing to write an unsorted PBF under a Sort.Type_then_ID header'')"

text \<open>The block is given as the kinds and IDs of its elements, in iteration order.\<close>

fun overlaps_loop ::
    "SortedDiff \<Rightarrow> KindSeeks \<Rightarrow> ClaimWalk \<Rightarrow> (ElementKind \<times> i64) list \<Rightarrow> tally_error + bool \<times> ClaimWalk" where
  "overlaps_loop d c w [] = Inr (False, w)"
| "overlaps_loop d c w ((kd, i) # es) =
     (case ClaimWalk_observe w i of
        Inl e \<Rightarrow> Inl e
      | Inr w \<Rightarrow>
          let (c, hit) = KindSeeks_find c d kd i in
          if hit \<noteq> Untouched then Inr (True, w) else overlaps_loop d c w es)"

definition block_overlaps_diff ::
    "(ElementKind \<times> i64) list \<Rightarrow> SortedDiff \<Rightarrow> ClaimWalk \<Rightarrow> tally_error + bool \<times> ClaimWalk" where
  "block_overlaps_diff block d w = overlaps_loop d KindSeeks_default w block"

section \<open>Tables\<close>

definition ids_sorted :: "i64 list \<Rightarrow> bool" where
  "ids_sorted is \<longleftrightarrow> sorted_wrt (<) (map osm_id_key is)"

definition table_wf :: "KindTable \<Rightarrow> bool" where
  "table_wf t \<longleftrightarrow> ids_sorted (kt_ids t) \<and> ids_sorted (kt_deleted t) \<and> length (kt_offsets t) = length (kt_ids t) \<and>
     set (kt_ids t) \<inter> set (kt_deleted t) = {}"

definition diff_wf :: "SortedDiff \<Rightarrow> bool" where
  "diff_wf d \<longleftrightarrow> (\<forall>k. table_wf (diff_kind d k))"

lemma ids_sorted_sort: "distinct is \<Longrightarrow> ids_sorted (sort_key osm_id_key is)"
  by (simp add: ids_sorted_def osm.strict_sorted_distinct)

lemma ids_sortedD: "ids_sorted is \<Longrightarrow> sorted (map osm_id_key is)"
  by (simp add: ids_sorted_def osm.strict_sorted_distinct)

lemma build_wf:
  assumes "distinct (map fst index)" "distinct del" "fst ` set index \<inter> set del = {}"
  shows "table_wf (KindTable_build arena index del)"
    "set (zip (kt_ids (KindTable_build arena index del)) (kt_offsets (KindTable_build arena index del))) = set index"
    "set (kt_deleted (KindTable_build arena index del)) = set del"
proof -
  let ?p = "sort_key (\<lambda>p. osm_id_key (fst p)) index"
  have "distinct (map fst ?p)"
    using assms(1) by (simp add: distinct_map)
  moreover have "sorted (map osm_id_key (map fst ?p))" by (simp add: o_def)
  ultimately have "ids_sorted (map fst ?p)" unfolding ids_sorted_def osm.strict_sorted_distinct by blast
  then show "table_wf (KindTable_build arena index del)"
    using assms(2,3) ids_sorted_sort [of del] by (simp add: table_wf_def KindTable_build_def Let_def)
  show "set (zip (kt_ids (KindTable_build arena index del)) (kt_offsets (KindTable_build arena index del))) = set index"
    by (simp add: KindTable_build_def Let_def zip_map_fst_snd)
  show "set (kt_deleted (KindTable_build arena index del)) = set del" by (simp add: KindTable_build_def Let_def)
qed

lemma hit_range_iff:
  assumes "ids_sorted is"
  shows "hit_range is a b \<longleftrightarrow> (\<exists>i \<in> set is. a \<le> osm_id_key i \<and> osm_id_key i \<le> b)"
proof -
  note so = ids_sortedD [OF assms]
  note pp = partition_point_spec [OF partitioned_key [OF so, of a]]
  let ?n = "partition_point (\<lambda>i. osm_id_key i < a) is"
  have "?n < length is \<and> osm_id_key (is ! ?n) \<le> b" if "j < length is" "a \<le> osm_id_key (is ! j)" "osm_id_key (is ! j) \<le> b" for j
  proof -
    have "?n \<le> j" using pp(2) [of j] that(2) by (auto simp: not_less [symmetric])
    then show ?thesis using sorted_nth_mono [OF so, of ?n j] that by auto
  qed
  moreover have "a \<le> osm_id_key (is ! ?n)" if "?n < length is" using pp(3) [of ?n] that by (simp add: not_less)
  ultimately show ?thesis by (auto simp: hit_range_def Let_def in_set_conv_nth intro: bexI [OF _ nth_mem])
qed

definition touched :: "SortedDiff \<Rightarrow> ElementKind \<Rightarrow> i64 set" where
  "touched d k = set (upserts d k) \<union> set (deleted d k)"

lemma range_overlaps_iff:
  assumes "diff_wf d"
  shows "range_overlaps d k lo hi \<longleftrightarrow>
    (\<exists>i \<in> touched d k. blob_osm_first_key lo hi \<le> osm_id_key i \<and> osm_id_key i \<le> blob_osm_last_key lo hi)"
proof -
  have "ids_sorted (kt_ids (diff_kind d k))" "ids_sorted (kt_deleted (diff_kind d k))"
    using assms by (auto simp: diff_wf_def table_wf_def)
  then show ?thesis
    by (auto simp: range_overlaps_def KindTable_any_in_def hit_range_iff touched_def upserts_def deleted_def)
qed

section \<open>Forward cursors\<close>

text \<open>
  The contract of a cursor that is asked for keys in non-decreasing order: \<open>ready s xs k\<close>
  says the cursor may be asked for any key from \<open>k\<close> on. It answers membership with a
  position and stays ready for what follows.
\<close>

locale forward_cursor =
  fixes key :: "'i \<Rightarrow> 'k::linorder"
    and wf :: "'i list \<Rightarrow> bool"
    and ready :: "'s \<Rightarrow> 'i list \<Rightarrow> 'k \<Rightarrow> bool"
    and find :: "'s \<Rightarrow> 'i list \<Rightarrow> 'i \<Rightarrow> 's \<times> nat option"
  assumes find_Some: "wf xs \<Longrightarrow> ready s xs (key i) \<Longrightarrow> snd (find s xs i) = Some n \<Longrightarrow> n < length xs \<and> xs ! n = i"
    and find_None: "wf xs \<Longrightarrow> ready s xs (key i) \<Longrightarrow> snd (find s xs i) = None \<Longrightarrow> i \<notin> set xs"
    and find_ready: "wf xs \<Longrightarrow> ready s xs (key i) \<Longrightarrow> key i \<le> k \<Longrightarrow> ready (fst (find s xs i)) xs k"
    and ready_mono: "wf xs \<Longrightarrow> ready s xs k \<Longrightarrow> k \<le> k' \<Longrightarrow> ready s xs k'"
begin

lemma find_member: "wf xs \<Longrightarrow> ready s xs (key i) \<Longrightarrow> snd (find s xs i) = None \<longleftrightarrow> i \<notin> set xs"
  using find_Some find_None by (metis not_Some_eq nth_mem)

end

definition seek_ready :: "Seek \<Rightarrow> i64 list \<Rightarrow> OsmIdKey \<Rightarrow> bool" where
  "seek_ready s is k = (case s of Seek None \<Rightarrow> True
     | Seek (Some p) \<Rightarrow> p \<le> length is \<and> (\<forall>j < p. osm_id_key (is ! j) < k))"

lemma osm_id_cmp_Less: "osm_id_cmp a b = Less \<longleftrightarrow> osm_id_key a < osm_id_key b"
  by (simp add: osm_id_cmp_def cmp_def)

lemma seek_advance_spec:
  assumes "p \<le> length is" "\<forall>j < p. osm_id_key (is ! j) < osm_id_key i"
  shows "let q = seek_advance is i p in q \<le> length is \<and> (\<forall>j < q. osm_id_key (is ! j) < osm_id_key i) \<and>
    (q < length is \<longrightarrow> osm_id_key i \<le> osm_id_key (is ! q))"
  using assms
proof (induction "is" i p rule: seek_advance.induct)
  case (1 "is" i p)
  show ?case
  proof (cases "p < length is \<and> osm_id_cmp (is ! p) i = Less")
    case True
    then have "seek_advance is i p = seek_advance is i (Suc p)" by (simp add: seek_advance.simps [of "is" i p])
    with 1 True show ?thesis by (auto simp: osm_id_cmp_Less less_Suc_eq)
  next
    case False
    then have "seek_advance is i p = p" by (subst seek_advance.simps) auto
    with False "1.prems" show ?thesis by (auto simp: osm_id_cmp_Less not_less Let_def)
  qed
qed

lemma seek_find_spec:
  assumes "ids_sorted is" "seek_ready s is (osm_id_key i)"
  obtains q where "fst (Seek_find s is i) = Seek (Some q)" "q \<le> length is" "\<forall>j < q. osm_id_key (is ! j) < osm_id_key i"
    "q < length is \<longrightarrow> osm_id_key i \<le> osm_id_key (is ! q)"
    "snd (Seek_find s is i) = (if q < length is \<and> is ! q = i then Some q else None)"
proof -
  obtain so where s: "s = Seek so" by (cases s)
  define p where "p = (case so of Some p \<Rightarrow> p | None \<Rightarrow> partition_point (\<lambda>x. osm_id_key x < osm_id_key i) is)"
  have "p \<le> length is \<and> (\<forall>j < p. osm_id_key (is ! j) < osm_id_key i)"
    using assms(2) partition_point_spec [OF partitioned_key [OF ids_sortedD [OF assms(1)], of "osm_id_key i"]]
    by (auto simp: p_def s seek_ready_def split: option.splits)
  then have "let q = seek_advance is i p in q \<le> length is \<and> (\<forall>j < q. osm_id_key (is ! j) < osm_id_key i) \<and>
    (q < length is \<longrightarrow> osm_id_key i \<le> osm_id_key (is ! q))" by (intro seek_advance_spec) auto
  moreover have "Seek_find s is i = (Seek (Some (seek_advance is i p)),
      if seek_advance is i p < length is \<and> is ! seek_advance is i p = i then Some (seek_advance is i p) else None)"
    by (simp add: s Let_def p_def osm_id_cmp_Less cong: option.case_cong)
  ultimately show ?thesis using that [of "seek_advance is i p"] by (simp add: Let_def)
qed

interpretation seek: forward_cursor osm_id_key ids_sorted seek_ready Seek_find
proof (unfold_locales, goal_cases)
  case (1 xs s i n)
  then show ?case by (elim seek_find_spec) (auto split: if_splits)
next
  case (2 xs s i)
  show ?case
  proof (rule seek_find_spec [OF 2(1,2)])
    fix q
    assume q: "\<forall>j < q. osm_id_key (xs ! j) < osm_id_key i" "q < length xs \<longrightarrow> osm_id_key i \<le> osm_id_key (xs ! q)"
      "snd (Seek_find s xs i) = (if q < length xs \<and> xs ! q = i then Some q else None)"
    have "xs ! j \<noteq> i" if j: "j < length xs" for j
    proof (cases "j < q")
      case True
      then show ?thesis using q(1) by auto
    next
      case False
      show ?thesis
      proof (cases "j = q")
        case True
        then show ?thesis using q(3) 2(3) j by auto
      next
        case neq: False
        then have "osm_id_key (xs ! q) < osm_id_key (xs ! j)"
          using 2(1) False j by (auto simp: ids_sorted_def sorted_wrt_iff_nth_less)
        then show ?thesis using q(2) False j by auto
      qed
    qed
    then show "i \<notin> set xs" by (auto simp: in_set_conv_nth)
  qed
next
  case (3 xs s i k)
  show ?case
    by (rule seek_find_spec [OF 3(1,2)]) (use 3(3) in \<open>auto simp: seek_ready_def intro: less_le_trans\<close>)
next
  case (4 xs s k k')
  then show ?case by (auto simp: seek_ready_def split: Seek.splits option.splits intro: less_le_trans)
qed

text \<open>The cursors of a block: each is ready for IDs from \<open>k\<close> on.\<close>

definition seeks_ready :: "KindSeeks \<Rightarrow> SortedDiff \<Rightarrow> OsmIdKey \<Rightarrow> bool" where
  "seeks_ready c d k \<longleftrightarrow> length (ks_upserts c) = 3 \<and> length (ks_deleted c) = 3 \<and>
     (\<forall>kd. seek_ready (ks_upserts c ! unat (ordinal kd)) (upserts d kd) k \<and>
           seek_ready (ks_deleted c ! unat (ordinal kd)) (deleted d kd) k)"

lemma unat_ordinal_lt3: "unat (ordinal kd) < 3"
  by (cases kd) simp_all

lemma seeks_default: "seeks_ready KindSeeks_default d k"
  using unat_ordinal_lt3 by (simp add: seeks_ready_def KindSeeks_default_def seek_ready_def)

lemma diff_wf_sorted: "diff_wf d \<Longrightarrow> ids_sorted (upserts d kd)" "diff_wf d \<Longrightarrow> ids_sorted (deleted d kd)"
  by (auto simp: diff_wf_def table_wf_def upserts_def deleted_def)

lemma seeks_find_spec:
  assumes wf: "diff_wf d" and r: "seeks_ready c d (osm_id_key i)"
  shows "(case snd (KindSeeks_find c d kd i) of
      Deleted \<Rightarrow> i \<in> set (deleted d kd)
    | Upserted n \<Rightarrow> n < length (upserts d kd) \<and> upserts d kd ! n = i
    | Untouched \<Rightarrow> i \<notin> touched d kd)"
    and "osm_id_key i \<le> k \<Longrightarrow> seeks_ready (fst (KindSeeks_find c d kd i)) d k"
proof -
  note so = diff_wf_sorted [OF wf, of kd]
  let ?k = "unat (ordinal kd)"
  obtain sd fd where sd: "Seek_find (ks_deleted c ! ?k) (deleted d kd) i = (sd, fd)" by fastforce
  obtain su fu where su: "Seek_find (ks_upserts c ! ?k) (upserts d kd) i = (su, fu)" by fastforce
  have rd: "seek_ready (ks_deleted c ! ?k) (deleted d kd) (osm_id_key i)" "seek_ready (ks_upserts c ! ?k) (upserts d kd) (osm_id_key i)"
    using r by (auto simp: seeks_ready_def)
  have fd: "fd = None \<longleftrightarrow> i \<notin> set (deleted d kd)" using seek.find_member [OF so(2) rd(1)] sd by simp
  have fu: "fu = None \<longleftrightarrow> i \<notin> set (upserts d kd)" "fu = Some n \<Longrightarrow> n < length (upserts d kd) \<and> upserts d kd ! n = i" for n
    using seek.find_member [OF so(1) rd(2)] seek.find_Some [OF so(1) rd(2)] su by simp_all
  show "case snd (KindSeeks_find c d kd i) of
      Deleted \<Rightarrow> i \<in> set (deleted d kd)
    | Upserted n \<Rightarrow> n < length (upserts d kd) \<and> upserts d kd ! n = i
    | Untouched \<Rightarrow> i \<notin> touched d kd"
    using fd fu by (auto simp: KindSeeks_find_def sd su Let_def touched_def split: option.splits)
  assume k: "osm_id_key i \<le> k"
  have "seek_ready sd (deleted d kd) k" "seek_ready su (upserts d kd) k"
    using seek.find_ready [OF so(2) rd(1) k] seek.find_ready [OF so(1) rd(2) k] sd su by simp_all
  moreover have "seek_ready (ks_upserts c ! unat (ordinal kd')) (upserts d kd') k"
    "seek_ready (ks_deleted c ! unat (ordinal kd')) (deleted d kd') k" for kd'
    using r seek.ready_mono [OF _ _ k] diff_wf_sorted [OF wf] unfolding seeks_ready_def by blast+
  ultimately show "seeks_ready (fst (KindSeeks_find c d kd i)) d k"
    using r unat_ordinal_lt3 [of kd]
    by (auto simp: seeks_ready_def KindSeeks_find_def sd su Let_def nth_list_update split: option.splits)
qed

section \<open>The overlap check\<close>

lemma walked_previous: "cw_previous (walked claim (Required t) don) = (if don = [] then osm_id_key 0 else osm_id_key (last don))"
  by (simp add: walked_def)

lemma overlaps_loop_spec:
  assumes "diff_wf d" "length (don @ map snd es) < 2 ^ 64" "seeks_ready c d (cw_previous (walked claim (Required t) don))"
  shows "case overlaps_loop d c (walked claim (Required t) don) es of
      Inr (True, _) \<Rightarrow> \<exists>(kd, i) \<in> set es. i \<in> touched d kd
    | Inr (False, w) \<Rightarrow> (\<forall>(kd, i) \<in> set es. i \<notin> touched d kd) \<and> w = walked claim (Required t) (don @ map snd es)
        \<and> observe_all (walked claim (Required t) don) (map snd es) = Inr w
    | Inl e \<Rightarrow> observe_all (walked claim (Required t) don) (map snd es) = Inl e"
  using assms
proof (induction es arbitrary: don c)
  case Nil
  then show ?case by simp
next
  case (Cons p es)
  obtain kd i where p: "p = (kd, i)" by (cases p)
  let ?w = "walked claim (Required t) don" and ?w' = "walked claim (Required t) (don @ [i])"
  have len: "length don < 2 ^ 64" using Cons.prems(2) by simp
  show ?case
  proof (cases "don \<noteq> [] \<and> osm_id_key i < osm_id_key (last don)")
    case True
    then show ?thesis by (simp add: p observe_walked [OF len])
  next
    case False
    then have ob: "ClaimWalk_observe ?w i = Inr ?w'" by (auto simp: observe_walked [OF len])
    have "cw_previous ?w \<le> osm_id_key i" using False by (auto simp: walked_previous not_less)
    then have r: "seeks_ready c d (osm_id_key i)"
      using Cons.prems(1,3) seek.ready_mono diff_wf_sorted [OF Cons.prems(1)] unfolding seeks_ready_def by blast
    note fs = seeks_find_spec(1) [OF Cons.prems(1) r, of kd]
      seeks_find_spec(2) [OF Cons.prems(1) r order_refl, of kd]
    obtain c' hit where f: "KindSeeks_find c d kd i = (c', hit)" by fastforce
    show ?thesis
    proof (cases "hit = Untouched")
      case True
      have "seeks_ready c' d (cw_previous ?w')" using fs(2) f by (simp add: walked_previous)
      with Cons.IH [of "don @ [i]" c'] Cons.prems(1,2) have IH: "case overlaps_loop d c' ?w' es of
          Inr (True, _) \<Rightarrow> \<exists>(kd, i) \<in> set es. i \<in> touched d kd
        | Inr (False, w) \<Rightarrow> (\<forall>(kd, i) \<in> set es. i \<notin> touched d kd) \<and> w = walked claim (Required t) ((don @ [i]) @ map snd es)
            \<and> observe_all ?w' (map snd es) = Inr w
        | Inl e \<Rightarrow> observe_all ?w' (map snd es) = Inl e" by simp
      have "i \<notin> touched d kd" using fs(1) f True by simp
      with IH True f ob p show ?thesis by (auto split: sum.splits prod.splits bool.splits)
    next
      case False
      then have "i \<in> touched d kd" using fs(1) f by (cases hit) (auto simp: touched_def)
      with False f ob p show ?thesis by auto
    qed
  qed
qed

section \<open>Properties\<close>

text \<open>
  The blob range test and the upsert range. A blob whose claimed range does not overlap
  the diff holds no ID the diff upserts or deletes, so passing it through is safe; and the
  upsert range returned for a key interval is exactly the upserts with a key in it, in order.
\<close>

theorem diff_ranges_exact:
  assumes "diff_wf d"
  shows "(\<not> range_overlaps d k lo hi \<longrightarrow> (\<forall>i. lo \<le>s i \<and> i \<le>s hi \<longrightarrow> i \<notin> touched d k)) \<and>
    (case upsert_range d k first last_key of (a, b) \<Rightarrow>
       a \<le> b \<and> b \<le> length (upserts d k) \<and>
       slice a b (upserts d k) = filter (\<lambda>i. osm_id_key first \<le> osm_id_key i \<and> osm_id_key i \<le> last_key) (upserts d k))"
proof
  show "\<not> range_overlaps d k lo hi \<longrightarrow> (\<forall>i. lo \<le>s i \<and> i \<le>s hi \<longrightarrow> i \<notin> touched d k)"
    using range_overlaps_iff [OF assms, of k lo hi] range_key_bounds by blast
  let ?is = "upserts d k"
  define a where "a = partition_point (\<lambda>i. osm_id_key i < osm_id_key first) ?is"
  have so: "sorted (map osm_id_key ?is)" using ids_sortedD [OF diff_wf_sorted(1) [OF assms]] .
  note pa = partitioned_key [OF so, of "osm_id_key first"]
  have sod: "sorted (map osm_id_key (drop a ?is))" using sorted_wrt_drop [OF so, of a] by (simp add: drop_map)
  note pb = partitioned_key_le [OF sod, of last_key]
  have ta: "take a ?is = filter (\<lambda>i. osm_id_key i < osm_id_key first) ?is"
    unfolding a_def by (rule partition_point_take [OF pa])
  have le: "partition_point (\<lambda>i. osm_id_key i \<le> last_key) (drop a ?is) + a \<le> length ?is"
    using partition_point_spec(1) [OF pa, folded a_def] partition_point_spec(1) [OF pb] by simp
  have dr: "drop a ?is = filter (\<lambda>i. osm_id_key first \<le> osm_id_key i) ?is"
  proof -
    have "filter (\<lambda>i. osm_id_key first \<le> osm_id_key i) (take a ?is) = []"
      unfolding ta by (auto simp: filter_empty_conv)
    moreover have "\<forall>i \<in> set (drop a ?is). osm_id_key first \<le> osm_id_key i"
      using partition_point_spec(3) [OF pa, folded a_def] by (auto simp: in_set_conv_nth not_less)
    then have "filter (\<lambda>i. osm_id_key first \<le> osm_id_key i) (drop a ?is) = drop a ?is" by (simp add: filter_id_conv)
    ultimately show ?thesis by (metis append_Nil append_take_drop_id filter_append)
  qed
  show "case upsert_range d k first last_key of (a, b) \<Rightarrow>
      a \<le> b \<and> b \<le> length ?is \<and>
      slice a b ?is = filter (\<lambda>i. osm_id_key first \<le> osm_id_key i \<and> osm_id_key i \<le> last_key) ?is"
    using le partition_point_take [OF pb] unfolding dr
    by (simp add: upsert_range_def Let_def a_def [symmetric] slice_def dr conj_commute)
qed

theorem diff_ranges_exact_witness:
  "\<not> range_overlaps \<lparr>sd_nodes = KindTable_build [] [(7, 0), (- 1, 4)] [3], sd_ways = KindTable_build [] [] [],
       sd_relations = KindTable_build [] [] [], sd_strings = into_strings StringInterner_new\<rparr> Node 4 6 \<and>
   5 \<notin> touched \<lparr>sd_nodes = KindTable_build [] [(7, 0), (- 1, 4)] [3], sd_ways = KindTable_build [] [] [],
       sd_relations = KindTable_build [] [] [], sd_strings = into_strings StringInterner_new\<rparr> Node"
proof -
  let ?d = "\<lparr>sd_nodes = KindTable_build [] [(7, 0), (- 1, 4)] [3], sd_ways = KindTable_build [] [] [],
       sd_relations = KindTable_build [] [] [], sd_strings = into_strings StringInterner_new\<rparr>"
  have "table_wf (KindTable_build [] [(7, 0), (- 1, 4)] [3])" "table_wf (KindTable_build [] [] [])"
    by (rule build_wf, simp_all)+
  then have wf: "diff_wf ?d" by (simp add: diff_wf_def diff_kind_def split: ElementKind.split)
  have "\<not> range_overlaps ?d Node 4 6" by code_simp
  with diff_ranges_exact [OF wf, of Node 4 6] show ?thesis by (simp add: signed_simps)
qed

text \<open>
  C36: the precise check. For a block of elements walked under required order, the forward
  cursors report an overlap only if some element is upserted or deleted by the diff for its
  own kind; report none only if no element is, and then the walk handed back is the complete
  walk of the block; and an error is exactly the walk's refusal.
\<close>

theorem block_overlaps_exact:
  assumes "diff_wf d" "length block < 2 ^ 64"
  shows "case block_overlaps_diff block d (blob_walk claim) of
      Inr (True, _) \<Rightarrow> \<exists>(kd, i) \<in> set block. i \<in> touched d kd
    | Inr (False, w) \<Rightarrow> (\<forall>(kd, i) \<in> set block. i \<notin> touched d kd) \<and> observe_all (blob_walk claim) (map snd block) = Inr w
    | Inl e \<Rightarrow> observe_all (blob_walk claim) (map snd block) = Inl e"
proof -
  obtain t where w: "blob_walk claim = walked claim (Required t) []" by (simp add: blob_walk_def new_walked)
  have "seeks_ready KindSeeks_default d (cw_previous (walked claim (Required t) []))" by (rule seeks_default)
  with overlaps_loop_spec [OF assms(1), of "[]" block KindSeeks_default claim t] assms(2) show ?thesis
    unfolding block_overlaps_diff_def w by (auto split: sum.splits prod.splits bool.splits)
qed

theorem block_overlaps_exact_witness:
  "case block_overlaps_diff [(Node, 3), (Node, 7)]
      \<lparr>sd_nodes = KindTable_build [] [(7, 0)] [], sd_ways = KindTable_build [] [] [], sd_relations = KindTable_build [] [] [], sd_strings = into_strings StringInterner_new\<rparr>
      (blob_walk None) of
      Inr (True, _) \<Rightarrow> \<exists>(kd, i) \<in> set [(Node, 3 :: i64), (Node, 7)]. i \<in> touched
        \<lparr>sd_nodes = KindTable_build [] [(7, 0)] [], sd_ways = KindTable_build [] [] [], sd_relations = KindTable_build [] [] [], sd_strings = into_strings StringInterner_new\<rparr> kd
    | Inr (False, w) \<Rightarrow> False
    | Inl e \<Rightarrow> False"
proof -
  let ?d = "\<lparr>sd_nodes = KindTable_build [] [(7, 0)] [], sd_ways = KindTable_build [] [] [], sd_relations = KindTable_build [] [] [], sd_strings = into_strings StringInterner_new\<rparr>"
  let ?b = "[(Node, 3 :: i64), (Node, 7)]"
  have "table_wf (KindTable_build [] [(7, 0)] [])" "table_wf (KindTable_build [] [] [])" by (rule build_wf, simp_all)+
  then have wf: "diff_wf ?d" by (simp add: diff_wf_def diff_kind_def split: ElementKind.split)
  have "(case block_overlaps_diff ?b ?d (blob_walk None) of Inr (h, _) \<Rightarrow> h | Inl _ \<Rightarrow> False)" by code_simp
  with block_overlaps_exact [OF wf, of ?b None] show ?thesis
    by (auto split: sum.splits prod.splits bool.splits)
qed

end
