(* ===== verification/Tag_Expr.thy ===== *)
theory Tag_Expr
  imports Blob_Index
begin

text \<open>
  Tag expressions: the parser and matcher of \<open>src/src/tag_expr.rs\<close>, the type filter of
  \<open>src/src/owned.rs\<close>, and from \<open>src/src/commands/tags_filter/mod.rs\<close> the element test and
  the blob filter derived from a list of expressions. A \<open>str\<close> is its UTF-8 bytes: every
  character the parser looks for is ASCII, so searching bytes is searching characters.
  Shown: what the four spellings of a matcher accept, what the parsed \<open>key=value\<close> and
  \<open>key!=value\<close> select, and that the derived blob filter selects every element some
  expression matches.
\<close>

section \<open>Strings\<close>

type_synonym str = bytes

definition STAR :: u8 where "STAR = 42"
definition COMMA :: u8 where "COMMA = 44"
definition EQUALS :: u8 where "EQUALS = 61"
definition BANG :: u8 where "BANG = 33"
definition SLASH :: u8 where "SLASH = 47"
definition SPACE :: u8 where "SPACE = 32"
definition HASH :: u8 where "HASH = 35"
definition CR :: u8 where "CR = 13"

lemmas ascii_defs = STAR_def COMMA_def EQUALS_def BANG_def SLASH_def SPACE_def HASH_def CR_def

text \<open>\<open>str::find(c)\<close> for an ASCII character: the text before and after its first occurrence.\<close>

fun split_once :: "u8 \<Rightarrow> str \<Rightarrow> (str \<times> str) option" where
  "split_once c [] = None"
| "split_once c (x # xs) =
     (if x = c then Some ([], xs)
      else map_option (\<lambda>(a, b). (x # a, b)) (split_once c xs))"

text \<open>\<open>str::split(c)\<close>: the pieces between the occurrences of \<open>c\<close>, one more than there are.\<close>

fun split_on :: "u8 \<Rightarrow> str \<Rightarrow> str list" where
  "split_on c [] = [[]]"
| "split_on c (x # xs) =
     (if x = c then [] # split_on c xs
      else case split_on c xs of [] \<Rightarrow> [[x]] | p # ps \<Rightarrow> (x # p) # ps)"

definition ends_with :: "str \<Rightarrow> u8 \<Rightarrow> bool" where
  "ends_with s c \<longleftrightarrow> s \<noteq> [] \<and> last s = c"

text \<open>\<open>str::contains(sub)\<close>\<close>

fun str_contains :: "str \<Rightarrow> str \<Rightarrow> bool" where
  "str_contains [] sub \<longleftrightarrow> sub = []"
| "str_contains (x # xs) sub \<longleftrightarrow> starts_with (x # xs) sub \<or> str_contains xs sub"

section \<open>Definitions\<close>

datatype StringMatcher =
    Always
  | MEqual str
  | MList "str list"
  | MPrefix str
  | MSubstring str

fun matches :: "StringMatcher \<Rightarrow> str \<Rightarrow> bool" where
  "matches Always s = True"
| "matches (MEqual v) s = (s = v)"
| "matches (MList vs) s = list_ex (\<lambda>v. v = s) vs"
| "matches (MPrefix p) s = starts_with s p"
| "matches (MSubstring sub) s = str_contains s sub"

record TagMatcher =
  tm_key :: StringMatcher
  tm_value :: "StringMatcher option"
  tm_invert :: bool

record TypeFilter =
  tf_nodes :: bool
  tf_ways :: bool
  tf_relations :: bool

definition TypeFilter_all :: TypeFilter where
  "TypeFilter_all = \<lparr>tf_nodes = True, tf_ways = True, tf_relations = True\<rparr>"

definition TypeFilter_none :: TypeFilter where
  "TypeFilter_none = \<lparr>tf_nodes = False, tf_ways = False, tf_relations = False\<rparr>"

definition TypeFilter_count :: "TypeFilter \<Rightarrow> nat" where
  "TypeFilter_count f = of_bool (tf_nodes f) + of_bool (tf_ways f) + of_bool (tf_relations f)"

definition admits :: "TypeFilter \<Rightarrow> ElementKind \<Rightarrow> bool" where
  "admits f k = (case k of Node \<Rightarrow> tf_nodes f | Way \<Rightarrow> tf_ways f | Relation \<Rightarrow> tf_relations f)"

definition single_kind :: "TypeFilter \<Rightarrow> ElementKind option" where
  "single_kind f =
     (case (tf_nodes f, tf_ways f, tf_relations f) of
        (True, False, False) \<Rightarrow> Some Node
      | (False, True, False) \<Rightarrow> Some Way
      | (False, False, True) \<Rightarrow> Some Relation
      | _ \<Rightarrow> None)"

definition or_all :: "TypeFilter option \<Rightarrow> TypeFilter" where
  "or_all f = (case f of Some f \<Rightarrow> f | None \<Rightarrow> TypeFilter_all)"

record Expression =
  type_filter :: TypeFilter
  matcher :: TagMatcher

datatype expr_error = SpacedTypePrefix str str | EmptyKey | EmptyExpression

definition is_type_prefix :: "str \<Rightarrow> bool" where
  "is_type_prefix prefix \<longleftrightarrow> prefix \<noteq> [] \<and> list_all (\<lambda>c. c = 110 \<or> c = 119 \<or> c = 114) prefix"

definition strip_spaces :: "str \<Rightarrow> str" where
  "strip_spaces s = rev (dropWhile (\<lambda>c. c = SPACE) (rev (dropWhile (\<lambda>c. c = SPACE) s)))"

definition parse_type_prefix :: "str \<Rightarrow> expr_error + TypeFilter \<times> str" where
  "parse_type_prefix input =
     (case split_once SLASH input of
        Some (prefix, rest) \<Rightarrow>
          if is_type_prefix prefix
          then Inr (\<lparr>tf_nodes = (110 \<in> set prefix), tf_ways = (119 \<in> set prefix),
                     tf_relations = (114 \<in> set prefix)\<rparr>, rest)
          else if SPACE \<in> set prefix \<and> is_type_prefix (strip_spaces prefix)
          then Inl (SpacedTypePrefix prefix input)
          else Inr (TypeFilter_all, input)
      | None \<Rightarrow> Inr (TypeFilter_all, input))"

definition parse_string_matcher :: "str \<Rightarrow> StringMatcher" where
  "parse_string_matcher input =
     (let s = strip_spaces input in
      if s = [STAR] then Always
      else let leading_star = (s \<noteq> [] \<and> hd s = STAR); trailing_star = ends_with s STAR in
           if \<not> leading_star \<and> \<not> trailing_star
           then if COMMA \<in> set s then MList (map strip_spaces (split_on COMMA s)) else MEqual s
           else if trailing_star \<and> \<not> leading_star then MPrefix (butlast s)
           else let inner = tl s;
                    inner = (if ends_with inner STAR then butlast inner else inner)
                in MSubstring inner)"

definition parse_tag_matcher :: "str \<Rightarrow> expr_error + TagMatcher" where
  "parse_tag_matcher input =
     (let (key_part, value_part) =
            (case split_once EQUALS input of Some (k, v) \<Rightarrow> (k, Some v) | None \<Rightarrow> (input, None));
          (raw_key, invert) =
            (if value_part \<noteq> None \<and> ends_with key_part BANG then (butlast key_part, True)
             else (key_part, False));
          key_str = strip_spaces raw_key
      in if key_str = [] then Inl (if value_part \<noteq> None then EmptyKey else EmptyExpression)
         else Inr \<lparr>tm_key = parse_string_matcher key_str,
                   tm_value = map_option parse_string_matcher value_part,
                   tm_invert = invert\<rparr>)"

definition parse_expression :: "str \<Rightarrow> expr_error + Expression" where
  "parse_expression input =
     (case parse_type_prefix input of
        Inl e \<Rightarrow> Inl e
      | Inr (tf, tag_part) \<Rightarrow>
          (case parse_tag_matcher tag_part of
             Inl e \<Rightarrow> Inl e
           | Inr m \<Rightarrow> Inr \<lparr>type_filter = tf, matcher = m\<rparr>))"

fun parse_expressions :: "str list \<Rightarrow> expr_error + Expression list" where
  "parse_expressions [] = Inr []"
| "parse_expressions (s # ss) =
     (case parse_expression s of
        Inl e \<Rightarrow> Inl e
      | Inr x \<Rightarrow> (case parse_expressions ss of Inl e \<Rightarrow> Inl e | Inr xs \<Rightarrow> Inr (x # xs)))"

fun validate_expressions :: "str list \<Rightarrow> expr_error + unit" where
  "validate_expressions [] = Inr ()"
| "validate_expressions (s # ss) =
     (case parse_expression s of Inl e \<Rightarrow> Inl e | Inr _ \<Rightarrow> validate_expressions ss)"

definition expression_line :: "str \<Rightarrow> str option" where
  "expression_line raw =
     (let line = (case split_once HASH raw of Some (before, _) \<Rightarrow> before | None \<Rightarrow> raw);
          line = (if ends_with line CR then butlast line else line)
      in if strip_spaces line = [] then None else Some line)"

text \<open>The file's contents, once read: lines are split on \<open>\n\<close> only.\<close>

definition read_expressions :: "str \<Rightarrow> str list" where
  "read_expressions contents = List.map_filter expression_line (split_on 10 contents)"

definition tag_matches :: "TagMatcher \<Rightarrow> str \<Rightarrow> str \<Rightarrow> bool" where
  "tag_matches m key value =
     (if \<not> matches (tm_key m) key then False
      else case tm_value m of
             None \<Rightarrow> True
           | Some vm \<Rightarrow> matches vm value \<noteq> tm_invert m)"

definition element_matches :: "Expression list \<Rightarrow> (str \<times> str) list \<Rightarrow> ElementKind \<Rightarrow> bool" where
  "element_matches expressions tags k =
     list_ex (\<lambda>expr. admits (type_filter expr) k
                     \<and> list_ex (\<lambda>(key, value). tag_matches (matcher expr) key value) tags)
       expressions"

text \<open>
  The two hash sets are lists here: they are filled by insertion, tested for emptiness and
  handed to the filter, which only asks for membership, so order and repetition do not matter.
\<close>

record FilterParts =
  need_nodes :: bool
  need_ways :: bool
  need_relations :: bool
  fp_keys :: "str list"
  fp_prefixes :: "str list"
  key_unconstrained :: bool

definition add_expression :: "FilterParts \<Rightarrow> Expression \<Rightarrow> FilterParts" where
  "add_expression p expr =
     (let p = p\<lparr>need_nodes := need_nodes p \<or> tf_nodes (type_filter expr),
                need_ways := need_ways p \<or> tf_ways (type_filter expr),
                need_relations := need_relations p \<or> tf_relations (type_filter expr)\<rparr>
      in case tm_key (matcher expr) of
           MEqual key \<Rightarrow> p\<lparr>fp_keys := key # fp_keys p\<rparr>
         | MList alternatives \<Rightarrow> p\<lparr>fp_keys := alternatives @ fp_keys p\<rparr>
         | MPrefix pre \<Rightarrow> p\<lparr>fp_prefixes := pre # fp_prefixes p\<rparr>
         | MSubstring _ \<Rightarrow> p\<lparr>key_unconstrained := True\<rparr>
         | Always \<Rightarrow> p\<lparr>key_unconstrained := True\<rparr>)"

definition blob_filter_from_expressions :: "Expression list \<Rightarrow> BlobFilter option" where
  "blob_filter_from_expressions expressions =
     (let p = foldl add_expression
            \<lparr>need_nodes = False, need_ways = False, need_relations = False, fp_keys = [],
             fp_prefixes = [], key_unconstrained = False\<rparr> expressions;
          ks = (if key_unconstrained p then [] else fp_keys p);
          ps = (if key_unconstrained p then [] else fp_prefixes p);
          all_types = (need_nodes p \<and> need_ways p \<and> need_relations p);
          tag_filter = (ks \<noteq> [] \<or> ps \<noteq> [])
      in if all_types \<and> \<not> tag_filter then None
         else let f = BlobFilter_new (need_nodes p) (need_ways p) (need_relations p);
                  f = (if ks \<noteq> [] then with_required_tag_keys f ks else f);
                  f = (if ps \<noteq> [] then with_required_tag_prefixes f ps else f)
              in Some f)"

definition trusted_blob_filter :: "Expression list \<Rightarrow> bool \<Rightarrow> bool \<Rightarrow> BlobFilter option" where
  "trusted_blob_filter expressions invert distrust_metadata =
     (if invert \<or> distrust_metadata then None else blob_filter_from_expressions expressions)"

section \<open>Strings\<close>

lemma str_contains_iff: "str_contains s sub \<longleftrightarrow> (\<exists>a b. s = a @ sub @ b)"
proof (induction s)
  case (Cons x xs)
  have "starts_with (x # xs) sub \<longleftrightarrow> (\<exists>b. x # xs = sub @ b)"
    by (metis starts_with_def append_eq_conv_conj append_take_drop_id)
  moreover have "(\<exists>a b. x # xs = a @ sub @ b) \<longleftrightarrow> (\<exists>b. x # xs = sub @ b) \<or> (\<exists>a b. xs = a @ sub @ b)"
    by (metis Cons_eq_append_conv append_Cons append_Nil)
  ultimately show ?case using Cons by simp
qed auto

lemma split_once_append: "c \<notin> set a \<Longrightarrow> split_once c (a @ c # b) = Some (a, b)"
  by (induction a) auto

lemma split_once_None: "split_once c s = None \<longleftrightarrow> c \<notin> set s"
  by (induction s) auto

lemma split_once_Some: "split_once c s = Some (a, b) \<Longrightarrow> s = a @ c # b \<and> c \<notin> set a"
  by (induction s arbitrary: a) (auto split: if_splits)

fun join :: "u8 \<Rightarrow> str list \<Rightarrow> str" where
  "join c [] = []"
| "join c [p] = p"
| "join c (p # q # ps) = p @ c # join c (q # ps)"

lemma split_on_plain: "c \<notin> set p \<Longrightarrow> split_on c p = [p]"
  by (induction p) auto

lemma split_on_append: "c \<notin> set p \<Longrightarrow> split_on c (p @ c # s) = p # split_on c s"
  by (induction p) auto

lemma split_on_join: "ps \<noteq> [] \<Longrightarrow> \<forall>p \<in> set ps. c \<notin> set p \<Longrightarrow> split_on c (join c ps) = ps"
  by (induction c ps rule: join.induct) (auto simp: split_on_plain split_on_append)

text \<open>A part the parser takes verbatim: no comma, and no space or star at either end.\<close>

definition trimmed :: "str \<Rightarrow> bool" where
  "trimmed s \<longleftrightarrow> s = [] \<or> hd s \<noteq> SPACE \<and> last s \<noteq> SPACE"

definition plain :: "str \<Rightarrow> bool" where
  "plain s \<longleftrightarrow> s \<noteq> [] \<and> trimmed s \<and> hd s \<noteq> STAR \<and> last s \<noteq> STAR \<and> COMMA \<notin> set s"

lemma strip_trimmed [simp]: "trimmed s \<Longrightarrow> strip_spaces s = s"
proof (cases s rule: rev_cases)
  case (snoc ys y)
  assume "trimmed s"
  then have "dropWhile (\<lambda>c. c = SPACE) s = s" 
    by (auto simp: trimmed_def dropWhile_eq_self_iff)
  with \<open>trimmed s\<close> snoc show ?thesis by (simp add: strip_spaces_def trimmed_def)
qed (simp add: strip_spaces_def)

lemma plain_simps [simp]: "plain k \<Longrightarrow> strip_spaces k = k" "\<not> plain []"
  by (simp_all add: plain_def)

lemma trimmed_stars [simp]:
  "trimmed k \<Longrightarrow> trimmed (k @ [STAR])" "trimmed k \<Longrightarrow> trimmed (STAR # k)" "trimmed k \<Longrightarrow> trimmed (STAR # k @ [STAR])"
  by (auto simp: trimmed_def ascii_defs hd_append)

lemma parse_plain: "plain k \<Longrightarrow> parse_string_matcher k = MEqual k"
  by (auto simp: parse_string_matcher_def plain_def ends_with_def Let_def)

lemma parse_prefix: "plain k \<Longrightarrow> parse_string_matcher (k @ [STAR]) = MPrefix k"
  by (auto simp: parse_string_matcher_def plain_def ends_with_def Let_def hd_append)

lemma parse_substring:
  "plain k \<Longrightarrow> parse_string_matcher (STAR # k) = MSubstring k"
  "plain k \<Longrightarrow> parse_string_matcher (STAR # k @ [STAR]) = MSubstring k"
  by (auto simp: parse_string_matcher_def plain_def ends_with_def Let_def)

lemma parse_list:
  assumes "\<forall>p \<in> set (k # ks). plain p" "ks \<noteq> []"
  shows "parse_string_matcher (join COMMA (k # ks)) = MList (k # ks)"
proof -
  let ?s = "join COMMA (k # ks)"
  have jne: "join COMMA (p # ps) \<noteq> []" if "p \<noteq> []" for p ps using that by (cases ps) auto
  have last: "last (join COMMA ps) = last (last ps)" if "\<forall>p \<in> set ps. p \<noteq> []" "ps \<noteq> []" for ps
    using that by (induction COMMA ps rule: join.induct) (auto simp: jne)
  have ne: "\<forall>p \<in> set (k # ks). p \<noteq> []" using assms(1) by (simp add: plain_def)
  have s: "?s \<noteq> []" "hd ?s = hd k" "last ?s = last (last (k # ks))" "COMMA \<in> set ?s"
    using assms ne last [OF ne] by (cases ks; simp add: plain_def)+
  have pl: "plain (last (k # ks))" "plain k" using assms by auto
  then have ends: "hd ?s \<noteq> SPACE" "last ?s \<noteq> SPACE" "hd ?s \<noteq> STAR" "last ?s \<noteq> STAR"
    using s(2,3) by (auto simp: plain_def trimmed_def)
  then have "strip_spaces ?s = ?s" by (simp add: trimmed_def)
  moreover have "split_on COMMA ?s = k # ks" using assms(1) by (intro split_on_join) (auto simp: plain_def)
  moreover have "map strip_spaces (k # ks) = k # ks"
    using assms(1) by (intro map_idI) (auto simp: plain_def)
  moreover have "?s \<noteq> [STAR]" using s(4) by (auto simp: ascii_defs)
  ultimately show ?thesis using s ends unfolding parse_string_matcher_def Let_def ends_with_def by simp
qed

section \<open>Expressions\<close>

lemma parse_tag_key:
  "plain k \<Longrightarrow> EQUALS \<notin> set k \<Longrightarrow>
    parse_tag_matcher k = Inr \<lparr>tm_key = MEqual k, tm_value = None, tm_invert = False\<rparr>"
  by (simp add: parse_tag_matcher_def split_once_None [THEN iffD2] parse_plain) auto

lemma parse_tag_value:
  "plain k \<Longrightarrow> EQUALS \<notin> set k \<Longrightarrow> last k \<noteq> BANG \<Longrightarrow>
    parse_tag_matcher (k @ EQUALS # v) =
      Inr \<lparr>tm_key = MEqual k, tm_value = Some (parse_string_matcher v), tm_invert = False\<rparr>"
  by (simp add: parse_tag_matcher_def split_once_append parse_plain ends_with_def) auto

lemma parse_tag_not_value:
  assumes "plain k" "EQUALS \<notin> set k"
  shows "parse_tag_matcher (k @ BANG # EQUALS # v) =
      Inr \<lparr>tm_key = MEqual k, tm_value = Some (parse_string_matcher v), tm_invert = True\<rparr>"
proof -
  have "EQUALS \<notin> set (k @ [BANG])" using assms(2) by (simp add: ascii_defs)
  from split_once_append [OF this, of v] have "split_once EQUALS (k @ BANG # EQUALS # v) = Some (k @ [BANG], v)" by simp
  with assms show ?thesis by (simp add: parse_tag_matcher_def parse_plain ends_with_def) auto
qed

lemma type_prefix_no_equals: "is_type_prefix p \<Longrightarrow> EQUALS \<notin> set p \<and> SLASH \<notin> set p"
  by (auto simp: is_type_prefix_def ascii_defs list_all_iff)

lemma strip_spaces_mem: "c \<noteq> SPACE \<Longrightarrow> c \<in> set s \<Longrightarrow> c \<in> set (strip_spaces s)"
proof -
  assume c: "c \<noteq> SPACE" "c \<in> set s"
  have "c \<in> set (dropWhile (\<lambda>c. c = SPACE) xs)" if "c \<in> set xs" for xs
    using that c(1) by (induction xs) auto
  with c show ?thesis by (simp add: strip_spaces_def)
qed

text \<open>No type prefix: the text before the first slash, if any, contains an equals sign.\<close>

lemma no_type_prefix:
  assumes "SLASH \<notin> set k" "SLASH \<in> set r \<Longrightarrow> EQUALS \<in> set k"
  shows "parse_type_prefix (k @ r) = Inr (TypeFilter_all, k @ r)"
proof (cases "split_once SLASH (k @ r)")
  case None
  then show ?thesis by (simp add: parse_type_prefix_def)
next
  case (Some q)
  obtain a b where q: "q = (a, b)" by (cases q)
  with Some have ab: "k @ r = a @ SLASH # b" "SLASH \<notin> set a" using split_once_Some by auto
  then have "SLASH \<in> set r" using assms(1) by (metis Un_iff in_set_conv_decomp set_append)
  moreover have "set k \<subseteq> set a"
  proof -
    consider us where "k = a @ us" "us @ r = SLASH # b" | us where "k @ us = a"
      using ab(1) by (auto simp: append_eq_append_conv2)
    then show ?thesis
    proof cases
      case 1
      then show ?thesis using assms(1) by (cases us) auto
    qed auto
  qed
  ultimately have "EQUALS \<in> set a" using assms(2) by blast
  then have "\<not> is_type_prefix a" "\<not> is_type_prefix (strip_spaces a)"
    using type_prefix_no_equals strip_spaces_mem [of EQUALS a] by (auto simp: ascii_defs)
  with Some q show ?thesis by (simp add: parse_type_prefix_def)
qed

lemma with_type_prefix:
  assumes "is_type_prefix p"
  shows "parse_type_prefix (p @ SLASH # r) =
    Inr (\<lparr>tf_nodes = (110 \<in> set p), tf_ways = (119 \<in> set p), tf_relations = (114 \<in> set p)\<rparr>, r)"
  using split_once_append [of SLASH p r] type_prefix_no_equals [OF assms] assms by (simp add: parse_type_prefix_def)

lemma validate_iff: "is_ok (validate_expressions ss) \<longleftrightarrow> is_ok (parse_expressions ss)"
  by (induction ss) (auto split: sum.splits)

section \<open>The derived blob filter\<close>

text \<open>What one expression contributes.\<close>

fun key_names :: "StringMatcher \<Rightarrow> str list" where
  "key_names (MEqual k) = [k]"
| "key_names (MList ks) = ks"
| "key_names _ = []"

fun key_prefixes :: "StringMatcher \<Rightarrow> str list" where
  "key_prefixes (MPrefix p) = [p]"
| "key_prefixes _ = []"

fun free_key :: "StringMatcher \<Rightarrow> bool" where
  "free_key (MSubstring _) = True"
| "free_key Always = True"
| "free_key _ = False"

lemma matcher_parts:
  "matches m key \<Longrightarrow> free_key m \<or> key \<in> set (key_names m) \<or> (\<exists>p \<in> set (key_prefixes m). starts_with key p)"
  by (cases m) (auto simp: list_ex_iff)

lemma parts_fold:
  fixes p0 :: FilterParts
  defines "p \<equiv> \<lambda>es. foldl add_expression p0 es"
  shows "(need_nodes (p es) \<longleftrightarrow> need_nodes p0 \<or> (\<exists>e \<in> set es. tf_nodes (type_filter e))) \<and>
    (need_ways (p es) \<longleftrightarrow> need_ways p0 \<or> (\<exists>e \<in> set es. tf_ways (type_filter e))) \<and>
    (need_relations (p es) \<longleftrightarrow> need_relations p0 \<or> (\<exists>e \<in> set es. tf_relations (type_filter e))) \<and>
    set (fp_keys (p es)) = set (fp_keys p0) \<union> (\<Union>e \<in> set es. set (key_names (tm_key (matcher e)))) \<and>
    set (fp_prefixes (p es)) = set (fp_prefixes p0) \<union> (\<Union>e \<in> set es. set (key_prefixes (tm_key (matcher e)))) \<and>
    (key_unconstrained (p es) \<longleftrightarrow> key_unconstrained p0 \<or> (\<exists>e \<in> set es. free_key (tm_key (matcher e))))"
  unfolding p_def
proof (induction es rule: rev_induct)
  case (snoc e es)
  then show ?case by (cases "tm_key (matcher e)") (auto simp: add_expression_def Let_def)
qed simp

text \<open>An element as the filter sees it: its kind, coordinate and tag keys.\<close>

definition tagged_view :: "ElementKind \<Rightarrow> i32 \<Rightarrow> i32 \<Rightarrow> (str \<times> str) list \<Rightarrow> ElementView" where
  "tagged_view k lat lon tags = \<lparr>view_kind = k, view_lat = lat, view_lon = lon, view_keys = map fst tags\<rparr>"

lemma filter_selects_match:
  assumes f: "blob_filter_from_expressions es = Some f" and m: "element_matches es tags k"
  shows "selects f (tagged_view k lat lon tags)"
proof -
  let ?p0 = "\<lparr>need_nodes = False, need_ways = False, need_relations = False, fp_keys = [],
    fp_prefixes = [], key_unconstrained = False\<rparr>"
  define p where "p = foldl add_expression ?p0 es"
  note parts = parts_fold [of ?p0 es, folded p_def, simplified]
  define ks ps where "ks = (if key_unconstrained p then [] else fp_keys p)"
    and "ps = (if key_unconstrained p then [] else fp_prefixes p)"
  have flt: "wants f Node = need_nodes p" "wants f Way = need_ways p" "wants f Relation = need_relations p"
    "node_bbox f = None" "required_tag_keys f = (if ks \<noteq> [] then Some ks else None)"
    "required_tag_prefixes f = (if ps \<noteq> [] then Some ps else None)"
    using f by (auto simp: blob_filter_from_expressions_def Let_def p_def ks_def ps_def BlobFilter_new_def wants_def
        with_required_tag_keys_def with_required_tag_prefixes_def split: if_splits)
  from m obtain e key val where e: "e \<in> set es" "admits (type_filter e) k" "(key, val) \<in> set tags"
    "matches (tm_key (matcher e)) key"
    by (auto simp: element_matches_def list_ex_iff tag_matches_def split: if_splits)
  have "wants f k" using parts e(1,2) flt by (cases k) (auto simp: admits_def)
  then have place: "selects_place f (tagged_view k lat lon tags)"
    using flt(4) by (simp add: selects_place_def tagged_view_def)
  have "key \<in> fst ` set tags" using e(3) by force
  moreover have "key \<in> set ks \<or> (\<exists>q \<in> set ps. starts_with key q)" if "\<not> key_unconstrained p"
    using that matcher_parts [OF e(4)] parts e(1) unfolding ks_def ps_def by auto
  moreover have "\<not> has_tag_filter f" if "key_unconstrained p"
    using that flt by (simp add: has_tag_filter_def ks_def ps_def)
  ultimately have "selects_tags f (tagged_view k lat lon tags)"
    unfolding selects_tags_def tagged_view_def
    by (intro impI bexI [of _ key]) (cases "key_unconstrained p"; auto simp: flt(5,6))+
  with place show ?thesis by (simp add: selects_def)
qed

section \<open>Properties\<close>

text \<open>
  The spellings of a string matcher. For text taken verbatim (no comma inside, no space
  or star at either end), the bare text matches itself only, a trailing star its
  extensions, a leading star (with or without a trailing one) every string containing it;
  a comma list matches exactly its alternatives, and a lone star everything.
\<close>

theorem matcher_spellings:
  assumes "\<forall>q \<in> set (k # ks). plain q" "ks \<noteq> []"
  shows "(matches (parse_string_matcher k) s \<longleftrightarrow> s = k) \<and>
    (matches (parse_string_matcher (k @ [STAR])) s \<longleftrightarrow> (\<exists>b. s = k @ b)) \<and>
    (matches (parse_string_matcher (STAR # k)) s \<longleftrightarrow> (\<exists>a b. s = a @ k @ b)) \<and>
    (matches (parse_string_matcher (STAR # k @ [STAR])) s \<longleftrightarrow> (\<exists>a b. s = a @ k @ b)) \<and>
    (matches (parse_string_matcher (join COMMA (k # ks))) s \<longleftrightarrow> s \<in> set (k # ks)) \<and>
    matches (parse_string_matcher [STAR]) s"
proof -
  have k: "plain k" using assms by simp
  have "starts_with s k \<longleftrightarrow> (\<exists>b. s = k @ b)"
    by (metis starts_with_def append_eq_conv_conj append_take_drop_id)
  moreover have "parse_string_matcher [STAR] = Always"
    using strip_trimmed [of "[STAR]"] by (simp add: parse_string_matcher_def trimmed_def ascii_defs)
  moreover have "list_ex (\<lambda>v. v = s) (k # ks) \<longleftrightarrow> s \<in> set (k # ks)" by (auto simp: list_ex_iff)
  ultimately show ?thesis
    by (simp only: parse_plain [OF k] parse_prefix [OF k] parse_substring [OF k] parse_list [OF assms] matches.simps
        str_contains_iff simp_thms)
qed

theorem matcher_spellings_witness:
  "matches (parse_string_matcher (join COMMA [[97], [98, 99]])) [98, 99] \<and>
   \<not> matches (parse_string_matcher [97]) [98]"
proof -
  have p: "\<forall>q \<in> set [[97], [98, 99 :: u8]]. plain q" by (simp add: plain_def trimmed_def ascii_defs)
  from matcher_spellings [OF p, of "[98, 99]"] matcher_spellings [OF p, of "[98]"] show ?thesis by simp
qed

text \<open>
  What a parsed expression selects. For a verbatim key (without \<open>=\<close> and \<open>/\<close>, not ending
  in \<open>!\<close>) and a verbatim value, under a type prefix: \<open>key=value\<close> selects exactly the tag
  with that key and value, \<open>key!=value\<close> the tags with that key and another value, the bare
  key every tag with the key; the type prefix admits exactly the kinds it lists; and without
  a prefix every kind is admitted, slashes inside the value included.
\<close>

theorem parsed_expression_selects:
  assumes "plain k" "plain v" "EQUALS \<notin> set k" "SLASH \<notin> set k" "last k \<noteq> BANG" "is_type_prefix p"
  shows "\<exists>e1 e2 e3 e4.
    parse_expression (p @ SLASH # k @ EQUALS # v) = Inr e1 \<and>
    parse_expression (p @ SLASH # k @ BANG # EQUALS # v) = Inr e2 \<and>
    parse_expression (p @ SLASH # k) = Inr e3 \<and>
    parse_expression (k @ EQUALS # v) = Inr e4 \<and>
    (\<forall>key val. (tag_matches (matcher e1) key val \<longleftrightarrow> key = k \<and> val = v) \<and>
       (tag_matches (matcher e2) key val \<longleftrightarrow> key = k \<and> val \<noteq> v) \<and>
       (tag_matches (matcher e3) key val \<longleftrightarrow> key = k) \<and>
       (tag_matches (matcher e4) key val \<longleftrightarrow> key = k \<and> val = v)) \<and>
    type_filter e1 = type_filter e2 \<and> type_filter e2 = type_filter e3 \<and>
    (admits (type_filter e1) Node \<longleftrightarrow> 110 \<in> set p) \<and> (admits (type_filter e1) Way \<longleftrightarrow> 119 \<in> set p) \<and>
    (admits (type_filter e1) Relation \<longleftrightarrow> 114 \<in> set p) \<and> (\<forall>kd. admits (type_filter e4) kd)"
proof -
  have 4: "parse_type_prefix (k @ EQUALS # v) = Inr (TypeFilter_all, k @ EQUALS # v)"
    using no_type_prefix [of "k @ [EQUALS]" v] assms(4) by (simp add: ascii_defs)
  note parses = with_type_prefix [OF assms(6)] 4 parse_tag_key [OF assms(1,3)] parse_tag_value [OF assms(1,3,5), of v]
    parse_tag_not_value [OF assms(1,3), of v] parse_plain [OF assms(2)]
  let ?tf = "\<lparr>tf_nodes = (110 \<in> set p), tf_ways = (119 \<in> set p), tf_relations = (114 \<in> set p)\<rparr>"
  let ?eq = "\<lambda>b. \<lparr>tm_key = MEqual k, tm_value = Some (MEqual v), tm_invert = b\<rparr>"
  have "parse_expression (p @ SLASH # k @ EQUALS # v) = Inr \<lparr>type_filter = ?tf, matcher = ?eq False\<rparr>"
    "parse_expression (p @ SLASH # k @ BANG # EQUALS # v) = Inr \<lparr>type_filter = ?tf, matcher = ?eq True\<rparr>"
    "parse_expression (p @ SLASH # k) =
      Inr \<lparr>type_filter = ?tf, matcher = \<lparr>tm_key = MEqual k, tm_value = None, tm_invert = False\<rparr>\<rparr>"
    "parse_expression (k @ EQUALS # v) = Inr \<lparr>type_filter = TypeFilter_all, matcher = ?eq False\<rparr>"
    by (simp_all add: parse_expression_def parses)
  moreover have "\<forall>kd. admits TypeFilter_all kd" by (simp add: admits_def TypeFilter_all_def split: ElementKind.split)
  moreover have "(admits ?tf Node \<longleftrightarrow> 110 \<in> set p) \<and> (admits ?tf Way \<longleftrightarrow> 119 \<in> set p) \<and> (admits ?tf Relation \<longleftrightarrow> 114 \<in> set p)"
    by (simp add: admits_def)
  ultimately show ?thesis by (simp add: tag_matches_def)
qed

theorem parsed_expression_selects_witness:
  "\<exists>e. parse_expression [119, 47, 97, 61, 98] = Inr e \<and> tag_matches (matcher e) [97] [98] \<and>
     \<not> admits (type_filter e) Node"
proof -
  have p: "plain [97]" "plain [98]" "EQUALS \<notin> set [97]" "SLASH \<notin> set [97]" "last [97] \<noteq> BANG" "is_type_prefix [119]"
    by (simp_all add: plain_def trimmed_def ascii_defs is_type_prefix_def)
  from parsed_expression_selects [OF p] show ?thesis by (auto simp: ascii_defs)
qed

end
