(* ===== verification/Id_Chunk.thy ===== *)
theory Id_Chunk
  imports Prelude
begin

text \<open>
  One chunk of the sparse bitset of \<open>src/src/idset.rs\<close>: \<open>2 ^ 25\<close> IDs held either as a
  sorted array of offsets or as a bit array of 64-bit words. In-chunk offsets (\<open>u32\<close>
  masked to 25 bits) and counts are naturals here, since no operation on them can leave
  the range of its type: an offset is below \<open>2 ^ 25\<close>, a chunk's count at most \<open>2 ^ 25\<close>.
  Words are 64-bit words. Every operation is shown to act on the set of members
  (\<open>chunk_set\<close>) as its name says, in both representations and across promotion.
\<close>

section \<open>Bits of a word\<close>

text \<open>\<open>count_ones\<close> and \<open>trailing_zeros\<close> of \<open>u64\<close>\<close>

definition word_bits :: "u64 \<Rightarrow> nat list" where
  "word_bits w = filter (bit w) [0..<64]"

definition count_ones :: "u64 \<Rightarrow> nat" where
  "count_ones w = length (filter (bit w) [0..<64])"

definition trailing_zeros :: "u64 \<Rightarrow> nat" where
  "trailing_zeros w = length (takeWhile (\<lambda>i. \<not> bit w i) [0..<64])"

section \<open>Definitions\<close>

definition ID_SHIFT :: nat where "ID_SHIFT = 25"
definition WORDS_PER_CHUNK :: nat where "WORDS_PER_CHUNK = 524288"
definition OFFSET_MASK :: u64 where "OFFSET_MASK = push_bit ID_SHIFT 1 - 1"
definition SPARSE_MAX :: nat where "SPARSE_MAX = 1024"
definition WORDS_PER_BLOCK :: nat where "WORDS_PER_BLOCK = 8"
definition BITS_PER_BLOCK :: nat where "BITS_PER_BLOCK = 512"

definition split :: "i64 \<Rightarrow> (nat \<times> nat) option" where
  "split i =
     (if i <s 0 then None
      else Some (unat (drop_bit ID_SHIFT i), unat (i AND OFFSET_MASK)))"

definition new_dense :: "u64 list" where
  "new_dense = replicate WORDS_PER_CHUNK 0"

definition dense_insert :: "u64 list \<Rightarrow> nat \<Rightarrow> u64 list \<times> bool" where
  "dense_insert words off =
     (let b = push_bit (off mod 64) 1;
          word = words ! (off div 64);
          was_set = (word AND b \<noteq> 0)
      in (words[off div 64 := word OR b], \<not> was_set))"

fun dense_insert_all :: "u64 list \<Rightarrow> nat list \<Rightarrow> u64 list" where
  "dense_insert_all words [] = words"
| "dense_insert_all words (off # offs) = dense_insert_all (fst (dense_insert words off)) offs"

definition dense_from_offsets :: "nat list \<Rightarrow> u64 list" where
  "dense_from_offsets offsets = dense_insert_all new_dense offsets"

text \<open>The merge loop on the parts of \<open>a\<close> and \<open>b\<close> not yet visited.\<close>

fun union_sorted :: "nat list \<Rightarrow> nat list \<Rightarrow> nat list" where
  "union_sorted (a # as) (b # bs) =
     (if a < b then a # union_sorted as (b # bs)
      else if b < a then b # union_sorted (a # as) bs
      else a # union_sorted as bs)"
| "union_sorted [] bs = bs"
| "union_sorted as [] = as"

datatype Chunk = Dense "u64 list" | Sparse "nat list"

definition new_sparse :: Chunk where "new_sparse = Sparse []"

fun contains :: "Chunk \<Rightarrow> nat \<Rightarrow> bool" where
  "contains (Dense words) off = (words ! (off div 64) AND push_bit (off mod 64) 1 \<noteq> 0)"
| "contains (Sparse offsets) off = is_ok (binary_search offsets off)"

text \<open>\<open>Vec::insert\<close>\<close>

definition vec_insert :: "nat \<Rightarrow> 'a \<Rightarrow> 'a list \<Rightarrow> 'a list" where
  "vec_insert pos x xs = take pos xs @ x # drop pos xs"

fun chunk_insert :: "Chunk \<Rightarrow> nat \<Rightarrow> Chunk \<times> bool" where
  "chunk_insert (Dense words) off =
     (let (words', new) = dense_insert words off in (Dense words', new))"
| "chunk_insert (Sparse offsets) off =
     (let promoted = (Dense (fst (dense_insert (dense_from_offsets offsets) off)), True) in
      if offsets = [] \<or> last offsets < off
      then if length offsets < SPARSE_MAX then (Sparse (offsets @ [off]), True) else promoted
      else case binary_search offsets off of
             Inr _ \<Rightarrow> (Sparse offsets, False)
           | Inl pos \<Rightarrow>
               if length offsets < SPARSE_MAX then (Sparse (vec_insert pos off offsets), True)
               else promoted)"

fun promote :: "Chunk \<Rightarrow> Chunk" where
  "promote (Sparse offsets) = Dense (dense_from_offsets offsets)"
| "promote (Dense words) = Dense words"

fun clone_chunk :: "Chunk \<Rightarrow> Chunk" where
  "clone_chunk (Dense words) = Dense (map (\<lambda>w. w) words)"
| "clone_chunk (Sparse offsets) = Sparse offsets"

text \<open>\<open>dst.iter_mut().zip(src)\<close>: words of \<open>dst\<close> past the end of \<open>src\<close> keep their value.\<close>

fun or_words :: "u64 list \<Rightarrow> u64 list \<Rightarrow> u64 list" where
  "or_words (d # ds) (s # ss) = (d OR s) # or_words ds ss"
| "or_words ds ss = ds"

definition union_ref :: "Chunk \<Rightarrow> Chunk \<Rightarrow> Chunk" where
  "union_ref self src =
     (let self = (case src of Dense _ \<Rightarrow> promote self | Sparse _ \<Rightarrow> self) in
      case self of
        Dense dst \<Rightarrow>
          (case src of
             Dense s \<Rightarrow> Dense (or_words dst s)
           | Sparse s \<Rightarrow> Dense (dense_insert_all dst s))
      | Sparse dst \<Rightarrow>
          (case src of
             Sparse s \<Rightarrow>
               (let merged = union_sorted dst s in
                if SPARSE_MAX < length merged then Dense (dense_from_offsets merged)
                else Sparse merged)
           | Dense _ \<Rightarrow> self))"

definition union_owned :: "Chunk \<Rightarrow> Chunk \<Rightarrow> Chunk" where
  "union_owned self src =
     (case (src, self) of
        (Dense s, Sparse dst) \<Rightarrow> Dense (dense_insert_all s dst)
      | _ \<Rightarrow> union_ref self src)"

fun chunk_count :: "Chunk \<Rightarrow> nat" where
  "chunk_count (Dense words) = sum_list (map count_ones words)"
| "chunk_count (Sparse offsets) = length offsets"

text \<open>The block loop: \<open>as_chunks\<close> visits whole blocks of eight words only.\<close>

function block_prefixes :: "nat \<Rightarrow> u64 list \<Rightarrow> nat list \<times> nat" where
  "block_prefixes within words =
     (if length words < WORDS_PER_BLOCK then ([], within)
      else let (prefix, total) =
                 block_prefixes (within + sum_list (map count_ones (take WORDS_PER_BLOCK words)))
                   (drop WORDS_PER_BLOCK words)
           in (within # prefix, total))"
  by pat_completeness auto
termination
  by (relation "measure (length \<circ> snd)") (auto simp: WORDS_PER_BLOCK_def)

declare block_prefixes.simps [simp del]

fun rank_blocks :: "Chunk \<Rightarrow> nat list option \<times> nat" where
  "rank_blocks (Dense words) =
     (let (prefix, within) = block_prefixes 0 words in (Some prefix, within))"
| "rank_blocks (Sparse offsets) = (None, length offsets)"

fun rank_within :: "Chunk \<Rightarrow> nat \<Rightarrow> nat list option \<Rightarrow> nat" where
  "rank_within (Dense words) off blocks =
     (let block_idx = off div BITS_PER_BLOCK;
          r = (case blocks of None \<Rightarrow> 0 | Some bp \<Rightarrow> bp ! block_idx);
          target_word = off div 64;
          r = r + sum_list (map count_ones (slice (block_idx * WORDS_PER_BLOCK) target_word words));
          b = off mod 64
      in if 0 < b
         then r + count_ones (words ! target_word AND (push_bit b 1 - 1))
         else r)"
| "rank_within (Sparse offsets) off blocks = partition_point (\<lambda>x. x < off) offsets"

definition any_in_word :: "nat \<Rightarrow> nat \<Rightarrow> nat \<Rightarrow> u64 \<Rightarrow> bool" where
  "any_in_word lo hi idx value =
     (let value = (if idx = lo div 64 then value AND push_bit (lo mod 64) (- 1) else value);
          value = (if idx = hi div 64 \<and> hi mod 64 \<noteq> 63
                   then value AND (push_bit (hi mod 64 + 1) 1 - 1) else value)
      in value \<noteq> 0)"

fun any_in :: "Chunk \<Rightarrow> nat \<Rightarrow> nat \<Rightarrow> bool" where
  "any_in (Dense words) lo hi =
     list_ex (\<lambda>(i, w). any_in_word lo hi (lo div 64 + i) w)
       (enumerate 0 (slice (lo div 64) (hi div 64 + 1) words))"
| "any_in (Sparse offsets) lo hi =
     (let i = partition_point (\<lambda>x. x < lo) offsets in
      i < length offsets \<and> offsets ! i \<le> hi)"

text \<open>The offset iterator: \<open>OffDense words next cur cur_base\<close>.\<close>

datatype ChunkOffsets = OffDense "u64 list" nat u64 nat | OffSparse "nat list"

fun offsets :: "Chunk \<Rightarrow> ChunkOffsets" where
  "offsets (Dense words) = OffDense words 0 0 0"
| "offsets (Sparse os) = OffSparse os"

function offsets_next :: "ChunkOffsets \<Rightarrow> (nat \<times> ChunkOffsets) option" where
  "offsets_next (OffDense words next cur cur_base) =
     (if cur \<noteq> 0
      then Some (cur_base + trailing_zeros cur, OffDense words next (cur AND (cur - 1)) cur_base)
      else if length words \<le> next then None
      else offsets_next (OffDense words (Suc next) (words ! next) (next * 64)))"
| "offsets_next (OffSparse []) = None"
| "offsets_next (OffSparse (x # xs)) = Some (x, OffSparse xs)"
  by pat_completeness auto
termination
  by (relation "measure (\<lambda>it. case it of OffDense ws n c b \<Rightarrow> length ws - n | OffSparse _ \<Rightarrow> 0)") auto

declare offsets_next.simps(1) [simp del]

section \<open>Words as sets of bits\<close>

lemma and_bit_iff: "w AND push_bit n 1 \<noteq> 0 \<longleftrightarrow> bit (w :: u64) n"
  by (simp add: bit_iff_and_push_bit_not_eq_0)

lemma word_nonzero: "w \<noteq> 0 \<longleftrightarrow> (\<exists>b < 64. bit (w :: u64) b)"
proof
  assume "w \<noteq> 0"
  then show "\<exists>b < 64. bit w b" using bit_word_eqI [of w 0] by auto
qed auto

lemma bit_mask_low: "bit (2 ^ b - 1 :: u64) i \<longleftrightarrow> i < b \<and> i < 64"
proof -
  have "bit (mask b :: u64) i \<longleftrightarrow> i < min 64 b" by (simp only: Word.bit_mask_iff) simp
  then show ?thesis by (auto simp: mask_eq_exp_minus_1)
qed

lemma bit_exp_64: "bit (2 ^ n :: u64) i \<longleftrightarrow> i = n \<and> n < 64"
  by (auto simp: bit_exp_iff)

lemma count_ones_masked:
  assumes "b \<le> 64"
  shows "count_ones (w AND (push_bit b 1 - 1)) = length (filter (bit w) [0..<b])"
proof -
  have "filter (bit (w AND (push_bit b 1 - 1))) [0..<64] = filter (bit w) (filter (\<lambda>i. i < b) [0..<64])"
    by (auto simp: bit_and_iff bit_mask_low ac_simps intro!: filter_cong)
  also have "filter (\<lambda>i. i < b) [0..<64] = [0..<b]"
    using assms by (auto intro: sorted_distinct_set_unique simp: sorted_wrt_filter)
  finally show ?thesis by (simp add: count_ones_def)
qed

text \<open>Clearing the lowest set bit, as the iterator does.\<close>

lemma trailing_zeros_least:
  assumes "w \<noteq> 0"
  shows "trailing_zeros w < 64" "bit w (trailing_zeros w)" "i < trailing_zeros w \<Longrightarrow> \<not> bit w i"
proof -
  let ?t = "length (takeWhile (\<lambda>i. \<not> bit w i) [0..<64])"
  show lt: "trailing_zeros w < 64"
  proof (rule ccontr)
    assume "\<not> trailing_zeros w < 64"
    then have "takeWhile (\<lambda>i. \<not> bit w i) [0..<64] = [0..<64]"
      using length_takeWhile_le [of "\<lambda>i. \<not> bit w i" "[0..<64]"]
      by (intro takeWhile_eq_all_conv [THEN iffD2]) (metis (mono_tags, lifting) diff_zero le_antisym length_upt not_le set_takeWhileD takeWhile_eq_take take_all trailing_zeros_def)
    then have "\<forall>i < 64. \<not> bit w i" by (metis atLeastLessThan_upt atLeast0LessThan lessThan_iff takeWhile_eq_all_conv)
    with assms show False unfolding word_nonzero by blast
  qed
  then show "bit w (trailing_zeros w)"
    using nth_length_takeWhile [of "\<lambda>i. \<not> bit w i" "[0..<64]"] by (simp add: trailing_zeros_def)
  show "\<not> bit w i" if "i < trailing_zeros w"
  proof -
    have "i \<in> set (takeWhile (\<lambda>i. \<not> bit w i) [0..<64])"
      using that lt takeWhile_nth [of i "\<lambda>i. \<not> bit w i" "[0..<64]"]
      by (metis add.left_neutral nth_mem nth_upt order.strict_trans trailing_zeros_def)
    then show ?thesis by (auto dest: set_takeWhileD)
  qed
qed

lemma clear_lowest:
  assumes "w \<noteq> 0"
  shows "bit (w AND (w - 1)) i \<longleftrightarrow> bit w i \<and> i \<noteq> trailing_zeros w"
proof -
  define t where "t = trailing_zeros w"
  note tz = trailing_zeros_least [OF assms, folded t_def]
  define v where "v = w AND NOT (push_bit t 1)"
  have v: "bit v i \<longleftrightarrow> bit w i \<and> i \<noteq> t" for i
    using tz(1) bit_imp_le_length [of w i]
    by (auto simp: v_def bit_and_iff bit_not_iff bit_exp_64)
  have "v + push_bit t 1 = v OR push_bit t 1"
    by (rule disjunctive_add) (auto simp: v bit_exp_64)
  also have "\<dots> = w"
    using tz by (intro bit_word_eqI) (auto simp: bit_or_iff v bit_exp_64)
  finally have w: "w = v + push_bit t 1" by simp
  have low: "v + (push_bit t 1 - 1) = v OR (push_bit t 1 - 1)"
    using tz(3) by (intro disjunctive_add) (auto simp: v bit_mask_low)
  have "w - 1 = v OR (push_bit t 1 - 1)"
    unfolding low [symmetric] by (subst w) simp
  then show ?thesis
    using tz(3) v by (auto simp: bit_and_iff bit_or_iff bit_mask_low t_def)
qed

section \<open>Bit arrays\<close>

abbreviation dense_mem :: "u64 list \<Rightarrow> nat \<Rightarrow> bool" where
  "dense_mem ws off \<equiv> bit (ws ! (off div 64)) (off mod 64)"

definition dense_list :: "u64 list \<Rightarrow> nat list" where
  "dense_list ws = filter (dense_mem ws) [0..<64 * length ws]"

definition dense_set :: "u64 list \<Rightarrow> nat set" where
  "dense_set ws = {off. off < 64 * length ws \<and> dense_mem ws off}"

lemma set_dense_list [simp]: "set (dense_list ws) = dense_set ws"
  by (auto simp: dense_list_def dense_set_def)

lemma dense_list_sorted [simp]: "sorted (dense_list ws)" "distinct (dense_list ws)"
  by (simp_all add: dense_list_def sorted_wrt_filter)

lemma finite_dense_set [simp]: "finite (dense_set ws)"
  by (simp add: dense_set_def)

lemma dense_set_new [simp]: "dense_set (replicate n 0) = {}"
  by (auto simp: dense_set_def)

lemma dense_insert_length [simp]: "length (fst (dense_insert ws off)) = length ws"
  by (simp add: dense_insert_def Let_def)

lemma dense_insert_new: "off < 64 * length ws \<Longrightarrow> snd (dense_insert ws off) \<longleftrightarrow> off \<notin> dense_set ws"
  by (auto simp: dense_insert_def Let_def dense_set_def bit_iff_and_push_bit_not_eq_0)

lemma dense_insert_mem:
  assumes "off < 64 * length ws"
  shows "dense_set (fst (dense_insert ws off)) = insert off (dense_set ws)"
proof -
  have "off div 64 < length ws" using assms by auto
  then have "dense_mem (fst (dense_insert ws off)) x \<longleftrightarrow> (x div 64 = off div 64 \<and> x mod 64 = off mod 64) \<or> dense_mem ws x" for x
    by (auto simp: dense_insert_def Let_def nth_list_update bit_or_iff bit_exp_64)
  moreover have "x div 64 = off div 64 \<and> x mod 64 = off mod 64 \<longleftrightarrow> x = off" for x
    by (metis div_mult_mod_eq)
  ultimately show ?thesis
    using assms by (auto simp: dense_set_def)
qed

lemma dense_insert_all_length [simp]: "length (dense_insert_all ws os) = length ws"
  by (induction ws os rule: dense_insert_all.induct) auto

lemma dense_insert_all_mem:
  "\<forall>off \<in> set os. off < 64 * length ws \<Longrightarrow> dense_set (dense_insert_all ws os) = dense_set ws \<union> set os"
  by (induction ws os rule: dense_insert_all.induct) (auto simp: dense_insert_mem)

lemma or_words_mem:
  "length ss = length ds \<Longrightarrow> length (or_words ds ss) = length ds \<and> (\<forall>i < length ds. or_words ds ss ! i = ds ! i OR ss ! i)"
  by (induction ds ss rule: or_words.induct) (auto simp: less_Suc_eq_0_disj)

lemma or_words_set:
  assumes "length ss = length ds"
  shows "dense_set (or_words ds ss) = dense_set ds \<union> dense_set ss"
proof -
  have "off div 64 < length ds" if "off < 64 * length ds" for off using that by auto
  then show ?thesis
    using or_words_mem [OF assms] assms by (auto simp: dense_set_def bit_or_iff)
qed

text \<open>Splitting the members at a word boundary: the words before, then the bits of one word.\<close>

lemma dense_below_split:
  assumes "64 * t + b \<le> 64 * length ws" "b \<le> 64"
  shows "filter (dense_mem ws) [0..<64 * t + b] =
    filter (dense_mem ws) [0..<64 * t] @ map ((+) (64 * t)) (filter (bit (ws ! t)) [0..<b])"
proof -
  have "[0..<64 * t + b] = [0..<64 * t] @ [64 * t..<64 * t + b]"
    using upt_add_eq_append [of 0 "64 * t" b] by simp
  moreover have "[64 * t..<64 * t + b] = map ((+) (64 * t)) [0..<b]"
    using map_add_upt [of "64 * t" b] by (simp add: add.commute cong: map_cong)
  moreover have "filter (dense_mem ws) (map ((+) (64 * t)) [0..<b]) =
      map ((+) (64 * t)) (filter (bit (ws ! t)) [0..<b])"
  proof (cases "b = 64")
    case True
    then show ?thesis by (auto simp: filter_map o_def intro!: arg_cong [where f = "map _"] filter_cong)
  next
    case False
    then show ?thesis using assms(2)
      by (auto simp: filter_map o_def intro!: arg_cong [where f = "map _"] filter_cong)
  qed
  ultimately show ?thesis by simp
qed

lemma dense_below_words:
  "t \<le> length ws \<Longrightarrow> length (filter (dense_mem ws) [0..<64 * t]) = sum_list (map count_ones (take t ws))"
proof (induction t)
  case (Suc t)
  then show ?case
    using dense_below_split [of t 64 ws]
    by (simp add: take_Suc_conv_app_nth count_ones_def add.commute)
qed simp

lemma dense_card_below:
  assumes "off \<le> 64 * length ws"
  shows "card {x \<in> dense_set ws. x < off} = length (filter (dense_mem ws) [0..<off])"
proof -
  have "{x \<in> dense_set ws. x < off} = set (filter (dense_mem ws) [0..<off])"
    using assms by (auto simp: dense_set_def)
  also have "card \<dots> = length (filter (dense_mem ws) [0..<off])"
    by (rule distinct_card) simp
  finally show ?thesis .
qed

lemma dense_count: "sum_list (map count_ones ws) = card (dense_set ws)"
proof -
  have "card (dense_set ws) = length (dense_list ws)"
    by (metis dense_list_sorted(2) distinct_card set_dense_list)
  then show ?thesis using dense_below_words [of "length ws" ws] by (simp add: dense_list_def)
qed

lemma dense_rank:
  assumes "off < 64 * length ws"
  shows "card {x \<in> dense_set ws. x < off} =
    sum_list (map count_ones (take (off div 64) ws)) + count_ones (ws ! (off div 64) AND (2 ^ (off mod 64) - 1))"
proof -
  have "off = 64 * (off div 64) + off mod 64" by simp
  then have "length (filter (dense_mem ws) [0..<off]) = length (filter (dense_mem ws) [0..<64 * (off div 64)])
      + length (filter (bit (ws ! (off div 64))) [0..<off mod 64])"
    using arg_cong [OF dense_below_split [of "off div 64" "off mod 64" ws], of length] assms by simp
  then show ?thesis
    using dense_card_below [of off ws] dense_below_words [of "off div 64" ws] assms
      count_ones_masked [of "off mod 64" "ws ! (off div 64)"]
    by (simp add: less_imp_le)
qed

section \<open>Chunks as sets of offsets\<close>

abbreviation CHUNK_IDS :: nat where "CHUNK_IDS \<equiv> 33554432"

fun chunk_set :: "Chunk \<Rightarrow> nat set" where
  "chunk_set (Dense ws) = dense_set ws"
| "chunk_set (Sparse os) = set os"

fun chunk_wf :: "Chunk \<Rightarrow> bool" where
  "chunk_wf (Dense ws) \<longleftrightarrow> length ws = WORDS_PER_CHUNK"
| "chunk_wf (Sparse os) \<longleftrightarrow> sorted_wrt (<) os \<and> length os \<le> SPARSE_MAX \<and> (\<forall>x \<in> set os. x < CHUNK_IDS)"

lemma chunk_ids: "64 * WORDS_PER_CHUNK = CHUNK_IDS"
  by (simp add: WORDS_PER_CHUNK_def)

lemma chunk_set_bound: "chunk_wf c \<Longrightarrow> x \<in> chunk_set c \<Longrightarrow> x < CHUNK_IDS"
  by (cases c) (auto simp: dense_set_def chunk_ids)

lemma finite_chunk_set [simp]: "finite (chunk_set c)"
  by (cases c) auto

lemma new_sparse_wf [simp]: "chunk_wf new_sparse" "chunk_set new_sparse = {}"
  by (simp_all add: new_sparse_def)

lemma new_dense_wf [simp]: "chunk_wf (Dense new_dense)" "dense_set new_dense = {}" "length new_dense = WORDS_PER_CHUNK"
  by (simp_all add: new_dense_def)

lemma dense_from_offsets_wf:
  "\<forall>x \<in> set os. x < CHUNK_IDS \<Longrightarrow>
    length (dense_from_offsets os) = WORDS_PER_CHUNK \<and> dense_set (dense_from_offsets os) = set os"
  using dense_insert_all_mem [of os new_dense] chunk_ids by (simp add: dense_from_offsets_def)

lemma strict_imp_sorted: "sorted_wrt (<) (xs :: nat list) \<Longrightarrow> sorted xs"
  by (simp add: strict_sorted_iff)

lemma contains_iff: "chunk_wf c \<Longrightarrow> off < CHUNK_IDS \<Longrightarrow> contains c off \<longleftrightarrow> off \<in> chunk_set c"
  by (cases c)
    (auto simp: dense_set_def chunk_ids bit_iff_and_push_bit_not_eq_0 binary_search_member strict_imp_sorted)

lemma vec_insert_set [simp]: "set (vec_insert p x xs) = insert x (set xs)"
  by (metis vec_insert_def append_take_drop_id insert_is_Un list.simps(15) set_append Un_insert_right)

lemma vec_insert_length [simp]: "length (vec_insert p x xs) = Suc (length xs)"
  by (simp add: vec_insert_def)

lemma vec_insert_strict:
  assumes "sorted_wrt (<) (xs :: nat list)" "binary_search xs x = Inl p"
  shows "sorted_wrt (<) (vec_insert p x xs)"
proof -
  note bs = binary_search_Inl [OF strict_imp_sorted [OF assms(1)] assms(2)]
  have "\<forall>y \<in> set (take p xs). y < x" "\<forall>y \<in> set (drop p xs). x < y"
    using bs by (auto simp: in_set_conv_nth)
  then show ?thesis
    using assms(1) by (auto simp: vec_insert_def sorted_wrt_append sorted_wrt_take sorted_wrt_drop intro: less_trans)
qed

text \<open>\<open>insert\<close>: the member set grows by the offset, the answer says whether it was new, and the
  representation stays well formed, on the append, search, promotion and bit-array paths.\<close>

lemma chunk_insert_spec:
  assumes "chunk_wf c" "off < CHUNK_IDS"
  shows "chunk_wf (fst (chunk_insert c off)) \<and> chunk_set (fst (chunk_insert c off)) = insert off (chunk_set c) \<and>
    (snd (chunk_insert c off) \<longleftrightarrow> off \<notin> chunk_set c)"
proof (cases c)
  case (Dense ws)
  then have len: "off < 64 * length ws" using assms by (simp add: chunk_ids)
  with Dense assms(1) show ?thesis
    by (simp add: dense_insert_mem dense_insert_new split_beta Let_def)
next
  case (Sparse os)
  let ?new = "Dense (fst (dense_insert (dense_from_offsets os) off))"
  from Sparse assms(1) have so: "sorted_wrt (<) os" "sorted os" and b: "\<forall>x \<in> set os. x < CHUNK_IDS"
    by (auto dest: strict_imp_sorted)
  note dn = dense_from_offsets_wf [OF b]
  have promoted: "chunk_wf ?new" "chunk_set ?new = insert off (set os)"
    using dn assms(2) by (simp_all add: dense_insert_mem chunk_ids)
  show ?thesis
  proof (cases "os = [] \<or> last os < off")
    case True
    then have "off \<notin> set os" "sorted_wrt (<) (os @ [off])"
      using so sorted_le_last [OF so(2)] by (auto simp: sorted_wrt_append dest: le_less_trans)
    with True promoted Sparse assms b show ?thesis by (auto simp: Let_def)
  next
    case False
    show ?thesis
    proof (cases "binary_search os off")
      case (Inr n)
      then have "off \<in> set os" using binary_search_member [OF so(2), of off] by simp
      with Inr False Sparse assms(1) show ?thesis by (auto simp: Let_def)
    next
      case (Inl p)
      then have "off \<notin> set os" using binary_search_member [OF so(2), of off] by simp
      with Inl False Sparse promoted assms b vec_insert_strict [OF so(1) Inl] show ?thesis
        by (auto simp: Let_def)
    qed
  qed
qed

lemma promote_spec [simp]: "chunk_wf c \<Longrightarrow> chunk_wf (promote c) \<and> chunk_set (promote c) = chunk_set c"
  by (cases c) (auto simp: dense_from_offsets_wf)

lemma clone_chunk_id [simp]: "clone_chunk c = c"
  by (cases c) auto

lemma union_sorted_spec:
  "sorted_wrt (<) as \<Longrightarrow> sorted_wrt (<) bs \<Longrightarrow>
    set (union_sorted as bs) = set as \<union> set bs \<and> sorted_wrt (<) (union_sorted as bs)"
  by (induction as bs rule: union_sorted.induct) (auto intro: less_trans)

lemma union_ref_spec:
  assumes "chunk_wf a" "chunk_wf b"
  shows "chunk_wf (union_ref a b) \<and> chunk_set (union_ref a b) = chunk_set a \<union> chunk_set b"
proof (cases a)
  case (Dense d)
  with assms show ?thesis
    by (cases b) (simp_all add: union_ref_def or_words_mem or_words_set dense_insert_all_mem chunk_ids)
next
  case (Sparse d)
  show ?thesis
  proof (cases b)
    case (Dense s)
    with Sparse assms dense_from_offsets_wf [of d] show ?thesis
      by (simp add: union_ref_def or_words_mem or_words_set)
  next
    case S: (Sparse s)
    have "set (union_sorted d s) = set d \<union> set s" "sorted_wrt (<) (union_sorted d s)"
      using union_sorted_spec [of d s] Sparse S assms by auto
    moreover from this have "\<forall>x \<in> set (union_sorted d s). x < CHUNK_IDS"
      using Sparse S assms by auto
    ultimately show ?thesis
      using dense_from_offsets_wf [of "union_sorted d s"] by (auto simp: union_ref_def Sparse S Let_def)
  qed
qed

lemma union_owned_spec:
  assumes "chunk_wf a" "chunk_wf b"
  shows "chunk_wf (union_owned a b) \<and> chunk_set (union_owned a b) = chunk_set a \<union> chunk_set b"
  using union_ref_spec [OF assms] assms
  by (cases a; cases b) (simp_all add: union_owned_def dense_insert_all_mem chunk_ids Un_commute)

lemma chunk_count_spec: "chunk_wf c \<Longrightarrow> chunk_count c = card (chunk_set c)"
  by (cases c) (auto simp: dense_count distinct_card strict_sorted_iff)

section \<open>Rank within a chunk\<close>

lemma block_prefixes_spec:
  "length (fst (block_prefixes n ws)) = length ws div 8 \<and>
   (\<forall>k < length ws div 8. fst (block_prefixes n ws) ! k = n + sum_list (map count_ones (take (8 * k) ws))) \<and>
   snd (block_prefixes n ws) = n + sum_list (map count_ones (take (8 * (length ws div 8)) ws))"
proof (induction n ws rule: block_prefixes.induct)
  case (1 n ws)
  show ?case
  proof (cases "length ws < 8")
    case True
    then show ?thesis by (simp add: block_prefixes.simps [of n ws] WORDS_PER_BLOCK_def)
  next
    case False
    let ?n = "n + sum_list (map count_ones (take 8 ws))"
    have step: "block_prefixes n ws = (n # fst (block_prefixes ?n (drop 8 ws)), snd (block_prefixes ?n (drop 8 ws)))"
      using False by (simp add: block_prefixes.simps [of n ws] WORDS_PER_BLOCK_def split_beta)
    have IH: "length (fst (block_prefixes ?n (drop 8 ws))) = length (drop 8 ws) div 8"
      "\<And>k. k < length (drop 8 ws) div 8 \<Longrightarrow>
         fst (block_prefixes ?n (drop 8 ws)) ! k = ?n + sum_list (map count_ones (take (8 * k) (drop 8 ws)))"
      "snd (block_prefixes ?n (drop 8 ws)) =
         ?n + sum_list (map count_ones (take (8 * (length (drop 8 ws) div 8)) (drop 8 ws)))"
      using "1.IH" False by (simp_all add: WORDS_PER_BLOCK_def)
    have d: "length ws div 8 = Suc (length (drop 8 ws) div 8)"
      using False by (simp add: le_div_geq)
    have t: "sum_list (map count_ones (take 8 ws)) + sum_list (map count_ones (take (8 * k) (drop 8 ws))) =
        sum_list (map count_ones (take (8 * Suc k) ws))" for k
      by (simp add: take_add)
    have "(n # fst (block_prefixes ?n (drop 8 ws))) ! k = n + sum_list (map count_ones (take (8 * k) ws))"
      if "k < length ws div 8" for k
    proof (cases k)
      case (Suc j)
      then show ?thesis using IH(2) [of j] that t [of j] d by simp
    qed simp
    then show ?thesis
      using IH(1,3) d t [of "length (drop 8 ws) div 8"] by (simp add: step)
  qed
qed

lemma rank_blocks_count: "chunk_wf c \<Longrightarrow> snd (rank_blocks c) = card (chunk_set c)"
  using block_prefixes_spec [of 0]
  by (cases c) (auto simp: WORDS_PER_CHUNK_def dense_count split_beta Let_def distinct_card strict_sorted_iff)

lemma rank_within_spec:
  assumes "chunk_wf c" "off < CHUNK_IDS"
  shows "rank_within c off (fst (rank_blocks c)) = card {x \<in> chunk_set c. x < off}"
proof (cases c)
  case (Dense ws)
  let ?b = "off div 512" and ?t = "off div 64"
  have len: "length ws = WORDS_PER_CHUNK" using assms Dense by simp
  then have off: "off < 64 * length ws" using assms(2) by (simp add: chunk_ids)
  have "?b < length ws div 8" using assms(2) len by (simp add: WORDS_PER_CHUNK_def)
  then have "fst (block_prefixes 0 ws) ! ?b = sum_list (map count_ones (take (8 * ?b) ws))"
    using block_prefixes_spec [of 0 ws] by simp
  moreover have "8 * ?b \<le> ?t" by simp
  then have "take ?t ws = take (8 * ?b) ws @ slice (8 * ?b) ?t ws"
    using slice_join [of 0 "8 * ?b" ?t ws] by (simp add: slice_def)
  ultimately have "fst (block_prefixes 0 ws) ! ?b + sum_list (map count_ones (slice (8 * ?b) ?t ws)) =
      sum_list (map count_ones (take ?t ws))" by simp
  moreover have "count_ones (w AND (2 ^ 0 - 1)) = 0" for w by (simp add: count_ones_def)
  ultimately show ?thesis
    using dense_rank [OF off]
    by (auto simp: Dense split_beta Let_def BITS_PER_BLOCK_def WORDS_PER_BLOCK_def mult.commute)
next
  case (Sparse os)
  with assms(1) have "distinct os" "sorted os" by (auto simp: strict_sorted_iff)
  then have "card (set (filter (\<lambda>x. x < off) os)) = length (filter (\<lambda>x. x < off) os)"
    by (intro distinct_card) simp
  then show ?thesis
    using partition_point_filter [OF partitioned_less [OF \<open>sorted os\<close>, of off]]
    by (simp add: Sparse)
qed

section \<open>Range queries within a chunk\<close>

lemma any_in_word_spec:
  assumes "lo div 64 \<le> idx" "idx \<le> hi div 64"
  shows "any_in_word lo hi idx w \<longleftrightarrow> (\<exists>b < 64. bit w b \<and> lo \<le> 64 * idx + b \<and> 64 * idx + b \<le> hi)"
proof -
  define v where "v = (if idx = lo div 64 then w AND push_bit (lo mod 64) (- 1) else w)"
  have v: "bit v b \<longleftrightarrow> bit w b \<and> lo \<le> 64 * idx + b" if "b < 64" for b
  proof (cases "idx = lo div 64")
    case True
    have "lo mod 64 \<le> b \<longleftrightarrow> lo \<le> 64 * idx + b"
      using div_mult_mod_eq [of lo 64] unfolding True by linarith
    with True that show ?thesis by (auto simp: v_def bit_and_iff bit_not_iff Word.bit_mask_iff)
  next
    case False
    then have "lo \<le> 64 * idx + b" using assms(1) that by auto
    with False show ?thesis by (simp add: v_def)
  qed
  define u where "u = (if idx = hi div 64 \<and> hi mod 64 \<noteq> 63 then v AND (push_bit (hi mod 64 + 1) 1 - 1) else v)"
  have "bit u b \<longleftrightarrow> bit v b \<and> 64 * idx + b \<le> hi" if "b < 64" for b
  proof (cases "idx = hi div 64")
    case True
    have "b < hi mod 64 + 1 \<longleftrightarrow> 64 * idx + b \<le> hi"
      using div_mult_mod_eq [of hi 64] unfolding True by linarith
    moreover have "bit (push_bit (hi mod 64 + 1) 1 - 1 :: u64) b \<longleftrightarrow> b < hi mod 64 + 1"
      using that bit_mask_low [of "hi mod 64 + 1" b] by (simp only: push_bit_of_1) simp
    ultimately show ?thesis using True that by (auto simp: u_def bit_and_iff)
  next
    case False
    then have "64 * idx + b \<le> hi" using assms(2) that by auto
    with False show ?thesis by (simp add: u_def)
  qed
  moreover have "any_in_word lo hi idx w \<longleftrightarrow> u \<noteq> 0"
    by (simp add: any_in_word_def Let_def u_def v_def)
  ultimately show ?thesis using v unfolding word_nonzero by blast
qed

lemma any_in_spec:
  assumes "chunk_wf c" "lo \<le> hi" "hi < CHUNK_IDS"
  shows "any_in c lo hi \<longleftrightarrow> (\<exists>x \<in> chunk_set c. lo \<le> x \<and> x \<le> hi)"
proof (cases c)
  case (Dense ws)
  let ?a = "lo div 64" and ?b = "hi div 64"
  have "length ws = WORDS_PER_CHUNK" using assms(1) Dense by simp
  then have b: "?b < length ws" "CHUNK_IDS = 64 * length ws"
    using assms(3) chunk_ids by (simp_all add: WORDS_PER_CHUNK_def)
  have ab: "?a \<le> ?b" using assms(2) by (rule div_le_mono)
  have "any_in c lo hi \<longleftrightarrow> (\<exists>i < ?b + 1 - ?a. any_in_word lo hi (?a + i) (ws ! (?a + i)))"
    using b(1) ab by (auto simp: Dense list_ex_iff in_set_enumerate_eq slice_def)
  also have "\<dots> \<longleftrightarrow> (\<exists>idx. ?a \<le> idx \<and> idx \<le> ?b \<and> any_in_word lo hi idx (ws ! idx))"
  proof
    assume "\<exists>i < ?b + 1 - ?a. any_in_word lo hi (?a + i) (ws ! (?a + i))"
    then obtain i where "i < ?b + 1 - ?a" "any_in_word lo hi (?a + i) (ws ! (?a + i))" by blast
    then show "\<exists>idx. ?a \<le> idx \<and> idx \<le> ?b \<and> any_in_word lo hi idx (ws ! idx)"
      by (intro exI [of _ "?a + i"]) auto
  next
    assume "\<exists>idx. ?a \<le> idx \<and> idx \<le> ?b \<and> any_in_word lo hi idx (ws ! idx)"
    then obtain idx where "?a \<le> idx" "idx \<le> ?b" "any_in_word lo hi idx (ws ! idx)" by blast
    then show "\<exists>i < ?b + 1 - ?a. any_in_word lo hi (?a + i) (ws ! (?a + i))"
      by (intro exI [of _ "idx - ?a"]) auto
  qed
  also have "\<dots> \<longleftrightarrow> (\<exists>idx. ?a \<le> idx \<and> idx \<le> ?b \<and> (\<exists>k < 64. bit (ws ! idx) k \<and> lo \<le> 64 * idx + k \<and> 64 * idx + k \<le> hi))"
    using any_in_word_spec by blast
  also have "\<dots> \<longleftrightarrow> (\<exists>x \<in> dense_set ws. lo \<le> x \<and> x \<le> hi)"
  proof
    assume "\<exists>idx. ?a \<le> idx \<and> idx \<le> ?b \<and> (\<exists>k < 64. bit (ws ! idx) k \<and> lo \<le> 64 * idx + k \<and> 64 * idx + k \<le> hi)"
    then obtain idx k where "k < 64" "bit (ws ! idx) k" "lo \<le> 64 * idx + k" "64 * idx + k \<le> hi" by blast
    then show "\<exists>x \<in> dense_set ws. lo \<le> x \<and> x \<le> hi"
      using assms(3) b(2) by (intro bexI [of _ "64 * idx + k"]) (auto simp: dense_set_def)
  next
    assume "\<exists>x \<in> dense_set ws. lo \<le> x \<and> x \<le> hi"
    then obtain x where "dense_mem ws x" "lo \<le> x" "x \<le> hi" by (auto simp: dense_set_def)
    then show "\<exists>idx. ?a \<le> idx \<and> idx \<le> ?b \<and> (\<exists>k < 64. bit (ws ! idx) k \<and> lo \<le> 64 * idx + k \<and> 64 * idx + k \<le> hi)"
      by (intro exI [of _ "x div 64"]) (auto intro: div_le_mono exI [of _ "x mod 64"])
  qed
  finally show ?thesis by (simp add: Dense)
next
  case (Sparse os)
  with assms(1) have so: "sorted os" by (auto dest: strict_imp_sorted)
  note pp = partition_point_spec [OF partitioned_less [OF so, of lo]]
  let ?i = "partition_point (\<lambda>x. x < lo) os"
  have "?i < length os \<and> os ! ?i \<le> hi" if "x \<in> set os" "lo \<le> x" "x \<le> hi" for x
  proof -
    obtain j where j: "j < length os" "os ! j = x" using \<open>x \<in> set os\<close> by (auto simp: in_set_conv_nth)
    then have "?i \<le> j" using pp(2) [of j] that(2) by (auto simp: not_less [symmetric])
    with j show ?thesis using sorted_nth_mono [OF so, of ?i j] that(3) by simp
  qed
  moreover have "lo \<le> os ! ?i" if "?i < length os" using pp(3) [of ?i] that by simp
  ultimately show ?thesis by (auto simp: Sparse Let_def)
qed

section \<open>Iteration over a chunk\<close>

text \<open>What an iterator has still to yield.\<close>

fun remaining :: "ChunkOffsets \<Rightarrow> nat list" where
  "remaining (OffDense ws n cur base) =
     map ((+) base) (word_bits cur) @ concat (map (\<lambda>i. map ((+) (64 * i)) (word_bits (ws ! i))) [n..<length ws])"
| "remaining (OffSparse os) = os"

lemma word_bits_0 [simp]: "word_bits 0 = []"
  by (simp add: word_bits_def)

lemma word_bits_step:
  assumes "w \<noteq> 0"
  shows "word_bits w = trailing_zeros w # word_bits (w AND (w - 1))"
proof (rule sorted_distinct_set_unique)
  note tz = trailing_zeros_least [OF assms]
  have "trailing_zeros w \<le> b" if "bit w b" for b using tz(3) that not_le_imp_less by blast
  then show "sorted (trailing_zeros w # word_bits (w AND (w - 1)))"
    using clear_lowest [OF assms] by (auto simp: word_bits_def sorted_wrt_filter)
  show "distinct (trailing_zeros w # word_bits (w AND (w - 1)))"
    using clear_lowest [OF assms] by (auto simp: word_bits_def)
  show "set (word_bits w) = set (trailing_zeros w # word_bits (w AND (w - 1)))"
    using clear_lowest [OF assms] tz(1,2) by (auto simp: word_bits_def)
qed (simp_all add: word_bits_def sorted_wrt_filter)

lemma offsets_next_spec:
  "case offsets_next it of None \<Rightarrow> remaining it = [] | Some (x, it') \<Rightarrow> remaining it = x # remaining it'"
proof (induction it rule: offsets_next.induct)
  case (1 ws n cur base)
  show ?case
  proof (cases "cur = 0")
    case False
    then show ?thesis by (simp add: offsets_next.simps(1) word_bits_step)
  next
    case True
    show ?thesis
    proof (cases "length ws \<le> n")
      case False
      then have "remaining (OffDense ws n cur base) = remaining (OffDense ws (Suc n) (ws ! n) (n * 64))"
        using True by (simp add: upt_conv_Cons [of n] mult.commute)
      moreover have "offsets_next (OffDense ws n cur base) = offsets_next (OffDense ws (Suc n) (ws ! n) (n * 64))"
        using True False by (simp add: offsets_next.simps(1) [of ws n])
      ultimately show ?thesis using 1 True False by (simp only:) simp
    qed (simp add: True offsets_next.simps(1))
  qed
qed simp_all

text \<open>The consumer's loop over an iterator.\<close>

function collect_offsets :: "ChunkOffsets \<Rightarrow> nat list" where
  "collect_offsets it = (case offsets_next it of None \<Rightarrow> [] | Some (x, it') \<Rightarrow> x # collect_offsets it')"
  by pat_completeness auto
termination
proof (relation "measure (length \<circ> remaining)")
  fix it p x it'
  assume "offsets_next it = Some p" "(x, it') = p"
  then show "(it', it) \<in> measure (length \<circ> remaining)"
    using offsets_next_spec [of it] by auto
qed simp

declare collect_offsets.simps [simp del]

lemma collect_remaining: "collect_offsets it = remaining it"
proof (induction it rule: collect_offsets.induct)
  case (1 it)
  show ?case
  proof (cases "offsets_next it")
    case None
    then show ?thesis using offsets_next_spec [of it] by (simp add: collect_offsets.simps [of it])
  next
    case (Some p)
    with 1 show ?thesis
      using offsets_next_spec [of it] by (cases p) (simp add: collect_offsets.simps [of it])
  qed
qed

lemma dense_list_words:
  "t \<le> length ws \<Longrightarrow> filter (dense_mem ws) [0..<64 * t] = concat (map (\<lambda>i. map ((+) (64 * i)) (word_bits (ws ! i))) [0..<t])"
proof (induction t)
  case (Suc t)
  then show ?case using dense_below_split [of t 64 ws] by (simp add: word_bits_def add.commute)
qed simp

text \<open>Iterating a chunk yields its members once each, ascending.\<close>

lemma collect_offsets_spec:
  assumes "chunk_wf c"
  shows "set (collect_offsets (offsets c)) = chunk_set c" "sorted_wrt (<) (collect_offsets (offsets c))"
proof -
  have "collect_offsets (offsets (Dense ws)) = dense_list ws" for ws
    using dense_list_words [of "length ws" ws] by (simp add: collect_remaining dense_list_def)
  then show "set (collect_offsets (offsets c)) = chunk_set c" "sorted_wrt (<) (collect_offsets (offsets c))"
    using assms by (cases c; simp add: strict_sorted_iff collect_remaining del: remaining.simps(1))+
qed

lemma offsets_next_None: "chunk_wf c \<Longrightarrow> offsets_next (offsets c) = None \<longleftrightarrow> chunk_set c = {}"
  using offsets_next_spec [of "offsets c"] collect_offsets_spec(1) [of c]
  by (auto simp: collect_remaining split: option.splits)

interpretation chunk: reporting_set chunk_wf chunk_set "\<lambda>off. off < CHUNK_IDS" chunk_insert contains
  by unfold_locales (simp_all add: chunk_insert_spec contains_iff)

end
