(* ===== verification/Id_Set.thy ===== *)
theory Id_Set
  imports Id_Chunk
begin

text \<open>
  The sparse bitset of \<open>src/src/idset.rs\<close>: a directly indexed directory of chunks for IDs
  below \<open>2 ^ 43\<close> and an ordered map for the chunks above, with insertion, the atomic
  setters, range queries, iteration, the two merges, and the prefix-sum rank index.
  Every operation is shown to act on the set of IDs held (\<open>ids\<close>) as documented; rank
  queries count the smaller members, whatever mix of array and bit-array chunks holds
  them; and atomic setters commute, so any interleaving of writer threads gives one set.
\<close>

section \<open>Definitions\<close>

definition DIRECT_CHUNKS :: nat where "DIRECT_CHUNKS = 262144"

record IdSet =
  chunks :: "Chunk option list"
  overflow :: "(nat \<times> Chunk) list"

datatype Slot = Direct nat | Overflow

definition IdSet_new :: IdSet where
  "IdSet_new = \<lparr>chunks = [], overflow = []\<rparr>"

definition has_any :: "IdSet \<Rightarrow> bool" where
  "has_any s \<longleftrightarrow> list_ex (\<lambda>c. c \<noteq> None) (chunks s) \<or> overflow s \<noteq> []"

definition allocated_chunk_count :: "IdSet \<Rightarrow> nat" where
  "allocated_chunk_count s = length (filter (\<lambda>c. c \<noteq> None) (chunks s)) + length (overflow s)"

definition chunk :: "IdSet \<Rightarrow> nat \<Rightarrow> (Slot \<times> Chunk) option" where
  "chunk s cid =
     (if cid < DIRECT_CHUNKS
      then if cid < length (chunks s) then map_option (Pair (Direct cid)) (chunks s ! cid) else None
      else map_option (Pair Overflow) (bt_get (overflow s) cid))"

text \<open>\<open>chunk_entry\<close> hands out a reference to the chunk, created empty if absent; \<open>f\<close> is what
  the caller does through it.\<close>

definition chunk_entry :: "IdSet \<Rightarrow> nat \<Rightarrow> (Chunk \<Rightarrow> Chunk \<times> 'a) \<Rightarrow> IdSet \<times> 'a" where
  "chunk_entry s cid f =
     (if cid < DIRECT_CHUNKS
      then let cs = (if length (chunks s) \<le> cid then resize_none (cid + 1) (chunks s) else chunks s);
               (c, r) = f (case cs ! cid of None \<Rightarrow> new_sparse | Some c \<Rightarrow> c)
           in (s\<lparr>chunks := cs[cid := Some c]\<rparr>, r)
      else let (c, r) = f (case bt_get (overflow s) cid of None \<Rightarrow> new_sparse | Some c \<Rightarrow> c)
           in (s\<lparr>overflow := bt_entry cid (\<lambda>_. c) (overflow s)\<rparr>, r))"

definition set_if_new :: "IdSet \<Rightarrow> i64 \<Rightarrow> IdSet \<times> bool" where
  "set_if_new s i =
     (case split i of
        None \<Rightarrow> (s, False)
      | Some (cid, off) \<Rightarrow> chunk_entry s cid (\<lambda>c. chunk_insert c off))"

definition set_id :: "IdSet \<Rightarrow> i64 \<Rightarrow> IdSet" where
  "set_id s i =
     (case split i of
        None \<Rightarrow> s
      | Some (cid, off) \<Rightarrow>
          (case (if cid < length (chunks s) then chunks s ! cid else None) of
             Some (Dense words) \<Rightarrow>
               s\<lparr>chunks := (chunks s)[cid := Some (Dense
                  (words[off div 64 := words ! (off div 64) OR push_bit (off mod 64) 1]))]\<rparr>
           | _ \<Rightarrow> fst (chunk_entry s cid (\<lambda>c. chunk_insert c off))))"

definition make_dense :: "Chunk option \<Rightarrow> Chunk" where
  "make_dense slot = (case slot of Some c \<Rightarrow> promote c | None \<Rightarrow> Dense new_dense)"

definition pre_allocate :: "IdSet \<Rightarrow> i64 \<Rightarrow> IdSet" where
  "pre_allocate s max_id =
     (case split max_id of
        None \<Rightarrow> s
      | Some (max_cid, _) \<Rightarrow>
          let direct_end = min max_cid (DIRECT_CHUNKS - 1);
              cs = (if length (chunks s) \<le> direct_end then resize_none (direct_end + 1) (chunks s) else chunks s);
              cs = map (\<lambda>slot. Some (make_dense slot)) (take (direct_end + 1) cs) @ drop (direct_end + 1) cs;
              ov = foldl (\<lambda>m cid. bt_entry cid make_dense m) (overflow s) [DIRECT_CHUNKS..<max_cid + 1]
          in s\<lparr>chunks := cs, overflow := ov\<rparr>)"

definition file_bounded_max_id :: "i64 \<Rightarrow> u64 \<Rightarrow> u64 \<Rightarrow> i64" where
  "file_bounded_max_id claimed_max file_len ids_per_byte =
     (let prod = min (unat file_len * unat ids_per_byte) (2 ^ 64 - 1);
          by_size = (if prod < 2 ^ 63 then of_nat prod else i64_MAX)
      in smin claimed_max by_size)"

text \<open>The chunk an atomic setter may write, with the place it is written back to.\<close>

definition dense_for_atomic :: "IdSet \<Rightarrow> i64 \<Rightarrow> (nat \<times> u64 list \<times> nat) option" where
  "dense_for_atomic s i =
     (case split i of
        None \<Rightarrow> None
      | Some (cid, off) \<Rightarrow>
          (case chunk s cid of
             Some (_, Dense words) \<Rightarrow> Some (cid, words, off)
           | _ \<Rightarrow> None))"

definition write_words :: "IdSet \<Rightarrow> nat \<Rightarrow> u64 list \<Rightarrow> IdSet" where
  "write_words s cid words =
     (if cid < DIRECT_CHUNKS then s\<lparr>chunks := (chunks s)[cid := Some (Dense words)]\<rparr>
      else s\<lparr>overflow := bt_entry cid (\<lambda>_. Dense words) (overflow s)\<rparr>)"

text \<open>\<open>fetch_or\<close> on one word, returning the set and the previous word.\<close>

definition fetch_or :: "IdSet \<Rightarrow> nat \<Rightarrow> u64 list \<Rightarrow> nat \<Rightarrow> u64 \<Rightarrow> IdSet \<times> u64" where
  "fetch_or s cid words n b = (write_words s cid (words[n := words ! n OR b]), words ! n)"

definition set_atomic_if_new_checked :: "IdSet \<Rightarrow> i64 \<Rightarrow> IdSet \<times> bool option" where
  "set_atomic_if_new_checked s i =
     (case dense_for_atomic s i of
        None \<Rightarrow> (s, None)
      | Some (cid, words, off) \<Rightarrow>
          let b = push_bit (off mod 64) 1;
              (s', prev) = fetch_or s cid words (off div 64) b
          in (s', Some (prev AND b = 0)))"

definition set_atomic_checked :: "IdSet \<Rightarrow> i64 \<Rightarrow> IdSet \<times> bool" where
  "set_atomic_checked s i =
     (case dense_for_atomic s i of
        None \<Rightarrow> (s, False)
      | Some (cid, words, off) \<Rightarrow>
          (fst (fetch_or s cid words (off div 64) (push_bit (off mod 64) 1)), True))"

text \<open>The panicking setters: \<open>None\<close> is the panic.\<close>

definition set_atomic :: "IdSet \<Rightarrow> i64 \<Rightarrow> IdSet option" where
  "set_atomic s i =
     (case dense_for_atomic s i of
        None \<Rightarrow> None
      | Some (cid, words, off) \<Rightarrow>
          Some (fst (fetch_or s cid words (off div 64) (push_bit (off mod 64) 1))))"

definition set_atomic_if_new :: "IdSet \<Rightarrow> i64 \<Rightarrow> (IdSet \<times> bool) option" where
  "set_atomic_if_new s i =
     (case dense_for_atomic s i of
        None \<Rightarrow> None
      | Some (cid, words, off) \<Rightarrow>
          let b = push_bit (off mod 64) 1;
              (s', prev) = fetch_or s cid words (off div 64) b
          in Some (s', prev AND b = 0))"

definition get :: "IdSet \<Rightarrow> i64 \<Rightarrow> bool" where
  "get s i =
     (case split i of
        None \<Rightarrow> False
      | Some (cid, off) \<Rightarrow> (case chunk s cid of None \<Rightarrow> False | Some (_, c) \<Rightarrow> contains c off))"

definition any_in_range :: "IdSet \<Rightarrow> i64 \<Rightarrow> i64 \<Rightarrow> bool" where
  "any_in_range s min_id max_id =
     (if max_id <s min_id \<or> max_id <s 0 then False
      else case (split (smax min_id 0), split max_id) of
             (Some (min_cid, min_off), Some (max_cid, max_off)) \<Rightarrow>
               let clip = (\<lambda>cid. (if cid = min_cid then min_off else 0,
                                  if cid = max_cid then max_off else unat OFFSET_MASK))
               in (min_cid < DIRECT_CHUNKS \<and> chunks s \<noteq> []
                   \<and> list_ex (\<lambda>cid. case chunks s ! cid of
                                       None \<Rightarrow> False
                                     | Some c \<Rightarrow> any_in c (fst (clip cid)) (snd (clip cid)))
                       [min_cid..<Suc (min max_cid (length (chunks s) - 1))])
                  \<or> (DIRECT_CHUNKS \<le> max_cid
                     \<and> list_ex (\<lambda>(cid, c). any_in c (fst (clip cid)) (snd (clip cid)))
                         (filter (\<lambda>(cid, _). max min_cid DIRECT_CHUNKS \<le> cid \<and> cid \<le> max_cid) (overflow s)))
           | _ \<Rightarrow> False)"

text \<open>\<open>enumerate\<close> and \<open>filter_map\<close> over the directory, then the overflow chunks.\<close>

definition direct_pairs :: "nat \<Rightarrow> Chunk option list \<Rightarrow> (nat \<times> Chunk) list" where
  "direct_pairs n cs = List.map_filter (\<lambda>(cid, c). map_option (Pair cid) c) (enumerate n cs)"

definition chunk_ids_of :: "nat \<times> Chunk \<Rightarrow> i64 list" where
  "chunk_ids_of p =
     (let base = push_bit ID_SHIFT (of_nat (fst p) :: u64) in
      map (\<lambda>off. base + of_nat off) (collect_offsets (offsets (snd p))))"

definition iter :: "IdSet \<Rightarrow> i64 list" where
  "iter s = concat (map chunk_ids_of (direct_pairs 0 (chunks s) @ overflow s))"

definition chunk_of :: "i64 \<Rightarrow> nat option" where
  "chunk_of i = map_option fst (split i)"

definition iter_from :: "IdSet \<Rightarrow> i64 \<Rightarrow> i64 list" where
  "iter_from s start =
     (let first_cid = unat (drop_bit ID_SHIFT (smax start 0));
          direct = direct_pairs first_cid (drop first_cid (chunks s));
          ov = filter (\<lambda>(cid, _). max first_cid DIRECT_CHUNKS \<le> cid) (overflow s)
      in filter (\<lambda>i. start \<le>s i) (concat (map chunk_ids_of (direct @ ov))))"

definition merge_slot :: "(Chunk \<Rightarrow> Chunk \<Rightarrow> Chunk) \<Rightarrow> (Chunk \<Rightarrow> Chunk) \<Rightarrow> Chunk option \<Rightarrow> Chunk option \<Rightarrow> Chunk option" where
  "merge_slot join adopt slot src =
     (case src of
        None \<Rightarrow> slot
      | Some c \<Rightarrow> (case slot of Some dst \<Rightarrow> Some (join dst c) | None \<Rightarrow> Some (adopt c)))"

text \<open>The slot loop \<open>self.chunks.iter_mut().zip(other)\<close>: slots past \<open>other\<close> are left alone.\<close>

definition merge_with :: "(Chunk \<Rightarrow> Chunk \<Rightarrow> Chunk) \<Rightarrow> (Chunk \<Rightarrow> Chunk) \<Rightarrow> IdSet \<Rightarrow> IdSet \<Rightarrow> IdSet" where
  "merge_with join adopt s other =
     (let cs = (if length (chunks s) < length (chunks other)
                then resize_none (length (chunks other)) (chunks s) else chunks s);
          cs = map2 (merge_slot join adopt) cs (chunks other) @ drop (length (chunks other)) cs;
          ov = foldl (\<lambda>m (cid, src). bt_entry cid
                  (\<lambda>e. case e of Some dst \<Rightarrow> join dst src | None \<Rightarrow> adopt src) m)
                (overflow s) (overflow other)
      in s\<lparr>chunks := cs, overflow := ov\<rparr>)"

definition merge_from :: "IdSet \<Rightarrow> IdSet \<Rightarrow> IdSet" where
  "merge_from = merge_with union_ref clone_chunk"

definition merge :: "IdSet \<Rightarrow> IdSet \<Rightarrow> IdSet" where
  "merge = merge_with union_owned (\<lambda>c. c)"

section \<open>The rank index\<close>

record RankIndex =
  chunk_prefix :: "nat list"
  block_prefix :: "nat list option list"
  ov_keys :: "nat list"
  ov_prefix :: "nat list"
  ov_block :: "nat list option list"

record RankedIdSet =
  r_set :: IdSet
  r_rank :: RankIndex

text \<open>The two loops of \<open>into_ranked\<close>, each with the running total.\<close>

fun rank_direct :: "nat \<Rightarrow> Chunk option list \<Rightarrow> nat list \<times> nat list option list \<times> nat" where
  "rank_direct cumulative [] = ([], [], cumulative)"
| "rank_direct cumulative (c # cs) =
     (let (blocks, n) = (case c of Some c \<Rightarrow> rank_blocks c | None \<Rightarrow> (None, 0));
          (prefix, bs, total) = rank_direct (cumulative + n) cs
      in (cumulative # prefix, blocks # bs, total))"

fun rank_overflow :: "nat \<Rightarrow> (nat \<times> Chunk) list \<Rightarrow> nat list \<times> nat list option list \<times> nat" where
  "rank_overflow cumulative [] = ([], [], cumulative)"
| "rank_overflow cumulative ((cid, c) # cs) =
     (let (blocks, n) = rank_blocks c;
          (prefix, bs, total) = rank_overflow (cumulative + n) cs
      in (cumulative # prefix, blocks # bs, total))"

definition into_ranked :: "IdSet \<Rightarrow> RankedIdSet" where
  "into_ranked s =
     (let (prefix, bs, direct_total) = rank_direct 0 (chunks s);
          (oprefix, obs, total) = rank_overflow direct_total (overflow s)
      in \<lparr>r_set = s,
          r_rank = \<lparr>chunk_prefix = prefix @ [direct_total], block_prefix = bs,
                    ov_keys = map fst (overflow s), ov_prefix = oprefix @ [total], ov_block = obs\<rparr>\<rparr>)"

definition IdSet_len :: "IdSet \<Rightarrow> nat" where
  "IdSet_len s =
     sum_list (map chunk_count (List.map_filter (\<lambda>c. c) (chunks s) @ map snd (overflow s)))"

definition IdSet_is_empty :: "IdSet \<Rightarrow> bool" where
  "IdSet_is_empty s =
     list_all (\<lambda>c. offsets_next (offsets c) = None)
       (List.map_filter (\<lambda>c. c) (chunks s) @ map snd (overflow s))"

definition rank_in_chunk :: "RankIndex \<Rightarrow> Slot \<Rightarrow> nat \<Rightarrow> Chunk \<Rightarrow> nat \<Rightarrow> nat" where
  "rank_in_chunk idx slot cid c off =
     (case slot of
        Direct i \<Rightarrow> chunk_prefix idx ! i + rank_within c off (block_prefix idx ! i)
      | Overflow \<Rightarrow>
          (let i = partition_point (\<lambda>k. k < cid) (ov_keys idx) in
           ov_prefix idx ! i + rank_within c off (ov_block idx ! i)))"

definition rank :: "RankedIdSet \<Rightarrow> i64 \<Rightarrow> nat" where
  "rank r i =
     (if i \<le>s 0 then 0
      else case split i of
             None \<Rightarrow> 0
           | Some (cid, off) \<Rightarrow>
               let idx = r_rank r; cs = chunks (r_set r) in
               if cid < DIRECT_CHUNKS
               then if length cs \<le> cid then chunk_prefix idx ! length cs
                    else (case cs ! cid of
                            Some c \<Rightarrow> rank_in_chunk idx (Direct cid) cid c off
                          | None \<Rightarrow> chunk_prefix idx ! cid)
               else let i = partition_point (\<lambda>k. k < cid) (ov_keys idx);
                        r0 = ov_prefix idx ! i
                    in if i < length (ov_keys idx) \<and> ov_keys idx ! i = cid
                       then (case bt_get (overflow (r_set r)) cid of
                               Some c \<Rightarrow> r0 + rank_within c off (ov_block idx ! i)
                             | None \<Rightarrow> r0)
                       else r0)"

definition rank_if_set :: "RankedIdSet \<Rightarrow> i64 \<Rightarrow> nat option" where
  "rank_if_set r i =
     (case split i of
        None \<Rightarrow> None
      | Some (cid, off) \<Rightarrow>
          (case chunk (r_set r) cid of
             None \<Rightarrow> None
           | Some (slot, c) \<Rightarrow>
               if contains c off then Some (rank_in_chunk (r_rank r) slot cid c off) else None))"

definition total_count :: "RankedIdSet \<Rightarrow> nat" where
  "total_count r = (if ov_prefix (r_rank r) = [] then 0 else last (ov_prefix (r_rank r)))"

section \<open>The IDs held\<close>

definition chunk_at :: "IdSet \<Rightarrow> nat \<Rightarrow> Chunk option" where
  "chunk_at s cid = map_option snd (chunk s cid)"

definition members_at :: "IdSet \<Rightarrow> nat \<Rightarrow> nat set" where
  "members_at s cid = (case chunk_at s cid of None \<Rightarrow> {} | Some c \<Rightarrow> chunk_set c)"

definition ids :: "IdSet \<Rightarrow> nat set" where
  "ids s = {x. x mod CHUNK_IDS \<in> members_at s (x div CHUNK_IDS)}"

text \<open>
  The invariant: a bounded directory, overflow chunks in key order and above it (and below
  the last chunk of the non-negative \<open>i64\<close> range), every chunk well formed.
\<close>

definition set_wf :: "IdSet \<Rightarrow> bool" where
  "set_wf s \<longleftrightarrow> length (chunks s) \<le> DIRECT_CHUNKS \<and> (\<forall>c. Some c \<in> set (chunks s) \<longrightarrow> chunk_wf c) \<and>
     bt_wf (overflow s) \<and> (\<forall>(k, c) \<in> set (overflow s). DIRECT_CHUNKS \<le> k \<and> k < 2 ^ 38 \<and> chunk_wf c)"

lemma chunk_at_direct:
  "cid < DIRECT_CHUNKS \<Longrightarrow> chunk_at s cid = (if cid < length (chunks s) then chunks s ! cid else None)"
  by (simp add: chunk_at_def chunk_def option.map_comp o_def option.map_ident)

lemma chunk_at_overflow: "DIRECT_CHUNKS \<le> cid \<Longrightarrow> chunk_at s cid = bt_get (overflow s) cid"
  by (simp add: chunk_at_def chunk_def option.map_comp o_def option.map_ident)

lemma chunk_at_wf: "set_wf s \<Longrightarrow> chunk_at s cid = Some c \<Longrightarrow> chunk_wf c"
  by (cases "cid < DIRECT_CHUNKS")
    (auto simp: chunk_at_direct chunk_at_overflow set_wf_def not_less dest!: map_of_SomeD split: if_splits,
      metis nth_mem)

lemma members_at_bound: "set_wf s \<Longrightarrow> x \<in> members_at s cid \<Longrightarrow> x < CHUNK_IDS"
  by (auto simp: members_at_def split: option.splits dest: chunk_at_wf chunk_set_bound)

lemma split_Some:
  "split i = Some (cid, off) \<longleftrightarrow> 0 \<le>s i \<and> cid = unat i div CHUNK_IDS \<and> off = unat i mod CHUNK_IDS"
proof -
  have "unat (drop_bit 25 i) = unat i div CHUNK_IDS"
    by (subst unat_drop_bit_eq) (simp add: drop_bit_eq_div)
  moreover have "OFFSET_MASK = mask 25" by (simp add: OFFSET_MASK_def ID_SHIFT_def mask_eq_exp_minus_1)
  then have "i AND OFFSET_MASK = take_bit 25 i" by (simp only: take_bit_eq_mask)
  then have "unat (i AND OFFSET_MASK) = unat i mod CHUNK_IDS"
    by (simp only: unsigned_take_bit_eq) (simp add: take_bit_eq_mod)
  ultimately show ?thesis
    by (auto simp: split_def ID_SHIFT_def signed_simps)
qed

lemma split_None: "split i = None \<longleftrightarrow> i <s 0"
  by (simp add: split_def)

lemma nonneg_unat: "0 \<le>s (i :: i64) \<Longrightarrow> int (unat i) = sint i \<and> unat i < 2 ^ 63"
  using i64_bounds(2) [of i] uint_sint_nonneg [of i] unsigned_0
  by (auto simp: signed_simps nat_less_iff simp flip: nat_uint_eq)

lemma split_bounds: "split i = Some (cid, off) \<Longrightarrow> cid < 2 ^ 38 \<and> off < CHUNK_IDS \<and> unat i = cid * CHUNK_IDS + off"
  using nonneg_unat [of i] by (auto simp: split_Some less_mult_imp_div_less)

text \<open>What a change of one chunk's members does to the whole set.\<close>

lemma ids_insert:
  assumes "members_at s' = (members_at s)(cid := insert off (members_at s cid))" "off < CHUNK_IDS"
  shows "ids s' = insert (cid * CHUNK_IDS + off) (ids s)"
proof -
  have "x mod CHUNK_IDS = off \<and> x div CHUNK_IDS = cid \<longleftrightarrow> x = cid * CHUNK_IDS + off" for x
    using assms(2) by auto
  then show ?thesis unfolding ids_def assms(1) by (auto split: if_splits)
qed

lemma members_at_upd:
  "chunk_at s' = (chunk_at s)(cid := Some c) \<Longrightarrow> members_at s' = (members_at s)(cid := chunk_set c)"
  by (rule ext) (auto simp: members_at_def)

lemma ids_union:
  "(\<And>cid. members_at s' cid = members_at s cid \<union> members_at t cid) \<Longrightarrow> ids s' = ids s \<union> ids t"
  by (auto simp: ids_def)

lemma ids_same: "members_at s' = members_at s \<Longrightarrow> ids s' = ids s"
  by (simp add: ids_def)

lemma new_wf [simp]: "set_wf IdSet_new" "ids IdSet_new = {}"
  by (auto simp: set_wf_def IdSet_new_def ids_def members_at_def chunk_at_def chunk_def)

lemma ids_bound: "set_wf s \<Longrightarrow> x \<in> ids s \<Longrightarrow> x < 2 ^ 63"
proof -
  assume wf: "set_wf s" and x: "x \<in> ids s"
  let ?k = "x div CHUNK_IDS"
  have "?k < 2 ^ 38"
  proof (cases "?k < DIRECT_CHUNKS")
    case False
    then obtain c where "bt_get (overflow s) ?k = Some c"
      using x by (auto simp: ids_def members_at_def chunk_at_overflow split: option.splits)
    then show ?thesis using wf by (auto simp: set_wf_def dest!: map_of_SomeD)
  qed (simp add: DIRECT_CHUNKS_def)
  then show ?thesis by (simp add: div_less_iff_less_mult)
qed

lemma unat_of_nat_id: "x < 2 ^ 63 \<Longrightarrow> unat (of_nat x :: i64) = x"
  by (simp add: unat_of_nat take_bit_nat_eq_self)

lemma of_nat_ids: "set_wf s \<Longrightarrow> x \<in> (of_nat :: nat \<Rightarrow> i64) ` ids s \<longleftrightarrow> unat x \<in> ids s"
proof
  assume wf: "set_wf s" and "x \<in> (of_nat :: nat \<Rightarrow> i64) ` ids s"
  then obtain n where n: "n \<in> ids s" "x = of_nat n" by blast
  then have "unat x = n" using ids_bound [OF wf n(1)] by (simp only: unat_of_nat_id)
  with n show "unat x \<in> ids s" by simp
next
  assume "unat x \<in> ids s"
  then show "x \<in> (of_nat :: nat \<Rightarrow> i64) ` ids s" by (intro image_eqI [of _ _ "unat x"]) simp_all
qed

lemma get_iff: "set_wf s \<Longrightarrow> get s i \<longleftrightarrow> 0 \<le>s i \<and> unat i \<in> ids s"
proof (cases "split i")
  case None
  then have "\<not> 0 \<le>s i" by (simp add: split_None signed_simps)
  with None show ?thesis by (simp add: get_def)
next
  case (Some p)
  assume wf: "set_wf s"
  obtain cid off where p: "p = (cid, off)" by (cases p)
  show ?thesis
  proof (cases "chunk s cid")
    case None
    then have "\<not> get s i" using Some p by (simp add: get_def)
    moreover have "cid = unat i div CHUNK_IDS" using Some p by (simp add: split_Some)
    ultimately show ?thesis using None by (simp add: ids_def members_at_def chunk_at_def)
  next
    case (Some q)
    then have c: "chunk_at s cid = Some (snd q)" by (simp add: chunk_at_def)
    have sp: "split i = Some (cid, off)" using \<open>split i = Some p\<close> p by simp
    have "get s i \<longleftrightarrow> off \<in> chunk_set (snd q)"
      using Some contains_iff [OF chunk_at_wf [OF wf c], of off] split_bounds [OF sp]
      by (cases q) (simp add: get_def sp)
    with sp c show ?thesis by (simp add: ids_def members_at_def split_Some)
  qed
qed

section \<open>Insertion\<close>

abbreviation chunk_or_new :: "IdSet \<Rightarrow> nat \<Rightarrow> Chunk" where
  "chunk_or_new s cid \<equiv> (case chunk_at s cid of None \<Rightarrow> new_sparse | Some c \<Rightarrow> c)"

lemma chunk_entry_spec:
  assumes "set_wf s" "cid < 2 ^ 38" "chunk_wf (fst (f (chunk_or_new s cid)))"
  shows "set_wf (fst (chunk_entry s cid f)) \<and>
    chunk_at (fst (chunk_entry s cid f)) = (chunk_at s)(cid := Some (fst (f (chunk_or_new s cid)))) \<and>
    snd (chunk_entry s cid f) = snd (f (chunk_or_new s cid))"
proof (cases "cid < DIRECT_CHUNKS")
  case True
  obtain c r where cr: "f (chunk_or_new s cid) = (c, r)" by fastforce
  then have wfc: "chunk_wf c" using assms(3) by simp
  define cs where "cs = (if length (chunks s) \<le> cid then resize_none (cid + 1) (chunks s) else chunks s)"
  have len: "cid < length cs" "length (chunks s) \<le> length cs" "length cs \<le> DIRECT_CHUNKS"
    using assms(1) True by (auto simp: cs_def set_wf_def)
  have nth: "cs ! k = (if k < length (chunks s) then chunks s ! k else None)" if "k < length cs" for k
    using that by (auto simp: cs_def nth_resize_none split: if_splits)
  have sub: "set cs \<subseteq> insert None (set (chunks s))" by (auto simp: cs_def resize_none_def)
  have e: "chunk_entry s cid f = (s\<lparr>chunks := cs[cid := Some c]\<rparr>, r)"
    using True cr nth [OF len(1)] by (simp add: chunk_entry_def Let_def chunk_at_direct flip: cs_def)
  have "set_wf (s\<lparr>chunks := cs[cid := Some c]\<rparr>)"
    using assms(1) wfc len sub set_update_subset_insert [of cs cid "Some c"] by (fastforce simp: set_wf_def)
  moreover have "chunk_at (s\<lparr>chunks := cs[cid := Some c]\<rparr>) k = ((chunk_at s)(cid := Some c)) k" for k
    using len nth [of k] True
    by (cases "k < DIRECT_CHUNKS") (auto simp: chunk_at_direct chunk_at_overflow nth_list_update)
  ultimately show ?thesis using e cr by auto
next
  case False
  obtain c r where cr: "f (chunk_or_new s cid) = (c, r)" by fastforce
  then have wfc: "chunk_wf c" using assms(3) by simp
  have e: "chunk_entry s cid f = (s\<lparr>overflow := bt_entry cid (\<lambda>_. c) (overflow s)\<rparr>, r)"
    using False cr by (simp add: chunk_entry_def Let_def chunk_at_overflow)
  have wf: "bt_wf (overflow s)" using assms(1) by (simp add: set_wf_def)
  have "\<forall>(k, v) \<in> set (bt_entry cid (\<lambda>_. c) (overflow s)). DIRECT_CHUNKS \<le> k \<and> k < 2 ^ 38 \<and> chunk_wf v"
    using assms(1,2) wfc False bt_get_Some [OF bt_wf_entry [OF wf, of cid "\<lambda>_. c"], symmetric]
    by (fastforce simp: bt_get_entry [OF wf] set_wf_def dest: map_of_SomeD split: if_splits)
  then have "set_wf (s\<lparr>overflow := bt_entry cid (\<lambda>_. c) (overflow s)\<rparr>)"
    using assms(1) wf by (simp add: set_wf_def bt_wf_entry)
  moreover have "chunk_at (s\<lparr>overflow := bt_entry cid (\<lambda>_. c) (overflow s)\<rparr>) k = ((chunk_at s)(cid := Some c)) k" for k
    using False by (cases "k < DIRECT_CHUNKS") (auto simp: chunk_at_direct chunk_at_overflow bt_get_entry [OF wf])
  ultimately show ?thesis using e cr by auto
qed

lemma set_if_new_spec:
  assumes "set_wf s"
  shows "set_wf (fst (set_if_new s i)) \<and>
    ids (fst (set_if_new s i)) = (if i <s 0 then ids s else insert (unat i) (ids s)) \<and>
    (snd (set_if_new s i) \<longleftrightarrow> 0 \<le>s i \<and> unat i \<notin> ids s)"
proof (cases "split i")
  case None
  then have "\<not> 0 \<le>s i" "i <s 0" by (simp_all add: split_None signed_simps)
  with None assms show ?thesis by (simp add: set_if_new_def)
next
  case (Some p)
  obtain cid off where p: "p = (cid, off)" by (cases p)
  with Some have sp: "split i = Some (cid, off)" by simp
  note b = split_bounds [OF sp]
  let ?c = "chunk_or_new s cid"
  have wf: "chunk_wf ?c" using chunk_at_wf [OF assms] by (auto split: option.splits)
  have m: "chunk_set ?c = members_at s cid" by (auto simp: members_at_def split: option.splits)
  have ci: "chunk_wf (fst (chunk_insert ?c off))" "chunk_set (fst (chunk_insert ?c off)) = insert off (members_at s cid)"
      "snd (chunk_insert ?c off) \<longleftrightarrow> off \<notin> members_at s cid"
    using chunk_insert_spec [OF wf, of off] b m by auto
  note ce = chunk_entry_spec [OF assms, of cid "\<lambda>c. chunk_insert c off", OF _ ci(1)]
  have "members_at (fst (chunk_entry s cid (\<lambda>c. chunk_insert c off))) = (members_at s)(cid := insert off (members_at s cid))"
    using ce ci(2) b members_at_upd by metis
  from ids_insert [OF this] b have "ids (fst (set_if_new s i)) = insert (unat i) (ids s)"
    by (simp add: set_if_new_def sp)
  moreover have "\<not> i <s 0" "0 \<le>s i" using sp by (auto simp: split_Some signed_simps)
  moreover have "off \<in> members_at s cid \<longleftrightarrow> unat i \<in> ids s"
    using sp by (simp add: ids_def split_Some)
  ultimately show ?thesis using ce ci(3) b by (simp add: set_if_new_def sp)
qed

text \<open>The fast path of \<open>set\<close> (a plain OR into an existing bit array) does what \<open>set_if_new\<close> does.\<close>

lemma set_id_eq: "set_wf s \<Longrightarrow> set_id s i = fst (set_if_new s i)"
proof (cases "split i")
  case None
  then show ?thesis by (simp add: set_id_def set_if_new_def)
next
  case (Some p)
  assume wf: "set_wf s"
  obtain cid off where p: "p = (cid, off)" by (cases p)
  show ?thesis
  proof (cases "cid < length (chunks s) \<and> (\<exists>ws. chunks s ! cid = Some (Dense ws))")
    case True
    then obtain ws where "cid < length (chunks s)" "chunks s ! cid = Some (Dense ws)" by blast
    moreover from this have "cid < DIRECT_CHUNKS" using wf by (simp add: set_wf_def)
    ultimately show ?thesis
      by (simp add: set_id_def set_if_new_def Some p chunk_entry_def dense_insert_def Let_def)
  next
    case False
    then show ?thesis
      by (auto simp: set_id_def set_if_new_def Some p split: option.splits Chunk.splits if_splits)
  qed
qed

interpretation idset: reporting_set set_wf "\<lambda>s. (of_nat :: nat \<Rightarrow> i64) ` ids s" "\<lambda>i. 0 \<le>s i" set_if_new get
proof (unfold_locales, goal_cases)
  case (1 s x)
  then show ?case by (simp add: set_if_new_spec)
next
  case (2 s x)
  then show ?case using set_if_new_spec [OF 2(1), of x] by (simp add: signed_simps)
next
  case (3 s x)
  show ?case using set_if_new_spec [OF 3(1), of x] 3(2) by (simp add: of_nat_ids [OF 3(1)])
next
  case (4 s x)
  show ?case using get_iff [OF 4(1), of x] 4(2) by (simp add: of_nat_ids [OF 4(1)])
qed

section \<open>Pre-allocation and the atomic setters\<close>

interpretation id_sets: id_container set_wf IdSet_new set_id set_if_new get
proof (unfold_locales, goal_cases)
  case (2 i)
  show ?case using get_iff [of IdSet_new i] by simp
next
  case (3 s i)
  then show ?case using set_if_new_spec [OF 3, of i] by (simp add: set_id_eq)
next
  case (4 s i j)
  have wf: "set_wf (set_id s i)" using set_if_new_spec [OF 4, of i] by (simp add: set_id_eq [OF 4])
  have "unat j = unat i \<longleftrightarrow> j = i" by (simp add: word_unat_eq_iff)
  then show ?case
    using set_if_new_spec [OF 4, of i] get_iff [OF wf, of j] get_iff [OF 4, of j]
    by (auto simp: set_id_eq [OF 4] signed_simps)
next
  case (5 s i)
  show ?case
    using set_if_new_spec [OF 5, of i] get_iff [OF 5, of i] by (auto simp: set_id_eq [OF 5] prod_eq_iff)
qed simp

lemma set_wf_iff:
  "set_wf s \<longleftrightarrow> length (chunks s) \<le> DIRECT_CHUNKS \<and> bt_wf (overflow s) \<and>
     (\<forall>k \<in> fst ` set (overflow s). DIRECT_CHUNKS \<le> k \<and> k < 2 ^ 38) \<and>
     (\<forall>cid c. chunk_at s cid = Some c \<longrightarrow> chunk_wf c)"
    (is "_ \<longleftrightarrow> ?R")
proof
  assume "set_wf s"
  moreover from this have "\<forall>cid c. chunk_at s cid = Some c \<longrightarrow> chunk_wf c" using chunk_at_wf by blast
  ultimately show ?R unfolding set_wf_def by force
next
  assume R: ?R
  have "chunk_wf c" if c: "Some c \<in> set (chunks s)" for c
  proof -
    obtain cid where "cid < length (chunks s)" "chunks s ! cid = Some c" using c by (auto simp: in_set_conv_nth)
    then have "chunk_at s cid = Some c" using R by (simp add: chunk_at_direct)
    with R show ?thesis by blast
  qed
  moreover have "chunk_wf c" if "(k, c) \<in> set (overflow s)" for k c
  proof -
    have "DIRECT_CHUNKS \<le> k" using R that by force
    then have "chunk_at s k = Some c" using R that by (simp add: chunk_at_overflow bt_get_Some)
    with R show ?thesis by blast
  qed
  ultimately show "set_wf s" using R by (force simp: set_wf_def)
qed

lemma set_wf_keys: "set_wf s \<Longrightarrow> \<forall>k \<in> fst ` set (overflow s). DIRECT_CHUNKS \<le> k \<and> k < 2 ^ 38"
  unfolding set_wf_iff by blast

lemma pre_allocate_chunks:
  assumes "set_wf s" "split max_id = Some (max_cid, off)"
  shows "set_wf (pre_allocate s max_id)"
    and "chunk_at (pre_allocate s max_id) cid =
      (if cid \<le> max_cid then Some (make_dense (chunk_at s cid)) else chunk_at s cid)"
proof -
  define de where "de = min max_cid (DIRECT_CHUNKS - 1)"
  define cs where "cs = (if length (chunks s) \<le> de then resize_none (de + 1) (chunks s) else chunks s)"
  define kxs where "kxs = map (\<lambda>k. (k, ())) [DIRECT_CHUNKS..<max_cid + 1]"
  define ov where "ov = bt_entries (\<lambda>_. make_dense) (overflow s) kxs"
  have pa: "pre_allocate s max_id = s\<lparr>chunks := map (\<lambda>slot. Some (make_dense slot)) (take (de + 1) cs) @ drop (de + 1) cs,
      overflow := ov\<rparr>"
    by (simp add: pre_allocate_def assms(2) Let_def de_def cs_def ov_def kxs_def foldl_map)
  have bwf: "bt_wf (overflow s)" "length (chunks s) \<le> DIRECT_CHUNKS" "0 < DIRECT_CHUNKS"
    using assms(1) by (auto simp: set_wf_def DIRECT_CHUNKS_def)
  have dm: "distinct (map fst kxs)" "fst ` set kxs = {DIRECT_CHUNKS..max_cid}"
    by (auto simp: o_def kxs_def image_image)
  note ove = bt_entries_spec [OF bwf(1) dm(1), of "\<lambda>_. make_dense", folded ov_def]
  have len: "length cs = max (length (chunks s)) (de + 1)" by (simp add: cs_def max_def)
  have nth: "cs ! k = (if k < length (chunks s) then chunks s ! k else None)" if "k < length cs" for k
    using that by (auto simp: cs_def nth_resize_none split: if_splits)
  have mo: "map_of kxs k = (if DIRECT_CHUNKS \<le> k \<and> k \<le> max_cid then Some () else None)" for k
    by (simp only: kxs_def map_of_map_restrict) (auto simp: restrict_map_def)
  have at: "chunk_at (pre_allocate s max_id) cid =
      (if cid \<le> max_cid then Some (make_dense (chunk_at s cid)) else chunk_at s cid)" for cid
  proof (cases "cid < DIRECT_CHUNKS")
    case True
    then have "cid \<le> max_cid \<longleftrightarrow> cid \<le> de" by (auto simp: de_def)
    with True len nth [of cid] show ?thesis
      by (auto simp: pa chunk_at_direct nth_append min_def max_def)
  next
    case False
    then show ?thesis using ove by (simp add: pa chunk_at_overflow mo)
  qed
  show "chunk_at (pre_allocate s max_id) cid =
      (if cid \<le> max_cid then Some (make_dense (chunk_at s cid)) else chunk_at s cid)" by (rule at)
  have "chunk_wf c" if "chunk_at (pre_allocate s max_id) cid = Some c" for cid c
    using that chunk_at_wf [OF assms(1)] by (auto simp: at make_dense_def split: if_splits option.splits)
  moreover have "\<forall>k \<in> fst ` set ov. DIRECT_CHUNKS \<le> k \<and> k < 2 ^ 38"
  proof -
    have "fst ` set ov = fst ` set (overflow s) \<union> {DIRECT_CHUNKS..max_cid}" using ove [of 0] by (simp only: dm(2))
    then show ?thesis using set_wf_keys [OF assms(1)] split_bounds [OF assms(2)] by auto
  qed
  moreover have "length cs \<le> DIRECT_CHUNKS" using len bwf by (simp add: de_def)
  ultimately show "set_wf (pre_allocate s max_id)"
    unfolding set_wf_iff using ove [of 0] by (simp add: pa)
qed

lemma make_dense_set:
  "(\<And>c. slot = Some c \<Longrightarrow> chunk_wf c) \<Longrightarrow> chunk_set (make_dense slot) = (case slot of None \<Rightarrow> {} | Some c \<Rightarrow> chunk_set c)"
  by (auto simp: make_dense_def split: option.splits)

lemma pre_allocate_spec:
  assumes "set_wf s"
  shows "set_wf (pre_allocate s max_id) \<and> ids (pre_allocate s max_id) = ids s"
proof (cases "split max_id")
  case None
  then show ?thesis using assms by (simp add: pre_allocate_def)
next
  case (Some p)
  obtain max_cid off where sp: "split max_id = Some (max_cid, off)" using Some by (cases p) simp
  have "members_at (pre_allocate s max_id) cid = members_at s cid" for cid
    using pre_allocate_chunks(2) [OF assms sp, of cid] make_dense_set [of "chunk_at s cid"] chunk_at_wf [OF assms, of cid]
    by (auto simp: members_at_def)
  then show ?thesis using pre_allocate_chunks(1) [OF assms sp] by (simp add: ids_def)
qed

text \<open>The IDs an atomic setter can write: the chunk exists and is a bit array.\<close>

definition covered :: "IdSet \<Rightarrow> i64 \<Rightarrow> bool" where
  "covered s i \<longleftrightarrow> 0 \<le>s i \<and> (\<exists>ws. chunk_at s (unat i div CHUNK_IDS) = Some (Dense ws))"

lemma dense_for_atomic_Some:
  "dense_for_atomic s i = Some (cid, ws, off) \<longleftrightarrow>
    split i = Some (cid, off) \<and> chunk_at s cid = Some (Dense ws)"
  by (auto simp: dense_for_atomic_def chunk_at_def split: option.splits Chunk.splits)

lemma covered_iff: "covered s i \<longleftrightarrow> dense_for_atomic s i \<noteq> None"
proof
  assume "covered s i"
  then obtain ws where "chunk_at s (unat i div CHUNK_IDS) = Some (Dense ws)" "0 \<le>s i" by (auto simp: covered_def)
  then have "dense_for_atomic s i = Some (unat i div CHUNK_IDS, ws, unat i mod CHUNK_IDS)"
    by (simp add: dense_for_atomic_Some split_Some)
  then show "dense_for_atomic s i \<noteq> None" by simp
next
  assume "dense_for_atomic s i \<noteq> None"
  then obtain cid ws off where "dense_for_atomic s i = Some (cid, ws, off)" by (auto simp: prod_eq_iff)
  then show "covered s i" by (auto simp: dense_for_atomic_Some split_Some covered_def)
qed

text \<open>On a covered ID the atomic setters do exactly what the exclusive ones do.\<close>

lemma atomic_eq:
  assumes "set_wf s" "covered s i"
  shows "set_atomic_if_new_checked s i = (fst (set_if_new s i), Some (snd (set_if_new s i)))"
    "set_atomic_checked s i = (fst (set_if_new s i), True)"
    "set_atomic s i = Some (fst (set_if_new s i))"
    "set_atomic_if_new s i = Some (set_if_new s i)"
proof -
  obtain cid ws off where d: "dense_for_atomic s i = Some (cid, ws, off)"
    using assms(2) unfolding covered_iff by (metis prod_cases3 option.exhaust)
  then have sp: "split i = Some (cid, off)" and c: "chunk_at s cid = Some (Dense ws)"
    by (simp_all add: dense_for_atomic_Some)
  have "set_if_new s i = (write_words s cid (ws[off div 64 := ws ! (off div 64) OR push_bit (off mod 64) 1]),
      ws ! (off div 64) AND push_bit (off mod 64) 1 = 0)"
    using c by (cases "cid < DIRECT_CHUNKS")
      (auto simp: set_if_new_def sp chunk_entry_def write_words_def chunk_at_direct chunk_at_overflow dense_insert_def
        Let_def split: if_splits)
  then show "set_atomic_if_new_checked s i = (fst (set_if_new s i), Some (snd (set_if_new s i)))"
    "set_atomic_checked s i = (fst (set_if_new s i), True)"
    "set_atomic s i = Some (fst (set_if_new s i))"
    "set_atomic_if_new s i = Some (set_if_new s i)"
    by (simp_all add: set_atomic_if_new_checked_def set_atomic_checked_def set_atomic_def set_atomic_if_new_def
        d fetch_or_def Let_def)
qed

lemma set_if_new_covered:
  assumes "set_wf s" "covered s i" "covered s j"
  shows "covered (fst (set_if_new s i)) j"
proof -
  obtain cid ws off where d: "dense_for_atomic s i = Some (cid, ws, off)"
    using assms(2) unfolding covered_iff by (metis prod_cases3 option.exhaust)
  then have sp: "split i = Some (cid, off)" and c: "chunk_at s cid = Some (Dense ws)"
    by (simp_all add: dense_for_atomic_Some)
  have "chunk_wf (fst (chunk_insert (chunk_or_new s cid) off))"
    using chunk_insert_spec [OF chunk_at_wf [OF assms(1) c], of off] split_bounds [OF sp] c by simp
  from chunk_entry_spec [OF assms(1), of cid "\<lambda>c. chunk_insert c off", OF _ this] split_bounds [OF sp]
  have "chunk_at (fst (set_if_new s i)) = (chunk_at s)(cid := Some (Dense (fst (dense_insert ws off))))"
    using c by (simp add: set_if_new_def sp split_beta Let_def)
  then show ?thesis using assms(3) by (auto simp: covered_def)
qed

lemma pre_allocate_covers:
  assumes "set_wf s" "0 \<le>s i" "i \<le>s max_id"
  shows "covered (pre_allocate s max_id) i"
proof -
  have "0 \<le>s max_id" using assms(2,3) by (simp add: signed_simps)
  then obtain max_cid off where sp: "split max_id = Some (max_cid, off)" by (simp add: split_Some)
  have "unat i \<le> unat max_id"
    using nonneg_unat [OF assms(2)] nonneg_unat [OF \<open>0 \<le>s max_id\<close>] assms(3)
    by (simp only: signed_simps zle_int [symmetric])
  then have "unat i div CHUNK_IDS \<le> max_cid" using sp by (auto simp: split_Some intro: div_le_mono)
  moreover have "\<exists>ws. make_dense slot = Dense ws" for slot
    by (cases slot; simp add: make_dense_def) (metis Chunk.exhaust promote.simps)
  ultimately show ?thesis
    using assms(2) pre_allocate_chunks(2) [OF assms(1) sp] by (simp add: covered_def)
qed

text \<open>Writer threads through a shared reference: their atomic inserts in some order.\<close>

fun atomic_run :: "IdSet \<Rightarrow> i64 list \<Rightarrow> (IdSet \<times> bool list) option" where
  "atomic_run s [] = Some (s, [])"
| "atomic_run s (i # is) =
     (case set_atomic_if_new s i of
        None \<Rightarrow> None
      | Some (s', new) \<Rightarrow> map_option (\<lambda>(s'', news). (s'', new # news)) (atomic_run s' is))"

lemma atomic_run_eq:
  "set_wf s \<Longrightarrow> \<forall>i \<in> set is. covered s i \<Longrightarrow> atomic_run s is = Some (add_run set_if_new s is)"
proof (induction "is" arbitrary: s)
  case (Cons i "is")
  then have "\<forall>j \<in> set is. covered (fst (set_if_new s i)) j" "set_wf (fst (set_if_new s i))"
    using set_if_new_covered set_if_new_spec by auto
  with Cons show ?case
    by (simp add: atomic_eq(4) split_beta Let_def)
qed simp

section \<open>Merging\<close>

text \<open>
  What either merge asks of the chunk level: \<open>join\<close> unites two chunks, \<open>adopt\<close> takes a
  source chunk into an empty slot. The borrowing and the consuming merge differ only here.
\<close>

locale chunk_join =
  fixes join :: "Chunk \<Rightarrow> Chunk \<Rightarrow> Chunk"
    and adopt :: "Chunk \<Rightarrow> Chunk"
  assumes join_wf: "chunk_wf a \<Longrightarrow> chunk_wf b \<Longrightarrow> chunk_wf (join a b)"
    and join_set: "chunk_wf a \<Longrightarrow> chunk_wf b \<Longrightarrow> chunk_set (join a b) = chunk_set a \<union> chunk_set b"
    and adopt_wf: "chunk_wf a \<Longrightarrow> chunk_wf (adopt a)"
    and adopt_set: "chunk_wf a \<Longrightarrow> chunk_set (adopt a) = chunk_set a"
begin

lemma merge_chunks:
  assumes "set_wf s" "set_wf t"
  shows "chunk_at (merge_with join adopt s t) cid = merge_slot join adopt (chunk_at s cid) (chunk_at t cid)"
    and "set_wf (merge_with join adopt s t)"
proof -
  define cs where "cs = (if length (chunks s) < length (chunks t) then resize_none (length (chunks t)) (chunks s) else chunks s)"
  define ov where "ov = bt_entries (\<lambda>src e. case e of Some dst \<Rightarrow> join dst src | None \<Rightarrow> adopt src) (overflow s) (overflow t)"
  let ?cs = "map2 (merge_slot join adopt) cs (chunks t) @ drop (length (chunks t)) cs"
  have m: "merge_with join adopt s t = s\<lparr>chunks := ?cs, overflow := ov\<rparr>"
    by (simp add: merge_with_def Let_def cs_def ov_def)
  have len: "length cs = max (length (chunks s)) (length (chunks t))" by (simp add: cs_def max_def)
  have nth: "cs ! k = (if k < length (chunks s) then chunks s ! k else None)" if "k < length cs" for k
    using that by (auto simp: cs_def nth_resize_none split: if_splits)
  have wfs: "bt_wf (overflow s)" "bt_wf (overflow t)" "distinct (map fst (overflow t))"
    using assms by (auto simp: set_wf_def bt_wf_def strict_sorted_iff)
  note ove = bt_entries_spec [OF wfs(1,3), of "\<lambda>src e. case e of Some dst \<Rightarrow> join dst src | None \<Rightarrow> adopt src", folded ov_def]
  have at: "chunk_at (merge_with join adopt s t) cid = merge_slot join adopt (chunk_at s cid) (chunk_at t cid)" for cid
  proof (cases "cid < DIRECT_CHUNKS")
    case True
    with len nth [of cid] show ?thesis
      by (auto simp: m chunk_at_direct nth_append merge_slot_def)
  next
    case False
    then show ?thesis using ove [of cid] by (simp add: m chunk_at_overflow merge_slot_def split: option.splits)
  qed
  show "chunk_at (merge_with join adopt s t) cid = merge_slot join adopt (chunk_at s cid) (chunk_at t cid)"
    by (rule at)
  have "chunk_wf c" if "chunk_at (merge_with join adopt s t) cid = Some c" for cid c
    using that chunk_at_wf [OF assms(1), of cid] chunk_at_wf [OF assms(2), of cid]
    by (auto simp: at merge_slot_def join_wf adopt_wf split: option.splits)
  moreover have "fst ` set ov = fst ` set (overflow s) \<union> fst ` set (overflow t)" using ove [of 0] by simp
  then have "\<forall>k \<in> fst ` set ov. DIRECT_CHUNKS \<le> k \<and> k < 2 ^ 38"
    using set_wf_keys [OF assms(1)] set_wf_keys [OF assms(2)] by auto
  moreover have "length ?cs \<le> DIRECT_CHUNKS" using len assms by (simp add: set_wf_def)
  ultimately show "set_wf (merge_with join adopt s t)"
    unfolding set_wf_iff using ove [of 0] by (simp add: m)
qed

lemma merge_ids:
  assumes "set_wf s" "set_wf t"
  shows "set_wf (merge_with join adopt s t) \<and> ids (merge_with join adopt s t) = ids s \<union> ids t"
proof -
  have "members_at (merge_with join adopt s t) cid = members_at s cid \<union> members_at t cid" for cid
    using chunk_at_wf [OF assms(1), of cid] chunk_at_wf [OF assms(2), of cid]
    by (auto simp: members_at_def merge_chunks(1) [OF assms] merge_slot_def join_set adopt_set split: option.splits)
  then show ?thesis using merge_chunks(2) [OF assms] ids_union by blast
qed

end

interpretation by_ref: chunk_join union_ref clone_chunk
  by unfold_locales (simp_all add: union_ref_spec)

interpretation by_move: chunk_join union_owned "\<lambda>c. c"
  by unfold_locales (simp_all add: union_owned_spec)

section \<open>The chunks in order\<close>

definition pairs :: "IdSet \<Rightarrow> (nat \<times> Chunk) list" where
  "pairs s = direct_pairs 0 (chunks s) @ overflow s"

lemma direct_pairs_simps [simp]:
  "direct_pairs n [] = []"
  "direct_pairs n (c # cs) = (case c of None \<Rightarrow> [] | Some c \<Rightarrow> [(n, c)]) @ direct_pairs (Suc n) cs"
  by (auto simp: direct_pairs_def List.map_filter_def split: option.splits)

lemma direct_pairs_spec:
  "bt_wf (direct_pairs n cs) \<and> (\<forall>k \<in> fst ` set (direct_pairs n cs). n \<le> k \<and> k < n + length cs) \<and>
   (\<forall>k c. (k, c) \<in> set (direct_pairs n cs) \<longleftrightarrow> n \<le> k \<and> k < n + length cs \<and> cs ! (k - n) = Some c)"
proof (induction cs arbitrary: n)
  case (Cons c cs)
  have "n \<le> k \<and> k < n + length (c # cs) \<and> (c # cs) ! (k - n) = Some d \<longleftrightarrow>
      k = n \<and> c = Some d \<or> Suc n \<le> k \<and> k < Suc n + length cs \<and> cs ! (k - Suc n) = Some d" for k d
    by (cases "k = n") (auto simp: nth_Cons' Suc_diff_Suc)
  with Cons [of "Suc n"] show ?case by (cases c) (force simp: less_eq_Suc_le)+
qed simp

lemma bt_wf_append: "bt_wf xs \<Longrightarrow> bt_wf ys \<Longrightarrow> \<forall>a \<in> fst ` set xs. \<forall>b \<in> fst ` set ys. a < b \<Longrightarrow> bt_wf (xs @ ys)"
  by (auto simp: bt_wf_def sorted_wrt_append)

lemma pairs_spec:
  assumes "set_wf s"
  shows "bt_wf (pairs s)" "(k, c) \<in> set (pairs s) \<longleftrightarrow> chunk_at s k = Some c"
proof -
  note d = direct_pairs_spec [of 0 "chunks s"]
  have o: "bt_wf (overflow s)" "\<forall>k \<in> fst ` set (overflow s). DIRECT_CHUNKS \<le> k" "length (chunks s) \<le> DIRECT_CHUNKS"
    using assms set_wf_keys [OF assms] by (auto simp: set_wf_def)
  show "bt_wf (pairs s)"
    unfolding pairs_def using d o by (intro bt_wf_append) fastforce+
  show "(k, c) \<in> set (pairs s) \<longleftrightarrow> chunk_at s k = Some c"
  proof (cases "k < DIRECT_CHUNKS")
    case True
    then have "(k, c) \<notin> set (overflow s)" using o(2) by force
    with True d show ?thesis by (auto simp: pairs_def chunk_at_direct)
  next
    case False
    with d o(3) have "(k, c) \<notin> set (direct_pairs 0 (chunks s))" by force
    with False o(1) show ?thesis by (simp add: pairs_def chunk_at_overflow bt_get_Some)
  qed
qed

lemma pairs_wf: "set_wf s \<Longrightarrow> (k, c) \<in> set (pairs s) \<Longrightarrow> chunk_wf c"
  using pairs_spec(2) chunk_at_wf by blast

text \<open>The IDs of a list of keyed chunks, and how a smaller bound cuts them.\<close>

definition span :: "(nat \<times> Chunk) list \<Rightarrow> nat set" where
  "span ps = {x. \<exists>c. (x div CHUNK_IDS, c) \<in> set ps \<and> x mod CHUNK_IDS \<in> chunk_set c}"

lemma ids_span: "set_wf s \<Longrightarrow> ids s = span (pairs s)"
  by (auto simp: ids_def span_def pairs_spec(2) members_at_def split: option.splits)

section \<open>Iteration\<close>

definition chunk_nats :: "nat \<times> Chunk \<Rightarrow> nat list" where
  "chunk_nats p = map (\<lambda>off. fst p * CHUNK_IDS + off) (collect_offsets (offsets (snd p)))"

lemma chunk_ids_of_nats: "chunk_ids_of = (\<lambda>p. map of_nat (chunk_nats p))"
  by (rule ext) (simp add: chunk_ids_of_def chunk_nats_def ID_SHIFT_def push_bit_eq_mult Let_def)

definition all_wf :: "(nat \<times> Chunk) list \<Rightarrow> bool" where
  "all_wf ps \<longleftrightarrow> bt_wf ps \<and> (\<forall>(k, c) \<in> set ps. chunk_wf c)"

lemma all_wf_Cons [simp]:
  "all_wf []" "all_wf ((k, c) # ps) \<longleftrightarrow> (\<forall>k' \<in> fst ` set ps. k < k') \<and> chunk_wf c \<and> all_wf ps"
  by (auto simp: all_wf_def)

lemma pairs_all_wf: "set_wf s \<Longrightarrow> all_wf (pairs s)"
  using pairs_wf pairs_spec(1) by (auto simp: all_wf_def)

lemma span_Cons: "chunk_wf c \<Longrightarrow> span ((k, c) # ps) = (\<lambda>off. k * CHUNK_IDS + off) ` chunk_set c \<union> span ps"
proof -
  assume wf: "chunk_wf c"
  have "x div CHUNK_IDS = k \<and> x mod CHUNK_IDS \<in> chunk_set c \<longleftrightarrow> x \<in> (\<lambda>off. k * CHUNK_IDS + off) ` chunk_set c" for x
  proof
    assume "x div CHUNK_IDS = k \<and> x mod CHUNK_IDS \<in> chunk_set c"
    then show "x \<in> (\<lambda>off. k * CHUNK_IDS + off) ` chunk_set c" by (intro image_eqI [of _ _ "x mod CHUNK_IDS"]) auto
  next
    assume "x \<in> (\<lambda>off. k * CHUNK_IDS + off) ` chunk_set c"
    then show "x div CHUNK_IDS = k \<and> x mod CHUNK_IDS \<in> chunk_set c" using chunk_set_bound [OF wf] by auto
  qed
  then show ?thesis by (auto simp: span_def)
qed

lemma span_Nil [simp]: "span [] = {}"
  by (simp add: span_def)

lemma chunk_nats_spec:
  assumes "chunk_wf c"
  shows "set (chunk_nats (k, c)) = (\<lambda>off. k * CHUNK_IDS + off) ` chunk_set c" "sorted_wrt (<) (chunk_nats (k, c))"
  using collect_offsets_spec [OF assms] by (auto simp: chunk_nats_def sorted_wrt_map)

lemma concat_nats:
  "all_wf ps \<Longrightarrow> set (concat (map chunk_nats ps)) = span ps \<and> sorted_wrt (<) (concat (map chunk_nats ps))"
proof (induction ps)
  case (Cons p ps)
  obtain k c where p: "p = (k, c)" by (cases p)
  with Cons.prems have wf: "chunk_wf c" "all_wf ps" and lt: "\<forall>k' \<in> fst ` set ps. k < k'" by auto
  have "x < y" if "x \<in> set (chunk_nats (k, c))" "y \<in> span ps" for x y
  proof -
    have "x div CHUNK_IDS = k" using that(1) chunk_set_bound [OF wf(1)] by (auto simp: chunk_nats_spec [OF wf(1)])
    moreover have "k < y div CHUNK_IDS" using that(2) lt by (force simp: span_def)
    ultimately show ?thesis by (metis div_le_mono not_le)
  qed
  then show ?case
    using Cons.IH [OF wf(2)] chunk_nats_spec [OF wf(1), of k] by (auto simp: p sorted_wrt_append span_Cons [OF wf(1)])
qed simp

abbreviation nats :: "IdSet \<Rightarrow> nat list" where
  "nats s \<equiv> concat (map chunk_nats (pairs s))"

lemma nats_spec: "set_wf s \<Longrightarrow> set (nats s) = ids s \<and> sorted_wrt (<) (nats s)"
  using concat_nats [OF pairs_all_wf] ids_span by simp

lemma iter_nats: "iter s = map of_nat (nats s)"
  by (simp add: iter_def pairs_def chunk_ids_of_nats map_concat o_def)

lemma finite_ids: "set_wf s \<Longrightarrow> finite (ids s)"
  using nats_spec finite_set by metis

lemma nats_sorted_list: "set_wf s \<Longrightarrow> nats s = sorted_list_of_set (ids s)"
  by (metis nats_spec distinct_remdups_id sorted_list_of_set_sort_remdups sorted_sort_id strict_sorted_iff)

lemma iter_unat: "set_wf s \<Longrightarrow> map unat (iter s) = sorted_list_of_set (ids s)"
proof -
  assume wf: "set_wf s"
  then have "map unat (iter s) = map (\<lambda>x. x) (nats s)"
    using nats_spec [OF wf] ids_bound [OF wf] unfolding iter_nats map_map o_def
    by (intro map_cong refl unat_of_nat_id) blast
  then show ?thesis using nats_sorted_list [OF wf] by simp
qed

lemma sint_of_nat_id: "x < 2 ^ 63 \<Longrightarrow> sint (of_nat x :: i64) = int x"
  by (simp add: sint_uint unsigned_of_nat take_bit_nat_eq_self take_bit_int_eq_self signed_take_bit_int_eq_self)

lemma direct_pairs_drop: "direct_pairs (n + f) (drop f cs) = filter (\<lambda>(k, _). n + f \<le> k) (direct_pairs n cs)"
proof (induction f arbitrary: n cs)
  case 0
  have "filter (\<lambda>(k, _). n \<le> k) (direct_pairs n cs) = direct_pairs n cs"
    using direct_pairs_spec [of n cs] by (intro filter_True) (auto simp: split_beta)
  then show ?case by simp
next
  case (Suc f)
  show ?case
  proof (cases cs)
    case (Cons c cs')
    with Suc.IH [of "Suc n" cs'] show ?thesis by (auto split: option.splits)
  qed simp
qed

lemma iter_from_filter:
  assumes wf: "set_wf s"
  shows "iter_from s start = filter (\<lambda>i. start \<le>s i) (iter s)"
proof -
  define f where "f = unat (drop_bit ID_SHIFT (smax start 0))"
  have nn: "0 \<le>s smax start 0" by (simp add: signed_simps)
  then have "split (smax start 0) = Some (f, unat (smax start 0 AND OFFSET_MASK))"
    by (simp add: split_def f_def signed_simps)
  then have sf: "f = unat (smax start 0) div CHUNK_IDS" by (simp add: split_Some)
  have skip: "direct_pairs f (drop f (chunks s)) @ filter (\<lambda>(cid, _). max f DIRECT_CHUNKS \<le> cid) (overflow s) =
      filter (\<lambda>(k, _). f \<le> k) (pairs s)"
  proof -
    have "filter (\<lambda>(cid, _). max f DIRECT_CHUNKS \<le> cid) (overflow s) = filter (\<lambda>(k, _). f \<le> k) (overflow s)"
      using set_wf_keys [OF wf] by (intro filter_cong) (auto simp: split_beta)
    then show ?thesis using direct_pairs_drop [of 0 f "chunks s"] by (simp add: pairs_def)
  qed
  have below: "\<not> start \<le>s of_nat x" if "x \<in> set (chunk_nats (k, c))" "k < f" "(k, c) \<in> set (pairs s)" for x k c
  proof -
    have wfc: "chunk_wf c" using pairs_wf [OF wf that(3)] .
    have "x div CHUNK_IDS = k" using that(1) chunk_set_bound [OF wfc] by (auto simp: chunk_nats_spec [OF wfc])
    then have "x div CHUNK_IDS < unat (smax start 0) div CHUNK_IDS"
      using that(2) sf by simp
    then have lt: "x < unat (smax start 0)" by (metis div_le_mono not_le)
    moreover have "unat (smax start 0) < 2 ^ 63" "int (unat (smax start 0)) = max (sint start) 0"
      using nonneg_unat [OF nn] by simp_all
    ultimately have "x < 2 ^ 63" "int x < sint start" using lt by linarith+
    then show ?thesis by (simp add: signed_simps sint_of_nat_id)
  qed
  have "filter (\<lambda>i. start \<le>s i) (concat (map chunk_ids_of (filter (\<lambda>(k, _). f \<le> k) ps))) =
      filter (\<lambda>i. start \<le>s i) (concat (map chunk_ids_of ps))" if "set ps \<subseteq> set (pairs s)" for ps
    using that
  proof (induction ps)
    case (Cons p ps)
    obtain k c where p: "p = (k, c)" by (cases p)
    have "filter (\<lambda>i. start \<le>s i) (chunk_ids_of (k, c)) = []" if "k < f"
      using below [of _ k c] that Cons.prems p by (auto simp: chunk_ids_of_nats filter_empty_conv)
    with Cons p show ?case by auto
  qed simp
  from this [of "pairs s"] show ?thesis
    unfolding iter_from_def Let_def f_def [symmetric] skip iter_def pairs_def [symmetric] by simp
qed

section \<open>Range queries\<close>

lemma offset_mask: "unat OFFSET_MASK = CHUNK_IDS - 1"
  by (simp add: OFFSET_MASK_def ID_SHIFT_def)

lemma list_ex_upto: "list_ex P [a..<Suc n] \<longleftrightarrow> (\<exists>k. a \<le> k \<and> k \<le> n \<and> P k)"
  by (auto simp: list_ex_iff Bex_def less_Suc_eq_le)

lemma case_option_ex: "(case x of None \<Rightarrow> False | Some c \<Rightarrow> Q c) \<longleftrightarrow> (\<exists>c. x = Some c \<and> Q c)"
  by (auto split: option.splits)

lemma list_ex_filter: "list_ex P (filter Q xs) \<longleftrightarrow> (\<exists>x \<in> set xs. Q x \<and> P x)"
  by (auto simp: list_ex_iff)

lemma any_in_range_chunks:
  assumes wf: "set_wf s" and sp: "split (smax lo 0) = Some (a, ao)" "split hi = Some (b, bo)"
    and ok: "lo \<le>s hi" "0 \<le>s hi"
  defines "l \<equiv> \<lambda>k. if k = a then ao else 0" and "h \<equiv> \<lambda>k. if k = b then bo else CHUNK_IDS - 1"
  shows "any_in_range s lo hi \<longleftrightarrow>
    (\<exists>k c. chunk_at s k = Some c \<and> a \<le> k \<and> k \<le> b \<and> any_in c (l k) (h k))"
proof -
  have len: "length (chunks s) \<le> DIRECT_CHUNKS" using wf by (simp add: set_wf_def)
  have ne: "\<not> (hi <s lo \<or> hi <s 0)" using ok by (auto simp: signed_simps)
  have "any_in_range s lo hi \<longleftrightarrow>
      (a < DIRECT_CHUNKS \<and> chunks s \<noteq> [] \<and>
        (\<exists>k. a \<le> k \<and> k \<le> min b (length (chunks s) - 1) \<and> (\<exists>c. chunks s ! k = Some c \<and> any_in c (l k) (h k)))) \<or>
      (DIRECT_CHUNKS \<le> b \<and> (\<exists>x \<in> set (overflow s). max a DIRECT_CHUNKS \<le> fst x \<and> fst x \<le> b \<and> any_in (snd x) (l (fst x)) (h (fst x))))"
    unfolding any_in_range_def sp if_not_P [OF ne] option.case prod.case Let_def list_ex_upto case_option_ex
      list_ex_filter offset_mask fst_conv snd_conv l_def h_def
    by (simp only: split_beta conj_assoc option.inject fst_conv snd_conv simp_thms)
  also have "\<dots> \<longleftrightarrow> (\<exists>k c. chunk_at s k = Some c \<and> a \<le> k \<and> k \<le> b \<and> any_in c (l k) (h k))"
  proof (intro iffI, goal_cases)
    case 1
    then show ?case
    proof (elim disjE)
      assume "a < DIRECT_CHUNKS \<and> chunks s \<noteq> [] \<and>
        (\<exists>k. a \<le> k \<and> k \<le> min b (length (chunks s) - 1) \<and> (\<exists>c. chunks s ! k = Some c \<and> any_in c (l k) (h k)))"
      then obtain k c where k: "a \<le> k" "k \<le> b" "k < length (chunks s)" "chunks s ! k = Some c" "any_in c (l k) (h k)"
        by (cases "chunks s") auto
      moreover have "chunk_at s k = Some c" using k len by (simp add: chunk_at_direct)
      ultimately show ?thesis by blast
    next
      assume "DIRECT_CHUNKS \<le> b \<and> (\<exists>x \<in> set (overflow s). max a DIRECT_CHUNKS \<le> fst x \<and> fst x \<le> b \<and> any_in (snd x) (l (fst x)) (h (fst x)))"
      then obtain k c where k: "(k, c) \<in> set (overflow s)" "a \<le> k" "DIRECT_CHUNKS \<le> k" "k \<le> b" "any_in c (l k) (h k)"
        by auto
      moreover have "chunk_at s k = Some c" using k wf by (simp add: chunk_at_overflow bt_get_Some set_wf_def)
      ultimately show ?thesis by blast
    qed
  next
    case 2
    then obtain k c where k: "chunk_at s k = Some c" "a \<le> k" "k \<le> b" "any_in c (l k) (h k)" by blast
    show ?case
    proof (cases "k < DIRECT_CHUNKS")
      case True
      then have "k < length (chunks s)" "chunks s ! k = Some c"
        using k(1) by (auto simp: chunk_at_direct split: if_splits)
      with True k show ?thesis by (cases "chunks s") auto
    next
      case False
      then have "(k, c) \<in> set (overflow s)" using k(1) wf by (simp add: chunk_at_overflow bt_get_Some set_wf_def)
      with False k show ?thesis by (intro disjI2) (auto intro!: bexI [of _ "(k, c)"])
    qed
  qed
  finally show ?thesis .
qed

lemma any_in_range_spec:
  assumes wf: "set_wf s"
  shows "any_in_range s lo hi \<longleftrightarrow> (\<exists>x \<in> ids s. sint lo \<le> int x \<and> int x \<le> sint hi)"
proof (cases "lo \<le>s hi \<and> 0 \<le>s hi")
  case False
  then show ?thesis by (auto simp: any_in_range_def signed_simps)
next
  case True
  then have nn: "0 \<le>s smax lo 0" by (simp add: signed_simps)
  define A B where "A = unat (smax lo 0)" and "B = unat hi"
  define a ao b bo where "a = A div CHUNK_IDS" and "ao = A mod CHUNK_IDS" and "b = B div CHUNK_IDS" and "bo = B mod CHUNK_IDS"
  have sp: "split (smax lo 0) = Some (a, ao)" "split hi = Some (b, bo)"
    using True nn by (simp_all add: split_Some a_def ao_def b_def bo_def A_def B_def)
  have int: "int A = max (sint lo) 0" "int B = sint hi"
    using nonneg_unat [OF nn] nonneg_unat [of hi] True by (simp_all add: A_def B_def)
  then have AB: "A \<le> B" using True by (simp add: signed_simps)
  have split: "A = a * CHUNK_IDS + ao" "B = b * CHUNK_IDS + bo" "ao < CHUNK_IDS" "bo < CHUNK_IDS"
    by (simp_all add: a_def ao_def b_def bo_def)
  let ?l = "\<lambda>k. if k = a then ao else 0" and ?h = "\<lambda>k. if k = b then bo else CHUNK_IDS - 1"
  have clip: "A \<le> x \<and> x \<le> B \<longleftrightarrow> a \<le> x div CHUNK_IDS \<and> x div CHUNK_IDS \<le> b \<and>
      ?l (x div CHUNK_IDS) \<le> x mod CHUNK_IDS \<and> x mod CHUNK_IDS \<le> ?h (x div CHUNK_IDS)" for x
  proof -
    define k r where "k = x div CHUNK_IDS" and "r = x mod CHUNK_IDS"
    have x: "x = k * CHUNK_IDS + r" "r < CHUNK_IDS" by (simp_all add: k_def r_def)
    show ?thesis unfolding k_def [symmetric] r_def [symmetric] using x split by auto
  qed
  have lh: "?l k \<le> ?h k" "?h k < CHUNK_IDS" if "a \<le> k" "k \<le> b" for k
    using AB split that by auto
  have "any_in_range s lo hi \<longleftrightarrow> (\<exists>k c. chunk_at s k = Some c \<and> a \<le> k \<and> k \<le> b \<and> any_in c (?l k) (?h k))"
    using any_in_range_chunks [OF wf sp] True by blast
  also have "\<dots> \<longleftrightarrow> (\<exists>k c. chunk_at s k = Some c \<and> a \<le> k \<and> k \<le> b \<and> (\<exists>o' \<in> chunk_set c. ?l k \<le> o' \<and> o' \<le> ?h k))"
    using any_in_spec [OF chunk_at_wf [OF wf] lh] by blast
  also have "\<dots> \<longleftrightarrow> (\<exists>x \<in> ids s. A \<le> x \<and> x \<le> B)"
  proof
    assume "\<exists>k c. chunk_at s k = Some c \<and> a \<le> k \<and> k \<le> b \<and> (\<exists>o' \<in> chunk_set c. ?l k \<le> o' \<and> o' \<le> ?h k)"
    then obtain k c o' where k: "chunk_at s k = Some c" "a \<le> k" "k \<le> b" "o' \<in> chunk_set c" "?l k \<le> o'" "o' \<le> ?h k"
      by blast
    have o': "o' < CHUNK_IDS" using chunk_set_bound [OF chunk_at_wf [OF wf k(1)] k(4)] .
    let ?x = "k * CHUNK_IDS + o'"
    have "?x div CHUNK_IDS = k" "?x mod CHUNK_IDS = o'" using o' by auto
    with k clip [of ?x] show "\<exists>x \<in> ids s. A \<le> x \<and> x \<le> B"
      by (intro bexI [of _ ?x]) (simp_all add: ids_def members_at_def)
  next
    assume "\<exists>x \<in> ids s. A \<le> x \<and> x \<le> B"
    then obtain x where x: "x \<in> ids s" "A \<le> x" "x \<le> B" by blast
    then obtain c where "chunk_at s (x div CHUNK_IDS) = Some c" "x mod CHUNK_IDS \<in> chunk_set c"
      by (auto simp: ids_def members_at_def split: option.splits)
    with x clip [of x] show "\<exists>k c. chunk_at s k = Some c \<and> a \<le> k \<and> k \<le> b \<and> (\<exists>o' \<in> chunk_set c. ?l k \<le> o' \<and> o' \<le> ?h k)"
      by blast
  qed
  also have "\<dots> \<longleftrightarrow> (\<exists>x \<in> ids s. sint lo \<le> int x \<and> int x \<le> sint hi)"
  proof -
    have "A \<le> x \<and> x \<le> B \<longleftrightarrow> sint lo \<le> int x \<and> int x \<le> sint hi" for x
      using int by linarith
    then show ?thesis by blast
  qed
  finally show ?thesis .
qed

section \<open>Rank\<close>

abbreviation weight :: "(nat \<times> Chunk) list \<Rightarrow> nat" where
  "weight ps \<equiv> sum_list (map (\<lambda>p. card (chunk_set (snd p))) ps)"

lemma card_span: "all_wf ps \<Longrightarrow> finite (span ps) \<and> card (span ps) = weight ps"
proof (induction ps)
  case (Cons p ps)
  obtain k c where p: "p = (k, c)" by (cases p)
  with Cons.prems have wf: "chunk_wf c" "all_wf ps" and lt: "\<forall>k' \<in> fst ` set ps. k < k'" by auto
  have "(\<lambda>off. k * CHUNK_IDS + off) ` chunk_set c \<inter> span ps = {}"
    using lt chunk_set_bound [OF wf(1)] by (fastforce simp: span_def)
  moreover have "card ((\<lambda>off. k * CHUNK_IDS + off) ` chunk_set c) = card (chunk_set c)"
    by (intro card_image inj_onI) simp
  ultimately show ?case
    using Cons.IH [OF wf(2)] by (simp add: p span_Cons [OF wf(1)] card_Un_disjoint)
qed simp

lemma card_span_below:
  assumes "all_wf ps" "off < CHUNK_IDS"
  shows "card {x \<in> span ps. x < k * CHUNK_IDS + off} =
    weight (filter (\<lambda>p. fst p < k) ps) +
    (case map_of ps k of None \<Rightarrow> 0 | Some c \<Rightarrow> card {y \<in> chunk_set c. y < off})"
proof -
  let ?low = "filter (\<lambda>p. fst p < k) ps"
  define T where "T = (case map_of ps k of None \<Rightarrow> {} | Some c \<Rightarrow> {y \<in> chunk_set c. y < off})"
  have low: "all_wf ?low" using assms(1) by (auto simp: all_wf_def bt_wf_filter)
  have at: "map_of ps k = Some c \<longleftrightarrow> (k, c) \<in> set ps" for c
    using assms(1) by (simp add: all_wf_def bt_get_Some)
  have "x \<in> {x \<in> span ps. x < k * CHUNK_IDS + off} \<longleftrightarrow> x \<in> span ?low \<union> (\<lambda>y. k * CHUNK_IDS + y) ` T" for x
  proof -
    define q r where "q = x div CHUNK_IDS" and "r = x mod CHUNK_IDS"
    have x: "x = q * CHUNK_IDS + r" "r < CHUNK_IDS" by (simp_all add: q_def r_def)
    have "x < k * CHUNK_IDS + off \<longleftrightarrow> q < k \<or> q = k \<and> r < off" using x assms(2) by auto
    moreover have "x \<in> span ps \<longleftrightarrow> (\<exists>c. (q, c) \<in> set ps \<and> r \<in> chunk_set c)"
      "x \<in> span ?low \<longleftrightarrow> q < k \<and> (\<exists>c. (q, c) \<in> set ps \<and> r \<in> chunk_set c)"
      by (auto simp: span_def q_def r_def)
    moreover have "y < CHUNK_IDS" if "y \<in> T" for y
      using that assms(2) by (auto simp: T_def split: option.splits)
    then have "x \<in> (\<lambda>y. k * CHUNK_IDS + y) ` T \<longleftrightarrow> q = k \<and> r \<in> T"
      unfolding q_def r_def by (auto intro: image_eqI [of _ _ "x mod CHUNK_IDS"])
    moreover have "r \<in> T \<longleftrightarrow> (\<exists>c. (k, c) \<in> set ps \<and> r \<in> chunk_set c) \<and> r < off"
      by (auto simp: T_def at [symmetric] split: option.splits)
    ultimately show ?thesis by auto
  qed
  then have "{x \<in> span ps. x < k * CHUNK_IDS + off} = span ?low \<union> (\<lambda>y. k * CHUNK_IDS + y) ` T" by blast
  moreover have "span ?low \<inter> (\<lambda>y. k * CHUNK_IDS + y) ` T = {}" by (auto simp: span_def)
  moreover have "finite T" by (simp add: T_def split: option.splits)
  moreover have "card ((\<lambda>y. k * CHUNK_IDS + y) ` T) = card T" by (intro card_image inj_onI) simp
  moreover have "card T = (case map_of ps k of None \<Rightarrow> 0 | Some c \<Rightarrow> card {y \<in> chunk_set c. y < off})"
    by (simp add: T_def split: option.splits)
  ultimately show ?thesis using card_span [OF low] by (simp add: card_Un_disjoint)
qed

lemma rank_direct_spec:
  assumes "\<forall>c. Some c \<in> set cs \<longrightarrow> chunk_wf c"
  shows "case rank_direct n cs of (p, b, t) \<Rightarrow>
    length p = length cs \<and> length b = length cs \<and> t = n + weight (direct_pairs m cs) \<and>
    (\<forall>i < length cs. p ! i = n + weight (direct_pairs m (take i cs)) \<and>
       b ! i = (case cs ! i of None \<Rightarrow> None | Some c \<Rightarrow> fst (rank_blocks c)))"
  using assms
proof (induction n cs arbitrary: m rule: rank_direct.induct)
  case (2 n c cs)
  define bn where "bn = (case c of Some c \<Rightarrow> rank_blocks c | None \<Rightarrow> (None, 0))"
  obtain p b t where r: "rank_direct (n + snd bn) cs = (p, b, t)" by (metis prod_cases3)
  have IH: "length p = length cs" "length b = length cs" "t = n + snd bn + weight (direct_pairs (Suc m) cs)"
    "\<And>i. i < length cs \<Longrightarrow> p ! i = n + snd bn + weight (direct_pairs (Suc m) (take i cs)) \<and>
       b ! i = (case cs ! i of None \<Rightarrow> None | Some c \<Rightarrow> fst (rank_blocks c))"
    using "2.IH" [of bn "fst bn" "snd bn" "Suc m"] r "2.prems" by (auto simp: bn_def)
  have sn: "snd bn = (case c of None \<Rightarrow> 0 | Some c \<Rightarrow> card (chunk_set c))"
    using "2.prems" rank_blocks_count by (auto simp: bn_def split: option.splits)
  have fb: "fst bn = (case c of None \<Rightarrow> None | Some c \<Rightarrow> fst (rank_blocks c))"
    by (simp add: bn_def split: option.splits)
  have e: "rank_direct n (c # cs) = (n # p, fst bn # b, t)"
    by (simp add: Let_def split_beta r bn_def [symmetric])
  have "(n # p) ! i = n + weight (direct_pairs m (take i (c # cs))) \<and>
      (fst bn # b) ! i = (case (c # cs) ! i of None \<Rightarrow> None | Some c \<Rightarrow> fst (rank_blocks c))"
    if "i < length (c # cs)" for i
    using that IH(4) [of "i - 1"] sn fb by (cases i) (auto split: option.splits)
  moreover have "t = n + weight (direct_pairs m (c # cs))" using IH(3) sn by (auto split: option.splits)
  ultimately show ?case unfolding e using IH(1,2) by simp
qed simp

lemma rank_overflow_spec:
  assumes "\<forall>(k, c) \<in> set ov. chunk_wf c"
  shows "case rank_overflow n ov of (p, b, t) \<Rightarrow>
    length p = length ov \<and> length b = length ov \<and> t = n + weight ov \<and>
    (\<forall>i < length ov. p ! i = n + weight (take i ov) \<and> b ! i = fst (rank_blocks (snd (ov ! i))))"
  using assms
proof (induction n ov rule: rank_overflow.induct)
  case (2 n cid c cs)
  obtain p b t where r: "rank_overflow (n + snd (rank_blocks c)) cs = (p, b, t)" by (metis prod_cases3)
  have IH: "length p = length cs" "length b = length cs" "t = n + snd (rank_blocks c) + weight cs"
    "\<And>i. i < length cs \<Longrightarrow> p ! i = n + snd (rank_blocks c) + weight (take i cs) \<and> b ! i = fst (rank_blocks (snd (cs ! i)))"
    using "2.IH" [of "rank_blocks c" "fst (rank_blocks c)" "snd (rank_blocks c)"] r "2.prems" by auto
  have sn: "snd (rank_blocks c) = card (chunk_set c)" using "2.prems" rank_blocks_count by simp
  have e: "rank_overflow n ((cid, c) # cs) = (n # p, fst (rank_blocks c) # b, t)"
    by (simp add: Let_def split_beta r)
  have "(n # p) ! i = n + weight (take i ((cid, c) # cs)) \<and>
      (fst (rank_blocks c) # b) ! i = fst (rank_blocks (snd (((cid, c) # cs) ! i)))"
    if "i < length ((cid, c) # cs)" for i
    using that IH(4) [of "i - 1"] sn by (cases i) auto
  then show ?case unfolding e using IH(1-3) sn by simp
qed simp

lemma direct_pairs_take: "direct_pairs n (take i cs) = filter (\<lambda>p. fst p < n + i) (direct_pairs n cs)"
proof (induction i arbitrary: n cs)
  case 0
  have "filter (\<lambda>p. fst p < n) (direct_pairs n cs) = []"
    using direct_pairs_spec [of n cs] by (auto simp: filter_empty_conv)
  then show ?case by simp
next
  case (Suc i)
  show ?case
  proof (cases cs)
    case (Cons c cs')
    with Suc.IH [of "Suc n" cs'] show ?thesis by (auto split: option.splits)
  qed simp
qed

abbreviation before :: "IdSet \<Rightarrow> nat \<Rightarrow> nat" where
  "before s cid \<equiv> weight (filter (\<lambda>p. fst p < cid) (pairs s))"

lemma ranked_direct:
  assumes wf: "set_wf s"
  defines "idx \<equiv> r_rank (into_ranked s)"
  shows "i \<le> length (chunks s) \<Longrightarrow> chunk_prefix idx ! i = before s i"
    and "i < length (chunks s) \<Longrightarrow> chunks s ! i = Some c \<Longrightarrow> block_prefix idx ! i = fst (rank_blocks c)"
proof -
  obtain p b t where r: "rank_direct 0 (chunks s) = (p, b, t)" by (metis prod_cases3)
  have cw: "\<forall>c. Some c \<in> set (chunks s) \<longrightarrow> chunk_wf c" using wf by (simp add: set_wf_def)
  have sp: "length p = length (chunks s)" "t = weight (direct_pairs 0 (chunks s))"
    "\<And>i. i < length (chunks s) \<Longrightarrow> p ! i = weight (direct_pairs 0 (take i (chunks s))) \<and>
       b ! i = (case chunks s ! i of None \<Rightarrow> None | Some c \<Rightarrow> fst (rank_blocks c))"
    using rank_direct_spec [OF cw, of 0 0] by (simp_all add: r)
  have idx: "chunk_prefix idx = p @ [t]" "block_prefix idx = b"
    by (simp_all add: idx_def into_ranked_def r Let_def split_beta)
  have low: "before s i = weight (direct_pairs 0 (take i (chunks s)))" if "i \<le> length (chunks s)" for i
  proof -
    have "\<forall>k \<in> fst ` set (overflow s). i \<le> k" using that wf set_wf_keys [OF wf] by (force simp: set_wf_def)
    then have "filter (\<lambda>p. fst p < i) (overflow s) = []" by (auto simp: filter_empty_conv)
    then show ?thesis using direct_pairs_take [of 0 i "chunks s"] by (simp add: pairs_def)
  qed
  show "chunk_prefix idx ! i = before s i" if "i \<le> length (chunks s)"
    using that sp low [OF that] by (cases "i = length (chunks s)") (auto simp: idx nth_append)
  show "block_prefix idx ! i = fst (rank_blocks c)" if "i < length (chunks s)" "chunks s ! i = Some c"
    using that sp(3) by (simp add: idx)
qed

lemma ranked_overflow:
  assumes wf: "set_wf s" and cid: "DIRECT_CHUNKS \<le> cid"
  defines "idx \<equiv> r_rank (into_ranked s)" and "n \<equiv> partition_point (\<lambda>k. k < cid) (map fst (overflow s))"
  shows "ov_keys idx = map fst (overflow s)"
    and "ov_prefix idx ! n = before s cid"
    and "n < length (overflow s) \<and> fst (overflow s ! n) = cid \<longleftrightarrow> chunk_at s cid \<noteq> None"
    and "chunk_at s cid = Some c \<Longrightarrow> ov_block idx ! n = fst (rank_blocks c)"
proof -
  obtain p b t where r: "rank_direct 0 (chunks s) = (p, b, t)" by (metis prod_cases3)
  obtain op ob ot where ro: "rank_overflow t (overflow s) = (op, ob, ot)" by (metis prod_cases3)
  have cw: "\<forall>c. Some c \<in> set (chunks s) \<longrightarrow> chunk_wf c" "\<forall>(k, c) \<in> set (overflow s). chunk_wf c" "bt_wf (overflow s)"
    using wf by (auto simp: set_wf_def)
  have t: "t = weight (direct_pairs 0 (chunks s))"
    using rank_direct_spec [OF cw(1), of 0 0] by (simp add: r)
  have so: "length op = length (overflow s)" "ot = t + weight (overflow s)"
    "\<And>i. i < length (overflow s) \<Longrightarrow> op ! i = t + weight (take i (overflow s)) \<and> ob ! i = fst (rank_blocks (snd (overflow s ! i)))"
    using rank_overflow_spec [OF cw(2), of t] by (simp_all add: ro)
  have idx: "ov_prefix idx = op @ [ot]" "ov_block idx = ob"
    by (simp_all add: idx_def into_ranked_def r ro Let_def)
  show "ov_keys idx = map fst (overflow s)" by (simp add: idx_def into_ranked_def Let_def split_beta)
  have srt: "sorted (map fst (overflow s))" using cw(3) by (simp add: bt_wf_def strict_sorted_iff)
  note pp = partition_point_spec [OF partitioned_less [OF srt, of cid], folded n_def]
  have "n = length (filter (\<lambda>k. k < cid) (map fst (overflow s)))"
    unfolding n_def by (rule partition_point_filter [OF partitioned_less [OF srt]])
  also have "\<dots> = partition_point (\<lambda>p. fst p < cid) (overflow s)"
    using partition_point_filter [OF partitioned_key [OF srt, of cid]] by (simp add: filter_map o_def)
  finally have take: "take n (overflow s) = filter (\<lambda>p. fst p < cid) (overflow s)"
    using partition_point_take [OF partitioned_key [OF srt, of cid]] by simp
  have "filter (\<lambda>p. fst p < cid) (direct_pairs 0 (chunks s)) = direct_pairs 0 (chunks s)"
    using direct_pairs_spec [of 0 "chunks s"] wf cid by (intro filter_True) (force simp: set_wf_def)
  then have "before s cid = t + weight (take n (overflow s))" by (simp add: pairs_def take t)
  with so pp(1) show "ov_prefix idx ! n = before s cid"
    by (cases "n = length (overflow s)") (auto simp: idx nth_append)
  have hit: "n < length (overflow s) \<and> overflow s ! n = (cid, c)" if c: "chunk_at s cid = Some c" for c
  proof -
    have "(cid, c) \<in> set (overflow s)" using c cid cw(3) by (simp add: chunk_at_overflow bt_get_Some)
    then obtain j where j: "j < length (overflow s)" "overflow s ! j = (cid, c)" by (auto simp: in_set_conv_nth)
    then have "n \<le> j" using pp(2) [of j] by (auto simp: not_less [symmetric])
    then have "fst (overflow s ! n) = cid"
      using pp(3) [of n] j sorted_nth_mono [OF srt, of n j] by simp
    moreover have "distinct (map fst (overflow s))" using cw(3) by (simp add: bt_wf_def strict_sorted_iff)
    ultimately have "n = j" using j \<open>n \<le> j\<close> by (metis (no_types, lifting) fst_conv le_less_trans length_map nth_eq_iff_index_eq nth_map)
    with j show ?thesis by simp
  qed
  show "n < length (overflow s) \<and> fst (overflow s ! n) = cid \<longleftrightarrow> chunk_at s cid \<noteq> None"
  proof
    assume n: "n < length (overflow s) \<and> fst (overflow s ! n) = cid"
    then have "(cid, snd (overflow s ! n)) \<in> set (overflow s)" by (metis nth_mem prod.collapse)
    then show "chunk_at s cid \<noteq> None" using cid cw(3) bt_get_Some by (fastforce simp: chunk_at_overflow)
  qed (use hit in auto)
  show "ov_block idx ! n = fst (rank_blocks c)" if "chunk_at s cid = Some c"
    using hit [OF that] so(3) [of n] by (simp add: idx)
qed

lemma card_below:
  assumes wf: "set_wf s" and sp: "split i = Some (cid, off)"
  shows "card {x \<in> ids s. int x < sint i} = before s cid +
      (case chunk_at s cid of None \<Rightarrow> 0 | Some c \<Rightarrow> rank_within c off (fst (rank_blocks c)))"
proof -
  have nn: "0 \<le>s i" using sp by (simp add: split_Some)
  have off: "off < CHUNK_IDS" "unat i = cid * CHUNK_IDS + off" using split_bounds [OF sp] by auto
  have "{x \<in> ids s. int x < sint i} = {x \<in> span (pairs s). x < cid * CHUNK_IDS + off}"
    using nonneg_unat [OF nn] off(2) by (auto simp: ids_span [OF wf])
  moreover have "map_of (pairs s) cid = chunk_at s cid"
    using pairs_spec [OF wf] by (metis bt_get_Some not_Some_eq)
  ultimately show "card {x \<in> ids s. int x < sint i} = before s cid +
      (case chunk_at s cid of None \<Rightarrow> 0 | Some c \<Rightarrow> rank_within c off (fst (rank_blocks c)))"
    using card_span_below [OF pairs_all_wf [OF wf] off(1), of cid] rank_within_spec [OF chunk_at_wf [OF wf] off(1)]
    by (simp split: option.splits)
qed

lemma rank_spec:
  assumes wf: "set_wf s"
  shows "rank (into_ranked s) i = card {x \<in> ids s. int x < sint i}"
proof (cases "i \<le>s 0")
  case True
  then have "{x \<in> ids s. int x < sint i} = {}" by (auto simp: signed_simps)
  then have "card {x \<in> ids s. int x < sint i} = 0" by (simp only: card.empty)
  then show ?thesis using True by (simp add: rank_def)
next
  case False
  then have nn: "0 \<le>s i" by (simp add: signed_simps)
  define cid off where "cid = unat i div CHUNK_IDS" and "off = unat i mod CHUNK_IDS"
  have sp: "split i = Some (cid, off)" using nn by (simp add: split_Some cid_def off_def)
  note card = card_below [OF wf sp]
  have r: "r_set (into_ranked s) = s" by (simp add: into_ranked_def Let_def split_beta)
  show ?thesis
  proof (cases "cid < DIRECT_CHUNKS")
    case True
    note rd = ranked_direct [OF wf]
    show ?thesis
    proof (cases "cid < length (chunks s)")
      case lt: True
      then show ?thesis
        using rd(1) [of cid] rd(2) [OF lt] True False card
        by (auto simp: rank_def sp r Let_def chunk_at_direct rank_in_chunk_def split: option.splits)
    next
      case ge: False
      have "filter (\<lambda>p. fst p < length (chunks s)) (pairs s) = filter (\<lambda>p. fst p < cid) (pairs s)"
      proof (rule filter_cong [OF refl])
        fix p assume "p \<in> set (pairs s)"
        then have "chunk_at s (fst p) = Some (snd p)" using pairs_spec(2) [OF wf] by (metis prod.collapse)
        then show "fst p < length (chunks s) \<longleftrightarrow> fst p < cid"
          using ge True by (auto simp: chunk_at_direct split: if_splits)
      qed
      then show ?thesis
        using rd(1) [of "length (chunks s)"] True False ge card
        by (simp add: rank_def sp r Let_def chunk_at_direct)
    qed
  next
    case ge: False
    then have cid: "DIRECT_CHUNKS \<le> cid" by simp
    note ro = ranked_overflow [OF wf cid]
    show ?thesis
      using ro False ge card cid unfolding rank_def sp r
      by (auto simp: Let_def chunk_at_overflow split: option.splits)
  qed
qed

lemma rank_in_chunk_spec:
  assumes wf: "set_wf s" and c: "chunk s cid = Some (slot, c)"
  shows "rank_in_chunk (r_rank (into_ranked s)) slot cid c off = before s cid + rank_within c off (fst (rank_blocks c))"
proof (cases "cid < DIRECT_CHUNKS")
  case True
  with c have "cid < length (chunks s)" "chunks s ! cid = Some c" "slot = Direct cid"
    by (auto simp: chunk_def split: if_splits)
  then show ?thesis using ranked_direct [OF wf] by (simp add: rank_in_chunk_def)
next
  case False
  then have "chunk_at s cid = Some c" "slot = Overflow" using c by (auto simp: chunk_def chunk_at_def)
  then show ?thesis using ranked_overflow [OF wf, of cid] False by (simp add: rank_in_chunk_def Let_def)
qed

lemma rank_if_set_spec:
  assumes wf: "set_wf s"
  shows "rank_if_set (into_ranked s) i = (if get s i then Some (card {x \<in> ids s. int x < sint i}) else None)"
proof (cases "split i")
  case None
  then show ?thesis by (simp add: rank_if_set_def get_def)
next
  case (Some p)
  obtain cid off where sp: "split i = Some (cid, off)" using Some by (cases p) simp
  have r: "r_set (into_ranked s) = s" by (simp add: into_ranked_def Let_def split_beta)
  show ?thesis
  proof (cases "chunk s cid")
    case None
    then show ?thesis by (simp add: rank_if_set_def get_def sp r)
  next
    case (Some q)
    obtain slot c where q: "chunk s cid = Some (slot, c)" using Some by (cases q) simp
    then have "chunk_at s cid = Some c" by (simp add: chunk_at_def)
    then show ?thesis
      using card_below [OF wf sp] rank_in_chunk_spec [OF wf q] by (simp add: rank_if_set_def get_def sp r q)
  qed
qed

lemma weight_pairs: "set_wf s \<Longrightarrow> weight (pairs s) = card (ids s)"
  using card_span [OF pairs_all_wf] ids_span by simp

lemma total_count_spec: "set_wf s \<Longrightarrow> total_count (into_ranked s) = card (ids s)"
proof -
  assume wf: "set_wf s"
  obtain p b t where r: "rank_direct 0 (chunks s) = (p, b, t)" by (metis prod_cases3)
  obtain op ob ot where ro: "rank_overflow t (overflow s) = (op, ob, ot)" by (metis prod_cases3)
  have cw: "\<forall>c. Some c \<in> set (chunks s) \<longrightarrow> chunk_wf c" "\<forall>(k, c) \<in> set (overflow s). chunk_wf c"
    using wf by (auto simp: set_wf_def)
  have "ot = weight (pairs s)"
    using rank_direct_spec [OF cw(1), of 0 0] rank_overflow_spec [OF cw(2), of t, unfolded ro] by (simp add: r pairs_def)
  then show ?thesis by (simp add: total_count_def into_ranked_def r ro Let_def weight_pairs [OF wf])
qed

lemma present_chunks:
  "map snd (direct_pairs n cs) = List.map_filter (\<lambda>c. c) cs"
  by (induction cs arbitrary: n) (auto simp: List.map_filter_def split: option.splits)

lemma chunk_list_pairs: "List.map_filter (\<lambda>c. c) (chunks s) @ map snd (overflow s) = map snd (pairs s)"
  by (simp add: pairs_def present_chunks)

lemma len_spec: "set_wf s \<Longrightarrow> IdSet_len s = card (ids s)"
proof -
  assume wf: "set_wf s"
  have "chunk_count (snd p) = card (chunk_set (snd p))" if "p \<in> set (pairs s)" for p
    using that pairs_wf [OF wf, of "fst p" "snd p"] chunk_count_spec by simp
  then have "IdSet_len s = weight (pairs s)"
    unfolding IdSet_len_def chunk_list_pairs by (simp add: o_def cong: map_cong)
  then show ?thesis using weight_pairs [OF wf] by simp
qed

lemma is_empty_spec: "set_wf s \<Longrightarrow> IdSet_is_empty s \<longleftrightarrow> ids s = {}"
proof -
  assume wf: "set_wf s"
  have "IdSet_is_empty s \<longleftrightarrow> (\<forall>p \<in> set (pairs s). chunk_set (snd p) = {})"
    unfolding IdSet_is_empty_def chunk_list_pairs list_all_iff
    using offsets_next_None pairs_wf [OF wf] by fastforce
  also have "\<dots> \<longleftrightarrow> weight (pairs s) = 0" by (auto simp: sum_list_eq_0_iff)
  also have "\<dots> \<longleftrightarrow> ids s = {}" using weight_pairs [OF wf] finite_ids [OF wf] by simp
  finally show ?thesis .
qed

section \<open>Properties\<close>

text \<open>
  C30: insertion and membership. From any well-formed set, \<open>set\<close> and \<open>set_if_new\<close> leave the
  same state (the fast path included), which is well formed and holds exactly the old IDs
  plus the new one (a negative ID is ignored); the answer says whether the ID was new; and
  \<open>get\<close> decides membership.
\<close>

theorem idset_insert:
  assumes "set_wf s"
  shows "set_id s i = fst (set_if_new s i) \<and> set_wf (set_id s i) \<and>
    ids (set_id s i) = (if i <s 0 then ids s else insert (unat i) (ids s)) \<and>
    (snd (set_if_new s i) \<longleftrightarrow> 0 \<le>s i \<and> unat i \<notin> ids s) \<and>
    (get s i \<longleftrightarrow> 0 \<le>s i \<and> unat i \<in> ids s)"
  using set_id_eq [OF assms] set_if_new_spec [OF assms] get_iff [OF assms] by simp

theorem idset_insert_witness:
  "get (set_id IdSet_new 7) 7 \<and> \<not> get (set_id IdSet_new 7) 8"
proof -
  have num: "unat (7 :: i64) = 7" "unat (8 :: i64) = 8" "\<not> (7 :: i64) <s 0" "0 \<le>s (7 :: i64)" "0 \<le>s (8 :: i64)"
    by code_simp+
  note first = idset_insert [OF new_wf(1), of 7]
  then have wf: "set_wf (set_id IdSet_new 7)" by blast
  have "ids (set_id IdSet_new 7) = {7}" using first unfolding num new_wf if_not_P [OF num(3)] by blast
  then show ?thesis
    using idset_insert [OF wf, of 7] idset_insert [OF wf, of 8] num by simp
qed

text \<open>
  C31: range queries. The chunk-clipped search over the directory and the overflow map
  answers whether some member lies in the inclusive range, for every pair of bounds:
  negative ends, an empty range and the full \<open>i64\<close> range included.
\<close>

theorem idset_any_in_range:
  assumes "set_wf s"
  shows "any_in_range s lo hi \<longleftrightarrow> (\<exists>x \<in> ids s. sint lo \<le> int x \<and> int x \<le> sint hi)"
  using any_in_range_spec [OF assms] .

theorem idset_any_in_range_witness: "any_in_range (set_id IdSet_new 9) (- 5) 9 \<and> \<not> any_in_range (set_id IdSet_new 9) 10 20"
proof -
  have s: "set_wf (set_id IdSet_new 9)" "ids (set_id IdSet_new 9) = {9}"
    using set_id_eq [of IdSet_new 9] set_if_new_spec [of IdSet_new 9] by (simp_all add: signed_simps)
  show ?thesis
    using idset_any_in_range [OF s(1), of "- 5" 9] idset_any_in_range [OF s(1), of 10 20] s(2) by simp
qed

text \<open>
  Iteration. \<open>iter\<close> yields every member once, in ascending order, across array and
  bit-array chunks, directory and overflow; \<open>iter_from\<close> yields exactly those at or above
  the start although it never walks the chunks below it.
\<close>

theorem idset_iter:
  assumes "set_wf s"
  shows "map unat (iter s) = sorted_list_of_set (ids s) \<and>
    iter_from s start = filter (\<lambda>i. start \<le>s i) (iter s)"
  using iter_unat [OF assms] iter_from_filter [OF assms] by blast

theorem idset_iter_witness: "map unat (iter (set_id (set_id IdSet_new 9) 4)) = [4, 9]"
proof -
  have s: "set_wf (set_id IdSet_new 9)" "ids (set_id IdSet_new 9) = {9}"
    using set_id_eq [of IdSet_new 9] set_if_new_spec [of IdSet_new 9] by (simp_all add: signed_simps)
  have t: "set_wf (set_id (set_id IdSet_new 9) 4)" "ids (set_id (set_id IdSet_new 9) 4) = {4, 9}"
    using set_id_eq [OF s(1), of 4] set_if_new_spec [OF s(1), of 4] s(2) by (simp_all add: signed_simps)
  show ?thesis using idset_iter [OF t(1)] t(2) by simp
qed

text \<open>
  Merging. The borrowing and the consuming merge both give the union and keep the set
  well formed, whatever mix of array and bit-array chunks the two sets hold.
\<close>

theorem idset_merge:
  assumes "set_wf s" "set_wf t"
  shows "set_wf (merge_from s t) \<and> ids (merge_from s t) = ids s \<union> ids t \<and>
    set_wf (merge s t) \<and> ids (merge s t) = ids s \<union> ids t"
  using by_ref.merge_ids [OF assms] by_move.merge_ids [OF assms] by (simp add: merge_from_def merge_def)

theorem idset_merge_witness: "ids (merge (set_id IdSet_new 1) (pre_allocate IdSet_new 0)) = {1}"
proof -
  have s: "set_wf (set_id IdSet_new 1)" "ids (set_id IdSet_new 1) = {1}"
    using set_id_eq [of IdSet_new 1] set_if_new_spec [of IdSet_new 1] by (simp_all add: signed_simps)
  have t: "set_wf (pre_allocate IdSet_new 0)" "ids (pre_allocate IdSet_new 0) = {}"
    using pre_allocate_spec [of IdSet_new 0] by simp_all
  from idset_merge [OF s(1) t(1)] s t show ?thesis by simp
qed

text \<open>
  C29: rank. On a frozen set, \<open>rank\<close> returns for every \<open>i64\<close> argument the number of members
  strictly below it, \<open>rank_if_set\<close> that number exactly for members, and \<open>total_count\<close> and
  \<open>len\<close> the number of members; so ranks of distinct members are distinct.
\<close>

theorem idset_rank:
  assumes "set_wf s"
  shows "rank (into_ranked s) i = card {x \<in> ids s. int x < sint i} \<and>
    rank_if_set (into_ranked s) i =
      (if 0 \<le>s i \<and> unat i \<in> ids s then Some (card {x \<in> ids s. int x < sint i}) else None) \<and>
    total_count (into_ranked s) = card (ids s) \<and> IdSet_len s = card (ids s) \<and>
    (IdSet_is_empty s \<longleftrightarrow> ids s = {})"
  using rank_spec [OF assms] rank_if_set_spec [OF assms] total_count_spec [OF assms] len_spec [OF assms]
    is_empty_spec [OF assms] get_iff [OF assms] by simp

theorem idset_rank_witness:
  "rank (into_ranked (set_id IdSet_new 9)) 10 = 1 \<and> rank_if_set (into_ranked (set_id IdSet_new 9)) 9 = Some 0"
proof -
  have s: "set_wf (set_id IdSet_new 9)" "ids (set_id IdSet_new 9) = {9}"
    using set_id_eq [of IdSet_new 9] set_if_new_spec [of IdSet_new 9] by (simp_all add: signed_simps)
  have "{x. x = 9 \<and> int x < 10} = {9 :: nat}" "{x. x = 9 \<and> int x < 9} = ({} :: nat set)" by auto
  then show ?thesis
    using idset_rank [OF s(1), of 10] idset_rank [OF s(1), of 9] s(2) by (simp add: signed_simps)
qed

text \<open>
  C32: atomic setters under \<open>pre_allocate\<close>. After pre-allocation up to \<open>max_id\<close>, every
  interleaving of atomic inserts of IDs in \<open>0..=max_id\<close> runs without a panic, ends in the
  old set plus exactly those IDs, and reports an ID as new exactly at its first occurrence
  (and never when it was there before).
\<close>

theorem idset_atomic_interleaving:
  assumes "set_wf s" "\<forall>i \<in> set is. 0 \<le>s i \<and> i \<le>s max_id"
  shows "\<exists>t news. atomic_run (pre_allocate s max_id) is = Some (t, news) \<and> set_wf t \<and>
    ids t = ids s \<union> unat ` set is \<and> length news = length is \<and>
    (\<forall>n < length is. news ! n \<longleftrightarrow> unat (is ! n) \<notin> ids s \<and> is ! n \<notin> set (take n is))"
proof -
  let ?s = "pre_allocate s max_id"
  note pa = pre_allocate_spec [OF assms(1), of max_id]
  have cov: "\<forall>i \<in> set is. covered ?s i" using pre_allocate_covers [OF assms(1)] assms(2) by blast
  have valid: "\<forall>i \<in> set is. 0 \<le>s i" using assms(2) by blast
  obtain t news where run: "add_run set_if_new ?s is = (t, news)" by fastforce
  have st: "set_wf t" "length news = length is"
    using idset.add_run_state [of ?s "is"] pa valid run by auto
  have img: "unat ` (of_nat :: nat \<Rightarrow> i64) ` ids u = ids u" if "set_wf u" for u
    using ids_bound [OF that] by (force simp: image_image unat_of_nat_id cong: image_cong)
  have "(of_nat :: nat \<Rightarrow> i64) ` ids t = of_nat ` ids ?s \<union> set is"
    using idset.add_run_state [of ?s "is"] pa valid run by simp
  then have "ids t = ids s \<union> unat ` set is"
    using img [OF st(1)] img [of ?s] pa by (metis image_Un)
  moreover have "news ! n \<longleftrightarrow> unat (is ! n) \<notin> ids s \<and> is ! n \<notin> set (take n is)" if "n < length is" for n
    using idset.add_run_answers [of ?s "is" n] pa valid run that of_nat_ids [of ?s] by simp
  moreover have "atomic_run ?s is = Some (t, news)" using atomic_run_eq [OF _ cov] pa run by simp
  ultimately show ?thesis using st by blast
qed

theorem idset_atomic_interleaving_witness:
  "\<exists>t news. atomic_run (pre_allocate IdSet_new 100) [3, 99, 3] = Some (t, news) \<and> ids t = {3, 99} \<and> news ! 0 \<and> \<not> news ! 2"
proof -
  have num: "unat ` set [3, 99, 3 :: i64] = {3, 99}" by code_simp
  have "\<forall>i \<in> set [3, 99, 3]. 0 \<le>s i \<and> i \<le>s (100 :: i64)" by (simp add: signed_simps)
  from idset_atomic_interleaving [OF new_wf(1) this] obtain t news where
    t: "atomic_run (pre_allocate IdSet_new 100) [3, 99, 3] = Some (t, news)"
    "ids t = ids IdSet_new \<union> unat ` set [3, 99, 3 :: i64]"
    "\<forall>n < length [3, 99, 3 :: i64]. news ! n \<longleftrightarrow> unat ([3, 99, 3 :: i64] ! n) \<notin> ids IdSet_new \<and> [3, 99, 3] ! n \<notin> set (take n [3, 99, 3 :: i64])"
    by blast
  have "ids t = {3, 99}" using t(2) by (simp only: num new_wf) simp
  moreover have "news ! 0" "\<not> news ! 2" using t(3) by (simp_all add: numeral_2_eq_2)
  ultimately show ?thesis using t(1) by blast
qed

end
