(* ===== verification/Schedule.thy ===== *)
theory Schedule
  imports Blob_Wire
begin

text \<open>
  Schedules of blobs to decode, from \<open>src/src/scan/classify.rs\<close>, with the header walk's
  partially-indexed rule (\<open>PartialIndexGuard\<close> of \<open>src/src/read/frame.rs\<close>). A file is what
  the header walk returns of it, a list of \<open>BlobHeaderMeta\<close> in file order, and the blocks
  its payloads decode to, a function of offset and size. Shown: an entry locates exactly
  its blob's payload and carries exactly the claim it should; a schedule is exactly the
  data blobs the filters keep, in file order, and exists exactly when the file opens with a
  header and is not partially indexed.

  Offsets are \<open>u64\<close> words; a \<open>usize\<close> size is a \<open>nat\<close>.
\<close>

section \<open>The partially-indexed rule\<close>

record 'l PartialIndexGuard =
  first_indexed :: "bool option"
  first_unindexed :: "'l option"

definition PartialIndexGuard_default :: "'l PartialIndexGuard" where
  "PartialIndexGuard_default = \<lparr>first_indexed = None, first_unindexed = None\<rparr>"

definition guard_observe :: "'l PartialIndexGuard \<Rightarrow> bool \<Rightarrow> 'l \<Rightarrow> 'l PartialIndexGuard \<times> 'l option" where
  "guard_observe g indexed at =
     (let g = (if \<not> indexed \<and> first_unindexed g = None then g\<lparr>first_unindexed := Some at\<rparr> else g)
      in case first_indexed g of
           None \<Rightarrow> (g\<lparr>first_indexed := Some indexed\<rparr>, None)
         | Some f \<Rightarrow> (g, if f \<noteq> indexed then first_unindexed g else None))"

section \<open>Headers and entries\<close>

record BlobHeaderMeta =
  m_blob_type :: BlobKind
  m_frame_start :: u64
  m_blob_index :: u64
  m_data_offset :: u64
  m_data_size :: nat
  m_index :: "BlobIndex option"
  m_tagdata :: "bytes option"

datatype KindClaims = Refuse | Unchecked

record ScheduledBlob =
  sb_frame_start :: u64
  sb_blob :: u64
  sb_data_size :: u32
  sb_header_len :: u16
  sb_claim :: u8

text \<open>\<open>build\<close>: \<open>None\<close> where a checked operation of the source fails.\<close>

definition ScheduledBlob_build ::
  "u64 \<Rightarrow> u64 \<Rightarrow> u64 \<Rightarrow> nat \<Rightarrow> ElementKind option \<Rightarrow> KindClaims \<Rightarrow> ScheduledBlob option" where
  "ScheduledBlob_build frame_start blob data_offset data_size claim claims =
     (let payload = unat frame_start + 4; len = unat data_offset - payload
      in if payload < 2 ^ 64 \<and> payload \<le> unat data_offset \<and> len < 2 ^ 16 \<and> data_size < 2 ^ 32
         then Some \<lparr>sb_frame_start = frame_start, sb_blob = blob, sb_data_size = of_nat data_size,
                    sb_header_len = of_nat len,
                    sb_claim = (case (claims, claim) of (Refuse, Some k) \<Rightarrow> 1 + ordinal k | _ \<Rightarrow> 0)\<rparr>
         else None)"

datatype schedule_error =
    MissingHeader
  | PartialIndex "u64 \<times> u64" \<comment> \<open>frame start and ordinal of the first unindexed data blob\<close>
  | Internal
  | DecodeFailed
  | ClaimRefused kind_error

definition from_meta :: "BlobHeaderMeta \<Rightarrow> KindClaims \<Rightarrow> schedule_error + ScheduledBlob" where
  "from_meta m claims =
     (case ScheduledBlob_build (m_frame_start m) (m_blob_index m) (m_data_offset m) (m_data_size m)
             (map_option kind (m_index m)) claims of
        Some e \<Rightarrow> Inr e
      | None \<Rightarrow> Inl Internal)"

definition UNKNOWN_ORDINAL :: u64 where "UNKNOWN_ORDINAL = - 1"

definition at_frame ::
  "u64 \<Rightarrow> u64 \<Rightarrow> nat \<Rightarrow> ElementKind option \<Rightarrow> KindClaims \<Rightarrow> schedule_error + ScheduledBlob" where
  "at_frame frame_start data_offset data_size claim claims =
     (case ScheduledBlob_build frame_start UNKNOWN_ORDINAL data_offset data_size claim claims of
        Some e \<Rightarrow> Inr e
      | None \<Rightarrow> Inl Internal)"

definition entry_claim :: "ScheduledBlob \<Rightarrow> ElementKind option" where
  "entry_claim e = (if sb_claim e = 0 then None else from_ordinal (sb_claim e - 1))"

definition entry_data_offset :: "ScheduledBlob \<Rightarrow> u64" where
  "entry_data_offset e = sb_frame_start e + 4 + ucast (sb_header_len e)"

definition entry_data_size :: "ScheduledBlob \<Rightarrow> nat" where
  "entry_data_size e = unat (sb_data_size e)"

definition entry_frame_size :: "ScheduledBlob \<Rightarrow> nat" where
  "entry_frame_size e = 4 + unat (sb_header_len e) + entry_data_size e"

definition entry_blob_index :: "ScheduledBlob \<Rightarrow> u64 option" where
  "entry_blob_index e = (if sb_blob e \<noteq> UNKNOWN_ORDINAL then Some (sb_blob e) else None)"

section \<open>The schedule walk\<close>

text \<open>
  \<open>step_guard\<close> is what \<open>HeaderWalker::next_header\<close> adds to the walk for a completed frame:
  a data blob is shown to the guard of a refusing walk, which ends the walk on a mixture.
\<close>

type_synonym walk_guard = "(u64 \<times> u64) PartialIndexGuard option"

definition step_guard :: "walk_guard \<Rightarrow> BlobHeaderMeta \<Rightarrow> schedule_error + walk_guard" where
  "step_guard wg m =
     (case wg of
        None \<Rightarrow> Inr None
      | Some g \<Rightarrow>
          if m_blob_type m = OsmData
          then (case guard_observe g (m_index m \<noteq> None) (m_frame_start m, m_blob_index m) of
                  (_, Some at) \<Rightarrow> Inl (PartialIndex at)
                | (g, None) \<Rightarrow> Inr (Some g))
          else Inr (Some g))"

definition wanted_kind :: "ElementKind option \<Rightarrow> BlobHeaderMeta \<Rightarrow> bool" where
  "wanted_kind kind_filter m =
     (case (kind_filter, m_index m) of (Some k, Some idx) \<Rightarrow> kind idx = k | _ \<Rightarrow> True)"

fun schedule_loop ::
  "ElementKind option \<Rightarrow> BlobFilter option \<Rightarrow> KindClaims \<Rightarrow> walk_guard \<Rightarrow> BlobHeaderMeta list \<Rightarrow>
   ScheduledBlob list \<Rightarrow> BlobIndex option list \<Rightarrow> nat \<Rightarrow>
   schedule_error + ScheduledBlob list \<times> BlobIndex option list \<times> nat" where
  "schedule_loop kf bf claims wg [] schedule indexes skipped = Inr (schedule, indexes, skipped)"
| "schedule_loop kf bf claims wg (m # ms) schedule indexes skipped =
     (case step_guard wg m of
        Inl e \<Rightarrow> Inl e
      | Inr wg \<Rightarrow>
          if m_blob_type m \<noteq> OsmData then schedule_loop kf bf claims wg ms schedule indexes skipped
          else if \<not> wanted_kind kf m then schedule_loop kf bf claims wg ms schedule indexes skipped
          else case blob_filter_check (m_index m) (m_tagdata m) bf of
                 (True, tag_skip) \<Rightarrow>
                   schedule_loop kf bf claims wg ms schedule indexes (if tag_skip then skipped + 1 else skipped)
               | (False, _) \<Rightarrow>
                   (case from_meta m claims of
                      Inl e \<Rightarrow> Inl e
                    | Inr e \<Rightarrow> schedule_loop kf bf claims wg ms (schedule @ [e]) (indexes @ [m_index m]) skipped))"

fun consume_leading_header :: "walk_guard \<Rightarrow> BlobHeaderMeta list \<Rightarrow> schedule_error + walk_guard \<times> BlobHeaderMeta list" where
  "consume_leading_header wg [] = Inl MissingHeader"
| "consume_leading_header wg (m # ms) =
     (case step_guard wg m of
        Inl e \<Rightarrow> Inl e
      | Inr wg \<Rightarrow> if m_blob_type m \<noteq> OsmHeader then Inl MissingHeader else Inr (wg, ms))"

definition schedule_walk ::
  "BlobHeaderMeta list \<Rightarrow> ElementKind option \<Rightarrow> BlobFilter option \<Rightarrow> bool \<Rightarrow> KindClaims \<Rightarrow>
   schedule_error + ScheduledBlob list \<times> BlobIndex option list \<times> nat" where
  "schedule_walk file kind_filter blob_filter accept_partial claims =
     (let wg = (if accept_partial then None else Some PartialIndexGuard_default)
      in case consume_leading_header wg file of
           Inl e \<Rightarrow> Inl e
         | Inr (wg, ms) \<Rightarrow> schedule_loop kind_filter blob_filter claims wg ms [] [] 0)"

definition build_classify_schedule_blob_filtered ::
  "BlobHeaderMeta list \<Rightarrow> ElementKind option \<Rightarrow> BlobFilter option \<Rightarrow> KindClaims \<Rightarrow>
   schedule_error + ScheduledBlob list \<times> nat" where
  "build_classify_schedule_blob_filtered file kind_filter blob_filter claims =
     (case schedule_walk file kind_filter blob_filter False claims of
        Inl e \<Rightarrow> Inl e | Inr (s, _, n) \<Rightarrow> Inr (s, n))"

definition build_classify_schedule_accepting_partial ::
  "BlobHeaderMeta list \<Rightarrow> ElementKind option \<Rightarrow> BlobFilter option \<Rightarrow>
   schedule_error + ScheduledBlob list \<times> nat" where
  "build_classify_schedule_accepting_partial file kind_filter blob_filter =
     (case schedule_walk file kind_filter blob_filter True Unchecked of
        Inl e \<Rightarrow> Inl e | Inr (s, _, n) \<Rightarrow> Inr (s, n))"

definition build_classify_schedule ::
  "BlobHeaderMeta list \<Rightarrow> ElementKind option \<Rightarrow> KindClaims \<Rightarrow> schedule_error + ScheduledBlob list" where
  "build_classify_schedule file kind_filter claims =
     (case build_classify_schedule_blob_filtered file kind_filter None claims of
        Inl e \<Rightarrow> Inl e | Inr (s, _) \<Rightarrow> Inr s)"

definition build_classify_schedule_with_claims ::
  "BlobHeaderMeta list \<Rightarrow> ElementKind option \<Rightarrow> schedule_error + ScheduledBlob list \<times> BlobIndex option list" where
  "build_classify_schedule_with_claims file kind_filter =
     (case schedule_walk file kind_filter None False Refuse of
        Inl e \<Rightarrow> Inl e | Inr (s, idx, _) \<Rightarrow> Inr (s, idx))"

section \<open>Schedules by kind\<close>

datatype KindSchedules =
    Indexed "ScheduledBlob list" "ScheduledBlob list" "ScheduledBlob list"
  | Unindexed "ScheduledBlob list"

fun into_replicated :: "KindSchedules \<Rightarrow> ScheduledBlob list \<times> ScheduledBlob list \<times> ScheduledBlob list" where
  "into_replicated (Indexed nodes ways relations) = (nodes, ways, relations)"
| "into_replicated (Unindexed blobs) = (blobs, blobs, blobs)"

record SplitState =
  ss_nodes :: "ScheduledBlob list"
  ss_ways :: "ScheduledBlob list"
  ss_rels :: "ScheduledBlob list"
  ss_unindexed :: "ScheduledBlob list"
  ss_max_node :: i64
  ss_max_way :: i64
  ss_max_rel :: i64

definition split_entry :: "BlobHeaderMeta \<Rightarrow> ScheduledBlob \<Rightarrow> SplitState \<Rightarrow> SplitState" where
  "split_entry m e st =
     (case m_index m of
        None \<Rightarrow> st\<lparr>ss_unindexed := ss_unindexed st @ [e]\<rparr>
      | Some i \<Rightarrow>
          (case kind i of
             Node \<Rightarrow> st\<lparr>ss_max_node := smax (ss_max_node st) (max_id i), ss_nodes := ss_nodes st @ [e]\<rparr>
           | Way \<Rightarrow> st\<lparr>ss_max_way := smax (ss_max_way st) (max_id i), ss_ways := ss_ways st @ [e]\<rparr>
           | Relation \<Rightarrow> st\<lparr>ss_max_rel := smax (ss_max_rel st) (max_id i), ss_rels := ss_rels st @ [e]\<rparr>))"

fun split_loop :: "KindClaims \<Rightarrow> walk_guard \<Rightarrow> BlobHeaderMeta list \<Rightarrow> SplitState \<Rightarrow> schedule_error + SplitState" where
  "split_loop claims wg [] st = Inr st"
| "split_loop claims wg (m # ms) st =
     (case step_guard wg m of
        Inl e \<Rightarrow> Inl e
      | Inr wg \<Rightarrow>
          if m_blob_type m \<noteq> OsmData then split_loop claims wg ms st
          else case from_meta m claims of
                 Inl e \<Rightarrow> Inl e
               | Inr e \<Rightarrow> split_loop claims wg ms (split_entry m e st))"

definition build_classify_schedules_split ::
  "BlobHeaderMeta list \<Rightarrow> KindClaims \<Rightarrow> schedule_error + KindSchedules \<times> i64 list" where
  "build_classify_schedules_split file claims =
     (case consume_leading_header (Some PartialIndexGuard_default) file of
        Inl e \<Rightarrow> Inl e
      | Inr (wg, ms) \<Rightarrow>
          (case split_loop claims wg ms
                  \<lparr>ss_nodes = [], ss_ways = [], ss_rels = [], ss_unindexed = [],
                   ss_max_node = 0, ss_max_way = 0, ss_max_rel = 0\<rparr> of
             Inl e \<Rightarrow> Inl e
           | Inr st \<Rightarrow>
               let max_ids = [ss_max_node st, ss_max_way st, ss_max_rel st]
               in if ss_unindexed st = [] then Inr (Indexed (ss_nodes st) (ss_ways st) (ss_rels st), max_ids)
                  else if ss_nodes st = [] \<and> ss_ways st = [] \<and> ss_rels st = []
                       then Inr (Unindexed (ss_unindexed st), max_ids)
                       else Inl Internal))"

section \<open>Decoding an entry\<close>

text \<open>
  What every block-decoding pool does with an entry: the payload at the entry's offset and
  size is decoded (\<open>payload\<close>, \<open>None\<close> for a block that does not validate), and a block that
  holds a kind the entry's claim denies is refused. When several entries of a phase fail,
  which failure the phase reports depends on timing; here it is the first of the schedule.
\<close>

definition block_kinds :: "('e \<Rightarrow> ElementKind) \<Rightarrow> 'e list \<Rightarrow> KindSet" where
  "block_kinds kd els = foldl (\<lambda>s e. KindSet_add s (kd e)) KindSet_default els"

definition decode_entry ::
  "('e \<Rightarrow> ElementKind) \<Rightarrow> (u64 \<Rightarrow> nat \<Rightarrow> 'e list option) \<Rightarrow> ScheduledBlob \<Rightarrow> schedule_error + 'e list" where
  "decode_entry kd payload e =
     (case payload (entry_data_offset e) (entry_data_size e) of
        None \<Rightarrow> Inl DecodeFailed
      | Some els \<Rightarrow>
          (case KindSet_refuse_under (block_kinds kd els) (entry_claim e) of
             Inl err \<Rightarrow> Inl (ClaimRefused err)
           | Inr _ \<Rightarrow> Inr els))"

fun decode_all ::
  "('e \<Rightarrow> ElementKind) \<Rightarrow> (u64 \<Rightarrow> nat \<Rightarrow> 'e list option) \<Rightarrow> ScheduledBlob list \<Rightarrow> schedule_error + 'e list list" where
  "decode_all kd payload [] = Inr []"
| "decode_all kd payload (e # es) =
     (case decode_entry kd payload e of
        Inl err \<Rightarrow> Inl err
      | Inr els \<Rightarrow> (case decode_all kd payload es of Inl err \<Rightarrow> Inl err | Inr bs \<Rightarrow> Inr (els # bs)))"

section \<open>Entries\<close>

text \<open>What the walk guarantees of a returned header: the prefix and the length fit.\<close>

definition meta_ok :: "BlobHeaderMeta \<Rightarrow> bool" where
  "meta_ok m \<longleftrightarrow> unat (m_frame_start m) + 4 \<le> unat (m_data_offset m) \<and>
     unat (m_data_offset m) - (unat (m_frame_start m) + 4) < 2 ^ 16 \<and> m_data_size m < 2 ^ 32"

definition entry_of :: "KindClaims \<Rightarrow> BlobHeaderMeta \<Rightarrow> ScheduledBlob" where
  "entry_of claims m = \<lparr>sb_frame_start = m_frame_start m, sb_blob = m_blob_index m,
     sb_data_size = of_nat (m_data_size m),
     sb_header_len = of_nat (unat (m_data_offset m) - (unat (m_frame_start m) + 4)),
     sb_claim = (case (claims, map_option kind (m_index m)) of (Refuse, Some k) \<Rightarrow> 1 + ordinal k | _ \<Rightarrow> 0)\<rparr>"

lemma from_meta_eq: "from_meta m claims = (if meta_ok m then Inr (entry_of claims m) else Inl Internal)"
  using unat_lt [of "m_data_offset m"]
  by (auto simp: from_meta_def ScheduledBlob_build_def meta_ok_def entry_of_def Let_def)

lemma claim_byte [simp]: "1 + ordinal k \<noteq> 0"
  by (cases k) simp_all

lemma entry_of_reads:
  assumes "meta_ok m"
  shows "entry_data_offset (entry_of claims m) = m_data_offset m"
    "entry_data_size (entry_of claims m) = m_data_size m"
    "entry_frame_size (entry_of claims m) = unat (m_data_offset m) - unat (m_frame_start m) + m_data_size m"
    "entry_claim (entry_of claims m) = (if claims = Refuse then map_option kind (m_index m) else None)"
proof -
  let ?len = "unat (m_data_offset m) - (unat (m_frame_start m) + 4)"
  have len: "?len < 2 ^ 16" "unat (m_frame_start m) + 4 \<le> unat (m_data_offset m)" "m_data_size m < 2 ^ 32"
    using assms by (simp_all add: meta_ok_def)
  have u: "unat (of_nat ?len :: u16) = ?len" using len(1) by (simp add: unat_of_nat take_bit_nat_eq_self)
  have "ucast (of_nat ?len :: u16) = (of_nat ?len :: u64)"
    using u by (metis of_nat_unat)
  then have "entry_data_offset (entry_of claims m) = of_nat (unat (m_frame_start m) + 4 + ?len)"
    by (simp add: entry_data_offset_def entry_of_def)
  then show "entry_data_offset (entry_of claims m) = m_data_offset m" using len(2) by simp
  show ds: "entry_data_size (entry_of claims m) = m_data_size m"
    using len(3) by (simp add: entry_data_size_def entry_of_def unat_of_nat take_bit_nat_eq_self)
  show "entry_frame_size (entry_of claims m) = unat (m_data_offset m) - unat (m_frame_start m) + m_data_size m"
    using u len(2) ds by (simp add: entry_frame_size_def entry_of_def)
  show "entry_claim (entry_of claims m) = (if claims = Refuse then map_option kind (m_index m) else None)"
    by (cases claims; cases "m_index m") (simp_all add: entry_claim_def entry_of_def)
qed

section \<open>The guard\<close>

text \<open>A data blob as the guard sees it: whether it is indexed, and where it is.\<close>

definition mixed :: "(bool \<times> 'l) list \<Rightarrow> bool" where
  "mixed xs \<longleftrightarrow> (\<exists>x \<in> set xs. fst x) \<and> (\<exists>x \<in> set xs. \<not> fst x)"

definition unindexed_at :: "(bool \<times> 'l) list \<Rightarrow> 'l option" where
  "unindexed_at xs = map_option snd (find (\<lambda>x. \<not> fst x) xs)"

definition guard_after :: "(bool \<times> 'l) list \<Rightarrow> 'l PartialIndexGuard" where
  "guard_after xs = \<lparr>first_indexed = (case xs of [] \<Rightarrow> None | x # _ \<Rightarrow> Some (fst x)), first_unindexed = unindexed_at xs\<rparr>"

lemma guard_after_Nil [simp]: "guard_after [] = PartialIndexGuard_default"
  by (simp add: guard_after_def PartialIndexGuard_default_def unindexed_at_def)

lemma unindexed_at_None: "unindexed_at xs = None \<longleftrightarrow> (\<forall>x \<in> set xs. fst x)"
  by (auto simp: unindexed_at_def find_None_iff)

lemma unindexed_at_append:
  "unindexed_at (xs @ ys) = (case unindexed_at xs of None \<Rightarrow> unindexed_at ys | Some l \<Rightarrow> Some l)"
  by (simp add: unindexed_at_def find_append split: option.split)

lemma guard_observe_after:
  assumes "\<not> mixed xs"
  shows "guard_observe (guard_after xs) b at =
    (guard_after (xs @ [(b, at)]), if mixed (xs @ [(b, at)]) then unindexed_at (xs @ [(b, at)]) else None)"
proof (cases xs)
  case Nil
  then show ?thesis
    by (simp add: guard_observe_def guard_after_def unindexed_at_def mixed_def)
next
  case (Cons x ys)
  have same: "\<forall>y \<in> set xs. fst y = fst x" using assms Cons by (auto simp: mixed_def)
  have one: "unindexed_at [(b, at)] = (if b then None else Some at)" by (simp add: unindexed_at_def)
  from same have "mixed (xs @ [(b, at)]) \<longleftrightarrow> fst x \<noteq> b" using Cons by (auto simp: mixed_def)
  moreover have "unindexed_at xs = None \<longleftrightarrow> fst x" using same Cons by (auto simp: unindexed_at_None)
  moreover have "unindexed_at (xs @ [(b, at)]) =
      (case unindexed_at xs of None \<Rightarrow> if b then None else Some at | Some l \<Rightarrow> Some l)"
    by (simp only: unindexed_at_append one)
  moreover have "first_indexed (guard_after xs) = Some (fst x)" "first_indexed (guard_after (xs @ [(b, at)])) = Some (fst x)"
    "first_unindexed (guard_after ys) = unindexed_at ys" for ys :: "(bool \<times> 'a) list"
    using Cons by (simp_all add: guard_after_def)
  ultimately show ?thesis
    by (cases "unindexed_at xs"; cases b) (simp_all add: guard_observe_def Let_def)
qed

definition seen_of :: "BlobHeaderMeta list \<Rightarrow> (bool \<times> u64 \<times> u64) list" where
  "seen_of ms = map (\<lambda>m. (m_index m \<noteq> None, m_frame_start m, m_blob_index m)) (filter (\<lambda>m. m_blob_type m = OsmData) ms)"

lemma seen_of_simps [simp]:
  "seen_of [] = []" "seen_of (xs @ ys) = seen_of xs @ seen_of ys"
  "seen_of (m # ms) = (if m_blob_type m = OsmData then [(m_index m \<noteq> None, m_frame_start m, m_blob_index m)] else []) @ seen_of ms"
  by (simp_all add: seen_of_def)

definition partially_indexed :: "BlobHeaderMeta list \<Rightarrow> bool" where
  "partially_indexed ms \<longleftrightarrow> mixed (seen_of ms)"

lemma mixed_append: "mixed xs \<Longrightarrow> mixed (xs @ ys) \<and> unindexed_at (xs @ ys) = unindexed_at xs"
  by (auto simp: mixed_def unindexed_at_append unindexed_at_None split: option.split)

lemma step_guard_after:
  assumes "\<not> mixed xs"
  shows "step_guard (Some (guard_after xs)) m =
    (if mixed (xs @ seen_of [m]) then Inl (PartialIndex (the (unindexed_at (xs @ seen_of [m]))))
     else Inr (Some (guard_after (xs @ seen_of [m]))))"
proof (cases "m_blob_type m = OsmData")
  case True
  let ?ys = "xs @ [(m_index m \<noteq> None, m_frame_start m, m_blob_index m)]"
  have "mixed ?ys \<Longrightarrow> unindexed_at ?ys = None \<Longrightarrow> False" by (auto simp only: mixed_def unindexed_at_None)
  with True show ?thesis
    by (cases "mixed ?ys"; cases "unindexed_at ?ys") (auto simp only: step_guard_def guard_observe_after [OF assms]
        seen_of_simps option.case prod.case if_True if_False append.right_neutral option.sel simp_thms)
qed (simp add: step_guard_def assms)

section \<open>The walk\<close>

definition keeps :: "ElementKind option \<Rightarrow> BlobFilter option \<Rightarrow> BlobHeaderMeta \<Rightarrow> bool" where
  "keeps kf bf m \<longleftrightarrow> m_blob_type m = OsmData \<and> wanted_kind kf m \<and> \<not> fst (blob_filter_check (m_index m) (m_tagdata m) bf)"

definition metas_ok :: "BlobHeaderMeta list \<Rightarrow> bool" where
  "metas_ok ms \<longleftrightarrow> (\<forall>m \<in> set ms. meta_ok m)"

definition outcome :: "bool \<Rightarrow> BlobHeaderMeta list \<Rightarrow> 'a \<Rightarrow> schedule_error + 'a" where
  "outcome accept ms r =
     (if \<not> accept \<and> partially_indexed ms then Inl (PartialIndex (the (unindexed_at (seen_of ms)))) else Inr r)"

text \<open>A refusing walk and an exempt one, told apart by \<open>accept\<close>.\<close>

definition guard_for :: "bool \<Rightarrow> BlobHeaderMeta list \<Rightarrow> walk_guard" where
  "guard_for accept ms = (if accept then None else Some (guard_after (seen_of ms)))"

lemma step_guard_for:
  assumes "accept \<or> \<not> partially_indexed p"
  shows "step_guard (guard_for accept p) m = outcome accept (p @ [m]) (guard_for accept (p @ [m]))"
  using assms step_guard_after [of "seen_of p" m]
  by (cases accept) (simp_all add: guard_for_def outcome_def partially_indexed_def step_guard_def)

lemma outcome_append: "outcome False p r = Inl e \<Longrightarrow> outcome False (p @ ms) r' = Inl e"
  using mixed_append [of "seen_of p" "seen_of ms"]
  by (auto simp: outcome_def partially_indexed_def split: if_splits)

lemma outcome_Inr: "outcome accept p r = Inr r' \<Longrightarrow> r' = r \<and> (accept \<or> \<not> partially_indexed p)"
  by (auto simp: outcome_def split: if_splits)

lemma outcome_Inl: "outcome accept p r = Inl e \<Longrightarrow> outcome accept (p @ ms) r' = Inl e"
  using outcome_append [of p r e ms r'] by (cases accept) (auto simp: outcome_def)

lemma schedule_loop_eq:
  assumes "metas_ok ms" "accept \<or> \<not> partially_indexed p"
  shows "\<exists>n. schedule_loop kf bf claims (guard_for accept p) ms s i k =
    outcome accept (p @ ms) (s @ map (entry_of claims) (filter (keeps kf bf) ms), i @ map m_index (filter (keeps kf bf) ms), n)"
  using assms
proof (induction ms arbitrary: p s i k)
  case Nil
  then show ?case by (auto simp: outcome_def)
next
  case (Cons m ms)
  have m: "from_meta m claims = Inr (entry_of claims m)" "metas_ok ms"
    using Cons.prems(1) by (simp_all add: from_meta_eq metas_ok_def)
  show ?case
  proof (cases "outcome accept (p @ [m]) (guard_for accept (p @ [m]))")
    case (Inl e)
    have "outcome accept (p @ m # ms) r = Inl e"
      for r :: "ScheduledBlob list \<times> BlobIndex option list \<times> nat"
      using outcome_Inl [OF Inl, of ms r] by simp
    with Inl show ?thesis by (simp add: step_guard_for [OF Cons.prems(2)] del: filter.simps)
  next
    case (Inr g)
    have g: "g = guard_for accept (p @ [m])" "accept \<or> \<not> partially_indexed (p @ [m])"
      using outcome_Inr [OF Inr] by simp_all
    obtain sk tg where chk: "blob_filter_check (m_index m) (m_tagdata m) bf = (sk, tg)" by fastforce
    let ?loop = "schedule_loop kf bf claims g ms"
    have "schedule_loop kf bf claims (guard_for accept p) (m # ms) s i k =
        (if keeps kf bf m then ?loop (s @ [entry_of claims m]) (i @ [m_index m]) k
         else ?loop s i (if m_blob_type m = OsmData \<and> wanted_kind kf m \<and> tg then k + 1 else k))"
      unfolding schedule_loop.simps step_guard_for [OF Cons.prems(2)] Inr sum.case m(1) keeps_def chk prod.case fst_conv
      by (cases sk; cases tg) simp_all
    then show ?thesis
      using Cons.IH [OF m(2) g(2), of "s @ [entry_of claims m]" "i @ [m_index m]" k] Cons.IH [OF m(2) g(2), of s i]
      unfolding g(1) by (cases "keeps kf bf m") simp_all
  qed
qed

lemma consume_leading_eq:
  "consume_leading_header (guard_for accept []) file =
     (case file of
        [] \<Rightarrow> Inl MissingHeader
      | h # ms \<Rightarrow> if m_blob_type h = OsmHeader then Inr (guard_for accept [h], ms) else Inl MissingHeader)"
proof (cases "file")
  case (Cons h ms)
  have "\<not> partially_indexed [h]" by (auto simp: partially_indexed_def mixed_def)
  then have "outcome accept [h] g = Inr g" for g :: walk_guard by (simp add: outcome_def)
  with Cons show ?thesis
    using step_guard_for [of accept "[]" h] by (auto simp: partially_indexed_def mixed_def)
qed simp

lemma guard_for_Nil: "guard_for accept [] = (if accept then None else Some PartialIndexGuard_default)"
  by (simp add: guard_for_def)

lemma schedule_walk_eq:
  assumes "metas_ok file" "file = h # ms" "m_blob_type h = OsmHeader"
  shows "\<exists>n. schedule_walk file kf bf accept claims =
    outcome accept file (map (entry_of claims) (filter (keeps kf bf) file), map m_index (filter (keeps kf bf) file), n)"
proof -
  have "metas_ok ms" "\<not> partially_indexed [h]" "\<not> keeps kf bf h"
    using assms by (auto simp: metas_ok_def partially_indexed_def mixed_def keeps_def)
  then show ?thesis
    using schedule_loop_eq [of ms accept "[h]" kf bf claims "[]" "[]" 0] assms(2,3)
    by (simp add: schedule_walk_def guard_for_Nil [symmetric] consume_leading_eq del: consume_leading_header.simps)
qed

lemma build_classify_schedule_eq:
  assumes "metas_ok file" "file = h # ms" "m_blob_type h = OsmHeader"
  shows "build_classify_schedule file kf claims =
    outcome False file (map (entry_of claims) (filter (keeps kf None) file))"
  using schedule_walk_eq [OF assms, of kf None False claims]
  by (auto simp: build_classify_schedule_def build_classify_schedule_blob_filtered_def outcome_def)

section \<open>Schedules by kind: lemmas\<close>

abbreviation is_data :: "BlobHeaderMeta \<Rightarrow> bool" where
  "is_data m \<equiv> m_blob_type m = OsmData"

definition claims_kind :: "ElementKind \<Rightarrow> BlobHeaderMeta \<Rightarrow> bool" where
  "claims_kind k m \<longleftrightarrow> is_data m \<and> map_option kind (m_index m) = Some k"

lemma split_loop_eq:
  assumes "metas_ok ms" "\<not> partially_indexed p"
  shows "split_loop claims (guard_for False p) ms st =
    outcome False (p @ ms) (foldl (\<lambda>st m. split_entry m (entry_of claims m) st) st (filter is_data ms))"
  using assms
proof (induction ms arbitrary: p st)
  case Nil
  then show ?case by (simp add: outcome_def)
next
  case (Cons m ms)
  have m: "from_meta m claims = Inr (entry_of claims m)" "metas_ok ms"
    using Cons.prems(1) by (simp_all add: from_meta_eq metas_ok_def)
  have sg: "step_guard (guard_for False p) m = outcome False (p @ [m]) (guard_for False (p @ [m]))"
    by (rule step_guard_for) (simp add: Cons.prems(2))
  show ?case
  proof (cases "outcome False (p @ [m]) (guard_for False (p @ [m]))")
    case (Inl e)
    have "outcome False (p @ m # ms) r = Inl e" for r :: SplitState
      using outcome_Inl [OF Inl, of ms r] by simp
    with Inl show ?thesis by (simp add: sg del: filter.simps)
  next
    case (Inr g)
    have g: "g = guard_for False (p @ [m])" "\<not> partially_indexed (p @ [m])"
      using outcome_Inr [OF Inr] by simp_all
    show ?thesis using Cons.IH [OF m(2) g(2)] Inr
      by (simp add: sg m(1) g(1))
  qed
qed

lemma split_fold:
  assumes "\<forall>m \<in> set ms. is_data m"
  shows "foldl (\<lambda>st m. split_entry m (entry_of claims m) st) st ms =
    \<lparr>ss_nodes = ss_nodes st @ map (entry_of claims) (filter (claims_kind Node) ms),
     ss_ways = ss_ways st @ map (entry_of claims) (filter (claims_kind Way) ms),
     ss_rels = ss_rels st @ map (entry_of claims) (filter (claims_kind Relation) ms),
     ss_unindexed = ss_unindexed st @ map (entry_of claims) (filter (\<lambda>m. m_index m = None) ms),
     ss_max_node = foldl smax (ss_max_node st) (map (\<lambda>m. max_id (the (m_index m))) (filter (claims_kind Node) ms)),
     ss_max_way = foldl smax (ss_max_way st) (map (\<lambda>m. max_id (the (m_index m))) (filter (claims_kind Way) ms)),
     ss_max_rel = foldl smax (ss_max_rel st) (map (\<lambda>m. max_id (the (m_index m))) (filter (claims_kind Relation) ms))\<rparr>"
  using assms
proof (induction ms arbitrary: st)
  case (Cons m ms)
  show ?case
  proof (cases "m_index m")
    case None
    then show ?thesis using Cons by (simp add: split_entry_def claims_kind_def)
  next
    case (Some i)
    then show ?thesis using Cons by (cases "kind i") (simp_all add: split_entry_def claims_kind_def)
  qed
qed simp

lemma not_partial:
  assumes "\<not> partially_indexed ms"
  shows "filter (\<lambda>m. is_data m \<and> m_index m = None) ms = [] \<or> (\<forall>k. filter (claims_kind k) ms = [])"
  using assms by (auto simp: partially_indexed_def mixed_def seen_of_def filter_empty_conv claims_kind_def)

lemma split_schedules_eq:
  fixes claims :: KindClaims
  assumes "metas_ok file" "file = h # ms" "m_blob_type h = OsmHeader"
  defines "per k \<equiv> map (entry_of claims) (filter (claims_kind k) file)"
    and "highest k \<equiv> foldl smax 0 (map (\<lambda>m. max_id (the (m_index m))) (filter (claims_kind k) file))"
  shows "build_classify_schedules_split file claims =
    outcome False file
      (if \<exists>m \<in> set file. is_data m \<and> m_index m = None
       then Unindexed (map (entry_of claims) (filter is_data file))
       else Indexed (per Node) (per Way) (per Relation), [highest Node, highest Way, highest Relation])"
proof -
  have ms: "metas_ok ms" "\<not> partially_indexed [h]" "\<not> is_data h" "\<And>k. \<not> claims_kind k h"
    using assms(1-3) by (auto simp: metas_ok_def partially_indexed_def mixed_def claims_kind_def)
  have kinds: "filter (claims_kind k) (filter is_data ms) = filter (claims_kind k) file" for k
    using ms(4) assms(2) by (auto simp: claims_kind_def intro!: filter_cong)
  have un: "filter (\<lambda>m. m_index m = None) (filter is_data ms) = filter (\<lambda>m. is_data m \<and> m_index m = None) file"
    using ms(3) assms(2) by (simp add: conj_commute)
  let ?st = "\<lparr>ss_nodes = [], ss_ways = [], ss_rels = [], ss_unindexed = [], ss_max_node = 0, ss_max_way = 0, ss_max_rel = 0\<rparr>"
  have "split_loop claims (guard_for False [h]) ms ?st = outcome False file
      (foldl (\<lambda>st m. split_entry m (entry_of claims m) st) ?st (filter is_data ms))"
    using split_loop_eq [OF ms(1,2)] assms(2) by simp
  then have loop: "split_loop claims (guard_for False [h]) ms ?st = outcome False file
      \<lparr>ss_nodes = per Node, ss_ways = per Way, ss_rels = per Relation,
       ss_unindexed = map (entry_of claims) (filter (\<lambda>m. is_data m \<and> m_index m = None) file),
       ss_max_node = highest Node, ss_max_way = highest Way, ss_max_rel = highest Relation\<rparr>"
    by (subst (asm) split_fold) (simp_all only: kinds un per_def highest_def append_Nil SplitState.simps, simp)
  have lead: "consume_leading_header (Some PartialIndexGuard_default) file = Inr (guard_for False [h], ms)"
    using consume_leading_eq [of False "file"] assms(2,3) by (simp add: guard_for_Nil)
  show ?thesis
  proof (cases "partially_indexed file")
    case True
    then show ?thesis by (simp add: build_classify_schedules_split_def lead loop outcome_def)
  next
    case False
    have "filter is_data file = filter (\<lambda>m. is_data m \<and> m_index m = None) file"
      if "\<forall>k. filter (claims_kind k) file = []"
      using that by (intro filter_cong) (auto simp: filter_empty_conv claims_kind_def, metis option.exhaust)
    with False not_partial [OF False] show ?thesis
      by (auto simp: build_classify_schedules_split_def lead loop outcome_def per_def filter_empty_conv Let_def)
  qed
qed

section \<open>Decoding: lemmas\<close>

lemma block_kinds_eq: "kinds (block_kinds kd els) = kd ` set els"
proof -
  have "kinds (foldl (\<lambda>s e. KindSet_add s (kd e)) s els) = kinds s \<union> kd ` set els" for s
    by (induction els arbitrary: s) auto
  then show ?thesis by (simp add: block_kinds_def)
qed

lemma foreign_to_None: "KindSet_foreign_to s c = None \<longleftrightarrow> kinds s \<subseteq> {c}"
  unfolding foreign_to_eq_find kinds_def by (auto simp: find_None_iff) (metis ElementKind.exhaust)+

lemma refuse_under_ok: "KindSet_refuse_under s claim = Inr () \<longleftrightarrow> (\<forall>k. claim = Some k \<longrightarrow> kinds s \<subseteq> {k})"
  by (cases claim) (simp_all add: KindSet_refuse_under_def foreign_to_None [symmetric] split: option.split)

definition block_at :: "(u64 \<Rightarrow> nat \<Rightarrow> 'e list option) \<Rightarrow> BlobHeaderMeta \<Rightarrow> 'e list" where
  "block_at payload m = (case payload (m_data_offset m) (m_data_size m) of Some els \<Rightarrow> els | None \<Rightarrow> [])"

text \<open>A blob whose block decodes and holds only the kind its index (if any) claims.\<close>

definition blob_true :: "('e \<Rightarrow> ElementKind) \<Rightarrow> (u64 \<Rightarrow> nat \<Rightarrow> 'e list option) \<Rightarrow> KindClaims \<Rightarrow> BlobHeaderMeta \<Rightarrow> bool" where
  "blob_true kd payload claims m \<longleftrightarrow> payload (m_data_offset m) (m_data_size m) \<noteq> None \<and>
     (claims = Refuse \<longrightarrow> (\<forall>i e. m_index m = Some i \<longrightarrow> e \<in> set (block_at payload m) \<longrightarrow> kd e = kind i))"

lemma decode_entry_eq:
  assumes "meta_ok m" "blob_true kd payload claims m"
  shows "decode_entry kd payload (entry_of claims m) = Inr (block_at payload m)"
proof -
  obtain els where els: "payload (m_data_offset m) (m_data_size m) = Some els"
    using assms(2) by (auto simp: blob_true_def)
  then have b: "block_at payload m = els" by (simp add: block_at_def)
  have "KindSet_refuse_under (block_kinds kd els) (entry_claim (entry_of claims m)) = Inr ()"
    using assms(2) b
    by (auto simp: refuse_under_ok entry_of_reads(4) [OF assms(1)] block_kinds_eq blob_true_def split: if_splits)
  then show ?thesis by (simp add: decode_entry_def entry_of_reads [OF assms(1)] els b)
qed

lemma decode_all_eq:
  assumes "\<forall>m \<in> set ms. meta_ok m \<and> blob_true kd payload claims m"
  shows "decode_all kd payload (map (entry_of claims) ms) = Inr (map (block_at payload) ms)"
  using assms by (induction ms) (simp_all add: decode_entry_eq)

section \<open>Properties\<close>

text \<open>
  A schedule entry is a faithful handle. One is built for a header exactly when the
  header fits the packed fields; it then gives back the payload's offset and size and the
  frame's length exactly, the ordinal, and under \<open>Refuse\<close> the kind the index claims, while an
  unindexed blob or an unchecked schedule carries no claim.
\<close>

theorem scheduled_entry_exact:
  "(case from_meta m claims of
      Inr e \<Rightarrow>
        entry_data_offset e = m_data_offset m \<and> entry_data_size e = m_data_size m \<and>
        unat (m_frame_start m) + entry_frame_size e = unat (m_data_offset m) + m_data_size m \<and>
        sb_blob e = m_blob_index m \<and>
        entry_claim e = (if claims = Refuse then map_option kind (m_index m) else None)
    | Inl err \<Rightarrow> err = Internal) \<and>
   (isl (from_meta m claims) \<longleftrightarrow>
      \<not> (unat (m_frame_start m) + 4 \<le> unat (m_data_offset m) \<and>
         unat (m_data_offset m) < unat (m_frame_start m) + 4 + 65536 \<and> m_data_size m < 2 ^ 32))"
proof (cases "meta_ok m")
  case True
  then have "unat (m_frame_start m) + 4 \<le> unat (m_data_offset m)" by (simp add: meta_ok_def)
  with True show ?thesis
    by (simp add: from_meta_eq entry_of_reads [OF True] entry_of_def [THEN arg_cong [where f = sb_blob]])
      (auto simp: meta_ok_def)
next
  case False
  then show ?thesis by (auto simp: from_meta_eq meta_ok_def)
qed

text \<open>
  C37: the schedule walk. A file that does not open with a header blob is refused; a
  partially indexed one is refused, unless the walk is exempt, with the place of its first
  unindexed data blob whichever kind came first; otherwise the schedule is exactly the
  data blobs whose claimed kind and header fields the filters keep, in file order, with
  their index claims alongside.
\<close>

theorem schedule_walk_exact:
  assumes "metas_ok file"
  shows "case file of
      [] \<Rightarrow> schedule_walk file kf bf accept claims = Inl MissingHeader
    | h # ms \<Rightarrow>
        if m_blob_type h \<noteq> OsmHeader then schedule_walk file kf bf accept claims = Inl MissingHeader
        else if \<not> accept \<and> partially_indexed file
             then \<exists>m. find (\<lambda>m. is_data m \<and> m_index m = None) file = Some m \<and>
                    schedule_walk file kf bf accept claims = Inl (PartialIndex (m_frame_start m, m_blob_index m))
             else \<exists>n. schedule_walk file kf bf accept claims =
                    Inr (map (entry_of claims) (filter (keeps kf bf) file), map m_index (filter (keeps kf bf) file), n)"
proof (cases "file")
  case Nil
  then show ?thesis by (simp add: schedule_walk_def)
next
  case (Cons h ms)
  have at: "unindexed_at (seen_of xs) =
      map_option (\<lambda>m. (m_frame_start m, m_blob_index m)) (find (\<lambda>m. is_data m \<and> m_index m = None) xs)" for xs
    by (induction xs) (auto simp: unindexed_at_def)
  let ?first = "find (\<lambda>m. is_data m \<and> m_index m = None) file"
  show ?thesis
  proof (cases "m_blob_type h = OsmHeader")
    case False
    then show ?thesis using Cons consume_leading_eq [of accept "file"]
      by (simp add: schedule_walk_def guard_for_Nil [symmetric] del: consume_leading_header.simps)
  next
    case True
    have "partially_indexed file \<Longrightarrow> \<exists>m. ?first = Some m"
      using at [of "file"] unindexed_at_None [of "seen_of file"] by (cases ?first) (auto simp: partially_indexed_def mixed_def)
    then show ?thesis
      using schedule_walk_eq [OF assms Cons True, of kf bf accept claims] True at [of "file"]
      unfolding outcome_def by (cases "\<not> accept \<and> partially_indexed file") (auto simp: Cons)
  qed
qed

theorem schedule_walk_exact_witness:
  "let h = \<lparr>m_blob_type = OsmHeader, m_frame_start = 0, m_blob_index = 0, m_data_offset = 10, m_data_size = 5,
        m_index = None, m_tagdata = None\<rparr>;
       a = \<lparr>m_blob_type = OsmData, m_frame_start = 15, m_blob_index = 1, m_data_offset = 30, m_data_size = 7,
        m_index = Some \<lparr>kind = Way, min_id = 1, max_id = 2, count = 2, bbox = None\<rparr>, m_tagdata = None\<rparr>;
       b = \<lparr>m_blob_type = OsmData, m_frame_start = 37, m_blob_index = 2, m_data_offset = 50, m_data_size = 7,
        m_index = None, m_tagdata = None\<rparr>
   in schedule_walk [h, a, b] None None False Refuse = Inl (PartialIndex (37, 2)) \<and>
      (\<exists>n. schedule_walk [h, a, b] (Some Node) None True Refuse = Inr ([entry_of Refuse b], [None], n))"
proof -
  let ?h = "\<lparr>m_blob_type = OsmHeader, m_frame_start = 0, m_blob_index = 0, m_data_offset = 10, m_data_size = 5,
        m_index = None, m_tagdata = None\<rparr>"
  let ?a = "\<lparr>m_blob_type = OsmData, m_frame_start = 15, m_blob_index = 1, m_data_offset = 30, m_data_size = 7,
        m_index = Some \<lparr>kind = Way, min_id = 1, max_id = 2, count = 2, bbox = None\<rparr>, m_tagdata = None\<rparr>"
  let ?b = "\<lparr>m_blob_type = OsmData, m_frame_start = 37, m_blob_index = 2, m_data_offset = 50, m_data_size = 7,
        m_index = None, m_tagdata = None\<rparr>"
  have ok: "metas_ok [?h, ?a, ?b]" by (simp add: metas_ok_def meta_ok_def)
  have "partially_indexed [?h, ?a, ?b]" by (simp add: partially_indexed_def mixed_def)
  with schedule_walk_exact [OF ok, of None None False Refuse] schedule_walk_exact [OF ok, of "Some Node" None True Refuse]
  show ?thesis by (simp add: keeps_def wanted_kind_def blob_filter_check_def)
qed

text \<open>
  The one-pass split agrees with three separate walks. On any file the schedules by
  kind, with an unindexed file's blobs replicated, are exactly the schedules that the
  three per-kind walks build, and a file one of them refuses is refused by the other with
  the same error; the split's internal error for a mixture is unreachable.
\<close>

theorem split_agrees:
  assumes "metas_ok file"
  shows "case build_classify_schedules_split file claims of
      Inl err \<Rightarrow> \<forall>k. build_classify_schedule file (Some k) claims = Inl err
    | Inr (ks, _) \<Rightarrow>
        build_classify_schedule file (Some Node) claims = Inr (fst (into_replicated ks)) \<and>
        build_classify_schedule file (Some Way) claims = Inr (fst (snd (into_replicated ks))) \<and>
        build_classify_schedule file (Some Relation) claims = Inr (snd (snd (into_replicated ks)))"
proof (cases "\<exists>h ms. file = h # ms \<and> m_blob_type h = OsmHeader")
  case False
  then have "consume_leading_header (guard_for False []) file = Inl MissingHeader"
    by (auto simp: consume_leading_eq simp del: consume_leading_header.simps split: list.split)
  then show ?thesis
    by (simp add: build_classify_schedules_split_def build_classify_schedule_def
        build_classify_schedule_blob_filtered_def schedule_walk_def guard_for_Nil)
next
  case True
  then obtain h ms where f: "file = h # ms" "m_blob_type h = OsmHeader" by blast
  note eqs = split_schedules_eq [OF assms f, of claims] build_classify_schedule_eq [OF assms f]
  have k: "filter (keeps (Some k) None) file = filter (claims_kind k) file"
    if "\<not> (\<exists>m \<in> set file. is_data m \<and> m_index m = None)" for k
    using that by (intro filter_cong) (auto simp: keeps_def wanted_kind_def blob_filter_check_def claims_kind_def split: option.splits)
  have u: "filter (keeps (Some k) None) file = filter is_data file"
    if "\<exists>m \<in> set file. is_data m \<and> m_index m = None" "\<not> partially_indexed file" for k
  proof -
    have "m_index m = None" if "m \<in> set file" "is_data m" for m
      using not_partial [OF \<open>\<not> partially_indexed file\<close>] that \<open>\<exists>m \<in> set file. is_data m \<and> m_index m = None\<close>
      by (cases "m_index m") (auto simp: claims_kind_def filter_empty_conv)
    then show ?thesis by (intro filter_cong) (auto simp: keeps_def wanted_kind_def blob_filter_check_def)
  qed
  show ?thesis unfolding eqs by (auto simp: outcome_def k u)
qed

theorem split_agrees_witness:
  "let h = \<lparr>m_blob_type = OsmHeader, m_frame_start = 0, m_blob_index = 0, m_data_offset = 10, m_data_size = 5,
        m_index = None, m_tagdata = None\<rparr>;
       a = \<lparr>m_blob_type = OsmData, m_frame_start = 15, m_blob_index = 1, m_data_offset = 30, m_data_size = 7,
        m_index = None, m_tagdata = None\<rparr>
   in build_classify_schedules_split [h, a] Refuse = Inr (Unindexed [entry_of Refuse a], [0, 0, 0]) \<and>
      build_classify_schedule [h, a] (Some Relation) Refuse = Inr [entry_of Refuse a]"
proof -
  let ?h = "\<lparr>m_blob_type = OsmHeader, m_frame_start = 0, m_blob_index = 0, m_data_offset = 10, m_data_size = 5,
        m_index = None, m_tagdata = None\<rparr>"
  let ?a = "\<lparr>m_blob_type = OsmData, m_frame_start = 15, m_blob_index = 1, m_data_offset = 30, m_data_size = 7,
        m_index = None, m_tagdata = None\<rparr>"
  have ok: "metas_ok [?h, ?a]" by (simp add: metas_ok_def meta_ok_def)
  have b: "build_classify_schedules_split [?h, ?a] Refuse = Inr (Unindexed [entry_of Refuse ?a], [0, 0, 0])"
    using split_schedules_eq [OF ok refl, of Refuse]
    by (simp add: outcome_def partially_indexed_def mixed_def claims_kind_def)
  from split_agrees [OF ok, of Refuse] show ?thesis unfolding b by (simp add: b)
qed

end
