(* ===== verification/Tags_Filter.thy ===== *)
theory Tags_Filter
  imports Tag_Expr Id_Set Schedule "HOL-Library.Multiset"
begin

text \<open>
  The \<open>tags-filter\<close> command, \<open>src/src/commands/tags_filter/mod.rs\<close>: the single pass of
  \<open>-R\<close> and the two passes of the default mode, with the relation-member closure and the
  way-node dependencies between them. Blocks are lists of decoded elements; metadata, which
  the passes copy unread, the packing of written elements into output blocks, statistics
  markers and the output header are left out. Shown: what each mode writes, against an
  inductive definition of the elements the request needs, for every order in which the
  worker pools deliver their results, and that the closure loop ends.
\<close>

section \<open>Elements\<close>

type_synonym tags = "(str \<times> str) list"

datatype MemberId = NodeMember i64 | WayMember i64 | RelationMember i64 | UnknownMember i32 i64

record Member =
  mem_id :: MemberId
  mem_role :: str

datatype Element =
    DenseNode i64 i32 i32 tags
  | NodeEl i64 i32 i32 tags
  | WayEl i64 tags "i64 list"
  | RelationEl i64 tags "Member list"

fun el_kind :: "Element \<Rightarrow> ElementKind" where
  "el_kind (DenseNode _ _ _ _) = Node"
| "el_kind (NodeEl _ _ _ _) = Node"
| "el_kind (WayEl _ _ _) = Way"
| "el_kind (RelationEl _ _ _) = Relation"

fun el_id :: "Element \<Rightarrow> i64" where
  "el_id (DenseNode i _ _ _) = i"
| "el_id (NodeEl i _ _ _) = i"
| "el_id (WayEl i _ _) = i"
| "el_id (RelationEl i _ _) = i"

fun el_tags :: "Element \<Rightarrow> tags" where
  "el_tags (DenseNode _ _ _ ts) = ts"
| "el_tags (NodeEl _ _ _ ts) = ts"
| "el_tags (WayEl _ ts _) = ts"
| "el_tags (RelationEl _ ts _) = ts"

fun with_tags :: "Element \<Rightarrow> tags \<Rightarrow> Element" where
  "with_tags (DenseNode i lat lon _) ts = DenseNode i lat lon ts"
| "with_tags (NodeEl i lat lon _) ts = NodeEl i lat lon ts"
| "with_tags (WayEl i _ refs) ts = WayEl i ts refs"
| "with_tags (RelationEl i _ ms) ts = RelationEl i ts ms"

section \<open>Statistics\<close>

record TagsFilterStats =
  nodes_matched :: nat
  nodes_from_ways :: nat
  nodes_from_relations :: nat
  ways_matched :: nat
  ways_from_relations :: nat
  relations_matched :: nat
  relations_from_relations :: nat

definition stats_zero :: TagsFilterStats where
  "stats_zero = \<lparr>nodes_matched = 0, nodes_from_ways = 0, nodes_from_relations = 0, ways_matched = 0,
     ways_from_relations = 0, relations_matched = 0, relations_from_relations = 0\<rparr>"

definition count_matched :: "ElementKind \<Rightarrow> TagsFilterStats \<Rightarrow> TagsFilterStats" where
  "count_matched k s =
     (case k of
        Node \<Rightarrow> s\<lparr>nodes_matched := nodes_matched s + 1\<rparr>
      | Way \<Rightarrow> s\<lparr>ways_matched := ways_matched s + 1\<rparr>
      | Relation \<Rightarrow> s\<lparr>relations_matched := relations_matched s + 1\<rparr>)"

section \<open>The single pass\<close>

text \<open>\<open>filter_block_parallel\<close>: the elements written for a block, and its counts.\<close>

definition filter_element ::
  "Expression list \<Rightarrow> bool \<Rightarrow> Element list \<times> TagsFilterStats \<Rightarrow> Element \<Rightarrow> Element list \<times> TagsFilterStats" where
  "filter_element es invert st e =
     (if element_matches es (el_tags e) (el_kind e) \<noteq> invert
      then (fst st @ [e], count_matched (el_kind e) (snd st))
      else st)"

definition filter_block_parallel :: "Expression list \<Rightarrow> bool \<Rightarrow> Element list \<Rightarrow> Element list \<times> TagsFilterStats" where
  "filter_block_parallel es invert block = foldl (filter_element es invert) ([], stats_zero) block"

definition add_matched :: "TagsFilterStats \<Rightarrow> TagsFilterStats \<Rightarrow> TagsFilterStats" where
  "add_matched s b = s\<lparr>nodes_matched := nodes_matched s + nodes_matched b,
     ways_matched := ways_matched s + ways_matched b,
     relations_matched := relations_matched s + relations_matched b\<rparr>"

text \<open>
  The file as the pipelined reader delivers it: the header fields and the payload of each
  data blob in order. The reader refuses a partially indexed file; its decode step skips a
  blob the filter rejects, and refuses a block contradicting its claim unless metadata is
  distrusted.
\<close>

fun single_pass_loop ::
  "Expression list \<Rightarrow> bool \<Rightarrow> bool \<Rightarrow> BlobFilter option \<Rightarrow> nat PartialIndexGuard \<Rightarrow> nat \<Rightarrow>
   (BlobFields \<times> Element list option) list \<Rightarrow> Element list \<Rightarrow> TagsFilterStats \<Rightarrow>
   (nat + schedule_error) + Element list \<times> TagsFilterStats" where
  "single_pass_loop es invert distrust f g n [] out stats = Inr (out, stats)"
| "single_pass_loop es invert distrust f g n ((blob, block) # blobs) out stats =
     (case guard_observe g (blob_index blob \<noteq> None) n of
        (_, Some at) \<Rightarrow> Inl (Inl at)
      | (g, None) \<Rightarrow>
          if (case f of Some f \<Rightarrow> should_skip_blob f blob | None \<Rightarrow> False)
          then single_pass_loop es invert distrust f g (Suc n) blobs out stats
          else
            (case block of
               None \<Rightarrow> Inl (Inr DecodeFailed)
             | Some els \<Rightarrow>
                 (case (if distrust then Inr ()
                        else KindSet_refuse_under (block_kinds el_kind els) (map_option kind (blob_index blob))) of
                    Inl err \<Rightarrow> Inl (Inr (ClaimRefused err))
                  | Inr _ \<Rightarrow>
                      let (written, block_stats) = filter_block_parallel es invert els
                      in single_pass_loop es invert distrust f g (Suc n) blobs (out @ written)
                           (add_matched stats block_stats))))"

definition tags_filter_single_pass ::
  "(BlobFields \<times> Element list option) list \<Rightarrow> Expression list \<Rightarrow> bool \<Rightarrow> bool \<Rightarrow>
   (nat + schedule_error) + Element list \<times> TagsFilterStats" where
  "tags_filter_single_pass blobs es invert distrust_metadata =
     single_pass_loop es invert distrust_metadata (trusted_blob_filter es invert distrust_metadata)
       PartialIndexGuard_default 0 blobs [] stats_zero"

section \<open>Pass 1: direct matches\<close>

definition kind_claims :: "bool \<Rightarrow> KindClaims" where
  "kind_claims distrust_metadata = (if distrust_metadata then Unchecked else Refuse)"

record ClassifyResult =
  cr_nodes :: "i64 list"
  cr_ways :: "(i64 \<times> i64 list) list"
  cr_relations :: "i64 list"

fun classify_element :: "Expression list \<Rightarrow> bool \<Rightarrow> ClassifyResult \<Rightarrow> Element \<Rightarrow> ClassifyResult" where
  "classify_element es invert r (DenseNode i _ _ ts) =
     (if element_matches es ts Node \<noteq> invert then r\<lparr>cr_nodes := cr_nodes r @ [i]\<rparr> else r)"
| "classify_element es invert r (NodeEl i _ _ ts) =
     (if element_matches es ts Node \<noteq> invert then r\<lparr>cr_nodes := cr_nodes r @ [i]\<rparr> else r)"
| "classify_element es invert r (WayEl i ts refs) =
     (if element_matches es ts Way \<noteq> invert then r\<lparr>cr_ways := cr_ways r @ [(i, refs)]\<rparr> else r)"
| "classify_element es invert r (RelationEl i ts _) =
     (if element_matches es ts Relation \<noteq> invert then r\<lparr>cr_relations := cr_relations r @ [i]\<rparr> else r)"

definition classify_block :: "Expression list \<Rightarrow> bool \<Rightarrow> Element list \<Rightarrow> ClassifyResult" where
  "classify_block es invert block =
     foldl (classify_element es invert) \<lparr>cr_nodes = [], cr_ways = [], cr_relations = []\<rparr> block"

record IdSets =
  matched_node_ids :: IdSet
  direct_way_ids :: IdSet
  included_way_ids :: IdSet
  direct_relation_ids :: IdSet
  included_relation_ids :: IdSet
  way_dep_node_ids :: IdSet
  relation_dep_node_ids :: IdSet
  has_included_way :: bool
  has_included_relation :: bool

definition IdSets_new :: IdSets where
  "IdSets_new = \<lparr>matched_node_ids = IdSet_new, direct_way_ids = IdSet_new, included_way_ids = IdSet_new,
     direct_relation_ids = IdSet_new, included_relation_ids = IdSet_new, way_dep_node_ids = IdSet_new,
     relation_dep_node_ids = IdSet_new, has_included_way = False, has_included_relation = False\<rparr>"

definition merge_way :: "IdSets \<Rightarrow> i64 \<times> i64 list \<Rightarrow> IdSets" where
  "merge_way s w =
     (let s = s\<lparr>direct_way_ids := set_id (direct_way_ids s) (fst w)\<rparr>;
          (inc, fresh) = set_if_new (included_way_ids s) (fst w);
          s = s\<lparr>included_way_ids := inc, has_included_way := has_included_way s \<or> fresh\<rparr>
      in s\<lparr>way_dep_node_ids := foldl set_id (way_dep_node_ids s) (snd w)\<rparr>)"

definition merge_relation :: "IdSets \<Rightarrow> i64 \<Rightarrow> IdSets" where
  "merge_relation s i =
     (let s = s\<lparr>direct_relation_ids := set_id (direct_relation_ids s) i\<rparr>;
          (inc, fresh) = set_if_new (included_relation_ids s) i
      in s\<lparr>included_relation_ids := inc, has_included_relation := has_included_relation s \<or> fresh\<rparr>)"

definition merge_classify :: "IdSets \<Rightarrow> ClassifyResult \<Rightarrow> IdSets" where
  "merge_classify s r =
     (let s = s\<lparr>matched_node_ids := foldl set_id (matched_node_ids s) (cr_nodes r)\<rparr>;
          s = foldl merge_way s (cr_ways r)
      in foldl merge_relation s (cr_relations r))"

section \<open>The relation-member closure\<close>

definition kind_schedule_filter :: "ElementKind \<Rightarrow> bool \<Rightarrow> ElementKind option" where
  "kind_schedule_filter k distrust_metadata = (if distrust_metadata then None else Some k)"

record ClosureResult =
  clo_nodes :: "i64 list"
  clo_ways :: "i64 list"
  clo_relations :: "i64 list"

definition closure_member :: "ClosureResult \<Rightarrow> Member \<Rightarrow> ClosureResult" where
  "closure_member r m =
     (case mem_id m of
        NodeMember i \<Rightarrow> r\<lparr>clo_nodes := clo_nodes r @ [i]\<rparr>
      | WayMember i \<Rightarrow> r\<lparr>clo_ways := clo_ways r @ [i]\<rparr>
      | RelationMember i \<Rightarrow> r\<lparr>clo_relations := clo_relations r @ [i]\<rparr>
      | UnknownMember _ _ \<Rightarrow> r)"

fun closure_element :: "IdSet \<Rightarrow> ClosureResult \<Rightarrow> Element \<Rightarrow> ClosureResult" where
  "closure_element included r (RelationEl i _ ms) =
     (if get included i then foldl closure_member r ms else r)"
| "closure_element included r _ = r"

text \<open>One worker's accumulation over the blocks it was given.\<close>

definition closure_worker :: "IdSet \<Rightarrow> Element list list \<Rightarrow> ClosureResult" where
  "closure_worker included blocks =
     foldl (foldl (closure_element included)) \<lparr>clo_nodes = [], clo_ways = [], clo_relations = []\<rparr> blocks"

record ClosureState =
  cs_relations :: IdSet
  cs_ways :: IdSet
  cs_nodes :: IdSet
  has_way :: bool
  has_relation :: bool
  added_relations :: nat

definition closure_add_way :: "ClosureState \<Rightarrow> i64 \<Rightarrow> ClosureState" where
  "closure_add_way s i =
     (let (w, fresh) = set_if_new (cs_ways s) i in s\<lparr>cs_ways := w, has_way := has_way s \<or> fresh\<rparr>)"

definition closure_add_relation :: "ClosureState \<Rightarrow> i64 \<Rightarrow> ClosureState" where
  "closure_add_relation s i =
     (let (r, fresh) = set_if_new (cs_relations s) i
      in s\<lparr>cs_relations := r, added_relations := added_relations s + (if fresh then 1 else 0)\<rparr>)"

definition closure_merge :: "ClosureState \<Rightarrow> ClosureResult \<Rightarrow> ClosureState" where
  "closure_merge s r =
     (let s = (if clo_nodes r \<noteq> [] \<or> clo_ways r \<noteq> [] \<or> clo_relations r \<noteq> [] then s\<lparr>has_relation := True\<rparr> else s);
          s = s\<lparr>cs_nodes := foldl set_id (cs_nodes s) (clo_nodes r)\<rparr>;
          s = foldl closure_add_way s (clo_ways r)
      in foldl closure_add_relation s (clo_relations r))"

text \<open>
  One turn of the convergence loop: the workers read the relation set as it stood at the
  start of the turn, and their results are merged afterwards.
\<close>

definition closure_turn :: "(Element list list \<Rightarrow> Element list list list) \<Rightarrow> Element list list \<Rightarrow> ClosureState \<Rightarrow> ClosureState" where
  "closure_turn assign blocks s =
     (let s = s\<lparr>added_relations := 0\<rparr>
      in foldl closure_merge s (map (closure_worker (cs_relations s)) (assign blocks)))"

partial_function (option) closure_loop ::
  "(nat \<Rightarrow> Element list list \<Rightarrow> Element list list list) \<Rightarrow> nat \<Rightarrow> Element list list \<Rightarrow> ClosureState \<Rightarrow> ClosureState option" where
  "closure_loop assign n blocks s =
     (let s = closure_turn (assign n) blocks s
      in if added_relations s = 0 then Some s else closure_loop assign (Suc n) blocks s)"

definition collect_relation_member_closure ::
  "(nat \<Rightarrow> Element list list \<Rightarrow> Element list list list) \<Rightarrow> (u64 \<Rightarrow> nat \<Rightarrow> Element list option) \<Rightarrow>
   BlobHeaderMeta list \<Rightarrow> bool \<Rightarrow> IdSets \<Rightarrow> (schedule_error + IdSets) option" where
  "collect_relation_member_closure assign payload file distrust s =
     (case build_classify_schedule file (kind_schedule_filter Relation distrust) (kind_claims distrust) of
        Inl e \<Rightarrow> Some (Inl e)
      | Inr schedule \<Rightarrow>
          (case decode_all el_kind payload schedule of
             Inl e \<Rightarrow> Some (Inl e)
           | Inr blocks \<Rightarrow>
               (case closure_loop assign 0 blocks
                       \<lparr>cs_relations = included_relation_ids s, cs_ways = included_way_ids s,
                        cs_nodes = relation_dep_node_ids s, has_way = False, has_relation = False,
                        added_relations = 0\<rparr> of
                  None \<Rightarrow> None
                | Some c \<Rightarrow>
                    Some (Inr (s\<lparr>included_relation_ids := cs_relations c, included_way_ids := cs_ways c,
                                 relation_dep_node_ids := cs_nodes c,
                                 has_included_way := has_included_way s \<or> has_way c,
                                 has_included_relation := has_included_relation s \<or> has_relation c\<rparr>)))))"

section \<open>Way-node dependencies\<close>

fun waydeps_element :: "IdSet \<Rightarrow> IdSet \<Rightarrow> Element \<Rightarrow> i64 list" where
  "waydeps_element included skip (WayEl i _ refs) = (if get included i \<and> \<not> get skip i then refs else [])"
| "waydeps_element included skip _ = []"

definition collect_way_node_dependencies ::
  "(i64 list list \<Rightarrow> i64 list list) \<Rightarrow> (u64 \<Rightarrow> nat \<Rightarrow> Element list option) \<Rightarrow> BlobHeaderMeta list \<Rightarrow>
   bool \<Rightarrow> IdSets \<Rightarrow> schedule_error + IdSets" where
  "collect_way_node_dependencies deliver payload file distrust s =
     (case build_classify_schedule file (kind_schedule_filter Way distrust) (kind_claims distrust) of
        Inl e \<Rightarrow> Inl e
      | Inr schedule \<Rightarrow>
          (case decode_all el_kind payload schedule of
             Inl e \<Rightarrow> Inl e
           | Inr blocks \<Rightarrow>
               Inr (s\<lparr>relation_dep_node_ids :=
                 foldl (foldl set_id) (relation_dep_node_ids s)
                   (deliver (map (concat \<circ> map (waydeps_element (included_way_ids s) (direct_way_ids s))) blocks))\<rparr>)))"

section \<open>Pass 2: writing\<close>

fun pass2_loop ::
  "BlobFilter option \<Rightarrow> KindClaims \<Rightarrow> walk_guard \<Rightarrow> BlobHeaderMeta list \<Rightarrow> ScheduledBlob list \<Rightarrow>
   schedule_error + ScheduledBlob list" where
  "pass2_loop bf claims wg [] schedule = Inr schedule"
| "pass2_loop bf claims wg (m # ms) schedule =
     (case step_guard wg m of
        Inl e \<Rightarrow> Inl e
      | Inr wg \<Rightarrow>
          if m_blob_type m \<noteq> OsmData then pass2_loop bf claims wg ms schedule
          else if (case (bf, m_index m) of (Some f, Some idx) \<Rightarrow> \<not> wants_index f idx | _ \<Rightarrow> False)
               then pass2_loop bf claims wg ms schedule
               else case from_meta m claims of
                      Inl e \<Rightarrow> Inl e
                    | Inr e \<Rightarrow> pass2_loop bf claims wg ms (schedule @ [e]))"

text \<open>
  \<open>filter_block_pass2\<close>. An element written because it was only referenced loses its tags
  under \<open>remove_tags\<close>.
\<close>

definition pass2_element ::
  "IdSets \<Rightarrow> bool \<Rightarrow> Element list \<times> TagsFilterStats \<Rightarrow> Element \<Rightarrow> Element list \<times> TagsFilterStats" where
  "pass2_element sets remove_tags st e =
     (let (out, s) = st; i = el_id e
      in case el_kind e of
           Node \<Rightarrow>
             (let direct = get (matched_node_ids sets) i; from_way = get (way_dep_node_ids sets) i;
                  from_relation = get (relation_dep_node_ids sets) i
              in if direct \<or> from_way \<or> from_relation
                 then (out @ [with_tags e (if \<not> remove_tags \<or> direct then el_tags e else [])],
                       if direct then s\<lparr>nodes_matched := nodes_matched s + 1\<rparr>
                       else if from_way then s\<lparr>nodes_from_ways := nodes_from_ways s + 1\<rparr>
                       else s\<lparr>nodes_from_relations := nodes_from_relations s + 1\<rparr>)
                 else st)
         | Way \<Rightarrow>
             (if get (included_way_ids sets) i
              then let direct = get (direct_way_ids sets) i
                   in (out @ [with_tags e (if \<not> remove_tags \<or> direct then el_tags e else [])],
                       if direct then s\<lparr>ways_matched := ways_matched s + 1\<rparr>
                       else s\<lparr>ways_from_relations := ways_from_relations s + 1\<rparr>)
              else st)
         | Relation \<Rightarrow>
             (if get (included_relation_ids sets) i
              then let direct = get (direct_relation_ids sets) i
                   in (out @ [with_tags e (if \<not> remove_tags \<or> direct then el_tags e else [])],
                       if direct then s\<lparr>relations_matched := relations_matched s + 1\<rparr>
                       else s\<lparr>relations_from_relations := relations_from_relations s + 1\<rparr>)
              else st))"

definition filter_block_pass2 :: "IdSets \<Rightarrow> bool \<Rightarrow> Element list \<Rightarrow> Element list \<times> TagsFilterStats" where
  "filter_block_pass2 sets remove_tags block = foldl (pass2_element sets remove_tags) ([], stats_zero) block"

definition add_stats :: "TagsFilterStats \<Rightarrow> TagsFilterStats \<Rightarrow> TagsFilterStats" where
  "add_stats s b = \<lparr>nodes_matched = nodes_matched s + nodes_matched b,
     nodes_from_ways = nodes_from_ways s + nodes_from_ways b,
     nodes_from_relations = nodes_from_relations s + nodes_from_relations b,
     ways_matched = ways_matched s + ways_matched b,
     ways_from_relations = ways_from_relations s + ways_from_relations b,
     relations_matched = relations_matched s + relations_matched b,
     relations_from_relations = relations_from_relations s + relations_from_relations b\<rparr>"

section \<open>The two passes\<close>

text \<open>
  How the pools deliver: the classify pool hands its results over in the order the workers
  finish, the accumulating pool folds over whichever blocks each worker took, in every turn
  of the closure anew. The ordered pool of pass 2 delivers in schedule order.
\<close>

record Timing =
  deliver_classify :: "ClassifyResult list \<Rightarrow> ClassifyResult list"
  assign_closure :: "nat \<Rightarrow> Element list list \<Rightarrow> Element list list list"
  deliver_refs :: "i64 list list \<Rightarrow> i64 list list"

definition pass1 ::
  "Timing \<Rightarrow> (u64 \<Rightarrow> nat \<Rightarrow> Element list option) \<Rightarrow> BlobHeaderMeta list \<Rightarrow> Expression list \<Rightarrow> bool \<Rightarrow> bool \<Rightarrow>
   schedule_error + IdSets" where
  "pass1 t payload file es invert distrust =
     (case schedule_walk file None (trusted_blob_filter es invert distrust) False (kind_claims distrust) of
        Inl e \<Rightarrow> Inl e
      | Inr (schedule, _) \<Rightarrow>
          (case decode_all el_kind payload schedule of
             Inl e \<Rightarrow> Inl e
           | Inr blocks \<Rightarrow>
               Inr (foldl merge_classify IdSets_new (deliver_classify t (map (classify_block es invert) blocks)))))"

definition pass2 ::
  "(u64 \<Rightarrow> nat \<Rightarrow> Element list option) \<Rightarrow> BlobHeaderMeta list \<Rightarrow> bool \<Rightarrow> bool \<Rightarrow> bool \<Rightarrow> IdSets \<Rightarrow>
   schedule_error + Element list \<times> TagsFilterStats" where
  "pass2 payload file invert distrust remove_tags sets =
     (let blob_filter = (if invert \<or> distrust then None
                         else Some (BlobFilter_new True (has_included_way sets) (has_included_relation sets)))
      in case consume_leading_header (Some PartialIndexGuard_default) file of
           Inl e \<Rightarrow> Inl e
         | Inr (wg, ms) \<Rightarrow>
             (case pass2_loop blob_filter (kind_claims distrust) wg ms [] of
                Inl e \<Rightarrow> Inl e
              | Inr schedule \<Rightarrow>
                  (case decode_all el_kind payload schedule of
                     Inl e \<Rightarrow> Inl e
                   | Inr blocks \<Rightarrow>
                       Inr (foldl (\<lambda>(out, stats) block.
                              let (written, block_stats) = filter_block_pass2 sets remove_tags block
                              in (out @ written, add_stats stats block_stats)) ([], stats_zero) blocks))))"

definition tags_filter_two_pass ::
  "Timing \<Rightarrow> (u64 \<Rightarrow> nat \<Rightarrow> Element list option) \<Rightarrow> BlobHeaderMeta list \<Rightarrow> Expression list \<Rightarrow> bool \<Rightarrow> bool \<Rightarrow> bool \<Rightarrow>
   (schedule_error + Element list \<times> TagsFilterStats) option" where
  "tags_filter_two_pass t payload file es invert distrust remove_tags =
     (case pass1 t payload file es invert distrust of
        Inl e \<Rightarrow> Some (Inl e)
      | Inr sets \<Rightarrow>
          (case (if has_included_relation sets
                 then collect_relation_member_closure (assign_closure t) payload file distrust sets
                 else Some (Inr sets)) of
             None \<Rightarrow> None
           | Some (Inl e) \<Rightarrow> Some (Inl e)
           | Some (Inr sets) \<Rightarrow>
               (case collect_way_node_dependencies (deliver_refs t) payload file distrust sets of
                  Inl e \<Rightarrow> Some (Inl e)
                | Inr sets \<Rightarrow> Some (pass2 payload file invert distrust remove_tags sets))))"

lemma all_kinds: "(\<forall>k. P k) \<longleftrightarrow> P Node \<and> P Way \<and> P Relation"
  by (metis ElementKind.exhaust)

section \<open>ID sets as sets\<close>

definition mem :: "IdSet \<Rightarrow> i64 set" where
  "mem s = {i. get s i}"

definition valid :: "i64 list \<Rightarrow> i64 set" where
  "valid xs = {x \<in> set xs. 0 \<le>s x}"

lemma valid_simps [simp]:
  "valid [] = {}" "valid (xs @ ys) = valid xs \<union> valid ys"
  "valid (x # xs) = (if 0 \<le>s x then insert x (valid xs) else valid xs)"
  by (auto simp: valid_def)

lemma get_mem: "get s i \<longleftrightarrow> i \<in> mem s"
  by (simp add: mem_def)

lemma mem_new [simp]: "mem IdSet_new = {}"
  by (simp add: mem_def id_sets.none_has)

lemma mem_set_id [simp]: "set_wf s \<Longrightarrow> mem (set_id s i) = mem s \<union> valid [i]"
  by (auto simp: mem_def id_sets.put_has)

lemma mem_foldl [simp]: "set_wf s \<Longrightarrow> mem (foldl set_id s xs) = mem s \<union> valid xs"
  using id_sets.put_all [of s xs] by (auto simp: mem_def valid_def)

lemma set_foldl_wf [simp]: "set_wf s \<Longrightarrow> set_wf (foldl set_id s xs)" "set_wf s \<Longrightarrow> set_wf (set_id s i)"
  using id_sets.put_all id_sets.put_ok by auto

lemma set_if_new_mem: "set_wf s \<Longrightarrow> set_if_new s i = (set_id s i, \<not> valid [i] \<subseteq> mem s)"
  by (simp add: id_sets.put_new_eq mem_def)

section \<open>Pass 1: lemmas\<close>

definition selected :: "Expression list \<Rightarrow> bool \<Rightarrow> Element \<Rightarrow> bool" where
  "selected es invert e \<longleftrightarrow> element_matches es (el_tags e) (el_kind e) \<noteq> invert"

definition picks :: "Expression list \<Rightarrow> bool \<Rightarrow> ElementKind \<Rightarrow> Element list \<Rightarrow> Element list" where
  "picks es invert k els = filter (\<lambda>e. selected es invert e \<and> el_kind e = k) els"

fun el_refs :: "Element \<Rightarrow> i64 list" where
  "el_refs (WayEl _ _ refs) = refs"
| "el_refs _ = []"

lemma classify_block_eq:
  "classify_block es invert els =
     \<lparr>cr_nodes = map el_id (picks es invert Node els),
      cr_ways = map (\<lambda>e. (el_id e, el_refs e)) (picks es invert Way els),
      cr_relations = map el_id (picks es invert Relation els)\<rparr>"
proof (induction els rule: rev_induct)
  case (snoc e els)
  then show ?case by (cases e) (simp_all add: classify_block_def picks_def selected_def)
qed (simp add: classify_block_def picks_def)

definition sets_wf :: "IdSets \<Rightarrow> bool" where
  "sets_wf s \<longleftrightarrow> set_wf (matched_node_ids s) \<and> set_wf (direct_way_ids s) \<and> set_wf (included_way_ids s) \<and>
     set_wf (direct_relation_ids s) \<and> set_wf (included_relation_ids s) \<and> set_wf (way_dep_node_ids s) \<and>
     set_wf (relation_dep_node_ids s) \<and>
     (has_included_way s \<longleftrightarrow> mem (included_way_ids s) \<noteq> {}) \<and>
     (has_included_relation s \<longleftrightarrow> mem (included_relation_ids s) \<noteq> {})"

text \<open>The seven sets as sets: what the refinement of the merges is stated over.\<close>

record Sets =
  Nodes :: "i64 set"
  Direct_Ways :: "i64 set"
  Ways :: "i64 set"
  Direct_Relations :: "i64 set"
  Relations :: "i64 set"
  Way_Deps :: "i64 set"
  Relation_Deps :: "i64 set"

definition view :: "IdSets \<Rightarrow> Sets" where
  "view s = \<lparr>Nodes = mem (matched_node_ids s), Direct_Ways = mem (direct_way_ids s), Ways = mem (included_way_ids s),
     Direct_Relations = mem (direct_relation_ids s), Relations = mem (included_relation_ids s),
     Way_Deps = mem (way_dep_node_ids s), Relation_Deps = mem (relation_dep_node_ids s)\<rparr>"

lemma sets_new: "sets_wf IdSets_new"
  "view IdSets_new = \<lparr>Nodes = {}, Direct_Ways = {}, Ways = {}, Direct_Relations = {}, Relations = {}, Way_Deps = {}, Relation_Deps = {}\<rparr>"
  by (simp_all add: sets_wf_def view_def IdSets_new_def)

lemma merge_way_view:
  assumes "sets_wf s"
  shows "sets_wf (merge_way s w)"
    "view (merge_way s w) = (view s)\<lparr>Direct_Ways := Direct_Ways (view s) \<union> valid [fst w],
       Ways := Ways (view s) \<union> valid [fst w], Way_Deps := Way_Deps (view s) \<union> valid (snd w)\<rparr>"
  using assms by (auto simp: merge_way_def Let_def set_if_new_mem sets_wf_def view_def)

lemma merge_relation_view:
  assumes "sets_wf s"
  shows "sets_wf (merge_relation s i)"
    "view (merge_relation s i) = (view s)\<lparr>Direct_Relations := Direct_Relations (view s) \<union> valid [i],
       Relations := Relations (view s) \<union> valid [i]\<rparr>"
  using assms by (auto simp: merge_relation_def Let_def set_if_new_mem sets_wf_def view_def)

lemma merge_ways_view:
  assumes "sets_wf s"
  shows "sets_wf (foldl merge_way s ws)"
    "view (foldl merge_way s ws) = (view s)\<lparr>Direct_Ways := Direct_Ways (view s) \<union> valid (map fst ws),
       Ways := Ways (view s) \<union> valid (map fst ws), Way_Deps := Way_Deps (view s) \<union> valid (concat (map snd ws))\<rparr>"
  using assms by (induction ws arbitrary: s) (simp_all add: merge_way_view Un_assoc)

lemma merge_relations_view:
  assumes "sets_wf s"
  shows "sets_wf (foldl merge_relation s is)"
    "view (foldl merge_relation s is) = (view s)\<lparr>Direct_Relations := Direct_Relations (view s) \<union> valid is,
       Relations := Relations (view s) \<union> valid is\<rparr>"
  using assms by (induction "is" arbitrary: s) (simp_all add: merge_relation_view Un_assoc)

lemma merge_classify_view:
  assumes "sets_wf s"
  shows "sets_wf (merge_classify s r)"
    "view (merge_classify s r) =
       \<lparr>Nodes = Nodes (view s) \<union> valid (cr_nodes r),
        Direct_Ways = Direct_Ways (view s) \<union> valid (map fst (cr_ways r)),
        Ways = Ways (view s) \<union> valid (map fst (cr_ways r)),
        Direct_Relations = Direct_Relations (view s) \<union> valid (cr_relations r),
        Relations = Relations (view s) \<union> valid (cr_relations r),
        Way_Deps = Way_Deps (view s) \<union> valid (concat (map snd (cr_ways r))),
        Relation_Deps = Relation_Deps (view s)\<rparr>"
proof -
  let ?s = "s\<lparr>matched_node_ids := foldl set_id (matched_node_ids s) (cr_nodes r)\<rparr>"
  have 1: "sets_wf ?s" "view ?s = (view s)\<lparr>Nodes := Nodes (view s) \<union> valid (cr_nodes r)\<rparr>"
    using assms by (simp_all add: sets_wf_def view_def)
  note 2 = merge_ways_view [OF 1(1), of "cr_ways r"]
  note 3 = merge_relations_view [OF 2(1), of "cr_relations r"]
  from 1 2 3 show "sets_wf (merge_classify s r)" "view (merge_classify s r) =
       \<lparr>Nodes = Nodes (view s) \<union> valid (cr_nodes r),
        Direct_Ways = Direct_Ways (view s) \<union> valid (map fst (cr_ways r)),
        Ways = Ways (view s) \<union> valid (map fst (cr_ways r)),
        Direct_Relations = Direct_Relations (view s) \<union> valid (cr_relations r),
        Relations = Relations (view s) \<union> valid (cr_relations r),
        Way_Deps = Way_Deps (view s) \<union> valid (concat (map snd (cr_ways r))),
        Relation_Deps = Relation_Deps (view s)\<rparr>"
    by (simp_all add: merge_classify_def Let_def)
qed

lemma valid_concat: "valid (concat (map f rs)) = (\<Union>r \<in> set rs. valid (f r))"
  by (induction rs) auto

lemma merge_all_view:
  assumes "sets_wf s"
  shows "sets_wf (foldl merge_classify s rs)"
    "view (foldl merge_classify s rs) =
       \<lparr>Nodes = Nodes (view s) \<union> (\<Union>r \<in> set rs. valid (cr_nodes r)),
        Direct_Ways = Direct_Ways (view s) \<union> (\<Union>r \<in> set rs. valid (map fst (cr_ways r))),
        Ways = Ways (view s) \<union> (\<Union>r \<in> set rs. valid (map fst (cr_ways r))),
        Direct_Relations = Direct_Relations (view s) \<union> (\<Union>r \<in> set rs. valid (cr_relations r)),
        Relations = Relations (view s) \<union> (\<Union>r \<in> set rs. valid (cr_relations r)),
        Way_Deps = Way_Deps (view s) \<union> (\<Union>r \<in> set rs. valid (concat (map snd (cr_ways r)))),
        Relation_Deps = Relation_Deps (view s)\<rparr>"
  using assms by (induction rs arbitrary: s) (simp_all add: merge_classify_view Un_assoc)

definition picked_ids :: "Expression list \<Rightarrow> bool \<Rightarrow> ElementKind \<Rightarrow> Element set \<Rightarrow> i64 set" where
  "picked_ids es invert k els = {el_id e |e. e \<in> els \<and> selected es invert e \<and> el_kind e = k \<and> 0 \<le>s el_id e}"

lemma picked_ids_iff:
  "i \<in> picked_ids es invert k els \<longleftrightarrow> 0 \<le>s i \<and> (\<exists>e \<in> els. selected es invert e \<and> el_kind e = k \<and> el_id e = i)"
  unfolding picked_ids_def by blast

definition picked_refs :: "Expression list \<Rightarrow> bool \<Rightarrow> Element set \<Rightarrow> i64 set" where
  "picked_refs es invert els = {i. 0 \<le>s i \<and> (\<exists>e \<in> els. selected es invert e \<and> el_kind e = Way \<and> i \<in> set (el_refs e))}"

definition pass1_view :: "Expression list \<Rightarrow> bool \<Rightarrow> Element set \<Rightarrow> Sets" where
  "pass1_view es invert els =
     \<lparr>Nodes = picked_ids es invert Node els, Direct_Ways = picked_ids es invert Way els, Ways = picked_ids es invert Way els,
      Direct_Relations = picked_ids es invert Relation els, Relations = picked_ids es invert Relation els,
      Way_Deps = picked_refs es invert els, Relation_Deps = {}\<rparr>"

lemma valid_picks: "valid (map el_id (picks es invert k els)) = picked_ids es invert k (set els)"
  by (auto simp: valid_def picks_def picked_ids_def)

lemma valid_refs: "valid (concat (map el_refs (picks es invert Way els))) = picked_refs es invert (set els)"
  by (auto simp: valid_def picks_def picked_refs_def)

text \<open>Pass 1's merge, whatever the order of delivery.\<close>

lemma pass1_merge_view:
  assumes "mset rs = mset (map (classify_block es invert) blocks)"
  shows "sets_wf (foldl merge_classify IdSets_new rs)"
    "view (foldl merge_classify IdSets_new rs) = pass1_view es invert (set (concat blocks))"
proof -
  have rs: "set rs = classify_block es invert ` set blocks" using mset_eq_setD [OF assms] by simp
  have u: "(\<Union>b \<in> set blocks. picked_ids es invert k (set b)) = picked_ids es invert k (set (concat blocks))" for k
    by (auto simp: picked_ids_def)
  have v: "(\<Union>b \<in> set blocks. picked_refs es invert (set b)) = picked_refs es invert (set (concat blocks))"
    by (auto simp: picked_refs_def)
  show "sets_wf (foldl merge_classify IdSets_new rs)" by (rule merge_all_view(1) [OF sets_new(1)])
  show "view (foldl merge_classify IdSets_new rs) = pass1_view es invert (set (concat blocks))"
    unfolding merge_all_view(2) [OF sets_new(1)] rs sets_new(2)
    by (simp add: classify_block_eq comp_def valid_picks valid_refs u v pass1_view_def del: set_concat)
qed

section \<open>The closure: lemmas\<close>

fun el_members :: "Element \<Rightarrow> Member list" where
  "el_members (RelationEl _ _ ms) = ms"
| "el_members _ = []"

fun member_ref :: "MemberId \<Rightarrow> (ElementKind \<times> i64) option" where
  "member_ref (NodeMember i) = Some (Node, i)"
| "member_ref (WayMember i) = Some (Way, i)"
| "member_ref (RelationMember i) = Some (Relation, i)"
| "member_ref (UnknownMember _ _) = None"

definition refers :: "Element \<Rightarrow> ElementKind \<Rightarrow> i64 \<Rightarrow> bool" where
  "refers e k i \<longleftrightarrow> (\<exists>m \<in> set (el_members e). member_ref (mem_id m) = Some (k, i))"

definition member_ids :: "ElementKind \<Rightarrow> Element set \<Rightarrow> i64 set \<Rightarrow> i64 set" where
  "member_ids k els R = {i. 0 \<le>s i \<and> (\<exists>e \<in> els. el_kind e = Relation \<and> el_id e \<in> R \<and> refers e k i)}"

lemma member_ids_mono: "R \<subseteq> R' \<Longrightarrow> member_ids k els R \<subseteq> member_ids k els R'"
  by (auto simp: member_ids_def)

fun clo :: "ElementKind \<Rightarrow> ClosureResult \<Rightarrow> i64 list" where
  "clo Node r = clo_nodes r"
| "clo Way r = clo_ways r"
| "clo Relation r = clo_relations r"

lemma clo_members:
  "i \<in> set (clo k (foldl closure_member r ms)) \<longleftrightarrow> i \<in> set (clo k r) \<or> (\<exists>m \<in> set ms. member_ref (mem_id m) = Some (k, i))"
proof (induction ms arbitrary: r)
  case (Cons m ms)
  have "i \<in> set (clo k (closure_member r m)) \<longleftrightarrow> i \<in> set (clo k r) \<or> member_ref (mem_id m) = Some (k, i)"
    by (cases k; cases "mem_id m") (auto simp: closure_member_def)
  then show ?case using Cons by auto
qed simp

lemma clo_elements:
  "i \<in> set (clo k (foldl (closure_element inc) r els)) \<longleftrightarrow>
     i \<in> set (clo k r) \<or> (\<exists>e \<in> set els. el_kind e = Relation \<and> el_id e \<in> mem inc \<and> refers e k i)"
proof (induction els arbitrary: r)
  case (Cons e els)
  have "i \<in> set (clo k (closure_element inc r e)) \<longleftrightarrow>
      i \<in> set (clo k r) \<or> el_kind e = Relation \<and> el_id e \<in> mem inc \<and> refers e k i"
    by (cases e) (auto simp: clo_members refers_def mem_def)
  then show ?case using Cons by auto
qed simp

lemma clo_worker:
  "valid (clo k (closure_worker inc blocks)) = member_ids k (set (concat blocks)) (mem inc)"
proof -
  have "i \<in> set (clo k (foldl (foldl (closure_element inc)) r blocks)) \<longleftrightarrow>
     i \<in> set (clo k r) \<or> (\<exists>e \<in> set (concat blocks). el_kind e = Relation \<and> el_id e \<in> mem inc \<and> refers e k i)" for i r
    by (induction blocks arbitrary: r) (auto simp: clo_elements)
  moreover have "clo k \<lparr>clo_nodes = [], clo_ways = [], clo_relations = []\<rparr> = []" by (cases k) simp_all
  ultimately show ?thesis by (auto simp: closure_worker_def valid_def member_ids_def)
qed

definition cs_wf :: "ClosureState \<Rightarrow> bool" where
  "cs_wf s \<longleftrightarrow> set_wf (cs_relations s) \<and> set_wf (cs_ways s) \<and> set_wf (cs_nodes s)"

lemma closure_add_ways:
  assumes "cs_wf s"
  shows "cs_wf (foldl closure_add_way s is)"
    "mem (cs_ways (foldl closure_add_way s is)) = mem (cs_ways s) \<union> valid is"
    "cs_relations (foldl closure_add_way s is) = cs_relations s" "cs_nodes (foldl closure_add_way s is) = cs_nodes s"
    "added_relations (foldl closure_add_way s is) = added_relations s"
    "has_way (foldl closure_add_way s is) \<longleftrightarrow> has_way s \<or> \<not> valid is \<subseteq> mem (cs_ways s)"
  using assms
  by (induction "is" arbitrary: s) (auto simp: closure_add_way_def set_if_new_mem cs_wf_def Let_def)

lemma closure_add_relations:
  assumes "cs_wf s"
  shows "cs_wf (foldl closure_add_relation s is)"
    "mem (cs_relations (foldl closure_add_relation s is)) = mem (cs_relations s) \<union> valid is"
    "cs_ways (foldl closure_add_relation s is) = cs_ways s" "cs_nodes (foldl closure_add_relation s is) = cs_nodes s"
    "has_way (foldl closure_add_relation s is) = has_way s"
    "added_relations (foldl closure_add_relation s is) = 0 \<longleftrightarrow> added_relations s = 0 \<and> valid is \<subseteq> mem (cs_relations s)"
  using assms
  by (induction "is" arbitrary: s) (auto simp: closure_add_relation_def set_if_new_mem cs_wf_def Let_def)

lemma closure_merge_eq:
  assumes "cs_wf s"
  shows "cs_wf (closure_merge s r)"
    "mem (cs_relations (closure_merge s r)) = mem (cs_relations s) \<union> valid (clo_relations r)"
    "mem (cs_ways (closure_merge s r)) = mem (cs_ways s) \<union> valid (clo_ways r)"
    "mem (cs_nodes (closure_merge s r)) = mem (cs_nodes s) \<union> valid (clo_nodes r)"
    "has_way (closure_merge s r) \<longleftrightarrow> has_way s \<or> \<not> valid (clo_ways r) \<subseteq> mem (cs_ways s)"
    "added_relations (closure_merge s r) = 0 \<longleftrightarrow> added_relations s = 0 \<and> valid (clo_relations r) \<subseteq> mem (cs_relations s)"
proof -
  define s1 where "s1 = (if clo_nodes r \<noteq> [] \<or> clo_ways r \<noteq> [] \<or> clo_relations r \<noteq> [] then s\<lparr>has_relation := True\<rparr> else s)"
  define s2 where "s2 = s1\<lparr>cs_nodes := foldl set_id (cs_nodes s1) (clo_nodes r)\<rparr>"
  have 1: "cs_wf s2" "cs_relations s2 = cs_relations s" "cs_ways s2 = cs_ways s" "has_way s2 = has_way s"
    "added_relations s2 = added_relations s" "mem (cs_nodes s2) = mem (cs_nodes s) \<union> valid (clo_nodes r)"
    using assms by (simp_all add: s1_def s2_def cs_wf_def)
  note 2 = closure_add_ways [OF 1(1), of "clo_ways r"]
  note 3 = closure_add_relations [OF 2(1), of "clo_relations r"]
  have m: "closure_merge s r = foldl closure_add_relation (foldl closure_add_way s2 (clo_ways r)) (clo_relations r)"
    by (simp add: closure_merge_def s1_def s2_def Let_def)
  show "cs_wf (closure_merge s r)"
    "mem (cs_relations (closure_merge s r)) = mem (cs_relations s) \<union> valid (clo_relations r)"
    "mem (cs_ways (closure_merge s r)) = mem (cs_ways s) \<union> valid (clo_ways r)"
    "mem (cs_nodes (closure_merge s r)) = mem (cs_nodes s) \<union> valid (clo_nodes r)"
    "has_way (closure_merge s r) \<longleftrightarrow> has_way s \<or> \<not> valid (clo_ways r) \<subseteq> mem (cs_ways s)"
    "added_relations (closure_merge s r) = 0 \<longleftrightarrow> added_relations s = 0 \<and> valid (clo_relations r) \<subseteq> mem (cs_relations s)"
    unfolding m by (simp_all add: 1 2 3)
qed

lemma closure_merges_eq:
  assumes "cs_wf s"
  shows "cs_wf (foldl closure_merge s rs)"
    "mem (cs_relations (foldl closure_merge s rs)) = mem (cs_relations s) \<union> (\<Union>r \<in> set rs. valid (clo_relations r))"
    "mem (cs_ways (foldl closure_merge s rs)) = mem (cs_ways s) \<union> (\<Union>r \<in> set rs. valid (clo_ways r))"
    "mem (cs_nodes (foldl closure_merge s rs)) = mem (cs_nodes s) \<union> (\<Union>r \<in> set rs. valid (clo_nodes r))"
    "has_way (foldl closure_merge s rs) \<longleftrightarrow> has_way s \<or> \<not> (\<Union>r \<in> set rs. valid (clo_ways r)) \<subseteq> mem (cs_ways s)"
    "added_relations (foldl closure_merge s rs) = 0 \<longleftrightarrow>
       added_relations s = 0 \<and> (\<Union>r \<in> set rs. valid (clo_relations r)) \<subseteq> mem (cs_relations s)"
  using assms by (induction rs arbitrary: s) (auto simp: closure_merge_eq)

lemma closure_turn_eq:
  assumes "cs_wf s" "mset (concat (assign blocks)) = mset blocks"
  defines "els \<equiv> set (concat blocks)" and "R \<equiv> mem (cs_relations s)" and "s' \<equiv> closure_turn assign blocks s"
  shows "cs_wf s'" "mem (cs_relations s') = R \<union> member_ids Relation els R"
    "mem (cs_ways s') = mem (cs_ways s) \<union> member_ids Way els R"
    "mem (cs_nodes s') = mem (cs_nodes s) \<union> member_ids Node els R"
    "has_way s' \<longleftrightarrow> has_way s \<or> \<not> member_ids Way els R \<subseteq> mem (cs_ways s)"
    "added_relations s' = 0 \<longleftrightarrow> member_ids Relation els R \<subseteq> R"
proof -
  have b: "set (concat (assign blocks)) = set blocks" using mset_eq_setD [OF assms(2)] .
  have "(\<Union>w \<in> set (assign blocks). member_ids k (set (concat w)) X) = member_ids k (set (concat (concat (assign blocks)))) X" for k X
    by (auto simp: member_ids_def)
  also have "\<dots> k X = member_ids k els X" for k X using b by (simp add: els_def)
  finally have u: "(\<Union>r \<in> set (map (closure_worker i) (assign blocks)). valid (clo k r)) = member_ids k els (mem i)" for k i
    by (simp add: clo_worker del: set_concat)
  note u' = u [where k = Node, unfolded clo.simps] u [where k = Way, unfolded clo.simps] u [where k = Relation, unfolded clo.simps]
  have w: "cs_wf (s\<lparr>added_relations := 0\<rparr>)" using assms(1) by (simp add: cs_wf_def)
  note m = closure_merges_eq [OF w, of "map (closure_worker (cs_relations s)) (assign blocks)", unfolded u', simplified]
  have s': "s' = foldl closure_merge (s\<lparr>added_relations := 0\<rparr>) (map (closure_worker (cs_relations s)) (assign blocks))"
    by (simp add: s'_def closure_turn_def Let_def)
  show "cs_wf s'" "mem (cs_relations s') = R \<union> member_ids Relation els R"
    "mem (cs_ways s') = mem (cs_ways s) \<union> member_ids Way els R"
    "mem (cs_nodes s') = mem (cs_nodes s) \<union> member_ids Node els R"
    "has_way s' \<longleftrightarrow> has_way s \<or> \<not> member_ids Way els R \<subseteq> mem (cs_ways s)"
    "added_relations s' = 0 \<longleftrightarrow> member_ids Relation els R \<subseteq> R"
    unfolding s' R_def using m by auto
qed

text \<open>
  The loop: it ends, with the least set of relations that contains the given ones and their
  relation members, and with exactly the way and node members of those.
\<close>

definition closed_from :: "Element set \<Rightarrow> ClosureState \<Rightarrow> ClosureState \<Rightarrow> bool" where
  "closed_from els s c \<longleftrightarrow> cs_wf c \<and>
    mem (cs_relations s) \<subseteq> mem (cs_relations c) \<and>
    member_ids Relation els (mem (cs_relations c)) \<subseteq> mem (cs_relations c) \<and>
    (\<forall>X. mem (cs_relations s) \<subseteq> X \<longrightarrow> member_ids Relation els X \<subseteq> X \<longrightarrow> mem (cs_relations c) \<subseteq> X) \<and>
    mem (cs_ways c) = mem (cs_ways s) \<union> member_ids Way els (mem (cs_relations c)) \<and>
    mem (cs_nodes c) = mem (cs_nodes s) \<union> member_ids Node els (mem (cs_relations c)) \<and>
    (has_way c \<longleftrightarrow> has_way s \<or> \<not> mem (cs_ways c) \<subseteq> mem (cs_ways s))"

lemma closure_loop_returns:
  assumes "cs_wf s" "\<forall>n. mset (concat (assign n blocks)) = mset blocks"
  defines "els \<equiv> set (concat blocks)"
  shows "\<exists>c. closure_loop assign n blocks s = Some c \<and> closed_from els s c"
proof -
  define U where "U = {i. \<exists>e \<in> els. refers e Relation i}"
  have "finite (\<Union>e \<in> els. (\<lambda>m. snd (the (member_ref (mem_id m)))) ` set (el_members e))" by (simp add: els_def)
  moreover have "U \<subseteq> (\<Union>e \<in> els. (\<lambda>m. snd (the (member_ref (mem_id m)))) ` set (el_members e))"
    by (force simp: U_def refers_def)
  ultimately have fin: "finite U" by (rule rev_finite_subset)
  have sub: "member_ids Relation els X \<subseteq> U" for X by (auto simp: member_ids_def U_def)
  show ?thesis
    using assms(1)
  proof (induction "card (U - mem (cs_relations s))" arbitrary: s n rule: less_induct)
    case less
    define s' where "s' = closure_turn (assign n) blocks s"
    let ?R = "mem (cs_relations s)"
    note t = closure_turn_eq [of s "assign n" blocks, OF less.prems assms(2) [rule_format, of n], folded els_def s'_def]
    have loop: "closure_loop assign n blocks s = (if added_relations s' = 0 then Some s' else closure_loop assign (Suc n) blocks s')"
      by (subst closure_loop.simps) (simp add: s'_def Let_def)
    show ?case
    proof (cases "added_relations s' = 0")
      case True
      then have "member_ids Relation els ?R \<subseteq> ?R" using t(6) by simp
      with True show ?thesis using t(1-5) loop by (auto simp: closed_from_def Un_absorb2)
    next
      case False
      then have "\<not> member_ids Relation els ?R \<subseteq> ?R" using t(6) by simp
      then have "U - mem (cs_relations s') \<subset> U - ?R" using t(2) sub by blast
      then have "card (U - mem (cs_relations s')) < card (U - ?R)" using fin by (simp add: psubset_card_mono)
      from less.hyps [OF this t(1), of "Suc n"] obtain c
        where c1: "closure_loop assign (Suc n) blocks s' = Some c" and cl: "closed_from els s' c" by auto
      have c: "cs_wf c" "mem (cs_relations s') \<subseteq> mem (cs_relations c)"
        "member_ids Relation els (mem (cs_relations c)) \<subseteq> mem (cs_relations c)"
        "\<forall>X. mem (cs_relations s') \<subseteq> X \<longrightarrow> member_ids Relation els X \<subseteq> X \<longrightarrow> mem (cs_relations c) \<subseteq> X"
        "mem (cs_ways c) = mem (cs_ways s') \<union> member_ids Way els (mem (cs_relations c))"
        "mem (cs_nodes c) = mem (cs_nodes s') \<union> member_ids Node els (mem (cs_relations c))"
        "has_way c \<longleftrightarrow> has_way s' \<or> \<not> mem (cs_ways c) \<subseteq> mem (cs_ways s')"
        using cl unfolding closed_from_def by - (elim conjE, assumption)+
      have R: "?R \<subseteq> mem (cs_relations c)" using c(2) t(2) by blast
      note mono = member_ids_mono [OF R]
      have "mem (cs_relations c) \<subseteq> X" if "?R \<subseteq> X" "member_ids Relation els X \<subseteq> X" for X
      proof -
        have "mem (cs_relations s') \<subseteq> X"
          unfolding t(2) using that member_ids_mono [OF that(1), of Relation els] by (intro Un_least) blast+
        then show ?thesis using c(4) that(2) by simp
      qed
      moreover have "mem (cs_ways c) = mem (cs_ways s) \<union> member_ids Way els (mem (cs_relations c))"
        "mem (cs_nodes c) = mem (cs_nodes s) \<union> member_ids Node els (mem (cs_relations c))"
        unfolding c(5,6) t(3,4) using mono [of Way els] mono [of Node els] by (simp_all only: Un_assoc Un_absorb1)
      moreover have "has_way c \<longleftrightarrow> has_way s \<or> \<not> mem (cs_ways c) \<subseteq> mem (cs_ways s)"
        unfolding c(5,7) t(3,5) using mono [of Way els] by (auto dest: subsetD)
      ultimately show ?thesis using c(1,3) c1 R loop False by (simp add: closed_from_def)
    qed
  qed
qed

section \<open>What a request needs\<close>

text \<open>
  The specification of the default mode, over the elements of the file: the selected
  elements, the members of needed relations, the nodes of needed ways. IDs are
  non-negative: the ID sets hold no others.
\<close>

inductive needed :: "(Element \<Rightarrow> bool) \<Rightarrow> Element set \<Rightarrow> ElementKind \<Rightarrow> i64 \<Rightarrow> bool" for sel els where
  direct: "e \<in> els \<Longrightarrow> sel e \<Longrightarrow> 0 \<le>s el_id e \<Longrightarrow> needed sel els (el_kind e) (el_id e)"
| member: "needed sel els Relation (el_id e) \<Longrightarrow> e \<in> els \<Longrightarrow> el_kind e = Relation \<Longrightarrow> refers e k i \<Longrightarrow> 0 \<le>s i \<Longrightarrow>
    needed sel els k i"
| way_node: "needed sel els Way (el_id e) \<Longrightarrow> e \<in> els \<Longrightarrow> el_kind e = Way \<Longrightarrow> i \<in> set (el_refs e) \<Longrightarrow> 0 \<le>s i \<Longrightarrow>
    needed sel els Node i"

text \<open>
  What pass 1 relies on of the ways: a way has a non-negative ID of its own, so that a
  directly matched way's nodes need not be collected again.
\<close>

definition ways_ok :: "Element set \<Rightarrow> bool" where
  "ways_ok els \<longleftrightarrow> (\<forall>e \<in> els. el_kind e = Way \<longrightarrow> 0 \<le>s el_id e) \<and>
     (\<forall>e \<in> els. \<forall>e' \<in> els. el_kind e = Way \<longrightarrow> el_kind e' = Way \<longrightarrow> el_id e = el_id e' \<longrightarrow> e = e')"

definition waydep_ids :: "Element set \<Rightarrow> i64 set \<Rightarrow> i64 set \<Rightarrow> i64 set" where
  "waydep_ids els W D = {i. 0 \<le>s i \<and> (\<exists>e \<in> els. el_kind e = Way \<and> el_id e \<in> W \<and> el_id e \<notin> D \<and> i \<in> set (el_refs e))}"

text \<open>The sets the passes arrive at decide exactly what is needed.\<close>

lemma needed_sets:
  assumes ok: "ways_ok els"
    and R: "picked_ids es invert Relation els \<subseteq> R" "member_ids Relation els R \<subseteq> R"
      "\<And>X. picked_ids es invert Relation els \<subseteq> X \<Longrightarrow> member_ids Relation els X \<subseteq> X \<Longrightarrow> R \<subseteq> X"
    and W: "W = picked_ids es invert Way els \<union> member_ids Way els R"
    and N: "N = picked_ids es invert Node els \<union> picked_refs es invert els \<union> member_ids Node els R \<union>
      waydep_ids els W (picked_ids es invert Way els)"
  shows "needed (selected es invert) els k i \<longleftrightarrow> i \<in> (case k of Relation \<Rightarrow> R | Way \<Rightarrow> W | Node \<Rightarrow> N)"
proof
  assume "needed (selected es invert) els k i"
  then show "i \<in> (case k of Relation \<Rightarrow> R | Way \<Rightarrow> W | Node \<Rightarrow> N)"
  proof induction
    case (direct e)
    then have "el_id e \<in> picked_ids es invert (el_kind e) els" by (auto simp: picked_ids_def)
    then show ?case using R(1) W N by (cases "el_kind e") auto
  next
    case (member e k i)
    then have "i \<in> member_ids k els R" by (auto simp: member_ids_def)
    then show ?case using R(2) W N by (cases k) auto
  next
    case (way_node e i)
    then have w: "el_id e \<in> W" by simp
    show ?case
    proof (cases "el_id e \<in> picked_ids es invert Way els")
      case True
      then obtain e' where e': "e' \<in> els" "selected es invert e'" "el_kind e' = Way" "el_id e' = el_id e"
        by (auto simp: picked_ids_def)
      then have "e' = e" using ok way_node by (auto simp: ways_ok_def)
      then have "i \<in> picked_refs es invert els" using e' way_node by (auto simp: picked_refs_def)
      then show ?thesis using N by simp
    next
      case False
      then have "i \<in> waydep_ids els W (picked_ids es invert Way els)" using w way_node by (auto simp: waydep_ids_def)
      then show ?thesis using N by simp
    qed
  qed
next
  let ?n = "needed (selected es invert) els"
  have picked: "i \<in> picked_ids es invert k els \<Longrightarrow> ?n k i" for k i
    by (auto simp: picked_ids_def intro: needed.direct)
  have "member_ids Relation els {i. ?n Relation i} \<subseteq> {i. ?n Relation i}"
    by (auto simp: member_ids_def intro: needed.member)
  with R(3) [of "{i. ?n Relation i}"] picked have rel: "i \<in> R \<Longrightarrow> ?n Relation i" for i by blast
  then have mem: "i \<in> member_ids k els R \<Longrightarrow> ?n k i" for k i
    by (auto simp: member_ids_def intro: needed.member)
  have way: "i \<in> W \<Longrightarrow> ?n Way i" for i using picked mem W by blast
  then have deps: "i \<in> waydep_ids els W D \<Longrightarrow> ?n Node i" for i D
    by (auto simp: waydep_ids_def intro: needed.way_node)
  have "?n Node i" if "i \<in> picked_refs es invert els" for i
  proof -
    from that obtain e where e: "e \<in> els" "selected es invert e" "el_kind e = Way" "i \<in> set (el_refs e)" "0 \<le>s i"
      by (auto simp: picked_refs_def)
    then have "?n Way (el_id e)" using needed.direct [of e els "selected es invert"] ok by (simp add: ways_ok_def)
    then show ?thesis using e by (intro needed.way_node)
  qed
  then show "i \<in> (case k of Relation \<Rightarrow> R | Way \<Rightarrow> W | Node \<Rightarrow> N) \<Longrightarrow> ?n k i"
    using rel way picked mem deps N by (cases k) auto
qed

lemma waydeps_eq:
  "valid (concat (map (waydeps_element inc skip) els)) = waydep_ids (set els) (mem inc) (mem skip)"
proof -
  have "i \<in> set (waydeps_element inc skip e) \<longleftrightarrow> el_kind e = Way \<and> el_id e \<in> mem inc \<and> el_id e \<notin> mem skip \<and> i \<in> set (el_refs e)" for i e
    by (cases e) (auto simp: mem_def)
  then show ?thesis by (auto simp: valid_def waydep_ids_def)
qed

lemma foldl_set_concat: "foldl (foldl set_id) s xss = foldl set_id s (concat xss)"
  by (induction xss arbitrary: s) simp_all

section \<open>Pass 2: lemmas\<close>

definition written_ids :: "Sets \<Rightarrow> ElementKind \<Rightarrow> i64 set" where
  "written_ids v k = (case k of Node \<Rightarrow> Nodes v \<union> Way_Deps v \<union> Relation_Deps v | Way \<Rightarrow> Ways v | Relation \<Rightarrow> Relations v)"

definition direct_ids :: "Sets \<Rightarrow> ElementKind \<Rightarrow> i64 set" where
  "direct_ids v k = (case k of Node \<Rightarrow> Nodes v | Way \<Rightarrow> Direct_Ways v | Relation \<Rightarrow> Direct_Relations v)"

definition as_written :: "bool \<Rightarrow> (Element \<Rightarrow> bool) \<Rightarrow> Element \<Rightarrow> Element" where
  "as_written remove_tags direct e = with_tags e (if \<not> remove_tags \<or> direct e then el_tags e else [])"

definition matched :: "ElementKind \<Rightarrow> TagsFilterStats \<Rightarrow> nat" where
  "matched k s = (case k of Node \<Rightarrow> nodes_matched s | Way \<Rightarrow> ways_matched s | Relation \<Rightarrow> relations_matched s)"

definition written_total :: "ElementKind \<Rightarrow> TagsFilterStats \<Rightarrow> nat" where
  "written_total k s =
     (case k of
        Node \<Rightarrow> nodes_matched s + nodes_from_ways s + nodes_from_relations s
      | Way \<Rightarrow> ways_matched s + ways_from_relations s
      | Relation \<Rightarrow> relations_matched s + relations_from_relations s)"

text \<open>Output and counts of a pass, as a function of what is written and what of it is direct.\<close>

definition reports :: "(Element \<Rightarrow> bool) \<Rightarrow> (Element \<Rightarrow> bool) \<Rightarrow> bool \<Rightarrow> Element list \<Rightarrow> Element list \<times> TagsFilterStats \<Rightarrow> bool" where
  "reports w d remove_tags els r \<longleftrightarrow>
     fst r = map (as_written remove_tags d) (filter w els) \<and>
     (\<forall>k. matched k (snd r) = length (filter (\<lambda>e. el_kind e = k \<and> w e \<and> d e) els) \<and>
          written_total k (snd r) = length (filter (\<lambda>e. el_kind e = k \<and> w e) els))"

lemma reports_Nil: "reports w d b [] ([], stats_zero)"
  by (simp add: reports_def matched_def written_total_def stats_zero_def split: ElementKind.split)

lemma stats_add [simp]:
  "matched k (add_stats s t) = matched k s + matched k t" "written_total k (add_stats s t) = written_total k s + written_total k t"
  by (cases k; simp add: matched_def written_total_def add_stats_def)+

lemma reports_append:
  "reports w d b xs r \<Longrightarrow> reports w d b ys q \<Longrightarrow> reports w d b (xs @ ys) (fst r @ fst q, add_stats (snd r) (snd q))"
  by (simp add: reports_def)

definition in_written :: "Sets \<Rightarrow> Element \<Rightarrow> bool" where
  "in_written v e \<longleftrightarrow> el_id e \<in> written_ids v (el_kind e)"

definition in_direct :: "Sets \<Rightarrow> Element \<Rightarrow> bool" where
  "in_direct v e \<longleftrightarrow> el_id e \<in> direct_ids v (el_kind e)"

lemmas pass2_defs = pass2_element_def reports_def in_written_def in_direct_def written_ids_def direct_ids_def view_def
  as_written_def matched_def written_total_def

lemma pass2_element_reports:
  assumes "reports (in_written (view sets)) (in_direct (view sets)) remove_tags els r"
  shows "reports (in_written (view sets)) (in_direct (view sets)) remove_tags (els @ [e]) (pass2_element sets remove_tags r e)"
proof -
  obtain out st where r: "r = (out, st)" by (cases r)
  from assms show ?thesis unfolding r by (cases "el_kind e") (auto simp: pass2_defs get_mem Let_def all_kinds)
qed

lemma pass2_block_reports:
  "reports (in_written (view sets)) (in_direct (view sets)) remove_tags els (filter_block_pass2 sets remove_tags els)"
proof (induction els rule: rev_induct)
  case (snoc e els)
  then show ?case using pass2_element_reports [OF snoc, of e] by (simp add: filter_block_pass2_def)
qed (simp add: filter_block_pass2_def reports_Nil)

lemma pass2_blocks_reports:
  "reports (in_written (view sets)) (in_direct (view sets)) remove_tags (concat blocks)
     (foldl (\<lambda>(out, stats) block.
        let (written, block_stats) = filter_block_pass2 sets remove_tags block
        in (out @ written, add_stats stats block_stats)) ([], stats_zero) blocks)"
proof (induction blocks rule: rev_induct)
  case (snoc b blocks)
  then show ?case using reports_append [OF snoc pass2_block_reports [of sets remove_tags b]]
    by (simp add: case_prod_unfold Let_def)
qed (simp add: reports_Nil)

lemma untagged_check:
  assumes "\<not> has_tag_filter f" "node_bbox f = None"
  shows "fst (blob_filter_check (Some idx) t (Some f)) \<longleftrightarrow> \<not> wants_index f idx"
    "fst (blob_filter_check None t (Some f)) = False"
  using assms by (auto simp: blob_filter_check_def wants_index_def wants_def split: ElementKind.splits)

lemma pass2_loop_eq:
  assumes "\<forall>f. bf = Some f \<longrightarrow> \<not> has_tag_filter f \<and> node_bbox f = None"
  shows "pass2_loop bf claims wg ms s = map_sum id fst (schedule_loop None bf claims wg ms s i k)"
proof (induction ms arbitrary: wg s i k)
  case (Cons m ms)
  obtain sk tg where chk: "blob_filter_check (m_index m) (m_tagdata m) bf = (sk, tg)" by fastforce
  have "(case (bf, m_index m) of (Some f, Some idx) \<Rightarrow> \<not> wants_index f idx | _ \<Rightarrow> False) = sk"
  proof (cases bf)
    case None
    then show ?thesis using chk by (simp add: blob_filter_check_def)
  next
    case (Some f)
    then show ?thesis using chk assms untagged_check [of f] by (cases "m_index m") (auto simp: prod_eq_iff)
  qed
  then show ?case
    using chk Cons by (auto simp: wanted_kind_def split: sum.split bool.split)
qed simp

section \<open>Files\<close>

fun el_view :: "Element \<Rightarrow> ElementView" where
  "el_view (DenseNode _ lat lon ts) = tagged_view Node lat lon ts"
| "el_view (NodeEl _ lat lon ts) = tagged_view Node lat lon ts"
| "el_view (WayEl _ ts _) = tagged_view Way 0 0 ts"
| "el_view (RelationEl _ ts _) = tagged_view Relation 0 0 ts"

lemma el_view_kind: "view_kind (el_view e) = el_kind e"
  by (cases e) (simp_all add: tagged_view_def)

definition fields_hold :: "BlobHeaderMeta \<Rightarrow> Element \<Rightarrow> bool" where
  "fields_hold m e \<longleftrightarrow>
     (case m_index m of Some idx \<Rightarrow> index_covers idx (el_view e) | None \<Rightarrow> True) \<and>
     (case Option.bind (m_tagdata m) TagIndex_deserialize of
        Some t \<Rightarrow> set (view_keys (el_view e)) \<subseteq> set (ti_keys t)
      | None \<Rightarrow> True)"

interpretation by_headers: skip_test fields_hold "\<lambda>f e. selects f (el_view e)"
  "\<lambda>f m. \<not> fst (blob_filter_check (m_index m) (m_tagdata m) (Some f))"
proof (unfold_locales)
  fix m e f
  assume c: "fields_hold m e" and s: "selects f (el_view e)"
  have "wants f (kind idx)" if "m_index m = Some idx" for idx
    using that c s by (auto simp: fields_hold_def selects_def selects_place_def index_covers_def)
  moreover have "wants_tag_index f t" if "Option.bind (m_tagdata m) TagIndex_deserialize = Some t" for t
  proof -
    have "ti_wf t" using that by (auto split: bind_splits dest!: tag_enc_dec serialize_wf)
    then show ?thesis
      using that c s by (auto simp: fields_hold_def selects_def tags_cover_def intro: by_tags.keep_sound)
  qed
  ultimately show "\<not> fst (blob_filter_check (m_index m) (m_tagdata m) (Some f))"
    by (auto simp: blob_filter_check_def wants_def split: option.splits)
qed

definition file_elements :: "(u64 \<Rightarrow> nat \<Rightarrow> Element list option) \<Rightarrow> BlobHeaderMeta list \<Rightarrow> Element list" where
  "file_elements payload file = concat (map (block_at payload) (filter is_data file))"

text \<open>
  A file the passes can read: it opens with a header, is not partially indexed, every data
  blob's payload decodes, and, unless metadata is distrusted, the headers are true of it.
\<close>

definition readable :: "(u64 \<Rightarrow> nat \<Rightarrow> Element list option) \<Rightarrow> BlobHeaderMeta list \<Rightarrow> bool \<Rightarrow> bool" where
  "readable payload file distrust \<longleftrightarrow>
     (case file of [] \<Rightarrow> False | h # _ \<Rightarrow> m_blob_type h = OsmHeader) \<and> metas_ok file \<and> \<not> partially_indexed file \<and>
     (\<forall>m \<in> set file. is_data m \<longrightarrow> payload (m_data_offset m) (m_data_size m) \<noteq> None) \<and>
     (distrust \<or> (\<forall>m \<in> set file. is_data m \<longrightarrow> (\<forall>e \<in> set (block_at payload m). fields_hold m e)))"

lemma readable_open:
  assumes "readable payload file distrust"
  obtains h ms where "file = h # ms" "m_blob_type h = OsmHeader" "metas_ok file" "\<not> partially_indexed file"
  using assms by (auto simp: readable_def split: list.splits)

lemma readable_decodes:
  assumes "readable payload file distrust" "\<forall>m. P m \<longrightarrow> is_data m"
  shows "decode_all el_kind payload (map (entry_of (kind_claims distrust)) (filter P file)) =
    Inr (map (block_at payload) (filter P file))"
proof (rule decode_all_eq, rule ballI)
  fix m
  assume m: "m \<in> set (filter P file)"
  with assms(2) have d: "m \<in> set file" "is_data m" by auto
  have "el_kind e = kind i" if "\<not> distrust" "m_index m = Some i" "e \<in> set (block_at payload m)" for i e
  proof -
    have "fields_hold m e" using assms(1) d that by (auto simp: readable_def)
    then show ?thesis using that(2) by (simp add: fields_hold_def index_covers_def el_view_kind)
  qed
  then show "meta_ok m \<and> blob_true el_kind payload (kind_claims distrust) m"
    using assms(1) d by (auto simp: readable_def metas_ok_def blob_true_def kind_claims_def split: if_splits)
qed

text \<open>Elements that a schedule leaves out are in a blob it leaves out.\<close>

lemma left_out:
  assumes "e \<in> set (file_elements payload file)" "e \<notin> set (concat (map (block_at payload) (filter P file)))"
  obtains m where "m \<in> set file" "is_data m" "\<not> P m" "e \<in> set (block_at payload m)"
  using assms by (auto simp: file_elements_def)

lemma scheduled_subset:
  "\<forall>m. P m \<longrightarrow> is_data m \<Longrightarrow> set (concat (map (block_at payload) (filter P file))) \<subseteq> set (file_elements payload file)"
  by (auto simp: file_elements_def)

lemma keeps_data: "\<forall>m. keeps kf bf m \<longrightarrow> is_data m"
  by (simp add: keeps_def)

lemma kind_left_out:
  assumes "readable payload file distrust"
    "e \<in> set (file_elements payload file)"
    "e \<notin> set (concat (map (block_at payload) (filter (keeps (kind_schedule_filter k distrust) None) file)))"
  shows "el_kind e \<noteq> k"
proof -
  from left_out [OF assms(2,3)] obtain m where m: "m \<in> set file" "is_data m"
    "\<not> keeps (kind_schedule_filter k distrust) None m" "e \<in> set (block_at payload m)" .
  then have nd: "\<not> distrust" and k: "\<exists>idx. m_index m = Some idx \<and> kind idx \<noteq> k"
    by (auto simp: keeps_def kind_schedule_filter_def wanted_kind_def blob_filter_check_def split: if_splits option.splits)
  have "fields_hold m e" using assms(1) m nd by (auto simp: readable_def)
  with k show ?thesis by (auto simp: fields_hold_def index_covers_def el_view_kind)
qed

lemma selected_left_out:
  assumes "readable payload file distrust"
    "e \<in> set (file_elements payload file)"
    "e \<notin> set (concat (map (block_at payload) (filter (keeps None (trusted_blob_filter es invert distrust)) file)))"
  shows "\<not> selected es invert e"
proof -
  from left_out [OF assms(2,3)] obtain m where m: "m \<in> set file" "is_data m"
    "\<not> keeps None (trusted_blob_filter es invert distrust) m" "e \<in> set (block_at payload m)" .
  then obtain f where f: "trusted_blob_filter es invert distrust = Some f"
    "fst (blob_filter_check (m_index m) (m_tagdata m) (Some f))"
    by (cases "trusted_blob_filter es invert distrust") (auto simp: keeps_def wanted_kind_def blob_filter_check_def)
  then have nd: "\<not> distrust" "\<not> invert" "blob_filter_from_expressions es = Some f"
    by (auto simp: trusted_blob_filter_def split: if_splits)
  have "fields_hold m e" using assms(1) m nd by (auto simp: readable_def)
  then have "\<not> selects f (el_view e)" using by_headers.keep_sound f(2) by blast
  then have "\<not> element_matches es (el_tags e) (el_kind e)"
    using filter_selects_match [OF nd(3), of "el_tags e" "el_kind e"] by (cases e) auto
  then show ?thesis using nd by (simp add: selected_def)
qed

section \<open>The passes on a readable file\<close>

definition timing_ok :: "Timing \<Rightarrow> bool" where
  "timing_ok t \<longleftrightarrow> (\<forall>rs. mset (deliver_classify t rs) = mset rs) \<and>
     (\<forall>n bs. mset (concat (assign_closure t n bs)) = mset bs) \<and> (\<forall>xs. mset (deliver_refs t xs) = mset xs)"

lemma pass1_view_cong:
  assumes "A \<subseteq> B" "\<forall>e \<in> B - A. \<not> selected es invert e"
  shows "pass1_view es invert A = pass1_view es invert B"
proof -
  have "picked_ids es invert k A = picked_ids es invert k B" for k using assms by (auto simp: picked_ids_def)
  moreover have "picked_refs es invert A = picked_refs es invert B" using assms by (auto simp: picked_refs_def)
  ultimately show ?thesis by (simp add: pass1_view_def)
qed

lemma pass1_eq:
  assumes "readable payload file distrust" "timing_ok t"
  shows "\<exists>s. pass1 t payload file es invert distrust = Inr s \<and> sets_wf s \<and>
    view s = pass1_view es invert (set (file_elements payload file))"
proof -
  from readable_open [OF assms(1)] obtain h ms where f: "file = h # ms" "m_blob_type h = OsmHeader" "metas_ok file" "\<not> partially_indexed file" .
  let ?keep = "keeps None (trusted_blob_filter es invert distrust)"
  let ?blocks = "map (block_at payload) (filter ?keep file)"
  let ?rs = "map (classify_block es invert) ?blocks"
  obtain n where walk: "schedule_walk file None (trusted_blob_filter es invert distrust) False (kind_claims distrust) =
      Inr (map (entry_of (kind_claims distrust)) (filter ?keep file), map m_index (filter ?keep file), n)"
    using schedule_walk_eq [OF f(3,1,2), of None "trusted_blob_filter es invert distrust" False "kind_claims distrust"] f(4)
    by (auto simp: outcome_def)
  have "mset (deliver_classify t ?rs) = mset ?rs" using assms(2) by (simp add: timing_ok_def)
  note m = pass1_merge_view [OF this]
  have "pass1_view es invert (set (concat ?blocks)) = pass1_view es invert (set (file_elements payload file))"
    using scheduled_subset [OF keeps_data] selected_left_out [OF assms(1)] by (intro pass1_view_cong) auto
  with m show ?thesis using readable_decodes [OF assms(1) keeps_data] by (simp add: pass1_def walk)
qed

lemma member_ids_cong:
  assumes "A \<subseteq> B" "\<forall>e \<in> B - A. el_kind e \<noteq> Relation"
  shows "member_ids k A = member_ids k B"
  using assms by (intro ext) (auto simp: member_ids_def)

lemma waydep_ids_cong:
  assumes "A \<subseteq> B" "\<forall>e \<in> B - A. el_kind e \<noteq> Way"
  shows "waydep_ids A = waydep_ids B"
  using assms by (intro ext) (auto simp: waydep_ids_def)

lemma kind_blocks:
  assumes "readable payload file distrust"
  defines "ms k \<equiv> filter (keeps (kind_schedule_filter k distrust) None) file"
  shows "build_classify_schedule file (kind_schedule_filter k distrust) (kind_claims distrust) =
      Inr (map (entry_of (kind_claims distrust)) (ms k))"
    "decode_all el_kind payload (map (entry_of (kind_claims distrust)) (ms k)) = Inr (map (block_at payload) (ms k))"
    "member_ids j (set (concat (map (block_at payload) (ms Relation)))) = member_ids j (set (file_elements payload file))"
    "waydep_ids (set (concat (map (block_at payload) (ms Way)))) = waydep_ids (set (file_elements payload file))"
proof -
  from readable_open [OF assms(1)] obtain h ms' where f: "file = h # ms'" "m_blob_type h = OsmHeader" "metas_ok file" "\<not> partially_indexed file" .
  show "build_classify_schedule file (kind_schedule_filter k distrust) (kind_claims distrust) =
      Inr (map (entry_of (kind_claims distrust)) (ms k))"
    using build_classify_schedule_eq [OF f(3,1,2)] f(4) by (simp add: outcome_def ms_def)
  show "decode_all el_kind payload (map (entry_of (kind_claims distrust)) (ms k)) = Inr (map (block_at payload) (ms k))"
    unfolding ms_def by (rule readable_decodes [OF assms(1) keeps_data])
  note sub = scheduled_subset [OF keeps_data, of payload _ None]
  show "member_ids j (set (concat (map (block_at payload) (ms Relation)))) = member_ids j (set (file_elements payload file))"
    using sub kind_left_out [OF assms(1), of _ Relation] unfolding ms_def by (intro member_ids_cong) auto
  show "waydep_ids (set (concat (map (block_at payload) (ms Way)))) = waydep_ids (set (file_elements payload file))"
    using sub kind_left_out [OF assms(1), of _ Way] unfolding ms_def by (intro waydep_ids_cong) auto
qed

lemma closure_step:
  assumes "readable payload file distrust" "timing_ok t" "sets_wf s"
  defines "els \<equiv> set (file_elements payload file)"
  shows "\<exists>s' R. (if has_included_relation s then collect_relation_member_closure (assign_closure t) payload file distrust s
                 else Some (Inr s)) = Some (Inr s') \<and> sets_wf s' \<and>
    Relations (view s) \<subseteq> R \<and> member_ids Relation els R \<subseteq> R \<and>
    (\<forall>X. Relations (view s) \<subseteq> X \<longrightarrow> member_ids Relation els X \<subseteq> X \<longrightarrow> R \<subseteq> X) \<and>
    view s' = (view s)\<lparr>Relations := R, Ways := Ways (view s) \<union> member_ids Way els R,
      Relation_Deps := Relation_Deps (view s) \<union> member_ids Node els R\<rparr>"
proof (cases "has_included_relation s")
  case False
  then have e: "Relations (view s) = {}" using assms(3) by (simp add: sets_wf_def view_def)
  have none: "member_ids k els {} = {}" for k by (simp add: member_ids_def)
  have "view s = (view s)\<lparr>Relations := {}, Ways := Ways (view s) \<union> member_ids Way els {},
      Relation_Deps := Relation_Deps (view s) \<union> member_ids Node els {}\<rparr>"
    using e by (simp add: none)
  then show ?thesis using False assms(3) e none by (intro exI [of _ s] exI [of _ "{}"]) simp
next
  case True
  let ?s = "\<lparr>cs_relations = included_relation_ids s, cs_ways = included_way_ids s, cs_nodes = relation_dep_node_ids s,
    has_way = False, has_relation = False, added_relations = 0\<rparr>"
  let ?blocks = "map (block_at payload) (filter (keeps (kind_schedule_filter Relation distrust) None) file)"
  have wf: "cs_wf ?s" using assms(3) by (simp add: cs_wf_def sets_wf_def)
  have tm: "\<forall>n. mset (concat (assign_closure t n ?blocks)) = mset ?blocks" using assms(2) by (simp add: timing_ok_def)
  obtain c where c: "closure_loop (assign_closure t) 0 ?blocks ?s = Some c" and cl: "closed_from els ?s c"
    using closure_loop_returns [of ?s "assign_closure t" ?blocks 0, OF wf tm] kind_blocks(3) [OF assms(1)]
    by (auto simp: closed_from_def els_def simp del: set_concat)
  let ?s' = "s\<lparr>included_relation_ids := cs_relations c, included_way_ids := cs_ways c, relation_dep_node_ids := cs_nodes c,
    has_included_way := has_included_way s \<or> has_way c, has_included_relation := has_included_relation s \<or> has_relation c\<rparr>"
  have "collect_relation_member_closure (assign_closure t) payload file distrust s = Some (Inr ?s')"
    using kind_blocks(1,2) [OF assms(1), of Relation] c by (simp add: collect_relation_member_closure_def)
  moreover have "sets_wf ?s'"
    using assms(3) True cl by (auto simp: sets_wf_def closed_from_def cs_wf_def)
  moreover have "view ?s' = (view s)\<lparr>Relations := mem (cs_relations c), Ways := Ways (view s) \<union> member_ids Way els (mem (cs_relations c)),
      Relation_Deps := Relation_Deps (view s) \<union> member_ids Node els (mem (cs_relations c))\<rparr>"
    using cl by (simp add: view_def closed_from_def)
  moreover have "Relations (view s) \<subseteq> mem (cs_relations c)" "member_ids Relation els (mem (cs_relations c)) \<subseteq> mem (cs_relations c)"
    "\<forall>X. Relations (view s) \<subseteq> X \<longrightarrow> member_ids Relation els X \<subseteq> X \<longrightarrow> mem (cs_relations c) \<subseteq> X"
    using cl by (simp_all add: view_def closed_from_def)
  ultimately show ?thesis using True by (intro exI [of _ ?s'] exI [of _ "mem (cs_relations c)"]) simp
qed

lemma waydeps_step:
  assumes "readable payload file distrust" "timing_ok t" "sets_wf s"
  shows "\<exists>s'. collect_way_node_dependencies (deliver_refs t) payload file distrust s = Inr s' \<and> sets_wf s' \<and>
    view s' = (view s)\<lparr>Relation_Deps := Relation_Deps (view s) \<union>
      waydep_ids (set (file_elements payload file)) (Ways (view s)) (Direct_Ways (view s))\<rparr>"
proof -
  let ?blocks = "map (block_at payload) (filter (keeps (kind_schedule_filter Way distrust) None) file)"
  let ?dep = "waydeps_element (included_way_ids s) (direct_way_ids s)"
  let ?xs = "map (concat \<circ> map ?dep) ?blocks"
  have "set (deliver_refs t ?xs) = set ?xs" using assms(2) mset_eq_setD unfolding timing_ok_def by blast
  then have "valid (concat (deliver_refs t ?xs)) = valid (concat ?xs)" by (simp add: valid_def)
  also have "concat (map (concat \<circ> map f) bs) = concat (map f (concat bs))" for f :: "Element \<Rightarrow> i64 list" and bs
    by (induction bs) simp_all
  also have "valid (concat (map ?dep (concat ?blocks))) = waydep_ids (set (file_elements payload file)) (mem (included_way_ids s)) (mem (direct_way_ids s))"
    unfolding waydeps_eq kind_blocks(4) [OF assms(1)] ..
  finally have "valid (concat (deliver_refs t ?xs)) = waydep_ids (set (file_elements payload file)) (Ways (view s)) (Direct_Ways (view s))"
    by (simp only: view_def Sets.simps)
  then show ?thesis
    using kind_blocks(1,2) [OF assms(1), of Way] assms(3)
    by (simp add: collect_way_node_dependencies_def foldl_set_concat sets_wf_def view_def comp_def)
qed

lemma filter_left_out:
  assumes "\<forall>m. P m \<longrightarrow> is_data m"
    "\<forall>m \<in> set ms. is_data m \<longrightarrow> \<not> P m \<longrightarrow> (\<forall>e \<in> set (block_at payload m). \<not> w e)"
  shows "filter w (concat (map (block_at payload) (filter P ms))) = filter w (file_elements payload ms)"
  using assms(2)
proof (induction ms)
  case (Cons m ms)
  then show ?case using assms(1)
    by (cases "P m"; cases "is_data m") (auto simp: file_elements_def filter_empty_conv)
qed (simp add: file_elements_def)

lemma reports_cong:
  assumes "filter w xs = filter w ys" "\<forall>e \<in> set ys. (w e \<longleftrightarrow> w' e) \<and> (w e \<longrightarrow> (d e \<longleftrightarrow> d' e))" "reports w d b xs r"
  shows "reports w' d' b ys r"
proof -
  have sub: "filter (\<lambda>e. el_kind e = k \<and> w e \<and> q e) zs = filter (\<lambda>e. el_kind e = k \<and> q e) (filter w zs)" for k q zs
    by (simp add: conj_commute conj_left_commute)
  have w: "filter w ys = filter w' ys" using assms(2) by (intro filter_cong) auto
  have "filter (\<lambda>e. el_kind e = k \<and> w e \<and> d e) xs = filter (\<lambda>e. el_kind e = k \<and> w' e \<and> d' e) ys" for k
    unfolding sub assms(1) using assms(2) by (auto intro!: filter_cong)
  moreover have "filter (\<lambda>e. el_kind e = k \<and> w e) xs = filter (\<lambda>e. el_kind e = k \<and> w' e) ys" for k
    using sub [of k "\<lambda>_. True" xs] assms(1,2) by (auto intro!: filter_cong)
  moreover have "map (as_written b d) (filter w xs) = map (as_written b d') (filter w' ys)"
    unfolding assms(1) w [symmetric] using assms(2) by (auto simp: as_written_def)
  ultimately show ?thesis using assms(3) by (simp add: reports_def)
qed

lemma pass2_eq:
  assumes "readable payload file distrust" "sets_wf s"
  shows "\<exists>r. pass2 payload file invert distrust remove_tags s = Inr r \<and>
    reports (in_written (view s)) (in_direct (view s)) remove_tags (file_elements payload file) r"
proof -
  from readable_open [OF assms(1)] obtain h ms where f: "file = h # ms" "m_blob_type h = OsmHeader" "metas_ok file" "\<not> partially_indexed file" .
  define bf where "bf = (if invert \<or> distrust then None
    else Some (BlobFilter_new True (has_included_way s) (has_included_relation s)))"
  have plain: "\<forall>f. bf = Some f \<longrightarrow> \<not> has_tag_filter f \<and> node_bbox f = None"
    by (simp add: bf_def BlobFilter_new_def has_tag_filter_def)
  let ?claims = "kind_claims distrust"
  let ?ms = "filter (keeps None bf) file"
  have "\<not> partially_indexed [h]" "metas_ok ms" "\<not> keeps None bf h"
    using f by (auto simp: metas_ok_def partially_indexed_def mixed_def keeps_def)
  then obtain n where "schedule_loop None bf ?claims (guard_for False [h]) ms [] [] 0 =
      Inr (map (entry_of ?claims) ?ms, map m_index ?ms, n)"
    using schedule_loop_eq [of ms False "[h]" None bf ?claims "[]" "[]" 0] f by (auto simp: outcome_def)
  then have loop: "pass2_loop bf ?claims (guard_for False [h]) ms [] = Inr (map (entry_of ?claims) ?ms)"
    by (simp add: pass2_loop_eq [OF plain, of ?claims _ ms "[]" "[]" 0])
  have lead: "consume_leading_header (Some PartialIndexGuard_default) file = Inr (guard_for False [h], ms)"
    using consume_leading_eq [of False "file"] f(1,2) by (simp add: guard_for_Nil)
  let ?r = "foldl (\<lambda>(out, stats) block. let (written, block_stats) = filter_block_pass2 s remove_tags block
    in (out @ written, add_stats stats block_stats)) ([], stats_zero) (map (block_at payload) ?ms)"
  have "pass2 payload file invert distrust remove_tags s = Inr ?r"
    using readable_decodes [OF assms(1) keeps_data, of None bf] unfolding pass2_def bf_def [symmetric]
    by (simp add: lead loop)
  moreover have "\<not> in_written (view s) e"
    if m: "m \<in> set file" "is_data m" "\<not> keeps None bf m" "e \<in> set (block_at payload m)" for m e
  proof -
    obtain idx where idx: "m_index m = Some idx" "\<not> distrust"
      "kind idx = Way \<and> \<not> has_included_way s \<or> kind idx = Relation \<and> \<not> has_included_relation s"
      using m(2,3) by (auto simp: keeps_def wanted_kind_def bf_def blob_filter_check_def BlobFilter_new_def has_tag_filter_def
          split: if_splits option.splits)
    have "fields_hold m e" using assms(1) m idx(2) by (auto simp: readable_def)
    then have "el_kind e = kind idx" using idx(1) by (simp add: fields_hold_def index_covers_def el_view_kind)
    then show ?thesis using idx(3) assms(2) by (auto simp: in_written_def written_ids_def view_def sets_wf_def)
  qed
  then have "filter (in_written (view s)) (concat (map (block_at payload) ?ms)) = filter (in_written (view s)) (file_elements payload file)"
    by (intro filter_left_out [OF keeps_data]) blast
  from reports_cong [OF this _ pass2_blocks_reports] have
    "reports (in_written (view s)) (in_direct (view s)) remove_tags (file_elements payload file) ?r" by simp
  ultimately show ?thesis by blast
qed

lemma el_kind_written [simp]: "el_kind (as_written b d e) = el_kind e"
  by (cases e) (simp_all add: as_written_def)

lemma needed_nonneg: "needed sel els k i \<Longrightarrow> 0 \<le>s i"
  by (induction rule: needed.induct)

section \<open>The single pass: lemmas\<close>

lemma filter_block_reports:
  "fst (filter_block_parallel es invert els) = filter (selected es invert) els \<and>
   (\<forall>k. matched k (snd (filter_block_parallel es invert els)) = length (filter (\<lambda>e. el_kind e = k \<and> selected es invert e) els))"
proof (induction els rule: rev_induct)
  case (snoc e els)
  then show ?case
    by (cases "el_kind e") (auto simp: filter_block_parallel_def filter_element_def selected_def count_matched_def matched_def all_kinds)
qed (simp add: filter_block_parallel_def matched_def stats_zero_def split: ElementKind.split)

lemma matched_add [simp]: "matched k (add_matched s b) = matched k s + matched k b"
  by (cases k) (simp_all add: matched_def add_matched_def)

definition blob_elements :: "(BlobFields \<times> Element list option) list \<Rightarrow> Element list" where
  "blob_elements blobs = concat (map (\<lambda>(_, block). case block of Some els \<Rightarrow> els | None \<Rightarrow> []) blobs)"

definition indexed_flags :: "(BlobFields \<times> Element list option) list \<Rightarrow> bool set" where
  "indexed_flags blobs = (\<lambda>(blob, _). blob_index blob \<noteq> None) ` set blobs"

text \<open>A blob whose block decodes and, unless metadata is distrusted, bears out its header.\<close>

definition blob_readable :: "bool \<Rightarrow> BlobFields \<times> Element list option \<Rightarrow> bool" where
  "blob_readable distrust b \<longleftrightarrow>
     (case b of (blob, Some els) \<Rightarrow> distrust \<or> (\<forall>e \<in> set els. fields_cover blob (el_view e)) | (_, None) \<Rightarrow> False)"

lemma mixed_flags: "mixed xs \<longleftrightarrow> {True, False} \<subseteq> fst ` set xs"
  by (force simp: mixed_def)

lemma skipped_unselected:
  assumes "trusted_blob_filter es invert distrust = Some f" "should_skip_blob f blob" "blob_readable distrust (blob, Some els)"
  shows "filter (selected es invert) els = []"
proof -
  from assms(1) have f: "\<not> distrust" "\<not> invert" "blob_filter_from_expressions es = Some f"
    by (auto simp: trusted_blob_filter_def split: if_splits)
  have "\<not> element_matches es (el_tags e) (el_kind e)" if "e \<in> set els" for e
  proof -
    have "fields_cover blob (el_view e)" using assms(3) f(1) that by (simp add: blob_readable_def)
    then have "\<not> selects f (el_view e)" using by_fields.keep_sound assms(2) by blast
    then show ?thesis using filter_selects_match [OF f(3), of "el_tags e" "el_kind e"] by (cases e) auto
  qed
  then show ?thesis using f(2) by (simp add: filter_empty_conv selected_def)
qed

lemma readable_not_refused:
  assumes "blob_readable distrust (blob, Some els)"
  shows "(if distrust then Inr () else KindSet_refuse_under (block_kinds el_kind els) (map_option kind (blob_index blob))) = Inr ()"
  using assms by (auto simp: blob_readable_def refuse_under_ok block_kinds_eq fields_cover_def index_covers_def el_view_kind)

lemma single_pass_loop_eq:
  assumes "\<forall>b \<in> set blobs. blob_readable distrust b" "\<not> {True, False} \<subseteq> fst ` set xs \<union> indexed_flags blobs"
  shows "\<exists>st. single_pass_loop es invert distrust (trusted_blob_filter es invert distrust) (guard_after xs) n blobs out stats =
      Inr (out @ filter (selected es invert) (blob_elements blobs), st) \<and>
    (\<forall>k. matched k st = matched k stats + length (filter (\<lambda>e. el_kind e = k \<and> selected es invert e) (blob_elements blobs)))"
  using assms
proof (induction blobs arbitrary: xs n out stats)
  case (Cons b blobs)
  obtain blob els where b: "b = (blob, Some els)" "blob_readable distrust (blob, Some els)"
    using Cons.prems(1) by (cases b; cases "snd b") (auto simp: blob_readable_def)
  let ?x = "(blob_index blob \<noteq> None, n)"
  have nm: "\<not> mixed xs" "\<not> mixed (xs @ [?x])" "\<not> {True, False} \<subseteq> fst ` set (xs @ [?x]) \<union> indexed_flags blobs"
    using Cons.prems(2) unfolding mixed_flags b(1) by (auto simp: indexed_flags_def)
  have rd: "\<forall>b \<in> set blobs. blob_readable distrust b" using Cons.prems(1) by simp
  have obs: "guard_observe (guard_after xs) (blob_index blob \<noteq> None) n = (guard_after (xs @ [?x]), None)"
    using guard_observe_after [OF nm(1)] nm(2) by simp
  have els: "blob_elements (b # blobs) = els @ blob_elements blobs" by (simp add: blob_elements_def b(1))
  note IH = Cons.IH [OF rd nm(3), of "Suc n"]
  let ?skip = "case trusted_blob_filter es invert distrust of Some f \<Rightarrow> should_skip_blob f blob | None \<Rightarrow> False"
  show ?case
  proof (cases ?skip)
    case True
    then have none: "filter (selected es invert) els = []" using skipped_unselected [OF _ _ b(2)] by (auto split: option.splits)
    then have "filter (\<lambda>e. el_kind e = k \<and> selected es invert e) els = []" for k by (auto simp: filter_empty_conv)
    moreover have "single_pass_loop es invert distrust (trusted_blob_filter es invert distrust) (guard_after xs) n (b # blobs) out stats =
        single_pass_loop es invert distrust (trusted_blob_filter es invert distrust) (guard_after (xs @ [?x])) (Suc n) blobs out stats"
      unfolding b(1) single_pass_loop.simps obs prod.case option.case if_P [OF True] by (rule refl)
    ultimately show ?thesis using IH [of out stats] none by (simp add: els del: not_None_eq)
  next
    case False
    let ?r = "filter_block_parallel es invert els"
    have "single_pass_loop es invert distrust (trusted_blob_filter es invert distrust) (guard_after xs) n (b # blobs) out stats =
        single_pass_loop es invert distrust (trusted_blob_filter es invert distrust) (guard_after (xs @ [?x])) (Suc n) blobs
          (out @ fst ?r) (add_matched stats (snd ?r))"
      unfolding b(1) single_pass_loop.simps obs prod.case option.case readable_not_refused [OF b(2)] sum.case if_not_P [OF False]
      by (simp add: case_prod_unfold Let_def)
    then show ?thesis
      using IH [of "out @ fst ?r" "add_matched stats (snd ?r)"] filter_block_reports [of es invert els]
      by (auto simp: els)
  qed
qed (simp add: blob_elements_def)

section \<open>Properties\<close>

text \<open>
  C27: the default mode of tags-filter. On a readable file whose ways have distinct
  non-negative IDs, and for every order in which the pools deliver their results, the run
  ends, and writes exactly the needed elements in file order: those the expressions select
  (or do not, inverted), the members of needed relations transitively, and the nodes of
  needed ways. Under \<open>remove_tags\<close> exactly the elements needed only by reference lose their
  tags. The statistics count, per kind, the written elements and the directly selected ones.
\<close>

theorem two_pass_writes_needed:
  assumes "readable payload file distrust" "timing_ok t" "ways_ok (set (file_elements payload file))"
  shows "let els = file_elements payload file; sel = selected es invert;
             need = (\<lambda>e. needed sel (set els) (el_kind e) (el_id e));
             direct = (\<lambda>e. \<exists>e' \<in> set els. sel e' \<and> el_kind e' = el_kind e \<and> el_id e' = el_id e)
    in \<exists>out stats. tags_filter_two_pass t payload file es invert distrust remove_tags = Some (Inr (out, stats)) \<and>
      out = map (\<lambda>e. if remove_tags \<and> \<not> direct e then with_tags e [] else e) (filter need els) \<and>
      (\<forall>k. written_total k stats = length (filter (\<lambda>e. el_kind e = k) out) \<and>
           matched k stats = length (filter (\<lambda>e. el_kind e = k \<and> need e \<and> direct e) els))"
proof -
  let ?E = "set (file_elements payload file)"
  let ?need = "\<lambda>e. needed (selected es invert) ?E (el_kind e) (el_id e)"
  let ?dir = "\<lambda>e. \<exists>e' \<in> ?E. selected es invert e' \<and> el_kind e' = el_kind e \<and> el_id e' = el_id e"
  obtain s1 where s1: "pass1 t payload file es invert distrust = Inr s1" "sets_wf s1" "view s1 = pass1_view es invert ?E"
    using pass1_eq [OF assms(1,2)] by blast
  obtain s2 R where s2: "(if has_included_relation s1 then collect_relation_member_closure (assign_closure t) payload file distrust s1
      else Some (Inr s1)) = Some (Inr s2)" "sets_wf s2"
    and R: "Relations (view s1) \<subseteq> R" "member_ids Relation ?E R \<subseteq> R"
      "\<forall>X. Relations (view s1) \<subseteq> X \<longrightarrow> member_ids Relation ?E X \<subseteq> X \<longrightarrow> R \<subseteq> X"
    and v2: "view s2 = (view s1)\<lparr>Relations := R, Ways := Ways (view s1) \<union> member_ids Way ?E R,
      Relation_Deps := Relation_Deps (view s1) \<union> member_ids Node ?E R\<rparr>"
    using closure_step [OF assms(1,2) s1(2)] by (elim exE conjE) (rule that; assumption)
  obtain s3 where s3: "collect_way_node_dependencies (deliver_refs t) payload file distrust s2 = Inr s3" "sets_wf s3"
    and v3: "view s3 = (view s2)\<lparr>Relation_Deps := Relation_Deps (view s2) \<union> waydep_ids ?E (Ways (view s2)) (Direct_Ways (view s2))\<rparr>"
    using waydeps_step [OF assms(1,2) s2(2)] by blast
  obtain r where r: "pass2 payload file invert distrust remove_tags s3 = Inr r"
    and rep: "reports (in_written (view s3)) (in_direct (view s3)) remove_tags (file_elements payload file) r"
    using pass2_eq [OF assms(1) s3(2)] by blast
  let ?N = "picked_ids es invert Node ?E \<union> picked_refs es invert ?E \<union> member_ids Node ?E R \<union>
    waydep_ids ?E (picked_ids es invert Way ?E \<union> member_ids Way ?E R) (picked_ids es invert Way ?E)"
  have rels: "Relations (view s1) = picked_ids es invert Relation ?E" by (simp add: s1(3) pass1_view_def)
  have v: "view s3 = \<lparr>Nodes = picked_ids es invert Node ?E, Direct_Ways = picked_ids es invert Way ?E,
      Ways = picked_ids es invert Way ?E \<union> member_ids Way ?E R, Direct_Relations = picked_ids es invert Relation ?E,
      Relations = R, Way_Deps = picked_refs es invert ?E, Relation_Deps = member_ids Node ?E R \<union>
        waydep_ids ?E (picked_ids es invert Way ?E \<union> member_ids Way ?E R) (picked_ids es invert Way ?E)\<rparr>"
    unfolding v3 v2 s1(3) by (simp add: pass1_view_def)
  have min: "R \<subseteq> X" if "picked_ids es invert Relation ?E \<subseteq> X" "member_ids Relation ?E X \<subseteq> X" for X
    using R(3) that rels by simp
  have w: "in_written (view s3) e \<longleftrightarrow> ?need e" for e
    using needed_sets [OF assms(3) R(1) [unfolded rels] R(2) min refl refl, of "el_kind e" "el_id e"]
    by (cases "el_kind e") (simp_all add: in_written_def written_ids_def v Un_assoc)
  have d: "?need e \<longrightarrow> (in_direct (view s3) e \<longleftrightarrow> ?dir e)" for e
  proof
    assume "?need e"
    then have "0 \<le>s el_id e" by (rule needed_nonneg)
    then show "in_direct (view s3) e \<longleftrightarrow> ?dir e"
      by (cases "el_kind e") (simp_all add: in_direct_def direct_ids_def v picked_ids_iff)
  qed
  have rep': "reports ?need ?dir remove_tags (file_elements payload file) r"
    using reports_cong [OF refl _ rep, of ?need ?dir] w d by simp
  have aw: "as_written remove_tags ?dir = (\<lambda>e. if remove_tags \<and> \<not> ?dir e then with_tags e [] else e)"
    by (auto simp: as_written_def fun_eq_iff) (metis el_tags.simps with_tags.simps el_kind.cases)+
  have run: "tags_filter_two_pass t payload file es invert distrust remove_tags = Some (Inr (fst r, snd r))"
    using s1(1) s2(1) s3(1) r by (simp add: tags_filter_two_pass_def)
  have out: "fst r = map (as_written remove_tags ?dir) (filter ?need (file_elements payload file))"
    using rep' by (simp add: reports_def)
  have "written_total k (snd r) = length (filter (\<lambda>e. el_kind e = k) (fst r))" for k
    using rep' unfolding out reports_def by (simp add: filter_map comp_def conj_commute)
  moreover have "matched k (snd r) = length (filter (\<lambda>e. el_kind e = k \<and> ?need e \<and> ?dir e) (file_elements payload file))" for k
    using rep' by (simp add: reports_def)
  ultimately show ?thesis
    unfolding Let_def aw [symmetric] using run out by (intro exI [of _ "fst r"] exI [of _ "snd r"]) blast
qed

theorem two_pass_writes_needed_witness:
  "\<exists>out stats.
     tags_filter_two_pass \<lparr>deliver_classify = rev, assign_closure = (\<lambda>n bs. [bs, []]), deliver_refs = rev\<rparr>
       (\<lambda>offset size. if offset = 30 then Some [NodeEl 7 1 2 [], NodeEl 8 3 4 [], WayEl 5 [] [7],
          RelationEl 1 [([97], [98])] [\<lparr>mem_id = WayMember 5, mem_role = []\<rparr>]] else None)
       [\<lparr>m_blob_type = OsmHeader, m_frame_start = 0, m_blob_index = 0, m_data_offset = 10, m_data_size = 5,
          m_index = None, m_tagdata = None\<rparr>,
        \<lparr>m_blob_type = OsmData, m_frame_start = 15, m_blob_index = 1, m_data_offset = 30, m_data_size = 7,
          m_index = None, m_tagdata = None\<rparr>]
       [\<lparr>type_filter = TypeFilter_all, matcher = \<lparr>tm_key = MEqual [97], tm_value = None, tm_invert = False\<rparr>\<rparr>]
       False False True = Some (Inr (out, stats)) \<and>
     NodeEl 7 1 2 [] \<in> set out \<and> written_total Way stats = length (filter (\<lambda>e. el_kind e = Way) out)"
proof -
  let ?els = "[NodeEl 7 1 2 [], NodeEl 8 3 4 [], WayEl 5 [] [7],
          RelationEl 1 [([97], [98])] [\<lparr>mem_id = WayMember 5, mem_role = []\<rparr>]]"
  let ?payload = "\<lambda>(offset :: u64) (size :: nat). if offset = 30 then Some ?els else None"
  let ?file = "[\<lparr>m_blob_type = OsmHeader, m_frame_start = 0, m_blob_index = 0, m_data_offset = 10, m_data_size = 5,
          m_index = None, m_tagdata = None\<rparr>,
        \<lparr>m_blob_type = OsmData, m_frame_start = 15, m_blob_index = 1, m_data_offset = 30, m_data_size = 7,
          m_index = None, m_tagdata = None\<rparr>]"
  let ?t = "\<lparr>deliver_classify = rev, assign_closure = (\<lambda>n bs. [bs, []]), deliver_refs = rev\<rparr>"
  let ?es = "[\<lparr>type_filter = TypeFilter_all, matcher = \<lparr>tm_key = MEqual [97], tm_value = None, tm_invert = False\<rparr>\<rparr>]"
  have els: "file_elements ?payload ?file = ?els" by (simp add: file_elements_def block_at_def)
  have rd: "readable ?payload ?file False"
    by (simp add: readable_def metas_ok_def meta_ok_def partially_indexed_def mixed_def fields_hold_def)
  have t: "timing_ok ?t" by (simp add: timing_ok_def)
  have w: "ways_ok (set (file_elements ?payload ?file))" unfolding els by (simp add: ways_ok_def signed_simps)
  let ?n = "needed (selected ?es False) (set ?els)"
  have "?n Relation (el_id (?els ! 3))" using needed.direct [of "?els ! 3" "set ?els" "selected ?es False"]
    by (simp add: selected_def element_matches_def admits_def TypeFilter_all_def tag_matches_def signed_simps)
  then have "?n Way (el_id (?els ! 2))"
    using needed.member [of "selected ?es False" "set ?els" "?els ! 3" Way 5] by (simp add: refers_def signed_simps)
  then have "?n Node 7"
    using needed.way_node [of "selected ?es False" "set ?els" "?els ! 2" 7] by (simp add: signed_simps)
  then have n7: "NodeEl 7 1 2 [] \<in> set (filter (\<lambda>e. ?n (el_kind e) (el_id e)) ?els)" by simp
  from two_pass_writes_needed [OF rd t w, of ?es False True] obtain out stats where
    r: "tags_filter_two_pass ?t ?payload ?file ?es False False True = Some (Inr (out, stats))"
    and o: "out = map (\<lambda>e. if True \<and> \<not> (\<exists>e' \<in> set ?els. selected ?es False e' \<and> el_kind e' = el_kind e \<and> el_id e' = el_id e)
        then with_tags e [] else e) (filter (\<lambda>e. ?n (el_kind e) (el_id e)) ?els)"
    and st: "written_total Way stats = length (filter (\<lambda>e. el_kind e = Way) out)"
    unfolding els Let_def by blast
  have "NodeEl 7 1 2 [] \<in> set out" unfolding o set_map by (rule image_eqI [OF _ n7]) simp
  with r st show ?thesis by blast
qed

text \<open>
  C28: the single pass of \<open>-R\<close>. On a file that is not partially indexed, whose blocks decode
  and, unless metadata is distrusted, whose headers are true of them, it writes exactly the
  selected elements in file order, skipping by header fields or not, and counts them per
  kind.
\<close>

theorem single_pass_writes_selected:
  assumes "\<forall>b \<in> set blobs. blob_readable distrust b" "\<not> {True, False} \<subseteq> indexed_flags blobs"
  shows "\<exists>stats. tags_filter_single_pass blobs es invert distrust =
      Inr (filter (selected es invert) (blob_elements blobs), stats) \<and>
    (\<forall>k. matched k stats = length (filter (\<lambda>e. el_kind e = k \<and> selected es invert e) (blob_elements blobs)))"
proof -
  have z: "matched k stats_zero = 0" for k by (simp add: matched_def stats_zero_def split: ElementKind.split)
  show ?thesis
    using single_pass_loop_eq [of blobs distrust "[]" es invert 0 "[]" stats_zero] assms z
    by (simp add: tags_filter_single_pass_def)
qed

theorem single_pass_writes_selected_witness:
  "\<exists>stats. tags_filter_single_pass
       [(\<lparr>indexdata = None, tagdata = None\<rparr>, Some [WayEl 5 [([97], [98])] [7], NodeEl 7 1 2 []])]
       [\<lparr>type_filter = TypeFilter_all, matcher = \<lparr>tm_key = MEqual [97], tm_value = None, tm_invert = False\<rparr>\<rparr>] False False =
     Inr ([WayEl 5 [([97], [98])] [7]], stats) \<and> matched Way stats = 1"
proof -
  let ?b = "[(\<lparr>indexdata = None, tagdata = None\<rparr>, Some [WayEl 5 [([97], [98])] [7], NodeEl 7 1 2 []])]"
  let ?es = "[\<lparr>type_filter = TypeFilter_all, matcher = \<lparr>tm_key = MEqual [97], tm_value = None, tm_invert = False\<rparr>\<rparr>]"
  have h: "\<forall>b \<in> set ?b. blob_readable False b" "\<not> {True, False} \<subseteq> indexed_flags ?b"
    by (simp_all add: blob_readable_def fields_cover_def blob_index_def blob_tag_index_def indexed_flags_def)
  have sel: "selected ?es False (WayEl 5 [([97], [98])] [7])" "\<not> selected ?es False (NodeEl 7 1 2 [])"
    by (simp_all add: selected_def element_matches_def admits_def TypeFilter_all_def tag_matches_def)
  from single_pass_writes_selected [OF h, of ?es False] show ?thesis
    by (auto simp: blob_elements_def sel dest: spec [of _ Way])
qed

end
