(* ===== verification/Framing.thy ===== *)
theory Framing
  imports Blob_Wire
begin

text \<open>
  Writing frames, \<open>src/src/write/framing.rs\<close>: the blob header encoder with its 64 KiB policy,
  the blob body encoder, the assembly of a frame in reused scratch buffers, the split of a
  frame into bounded pieces, and the field strippers of \<open>degrade\<close>. The compressors are a
  parameter, with the state the scratch caches from frame to frame. Timers and buffer capacities are left out:
  trimming a scratch buffer between frames only empties the buffer the next frame starts from, and frames are shown
  not to depend on it. Shown: what a written header and body parse back to, when writing is
  refused, that splitting a frame ends and loses nothing, and that stripping a header field
  removes exactly that field.
\<close>

section \<open>Definitions\<close>

datatype OversizePart = Header | HeaderWayMembers | Body | Payload | OsmHeaderPayload | OsmHeaderBody

datatype write_error =
    BlobTooLarge OversizePart nat nat
  | DatasizeOverflow
  | HeaderOverflow
  | RawSizeOverflow
  | ZlibFailed
  | ZlibIncomplete
  | ZstdFailed

datatype Compression = Compression_None | Compression_Zlib u32 | Compression_Zstd i32

text \<open>
  The compressors, libraries with a state: a zlib compressor is built for a level, compresses a block into the
  cleared buffer, which has room for the worst case, and is reset; it ends the stream, does not, or fails. A zstd
  compressor is built for a level, or cannot be, and compresses a block, or fails. Each call gives the
  compressor's next state and what it left in the buffer.
\<close>

datatype zlib_status = StreamEnd | StreamOpen

record ('z, 's) Compressors =
  zlib_new :: "u32 \<Rightarrow> 'z"
  zlib_compress :: "'z \<Rightarrow> bytes \<Rightarrow> 'z \<times> bytes \<times> zlib_status option"
  zlib_reset :: "'z \<Rightarrow> 'z"
  zstd_new :: "i32 \<Rightarrow> 's option"
  zstd_compress :: "'s \<Rightarrow> bytes \<Rightarrow> 's \<times> bytes \<times> bool"

record ('z, 's) FrameScratch =
  body_head :: bytes
  header_buf :: bytes
  compress_buf :: bytes
  zlib_compressor :: "(u32 \<times> 'z) option"
  zstd_compressor :: "(i32 \<times> 's) option"

definition FrameScratch_new :: "('z, 's) FrameScratch" where
  "FrameScratch_new = \<lparr>body_head = [], header_buf = [], compress_buf = [], zlib_compressor = None, zstd_compressor = None\<rparr>"

record WriterMetrics =
  tagdata_dropped_oversize :: nat
  bytes_framed :: nat

record ScratchFrame =
  sf_prefix :: bytes
  sf_header :: bytes
  sf_body_head :: bytes
  sf_payload :: bytes

definition ScratchFrame_parts :: "ScratchFrame \<Rightarrow> bytes list" where
  "ScratchFrame_parts f = [sf_prefix f, sf_header f, sf_body_head f, sf_payload f]"

definition ScratchFrame_len :: "ScratchFrame \<Rightarrow> nat" where
  "ScratchFrame_len f = sum_list (map length (ScratchFrame_parts f))"

datatype PayloadSource = Input | Compressed

definition encode_blob_header_fields ::
  "Proto \<Rightarrow> bytes \<Rightarrow> i32 \<Rightarrow> bytes option \<Rightarrow> bytes option \<Rightarrow> bytes option \<Rightarrow> bytes" where
  "encode_blob_header_fields P blob_type datasize idata tdata way_members =
     encode_bytes_field P blob_header_TYPE blob_type
     @ (case idata of Some data \<Rightarrow> encode_bytes_field P blob_header_INDEXDATA data | None \<Rightarrow> [])
     @ encode_int32_field P blob_header_DATASIZE datasize
     @ (case tdata of Some data \<Rightarrow> encode_bytes_field P blob_header_TAGDATA data | None \<Rightarrow> [])
     @ (case way_members of Some data \<Rightarrow> encode_bytes_field P blob_header_WAYMEMBERS data | None \<Rightarrow> [])"

text \<open>The outcome, and the buffer as the call leaves it.\<close>

definition encode_blob_header_into ::
  "Proto \<Rightarrow> bytes \<Rightarrow> i32 \<Rightarrow> bytes option \<Rightarrow> bytes option \<Rightarrow> bytes option \<Rightarrow> (write_error + bool) \<times> bytes" where
  "encode_blob_header_into P blob_type datasize idata tdata way_members =
     (let fields = encode_blob_header_fields P blob_type datasize idata;
          buf = fields tdata way_members in
      if length buf < MAX_BLOB_HEADER_SIZE then (Inr False, buf)
      else let buf = (if tdata \<noteq> None then fields None way_members else buf) in
           if tdata \<noteq> None \<and> length buf < MAX_BLOB_HEADER_SIZE then (Inr True, buf)
           else let oversize = length buf;
                    probe = (if way_members \<noteq> None then fields None None else buf);
                    part = (if way_members \<noteq> None \<and> length probe < MAX_BLOB_HEADER_SIZE
                            then HeaderWayMembers else Header)
                in (Inl (BlobTooLarge part oversize MAX_BLOB_HEADER_SIZE), probe))"

definition u32_to_be_bytes :: "u32 \<Rightarrow> bytes" where
  "u32_to_be_bytes w = rev (le_bytes 4 w)"

definition u32_from_be_bytes :: "bytes \<Rightarrow> u32" where
  "u32_from_be_bytes b = of_le_bytes (rev b)"

definition encode_frame_header ::
  "Proto \<Rightarrow> bytes \<Rightarrow> nat \<Rightarrow> bytes option \<Rightarrow> bytes option \<Rightarrow> bytes option \<Rightarrow> ('z, 's) FrameScratch \<Rightarrow> WriterMetrics
   \<Rightarrow> (write_error + bytes) \<times> ('z, 's) FrameScratch \<times> WriterMetrics" where
  "encode_frame_header P blob_type body_len idata tdata way_members scratch metrics =
     (if MAX_BLOB_DATASIZE \<le> body_len
      then (Inl (BlobTooLarge (if blob_type = OSMHEADER then OsmHeaderBody else Body) body_len MAX_BLOB_DATASIZE),
            scratch, metrics)
      else if 2 ^ 31 \<le> int body_len then (Inl DatasizeOverflow, scratch, metrics)
      else let (r, buf) = encode_blob_header_into P blob_type (of_nat body_len) idata tdata way_members;
               scratch = scratch\<lparr>header_buf := buf\<rparr> in
           case r of
             Inl e \<Rightarrow> (Inl e, scratch, metrics)
           | Inr dropped \<Rightarrow>
               let metrics = (if dropped
                              then metrics\<lparr>tagdata_dropped_oversize := tagdata_dropped_oversize metrics + 1\<rparr>
                              else metrics) in
               if 2 ^ 32 \<le> int (length buf) then (Inl HeaderOverflow, scratch, metrics)
               else (Inr (u32_to_be_bytes (of_nat (length buf))), scratch, metrics))"

definition encode_payload_field_head :: "Proto \<Rightarrow> u32 \<Rightarrow> nat \<Rightarrow> bytes" where
  "encode_payload_field_head P field len = encode_tag P field WIRE_LEN @ encode_varint P (of_nat len)"

text \<open>The fields ahead of a compressed payload, once it is in the buffer.\<close>

definition encode_compressed_head ::
  "Proto \<Rightarrow> u32 \<Rightarrow> bytes \<Rightarrow> ('z, 's) FrameScratch \<Rightarrow> (write_error + PayloadSource) \<times> ('z, 's) FrameScratch" where
  "encode_compressed_head P field uncompressed scratch =
     (if 2 ^ 31 \<le> int (length uncompressed) then (Inl RawSizeOverflow, scratch)
      else (Inr Compressed,
            scratch\<lparr>body_head := body_head scratch
                      @ encode_int32_field P blob_RAW_SIZE (of_nat (length uncompressed))
                      @ encode_payload_field_head P field (length (compress_buf scratch))\<rparr>))"

text \<open>The cached compressor, if it is of the level asked for, else a new one. It is reset only after a stream it has ended.\<close>

definition compress_zlib ::
  "Proto \<Rightarrow> ('z, 's) Compressors \<Rightarrow> bytes \<Rightarrow> u32 \<Rightarrow> ('z, 's) FrameScratch \<Rightarrow> (write_error + PayloadSource) \<times> ('z, 's) FrameScratch" where
  "compress_zlib P C uncompressed level scratch =
     (let compressor = (case zlib_compressor scratch of
                          Some (cached_level, z) \<Rightarrow> if cached_level = level then z else zlib_new C level
                        | None \<Rightarrow> zlib_new C level) in
      case zlib_compress C compressor uncompressed of
        (compressor, out, status) \<Rightarrow>
          let scratch = scratch\<lparr>compress_buf := out, zlib_compressor := Some (level, compressor)\<rparr> in
          (case status of
             None \<Rightarrow> (Inl ZlibFailed, scratch)
           | Some StreamOpen \<Rightarrow> (Inl ZlibIncomplete, scratch)
           | Some StreamEnd \<Rightarrow>
               encode_compressed_head P blob_ZLIB_DATA uncompressed (scratch\<lparr>zlib_compressor := Some (level, zlib_reset C compressor)\<rparr>)))"

definition compress_zstd ::
  "Proto \<Rightarrow> ('z, 's) Compressors \<Rightarrow> bytes \<Rightarrow> i32 \<Rightarrow> ('z, 's) FrameScratch \<Rightarrow> (write_error + PayloadSource) \<times> ('z, 's) FrameScratch" where
  "compress_zstd P C uncompressed level scratch =
     (let compressor = (case zstd_compressor scratch of
                          Some (cached_level, z) \<Rightarrow> if cached_level = level then Some z else zstd_new C level
                        | None \<Rightarrow> zstd_new C level) in
      case compressor of
        None \<Rightarrow> (Inl ZstdFailed, scratch)
      | Some z \<Rightarrow>
          (case zstd_compress C z uncompressed of
             (z, out, ok) \<Rightarrow>
               let scratch = scratch\<lparr>compress_buf := out, zstd_compressor := Some (level, z)\<rparr> in
               if ok then encode_compressed_head P blob_ZSTD_DATA uncompressed scratch else (Inl ZstdFailed, scratch)))"

definition encode_blob_body ::
  "Proto \<Rightarrow> ('z, 's) Compressors \<Rightarrow> bytes \<Rightarrow> Compression \<Rightarrow> OversizePart \<Rightarrow> ('z, 's) FrameScratch
   \<Rightarrow> (write_error + PayloadSource) \<times> ('z, 's) FrameScratch" where
  "encode_blob_body P C uncompressed compression payload_part scratch =
     (let scratch = scratch\<lparr>body_head := []\<rparr> in
      if MAX_BLOB_MESSAGE_SIZE < length uncompressed
      then (Inl (BlobTooLarge payload_part (length uncompressed) MAX_BLOB_MESSAGE_SIZE), scratch)
      else case compression of
             Compression_None \<Rightarrow>
               (Inr Input, scratch\<lparr>body_head := encode_payload_field_head P blob_RAW (length uncompressed)\<rparr>)
           | Compression_Zlib level \<Rightarrow> compress_zlib P C uncompressed level scratch
           | Compression_Zstd level \<Rightarrow> compress_zstd P C uncompressed level scratch)"

definition frame_in_scratch ::
  "Proto \<Rightarrow> ('z, 's) Compressors \<Rightarrow> bytes \<Rightarrow> bytes \<Rightarrow> Compression \<Rightarrow> bytes option \<Rightarrow> bytes option \<Rightarrow> bytes option
   \<Rightarrow> ('z, 's) FrameScratch \<Rightarrow> WriterMetrics \<Rightarrow> (write_error + ScratchFrame) \<times> ('z, 's) FrameScratch \<times> WriterMetrics" where
  "frame_in_scratch P C blob_type uncompressed compression idata tdata way_members scratch metrics =
     (let payload_part = (if blob_type = OSMHEADER then OsmHeaderPayload else Payload);
          (r, scratch) = encode_blob_body P C uncompressed compression payload_part scratch in
      case r of
        Inl e \<Rightarrow> (Inl e, scratch, metrics)
      | Inr source \<Rightarrow>
          let payload = (case source of Input \<Rightarrow> uncompressed | Compressed \<Rightarrow> compress_buf scratch);
              (r, scratch, metrics) =
                encode_frame_header P blob_type (length (body_head scratch) + length payload)
                  idata tdata way_members scratch metrics in
          case r of
            Inl e \<Rightarrow> (Inl e, scratch, metrics)
          | Inr prefix \<Rightarrow>
              let frame = \<lparr>sf_prefix = prefix, sf_header = header_buf scratch,
                           sf_body_head = body_head scratch, sf_payload = payload\<rparr>
              in (Inr frame, scratch, metrics\<lparr>bytes_framed := bytes_framed metrics + ScratchFrame_len frame\<rparr>))"

definition frame_blob_into ::
  "Proto \<Rightarrow> ('z, 's) Compressors \<Rightarrow> bytes \<Rightarrow> bytes \<Rightarrow> Compression \<Rightarrow> bytes option \<Rightarrow> bytes option \<Rightarrow> bytes option
   \<Rightarrow> ('z, 's) FrameScratch \<Rightarrow> WriterMetrics \<Rightarrow> (write_error + bytes) \<times> ('z, 's) FrameScratch \<times> WriterMetrics" where
  "frame_blob_into P C blob_type uncompressed compression idata tdata way_members scratch metrics =
     (case frame_in_scratch P C blob_type uncompressed compression idata tdata way_members scratch metrics of
        (Inl e, st) \<Rightarrow> (Inl e, st)
      | (Inr framed, st) \<Rightarrow> (Inr (concat (ScratchFrame_parts framed)), st))"

definition frame_blob ::
  "Proto \<Rightarrow> ('z, 's) Compressors \<Rightarrow> bytes \<Rightarrow> bytes \<Rightarrow> Compression \<Rightarrow> bytes option \<Rightarrow> WriterMetrics
   \<Rightarrow> (write_error + bytes) \<times> WriterMetrics" where
  "frame_blob P C blob_type uncompressed compression idata metrics =
     (case frame_blob_into P C blob_type uncompressed compression idata None None FrameScratch_new metrics of
        (r, _, metrics) \<Rightarrow> (r, metrics))"

definition reframe_raw_with_index ::
  "Proto \<Rightarrow> bytes \<Rightarrow> bytes \<Rightarrow> bytes option \<Rightarrow> WriterMetrics \<Rightarrow> (write_error + bytes) \<times> WriterMetrics" where
  "reframe_raw_with_index P blob_bytes idata tdata metrics =
     (case encode_frame_header P OSMDATA (length blob_bytes) (Some idata) tdata None (FrameScratch_new :: (unit, unit) FrameScratch) metrics of
        (Inl e, _, metrics) \<Rightarrow> (Inl e, metrics)
      | (Inr prefix, scratch, metrics) \<Rightarrow> (Inr (prefix @ header_buf scratch @ blob_bytes), metrics))"

text \<open>
  The piece splitter's loops: over the parts, and over what is left of one part. A target
  of zero with bytes left would loop forever, which is \<open>None\<close>.
\<close>

record Pieces =
  p_left :: nat
  p_target :: nat
  p_current :: bytes
  p_out :: "bytes list"

definition piece_step :: "nat \<Rightarrow> bytes \<Rightarrow> Pieces \<Rightarrow> bytes \<times> Pieces" where
  "piece_step piece rest s =
     (let n = min (p_target s - length (p_current s)) (length rest);
          current = p_current s @ take n rest
      in (drop n rest,
          if length current = p_target s
          then (let left = p_left s - p_target s
                in \<lparr>p_left = left, p_target = min left piece, p_current = [], p_out = p_out s @ [current]\<rparr>)
          else s\<lparr>p_current := current\<rparr>))"

partial_function (option) split_part :: "nat \<Rightarrow> bytes \<Rightarrow> Pieces \<Rightarrow> Pieces option" where
  "split_part piece rest s =
     (if rest = [] then Some s
      else case piece_step piece rest s of (rest, s) \<Rightarrow> split_part piece rest s)"

fun split_parts :: "nat \<Rightarrow> bytes list \<Rightarrow> Pieces \<Rightarrow> Pieces option" where
  "split_parts piece [] s = Some s"
| "split_parts piece (part # parts) s =
     (case split_part piece part s of None \<Rightarrow> None | Some s \<Rightarrow> split_parts piece parts s)"

definition split_into_pieces :: "bytes list \<Rightarrow> nat \<Rightarrow> nat \<Rightarrow> bytes list \<Rightarrow> bytes list option" where
  "split_into_pieces parts total_len piece out =
     map_option p_out (split_parts piece parts
       \<lparr>p_left = total_len, p_target = min total_len piece, p_current = [], p_out = out\<rparr>)"

definition frame_blob_pipelined_pieces ::
  "Proto \<Rightarrow> ('z, 's) Compressors \<Rightarrow> bytes \<Rightarrow> Compression \<Rightarrow> bytes option \<Rightarrow> bytes option \<Rightarrow> bytes option
   \<Rightarrow> ('z, 's) FrameScratch \<Rightarrow> WriterMetrics \<Rightarrow> nat \<Rightarrow> bytes list
   \<Rightarrow> ((write_error + bytes list) \<times> ('z, 's) FrameScratch \<times> WriterMetrics) option" where
  "frame_blob_pipelined_pieces P C uncompressed compression idata tdata way_members scratch metrics piece pieces =
     (case frame_in_scratch P C OSMDATA uncompressed compression idata tdata way_members scratch metrics of
        (Inl e, st) \<Rightarrow> Some (Inl e, st)
      | (Inr framed, st) \<Rightarrow>
          (case split_into_pieces (ScratchFrame_parts framed) (ScratchFrame_len framed) piece pieces of
             None \<Rightarrow> None
           | Some out \<Rightarrow> Some (Inr out, st)))"

text \<open>
  The field stripper: each field's bytes, from its tag to the end of its value, are copied
  or dropped. The guard is that of \<open>field_loop\<close>.
\<close>

function strip_message_fields :: "Proto \<Rightarrow> (u32 \<Rightarrow> bool) \<Rightarrow> bytes \<Rightarrow> wire_error + bytes" where
  "strip_message_fields P strip_field d =
     (case read_tag P d of
        Inl e \<Rightarrow> Inl e
      | Inr None \<Rightarrow> Inr []
      | Inr (Some ((field, wire_type), r)) \<Rightarrow>
          (case skip_field P wire_type r of
             Inl e \<Rightarrow> Inl e
           | Inr r' \<Rightarrow>
               if length r' < length d
               then map_sum id (\<lambda>out. (if strip_field field then [] else take (length d - length r') d) @ out)
                      (strip_message_fields P strip_field r')
               else Inl LoopStuck))"
  by pat_completeness auto
termination
  by (relation "measure (\<lambda>(P, f, d). length d)") auto

declare strip_message_fields.simps [simp del]

definition strip_blob_header_fields :: "Proto \<Rightarrow> bytes \<Rightarrow> u32 list \<Rightarrow> wire_error + bytes" where
  "strip_blob_header_fields P header_bytes strip_fields =
     strip_message_fields P (\<lambda>field. field \<in> set strip_fields) header_bytes"

section \<open>Reading back a header\<close>

definition bytes_or_empty :: "bytes option \<Rightarrow> bytes" where
  "bytes_or_empty x = (case x of Some b \<Rightarrow> b | None \<Rightarrow> [])"

text \<open>The header that the encoded fields stand for.\<close>

definition written_header ::
  "BlobKind \<Rightarrow> i32 \<Rightarrow> bytes option \<Rightarrow> bytes option \<Rightarrow> bytes option \<Rightarrow> WireBlobHeader" where
  "written_header k ds idata tdata wm =
     take_waymembers (bytes_or_empty wm) (take_tagdata (bytes_or_empty tdata)
       (take_indexdata (bytes_or_empty idata) (WireBlobHeader_init\<lparr>wh_blob_type := k, wh_datasize := ds\<rparr>)))"

lemma written_header_simps [simp]:
  "wh_blob_type (written_header k ds idata tdata wm) = k"
  "wh_datasize (written_header k ds idata tdata wm) = ds"
  by (auto simp: written_header_def take_waymembers_def take_tagdata_def take_indexdata_def split: WireIndexdata.splits)

lemma field_numbers:
  "0 < blob_header_TYPE" "blob_header_TYPE < 2 ^ 29" "0 < blob_header_INDEXDATA" "blob_header_INDEXDATA < 2 ^ 29"
  "0 < blob_header_DATASIZE" "blob_header_DATASIZE < 2 ^ 29" "0 < blob_header_TAGDATA" "blob_header_TAGDATA < 2 ^ 29"
  "0 < blob_header_WAYMEMBERS" "blob_header_WAYMEMBERS < 2 ^ 29"
  by (simp_all add: header_fields)

lemma take_commutes:
  "take_indexdata b (h\<lparr>wh_datasize := v\<rparr>) = take_indexdata b h\<lparr>wh_datasize := v\<rparr>"
  by (simp add: take_indexdata_def split: WireIndexdata.splits)

lemma wire_types_differ [simp]: "WIRE_VARINT \<noteq> WIRE_LEN" "WIRE_LEN \<noteq> WIRE_VARINT"
  by (simp_all add: WIRE_VARINT_def WIRE_LEN_def)

context proto
begin

lemma loop_optional_field:
  assumes n: "0 < n" "n < 2 ^ 29" and len: "length (bytes_or_empty x) < 2 ^ 32"
    and f: "\<And>d. f n WIRE_LEN d a = take_bytes P g d a" and empty: "g [] a = a"
  shows "field_loop P f ((case x of Some b \<Rightarrow> encode_bytes_field P n b | None \<Rightarrow> []) @ r) a
    = field_loop P f r (g (bytes_or_empty x) a)"
proof (cases "bytes_or_empty x = []")
  case True
  then show ?thesis by (auto simp: bytes_or_empty_def bytes_field empty split: option.splits)
next
  case False
  then obtain b where x: "x = Some b" "b \<noteq> []" by (auto simp: bytes_or_empty_def split: option.splits)
  have "f n WIRE_LEN (encode_varint P (of_nat (length b)) @ b @ r) a = Inr (g b a, r)"
    using len x by (simp add: f take_bytes_def bytes_or_empty_def)
  from field_loop_len_field [where f = f, OF n this] show ?thesis
    using x by (simp add: bytes_field bytes_or_empty_def)
qed

lemma loop_int32_field:
  assumes n: "0 < n" "n < 2 ^ 29"
    and f: "f n WIRE_VARINT (encode_varint P (scast v) @ r) a = Inr (a', r)" and zero: "v = 0 \<Longrightarrow> a' = a"
  shows "field_loop P f (encode_int32_field P n v @ r) a = field_loop P f r a'"
  using int32_field [of n v] field_loop_varint_field [where f = f, OF n f] zero by auto

lemma parse_written_header:
  assumes kind: "blob_kind_of b = Inr k" "b \<noteq> []" "length b < 2 ^ 32"
    and len: "length (bytes_or_empty idata) < 2 ^ 32" "length (bytes_or_empty tdata) < 2 ^ 32"
      "length (bytes_or_empty wm) < 2 ^ 32"
  shows "WireBlobHeader_parse P (encode_blob_header_fields P b ds idata tdata wm) t i w
    = Inr (keep_fields t i w (written_header k ds idata tdata wm))"
proof -
  let ?f = "header_field P True True True"
  let ?h1 = "WireBlobHeader_init\<lparr>wh_blob_type := k\<rparr>"
  let ?h2 = "take_indexdata (bytes_or_empty idata) ?h1"
  let ?h3 = "?h2\<lparr>wh_datasize := ds\<rparr>"
  have h3: "written_header k ds idata tdata wm = take_waymembers (bytes_or_empty wm) (take_tagdata (bytes_or_empty tdata) ?h3)"
    by (simp add: written_header_def take_commutes)
  have k: "k \<noteq> UnknownBlob []" using kind by (auto simp: blob_kind_of_def split: if_splits)
  have 1: "field_loop P ?f (encode_bytes_field P blob_header_TYPE b @ r) WireBlobHeader_init = field_loop P ?f r ?h1" for r
    using kind by (simp add: bytes_field)
      (rule field_loop_len_field [OF field_numbers(1,2)], simp add: header_field_cases take_type_def)
  have 2: "field_loop P ?f ((case idata of Some b \<Rightarrow> encode_bytes_field P blob_header_INDEXDATA b | None \<Rightarrow> []) @ r) ?h1
      = field_loop P ?f r ?h2" for r
    by (rule loop_optional_field [OF field_numbers(3,4) len(1)])
      (simp_all add: header_field_cases, simp add: take_indexdata_def)
  have 3: "field_loop P ?f (encode_int32_field P blob_header_DATASIZE ds @ r) ?h2 = field_loop P ?f r ?h3" for r
    by (rule loop_int32_field [OF field_numbers(5,6)])
      (simp_all add: header_field_cases take_datasize_def, simp add: take_indexdata_def WireBlobHeader_init_def
        split: WireIndexdata.splits)
  have 4: "field_loop P ?f ((case tdata of Some b \<Rightarrow> encode_bytes_field P blob_header_TAGDATA b | None \<Rightarrow> []) @ r) ?h3
      = field_loop P ?f r (take_tagdata (bytes_or_empty tdata) ?h3)" for r
    by (rule loop_optional_field [OF field_numbers(7,8) len(2)])
      (simp_all add: header_field_cases, simp add: take_tagdata_def)
  have 5: "field_loop P ?f (case wm of Some b \<Rightarrow> encode_bytes_field P blob_header_WAYMEMBERS b | None \<Rightarrow> []) a
      = Inr (take_waymembers (bytes_or_empty wm) a)" for a
    using loop_optional_field [OF field_numbers(9,10) len(3), where f = ?f and g = take_waymembers and r = "[]" and a = a]
    by (simp add: header_field_cases) (simp add: take_waymembers_def)
  have "field_loop P ?f (encode_blob_header_fields P b ds idata tdata wm) WireBlobHeader_init
      = Inr (written_header k ds idata tdata wm)"
    unfolding encode_blob_header_fields_def h3 by (simp only: 1 2 3 4 5)
  then have "WireBlobHeader_parse P (encode_blob_header_fields P b ds idata tdata wm) True True True
      = Inr (written_header k ds idata tdata wm)"
    using k by (simp add: WireBlobHeader_parse_def)
  then show ?thesis
    using parse_header_keep [of "encode_blob_header_fields P b ds idata tdata wm" t i w] by simp
qed

text \<open>The body: its head and payload parse to the one payload field, with its size.\<close>

lemma loop_payload:
  assumes c: "length c < 2 ^ 32" and b: "wb_data b = None"
    and f: "(field, con) \<in> {(blob_RAW, Raw), (blob_ZLIB_DATA, Zlib), (blob_ZSTD_DATA, Zstd)}"
  shows "field_loop P (blob_field P) (encode_payload_field_head P field (length c) @ c) b
    = Inr (b\<lparr>wb_data := Some (con c)\<rparr>)"
proof -
  have n: "0 < field" "field < 2 ^ 29"
    using f by (auto simp: blob_RAW_def blob_ZLIB_DATA_def blob_ZSTD_DATA_def)
  have "blob_field P field WIRE_LEN (encode_varint P (of_nat (length c)) @ c @ []) b
      = Inr (b\<lparr>wb_data := Some (con c)\<rparr>, [])"
    using f b read_len_encoded [OF c, of "[]"]
    by (auto simp: blob_field_def blob_RAW_def blob_RAW_SIZE_def blob_ZLIB_DATA_def blob_ZSTD_DATA_def)
  from field_loop_len_field [where f = "blob_field P", OF n this] show ?thesis
    by (simp add: len_field_def encode_payload_field_head_def)
qed

lemma parse_raw_body:
  assumes "length c < 2 ^ 32"
  shows "WireBlob_parse P (encode_payload_field_head P blob_RAW (length c) @ c)
    = Inr \<lparr>wb_data = Some (Raw c), wb_raw_size = None\<rparr>"
  using loop_payload [OF assms, of "\<lparr>wb_data = None, wb_raw_size = None\<rparr>" blob_RAW Raw]
  by (simp add: WireBlob_parse_def)

lemma parse_compressed_body:
  assumes "length c < 2 ^ 32" "(field, con) \<in> {(blob_ZLIB_DATA, Zlib), (blob_ZSTD_DATA, Zstd)}"
  shows "\<exists>size. WireBlob_parse P (encode_int32_field P blob_RAW_SIZE v @ encode_payload_field_head P field (length c) @ c)
      = Inr \<lparr>wb_data = Some (con c), wb_raw_size = size\<rparr> \<and> (size = Some v \<or> size = None \<and> v = 0)"
proof -
  let ?b = "\<lparr>wb_data = None, wb_raw_size = None\<rparr>"
  have n: "0 < blob_RAW_SIZE" "blob_RAW_SIZE < 2 ^ 29" by (simp_all add: blob_RAW_SIZE_def)
  have "blob_field P blob_RAW_SIZE WIRE_VARINT (encode_varint P (scast v) @ r) ?b = Inr (?b\<lparr>wb_raw_size := Some v\<rparr>, r)" for r
    by (simp add: blob_field_def blob_RAW_SIZE_def blob_RAW_def blob_ZLIB_DATA_def blob_ZSTD_DATA_def)
  note size = field_loop_varint_field [where f = "blob_field P", OF n this]
  have pay: "field_loop P (blob_field P) (encode_payload_field_head P field (length c) @ c) b
      = Inr (b\<lparr>wb_data := Some (con c)\<rparr>)" if "wb_data b = None" for b
    using loop_payload [OF assms(1) that, of field con] assms(2) by auto
  consider "encode_int32_field P blob_RAW_SIZE v = varint_field P blob_RAW_SIZE v"
    | "v = 0" "encode_int32_field P blob_RAW_SIZE v = []"
    using int32_field [of blob_RAW_SIZE v] by blast
  then show ?thesis
    by cases (simp_all add: WireBlob_parse_def size pay)
qed

lemma tag_not_empty: "0 < f \<Longrightarrow> f < 2 ^ 29 \<Longrightarrow> w < 6 \<Longrightarrow> encode_tag P f w \<noteq> []"
  using tag_progress [OF read_tag_encoded [of f w "[]"]] by auto

lemma header_fields_not_empty: "b \<noteq> [] \<Longrightarrow> encode_blob_header_fields P b ds idata tdata wm \<noteq> []"
  using tag_not_empty [OF field_numbers(1,2), of WIRE_LEN]
  by (simp add: encode_blob_header_fields_def bytes_field len_field_def WIRE_LEN_def)

lemma optional_length_le:
  "length (bytes_or_empty idata) \<le> length (encode_blob_header_fields P b ds idata tdata wm)"
  "length (bytes_or_empty tdata) \<le> length (encode_blob_header_fields P b ds idata tdata wm)"
  "length (bytes_or_empty wm) \<le> length (encode_blob_header_fields P b ds idata tdata wm)"
  "length b \<le> length (encode_blob_header_fields P b ds idata tdata wm)"
  by (auto simp: encode_blob_header_fields_def bytes_field len_field_def bytes_or_empty_def split: option.splits)

end

section \<open>Writing a frame\<close>

text \<open>The header encoder's policy: the tag index is dropped exactly when it does not fit.\<close>

definition kept_tagdata ::
  "Proto \<Rightarrow> bytes \<Rightarrow> i32 \<Rightarrow> bytes option \<Rightarrow> bytes option \<Rightarrow> bytes option \<Rightarrow> bytes option" where
  "kept_tagdata P b ds idata tdata wm =
     (if length (encode_blob_header_fields P b ds idata tdata wm) < MAX_BLOB_HEADER_SIZE then tdata else None)"

lemma encode_blob_header_into_ok:
  "encode_blob_header_into P b ds idata tdata wm = (Inr dropped, buf) \<longleftrightarrow>
     buf = encode_blob_header_fields P b ds idata (kept_tagdata P b ds idata tdata wm) wm
     \<and> length buf < MAX_BLOB_HEADER_SIZE
     \<and> dropped = (length (encode_blob_header_fields P b ds idata tdata wm) \<ge> MAX_BLOB_HEADER_SIZE)"
  by (cases tdata) (auto simp: encode_blob_header_into_def Let_def kept_tagdata_def)

lemma encode_blob_header_into_refused:
  "encode_blob_header_into P b ds idata tdata wm = (Inl e, buf) \<Longrightarrow>
     MAX_BLOB_HEADER_SIZE \<le> length (encode_blob_header_fields P b ds idata None wm)
     \<and> e = BlobTooLarge (if wm \<noteq> None \<and> length (encode_blob_header_fields P b ds idata None None) < MAX_BLOB_HEADER_SIZE
                         then HeaderWayMembers else Header)
             (length (encode_blob_header_fields P b ds idata None wm)) MAX_BLOB_HEADER_SIZE"
  by (cases tdata; cases wm) (auto simp: encode_blob_header_into_def Let_def split: if_splits)


text \<open>The body's head and payload, and the frame, as functions of the request alone.\<close>

definition zlib_bytes :: "('z, 's) Compressors \<Rightarrow> u32 \<Rightarrow> bytes \<Rightarrow> write_error + bytes" where
  "zlib_bytes C level u =
     (case snd (zlib_compress C (zlib_new C level) u) of
        (out, None) \<Rightarrow> Inl ZlibFailed
      | (out, Some StreamOpen) \<Rightarrow> Inl ZlibIncomplete
      | (out, Some StreamEnd) \<Rightarrow> Inr out)"

definition zstd_bytes :: "('z, 's) Compressors \<Rightarrow> i32 \<Rightarrow> bytes \<Rightarrow> write_error + bytes" where
  "zstd_bytes C level u =
     (case zstd_new C level of
        None \<Rightarrow> Inl ZstdFailed
      | Some s \<Rightarrow> (case snd (zstd_compress C s u) of (out, ok) \<Rightarrow> if ok then Inr out else Inl ZstdFailed))"

definition frame_body :: "Proto \<Rightarrow> ('z, 's) Compressors \<Rightarrow> bytes \<Rightarrow> Compression \<Rightarrow> write_error + bytes \<times> bytes" where
  "frame_body P C u compression =
     (let compressed = (\<lambda>field c. (encode_int32_field P blob_RAW_SIZE (of_nat (length u))
                                   @ encode_payload_field_head P field (length c), c)) in
      case compression of
        Compression_None \<Rightarrow> Inr (encode_payload_field_head P blob_RAW (length u), u)
      | Compression_Zlib level \<Rightarrow> map_sum id (compressed blob_ZLIB_DATA) (zlib_bytes C level u)
      | Compression_Zstd level \<Rightarrow> map_sum id (compressed blob_ZSTD_DATA) (zstd_bytes C level u))"

definition frame_header_spec ::
  "Proto \<Rightarrow> bytes \<Rightarrow> nat \<Rightarrow> bytes option \<Rightarrow> bytes option \<Rightarrow> bytes option \<Rightarrow> write_error + bytes" where
  "frame_header_spec P b n idata tdata wm =
     (let td = kept_tagdata P b (of_nat n) idata tdata wm;
          hdr = encode_blob_header_fields P b (of_nat n) idata td wm in
      if MAX_BLOB_DATASIZE \<le> n
      then Inl (BlobTooLarge (if b = OSMHEADER then OsmHeaderBody else Body) n MAX_BLOB_DATASIZE)
      else if MAX_BLOB_HEADER_SIZE \<le> length hdr
      then Inl (BlobTooLarge
                  (if wm \<noteq> None \<and> length (encode_blob_header_fields P b (of_nat n) idata None None) < MAX_BLOB_HEADER_SIZE
                   then HeaderWayMembers else Header) (length hdr) MAX_BLOB_HEADER_SIZE)
      else Inr hdr)"

definition frame_spec ::
  "Proto \<Rightarrow> ('z, 's) Compressors \<Rightarrow> bytes \<Rightarrow> bytes \<Rightarrow> Compression \<Rightarrow> bytes option \<Rightarrow> bytes option \<Rightarrow> bytes option
   \<Rightarrow> write_error + ScratchFrame" where
  "frame_spec P C b u compression idata tdata wm =
     (if MAX_BLOB_MESSAGE_SIZE < length u
      then Inl (BlobTooLarge (if b = OSMHEADER then OsmHeaderPayload else Payload) (length u) MAX_BLOB_MESSAGE_SIZE)
      else case frame_body P C u compression of
             Inl e \<Rightarrow> Inl e
           | Inr (head, payload) \<Rightarrow>
               (case frame_header_spec P b (length head + length payload) idata tdata wm of
                  Inl e \<Rightarrow> Inl e
                | Inr hdr \<Rightarrow> Inr \<lparr>sf_prefix = u32_to_be_bytes (of_nat (length hdr)), sf_header = hdr,
                                  sf_body_head = head, sf_payload = payload\<rparr>))"

lemma kept_tagdata_eq_iff:
  "length (encode_blob_header_fields P b ds idata (kept_tagdata P b ds idata tdata wm) wm) < MAX_BLOB_HEADER_SIZE \<Longrightarrow>
   kept_tagdata P b ds idata tdata wm = tdata \<longleftrightarrow> length (encode_blob_header_fields P b ds idata tdata wm) < MAX_BLOB_HEADER_SIZE"
  by (auto simp: kept_tagdata_def split: if_splits)

lemma encode_frame_header_eq:
  "case encode_frame_header P b n idata tdata wm scratch metrics of
     (r, scratch', metrics') \<Rightarrow>
       r = map_sum id (\<lambda>hdr. u32_to_be_bytes (of_nat (length hdr))) (frame_header_spec P b n idata tdata wm)
     \<and> body_head scratch' = body_head scratch \<and> compress_buf scratch' = compress_buf scratch
     \<and> zlib_compressor scratch' = zlib_compressor scratch \<and> zstd_compressor scratch' = zstd_compressor scratch
     \<and> (\<forall>hdr. frame_header_spec P b n idata tdata wm = Inr hdr \<longrightarrow>
          header_buf scratch' = hdr
        \<and> metrics' = metrics\<lparr>tagdata_dropped_oversize := tagdata_dropped_oversize metrics +
                        (if kept_tagdata P b (of_nat n) idata tdata wm = tdata then 0 else 1)\<rparr>)"
proof (cases "MAX_BLOB_DATASIZE \<le> n")
  case True
  then show ?thesis by (simp add: encode_frame_header_def frame_header_spec_def)
next
  case small: False
  then have n: "int n < 2 ^ 31" by (simp add: MAX_BLOB_DATASIZE_def MAX_BLOB_MESSAGE_SIZE_def)
  obtain r buf where into: "encode_blob_header_into P b (of_nat n) idata tdata wm = (r, buf)" by fastforce
  show ?thesis
  proof (cases r)
    case (Inl e)
    from encode_blob_header_into_refused [OF into [unfolded Inl]]
    have "kept_tagdata P b (of_nat n) idata tdata wm = None"
      and "MAX_BLOB_HEADER_SIZE \<le> length (encode_blob_header_fields P b (of_nat n) idata None wm)"
      using into Inl by (auto simp: kept_tagdata_def encode_blob_header_into_def Let_def split: if_splits)
    then show ?thesis
      using small n into Inl encode_blob_header_into_refused [OF into [unfolded Inl]]
      by (simp add: encode_frame_header_def frame_header_spec_def)
  next
    case (Inr dropped)
    from into [unfolded Inr encode_blob_header_into_ok]
    have buf: "buf = encode_blob_header_fields P b (of_nat n) idata (kept_tagdata P b (of_nat n) idata tdata wm) wm"
      "length buf < MAX_BLOB_HEADER_SIZE"
      "dropped \<longleftrightarrow> kept_tagdata P b (of_nat n) idata tdata wm \<noteq> tdata"
      using kept_tagdata_eq_iff [of P b "of_nat n" idata tdata wm] by auto
    then have "int (length buf) < 2 ^ 32" by (simp add: MAX_BLOB_HEADER_SIZE_def)
    then show ?thesis using small n into Inr buf
      by (simp add: encode_frame_header_def frame_header_spec_def Let_def)
  qed
qed

text \<open>
  The compressors a scratch may hold: built for their level, and used since for whole blocks; a zlib compressor was
  reset after each. What the code relies on is that the history does not show: a reset zlib compressor works as a
  new one, and a zstd compressor starts a new frame with each block.
\<close>

inductive zlib_clean :: "('z, 's) Compressors \<Rightarrow> u32 \<Rightarrow> 'z \<Rightarrow> bool" for C level where
  built: "zlib_clean C level (zlib_new C level)"
| used: "zlib_clean C level z \<Longrightarrow> zlib_clean C level (zlib_reset C (fst (zlib_compress C z u)))"

inductive zstd_clean :: "('z, 's) Compressors \<Rightarrow> i32 \<Rightarrow> 's \<Rightarrow> bool" for C level where
  built: "zstd_new C level = Some s \<Longrightarrow> zstd_clean C level s"
| used: "zstd_clean C level s \<Longrightarrow> zstd_clean C level (fst (zstd_compress C s u))"

definition compressors_ok :: "('z, 's) Compressors \<Rightarrow> bool" where
  "compressors_ok C \<longleftrightarrow>
     (\<forall>level z u. zlib_clean C level z \<longrightarrow> snd (zlib_compress C z u) = snd (zlib_compress C (zlib_new C level) u))
   \<and> (\<forall>level s0 s u. zstd_new C level = Some s0 \<longrightarrow> zstd_clean C level s \<longrightarrow> snd (zstd_compress C s u) = snd (zstd_compress C s0 u))"

definition scratch_clean :: "('z, 's) Compressors \<Rightarrow> ('z, 's) FrameScratch \<Rightarrow> bool" where
  "scratch_clean C scratch \<longleftrightarrow>
     (\<forall>level z. zlib_compressor scratch = Some (level, z) \<longrightarrow> zlib_clean C level z)
   \<and> (\<forall>level s. zstd_compressor scratch = Some (level, s) \<longrightarrow> zstd_clean C level s)"

definition zlib_trouble :: "write_error + 'a \<Rightarrow> bool" where
  "zlib_trouble r \<longleftrightarrow> r = Inl ZlibFailed \<or> r = Inl ZlibIncomplete"

lemma scratch_clean_new: "scratch_clean C FrameScratch_new"
  by (simp add: scratch_clean_def FrameScratch_new_def)

lemma zstd_clean_built: "zstd_clean C level s \<Longrightarrow> \<exists>s0. zstd_new C level = Some s0"
  by (induction rule: zstd_clean.induct) auto

lemma encode_compressed_head_eq:
  assumes "length u \<le> MAX_BLOB_MESSAGE_SIZE"
  shows "encode_compressed_head P field u scratch =
    (Inr Compressed, scratch\<lparr>body_head := body_head scratch @ encode_int32_field P blob_RAW_SIZE (of_nat (length u))
      @ encode_payload_field_head P field (length (compress_buf scratch))\<rparr>)"
  using assms by (simp add: encode_compressed_head_def MAX_BLOB_MESSAGE_SIZE_def)

text \<open>What compression leaves: the body's head and payload, and clean compressors unless zlib was in trouble.\<close>

definition body_done ::
  "('z, 's) Compressors \<Rightarrow> bytes \<Rightarrow> write_error + bytes \<times> bytes \<Rightarrow> (write_error + PayloadSource) \<times> ('z, 's) FrameScratch \<Rightarrow> bool" where
  "body_done C u spec res \<longleftrightarrow>
     (case res of
        (r, scratch') \<Rightarrow>
          (zlib_trouble r \<or> scratch_clean C scratch')
        \<and> (case spec of
             Inl e \<Rightarrow> r = Inl e
           | Inr (head, payload) \<Rightarrow> \<exists>source. r = Inr source \<and> body_head scratch' = head
               \<and> payload = (case source of Input \<Rightarrow> u | Compressed \<Rightarrow> compress_buf scratch')))"

lemma compress_zlib_eq:
  assumes "compressors_ok C" "scratch_clean C scratch" "length u \<le> MAX_BLOB_MESSAGE_SIZE"
  shows "body_done C u (map_sum id (\<lambda>c. (body_head scratch @ encode_int32_field P blob_RAW_SIZE (of_nat (length u))
      @ encode_payload_field_head P blob_ZLIB_DATA (length c), c)) (zlib_bytes C level u)) (compress_zlib P C u level scratch)"
proof -
  define z where "z = (case zlib_compressor scratch of Some (l, z) \<Rightarrow> if l = level then z else zlib_new C level | None \<Rightarrow> zlib_new C level)"
  have clean: "zlib_clean C level z"
    using assms(2) by (auto simp: z_def scratch_clean_def zlib_clean.built split: option.splits)
  obtain z' out status where c: "zlib_compress C z u = (z', out, status)" by (metis surj_pair)
  have "snd (zlib_compress C (zlib_new C level) u) = (out, status)"
    using assms(1) clean c unfolding compressors_ok_def by (metis snd_conv)
  moreover have "zlib_clean C level (zlib_reset C z')" using zlib_clean.used [OF clean, of u] c by simp
  ultimately show ?thesis
    using assms(2) c unfolding compress_zlib_def Let_def z_def [symmetric]
    by (auto simp: encode_compressed_head_eq [OF assms(3)] zlib_bytes_def body_done_def zlib_trouble_def scratch_clean_def split: option.splits zlib_status.splits)
qed

lemma compress_zstd_eq:
  assumes "compressors_ok C" "scratch_clean C scratch" "length u \<le> MAX_BLOB_MESSAGE_SIZE"
  shows "body_done C u (map_sum id (\<lambda>c. (body_head scratch @ encode_int32_field P blob_RAW_SIZE (of_nat (length u))
      @ encode_payload_field_head P blob_ZSTD_DATA (length c), c)) (zstd_bytes C level u)) (compress_zstd P C u level scratch)"
proof -
  define z where "z = (case zstd_compressor scratch of Some (l, z) \<Rightarrow> if l = level then Some z else zstd_new C level | None \<Rightarrow> zstd_new C level)"
  have clean: "\<And>s. z = Some s \<Longrightarrow> zstd_clean C level s"
    using assms(2) by (auto simp: z_def scratch_clean_def zstd_clean.built split: option.splits if_splits)
  show ?thesis
  proof (cases z)
    case None
    then have "zstd_new C level = None" by (auto simp: z_def split: option.splits if_splits)
    then show ?thesis using None assms(2) unfolding compress_zstd_def Let_def z_def [symmetric]
      by (simp add: zstd_bytes_def body_done_def zlib_trouble_def)
  next
    case (Some s)
    obtain s' out ok where c: "zstd_compress C s u = (s', out, ok)" by (metis surj_pair)
    obtain s0 where s0: "zstd_new C level = Some s0" using zstd_clean_built [OF clean [OF Some]] by blast
    have "snd (zstd_compress C s0 u) = (out, ok)"
      using assms(1) clean [OF Some] s0 c unfolding compressors_ok_def by (metis snd_conv)
    moreover have "zstd_clean C level s'" using zstd_clean.used [OF clean [OF Some], of u] c by simp
    ultimately show ?thesis
      using assms(2) c s0 Some unfolding compress_zstd_def Let_def z_def [symmetric]
      by (auto simp: encode_compressed_head_eq [OF assms(3)] zstd_bytes_def body_done_def zlib_trouble_def scratch_clean_def)
  qed
qed

lemma encode_blob_body_eq:
  assumes "compressors_ok C" "scratch_clean C scratch" "length u \<le> MAX_BLOB_MESSAGE_SIZE"
  shows "body_done C u (frame_body P C u compression) (encode_blob_body P C u compression part scratch)"
proof -
  let ?s = "scratch\<lparr>body_head := []\<rparr>"
  have "scratch_clean C ?s" using assms(2) by (simp add: scratch_clean_def)
  note z = compress_zlib_eq [OF assms(1) this assms(3), of P] compress_zstd_eq [OF assms(1) this assms(3), of P]
  show ?thesis
    using assms(2,3) z by (cases compression) (simp_all add: encode_blob_body_def frame_body_def Let_def body_done_def scratch_clean_def)
qed

lemma frame_in_scratch_eq:
  assumes "compressors_ok C" "scratch_clean C scratch"
  shows "case frame_in_scratch P C b u compression idata tdata wm scratch metrics of
     (r, scratch', metrics') \<Rightarrow>
       r = frame_spec P C b u compression idata tdata wm
     \<and> (zlib_trouble r \<or> scratch_clean C scratch')
     \<and> (case r of
          Inl _ \<Rightarrow> True
        | Inr frame \<Rightarrow>
            bytes_framed metrics' = bytes_framed metrics + ScratchFrame_len frame
          \<and> tagdata_dropped_oversize metrics' = tagdata_dropped_oversize metrics +
              (if kept_tagdata P b (of_nat (length (sf_body_head frame) + length (sf_payload frame))) idata tdata wm = tdata
               then 0 else 1))"
proof (cases "length u \<le> MAX_BLOB_MESSAGE_SIZE")
  case False
  then show ?thesis using assms(2) by (auto simp: frame_in_scratch_def frame_spec_def encode_blob_body_def scratch_clean_def)
next
  case True
  let ?part = "if b = OSMHEADER then OsmHeaderPayload else Payload"
  obtain r scratch1 where body: "encode_blob_body P C u compression ?part scratch = (r, scratch1)" by fastforce
  note spec = encode_blob_body_eq [OF assms True, of P compression ?part, unfolded body body_done_def prod.case]
  show ?thesis
  proof (cases "frame_body P C u compression")
    case (Inl e)
    then show ?thesis using True spec body by (auto simp: frame_in_scratch_def frame_spec_def zlib_trouble_def)
  next
    case (Inr hp)
    obtain head payload where hp: "hp = (head, payload)" by fastforce
    with spec Inr obtain source where src: "r = Inr source" "body_head scratch1 = head"
      "payload = (case source of Input \<Rightarrow> u | Compressed \<Rightarrow> compress_buf scratch1)" by auto
    have clean: "scratch_clean C scratch1" using spec src(1) by (simp add: zlib_trouble_def)
    obtain r2 scratch2 metrics2 where fh:
      "encode_frame_header P b (length head + length payload) idata tdata wm scratch1 metrics = (r2, scratch2, metrics2)"
      by (metis surj_pair)
    note spec2 = encode_frame_header_eq [of P b "length head + length payload" idata tdata wm scratch1 metrics, unfolded fh prod.case]
    then have "scratch_clean C scratch2" using clean by (simp add: scratch_clean_def)
    then show ?thesis
      using True body src fh Inr hp spec2
      by (cases "frame_header_spec P b (length head + length payload) idata tdata wm")
        (auto simp: frame_in_scratch_def frame_spec_def Let_def)
  qed
qed

section \<open>Splitting a frame into pieces\<close>

text \<open>
  Between turns the splitter holds a proper prefix of the piece it is filling, and what it
  has pushed are full pieces.
\<close>

definition pieces_inv :: "nat \<Rightarrow> bytes list \<Rightarrow> bytes \<Rightarrow> nat \<Rightarrow> Pieces \<Rightarrow> bool" where
  "pieces_inv piece out done_bytes rest_len s \<longleftrightarrow>
     (\<exists>ps. p_out s = out @ ps \<and> concat ps @ p_current s = done_bytes
         \<and> p_left s = length (p_current s) + rest_len
         \<and> p_target s = min (p_left s) piece
         \<and> (p_left s = 0 \<or> length (p_current s) < p_target s)
         \<and> (if p_left s = 0
            then ps = [] \<or> (list_all (\<lambda>p. length p = piece) (butlast ps) \<and> last ps \<noteq> [] \<and> length (last ps) \<le> piece)
            else list_all (\<lambda>p. length p = piece) ps))"

lemma piece_step_inv:
  assumes inv: "pieces_inv piece out done_bytes (length rest + k) s" and rest: "rest \<noteq> []" and piece: "0 < piece"
    and step: "piece_step piece rest s = (rest', s')"
  shows "\<exists>taken. taken \<noteq> [] \<and> rest = taken @ rest' \<and> pieces_inv piece out (done_bytes @ taken) (length rest' + k) s'"
proof -
  let ?cur = "p_current s"
  let ?n = "min (p_target s - length ?cur) (length rest)"
  obtain ps where ps: "p_out s = out @ ps" "concat ps @ ?cur = done_bytes"
    and left: "p_left s = length ?cur + (length rest + k)" and target: "p_target s = min (p_left s) piece"
    and room: "p_left s = 0 \<or> length ?cur < p_target s"
    and full: "if p_left s = 0
      then ps = [] \<or> (list_all (\<lambda>p. length p = piece) (butlast ps) \<and> last ps \<noteq> [] \<and> length (last ps) \<le> piece)
      else list_all (\<lambda>p. length p = piece) ps"
    using inv unfolding pieces_inv_def by (elim exE conjE) (rule that)
  have left0: "p_left s \<noteq> 0" using left rest by simp
  with room full have room: "length ?cur < p_target s" and full: "list_all (\<lambda>p. length p = piece) ps" by simp_all
  have n: "0 < ?n" "?n \<le> length rest" using room rest by simp_all
  have rest': "rest' = drop ?n rest" using step by (simp add: piece_step_def Let_def)
  have "pieces_inv piece out (done_bytes @ take ?n rest) (length rest' + k) s'"
  proof (cases "length ?cur + ?n = p_target s")
    case True
    let ?c = "?cur @ take ?n rest"
    have s': "s' = \<lparr>p_left = p_left s - p_target s, p_target = min (p_left s - p_target s) piece,
        p_current = [], p_out = p_out s @ [?c]\<rparr>"
      using step True n by (auto simp: piece_step_def Let_def min_def)
    have c: "length ?c = p_target s" "?c \<noteq> []" using True n rest by auto
    show ?thesis unfolding pieces_inv_def
      using ps left target full piece n c True
      by (intro exI [of _ "ps @ [?c]"]) (auto simp: s' rest')
  next
    case False
    then have nr: "?n = length rest" "length ?cur + length rest < p_target s" using room by auto
    then have "s' = s\<lparr>p_current := ?cur @ rest\<rparr>" "rest' = []"
      using step by (auto simp: piece_step_def Let_def)
    then show ?thesis unfolding pieces_inv_def
      using ps left target full nr left0 by (intro exI [of _ ps]) auto
  qed
  moreover have "take ?n rest \<noteq> []" "rest = take ?n rest @ rest'" using n rest rest' by auto
  ultimately show ?thesis by blast
qed

lemma split_part_inv:
  assumes "pieces_inv piece out done_bytes (length rest + k) s" "0 < piece"
  shows "\<exists>s'. split_part piece rest s = Some s' \<and> pieces_inv piece out (done_bytes @ rest) k s'"
  using assms(1)
proof (induction rest arbitrary: done_bytes s rule: length_induct)
  case (1 rest)
  show ?case
  proof (cases "rest = []")
    case True
    then show ?thesis using 1 by (simp add: split_part.simps)
  next
    case False
    obtain rest' s1 where step: "piece_step piece rest s = (rest', s1)" by fastforce
    from piece_step_inv [OF 1(2) False assms(2) step] obtain taken where t: "taken \<noteq> []" "rest = taken @ rest'"
      and inv: "pieces_inv piece out (done_bytes @ taken) (length rest' + k) s1" by blast
    then have "length rest' < length rest" by simp
    then obtain s' where s': "split_part piece rest' s1 = Some s'"
      "pieces_inv piece out ((done_bytes @ taken) @ rest') k s'" using 1(1) inv by blast
    moreover have "split_part piece rest s = split_part piece rest' s1"
      using False step by (subst split_part.simps) simp
    ultimately show ?thesis using t by auto
  qed
qed

lemma split_parts_inv:
  assumes "pieces_inv piece out done_bytes (length (concat parts)) s" "0 < piece"
  shows "\<exists>s'. split_parts piece parts s = Some s' \<and> pieces_inv piece out (done_bytes @ concat parts) 0 s'"
  using assms(1)
proof (induction parts arbitrary: done_bytes s)
  case (Cons part parts)
  from split_part_inv [of piece out done_bytes part "length (concat parts)" s] Cons(2) assms(2)
  obtain s1 where "split_part piece part s = Some s1" "pieces_inv piece out (done_bytes @ part) (length (concat parts)) s1"
    by auto
  with Cons.IH [of "done_bytes @ part" s1] show ?case by auto
qed simp

section \<open>Stripping header fields\<close>

lemma reads_bind:
  assumes "reads f" "\<And>b. k b \<noteq> Inl LoopStuck"
  shows "reads (\<lambda>d. case f d of Inl e \<Rightarrow> Inl e | Inr (b, r) \<Rightarrow> (case k b of Inl e \<Rightarrow> Inl e | Inr c \<Rightarrow> Inr (c, r)))"
proof (rule readsI)
  fix d
  show "(case f d of Inl e \<Rightarrow> Inl e | Inr (b, r) \<Rightarrow> (case k b of Inl e \<Rightarrow> Inl e | Inr c \<Rightarrow> Inr (c, r))) \<noteq> Inl LoopStuck"
    using reads_not_stuck [OF assms(1), of d] assms(2) by (auto split: sum.splits)
next
  fix d c r
  assume "(case f d of Inl e \<Rightarrow> Inl e | Inr (b, r) \<Rightarrow> (case k b of Inl e \<Rightarrow> Inl e | Inr c \<Rightarrow> Inr (c, r))) = Inr (c, r)"
  then obtain b where b: "f d = Inr (b, r)" "k b = Inr c" by (auto split: sum.splits)
  then show "\<exists>p. d = p @ r \<and> (\<forall>r'. (case f (p @ r') of Inl e \<Rightarrow> Inl e
      | Inr (b, r) \<Rightarrow> (case k b of Inl e \<Rightarrow> Inl e | Inr c \<Rightarrow> Inr (c, r))) = Inr (c, r'))"
    using reads_local [OF assms(1) b(1)] by auto
qed

lemma reads_if: "reads f \<Longrightarrow> reads g \<Longrightarrow> reads (\<lambda>d. if c then f d else g d)"
  by (cases c) simp_all

context proto
begin

lemma reads_handlers:
  "reads (\<lambda>d. skip_to P wt d h)" "reads (\<lambda>d. take_bytes P g d h)" "reads (\<lambda>d. take_type P d k)" "reads (\<lambda>d. take_datasize P d k)"
proof -
  have "skip_to P wt d h = (case map_sum id (Pair ()) (skip_field P wt d) of
      Inl e \<Rightarrow> Inl e | Inr (b, r) \<Rightarrow> (case Inr h of Inl e \<Rightarrow> Inl e | Inr c \<Rightarrow> Inr (c, r)))" for d
    by (cases "skip_field P wt d") (simp_all add: skip_to_def)
  then show "reads (\<lambda>d. skip_to P wt d h)"
    using reads_bind [OF reads_primitives(3) [of wt], where k = "\<lambda>_. Inr h"] by simp
  have "take_bytes P g d h = (case read_len_delimited P d of
      Inl e \<Rightarrow> Inl e | Inr (b, r) \<Rightarrow> (case Inr (g b h) of Inl e \<Rightarrow> Inl e | Inr c \<Rightarrow> Inr (c, r)))" for d
    by (simp add: take_bytes_def split: sum.splits)
  then show "reads (\<lambda>d. take_bytes P g d h)"
    using reads_bind [OF reads_primitives(1), where k = "\<lambda>b. Inr (g b h)"] by simp
  let ?t = "\<lambda>b. case blob_kind_of b of Inl e \<Rightarrow> Inl e | Inr x \<Rightarrow> Inr (k\<lparr>wh_blob_type := x\<rparr>)"
  have "take_type P d k = (case read_len_delimited P d of
      Inl e \<Rightarrow> Inl e | Inr (b, r) \<Rightarrow> (case ?t b of Inl e \<Rightarrow> Inl e | Inr c \<Rightarrow> Inr (c, r)))" for d
    by (simp add: take_type_def split: sum.splits)
  moreover have "?t b \<noteq> Inl LoopStuck" for b by (simp add: blob_kind_of_def)
  ultimately show "reads (\<lambda>d. take_type P d k)"
    using reads_bind [OF reads_primitives(1), where k = ?t] by simp
  have "take_datasize P d k = (case read_int32 P d of
      Inl e \<Rightarrow> Inl e | Inr (b, r) \<Rightarrow> (case Inr (k\<lparr>wh_datasize := b\<rparr>) of Inl e \<Rightarrow> Inl e | Inr c \<Rightarrow> Inr (c, r)))" for d
    by (simp add: take_datasize_def split: sum.splits)
  then show "reads (\<lambda>d. take_datasize P d k)"
    using reads_bind [OF reads_int32, where k = "\<lambda>v. Inr (k\<lparr>wh_datasize := v\<rparr>)"] by simp
qed

lemma reads_header_field: "reads (\<lambda>d. header_field P t i w n wt d h)"
proof -
  have "reads (\<lambda>d :: bytes. Inl UnframableHeader :: wire_error + WireBlobHeader \<times> bytes)" by (simp add: reads_def)
  then show ?thesis
    by (rule_tac header_field_exhaust [of n]) (simp_all add: header_field_cases reads_handlers reads_if)
qed

lemma header_field_skips: "header_field P t i w n wt d h = Inr (h', r) \<Longrightarrow> skip_field P wt d = Inr r"
  by (rule header_field_exhaust [of n])
    (auto simp: header_field_cases take_type_def take_bytes_def take_datasize_def skip_to_def
      split: if_splits sum.splits dest: skip_len skip_int32)

lemma header_field_flags:
  "n \<notin> F \<Longrightarrow> header_field P (t \<and> blob_header_TAGDATA \<notin> F) (i \<and> blob_header_INDEXDATA \<notin> F) w n wt d h
     = header_field P t i w n wt d h"
  by (rule header_field_exhaust [of n]) (auto simp: header_field_cases)

lemma header_field_stripped:
  assumes "n \<in> F" "F \<subseteq> {blob_header_INDEXDATA, blob_header_TAGDATA}"
  shows "header_field P (t \<and> blob_header_TAGDATA \<notin> F) (i \<and> blob_header_INDEXDATA \<notin> F) w n wt d h = skip_to P wt d h"
  using assms by (auto simp: header_field_cases)

lemma strip_loop:
  assumes F: "F \<subseteq> {blob_header_INDEXDATA, blob_header_TAGDATA}"
    and strip: "strip_message_fields P (\<lambda>f. f \<in> F) d = Inr out"
    and loop: "field_loop P (header_field P (t \<and> blob_header_TAGDATA \<notin> F) (i \<and> blob_header_INDEXDATA \<notin> F) w) d h = Inr h'"
  shows "field_loop P (header_field P t i w) out h = Inr h'"
  using strip loop
proof (induction d arbitrary: h out rule: length_induct)
  case (1 d)
  let ?g = "header_field P (t \<and> blob_header_TAGDATA \<notin> F) (i \<and> blob_header_INDEXDATA \<notin> F) w"
  note strip = 1(2) and loop = 1(3)
  show ?case
  proof (cases "read_tag P d")
    case (Inl e)
    then show ?thesis using strip by (subst (asm) strip_message_fields.simps) simp
  next
    case (Inr o1)
    show ?thesis
    proof (cases o1)
      case None
      then show ?thesis
        using Inr strip loop by (subst (asm) strip_message_fields.simps, subst (asm) field_loop.simps) simp
    next
      case (Some q)
      obtain n wt r where q: "q = ((n, wt), r)" by (metis surj_pair)
      have tag: "read_tag P d = Inr (Some ((n, wt), r))" using Inr Some q by simp
      obtain r2 out2 where skip: "skip_field P wt r = Inr r2" "length r2 < length d"
        and out2: "strip_message_fields P (\<lambda>f. f \<in> F) r2 = Inr out2"
        and out: "out = (if n \<in> F then [] else take (length d - length r2) d) @ out2"
        using strip tag by (subst (asm) strip_message_fields.simps) (auto simp: map_sum_def split: sum.splits if_splits)
      obtain h1 r1 where hf: "?g n wt r h = Inr (h1, r1)" and rest: "field_loop P ?g r1 h1 = Inr h'"
        using loop tag by (subst (asm) field_loop.simps) (auto split: sum.splits if_splits)
      have r1: "r1 = r2" using header_field_skips [OF hf] skip by simp
      have IH: "field_loop P (header_field P t i w) out2 h1 = Inr h'"
        using 1(1) skip(2) out2 rest r1 by blast
      show ?thesis
      proof (cases "n \<in> F")
        case True
        then have "h1 = h" using hf header_field_stripped [OF True F] by (simp add: skip_to_def split: sum.splits)
        then show ?thesis using IH out True by simp
      next
        case False
        obtain pt where pt: "d = pt @ r" "\<And>r'. read_tag P (pt @ r') = Inr (Some ((n, wt), r'))"
          using tag_local [OF tag] by blast
        from hf have "header_field P t i w n wt r h = Inr (h1, r2)" using header_field_flags [OF False] r1 by simp
        from reads_local [OF reads_header_field this] obtain ps where ps: "r = ps @ r2"
          "\<And>r'. header_field P t i w n wt (ps @ r') h = Inr (h1, r')" by blast
        have out': "out = pt @ ps @ out2" using out False pt ps by simp
        show ?thesis
          unfolding out' using field_loop_step [where f = "header_field P t i w", OF pt(2) ps(2)] IH by simp
      qed
    qed
  qed
qed

end

section \<open>Properties\<close>

text \<open>
  Splitting parts of a known total length into pieces ends, and what it appends are
  pieces that concatenate to the parts, each of exactly the piece size but the last, which
  is not empty and not longer.
\<close>
theorem pieces_exact:
  assumes "0 < piece"
  shows "\<exists>ps. split_into_pieces parts (sum_list (map length parts)) piece out = Some (out @ ps)
    \<and> concat ps = concat parts
    \<and> list_all (\<lambda>p. length p = piece) (butlast ps)
    \<and> (ps = [] \<or> (last ps \<noteq> [] \<and> length (last ps) \<le> piece))"
proof -
  let ?n = "sum_list (map length parts)"
  let ?s = "\<lparr>p_left = ?n, p_target = min ?n piece, p_current = [], p_out = out\<rparr>"
  have "pieces_inv piece out [] (length (concat parts)) ?s"
    using assms by (auto simp: pieces_inv_def length_concat)
  from split_parts_inv [OF this assms] obtain s' where s': "split_parts piece parts ?s = Some s'"
    "pieces_inv piece out (concat parts) 0 s'" by auto
  then have "p_left s' = 0" "p_current s' = []" by (auto simp: pieces_inv_def)
  with s' show ?thesis by (auto simp: pieces_inv_def split_into_pieces_def)
qed

theorem pieces_exact_witness:
  "\<exists>ps. split_into_pieces [[1, 2, 3], [], [4, 5]] 5 2 [] = Some ps \<and> concat ps = [1, 2, 3, 4, 5]
    \<and> list_all (\<lambda>p. length p = 2) (butlast ps)"
  using pieces_exact [of 2 "[[1, 2, 3], [], [4, 5]]" "[]"] by (auto simp: eval_nat_numeral)

text \<open>
  C25: a header stripped of its index or tag index parses, under any retention flags, to the
  original header without those fields: nothing else of it changes.
\<close>
theorem strip_removes_only:
  assumes "proto_ok P" "set F \<subseteq> {blob_header_INDEXDATA, blob_header_TAGDATA}"
    and "strip_blob_header_fields P d F = Inr out"
    and "WireBlobHeader_parse P d True True True = Inr h"
  shows "WireBlobHeader_parse P out t i w
    = Inr (keep_fields (t \<and> blob_header_TAGDATA \<notin> set F) (i \<and> blob_header_INDEXDATA \<notin> set F) w h)"
proof -
  have P: "proto P" using assms(1) by (simp add: proto_ok_def proto.intro)
  let ?t = "t \<and> blob_header_TAGDATA \<notin> set F" and ?i = "i \<and> blob_header_INDEXDATA \<notin> set F"
  have "WireBlobHeader_parse P d ?t ?i w = Inr (keep_fields ?t ?i w h)"
    using proto.parse_header_keep [OF P, of d ?t ?i w] assms(4) by simp
  then have "field_loop P (header_field P ?t ?i w) d WireBlobHeader_init = Inr (keep_fields ?t ?i w h)"
    and k: "wh_blob_type (keep_fields ?t ?i w h) \<noteq> UnknownBlob []"
    by (auto simp: WireBlobHeader_parse_def split: sum.splits if_splits)
  from proto.strip_loop [OF P assms(2) assms(3) [unfolded strip_blob_header_fields_def] this(1)] k
  show ?thesis by (simp add: WireBlobHeader_parse_def)
qed

theorem strip_removes_only_witness:
  "strip_blob_header_fields pb [10, 7, 79, 83, 77, 68, 97, 116, 97, 34, 1, 9, 24, 5] [blob_header_TAGDATA]
     = Inr [10, 7, 79, 83, 77, 68, 97, 116, 97, 24, 5]
   \<and> WireBlobHeader_parse pb [10, 7, 79, 83, 77, 68, 97, 116, 97, 24, 5] True True True
     = Inr \<lparr>wh_blob_type = OsmData, wh_datasize = 5, unrecognised_indexdata_len = None, wh_indexdata = None,
            indexdata_present = False, wh_tagdata = None, tagdata_present = False, wh_waymembers = None\<rparr>"
proof -
  have ok: "proto_ok pb" by (simp add: proto_ok_def pb_reads pb_roundtrip)
  have strip: "strip_blob_header_fields pb [10, 7, 79, 83, 77, 68, 97, 116, 97, 34, 1, 9, 24, 5] [blob_header_TAGDATA]
     = Inr [10, 7, 79, 83, 77, 68, 97, 116, 97, 24, 5]" by code_simp
  have full: "WireBlobHeader_parse pb [10, 7, 79, 83, 77, 68, 97, 116, 97, 34, 1, 9, 24, 5] True True True
     = Inr \<lparr>wh_blob_type = OsmData, wh_datasize = 5, unrecognised_indexdata_len = None, wh_indexdata = None,
            indexdata_present = False, wh_tagdata = Some [9], tagdata_present = True, wh_waymembers = None\<rparr>"
    by code_simp
  show ?thesis
    using strip strip_removes_only [OF ok _ strip full, of True True True]
    by (simp add: keep_fields_def header_fields)
qed

text \<open>Stored blocks, by compressors that have a state: a zlib compressor that was not reset gives nothing.\<close>

definition stored_compressors :: "(u32 \<times> bool, nat) Compressors" where
  "stored_compressors = \<lparr>zlib_new = (\<lambda>level. (level, False)),
     zlib_compress = (\<lambda>(level, open) u. ((level, True), if open then [] else u, Some StreamEnd)), zlib_reset = (\<lambda>(level, _). (level, False)),
     zstd_new = (\<lambda>_. Some 0), zstd_compress = (\<lambda>n u. (Suc n, u, True))\<rparr>"

lemma stored_zlib_clean: "zlib_clean stored_compressors level z \<Longrightarrow> z = (level, False)"
  by (induction rule: zlib_clean.induct) (simp_all add: stored_compressors_def)

lemma stored_compressors_ok: "compressors_ok stored_compressors"
proof -
  have "z = zlib_new stored_compressors level" if "zlib_clean stored_compressors level z" for level z
    using stored_zlib_clean [OF that] by (simp add: stored_compressors_def)
  moreover have "snd (zstd_compress stored_compressors s u) = (u, True)" for s u by (simp add: stored_compressors_def)
  ultimately show ?thesis unfolding compressors_ok_def by metis
qed

text \<open>
  C23: framing a block in reused scratch gives exactly the frame the request stands for, or the refusal the
  limits and the compressors call for, whatever the buffers held before and whichever compressors the scratch has
  cached, as long as they are clean: built for their level, used for whole blocks, a zlib compressor reset after
  each. A new scratch is clean, and a frame leaves the scratch clean unless zlib failed or did not finish, after
  which the code does not reset it. A reset zlib compressor is assumed to work as a new one, and a zstd compressor to
  compress each block by itself. The counters record the bytes framed and every tag index dropped.
\<close>
theorem frame_writer_exact:
  assumes "compressors_ok C" "scratch_clean C scratch"
  shows "case frame_in_scratch P C b u compression idata tdata wm scratch metrics of
     (r, scratch', metrics') \<Rightarrow>
       r = frame_spec P C b u compression idata tdata wm
     \<and> (zlib_trouble r \<or> scratch_clean C scratch')
     \<and> (case r of
          Inl _ \<Rightarrow> True
        | Inr frame \<Rightarrow>
            bytes_framed metrics' = bytes_framed metrics + ScratchFrame_len frame
          \<and> tagdata_dropped_oversize metrics' = tagdata_dropped_oversize metrics +
              (if kept_tagdata P b (of_nat (length (sf_body_head frame) + length (sf_payload frame))) idata tdata wm = tdata
               then 0 else 1))"
  using assms by (rule frame_in_scratch_eq)

theorem frame_writer_exact_witness:
  "\<exists>scratch metrics.
     frame_in_scratch pb stored_compressors OSMDATA [7, 7] (Compression_Zlib 6) None None None
       \<lparr>body_head = [1], header_buf = [2], compress_buf = [3], zlib_compressor = Some (6, (6, False)), zstd_compressor = None\<rparr>
       \<lparr>tagdata_dropped_oversize = 0, bytes_framed = 5\<rparr>
     = (Inr \<lparr>sf_prefix = [0, 0, 0, 11], sf_header = [10, 7, 79, 83, 77, 68, 97, 116, 97, 24, 6], sf_body_head = [16, 2, 26, 2], sf_payload = [7, 7]\<rparr>,
        scratch, metrics)
   \<and> scratch_clean stored_compressors scratch \<and> bytes_framed metrics = 26"
proof -
  let ?s = "\<lparr>body_head = [1], header_buf = [2], compress_buf = [3], zlib_compressor = Some (6, (6, False)), zstd_compressor = None\<rparr>"
  let ?f = "\<lparr>sf_prefix = [0, 0, 0, 11], sf_header = [10, 7, 79, 83, 77, 68, 97, 116, 97, 24, 6], sf_body_head = [16, 2, 26, 2], sf_payload = [7, 7]\<rparr>"
  have "zlib_clean stored_compressors 6 (6, False)" using zlib_clean.built [of stored_compressors 6] by (simp add: stored_compressors_def)
  then have clean: "scratch_clean stored_compressors ?s" by (simp add: scratch_clean_def)
  have "encode_blob_header_fields pb OSMDATA 6 None None None = [10, 7, 79, 83, 77, 68, 97, 116, 97, 24, 6]"
    "encode_int32_field pb blob_RAW_SIZE 2 = [16, 2]" "encode_payload_field_head pb blob_ZLIB_DATA (Suc (Suc 0)) = [26, 2]" "u32_to_be_bytes 11 = [0, 0, 0, 11]" by code_simp+
  then have spec: "frame_spec pb stored_compressors OSMDATA [7, 7] (Compression_Zlib 6) None None None = Inr ?f"
    by (simp add: frame_spec_def frame_body_def zlib_bytes_def stored_compressors_def frame_header_spec_def kept_tagdata_def Let_def
        MAX_BLOB_MESSAGE_SIZE_def MAX_BLOB_DATASIZE_def MAX_BLOB_HEADER_SIZE_def)
  have len: "ScratchFrame_len ?f = 21" by code_simp
  obtain r t m where run: "frame_in_scratch pb stored_compressors OSMDATA [7, 7] (Compression_Zlib 6) None None None ?s \<lparr>tagdata_dropped_oversize = 0, bytes_framed = 5\<rparr> = (r, t, m)"
    by (metis surj_pair)
  note exact = frame_writer_exact [OF stored_compressors_ok clean, of pb OSMDATA "[7, 7]" "Compression_Zlib 6" None None None "\<lparr>tagdata_dropped_oversize = 0, bytes_framed = 5\<rparr>",
      unfolded run prod.case]
  then have r: "r = Inr ?f" unfolding spec by blast
  have "scratch_clean stored_compressors t" "bytes_framed m = 26" using exact unfolding r sum.case len by (simp_all add: zlib_trouble_def)
  then show ?thesis using run unfolding r by blast
qed

end
