(* ===== verification/Decompress.thy ===== *)
theory Decompress
  imports Framing
begin

text \<open>
  Decompressing blob payloads, \<open>src/src/read/decompress.rs\<close>: the buffer pool, the bounded
  zlib inflation with its two loops, the bounded zstd read, and the four entry points the
  read paths call. The inflater of \<open>flate2\<close> and the decoder of \<open>zstd\<close> are parameters, as is
  the allocator, which decides how much capacity a buffer really gets. Shown: inflation
  ends, and its verdict depends on the compressed stream alone, whatever capacity the
  destination has and however the inflater steps; the four entry points agree; a written
  body decompresses to the block it was written from; the pool keeps its limits.
\<close>

section \<open>Buffers and the pool\<close>

record Vec =
  v_bytes :: bytes
  v_cap :: nat

definition v_len :: "Vec \<Rightarrow> nat" where "v_len v = length (v_bytes v)"

definition Vec_clear :: "Vec \<Rightarrow> Vec" where "Vec_clear v = v\<lparr>v_bytes := []\<rparr>"

text \<open>\<open>reserve_exact\<close>: the allocator gives at least what is asked for.\<close>

definition reserve_exact :: "(nat \<Rightarrow> nat) \<Rightarrow> nat \<Rightarrow> Vec \<Rightarrow> Vec" where
  "reserve_exact alloc n v = (if v_len v + n \<le> v_cap v then v else v\<lparr>v_cap := alloc (v_len v + n)\<rparr>)"

lemma v_bytes_reserve [simp]: "v_bytes (reserve_exact alloc n v) = v_bytes v"
  by (simp add: reserve_exact_def)

lemma v_len_reserve [simp]: "v_len (reserve_exact alloc n v) = v_len v"
  by (simp add: v_len_def)

lemma v_len_update [simp]: "v_len (v\<lparr>v_bytes := b\<rparr>) = length b"
  by (simp add: v_len_def)

definition Vec_extend :: "(nat \<Rightarrow> nat) \<Rightarrow> bytes \<Rightarrow> Vec \<Rightarrow> Vec" where
  "Vec_extend alloc b v = (let v = reserve_exact alloc (length b) v in v\<lparr>v_bytes := v_bytes v @ b\<rparr>)"

definition DECOMPRESS_POOL_MAX_RETAINED_CAPACITY :: nat where
  "DECOMPRESS_POOL_MAX_RETAINED_CAPACITY = 16 * 1024 * 1024"

definition DECOMPRESS_POOL_MAX_RETAINED_BYTES :: nat where
  "DECOMPRESS_POOL_MAX_RETAINED_BYTES = 256 * 1024 * 1024"

definition DECOMPRESS_POOL_MAX_BUFFERS :: nat where "DECOMPRESS_POOL_MAX_BUFFERS = 64"


definition DECOMPRESS_EXPANSION_GUESS :: nat where "DECOMPRESS_EXPANSION_GUESS = 4"

text \<open>The pool behind its lock, with its drop counters. Idle buffers are cleared.\<close>

record DecompressPool =
  buffers :: "Vec list"
  retained_bytes :: nat
  oversize_drops :: nat
  full_drops :: nat

definition DecompressPool_new :: DecompressPool where
  "DecompressPool_new = \<lparr>buffers = [], retained_bytes = 0, oversize_drops = 0, full_drops = 0\<rparr>"

definition Vec_new :: Vec where "Vec_new = \<lparr>v_bytes = [], v_cap = 0\<rparr>"

definition DecompressPool_get :: "DecompressPool \<Rightarrow> Vec \<times> DecompressPool" where
  "DecompressPool_get p =
     (case buffers p of
        [] \<Rightarrow> (Vec_new, p)
      | _ \<Rightarrow> (let buf = last (buffers p) in
              (buf, p\<lparr>buffers := butlast (buffers p), retained_bytes := retained_bytes p - v_cap buf\<rparr>)))"

definition DecompressPool_put :: "DecompressPool \<Rightarrow> Vec \<Rightarrow> DecompressPool" where
  "DecompressPool_put p buf =
     (if DECOMPRESS_POOL_MAX_RETAINED_CAPACITY < v_cap buf then p\<lparr>oversize_drops := oversize_drops p + 1\<rparr>
      else let buf = Vec_clear buf in
           if length (buffers p) < DECOMPRESS_POOL_MAX_BUFFERS
              \<and> retained_bytes p + v_cap buf \<le> DECOMPRESS_POOL_MAX_RETAINED_BYTES
           then p\<lparr>buffers := buffers p @ [buf], retained_bytes := retained_bytes p + v_cap buf\<rparr>
           else p\<lparr>full_drops := full_drops p + 1\<rparr>)"

definition pool_get :: "(nat \<Rightarrow> nat) \<Rightarrow> DecompressPool option \<Rightarrow> nat \<Rightarrow> Vec \<times> DecompressPool option" where
  "pool_get alloc pool capacity =
     (case pool of
        Some p \<Rightarrow> (case DecompressPool_get p of (buf, p) \<Rightarrow> (reserve_exact alloc capacity buf, Some p))
      | None \<Rightarrow> (reserve_exact alloc capacity Vec_new, None))"

section \<open>Inflation\<close>

datatype decompress_error =
    MessageTooBig nat
  | ZlibError
  | ZlibTruncated
  | ZstdError
  | EmptyBlob
  | Envelope wire_error
  | InflateContract \<comment> \<open>more consumed or produced than there was: excluded by the inflater's laws\<close>

datatype Status = StOk | StBufError | StStreamEnd

text \<open>
  The inflater: its state after a reset, and one call on the rest of the input with room
  for some bytes of output (\<open>None\<close> is its error).
\<close>

record 'z Inflater =
  inflate_reset :: 'z
  inflate :: "'z \<Rightarrow> bytes \<Rightarrow> nat \<Rightarrow> (Status \<times> nat \<times> bytes \<times> 'z) option"

record 'z Decoders =
  inflater :: "'z Inflater"
  zstd_stream :: "bytes \<Rightarrow> (bytes \<times> bool) option" \<comment> \<open>what the decoder delivers, and whether it then fails\<close>
  alloc :: "nat \<Rightarrow> nat"

text \<open>Why the loops end: a turn that goes on consumes input or fills some of the room.\<close>

lemma less_progress:
  assumes "\<not> (consumed = 0 \<and> out = [])" "consumed \<le> length input" "length out \<le> limit - n" "\<not> limit \<le> n"
  shows "length input - consumed + (limit - (n + length out)) < length input + (limit - n)"
  using assms by (cases out) auto

function zlib_inflate_into_slice ::
  "'z Inflater \<Rightarrow> nat \<Rightarrow> 'z \<Rightarrow> bytes \<Rightarrow> bytes \<Rightarrow> decompress_error + bytes" where
  "zlib_inflate_into_slice I limit z input got =
     (if limit \<le> length got then Inl (MessageTooBig (MAX_BLOB_MESSAGE_SIZE + 1))
      else case inflate I z input (limit - length got) of
             None \<Rightarrow> Inl ZlibError
           | Some (status, consumed, out, z) \<Rightarrow>
               if length input < consumed \<or> limit - length got < length out then Inl InflateContract
               else if status = StStreamEnd then Inr (got @ out)
               else if consumed = 0 \<and> out = [] then Inl ZlibTruncated
               else zlib_inflate_into_slice I limit z (drop consumed input) (got @ out))"
  by pat_completeness auto
termination
proof (relation "measure (\<lambda>(I, limit, z, input, got). length input + (limit - length got))", goal_cases)
  case (2 I limit z input got x s t consumed u out z')
  then show ?case using less_progress [of consumed out input limit "length got"]
    by (simp add: not_less)
qed simp

definition zlib_size_within_cap :: "nat \<Rightarrow> bytes \<Rightarrow> decompress_error + bytes" where
  "zlib_size_within_cap start b =
     (if MAX_BLOB_MESSAGE_SIZE < length b - start then Inl (MessageTooBig (length b - start)) else Inr b)"

definition grow :: "(nat \<Rightarrow> nat) \<Rightarrow> nat \<Rightarrow> Vec \<Rightarrow> Vec" where
  "grow al limit buf =
     (if v_len buf = v_cap buf then reserve_exact al (min (max (v_cap buf) 4096) (limit - v_len buf)) buf else buf)"

lemma grow_simps [simp]: "v_bytes (grow al limit buf) = v_bytes buf" "v_len (grow al limit buf) = v_len buf"
  by (simp_all add: grow_def)

function zlib_loop ::
  "'z Inflater \<Rightarrow> (nat \<Rightarrow> nat) \<Rightarrow> nat \<Rightarrow> nat \<Rightarrow> 'z \<Rightarrow> bytes \<Rightarrow> Vec \<Rightarrow> decompress_error + bytes" where
  "zlib_loop I al start limit z input buf =
     (if limit \<le> v_len buf then Inl (MessageTooBig (MAX_BLOB_MESSAGE_SIZE + 1))
      else let buf = grow al limit buf in
           if limit < v_cap buf
           then (case zlib_inflate_into_slice I limit z input (v_bytes buf) of
                   Inl e \<Rightarrow> Inl e
                 | Inr got \<Rightarrow> zlib_size_within_cap start got)
           else case inflate I z input (v_cap buf - v_len buf) of
                  None \<Rightarrow> Inl ZlibError
                | Some (status, consumed, out, z) \<Rightarrow>
                    if length input < consumed \<or> v_cap buf - v_len buf < length out then Inl InflateContract
                    else let input = drop consumed input; buf = buf\<lparr>v_bytes := v_bytes buf @ out\<rparr> in
                         if status = StStreamEnd then zlib_size_within_cap start (v_bytes buf)
                         else if consumed = 0 \<and> out = [] then Inl ZlibTruncated
                         else zlib_loop I al start limit z input buf)"
  by pat_completeness auto
termination
proof (relation "measure (\<lambda>(I, al, start, limit, z, input, buf). length input + (limit - v_len buf))", goal_cases)
  case (2 I al start limit z input buf buf' x s t consumed u out z' input' buf'')
  then have "length out \<le> limit - v_len buf" by auto
  with 2 show ?case using less_progress [of consumed out input limit "v_len buf"]
    by (simp add: not_less v_len_def)
qed simp

declare zlib_inflate_into_slice.simps [simp del] zlib_loop.simps [simp del]

definition zlib_decompress_into :: "'z Decoders \<Rightarrow> bytes \<Rightarrow> Vec \<Rightarrow> decompress_error + bytes" where
  "zlib_decompress_into D compressed buf =
     (let start = v_len buf; limit = start + (MAX_BLOB_MESSAGE_SIZE + 1) in
      zlib_loop (inflater D) (alloc D) start limit (inflate_reset (inflater D)) compressed buf)"

definition zstd_decompress_into :: "'z Decoders \<Rightarrow> bytes \<Rightarrow> Vec \<Rightarrow> decompress_error + bytes" where
  "zstd_decompress_into D compressed buf =
     (let limit = MAX_BLOB_MESSAGE_SIZE + 1 in
      case zstd_stream D compressed of
        None \<Rightarrow> Inl ZstdError
      | Some (out, fault) \<Rightarrow>
          if fault \<and> length out < limit then Inl ZstdError
          else let got = take limit out in
               if MAX_BLOB_MESSAGE_SIZE < length got then Inl (MessageTooBig (length got))
               else Inr (v_bytes buf @ got))"

section \<open>The entry points\<close>

definition raw_payload :: "'z Decoders \<Rightarrow> bytes \<Rightarrow> Vec \<Rightarrow> decompress_error + bytes" where
  "raw_payload D b buf =
     (if MAX_BLOB_MESSAGE_SIZE < length b then Inl (MessageTooBig (length b))
      else Inr (v_bytes (Vec_extend (alloc D) b buf)))"

definition check_size :: "i32 option \<Rightarrow> decompress_error + bytes \<Rightarrow> decompress_error + bytes" where
  "check_size raw_size r =
     (case r of
        Inl e \<Rightarrow> Inl e
      | Inr b \<Rightarrow> (case check_raw_size raw_size (length b) of Inl e \<Rightarrow> Inl (Envelope e) | Inr _ \<Rightarrow> Inr b))"

definition reserve_hint :: "'z Decoders \<Rightarrow> nat \<Rightarrow> Vec \<Rightarrow> Vec" where
  "reserve_hint D cap buf = (if 0 < cap then reserve_exact (alloc D) cap buf else buf)"

definition decompress_parsed_blob_body :: "'z Decoders \<Rightarrow> WireBlob \<Rightarrow> Vec \<Rightarrow> decompress_error + bytes" where
  "decompress_parsed_blob_body D blob buf =
     (let buf = Vec_clear buf in
      case wb_data blob of
        Some (Raw b) \<Rightarrow> raw_payload D b buf
      | Some (Zlib b) \<Rightarrow> zlib_decompress_into D b (reserve_hint D (estimated_capacity blob) buf)
      | Some (Zstd b) \<Rightarrow> zstd_decompress_into D b (reserve_hint D (estimated_capacity blob) buf)
      | None \<Rightarrow> Inl EmptyBlob)"

definition decompress_parsed_blob_into :: "'z Decoders \<Rightarrow> WireBlob \<Rightarrow> Vec \<Rightarrow> decompress_error + bytes" where
  "decompress_parsed_blob_into D blob buf = check_size (wb_raw_size blob) (decompress_parsed_blob_body D blob buf)"

definition decompress_blob_data_into :: "Proto \<Rightarrow> 'z Decoders \<Rightarrow> bytes \<Rightarrow> Vec \<Rightarrow> decompress_error + bytes" where
  "decompress_blob_data_into P D blob_bytes buf =
     (case WireBlob_parse P blob_bytes of
        Inl e \<Rightarrow> Inl (Envelope e)
      | Inr blob \<Rightarrow> decompress_parsed_blob_into D blob buf)"

definition decompress_wire_blob_into :: "'z Decoders \<Rightarrow> WireBlob \<Rightarrow> Vec \<Rightarrow> decompress_error + bytes" where
  "decompress_wire_blob_into D blob buf =
     (let buf = Vec_clear buf; est = estimated_capacity blob in
      check_size (wb_raw_size blob)
        (case wb_data blob of
           Some (Raw b) \<Rightarrow> raw_payload D b buf
         | Some (Zlib b) \<Rightarrow> zlib_decompress_into D b (reserve_hint D est buf)
         | Some (Zstd b) \<Rightarrow> zstd_decompress_into D b (reserve_hint D est buf)
         | None \<Rightarrow> Inl EmptyBlob))"

definition clamp_capacity_hint :: "nat \<Rightarrow> nat" where
  "clamp_capacity_hint hint = min hint MAX_BLOB_MESSAGE_SIZE"

text \<open>The envelope parser of the raw path: the payload field's number and bytes, and \<open>raw_size\<close>.\<close>

definition envelope_field ::
  "Proto \<Rightarrow> u32 \<Rightarrow> u32 \<Rightarrow> bytes \<Rightarrow> (u32 \<times> bytes) option \<times> i32 option
   \<Rightarrow> wire_error + ((u32 \<times> bytes) option \<times> i32 option) \<times> bytes" where
  "envelope_field P field wire_type d st =
     (case st of (payload, raw_size) \<Rightarrow>
        if field = blob_RAW \<or> field = blob_ZLIB_DATA \<or> field = blob_ZSTD_DATA
        then (case read_len_delimited P d of
                Inl e \<Rightarrow> Inl e
              | Inr (data, r) \<Rightarrow>
                  if payload \<noteq> None then Inl MultiplePayloads else Inr ((Some (field, data), raw_size), r))
        else if field = blob_RAW_SIZE
        then (case read_int32 P d of Inl e \<Rightarrow> Inl e | Inr (v, r) \<Rightarrow> Inr ((payload, Some v), r))
        else (case skip_field P wire_type d of Inl e \<Rightarrow> Inl e | Inr r \<Rightarrow> Inr ((payload, raw_size), r)))"

definition parse_raw_envelope :: "Proto \<Rightarrow> bytes \<Rightarrow> wire_error + (u32 \<times> bytes) option \<times> i32 option" where
  "parse_raw_envelope P raw_blob = field_loop P (envelope_field P) raw_blob (None, None)"

definition raw_blob_payload :: "Proto \<Rightarrow> bytes \<Rightarrow> wire_error + (u8 \<times> bytes) option" where
  "raw_blob_payload P raw_blob =
     (case parse_raw_envelope P raw_blob of
        Inl e \<Rightarrow> Inl e
      | Inr (payload, _) \<Rightarrow>
          Inr (map_option (\<lambda>(field, data). (if field = blob_RAW then 0 else if field = blob_ZLIB_DATA then 1 else 2, data)) payload))"

definition decompress_blob_raw :: "Proto \<Rightarrow> 'z Decoders \<Rightarrow> bytes \<Rightarrow> Vec \<Rightarrow> decompress_error + bytes" where
  "decompress_blob_raw P D raw_blob buf =
     (let buf = Vec_clear buf in
      case parse_raw_envelope P raw_blob of
        Inl e \<Rightarrow> Inl (Envelope e)
      | Inr (None, _) \<Rightarrow> Inl EmptyBlob
      | Inr (Some (field, data), raw_size) \<Rightarrow>
          check_size raw_size
            (if field = blob_RAW then raw_payload D data buf
             else let buf = (case raw_size of
                               Some rs \<Rightarrow> if 0 <s rs then reserve_exact (alloc D) (clamp_capacity_hint (unat rs)) buf else buf
                             | None \<Rightarrow> buf) in
                  if field = blob_ZLIB_DATA then zlib_decompress_into D data buf
                  else zstd_decompress_into D data buf))"

definition decompress_blob ::
  "'z Decoders \<Rightarrow> WireBlob \<Rightarrow> DecompressPool option \<Rightarrow> (decompress_error + bytes) \<times> DecompressPool option" where
  "decompress_blob D blob pool =
     (let est = estimated_capacity blob;
          capacity = (\<lambda>b. if 0 < est then est else clamp_capacity_hint (length b * DECOMPRESS_EXPANSION_GUESS)) in
      case wb_data blob of
        Some (Raw b) \<Rightarrow>
          (check_size (wb_raw_size blob)
             (if MAX_BLOB_MESSAGE_SIZE < length b then Inl (MessageTooBig (length b)) else Inr b), pool)
      | Some (Zlib b) \<Rightarrow>
          (case pool_get (alloc D) pool (capacity b) of
             (buf, pool) \<Rightarrow> (check_size (wb_raw_size blob) (zlib_decompress_into D b buf), pool))
      | Some (Zstd b) \<Rightarrow>
          (case pool_get (alloc D) pool (capacity b) of
             (buf, pool) \<Rightarrow> (check_size (wb_raw_size blob) (zstd_decompress_into D b buf), pool))
      | None \<Rightarrow> (Inl EmptyBlob, pool))"

section \<open>The verdict of inflation\<close>

text \<open>
  How a compressed stream ends: complete, corrupt, or cut short. The inflater's laws: it
  delivers the stream's bytes in order, stays within its input and its room, reports the
  end only at the end and an error only on a corrupt stream, and makes no progress only
  where the stream is cut.
\<close>

datatype stream_end = Ends | Bad | CutShort

definition inflater_ok :: "'z Inflater \<Rightarrow> ('z \<Rightarrow> bytes \<Rightarrow> bytes \<times> stream_end) \<Rightarrow> bool" where
  "inflater_ok I stream \<longleftrightarrow>
     (\<forall>z input n. 0 < n \<longrightarrow>
        (case inflate I z input n of
           None \<Rightarrow> snd (stream z input) = Bad
         | Some (status, consumed, out, z') \<Rightarrow>
             consumed \<le> length input \<and> length out \<le> n
           \<and> stream z input = (out @ fst (stream z' (drop consumed input)), snd (stream z' (drop consumed input)))
           \<and> (status = StStreamEnd \<longrightarrow> stream z' (drop consumed input) = ([], Ends))
           \<and> (status \<noteq> StStreamEnd \<and> consumed = 0 \<and> out = [] \<longrightarrow> stream z input = ([], CutShort))))"

definition alloc_ok :: "(nat \<Rightarrow> nat) \<Rightarrow> bool" where
  "alloc_ok al \<longleftrightarrow> (\<forall>n. n \<le> al n)"

lemma inflate_step:
  assumes "inflater_ok I stream" "0 < n" "inflate I z input n = Some (status, consumed, out, z')"
  shows "consumed \<le> length input" "length out \<le> n"
    "stream z input = (out @ fst (stream z' (drop consumed input)), snd (stream z' (drop consumed input)))"
    "status = StStreamEnd \<Longrightarrow> stream z' (drop consumed input) = ([], Ends)"
    "status \<noteq> StStreamEnd \<Longrightarrow> consumed = 0 \<Longrightarrow> out = [] \<Longrightarrow> stream z input = ([], CutShort)"
  using assms(1) [unfolded inflater_ok_def, rule_format, OF assms(2), of z input] assms(3) by auto

lemma inflate_error: "inflater_ok I stream \<Longrightarrow> 0 < n \<Longrightarrow> inflate I z input n = None \<Longrightarrow> snd (stream z input) = Bad"
  by (drule (1) inflater_ok_def [THEN iffD1, rule_format, of I stream n z input]) simp

definition verdict :: "bytes \<Rightarrow> nat \<Rightarrow> bytes \<times> stream_end \<Rightarrow> decompress_error + bytes \<Rightarrow> bool" where
  "verdict got limit s r \<longleftrightarrow>
     (case r of
        Inr b \<Rightarrow> snd s = Ends \<and> b = got @ fst s \<and> length b \<le> limit
      | Inl e \<Rightarrow> \<not> (snd s = Ends \<and> length got + length (fst s) < limit))"

lemma verdict_full: "limit \<le> length got \<Longrightarrow> verdict got limit s (Inl e)"
  by (simp add: verdict_def)

lemma verdict_step:
  assumes "s = (out @ fst s', snd s')" "verdict (got @ out) limit s' r"
  shows "verdict got limit s r"
  using assms by (auto simp: verdict_def split: sum.splits)

lemma slice_verdict:
  assumes "inflater_ok I stream"
  shows "verdict got limit (stream z input) (zlib_inflate_into_slice I limit z input got)"
  using assms
proof (induction I limit z input got rule: zlib_inflate_into_slice.induct)
  case (1 I limit z input got)
  note I = 1(2)
  show ?case
  proof (cases "limit \<le> length got")
    case True
    then show ?thesis by (subst zlib_inflate_into_slice.simps) (simp add: verdict_full)
  next
    case False
    then have room: "0 < limit - length got" by simp
    show ?thesis
    proof (cases "inflate I z input (limit - length got)")
      case None
      then show ?thesis using False inflate_error [OF I room None]
        by (subst zlib_inflate_into_slice.simps) (simp add: verdict_def)
    next
      case (Some q)
      obtain status consumed out z' where q: "q = (status, consumed, out, z')" by (metis surj_pair)
      note step = inflate_step [OF I room Some [unfolded q]]
      let ?s = "stream z' (drop consumed input)"
      have "verdict (got @ out) limit ?s (if status = StStreamEnd then Inr (got @ out)
          else if consumed = 0 \<and> out = [] then Inl ZlibTruncated
          else zlib_inflate_into_slice I limit z' (drop consumed input) (got @ out))"
        using step False 1(1) [OF False Some [unfolded q]] I
        by (auto simp: verdict_def not_less)
      then show ?thesis using verdict_step [OF step(3), of got limit] False Some q step(1,2)
        by (subst zlib_inflate_into_slice.simps) (simp add: not_less)
    qed
  qed
qed

text \<open>With the size check that follows, success is exactly a complete stream below the limit.\<close>

definition exact :: "bytes \<Rightarrow> nat \<Rightarrow> bytes \<times> stream_end \<Rightarrow> decompress_error + bytes \<Rightarrow> bool" where
  "exact got limit s r \<longleftrightarrow>
     (if snd s = Ends \<and> length got + length (fst s) < limit then r = Inr (got @ fst s) else isl r)"

lemma verdict_checked:
  assumes "verdict got (start + (MAX_BLOB_MESSAGE_SIZE + 1)) s r" "start \<le> length got"
  shows "exact got (start + (MAX_BLOB_MESSAGE_SIZE + 1)) s (case r of Inl e \<Rightarrow> Inl e | Inr b \<Rightarrow> zlib_size_within_cap start b)"
  using assms by (cases r) (auto simp: verdict_def exact_def zlib_size_within_cap_def)

lemma exact_step:
  assumes "s = (out @ fst s', snd s')" "exact (got @ out) limit s' r"
  shows "exact got limit s r"
proof -
  have "fst s = out @ fst s'" "snd s = snd s'" using assms(1) by simp_all
  then show ?thesis using assms(2) by (simp add: exact_def add.assoc)
qed

lemma grow_room:
  assumes "alloc_ok al" "v_len buf \<le> v_cap buf" "v_len buf < limit"
  shows "v_len buf < v_cap (grow al limit buf)"
proof (cases "v_len buf = v_cap buf")
  case True
  let ?n = "min (max (v_cap buf) 4096) (limit - v_len buf)"
  have "0 < ?n" using assms(3) by simp
  moreover have "v_len buf + ?n \<le> al (v_len buf + ?n)" using assms(1) by (simp add: alloc_ok_def)
  ultimately have "v_len buf < al (v_len buf + ?n)" by linarith
  then show ?thesis using True assms(3) by (simp add: grow_def reserve_exact_def)
qed (use assms(2) in \<open>simp add: grow_def\<close>)

lemma zlib_loop_exact:
  assumes "inflater_ok I stream" "alloc_ok al" "limit = start + (MAX_BLOB_MESSAGE_SIZE + 1)"
    and "start \<le> v_len buf" "v_len buf \<le> v_cap buf"
  shows "exact (v_bytes buf) limit (stream z input) (zlib_loop I al start limit z input buf)"
  using assms
proof (induction I al start limit z input buf rule: zlib_loop.induct)
  case (1 I al start limit z input buf)
  note I = 1(2) and al = 1(3) and limit = 1(4) and start = 1(5) and cap = 1(6)
  let ?b = "grow al limit buf"
  show ?case
  proof (cases "limit \<le> v_len buf")
    case True
    then show ?thesis by (subst zlib_loop.simps) (simp add: exact_def v_len_def)
  next
    case below: False
    then have room: "0 < v_cap ?b - v_len ?b" using grow_room [OF al cap, of limit] by simp
    show ?thesis
    proof (cases "limit < v_cap ?b")
      case True
      have "exact (v_bytes buf) limit (stream z input)
          (case zlib_inflate_into_slice I limit z input (v_bytes buf) of Inl e \<Rightarrow> Inl e | Inr b \<Rightarrow> zlib_size_within_cap start b)"
        unfolding limit by (rule verdict_checked [OF slice_verdict [OF I]]) (use start in \<open>simp add: v_len_def\<close>)
      then show ?thesis using below True by (subst zlib_loop.simps) simp
    next
      case False
      show ?thesis
      proof (cases "inflate I z input (v_cap ?b - v_len ?b)")
        case None
        then show ?thesis using below False inflate_error [OF I room None]
          by (subst zlib_loop.simps) (simp add: exact_def)
      next
        case (Some q)
        obtain status consumed out z' where q: "q = (status, consumed, out, z')" by (metis surj_pair)
        note step = inflate_step [OF I room Some [unfolded q]]
        let ?s = "stream z' (drop consumed input)" and ?b' = "?b\<lparr>v_bytes := v_bytes buf @ out\<rparr>"
        have len: "start \<le> v_len ?b'" "v_len ?b' \<le> v_cap ?b'" using start step(2) room by (auto simp: v_len_def)
        let ?r = "if status = StStreamEnd then zlib_size_within_cap start (v_bytes buf @ out)
            else if consumed = 0 \<and> out = [] then Inl ZlibTruncated
            else zlib_loop I al start limit z' (drop consumed input) ?b'"
        have eq: "zlib_loop I al start limit z input buf = ?r"
          using below False Some q step(1,2) by (subst zlib_loop.simps) (simp add: not_less Let_def)
        have "exact (v_bytes buf @ out) limit ?s ?r"
        proof (cases "status = StStreamEnd")
          case True
          then have "?s = ([], Ends)" using step(4) by simp
          then have "verdict (v_bytes buf @ out) limit ?s (Inr (v_bytes buf @ out))"
            using step(2) False below by (simp add: verdict_def v_len_def)
          from verdict_checked [OF this [unfolded limit]] True start show ?thesis
            by (simp add: limit v_len_def)
        next
          case go_on: False
          show ?thesis
          proof (cases "consumed = 0 \<and> out = []")
            case True
            then have "?s = ([], CutShort)" using go_on step(3,5) by (simp add: prod_eq_iff)
            then show ?thesis using go_on True by (simp add: exact_def)
          next
            case more: False
            have "exact (v_bytes ?b') limit ?s (zlib_loop I al start limit z' (drop consumed input) ?b')"
              using 1(1) [OF below refl False Some [unfolded q] refl refl refl] go_on more step(1,2) I al limit len
              by (simp add: not_less)
            then show ?thesis using go_on more by auto
          qed
        qed
        from exact_step [OF step(3) this] show ?thesis unfolding eq .
      qed
    qed
  qed
qed

section \<open>Agreement of the entry points\<close>

text \<open>The verdict on a payload: success is a function of the payload alone.\<close>

definition payload_bytes :: "'z Decoders \<Rightarrow> ('z \<Rightarrow> bytes \<Rightarrow> bytes \<times> stream_end) \<Rightarrow> BlobData \<Rightarrow> bytes option" where
  "payload_bytes D stream data =
     (case data of
        Raw b \<Rightarrow> if length b \<le> MAX_BLOB_MESSAGE_SIZE then Some b else None
      | Zlib b \<Rightarrow> (case stream (inflate_reset (inflater D)) b of
                     (out, e) \<Rightarrow> if e = Ends \<and> length out \<le> MAX_BLOB_MESSAGE_SIZE then Some out else None)
      | Zstd b \<Rightarrow> (case zstd_stream D b of
                     Some (out, False) \<Rightarrow> if length out \<le> MAX_BLOB_MESSAGE_SIZE then Some out else None
                   | _ \<Rightarrow> None))"

definition decoders_ok :: "'z Decoders \<Rightarrow> ('z \<Rightarrow> bytes \<Rightarrow> bytes \<times> stream_end) \<Rightarrow> bool" where
  "decoders_ok D stream \<longleftrightarrow> inflater_ok (inflater D) stream \<and> alloc_ok (alloc D)"

definition yields :: "'a option \<Rightarrow> 'e + 'a \<Rightarrow> bool" where
  "yields x r \<longleftrightarrow> (case x of Some b \<Rightarrow> r = Inr b | None \<Rightarrow> isl r)"

lemma raw_yields: "yields (payload_bytes D stream (Raw b)) (raw_payload D b (Vec_clear buf))"
  by (simp add: yields_def payload_bytes_def raw_payload_def Vec_extend_def Vec_clear_def Let_def)

lemma zlib_yields:
  assumes "decoders_ok D stream" "v_bytes buf = []"
  shows "yields (payload_bytes D stream (Zlib b)) (zlib_decompress_into D b buf)"
proof -
  have "exact [] (MAX_BLOB_MESSAGE_SIZE + 1) (stream (inflate_reset (inflater D)) b) (zlib_decompress_into D b buf)"
    using zlib_loop_exact [of "inflater D" stream "alloc D" "MAX_BLOB_MESSAGE_SIZE + 1" 0 buf] assms
    by (simp add: decoders_ok_def zlib_decompress_into_def v_len_def)
  then show ?thesis
    by (cases "stream (inflate_reset (inflater D)) b") (simp add: exact_def yields_def payload_bytes_def less_Suc_eq_le)
qed

lemma zstd_yields:
  assumes "v_bytes buf = []"
  shows "yields (payload_bytes D stream (Zstd b)) (zstd_decompress_into D b buf)"
  using assms
  by (auto simp: yields_def payload_bytes_def zstd_decompress_into_def Let_def less_Suc_eq_le split: option.splits bool.splits)

lemma yields_check:
  assumes "yields x r"
  shows "yields (case x of None \<Rightarrow> None | Some b \<Rightarrow> if isl (check_raw_size sz (length b)) then None else Some b)
    (check_size sz r)"
  using assms by (auto simp: yields_def check_size_def split: option.splits sum.splits)

definition blob_bytes :: "'z Decoders \<Rightarrow> ('z \<Rightarrow> bytes \<Rightarrow> bytes \<times> stream_end) \<Rightarrow> WireBlob \<Rightarrow> bytes option" where
  "blob_bytes D stream blob =
     (case wb_data blob of
        None \<Rightarrow> None
      | Some data \<Rightarrow>
          (case payload_bytes D stream data of
             None \<Rightarrow> None
           | Some b \<Rightarrow> if isl (check_raw_size (wb_raw_size blob) (length b)) then None else Some b))"

lemma cleared [simp]: "v_bytes (reserve_hint D n (Vec_clear buf)) = []"
  by (simp add: reserve_hint_def Vec_clear_def)

lemma parsed_yields:
  assumes "decoders_ok D stream"
  shows "yields (blob_bytes D stream blob) (decompress_parsed_blob_into D blob buf)"
proof (cases "wb_data blob")
  case None
  then show ?thesis
    by (simp add: decompress_parsed_blob_into_def decompress_parsed_blob_body_def blob_bytes_def check_size_def yields_def)
next
  case (Some data)
  have "yields (payload_bytes D stream data) (decompress_parsed_blob_body D blob buf)"
    using Some zlib_yields [OF assms, OF cleared] zstd_yields [OF cleared] raw_yields
    by (cases data) (simp_all add: decompress_parsed_blob_body_def)
  from yields_check [OF this, of "wb_raw_size blob"] Some show ?thesis
    by (simp add: decompress_parsed_blob_into_def blob_bytes_def)
qed

lemma wire_yields: "decompress_wire_blob_into D blob buf = decompress_parsed_blob_into D blob buf"
  by (simp add: decompress_wire_blob_into_def decompress_parsed_blob_into_def decompress_parsed_blob_body_def Let_def)

text \<open>The pool's invariant: cleared buffers, their capacities counted, the three limits.\<close>

definition pool_wf :: "DecompressPool \<Rightarrow> bool" where
  "pool_wf p \<longleftrightarrow>
     retained_bytes p = sum_list (map v_cap (buffers p))
   \<and> retained_bytes p \<le> DECOMPRESS_POOL_MAX_RETAINED_BYTES
   \<and> length (buffers p) \<le> DECOMPRESS_POOL_MAX_BUFFERS
   \<and> (\<forall>v \<in> set (buffers p). v_bytes v = [] \<and> v_cap v \<le> DECOMPRESS_POOL_MAX_RETAINED_CAPACITY)"

lemma pool_wf_new: "pool_wf DecompressPool_new"
  by (simp add: pool_wf_def DecompressPool_new_def)

lemma pool_wf_put: "pool_wf p \<Longrightarrow> pool_wf (DecompressPool_put p buf)"
  by (auto simp: pool_wf_def DecompressPool_put_def Let_def Vec_clear_def)

lemma pool_wf_get:
  assumes "pool_wf p" "DecompressPool_get p = (buf, p')"
  shows "pool_wf p' \<and> v_bytes buf = []"
proof (cases "buffers p" rule: rev_cases)
  case Nil
  then show ?thesis using assms by (auto simp: DecompressPool_get_def Vec_new_def)
next
  case (snoc bs b)
  have "DecompressPool_get p = (b, p\<lparr>buffers := bs, retained_bytes := retained_bytes p - v_cap b\<rparr>)"
    using snoc by (cases bs) (simp_all add: DecompressPool_get_def Let_def)
  then show ?thesis using assms snoc by (auto simp: pool_wf_def)
qed

lemma pool_get_cleared:
  assumes "\<forall>p. pool = Some p \<longrightarrow> pool_wf p" "pool_get al pool n = (buf, pool')"
  shows "v_bytes buf = [] \<and> (\<forall>p. pool' = Some p \<longrightarrow> pool_wf p)"
proof (cases pool)
  case None
  then show ?thesis using assms(2) by (auto simp: pool_get_def Vec_new_def)
next
  case (Some p)
  obtain b p' where "DecompressPool_get p = (b, p')" by fastforce
  then show ?thesis using assms Some pool_wf_get [of p b p'] by (auto simp: pool_get_def)
qed

lemma pooled_yields:
  assumes "decoders_ok D stream" "\<forall>p. pool = Some p \<longrightarrow> pool_wf p"
  shows "yields (blob_bytes D stream blob) (fst (decompress_blob D blob pool))"
proof (cases "wb_data blob")
  case None
  then show ?thesis by (simp add: decompress_blob_def blob_bytes_def yields_def)
next
  case (Some data)
  show ?thesis
  proof (cases data)
    case (Raw b)
    have "yields (payload_bytes D stream (Raw b))
        (if MAX_BLOB_MESSAGE_SIZE < length b then Inl (MessageTooBig (length b)) else Inr b)"
      by (simp add: yields_def payload_bytes_def)
    from yields_check [OF this, of "wb_raw_size blob"] Some Raw show ?thesis
      by (simp add: decompress_blob_def blob_bytes_def)
  next
    case (Zlib b)
    let ?n = "if 0 < estimated_capacity blob then estimated_capacity blob
      else clamp_capacity_hint (length b * DECOMPRESS_EXPANSION_GUESS)"
    obtain buf pool' where g: "pool_get (alloc D) pool ?n = (buf, pool')" by fastforce
    then have "v_bytes buf = []" using pool_get_cleared [OF assms(2) g] by simp
    from yields_check [OF zlib_yields [OF assms(1) this], of "wb_raw_size blob"] Some Zlib g show ?thesis
      by (simp add: decompress_blob_def blob_bytes_def Let_def)
  next
    case (Zstd b)
    let ?n = "if 0 < estimated_capacity blob then estimated_capacity blob
      else clamp_capacity_hint (length b * DECOMPRESS_EXPANSION_GUESS)"
    obtain buf pool' where g: "pool_get (alloc D) pool ?n = (buf, pool')" by fastforce
    then have "v_bytes buf = []" using pool_get_cleared [OF assms(2) g] by simp
    from yields_check [OF zstd_yields [OF this], of "wb_raw_size blob"] Some Zstd g show ?thesis
      by (simp add: decompress_blob_def blob_bytes_def Let_def)
  qed
qed

text \<open>The raw path's envelope parser reads what \<open>WireBlob::parse\<close> reads.\<close>

definition envelope_of :: "WireBlob \<Rightarrow> (u32 \<times> bytes) option \<times> i32 option" where
  "envelope_of b =
     (map_option (\<lambda>data. case data of Raw p \<Rightarrow> (blob_RAW, p) | Zlib p \<Rightarrow> (blob_ZLIB_DATA, p) | Zstd p \<Rightarrow> (blob_ZSTD_DATA, p))
        (wb_data b), wb_raw_size b)"

lemma field_loop_map:
  assumes "\<And>n w d a. g n w d (k a) = map_sum id (map_prod k id) (f n w d a)"
  shows "field_loop P g d (k a) = map_sum id k (field_loop P f d a)"
proof (induction d arbitrary: a rule: length_induct)
  case (1 d)
  show ?case
    by (subst (1 2) field_loop.simps)
      (auto simp: assms 1 map_sum_def split: sum.splits option.splits)
qed

lemma envelope_field_eq:
  "envelope_field P n w d (envelope_of b) = map_sum id (map_prod envelope_of id) (blob_field P n w d b)"
  by (auto simp: envelope_field_def blob_field_def envelope_of_def split: sum.splits)

lemma parse_raw_envelope_eq: "parse_raw_envelope P d = map_sum id envelope_of (WireBlob_parse P d)"
  using field_loop_map [where g = "envelope_field P" and f = "blob_field P" and k = envelope_of
      and a = "\<lparr>wb_data = None, wb_raw_size = None\<rparr>", OF envelope_field_eq]
  by (simp add: parse_raw_envelope_def WireBlob_parse_def envelope_of_def)

lemma raw_path_yields:
  assumes "decoders_ok D stream"
  shows "yields (case WireBlob_parse P d of Inl _ \<Rightarrow> None | Inr blob \<Rightarrow> blob_bytes D stream blob)
    (decompress_blob_raw P D d buf)"
proof (cases "WireBlob_parse P d")
  case (Inl e)
  then show ?thesis by (simp add: decompress_blob_raw_def parse_raw_envelope_eq yields_def)
next
  case (Inr blob)
  show ?thesis
  proof (cases "wb_data blob")
    case None
    then show ?thesis using Inr
      by (simp add: decompress_blob_raw_def parse_raw_envelope_eq yields_def envelope_of_def blob_bytes_def)
  next
    case (Some data)
    let ?buf = "case wb_raw_size blob of
        Some rs \<Rightarrow> if 0 <s rs then reserve_exact (alloc D) (clamp_capacity_hint (unat rs)) (Vec_clear buf) else Vec_clear buf
      | None \<Rightarrow> Vec_clear buf"
    have empty: "v_bytes ?buf = []" by (simp add: Vec_clear_def split: option.splits)
    let ?r = "case data of Raw b \<Rightarrow> raw_payload D b (Vec_clear buf)
      | Zlib b \<Rightarrow> zlib_decompress_into D b ?buf | Zstd b \<Rightarrow> zstd_decompress_into D b ?buf"
    have "decompress_blob_raw P D d buf = check_size (wb_raw_size blob) ?r"
      using Inr Some
      by (cases data) (simp_all add: decompress_blob_raw_def parse_raw_envelope_eq envelope_of_def
          blob_RAW_def blob_ZLIB_DATA_def blob_ZSTD_DATA_def Let_def)
    moreover have "yields (payload_bytes D stream data) ?r"
      using zlib_yields [OF assms empty] zstd_yields [OF empty] raw_yields by (cases data) simp_all
    ultimately show ?thesis using Inr Some yields_check [of "payload_bytes D stream data" ?r "wb_raw_size blob"]
      by (simp add: blob_bytes_def)
  qed
qed

section \<open>Reading back a written body\<close>

definition codecs_agree :: "('c, 's) Compressors \<Rightarrow> 'z Decoders \<Rightarrow> ('z \<Rightarrow> bytes \<Rightarrow> bytes \<times> stream_end) \<Rightarrow> bool" where
  "codecs_agree C D stream \<longleftrightarrow>
     (\<forall>level u c. zlib_bytes C level u = Inr c \<longrightarrow> stream (inflate_reset (inflater D)) c = (u, Ends))
   \<and> (\<forall>level u c. zstd_bytes C level u = Inr c \<longrightarrow> zstd_stream D c = Some (u, False))"

lemma check_raw_size_written:
  assumes "length u \<le> MAX_BLOB_MESSAGE_SIZE" "raw_size = Some (of_nat (length u)) \<or> raw_size = None"
  shows "check_raw_size raw_size (length u) = Inr ()"
proof -
  have n: "length u < 2 ^ 31" using assms(1) by (simp add: MAX_BLOB_MESSAGE_SIZE_def)
  then have "sint (of_nat (length u) :: i32) = int (length u)"
    by (simp add: signed_of_nat signed_take_bit_int_eq_self)
  then show ?thesis using assms(2) n by (auto simp: check_raw_size_def)
qed

lemma written_body_bytes:
  assumes P: "proto P" and codecs: "codecs_agree C D stream"
    and body: "frame_body P C u compression = Inr (head, payload)"
    and small: "length u \<le> MAX_BLOB_MESSAGE_SIZE" "length payload < 2 ^ 32"
  shows "\<exists>blob. WireBlob_parse P (head @ payload) = Inr blob \<and> blob_bytes D stream blob = Some u"
proof (cases compression)
  case Compression_None
  then show ?thesis
    using body small proto.parse_raw_body [OF P, of u]
    by (auto simp: frame_body_def blob_bytes_def payload_bytes_def check_raw_size_written)
next
  case (Compression_Zlib level)
  then have c: "zlib_bytes C level u = Inr payload"
    and h: "head = encode_int32_field P blob_RAW_SIZE (of_nat (length u)) @ encode_payload_field_head P blob_ZLIB_DATA (length payload)"
    using body by (cases "zlib_bytes C level u"; auto simp: frame_body_def)+
  from proto.parse_compressed_body [OF P small(2), of blob_ZLIB_DATA Zlib "of_nat (length u)"]
  obtain sz where sz: "WireBlob_parse P (head @ payload) = Inr \<lparr>wb_data = Some (Zlib payload), wb_raw_size = sz\<rparr>"
    "sz = Some (of_nat (length u)) \<or> sz = None" using h by auto
  moreover have "stream (inflate_reset (inflater D)) payload = (u, Ends)" using codecs c by (auto simp: codecs_agree_def)
  ultimately show ?thesis
    using small(1) check_raw_size_written [OF small(1) sz(2)] by (simp add: blob_bytes_def payload_bytes_def)
next
  case (Compression_Zstd level)
  then have c: "zstd_bytes C level u = Inr payload"
    and h: "head = encode_int32_field P blob_RAW_SIZE (of_nat (length u)) @ encode_payload_field_head P blob_ZSTD_DATA (length payload)"
    using body by (cases "zstd_bytes C level u"; auto simp: frame_body_def)+
  from proto.parse_compressed_body [OF P small(2), of blob_ZSTD_DATA Zstd "of_nat (length u)"]
  obtain sz where sz: "WireBlob_parse P (head @ payload) = Inr \<lparr>wb_data = Some (Zstd payload), wb_raw_size = sz\<rparr>"
    "sz = Some (of_nat (length u)) \<or> sz = None" using h by auto
  moreover have "zstd_stream D payload = Some (u, False)" using codecs c by (auto simp: codecs_agree_def)
  ultimately show ?thesis
    using small(1) check_raw_size_written [OF small(1) sz(2)] by (simp add: blob_bytes_def payload_bytes_def)
qed

section \<open>Properties\<close>

text \<open>
  C5: the four ways the read paths decompress a blob agree on every blob message, whatever
  the capacity of the destination and the state of the pool: each gives the bytes its payload
  stands for when the envelope parses, the payload is complete and within the cap and the
  declared size is right, and an error otherwise.
\<close>
theorem decompressors_agree:
  assumes "decoders_ok D stream" "\<forall>p. pool = Some p \<longrightarrow> pool_wf p"
  shows "let expected = (case WireBlob_parse P d of Inl _ \<Rightarrow> None | Inr blob \<Rightarrow> blob_bytes D stream blob) in
      yields expected (decompress_blob_raw P D d buf1)
    \<and> yields expected (decompress_blob_data_into P D d buf2)
    \<and> (case WireBlob_parse P d of
         Inl _ \<Rightarrow> True
       | Inr blob \<Rightarrow> yields expected (decompress_wire_blob_into D blob buf3)
                   \<and> yields expected (fst (decompress_blob D blob pool)))"
proof (cases "WireBlob_parse P d")
  case (Inl e)
  then show ?thesis using raw_path_yields [OF assms(1), of P d buf1]
    by (simp add: decompress_blob_data_into_def yields_def)
next
  case (Inr blob)
  then show ?thesis
    using raw_path_yields [OF assms(1), of P d buf1] parsed_yields [OF assms(1)] pooled_yields [OF assms]
    by (simp add: decompress_blob_data_into_def wire_yields)
qed


text \<open>A codec that stores: its stream is its input.\<close>

definition stored_inflater :: "unit Inflater" where
  "stored_inflater = \<lparr>inflate_reset = (),
     inflate = (\<lambda>z input n. Some (if length input \<le> n then StStreamEnd else StOk, min n (length input), take n input, ()))\<rparr>"

definition stored :: "unit Decoders" where
  "stored = \<lparr>inflater = stored_inflater, zstd_stream = (\<lambda>b. Some (b, False)), alloc = (\<lambda>n. n)\<rparr>"

lemma stored_ok: "decoders_ok stored (\<lambda>z input. (input, Ends))"
  by (auto simp: decoders_ok_def stored_def stored_inflater_def inflater_ok_def alloc_ok_def min_def)

theorem decompressors_agree_witness:
  "decompress_blob_raw pb stored [26, 1, 9] Vec_new = Inr [9]
   \<and> fst (decompress_blob stored \<lparr>wb_data = Some (Zlib [9]), wb_raw_size = None\<rparr> (Some DecompressPool_new)) = Inr [9]"
proof -
  have parse: "WireBlob_parse pb [26, 1, 9] = Inr \<lparr>wb_data = Some (Zlib [9]), wb_raw_size = None\<rparr>" by code_simp
  have "blob_bytes stored (\<lambda>z input. (input, Ends)) \<lparr>wb_data = Some (Zlib [9]), wb_raw_size = None\<rparr> = Some [9]"
    by (simp add: blob_bytes_def payload_bytes_def check_raw_size_def MAX_BLOB_MESSAGE_SIZE_def)
  with parse decompressors_agree [OF stored_ok, of "Some DecompressPool_new" pb "[26, 1, 9]" Vec_new Vec_new Vec_new]
  show ?thesis by (simp add: pool_wf_new yields_def)
qed

text \<open>
  C26: in every history of takes and returns, whatever the buffers returned, the pool holds
  only cleared buffers, never more of them nor more bytes than its limits, none above the
  per-buffer limit, and counts exactly the bytes it holds; what it hands out is cleared.
\<close>
theorem pool_limits:
  "pool_wf (foldl (\<lambda>p op. case op of None \<Rightarrow> snd (DecompressPool_get p) | Some buf \<Rightarrow> DecompressPool_put p buf)
       DecompressPool_new ops)
   \<and> v_bytes (fst (DecompressPool_get (foldl (\<lambda>p op. case op of None \<Rightarrow> snd (DecompressPool_get p)
       | Some buf \<Rightarrow> DecompressPool_put p buf) DecompressPool_new ops))) = []"
proof -
  let ?f = "\<lambda>p op. case op of None \<Rightarrow> snd (DecompressPool_get p) | Some buf \<Rightarrow> DecompressPool_put p buf"
  have step: "pool_wf (?f p op)" if "pool_wf p" for p op
    using that pool_wf_put pool_wf_get [of p "fst (DecompressPool_get p)" "snd (DecompressPool_get p)"]
    by (cases op) simp_all
  have "pool_wf (foldl ?f DecompressPool_new ops)"
    by (induction ops rule: rev_induct) (simp_all add: pool_wf_new step)
  then show ?thesis
    using pool_wf_get [of "foldl ?f DecompressPool_new ops"] by (metis prod.collapse)
qed

end
