(* ===== verification/Frame_Walk.thy ===== *)
theory Frame_Walk
  imports Decompress Schedule
begin

text \<open>
  The one blob-frame decoder: \<open>Frames\<close> of \<open>src/src/read/frame.rs\<close> over its byte sources, the
  \<open>Read\<close> implementation of that file and the \<open>PreadSource\<close> of \<open>src/src/read/header_walker.rs\<close>,
  with the header walk of the latter. A source is its operations; the locales say what the
  walk relies on. Paths, diagnostics and timers are left out; cancellation is an input of
  \<open>next_header\<close>. Offsets are naturals. Shown: the raw walk over any faultless stream returns
  exactly the frames the input consists of, however its reads are split; the header walk
  returns exactly their positions and claims without reading a payload; a failed walk stays
  failed; and a file made of written frames reads back to the blocks written.
\<close>

section \<open>Sources\<close>

datatype io_error = UnexpectedEof | OtherIo

record 's Source =
  src_fill :: "nat \<Rightarrow> 's \<Rightarrow> (io_error + bytes) \<times> 's"
  src_append :: "nat \<Rightarrow> 's \<Rightarrow> (io_error + bytes) \<times> 's"
  src_skip :: "nat \<Rightarrow> 's \<Rightarrow> (io_error + bool) \<times> 's"

text \<open>
  A \<open>Read\<close>: what is left to read, and what its next calls will do. A call delivers at least
  one byte unless the input has ended (or none was asked for).
\<close>

datatype ReadEvent = Delivers nat | Interrupted | Faults

record Reader =
  rd_rest :: bytes
  rd_events :: "ReadEvent list"

datatype ReadResult = ReadOk bytes | ReadInterrupted | ReadErr

definition read_once :: "nat \<Rightarrow> Reader \<Rightarrow> ReadResult \<times> Reader" where
  "read_once n s =
     (let deliver = (\<lambda>k s. (ReadOk (take k (rd_rest s)), s\<lparr>rd_rest := drop k (rd_rest s)\<rparr>)) in
      case rd_events s of
        [] \<Rightarrow> deliver n s
      | Delivers k # es \<Rightarrow> deliver (min n (Suc k)) (s\<lparr>rd_events := es\<rparr>)
      | Interrupted # es \<Rightarrow> (ReadInterrupted, s\<lparr>rd_events := es\<rparr>)
      | Faults # es \<Rightarrow> (ReadErr, s\<lparr>rd_events := es\<rparr>))"

function Read_fill_loop :: "nat \<Rightarrow> bytes \<Rightarrow> Reader \<Rightarrow> (io_error + bytes) \<times> Reader" where
  "Read_fill_loop n filled s =
     (if n \<le> length filled then (Inr filled, s)
      else case read_once (n - length filled) s of
             (ReadOk [], s) \<Rightarrow> (Inr filled, s)
           | (ReadOk (b # bs), s) \<Rightarrow> Read_fill_loop n (filled @ b # bs) s
           | (ReadInterrupted, s) \<Rightarrow> Read_fill_loop n filled s
           | (ReadErr, s) \<Rightarrow> (Inl OtherIo, s))"
  by pat_completeness auto
termination
proof (relation "measure (\<lambda>(n, filled, s). (n - length filled) + length (rd_events s))", goal_cases)
  case (2 n filled s x s' r b bs)
  then show ?case by (auto simp: read_once_def Let_def split: list.splits ReadEvent.splits)
next
  case (3 n filled s x s')
  then show ?case by (auto simp: read_once_def Let_def split: list.splits ReadEvent.splits)
qed simp

declare Read_fill_loop.simps [simp del]

definition Read_fill :: "nat \<Rightarrow> Reader \<Rightarrow> (io_error + bytes) \<times> Reader" where
  "Read_fill n s = Read_fill_loop n [] s"

text \<open>\<open>take(n).read_to_end\<close>, which retries and stops as the loop above does.\<close>

definition Read_append :: "nat \<Rightarrow> Reader \<Rightarrow> (io_error + bytes) \<times> Reader" where
  "Read_append n s = Read_fill_loop n [] s"

definition skip_relative :: "nat \<Rightarrow> Reader \<Rightarrow> Reader" where
  "skip_relative n s = s\<lparr>rd_rest := drop n (rd_rest s)\<rparr>"

definition Read_skip_bytes :: "nat \<Rightarrow> Reader \<Rightarrow> (io_error + bool) \<times> Reader" where
  "Read_skip_bytes n s =
     (if n = 0 then (Inr True, s)
      else if 2 ^ 63 \<le> int (n - 1) then (Inl OtherIo, s)
      else case Read_fill 1 (skip_relative (n - 1) s) of
             (Inl e, s) \<Rightarrow> (Inl e, s)
           | (Inr sentinel, s) \<Rightarrow> (Inr (length sentinel = 1), s))"

definition Read_source :: "Reader Source" where
  "Read_source = \<lparr>src_fill = Read_fill, src_append = Read_append, src_skip = Read_skip_bytes\<rparr>"

text \<open>The \<open>pread\<close> source: the file as it is now, and the size captured when it was opened.\<close>

definition HEADER_PROBE_SIZE :: nat where "HEADER_PROBE_SIZE = 4096"

record PreadSource =
  ps_file :: bytes
  ps_pos :: nat
  ps_file_size :: nat
  ps_window :: bytes
  ps_window_at :: nat
  ps_window_len :: nat

definition pread_exact :: "bytes \<Rightarrow> nat \<Rightarrow> nat \<Rightarrow> io_error + bytes" where
  "pread_exact f n offset = (if offset + n \<le> length f then Inr (take n (drop offset f)) else Inl UnexpectedEof)"

definition ps_remaining :: "PreadSource \<Rightarrow> nat" where
  "ps_remaining s = ps_file_size s - ps_pos s"

definition ps_windowed :: "PreadSource \<Rightarrow> bytes" where
  "ps_windowed s =
     (if ps_window_at s \<le> ps_pos s \<and> ps_pos s - ps_window_at s < ps_window_len s
      then drop (ps_pos s - ps_window_at s) (take (ps_window_len s) (ps_window s))
      else [])"

definition ps_probe :: "PreadSource \<Rightarrow> io_error + PreadSource" where
  "ps_probe s =
     (if ps_windowed s = []
      then let probe = min (ps_remaining s) HEADER_PROBE_SIZE in
           case pread_exact (ps_file s) probe (ps_pos s) of
             Inl e \<Rightarrow> Inl e
           | Inr b \<Rightarrow> Inr (s\<lparr>ps_window := b, ps_window_at := ps_pos s, ps_window_len := probe\<rparr>)
      else Inr s)"

definition ps_fill :: "nat \<Rightarrow> PreadSource \<Rightarrow> (io_error + bytes) \<times> PreadSource" where
  "ps_fill n s =
     (if ps_remaining s < n \<and> ps_windowed s = [] then (Inr [], s)
      else case ps_probe s of
             Inl e \<Rightarrow> (Inl e, s)
           | Inr s \<Rightarrow> (let k = min (length (ps_windowed s)) n
                       in (Inr (take k (ps_windowed s)), s\<lparr>ps_pos := ps_pos s + k\<rparr>)))"

definition ps_append :: "nat \<Rightarrow> PreadSource \<Rightarrow> (io_error + bytes) \<times> PreadSource" where
  "ps_append n s =
     (let to_take = min (ps_remaining s) n;
          have_win = ps_windowed s;
          from_window = min (length have_win) to_take;
          out = take from_window have_win;
          s = s\<lparr>ps_pos := ps_pos s + from_window\<rparr>;
          rest = to_take - from_window in
      if 0 < rest
      then (case pread_exact (ps_file s) rest (ps_pos s) of
              Inl e \<Rightarrow> (Inl e, s)
            | Inr b \<Rightarrow> (Inr (out @ b), s\<lparr>ps_pos := ps_pos s + rest\<rparr>))
      else (Inr out, s))"

definition ps_skip_bytes :: "nat \<Rightarrow> PreadSource \<Rightarrow> (io_error + bool) \<times> PreadSource" where
  "ps_skip_bytes n s =
     (let s = s\<lparr>ps_window_len := 0\<rparr> in
      if ps_remaining s < n then (Inr False, s) else (Inr True, s\<lparr>ps_pos := ps_pos s + n\<rparr>))"

definition Pread_source :: "PreadSource Source" where
  "Pread_source = \<lparr>src_fill = ps_fill, src_append = ps_append, src_skip = ps_skip_bytes\<rparr>"

section \<open>The frame state machine\<close>

record HeaderFields =
  hf_tagdata :: bool
  hf_indexdata :: bool
  hf_waymembers :: bool

definition HeaderFields_INDEXES :: HeaderFields where
  "HeaderFields_INDEXES = \<lparr>hf_tagdata = True, hf_indexdata = True, hf_waymembers = False\<rparr>"

record FrameId =
  id_start :: "nat option"
  id_ordinal :: "nat option"

record FrameHeader =
  fh_id :: FrameId
  fh_header_len :: nat
  fh_data_size :: nat
  fh_header :: WireBlobHeader

definition payload_offset :: "FrameHeader \<Rightarrow> nat" where
  "payload_offset h = 4 + fh_header_len h"

record Pending =
  pn_id :: FrameId
  pn_data_size :: nat
  pn_readable_index :: "bool option"

datatype TruncatedPart = TruncatedHeader | TruncatedPayload

datatype frame_error =
    UsedAfterFailure
  | PayloadStillPending
  | NoHeaderRead
  | Cancelled
  | InvalidHeaderSize
  | HeaderTooBig nat
  | FrameTruncated TruncatedPart nat "nat option"
  | HeaderWire wire_error
  | SecondOsmHeader
  | InvalidDataSize i32
  | DataSizeTooBig nat
  | PartiallyIndexed
  | FrameIo io_error

text \<open>An error with the frame it is located at; misuse and cancellation have none.\<close>

type_synonym located_error = "frame_error \<times> FrameId option"

record 's Frames =
  fr_src :: 's
  fr_pos :: "nat option"
  fr_stream_start :: nat
  fr_next_ordinal :: "nat option"
  fr_header_buf :: bytes
  fr_fields :: HeaderFields
  fr_pending :: "Pending option"
  fr_failed :: bool
  fr_partial_index :: "FrameId PartialIndexGuard option"

definition Frames_new :: "'s \<Rightarrow> nat option \<Rightarrow> HeaderFields \<Rightarrow> 's Frames" where
  "Frames_new src start flds =
     \<lparr>fr_src = src, fr_pos = start, fr_stream_start = (case start of Some s \<Rightarrow> s | None \<Rightarrow> 0),
      fr_next_ordinal = (if start = None \<or> start = Some 0 then Some 0 else None), fr_header_buf = [],
      fr_fields = flds, fr_pending = None, fr_failed = False, fr_partial_index = None\<rparr>"

definition refuse_partial_index :: "'s Frames \<Rightarrow> 's Frames" where
  "refuse_partial_index f = f\<lparr>fr_partial_index := Some PartialIndexGuard_default\<rparr>"

definition accept_partial_index :: "'s Frames \<Rightarrow> 's Frames" where
  "accept_partial_index f = f\<lparr>fr_partial_index := None\<rparr>"

definition of_input :: "'s \<Rightarrow> 's Frames" where
  "of_input src = refuse_partial_index (Frames_new src (Some 0) HeaderFields_INDEXES)"

definition next_id :: "'s Frames \<Rightarrow> FrameId" where
  "next_id f = \<lparr>id_start = fr_pos f, id_ordinal = fr_next_ordinal f\<rparr>"

definition poison :: "'s Frames \<Rightarrow> 's Frames" where
  "poison f = f\<lparr>fr_failed := True, fr_pending := None, fr_pos := None\<rparr>"

definition reposition :: "nat option \<Rightarrow> 's Frames \<Rightarrow> 's Frames" where
  "reposition pos f =
     f\<lparr>fr_pending := None,
       fr_partial_index := map_option (\<lambda>_. PartialIndexGuard_default) (fr_partial_index f),
       fr_pos := pos,
       fr_next_ordinal := (case pos of Some p \<Rightarrow> if p = 0 \<and> fr_stream_start f = 0 then Some 0 else None | None \<Rightarrow> None)\<rparr>"

definition clear_failure :: "'s Frames \<Rightarrow> 's Frames" where
  "clear_failure f = f\<lparr>fr_failed := False\<rparr>"

definition take_pending :: "'s Frames \<Rightarrow> (located_error + Pending) \<times> 's Frames" where
  "take_pending f =
     (if fr_failed f then (Inl (UsedAfterFailure, None), f)
      else case fr_pending f of
             Some p \<Rightarrow> (Inr p, f\<lparr>fr_pending := None\<rparr>)
           | None \<Rightarrow> (Inl (NoHeaderRead, None), poison f))"

definition finish :: "Pending \<Rightarrow> 's Frames \<Rightarrow> (located_error + unit) \<times> 's Frames" where
  "finish p f =
     (let f = f\<lparr>fr_pos := map_option (\<lambda>payload_start. payload_start + pn_data_size p) (fr_pos f),
                fr_next_ordinal := map_option Suc (fr_next_ordinal f)\<rparr> in
      case (pn_readable_index p, fr_partial_index f) of
        (Some readable, Some guard) \<Rightarrow>
          (case guard_observe guard readable (pn_id p) of
             (guard, Some at) \<Rightarrow>
               (Inl (PartiallyIndexed, Some at), poison (f\<lparr>fr_partial_index := Some guard\<rparr>))
           | (guard, None) \<Rightarrow> (Inr (), f\<lparr>fr_partial_index := Some guard\<rparr>))
      | _ \<Rightarrow> (Inr (), f))"

definition check_header_len :: "u32 \<Rightarrow> frame_error + nat" where
  "check_header_len header_len =
     (let len = unat header_len in
      if len = 0 then Inl InvalidHeaderSize
      else if MAX_BLOB_HEADER_SIZE \<le> len then Inl (HeaderTooBig len)
      else Inr len)"

definition check_header_position :: "BlobKind \<Rightarrow> bool \<Rightarrow> frame_error + unit" where
  "check_header_position blob_type at_start = (if blob_type = OsmHeader \<and> \<not> at_start then Inl SecondOsmHeader else Inr ())"

text \<open>What \<open>read_header\<close> does with the header bytes: parse, position and size checks.\<close>

definition header_of_bytes ::
  "Proto \<Rightarrow> HeaderFields \<Rightarrow> bool \<Rightarrow> bool \<Rightarrow> bytes \<Rightarrow> frame_error + WireBlobHeader \<times> bool option \<times> nat" where
  "header_of_bytes P flds refusing at_start buf =
     (case WireBlobHeader_parse P buf (hf_tagdata flds) (hf_indexdata flds \<or> refusing) (hf_waymembers flds) of
        Inl e \<Rightarrow> Inl (HeaderWire e)
      | Inr header \<Rightarrow>
          let readable_index =
                (if refusing \<and> wh_blob_type header = OsmData
                 then Some (Option.bind (wh_indexdata header) BlobIndex_deserialize \<noteq> None) else None);
              header = (if refusing \<and> \<not> hf_indexdata flds
                        then header\<lparr>wh_indexdata := None, indexdata_present := False, unrecognised_indexdata_len := None\<rparr>
                        else header) in
          case check_header_position (wh_blob_type header) at_start of
            Inl e \<Rightarrow> Inl e
          | Inr _ \<Rightarrow>
              if wh_datasize header <s 0 then Inl (InvalidDataSize (wh_datasize header))
              else let ds = unat (wh_datasize header) in
                   if MAX_BLOB_DATASIZE \<le> ds then Inl (DataSizeTooBig ds)
                   else Inr (header, readable_index, ds))"

definition read_header ::
  "Proto \<Rightarrow> 's Source \<Rightarrow> FrameId \<Rightarrow> 's Frames \<Rightarrow> (frame_error + FrameHeader option) \<times> 's Frames" where
  "read_header P S frame_id f =
     (case src_fill S 4 (fr_src f) of
        (Inl e, src) \<Rightarrow> (Inl (FrameIo e), f\<lparr>fr_src := src\<rparr>)
      | (Inr prefix, src) \<Rightarrow>
          let f = f\<lparr>fr_src := src\<rparr> in
          if length prefix < 4
          then (Inr None, f\<lparr>fr_pos := map_option (\<lambda>s. s + length prefix) (id_start frame_id)\<rparr>)
          else case check_header_len (u32_from_be_bytes prefix) of
                 Inl e \<Rightarrow> (Inl e, f)
               | Inr header_len \<Rightarrow>
                   let header_start = map_option (\<lambda>s. s + 4) (id_start frame_id) in
                   case src_append S header_len (fr_src f) of
                     (Inl OtherIo, src) \<Rightarrow> (Inl (FrameIo OtherIo), f\<lparr>fr_src := src\<rparr>)
                   | (Inl UnexpectedEof, src) \<Rightarrow>
                       (Inl (FrameTruncated TruncatedHeader header_len header_start), f\<lparr>fr_src := src\<rparr>)
                   | (Inr buf, src) \<Rightarrow>
                       let f = f\<lparr>fr_src := src, fr_header_buf := buf\<rparr> in
                       if length buf < header_len
                       then (Inl (FrameTruncated TruncatedHeader header_len header_start), f)
                       else let at_start = (case id_start frame_id of
                                              Some s \<Rightarrow> s = fr_stream_start f
                                            | None \<Rightarrow> id_ordinal frame_id = Some 0) in
                            case header_of_bytes P (fr_fields f) (fr_partial_index f \<noteq> None) at_start buf of
                              Inl e \<Rightarrow> (Inl e, f)
                            | Inr (header, readable_index, ds) \<Rightarrow>
                                (Inr (Some \<lparr>fh_id = frame_id, fh_header_len = header_len, fh_data_size = ds, fh_header = header\<rparr>),
                                 f\<lparr>fr_pos := map_option (\<lambda>s. s + header_len) header_start,
                                   fr_pending := Some \<lparr>pn_id = frame_id, pn_data_size = ds,
                                                       pn_readable_index = readable_index\<rparr>\<rparr>))"

definition next_header ::
  "Proto \<Rightarrow> 's Source \<Rightarrow> bool \<Rightarrow> 's Frames \<Rightarrow> (located_error + FrameHeader option) \<times> 's Frames" where
  "next_header P S cancelled f =
     (if fr_failed f then (Inl (UsedAfterFailure, None), f)
      else if fr_pending f \<noteq> None then (Inl (PayloadStillPending, None), poison f)
      else if cancelled then (Inl (Cancelled, None), poison f)
      else let frame_id = next_id f in
           case read_header P S frame_id f of
             (Inr header, f) \<Rightarrow> (Inr header, f)
           | (Inl e, f) \<Rightarrow> (Inl (e, Some frame_id), poison f))"

definition read_payload :: "'s Source \<Rightarrow> 's Frames \<Rightarrow> (located_error + bytes) \<times> 's Frames" where
  "read_payload S f =
     (case take_pending f of
        (Inl e, f) \<Rightarrow> (Inl e, f)
      | (Inr p, f) \<Rightarrow>
          let cut = (\<lambda>f. (Inl (FrameTruncated TruncatedPayload (pn_data_size p) (fr_pos f), Some (pn_id p)), poison f)) in
          case src_append S (pn_data_size p) (fr_src f) of
            (Inl OtherIo, src) \<Rightarrow> (Inl (FrameIo OtherIo, Some (pn_id p)), poison (f\<lparr>fr_src := src\<rparr>))
          | (Inl UnexpectedEof, src) \<Rightarrow> cut (f\<lparr>fr_src := src\<rparr>)
          | (Inr out, src) \<Rightarrow>
              let f = f\<lparr>fr_src := src\<rparr> in
              if length out < pn_data_size p then cut f
              else case finish p f of
                     (Inl e, f) \<Rightarrow> (Inl e, f)
                   | (Inr _, f) \<Rightarrow> (Inr out, f))"

definition skip_payload :: "'s Source \<Rightarrow> 's Frames \<Rightarrow> (located_error + unit) \<times> 's Frames" where
  "skip_payload S f =
     (case take_pending f of
        (Inl e, f) \<Rightarrow> (Inl e, f)
      | (Inr p, f) \<Rightarrow>
          let cut = (\<lambda>f. (Inl (FrameTruncated TruncatedPayload (pn_data_size p) (fr_pos f), Some (pn_id p)), poison f)) in
          case src_skip S (pn_data_size p) (fr_src f) of
            (Inr True, src) \<Rightarrow> finish p (f\<lparr>fr_src := src\<rparr>)
          | (Inr False, src) \<Rightarrow> cut (f\<lparr>fr_src := src\<rparr>)
          | (Inl UnexpectedEof, src) \<Rightarrow> cut (f\<lparr>fr_src := src\<rparr>)
          | (Inl OtherIo, src) \<Rightarrow> (Inl (FrameIo OtherIo, Some (pn_id p)), poison (f\<lparr>fr_src := src\<rparr>)))"

record RawBlobFrame =
  rw_frame_bytes :: bytes
  rw_blob_type :: BlobKind
  rw_blob_offset :: nat
  rw_index :: "BlobIndex option"
  rw_index_present :: bool
  rw_tagdata :: "bytes option"
  rw_tagdata_present :: bool
  rw_id :: FrameId

definition rw_blob_bytes :: "RawBlobFrame \<Rightarrow> bytes" where
  "rw_blob_bytes r = drop (rw_blob_offset r) (rw_frame_bytes r)"

definition rw_header_bytes :: "RawBlobFrame \<Rightarrow> bytes" where
  "rw_header_bytes r = drop 4 (take (rw_blob_offset r) (rw_frame_bytes r))"

definition next_raw ::
  "Proto \<Rightarrow> 's Source \<Rightarrow> bool \<Rightarrow> 's Frames \<Rightarrow> (located_error + RawBlobFrame option) \<times> 's Frames" where
  "next_raw P S cancelled f =
     (case next_header P S cancelled f of
        (Inl e, f) \<Rightarrow> (Inl e, f)
      | (Inr None, f) \<Rightarrow> (Inr None, f)
      | (Inr (Some header), f) \<Rightarrow>
          let head = u32_to_be_bytes (of_nat (fh_header_len header)) @ fr_header_buf f in
          case read_payload S f of
            (Inl e, f) \<Rightarrow> (Inl e, f)
          | (Inr payload, f) \<Rightarrow>
              (Inr (Some \<lparr>rw_frame_bytes = head @ payload,
                          rw_blob_type = wh_blob_type (fh_header header),
                          rw_blob_offset = payload_offset header,
                          rw_index = Option.bind (wh_indexdata (fh_header header)) BlobIndex_deserialize,
                          rw_index_present = indexdata_present (fh_header header),
                          rw_tagdata = wh_tagdata (fh_header header),
                          rw_tagdata_present = tagdata_present (fh_header header),
                          rw_id = fh_id header\<rparr>), f))"

text \<open>\<open>HeaderWalker::next_header\<close>, and the walks its callers and those of \<open>next_raw\<close> run.\<close>

definition walker_next_header ::
  "Proto \<Rightarrow> 's Source \<Rightarrow> bool \<Rightarrow> 's Frames \<Rightarrow> (located_error + BlobHeaderMeta option) \<times> 's Frames" where
  "walker_next_header P S cancelled f =
     (case next_header P S cancelled f of
        (Inl e, f) \<Rightarrow> (Inl e, f)
      | (Inr None, f) \<Rightarrow> (Inr None, f)
      | (Inr (Some header), f) \<Rightarrow>
          (case skip_payload S f of
             (Inl e, f) \<Rightarrow> (Inl e, f)
           | (Inr _, f) \<Rightarrow>
               let frame_start = (case id_start (fh_id header) of Some s \<Rightarrow> s | None \<Rightarrow> 0);
                   blob_index = (case id_ordinal (fh_id header) of Some n \<Rightarrow> n | None \<Rightarrow> 0)
               in (Inr (Some \<lparr>m_blob_type = wh_blob_type (fh_header header),
                              m_frame_start = of_nat frame_start,
                              m_blob_index = of_nat blob_index,
                              m_data_offset = of_nat frame_start + of_nat (payload_offset header),
                              m_data_size = fh_data_size header,
                              m_index = Option.bind (wh_indexdata (fh_header header)) BlobIndex_deserialize,
                              m_tagdata = wh_tagdata (fh_header header)\<rparr>), f)))"

text \<open>A walk to the end of the input; \<open>None\<close> would be a walk that does not end.\<close>

partial_function (option) walk ::
  "('f \<Rightarrow> (located_error + 'a option) \<times> 'f) \<Rightarrow> 'f \<Rightarrow> 'a list \<Rightarrow> (located_error + 'a list) option" where
  "walk step f acc =
     (case step f of
        (Inl e, f) \<Rightarrow> Some (Inl e)
      | (Inr None, f) \<Rightarrow> Some (Inr acc)
      | (Inr (Some a), f) \<Rightarrow> walk step f (acc @ [a]))"

section \<open>The frames of an input\<close>

text \<open>
  The abstract machine: the input as bytes, with a position, an ordinal and a guard, and no
  source, window, pending payload or poisoned state.
\<close>

record FrameView =
  vw_id :: FrameId
  vw_header_bytes :: bytes
  vw_header :: WireBlobHeader
  vw_payload :: bytes

definition header_view ::
  "Proto \<Rightarrow> HeaderFields \<Rightarrow> bool \<Rightarrow> nat \<Rightarrow> bytes
   \<Rightarrow> frame_error + (bytes \<times> WireBlobHeader \<times> bool option \<times> nat \<times> bytes) option" where
  "header_view P flds refusing pos data =
     (if length data < 4 then Inr None
      else case check_header_len (u32_from_be_bytes (take 4 data)) of
             Inl e \<Rightarrow> Inl e
           | Inr n \<Rightarrow>
               if length data < 4 + n then Inl (FrameTruncated TruncatedHeader n (Some (pos + 4)))
               else let hb = take n (drop 4 data) in
                    case header_of_bytes P flds refusing (pos = 0) hb of
                      Inl e \<Rightarrow> Inl e
                    | Inr (h, ri, ds) \<Rightarrow> Inr (Some (hb, h, ri, ds, drop (4 + n) data)))"

definition observe :: "FrameId PartialIndexGuard option \<Rightarrow> bool option \<Rightarrow> FrameId
    \<Rightarrow> located_error + FrameId PartialIndexGuard option" where
  "observe g ri frame_id =
     (case (ri, g) of
        (Some readable, Some guard) \<Rightarrow>
          (case guard_observe guard readable frame_id of
             (guard, Some at) \<Rightarrow> Inl (PartiallyIndexed, Some at)
           | (guard, None) \<Rightarrow> Inr (Some guard))
      | _ \<Rightarrow> Inr g)"

function frames_spec ::
  "Proto \<Rightarrow> HeaderFields \<Rightarrow> FrameId PartialIndexGuard option \<Rightarrow> nat \<Rightarrow> nat \<Rightarrow> bytes \<Rightarrow> located_error + FrameView list" where
  "frames_spec P flds g pos ord data =
     (let frame_id = \<lparr>id_start = Some pos, id_ordinal = Some ord\<rparr> in
      case header_view P flds (g \<noteq> None) pos data of
        Inl e \<Rightarrow> Inl (e, Some frame_id)
      | Inr None \<Rightarrow> Inr []
      | Inr (Some (hb, h, ri, ds, later)) \<Rightarrow>
          if length later < ds
          then Inl (FrameTruncated TruncatedPayload ds (Some (pos + 4 + length hb)), Some frame_id)
          else (case observe g ri frame_id of
                  Inl e \<Rightarrow> Inl e
                | Inr g \<Rightarrow>
                    map_sum id (Cons \<lparr>vw_id = frame_id, vw_header_bytes = hb, vw_header = h, vw_payload = take ds later\<rparr>)
                      (frames_spec P flds g (pos + 4 + length hb + ds) (Suc ord) (drop ds later))))"
  by pat_completeness auto
termination
  by (relation "measure (\<lambda>(P, flds, g, pos, ord, data). length data)")
    (auto simp: header_view_def check_header_len_def Let_def split: if_splits sum.splits)

declare frames_spec.simps [simp del]

definition raw_of :: "FrameView \<Rightarrow> RawBlobFrame" where
  "raw_of v =
     \<lparr>rw_frame_bytes = u32_to_be_bytes (of_nat (length (vw_header_bytes v))) @ vw_header_bytes v @ vw_payload v,
      rw_blob_type = wh_blob_type (vw_header v),
      rw_blob_offset = 4 + length (vw_header_bytes v),
      rw_index = Option.bind (wh_indexdata (vw_header v)) BlobIndex_deserialize,
      rw_index_present = indexdata_present (vw_header v),
      rw_tagdata = wh_tagdata (vw_header v),
      rw_tagdata_present = tagdata_present (vw_header v),
      rw_id = vw_id v\<rparr>"

definition meta_of :: "FrameView \<Rightarrow> BlobHeaderMeta" where
  "meta_of v =
     (let start = (case id_start (vw_id v) of Some s \<Rightarrow> s | None \<Rightarrow> 0);
          ord = (case id_ordinal (vw_id v) of Some n \<Rightarrow> n | None \<Rightarrow> 0) in
      \<lparr>m_blob_type = wh_blob_type (vw_header v),
       m_frame_start = of_nat start,
       m_blob_index = of_nat ord,
       m_data_offset = of_nat start + of_nat (4 + length (vw_header_bytes v)),
       m_data_size = length (vw_payload v),
       m_index = Option.bind (wh_indexdata (vw_header v)) BlobIndex_deserialize,
       m_tagdata = wh_tagdata (vw_header v)\<rparr>)"

lemma header_of_bytes_size: "header_of_bytes P flds refusing at_start hb = Inr (h, ri, ds) \<Longrightarrow> ds < MAX_BLOB_DATASIZE"
  by (auto simp: header_of_bytes_def Let_def split: sum.splits if_splits)

lemma header_view_shorter: "header_view P flds refusing pos data = Inr (Some (hb, h, ri, ds, later)) \<Longrightarrow> length later < length data"
  by (auto simp: header_view_def check_header_len_def Let_def split: if_splits sum.splits)

section \<open>What the walk relies on of a source\<close>

text \<open>
  A faultless source: between frames (\<open>boundary\<close>) a fill of at most a probe gives what it is
  asked for, and less only where the input ends; an append gives what is left up to what is asked for.
\<close>

locale frame_source =
  fixes S :: "'s Source" and ok :: "'s \<Rightarrow> bool" and boundary :: "'s \<Rightarrow> bool" and rest :: "'s \<Rightarrow> bytes"
  assumes fill_full: "ok s \<Longrightarrow> boundary s \<Longrightarrow> n \<le> HEADER_PROBE_SIZE \<Longrightarrow> n \<le> length (rest s) \<Longrightarrow>
      \<exists>s'. src_fill S n s = (Inr (take n (rest s)), s') \<and> ok s' \<and> rest s' = drop n (rest s)"
    and fill_short: "ok s \<Longrightarrow> boundary s \<Longrightarrow> length (rest s) < n \<Longrightarrow> \<exists>b s'. src_fill S n s = (Inr b, s') \<and> length b < n"
    and append_rest: "ok s \<Longrightarrow> \<exists>s'. src_append S n s = (Inr (take n (rest s)), s') \<and> ok s' \<and> rest s' = drop n (rest s)"
begin

text \<open>The walk between frames, at a known position.\<close>

definition between :: "'s Frames \<Rightarrow> HeaderFields \<Rightarrow> FrameId PartialIndexGuard option \<Rightarrow> nat \<Rightarrow> nat \<Rightarrow> bytes \<Rightarrow> bool" where
  "between f flds g pos ord data \<longleftrightarrow>
     \<not> fr_failed f \<and> fr_pending f = None \<and> fr_stream_start f = 0 \<and> fr_fields f = flds \<and> fr_partial_index f = g
   \<and> fr_pos f = Some pos \<and> fr_next_ordinal f = Some ord
   \<and> ok (fr_src f) \<and> boundary (fr_src f) \<and> rest (fr_src f) = data"

text \<open>The walk with a payload pending.\<close>

definition pending ::
  "'s Frames \<Rightarrow> HeaderFields \<Rightarrow> FrameId PartialIndexGuard option \<Rightarrow> nat \<Rightarrow> nat \<Rightarrow> bytes \<Rightarrow> bool option \<Rightarrow> nat \<Rightarrow> bytes \<Rightarrow> bool" where
  "pending f flds g pos ord hb ri ds later \<longleftrightarrow>
     \<not> fr_failed f \<and> fr_stream_start f = 0 \<and> fr_fields f = flds \<and> fr_partial_index f = g
   \<and> fr_pos f = Some (pos + 4 + length hb) \<and> fr_next_ordinal f = Some ord \<and> fr_header_buf f = hb
   \<and> fr_pending f = Some \<lparr>pn_id = \<lparr>id_start = Some pos, id_ordinal = Some ord\<rparr>, pn_data_size = ds, pn_readable_index = ri\<rparr>
   \<and> ok (fr_src f) \<and> rest (fr_src f) = later \<and> ds < MAX_BLOB_DATASIZE"

lemma next_header_view:
  assumes "between f flds g pos ord data"
  shows "case header_view P flds (g \<noteq> None) pos data of
      Inl e \<Rightarrow> \<exists>f'. next_header P S False f = (Inl (e, Some \<lparr>id_start = Some pos, id_ordinal = Some ord\<rparr>), f')
    | Inr None \<Rightarrow> \<exists>f'. next_header P S False f = (Inr None, f')
    | Inr (Some (hb, h, ri, ds, later)) \<Rightarrow>
        \<exists>f'. next_header P S False f = (Inr (Some \<lparr>fh_id = \<lparr>id_start = Some pos, id_ordinal = Some ord\<rparr>,
               fh_header_len = length hb, fh_data_size = ds, fh_header = h\<rparr>), f')
           \<and> pending f' flds g pos ord hb ri ds later"
proof -
  have b: "\<not> fr_failed f" "fr_pending f = None" "fr_stream_start f = 0" "fr_fields f = flds" "fr_partial_index f = g"
    "fr_pos f = Some pos" "fr_next_ordinal f = Some ord" "ok (fr_src f)" "boundary (fr_src f)" "rest (fr_src f) = data"
    using assms by (simp_all add: between_def)
  let ?id = "\<lparr>id_start = Some pos, id_ordinal = Some ord\<rparr>"
  have nid: "next_id f = ?id" using b by (simp add: next_id_def)
  show ?thesis
  proof (cases "length data < 4")
    case True
    then obtain p s' where "src_fill S 4 (fr_src f) = (Inr p, s')" "length p < 4"
      using fill_short [OF b(8,9), of 4] b(10) by auto
    then show ?thesis using True b nid by (simp add: header_view_def next_header_def read_header_def Let_def)
  next
    case False
    then obtain s1 where s1: "src_fill S 4 (fr_src f) = (Inr (take 4 data), s1)" "ok s1" "rest s1 = drop 4 data"
      using fill_full [OF b(8,9), of 4] b(10) by (auto simp: HEADER_PROBE_SIZE_def)
    show ?thesis
    proof (cases "check_header_len (u32_from_be_bytes (take 4 data))")
      case (Inl e)
      then show ?thesis using False b nid s1 by (simp add: header_view_def next_header_def read_header_def Let_def)
    next
      case (Inr n)
      obtain s2 where s2: "src_append S n s1 = (Inr (take n (drop 4 data)), s2)" "ok s2" "rest s2 = drop (4 + n) data"
        using append_rest [OF s1(2), of n] s1(3) by (auto simp: add.commute)
      let ?h = "header_of_bytes P flds (g \<noteq> None) (pos = 0) (take n (drop 4 data))"
      have "next_header P S False f = (if length data < 4 + n
          then (Inl (FrameTruncated TruncatedHeader n (Some (pos + 4)), Some ?id), poison (f\<lparr>fr_src := s2, fr_header_buf := take n (drop 4 data)\<rparr>))
          else case ?h of
            Inl e \<Rightarrow> (Inl (e, Some ?id), poison (f\<lparr>fr_src := s2, fr_header_buf := take n (drop 4 data)\<rparr>))
          | Inr (h, ri, ds) \<Rightarrow> (Inr (Some \<lparr>fh_id = ?id, fh_header_len = n, fh_data_size = ds, fh_header = h\<rparr>),
              f\<lparr>fr_src := s2, fr_header_buf := take n (drop 4 data), fr_pos := Some (pos + 4 + n),
                fr_pending := Some \<lparr>pn_id = ?id, pn_data_size = ds, pn_readable_index = ri\<rparr>\<rparr>))"
        using False b nid s1(1) Inr s2(1)
        by (auto simp: next_header_def read_header_def Let_def split: sum.splits)
      then show ?thesis using False Inr b s2
        by (auto simp: header_view_def pending_def Let_def split: sum.splits dest: header_of_bytes_size)
    qed
  qed
qed

lemma finish_observe:
  assumes "fr_pos f = Some start" "fr_next_ordinal f = Some ord" "fr_partial_index f = g"
  shows "case observe g ri frame_id of
      Inl e \<Rightarrow> \<exists>f'. finish \<lparr>pn_id = frame_id, pn_data_size = ds, pn_readable_index = ri\<rparr> f = (Inl e, f')
    | Inr g' \<Rightarrow> finish \<lparr>pn_id = frame_id, pn_data_size = ds, pn_readable_index = ri\<rparr> f
        = (Inr (), f\<lparr>fr_pos := Some (start + ds), fr_next_ordinal := Some (Suc ord), fr_partial_index := g'\<rparr>)"
proof (cases ri)
  case None
  then show ?thesis using assms by (simp add: observe_def finish_def Let_def)
next
  case (Some readable)
  show ?thesis
  proof (cases g)
    case None
    then show ?thesis using assms Some by (simp add: observe_def finish_def Let_def)
  next
    case (Some guard)
    obtain guard' r where "guard_observe guard readable frame_id = (guard', r)" by fastforce
    then show ?thesis using assms \<open>ri = _\<close> Some
      by (cases r) (simp_all add: observe_def finish_def Let_def)
  qed
qed

text \<open>
  A step that turns the next frame into \<open>out\<close> of it and the walk into the walk past it, or
  ends as the abstract machine does.
\<close>

definition follows :: "Proto \<Rightarrow> ('s Frames \<Rightarrow> (located_error + 'a option) \<times> 's Frames) \<Rightarrow> (FrameView \<Rightarrow> 'a) \<Rightarrow> bool" where
  "follows P step out \<longleftrightarrow>
     (\<forall>f flds g pos ord data. between f flds g pos ord data \<longrightarrow>
        (let frame_id = \<lparr>id_start = Some pos, id_ordinal = Some ord\<rparr> in
         case header_view P flds (g \<noteq> None) pos data of
           Inl e \<Rightarrow> fst (step f) = Inl (e, Some frame_id)
         | Inr None \<Rightarrow> fst (step f) = Inr None
         | Inr (Some (hb, h, ri, ds, later)) \<Rightarrow>
             if length later < ds
             then fst (step f) = Inl (FrameTruncated TruncatedPayload ds (Some (pos + 4 + length hb)), Some frame_id)
             else (case observe g ri frame_id of
                     Inl e \<Rightarrow> fst (step f) = Inl e
                   | Inr g' \<Rightarrow>
                       fst (step f) = Inr (Some (out \<lparr>vw_id = frame_id, vw_header_bytes = hb, vw_header = h, vw_payload = take ds later\<rparr>))
                     \<and> between (snd (step f)) flds g' (pos + 4 + length hb + ds) (Suc ord) (drop ds later))))"

text \<open>What a step has to do once the header is read and its payload pending.\<close>

definition consumes :: "('s Frames \<Rightarrow> (located_error + 'a option) \<times> 's Frames) \<Rightarrow> (FrameView \<Rightarrow> 'a) \<Rightarrow> 's Frames
    \<Rightarrow> HeaderFields \<Rightarrow> FrameId PartialIndexGuard option \<Rightarrow> nat \<Rightarrow> nat \<Rightarrow> bytes \<Rightarrow> WireBlobHeader \<Rightarrow> bool option \<Rightarrow> nat \<Rightarrow> bytes \<Rightarrow> bool" where
  "consumes step out f flds g pos ord hb h ri ds later \<longleftrightarrow>
     (let frame_id = \<lparr>id_start = Some pos, id_ordinal = Some ord\<rparr> in
      if length later < ds
      then fst (step f) = Inl (FrameTruncated TruncatedPayload ds (Some (pos + 4 + length hb)), Some frame_id)
      else (case observe g ri frame_id of
              Inl e \<Rightarrow> fst (step f) = Inl e
            | Inr g' \<Rightarrow>
                fst (step f) = Inr (Some (out \<lparr>vw_id = frame_id, vw_header_bytes = hb, vw_header = h, vw_payload = take ds later\<rparr>))
              \<and> between (snd (step f)) flds g' (pos + 4 + length hb + ds) (Suc ord) (drop ds later)))"

lemma followsI:
  assumes "\<And>f e. fst (next_header P S False f) = Inl e \<Longrightarrow> fst (step f) = Inl e"
    and "\<And>f. fst (next_header P S False f) = Inr None \<Longrightarrow> fst (step f) = Inr None"
    and "\<And>f f1 flds g pos ord hb h ri ds later.
      next_header P S False f = (Inr (Some \<lparr>fh_id = \<lparr>id_start = Some pos, id_ordinal = Some ord\<rparr>,
        fh_header_len = length hb, fh_data_size = ds, fh_header = h\<rparr>), f1) \<Longrightarrow>
      pending f1 flds g pos ord hb ri ds later \<Longrightarrow> consumes step out f flds g pos ord hb h ri ds later"
  shows "follows P step out"
  unfolding follows_def Let_def
proof (intro allI impI)
  fix f :: "'s Frames" and flds g pos ord data
  assume f: "between f flds g pos ord data"
  note view = next_header_view [OF f, of P]
  let ?id = "\<lparr>id_start = Some pos, id_ordinal = Some ord\<rparr>"
  show "case header_view P flds (g \<noteq> None) pos data of
      Inl e \<Rightarrow> fst (step f) = Inl (e, Some ?id)
    | Inr None \<Rightarrow> fst (step f) = Inr None
    | Inr (Some (hb, h, ri, ds, later)) \<Rightarrow>
        if length later < ds
        then fst (step f) = Inl (FrameTruncated TruncatedPayload ds (Some (pos + 4 + length hb)), Some ?id)
        else (case observe g ri ?id of
                Inl e \<Rightarrow> fst (step f) = Inl e
              | Inr g' \<Rightarrow>
                  fst (step f) = Inr (Some (out \<lparr>vw_id = ?id, vw_header_bytes = hb, vw_header = h, vw_payload = take ds later\<rparr>))
                \<and> between (snd (step f)) flds g' (pos + 4 + length hb + ds) (Suc ord) (drop ds later))"
  proof (cases "header_view P flds (g \<noteq> None) pos data")
    case (Inl e)
    then show ?thesis using view assms(1) [of f] by auto
  next
    case (Inr o1)
    show ?thesis
    proof (cases o1)
      case None
      then show ?thesis using view Inr assms(2) [of f] by auto
    next
      case (Some q)
      obtain hb h ri ds later where q: "q = (hb, h, ri, ds, later)" by (metis surj_pair)
      obtain f1 where "next_header P S False f = (Inr (Some \<lparr>fh_id = ?id, fh_header_len = length hb,
          fh_data_size = ds, fh_header = h\<rparr>), f1)" "pending f1 flds g pos ord hb ri ds later"
        using view Inr Some q by auto
      from assms(3) [OF this] Inr Some q show ?thesis by (simp only: consumes_def Let_def sum.case option.case prod.case)
    qed
  qed
qed

lemma finish_pending:
  assumes "pending f1 flds g pos ord hb ri ds later"
  shows "case observe g ri \<lparr>id_start = Some pos, id_ordinal = Some ord\<rparr> of
      Inl e \<Rightarrow> \<exists>f'. finish \<lparr>pn_id = \<lparr>id_start = Some pos, id_ordinal = Some ord\<rparr>, pn_data_size = ds, pn_readable_index = ri\<rparr>
                 (f1\<lparr>fr_pending := None, fr_src := s2\<rparr>) = (Inl e, f')
    | Inr g' \<Rightarrow> finish \<lparr>pn_id = \<lparr>id_start = Some pos, id_ordinal = Some ord\<rparr>, pn_data_size = ds, pn_readable_index = ri\<rparr>
                 (f1\<lparr>fr_pending := None, fr_src := s2\<rparr>)
        = (Inr (), f1\<lparr>fr_pending := None, fr_src := s2, fr_pos := Some (pos + 4 + length hb + ds),
             fr_next_ordinal := Some (Suc ord), fr_partial_index := g'\<rparr>)"
  using assms finish_observe [where f = "f1\<lparr>fr_pending := None, fr_src := s2\<rparr>" and start = "pos + 4 + length hb"
      and ord = ord and g = g and ri = ri and ds = ds and frame_id = "\<lparr>id_start = Some pos, id_ordinal = Some ord\<rparr>"]
  by (simp add: pending_def)

lemma walk_spec:
  assumes "follows P step out"
  shows "between f flds g pos ord data \<Longrightarrow>
    walk step f acc = Some (map_sum id (\<lambda>vs. acc @ map out vs) (frames_spec P flds g pos ord data))"
proof (induction data arbitrary: f g pos ord acc rule: length_induct)
  case (1 data)
  let ?id = "\<lparr>id_start = Some pos, id_ordinal = Some ord\<rparr>"
  note step = assms [unfolded follows_def Let_def, rule_format, OF 1(2)]
  note IH = 1(1) [rule_format]
  have unfold: "walk step f acc = (case fst (step f) of Inl e \<Rightarrow> Some (Inl e) | Inr None \<Rightarrow> Some (Inr acc)
      | Inr (Some a) \<Rightarrow> walk step (snd (step f)) (acc @ [a]))" for f acc
    by (subst walk.simps) (simp add: case_prod_unfold)
  show ?case
  proof (cases "header_view P flds (g \<noteq> None) pos data")
    case (Inl e)
    then show ?thesis using step by (subst frames_spec.simps) (simp add: unfold)
  next
    case (Inr o1)
    show ?thesis
    proof (cases o1)
      case None
      then show ?thesis using step Inr by (subst frames_spec.simps) (simp add: unfold)
    next
      case (Some q)
      obtain hb h ri ds later where q: "q = (hb, h, ri, ds, later)" by (metis surj_pair)
      have view: "header_view P flds (g \<noteq> None) pos data = Inr (Some (hb, h, ri, ds, later))" using Inr Some q by simp
      show ?thesis
      proof (cases "length later < ds")
        case True
        then show ?thesis using step view by (subst frames_spec.simps) (simp add: unfold)
      next
        case whole: False
        show ?thesis
        proof (cases "observe g ri ?id")
          case (Inl e)
          then show ?thesis using step view whole by (subst frames_spec.simps) (simp add: unfold)
        next
          case obs: (Inr g')
          let ?v = "\<lparr>vw_id = ?id, vw_header_bytes = hb, vw_header = h, vw_payload = take ds later\<rparr>"
          have next_step: "fst (step f) = Inr (Some (out ?v))"
            and bet: "between (snd (step f)) flds g' (pos + 4 + length hb + ds) (Suc ord) (drop ds later)"
            using step view whole obs by simp_all
          have "length (drop ds later) < length data" using header_view_shorter [OF view] by simp
          from IH [OF this bet, of "acc @ [out ?v]"] next_step
          have "walk step f acc = Some (map_sum id (\<lambda>vs. (acc @ [out ?v]) @ map out vs)
              (frames_spec P flds g' (pos + 4 + length hb + ds) (Suc ord) (drop ds later)))"
            by (simp add: unfold [of f])
          then show ?thesis using view whole obs
            by (subst frames_spec.simps) (simp add: sum.map_comp comp_def id_def)
        qed
      qed
    qed
  qed
qed

end

locale frame_stream = frame_source +
  assumes append_boundary: "ok s \<Longrightarrow> boundary (snd (src_append S n s))"
begin

lemma next_raw_follows: "follows P (next_raw P S False) raw_of"
proof (rule followsI)
  fix f f1 :: "'a Frames" and flds g pos ord hb h ri ds later
  let ?id = "\<lparr>id_start = Some pos, id_ordinal = Some ord\<rparr>"
  let ?p = "\<lparr>pn_id = ?id, pn_data_size = ds, pn_readable_index = ri\<rparr>"
  assume hdr: "next_header P S False f = (Inr (Some \<lparr>fh_id = ?id, fh_header_len = length hb,
      fh_data_size = ds, fh_header = h\<rparr>), f1)" and pn: "pending f1 flds g pos ord hb ri ds later"
  obtain s2 where s2: "src_append S ds (fr_src f1) = (Inr (take ds later), s2)" "ok s2" "rest s2 = drop ds later"
    using append_rest [of "fr_src f1" ds] pn by (auto simp: pending_def)
  then have bd: "boundary s2" using append_boundary [of "fr_src f1" ds] pn by (simp add: pending_def)
  have pay: "read_payload S f1 = (if length later < ds
      then (Inl (FrameTruncated TruncatedPayload ds (Some (pos + 4 + length hb)), Some ?id), poison (f1\<lparr>fr_pending := None, fr_src := s2\<rparr>))
      else case finish ?p (f1\<lparr>fr_pending := None, fr_src := s2\<rparr>) of (Inl e, f) \<Rightarrow> (Inl e, f) | (Inr _, f) \<Rightarrow> (Inr (take ds later), f))"
    using pn s2(1) by (simp add: read_payload_def take_pending_def pending_def Let_def)
  show "consumes (next_raw P S False) raw_of f flds g pos ord hb h ri ds later"
    using hdr pay finish_pending [OF pn, of s2] pn s2 bd
    by (cases "observe g ri ?id")
      (auto simp: consumes_def next_raw_def raw_of_def payload_offset_def between_def pending_def Let_def)
qed (auto simp: next_raw_def split: prod.splits)

end

text \<open>A source that can pass over a payload: past the end it says so.\<close>

locale frame_skip = frame_source +
  assumes skip_whole: "ok s \<Longrightarrow> n < 2 ^ 31 \<Longrightarrow> n \<le> length (rest s) \<Longrightarrow>
      \<exists>s'. src_skip S n s = (Inr True, s') \<and> ok s' \<and> boundary s' \<and> rest s' = drop n (rest s)"
    and skip_short: "ok s \<Longrightarrow> n < 2 ^ 31 \<Longrightarrow> length (rest s) < n \<Longrightarrow> \<exists>s'. src_skip S n s = (Inr False, s')"
begin

lemma walker_follows: "follows P (walker_next_header P S False) meta_of"
proof (rule followsI)
  fix f f1 :: "'a Frames" and flds g pos ord hb h ri ds later
  let ?id = "\<lparr>id_start = Some pos, id_ordinal = Some ord\<rparr>"
  let ?p = "\<lparr>pn_id = ?id, pn_data_size = ds, pn_readable_index = ri\<rparr>"
  assume hdr: "next_header P S False f = (Inr (Some \<lparr>fh_id = ?id, fh_header_len = length hb,
      fh_data_size = ds, fh_header = h\<rparr>), f1)" and pn: "pending f1 flds g pos ord hb ri ds later"
  have ds: "ds < 2 ^ 31" using pn by (simp add: pending_def MAX_BLOB_DATASIZE_def MAX_BLOB_MESSAGE_SIZE_def)
  show "consumes (walker_next_header P S False) meta_of f flds g pos ord hb h ri ds later"
  proof (cases "length later < ds")
    case True
    then obtain s2 where "src_skip S ds (fr_src f1) = (Inr False, s2)"
      using skip_short [of "fr_src f1" ds] pn ds by (auto simp: pending_def)
    then show ?thesis using True hdr pn
      by (simp add: consumes_def walker_next_header_def skip_payload_def take_pending_def pending_def Let_def)
  next
    case False
    then obtain s2 where s2: "src_skip S ds (fr_src f1) = (Inr True, s2)" "ok s2" "boundary s2" "rest s2 = drop ds later"
      using skip_whole [of "fr_src f1" ds] pn ds by (auto simp: pending_def)
    have "skip_payload S f1 = finish ?p (f1\<lparr>fr_pending := None, fr_src := s2\<rparr>)"
      using pn s2(1) by (simp add: skip_payload_def take_pending_def pending_def Let_def)
    then show ?thesis
      using False hdr finish_pending [OF pn, of s2] pn s2
      by (cases "observe g ri ?id")
        (auto simp: consumes_def walker_next_header_def meta_of_def payload_offset_def between_def pending_def Let_def)
  qed
qed (auto simp: walker_next_header_def split: prod.splits)

end

section \<open>The two sources\<close>

definition Reader_ok :: "Reader \<Rightarrow> bool" where
  "Reader_ok s \<longleftrightarrow> Faults \<notin> set (rd_events s)"

lemma read_once_ok:
  assumes "Reader_ok s" "read_once n s = (r, s')"
  shows "Reader_ok s' \<and> (r = ReadInterrupted \<and> rd_rest s' = rd_rest s
    \<or> (\<exists>k. r = ReadOk (take k (rd_rest s)) \<and> rd_rest s' = drop k (rd_rest s) \<and> k \<le> n \<and> (0 < n \<longrightarrow> 0 < k)))"
proof (cases "rd_events s")
  case Nil
  then show ?thesis using assms by (auto simp: read_once_def Reader_ok_def Let_def)
next
  case (Cons e es)
  show ?thesis
  proof (cases e)
    case (Delivers k)
    then have "Reader_ok s' \<and> r = ReadOk (take (min n (Suc k)) (rd_rest s)) \<and> rd_rest s' = drop (min n (Suc k)) (rd_rest s)"
      using Cons assms by (auto simp: read_once_def Reader_ok_def Let_def)
    then show ?thesis by (intro conjI disjI2 exI [of _ "min n (Suc k)"]) auto
  qed (use Cons assms in \<open>auto simp: read_once_def Reader_ok_def Let_def\<close>)
qed

lemma Read_fill_loop_ok:
  assumes "Reader_ok s"
  shows "\<exists>s'. Read_fill_loop n filled s = (Inr (filled @ take (n - length filled) (rd_rest s)), s')
    \<and> Reader_ok s' \<and> rd_rest s' = drop (n - length filled) (rd_rest s)"
  using assms
proof (induction n filled s rule: Read_fill_loop.induct)
  case (1 n filled s)
  show ?case
  proof (cases "n \<le> length filled")
    case True
    then show ?thesis using 1 by (subst Read_fill_loop.simps) simp
  next
    case False
    let ?n = "n - length filled"
    obtain r s1 where once: "read_once ?n s = (r, s1)" by fastforce
    from read_once_ok [OF 1(3) once] have ok1: "Reader_ok s1"
      and cases: "r = ReadInterrupted \<and> rd_rest s1 = rd_rest s
        \<or> (\<exists>k. r = ReadOk (take k (rd_rest s)) \<and> rd_rest s1 = drop k (rd_rest s) \<and> k \<le> ?n \<and> 0 < k)"
      using False by auto
    from cases show ?thesis
    proof
      assume "r = ReadInterrupted \<and> rd_rest s1 = rd_rest s"
      then show ?thesis using False once ok1 1(2) [OF False once [symmetric]]
        by (subst Read_fill_loop.simps) simp
    next
      assume "\<exists>k. r = ReadOk (take k (rd_rest s)) \<and> rd_rest s1 = drop k (rd_rest s) \<and> k \<le> ?n \<and> 0 < k"
      then obtain k where k: "r = ReadOk (take k (rd_rest s))" "rd_rest s1 = drop k (rd_rest s)" "k \<le> ?n" "0 < k" by blast
      show ?thesis
      proof (cases "take k (rd_rest s)")
        case Nil
        then show ?thesis using False once k ok1 by (subst Read_fill_loop.simps) simp
      next
        case (Cons b bs)
        define m where "m = length (b # bs)"
        have m: "m = min k (length (rd_rest s))" "m \<le> ?n" unfolding m_def Cons [symmetric] using k(3) by auto
        then have bs: "b # bs = take m (rd_rest s)" "rd_rest s1 = drop m (rd_rest s)"
          unfolding Cons [symmetric] k(2) by (auto simp: min_def)
        have "\<exists>s'. Read_fill_loop n (filled @ b # bs) s1 =
            (Inr ((filled @ b # bs) @ take (n - length (filled @ b # bs)) (rd_rest s1)), s')
            \<and> Reader_ok s' \<and> rd_rest s' = drop (n - length (filled @ b # bs)) (rd_rest s1)"
          using 1(1) [OF False once [symmetric], of "b # bs" b bs] k(1) Cons ok1 by simp
        moreover have "(filled @ b # bs) @ take (n - length (filled @ b # bs)) (rd_rest s1) = filled @ take ?n (rd_rest s)"
          "drop (n - length (filled @ b # bs)) (rd_rest s1) = drop ?n (rd_rest s)"
          using m take_add [of m "?n - m" "rd_rest s"] by (simp_all add: bs min_absorb2 flip: diff_diff_left)
        moreover have "Read_fill_loop n filled s = Read_fill_loop n (filled @ b # bs) s1"
          using False once k(1) Cons by (subst Read_fill_loop.simps) simp
        ultimately show ?thesis by simp
      qed
    qed
  qed
qed

lemma Read_fill_ok:
  assumes "Reader_ok s"
  shows "\<exists>s'. Read_fill n s = (Inr (take n (rd_rest s)), s') \<and> Reader_ok s' \<and> rd_rest s' = drop n (rd_rest s)"
  using Read_fill_loop_ok [OF assms, of n "[]"] by (simp add: Read_fill_def)

lemma Read_skip_ok:
  assumes "Reader_ok s" "n < 2 ^ 31"
  shows "\<exists>s'. Read_skip_bytes n s = (Inr (n \<le> length (rd_rest s)), s')
    \<and> Reader_ok s' \<and> rd_rest s' = drop n (rd_rest s)"
proof (cases "n = 0")
  case False
  have small: "\<not> 2 ^ 63 \<le> int (n - 1)" using assms(2) by simp
  have "Reader_ok (skip_relative (n - 1) s)" using assms(1) by (simp add: Reader_ok_def skip_relative_def)
  from Read_fill_ok [OF this, of 1] obtain s' where s': "Read_fill 1 (skip_relative (n - 1) s) =
      (Inr (take 1 (drop (n - 1) (rd_rest s))), s')" "Reader_ok s'" "rd_rest s' = drop n (rd_rest s)"
    using False by (auto simp: skip_relative_def)
  moreover have "length (take 1 (drop (n - 1) (rd_rest s))) = 1 \<longleftrightarrow> n \<le> length (rd_rest s)" using False by auto
  ultimately show ?thesis using False small by (simp add: Read_skip_bytes_def)
qed (use assms(1) in \<open>simp add: Read_skip_bytes_def\<close>)

interpretation read_stream: frame_stream Read_source Reader_ok "\<lambda>_. True" rd_rest
proof unfold_locales
  fix s :: Reader and n :: nat
  assume ok: "Reader_ok s"
  show "\<exists>s'. src_append Read_source n s = (Inr (take n (rd_rest s)), s') \<and> Reader_ok s' \<and> rd_rest s' = drop n (rd_rest s)"
    using Read_fill_ok [OF ok, of n] by (simp add: Read_source_def Read_append_def Read_fill_def)
  show "\<exists>s'. src_fill Read_source n s = (Inr (take n (rd_rest s)), s') \<and> Reader_ok s' \<and> rd_rest s' = drop n (rd_rest s)"
    using Read_fill_ok [OF ok, of n] by (simp add: Read_source_def)
  show "\<exists>b s'. src_fill Read_source n s = (Inr b, s') \<and> length b < n" if "length (rd_rest s) < n"
    using Read_fill_ok [OF ok, of n] that by (auto simp: Read_source_def)
qed simp

interpretation read_skip: frame_skip Read_source Reader_ok "\<lambda>_. True" rd_rest
proof unfold_locales
  fix s :: Reader and n :: nat
  assume ok: "Reader_ok s" and n: "n < 2 ^ 31"
  show "\<exists>s'. src_skip Read_source n s = (Inr True, s') \<and> Reader_ok s' \<and> True \<and> rd_rest s' = drop n (rd_rest s)"
    if "n \<le> length (rd_rest s)"
    using Read_skip_ok [OF ok n] that by (auto simp: Read_source_def)
  show "\<exists>s'. src_skip Read_source n s = (Inr False, s')" if "length (rd_rest s) < n"
    using Read_skip_ok [OF ok n] that by (auto simp: Read_source_def)
qed

text \<open>The file has not shrunk since it was opened, and the window holds bytes of it.\<close>

definition Pread_ok :: "PreadSource \<Rightarrow> bool" where
  "Pread_ok s \<longleftrightarrow>
     ps_file_size s = length (ps_file s) \<and> ps_pos s \<le> length (ps_file s)
   \<and> ps_window_at s + ps_window_len s \<le> length (ps_file s)
   \<and> take (ps_window_len s) (ps_window s) = take (ps_window_len s) (drop (ps_window_at s) (ps_file s))"

definition ps_rest :: "PreadSource \<Rightarrow> bytes" where
  "ps_rest s = drop (ps_pos s) (ps_file s)"

lemma ps_windowed_rest:
  assumes "Pread_ok s"
  shows "\<exists>k. ps_windowed s = take k (ps_rest s)"
proof (cases "ps_windowed s = []")
  case True
  then show ?thesis by (intro exI [of _ 0]) simp
next
  case False
  then have w: "ps_window_at s \<le> ps_pos s" "ps_pos s - ps_window_at s < ps_window_len s"
    by (auto simp: ps_windowed_def split: if_splits)
  then have "ps_windowed s = drop (ps_pos s - ps_window_at s) (take (ps_window_len s) (drop (ps_window_at s) (ps_file s)))"
    using assms by (simp add: ps_windowed_def Pread_ok_def)
  also have "\<dots> = take (ps_window_len s - (ps_pos s - ps_window_at s)) (ps_rest s)"
    using w by (simp add: drop_take ps_rest_def)
  finally show ?thesis by blast
qed

lemma ps_remaining_ok: "Pread_ok s \<Longrightarrow> ps_remaining s = length (ps_rest s)"
  by (simp add: Pread_ok_def ps_remaining_def ps_rest_def)

lemma ps_fill_ok:
  assumes ok: "Pread_ok s" and "ps_windowed s = []" "n \<le> HEADER_PROBE_SIZE" "n \<le> length (ps_rest s)"
  shows "\<exists>s'. ps_fill n s = (Inr (take n (ps_rest s)), s') \<and> Pread_ok s' \<and> ps_rest s' = drop n (ps_rest s)"
proof -
  let ?probe = "min (ps_remaining s) HEADER_PROBE_SIZE"
  let ?s1 = "s\<lparr>ps_window := take ?probe (ps_rest s), ps_window_at := ps_pos s, ps_window_len := ?probe\<rparr>"
  have pread: "pread_exact (ps_file s) ?probe (ps_pos s) = Inr (take ?probe (ps_rest s))"
    using ok by (auto simp: pread_exact_def ps_rest_def ps_remaining_def Pread_ok_def)
  have win: "ps_windowed ?s1 = take ?probe (ps_rest s)"
    by (auto simp: ps_windowed_def)
  have "n \<le> ?probe" using assms ps_remaining_ok [OF ok] by simp
  then have "ps_fill n s = (Inr (take n (ps_rest s)), ?s1\<lparr>ps_pos := ps_pos s + n\<rparr>)"
    using assms pread win ps_remaining_ok [OF ok] by (simp add: ps_fill_def ps_probe_def Let_def min_def)
  moreover have "Pread_ok (?s1\<lparr>ps_pos := ps_pos s + n\<rparr>)"
    using ok assms(4) by (auto simp: Pread_ok_def ps_rest_def ps_remaining_def)
  ultimately show ?thesis by (auto simp: ps_rest_def add.commute)
qed


lemma ps_append_ok:
  assumes ok: "Pread_ok s"
  shows "\<exists>s'. ps_append n s = (Inr (take n (ps_rest s)), s') \<and> Pread_ok s' \<and> ps_rest s' = drop n (ps_rest s)"
proof -
  define t where "t = min (length (ps_rest s)) n"
  define w where "w = min (length (ps_windowed s)) t"
  obtain k where win: "ps_windowed s = take k (ps_rest s)" using ps_windowed_rest [OF ok] by blast
  have le: "w \<le> t" and t: "take t (ps_rest s) = take n (ps_rest s)" "drop t (ps_rest s) = drop n (ps_rest s)"
    by (simp_all add: w_def t_def min_def)
  have take_w: "take w (ps_windowed s) = take w (ps_rest s)"
    unfolding win by (simp add: w_def win min_def)
  have fits: "ps_pos s + t \<le> length (ps_file s)" using ok by (auto simp: Pread_ok_def ps_rest_def t_def)
  then have pread: "pread_exact (ps_file s) (t - w) (ps_pos s + w) = Inr (take (t - w) (drop w (ps_rest s)))"
    using le by (simp add: pread_exact_def ps_rest_def add.commute)
  have join: "take w (ps_rest s) @ take (t - w) (drop w (ps_rest s)) = take t (ps_rest s)"
    using take_add [of w "t - w" "ps_rest s"] le by simp
  have "ps_append n s =
      (if 0 < t - w
       then (case pread_exact (ps_file s) (t - w) (ps_pos s + w) of
               Inl e \<Rightarrow> (Inl e, s\<lparr>ps_pos := ps_pos s + w\<rparr>)
             | Inr b \<Rightarrow> (Inr (take w (ps_windowed s) @ b), s\<lparr>ps_pos := ps_pos s + w + (t - w)\<rparr>))
       else (Inr (take w (ps_windowed s)), s\<lparr>ps_pos := ps_pos s + w\<rparr>))"
    unfolding ps_append_def Let_def ps_remaining_ok [OF ok] t_def [symmetric] w_def [symmetric]
    by (simp split: sum.splits)
  then have step: "ps_append n s = (Inr (take t (ps_rest s)), s\<lparr>ps_pos := ps_pos s + t\<rparr>)"
    using pread take_w join le by (cases "w = t") simp_all
  have "Pread_ok (s\<lparr>ps_pos := ps_pos s + t\<rparr>)" using ok fits by (auto simp: Pread_ok_def)
  moreover have "ps_rest (s\<lparr>ps_pos := ps_pos s + t\<rparr>) = drop t (ps_rest s)"
    by (simp add: ps_rest_def add.commute)
  ultimately show ?thesis using step t by auto
qed

lemma ps_skip_ok:
  assumes ok: "Pread_ok s"
  shows "\<exists>s'. ps_skip_bytes n s = (Inr (n \<le> length (ps_rest s)), s')
    \<and> (n \<le> length (ps_rest s) \<longrightarrow> Pread_ok s' \<and> ps_windowed s' = [] \<and> ps_rest s' = drop n (ps_rest s))"
  using ok ps_remaining_ok [OF ok]
  by (auto simp: ps_skip_bytes_def Let_def ps_remaining_def ps_rest_def Pread_ok_def ps_windowed_def add.commute)

interpretation pread_skip: frame_skip Pread_source Pread_ok "\<lambda>s. ps_windowed s = []" ps_rest
proof unfold_locales
  fix s :: PreadSource and n :: nat
  assume ok: "Pread_ok s"
  show "\<exists>s'. src_append Pread_source n s = (Inr (take n (ps_rest s)), s') \<and> Pread_ok s' \<and> ps_rest s' = drop n (ps_rest s)"
    using ps_append_ok [OF ok] by (simp add: Pread_source_def)
  show "\<exists>s'. src_fill Pread_source n s = (Inr (take n (ps_rest s)), s') \<and> Pread_ok s' \<and> ps_rest s' = drop n (ps_rest s)"
    if "ps_windowed s = []" "n \<le> HEADER_PROBE_SIZE" "n \<le> length (ps_rest s)"
    using ps_fill_ok [OF ok that] by (simp add: Pread_source_def)
  show "\<exists>b s'. src_fill Pread_source n s = (Inr b, s') \<and> length b < n"
    if "ps_windowed s = []" "length (ps_rest s) < n"
    using that ps_remaining_ok [OF ok] by (simp add: Pread_source_def ps_fill_def)
  show "\<exists>s'. src_skip Pread_source n s = (Inr True, s') \<and> Pread_ok s' \<and> ps_windowed s' = [] \<and> ps_rest s' = drop n (ps_rest s)"
    if "n < 2 ^ 31" "n \<le> length (ps_rest s)"
    using ps_skip_ok [OF ok, of n] that by (auto simp: Pread_source_def)
  show "\<exists>s'. src_skip Pread_source n s = (Inr False, s')"
    if "n < 2 ^ 31" "length (ps_rest s) < n"
    using ps_skip_ok [OF ok, of n] that by (auto simp: Pread_source_def)
qed

section \<open>What an accepted input consists of\<close>

definition view_bytes :: "FrameView \<Rightarrow> bytes" where
  "view_bytes v = u32_to_be_bytes (of_nat (length (vw_header_bytes v))) @ vw_header_bytes v @ vw_payload v"

text \<open>
  Well-formed frames in place: each header within its cap and parsing to the view, the
  payload of the declared size within its cap, and \<open>OSMHeader\<close> only at the start.
\<close>

fun frames_at :: "Proto \<Rightarrow> nat \<Rightarrow> nat \<Rightarrow> FrameView list \<Rightarrow> bool" where
  "frames_at P pos ord [] \<longleftrightarrow> True"
| "frames_at P pos ord (v # vs) \<longleftrightarrow>
     vw_id v = \<lparr>id_start = Some pos, id_ordinal = Some ord\<rparr>
   \<and> 0 < length (vw_header_bytes v) \<and> length (vw_header_bytes v) < MAX_BLOB_HEADER_SIZE
   \<and> WireBlobHeader_parse P (vw_header_bytes v) True True False = Inr (vw_header v)
   \<and> (wh_blob_type (vw_header v) = OsmHeader \<longrightarrow> pos = 0)
   \<and> 0 \<le>s wh_datasize (vw_header v) \<and> unat (wh_datasize (vw_header v)) = length (vw_payload v)
   \<and> length (vw_payload v) < MAX_BLOB_DATASIZE
   \<and> frames_at P (pos + 4 + length (vw_header_bytes v) + length (vw_payload v)) (Suc ord) vs"

definition seen_views :: "FrameView list \<Rightarrow> (bool \<times> FrameId) list" where
  "seen_views vs = map (\<lambda>v. (Option.bind (wh_indexdata (vw_header v)) BlobIndex_deserialize \<noteq> None, vw_id v))
     (filter (\<lambda>v. wh_blob_type (vw_header v) = OsmData) vs)"

lemma u32_be_bytes [simp]: "length (u32_to_be_bytes w) = 4" "u32_from_be_bytes (u32_to_be_bytes w) = w"
  "length b = 4 \<Longrightarrow> u32_to_be_bytes (u32_from_be_bytes b) = b"
  by (simp_all add: u32_to_be_bytes_def u32_from_be_bytes_def)

lemma header_of_bytes_INDEXES:
  "header_of_bytes P HeaderFields_INDEXES refusing at_start hb = Inr (h, ri, ds) \<longleftrightarrow>
     WireBlobHeader_parse P hb True True False = Inr h \<and> (wh_blob_type h = OsmHeader \<longrightarrow> at_start)
   \<and> 0 \<le>s wh_datasize h \<and> ds = unat (wh_datasize h) \<and> ds < MAX_BLOB_DATASIZE
   \<and> ri = (if refusing \<and> wh_blob_type h = OsmData
           then Some (Option.bind (wh_indexdata h) BlobIndex_deserialize \<noteq> None) else None)"
  by (auto simp: header_of_bytes_def HeaderFields_INDEXES_def check_header_position_def Let_def word_sless_alt word_sle_eq not_less not_le
      split: sum.splits if_splits)

lemma header_view_Some:
  "header_view P flds refusing pos data = Inr (Some (hb, h, ri, ds, later)) \<longleftrightarrow>
     data = u32_to_be_bytes (of_nat (length hb)) @ hb @ later
   \<and> 0 < length hb \<and> length hb < MAX_BLOB_HEADER_SIZE
   \<and> header_of_bytes P flds refusing (pos = 0) hb = Inr (h, ri, ds)" (is "?l \<longleftrightarrow> ?r")
proof
  assume ?l
  then obtain n where n: "4 \<le> length data" "check_header_len (u32_from_be_bytes (take 4 data)) = Inr n"
    "4 + n \<le> length data" "hb = take n (drop 4 data)" "later = drop (4 + n) data"
    "header_of_bytes P flds refusing (pos = 0) hb = Inr (h, ri, ds)"
    by (auto simp: header_view_def Let_def split: if_splits sum.splits)
  then have len: "length hb = n" by simp
  have "n = unat (u32_from_be_bytes (take 4 data))" "0 < n" "n < MAX_BLOB_HEADER_SIZE"
    using n(2) by (auto simp: check_header_len_def Let_def split: if_splits)
  moreover from this have "of_nat n = u32_from_be_bytes (take 4 data)" by simp
  then have "u32_to_be_bytes (of_nat n) = take 4 data" using n(1) by (simp only: u32_be_bytes length_take min_absorb2)
  moreover have "data = take 4 data @ hb @ later"
    unfolding n(4,5) using append_take_drop_id [of 4 data] append_take_drop_id [of n "drop 4 data"] by (simp add: add.commute)
  ultimately show ?r using n(6) len by simp
next
  assume r: ?r
  then have "unat (of_nat (length hb) :: u32) = length hb"
    by (simp add: unat_of_nat MAX_BLOB_HEADER_SIZE_def)
  then show ?l using r by (simp add: header_view_def check_header_len_def Let_def)
qed

lemma header_view_None: "header_view P flds refusing pos data = Inr None \<longleftrightarrow> length data < 4"
  by (auto simp: header_view_def Let_def split: sum.splits)

text \<open>The guard of a refusing walk that has seen \<open>xs\<close>, and of an exempt one.\<close>

definition guard_of :: "bool \<Rightarrow> (bool \<times> FrameId) list \<Rightarrow> FrameId PartialIndexGuard option" where
  "guard_of accept xs = (if accept then None else Some (guard_after xs))"

lemma observe_guard:
  assumes "accept \<or> \<not> mixed xs"
  shows "observe (guard_of accept xs) (if \<not> accept \<and> data_blob then Some b else None) frame_id =
    (if \<not> accept \<and> mixed (xs @ (if data_blob then [(b, frame_id)] else []))
     then Inl (PartiallyIndexed, unindexed_at (xs @ [(b, frame_id)]))
     else Inr (guard_of accept (xs @ (if data_blob then [(b, frame_id)] else []))))"
proof (cases "\<not> accept \<and> data_blob")
  case True
  then have x: "\<not> mixed xs" using assms by simp
  show ?thesis
  proof (cases "mixed (xs @ [(b, frame_id)])")
    case m: True
    then obtain at where "unindexed_at (xs @ [(b, frame_id)]) = Some at"
      by (cases "unindexed_at (xs @ [(b, frame_id)])") (auto simp only: mixed_def unindexed_at_None)
    then show ?thesis using True m guard_observe_after [OF x, of b frame_id]
      by (simp add: observe_def guard_of_def)
  next
    case False
    then show ?thesis using True guard_observe_after [OF x, of b frame_id]
      by (simp add: observe_def guard_of_def)
  qed
qed (use assms in \<open>auto simp: observe_def guard_of_def\<close>)

lemma mixed_mono: "\<not> mixed (xs @ ys) \<Longrightarrow> \<not> mixed xs"
  using mixed_append by blast

lemma seen_views_Cons:
  "seen_views (v # vs) = (if wh_blob_type (vw_header v) = OsmData
     then [(Option.bind (wh_indexdata (vw_header v)) BlobIndex_deserialize \<noteq> None, vw_id v)] else []) @ seen_views vs"
  by (simp add: seen_views_def)

lemma frames_spec_accepts:
  assumes "frames_at P pos ord vs" "length tl_bytes < 4" "accept \<or> \<not> mixed (xs @ seen_views vs)"
  shows "frames_spec P HeaderFields_INDEXES (guard_of accept xs) pos ord (concat (map view_bytes vs) @ tl_bytes) = Inr vs"
  using assms
proof (induction vs arbitrary: pos ord xs)
  case Nil
  then have "header_view P HeaderFields_INDEXES (guard_of accept xs \<noteq> None) pos tl_bytes = Inr None"
    by (simp only: header_view_None)
  then show ?case by (subst frames_spec.simps) simp
next
  case (Cons v vs)
  let ?id = "\<lparr>id_start = Some pos, id_ordinal = Some ord\<rparr>"
  let ?data = "wh_blob_type (vw_header v) = OsmData"
  let ?b = "Option.bind (wh_indexdata (vw_header v)) BlobIndex_deserialize \<noteq> None"
  let ?xs = "xs @ (if ?data then [(?b, ?id)] else [])"
  let ?later = "vw_payload v @ concat (map view_bytes vs) @ tl_bytes"
  have ref: "guard_of accept xs \<noteq> None \<longleftrightarrow> \<not> accept" by (simp add: guard_of_def)
  have id: "vw_id v = ?id" using Cons.prems(1) by simp
  have nm: "accept \<or> \<not> mixed (?xs @ seen_views vs)" using Cons.prems(3) id by (auto simp: seen_views_Cons)
  then have nm': "accept \<or> \<not> mixed ?xs" "accept \<or> \<not> mixed xs" using mixed_mono by blast+
  have view: "header_view P HeaderFields_INDEXES (guard_of accept xs \<noteq> None) pos (concat (map view_bytes (v # vs)) @ tl_bytes)
      = Inr (Some (vw_header_bytes v, vw_header v, if \<not> accept \<and> ?data then Some ?b else None, length (vw_payload v), ?later))"
    unfolding header_view_Some header_of_bytes_INDEXES ref using Cons.prems(1) by (simp add: view_bytes_def)
  have obs: "observe (guard_of accept xs) (if \<not> accept \<and> ?data then Some ?b else None) ?id = Inr (guard_of accept ?xs)"
    using observe_guard [OF nm'(2), of ?data ?b ?id] nm'(1) by auto
  have "frames_spec P HeaderFields_INDEXES (guard_of accept ?xs)
      (pos + 4 + length (vw_header_bytes v) + length (vw_payload v)) (Suc ord) (concat (map view_bytes vs) @ tl_bytes) = Inr vs"
    using Cons.IH [OF _ Cons.prems(2) nm] Cons.prems(1) by simp
  then show ?case using view obs id
    by (subst frames_spec.simps) (simp only: view obs Let_def sum.case option.case prod.case, simp)
qed

lemma frames_spec_structure:
  assumes "frames_spec P HeaderFields_INDEXES (guard_of accept xs) pos ord data = Inr vs" "accept \<or> \<not> mixed xs"
  shows "frames_at P pos ord vs \<and> (accept \<or> \<not> mixed (xs @ seen_views vs))
    \<and> (\<exists>tl_bytes. length tl_bytes < 4 \<and> data = concat (map view_bytes vs) @ tl_bytes)"
  using assms
proof (induction data arbitrary: pos ord xs vs rule: length_induct)
  case (1 data)
  let ?id = "\<lparr>id_start = Some pos, id_ordinal = Some ord\<rparr>"
  note spec = 1(2) and nm = 1(3)
  have ref: "guard_of accept xs \<noteq> None \<longleftrightarrow> \<not> accept" by (simp add: guard_of_def)
  show ?case
  proof (cases "header_view P HeaderFields_INDEXES (guard_of accept xs \<noteq> None) pos data")
    case (Inl e)
    then show ?thesis using spec by (subst (asm) frames_spec.simps) (simp del: not_None_eq)
  next
    case (Inr o1)
    show ?thesis
    proof (cases o1)
      case None
      then have "length data < 4" using Inr header_view_None by blast
      moreover have "vs = []" using spec Inr None by (subst (asm) frames_spec.simps) (simp del: not_None_eq)
      ultimately show ?thesis using nm by (simp add: seen_views_def)
    next
      case (Some q)
      obtain hb h ri ds later where q: "q = (hb, h, ri, ds, later)" by (metis surj_pair)
      have view: "header_view P HeaderFields_INDEXES (guard_of accept xs \<noteq> None) pos data = Inr (Some (hb, h, ri, ds, later))"
        using Inr Some q by simp
      let ?v = "\<lparr>vw_id = ?id, vw_header_bytes = hb, vw_header = h, vw_payload = take ds later\<rparr>"
      let ?data = "wh_blob_type h = OsmData" and ?b = "Option.bind (wh_indexdata h) BlobIndex_deserialize \<noteq> None"
      let ?xs = "xs @ (if ?data then [(?b, ?id)] else [])"
      note parts = view [unfolded header_view_Some header_of_bytes_INDEXES ref]
      have ri: "ri = (if \<not> accept \<and> ?data then Some ?b else None)" using parts by blast
      have unfold: "frames_spec P HeaderFields_INDEXES (guard_of accept xs) pos ord data =
          (if length later < ds then Inl (FrameTruncated TruncatedPayload ds (Some (pos + 4 + length hb)), Some ?id)
           else case observe (guard_of accept xs) ri ?id of Inl e \<Rightarrow> Inl e
             | Inr g \<Rightarrow> map_sum id (Cons ?v) (frames_spec P HeaderFields_INDEXES g (pos + 4 + length hb + ds) (Suc ord) (drop ds later)))"
        by (subst frames_spec.simps) (simp only: view Let_def sum.case option.case prod.case)
      note obs = observe_guard [OF nm, of ?data ?b ?id, folded ri]
      have whole: "ds \<le> length later" and nm': "accept \<or> \<not> mixed ?xs"
        using spec unfold obs by (auto split: if_splits)
      then have "observe (guard_of accept xs) ri ?id = Inr (guard_of accept ?xs)" using obs by auto
      then obtain vs' where vs: "vs = ?v # vs'"
        and rec: "frames_spec P HeaderFields_INDEXES (guard_of accept ?xs) (pos + 4 + length hb + ds) (Suc ord) (drop ds later) = Inr vs'"
        using spec whole unfold by (auto simp: map_sum_def split: sum.splits)
      have "length (drop ds later) < length data" using header_view_shorter [OF view] by simp
      from 1(1) [rule_format, OF this rec nm'] obtain tl_bytes where
        IH: "frames_at P (pos + 4 + length hb + ds) (Suc ord) vs'" "accept \<or> \<not> mixed (?xs @ seen_views vs')"
        "length tl_bytes < 4" "drop ds later = concat (map view_bytes vs') @ tl_bytes" by blast
      have "later = take ds later @ concat (map view_bytes vs') @ tl_bytes"
        using IH(4) append_take_drop_id [of ds later] by simp
      moreover have "data = u32_to_be_bytes (of_nat (length hb)) @ hb @ later" using parts by blast
      ultimately have "data = concat (map view_bytes (?v # vs')) @ tl_bytes" by (simp add: view_bytes_def)
      moreover have "frames_at P pos ord (?v # vs')" using parts IH(1) whole by simp
      moreover have "accept \<or> \<not> mixed (xs @ seen_views (?v # vs'))" using IH(2)
        by (cases ?data) (simp_all add: seen_views_Cons del: not_None_eq)
      ultimately show ?thesis using vs IH(3) by blast
    qed
  qed
qed

section \<open>Properties\<close>

definition index_allowed :: "bool \<Rightarrow> FrameView list \<Rightarrow> bool" where
  "index_allowed accept vs \<longleftrightarrow> accept \<or> \<not> mixed (seen_views vs)"

text \<open>A failed walk stays failed: no operation reads on, until it is repositioned and cleared.\<close>

lemma failed_walk:
  assumes "fr_failed f"
  shows "next_header P S c f = (Inl (UsedAfterFailure, None), f)" "read_payload S f = (Inl (UsedAfterFailure, None), f)"
    "skip_payload S f = (Inl (UsedAfterFailure, None), f)" "next_raw P S c f = (Inl (UsedAfterFailure, None), f)"
    "walker_next_header P S c f = (Inl (UsedAfterFailure, None), f)"
  using assms by (simp_all add: next_header_def read_payload_def skip_payload_def take_pending_def next_raw_def walker_next_header_def)

lemma next_header_fails: "next_header P S c f = (Inl e, f') \<Longrightarrow> fr_failed f'"
  by (auto simp: next_header_def poison_def Let_def split: if_splits prod.splits sum.splits)

text \<open>A walk over an input from its start.\<close>

definition open_pread :: "bytes \<Rightarrow> PreadSource" where
  "open_pread f = \<lparr>ps_file = f, ps_pos = 0, ps_file_size = length f, ps_window = [], ps_window_at = 0, ps_window_len = 0\<rparr>"

definition start_walk :: "bool \<Rightarrow> 's \<Rightarrow> 's Frames" where
  "start_walk accept src = (if accept then accept_partial_index (of_input src) else of_input src)"

lemma start_read:
  assumes "Reader_ok s"
  shows "read_stream.between (start_walk accept s) HeaderFields_INDEXES (guard_of accept []) 0 0 (rd_rest s)"
  using assms by (simp add: read_stream.between_def start_walk_def of_input_def accept_partial_index_def
      refuse_partial_index_def Frames_new_def guard_of_def)

lemma start_pread: "pread_skip.between (start_walk accept (open_pread d)) HeaderFields_INDEXES (guard_of accept []) 0 0 d"
  unfolding pread_skip.between_def
  by (simp add: start_walk_def of_input_def accept_partial_index_def refuse_partial_index_def
      Frames_new_def guard_of_def open_pread_def Pread_ok_def ps_windowed_def ps_rest_def)

text \<open>
  C2: the frame state machine implements the abstract one over every source: a raw walk
  over a stream, however its reads are split or interrupted, and a header walk by \<open>pread\<close>,
  which reads no payload, both end, with the frames or the located error of the same
  specification.
\<close>
theorem walks_refine_spec:
  assumes "Reader_ok s"
  shows "walk (next_raw P Read_source False) (start_walk accept s) []
      = Some (map_sum id (map raw_of) (frames_spec P HeaderFields_INDEXES (guard_of accept []) 0 0 (rd_rest s)))
    \<and> walk (walker_next_header P Pread_source False) (start_walk accept (open_pread (rd_rest s))) []
      = Some (map_sum id (map meta_of) (frames_spec P HeaderFields_INDEXES (guard_of accept []) 0 0 (rd_rest s)))"
  using read_stream.walk_spec [OF read_stream.next_raw_follows start_read [OF assms], of P accept "[]"]
    pread_skip.walk_spec [OF pread_skip.walker_follows start_pread, of P accept "rd_rest s" "[]"]
  by simp

theorem walks_refine_spec_witness:
  "walk (next_raw pb Read_source False) (start_walk False \<lparr>rd_rest = [0, 0], rd_events = [Interrupted, Delivers 0]\<rparr>) []
     = Some (Inr [])"
proof -
  have "frames_spec pb HeaderFields_INDEXES (guard_of False []) 0 0 [0, 0] = Inr []"
    by (subst frames_spec.simps) (simp add: header_view_def)
  then show ?thesis
    using walks_refine_spec [of "\<lparr>rd_rest = [0, 0], rd_events = [Interrupted, Delivers 0]\<rparr>" pb False]
    by (simp add: Reader_ok_def)
qed

lemma frames_spec_iff:
  "frames_spec P HeaderFields_INDEXES (guard_of accept []) 0 0 data = Inr vs \<longleftrightarrow>
     frames_at P 0 0 vs \<and> index_allowed accept vs
   \<and> (\<exists>tl_bytes. length tl_bytes < 4 \<and> data = concat (map view_bytes vs) @ tl_bytes)"
proof -
  have nm: "accept \<or> \<not> mixed ([] :: (bool \<times> FrameId) list)" by (simp add: mixed_def)
  show ?thesis
    unfolding index_allowed_def
    using frames_spec_structure [where xs = "[]", OF _ nm, of P 0 0 data vs]
      frames_spec_accepts [where xs = "[]" and accept = accept and pos = 0 and ord = 0 and vs = vs and P = P]
    by auto
qed

lemma map_sum_id_Inr: "map_sum id f r = Inr y \<longleftrightarrow> (\<exists>x. r = Inr x \<and> y = f x)"
  by (cases r) auto

text \<open>
  C3: which inputs the walks accept. The raw walk over a stream, however its reads are split or interrupted, and the
  header walk by \<open>pread\<close> return a list exactly when the input is a sequence of well-formed frames in place, with at
  most three bytes after the last, and, unless the walk is exempt, not indexed in part only; the list is then
  those frames.
\<close>
theorem accepted_input_structure:
  assumes "Reader_ok s"
  shows "(walk (next_raw P Read_source False) (start_walk accept s) [] = Some (Inr raws) \<longleftrightarrow>
      (\<exists>vs. raws = map raw_of vs \<and> frames_at P 0 0 vs \<and> index_allowed accept vs
        \<and> (\<exists>tl_bytes. length tl_bytes < 4 \<and> rd_rest s = concat (map view_bytes vs) @ tl_bytes)))
    \<and> (walk (walker_next_header P Pread_source False) (start_walk accept (open_pread (rd_rest s))) [] = Some (Inr metas) \<longleftrightarrow>
      (\<exists>vs. metas = map meta_of vs \<and> frames_at P 0 0 vs \<and> index_allowed accept vs
        \<and> (\<exists>tl_bytes. length tl_bytes < 4 \<and> rd_rest s = concat (map view_bytes vs) @ tl_bytes)))"
  using read_stream.walk_spec [OF read_stream.next_raw_follows start_read [OF assms], of P accept "[]"]
    pread_skip.walk_spec [OF pread_skip.walker_follows start_pread, of P accept "rd_rest s" "[]"]
  by (auto simp: map_sum_id_Inr frames_spec_iff)

theorem accepted_input_structure_witness:
  "\<exists>raw. walk (next_raw pb Read_source False) (start_walk False
       \<lparr>rd_rest = [0, 0, 0, 11, 10, 7, 79, 83, 77, 68, 97, 116, 97, 24, 3, 10, 1, 2, 9], rd_events = [Interrupted, Delivers 2]\<rparr>) [] = Some (Inr [raw])
     \<and> rw_frame_bytes raw = [0, 0, 0, 11, 10, 7, 79, 83, 77, 68, 97, 116, 97, 24, 3, 10, 1, 2]"
proof -
  let ?s = "\<lparr>rd_rest = [0, 0, 0, 11, 10, 7, 79, 83, 77, 68, 97, 116, 97, 24, 3, 10, 1, 2, 9], rd_events = [Interrupted, Delivers 2]\<rparr>"
  let ?hb = "[10, 7, 79, 83, 77, 68, 97, 116, 97, 24, 3] :: bytes"
  define v where "v = \<lparr>vw_id = \<lparr>id_start = Some 0, id_ordinal = Some 0\<rparr>, vw_header_bytes = ?hb,
    vw_header = \<lparr>wh_blob_type = OsmData, wh_datasize = 3, unrecognised_indexdata_len = None, wh_indexdata = None,
      indexdata_present = False, wh_tagdata = None, tagdata_present = False, wh_waymembers = None\<rparr>, vw_payload = [10, 1, 2]\<rparr>"
  have "WireBlobHeader_parse pb ?hb True True False = Inr (vw_header v)" unfolding v_def by code_simp
  then have at: "frames_at pb 0 0 [v]" by (simp add: v_def MAX_BLOB_HEADER_SIZE_def MAX_BLOB_DATASIZE_def MAX_BLOB_MESSAGE_SIZE_def word_sle_eq)
  have be: "u32_to_be_bytes 11 = [0, 0, 0, 11]" by code_simp
  then have bytes: "view_bytes v = [0, 0, 0, 11, 10, 7, 79, 83, 77, 68, 97, 116, 97, 24, 3, 10, 1, 2]" by (simp add: view_bytes_def v_def)
  have "index_allowed False [v]" by (simp add: index_allowed_def seen_views_def v_def mixed_def)
  moreover have "length ([9] :: bytes) < 4" "rd_rest ?s = concat (map view_bytes [v]) @ [9]" using bytes by simp_all
  ultimately have accepted: "\<exists>vs. map raw_of [v] = map raw_of vs \<and> frames_at pb 0 0 vs \<and> index_allowed False vs
      \<and> (\<exists>tl_bytes. length tl_bytes < 4 \<and> rd_rest ?s = concat (map view_bytes vs) @ tl_bytes)" using at by blast
  have "Reader_ok ?s" by (simp add: Reader_ok_def)
  from accepted_input_structure [OF this, THEN conjunct1, THEN iffD2, OF accepted]
  have "walk (next_raw pb Read_source False) (start_walk False ?s) [] = Some (Inr (map raw_of [v]))" .
  then show ?thesis using bytes by (simp add: raw_of_def view_bytes_def)
qed

end
