(* ===== verification/Osc_Overlay.thy ===== *)
theory Osc_Overlay
  imports Sorted_Diff
begin

text \<open>
  The change overlay that apply-changes parses its change files into,
  \<open>CompactDiffOverlay\<close> of \<open>src/src/osc/parse.rs\<close>, and the version rule both change consumers
  enforce, \<open>src/src/osc/version_floor.rs\<close>. Hash maps are association lists with distinct
  keys and hash sets distinct lists, in an order nothing depends on. An operation returns its
  result beside the overlay it leaves, refusals included; \<open>None\<close> is a panic. Shown: under the
  overlay's invariant nothing panics, each operation refines an abstract map from objects to
  their final change and version floor, and the sorted tables built at the end hold exactly
  that map.
\<close>

section \<open>The version rule\<close>

datatype VersionFloor = VersionFloor "i32 option"

definition VersionFloor_new :: "i32 option \<Rightarrow> VersionFloor" where
  "VersionFloor_new highest = VersionFloor highest"

fun admit :: "VersionFloor \<Rightarrow> i32 option \<Rightarrow> i32 + unit" where
  "admit (VersionFloor (Some fl)) (Some claim) = (if claim <s fl then Inl fl else Inr ())"
| "admit _ _ = Inr ()"

fun raise :: "VersionFloor \<Rightarrow> i32 option \<Rightarrow> VersionFloor" where
  "raise (VersionFloor f) (Some claim) = VersionFloor (Some (case f of None \<Rightarrow> claim | Some fl \<Rightarrow> smax fl claim))"
| "raise (VersionFloor f) None = VersionFloor f"

section \<open>The overlay\<close>

record CompactDiffOverlay =
  node_arena :: bytes
  way_arena :: bytes
  relation_arena :: bytes
  node_index :: "(i64 \<times> nat) list"
  way_index :: "(i64 \<times> nat) list"
  relation_index :: "(i64 \<times> nat) list"
  deleted_nodes :: "i64 list"
  deleted_ways :: "i64 list"
  deleted_relations :: "i64 list"
  node_version_floors :: "(i64 \<times> i32) list"
  way_version_floors :: "(i64 \<times> i32) list"
  relation_version_floors :: "(i64 \<times> i32) list"
  ov_interner :: StringInterner
  ov_allow :: bool

record KindStore =
  kst_arena :: bytes
  kst_index :: "(i64 \<times> nat) list"
  kst_floors :: "(i64 \<times> i32) list"
  kst_meta_off :: nat

definition stored_version :: "KindStore \<Rightarrow> i64 \<Rightarrow> i32 option option" where
  "stored_version st i = do {
     live \<leftarrow> (case map_of (kst_index st) i of None \<Rightarrow> Some None
               | Some offset \<Rightarrow> version_at (kst_arena st) offset (kst_meta_off st));
     Some (case (live, map_of (kst_floors st) i) of (Some a, Some b) \<Rightarrow> Some (smax a b)
           | (Some a, None) \<Rightarrow> Some a | (None, b) \<Rightarrow> b)
   }"

definition CompactDiffOverlay_new :: CompactDiffOverlay where
  "CompactDiffOverlay_new = \<lparr>node_arena = [], way_arena = [], relation_arena = [], node_index = [], way_index = [],
     relation_index = [], deleted_nodes = [], deleted_ways = [], deleted_relations = [], node_version_floors = [],
     way_version_floors = [], relation_version_floors = [], ov_interner = StringInterner_new, ov_allow = False\<rparr>"

definition allow_version_regression :: "CompactDiffOverlay \<Rightarrow> bool \<Rightarrow> CompactDiffOverlay" where
  "allow_version_regression ov allow = ov\<lparr>ov_allow := allow\<rparr>"

definition check_version_advance ::
    "CompactDiffOverlay \<Rightarrow> ElementKind \<Rightarrow> i64 \<Rightarrow> KindStore \<Rightarrow> i32 \<Rightarrow> (osc_error + unit) option" where
  "check_version_advance ov k i st incoming =
     (if ov_allow ov then Some (Inr ())
      else do {
        stored \<leftarrow> stored_version st i;
        Some (case admit (VersionFloor_new stored) (Some incoming) of
                Inr _ \<Rightarrow> Inr ()
              | Inl fl \<Rightarrow> Inl (VersionRegression ''OSC change overlay'' k i incoming fl))
      })"

definition is_empty :: "CompactDiffOverlay \<Rightarrow> bool" where
  "is_empty ov \<longleftrightarrow> node_index ov = [] \<and> way_index ov = [] \<and> relation_index ov = [] \<and>
     deleted_nodes ov = [] \<and> deleted_ways ov = [] \<and> deleted_relations ov = []"

text \<open>\<open>&arena[offset..]\<close>\<close>

definition arena_from :: "bytes \<Rightarrow> nat \<Rightarrow> bytes option" where
  "arena_from arena offset = (if offset \<le> length arena then Some (drop offset arena) else None)"

text \<open>The lookups: the inner \<open>option\<close> is the answer.\<close>

definition get_node :: "CompactDiffOverlay \<Rightarrow> i64 \<Rightarrow> CompactNodeRef option option" where
  "get_node ov i = (case map_of (node_index ov) i of None \<Rightarrow> Some None
     | Some offset \<Rightarrow> do { data \<leftarrow> arena_from (node_arena ov) offset;
         Some (Some \<lparr>cr_data = data, cr_strings = strings (ov_interner ov)\<rparr>) })"

definition get_way :: "CompactDiffOverlay \<Rightarrow> i64 \<Rightarrow> CompactWayRef option option" where
  "get_way ov i = (case map_of (way_index ov) i of None \<Rightarrow> Some None
     | Some offset \<Rightarrow> do { data \<leftarrow> arena_from (way_arena ov) offset;
         Some (Some \<lparr>cr_data = data, cr_strings = strings (ov_interner ov)\<rparr>) })"

definition get_relation :: "CompactDiffOverlay \<Rightarrow> i64 \<Rightarrow> CompactRelationRef option option" where
  "get_relation ov i = (case map_of (relation_index ov) i of None \<Rightarrow> Some None
     | Some offset \<Rightarrow> do { data \<leftarrow> arena_from (relation_arena ov) offset;
         Some (Some \<lparr>cr_data = data, cr_strings = strings (ov_interner ov)\<rparr>) })"

definition has_node :: "CompactDiffOverlay \<Rightarrow> i64 \<Rightarrow> bool" where
  "has_node ov i \<longleftrightarrow> map_of (node_index ov) i \<noteq> None"

definition has_way :: "CompactDiffOverlay \<Rightarrow> i64 \<Rightarrow> bool" where
  "has_way ov i \<longleftrightarrow> map_of (way_index ov) i \<noteq> None"

definition has_relation :: "CompactDiffOverlay \<Rightarrow> i64 \<Rightarrow> bool" where
  "has_relation ov i \<longleftrightarrow> map_of (relation_index ov) i \<noteq> None"

definition node_count :: "CompactDiffOverlay \<Rightarrow> nat" where "node_count ov = length (node_index ov)"
definition way_count :: "CompactDiffOverlay \<Rightarrow> nat" where "way_count ov = length (way_index ov)"
definition relation_count :: "CompactDiffOverlay \<Rightarrow> nat" where "relation_count ov = length (relation_index ov)"

definition into_sorted :: "CompactDiffOverlay \<Rightarrow> SortedDiff" where
  "into_sorted ov =
     \<lparr>sd_nodes = KindTable_build (node_arena ov) (node_index ov) (deleted_nodes ov),
      sd_ways = KindTable_build (way_arena ov) (way_index ov) (deleted_ways ov),
      sd_relations = KindTable_build (relation_arena ov) (relation_index ov) (deleted_relations ov),
      sd_strings = into_strings (ov_interner ov)\<rparr>"

definition deleted_ids :: "CompactDiffOverlay \<Rightarrow> ElementKind \<Rightarrow> i64 list" where
  "deleted_ids ov k = (case k of Node \<Rightarrow> deleted_nodes ov | Way \<Rightarrow> deleted_ways ov | Relation \<Rightarrow> deleted_relations ov)"

definition is_deleted :: "CompactDiffOverlay \<Rightarrow> ElementKind \<Rightarrow> i64 \<Rightarrow> bool" where
  "is_deleted ov k i \<longleftrightarrow> i \<in> set (deleted_ids ov k)"

section \<open>Mutators\<close>

definition node_store :: "CompactDiffOverlay \<Rightarrow> KindStore" where
  "node_store ov = \<lparr>kst_arena = node_arena ov, kst_index = node_index ov, kst_floors = node_version_floors ov,
     kst_meta_off = NODE_META_OFF\<rparr>"

definition way_store :: "CompactDiffOverlay \<Rightarrow> KindStore" where
  "way_store ov = \<lparr>kst_arena = way_arena ov, kst_index = way_index ov, kst_floors = way_version_floors ov,
     kst_meta_off = WAY_META_OFF\<rparr>"

definition relation_store :: "CompactDiffOverlay \<Rightarrow> KindStore" where
  "relation_store ov = \<lparr>kst_arena = relation_arena ov, kst_index = relation_index ov, kst_floors = relation_version_floors ov,
     kst_meta_off = RELATION_META_OFF\<rparr>"

definition raise_floor :: "(i64 \<times> i32) list \<Rightarrow> i64 \<Rightarrow> i32 option \<Rightarrow> ArenaMeta \<Rightarrow> (i64 \<times> i32) list" where
  "raise_floor floors i carried m =
     (let upd = (\<lambda>highest. AList.update i (case map_of floors i of Some v \<Rightarrow> smax v highest | None \<Rightarrow> highest) floors) in
      case (carried, version_claim m) of
        (Some a, Some b) \<Rightarrow> upd (smax a b)
      | (Some a, None) \<Rightarrow> upd a
      | (None, Some a) \<Rightarrow> upd a
      | (None, None) \<Rightarrow> floors)"

definition push_node ::
    "CompactDiffOverlay \<Rightarrow> i64 \<Rightarrow> i32 \<Rightarrow> i32 \<Rightarrow> (u32 \<times> bytes) list \<Rightarrow> ArenaMeta \<Rightarrow> ((osc_error + unit) \<times> CompactDiffOverlay) option" where
  "push_node ov i lat lon tags m = do {
     (gate, ov) \<leftarrow> (case version_claim m of
        Some claim \<Rightarrow> do { r \<leftarrow> check_version_advance ov Node i (node_store ov) claim; Some (r, ov) }
      | None \<Rightarrow>
          if \<not> ov_allow ov
          then do {
            carried \<leftarrow> stored_version (node_store ov) i;
            Some (Inr (), ov\<lparr>node_version_floors := raise_floor (node_version_floors ov) i carried m\<rparr>)
          }
          else Some (Inr (), ov));
     Some (case gate of
             Inl e \<Rightarrow> (Inl e, ov)
           | Inr _ \<Rightarrow>
               (case arena_append_node (node_arena ov) i lat lon tags m of
                  (Inl e, arena) \<Rightarrow> (Inl e, ov\<lparr>node_arena := arena\<rparr>)
                | (Inr offset, arena) \<Rightarrow>
                    (Inr (), ov\<lparr>node_arena := arena, node_index := AList.update i offset (node_index ov),
                                deleted_nodes := removeAll i (deleted_nodes ov)\<rparr>)))
   }"

definition push_way ::
    "CompactDiffOverlay \<Rightarrow> i64 \<Rightarrow> i64 list \<Rightarrow> (u32 \<times> bytes) list \<Rightarrow> ArenaMeta \<Rightarrow> ((osc_error + unit) \<times> CompactDiffOverlay) option" where
  "push_way ov i refs tags m = do {
     (gate, ov) \<leftarrow> (case version_claim m of
        Some claim \<Rightarrow> do { r \<leftarrow> check_version_advance ov Way i (way_store ov) claim; Some (r, ov) }
      | None \<Rightarrow>
          if \<not> ov_allow ov
          then do {
            carried \<leftarrow> stored_version (way_store ov) i;
            Some (Inr (), ov\<lparr>way_version_floors := raise_floor (way_version_floors ov) i carried m\<rparr>)
          }
          else Some (Inr (), ov));
     Some (case gate of
             Inl e \<Rightarrow> (Inl e, ov)
           | Inr _ \<Rightarrow>
               (case arena_append_way (way_arena ov) i refs tags m of
                  (Inl e, arena) \<Rightarrow> (Inl e, ov\<lparr>way_arena := arena\<rparr>)
                | (Inr offset, arena) \<Rightarrow>
                    (Inr (), ov\<lparr>way_arena := arena, way_index := AList.update i offset (way_index ov),
                                deleted_ways := removeAll i (deleted_ways ov)\<rparr>)))
   }"

definition push_relation ::
    "CompactDiffOverlay \<Rightarrow> i64 \<Rightarrow> (i64 \<times> u8 \<times> u32) list \<Rightarrow> (u32 \<times> bytes) list \<Rightarrow> ArenaMeta \<Rightarrow>
      ((osc_error + unit) \<times> CompactDiffOverlay) option" where
  "push_relation ov i members tags m = do {
     (gate, ov) \<leftarrow> (case version_claim m of
        Some claim \<Rightarrow> do { r \<leftarrow> check_version_advance ov Relation i (relation_store ov) claim; Some (r, ov) }
      | None \<Rightarrow>
          if \<not> ov_allow ov
          then do {
            carried \<leftarrow> stored_version (relation_store ov) i;
            Some (Inr (), ov\<lparr>relation_version_floors := raise_floor (relation_version_floors ov) i carried m\<rparr>)
          }
          else Some (Inr (), ov));
     Some (case gate of
             Inl e \<Rightarrow> (Inl e, ov)
           | Inr _ \<Rightarrow>
               (case arena_append_relation (relation_arena ov) i members tags m of
                  (Inl e, arena) \<Rightarrow> (Inl e, ov\<lparr>relation_arena := arena\<rparr>)
                | (Inr offset, arena) \<Rightarrow>
                    (Inr (), ov\<lparr>relation_arena := arena, relation_index := AList.update i offset (relation_index ov),
                                deleted_relations := removeAll i (deleted_relations ov)\<rparr>)))
   }"

definition delete_node :: "CompactDiffOverlay \<Rightarrow> i64 \<Rightarrow> ArenaMeta \<Rightarrow> ((osc_error + unit) \<times> CompactDiffOverlay) option" where
  "delete_node ov i m = do {
     gate \<leftarrow> (case version_claim m of
        Some claim \<Rightarrow> check_version_advance ov Node i (node_store ov) claim
      | None \<Rightarrow> Some (Inr ()));
     (case gate of
        Inl e \<Rightarrow> Some (Inl e, ov)
      | Inr _ \<Rightarrow> do {
          carried \<leftarrow> stored_version (node_store ov) i;
          Some (Inr (), ov\<lparr>node_version_floors := raise_floor (node_version_floors ov) i carried m,
                           deleted_nodes := List.insert i (deleted_nodes ov),
                           node_index := AList.delete i (node_index ov)\<rparr>)
        })
   }"

definition delete_way :: "CompactDiffOverlay \<Rightarrow> i64 \<Rightarrow> ArenaMeta \<Rightarrow> ((osc_error + unit) \<times> CompactDiffOverlay) option" where
  "delete_way ov i m = do {
     gate \<leftarrow> (case version_claim m of
        Some claim \<Rightarrow> check_version_advance ov Way i (way_store ov) claim
      | None \<Rightarrow> Some (Inr ()));
     (case gate of
        Inl e \<Rightarrow> Some (Inl e, ov)
      | Inr _ \<Rightarrow> do {
          carried \<leftarrow> stored_version (way_store ov) i;
          Some (Inr (), ov\<lparr>way_version_floors := raise_floor (way_version_floors ov) i carried m,
                           deleted_ways := List.insert i (deleted_ways ov),
                           way_index := AList.delete i (way_index ov)\<rparr>)
        })
   }"

definition delete_relation :: "CompactDiffOverlay \<Rightarrow> i64 \<Rightarrow> ArenaMeta \<Rightarrow> ((osc_error + unit) \<times> CompactDiffOverlay) option" where
  "delete_relation ov i m = do {
     gate \<leftarrow> (case version_claim m of
        Some claim \<Rightarrow> check_version_advance ov Relation i (relation_store ov) claim
      | None \<Rightarrow> Some (Inr ()));
     (case gate of
        Inl e \<Rightarrow> Some (Inl e, ov)
      | Inr _ \<Rightarrow> do {
          carried \<leftarrow> stored_version (relation_store ov) i;
          Some (Inr (), ov\<lparr>relation_version_floors := raise_floor (relation_version_floors ov) i carried m,
                           deleted_relations := List.insert i (deleted_relations ov),
                           relation_index := AList.delete i (relation_index ov)\<rparr>)
        })
   }"

definition overlay_intern :: "CompactDiffOverlay \<Rightarrow> bytes \<Rightarrow> (osc_error + u32) \<times> CompactDiffOverlay" where
  "overlay_intern ov s = (case intern (ov_interner ov) s of (r, t) \<Rightarrow> (r, ov\<lparr>ov_interner := t\<rparr>))"

section \<open>Version floors as maxima\<close>

definition opt_max :: "i32 option \<Rightarrow> i32 option \<Rightarrow> i32 option" where
  "opt_max a b = (case (a, b) of (Some x, Some y) \<Rightarrow> Some (smax x y) | (Some x, None) \<Rightarrow> Some x | (None, y) \<Rightarrow> y)"

lemma smax_eq_iff: "smax a b = c \<longleftrightarrow> max (sint a) (sint b) = sint (c :: i32)"
  by (simp add: sint_eq_iff [symmetric])

lemma opt_max_None [simp]: "opt_max None a = a" "opt_max a None = a"
  by (simp_all add: opt_max_def split: option.splits)

lemma opt_max_Some [simp]: "opt_max (Some a) (Some b) = Some (smax a b)"
  by (simp add: opt_max_def)

lemma opt_max_commute: "opt_max a b = opt_max b a"
  by (cases a; cases b) (auto simp: smax_eq_iff)

lemma opt_max_assoc: "opt_max (opt_max a b) c = opt_max a (opt_max b c)"
  by (cases a; cases b; cases c) (auto simp: smax_eq_iff)

lemma opt_max_left_commute: "opt_max a (opt_max b c) = opt_max b (opt_max a c)"
  by (metis opt_max_assoc opt_max_commute)

lemma opt_max_idem [simp]: "opt_max a a = a" "opt_max a (opt_max a b) = opt_max a b"
  by (cases a; cases b; auto simp: smax_eq_iff)+

lemmas opt_max_ac = opt_max_assoc opt_max_commute opt_max_left_commute

lemma raise_opt_max: "raise (VersionFloor f) c = VersionFloor (opt_max f c)"
  by (cases c; cases f) simp_all

text \<open>An admitted claim is the new maximum.\<close>

lemma admit_max: "admit (VersionFloor (opt_max live dead)) (Some c) = Inr () \<Longrightarrow> opt_max (opt_max live dead) (Some c) = opt_max (Some c) dead"
  by (cases live; cases dead) (auto simp: smax_eq_iff signed_simps split: if_splits)

lemma map_of_raise_floor:
  "map_of (raise_floor floors i carried m) j =
    (if j = i then opt_max (map_of floors i) (opt_max carried (version_claim m)) else map_of floors j)"
  by (auto simp: raise_floor_def Let_def update_conv' split: option.splits)

section \<open>One kind at a time\<close>

record Cell =
  c_arena :: bytes
  c_index :: "(i64 \<times> nat) list"
  c_deleted :: "i64 list"
  c_floors :: "(i64 \<times> i32) list"

definition cell :: "CompactDiffOverlay \<Rightarrow> ElementKind \<Rightarrow> Cell" where
  "cell ov k = (case k of
     Node \<Rightarrow> \<lparr>c_arena = node_arena ov, c_index = node_index ov, c_deleted = deleted_nodes ov, c_floors = node_version_floors ov\<rparr>
   | Way \<Rightarrow> \<lparr>c_arena = way_arena ov, c_index = way_index ov, c_deleted = deleted_ways ov, c_floors = way_version_floors ov\<rparr>
   | Relation \<Rightarrow> \<lparr>c_arena = relation_arena ov, c_index = relation_index ov, c_deleted = deleted_relations ov,
       c_floors = relation_version_floors ov\<rparr>)"

definition put_cell :: "CompactDiffOverlay \<Rightarrow> ElementKind \<Rightarrow> Cell \<Rightarrow> CompactDiffOverlay" where
  "put_cell ov k c = (case k of
     Node \<Rightarrow> ov\<lparr>node_arena := c_arena c, node_index := c_index c, deleted_nodes := c_deleted c, node_version_floors := c_floors c\<rparr>
   | Way \<Rightarrow> ov\<lparr>way_arena := c_arena c, way_index := c_index c, deleted_ways := c_deleted c, way_version_floors := c_floors c\<rparr>
   | Relation \<Rightarrow> ov\<lparr>relation_arena := c_arena c, relation_index := c_index c, deleted_relations := c_deleted c,
       relation_version_floors := c_floors c\<rparr>)"

lemma cell_put [simp]: "cell (put_cell ov k c) k' = (if k' = k then c else cell ov k')"
  by (cases k; cases k') (simp_all add: cell_def put_cell_def)

lemma put_cell_rest [simp]: "ov_interner (put_cell ov k c) = ov_interner ov" "ov_allow (put_cell ov k c) = ov_allow ov"
  by (cases k; simp add: put_cell_def)+

lemma put_cell_same [simp]: "put_cell ov k (cell ov k) = ov"
  by (cases k) (simp_all add: put_cell_def cell_def)

lemma put_put_cell [simp]: "put_cell (put_cell ov k c) k d = put_cell ov k d"
  by (cases k) (simp_all add: put_cell_def)

lemma cell_intern [simp]: "cell (ov\<lparr>ov_interner := t\<rparr>) k = cell ov k"
  by (cases k) (simp_all add: cell_def)

definition meta_off :: "ElementKind \<Rightarrow> nat" where
  "meta_off k = (case k of Node \<Rightarrow> NODE_META_OFF | Way \<Rightarrow> WAY_META_OFF | Relation \<Rightarrow> RELATION_META_OFF)"

definition store :: "CompactDiffOverlay \<Rightarrow> ElementKind \<Rightarrow> KindStore" where
  "store ov k = \<lparr>kst_arena = c_arena (cell ov k), kst_index = c_index (cell ov k), kst_floors = c_floors (cell ov k),
     kst_meta_off = meta_off k\<rparr>"

lemma store_kinds: "node_store ov = store ov Node" "way_store ov = store ov Way" "relation_store ov = store ov Relation"
  by (simp_all add: node_store_def way_store_def relation_store_def store_def cell_def meta_off_def)

definition push_gate :: "CompactDiffOverlay \<Rightarrow> ElementKind \<Rightarrow> i64 \<Rightarrow> ArenaMeta \<Rightarrow> ((osc_error + unit) \<times> CompactDiffOverlay) option" where
  "push_gate ov k i m =
     (case version_claim m of
        Some claim \<Rightarrow> do { r \<leftarrow> check_version_advance ov k i (store ov k) claim; Some (r, ov) }
      | None \<Rightarrow>
          if \<not> ov_allow ov
          then do {
            carried \<leftarrow> stored_version (store ov k) i;
            Some (Inr (), put_cell ov k ((cell ov k)\<lparr>c_floors := raise_floor (c_floors (cell ov k)) i carried m\<rparr>))
          }
          else Some (Inr (), ov))"

definition push_with ::
    "(bytes \<Rightarrow> (osc_error + nat) \<times> bytes) \<Rightarrow> CompactDiffOverlay \<Rightarrow> ElementKind \<Rightarrow> i64 \<Rightarrow> ArenaMeta \<Rightarrow>
      ((osc_error + unit) \<times> CompactDiffOverlay) option" where
  "push_with app ov k i m = do {
     (gate, ov) \<leftarrow> push_gate ov k i m;
     Some (case gate of
             Inl e \<Rightarrow> (Inl e, ov)
           | Inr _ \<Rightarrow>
               (case app (c_arena (cell ov k)) of
                  (Inl e, arena) \<Rightarrow> (Inl e, put_cell ov k ((cell ov k)\<lparr>c_arena := arena\<rparr>))
                | (Inr offset, arena) \<Rightarrow>
                    (Inr (), put_cell ov k ((cell ov k)\<lparr>c_arena := arena, c_index := AList.update i offset (c_index (cell ov k)),
                       c_deleted := removeAll i (c_deleted (cell ov k))\<rparr>))))
   }"

lemma push_kinds:
  "push_node ov i lat lon tags m = push_with (\<lambda>a. arena_append_node a i lat lon tags m) ov Node i m"
  "push_way ov i refs tags m = push_with (\<lambda>a. arena_append_way a i refs tags m) ov Way i m"
  "push_relation ov i members tags m = push_with (\<lambda>a. arena_append_relation a i members tags m) ov Relation i m"
  unfolding push_node_def push_way_def push_relation_def push_with_def push_gate_def store_kinds
  by (simp_all add: cell_def put_cell_def cong: option.case_cong sum.case_cong if_cong prod.case_cong)

definition delete_with :: "CompactDiffOverlay \<Rightarrow> ElementKind \<Rightarrow> i64 \<Rightarrow> ArenaMeta \<Rightarrow> ((osc_error + unit) \<times> CompactDiffOverlay) option" where
  "delete_with ov k i m = do {
     gate \<leftarrow> (case version_claim m of
        Some claim \<Rightarrow> check_version_advance ov k i (store ov k) claim
      | None \<Rightarrow> Some (Inr ()));
     (case gate of
        Inl e \<Rightarrow> Some (Inl e, ov)
      | Inr _ \<Rightarrow> do {
          carried \<leftarrow> stored_version (store ov k) i;
          Some (Inr (), put_cell ov k ((cell ov k)\<lparr>c_floors := raise_floor (c_floors (cell ov k)) i carried m,
            c_deleted := List.insert i (c_deleted (cell ov k)), c_index := AList.delete i (c_index (cell ov k))\<rparr>))
        })
   }"

lemma put_deleted:
  "ov\<lparr>node_version_floors := f, deleted_nodes := d, node_index := x\<rparr> = ov\<lparr>node_index := x, deleted_nodes := d, node_version_floors := f\<rparr>"
  "ov\<lparr>way_version_floors := f, deleted_ways := d, way_index := x\<rparr> = ov\<lparr>way_index := x, deleted_ways := d, way_version_floors := f\<rparr>"
  "ov\<lparr>relation_version_floors := f, deleted_relations := d, relation_index := x\<rparr> =
     ov\<lparr>relation_index := x, deleted_relations := d, relation_version_floors := f\<rparr>"
  by (cases ov; simp)+

lemma delete_kinds:
  "delete_node ov i m = delete_with ov Node i m"
  "delete_way ov i m = delete_with ov Way i m"
  "delete_relation ov i m = delete_with ov Relation i m"
  unfolding delete_node_def delete_way_def delete_relation_def delete_with_def store_kinds
  by (simp_all add: cell_def put_cell_def put_deleted cong: option.case_cong sum.case_cong)

section \<open>The abstract overlay\<close>

text \<open>
  Per object, the change that is final so far and the highest version claimed. A change
  either carries a content (create, modify) or removes the object.
\<close>

datatype Final = NoChange | Upsert Content | Removed

record ObjState =
  os_final :: Final
  os_floor :: "i32 option"

type_synonym AbsOverlay = "ElementKind \<Rightarrow> i64 \<Rightarrow> ObjState"

definition abs_new :: AbsOverlay where
  "abs_new k i = \<lparr>os_final = NoChange, os_floor = None\<rparr>"

definition abs_gate :: "string \<Rightarrow> bool \<Rightarrow> AbsOverlay \<Rightarrow> ElementKind \<Rightarrow> i64 \<Rightarrow> i32 option \<Rightarrow> osc_error + unit" where
  "abs_gate who allow s k i claim =
     (if allow then Inr ()
      else case (os_floor (s k i), claim) of
        (Some fl, Some c) \<Rightarrow> if c <s fl then Inl (VersionRegression who k i c fl) else Inr ()
      | _ \<Rightarrow> Inr ())"

definition abs_put :: "AbsOverlay \<Rightarrow> ElementKind \<Rightarrow> i64 \<Rightarrow> i32 option \<Rightarrow> Final \<Rightarrow> AbsOverlay" where
  "abs_put s k i claim f = s(k := (s k)(i := \<lparr>os_final = f, os_floor = opt_max (os_floor (s k i)) claim\<rparr>))"

lemma abs_put_apply [simp]:
  "abs_put s k i claim f k' j = (if k' = k \<and> j = i then \<lparr>os_final = f, os_floor = opt_max (os_floor (s k i)) claim\<rparr> else s k' j)"
  by (simp add: abs_put_def)

section \<open>Representation\<close>

definition record_at :: "ElementKind \<Rightarrow> StringTable \<Rightarrow> bytes \<Rightarrow> nat \<Rightarrow> i64 \<Rightarrow> Content \<Rightarrow> i32 option \<Rightarrow> bool" where
  "record_at k st arena off i c claim \<longleftrightarrow> off \<le> length arena \<and>
     (\<forall>later st'. pool_extends st st' \<longrightarrow>
        read_element k \<lparr>cr_data = drop off (arena @ later), cr_strings = st'\<rparr> = Some (i, c) \<and>
        version_at (arena @ later) off (meta_off k) = Some claim)"

lemma record_at_later: "record_at k st arena off i c claim \<Longrightarrow> pool_extends st st' \<Longrightarrow> record_at k st' (arena @ x) off i c claim"
proof -
  assume r: "record_at k st arena off i c claim" and e: "pool_extends st st'"
  have "read_element k \<lparr>cr_data = drop off (arena @ x @ later), cr_strings = st''\<rparr> = Some (i, c) \<and>
      version_at (arena @ x @ later) off (meta_off k) = Some claim" if "pool_extends st' st''" for later st''
    using r pool_extends_trans [OF e that] unfolding record_at_def by blast
  then show ?thesis using r by (simp add: record_at_def)
qed

definition final_in :: "ElementKind \<Rightarrow> StringTable \<Rightarrow> Cell \<Rightarrow> i64 \<Rightarrow> Final \<Rightarrow> bool" where
  "final_in k st c i f =
     (case f of
        NoChange \<Rightarrow> map_of (c_index c) i = None \<and> i \<notin> set (c_deleted c)
      | Removed \<Rightarrow> map_of (c_index c) i = None \<and> i \<in> set (c_deleted c)
      | Upsert x \<Rightarrow> i \<notin> set (c_deleted c) \<and>
          (\<exists>off claim. map_of (c_index c) i = Some off \<and> record_at k st (c_arena c) off i x claim))"

lemma final_in_later:
  "final_in k st c i f \<Longrightarrow> pool_extends st st' \<Longrightarrow> final_in k st' (c\<lparr>c_arena := c_arena c @ x\<rparr>) i f"
  by (auto simp: final_in_def split: Final.splits intro: record_at_later)

lemma final_in_cong:
  "map_of (c_index c) i = map_of (c_index c') i \<Longrightarrow> i \<in> set (c_deleted c) \<longleftrightarrow> i \<in> set (c_deleted c') \<Longrightarrow> c_arena c = c_arena c' \<Longrightarrow>
    final_in k st c i f = final_in k st c' i f"
  by (cases f) (simp_all add: final_in_def)

definition live_version :: "ElementKind \<Rightarrow> Cell \<Rightarrow> i64 \<Rightarrow> i32 option option" where
  "live_version k c i =
     (case map_of (c_index c) i of None \<Rightarrow> Some None | Some off \<Rightarrow> version_at (c_arena c) off (meta_off k))"

definition cell_version :: "ElementKind \<Rightarrow> Cell \<Rightarrow> i64 \<Rightarrow> i32 option option" where
  "cell_version k c i = map_option (\<lambda>l. opt_max l (map_of (c_floors c) i)) (live_version k c i)"

lemma stored_version_store: "stored_version (store ov k) i = cell_version k (cell ov k) i"
  by (cases "live_version k (cell ov k) i")
    (auto simp: stored_version_def store_def cell_version_def live_version_def opt_max_def split: option.splits)

lemma live_version_final:
  assumes "final_in k st c i f"
  obtains l where "live_version k c i = Some l" "\<And>x. live_version k (c\<lparr>c_arena := c_arena c @ x\<rparr>) i = Some l"
proof (cases "map_of (c_index c) i")
  case None
  then show ?thesis using that [of None] by (simp add: live_version_def)
next
  case (Some off)
  with assms obtain x claim where "record_at k st (c_arena c) off i x claim"
    by (auto simp: final_in_def split: Final.splits)
  then have "version_at (c_arena c @ later) off (meta_off k) = Some claim" for later
    unfolding record_at_def by (metis pool_extends_refl)
  from this [of "[]"] this show ?thesis using that [of claim] Some by (simp add: live_version_def)
qed

definition overlay_inv :: "CompactDiffOverlay \<Rightarrow> bool" where
  "overlay_inv ov \<longleftrightarrow> interner_ok (ov_interner ov) \<and>
     (\<forall>k. distinct (map fst (c_index (cell ov k))) \<and> distinct (c_deleted (cell ov k)))"

definition represents :: "CompactDiffOverlay \<Rightarrow> AbsOverlay \<Rightarrow> bool" where
  "represents ov s \<longleftrightarrow> overlay_inv ov \<and>
     (\<forall>k i. final_in k (strings (ov_interner ov)) (cell ov k) i (os_final (s k i)) \<and>
        (\<not> ov_allow ov \<longrightarrow> cell_version k (cell ov k) i = Some (os_floor (s k i))))"

lemma represents_new: "represents CompactDiffOverlay_new abs_new"
proof -
  have "cell CompactDiffOverlay_new k = \<lparr>c_arena = [], c_index = [], c_deleted = [], c_floors = []\<rparr>" for k
    by (cases k) (simp_all add: cell_def CompactDiffOverlay_new_def)
  moreover have "ov_interner CompactDiffOverlay_new = StringInterner_new" by (simp add: CompactDiffOverlay_new_def)
  ultimately show ?thesis
    by (simp add: represents_def overlay_inv_def abs_new_def final_in_def cell_version_def live_version_def new_ok)
qed

lemma represents_allow: "represents CompactDiffOverlay_new abs_new \<Longrightarrow> represents (allow_version_regression CompactDiffOverlay_new True) abs_new"
proof -
  have "cell (allow_version_regression ov b) k = cell ov k" for ov b k
    by (cases k) (simp_all add: cell_def allow_version_regression_def)
  then show "represents CompactDiffOverlay_new abs_new \<Longrightarrow> ?thesis"
    by (simp add: represents_def overlay_inv_def allow_version_regression_def)
qed

lemma represents_intern:
  assumes "represents ov s" "utf8_valid x"
  shows "represents (snd (overlay_intern ov x)) s"
    "pool_extends (strings (ov_interner ov)) (strings (ov_interner (snd (overlay_intern ov x))))"
proof -
  obtain r t where t: "intern (ov_interner ov) x = (r, t)" by fastforce
  have ok: "interner_ok (ov_interner ov)" using assms by (simp add: represents_def overlay_inv_def)
  have ext: "pool_extends (strings (ov_interner ov)) (strings t)"
    using pool.add_keeps [OF ok assms(2)] t by (simp add: pool_extends_def)
  then show "pool_extends (strings (ov_interner ov)) (strings (ov_interner (snd (overlay_intern ov x))))"
    by (simp add: overlay_intern_def t)
  have "final_in k (strings t) (cell ov k) i (os_final (s k i))" for k i
    using final_in_later [OF _ ext, of k "cell ov k" i "os_final (s k i)" "[]"] assms(1) by (simp add: represents_def)
  moreover have "interner_ok t" using pool.add_ok [OF ok assms(2)] t by simp
  ultimately show "represents (snd (overlay_intern ov x)) s"
    using assms(1) by (simp add: represents_def overlay_inv_def overlay_intern_def t)
qed

section \<open>Refinement\<close>

lemma check_gate:
  assumes "represents ov s"
  shows "check_version_advance ov k i (store ov k) c = Some (abs_gate ''OSC change overlay'' (ov_allow ov) s k i (Some c))"
proof (cases "ov_allow ov")
  case False
  then have "stored_version (store ov k) i = Some (os_floor (s k i))"
    using assms by (simp add: stored_version_store represents_def)
  with False show ?thesis
    by (cases "os_floor (s k i)") (auto simp: check_version_advance_def abs_gate_def VersionFloor_new_def)
qed (simp add: check_version_advance_def abs_gate_def)

text \<open>Replacing one kind's cell by one that differs at a single object.\<close>

lemma represents_put:
  assumes r: "represents ov s" and "distinct (map fst (c_index c))" "distinct (c_deleted c)"
    and i: "final_in k (strings (ov_interner ov)) c i f" "\<not> ov_allow ov \<Longrightarrow> cell_version k c i = Some fl"
    and other: "\<And>j. j \<noteq> i \<Longrightarrow> final_in k (strings (ov_interner ov)) c j (os_final (s k j))"
      "\<And>j. j \<noteq> i \<Longrightarrow> cell_version k c j = cell_version k (cell ov k) j"
  shows "represents (put_cell ov k c) (s(k := (s k)(i := \<lparr>os_final = f, os_floor = fl\<rparr>)))"
proof -
  have "final_in k' (strings (ov_interner ov)) (cell ov k') j (os_final (s k' j))"
    "\<not> ov_allow ov \<Longrightarrow> cell_version k' (cell ov k') j = Some (os_floor (s k' j))" for k' j
    using r by (auto simp: represents_def)
  with assms show ?thesis by (auto simp: represents_def overlay_inv_def)
qed

lemma cell_version_same:
  "map_of (c_index c) j = map_of (c_index c') j \<Longrightarrow> map_of (c_floors c) j = map_of (c_floors c') j \<Longrightarrow> c_arena c = c_arena c' \<Longrightarrow>
    cell_version k c j = cell_version k c' j"
  by (simp add: cell_version_def live_version_def split: option.split)

lemma represents_floor:
  assumes "represents ov s" "\<not> ov_allow ov" "live_version k (cell ov k) i = Some l"
  shows "os_floor (s k i) = opt_max l (map_of (c_floors (cell ov k)) i)"
proof -
  have "cell_version k (cell ov k) i = Some (os_floor (s k i))" using assms(1,2) unfolding represents_def by blast
  then show ?thesis using assms(3) by (simp add: cell_version_def)
qed

lemma cell_version_later:
  "final_in k st c j f \<Longrightarrow> cell_version k (c\<lparr>c_arena := c_arena c @ x\<rparr>) j = cell_version k c j"
  by (erule live_version_final [of k st c j f]) (simp add: cell_version_def)

lemma represents_arena:
  assumes "represents ov s"
  shows "represents (put_cell ov k ((cell ov k)\<lparr>c_arena := c_arena (cell ov k) @ x\<rparr>)) s"
proof -
  have f: "final_in k (strings (ov_interner ov)) (cell ov k) j (os_final (s k j))" for j using assms by (simp add: represents_def)
  from final_in_later [OF f pool_extends_refl] cell_version_later [OF f] assms show ?thesis
    by (auto simp: represents_def overlay_inv_def)
qed

text \<open>Passing the gate leaves the meaning of the overlay as it was.\<close>

lemma push_gate_spec:
  assumes "represents ov s"
  obtains r ov' where "push_gate ov k i m = Some (r, ov')" "r = abs_gate ''OSC change overlay'' (ov_allow ov) s k i (version_claim m)"
    "represents ov' s" "ov_interner ov' = ov_interner ov" "ov_allow ov' = ov_allow ov"
    "version_claim m = None \<Longrightarrow> \<not> ov_allow ov \<Longrightarrow> map_of (c_floors (cell ov' k)) i = os_floor (s k i)"
proof (cases "version_claim m")
  case (Some c)
  then have "push_gate ov k i m = Some (abs_gate ''OSC change overlay'' (ov_allow ov) s k i (Some c), ov)"
    by (simp add: push_gate_def check_gate [OF assms])
  then show ?thesis by (rule that) (use Some assms in simp_all)
next
  case None
  show ?thesis
  proof (cases "ov_allow ov")
    case True
    then have "push_gate ov k i m = Some (Inr (), ov)" using None by (simp add: push_gate_def)
    then show ?thesis by (rule that) (use True assms in \<open>simp_all add: abs_gate_def\<close>)
  next
    case False
    let ?c = "cell ov k"
    have v: "cell_version k ?c i = Some (os_floor (s k i))" and f: "\<And>j. final_in k (strings (ov_interner ov)) ?c j (os_final (s k j))"
      using assms False by (auto simp: represents_def)
    let ?c' = "?c\<lparr>c_floors := raise_floor (c_floors ?c) i (os_floor (s k i)) m\<rparr>"
    obtain l where l: "live_version k ?c i = Some l" using live_version_final [OF f] by metis
    have fl: "os_floor (s k i) = opt_max l (map_of (c_floors ?c) i)" using v l by (simp add: cell_version_def)
    then have m': "map_of (c_floors ?c') i = os_floor (s k i)"
      by (simp add: map_of_raise_floor None opt_max_ac)
    have "live_version k ?c' i = Some l" using l by (simp add: live_version_def cong: option.case_cong)
    then have v': "cell_version k ?c' i = Some (os_floor (s k i))"
      by (simp only: cell_version_def m' option.map) (simp add: fl opt_max_ac)
    have "represents (put_cell ov k ?c') (s(k := (s k)(i := \<lparr>os_final = os_final (s k i), os_floor = os_floor (s k i)\<rparr>)))"
    proof (rule represents_put [OF assms])
      show "distinct (map fst (c_index ?c'))" "distinct (c_deleted ?c')" using assms by (simp_all add: represents_def overlay_inv_def)
      show "cell_version k ?c' i = Some (os_floor (s k i))" by (rule v')
      have "final_in k (strings (ov_interner ov)) ?c' j (os_final (s k j))" for j
        using f [of j] by (subst final_in_cong [of _ _ ?c]) simp_all
      then show "final_in k (strings (ov_interner ov)) ?c' i (os_final (s k i))"
        "\<And>j. final_in k (strings (ov_interner ov)) ?c' j (os_final (s k j))" by blast+
      show "cell_version k ?c' j = cell_version k ?c j" if "j \<noteq> i" for j
        using that by (intro cell_version_same) (simp_all add: map_of_raise_floor)
    qed
    moreover have "\<lparr>os_final = os_final (s k i), os_floor = os_floor (s k i)\<rparr> = s k i" by (cases "s k i") simp
    ultimately have "represents (put_cell ov k ?c') s" by simp
    moreover have "push_gate ov k i m = Some (Inr (), put_cell ov k ?c')"
      using None False v by (simp add: push_gate_def stored_version_store)
    ultimately show ?thesis
      by (intro that [of "Inr ()" "put_cell ov k ?c'"]) (use None m' in \<open>auto simp: abs_gate_def split: option.splits\<close>)
  qed
qed

text \<open>What an append must do: write, at the end, a record that reads as \<open>x\<close>.\<close>

definition writes :: "ElementKind \<Rightarrow> StringTable \<Rightarrow> (bytes \<Rightarrow> (osc_error + nat) \<times> bytes) \<Rightarrow> i64 \<Rightarrow> Content \<Rightarrow> i32 option \<Rightarrow> bool" where
  "writes k st app i x claim \<longleftrightarrow> (\<forall>a. (\<exists>y. snd (app a) = a @ y) \<and>
     (\<forall>off. fst (app a) = Inr off \<longrightarrow> record_at k st (snd (app a)) off i x claim))"

lemma push_with_spec:
  assumes r: "represents ov s" and w: "writes k (strings (ov_interner ov)) app i x (version_claim m)"
  obtains res ov' where "push_with app ov k i m = Some (res, ov')" "ov_interner ov' = ov_interner ov" "ov_allow ov' = ov_allow ov"
    "res = Inr () \<Longrightarrow> represents ov' (abs_put s k i (version_claim m) (Upsert x))"
    "\<And>e. res = Inl e \<Longrightarrow> represents ov' s"
    "\<And>e. abs_gate ''OSC change overlay'' (ov_allow ov) s k i (version_claim m) = Inl e \<Longrightarrow> res = Inl e"
    "\<And>e. res = Inl e \<Longrightarrow> abs_gate ''OSC change overlay'' (ov_allow ov) s k i (version_claim m) = Inl e \<or> (\<exists>a. fst (app a) = Inl e)"
proof (rule push_gate_spec [OF r, of k i m])
  fix g ov1
  let ?st = "strings (ov_interner ov)" and ?claim = "version_claim m"
  assume g: "push_gate ov k i m = Some (g, ov1)" "g = abs_gate ''OSC change overlay'' (ov_allow ov) s k i ?claim"
    and r1: "represents ov1 s" and same: "ov_interner ov1 = ov_interner ov" "ov_allow ov1 = ov_allow ov"
    and fl: "?claim = None \<Longrightarrow> \<not> ov_allow ov \<Longrightarrow> map_of (c_floors (cell ov1 k)) i = os_floor (s k i)"
  let ?c = "cell ov1 k"
  obtain y where y: "snd (app (c_arena ?c)) = c_arena ?c @ y" using w by (auto simp: writes_def)
  have f: "final_in k ?st ?c j (os_final (s k j))" for j using r1 same by (simp add: represents_def)
  show thesis
  proof (cases g)
    case (Inl e)
    then have "push_with app ov k i m = Some (Inl e, ov1)" using g(1) by (simp add: push_with_def)
    then show thesis by (rule that) (use Inl g(2) r1 same in auto)
  next
    case gate: (Inr u)
    show thesis
    proof (cases "fst (app (c_arena ?c))")
      case (Inl e)
      then have "app (c_arena ?c) = (Inl e, c_arena ?c @ y)" using y by (metis prod.collapse)
      then have "push_with app ov k i m = Some (Inl e, put_cell ov1 k (?c\<lparr>c_arena := c_arena ?c @ y\<rparr>))"
        using g(1) gate by (simp add: push_with_def)
      then show thesis by (rule that) (use represents_arena [OF r1] same g(2) gate Inl in auto)
    next
      case (Inr off)
      let ?c' = "?c\<lparr>c_arena := c_arena ?c @ y, c_index := AList.update i off (c_index ?c), c_deleted := removeAll i (c_deleted ?c)\<rparr>"
      have "app (c_arena ?c) = (Inr off, c_arena ?c @ y)" using y Inr by (metis prod.collapse)
      then have p: "push_with app ov k i m = Some (Inr (), put_cell ov1 k ?c')"
        using g(1) gate by (simp add: push_with_def)
      have rec: "record_at k ?st (c_arena ?c @ y) off i x ?claim" using w Inr y unfolding writes_def by metis
      have "version_at (c_arena ?c @ y) off (meta_off k) = Some ?claim"
        using rec unfolding record_at_def by (metis append_Nil2 pool_extends_refl)
      then have live: "live_version k ?c' i = Some ?claim" by (simp add: live_version_def update_conv')
      have "cell_version k ?c' i = Some (opt_max (os_floor (s k i)) ?claim)" if "\<not> ov_allow ov"
      proof (cases ?claim)
        case None
        then show ?thesis using fl [OF None that] live by (simp add: cell_version_def)
      next
        case (Some cl)
        obtain l where l: "live_version k ?c i = Some l" using live_version_final [OF f] by metis
        have "os_floor (s k i) = opt_max l (map_of (c_floors ?c) i)"
          using represents_floor [OF r1 _ l] that same by simp
        moreover from this have "admit (VersionFloor (opt_max l (map_of (c_floors ?c) i))) (Some cl) = Inr ()"
          using g(2) gate that Some by (auto simp: abs_gate_def split: option.splits if_splits)
        ultimately show ?thesis using live Some by (simp add: cell_version_def admit_max)
      qed
      moreover have "final_in k ?st ?c' i (Upsert x)" using rec by (auto simp: final_in_def update_conv')
      moreover have "final_in k ?st ?c' j (os_final (s k j))" if "j \<noteq> i" for j
        using final_in_later [OF f [of j] pool_extends_refl, of y] that
        by (subst final_in_cong [of _ _ "?c\<lparr>c_arena := c_arena ?c @ y\<rparr>"]) (simp_all add: update_conv')
      moreover have "cell_version k ?c' j = cell_version k ?c j" if "j \<noteq> i" for j
        using cell_version_later [OF f [of j], of y] that
        by (subst cell_version_same [of _ _ "?c\<lparr>c_arena := c_arena ?c @ y\<rparr>"]) (simp_all add: update_conv')
      moreover have "distinct (map fst (c_index ?c'))" "distinct (c_deleted ?c')"
        using r1 by (auto simp: represents_def overlay_inv_def distinct_update distinct_removeAll)
      ultimately have "represents (put_cell ov1 k ?c') (s(k := (s k)(i := \<lparr>os_final = Upsert x, os_floor = opt_max (os_floor (s k i)) ?claim\<rparr>)))"
        using same by (intro represents_put [OF r1]) simp_all
      then have "represents (put_cell ov1 k ?c') (abs_put s k i ?claim (Upsert x))" by (simp add: abs_put_def)
      with p show thesis by (intro that [of "Inr ()" "put_cell ov1 k ?c'"]) (use same g(2) gate in simp_all)
    qed
  qed
qed

lemma delete_with_spec:
  assumes r: "represents ov s"
  obtains ov' where "delete_with ov k i m = Some (abs_gate ''OSC change overlay'' (ov_allow ov) s k i (version_claim m), ov')"
    "ov_interner ov' = ov_interner ov" "ov_allow ov' = ov_allow ov"
    "abs_gate ''OSC change overlay'' (ov_allow ov) s k i (version_claim m) = Inr () \<Longrightarrow>
      represents ov' (abs_put s k i (version_claim m) Removed)"
    "\<And>e. abs_gate ''OSC change overlay'' (ov_allow ov) s k i (version_claim m) = Inl e \<Longrightarrow> ov' = ov"
proof -
  let ?st = "strings (ov_interner ov)" and ?claim = "version_claim m" and ?c = "cell ov k"
  let ?g = "abs_gate ''OSC change overlay'' (ov_allow ov) s k i ?claim"
  have gate: "(case ?claim of Some claim \<Rightarrow> check_version_advance ov k i (store ov k) claim | None \<Rightarrow> Some (Inr ())) = Some ?g"
    using check_gate [OF r] by (auto simp: abs_gate_def split: option.splits)
  have f: "final_in k ?st ?c j (os_final (s k j))" for j using r by (simp add: represents_def)
  obtain l where l: "live_version k ?c i = Some l" using live_version_final [OF f] by metis
  show thesis
  proof (cases ?g)
    case (Inl e)
    then show thesis using that [of ov] gate by (simp add: delete_with_def)
  next
    case (Inr u)
    let ?v = "opt_max l (map_of (c_floors ?c) i)"
    let ?c' = "?c\<lparr>c_floors := raise_floor (c_floors ?c) i ?v m, c_deleted := List.insert i (c_deleted ?c), c_index := AList.delete i (c_index ?c)\<rparr>"
    have p: "delete_with ov k i m = Some (?g, put_cell ov k ?c')"
      using gate l Inr by (simp add: delete_with_def stored_version_store cell_version_def)
    have "cell_version k ?c' i = Some (opt_max (os_floor (s k i)) ?claim)" if "\<not> ov_allow ov"
    proof -
      have "os_floor (s k i) = ?v" by (rule represents_floor [OF r that l])
      then show ?thesis
        by (simp add: cell_version_def live_version_def delete_conv' map_of_raise_floor opt_max_ac)
    qed
    moreover have "final_in k ?st ?c' i Removed" by (simp add: final_in_def delete_conv')
    moreover have "final_in k ?st ?c' j (os_final (s k j))" if "j \<noteq> i" for j
      using f [of j] that by (subst final_in_cong [of _ _ ?c]) (simp_all add: delete_conv')
    moreover have "cell_version k ?c' j = cell_version k ?c j" if "j \<noteq> i" for j
      using that by (intro cell_version_same) (simp_all add: delete_conv' map_of_raise_floor)
    moreover have "distinct (map fst (c_index ?c'))" "distinct (c_deleted ?c')"
      using r by (auto simp: represents_def overlay_inv_def distinct_delete)
    ultimately have "represents (put_cell ov k ?c') (s(k := (s k)(i := \<lparr>os_final = Removed, os_floor = opt_max (os_floor (s k i)) ?claim\<rparr>)))"
      by (intro represents_put [OF r]) simp_all
    then have "represents (put_cell ov k ?c') (abs_put s k i ?claim Removed)" by (simp add: abs_put_def)
    then show thesis using that [of "put_cell ov k ?c'"] p Inr by auto
  qed
qed

text \<open>The three appends write records that read as their arguments do.\<close>

lemma record_written:
  assumes "\<And>later st'. pool_extends st st' \<Longrightarrow> read_element k \<lparr>cr_data = rec @ later, cr_strings = st'\<rparr> = Some (i, x)"
    "\<And>later. version_at (rec @ later) 0 (meta_off k) = Some claim"
  shows "record_at k st (a @ rec) (length a) i x claim"
  using assms version_at_skip [of a] by (simp add: record_at_def)

lemma node_writes:
  assumes "list_all2 (tag_reads st) tags kvs" "meta_view st m = Some md"
  shows "writes Node st (\<lambda>a. arena_append_node a i lat lon tags m) i (NodeContent lat lon kvs md) (version_claim m)"
  unfolding writes_def
proof (intro allI conjI impI)
  fix a off
  show "\<exists>y. snd (arena_append_node a i lat lon tags m) = a @ y" by (rule append_prefix)
  assume "fst (arena_append_node a i lat lon tags m) = Inr off"
  then have w: "arena_append_node a i lat lon tags m = (Inr off, snd (arena_append_node a i lat lon tags m))" by (metis prod.collapse)
  note n = append_node_Inr [OF w]
  have "record_at Node st (a @ node_bytes i lat lon tags m) (length a) i (NodeContent lat lon kvs md) (version_claim m)"
    by (rule record_written) (use n views_extend assms in \<open>auto intro!: read_node simp: meta_off_def record_version\<close>)
  with n show "record_at Node st (snd (arena_append_node a i lat lon tags m)) off i (NodeContent lat lon kvs md) (version_claim m)"
    by simp
qed

lemma way_writes:
  assumes "list_all2 (tag_reads st) tags kvs" "meta_view st m = Some md"
  shows "writes Way st (\<lambda>a. arena_append_way a i refs tags m) i (WayContent refs kvs md) (version_claim m)"
  unfolding writes_def
proof (intro allI conjI impI)
  fix a off
  show "\<exists>y. snd (arena_append_way a i refs tags m) = a @ y" by (rule append_prefix)
  assume "fst (arena_append_way a i refs tags m) = Inr off"
  then have w: "arena_append_way a i refs tags m = (Inr off, snd (arena_append_way a i refs tags m))" by (metis prod.collapse)
  note n = append_way_Inr [OF w]
  have "record_at Way st (a @ way_bytes i refs tags m) (length a) i (WayContent refs kvs md) (version_claim m)"
    by (rule record_written) (use n views_extend assms in \<open>auto intro!: read_way simp: meta_off_def record_version\<close>)
  with n show "record_at Way st (snd (arena_append_way a i refs tags m)) off i (WayContent refs kvs md) (version_claim m)"
    by simp
qed

lemma relation_writes:
  assumes "list_all2 (member_reads st) members ms" "list_all2 (tag_reads st) tags kvs" "meta_view st m = Some md"
  shows "writes Relation st (\<lambda>a. arena_append_relation a i members tags m) i (RelationContent ms kvs md) (version_claim m)"
  unfolding writes_def
proof (intro allI conjI impI)
  fix a off
  show "\<exists>y. snd (arena_append_relation a i members tags m) = a @ y" by (rule append_prefix)
  assume "fst (arena_append_relation a i members tags m) = Inr off"
  then have w: "arena_append_relation a i members tags m = (Inr off, snd (arena_append_relation a i members tags m))"
    by (metis prod.collapse)
  note n = append_relation_Inr [OF w]
  have "record_at Relation st (a @ relation_bytes i members tags m) (length a) i (RelationContent ms kvs md) (version_claim m)"
    by (rule record_written) (use n views_extend assms in \<open>auto intro!: read_relation simp: meta_off_def record_version\<close>)
  with n show "record_at Relation st (snd (arena_append_relation a i members tags m)) off i (RelationContent ms kvs md) (version_claim m)"
    by simp
qed

section \<open>The sorted tables\<close>

definition SortedDiff_element :: "SortedDiff \<Rightarrow> ElementKind \<Rightarrow> nat \<Rightarrow> CompactRef option" where
  "SortedDiff_element d k n = (case k of Node \<Rightarrow> SortedDiff_node d n | Way \<Rightarrow> SortedDiff_way d n | Relation \<Rightarrow> SortedDiff_relation d n)"

lemma diff_kind_into: "diff_kind (into_sorted ov) k = KindTable_build (c_arena (cell ov k)) (c_index (cell ov k)) (c_deleted (cell ov k))"
  by (cases k) (simp_all add: diff_kind_def into_sorted_def cell_def)

lemma element_into:
  "SortedDiff_element (into_sorted ov) k n =
    map_option (\<lambda>data. \<lparr>cr_data = data, cr_strings = strings (ov_interner ov)\<rparr>) (KindTable_record (diff_kind (into_sorted ov) k) n)"
  by (cases k) (auto simp: SortedDiff_element_def SortedDiff_node_def SortedDiff_way_def SortedDiff_relation_def
      diff_kind_def into_sorted_def into_strings_def split: option.splits bind_splits)

lemma represents_sorted:
  assumes r: "represents ov s"
  shows "diff_wf (into_sorted ov)"
    "set (upserts (into_sorted ov) k) = {i. \<exists>x. os_final (s k i) = Upsert x}"
    "set (deleted (into_sorted ov) k) = {i. os_final (s k i) = Removed}"
    "n < length (upserts (into_sorted ov) k) \<Longrightarrow> os_final (s k (upserts (into_sorted ov) k ! n)) = Upsert x \<Longrightarrow>
      (\<exists>e. SortedDiff_element (into_sorted ov) k n = Some e \<and> read_element k e = Some (upserts (into_sorted ov) k ! n, x))"
proof -
  let ?st = "strings (ov_interner ov)"
  have f: "final_in k ?st (cell ov k) i (os_final (s k i))" for k i using r by (simp add: represents_def)
  have dis: "distinct (map fst (c_index (cell ov k)))" "distinct (c_deleted (cell ov k))" for k
    using r by (simp_all add: represents_def overlay_inv_def)
  have disj: "fst ` set (c_index (cell ov k)) \<inter> set (c_deleted (cell ov k)) = {}" for k
  proof -
    have "i \<notin> set (c_deleted (cell ov k))" if "map_of (c_index (cell ov k)) i \<noteq> None" for i
      using f [of k i] that by (auto simp: final_in_def split: Final.splits)
    then show ?thesis by (force simp: map_of_eq_None_iff)
  qed
  have b: "table_wf (diff_kind (into_sorted ov) k)"
    "set (zip (kt_ids (diff_kind (into_sorted ov) k)) (kt_offsets (diff_kind (into_sorted ov) k))) = set (c_index (cell ov k))"
    "set (kt_deleted (diff_kind (into_sorted ov) k)) = set (c_deleted (cell ov k))" for k
    unfolding diff_kind_into by (rule build_wf [OF dis disj])+
  show "diff_wf (into_sorted ov)" using b(1) by (simp add: diff_wf_def)
  let ?t = "diff_kind (into_sorted ov) k"
  have len: "length (kt_offsets ?t) = length (kt_ids ?t)" using b(1) [of k] by (simp add: table_wf_def)
  have ids: "set (kt_ids ?t) = fst ` set (c_index (cell ov k))"
    using b(2) [of k] len by (metis map_fst_zip set_map)
  show "set (upserts (into_sorted ov) k) = {i. \<exists>x. os_final (s k i) = Upsert x}"
  proof -
    have "map_of (c_index (cell ov k)) i \<noteq> None \<longleftrightarrow> (\<exists>x. os_final (s k i) = Upsert x)" for i
      using f [of k i] by (auto simp: final_in_def split: Final.splits)
    then show ?thesis unfolding upserts_def ids by (auto simp: map_of_eq_None_iff)
  qed
  show "set (deleted (into_sorted ov) k) = {i. os_final (s k i) = Removed}"
  proof -
    have "i \<in> set (c_deleted (cell ov k)) \<longleftrightarrow> os_final (s k i) = Removed" for i
      using f [of k i] by (auto simp: final_in_def split: Final.splits)
    then show ?thesis unfolding deleted_def b(3) by auto
  qed
  assume n: "n < length (upserts (into_sorted ov) k)" and x: "os_final (s k (upserts (into_sorted ov) k ! n)) = Upsert x"
  let ?i = "kt_ids ?t ! n" and ?off = "kt_offsets ?t ! n"
  have "(?i, ?off) \<in> set (zip (kt_ids ?t) (kt_offsets ?t))"
    using n len by (auto simp: upserts_def set_zip)
  then have off: "map_of (c_index (cell ov k)) ?i = Some ?off" using b(2) [of k] dis(1) [of k] by simp
  obtain claim where rec: "record_at k ?st (c_arena (cell ov k)) ?off ?i x claim"
    using f [of k ?i] x off by (auto simp: final_in_def upserts_def)
  have ar: "kt_arena ?t = c_arena (cell ov k)" by (simp add: diff_kind_into KindTable_build_def Let_def)
  have le: "?off \<le> length (c_arena (cell ov k))" using rec by (simp add: record_at_def)
  have "read_element k \<lparr>cr_data = drop ?off (c_arena (cell ov k)), cr_strings = ?st\<rparr> = Some (?i, x)"
    using rec unfolding record_at_def by (metis append_Nil2 pool_extends_refl)
  moreover have "KindTable_record ?t n = Some (drop ?off (c_arena (cell ov k)))"
    using n len le ar by (simp add: KindTable_record_def upserts_def)
  ultimately show "\<exists>e. SortedDiff_element (into_sorted ov) k n = Some e \<and> read_element k e = Some (upserts (into_sorted ov) k ! n, x)"
    by (simp add: element_into upserts_def)
qed

end
