(* ===== verification/Timestamp.thy ===== *)
theory Timestamp
  imports Prelude
begin

text \<open>
  The timestamps of OSM XML, \<open>src/src/commands/mod.rs\<close>: \<open>format_epoch_secs\<close> writes a Unix time
  as \<open>YYYY-MM-DDTHH:MM:SSZ\<close>, \<open>parse_rfc3339_utc\<close> reads it back; both convert between day
  numbers and civil dates in closed form. A Rust string is a list of its UTF-8 bytes, each a
  \<open>char\<close>; integer parsing and zero-padded printing are the standard library's. Shown: parsing
  inverts formatting on every second of the years 0 to 9999.
\<close>

section \<open>Integers as text\<close>

definition digit_value :: "char \<Rightarrow> int option" where
  "digit_value c = (let n = (of_char c :: nat) in if 48 \<le> n \<and> n \<le> 57 then Some (int (n - 48)) else None)"

fun digits_value :: "int \<Rightarrow> string \<Rightarrow> int option" where
  "digits_value acc [] = Some acc"
| "digits_value acc (c # cs) =
     (case digit_value c of None \<Rightarrow> None | Some d \<Rightarrow> digits_value (acc * 10 + d) cs)"

text \<open>\<open>str::parse\<close> of a signed integer of \<open>w\<close> bits: an optional sign, then at least one digit.\<close>

definition parse_signed :: "nat \<Rightarrow> string \<Rightarrow> int option" where
  "parse_signed w s =
     (let neg = (s \<noteq> [] \<and> hd s = CHR ''-'');
          ds = (if s \<noteq> [] \<and> (hd s = CHR ''-'' \<or> hd s = CHR ''+'') then tl s else s) in
      if ds = [] then None
      else case digits_value 0 ds of
             None \<Rightarrow> None
           | Some n \<Rightarrow>
               let v = (if neg then - n else n) in
               if - (2 ^ (w - 1)) \<le> v \<and> v < 2 ^ (w - 1) then Some v else None)"

definition digit_char :: "nat \<Rightarrow> char" where
  "digit_char n = char_of (48 + n)"

fun dec_digits :: "nat \<Rightarrow> string" where
  "dec_digits n = (if n < 10 then [digit_char n] else dec_digits (n div 10) @ [digit_char (n mod 10)])"

declare dec_digits.simps [simp del]

text \<open>\<open>{n:0w}\<close>: zero padding after the sign, which counts towards the width.\<close>

definition fmt_pad :: "nat \<Rightarrow> int \<Rightarrow> string" where
  "fmt_pad w n =
     (if n < 0 then CHR ''-'' # (let ds = dec_digits (nat (- n)) in replicate (w - 1 - length ds) (CHR ''0'') @ ds)
      else let ds = dec_digits (nat n) in replicate (w - length ds) (CHR ''0'') @ ds)"

section \<open>Definitions\<close>

text \<open>The day number's civil date: year, month, day.\<close>

definition civil_of_days :: "int \<Rightarrow> int \<times> int \<times> int" where
  "civil_of_days days =
     (let z = days + 719468;
          era = z div 146097;
          doe = z mod 146097;
          yoe = (doe - doe div 1460 + doe div 36524 - doe div 146096) div 365;
          y = yoe + era * 400;
          doy = doe - (365 * yoe + yoe div 4 - yoe div 100);
          mp = (5 * doy + 2) div 153;
          d = doy - (153 * mp + 2) div 5 + 1;
          m = (if mp < 10 then mp + 3 else mp - 9);
          y = (if m \<le> 2 then y + 1 else y)
      in (y, m, d))"

text \<open>\<open>None\<close> is the overflow of \<open>secs - day_secs\<close>, possible on the first day of the \<open>i64\<close> range only.\<close>

definition format_epoch_secs :: "i64 \<Rightarrow> string option" where
  "format_epoch_secs secs =
     (let day_secs = sint secs mod 86400 in
      if sint secs - day_secs < - (2 ^ 63) then None
      else let days = (sint secs - day_secs) div 86400;
               (y, m, d) = civil_of_days days;
               h = day_secs div 3600;
               mi = (day_secs mod 3600) div 60;
               s = day_secs mod 60
           in Some (fmt_pad 4 y @ ''-'' @ fmt_pad 2 m @ ''-'' @ fmt_pad 2 d @ ''T''
                @ fmt_pad 2 h @ '':'' @ fmt_pad 2 mi @ '':'' @ fmt_pad 2 s @ ''Z''))"

datatype TimestampError = TimestampError string

text \<open>Rust's division truncates; the operands here are written so that it agrees with \<open>div\<close>.\<close>

definition days_of_civil :: "int \<Rightarrow> int \<Rightarrow> int \<Rightarrow> int" where
  "days_of_civil year month day =
     (let y = year - (if month \<le> 2 then 1 else 0);
          era = (if 0 \<le> y then y div 400 else - ((399 - y) div 400));
          yoe = y - era * 400;
          mp = month + (if 2 < month then - 3 else 9);
          doy = (153 * mp + 2) div 5 + day - 1;
          doe = yoe * 365 + yoe div 4 - yoe div 100 + doy
      in era * 146097 + doe - 719468)"

definition max_day :: "int \<Rightarrow> int \<Rightarrow> int" where
  "max_day year month =
     (let leap = ((year mod 4 = 0 \<and> year mod 100 \<noteq> 0) \<or> year mod 400 = 0) in
      if month \<in> {1, 3, 5, 7, 8, 10, 12} then 31
      else if month \<in> {4, 6, 9, 11} then 30
      else if month = 2 \<and> leap then 29
      else if month = 2 then 28
      else 0)"

definition parse_field :: "string \<Rightarrow> nat \<Rightarrow> nat \<Rightarrow> TimestampError + int" where
  "parse_field input a b =
     (case parse_signed 64 (slice a b input) of
        Some n \<Rightarrow> Inr n | None \<Rightarrow> Inl (TimestampError ''invalid numeric timestamp component''))"

definition FORMAT_ERR :: TimestampError where
  "FORMAT_ERR = TimestampError ''timestamp must be YYYY-MM-DDTHH:MM:SSZ''"

definition bind_sum :: "'e + 'a \<Rightarrow> ('a \<Rightarrow> 'e + 'b) \<Rightarrow> 'e + 'b" where
  "bind_sum r f = (case r of Inl e \<Rightarrow> Inl e | Inr x \<Rightarrow> f x)"

definition parse_rfc3339_utc :: "string \<Rightarrow> TimestampError + i64" where
  "parse_rfc3339_utc input =
     (if length input \<noteq> 20 then Inl FORMAT_ERR
      else if input ! 4 \<noteq> CHR ''-'' \<or> input ! 7 \<noteq> CHR ''-'' \<or> input ! 10 \<noteq> CHR ''T'' \<or> input ! 13 \<noteq> CHR '':''
        \<or> input ! 16 \<noteq> CHR '':'' \<or> input ! 19 \<noteq> CHR ''Z'' then Inl FORMAT_ERR
      else
        bind_sum (parse_field input 0 4) (\<lambda>year.
        bind_sum (parse_field input 5 7) (\<lambda>month.
        bind_sum (parse_field input 8 10) (\<lambda>day.
        bind_sum (parse_field input 11 13) (\<lambda>hour.
        bind_sum (parse_field input 14 16) (\<lambda>minute.
        bind_sum (parse_field input 17 19) (\<lambda>second.
          if \<not> (1 \<le> month \<and> month \<le> 12) then Inl (TimestampError ''invalid month in timestamp'')
          else if 23 < hour \<or> 59 < minute \<or> 59 < second then Inl (TimestampError ''invalid time in timestamp'')
          else if day = 0 \<or> max_day year month < day then Inl (TimestampError ''invalid day in timestamp'')
          else Inr (of_int (days_of_civil year month day * 86400 + hour * 3600 + minute * 60 + second)))))))))"

section \<open>Text\<close>

lemma digit_char_value: "n < 10 \<Longrightarrow> digit_value (digit_char n) = Some (int n)"
proof -
  assume n: "n < 10"
  then have "(of_char (digit_char n) :: nat) = 48 + n" by (simp add: digit_char_def)
  then show ?thesis using n by (simp add: digit_value_def)
qed

lemma digit_char_sign: "n < 10 \<Longrightarrow> digit_char n \<noteq> CHR ''-'' \<and> digit_char n \<noteq> CHR ''+''"
  by (drule digit_char_value) (auto simp: digit_value_def)

lemma digits_value_append:
  "digits_value a (xs @ ys) = (case digits_value a xs of None \<Rightarrow> None | Some b \<Rightarrow> digits_value b ys)"
  by (induction a xs rule: digits_value.induct) (auto split: option.splits)

lemma digits_value_dec: "digits_value 0 (dec_digits n) = Some (int n)"
proof (induction n rule: dec_digits.induct)
  case (1 n)
  show ?case
  proof (cases "n < 10")
    case True
    then show ?thesis by (simp add: dec_digits.simps [of n] digit_char_value)
  next
    case False
    moreover have "int (n div 10) * 10 + int (n mod 10) = int n"
      by (metis mult_div_mod_eq mult.commute of_nat_add of_nat_mult of_nat_numeral)
    ultimately show ?thesis
      using 1 by (simp add: dec_digits.simps [of n] digits_value_append digit_char_value)
  qed
qed

lemma digits_value_zeros: "digits_value 0 (replicate k (CHR ''0'') @ ds) = digits_value 0 ds"
  by (induction k) (simp_all add: digit_value_def)

lemma dec_digits_ne: "dec_digits n \<noteq> []"
  by (subst dec_digits.simps) simp

lemma dec_digits_chars: "c \<in> set (dec_digits n) \<Longrightarrow> c \<noteq> CHR ''-'' \<and> c \<noteq> CHR ''+''"
proof (induction n rule: dec_digits.induct)
  case (1 n)
  then show ?case by (cases "n < 10") (auto simp: dec_digits.simps [of n] digit_char_sign)
qed

lemma length_dec_digits: "0 < w \<Longrightarrow> n < 10 ^ w \<Longrightarrow> length (dec_digits n) \<le> w"
proof (induction n arbitrary: w rule: dec_digits.induct)
  case (1 n)
  show ?case
  proof (cases "n < 10")
    case True
    then show ?thesis using 1(2) by (simp add: dec_digits.simps [of n])
  next
    case False
    obtain v where v: "w = Suc v" using 1(2) by (cases w) auto
    with False 1(3) have "v \<noteq> 0" by (cases v) auto
    moreover have "n div 10 < 10 ^ v" using 1(3) v by (simp add: less_mult_imp_div_less mult.commute)
    ultimately show ?thesis using 1(1) [OF False, of v] False v by (simp add: dec_digits.simps [of n])
  qed
qed

lemma length_fmt_pad: "0 < w \<Longrightarrow> 0 \<le> n \<Longrightarrow> n < 10 ^ w \<Longrightarrow> length (fmt_pad w n) = w"
proof -
  assume "0 < w" "0 \<le> n" "n < 10 ^ w"
  moreover from this have "nat n < 10 ^ w" by (simp add: nat_less_iff)
  ultimately show ?thesis using length_dec_digits [of w "nat n"] by (simp add: fmt_pad_def Let_def)
qed

lemma parse_fmt_pad: "0 \<le> n \<Longrightarrow> n < 2 ^ 63 \<Longrightarrow> parse_signed 64 (fmt_pad w n) = Some n"
proof -
  assume n: "0 \<le> n" "n < 2 ^ 63"
  have ne: "fmt_pad w n \<noteq> []" using n dec_digits_ne by (simp add: fmt_pad_def Let_def)
  have "c \<noteq> CHR ''-'' \<and> c \<noteq> CHR ''+''" if "c \<in> set (fmt_pad w n)" for c
    using that n dec_digits_chars by (auto simp: fmt_pad_def Let_def)
  then have "hd (fmt_pad w n) \<noteq> CHR ''-''" "hd (fmt_pad w n) \<noteq> CHR ''+''" using ne hd_in_set by blast+
  moreover have "digits_value 0 (fmt_pad w n) = Some n"
    using n by (simp add: fmt_pad_def Let_def digits_value_zeros digits_value_dec)
  ultimately show ?thesis using n ne by (simp add: parse_signed_def Let_def)
qed

section \<open>Civil dates\<close>

text \<open>A day of the 400-year era by century, four-year cycle, year and day, years starting in March.\<close>

definition era_day :: "int \<Rightarrow> int \<Rightarrow> int \<Rightarrow> int \<Rightarrow> bool" where
  "era_day c q n doy \<longleftrightarrow> 0 \<le> c \<and> c \<le> 3 \<and> 0 \<le> q \<and> q \<le> 24 \<and> 0 \<le> n \<and> n \<le> 3 \<and> 0 \<le> doy \<and> doy \<le> 365 \<and>
     (doy = 365 \<longrightarrow> n = 3 \<and> (q < 24 \<or> c = 3))"

lemma era_day_exists:
  assumes "0 \<le> doe" "doe < 146097"
  obtains c q n doy where "era_day c q n doy" "doe = 36524 * c + 1461 * q + 365 * n + doy"
proof -
  define c where "c = min 3 (doe div 36524)"
  define r where "r = doe - 36524 * c"
  have c: "0 \<le> c" "c \<le> 3" "0 \<le> r" "r \<le> 36524" "r = 36524 \<longrightarrow> c = 3"
    using assms by (auto simp: c_def r_def min_def)
  define q where "q = r div 1461"
  define s where "s = r mod 1461"
  have s: "0 \<le> s" "s \<le> 1460" "r = 1461 * q + s" "0 \<le> q" "q \<le> 24" using c by (auto simp: q_def s_def)
  define n where "n = min 3 (s div 365)"
  define doy where "doy = s - 365 * n"
  have n: "0 \<le> n" "n \<le> 3" "0 \<le> doy" "doy \<le> 365" "doy = 365 \<longrightarrow> n = 3" using s by (auto simp: n_def doy_def min_def)
  have "q < 24 \<or> c = 3" if "doy = 365"
  proof -
    have "s = 1460" using n(5) that by (simp add: doy_def)
    then show ?thesis using s c by auto
  qed
  with c s n have "era_day c q n doy" by (simp add: era_day_def)
  moreover have "doe = 36524 * c + 1461 * q + 365 * n + doy" using s by (simp add: r_def doy_def)
  ultimately show ?thesis by (rule that)
qed

lemma era_year:
  assumes e: "era_day c q n doy" and doe: "doe = 36524 * c + 1461 * q + 365 * n + doy"
  shows "(doe - doe div 1460 + doe div 36524 - doe div 146096) div 365 = 100 * c + 4 * q + n"
proof -
  define x where "x = (24 * c + q + (365 * n + doy)) div 1460"
  have b: "0 \<le> 24 * c + q" "24 * c + q \<le> 96" "0 \<le> 365 * n + doy" "365 * n + doy \<le> 1460"
    using e by (auto simp: era_day_def)
  have x: "0 \<le> x" "x \<le> 1" using b by (auto simp: x_def)
  have d1: "doe div 1460 = 25 * c + q + x"
  proof -
    have "doe = (24 * c + q + (365 * n + doy)) + 1460 * (25 * c + q)" using doe by simp
    then show ?thesis unfolding x_def by (metis add.commute div_mult_self2 zero_neq_numeral)
  qed
  have last: "doe div 146096 = (if doe = 146096 then 1 else 0)" "doe \<le> 146096" "0 \<le> doe" using e doe by (auto simp: era_day_def)
  have d2: "doe div 36524 = c + doe div 146096"
  proof (cases "doe = 146096")
    case True
    then have "c = 3" using e doe by (auto simp: era_day_def)
    with True show ?thesis by simp
  next
    case False
    then have "0 \<le> 1461 * q + 365 * n + doy" "1461 * q + 365 * n + doy < 36524" using e doe by (auto simp: era_day_def)
    then have "doe div 36524 = c" using doe by (intro int_div_pos_eq [where r = "1461 * q + 365 * n + doy"]) auto
    with False last show ?thesis by simp
  qed
  have small: "0 \<le> doy - x" "doy - x < 365"
  proof -
    have "n = 3 \<and> 269 \<le> doy" if "x = 1"
    proof -
      have "1460 \<le> 24 * c + q + (365 * n + doy)" using that b unfolding x_def by linarith
      then show ?thesis using e b by (auto simp: era_day_def)
    qed
    moreover have "x = 1" if "doy = 365"
    proof -
      have "n = 3" using e that by (auto simp: era_day_def)
      then have "1460 \<le> 24 * c + q + (365 * n + doy)" using b that by simp
      then show ?thesis using x b unfolding x_def by linarith
    qed
    moreover have "x = 0 \<or> x = 1" using x by linarith
    moreover have "0 \<le> doy" "doy \<le> 365" using e by (auto simp: era_day_def)
    ultimately show "0 \<le> doy - x" "doy - x < 365" by (fastforce simp: order_le_less)+
  qed
  have "doe - doe div 1460 + doe div 36524 - doe div 146096 = 365 * (100 * c + 4 * q + n) + (doy - x)"
    unfolding d1 d2 using doe by simp
  then show ?thesis using small by (intro int_div_pos_eq) auto
qed

lemma era_start:
  assumes "era_day c q n doy"
  shows "365 * (100 * c + 4 * q + n) + (100 * c + 4 * q + n) div 4 - (100 * c + 4 * q + n) div 100 = 36524 * c + 1461 * q + 365 * n"
proof -
  have "(100 * c + 4 * q + n) div 4 = 25 * c + q"
    using assms by (intro int_div_pos_eq [where r = n]) (auto simp: era_day_def)
  moreover have "(100 * c + 4 * q + n) div 100 = c"
    using assms by (intro int_div_pos_eq [where r = "4 * q + n"]) (auto simp: era_day_def)
  ultimately show ?thesis by simp
qed

text \<open>The closed form, in terms of the decomposition.\<close>

lemma civil_of_days_era:
  assumes "era_day c q n doy" "days + 719468 = 146097 * era + (36524 * c + 1461 * q + 365 * n + doy)"
    "m = (if (5 * doy + 2) div 153 < 10 then (5 * doy + 2) div 153 + 3 else (5 * doy + 2) div 153 - 9)"
  shows "civil_of_days days =
    (100 * c + 4 * q + n + era * 400 + (if m \<le> 2 then 1 else 0), m, doy - (153 * ((5 * doy + 2) div 153) + 2) div 5 + 1)"
proof -
  define doe where "doe = 36524 * c + 1461 * q + 365 * n + doy"
  define yoe where "yoe = 100 * c + 4 * q + n"
  define mp where "mp = (5 * doy + 2) div 153"
  have "0 \<le> doe" "doe < 146097" using assms(1) by (auto simp: era_day_def doe_def)
  then have z: "(days + 719468) div 146097 = era" "(days + 719468) mod 146097 = doe"
    unfolding assms(2) doe_def [symmetric] by auto
  have y: "(doe - doe div 1460 + doe div 36524 - doe div 146096) div 365 = yoe"
    unfolding yoe_def by (rule era_year [OF assms(1) doe_def])
  have d: "doe - (365 * yoe + yoe div 4 - yoe div 100) = doy"
    using era_start [OF assms(1)] unfolding yoe_def [symmetric] by (simp add: doe_def)
  show ?thesis
    unfolding civil_of_days_def Let_def z y d assms(3) mp_def [symmetric] yoe_def [symmetric] by simp
qed

lemma month_bounds:
  assumes "0 \<le> doy" "doy \<le> (365 :: int)" "mp = (5 * doy + 2) div 153"
  shows "0 \<le> mp" "mp \<le> 11" "0 \<le> doy - (153 * mp + 2) div 5"
    "mp \<in> {0, 2, 4, 5, 7, 9, 10} \<Longrightarrow> doy - (153 * mp + 2) div 5 < 31" "mp \<in> {1, 3, 6, 8} \<Longrightarrow> doy - (153 * mp + 2) div 5 < 30"
    "mp = 11 \<Longrightarrow> doy - (153 * mp + 2) div 5 = doy - 337"
proof -
  have lo: "153 * mp \<le> 5 * doy + 2" and hi: "5 * doy + 2 < 153 * mp + 153"
    unfolding assms(3) by linarith+
  show "0 \<le> mp" "mp \<le> 11" using lo hi assms(1,2) by linarith+
  show "0 \<le> doy - (153 * mp + 2) div 5" using lo by linarith
  show "doy - (153 * mp + 2) div 5 < 31" if "mp \<in> {0, 2, 4, 5, 7, 9, 10}" using that hi by auto
  show "doy - (153 * mp + 2) div 5 < 30" if "mp \<in> {1, 3, 6, 8}" using that hi by auto
  show "doy - (153 * mp + 2) div 5 = doy - 337" if "mp = 11" using that by simp
qed

lemma leap_era:
  assumes "era_day c q 3 365"
  shows "(100 * c + 4 * q + 3 + era * 400 + 1) mod 4 = 0 \<and> (100 * c + 4 * q + 3 + era * 400 + 1) mod 100 \<noteq> 0 \<or>
    (100 * c + 4 * q + 3 + era * 400 + 1) mod 400 = 0"
proof -
  have y: "100 * c + 4 * q + 3 + era * 400 + 1 = 4 * (25 * c + q + 1 + era * 100)" by simp
  show ?thesis
  proof (cases "q < 24")
    case True
    have "(100 * c + 4 * q + 3 + era * 400 + 1) mod 100 = (4 * q + 4 + 100 * (c + 4 * era)) mod 100" by (simp add: algebra_simps)
    also have "\<dots> = (4 * q + 4) mod 100" by (rule mod_mult_self2)
    also have "\<dots> \<noteq> 0" using assms True by (auto simp: era_day_def)
    finally have "(100 * c + 4 * q + 3 + era * 400 + 1) mod 100 \<noteq> 0" .
    then show ?thesis unfolding y by simp
  next
    case False
    then have "c = 3" "q = 24" using assms by (auto simp: era_day_def)
    then have "100 * c + 4 * q + 3 + era * 400 + 1 = 400 * (era + 1)" by simp
    then show ?thesis by simp
  qed
qed

lemma civil_roundtrip:
  assumes "civil_of_days days = (y, m, d)"
  shows "1 \<le> m" "m \<le> 12" "1 \<le> d" "d \<le> max_day y m" "days_of_civil y m d = days"
proof -
  have "0 \<le> (days + 719468) mod 146097" "(days + 719468) mod 146097 < 146097" by simp_all
  then obtain c q n doy where e: "era_day c q n doy" and doe: "(days + 719468) mod 146097 = 36524 * c + 1461 * q + 365 * n + doy"
    by (rule era_day_exists)
  define era where "era = (days + 719468) div 146097"
  define mp where "mp = (5 * doy + 2) div 153"
  have z: "days + 719468 = 146097 * era + (36524 * c + 1461 * q + 365 * n + doy)"
    unfolding era_def doe [symmetric] by simp
  have doy: "0 \<le> doy" "doy \<le> 365" using e by (auto simp: era_day_def)
  note mb = month_bounds [OF doy mp_def]
  have m: "m = (if mp < 10 then mp + 3 else mp - 9)" and y: "y = 100 * c + 4 * q + n + era * 400 + (if m \<le> 2 then 1 else 0)"
    and d: "d = doy - (153 * mp + 2) div 5 + 1"
    using assms civil_of_days_era [OF e z refl] by (auto simp: mp_def)
  show "1 \<le> m" "m \<le> 12" "1 \<le> d" using mb(1-3) m d by (auto split: if_splits)
  show "d \<le> max_day y m"
  proof (cases "mp = 11")
    case True
    then have m2: "m = 2" and dd: "d = doy - 336" using m d mb(6) by simp_all
    have "max_day y m = 29" if "doy = 365"
      using that e leap_era [of c q era] by (auto simp: era_day_def max_day_def m2 y)
    moreover have "28 \<le> max_day y m" by (simp add: max_day_def m2)
    ultimately show ?thesis using dd doy by fastforce
  next
    case False
    have "mp = 0 \<or> mp = 1 \<or> mp = 2 \<or> mp = 3 \<or> mp = 4 \<or> mp = 5 \<or> mp = 6 \<or> mp = 7 \<or> mp = 8 \<or> mp = 9 \<or> mp = 10"
      using mb(1,2) False by arith
    then consider "mp \<in> {0, 2, 4, 5, 7, 9, 10}" | "mp \<in> {1, 3, 6, 8}" by auto
    then show ?thesis
    proof cases
      case 1
      then have "max_day y m = 31" using m by (auto simp: max_day_def)
      with mb(4) [OF 1] d show ?thesis by simp
    next
      case 2
      then have "max_day y m = 30" using m by (auto simp: max_day_def)
      with mb(5) [OF 2] d show ?thesis by simp
    qed
  qed
  have mp': "m + (if 2 < m then - 3 else 9) = mp" using mb(1,2) m by (auto split: if_splits)
  define yoe where "yoe = 100 * c + 4 * q + n"
  have yy: "y - (if m \<le> 2 then 1 else 0) = 400 * era + yoe" using y by (simp add: yoe_def)
  have yoe: "0 \<le> yoe" "yoe < 400" using e by (auto simp: era_day_def yoe_def)
  have era: "(if 0 \<le> 400 * era + yoe then (400 * era + yoe) div 400 else - ((399 - (400 * era + yoe)) div 400)) = era"
  proof (cases "0 \<le> era")
    case True
    then show ?thesis using yoe by simp
  next
    case False
    then have "\<not> 0 \<le> 400 * era + yoe" using yoe by linarith
    moreover have "(399 - (400 * era + yoe)) div 400 = - era"
      using yoe by (intro int_div_pos_eq [where r = "399 - yoe"]) auto
    ultimately show ?thesis by simp
  qed
  have rest: "400 * era + yoe - era * 400 = yoe" by simp
  have "365 * yoe + yoe div 4 - yoe div 100 = 36524 * c + 1461 * q + 365 * n"
    using era_start [OF e] by (simp only: yoe_def)
  then show "days_of_civil y m d = days"
    unfolding days_of_civil_def Let_def mp' yy era rest using z d by linarith
qed

text \<open>Years with four digits.\<close>

lemma civil_year_digits:
  assumes "civil_of_days days = (y, m, d)" "- 719528 \<le> days" "days \<le> 2932896"
  shows "0 \<le> y \<and> y \<le> 9999"
proof -
  have "0 \<le> (days + 719468) mod 146097" "(days + 719468) mod 146097 < 146097" by simp_all
  then obtain c q n doy where e: "era_day c q n doy" and doe: "(days + 719468) mod 146097 = 36524 * c + 1461 * q + 365 * n + doy"
    by (rule era_day_exists)
  define era where "era = (days + 719468) div 146097"
  define mp where "mp = (5 * doy + 2) div 153"
  have z: "days + 719468 = 146097 * era + (36524 * c + 1461 * q + 365 * n + doy)"
    unfolding era_def doe [symmetric] by simp
  have y: "y = 100 * c + 4 * q + n + era * 400 + (if m \<le> 2 then 1 else 0)" "m = (if mp < 10 then mp + 3 else mp - 9)"
    using assms(1) civil_of_days_era [OF e z refl] by (auto simp: mp_def)
  have r: "0 \<le> c" "c \<le> 3" "0 \<le> q" "q \<le> 24" "0 \<le> n" "n \<le> 3" "0 \<le> doy" "doy \<le> 365" using e by (auto simp: era_day_def)
  have mp0: "0 \<le> mp" using r unfolding mp_def by linarith
  have era: "- 1 \<le> era" "era \<le> 24" using z r assms(2,3) by linarith+
  consider "0 \<le> era" "era \<le> 23" | "era = - 1" | "era = 24" using era by linarith
  then show ?thesis
  proof cases
    case 1
    then show ?thesis using y(1) r by (auto split: if_splits)
  next
    case 2
    then have low: "146037 \<le> 36524 * c + 1461 * q + 365 * n + doy" using z assms(2) by simp
    have "c = 3" "q = 24" "n = 3" using low r by linarith+
    moreover from this low have "306 \<le> doy" by simp
    then have "10 \<le> mp" "mp \<le> 11" using r unfolding mp_def by linarith+
    ultimately show ?thesis using y 2 by simp
  next
    case 3
    then have high: "36524 * c + 1461 * q + 365 * n + doy \<le> 146036" using z assms(3) by simp
    show ?thesis
    proof (cases "c = 3 \<and> q = 24 \<and> n = 3")
      case True
      then have "doy \<le> 305" using high by simp
      then have "mp < 10" unfolding mp_def by linarith
      then show ?thesis using y 3 r True mp0 by simp
    next
      case False
      then have "100 * c + 4 * q + n \<le> 398" using r by linarith
      then show ?thesis using y(1) 3 r by (auto split: if_splits)
    qed
  qed
qed

section \<open>Properties\<close>

text \<open>
  C22: parsing inverts formatting. Every Unix second from 0000-01-01T00:00:00Z to
  9999-12-31T23:59:59Z, before 1970 included, is formatted as a text of twenty bytes that
  \<open>parse_rfc3339_utc\<close> accepts and reads as the same second.
\<close>

theorem timestamp_roundtrip:
  assumes "- 62167219200 \<le> sint secs" "sint secs \<le> 253402300799"
  shows "\<exists>t. format_epoch_secs secs = Some t \<and> length t = 20 \<and> parse_rfc3339_utc t = Inr secs"
proof -
  define ds where "ds = sint secs mod 86400"
  define days where "days = (sint secs - ds) div 86400"
  obtain y m d where ymd: "civil_of_days days = (y, m, d)" by (metis surj_pair)
  have ds: "0 \<le> ds" "ds < 86400" by (simp_all add: ds_def)
  have days: "days * 86400 = sint secs - ds" by (simp add: days_def ds_def minus_mod_eq_div_mult)
  have "- 719528 \<le> days" "days \<le> 2932896" using days ds assms by linarith+
  note civil = civil_year_digits [OF ymd this] civil_roundtrip [OF ymd]
  have d31: "d \<le> 31" using civil(5) by (auto simp: max_day_def Let_def split: if_splits)
  define h where "h = ds div 3600"
  define mi where "mi = ds mod 3600 div 60"
  define s where "s = ds mod 60"
  have t: "0 \<le> h" "h \<le> 23" "0 \<le> mi" "mi \<le> 59" "0 \<le> s" "s \<le> 59"
    using ds by (auto simp: h_def mi_def s_def)
  have "s = ds mod 3600 mod 60" unfolding s_def by (simp add: mod_mod_cancel)
  then have "mi * 60 + s = ds mod 3600" unfolding mi_def by simp
  then have hms: "ds = h * 3600 + mi * 60 + s" unfolding h_def using div_mult_mod_eq [of ds 3600] by linarith
  let ?f = "[fmt_pad 4 y, fmt_pad 2 m, fmt_pad 2 d, fmt_pad 2 h, fmt_pad 2 mi, fmt_pad 2 s]"
  have len: "length (fmt_pad 4 y) = 4" "length (fmt_pad 2 m) = 2" "length (fmt_pad 2 d) = 2" "length (fmt_pad 2 h) = 2"
    "length (fmt_pad 2 mi) = 2" "length (fmt_pad 2 s) = 2"
    using civil d31 t by (auto intro!: length_fmt_pad)
  let ?t = "fmt_pad 4 y @ ''-'' @ fmt_pad 2 m @ ''-'' @ fmt_pad 2 d @ ''T'' @ fmt_pad 2 h @ '':'' @ fmt_pad 2 mi @ '':'' @ fmt_pad 2 s @ ''Z''"
  have fmt: "format_epoch_secs secs = Some ?t"
    using assms ds ymd unfolding format_epoch_secs_def ds_def [symmetric] Let_def
    by (simp add: days_def [symmetric] h_def mi_def s_def)
  have sl: "slice 0 4 ?t = fmt_pad 4 y" "slice 5 7 ?t = fmt_pad 2 m" "slice 8 10 ?t = fmt_pad 2 d"
    "slice 11 13 ?t = fmt_pad 2 h" "slice 14 16 ?t = fmt_pad 2 mi" "slice 17 19 ?t = fmt_pad 2 s"
    by (simp_all add: slice_def len)
  have ch: "?t ! 4 = CHR ''-''" "?t ! 7 = CHR ''-''" "?t ! 10 = CHR ''T''" "?t ! 13 = CHR '':''" "?t ! 16 = CHR '':''" "?t ! 19 = CHR ''Z''"
    by (simp_all add: nth_append len)
  have ps: "parse_field ?t 0 4 = Inr y" "parse_field ?t 5 7 = Inr m" "parse_field ?t 8 10 = Inr d" "parse_field ?t 11 13 = Inr h"
    "parse_field ?t 14 16 = Inr mi" "parse_field ?t 17 19 = Inr s"
    unfolding parse_field_def sl using civil d31 t by (simp_all add: parse_fmt_pad)
  have "days * 86400 + h * 3600 + mi * 60 + s = sint secs" using days hms by simp
  then have "parse_rfc3339_utc ?t = Inr secs"
    using civil d31 t len ch unfolding parse_rfc3339_utc_def ps bind_sum_def by simp
  with fmt len show ?thesis by auto
qed

theorem timestamp_roundtrip_witness:
  "format_epoch_secs (- 1) = Some ''1969-12-31T23:59:59Z'' \<and> parse_rfc3339_utc ''1969-12-31T23:59:59Z'' = Inr (- 1)"
proof -
  have "format_epoch_secs (- 1) = Some ''1969-12-31T23:59:59Z''" by code_simp
  with timestamp_roundtrip [of "- 1"] show ?thesis by simp
qed

text \<open>
  The parser reads its two-digit fields with the signed integer parser and checks hour,
  minute, second and day against an upper bound only (and the day against zero), so it
  accepts texts that are not timestamps.
\<close>

theorem timestamp_accepts_signed_fields:
  "parse_rfc3339_utc ''2020-01-01T-1:-1:-1Z'' = Inr 1577833139 \<and> parse_rfc3339_utc ''2020-01--9T00:00:00Z'' = Inr 1576972800 \<and>
   parse_rfc3339_utc ''+202-+1-+1T+0:+0:+0Z'' = parse_rfc3339_utc ''0202-01-01T00:00:00Z''"
  by code_simp

end
