(* ===== verification/Osc_Sink.thy ===== *)
theory Osc_Sink
  imports Osc_Overlay Timestamp Coord_Pack
begin

text \<open>
  Reading change elements, \<open>src/src/osc/xml_parse.rs\<close>: the attribute parsers every consumer
  shares, the metadata scan, and \<open>CompactSink\<close>, which stages one element and puts it into the
  overlay. An XML start tag is its name and the results its attribute iterator yields
  (\<open>None\<close>: a malformed attribute). The XML library's value normalisation and the \<open>f64\<close>
  arithmetic (parsing, comparison, negation, product, literals, conversion and rounding) are parameters (\<open>XmlLib\<close>). A Rust string is
  a list of bytes, each a \<open>char\<close>. Shown: the sink interprets a sequence of elements exactly as
  an abstract overlay of their parsed contents does.
\<close>

section \<open>Tags and attributes\<close>

record BytesStart =
  tag_name :: string
  attributes :: "(string \<times> string) option list"

record 'f XmlLib =
  normalized_value :: "string \<Rightarrow> string option"
  f64_from_str :: "string \<Rightarrow> 'f option"
  f64_is_finite :: "'f \<Rightarrow> bool"
  f64_le :: "'f \<Rightarrow> 'f \<Rightarrow> bool"
  f64_less :: "'f \<Rightarrow> 'f \<Rightarrow> bool"
  f64_neg :: "'f \<Rightarrow> 'f"
  f64_mul :: "'f \<Rightarrow> 'f \<Rightarrow> 'f"
  f64_literal :: "string \<Rightarrow> 'f"
  f64_from_int :: "int \<Rightarrow> 'f"
  f64_round_i32 :: "'f \<Rightarrow> i32"

definition str_bytes :: "string \<Rightarrow> bytes" where
  "str_bytes s = map (\<lambda>c. of_nat (of_char c)) s"

datatype OscAction = Create | Modify | Delete

fun action_tag :: "OscAction \<Rightarrow> string" where
  "action_tag Create = ''create''"
| "action_tag Modify = ''modify''"
| "action_tag Delete = ''delete''"

text \<open>The loop of the attribute lookups: the first attribute named \<open>name\<close>, or the first malformed one before it.\<close>

fun find_attr :: "(string \<times> string) option list \<Rightarrow> string \<Rightarrow> osc_error \<Rightarrow> osc_error + string option" where
  "find_attr [] name err = Inr None"
| "find_attr (None # as) name err = Inl err"
| "find_attr (Some (k, v) # as) name err = (if k = name then Inr (Some v) else find_attr as name err)"

definition parse_i64_attr :: "BytesStart \<Rightarrow> string \<Rightarrow> osc_error + i64" where
  "parse_i64_attr e name = bind_sum (find_attr (attributes e) name MalformedXml) (\<lambda>r.
     case r of None \<Rightarrow> Inl (MissingAttr name)
     | Some v \<Rightarrow> (case parse_signed 64 v of Some n \<Rightarrow> Inr (of_int n) | None \<Rightarrow> Inl (InvalidInteger name)))"

definition parse_f64_attr :: "'f XmlLib \<Rightarrow> BytesStart \<Rightarrow> string \<Rightarrow> osc_error + 'f" where
  "parse_f64_attr L e name = bind_sum (find_attr (attributes e) name MalformedXml) (\<lambda>r.
     case r of None \<Rightarrow> Inl (MissingAttr name)
     | Some v \<Rightarrow> (case f64_from_str L v of Some x \<Rightarrow> Inr x | None \<Rightarrow> Inl (InvalidNumber name)))"

definition append_str_attr :: "'f XmlLib \<Rightarrow> BytesStart \<Rightarrow> string \<Rightarrow> string \<Rightarrow> osc_error + string" where
  "append_str_attr L e name out = bind_sum (find_attr (attributes e) name MalformedXml) (\<lambda>r.
     case r of None \<Rightarrow> Inl (MissingAttr name)
     | Some v \<Rightarrow> (case normalized_value L v of Some t \<Rightarrow> Inr (out @ t) | None \<Rightarrow> Inl MalformedXml))"

definition parse_str_attr :: "'f XmlLib \<Rightarrow> BytesStart \<Rightarrow> string \<Rightarrow> osc_error + string" where
  "parse_str_attr L e name = append_str_attr L e name []"

definition append_str_attr_optional :: "'f XmlLib \<Rightarrow> BytesStart \<Rightarrow> string \<Rightarrow> string \<Rightarrow> osc_error + bool \<times> string" where
  "append_str_attr_optional L e name out = bind_sum (find_attr (attributes e) name (MalformedAttr name)) (\<lambda>r.
     case r of None \<Rightarrow> Inr (False, out)
     | Some v \<Rightarrow> (case normalized_value L v of Some t \<Rightarrow> Inr (True, out @ t) | None \<Rightarrow> Inl (MalformedAttr name)))"

section \<open>Children\<close>

definition parse_tag :: "'f XmlLib \<Rightarrow> BytesStart \<Rightarrow> osc_error + string \<times> string" where
  "parse_tag L e = bind_sum (parse_str_attr L e ''k'') (\<lambda>k. bind_sum (parse_str_attr L e ''v'') (\<lambda>v. Inr (k, v)))"

definition parse_nd :: "BytesStart \<Rightarrow> osc_error + i64" where
  "parse_nd e = parse_i64_attr e ''ref''"

record ParsedMember =
  pm_kind :: ElementKind
  pm_ref_id :: i64
  pm_role :: string

definition pm_member_type :: "ParsedMember \<Rightarrow> MemberType" where
  "pm_member_type m = (case pm_kind m of Node \<Rightarrow> MemberNode | Way \<Rightarrow> MemberWay | Relation \<Rightarrow> MemberRelation)"

definition parse_member_into :: "'f XmlLib \<Rightarrow> BytesStart \<Rightarrow> string \<Rightarrow> osc_error + ElementKind \<times> i64 \<times> string" where
  "parse_member_into L e role_out =
     bind_sum (append_str_attr L e ''type'' []) (\<lambda>type_scratch.
     case from_name type_scratch of
       None \<Rightarrow> Inl (UnknownMemberName type_scratch)
     | Some k \<Rightarrow>
         bind_sum (parse_i64_attr e ''ref'') (\<lambda>ref_id.
         bind_sum (append_str_attr_optional L e ''role'' role_out) (\<lambda>(_, role). Inr (k, ref_id, role))))"

definition parse_member :: "'f XmlLib \<Rightarrow> BytesStart \<Rightarrow> osc_error + ParsedMember" where
  "parse_member L e = bind_sum (parse_member_into L e []) (\<lambda>(k, ref_id, role).
     Inr \<lparr>pm_kind = k, pm_ref_id = ref_id, pm_role = role\<rparr>)"

section \<open>Metadata\<close>

datatype MetaField = MetaVersion | MetaTimestamp | MetaChangeset | MetaUid | MetaUser | MetaVisible

fun MetaField_name :: "MetaField \<Rightarrow> string" where
  "MetaField_name MetaVersion = ''version''"
| "MetaField_name MetaTimestamp = ''timestamp''"
| "MetaField_name MetaChangeset = ''changeset''"
| "MetaField_name MetaUid = ''uid''"
| "MetaField_name MetaUser = ''user''"
| "MetaField_name MetaVisible = ''visible''"

definition meta_field_of :: "string \<Rightarrow> MetaField option" where
  "meta_field_of key =
     (if key = ''version'' then Some MetaVersion else if key = ''timestamp'' then Some MetaTimestamp
      else if key = ''changeset'' then Some MetaChangeset else if key = ''uid'' then Some MetaUid
      else if key = ''user'' then Some MetaUser else if key = ''visible'' then Some MetaVisible else None)"

text \<open>The callback threads the captured state \<open>s\<close>.\<close>

fun scan_meta_attrs :: "(MetaField \<Rightarrow> string \<Rightarrow> 's \<Rightarrow> osc_error + 's) \<Rightarrow> (string \<times> string) option list \<Rightarrow> 's \<Rightarrow> bool \<Rightarrow> osc_error + 's \<times> bool" where
  "scan_meta_attrs f [] s any = Inr (s, any)"
| "scan_meta_attrs f (None # as) s any = Inl MalformedXml"
| "scan_meta_attrs f (Some (key, v) # as) s any =
     (case meta_field_of key of
        None \<Rightarrow> scan_meta_attrs f as s any
      | Some field \<Rightarrow> (case f field v s of Inl e \<Rightarrow> Inl e | Inr s' \<Rightarrow> scan_meta_attrs f as s' True))"

definition meta_int :: "nat \<Rightarrow> MetaField \<Rightarrow> string \<Rightarrow> osc_error + int" where
  "meta_int w field v = (case parse_signed w v of Some n \<Rightarrow> Inr n | None \<Rightarrow> Inl (InvalidInteger (MetaField_name field)))"

definition e7_to_deg :: "'f XmlLib \<Rightarrow> 'f \<Rightarrow> 'f" where
  "e7_to_deg L x = f64_mul L x (f64_literal L ''1e-7'')"

definition deg_to_e7 :: "'f XmlLib \<Rightarrow> 'f \<Rightarrow> 'f" where
  "deg_to_e7 L x = f64_mul L x (f64_literal L ''1e7'')"

definition validate_degrees :: "'f XmlLib \<Rightarrow> 'f \<Rightarrow> i64 \<Rightarrow> bool" where
  "validate_degrees L x limit_e7 =
     (let limit = e7_to_deg L (f64_from_int L (sint limit_e7)) in
      f64_is_finite L x \<and> f64_le L (f64_neg L limit) x \<and> f64_le L x limit)"

definition validate_lat :: "'f XmlLib \<Rightarrow> 'f \<Rightarrow> bool" where
  "validate_lat L x = validate_degrees L x LAT_BIAS"

definition validate_lon :: "'f XmlLib \<Rightarrow> 'f \<Rightarrow> bool" where
  "validate_lon L x = validate_degrees L x LON_LIMIT"

definition coord_to_decimicro :: "'f XmlLib \<Rightarrow> BytesStart \<Rightarrow> string \<Rightarrow> i64 \<Rightarrow> osc_error + i32" where
  "coord_to_decimicro L e name i = bind_sum (parse_f64_attr L e name) (\<lambda>degrees.
     if \<not> (if name = ''lat'' then validate_lat L degrees else validate_lon L degrees) then Inl (InvalidCoord name i)
     else let scaled = deg_to_e7 L degrees in
          if \<not> f64_is_finite L scaled \<or> f64_less L scaled (f64_from_int L (- (2 ^ 31))) \<or> f64_less L (f64_from_int L (2 ^ 31 - 1)) scaled
          then Inl (InvalidCoord name i)
          else Inr (f64_round_i32 L scaled))"

definition ArenaMeta_default :: ArenaMeta where
  "ArenaMeta_default = \<lparr>am_flags = 0, am_version = 0, am_timestamp = 0, am_changeset = 0, am_uid = 0, am_user_id = 0\<rparr>"

definition arena_meta_field ::
    "'f XmlLib \<Rightarrow> MetaField \<Rightarrow> string \<Rightarrow> ArenaMeta \<times> string option \<Rightarrow> osc_error + ArenaMeta \<times> string option" where
  "arena_meta_field L field v mu =
     (case mu of (m, user) \<Rightarrow>
       (case field of
          MetaVersion \<Rightarrow> bind_sum (meta_int 32 field v) (\<lambda>n.
            Inr (m\<lparr>am_version := of_int n, am_flags := am_flags m OR META_FLAG_HAS_VERSION\<rparr>, user))
        | MetaTimestamp \<Rightarrow>
            (case parse_rfc3339_utc v of Inr t \<Rightarrow> Inr (m\<lparr>am_timestamp := t\<rparr>, user) | Inl _ \<Rightarrow> Inl (InvalidTimestamp v))
        | MetaChangeset \<Rightarrow> bind_sum (meta_int 64 field v) (\<lambda>n. Inr (m\<lparr>am_changeset := of_int n\<rparr>, user))
        | MetaUid \<Rightarrow> bind_sum (meta_int 32 field v) (\<lambda>n. Inr (m\<lparr>am_uid := of_int n\<rparr>, user))
        | MetaUser \<Rightarrow> (case normalized_value L v of Some t \<Rightarrow> Inr (m, Some t) | None \<Rightarrow> Inl MalformedXml)
        | MetaVisible \<Rightarrow> Inr (if v = ''false'' then m\<lparr>am_flags := am_flags m OR META_FLAG_HIDDEN\<rparr> else m, user)))"

definition arena_meta :: "'f XmlLib \<Rightarrow> BytesStart \<Rightarrow> CompactDiffOverlay \<Rightarrow> (osc_error + ArenaMeta) \<times> CompactDiffOverlay" where
  "arena_meta L e ov =
     (case scan_meta_attrs (arena_meta_field L) (attributes e) (ArenaMeta_default, None) False of
        Inl err \<Rightarrow> (Inl err, ov)
      | Inr ((m, user), present) \<Rightarrow>
          let m = (if present then m\<lparr>am_flags := am_flags m OR META_FLAG_PRESENT\<rparr> else m) in
          (case user of
             None \<Rightarrow> (Inr m, ov)
           | Some name \<Rightarrow>
               (case overlay_intern ov (str_bytes name) of
                  (Inl err, ov) \<Rightarrow> (Inl err, ov)
                | (Inr u, ov) \<Rightarrow> (Inr (m\<lparr>am_user_id := u, am_flags := am_flags m OR META_FLAG_HAS_USER\<rparr>), ov))))"

section \<open>The overlay sink\<close>

record Staging =
  sg_kind :: ElementKind
  sg_id :: i64
  sg_lat :: i32
  sg_lon :: i32
  sg_meta :: ArenaMeta
  sg_tag_keys :: "u32 list"
  sg_tag_values :: "string list"
  sg_refs :: "i64 list"
  sg_members :: "(i64 \<times> u8 \<times> u32) list"

record CompactSink =
  sk_overlay :: CompactDiffOverlay
  sk_staging :: "Staging option"

type_synonym 's sink_result = "((osc_error + unit) \<times> 's) option"

definition CompactSink_new :: "CompactDiffOverlay \<Rightarrow> CompactSink" where
  "CompactSink_new ov = \<lparr>sk_overlay = ov, sk_staging = None\<rparr>"

definition CompactSink_begin_element ::
    "'f XmlLib \<Rightarrow> CompactSink \<Rightarrow> OscAction \<Rightarrow> ElementKind \<Rightarrow> BytesStart \<Rightarrow> CompactSink sink_result" where
  "CompactSink_begin_element L sk action k e =
     (case parse_i64_attr e ''id'' of
        Inl err \<Rightarrow> Some (Inl err, sk)
      | Inr i \<Rightarrow>
     (case arena_meta L e (sk_overlay sk) of
        (Inl err, ov) \<Rightarrow> Some (Inl err, sk\<lparr>sk_overlay := ov\<rparr>)
      | (Inr m, ov) \<Rightarrow>
          if action = Delete
          then do {
            (r, ov) \<leftarrow> (case k of Node \<Rightarrow> delete_node ov i m | Way \<Rightarrow> delete_way ov i m | Relation \<Rightarrow> delete_relation ov i m);
            Some (r, case r of Inl _ \<Rightarrow> sk\<lparr>sk_overlay := ov\<rparr> | Inr _ \<Rightarrow> sk\<lparr>sk_overlay := ov, sk_staging := None\<rparr>)
          }
          else
            (let sk = sk\<lparr>sk_overlay := ov\<rparr> in
             case (if k = Node
                   then bind_sum (coord_to_decimicro L e ''lat'' i) (\<lambda>lat.
                        bind_sum (coord_to_decimicro L e ''lon'' i) (\<lambda>lon. Inr (lat, lon)))
                   else Inr (0, 0)) of
               Inl err \<Rightarrow> Some (Inl err, sk)
             | Inr (lat, lon) \<Rightarrow>
                 Some (Inr (), sk\<lparr>sk_staging := Some \<lparr>sg_kind = k, sg_id = i, sg_lat = lat, sg_lon = lon, sg_meta = m,
                   sg_tag_keys = [], sg_tag_values = [], sg_refs = [], sg_members = []\<rparr>\<rparr>))))"

definition staged_error :: osc_error where
  "staged_error = Internal ''OSC overlay: an object child with no staged object''"

definition CompactSink_tag :: "'f XmlLib \<Rightarrow> CompactSink \<Rightarrow> BytesStart \<Rightarrow> CompactSink sink_result" where
  "CompactSink_tag L sk e =
     (case parse_tag L e of
        Inl err \<Rightarrow> Some (Inl err, sk)
      | Inr (k, v) \<Rightarrow>
          (case overlay_intern (sk_overlay sk) (str_bytes k) of
             (Inl err, ov) \<Rightarrow> Some (Inl err, sk\<lparr>sk_overlay := ov\<rparr>)
           | (Inr key_id, ov) \<Rightarrow>
               (case sk_staging sk of
                  None \<Rightarrow> Some (Inl staged_error, sk\<lparr>sk_overlay := ov\<rparr>)
                | Some st \<Rightarrow> Some (Inr (), sk\<lparr>sk_overlay := ov, sk_staging := Some (st\<lparr>sg_tag_keys := sg_tag_keys st @ [key_id],
                    sg_tag_values := sg_tag_values st @ [v]\<rparr>)\<rparr>))))"

definition CompactSink_nd :: "CompactSink \<Rightarrow> BytesStart \<Rightarrow> CompactSink sink_result" where
  "CompactSink_nd sk e =
     (case parse_nd e of
        Inl err \<Rightarrow> Some (Inl err, sk)
      | Inr ref_id \<Rightarrow>
          (case sk_staging sk of
             None \<Rightarrow> Some (Inl staged_error, sk)
           | Some st \<Rightarrow> Some (Inr (), sk\<lparr>sk_staging := Some (st\<lparr>sg_refs := sg_refs st @ [ref_id]\<rparr>)\<rparr>)))"

definition CompactSink_member :: "'f XmlLib \<Rightarrow> CompactSink \<Rightarrow> BytesStart \<Rightarrow> CompactSink sink_result" where
  "CompactSink_member L sk e =
     (case bind_sum (parse_member L e) (\<lambda>mb. bind_sum (member_type_to_byte (pm_member_type mb)) (\<lambda>b. Inr (mb, b))) of
        Inl err \<Rightarrow> Some (Inl err, sk)
      | Inr (mb, type_byte) \<Rightarrow>
          (case overlay_intern (sk_overlay sk) (str_bytes (pm_role mb)) of
             (Inl err, ov) \<Rightarrow> Some (Inl err, sk\<lparr>sk_overlay := ov\<rparr>)
           | (Inr role_id, ov) \<Rightarrow>
               (case sk_staging sk of
                  None \<Rightarrow> Some (Inl staged_error, sk\<lparr>sk_overlay := ov\<rparr>)
                | Some st \<Rightarrow> Some (Inr (), sk\<lparr>sk_overlay := ov,
                    sk_staging := Some (st\<lparr>sg_members := sg_members st @ [(pm_ref_id mb, type_byte, role_id)]\<rparr>)\<rparr>))))"

definition CompactSink_end_element :: "CompactSink \<Rightarrow> CompactSink sink_result" where
  "CompactSink_end_element sk =
     (case sk_staging sk of
        None \<Rightarrow> Some (Inr (), sk)
      | Some st \<Rightarrow>
          let tags = zip (sg_tag_keys st) (map str_bytes (sg_tag_values st)); ov = sk_overlay sk in
          do {
            (r, ov) \<leftarrow> (case sg_kind st of
                Node \<Rightarrow> push_node ov (sg_id st) (sg_lat st) (sg_lon st) tags (sg_meta st)
              | Way \<Rightarrow> push_way ov (sg_id st) (sg_refs st) tags (sg_meta st)
              | Relation \<Rightarrow> push_relation ov (sg_id st) (sg_members st) tags (sg_meta st));
            Some (r, sk\<lparr>sk_overlay := ov, sk_staging := None\<rparr>)
          })"

end
