(* ===== verification/Osc_Drive.thy ===== *)
theory Osc_Drive
  imports Osc_Sink
begin

text \<open>
  The change document driver of \<open>src/src/osc/xml_parse.rs\<close>: the hierarchy state machine
  (\<open>handle_open\<close>, \<open>handle_close\<close>, \<open>drive_osc\<close>) that turns a stream of XML events into calls of a
  sink, and the lexical batches (\<open>LexBatch\<close>, \<open>LexSink\<close>) that record those calls for replay in
  another thread. The stream of events is the XML library's; an event list stands for what
  its reader yields up to the end of the document. Locating an error with the file name is
  not modelled. Shown: driving any sink is the same as recording the document and replaying
  the recording into that sink, and the calls of an accepted document are whole elements.
\<close>

section \<open>Sinks\<close>

record 's OscSink =
  on_begin :: "'s \<Rightarrow> OscAction \<Rightarrow> ElementKind \<Rightarrow> BytesStart \<Rightarrow> 's sink_result"
  on_tag :: "'s \<Rightarrow> BytesStart \<Rightarrow> 's sink_result"
  on_nd :: "'s \<Rightarrow> BytesStart \<Rightarrow> 's sink_result"
  on_member :: "'s \<Rightarrow> BytesStart \<Rightarrow> 's sink_result"
  on_end :: "'s \<Rightarrow> 's sink_result"

definition compact_sink :: "'f XmlLib \<Rightarrow> CompactSink OscSink" where
  "compact_sink L = \<lparr>on_begin = CompactSink_begin_element L, on_tag = CompactSink_tag L, on_nd = CompactSink_nd,
     on_member = CompactSink_member L, on_end = CompactSink_end_element\<rparr>"

section \<open>The driver\<close>

definition action_for :: "string \<Rightarrow> OscAction option" where
  "action_for name = (if name = ''create'' then Some Create else if name = ''modify'' then Some Modify
     else if name = ''delete'' then Some Delete else None)"

datatype Level = Doc | Root | Other | Section | Element | Leaf | Done

record DriveState =
  ds_level :: Level
  ds_section :: OscAction
  ds_open :: ElementKind

definition ROOT :: string where "ROOT = ''osmChange''"

definition misplaced :: "string \<Rightarrow> string \<Rightarrow> osc_error" where
  "misplaced name parent = MisplacedElement name parent"

definition handle_element_child ::
    "'f XmlLib \<Rightarrow> 's OscSink \<Rightarrow> string \<Rightarrow> BytesStart \<Rightarrow> OscAction \<Rightarrow> ElementKind \<Rightarrow> 's \<Rightarrow> 's sink_result" where
  "handle_element_child L S name e sec k s =
     (let live = (sec \<noteq> Delete) in
      if name = ''tag'' then (if live then on_tag S s e else Some (map_sum id (\<lambda>_. ()) (parse_tag L e), s))
      else if name = ''nd'' \<and> k = Way then (if live then on_nd S s e else Some (map_sum id (\<lambda>_. ()) (parse_nd e), s))
      else if name = ''member'' \<and> k = Relation
        then (if live then on_member S s e else Some (map_sum id (\<lambda>_. ()) (parse_member L e), s))
      else if (name = ''bbox'' \<or> name = ''bounds'') \<and> k \<noteq> Node then Some (Inr (), s)
      else Some (Inl (misplaced name (''inside <'' @ as_str k @ ''>'')), s))"

text \<open>Continue with the state machine's next state once the sink accepted the call.\<close>

definition then_state :: "'s sink_result \<Rightarrow> 'd \<Rightarrow> ((osc_error + 'd) \<times> 's) option" where
  "then_state r d = map_option (\<lambda>(res, s). (map_sum id (\<lambda>_. d) res, s)) r"

definition handle_open ::
    "'f XmlLib \<Rightarrow> 's OscSink \<Rightarrow> BytesStart \<Rightarrow> bool \<Rightarrow> DriveState \<Rightarrow> 's \<Rightarrow> ((osc_error + DriveState) \<times> 's) option" where
  "handle_open L S e empty_tag d s =
     (let name = tag_name e in
      case ds_level d of
        Element \<Rightarrow> then_state (handle_element_child L S name e (ds_section d) (ds_open d) s)
                     (if empty_tag then d else d\<lparr>ds_level := Leaf\<rparr>)
      | Section \<Rightarrow>
          (case from_name name of
             None \<Rightarrow> Some (Inl (misplaced name (''inside <'' @ action_tag (ds_section d) @ ''>'')), s)
           | Some k \<Rightarrow> do {
               (r, s) \<leftarrow> on_begin S s (ds_section d) k e;
               (case r of
                  Inl err \<Rightarrow> Some (Inl err, s)
                | Inr _ \<Rightarrow> if empty_tag then then_state (on_end S s) d
                           else Some (Inr (d\<lparr>ds_open := k, ds_level := Element\<rparr>), s))
             })
      | Root \<Rightarrow>
          (case action_for name of
             Some action \<Rightarrow> Some (Inr (if empty_tag then d else d\<lparr>ds_section := action, ds_level := Section\<rparr>), s)
           | None \<Rightarrow>
               (case from_name name of
                  Some k \<Rightarrow> Some (Inl (OutsideSection k (case parse_i64_attr e ''id'' of Inr i \<Rightarrow> Some i | Inl _ \<Rightarrow> None)), s)
                | None \<Rightarrow>
                    if name = ROOT then Some (Inl (misplaced name ''inside <osmChange>''), s)
                    else Some (Inr (if empty_tag then d else d\<lparr>ds_level := Other\<rparr>), s)))
      | Doc \<Rightarrow>
          if name \<noteq> ROOT then Some (Inl (misplaced name ''as the document root (expected <osmChange>)''), s)
          else Some (Inr (d\<lparr>ds_level := (if empty_tag then Done else Root)\<rparr>), s)
      | Leaf \<Rightarrow> Some (Inl (misplaced name ''inside a <tag>, <nd>, <member> or <bbox>''), s)
      | Other \<Rightarrow> Some (Inl (misplaced name ''inside an unrecognised element''), s)
      | Done \<Rightarrow> Some (Inl (misplaced name ''after </osmChange>''), s))"

definition handle_close :: "'s OscSink \<Rightarrow> DriveState \<Rightarrow> 's \<Rightarrow> ((osc_error + DriveState) \<times> 's) option" where
  "handle_close S d s =
     (case ds_level d of
        Leaf \<Rightarrow> Some (Inr (d\<lparr>ds_level := Element\<rparr>), s)
      | Element \<Rightarrow> then_state (on_end S s) (d\<lparr>ds_level := Section\<rparr>)
      | Section \<Rightarrow> Some (Inr (d\<lparr>ds_level := Root\<rparr>), s)
      | Other \<Rightarrow> Some (Inr (d\<lparr>ds_level := Root\<rparr>), s)
      | Root \<Rightarrow> Some (Inr (d\<lparr>ds_level := Done\<rparr>), s)
      | Doc \<Rightarrow> Some (Inr d, s)
      | Done \<Rightarrow> Some (Inr d, s))"

text \<open>What the reader yields: tags, other content, or its own failure.\<close>

datatype XmlEvent = EvStart BytesStart | EvEmpty BytesStart | EvEnd | EvOther | EvErr bool \<comment> \<open>a cancelled read\<close>

fun drive_loop :: "'f XmlLib \<Rightarrow> 's OscSink \<Rightarrow> XmlEvent list \<Rightarrow> DriveState \<Rightarrow> 's \<Rightarrow> ((osc_error + DriveState) \<times> 's) option" where
  "drive_loop L S [] d s = Some (Inr d, s)"
| "drive_loop L S (ev # evs) d s =
     (case ev of
        EvOther \<Rightarrow> drive_loop L S evs d s
      | EvErr c \<Rightarrow> Some (Inl (if c then Cancelled else MalformedXml), s)
      | EvStart e \<Rightarrow> do { (r, s) \<leftarrow> handle_open L S e False d s; (case r of Inl err \<Rightarrow> Some (Inl err, s) | Inr d \<Rightarrow> drive_loop L S evs d s) }
      | EvEmpty e \<Rightarrow> do { (r, s) \<leftarrow> handle_open L S e True d s; (case r of Inl err \<Rightarrow> Some (Inl err, s) | Inr d \<Rightarrow> drive_loop L S evs d s) }
      | EvEnd \<Rightarrow> do { (r, s) \<leftarrow> handle_close S d s; (case r of Inl err \<Rightarrow> Some (Inl err, s) | Inr d \<Rightarrow> drive_loop L S evs d s) })"

definition drive_init :: DriveState where
  "drive_init = \<lparr>ds_level = Doc, ds_section = Create, ds_open = Node\<rparr>"

definition drive_osc :: "'f XmlLib \<Rightarrow> 's OscSink \<Rightarrow> XmlEvent list \<Rightarrow> 's \<Rightarrow> 's sink_result" where
  "drive_osc L S evs s = do {
     (r, s) \<leftarrow> drive_loop L S evs drive_init s;
     Some (case r of
             Inl err \<Rightarrow> (Inl err, s)
           | Inr d \<Rightarrow> (if ds_level d \<noteq> Done then Inl TruncatedDocument else Inr (), s))
   }"

section \<open>Lexical batches\<close>

datatype LexOp = LexBegin OscAction ElementKind | LexTag | LexNd | LexMember | LexEnd

record LexEvent =
  le_op :: LexOp
  le_start :: nat
  le_end :: nat
  le_name_len :: nat

record LexBatch =
  lb_text :: string
  lb_events :: "LexEvent list"

text \<open>A tag's content as the XML library prints it, and its reading back from content and name length.\<close>

record TagText =
  tag_content :: "BytesStart \<Rightarrow> string"
  tag_from_content :: "string \<Rightarrow> nat \<Rightarrow> BytesStart"

definition LexBatch_default :: LexBatch where
  "LexBatch_default = \<lparr>lb_text = [], lb_events = []\<rparr>"

definition LexBatch_bytes :: "LexBatch \<Rightarrow> nat" where
  "LexBatch_bytes b = length (lb_text b)"

definition LexBatch_is_empty :: "LexBatch \<Rightarrow> bool" where
  "LexBatch_is_empty b \<longleftrightarrow> lb_events b = []"

definition LexBatch_push :: "TagText \<Rightarrow> LexBatch \<Rightarrow> LexOp \<Rightarrow> BytesStart option \<Rightarrow> LexBatch" where
  "LexBatch_push T b op e =
     (let start = length (lb_text b);
          txt = lb_text b @ (case e of None \<Rightarrow> [] | Some e \<Rightarrow> tag_content T e);
          name_len = (case e of None \<Rightarrow> 0 | Some e \<Rightarrow> length (tag_name e))
      in \<lparr>lb_text = txt, lb_events = lb_events b @ [\<lparr>le_op = op, le_start = start, le_end = length txt, le_name_len = name_len\<rparr>]\<rparr>)"

fun replay_events :: "TagText \<Rightarrow> 's OscSink \<Rightarrow> string \<Rightarrow> LexEvent list \<Rightarrow> 's \<Rightarrow> 's sink_result" where
  "replay_events T S txt [] s = Some (Inr (), s)"
| "replay_events T S txt (ev # evs) s =
     (let e = tag_from_content T (slice (le_start ev) (le_end ev) txt) (le_name_len ev) in
      do {
        (r, s) \<leftarrow> (case le_op ev of
            LexBegin action k \<Rightarrow> on_begin S s action k e
          | LexTag \<Rightarrow> on_tag S s e
          | LexNd \<Rightarrow> on_nd S s e
          | LexMember \<Rightarrow> on_member S s e
          | LexEnd \<Rightarrow> on_end S s);
        (case r of Inl err \<Rightarrow> Some (Inl err, s) | Inr _ \<Rightarrow> replay_events T S txt evs s)
      })"

definition LexBatch_replay :: "TagText \<Rightarrow> LexBatch \<Rightarrow> 's OscSink \<Rightarrow> 's \<Rightarrow> 's sink_result" where
  "LexBatch_replay T b S s = replay_events T S (lb_text b) (lb_events b) s"

text \<open>
  The recording sink hands full batches to \<open>seal\<close>, a step on the consumer's state \<open>'c\<close>, and
  refuses once \<open>halted\<close> holds of that state.
\<close>

record 'c LexSink =
  lx_batch :: LexBatch
  lx_consumer :: 'c

record 'c LexEnv =
  lx_target :: nat
  lx_seal :: "LexBatch \<Rightarrow> 'c \<Rightarrow> (osc_error + unit) \<times> 'c"
  lx_halted :: "'c \<Rightarrow> bool"

definition LexSink_record :: "TagText \<Rightarrow> 'c LexEnv \<Rightarrow> 'c LexSink \<Rightarrow> LexOp \<Rightarrow> BytesStart option \<Rightarrow> 'c LexSink sink_result" where
  "LexSink_record T E s op e =
     (if lx_halted E (lx_consumer s) then Some (Inl (Internal ''OSC reading stopped after a failure elsewhere''), s)
      else Some (Inr (), s\<lparr>lx_batch := LexBatch_push T (lx_batch s) op e\<rparr>))"

definition LexSink_seal :: "'c LexEnv \<Rightarrow> 'c LexSink \<Rightarrow> 'c LexSink sink_result" where
  "LexSink_seal E s = (case lx_seal E (lx_batch s) (lx_consumer s) of
     (r, c) \<Rightarrow> Some (r, s\<lparr>lx_batch := LexBatch_default, lx_consumer := c\<rparr>))"

definition LexSink_end_element :: "TagText \<Rightarrow> 'c LexEnv \<Rightarrow> 'c LexSink \<Rightarrow> 'c LexSink sink_result" where
  "LexSink_end_element T E s = do {
     (r, s) \<leftarrow> LexSink_record T E s LexEnd None;
     (case r of
        Inl err \<Rightarrow> Some (Inl err, s)
      | Inr _ \<Rightarrow> if lx_target E \<le> LexBatch_bytes (lx_batch s) then LexSink_seal E s else Some (Inr (), s))
   }"

definition lex_sink :: "TagText \<Rightarrow> 'c LexEnv \<Rightarrow> 'c LexSink OscSink" where
  "lex_sink T E = \<lparr>on_begin = (\<lambda>s action k e. LexSink_record T E s (LexBegin action k) (Some e)),
     on_tag = (\<lambda>s e. LexSink_record T E s LexTag (Some e)), on_nd = (\<lambda>s e. LexSink_record T E s LexNd (Some e)),
     on_member = (\<lambda>s e. LexSink_record T E s LexMember (Some e)), on_end = LexSink_end_element T E\<rparr>"

definition LexSink_finish :: "'c LexEnv \<Rightarrow> 'c LexSink \<Rightarrow> 'c LexSink sink_result" where
  "LexSink_finish E s = (if LexBatch_is_empty (lx_batch s) then Some (Inr (), s) else LexSink_seal E s)"

section \<open>The calls of a document\<close>

datatype Call = CBegin OscAction ElementKind BytesStart | CTag BytesStart | CNd BytesStart | CMember BytesStart | CEnd

fun sink_call :: "'s OscSink \<Rightarrow> 's \<Rightarrow> Call \<Rightarrow> 's sink_result" where
  "sink_call S s (CBegin a k e) = on_begin S s a k e"
| "sink_call S s (CTag e) = on_tag S s e"
| "sink_call S s (CNd e) = on_nd S s e"
| "sink_call S s (CMember e) = on_member S s e"
| "sink_call S s CEnd = on_end S s"

fun run_calls :: "'s OscSink \<Rightarrow> 's \<Rightarrow> Call list \<Rightarrow> 's sink_result" where
  "run_calls S s [] = Some (Inr (), s)"
| "run_calls S s (c # cs) = do {
     (r, s) \<leftarrow> sink_call S s c;
     (case r of Inl err \<Rightarrow> Some (Inl err, s) | Inr _ \<Rightarrow> run_calls S s cs)
   }"

text \<open>Sequencing of results: the rest runs only after success.\<close>

definition after :: "'s sink_result \<Rightarrow> ('s \<Rightarrow> ((osc_error + 'd) \<times> 's) option) \<Rightarrow> ((osc_error + 'd) \<times> 's) option" where
  "after r f = (case r of None \<Rightarrow> None | Some (Inl err, s) \<Rightarrow> Some (Inl err, s) | Some (Inr _, s) \<Rightarrow> f s)"

lemma after_simps [simp]:
  "after None f = None" "after (Some (Inl err, s)) f = Some (Inl err, s)" "after (Some (Inr u, s)) f = f s"
  by (simp_all add: after_def)

lemma after_assoc: "after (after r f) g = after r (\<lambda>s. after (f s) g)"
  by (auto simp: after_def split: option.splits prod.splits sum.splits)

lemma after_done [simp]: "after r (\<lambda>s. Some (Inr (), s)) = r"
  by (auto simp: after_def split: option.splits prod.splits sum.splits)

lemma run_calls_Cons: "run_calls S s (c # cs) = after (sink_call S s c) (\<lambda>s. run_calls S s cs)"
  by (auto simp: after_def split: bind_splits option.splits prod.splits sum.splits)

declare run_calls.simps(2) [simp del]

lemma run_calls_append: "run_calls S s (as @ bs) = after (run_calls S s as) (\<lambda>s. run_calls S s bs)"
  by (induction as arbitrary: s) (simp_all add: run_calls_Cons after_assoc)

lemma run_calls_single [simp]: "run_calls S s [c] = sink_call S s c"
  by (simp add: run_calls_Cons)

lemma then_state_after: "then_state r d = after r (\<lambda>s. Some (Inr d, s))"
  by (auto simp: then_state_def after_def split: option.splits prod.splits sum.splits)

text \<open>One event as the state machine sees it: a refusal, or the next state and the calls to make.\<close>

definition child_calls :: "'f XmlLib \<Rightarrow> string \<Rightarrow> BytesStart \<Rightarrow> OscAction \<Rightarrow> ElementKind \<Rightarrow> osc_error + Call list" where
  "child_calls L name e sec k =
     (if name = ''tag'' then (if sec \<noteq> Delete then Inr [CTag e] else map_sum id (\<lambda>_. []) (parse_tag L e))
      else if name = ''nd'' \<and> k = Way then (if sec \<noteq> Delete then Inr [CNd e] else map_sum id (\<lambda>_. []) (parse_nd e))
      else if name = ''member'' \<and> k = Relation then (if sec \<noteq> Delete then Inr [CMember e] else map_sum id (\<lambda>_. []) (parse_member L e))
      else if (name = ''bbox'' \<or> name = ''bounds'') \<and> k \<noteq> Node then Inr []
      else Inl (misplaced name (''inside <'' @ as_str k @ ''>'')))"

lemma handle_child_calls:
  "handle_element_child L S name e sec k s = (case child_calls L name e sec k of Inl err \<Rightarrow> Some (Inl err, s) | Inr cs \<Rightarrow> run_calls S s cs)"
  by (auto simp: handle_element_child_def child_calls_def Let_def map_sum_def split: sum.splits)

definition open_calls :: "'f XmlLib \<Rightarrow> DriveState \<Rightarrow> BytesStart \<Rightarrow> bool \<Rightarrow> osc_error + DriveState \<times> Call list" where
  "open_calls L d e empty_tag =
     (let name = tag_name e in
      case ds_level d of
        Element \<Rightarrow> (case child_calls L name e (ds_section d) (ds_open d) of Inl err \<Rightarrow> Inl err
          | Inr cs \<Rightarrow> Inr (if empty_tag then d else d\<lparr>ds_level := Leaf\<rparr>, cs))
      | Section \<Rightarrow>
          (case from_name name of
             None \<Rightarrow> Inl (misplaced name (''inside <'' @ action_tag (ds_section d) @ ''>''))
           | Some k \<Rightarrow> Inr (if empty_tag then (d, [CBegin (ds_section d) k e, CEnd])
               else (d\<lparr>ds_open := k, ds_level := Element\<rparr>, [CBegin (ds_section d) k e])))
      | _ \<Rightarrow> (case handle_open L \<lparr>on_begin = (\<lambda>_ _ _ _. None), on_tag = (\<lambda>_ _. None), on_nd = (\<lambda>_ _. None), on_member = (\<lambda>_ _. None),
               on_end = (\<lambda>_. None)\<rparr> e empty_tag d () of
             Some (Inr d', _) \<Rightarrow> Inr (d', []) | Some (Inl err, _) \<Rightarrow> Inl err | None \<Rightarrow> Inr (d, [])))"

lemma handle_open_calls:
  "handle_open L S e empty_tag d s =
    (case open_calls L d e empty_tag of Inl err \<Rightarrow> Some (Inl err, s) | Inr (d', cs) \<Rightarrow> after (run_calls S s cs) (\<lambda>s. Some (Inr d', s)))"
proof (cases "ds_level d")
  case Element
  then show ?thesis
    by (cases "child_calls L (tag_name e) e (ds_section d) (ds_open d)")
      (simp_all add: handle_open_def open_calls_def Let_def handle_child_calls then_state_after)
next
  case Section
  then show ?thesis
    by (cases "from_name (tag_name e)")
      (auto simp: handle_open_def open_calls_def Let_def run_calls_Cons then_state_after after_assoc after_def
        split: bind_splits option.splits prod.splits sum.splits)
qed (auto simp: handle_open_def open_calls_def Let_def split: option.splits)

definition close_calls :: "DriveState \<Rightarrow> DriveState \<times> Call list" where
  "close_calls d =
     (case ds_level d of
        Leaf \<Rightarrow> (d\<lparr>ds_level := Element\<rparr>, [])
      | Element \<Rightarrow> (d\<lparr>ds_level := Section\<rparr>, [CEnd])
      | Section \<Rightarrow> (d\<lparr>ds_level := Root\<rparr>, [])
      | Other \<Rightarrow> (d\<lparr>ds_level := Root\<rparr>, [])
      | Root \<Rightarrow> (d\<lparr>ds_level := Done\<rparr>, [])
      | _ \<Rightarrow> (d, []))"

lemma handle_close_calls:
  "handle_close S d s = (case close_calls d of (d', cs) \<Rightarrow> after (run_calls S s cs) (\<lambda>s. Some (Inr d', s)))"
  by (cases "ds_level d") (simp_all add: handle_close_def close_calls_def then_state_after)

definition event_calls :: "'f XmlLib \<Rightarrow> DriveState \<Rightarrow> XmlEvent \<Rightarrow> osc_error + DriveState \<times> Call list" where
  "event_calls L d ev =
     (case ev of EvStart e \<Rightarrow> open_calls L d e False | EvEmpty e \<Rightarrow> open_calls L d e True | EvEnd \<Rightarrow> Inr (close_calls d)
      | EvOther \<Rightarrow> Inr (d, []) | EvErr c \<Rightarrow> Inl (if c then Cancelled else MalformedXml))"

fun doc_frames :: "'f XmlLib \<Rightarrow> XmlEvent list \<Rightarrow> DriveState \<Rightarrow> (osc_error + DriveState) \<times> Call list" where
  "doc_frames L [] d = (Inr d, [])"
| "doc_frames L (ev # evs) d =
     (case event_calls L d ev of
        Inl err \<Rightarrow> (Inl err, [])
      | Inr (d', cs) \<Rightarrow> (case doc_frames L evs d' of (r, cs') \<Rightarrow> (r, cs @ cs')))"

lemma drive_loop_step:
  "drive_loop L S (ev # evs) d s =
    (case event_calls L d ev of Inl err \<Rightarrow> Some (Inl err, s)
     | Inr (d', cs) \<Rightarrow> after (run_calls S s cs) (\<lambda>s. drive_loop L S evs d' s))"
  by (cases ev)
    (auto simp: event_calls_def handle_open_calls handle_close_calls after_def split: bind_splits option.splits prod.splits sum.splits)

declare drive_loop.simps(2) [simp del]

text \<open>Driving a sink is making the document's calls, then reporting the document's own fate.\<close>

lemma drive_loop_frames:
  "drive_loop L S evs d s = after (run_calls S s (snd (doc_frames L evs d))) (\<lambda>s. Some (fst (doc_frames L evs d), s))"
proof (induction evs arbitrary: d s)
  case (Cons ev evs)
  show ?case
  proof (cases "event_calls L d ev")
    case (Inr p)
    obtain d' cs where p: "p = (d', cs)" by (cases p)
    obtain r cs' where f: "doc_frames L evs d' = (r, cs')" by fastforce
    have "drive_loop L S evs d' = (\<lambda>s. after (run_calls S s cs') (\<lambda>s. Some (r, s)))" using Cons.IH [of d'] f by auto
    then show ?thesis by (simp add: drive_loop_step Inr p f run_calls_append after_assoc)
  qed (simp add: drive_loop_step)
qed simp

definition doc_result :: "osc_error + DriveState \<Rightarrow> osc_error + unit" where
  "doc_result r = (case r of Inl err \<Rightarrow> Inl err | Inr d \<Rightarrow> if ds_level d \<noteq> Done then Inl TruncatedDocument else Inr ())"

lemma drive_osc_frames:
  "drive_osc L S evs s = after (run_calls S s (snd (doc_frames L evs drive_init))) (\<lambda>s. Some (doc_result (fst (doc_frames L evs drive_init)), s))"
  by (auto simp: drive_osc_def drive_loop_frames after_def doc_result_def split: option.splits prod.splits sum.splits)

section \<open>Whole elements\<close>

record OscObject =
  ob_action :: OscAction
  ob_kind :: ElementKind
  ob_tag :: BytesStart
  ob_children :: "Call list"

fun child_ok :: "OscAction \<Rightarrow> ElementKind \<Rightarrow> Call \<Rightarrow> bool" where
  "child_ok a k (CTag e) \<longleftrightarrow> a \<noteq> Delete"
| "child_ok a k (CNd e) \<longleftrightarrow> a \<noteq> Delete \<and> k = Way"
| "child_ok a k (CMember e) \<longleftrightarrow> a \<noteq> Delete \<and> k = Relation"
| "child_ok a k _ \<longleftrightarrow> False"

definition object_ok :: "OscObject \<Rightarrow> bool" where
  "object_ok b \<longleftrightarrow> (\<forall>c \<in> set (ob_children b). child_ok (ob_action b) (ob_kind b) c)"

definition object_calls :: "OscObject \<Rightarrow> Call list" where
  "object_calls b = CBegin (ob_action b) (ob_kind b) (ob_tag b) # ob_children b @ [CEnd]"

definition whole :: "Call list \<Rightarrow> bool" where
  "whole cs \<longleftrightarrow> (\<exists>obs. cs = concat (map object_calls obs) \<and> (\<forall>b \<in> set obs. object_ok b))"

lemma whole_Nil [simp]: "whole []"
  unfolding whole_def by (rule exI [of _ "[]"]) simp

lemma whole_snoc: "whole cs \<Longrightarrow> object_ok b \<Longrightarrow> whole (cs @ object_calls b)"
  unfolding whole_def by (elim exE, rule_tac x = "obs @ [b]" in exI) auto

text \<open>The calls made so far, in the state \<open>d\<close>: whole elements, then the open one's.\<close>

definition framed :: "DriveState \<Rightarrow> Call list \<Rightarrow> bool" where
  "framed d cs \<longleftrightarrow>
     (if ds_level d \<in> {Element, Leaf}
      then \<exists>as e ch. cs = as @ CBegin (ds_section d) (ds_open d) e # ch \<and> whole as \<and> (\<forall>c \<in> set ch. child_ok (ds_section d) (ds_open d) c)
      else whole cs)"

lemma framed_inside:
  "ds_level d = Element \<or> ds_level d = Leaf \<Longrightarrow> whole as \<Longrightarrow> \<forall>c \<in> set ch. child_ok (ds_section d) (ds_open d) c \<Longrightarrow>
    framed d (as @ CBegin (ds_section d) (ds_open d) e # ch)"
  unfolding framed_def by auto

lemma child_calls_ok: "child_calls L name e a k = Inr cs \<Longrightarrow> c \<in> set cs \<Longrightarrow> child_ok a k c"
  by (auto simp: child_calls_def map_sum_def split: if_splits sum.splits)

lemma framed_open:
  assumes "framed d cs" "open_calls L d e empty_tag = Inr (d', cs')"
  shows "framed d' (cs @ cs')"
proof (cases "ds_level d")
  case Element
  with assms obtain as e0 ch where c: "cs = as @ CBegin (ds_section d) (ds_open d) e0 # ch" "whole as"
    "\<forall>c \<in> set ch. child_ok (ds_section d) (ds_open d) c" by (auto simp: framed_def)
  have "\<forall>c \<in> set cs'. child_ok (ds_section d) (ds_open d) c" "ds_level d' \<in> {Element, Leaf}" "ds_section d' = ds_section d" "ds_open d' = ds_open d"
    using assms(2) Element child_calls_ok by (auto simp: open_calls_def Let_def split: sum.splits if_splits)
  then show ?thesis using c unfolding framed_def by (auto intro!: exI [of _ as])
next
  case Section
  then have w: "whole cs" using assms(1) by (simp add: framed_def)
  then have "framed d (cs @ [CBegin (ds_section d) k e, CEnd])" for k
    using whole_snoc [OF w, of "\<lparr>ob_action = ds_section d, ob_kind = k, ob_tag = e, ob_children = []\<rparr>"] Section
    by (simp add: object_ok_def object_calls_def framed_def)
  moreover have "framed (d\<lparr>ds_open := k, ds_level := Element\<rparr>) (cs @ [CBegin (ds_section d) k e])" for k
    using framed_inside [of "d\<lparr>ds_open := k, ds_level := Element\<rparr>" cs "[]" e] w by simp
  ultimately show ?thesis using assms(2) Section
    by (auto simp: open_calls_def Let_def split: option.splits if_splits)
qed (use assms in \<open>auto simp: open_calls_def Let_def framed_def handle_open_def split: option.splits if_splits\<close>)

lemma framed_close: "framed d cs \<Longrightarrow> close_calls d = (d', cs') \<Longrightarrow> framed d' (cs @ cs')"
proof (cases "ds_level d = Element")
  case True
  assume "framed d cs" and c: "close_calls d = (d', cs')"
  with True obtain as e ch where cs: "cs = as @ CBegin (ds_section d) (ds_open d) e # ch" "whole as"
    "\<forall>c \<in> set ch. child_ok (ds_section d) (ds_open d) c" by (auto simp: framed_def)
  then have "whole (cs @ [CEnd])"
    using whole_snoc [of as "\<lparr>ob_action = ds_section d, ob_kind = ds_open d, ob_tag = e, ob_children = ch\<rparr>"]
    by (simp add: object_ok_def object_calls_def)
  then show ?thesis using c True by (auto simp: close_calls_def framed_def)
next
  case False
  assume f: "framed d cs" and c: "close_calls d = (d', cs')"
  show ?thesis
  proof (cases "ds_level d")
    case Leaf
    with f c show ?thesis by (auto simp: close_calls_def framed_def [of d] intro: framed_inside [of "d\<lparr>ds_level := Element\<rparr>", simplified])
  qed (use False f c in \<open>auto simp: close_calls_def framed_def\<close>)
qed

lemma frames_framed: "framed d cs \<Longrightarrow> doc_frames L evs d = (Inr d', cs') \<Longrightarrow> framed d' (cs @ cs')"
proof (induction evs arbitrary: d cs cs')
  case (Cons ev evs)
  obtain d1 c1 where e: "event_calls L d ev = Inr (d1, c1)" using Cons.prems(2) by (auto split: sum.splits)
  obtain c2 where f: "doc_frames L evs d1 = (Inr d', c2)" "cs' = c1 @ c2" using Cons.prems(2) e by (auto split: prod.splits)
  have "framed d1 (cs @ c1)"
    using e framed_open [OF Cons.prems(1)] framed_close [OF Cons.prems(1)] Cons.prems(1)
    by (auto simp: event_calls_def split: XmlEvent.splits)
  with Cons.IH [OF _ f(1)] f(2) show ?case by (metis append_assoc)
qed simp

lemma accepted_whole: "doc_result (fst (doc_frames L evs drive_init)) = Inr () \<Longrightarrow> whole (snd (doc_frames L evs drive_init))"
proof -
  assume a: "doc_result (fst (doc_frames L evs drive_init)) = Inr ()"
  then obtain d' where d': "fst (doc_frames L evs drive_init) = Inr d'" "ds_level d' = Done"
    by (auto simp: doc_result_def split: sum.splits if_splits)
  have "framed drive_init []" by (simp add: framed_def drive_init_def)
  then have "framed d' (snd (doc_frames L evs drive_init))"
    using frames_framed [of drive_init "[]" L evs d'] d'(1) by (metis append_Nil prod.collapse)
  with d'(2) show ?thesis by (simp add: framed_def)
qed

section \<open>Recording and replaying\<close>

fun call_of :: "LexOp \<Rightarrow> BytesStart \<Rightarrow> Call" where
  "call_of (LexBegin a k) e = CBegin a k e"
| "call_of LexTag e = CTag e"
| "call_of LexNd e = CNd e"
| "call_of LexMember e = CMember e"
| "call_of LexEnd e = CEnd"

definition read_event :: "TagText \<Rightarrow> string \<Rightarrow> LexEvent \<Rightarrow> Call" where
  "read_event T txt ev = call_of (le_op ev) (tag_from_content T (slice (le_start ev) (le_end ev) txt) (le_name_len ev))"

definition batch_calls :: "TagText \<Rightarrow> LexBatch \<Rightarrow> Call list" where
  "batch_calls T b = map (read_event T (lb_text b)) (lb_events b)"

definition batch_wf :: "LexBatch \<Rightarrow> bool" where
  "batch_wf b \<longleftrightarrow> (\<forall>ev \<in> set (lb_events b). le_start ev \<le> le_end ev \<and> le_end ev \<le> length (lb_text b))"

text \<open>The law of the XML library the recording relies on, for one tag.\<close>

definition tag_faithful :: "TagText \<Rightarrow> BytesStart \<Rightarrow> bool" where
  "tag_faithful T e \<longleftrightarrow> tag_from_content T (tag_content T e) (length (tag_name e)) = e"

fun call_tag :: "Call \<Rightarrow> BytesStart option" where
  "call_tag (CBegin a k e) = Some e"
| "call_tag (CTag e) = Some e"
| "call_tag (CNd e) = Some e"
| "call_tag (CMember e) = Some e"
| "call_tag CEnd = None"

fun call_op :: "Call \<Rightarrow> LexOp" where
  "call_op (CBegin a k e) = LexBegin a k"
| "call_op (CTag e) = LexTag"
| "call_op (CNd e) = LexNd"
| "call_op (CMember e) = LexMember"
| "call_op CEnd = LexEnd"

lemma replay_calls: "LexBatch_replay T b S s = run_calls S s (batch_calls T b)"
proof -
  have "replay_events T S tx evs s = run_calls S s (map (read_event T tx) evs)" for tx evs s
  proof (induction evs arbitrary: s)
    case (Cons ev evs)
    have "sink_call S s (read_event T tx ev) =
      (case le_op ev of
          LexBegin action k \<Rightarrow> on_begin S s action k (tag_from_content T (slice (le_start ev) (le_end ev) tx) (le_name_len ev))
        | LexTag \<Rightarrow> on_tag S s (tag_from_content T (slice (le_start ev) (le_end ev) tx) (le_name_len ev))
        | LexNd \<Rightarrow> on_nd S s (tag_from_content T (slice (le_start ev) (le_end ev) tx) (le_name_len ev))
        | LexMember \<Rightarrow> on_member S s (tag_from_content T (slice (le_start ev) (le_end ev) tx) (le_name_len ev))
        | LexEnd \<Rightarrow> on_end S s)"
      by (cases "le_op ev") (simp_all add: read_event_def)
    with Cons.IH show ?case
      by (auto simp: Let_def run_calls_Cons after_def split: bind_splits option.splits prod.splits sum.splits)
  qed simp
  then show ?thesis by (simp add: LexBatch_replay_def batch_calls_def)
qed

lemma batch_push:
  assumes "batch_wf b" "\<forall>e. call_tag c = Some e \<longrightarrow> tag_faithful T e"
  shows "batch_wf (LexBatch_push T b (call_op c) (call_tag c))"
    "batch_calls T (LexBatch_push T b (call_op c) (call_tag c)) = batch_calls T b @ [c]"
proof -
  show "batch_wf (LexBatch_push T b (call_op c) (call_tag c))"
    using assms(1) by (auto simp: batch_wf_def LexBatch_push_def Let_def)
  have "map (read_event T (lb_text b @ x)) (lb_events b) = map (read_event T (lb_text b)) (lb_events b)" for x
    using assms(1) by (auto simp: batch_wf_def read_event_def)
  moreover have "call_of (call_op c) (tag_from_content T (case call_tag c of None \<Rightarrow> [] | Some e \<Rightarrow> tag_content T e)
      (case call_tag c of None \<Rightarrow> 0 | Some e \<Rightarrow> length (tag_name e))) = c"
    using assms(2) by (cases c) (auto simp: tag_faithful_def)
  ultimately show "batch_calls T (LexBatch_push T b (call_op c) (call_tag c)) = batch_calls T b @ [c]"
    by (auto simp: batch_calls_def LexBatch_push_def Let_def read_event_def slice_append_right)
qed

text \<open>The consumer that keeps every batch, and the replay of its batches in order.\<close>

definition collect_env :: "nat \<Rightarrow> LexBatch list LexEnv" where
  "collect_env n = \<lparr>lx_target = n, lx_seal = (\<lambda>b bs. (Inr (), bs @ [b])), lx_halted = (\<lambda>_. False)\<rparr>"

definition collect_new :: "LexBatch list LexSink" where
  "collect_new = \<lparr>lx_batch = LexBatch_default, lx_consumer = []\<rparr>"

fun replay_all :: "TagText \<Rightarrow> 's OscSink \<Rightarrow> LexBatch list \<Rightarrow> 's \<Rightarrow> 's sink_result" where
  "replay_all T S [] s = Some (Inr (), s)"
| "replay_all T S (b # bs) s = after (LexBatch_replay T b S s) (\<lambda>s. replay_all T S bs s)"

definition recorded :: "TagText \<Rightarrow> LexBatch list LexSink \<Rightarrow> Call list" where
  "recorded T x = concat (map (batch_calls T) (lx_consumer x)) @ batch_calls T (lx_batch x)"

lemma replay_all_calls: "replay_all T S bs s = run_calls S s (concat (map (batch_calls T) bs))"
proof (induction bs arbitrary: s)
  case (Cons b bs)
  then have "replay_all T S bs = (\<lambda>s. run_calls S s (concat (map (batch_calls T) bs)))" by auto
  then show ?case by (simp add: replay_calls run_calls_append)
qed simp

lemma batch_default [simp]: "batch_wf LexBatch_default" "batch_calls T LexBatch_default = []" "LexBatch_is_empty LexBatch_default"
  by (simp_all add: batch_wf_def batch_calls_def LexBatch_default_def LexBatch_is_empty_def)

definition pushed :: "TagText \<Rightarrow> 'c LexSink \<Rightarrow> Call \<Rightarrow> 'c LexSink" where
  "pushed T x c = x\<lparr>lx_batch := LexBatch_push T (lx_batch x) (call_op c) (call_tag c)\<rparr>"

lemma collect_call:
  "sink_call (lex_sink T (collect_env n)) x c = Some (Inr (),
     if c = CEnd \<and> n \<le> LexBatch_bytes (lx_batch (pushed T x c))
     then \<lparr>lx_batch = LexBatch_default, lx_consumer = lx_consumer x @ [lx_batch (pushed T x c)]\<rparr> else pushed T x c)"
  by (cases c) (auto simp: lex_sink_def LexSink_record_def LexSink_end_element_def LexSink_seal_def collect_env_def pushed_def)

lemma collect_step:
  assumes "batch_wf (lx_batch x)" "\<forall>e. call_tag c = Some e \<longrightarrow> tag_faithful T e"
    "sink_call (lex_sink T (collect_env n)) x c = Some (r, y)"
  shows "batch_wf (lx_batch y)" "recorded T y = recorded T x @ [c]" "r = Inr ()"
  using assms(3) batch_push [OF assms(1,2)]
  by (auto simp: collect_call recorded_def pushed_def split: if_splits)

lemma collect_run:
  assumes "batch_wf (lx_batch x)" "\<forall>c \<in> set cs. \<forall>e. call_tag c = Some e \<longrightarrow> tag_faithful T e"
  shows "\<exists>y. run_calls (lex_sink T (collect_env n)) x cs = Some (Inr (), y) \<and> batch_wf (lx_batch y) \<and> recorded T y = recorded T x @ cs"
  using assms
proof (induction cs arbitrary: x)
  case (Cons c cs)
  obtain z where z: "sink_call (lex_sink T (collect_env n)) x c = Some (Inr (), z)" by (simp add: collect_call)
  note st = collect_step [OF Cons.prems(1) _ z]
  have "batch_wf (lx_batch z)" "recorded T z = recorded T x @ [c]" using st Cons.prems(2) by simp_all
  with Cons.IH [of z] Cons.prems(2) show ?case by (auto simp: run_calls_Cons z)
qed simp

text \<open>Batches are cut between elements.\<close>

definition cut_clean :: "TagText \<Rightarrow> LexBatch list LexSink \<Rightarrow> bool" where
  "cut_clean T x \<longleftrightarrow> (\<forall>b \<in> set (lx_consumer x). whole (batch_calls T b)) \<and> whole (batch_calls T (lx_batch x))"

lemma collect_inner:
  assumes "batch_wf (lx_batch x)" "\<forall>c \<in> set cs. c \<noteq> CEnd \<and> (\<forall>e. call_tag c = Some e \<longrightarrow> tag_faithful T e)"
  shows "\<exists>b. run_calls (lex_sink T (collect_env n)) x cs = Some (Inr (), x\<lparr>lx_batch := b\<rparr>) \<and> batch_wf b \<and>
    batch_calls T b = batch_calls T (lx_batch x) @ cs"
  using assms
proof (induction cs arbitrary: x)
  case Nil
  then show ?case by (intro exI [of _ "lx_batch x"]) simp
next
  case (Cons c cs)
  let ?z = "pushed T x c"
  have z: "sink_call (lex_sink T (collect_env n)) x c = Some (Inr (), ?z)" using Cons.prems(2) by (simp add: collect_call)
  have "batch_wf (lx_batch ?z)" "batch_calls T (lx_batch ?z) = batch_calls T (lx_batch x) @ [c]"
    using batch_push [OF Cons.prems(1), of c T] Cons.prems(2) by (simp_all add: pushed_def)
  with Cons.IH [of ?z] Cons.prems(2) show ?case by (auto simp: run_calls_Cons z pushed_def)
qed

lemma collect_object:
  assumes "batch_wf (lx_batch x)" "cut_clean T x" "object_ok b" "\<forall>c \<in> set (object_calls b). \<forall>e. call_tag c = Some e \<longrightarrow> tag_faithful T e"
    "run_calls (lex_sink T (collect_env n)) x (object_calls b) = Some (r, y)"
  shows "cut_clean T y" "batch_wf (lx_batch y)" "r = Inr ()"
proof -
  let ?cs = "CBegin (ob_action b) (ob_kind b) (ob_tag b) # ob_children b"
  have ne: "\<forall>c \<in> set ?cs. c \<noteq> CEnd \<and> (\<forall>e. call_tag c = Some e \<longrightarrow> tag_faithful T e)"
    using assms(3,4) by (auto simp: object_ok_def object_calls_def)
  obtain b1 where b1: "run_calls (lex_sink T (collect_env n)) x ?cs = Some (Inr (), x\<lparr>lx_batch := b1\<rparr>)" "batch_wf b1"
    "batch_calls T b1 = batch_calls T (lx_batch x) @ ?cs"
    using collect_inner [OF assms(1) ne] by blast
  have cs: "object_calls b = ?cs @ [CEnd]" by (simp add: object_calls_def)
  have y: "sink_call (lex_sink T (collect_env n)) (x\<lparr>lx_batch := b1\<rparr>) CEnd = Some (r, y)"
    using assms(5) by (simp only: cs run_calls_append b1(1) after_simps run_calls_single)
  let ?p = "LexBatch_push T b1 LexEnd None"
  have p: "batch_wf ?p" "batch_calls T ?p = batch_calls T (lx_batch x) @ object_calls b"
    using batch_push [OF b1(2), of CEnd T] b1(3) by (simp_all add: object_calls_def)
  then have "whole (batch_calls T ?p)" using whole_snoc assms(2,3) by (simp add: cut_clean_def)
  then show "cut_clean T y" "batch_wf (lx_batch y)" "r = Inr ()"
    using y [unfolded collect_call] p assms(2) by (auto simp: pushed_def cut_clean_def split: if_splits)
qed

lemma collect_objects:
  assumes "batch_wf (lx_batch x)" "cut_clean T x" "\<forall>b \<in> set obs. object_ok b"
    "\<forall>c \<in> set (concat (map object_calls obs)). \<forall>e. call_tag c = Some e \<longrightarrow> tag_faithful T e"
    "run_calls (lex_sink T (collect_env n)) x (concat (map object_calls obs)) = Some (r, y)"
  shows "cut_clean T y"
  using assms
proof (induction obs arbitrary: x)
  case (Cons b obs)
  obtain r1 z where z: "run_calls (lex_sink T (collect_env n)) x (object_calls b) = Some (r1, z)"
    using Cons.prems(5) by (cases "run_calls (lex_sink T (collect_env n)) x (object_calls b)") (auto simp: run_calls_append)
  have "object_ok b" "\<forall>c \<in> set (object_calls b). \<forall>e. call_tag c = Some e \<longrightarrow> tag_faithful T e" using Cons.prems(3,4) by auto
  note ob = collect_object [OF Cons.prems(1,2) this z]
  show ?case
  proof (rule Cons.IH [OF ob(2,1)])
    show "\<forall>b \<in> set obs. object_ok b"
      "\<forall>c \<in> set (concat (map object_calls obs)). \<forall>e. call_tag c = Some e \<longrightarrow> tag_faithful T e" using Cons.prems(3,4) by auto
    show "run_calls (lex_sink T (collect_env n)) z (concat (map object_calls obs)) = Some (r, y)"
      using Cons.prems(5) z ob(3) by (simp add: run_calls_append)
  qed
qed simp

text \<open>Every recorded tag is a tag of the document.\<close>

definition event_faithful :: "TagText \<Rightarrow> XmlEvent \<Rightarrow> bool" where
  "event_faithful T ev = (case ev of EvStart e \<Rightarrow> tag_faithful T e | EvEmpty e \<Rightarrow> tag_faithful T e | _ \<Rightarrow> True)"

lemma child_calls_tag: "child_calls L name e a k = Inr cs \<Longrightarrow> c \<in> set cs \<Longrightarrow> call_tag c = Some e' \<Longrightarrow> e' = e"
  by (auto simp: child_calls_def map_sum_def split: if_splits sum.splits)

lemma open_calls_tag: "open_calls L d e b = Inr (d', cs) \<Longrightarrow> c \<in> set cs \<Longrightarrow> call_tag c = Some e' \<Longrightarrow> e' = e"
  by (cases "ds_level d")
    (auto simp: open_calls_def Let_def handle_open_def split: sum.splits option.splits if_splits dest: child_calls_tag)

lemma event_calls_faithful:
  "event_faithful T ev \<Longrightarrow> event_calls L d ev = Inr (d', cs) \<Longrightarrow> c \<in> set cs \<Longrightarrow> call_tag c = Some e \<Longrightarrow> tag_faithful T e"
  by (cases ev)
    (auto simp: event_calls_def event_faithful_def close_calls_def split: Level.splits dest: open_calls_tag)

lemma frames_faithful:
  "\<forall>ev \<in> set evs. event_faithful T ev \<Longrightarrow> c \<in> set (snd (doc_frames L evs d)) \<Longrightarrow> call_tag c = Some e \<Longrightarrow> tag_faithful T e"
proof (induction evs arbitrary: d)
  case (Cons ev evs)
  obtain d' cs where ev: "event_calls L d ev = Inr (d', cs)"
    using Cons.prems(2) by (auto split: sum.splits)
  then have "c \<in> set cs \<or> c \<in> set (snd (doc_frames L evs d'))" using Cons.prems(2) by (auto split: prod.splits)
  then show ?case
    using Cons.IH [of d'] Cons.prems(1,3) event_calls_faithful [OF _ ev] by auto
qed simp

lemma record_batches:
  assumes "\<forall>ev \<in> set evs. event_faithful T ev" "doc_result (fst (doc_frames L evs drive_init)) = Inr ()"
  obtains x z where "drive_osc L (lex_sink T (collect_env n)) evs collect_new = Some (Inr (), x)"
    "LexSink_finish (collect_env n) x = Some (Inr (), z)"
    "concat (map (batch_calls T) (lx_consumer z)) = snd (doc_frames L evs drive_init)" "\<forall>b \<in> set (lx_consumer z). whole (batch_calls T b)"
proof -
  let ?f = "doc_frames L evs drive_init" and ?E = "collect_env n"
  have fa: "\<forall>c \<in> set (snd ?f). \<forall>e. call_tag c = Some e \<longrightarrow> tag_faithful T e" using frames_faithful [OF assms(1)] by blast
  obtain y where y: "run_calls (lex_sink T ?E) collect_new (snd ?f) = Some (Inr (), y)" "recorded T y = snd ?f"
    using collect_run [OF _ fa, of collect_new n] by (auto simp: collect_new_def recorded_def)
  from accepted_whole [OF assms(2)] obtain obs where obs: "snd ?f = concat (map object_calls obs)" "\<forall>b \<in> set obs. object_ok b"
    by (auto simp: whole_def)
  have "cut_clean T collect_new" by (simp add: cut_clean_def collect_new_def)
  then have clean: "cut_clean T y"
    using collect_objects [of collect_new T obs n "Inr ()" y] obs fa y(1) by (simp add: collect_new_def)
  have d: "drive_osc L (lex_sink T ?E) evs collect_new = Some (Inr (), y)" using y(1) assms(2) by (simp add: drive_osc_frames)
  show thesis
  proof (cases "LexBatch_is_empty (lx_batch y)")
    case True
    then show ?thesis using that [of y y] d y(2) clean
      by (simp add: LexSink_finish_def recorded_def batch_calls_def LexBatch_is_empty_def cut_clean_def)
  next
    case False
    then show ?thesis using that [of y "\<lparr>lx_batch = LexBatch_default, lx_consumer = lx_consumer y @ [lx_batch y]\<rparr>"] d y(2) clean
      by (auto simp: LexSink_finish_def LexSink_seal_def collect_env_def recorded_def cut_clean_def)
  qed
qed

section \<open>Properties\<close>

text \<open>
  C20: recording a change document and replaying the recording is the same as reading it
  directly. When the recording sink accepts a document, replaying its batches in order into
  any sink gives the result and final state of driving that sink on the document, and every
  batch holds whole elements; when it refuses, no sink succeeds on the document. The XML
  library is assumed to read a tag back from its own content.
\<close>

theorem record_replay:
  assumes "\<forall>ev \<in> set evs. event_faithful T ev" "drive_osc L (lex_sink T (collect_env n)) evs collect_new = Some (r, x)"
  shows "case r of
      Inr _ \<Rightarrow> (\<exists>y. LexSink_finish (collect_env n) x = Some (Inr (), y) \<and> drive_osc L S evs s = replay_all T S (lx_consumer y) s \<and>
        (\<forall>b \<in> set (lx_consumer y). whole (batch_calls T b)))
    | Inl _ \<Rightarrow> (case drive_osc L S evs s of Some (Inr _, _) \<Rightarrow> False | _ \<Rightarrow> True)"
proof -
  let ?f = "doc_frames L evs drive_init" and ?E = "collect_env n"
  have r: "r = doc_result (fst ?f)"
  proof -
    have "\<forall>c \<in> set (snd ?f). \<forall>e. call_tag c = Some e \<longrightarrow> tag_faithful T e" using frames_faithful [OF assms(1)] by blast
    then obtain y where "run_calls (lex_sink T ?E) collect_new (snd ?f) = Some (Inr (), y)"
      using collect_run [of collect_new "snd ?f" T n] by (auto simp: collect_new_def)
    then show ?thesis using assms(2) by (simp add: drive_osc_frames)
  qed
  show ?thesis
  proof (cases r)
    case (Inl e)
    then have "doc_result (fst ?f) = Inl e" using r by simp
    then show ?thesis
      by (cases "run_calls S s (snd ?f)") (auto simp: Inl drive_osc_frames after_def split: sum.splits)
  next
    case (Inr u)
    then have ok: "doc_result (fst ?f) = Inr ()" using r by simp
    obtain y z where z: "drive_osc L (lex_sink T ?E) evs collect_new = Some (Inr (), y)" "LexSink_finish ?E y = Some (Inr (), z)"
      "concat (map (batch_calls T) (lx_consumer z)) = snd ?f" "\<forall>b \<in> set (lx_consumer z). whole (batch_calls T b)"
      by (rule record_batches [OF assms(1) ok])
    have "drive_osc L S evs s = replay_all T S (lx_consumer z) s"
      unfolding replay_all_calls z(3) by (simp add: drive_osc_frames ok)
    then show ?thesis using Inr z assms(2) by auto
  qed
qed

definition sample_node :: BytesStart where
  "sample_node = \<lparr>tag_name = ''node'', attributes = [Some (''id'', ''7''), Some (''version'', ''2'')]\<rparr>"

definition plain_tag :: "string \<Rightarrow> BytesStart" where
  "plain_tag name = \<lparr>tag_name = name, attributes = []\<rparr>"

definition sample_text :: TagText where
  "sample_text = \<lparr>tag_content = (\<lambda>e. if e = sample_node then ''node id=7 version=2'' else tag_name e),
     tag_from_content = (\<lambda>s n. if s = ''node id=7 version=2'' then sample_node else plain_tag s)\<rparr>"

definition sample_doc :: "XmlEvent list" where
  "sample_doc = [EvStart (plain_tag ''osmChange''), EvStart (plain_tag ''delete''), EvOther, EvEmpty sample_node, EvEnd, EvEnd]"

definition sample_lib :: "unit XmlLib" where
  "sample_lib = \<lparr>normalized_value = Some, f64_from_str = (\<lambda>_. None), f64_is_finite = (\<lambda>_. True), f64_le = (\<lambda>_ _. True),
     f64_less = (\<lambda>_ _. False), f64_neg = id, f64_mul = (\<lambda>_ _. ()), f64_literal = (\<lambda>_. ()), f64_from_int = (\<lambda>_. ()), f64_round_i32 = (\<lambda>_. 0)\<rparr>"

theorem record_replay_witness:
  "\<exists>x y. drive_osc sample_lib (lex_sink sample_text (collect_env 1)) sample_doc collect_new = Some (Inr (), x) \<and>
    LexSink_finish (collect_env 1) x = Some (Inr (), y) \<and>
    drive_osc sample_lib (compact_sink sample_lib) sample_doc (CompactSink_new CompactDiffOverlay_new) =
      replay_all sample_text (compact_sink sample_lib) (lx_consumer y) (CompactSink_new CompactDiffOverlay_new)"
proof -
  have f: "\<forall>ev \<in> set sample_doc. event_faithful sample_text ev" by code_simp
  have "map_option fst (drive_osc sample_lib (lex_sink sample_text (collect_env 1)) sample_doc collect_new) = Some (Inr ())"
    by code_simp
  then obtain x where x: "drive_osc sample_lib (lex_sink sample_text (collect_env 1)) sample_doc collect_new = Some (Inr (), x)"
    by auto
  from record_replay [OF f x, of "compact_sink sample_lib" "CompactSink_new CompactDiffOverlay_new"] x show ?thesis by auto
qed

end
