(* ===== verification/Osc_Apply.thy ===== *)
theory Osc_Apply
  imports Osc_Drive "HOL-Library.Multiset"
begin

text \<open>
  What a change document means to apply-changes: the elements the driver frames, parsed into
  an object, a version claim and a final state, and applied in order to an abstract overlay
  under the version rule. The overlay sink (\<open>Osc_Sink\<close>) is shown to compute this, up to the
  refusals of its \<open>u32\<close> limits, and the sorted tables that apply-changes reads afterwards to
  hold exactly the surviving changes.
\<close>

section \<open>The meaning of an element\<close>

definition abs_meta :: "'f XmlLib \<Rightarrow> BytesStart \<Rightarrow> osc_error + i32 option \<times> Metadata option" where
  "abs_meta L e =
     (case scan_meta_attrs (arena_meta_field L) (attributes e) (ArenaMeta_default, None) False of
        Inl err \<Rightarrow> Inl err
      | Inr ((m, user), present) \<Rightarrow>
          Inr (version_claim m,
               if present
               then Some \<lparr>md_version = am_version m, md_timestamp = am_timestamp m, md_changeset = am_changeset m, md_uid = am_uid m,
                      md_user = (case user of None \<Rightarrow> [] | Some u \<Rightarrow> str_bytes u), md_visible = (am_flags m AND META_FLAG_HIDDEN = 0)\<rparr>
               else None))"

record Children =
  ch_tags :: "(bytes \<times> bytes) list"
  ch_refs :: "i64 list"
  ch_members :: "(MemberType \<times> i64 \<times> bytes) list"

definition no_children :: Children where
  "no_children = \<lparr>ch_tags = [], ch_refs = [], ch_members = []\<rparr>"

fun abs_child :: "'f XmlLib \<Rightarrow> Call \<Rightarrow> Children \<Rightarrow> osc_error + Children" where
  "abs_child L (CTag e) c = bind_sum (parse_tag L e) (\<lambda>(k, v). Inr (c\<lparr>ch_tags := ch_tags c @ [(str_bytes k, str_bytes v)]\<rparr>))"
| "abs_child L (CNd e) c = bind_sum (parse_nd e) (\<lambda>r. Inr (c\<lparr>ch_refs := ch_refs c @ [r]\<rparr>))"
| "abs_child L (CMember e) c = bind_sum (parse_member L e) (\<lambda>m.
     Inr (c\<lparr>ch_members := ch_members c @ [(pm_member_type m, pm_ref_id m, str_bytes (pm_role m))]\<rparr>))"
| "abs_child L _ c = Inr c"

fun abs_children :: "'f XmlLib \<Rightarrow> Call list \<Rightarrow> Children \<Rightarrow> osc_error + Children" where
  "abs_children L [] c = Inr c"
| "abs_children L (x # xs) c = bind_sum (abs_child L x c) (abs_children L xs)"

definition abs_coords :: "'f XmlLib \<Rightarrow> ElementKind \<Rightarrow> BytesStart \<Rightarrow> i64 \<Rightarrow> osc_error + i32 \<times> i32" where
  "abs_coords L k e i =
     (if k = Node
      then bind_sum (coord_to_decimicro L e ''lat'' i) (\<lambda>lat. bind_sum (coord_to_decimicro L e ''lon'' i) (\<lambda>lon. Inr (lat, lon)))
      else Inr (0, 0))"

definition content_of :: "ElementKind \<Rightarrow> i32 \<times> i32 \<Rightarrow> Children \<Rightarrow> Metadata option \<Rightarrow> Content" where
  "content_of k ll c md =
     (case k of Node \<Rightarrow> NodeContent (fst ll) (snd ll) (ch_tags c) md | Way \<Rightarrow> WayContent (ch_refs c) (ch_tags c) md
      | Relation \<Rightarrow> RelationContent (ch_members c) (ch_tags c) md)"

definition abs_object :: "'f XmlLib \<Rightarrow> OscObject \<Rightarrow> osc_error + i64 \<times> i32 option \<times> Final" where
  "abs_object L b =
     bind_sum (parse_i64_attr (ob_tag b) ''id'') (\<lambda>i.
     bind_sum (abs_meta L (ob_tag b)) (\<lambda>(claim, md).
     if ob_action b = Delete then Inr (i, claim, Removed)
     else bind_sum (abs_coords L (ob_kind b) (ob_tag b) i) (\<lambda>ll.
          bind_sum (abs_children L (ob_children b) no_children) (\<lambda>c.
            Inr (i, claim, Upsert (content_of (ob_kind b) ll c md))))))"

definition abs_step :: "'f XmlLib \<Rightarrow> bool \<Rightarrow> OscObject \<Rightarrow> AbsOverlay \<Rightarrow> osc_error + AbsOverlay" where
  "abs_step L allow b s =
     bind_sum (abs_object L b) (\<lambda>(i, claim, f).
     bind_sum (abs_gate ''OSC change overlay'' allow s (ob_kind b) i claim) (\<lambda>_. Inr (abs_put s (ob_kind b) i claim f)))"

fun abs_run :: "'f XmlLib \<Rightarrow> bool \<Rightarrow> OscObject list \<Rightarrow> AbsOverlay \<Rightarrow> (osc_error + unit) \<times> AbsOverlay" where
  "abs_run L allow [] s = (Inr (), s)"
| "abs_run L allow (b # bs) s = (case abs_step L allow b s of Inl e \<Rightarrow> (Inl e, s) | Inr s' \<Rightarrow> abs_run L allow bs s')"

text \<open>The refusals the abstract overlay does not have.\<close>

fun overflow :: "osc_error \<Rightarrow> bool" where
  "overflow (InternerOverflow _) = True"
| "overflow (CountOverflow _ _ _ _) = True"
| "overflow _ = False"

text \<open>Normalised attribute values are Rust strings.\<close>

definition norm_str :: "'f XmlLib \<Rightarrow> bool" where
  "norm_str L \<longleftrightarrow> (\<forall>v t. normalized_value L v = Some t \<longrightarrow> utf8_valid (str_bytes t))"

section \<open>Metadata\<close>

lemma flag_lemmas:
  "META_FLAG_PRESENT \<noteq> 0" "META_FLAG_HAS_USER \<noteq> 0"
  "((x :: u8) OR META_FLAG_PRESENT) AND META_FLAG_PRESENT \<noteq> 0" "(x OR META_FLAG_HAS_USER) AND META_FLAG_HAS_USER \<noteq> 0"
  "(x OR META_FLAG_HAS_USER) AND META_FLAG_PRESENT = x AND META_FLAG_PRESENT"
  "(x OR META_FLAG_PRESENT) AND META_FLAG_HAS_USER = x AND META_FLAG_HAS_USER"
  "(x OR META_FLAG_PRESENT) AND META_FLAG_HIDDEN = x AND META_FLAG_HIDDEN"
  "(x OR META_FLAG_HAS_USER) AND META_FLAG_HIDDEN = x AND META_FLAG_HIDDEN"
  "(x OR META_FLAG_PRESENT) AND META_FLAG_HAS_VERSION = x AND META_FLAG_HAS_VERSION"
  "(x OR META_FLAG_HAS_USER) AND META_FLAG_HAS_VERSION = x AND META_FLAG_HAS_VERSION"
  "(x OR META_FLAG_HAS_VERSION) AND META_FLAG_PRESENT = x AND META_FLAG_PRESENT"
  "(x OR META_FLAG_HIDDEN) AND META_FLAG_PRESENT = x AND META_FLAG_PRESENT"
  "(x OR META_FLAG_HAS_VERSION) AND META_FLAG_HAS_USER = x AND META_FLAG_HAS_USER"
  "(x OR META_FLAG_HIDDEN) AND META_FLAG_HAS_USER = x AND META_FLAG_HAS_USER"
  by (simp_all add: META_FLAG_PRESENT_def META_FLAG_HAS_USER_def META_FLAG_HIDDEN_def META_FLAG_HAS_VERSION_def
      bit.conj_disj_distrib2)

lemma overlay_intern_parts [simp]:
  "fst (overlay_intern ov x) = fst (intern (ov_interner ov) x)" "ov_interner (snd (overlay_intern ov x)) = snd (intern (ov_interner ov) x)"
  by (simp_all add: overlay_intern_def split_beta)

lemma overlay_intern_result:
  assumes "represents ov s" "utf8_valid x"
  shows "case fst (overlay_intern ov x) of Inr n \<Rightarrow> resolve (strings (ov_interner (snd (overlay_intern ov x)))) n = Some x | Inl e \<Rightarrow> overflow e"
proof -
  have ok: "interner_ok (ov_interner ov)" using assms(1) by (simp add: represents_def overlay_inv_def)
  then obtain ss where ss: "interned ss (ov_interner ov)" by (auto simp: interner_ok_def)
  show ?thesis
  proof (cases "fst (intern (ov_interner ov) x)")
    case (Inr n)
    then show ?thesis using pool.add_gets [OF ok assms(2)] by simp
  next
    case (Inl e)
    from ss assms(2) show ?thesis
      by (cases rule: intern_cases) (use Inl in auto)
  qed
qed

lemma overlay_intern_allow [simp]: "ov_allow (snd (overlay_intern ov x)) = ov_allow ov"
  by (simp add: overlay_intern_def split: prod.splits)

text \<open>The scan sets neither of the two flags that are decided after it, and reads user names through normalisation.\<close>

lemma scan_flags:
  assumes "scan_meta_attrs (arena_meta_field L) as mu p = Inr (mu', p')" "am_flags (fst mu) AND META_FLAG_PRESENT = 0"
    "am_flags (fst mu) AND META_FLAG_HAS_USER = 0" "norm_str L" "\<forall>u. snd mu = Some u \<longrightarrow> utf8_valid (str_bytes u)"
    "snd mu \<noteq> None \<longrightarrow> p"
  shows "am_flags (fst mu') AND META_FLAG_PRESENT = 0 \<and> am_flags (fst mu') AND META_FLAG_HAS_USER = 0 \<and>
    (\<forall>u. snd mu' = Some u \<longrightarrow> utf8_valid (str_bytes u)) \<and> (snd mu' \<noteq> None \<longrightarrow> p')"
  using assms
proof (induction "arena_meta_field L" as mu p rule: scan_meta_attrs.induct)
  case (3 key v as mu p)
  show ?case
  proof (cases "meta_field_of key")
    case None
    then show ?thesis using 3 by simp
  next
    case (Some field)
    obtain mu1 where f: "arena_meta_field L field v mu = Inr mu1" using 3(3) Some by (auto split: sum.splits)
    obtain m user where mu: "mu = (m, user)" by (cases mu)
    have "am_flags (fst mu1) AND META_FLAG_PRESENT = 0 \<and> am_flags (fst mu1) AND META_FLAG_HAS_USER = 0 \<and>
        (\<forall>u. snd mu1 = Some u \<longrightarrow> utf8_valid (str_bytes u))"
      using f 3(4-7) by (cases field)
        (auto simp: arena_meta_field_def mu bind_sum_def flag_lemmas norm_str_def split: sum.splits option.splits if_splits)
    with 3(2) [OF Some f] 3(3,6) Some f show ?thesis by simp
  qed
qed simp_all

text \<open>One overlay step that keeps the meaning: more strings, the same objects.\<close>

definition extends :: "CompactDiffOverlay \<Rightarrow> AbsOverlay \<Rightarrow> CompactDiffOverlay \<Rightarrow> bool" where
  "extends ov s ov' \<longleftrightarrow> represents ov' s \<and> pool_extends (strings (ov_interner ov)) (strings (ov_interner ov')) \<and> ov_allow ov' = ov_allow ov"

lemma extends_refl: "represents ov s \<Longrightarrow> extends ov s ov"
  by (simp add: extends_def)

lemma extends_trans: "extends a s b \<Longrightarrow> extends b s c \<Longrightarrow> extends a s c"
  by (auto simp: extends_def intro: pool_extends_trans)

lemma extends_intern: "represents ov s \<Longrightarrow> utf8_valid x \<Longrightarrow> extends ov s (snd (overlay_intern ov x))"
  using represents_intern by (simp add: extends_def)

lemma arena_meta_spec:
  assumes r: "represents ov s" and n: "norm_str L" and a: "arena_meta L e ov = (res, ov')"
  shows "extends ov s ov'"
    "case res of Inl err \<Rightarrow> abs_meta L e = Inl err \<or> overflow err
     | Inr m \<Rightarrow> (\<exists>md. abs_meta L e = Inr (version_claim m, md) \<and> meta_view (strings (ov_interner ov')) m = Some md)"
proof -
  let ?scan = "scan_meta_attrs (arena_meta_field L) (attributes e) (ArenaMeta_default, None) False"
  have "extends ov s ov' \<and> (case res of Inl err \<Rightarrow> abs_meta L e = Inl err \<or> overflow err
     | Inr m \<Rightarrow> (\<exists>md. abs_meta L e = Inr (version_claim m, md) \<and> meta_view (strings (ov_interner ov')) m = Some md))"
  proof (cases ?scan)
    case (Inl err)
    then show ?thesis using a extends_refl [OF r] by (auto simp: arena_meta_def abs_meta_def)
  next
    case (Inr q)
    obtain m user p where q: "q = ((m, user), p)" by (cases q) auto
    have fl: "am_flags m AND META_FLAG_PRESENT = 0" "am_flags m AND META_FLAG_HAS_USER = 0" "\<forall>u. user = Some u \<longrightarrow> utf8_valid (str_bytes u)"
      "user \<noteq> None \<longrightarrow> p"
      using scan_flags [OF Inr [unfolded q]] n by (auto simp: ArenaMeta_default_def)
    show ?thesis
    proof (cases user)
      case None
      then show ?thesis using a fl Inr extends_refl [OF r]
        by (auto simp: arena_meta_def abs_meta_def q Let_def version_claim_def meta_view_def flag_lemmas)
    next
      case (Some u)
      then have u: "utf8_valid (str_bytes u)" and p: "p" using fl by auto
      obtain ir ov1 where i: "overlay_intern ov (str_bytes u) = (ir, ov1)" by fastforce
      have ex: "extends ov s ov1" using extends_intern [OF r u] i by simp
      note res = overlay_intern_result [OF r u, unfolded i]
      show ?thesis
        using a fl Inr i ex Some p res
        by (cases ir) (auto simp: arena_meta_def abs_meta_def q Let_def version_claim_def meta_view_def flag_lemmas)
    qed
  qed
  then show "extends ov s ov'"
    "case res of Inl err \<Rightarrow> abs_meta L e = Inl err \<or> overflow err
     | Inr m \<Rightarrow> (\<exists>md. abs_meta L e = Inr (version_claim m, md) \<and> meta_view (strings (ov_interner ov')) m = Some md)" by auto
qed

section \<open>Staging\<close>

text \<open>The staged element holds the children \<open>c\<close> read so far.\<close>

definition staged_as :: "StringTable \<Rightarrow> Staging \<Rightarrow> Children \<Rightarrow> bool" where
  "staged_as st g c \<longleftrightarrow> length (sg_tag_keys g) = length (sg_tag_values g) \<and>
     list_all2 (tag_reads st) (zip (sg_tag_keys g) (map str_bytes (sg_tag_values g))) (ch_tags c) \<and>
     sg_refs g = ch_refs c \<and> list_all2 (member_reads st) (sg_members g) (ch_members c)"

lemma staged_extend: "staged_as st g c \<Longrightarrow> pool_extends st st' \<Longrightarrow> staged_as st' g c"
  by (auto simp: staged_as_def intro: views_extend)

text \<open>The fields fixed when the element began.\<close>

definition head_of :: "Staging \<Rightarrow> ElementKind \<times> i64 \<times> i32 \<times> i32 \<times> ArenaMeta" where
  "head_of g = (sg_kind g, sg_id g, sg_lat g, sg_lon g, sg_meta g)"

definition sink_holds :: "CompactSink \<Rightarrow> AbsOverlay \<Rightarrow> Staging \<Rightarrow> Children \<Rightarrow> bool" where
  "sink_holds sk s g c \<longleftrightarrow> represents (sk_overlay sk) s \<and> sk_staging sk = Some g \<and> staged_as (strings (ov_interner (sk_overlay sk))) g c"

lemma member_type_byte:
  "member_type_to_byte (pm_member_type m) = Inr (ordinal (pm_kind m))" "byte_to_member_type (ordinal (pm_kind m)) = Some (pm_member_type m)"
  by (cases "pm_kind m"; simp add: pm_member_type_def byte_to_member_type_def)+

lemma parse_str_valid: "norm_str L \<Longrightarrow> parse_str_attr L e name = Inr t \<Longrightarrow> utf8_valid (str_bytes t)"
  by (auto simp: parse_str_attr_def append_str_attr_def bind_sum_def norm_str_def split: sum.splits option.splits)

lemma parse_tag_valid: "norm_str L \<Longrightarrow> parse_tag L e = Inr (k, v) \<Longrightarrow> utf8_valid (str_bytes k) \<and> utf8_valid (str_bytes v)"
  by (auto simp: parse_tag_def bind_sum_def split: sum.splits dest: parse_str_valid)

lemma parse_member_valid: "norm_str L \<Longrightarrow> parse_member L e = Inr m \<Longrightarrow> utf8_valid (str_bytes (pm_role m))"
  by (auto simp: parse_member_def parse_member_into_def append_str_attr_optional_def bind_sum_def norm_str_def str_bytes_def
      split: sum.splits option.splits)

lemma child_step:
  assumes n: "norm_str L" and h: "sink_holds sk s g c" and x: "child_ok a (sg_kind g) x"
  obtains r sk' where "sink_call (compact_sink L) sk x = Some (r, sk')" "extends (sk_overlay sk) s (sk_overlay sk')"
    "case r of Inl err \<Rightarrow> abs_child L x c = Inl err \<or> overflow err
     | Inr _ \<Rightarrow> (\<exists>g' c'. abs_child L x c = Inr c' \<and> sink_holds sk' s g' c' \<and> head_of g' = head_of g)"
proof -
  let ?ov = "sk_overlay sk"
  have r: "represents ?ov s" and g: "sk_staging sk = Some g" and st: "staged_as (strings (ov_interner ?ov)) g c"
    using h by (auto simp: sink_holds_def)
  have k: "\<exists>r sk'. sink_call (compact_sink L) sk x = Some (r, sk') \<and> extends ?ov s (sk_overlay sk') \<and>
    (case r of Inl err \<Rightarrow> abs_child L x c = Inl err \<or> overflow err
     | Inr _ \<Rightarrow> (\<exists>g' c'. abs_child L x c = Inr c' \<and> sink_holds sk' s g' c' \<and> head_of g' = head_of g))"
  proof (cases x)
    case (CTag e)
    show ?thesis
    proof (cases "parse_tag L e")
      case (Inl err)
      then show ?thesis using extends_refl [OF r] by (simp add: CTag compact_sink_def CompactSink_tag_def bind_sum_def)
    next
      case (Inr kv)
      obtain ks v where kv: "kv = (ks, v)" by (cases kv)
      have u: "utf8_valid (str_bytes ks)" "utf8_valid (str_bytes v)" using parse_tag_valid [OF n] Inr kv by auto
      obtain ir ov1 where i: "overlay_intern ?ov (str_bytes ks) = (ir, ov1)" by fastforce
      have ex: "extends ?ov s ov1" using extends_intern [OF r u(1)] i by simp
      note res = overlay_intern_result [OF r u(1), unfolded i]
      show ?thesis
      proof (cases ir)
        case (Inl err)
        then show ?thesis using res ex Inr kv i by (auto simp: CTag compact_sink_def CompactSink_tag_def)
      next
        case id: (Inr key)
        let ?g = "g\<lparr>sg_tag_keys := sg_tag_keys g @ [key], sg_tag_values := sg_tag_values g @ [v]\<rparr>"
        have "staged_as (strings (ov_interner ov1)) ?g (c\<lparr>ch_tags := ch_tags c @ [(str_bytes ks, str_bytes v)]\<rparr>)"
          using staged_extend [OF st, of "strings (ov_interner ov1)"] ex res id u
          by (auto simp: staged_as_def extends_def tag_reads_def intro!: list_all2_appendI)
        then show ?thesis using id ex Inr kv i g
          by (auto simp: CTag compact_sink_def CompactSink_tag_def bind_sum_def sink_holds_def extends_def head_of_def)
      qed
    qed
  next
    case (CNd e)
    show ?thesis
    proof (cases "parse_nd e")
      case (Inl err)
      then show ?thesis using extends_refl [OF r] by (simp add: CNd compact_sink_def CompactSink_nd_def bind_sum_def)
    next
      case (Inr i)
      then show ?thesis using extends_refl [OF r] g r st
        by (auto simp: CNd compact_sink_def CompactSink_nd_def bind_sum_def sink_holds_def staged_as_def head_of_def)
    qed
  next
    case (CMember e)
    show ?thesis
    proof (cases "parse_member L e")
      case (Inl err)
      then show ?thesis using extends_refl [OF r] by (simp add: CMember compact_sink_def CompactSink_member_def bind_sum_def)
    next
      case (Inr m)
      have u: "utf8_valid (str_bytes (pm_role m))" using parse_member_valid [OF n Inr] .
      obtain ir ov1 where i: "overlay_intern ?ov (str_bytes (pm_role m)) = (ir, ov1)" by fastforce
      have ex: "extends ?ov s ov1" using extends_intern [OF r u] i by simp
      note res = overlay_intern_result [OF r u, unfolded i]
      show ?thesis
      proof (cases ir)
        case (Inl err)
        then show ?thesis using res ex Inr i
          by (auto simp: CMember compact_sink_def CompactSink_member_def bind_sum_def member_type_byte)
      next
        case id: (Inr role)
        let ?g = "g\<lparr>sg_members := sg_members g @ [(pm_ref_id m, ordinal (pm_kind m), role)]\<rparr>"
        have "staged_as (strings (ov_interner ov1)) ?g (c\<lparr>ch_members := ch_members c @ [(pm_member_type m, pm_ref_id m, str_bytes (pm_role m))]\<rparr>)"
          using staged_extend [OF st, of "strings (ov_interner ov1)"] ex res id
          by (auto simp: staged_as_def extends_def member_reads_def member_type_byte intro!: list_all2_appendI)
        then show ?thesis using id ex Inr i g
          by (auto simp: CMember compact_sink_def CompactSink_member_def bind_sum_def sink_holds_def extends_def head_of_def member_type_byte)
      qed
    qed
  qed (use x in auto)
  then show thesis using that by blast
qed

lemma children_run:
  assumes n: "norm_str L" and h: "sink_holds sk s g c" and x: "\<forall>x \<in> set xs. child_ok a (sg_kind g) x"
  obtains r sk' where "run_calls (compact_sink L) sk xs = Some (r, sk')" "extends (sk_overlay sk) s (sk_overlay sk')"
    "case r of Inl err \<Rightarrow> abs_children L xs c = Inl err \<or> overflow err
     | Inr _ \<Rightarrow> (\<exists>g' c'. abs_children L xs c = Inr c' \<and> sink_holds sk' s g' c' \<and> head_of g' = head_of g)"
proof -
  have "\<exists>r sk'. run_calls (compact_sink L) sk xs = Some (r, sk') \<and> extends (sk_overlay sk) s (sk_overlay sk') \<and>
    (case r of Inl err \<Rightarrow> abs_children L xs c = Inl err \<or> overflow err
     | Inr _ \<Rightarrow> (\<exists>g' c'. abs_children L xs c = Inr c' \<and> sink_holds sk' s g' c' \<and> head_of g' = head_of g))"
    using h x
  proof (induction xs arbitrary: sk g c)
    case Nil
    then show ?case using extends_refl by (auto simp: sink_holds_def)
  next
    case (Cons y ys)
    have ok: "child_ok a (sg_kind g) y" using Cons.prems(2) by simp
    obtain r1 sk1 where s1: "sink_call (compact_sink L) sk y = Some (r1, sk1)" "extends (sk_overlay sk) s (sk_overlay sk1)"
      "case r1 of Inl err \<Rightarrow> abs_child L y c = Inl err \<or> overflow err
       | Inr _ \<Rightarrow> (\<exists>g' c'. abs_child L y c = Inr c' \<and> sink_holds sk1 s g' c' \<and> head_of g' = head_of g)"
      by (rule child_step [OF n Cons.prems(1) ok])
    show ?case
    proof (cases r1)
      case (Inl err)
      then show ?thesis using s1 by (auto simp: run_calls_Cons bind_sum_def)
    next
      case (Inr u)
      then obtain g1 c1 where c1: "abs_child L y c = Inr c1" "sink_holds sk1 s g1 c1" "head_of g1 = head_of g" using s1(3) by auto
      then have "sg_kind g1 = sg_kind g" by (simp add: head_of_def)
      with Cons.IH [OF c1(2)] Cons.prems(2) obtain r sk' where
        "run_calls (compact_sink L) sk1 ys = Some (r, sk')" "extends (sk_overlay sk1) s (sk_overlay sk')"
        "case r of Inl err \<Rightarrow> abs_children L ys c1 = Inl err \<or> overflow err
         | Inr _ \<Rightarrow> (\<exists>g' c'. abs_children L ys c1 = Inr c' \<and> sink_holds sk' s g' c' \<and> head_of g' = head_of g1)"
        by auto
      moreover have "abs_children L (y # ys) c = abs_children L ys c1" by (simp add: bind_sum_def c1(1))
      ultimately show ?thesis using s1(1,2) Inr c1(3)
        by (cases r) (auto simp: run_calls_Cons simp del: abs_children.simps intro: extends_trans)
    qed
  qed
  then show thesis using that by blast
qed

section \<open>Elements\<close>

text \<open>Ending a staged element.\<close>

lemma arena_append_overflow:
  "fst (arena_append_node a i lat lon tags m) = Inl e \<Longrightarrow> overflow e"
  "fst (arena_append_way a i refs tags m) = Inl e \<Longrightarrow> overflow e"
  "fst (arena_append_relation a i members tags m) = Inl e \<Longrightarrow> overflow e"
proof -
  have t: "overflow e" if "append_tags a tags k i = (Inl e, x)" for a tags k i e x
    using that by (induction a tags k i rule: append_tags.induct)
      (auto simp: Let_def count_u32_def split: sum.splits option.splits)
  show "fst (arena_append_node a i lat lon tags m) = Inl e \<Longrightarrow> overflow e"
    "fst (arena_append_way a i refs tags m) = Inl e \<Longrightarrow> overflow e"
    "fst (arena_append_relation a i members tags m) = Inl e \<Longrightarrow> overflow e"
    by (auto simp: arena_append_node_def arena_append_way_def arena_append_relation_def Let_def count_u32_def
        split: sum.splits option.splits prod.splits dest: t)
qed

lemma end_step:
  assumes h: "sink_holds sk s g c" and md: "meta_view (strings (ov_interner (sk_overlay sk))) (sg_meta g) = Some md"
  obtains r sk' where "CompactSink_end_element sk = Some (r, sk')" "sk_staging sk' = None" "ov_allow (sk_overlay sk') = ov_allow (sk_overlay sk)"
    "case r of
       Inl err \<Rightarrow> represents (sk_overlay sk') s \<and>
         (abs_gate ''OSC change overlay'' (ov_allow (sk_overlay sk)) s (sg_kind g) (sg_id g) (version_claim (sg_meta g)) = Inl err \<or> overflow err)
     | Inr _ \<Rightarrow> abs_gate ''OSC change overlay'' (ov_allow (sk_overlay sk)) s (sg_kind g) (sg_id g) (version_claim (sg_meta g)) = Inr () \<and>
         represents (sk_overlay sk') (abs_put s (sg_kind g) (sg_id g) (version_claim (sg_meta g))
           (Upsert (content_of (sg_kind g) (sg_lat g, sg_lon g) c md)))"
proof -
  let ?ov = "sk_overlay sk" and ?tags = "zip (sg_tag_keys g) (map str_bytes (sg_tag_values g))"
  let ?st = "strings (ov_interner ?ov)" and ?m = "sg_meta g" and ?i = "sg_id g" and ?k = "sg_kind g"
  have r: "represents ?ov s" and g: "sk_staging sk = Some g" and st: "staged_as ?st g c" using h by (auto simp: sink_holds_def)
  define app where "app = (\<lambda>a. case ?k of Node \<Rightarrow> arena_append_node a ?i (sg_lat g) (sg_lon g) ?tags ?m
    | Way \<Rightarrow> arena_append_way a ?i (sg_refs g) ?tags ?m | Relation \<Rightarrow> arena_append_relation a ?i (sg_members g) ?tags ?m)"
  have w: "writes ?k ?st app ?i (content_of ?k (sg_lat g, sg_lon g) c md) (version_claim ?m)"
    using st md node_writes [of ?st ?tags "ch_tags c" ?m md ?i "sg_lat g" "sg_lon g"]
      way_writes [of ?st ?tags "ch_tags c" ?m md ?i "ch_refs c"]
      relation_writes [of ?st "sg_members g" "ch_members c" ?tags "ch_tags c" ?m md ?i]
    by (cases ?k) (auto simp: app_def staged_as_def content_of_def)
  have ovf: "overflow e" if "fst (app a) = Inl e" for a e
    using that by (cases ?k) (auto simp: app_def dest: arena_append_overflow)
  obtain res ov' where p: "push_with app ?ov ?k ?i ?m = Some (res, ov')" "ov_allow ov' = ov_allow ?ov"
    "res = Inr () \<Longrightarrow> represents ov' (abs_put s ?k ?i (version_claim ?m) (Upsert (content_of ?k (sg_lat g, sg_lon g) c md)))"
    "\<And>e. res = Inl e \<Longrightarrow> represents ov' s"
    "\<And>e. abs_gate ''OSC change overlay'' (ov_allow ?ov) s ?k ?i (version_claim ?m) = Inl e \<Longrightarrow> res = Inl e"
    "\<And>e. res = Inl e \<Longrightarrow> abs_gate ''OSC change overlay'' (ov_allow ?ov) s ?k ?i (version_claim ?m) = Inl e \<or> (\<exists>a. fst (app a) = Inl e)"
    by (rule push_with_spec [OF r w]) blast
  have "CompactSink_end_element sk = Some (res, \<lparr>sk_overlay = ov', sk_staging = None\<rparr>)"
    using p(1) g by (cases ?k) (simp_all add: CompactSink_end_element_def Let_def push_kinds app_def)
  then show thesis
  proof (rule that)
    show "case res of
       Inl err \<Rightarrow> represents (sk_overlay \<lparr>sk_overlay = ov', sk_staging = None\<rparr>) s \<and>
         (abs_gate ''OSC change overlay'' (ov_allow ?ov) s ?k ?i (version_claim ?m) = Inl err \<or> overflow err)
     | Inr _ \<Rightarrow> abs_gate ''OSC change overlay'' (ov_allow ?ov) s ?k ?i (version_claim ?m) = Inr () \<and>
         represents (sk_overlay \<lparr>sk_overlay = ov', sk_staging = None\<rparr>) (abs_put s ?k ?i (version_claim ?m)
           (Upsert (content_of ?k (sg_lat g, sg_lon g) c md)))"
    proof (cases res)
      case (Inl e)
      then show ?thesis using p(4,6) ovf by auto
    next
      case (Inr u)
      then have "abs_gate ''OSC change overlay'' (ov_allow ?ov) s ?k ?i (version_claim ?m) = Inr ()"
        using p(5) by (cases "abs_gate ''OSC change overlay'' (ov_allow ?ov) s ?k ?i (version_claim ?m)") auto
      with p(3) Inr show ?thesis by auto
    qed
  qed (use p(2) in simp_all)
qed

text \<open>Beginning an element: a delete is applied at once, a create or modify is staged.\<close>

lemma delete_kind_cases:
  "(case k of Node \<Rightarrow> delete_node ov i m | Way \<Rightarrow> delete_way ov i m | Relation \<Rightarrow> delete_relation ov i m) = delete_with ov k i m"
  by (cases k) (simp_all add: delete_kinds)

lemma begin_delete:
  assumes r: "represents (sk_overlay sk) s" and n: "norm_str L"
  obtains res sk' where "CompactSink_begin_element L sk Delete k e = Some (res, sk')" "ov_allow (sk_overlay sk') = ov_allow (sk_overlay sk)"
    "case res of
       Inl err \<Rightarrow> represents (sk_overlay sk') s \<and>
         (abs_step L (ov_allow (sk_overlay sk)) \<lparr>ob_action = Delete, ob_kind = k, ob_tag = e, ob_children = []\<rparr> s = Inl err \<or> overflow err)
     | Inr _ \<Rightarrow> sk_staging sk' = None \<and> (\<exists>s'. represents (sk_overlay sk') s' \<and>
         abs_step L (ov_allow (sk_overlay sk)) \<lparr>ob_action = Delete, ob_kind = k, ob_tag = e, ob_children = []\<rparr> s = Inr s')"
proof (cases "parse_i64_attr e ''id''")
  case (Inl err)
  then show thesis using that [of "Inl err" sk] r by (simp add: CompactSink_begin_element_def abs_step_def abs_object_def bind_sum_def)
next
  case (Inr i)
  obtain mr ov1 where m: "arena_meta L e (sk_overlay sk) = (mr, ov1)" by fastforce
  note ms = arena_meta_spec [OF r n m]
  have r1: "represents ov1 s" and al: "ov_allow ov1 = ov_allow (sk_overlay sk)" using ms(1) by (auto simp: extends_def)
  show thesis
  proof (cases mr)
    case (Inl err)
    then show thesis using that [of "Inl err" "sk\<lparr>sk_overlay := ov1\<rparr>"] Inr m ms(2) r1 al
      by (auto simp: CompactSink_begin_element_def abs_step_def abs_object_def bind_sum_def)
  next
    case mm: (Inr mt)
    then obtain md where md: "abs_meta L e = Inr (version_claim mt, md)" using ms(2) by auto
    let ?g = "abs_gate ''OSC change overlay'' (ov_allow ov1) s k i (version_claim mt)"
    have st: "abs_step L (ov_allow (sk_overlay sk)) \<lparr>ob_action = Delete, ob_kind = k, ob_tag = e, ob_children = []\<rparr> s =
        bind_sum ?g (\<lambda>_. Inr (abs_put s k i (version_claim mt) Removed))"
      using Inr md al by (simp add: abs_step_def abs_object_def bind_sum_def)
    obtain ov2 where d: "delete_with ov1 k i mt = Some (?g, ov2)" "ov_allow ov2 = ov_allow ov1"
      "?g = Inr () \<Longrightarrow> represents ov2 (abs_put s k i (version_claim mt) Removed)" "\<And>e. ?g = Inl e \<Longrightarrow> ov2 = ov1"
      by (rule delete_with_spec [OF r1]) blast
    show thesis
    proof (cases ?g)
      case (Inl err)
      then show thesis using that [of "Inl err" "sk\<lparr>sk_overlay := ov2\<rparr>"] Inr m mm d r1 al st
        by (simp add: CompactSink_begin_element_def delete_kind_cases bind_sum_def)
    next
      case gate: (Inr u)
      then show thesis using that [of "Inr ()" "sk\<lparr>sk_overlay := ov2, sk_staging := None\<rparr>"] Inr m mm d al st
        by (simp add: CompactSink_begin_element_def delete_kind_cases bind_sum_def)
    qed
  qed
qed

lemma begin_stage:
  assumes r: "represents (sk_overlay sk) s" and n: "norm_str L" and a: "a \<noteq> Delete"
  obtains res sk' where "CompactSink_begin_element L sk a k e = Some (res, sk')" "ov_allow (sk_overlay sk') = ov_allow (sk_overlay sk)"
    "represents (sk_overlay sk') s"
    "case res of
       Inl err \<Rightarrow> (\<forall>ch. abs_object L \<lparr>ob_action = a, ob_kind = k, ob_tag = e, ob_children = ch\<rparr> = Inl err) \<or> overflow err
     | Inr _ \<Rightarrow> (\<exists>g md. sink_holds sk' s g no_children \<and> sg_kind g = k \<and> meta_view (strings (ov_interner (sk_overlay sk'))) (sg_meta g) = Some md \<and>
         (\<forall>ch. abs_object L \<lparr>ob_action = a, ob_kind = k, ob_tag = e, ob_children = ch\<rparr> =
           bind_sum (abs_children L ch no_children) (\<lambda>c. Inr (sg_id g, version_claim (sg_meta g), Upsert (content_of k (sg_lat g, sg_lon g) c md)))))"
proof (cases "parse_i64_attr e ''id''")
  case (Inl err)
  then show thesis using that [of "Inl err" sk] r by (simp add: CompactSink_begin_element_def abs_object_def bind_sum_def)
next
  case (Inr i)
  obtain mr ov1 where m: "arena_meta L e (sk_overlay sk) = (mr, ov1)" by fastforce
  note ms = arena_meta_spec [OF r n m]
  have r1: "represents ov1 s" and al: "ov_allow ov1 = ov_allow (sk_overlay sk)" using ms(1) by (auto simp: extends_def)
  show thesis
  proof (cases mr)
    case (Inl err)
    then show thesis using that [of "Inl err" "sk\<lparr>sk_overlay := ov1\<rparr>"] Inr m ms(2) r1 al
      by (auto simp: CompactSink_begin_element_def abs_object_def bind_sum_def)
  next
    case mm: (Inr mt)
    then obtain md where md: "abs_meta L e = Inr (version_claim mt, md)" "meta_view (strings (ov_interner ov1)) mt = Some md"
      using ms(2) by auto
    show thesis
    proof (cases "abs_coords L k e i")
      case (Inl err)
      then show thesis using that [of "Inl err" "sk\<lparr>sk_overlay := ov1\<rparr>"] Inr m mm md r1 al a
        by (simp add: CompactSink_begin_element_def abs_object_def abs_coords_def bind_sum_def Let_def)
    next
      case ll: (Inr ll)
      obtain lat lon where l: "ll = (lat, lon)" by (cases ll)
      let ?g = "\<lparr>sg_kind = k, sg_id = i, sg_lat = lat, sg_lon = lon, sg_meta = mt, sg_tag_keys = [], sg_tag_values = [], sg_refs = [], sg_members = []\<rparr>"
      let ?sk = "sk\<lparr>sk_overlay := ov1, sk_staging := Some ?g\<rparr>"
      have "CompactSink_begin_element L sk a k e = Some (Inr (), ?sk)"
        using Inr m mm ll l a by (simp add: CompactSink_begin_element_def abs_coords_def Let_def)
      moreover have "sink_holds ?sk s ?g no_children" using r1 by (simp add: sink_holds_def staged_as_def no_children_def)
      ultimately show thesis using Inr md ll l a al r1
        by (intro that [of "Inr ()" ?sk]) (auto simp: abs_object_def bind_sum_def intro!: exI [of _ ?g] exI [of _ md] split: sum.splits)
    qed
  qed
qed

lemma object_step:
  assumes r: "represents (sk_overlay sk) s" and n: "norm_str L" and b: "object_ok b"
  obtains res sk' where "run_calls (compact_sink L) sk (object_calls b) = Some (res, sk')"
    "ov_allow (sk_overlay sk') = ov_allow (sk_overlay sk)"
    "case res of
       Inl err \<Rightarrow> represents (sk_overlay sk') s \<and> (abs_step L (ov_allow (sk_overlay sk)) b s = Inl err \<or> overflow err)
     | Inr _ \<Rightarrow> (\<exists>s'. represents (sk_overlay sk') s' \<and> abs_step L (ov_allow (sk_overlay sk)) b s = Inr s')"
proof (cases "ob_action b = Delete")
  case True
  have nil: "ob_children b = []"
  proof (rule ccontr)
    assume "ob_children b \<noteq> []"
    then obtain c where "c \<in> set (ob_children b)" by (cases "ob_children b") auto
    then have "child_ok Delete (ob_kind b) c" using b True by (auto simp: object_ok_def)
    then show False by (cases c) auto
  qed
  then have be: "\<lparr>ob_action = Delete, ob_kind = ob_kind b, ob_tag = ob_tag b, ob_children = []\<rparr> = b" using True by (cases b) simp
  let ?P = "\<lambda>res sk1. case res of
       Inl err \<Rightarrow> represents (sk_overlay sk1) s \<and> (abs_step L (ov_allow (sk_overlay sk)) b s = Inl err \<or> overflow err)
     | Inr _ \<Rightarrow> sk_staging sk1 = None \<and> (\<exists>s'. represents (sk_overlay sk1) s' \<and> abs_step L (ov_allow (sk_overlay sk)) b s = Inr s')"
  obtain res sk1 where d: "CompactSink_begin_element L sk Delete (ob_kind b) (ob_tag b) = Some (res, sk1)"
    "ov_allow (sk_overlay sk1) = ov_allow (sk_overlay sk)" "?P res sk1"
    by (rule begin_delete [OF r n, of "ob_kind b" "ob_tag b"], unfold be)
  show thesis
  proof (cases res)
    case (Inl err)
    then show thesis using that [of "Inl err" sk1] d True by (simp add: object_calls_def run_calls_Cons compact_sink_def)
  next
    case (Inr u)
    then show thesis using that [of "Inr ()" sk1] d True nil
      by (simp add: object_calls_def run_calls_Cons compact_sink_def CompactSink_end_element_def)
  qed
next
  case False
  let ?k = "ob_kind b" and ?al = "ov_allow (sk_overlay sk)"
  have be: "\<lparr>ob_action = ob_action b, ob_kind = ?k, ob_tag = ob_tag b, ob_children = ob_children b\<rparr> = b" by (cases b) simp
  obtain res sk1 where d: "CompactSink_begin_element L sk (ob_action b) ?k (ob_tag b) = Some (res, sk1)" "ov_allow (sk_overlay sk1) = ?al"
    "represents (sk_overlay sk1) s"
    "case res of
       Inl err \<Rightarrow> (\<forall>ch. abs_object L \<lparr>ob_action = ob_action b, ob_kind = ?k, ob_tag = ob_tag b, ob_children = ch\<rparr> = Inl err) \<or> overflow err
     | Inr _ \<Rightarrow> (\<exists>g md. sink_holds sk1 s g no_children \<and> sg_kind g = ?k \<and> meta_view (strings (ov_interner (sk_overlay sk1))) (sg_meta g) = Some md \<and>
         (\<forall>ch. abs_object L \<lparr>ob_action = ob_action b, ob_kind = ?k, ob_tag = ob_tag b, ob_children = ch\<rparr> =
           bind_sum (abs_children L ch no_children) (\<lambda>c. Inr (sg_id g, version_claim (sg_meta g), Upsert (content_of ?k (sg_lat g, sg_lon g) c md)))))"
    by (rule begin_stage [OF r n False])
  have calls: "run_calls (compact_sink L) sk (object_calls b) =
      after (CompactSink_begin_element L sk (ob_action b) ?k (ob_tag b)) (\<lambda>x. after (run_calls (compact_sink L) x (ob_children b)) CompactSink_end_element)"
    by (simp add: object_calls_def run_calls_Cons run_calls_append compact_sink_def)
  show thesis
  proof (cases res)
    case (Inl err)
    have "abs_object L \<lparr>ob_action = ob_action b, ob_kind = ?k, ob_tag = ob_tag b, ob_children = ob_children b\<rparr> = Inl err \<or> overflow err"
      using d(4) Inl by auto
    then have "abs_step L ?al b s = Inl err \<or> overflow err" unfolding be by (auto simp: abs_step_def bind_sum_def)
    then show thesis using that [of "Inl err" sk1] d Inl calls by simp
  next
    case (Inr u)
    then obtain g md where g: "sink_holds sk1 s g no_children" "sg_kind g = ?k"
      "meta_view (strings (ov_interner (sk_overlay sk1))) (sg_meta g) = Some md"
      "\<And>ch. abs_object L \<lparr>ob_action = ob_action b, ob_kind = ?k, ob_tag = ob_tag b, ob_children = ch\<rparr> =
           bind_sum (abs_children L ch no_children) (\<lambda>c. Inr (sg_id g, version_claim (sg_meta g), Upsert (content_of ?k (sg_lat g, sg_lon g) c md)))"
      using d(4) by auto
    have ao: "abs_object L b = bind_sum (abs_children L (ob_children b) no_children)
        (\<lambda>c. Inr (sg_id g, version_claim (sg_meta g), Upsert (content_of ?k (sg_lat g, sg_lon g) c md)))"
      using g(4) [of "ob_children b"] unfolding be .
    have ok: "\<forall>x \<in> set (ob_children b). child_ok (ob_action b) (sg_kind g) x" using b g(2) by (simp add: object_ok_def)
    obtain r2 sk2 where c2: "run_calls (compact_sink L) sk1 (ob_children b) = Some (r2, sk2)" "extends (sk_overlay sk1) s (sk_overlay sk2)"
      "case r2 of Inl err \<Rightarrow> abs_children L (ob_children b) no_children = Inl err \<or> overflow err
       | Inr _ \<Rightarrow> (\<exists>g' c'. abs_children L (ob_children b) no_children = Inr c' \<and> sink_holds sk2 s g' c' \<and> head_of g' = head_of g)"
      by (rule children_run [OF n g(1) ok])
    have al2: "ov_allow (sk_overlay sk2) = ?al" "represents (sk_overlay sk2) s" using c2(2) d(2) by (auto simp: extends_def)
    show thesis
    proof (cases r2)
      case (Inl err)
      then have "abs_step L ?al b s = Inl err \<or> overflow err" using c2(3) ao by (auto simp: abs_step_def bind_sum_def)
      then show thesis using that [of "Inl err" sk2] d(1) Inr c2(1) Inl calls al2 by simp
    next
      case r2: (Inr u2)
      then obtain g2 c where g2: "abs_children L (ob_children b) no_children = Inr c" "sink_holds sk2 s g2 c" "head_of g2 = head_of g"
        using c2(3) by auto
      then have hd: "sg_kind g2 = ?k" "sg_id g2 = sg_id g" "sg_lat g2 = sg_lat g" "sg_lon g2 = sg_lon g" "sg_meta g2 = sg_meta g"
        using g(2) by (auto simp: head_of_def)
      have mv: "meta_view (strings (ov_interner (sk_overlay sk2))) (sg_meta g2) = Some md"
        using views_extend(3) [OF _ g(3)] c2(2) hd by (simp add: extends_def)
      obtain r3 sk3 where e: "CompactSink_end_element sk2 = Some (r3, sk3)"
        "ov_allow (sk_overlay sk3) = ov_allow (sk_overlay sk2)"
        "case r3 of
           Inl err \<Rightarrow> represents (sk_overlay sk3) s \<and>
             (abs_gate ''OSC change overlay'' (ov_allow (sk_overlay sk2)) s (sg_kind g2) (sg_id g2) (version_claim (sg_meta g2)) = Inl err \<or> overflow err)
         | Inr _ \<Rightarrow> abs_gate ''OSC change overlay'' (ov_allow (sk_overlay sk2)) s (sg_kind g2) (sg_id g2) (version_claim (sg_meta g2)) = Inr () \<and>
             represents (sk_overlay sk3) (abs_put s (sg_kind g2) (sg_id g2) (version_claim (sg_meta g2))
               (Upsert (content_of (sg_kind g2) (sg_lat g2, sg_lon g2) c md)))" by (rule end_step [OF g2(2) mv])
      have "abs_step L ?al b s = bind_sum (abs_gate ''OSC change overlay'' ?al s ?k (sg_id g) (version_claim (sg_meta g)))
          (\<lambda>_. Inr (abs_put s ?k (sg_id g) (version_claim (sg_meta g)) (Upsert (content_of ?k (sg_lat g, sg_lon g) c md))))"
        using ao g2(1) by (simp add: abs_step_def bind_sum_def)
      with e(3) have "case r3 of
          Inl err \<Rightarrow> represents (sk_overlay sk3) s \<and> (abs_step L ?al b s = Inl err \<or> overflow err)
        | Inr _ \<Rightarrow> (\<exists>s'. represents (sk_overlay sk3) s' \<and> abs_step L ?al b s = Inr s')"
        by (cases r3) (auto simp: hd al2 bind_sum_def)
      then show thesis using d(1) Inr c2(1) r2 e(1,2) al2 by (intro that [of r3 sk3]) (simp_all add: calls)
    qed
  qed
qed

lemma objects_run:
  assumes "represents (sk_overlay sk) s" "norm_str L" "\<forall>b \<in> set obs. object_ok b"
  shows "\<exists>res sk'. run_calls (compact_sink L) sk (concat (map object_calls obs)) = Some (res, sk') \<and>
    ov_allow (sk_overlay sk') = ov_allow (sk_overlay sk) \<and>
    (case res of
       Inr _ \<Rightarrow> (\<exists>s'. abs_run L (ov_allow (sk_overlay sk)) obs s = (Inr (), s') \<and> represents (sk_overlay sk') s')
     | Inl err \<Rightarrow> (\<exists>n s'. n < length obs \<and> abs_run L (ov_allow (sk_overlay sk)) (take n obs) s = (Inr (), s') \<and> represents (sk_overlay sk') s' \<and>
         (abs_run L (ov_allow (sk_overlay sk)) obs s = (Inl err, s') \<or> overflow err)))"
  using assms(1,3)
proof (induction obs arbitrary: sk s)
  case (Cons b obs)
  let ?al = "ov_allow (sk_overlay sk)"
  have b: "object_ok b" using Cons.prems(2) by simp
  obtain r1 sk1 where s1: "run_calls (compact_sink L) sk (object_calls b) = Some (r1, sk1)" "ov_allow (sk_overlay sk1) = ?al"
    "case r1 of
       Inl err \<Rightarrow> represents (sk_overlay sk1) s \<and> (abs_step L ?al b s = Inl err \<or> overflow err)
     | Inr _ \<Rightarrow> (\<exists>s'. represents (sk_overlay sk1) s' \<and> abs_step L ?al b s = Inr s')"
    by (rule object_step [OF Cons.prems(1) assms(2) b])
  show ?case
  proof (cases r1)
    case (Inl err)
    then show ?thesis using s1 by (auto simp: run_calls_append intro!: exI [of _ 0])
  next
    case (Inr u)
    then obtain s2 where s2: "represents (sk_overlay sk1) s2" "abs_step L ?al b s = Inr s2" using s1(3) by auto
    have rest: "\<forall>b \<in> set obs. object_ok b" using Cons.prems(2) by simp
    obtain res sk' where ih: "run_calls (compact_sink L) sk1 (concat (map object_calls obs)) = Some (res, sk')"
      "ov_allow (sk_overlay sk') = ?al"
      "case res of
         Inr _ \<Rightarrow> (\<exists>s'. abs_run L ?al obs s2 = (Inr (), s') \<and> represents (sk_overlay sk') s')
       | Inl err \<Rightarrow> (\<exists>n s'. n < length obs \<and> abs_run L ?al (take n obs) s2 = (Inr (), s') \<and> represents (sk_overlay sk') s' \<and>
           (abs_run L ?al obs s2 = (Inl err, s') \<or> overflow err))"
      using Cons.IH [OF s2(1) rest, unfolded s1(2)] by (elim exE conjE) (rule that)
    have "case res of
         Inr _ \<Rightarrow> (\<exists>s'. abs_run L ?al (b # obs) s = (Inr (), s') \<and> represents (sk_overlay sk') s')
       | Inl err \<Rightarrow> (\<exists>n s'. n < length (b # obs) \<and> abs_run L ?al (take n (b # obs)) s = (Inr (), s') \<and> represents (sk_overlay sk') s' \<and>
           (abs_run L ?al (b # obs) s = (Inl err, s') \<or> overflow err))"
    proof (cases res)
      case (Inl err)
      then obtain n s' where "n < length obs" "abs_run L ?al (take n obs) s2 = (Inr (), s')" "represents (sk_overlay sk') s'"
        "abs_run L ?al obs s2 = (Inl err, s') \<or> overflow err" using ih(3) by auto
      then show ?thesis using s2(2) Inl by (auto intro!: exI [of _ "Suc n"])
    qed (use ih(3) s2(2) in auto)
    then show ?thesis using s1(1) Inr ih(1,2) by (auto simp: run_calls_append)
  qed
qed auto

section \<open>The version rule over an input\<close>

text \<open>
  An input is the list of its changes, each an object's kind and ID with the version claimed.
  A change regresses when it claims less than an earlier change of the same object did.
\<close>

record Entry =
  en_kind :: ElementKind
  en_id :: i64
  en_claim :: "i32 option"

fun highest :: "Entry list \<Rightarrow> ElementKind \<Rightarrow> i64 \<Rightarrow> i32 option" where
  "highest [] k i = None"
| "highest (e # es) k i = (if en_kind e = k \<and> en_id e = i then opt_max (en_claim e) (highest es k i) else highest es k i)"

definition regresses :: "Entry list \<Rightarrow> nat \<Rightarrow> bool" where
  "regresses es n = (case (highest (take n es) (en_kind (es ! n)) (en_id (es ! n)), en_claim (es ! n)) of
     (Some fl, Some c) \<Rightarrow> c <s fl | _ \<Rightarrow> False)"

definition first_regression :: "Entry list \<Rightarrow> nat option" where
  "first_regression es = find (regresses es) [0..<length es]"

definition regression_error :: "string \<Rightarrow> Entry list \<Rightarrow> nat \<Rightarrow> osc_error" where
  "regression_error who es n = VersionRegression who (en_kind (es ! n)) (en_id (es ! n)) (the (en_claim (es ! n)))
     (the (highest (take n es) (en_kind (es ! n)) (en_id (es ! n))))"

fun last_change :: "(Entry \<times> Final) list \<Rightarrow> ElementKind \<Rightarrow> i64 \<Rightarrow> Final" where
  "last_change [] k i = NoChange"
| "last_change ((e, f) # cs) k i =
     (case last_change cs k i of NoChange \<Rightarrow> if en_kind e = k \<and> en_id e = i then f else NoChange | g \<Rightarrow> g)"

definition state_of :: "(Entry \<times> Final) list \<Rightarrow> AbsOverlay" where
  "state_of cs k i = \<lparr>os_final = last_change cs k i, os_floor = highest (map fst cs) k i\<rparr>"

fun parse_changes :: "'f XmlLib \<Rightarrow> OscObject list \<Rightarrow> osc_error + (Entry \<times> Final) list" where
  "parse_changes L [] = Inr []"
| "parse_changes L (b # bs) =
     bind_sum (abs_object L b) (\<lambda>(i, claim, f).
     bind_sum (parse_changes L bs) (\<lambda>cs. Inr ((\<lparr>en_kind = ob_kind b, en_id = i, en_claim = claim\<rparr>, f) # cs)))"

lemma highest_append: "highest (as @ bs) k i = opt_max (highest as k i) (highest bs k i)"
  by (induction as) (simp_all add: opt_max_assoc)

lemma last_change_append:
  "last_change (as @ bs) k i = (case last_change bs k i of NoChange \<Rightarrow> last_change as k i | g \<Rightarrow> g)"
proof (induction as)
  case (Cons a as)
  then show ?case by (cases a) (auto split: Final.splits)
qed (simp split: Final.splits)

lemma abs_object_final: "abs_object L b = Inr (i, claim, f) \<Longrightarrow> f \<noteq> NoChange"
  by (auto simp: abs_object_def bind_sum_def split: sum.splits if_splits prod.splits)

lemma state_of_snoc:
  assumes "f \<noteq> NoChange"
  shows "abs_put (state_of cs) (en_kind e) (en_id e) (en_claim e) f = state_of (cs @ [(e, f)])"
  using assms by (intro ext) (auto simp: state_of_def highest_append last_change_append split: Final.splits)

lemma abs_gate_state:
  "abs_gate who False (state_of pre) (en_kind e) (en_id e) (en_claim e) =
    (if regresses (map fst pre @ e # es) (length pre) then Inl (regression_error who (map fst pre @ e # es) (length pre)) else Inr ())"
  by (auto simp: abs_gate_def state_of_def regresses_def regression_error_def nth_append split: option.splits)

lemma find_upt_Cons: "m < n \<Longrightarrow> find P [m..<n] = (if P m then Some m else find P [Suc m..<n])"
  by (simp add: upt_conv_Cons)

lemma abs_run_changes:
  assumes "parse_changes L obs = Inr cs"
  shows "abs_run L allow obs (state_of pre) =
    (case (if allow then None else find (regresses (map fst (pre @ cs))) [length pre..<length (pre @ cs)]) of
       None \<Rightarrow> (Inr (), state_of (pre @ cs))
     | Some n \<Rightarrow> (Inl (regression_error ''OSC change overlay'' (map fst (pre @ cs)) n), state_of (take n (pre @ cs))))"
  using assms
proof (induction obs arbitrary: cs pre)
  case (Cons b obs)
  obtain i claim f where o: "abs_object L b = Inr (i, claim, f)" using Cons.prems by (auto simp: bind_sum_def split: sum.splits)
  let ?e = "\<lparr>en_kind = ob_kind b, en_id = i, en_claim = claim\<rparr>"
  obtain cs1 where cs1: "parse_changes L obs = Inr cs1" "cs = (?e, f) # cs1"
    using Cons.prems o by (auto simp: bind_sum_def split: sum.splits)
  have f: "f \<noteq> NoChange" by (rule abs_object_final [OF o])
  note put = state_of_snoc [OF f, of pre ?e, simplified]
  note gate = abs_gate_state [of "''OSC change overlay''" pre ?e "map fst cs1", simplified]
  note ih = Cons.IH [OF cs1(1), of "pre @ [(?e, f)]", simplified]
  show ?case
  proof (cases "\<not> allow \<and> regresses (map fst pre @ ?e # map fst cs1) (length pre)")
    case True
    then have "abs_step L allow b (state_of pre) = Inl (regression_error ''OSC change overlay'' (map fst pre @ ?e # map fst cs1) (length pre))"
      using o gate by (simp add: abs_step_def bind_sum_def)
    with True show ?thesis by (simp add: cs1(2) find_upt_Cons del: upt_Suc)
  next
    case False
    then have "abs_gate ''OSC change overlay'' allow (state_of pre) (ob_kind b) i claim = Inr ()"
      using gate by (cases allow) (auto simp: abs_gate_def)
    then have "abs_step L allow b (state_of pre) = Inr (state_of (pre @ [(?e, f)]))"
      using o put by (simp add: abs_step_def bind_sum_def)
    with False ih show ?thesis by (cases allow) (simp_all add: cs1(2) find_upt_Cons del: upt_Suc split: option.splits)
  qed
qed (simp add: state_of_def)

lemma abs_new_state: "abs_new = state_of []"
  by (intro ext) (simp add: abs_new_def state_of_def)

section \<open>Documents\<close>

text \<open>\<open>parse_osc_file_into\<close> on the events a reader delivers for one file, and the loop over several files.\<close>

definition parse_osc_file_into :: "'f XmlLib \<Rightarrow> XmlEvent list \<Rightarrow> CompactDiffOverlay \<Rightarrow> ((osc_error + unit) \<times> CompactDiffOverlay) option" where
  "parse_osc_file_into L evs ov =
     map_option (\<lambda>(r, sk). (r, sk_overlay sk)) (drive_osc L (compact_sink L) evs (CompactSink_new ov))"

fun parse_osc_files :: "'f XmlLib \<Rightarrow> XmlEvent list list \<Rightarrow> CompactDiffOverlay \<Rightarrow> ((osc_error + unit) \<times> CompactDiffOverlay) option" where
  "parse_osc_files L [] ov = Some (Inr (), ov)"
| "parse_osc_files L (evs # docs) ov =
     (case parse_osc_file_into L evs ov of
        None \<Rightarrow> None
      | Some (Inl err, ov') \<Rightarrow> Some (Inl err, ov')
      | Some (Inr _, ov') \<Rightarrow> parse_osc_files L docs ov')"

text \<open>The elements of a document, read off its calls.\<close>

lemma dropWhile_shorter [termination_simp]: "length (dropWhile P cs) - Suc 0 < Suc (length cs)"
  using length_dropWhile_le [of P cs] by simp

fun objects_of :: "Call list \<Rightarrow> OscObject list" where
  "objects_of (CBegin a k e # cs) =
     \<lparr>ob_action = a, ob_kind = k, ob_tag = e, ob_children = takeWhile (\<lambda>c. c \<noteq> CEnd) cs\<rparr> # objects_of (tl (dropWhile (\<lambda>c. c \<noteq> CEnd) cs))"
| "objects_of _ = []"

definition document_calls :: "'f XmlLib \<Rightarrow> XmlEvent list \<Rightarrow> Call list" where
  "document_calls L evs = snd (doc_frames L evs drive_init)"

definition document_fate :: "'f XmlLib \<Rightarrow> XmlEvent list \<Rightarrow> osc_error + unit" where
  "document_fate L evs = doc_result (fst (doc_frames L evs drive_init))"

definition documents_objects :: "'f XmlLib \<Rightarrow> XmlEvent list list \<Rightarrow> OscObject list" where
  "documents_objects L docs = concat (map (\<lambda>evs. objects_of (document_calls L evs)) docs)"

lemma child_not_end: "child_ok a k c \<Longrightarrow> c \<noteq> CEnd"
  by (cases c) auto

lemma objects_of_calls: "object_ok b \<Longrightarrow> objects_of (object_calls b @ cs) = b # objects_of cs"
proof -
  assume "object_ok b"
  then have "\<forall>c \<in> set (ob_children b). c \<noteq> CEnd" using child_not_end by (auto simp: object_ok_def)
  then show ?thesis by (cases b) (simp add: object_calls_def takeWhile_append2 dropWhile_append2)
qed

lemma objects_of_whole: "\<forall>b \<in> set obs. object_ok b \<Longrightarrow> objects_of (concat (map object_calls obs)) = obs"
  by (induction obs) (simp_all add: objects_of_calls)

lemma whole_objects: "whole cs \<Longrightarrow> cs = concat (map object_calls (objects_of cs)) \<and> (\<forall>b \<in> set (objects_of cs). object_ok b)"
  by (auto simp: whole_def objects_of_whole)

lemma parse_osc_file_calls:
  "parse_osc_file_into L evs ov = map_option (\<lambda>(r, sk). (r, sk_overlay sk))
    (after (run_calls (compact_sink L) (CompactSink_new ov) (document_calls L evs)) (\<lambda>sk. Some (document_fate L evs, sk)))"
  by (simp add: parse_osc_file_into_def drive_osc_frames document_calls_def document_fate_def)

text \<open>A refused document has made the calls of whole elements, then some of an open one's.\<close>

lemma frames_framed_prefix: "framed d cs \<Longrightarrow> \<exists>d'. framed d' (cs @ snd (doc_frames L evs d))"
proof (induction evs arbitrary: d cs)
  case (Cons ev evs)
  show ?case
  proof (cases "event_calls L d ev")
    case (Inl err)
    then show ?thesis using Cons.prems by auto
  next
    case (Inr p)
    obtain d1 c1 where p: "p = (d1, c1)" by (cases p)
    have "framed d1 (cs @ c1)"
      using Inr p framed_open [OF Cons.prems] framed_close [OF Cons.prems] Cons.prems
      by (auto simp: event_calls_def split: XmlEvent.splits)
    from Cons.IH [OF this] show ?thesis by (simp add: Inr p split_beta)
  qed
qed auto

lemma document_framed: "\<exists>d. framed d (document_calls L evs)"
  using frames_framed_prefix [of drive_init "[]" L evs] by (simp add: document_calls_def framed_def drive_init_def)

lemma document_whole: "document_fate L evs = Inr () \<Longrightarrow> whole (document_calls L evs)"
  by (simp add: document_fate_def document_calls_def accepted_whole)

lemma abs_run_append:
  "abs_run L al (as @ bs) s = (case abs_run L al as s of (Inl e, s') \<Rightarrow> (Inl e, s') | (Inr _, s') \<Rightarrow> abs_run L al bs s')"
  by (induction as arbitrary: s) (auto split: sum.splits prod.splits)

lemma open_runs:
  assumes r: "represents (sk_overlay sk) s" and n: "norm_str L" and c: "\<forall>c \<in> set ch. child_ok a k c"
  shows "\<exists>res sk' s'. run_calls (compact_sink L) sk (CBegin a k e # ch) = Some (res, sk') \<and>
    ov_allow (sk_overlay sk') = ov_allow (sk_overlay sk) \<and> represents (sk_overlay sk') s'"
proof (cases "a = Delete")
  case True
  have nil: "ch = []" using c True by (cases ch) (auto elim: child_ok.elims)
  obtain res sk' where "CompactSink_begin_element L sk Delete k e = Some (res, sk')" "ov_allow (sk_overlay sk') = ov_allow (sk_overlay sk)"
    "case res of
       Inl err \<Rightarrow> represents (sk_overlay sk') s \<and>
         (abs_step L (ov_allow (sk_overlay sk)) \<lparr>ob_action = Delete, ob_kind = k, ob_tag = e, ob_children = []\<rparr> s = Inl err \<or> overflow err)
     | Inr _ \<Rightarrow> sk_staging sk' = None \<and> (\<exists>s'. represents (sk_overlay sk') s' \<and>
         abs_step L (ov_allow (sk_overlay sk)) \<lparr>ob_action = Delete, ob_kind = k, ob_tag = e, ob_children = []\<rparr> s = Inr s')"
    by (rule begin_delete [OF r n])
  then show ?thesis by (cases res) (auto simp: nil True compact_sink_def)
next
  case False
  obtain res sk1 where b: "CompactSink_begin_element L sk a k e = Some (res, sk1)" "ov_allow (sk_overlay sk1) = ov_allow (sk_overlay sk)"
    "represents (sk_overlay sk1) s"
    "case res of
       Inl err \<Rightarrow> (\<forall>ch. abs_object L \<lparr>ob_action = a, ob_kind = k, ob_tag = e, ob_children = ch\<rparr> = Inl err) \<or> overflow err
     | Inr _ \<Rightarrow> (\<exists>g md. sink_holds sk1 s g no_children \<and> sg_kind g = k \<and> meta_view (strings (ov_interner (sk_overlay sk1))) (sg_meta g) = Some md \<and>
         (\<forall>ch. abs_object L \<lparr>ob_action = a, ob_kind = k, ob_tag = e, ob_children = ch\<rparr> =
           bind_sum (abs_children L ch no_children) (\<lambda>c. Inr (sg_id g, version_claim (sg_meta g), Upsert (content_of k (sg_lat g, sg_lon g) c md)))))"
    by (rule begin_stage [OF r n False])
  show ?thesis
  proof (cases res)
    case (Inl err)
    then show ?thesis using b by (auto simp: run_calls_Cons compact_sink_def)
  next
    case (Inr u)
    then obtain g where g: "sink_holds sk1 s g no_children" "sg_kind g = k" using b(4) by auto
    have ok: "\<forall>x \<in> set ch. child_ok a (sg_kind g) x" using c g(2) by simp
    obtain r2 sk2 where "run_calls (compact_sink L) sk1 ch = Some (r2, sk2)" "extends (sk_overlay sk1) s (sk_overlay sk2)"
      by (rule children_run [OF n g(1) ok])
    then show ?thesis using b(1,2) Inr by (auto simp: run_calls_Cons compact_sink_def extends_def)
  qed
qed

lemma framed_runs:
  assumes r: "represents (sk_overlay sk) s" and n: "norm_str L" and f: "framed d cs"
  shows "\<exists>res sk' s'. run_calls (compact_sink L) sk cs = Some (res, sk') \<and> ov_allow (sk_overlay sk') = ov_allow (sk_overlay sk) \<and>
    represents (sk_overlay sk') s'"
proof -
  have w: "\<exists>res sk' s'. run_calls (compact_sink L) sk as = Some (res, sk') \<and> ov_allow (sk_overlay sk') = ov_allow (sk_overlay sk) \<and>
      represents (sk_overlay sk') s'" if "whole as" for as
  proof -
    obtain obs where obs: "as = concat (map object_calls obs)" "\<forall>b \<in> set obs. object_ok b" using \<open>whole as\<close> by (auto simp: whole_def)
    from objects_run [OF r n obs(2)] obs(1) show ?thesis by (force split: sum.splits)
  qed
  show ?thesis
  proof (cases "ds_level d \<in> {Element, Leaf}")
    case False
    then show ?thesis using f w by (simp add: framed_def)
  next
    case True
    then obtain as e ch where c: "cs = as @ CBegin (ds_section d) (ds_open d) e # ch" "whole as"
      "\<forall>c \<in> set ch. child_ok (ds_section d) (ds_open d) c" using f by (auto simp: framed_def)
    obtain res1 sk1 s1 where one: "run_calls (compact_sink L) sk as = Some (res1, sk1)" "ov_allow (sk_overlay sk1) = ov_allow (sk_overlay sk)"
      "represents (sk_overlay sk1) s1" using w [OF c(2)] by auto
    let ?b = "\<lparr>ob_action = ds_section d, ob_kind = ds_open d, ob_tag = e, ob_children = ch\<rparr>"
    have "\<exists>res sk' s'. run_calls (compact_sink L) sk1 (CBegin (ds_section d) (ds_open d) e # ch) = Some (res, sk') \<and>
        ov_allow (sk_overlay sk') = ov_allow (sk_overlay sk1) \<and> represents (sk_overlay sk') s'"
      by (rule open_runs [OF one(3) n c(3)])
    then show ?thesis using one c(1) by (cases res1) (auto simp: run_calls_append)
  qed
qed

text \<open>A run over the elements \<open>obs\<close> that ends with \<open>res\<close> and \<open>ov\<close>, against the abstract run.\<close>

definition run_matches :: "'f XmlLib \<Rightarrow> bool \<Rightarrow> OscObject list \<Rightarrow> AbsOverlay \<Rightarrow> (osc_error + unit) \<Rightarrow> CompactDiffOverlay \<Rightarrow> bool" where
  "run_matches L al obs s res ov \<longleftrightarrow>
     ov_allow ov = al \<and>
     (case res of
        Inr _ \<Rightarrow> (\<exists>s'. abs_run L al obs s = (Inr (), s') \<and> represents ov s')
      | Inl err \<Rightarrow> (\<exists>n s'. n < length obs \<and> abs_run L al (take n obs) s = (Inr (), s') \<and> represents ov s' \<and>
          (abs_run L al obs s = (Inl err, s') \<or> overflow err)))"

lemma run_matches_append:
  "run_matches L al as s (Inl err) ov \<Longrightarrow> run_matches L al (as @ bs) s (Inl err) ov"
  "abs_run L al as s = (Inr (), s1) \<Longrightarrow> run_matches L al bs s1 res ov \<Longrightarrow> run_matches L al (as @ bs) s res ov"
proof -
  show "run_matches L al as s (Inl err) ov \<Longrightarrow> run_matches L al (as @ bs) s (Inl err) ov"
  proof -
    assume "run_matches L al as s (Inl err) ov"
    then obtain n s' where "ov_allow ov = al" "n < length as" "abs_run L al (take n as) s = (Inr (), s')" "represents ov s'"
      "abs_run L al as s = (Inl err, s') \<or> overflow err" by (auto simp: run_matches_def)
    then show ?thesis by (auto simp: run_matches_def abs_run_append intro!: exI [of _ n])
  qed
  assume a: "abs_run L al as s = (Inr (), s1)" and b: "run_matches L al bs s1 res ov"
  show "run_matches L al (as @ bs) s res ov"
  proof (cases res)
    case (Inl err)
    with b obtain n s' where "ov_allow ov = al" "n < length bs" "abs_run L al (take n bs) s1 = (Inr (), s')" "represents ov s'"
      "abs_run L al bs s1 = (Inl err, s') \<or> overflow err" by (auto simp: run_matches_def)
    with a Inl show ?thesis by (auto simp: run_matches_def abs_run_append intro!: exI [of _ "length as + n"])
  qed (use a b in \<open>auto simp: run_matches_def abs_run_append\<close>)
qed

lemma objects_match:
  assumes "represents (sk_overlay sk) s" "norm_str L" "\<forall>b \<in> set obs. object_ok b"
  obtains res sk' where "run_calls (compact_sink L) sk (concat (map object_calls obs)) = Some (res, sk')"
    "run_matches L (ov_allow (sk_overlay sk)) obs s res (sk_overlay sk')"
  using objects_run [OF assms] by (elim exE conjE) (rule that, assumption, unfold run_matches_def, intro conjI)

lemma file_run:
  assumes r: "represents ov s" and n: "norm_str L" and f: "document_fate L evs = Inr ()"
  obtains res ov' where "parse_osc_file_into L evs ov = Some (res, ov')"
    "run_matches L (ov_allow ov) (objects_of (document_calls L evs)) s res ov'"
proof -
  let ?sk = "CompactSink_new ov" and ?obs = "objects_of (document_calls L evs)"
  have o: "sk_overlay ?sk = ov" by (simp add: CompactSink_new_def)
  note w = whole_objects [OF document_whole [OF f]]
  have "represents (sk_overlay ?sk) s" using r o by simp
  obtain res sk' where "run_calls (compact_sink L) ?sk (concat (map object_calls ?obs)) = Some (res, sk')"
    "run_matches L (ov_allow (sk_overlay ?sk)) ?obs s res (sk_overlay sk')"
    by (rule objects_match [OF \<open>represents (sk_overlay ?sk) s\<close> n conjunct2 [OF w]])
  then have "run_calls (compact_sink L) ?sk (document_calls L evs) = Some (res, sk')" "run_matches L (ov_allow ov) ?obs s res (sk_overlay sk')"
    using w o by simp_all
  then show thesis using that [of res "sk_overlay sk'"] f by (cases res) (auto simp: parse_osc_file_calls)
qed

lemma files_run:
  assumes "represents ov s" and n: "norm_str L" and "\<forall>evs \<in> set docs. document_fate L evs = Inr ()"
  shows "\<exists>res ov'. parse_osc_files L docs ov = Some (res, ov') \<and> run_matches L (ov_allow ov) (documents_objects L docs) s res ov'"
  using assms(1,3)
proof (induction docs arbitrary: ov s)
  case Nil
  then show ?case by (simp add: run_matches_def documents_objects_def)
next
  case (Cons evs docs)
  have f: "document_fate L evs = Inr ()" using Cons.prems(2) by simp
  obtain r1 ov1 where one: "parse_osc_file_into L evs ov = Some (r1, ov1)"
    "run_matches L (ov_allow ov) (objects_of (document_calls L evs)) s r1 ov1" by (rule file_run [OF Cons.prems(1) n f])
  have split: "documents_objects L (evs # docs) = objects_of (document_calls L evs) @ documents_objects L docs"
    by (simp add: documents_objects_def)
  show ?case
  proof (cases r1)
    case (Inl err)
    then show ?thesis using one run_matches_append(1) by (auto simp: split)
  next
    case (Inr u)
    then obtain s1 where s1: "abs_run L (ov_allow ov) (objects_of (document_calls L evs)) s = (Inr (), s1)" "represents ov1 s1"
      "ov_allow ov1 = ov_allow ov" using one(2) by (auto simp: run_matches_def)
    from Cons.IH [OF s1(2)] Cons.prems(2) obtain res ov' where
      "parse_osc_files L docs ov1 = Some (res, ov')" "run_matches L (ov_allow ov) (documents_objects L docs) s1 res ov'" by (auto simp: s1(3))
    then show ?thesis using one(1) Inr run_matches_append(2) [OF s1(1)] by (auto simp: split)
  qed
qed

lemma files_total:
  assumes "represents ov s" and n: "norm_str L"
  shows "\<exists>res ov' s'. parse_osc_files L docs ov = Some (res, ov') \<and> represents ov' s' \<and>
    (res = Inr () \<longrightarrow> (\<forall>evs \<in> set docs. document_fate L evs = Inr ()))"
  using assms(1)
proof (induction docs arbitrary: ov s)
  case (Cons evs docs)
  let ?sk = "CompactSink_new ov"
  have o: "sk_overlay ?sk = ov" by (simp add: CompactSink_new_def)
  obtain d where f: "framed d (document_calls L evs)" using document_framed by blast
  have r: "represents (sk_overlay ?sk) s" using Cons.prems o by simp
  from framed_runs [OF r n f] obtain r1 sk1 s1 where one: "run_calls (compact_sink L) ?sk (document_calls L evs) = Some (r1, sk1)"
    "represents (sk_overlay sk1) s1" by auto
  show ?case
  proof (cases r1)
    case (Inr u)
    then have p: "parse_osc_file_into L evs ov = Some (document_fate L evs, sk_overlay sk1)" using one(1) by (simp add: parse_osc_file_calls)
    show ?thesis
      using p Cons.IH [OF one(2)] one(2) by (cases "document_fate L evs") auto
  qed (use one in \<open>auto simp: parse_osc_file_calls\<close>)
qed auto

lemma abs_run_parses: "abs_run L al obs s = (Inr (), s') \<Longrightarrow> \<exists>cs. parse_changes L obs = Inr cs"
proof (induction obs arbitrary: s)
  case (Cons b obs)
  then obtain s1 where s1: "abs_step L al b s = Inr s1" "abs_run L al obs s1 = (Inr (), s')" by (auto split: sum.splits)
  then obtain x where "abs_object L b = Inr x" by (auto simp: abs_step_def bind_sum_def split: sum.splits)
  with Cons.IH [OF s1(2)] show ?case by (cases x) (auto simp: bind_sum_def)
qed simp

lemma fresh_overlay:
  "represents (allow_version_regression CompactDiffOverlay_new al) (state_of [])" "ov_allow (allow_version_regression CompactDiffOverlay_new al) = al"
proof -
  have "\<not> al \<Longrightarrow> allow_version_regression CompactDiffOverlay_new al = CompactDiffOverlay_new"
    by (simp add: allow_version_regression_def CompactDiffOverlay_new_def)
  then show "represents (allow_version_regression CompactDiffOverlay_new al) (state_of [])"
    using represents_new represents_allow by (cases al) (simp_all add: abs_new_state)
qed (simp add: allow_version_regression_def)

lemma abs_run_fresh:
  assumes "parse_changes L obs = Inr cs"
  shows "abs_run L al obs (state_of []) =
    (case (if al then None else first_regression (map fst cs)) of
       None \<Rightarrow> (Inr (), state_of cs)
     | Some n \<Rightarrow> (Inl (regression_error ''OSC change overlay'' (map fst cs) n), state_of (take n cs)))"
  using abs_run_changes [OF assms, of al "[]"] by (simp add: first_regression_def cong: option.case_cong)

lemma changes_outcome:
  assumes "norm_str L" "\<forall>evs \<in> set docs. document_fate L evs = Inr ()" "parse_changes L (documents_objects L docs) = Inr cs"
    "parse_osc_files L docs (allow_version_regression CompactDiffOverlay_new al) = Some (res, ov)"
  shows "case (if al then None else first_regression (map fst cs)) of
      None \<Rightarrow> (res = Inr () \<and> represents ov (state_of cs)) \<or> (\<exists>err. res = Inl err \<and> overflow err)
    | Some n \<Rightarrow> \<exists>err. res = Inl err \<and> (err = regression_error ''OSC change overlay'' (map fst cs) n \<or> overflow err)"
proof -
  have m: "run_matches L al (documents_objects L docs) (state_of []) res ov"
    using files_run [OF fresh_overlay(1) [of al] assms(1,2)] assms(4) by (simp add: fresh_overlay(2))
  then show ?thesis using abs_run_fresh [OF assms(3), of al]
    by (cases "if al then None else first_regression (map fst cs)"; cases res) (auto simp: run_matches_def)
qed

lemma state_sorted:
  assumes "represents ov (state_of cs)"
  shows "diff_wf (into_sorted ov)" "set (upserts (into_sorted ov) k) = {i. \<exists>x. last_change cs k i = Upsert x}"
    "set (deleted (into_sorted ov) k) = {i. last_change cs k i = Removed}"
    "n < length (upserts (into_sorted ov) k) \<Longrightarrow> \<exists>x e. last_change cs k (upserts (into_sorted ov) k ! n) = Upsert x \<and>
      SortedDiff_element (into_sorted ov) k n = Some e \<and> read_element k e = Some (upserts (into_sorted ov) k ! n, x)"
proof -
  have fin: "os_final (state_of cs k i) = last_change cs k i" for k i by (simp add: state_of_def)
  note srt = represents_sorted [OF assms, unfolded fin]
  show "diff_wf (into_sorted ov)" "set (upserts (into_sorted ov) k) = {i. \<exists>x. last_change cs k i = Upsert x}"
    "set (deleted (into_sorted ov) k) = {i. last_change cs k i = Removed}" by (rule srt)+
  assume n: "n < length (upserts (into_sorted ov) k)"
  then obtain x where "last_change cs k (upserts (into_sorted ov) k ! n) = Upsert x" using srt(2) [of k] nth_mem [OF n] by auto
  with srt(4) [OF n this] show "\<exists>x e. last_change cs k (upserts (into_sorted ov) k ! n) = Upsert x \<and>
      SortedDiff_element (into_sorted ov) k n = Some e \<and> read_element k e = Some (upserts (into_sorted ov) k ! n, x)" by auto
qed

text \<open>
  C6: what reaches apply-changes from a series of change documents that is accepted. Every
  element of every document parsed; without the explicit permission no change claims a version below
  an earlier claim for its object; the sorted tables are well formed; and per kind they list as
  upserts exactly the objects whose last change is a create or modify, as deletions exactly those whose
  last change is a delete, and each upsert's record reads back as the content of that last change.\<close>

theorem changes_applied:
  assumes "norm_str L" "parse_osc_files L docs (allow_version_regression CompactDiffOverlay_new al) = Some (Inr (), ov)"
  shows "\<exists>cs. parse_changes L (documents_objects L docs) = Inr cs \<and> (if al then True else first_regression (map fst cs) = None) \<and>
    diff_wf (into_sorted ov) \<and>
    (\<forall>k. set (upserts (into_sorted ov) k) = {i. \<exists>x. last_change cs k i = Upsert x} \<and>
      set (deleted (into_sorted ov) k) = {i. last_change cs k i = Removed} \<and>
      (\<forall>n < length (upserts (into_sorted ov) k). \<exists>x e. last_change cs k (upserts (into_sorted ov) k ! n) = Upsert x \<and>
        SortedDiff_element (into_sorted ov) k n = Some e \<and> read_element k e = Some (upserts (into_sorted ov) k ! n, x)))"
proof -
  let ?obs = "documents_objects L docs"
  have fate: "\<forall>evs \<in> set docs. document_fate L evs = Inr ()"
    using files_total [OF fresh_overlay(1) [of al] assms(1), of docs] assms(2) by auto
  obtain s where s: "abs_run L al ?obs (state_of []) = (Inr (), s)"
    using files_run [OF fresh_overlay(1) [of al] assms(1) fate] assms(2) by (auto simp: fresh_overlay(2) run_matches_def)
  obtain cs where cs: "parse_changes L ?obs = Inr cs" using abs_run_parses [OF s] by blast
  have none: "(if al then None else first_regression (map fst cs)) = None" and r: "represents ov (state_of cs)"
    using changes_outcome [OF assms(1) fate cs assms(2)] by (auto split: option.splits)
  from cs none state_sorted [OF r] show ?thesis by (auto split: if_splits)
qed

definition utf8_lib :: "unit XmlLib" where
  "utf8_lib = sample_lib\<lparr>normalized_value := (\<lambda>v. if utf8_valid (str_bytes v) then Some v else None)\<rparr>"

lemma utf8_lib_norm: "norm_str utf8_lib"
  by (simp add: norm_str_def utf8_lib_def)

theorem changes_applied_witness:
  "\<exists>ov. parse_osc_files utf8_lib [sample_doc, sample_doc] (allow_version_regression CompactDiffOverlay_new False) = Some (Inr (), ov) \<and>
    set (deleted (into_sorted ov) Node) = {7} \<and> set (upserts (into_sorted ov) Node) = {}"
proof -
  have n: "norm_str utf8_lib" by (rule utf8_lib_norm)
  have "map_option fst (parse_osc_files utf8_lib [sample_doc, sample_doc] (allow_version_regression CompactDiffOverlay_new False)) = Some (Inr ())"
    by code_simp
  then obtain ov where ov: "parse_osc_files utf8_lib [sample_doc, sample_doc] (allow_version_regression CompactDiffOverlay_new False) = Some (Inr (), ov)"
    by auto
  have c: "parse_changes utf8_lib (documents_objects utf8_lib [sample_doc, sample_doc]) =
      Inr (let c = (\<lparr>en_kind = Node, en_id = 7, en_claim = Some 2\<rparr>, Removed) in [c, c])" by code_simp
  have l: "last_change (let c = (\<lparr>en_kind = Node, en_id = 7, en_claim = Some 2\<rparr>, Removed) in [c, c]) Node i = (if i = 7 then Removed else NoChange)" for i
    by (simp add: Let_def)
  have "set (upserts (into_sorted ov) Node) = {}" "set (deleted (into_sorted ov) Node) = {7}"
    using changes_applied [OF n ov, unfolded c] by (auto simp: l simp del: set_empty)
  with ov show ?thesis by blast
qed

text \<open>
  C7: the fate of a series of change documents. Reading them always ends, and what it leaves
  is a well-formed diff. A document that is not framed as OSC makes the series fail, and so does
  an element that does not parse. Otherwise the series is refused for the first change that claims less
  than an earlier one did for its object, naming that change and the claim it falls below, unless
  regressions are allowed; with none of these it is accepted, up to the 32-bit limits.\<close>

theorem changes_decided:
  assumes "norm_str L"
  shows "\<exists>res ov. parse_osc_files L docs (allow_version_regression CompactDiffOverlay_new al) = Some (res, ov) \<and> diff_wf (into_sorted ov) \<and>
    (if list_ex (\<lambda>evs. document_fate L evs \<noteq> Inr ()) docs then res \<noteq> Inr ()
     else case parse_changes L (documents_objects L docs) of
       Inl err \<Rightarrow> res \<noteq> Inr ()
     | Inr cs \<Rightarrow>
         (case (if al then None else first_regression (map fst cs)) of
            None \<Rightarrow> res = Inr () \<or> (\<exists>err. res = Inl err \<and> overflow err)
          | Some n \<Rightarrow> \<exists>err. res = Inl err \<and> (err = regression_error ''OSC change overlay'' (map fst cs) n \<or> overflow err)))"
proof -
  let ?new = "allow_version_regression CompactDiffOverlay_new al" and ?obs = "documents_objects L docs"
  obtain res ov s where t: "parse_osc_files L docs ?new = Some (res, ov)" "represents ov s"
    "res = Inr () \<longrightarrow> (\<forall>evs \<in> set docs. document_fate L evs = Inr ())"
    using files_total [OF fresh_overlay(1) [of al] assms, of docs] by auto
  have w: "diff_wf (into_sorted ov)" by (rule represents_sorted(1) [OF t(2)])
  show ?thesis
  proof (cases "list_ex (\<lambda>evs. document_fate L evs \<noteq> Inr ()) docs")
    case True
    then show ?thesis using t w by (auto simp: list_ex_iff)
  next
    case False
    then have fate: "\<forall>evs \<in> set docs. document_fate L evs = Inr ()" by (auto simp: list_ex_iff)
    from files_run [OF fresh_overlay(1) [of al] assms this] t(1) have m: "run_matches L al ?obs (state_of []) res ov"
      by (simp add: fresh_overlay(2))
    show ?thesis
    proof (cases "parse_changes L ?obs")
      case (Inl err)
      have "res \<noteq> Inr ()" using m Inl abs_run_parses by (fastforce simp: run_matches_def)
      then show ?thesis using False Inl t(1) w by auto
    next
      case (Inr cs)
      show ?thesis using changes_outcome [OF assms fate Inr t(1)] False Inr t(1) w
        by (cases "if al then None else first_regression (map fst cs)") auto
    qed
  qed
qed

text \<open>A deletion of node 7 at version 1, after one at version 2.\<close>

definition stale_doc :: "XmlEvent list" where
  "stale_doc = [EvStart (plain_tag ''osmChange''), EvStart (plain_tag ''delete''),
     EvEmpty \<lparr>tag_name = ''node'', attributes = [Some (''id'', ''7''), Some (''version'', ''1'')]\<rparr>, EvEnd, EvEnd]"

theorem changes_decided_witness:
  "\<exists>err ov. parse_osc_files utf8_lib [sample_doc, stale_doc] (allow_version_regression CompactDiffOverlay_new False) = Some (Inl err, ov) \<and>
    (err = VersionRegression ''OSC change overlay'' Node 7 1 2 \<or> overflow err)"
proof -
  have c: "parse_changes utf8_lib (documents_objects utf8_lib [sample_doc, stale_doc]) =
      Inr [(\<lparr>en_kind = Node, en_id = 7, en_claim = Some 2\<rparr>, Removed), (\<lparr>en_kind = Node, en_id = 7, en_claim = Some 1\<rparr>, Removed)]" by code_simp
  have f: "\<not> list_ex (\<lambda>evs. document_fate utf8_lib evs \<noteq> Inr ()) [sample_doc, stale_doc]" by code_simp
  have r: "first_regression [\<lparr>en_kind = Node, en_id = 7, en_claim = Some 2\<rparr>, \<lparr>en_kind = Node, en_id = 7, en_claim = Some 1\<rparr>] = Some 1" by code_simp
  from changes_decided [OF utf8_lib_norm, of "[sample_doc, stale_doc]" False, unfolded c if_not_P [OF f]] show ?thesis
    by (auto simp: r regression_error_def)
qed

section \<open>A directory of diffs\<close>

text \<open>\<open>str::parse::<u64>\<close>: an optional plus sign, then at least one digit.\<close>

definition parse_u64 :: "string \<Rightarrow> nat option" where
  "parse_u64 t =
     (let ds = (if t \<noteq> [] \<and> hd t = CHR ''+'' then tl t else t) in
      if ds = [] then None
      else case digits_value 0 ds of None \<Rightarrow> None | Some n \<Rightarrow> if n < 2 ^ 64 then Some (nat n) else None)"

definition strip_suffix :: "string \<Rightarrow> string \<Rightarrow> string option" where
  "strip_suffix t suf =
     (if length suf \<le> length t \<and> drop (length t - length suf) t = suf then Some (take (length t - length suf) t) else None)"

definition parse_sequence_number :: "string \<Rightarrow> nat option" where
  "parse_sequence_number filename =
     (let stem = (case strip_suffix filename ''.gz'' of Some t \<Rightarrow> t | None \<Rightarrow> filename) in
      case strip_suffix stem ''.osc'' of None \<Rightarrow> None | Some num \<Rightarrow> parse_u64 num)"

text \<open>
  A directory entry: whether it is a file, its name when that is Unicode, and the events its reader
  delivers when it opens. An entry that cannot be read is \<open>None\<close> in the listing.
\<close>

record DirEntry =
  de_is_file :: bool
  de_name :: "string option"
  de_doc :: "XmlEvent list option"

datatype load_error = LoadIo | NoneMatched nat "string list" | LoadDoc osc_error

fun scan_dir :: "DirEntry option list \<Rightarrow> (nat \<times> XmlEvent list option) list \<Rightarrow> string list \<Rightarrow>
    load_error + (nat \<times> XmlEvent list option) list \<times> string list" where
  "scan_dir [] entries skipped = Inr (entries, skipped)"
| "scan_dir (None # ds) entries skipped = Inl LoadIo"
| "scan_dir (Some d # ds) entries skipped =
     (if \<not> de_is_file d then scan_dir ds entries skipped
      else case de_name d of
        None \<Rightarrow> scan_dir ds entries skipped
      | Some filename \<Rightarrow>
          (case parse_sequence_number filename of
             Some sq \<Rightarrow> scan_dir ds (entries @ [(sq, de_doc d)]) skipped
           | None \<Rightarrow> scan_dir ds entries (skipped @ [filename])))"

fun load_entries :: "'f XmlLib \<Rightarrow> XmlEvent list option list \<Rightarrow> CompactDiffOverlay \<Rightarrow> (load_error + CompactDiffOverlay) option" where
  "load_entries L [] ov = Some (Inr ov)"
| "load_entries L (None # docs) ov = Some (Inl LoadIo)"
| "load_entries L (Some evs # docs) ov =
     (case parse_osc_file_into L evs ov of
        None \<Rightarrow> None
      | Some (Inl err, ov') \<Rightarrow> Some (Inl (LoadDoc err))
      | Some (Inr _, ov') \<Rightarrow> load_entries L docs ov')"

definition load_all_diffs :: "'f XmlLib \<Rightarrow> DirEntry option list option \<Rightarrow> (load_error + CompactDiffOverlay) option" where
  "load_all_diffs L dir =
     (case dir of
        None \<Rightarrow> Some (Inl LoadIo)
      | Some ds \<Rightarrow>
          (case scan_dir ds [] [] of
             Inl err \<Rightarrow> Some (Inl err)
           | Inr (entries, skipped) \<Rightarrow>
               if entries = [] \<and> skipped \<noteq> []
               then Some (Inl (NoneMatched (length skipped)
                 (let shown = take 5 skipped in if length shown < length skipped then shown @ [''...''] else shown)))
               else load_entries L (map snd (sort_key fst entries)) CompactDiffOverlay_new))"

text \<open>The sequence-named files of a listing, and the other files' names.\<close>

definition seq_file :: "DirEntry \<Rightarrow> (nat \<times> XmlEvent list option) option" where
  "seq_file d = (if de_is_file d then Option.bind (de_name d) (\<lambda>t. map_option (\<lambda>sq. (sq, de_doc d)) (parse_sequence_number t)) else None)"

definition other_file :: "DirEntry \<Rightarrow> string option" where
  "other_file d = (if de_is_file d then Option.bind (de_name d) (\<lambda>t. if parse_sequence_number t = None then Some t else None) else None)"

lemma scan_dir_files:
  "scan_dir (map Some ds) entries skipped = Inr (entries @ List.map_filter seq_file ds, skipped @ List.map_filter other_file ds)"
  by (induction ds arbitrary: entries skipped) (auto simp: map_filter_simps seq_file_def other_file_def split: option.splits)

lemma load_entries_files:
  "load_entries L (map Some docs) ov =
    map_option (\<lambda>(r, ov'). case r of Inl err \<Rightarrow> Inl (LoadDoc err) | Inr _ \<Rightarrow> Inr ov') (parse_osc_files L docs ov)"
  by (induction docs arbitrary: ov) (auto split: option.splits sum.splits)

lemma map_filter_mset: "mset xs = mset ys \<Longrightarrow> mset (List.map_filter f xs) = mset (List.map_filter f ys)"
  by (simp only: map_filter_def mset_map mset_filter)

text \<open>
  The order a directory lists its files in has no influence on what is loaded from it, provided no two
  sequence-named files carry the same sequence number (as \<open>5.osc\<close> and \<open>5.osc.gz\<close> would) and at least one file is
  sequence-named. Every listing of the same entries then leads to the same overlay or the same error; and when every
  such file opens, that is the outcome of reading their documents by ascending sequence number. Without a
  sequence-named file, the error names files in the order of the listing.\<close>

theorem load_listing_order:
  assumes "mset ds = mset ds'" "distinct (map fst (List.map_filter seq_file ds))" "List.map_filter seq_file ds \<noteq> []"
  shows "load_all_diffs L (Some (map Some ds)) = load_all_diffs L (Some (map Some ds')) \<and>
    (\<forall>docs. map snd (sort_key fst (List.map_filter seq_file ds)) = map Some docs \<longrightarrow>
      load_all_diffs L (Some (map Some ds)) =
        map_option (\<lambda>(r, ov). case r of Inl err \<Rightarrow> Inl (LoadDoc err) | Inr _ \<Rightarrow> Inr ov) (parse_osc_files L docs CompactDiffOverlay_new))"
proof -
  let ?f = "List.map_filter seq_file"
  have m: "mset (?f ds) = mset (?f ds')" by (rule map_filter_mset [OF assms(1)])
  then have ne: "?f ds' \<noteq> []" using assms(3) by auto
  have inj: "inj_on fst (set (?f ds))" using assms(2) by (simp add: distinct_map)
  have "sort_key fst (?f ds) = sort_key fst (?f ds')"
    by (rule sort_key_inj_key_eq [OF _ inj]) (simp_all add: m)
  then have "load_all_diffs L (Some (map Some ds)) = load_all_diffs L (Some (map Some ds'))"
    using assms(3) ne by (simp add: load_all_diffs_def scan_dir_files)
  moreover have "load_all_diffs L (Some (map Some ds)) =
      map_option (\<lambda>(r, ov). case r of Inl err \<Rightarrow> Inl (LoadDoc err) | Inr _ \<Rightarrow> Inr ov) (parse_osc_files L docs CompactDiffOverlay_new)"
    if "map snd (sort_key fst (?f ds)) = map Some docs" for docs
    using assms(3) that by (simp add: load_all_diffs_def scan_dir_files load_entries_files)
  ultimately show ?thesis by blast
qed

definition diff_file :: "string \<Rightarrow> XmlEvent list \<Rightarrow> DirEntry" where
  "diff_file name evs = \<lparr>de_is_file = True, de_name = Some name, de_doc = Some evs\<rparr>"

theorem load_listing_order_witness:
  "load_all_diffs utf8_lib (Some (map Some [diff_file ''10.osc'' stale_doc, diff_file ''README'' [], diff_file ''9.osc.gz'' sample_doc])) =
     load_all_diffs utf8_lib (Some (map Some [diff_file ''9.osc.gz'' sample_doc, diff_file ''10.osc'' stale_doc, diff_file ''README'' []])) \<and>
   load_all_diffs utf8_lib (Some (map Some [diff_file ''10.osc'' stale_doc, diff_file ''README'' [], diff_file ''9.osc.gz'' sample_doc])) =
     Some (Inl (LoadDoc (VersionRegression ''OSC change overlay'' Node 7 1 2)))"
proof -
  let ?ds = "[diff_file ''10.osc'' stale_doc, diff_file ''README'' [], diff_file ''9.osc.gz'' sample_doc]"
  let ?ds' = "[diff_file ''9.osc.gz'' sample_doc, diff_file ''10.osc'' stale_doc, diff_file ''README'' []]"
  have f: "List.map_filter seq_file ?ds = [(10, Some stale_doc), (9, Some sample_doc)]" by code_simp
  have m: "mset ?ds = mset ?ds'" by simp
  have p: "map_option fst (parse_osc_files utf8_lib [sample_doc, stale_doc] CompactDiffOverlay_new) =
      Some (Inl (VersionRegression ''OSC change overlay'' Node 7 1 2))" by code_simp
  have "distinct (map fst (List.map_filter seq_file ?ds))" "List.map_filter seq_file ?ds \<noteq> []"
    "map snd (sort_key fst (List.map_filter seq_file ?ds)) = map Some [sample_doc, stale_doc]" unfolding f by simp_all
  note order = load_listing_order [OF m this(1,2), of utf8_lib] this(3)
  then have "load_all_diffs utf8_lib (Some (map Some ?ds)) =
      map_option (\<lambda>(r, ov). case r of Inl err \<Rightarrow> Inl (LoadDoc err) | Inr _ \<Rightarrow> Inr ov)
        (parse_osc_files utf8_lib [sample_doc, stale_doc] CompactDiffOverlay_new)" by blast
  then have "load_all_diffs utf8_lib (Some (map Some ?ds)) = Some (Inl (LoadDoc (VersionRegression ''OSC change overlay'' Node 7 1 2)))"
    using p by auto
  then show ?thesis using order(1) by blast
qed

end
