(* ===== verification/Simplify.thy ===== *)
theory Simplify
  imports Osc_Apply
begin

text \<open>
  The deduplication of \<open>merge-changes --simplify\<close> (\<open>commands/merge_changes/simplify.rs\<close>): one key
  per change, sorted by object and place in the input, one pass per object that keeps a version
  floor and the object's last change. It is shown to be the serial pass over the concatenated
  input: the same first regression, the same survivors. Since the change overlay of
  apply-changes was shown to follow the same rule (\<open>Osc_Apply\<close>), the two consumers of change files
  refuse the same inputs for the same change.
\<close>

section \<open>Model\<close>

record Element =
  el_kind :: ElementKind
  el_action :: OscAction
  el_id :: i64
  el_version :: "i32 option"
  el_start :: nat
  el_end :: nat

record Rendered =
  rd_xml :: "u8 list"
  rd_elements :: "Element list"

text \<open>The order of \<open>Key\<close> is the derived one of its tuple, with the ID signed.\<close>

type_synonym Key = "ElementKind \<times> i64 \<times> u32 \<times> u32"

definition key_rank :: "Key \<Rightarrow> ElementKind \<times> int \<times> nat \<times> nat" where
  "key_rank key = (case key of (k, i, b, e) \<Rightarrow> (k, sint i, unat b, unat e))"

definition position :: "nat \<Rightarrow> osc_error + u32" where
  "position i = (case u32_try_from i of Some n \<Rightarrow> Inr n | None \<Rightarrow> Inl (Internal ''merge-changes: more than 4 Gi batches or elements''))"

fun batch_keys :: "u32 \<Rightarrow> nat \<Rightarrow> Element list \<Rightarrow> osc_error + Key list" where
  "batch_keys b i [] = Inr []"
| "batch_keys b i (e # es) =
     bind_sum (position i) (\<lambda>n. bind_sum (batch_keys b (Suc i) es) (\<lambda>ks. Inr ((el_kind e, el_id e, b, n) # ks)))"

fun build_keys :: "nat \<Rightarrow> Rendered list \<Rightarrow> osc_error + Key list" where
  "build_keys b [] = Inr []"
| "build_keys b (r # rs) =
     bind_sum (position b) (\<lambda>n. bind_sum (batch_keys n 0 (rd_elements r)) (\<lambda>ks. bind_sum (build_keys (Suc b) rs) (\<lambda>ks'. Inr (ks @ ks'))))"

text \<open>\<open>slice::chunk_by\<close>: maximal runs whose neighbours are related.\<close>

fun chunk_by :: "('a \<Rightarrow> 'a \<Rightarrow> bool) \<Rightarrow> 'a list \<Rightarrow> 'a list list" where
  "chunk_by R [] = []"
| "chunk_by R (x # xs) =
     (case chunk_by R xs of
        [] \<Rightarrow> [[x]]
      | c # cs \<Rightarrow> if R x (hd c) then (x # c) # cs else [x] # c # cs)"

definition element_at :: "Rendered list \<Rightarrow> Key \<Rightarrow> Element" where
  "element_at batches key = (case key of (k, i, b, e) \<Rightarrow> rd_elements (batches ! unat b) ! unat e)"

definition same_object :: "Key \<Rightarrow> Key \<Rightarrow> bool" where
  "same_object a b \<longleftrightarrow> fst a = fst b \<and> fst (snd a) = fst (snd b)"

definition key_place :: "Key \<Rightarrow> u32 \<times> u32" where
  "key_place key = snd (snd key)"

text \<open>The claims of one object after the first, up to the first that falls below the floor.\<close>

fun scan_claims :: "Rendered list \<Rightarrow> VersionFloor \<Rightarrow> Key list \<Rightarrow> (Key \<times> i32 \<times> i32) option" where
  "scan_claims batches fl [] = None"
| "scan_claims batches fl (key # ks) =
     (let claim = el_version (element_at batches key) in
      case (claim, admit fl claim) of
        (Some version, Inl held) \<Rightarrow> Some (key, version, held)
      | _ \<Rightarrow> scan_claims batches (raise fl claim) ks)"

definition object_regression :: "Rendered list \<Rightarrow> Key list \<Rightarrow> (Key \<times> i32 \<times> i32) option" where
  "object_regression batches object =
     (case object of
        [] \<Rightarrow> None
      | first # claims \<Rightarrow> scan_claims batches (raise (VersionFloor None) (el_version (element_at batches first))) claims)"

definition earlier_of :: "(Key \<times> i32 \<times> i32) option \<Rightarrow> (Key \<times> i32 \<times> i32) option \<Rightarrow> (Key \<times> i32 \<times> i32) option" where
  "earlier_of acc new =
     (case new of
        None \<Rightarrow> acc
      | Some r \<Rightarrow>
          (case acc of
             None \<Rightarrow> Some r
           | Some at \<Rightarrow> if key_place (fst r) < key_place (fst at) then Some r else Some at))"

type_synonym Groups = "(u32 \<times> u32) list \<times> (u32 \<times> u32) list \<times> (u32 \<times> u32) list"

definition push_group :: "Rendered list \<Rightarrow> Key list \<Rightarrow> Groups \<Rightarrow> Groups" where
  "push_group batches object groups =
     (if object = [] then groups
      else let l = last object; p = key_place l in
        case groups of (c, m, d) \<Rightarrow>
          (case el_action (element_at batches l) of
             Create \<Rightarrow> (c @ [p], m, d) | Modify \<Rightarrow> (c, m @ [p], d) | Delete \<Rightarrow> (c, m, d @ [p])))"

definition dedupe_object :: "Rendered list \<Rightarrow> bool \<Rightarrow> (Key \<times> i32 \<times> i32) option \<times> Groups \<Rightarrow> Key list \<Rightarrow> (Key \<times> i32 \<times> i32) option \<times> Groups" where
  "dedupe_object batches allow s object =
     (case s of (reg, groups) \<Rightarrow>
        (if allow then reg else earlier_of reg (object_regression batches object), push_group batches object groups))"

definition dedupe :: "Rendered list \<Rightarrow> bool \<Rightarrow> osc_error + Groups" where
  "dedupe batches allow =
     bind_sum (build_keys 0 batches) (\<lambda>keys.
       case foldl (dedupe_object batches allow) (None, ([], [], [])) (chunk_by same_object (sort_key key_rank keys)) of
         (Some (key, version, held), _) \<Rightarrow> Inl (VersionRegression ''merge-changes simplification'' (fst key) (fst (snd key)) version held)
       | (None, groups) \<Rightarrow> Inr groups)"

section \<open>Places in the input\<close>

definition all_elements :: "Rendered list \<Rightarrow> Element list" where
  "all_elements rs = concat (map rd_elements rs)"

definition sizes_ok :: "Rendered list \<Rightarrow> bool" where
  "sizes_ok rs \<longleftrightarrow> int (length rs) \<le> 2 ^ 32 \<and> list_all (\<lambda>r. int (length (rd_elements r)) \<le> 2 ^ 32) rs"

fun places :: "nat \<Rightarrow> Rendered list \<Rightarrow> (u32 \<times> u32) list" where
  "places b [] = []"
| "places b (r # rs) = map (\<lambda>i. (of_nat b, of_nat i)) [0..<length (rd_elements r)] @ places (Suc b) rs"

definition key_of :: "Element \<Rightarrow> u32 \<times> u32 \<Rightarrow> Key" where
  "key_of e p = (el_kind e, el_id e, p)"

lemma key_of_parts [simp]: "fst (key_of e p) = el_kind e" "fst (snd (key_of e p)) = el_id e"
  by (simp_all add: key_of_def)

lemma position_cases: "position i = (if int i < 2 ^ 32 then Inr (of_nat i) else Inl (Internal ''merge-changes: more than 4 Gi batches or elements''))"
  by (simp add: position_def u32_try_from_def)

lemma unat_u32 [simp]: "int i < 4294967296 \<Longrightarrow> unat (of_nat i :: u32) = i"
  by (simp add: unat_of_nat take_bit_nat_eq_self_iff)

lemma batch_keys_eq:
  "batch_keys b i es =
    (if es \<noteq> [] \<and> \<not> int (i + length es) \<le> 2 ^ 32 then Inl (Internal ''merge-changes: more than 4 Gi batches or elements'')
     else Inr (map2 key_of es (map (\<lambda>n. (b, of_nat n)) [i..<i + length es])))"
proof (induction es arbitrary: i)
  case (Cons e es)
  have "[i..<i + length (e # es)] = i # [Suc i..<Suc i + length es]" by (simp add: upt_rec del: upt_Suc)
  then show ?case
    by (cases "es = []") (auto simp: Cons.IH position_cases bind_sum_def key_of_def simp del: upt_Suc)
qed simp

lemma length_places [simp]: "length (places b rs) = length (all_elements rs)"
  by (induction rs arbitrary: b) (simp_all add: all_elements_def)

lemma build_keys_eq:
  "build_keys b rs =
    (if rs \<noteq> [] \<and> \<not> (int (b + length rs) \<le> 2 ^ 32 \<and> list_all (\<lambda>r. int (length (rd_elements r)) \<le> 2 ^ 32) rs)
     then Inl (Internal ''merge-changes: more than 4 Gi batches or elements'')
     else Inr (map2 key_of (all_elements rs) (places b rs)))"
proof (induction rs arbitrary: b)
  case (Cons r rs)
  show ?case
    by (cases "rs = []")
      (auto simp: Cons.IH position_cases bind_sum_def batch_keys_eq all_elements_def zip_append)
qed (simp add: all_elements_def)

lemma places_batch: "p \<in> set (places b rs) \<Longrightarrow> int (b + length rs) \<le> 2 ^ 32 \<Longrightarrow> b \<le> unat (fst p)"
proof (induction rs arbitrary: b)
  case (Cons r rs)
  have "Suc b \<le> unat (fst p)" if "p \<in> set (places (Suc b) rs)" using Cons.IH [OF that] Cons.prems(2) by simp
  then show ?case using Cons.prems by auto
qed simp

lemma places_sorted:
  "int (b + length rs) \<le> 2 ^ 32 \<Longrightarrow> list_all (\<lambda>r. int (length (rd_elements r)) \<le> 2 ^ 32) rs \<Longrightarrow> sorted_wrt (<) (places b rs)"
proof (induction rs arbitrary: b)
  case (Cons r rs)
  have "sorted_wrt (\<lambda>i j. (of_nat b :: u32, of_nat i :: u32) < (of_nat b, of_nat j)) [0..<length (rd_elements r)]"
    using Cons.prems(2) by (intro sorted_wrt_upt [THEN sorted_wrt_mono_rel [rotated]]) (auto simp: less_prod_def word_less_nat_alt)
  moreover have "(of_nat b, of_nat i) < p" if "p \<in> set (places (Suc b) rs)" for i p
    using places_batch [OF that] Cons.prems(1) by (cases p) (auto simp: less_prod_def word_less_nat_alt)
  ultimately show ?case using Cons.IH [of "Suc b"] Cons.prems by (auto simp: sorted_wrt_append sorted_wrt_map)
qed simp

lemma places_element:
  "int (length (pre @ rs)) \<le> 2 ^ 32 \<Longrightarrow> list_all (\<lambda>r. int (length (rd_elements r)) \<le> 2 ^ 32) rs \<Longrightarrow> n < length (all_elements rs) \<Longrightarrow>
    rd_elements ((pre @ rs) ! unat (fst (places (length pre) rs ! n))) ! unat (snd (places (length pre) rs ! n)) = all_elements rs ! n"
proof (induction rs arbitrary: pre n)
  case (Cons r rs)
  show ?case
  proof (cases "n < length (rd_elements r)")
    case True
    then show ?thesis using Cons.prems by (simp add: nth_append all_elements_def)
  next
    case False
    then show ?thesis using Cons.IH [of "pre @ [r]" "n - length (rd_elements r)"] Cons.prems
      by (simp add: nth_append all_elements_def)
  qed
qed (simp add: all_elements_def)

section \<open>Objects and their changes\<close>

definition object_at :: "Element list \<Rightarrow> nat \<Rightarrow> ElementKind \<times> i64" where
  "object_at es n = (el_kind (es ! n), el_id (es ! n))"

definition object_rank :: "ElementKind \<times> i64 \<Rightarrow> ElementKind \<times> int" where
  "object_rank q = (fst q, sint (snd q))"

definition changes_of :: "Element list \<Rightarrow> ElementKind \<times> i64 \<Rightarrow> nat list" where
  "changes_of es q = filter (\<lambda>n. object_at es n = q) [0..<length es]"

definition objects_sorted :: "Element list \<Rightarrow> (ElementKind \<times> i64) list" where
  "objects_sorted es = sort_key object_rank (remdups (map (object_at es) [0..<length es]))"

definition change_entry :: "Element \<Rightarrow> Entry" where
  "change_entry e = \<lparr>en_kind = el_kind e, en_id = el_id e, en_claim = el_version e\<rparr>"

lemma inj_object_rank: "inj object_rank"
  by (auto simp: object_rank_def sint_eq_iff intro!: injI prod_eqI)

lemma sorted_strict: "sorted (map f xs) \<Longrightarrow> distinct (map f xs) \<Longrightarrow> sorted_wrt (\<lambda>a b. f a < f b) xs" for f :: "'a \<Rightarrow> 'b::linorder"
  by (metis sorted_wrt_map strict_sorted_iff)

lemma strict_sort_key:
  fixes f :: "'a \<Rightarrow> 'b::linorder"
  assumes "sorted_wrt (\<lambda>a b. f a < f b) ys" "set xs = set ys" "distinct xs"
  shows "sort_key f xs = ys"
proof -
  have s: "sorted (map f ys)" "distinct (map f ys)" using assms(1) by (metis sorted_wrt_map strict_sorted_iff)+
  have d: "distinct ys" using s(2) by (simp add: distinct_map)
  have inj: "inj_on f (set xs)" using s(2) assms(2) by (simp add: distinct_map)
  show ?thesis by (rule sort_key_inj_key_eq [OF _ inj s(1)]) (simp add: set_eq_iff_mset_eq_distinct [symmetric] assms(2,3) d)
qed

lemma objects_sorted: "sorted_wrt (\<lambda>a b. object_rank a < object_rank b) (objects_sorted es)"
  "set (objects_sorted es) = object_at es ` {0..<length es}" "distinct (objects_sorted es)"
  using inj_on_subset [OF inj_object_rank subset_UNIV]
  by (auto simp: objects_sorted_def distinct_map intro!: sorted_strict)

lemma chunk_by_run:
  "c \<noteq> [] \<Longrightarrow> \<forall>x \<in> set c. f x = q \<Longrightarrow> chunk_by (\<lambda>a b. f a = f b) rest = css \<Longrightarrow> \<forall>c' \<in> set css. c' \<noteq> [] \<Longrightarrow>
    (css \<noteq> [] \<Longrightarrow> f (hd (hd css)) \<noteq> q) \<Longrightarrow> chunk_by (\<lambda>a b. f a = f b) (c @ rest) = c # css"
proof (induction c)
  case (Cons x c)
  then show ?case by (cases "c = []") (auto split: list.splits)
qed simp

lemma chunk_by_groups:
  assumes "\<forall>q \<in> set qs. g q \<noteq> [] \<and> (\<forall>x \<in> set (g q). f x = q)" "distinct qs"
  shows "chunk_by (\<lambda>a b. f a = f b) (concat (map g qs)) = map g qs"
  using assms
proof (induction qs)
  case (Cons q qs)
  have "f (hd (g q')) = q'" if "q' \<in> set qs" for q' using Cons.prems(1) that by (simp add: hd_in_set)
  then have "map g qs \<noteq> [] \<Longrightarrow> f (hd (hd (map g qs))) \<noteq> q" using Cons.prems(2) by (cases qs) auto
  moreover have "\<forall>c \<in> set (map g qs). c \<noteq> []" using Cons.prems(1) by (metis (no_types, lifting) imageE list.set_intros(2) list.set_map)
  ultimately show ?case using Cons by (auto intro!: chunk_by_run simp del: set_map)
qed simp

lemma concat_groups_sorted:
  fixes h :: "'a \<Rightarrow> 'b::linorder"
  assumes "sorted_wrt (\<lambda>a b. \<forall>x \<in> set (g a). \<forall>y \<in> set (g b). h x < h y) qs" "\<forall>q \<in> set qs. sorted_wrt (\<lambda>x y. h x < h y) (g q)"
  shows "sorted_wrt (\<lambda>x y. h x < h y) (concat (map g qs))"
  using assms by (induction qs) (auto simp: sorted_wrt_append)

text \<open>The changes of an object scanned with its floor meet the regression of the input.\<close>

definition regression_at :: "Element list \<Rightarrow> (u32 \<times> u32) list \<Rightarrow> nat \<Rightarrow> Key \<times> i32 \<times> i32" where
  "regression_at es pl n = (key_of (es ! n) (pl ! n), the (el_version (es ! n)),
     the (highest (map change_entry (take n es)) (el_kind (es ! n)) (el_id (es ! n))))"

lemma highest_take:
  "n < length es \<Longrightarrow> highest (map change_entry (take (Suc n) es)) k i =
    (if object_at es n = (k, i) then opt_max (highest (map change_entry (take n es)) k i) (el_version (es ! n)) else highest (map change_entry (take n es)) k i)"
  by (simp add: take_Suc_conv_app_nth highest_append object_at_def change_entry_def)

lemma regresses_elements:
  "n < length es \<Longrightarrow> regresses (map change_entry es) n \<longleftrightarrow>
    (case (highest (map change_entry (take n es)) (el_kind (es ! n)) (el_id (es ! n)), el_version (es ! n)) of
       (Some fl, Some c) \<Rightarrow> c <s fl | _ \<Rightarrow> False)"
  by (simp add: regresses_def change_entry_def take_map)

lemma scan_claims_eq:
  assumes "\<And>n. n < length es \<Longrightarrow> element_at batches (key_of (es ! n) (pl ! n)) = es ! n" "m \<le> length es"
  shows "scan_claims batches (VersionFloor (highest (map change_entry (take m es)) k i))
      (map (\<lambda>n. key_of (es ! n) (pl ! n)) (filter (\<lambda>n. object_at es n = (k, i)) [m..<length es])) =
    map_option (regression_at es pl) (find (\<lambda>n. object_at es n = (k, i) \<and> regresses (map change_entry es) n) [m..<length es])"
  using assms(2)
proof (induction "length es - m" arbitrary: m)
  case (Suc d)
  then have m: "m < length es" and ih: "scan_claims batches (VersionFloor (highest (map change_entry (take (Suc m) es)) k i))
      (map (\<lambda>n. key_of (es ! n) (pl ! n)) (filter (\<lambda>n. object_at es n = (k, i)) [Suc m..<length es])) =
    map_option (regression_at es pl) (find (\<lambda>n. object_at es n = (k, i) \<and> regresses (map change_entry es) n) [Suc m..<length es])"
    by auto
  have u: "[m..<length es] = m # [Suc m..<length es]" using m by (rule upt_conv_Cons)
  show ?case
  proof (cases "object_at es m = (k, i)")
    case False
    then show ?thesis using ih m by (simp add: u highest_take)
  next
    case True
    then have ki: "el_kind (es ! m) = k" "el_id (es ! m) = i" by (simp_all add: object_at_def)
    show ?thesis
    proof (cases "regresses (map change_entry es) m")
      case reg: True
      then show ?thesis using True m ki assms(1) [OF m]
        by (auto simp: u regresses_elements regression_at_def split: option.splits)
    next
      case False
      have "scan_claims batches (VersionFloor (highest (map change_entry (take m es)) k i))
          (map (\<lambda>n. key_of (es ! n) (pl ! n)) (filter (\<lambda>n. object_at es n = (k, i)) [m..<length es])) =
        scan_claims batches (raise (VersionFloor (highest (map change_entry (take m es)) k i)) (el_version (es ! m)))
          (map (\<lambda>n. key_of (es ! n) (pl ! n)) (filter (\<lambda>n. object_at es n = (k, i)) [Suc m..<length es]))"
        using False True m ki assms(1) [OF m] by (auto simp: u regresses_elements Let_def split: option.splits sum.splits)
      then show ?thesis using ih True False m ki by (simp add: u highest_take raise_opt_max)
    qed
  qed
qed simp

section \<open>The serial pass\<close>

definition keyed :: "Element list \<Rightarrow> (u32 \<times> u32) list \<Rightarrow> nat \<Rightarrow> Key" where
  "keyed es pl n = key_of (es ! n) (pl ! n)"

lemma keyed_parts [simp]:
  "key_place (keyed es pl n) = pl ! n" "fst (keyed es pl n) = el_kind (es ! n)" "fst (snd (keyed es pl n)) = el_id (es ! n)"
  by (simp_all add: keyed_def key_of_def key_place_def)

lemma key_rank_keyed: "key_rank (keyed es pl n) = (el_kind (es ! n), sint (el_id (es ! n)), unat (fst (pl ! n)), unat (snd (pl ! n)))"
  by (cases "pl ! n") (simp add: keyed_def key_of_def key_rank_def)

lemma place_less: "(p :: u32 \<times> u32) < q \<longleftrightarrow> (unat (fst p), unat (snd p)) < (unat (fst q), unat (snd q))"
  by (auto simp: less_prod_def word_less_nat_alt word_le_nat_alt)

lemma keys_sorted:
  assumes "sorted_wrt (<) pl" "length pl = length es"
  shows "sort_key key_rank (map2 key_of es pl) = concat (map (\<lambda>q. map (keyed es pl) (changes_of es q)) (objects_sorted es))"
proof (rule strict_sort_key)
  have mp: "map2 key_of es pl = map (keyed es pl) [0..<length es]" using assms(2) by (intro nth_equalityI) (auto simp: keyed_def)
  show "distinct (map2 key_of es pl)"
  proof -
    have "distinct pl" using assms(1) by (simp add: strict_sorted_iff)
    moreover have "map key_place (map2 key_of es pl) = pl" unfolding mp using assms(2) by (intro nth_equalityI) simp_all
    ultimately have "distinct (map key_place (map2 key_of es pl))" by simp
    then show ?thesis by (rule distinct_map [THEN iffD1, THEN conjunct1])
  qed
  show "set (map2 key_of es pl) = set (concat (map (\<lambda>q. map (keyed es pl) (changes_of es q)) (objects_sorted es)))"
    unfolding mp by (auto simp: objects_sorted(2) changes_of_def)
  show "sorted_wrt (\<lambda>x y. key_rank x < key_rank y) (concat (map (\<lambda>q. map (keyed es pl) (changes_of es q)) (objects_sorted es)))"
  proof (rule concat_groups_sorted)
    show "sorted_wrt (\<lambda>a b. \<forall>x \<in> set (map (keyed es pl) (changes_of es a)). \<forall>y \<in> set (map (keyed es pl) (changes_of es b)). key_rank x < key_rank y)
        (objects_sorted es)"
      by (rule sorted_wrt_mono_rel [OF _ objects_sorted(1)])
        (auto simp: changes_of_def object_at_def object_rank_def key_rank_keyed less_prod_def)
    have asc: "pl ! x < pl ! y" if "x < y" "y < length es" for x y using assms that by (simp add: sorted_wrt_iff_nth_less)
    show "\<forall>q \<in> set (objects_sorted es). sorted_wrt (\<lambda>x y. key_rank x < key_rank y) (map (keyed es pl) (changes_of es q))"
    proof
      fix q
      have "sorted_wrt (<) (changes_of es q)" by (simp add: changes_of_def sorted_wrt_filter)
      then show "sorted_wrt (\<lambda>x y. key_rank x < key_rank y) (map (keyed es pl) (changes_of es q))"
        unfolding sorted_wrt_map
        by (rule sorted_wrt_mono_rel [rotated])
          (use asc in \<open>auto simp: changes_of_def object_at_def key_rank_keyed place_less less_prod_def\<close>)
    qed
  qed
qed

lemma keys_chunked:
  assumes "sorted_wrt (<) pl" "length pl = length es"
  shows "chunk_by same_object (sort_key key_rank (map2 key_of es pl)) = map (\<lambda>q. map (keyed es pl) (changes_of es q)) (objects_sorted es)"
proof -
  have so: "same_object = (\<lambda>a b. (fst a, fst (snd a)) = (fst b, fst (snd b)))" by (intro ext) (simp add: same_object_def)
  have "\<forall>q \<in> set (objects_sorted es). map (keyed es pl) (changes_of es q) \<noteq> [] \<and>
      (\<forall>x \<in> set (map (keyed es pl) (changes_of es q)). (fst x, fst (snd x)) = q)"
    by (auto simp: objects_sorted(2) changes_of_def object_at_def filter_empty_conv)
  then show ?thesis unfolding keys_sorted [OF assms] so by (rule chunk_by_groups [OF _ objects_sorted(3)])
qed

text \<open>The earliest of two regressions, by place.\<close>

fun earliest :: "nat option \<Rightarrow> nat option \<Rightarrow> nat option" where
  "earliest (Some m) (Some n) = Some (min m n)"
| "earliest a None = a"
| "earliest None b = b"

lemma find_or:
  "sorted_wrt (<) ns \<Longrightarrow> find (\<lambda>n. P n \<or> Q n) ns = earliest (find P ns) (find Q ns)"
proof (induction ns)
  case (Cons a ns)
  have "a < n" if "find R ns = Some n" for R n using Cons.prems that by (auto simp: find_Some_iff)
  then have "\<forall>n. find P ns = Some n \<longrightarrow> a < n" "\<forall>n. find Q ns = Some n \<longrightarrow> a < n" by blast+
  then show ?case using Cons by (cases "find P ns"; cases "find Q ns") (auto simp: min_def)
qed simp

lemma earlier_of_places:
  assumes "sorted_wrt (<) pl" "length pl = length es" "\<forall>n \<in> set_option a. n < length es" "\<forall>n \<in> set_option b. n < length es"
  shows "earlier_of (map_option (regression_at es pl) a) (map_option (regression_at es pl) b) = map_option (regression_at es pl) (earliest a b)"
proof -
  have less: "pl ! n < pl ! m \<longleftrightarrow> n < m" if "n < length es" "m < length es" for n m
    using assms(1,2) that by (metis linorder_neqE_nat order.asym order.irrefl sorted_wrt_iff_nth_less)
  show ?thesis using assms(3,4)
    by (cases a; cases b) (auto simp: earlier_of_def regression_at_def key_place_def key_of_def less min_def)
qed

definition last_of :: "Element list \<Rightarrow> ElementKind \<times> i64 \<Rightarrow> nat" where
  "last_of es q = last (changes_of es q)"

definition group_of :: "Element list \<Rightarrow> (u32 \<times> u32) list \<Rightarrow> (ElementKind \<times> i64) list \<Rightarrow> OscAction \<Rightarrow> (u32 \<times> u32) list" where
  "group_of es pl qs a = map (\<lambda>n. pl ! n) (filter (\<lambda>n. el_action (es ! n) = a) (map (last_of es) qs))"

lemma dedupe_fold:
  assumes "sorted_wrt (<) pl" "length pl = length es"
    "\<And>n. n < length es \<Longrightarrow> element_at batches (keyed es pl n) = es ! n" "set qs \<subseteq> object_at es ` {0..<length es}"
  shows "foldl (dedupe_object batches al) (None, ([], [], [])) (map (\<lambda>q. map (keyed es pl) (changes_of es q)) qs) =
    (if al then None else map_option (regression_at es pl) (find (\<lambda>n. object_at es n \<in> set qs \<and> regresses (map change_entry es) n) [0..<length es]),
     group_of es pl qs Create, group_of es pl qs Modify, group_of es pl qs Delete)"
  using assms(4)
proof (induction qs rule: rev_induct)
  case Nil
  have "find (\<lambda>n. False) ns = None" for ns :: "nat list" by (simp add: find_None_iff)
  then show ?case by (simp add: group_of_def)
next
  case (snoc q qs)
  let ?o = "map (keyed es pl) (changes_of es q)" and ?R = "regresses (map change_entry es)"
  have ne: "changes_of es q \<noteq> []" using snoc.prems by (auto simp: changes_of_def filter_empty_conv)
  have ll: "last (changes_of es q) < length es" using last_in_set [OF ne] by (auto simp: changes_of_def)
  obtain k i where q: "q = (k, i)" by (cases q)
  have sc: "object_regression batches object = scan_claims batches (VersionFloor None) object" for object
    by (cases object) (auto simp: object_regression_def Let_def split: option.splits)
  have reg: "object_regression batches ?o = map_option (regression_at es pl) (find (\<lambda>n. object_at es n = q \<and> ?R n) [0..<length es])"
    using scan_claims_eq [of es batches pl 0 k i, folded keyed_def] assms(3) by (simp add: sc q changes_of_def)
  have fb: "\<forall>n \<in> set_option (find P [0..<length es]). n < length es" for P by (auto simp: find_Some_iff)
  have eq: "(\<lambda>n. object_at es n \<in> set (qs @ [q]) \<and> ?R n) = (\<lambda>n. (object_at es n \<in> set qs \<and> ?R n) \<or> (object_at es n = q \<and> ?R n))" by auto
  have grp: "push_group batches ?o (group_of es pl qs Create, group_of es pl qs Modify, group_of es pl qs Delete) =
      (group_of es pl (qs @ [q]) Create, group_of es pl (qs @ [q]) Modify, group_of es pl (qs @ [q]) Delete)"
    using ne ll assms(3) by (cases "el_action (es ! last (changes_of es q))") (auto simp: push_group_def Let_def last_map group_of_def last_of_def)
  have step: "dedupe_object batches al (r, groups) object =
      (if al then r else earlier_of r (object_regression batches object), push_group batches object groups)" for r groups object
    by (simp add: dedupe_object_def)
  have ih: "foldl (dedupe_object batches al) (None, ([], [], [])) (map (\<lambda>q. map (keyed es pl) (changes_of es q)) qs) =
    (if al then None else map_option (regression_at es pl) (find (\<lambda>n. object_at es n \<in> set qs \<and> ?R n) [0..<length es]),
     group_of es pl qs Create, group_of es pl qs Modify, group_of es pl qs Delete)" using snoc by simp
  show ?case
    unfolding map_append foldl_append ih
    by (simp add: step grp reg earlier_of_places [OF assms(1,2) fb fb] eq find_or del: set_append)
qed

text \<open>The changes that survive with action \<open>a\<close>: the last of their object, by kind and signed ID.\<close>

definition is_last :: "Element list \<Rightarrow> nat \<Rightarrow> bool" where
  "is_last es n \<longleftrightarrow> list_all (\<lambda>m. object_at es m \<noteq> object_at es n) [Suc n..<length es]"

definition survivors :: "Element list \<Rightarrow> (u32 \<times> u32) list \<Rightarrow> OscAction \<Rightarrow> (u32 \<times> u32) list" where
  "survivors es pl a =
     map (\<lambda>n. pl ! n) (sort_key (\<lambda>n. object_rank (object_at es n)) (filter (\<lambda>n. is_last es n \<and> el_action (es ! n) = a) [0..<length es]))"

lemma last_of_iff:
  assumes "q \<in> set (objects_sorted es)"
  shows "n = last_of es q \<longleftrightarrow> n < length es \<and> object_at es n = q \<and> is_last es n"
proof -
  have ne: "changes_of es q \<noteq> []" using assms by (auto simp: objects_sorted(2) changes_of_def filter_empty_conv)
  have s: "sorted (changes_of es q)" by (simp add: changes_of_def sorted_wrt_filter)
  have mem: "m \<in> set (changes_of es q) \<longleftrightarrow> m < length es \<and> object_at es m = q" for m by (auto simp: changes_of_def)
  have top: "m \<le> last_of es q" if "m \<in> set (changes_of es q)" for m using sorted_le_last [OF s that] by (simp add: last_of_def)
  have l: "last_of es q \<in> set (changes_of es q)" using ne by (simp add: last_of_def)
  show ?thesis
  proof
    assume "n = last_of es q"
    then show "n < length es \<and> object_at es n = q \<and> is_last es n"
      using l top mem by (fastforce simp: is_last_def list_all_iff)
  next
    assume n: "n < length es \<and> object_at es n = q \<and> is_last es n"
    then have "n \<le> last_of es q" using top mem by blast
    moreover have "\<not> n < last_of es q" using n l mem by (auto simp: is_last_def list_all_iff)
    ultimately show "n = last_of es q" by simp
  qed
qed

lemma groups_survive: "group_of es pl (objects_sorted es) a = survivors es pl a"
proof -
  let ?ns = "filter (\<lambda>n. el_action (es ! n) = a) (map (last_of es) (objects_sorted es))"
  have obj: "object_at es (last_of es q) = q" if "q \<in> set (objects_sorted es)" for q using last_of_iff [OF that] by blast
  have "sorted_wrt (\<lambda>x y. object_rank (object_at es x) < object_rank (object_at es y)) (map (last_of es) (objects_sorted es))"
    unfolding sorted_wrt_map by (rule sorted_wrt_mono_rel [OF _ objects_sorted(1)]) (simp add: obj)
  then have "sorted_wrt (\<lambda>x y. object_rank (object_at es x) < object_rank (object_at es y)) ?ns" by (rule sorted_wrt_filter)
  moreover have "set (filter (\<lambda>n. is_last es n \<and> el_action (es ! n) = a) [0..<length es]) = set ?ns"
  proof -
    have "n \<in> last_of es ` set (objects_sorted es) \<longleftrightarrow> n < length es \<and> is_last es n" for n
      using last_of_iff objects_sorted(2) [of es] by (auto simp: image_iff)
    then show ?thesis by auto
  qed
  ultimately have "sort_key (\<lambda>n. object_rank (object_at es n)) (filter (\<lambda>n. is_last es n \<and> el_action (es ! n) = a) [0..<length es]) = ?ns"
    by (rule strict_sort_key) simp
  then show ?thesis by (simp add: survivors_def group_of_def)
qed

lemma dedupe_serial:
  assumes "sizes_ok batches"
  shows "dedupe batches al =
    (let es = all_elements batches; ents = map change_entry es; pl = places 0 batches in
       (case (if al then None else first_regression ents) of
          Some n \<Rightarrow> Inl (regression_error ''merge-changes simplification'' ents n)
        | None \<Rightarrow> Inr (survivors es pl Create, survivors es pl Modify, survivors es pl Delete)))"
proof -
  let ?es = "all_elements batches" and ?pl = "places 0 batches"
  have ok: "int (0 + length batches) \<le> 2 ^ 32" "list_all (\<lambda>r. int (length (rd_elements r)) \<le> 2 ^ 32) batches"
    using assms by (simp_all add: sizes_ok_def)
  have srt: "sorted_wrt (<) ?pl" by (rule places_sorted [OF ok])
  have len: "length ?pl = length ?es" by simp
  have el: "element_at batches (keyed ?es ?pl n) = ?es ! n" if "n < length ?es" for n
    using places_element [of "[]" batches n] ok that by (simp add: element_at_def keyed_def key_of_def split_beta)
  have keys: "build_keys 0 batches = Inr (map2 key_of ?es ?pl)" using ok by (simp add: build_keys_eq)
  have sub: "set (objects_sorted ?es) \<subseteq> object_at ?es ` {0..<length ?es}" by (simp add: objects_sorted(2))
  have find: "find (\<lambda>n. object_at ?es n \<in> set (objects_sorted ?es) \<and> regresses (map change_entry ?es) n) [0..<length ?es] =
      first_regression (map change_entry ?es)"
    unfolding first_regression_def by (intro find_cong) (auto simp: objects_sorted(2))
  have below: "n < length ?es" if "first_regression (map change_entry ?es) = Some n" for n
    using that by (auto simp: first_regression_def find_Some_iff)
  note fold = dedupe_fold [OF srt len el sub, unfolded find groups_survive]
  show ?thesis
  proof (cases "if al then None else first_regression (map change_entry ?es)")
    case None
    then show ?thesis by (simp add: dedupe_def keys bind_sum_def keys_chunked [OF srt len] fold Let_def split: if_splits)
  next
    case (Some n)
    then have "\<not> al" "first_regression (map change_entry ?es) = Some n" by (auto split: if_splits)
    then show ?thesis using below [of n]
      by (simp add: dedupe_def keys bind_sum_def keys_chunked [OF srt len] fold Let_def regression_at_def regression_error_def change_entry_def take_map)
  qed
qed

section \<open>Properties\<close>

text \<open>
  C9: simplification is the serial pass over the concatenated inputs. Beyond the 32-bit limits
  it is refused as such. Otherwise, unless regressions are allowed, the first change in input
  order that claims less than an earlier claim for its object is the one reported, with the floor it
  falls below, however the parallel sort met the objects; with no such change the three groups are exactly
  the places of the changes that are the last of their object, by action, in order of kind and ID.
\<close>

theorem simplify_serial:
  "dedupe batches al =
    (if sizes_ok batches
     then let es = all_elements batches; ents = map change_entry es; pl = places 0 batches in
       (case (if al then None else first_regression ents) of
          Some n \<Rightarrow> Inl (regression_error ''merge-changes simplification'' ents n)
        | None \<Rightarrow> Inr (survivors es pl Create, survivors es pl Modify, survivors es pl Delete))
     else Inl (Internal ''merge-changes: more than 4 Gi batches or elements''))"
proof (cases "sizes_ok batches")
  case True
  then show ?thesis using dedupe_serial by simp
next
  case False
  then show ?thesis by (auto simp: dedupe_def build_keys_eq sizes_ok_def bind_sum_def)
qed

end
