(* ===== verification/Emit.thy ===== *)
theory Emit
  imports Simplify
begin

text \<open>
  The byte sink of merge-changes (\<open>commands/merge_changes/emit.rs\<close>): a batch's recorded callbacks
  checked and written as XML without building an owned element, and what the two modes of the
  command do with it (\<open>encode_batch\<close>, \<open>render_batch\<close> and the rest of \<open>simplify::run\<close>). The XML
  writer, its escaping and the printing of a coordinate as \<open>f64\<close> belong to other crates and to
  floating point: they are the parameter \<open>XmlWriter\<close>. A refused call ends the use of its sink, so what
  a refused call leaves in the reused buffers is not modelled, nor are the two scratch buffers that hold
  nothing between calls.
\<close>

section \<open>Attribute text\<close>

datatype OutEvent = OutDecl | OutStart string nat | OutEmpty string nat | OutEnd string

record 'w XmlWriter =
  w_new :: 'w
  w_event :: "'w \<Rightarrow> OutEvent \<Rightarrow> osc_error + 'w"
  w_bytes :: "'w \<Rightarrow> bytes"
  w_splice :: "'w \<Rightarrow> bytes \<Rightarrow> 'w"
  w_gzip :: "bytes \<Rightarrow> osc_error + bytes"
  xml_escape :: "string \<Rightarrow> string"
  coord_digits :: "i32 \<Rightarrow> string" \<comment> \<open>\<open>{deg:.7}\<close> of \<open>from_decimicro\<close>\<close>

definition quote :: char where "quote = CHR 0x22"

definition append_attr :: "'w XmlWriter \<Rightarrow> string \<Rightarrow> string \<Rightarrow> string \<Rightarrow> string" where
  "append_attr W content key v = content @ '' '' @ key @ [CHR ''='', quote] @ xml_escape W v @ [quote]"

definition append_int_attr :: "string \<Rightarrow> string \<Rightarrow> i64 \<Rightarrow> string" where
  "append_int_attr content key n = content @ '' '' @ key @ [CHR ''='', quote] @ fmt_pad 0 (sint n) @ [quote]"

definition escape_control :: "char \<Rightarrow> string" where
  "escape_control ch =
     (if ch = CHR 0x0A then ''&#10;'' else if ch = CHR 0x0D then ''&#13;'' else if ch = CHR 0x09 then ''&#9;'' else [ch])"

definition append_attr_escaped :: "'w XmlWriter \<Rightarrow> string \<Rightarrow> string \<Rightarrow> string \<Rightarrow> string" where
  "append_attr_escaped W content key v =
     (if \<not> list_ex (\<lambda>c. c = CHR 0x0A \<or> c = CHR 0x0D \<or> c = CHR 0x09) v then append_attr W content key v
      else content @ '' '' @ key @ [CHR ''='', quote] @ concat (map escape_control (xml_escape W v)) @ [quote])"

definition trim_end_matches :: "char \<Rightarrow> string \<Rightarrow> string" where
  "trim_end_matches c t = rev (dropWhile (\<lambda>x. x = c) (rev t))"

definition format_coord :: "'w XmlWriter \<Rightarrow> i32 \<Rightarrow> string" where
  "format_coord W d = trim_end_matches (CHR ''.'') (trim_end_matches (CHR ''0'') (coord_digits W d))"

section \<open>Owned metadata\<close>

record OwnedMetadata =
  om_version :: "i32 option"
  om_timestamp :: string
  om_changeset :: string
  om_uid :: string
  om_user :: string
  om_visible :: string

definition OwnedMetadata_cleared :: OwnedMetadata where
  "OwnedMetadata_cleared = \<lparr>om_version = None, om_timestamp = [], om_changeset = [], om_uid = [], om_user = [], om_visible = []\<rparr>"

definition append_attrs :: "'w XmlWriter \<Rightarrow> OwnedMetadata \<Rightarrow> string \<Rightarrow> string" where
  "append_attrs W m content =
     (let c = (case om_version m of Some v \<Rightarrow> append_int_attr content ''version'' (scast v) | None \<Rightarrow> content);
          put = (\<lambda>c (key, v). if v \<noteq> [] then append_attr W c key v else c);
          c = foldl put c [(''timestamp'', om_timestamp m), (''changeset'', om_changeset m), (''uid'', om_uid m)];
          c = (if om_user m \<noteq> [] then append_attr_escaped W c ''user'' (om_user m) else c)
      in if om_visible m \<noteq> [] then append_attr W c ''visible'' (om_visible m) else c)"

definition owned_meta_field :: "'f XmlLib \<Rightarrow> MetaField \<Rightarrow> string \<Rightarrow> OwnedMetadata \<Rightarrow> osc_error + OwnedMetadata" where
  "owned_meta_field L field v m =
     (if field = MetaVersion then bind_sum (meta_int 32 field v) (\<lambda>n. Inr (m\<lparr>om_version := Some (of_int n)\<rparr>))
      else case normalized_value L v of
        None \<Rightarrow> Inl MalformedXml
      | Some t \<Rightarrow>
          Inr (case field of
             MetaTimestamp \<Rightarrow> m\<lparr>om_timestamp := t\<rparr>
           | MetaChangeset \<Rightarrow> m\<lparr>om_changeset := t\<rparr>
           | MetaUid \<Rightarrow> m\<lparr>om_uid := t\<rparr>
           | MetaUser \<Rightarrow> m\<lparr>om_user := t\<rparr>
           | _ \<Rightarrow> m\<lparr>om_visible := t\<rparr>))"

definition scan_owned_metadata_into :: "'f XmlLib \<Rightarrow> BytesStart \<Rightarrow> osc_error + OwnedMetadata \<times> bool" where
  "scan_owned_metadata_into L e = scan_meta_attrs (owned_meta_field L) (attributes e) OwnedMetadata_cleared False"

section \<open>The element buffer\<close>

record ElementBuf =
  eb_owner :: string
  eb_id :: i64
  eb_current :: "(OscAction \<times> ElementKind) option"
  eb_head :: string
  eb_structural :: string
  eb_structural_ranges :: "(nat \<times> nat) list"
  eb_tags :: string
  eb_tag_ranges :: "(nat \<times> nat) list"
  eb_tag_text :: string
  eb_tag_pairs :: "(nat \<times> nat \<times> nat) list"
  eb_meta :: OwnedMetadata

definition ElementBuf_new :: "string \<Rightarrow> ElementBuf" where
  "ElementBuf_new owner = \<lparr>eb_owner = owner, eb_id = 0, eb_current = None, eb_head = [], eb_structural = [], eb_structural_ranges = [],
     eb_tags = [], eb_tag_ranges = [], eb_tag_text = [], eb_tag_pairs = [], eb_meta = OwnedMetadata_cleared\<rparr>"

definition ElementBuf_open :: "ElementBuf \<Rightarrow> osc_error + ElementKind" where
  "ElementBuf_open b = (case eb_current b of Some (_, k) \<Rightarrow> Inr k | None \<Rightarrow> Inl (Internal (eb_owner b @ '': an object child with no current object'')))"

definition tag_pairs :: "ElementBuf \<Rightarrow> (string \<times> string) list" where
  "tag_pairs b = map (\<lambda>(k, v, e). (slice k v (eb_tag_text b), slice v e (eb_tag_text b))) (eb_tag_pairs b)"

definition ElementBuf_finish :: "ElementBuf \<Rightarrow> (OscAction \<times> ElementKind) option \<times> ElementBuf" where
  "ElementBuf_finish b = (eb_current b, b\<lparr>eb_current := None\<rparr>)"

fun write_events :: "'w XmlWriter \<Rightarrow> OutEvent list \<Rightarrow> 'w \<Rightarrow> osc_error + 'w" where
  "write_events W [] w = Inr w"
| "write_events W (ev # evs) w = bind_sum (w_event W w ev) (write_events W evs)"

text \<open>The events of \<open>ElementBuf::write\<close>, in the order it writes them.\<close>

definition ElementBuf_events :: "ElementBuf \<Rightarrow> ElementKind \<Rightarrow> OutEvent list" where
  "ElementBuf_events b k =
     (let name = as_str k in
      if eb_structural_ranges b = [] \<and> eb_tag_ranges b = [] then [OutEmpty (eb_head b) (length name)]
      else OutStart (eb_head b) (length name)
        # map (\<lambda>(s, e). let content = slice s e (eb_structural b) in OutEmpty content (if take 2 content = ''nd'' then 2 else 6)) (eb_structural_ranges b)
        @ map (\<lambda>(s, e). OutEmpty (slice s e (eb_tags b)) 3) (eb_tag_ranges b)
        @ [OutEnd name])"

definition ElementBuf_write :: "'w XmlWriter \<Rightarrow> ElementBuf \<Rightarrow> 'w \<Rightarrow> ElementKind \<Rightarrow> osc_error + 'w" where
  "ElementBuf_write W b w k = write_events W (ElementBuf_events b k) w"

definition element_coords :: "'f XmlLib \<Rightarrow> OscAction \<Rightarrow> ElementKind \<Rightarrow> BytesStart \<Rightarrow> i64 \<Rightarrow> osc_error + (i32 \<times> i32) option" where
  "element_coords L action k e i =
     (if k = Node \<and> action \<noteq> Delete
      then bind_sum (coord_to_decimicro L e ''lat'' i) (\<lambda>lat. bind_sum (coord_to_decimicro L e ''lon'' i) (\<lambda>lon. Inr (Some (lat, lon))))
      else Inr None)"

definition head_text :: "'w XmlWriter \<Rightarrow> ElementKind \<Rightarrow> i64 \<Rightarrow> (i32 \<times> i32) option \<Rightarrow> OwnedMetadata \<Rightarrow> bool \<Rightarrow> string" where
  "head_text W k i coords m has_meta =
     (let h = append_int_attr (as_str k) ''id'' i;
          h = (case coords of
                 Some (lat, lon) \<Rightarrow> append_attr W (append_attr W h ''lat'' (format_coord W lat)) ''lon'' (format_coord W lon)
               | None \<Rightarrow> h)
      in if has_meta then append_attrs W m h else h)"

definition ElementBuf_begin :: "'w XmlWriter \<Rightarrow> 'f XmlLib \<Rightarrow> ElementBuf \<Rightarrow> OscAction \<Rightarrow> ElementKind \<Rightarrow> BytesStart \<Rightarrow> osc_error + ElementBuf" where
  "ElementBuf_begin W L b action k e =
     bind_sum (parse_i64_attr e ''id'') (\<lambda>i.
     bind_sum (scan_owned_metadata_into L e) (\<lambda>(m, has_meta).
     bind_sum (element_coords L action k e i) (\<lambda>coords.
       Inr (b\<lparr>eb_head := head_text W k i coords m has_meta, eb_structural := [], eb_structural_ranges := [],
              eb_tags := [], eb_tag_ranges := [], eb_tag_text := [], eb_tag_pairs := [],
              eb_meta := m, eb_id := i, eb_current := Some (action, k)\<rparr>))))"

definition ElementBuf_tag :: "'w XmlWriter \<Rightarrow> 'f XmlLib \<Rightarrow> ElementBuf \<Rightarrow> BytesStart \<Rightarrow> osc_error + ElementBuf" where
  "ElementBuf_tag W L b e =
     bind_sum (ElementBuf_open b) (\<lambda>_.
       let start = length (eb_tags b); tags = eb_tags b @ ''tag''; k = length (eb_tag_text b) in
       bind_sum (append_str_attr L e ''k'' (eb_tag_text b)) (\<lambda>tag_text.
       let v = length tag_text; tags = append_attr_escaped W tags ''k'' (slice k v tag_text) in
       bind_sum (append_str_attr L e ''v'' tag_text) (\<lambda>tag_text.
       let end_pos = length tag_text; tags = append_attr_escaped W tags ''v'' (slice v end_pos tag_text) in
       Inr (b\<lparr>eb_tags := tags, eb_tag_ranges := eb_tag_ranges b @ [(start, length tags)],
              eb_tag_text := tag_text, eb_tag_pairs := eb_tag_pairs b @ [(k, v, end_pos)]\<rparr>))))"

definition ElementBuf_nd :: "ElementBuf \<Rightarrow> BytesStart \<Rightarrow> osc_error + ElementBuf" where
  "ElementBuf_nd b e =
     bind_sum (ElementBuf_open b) (\<lambda>_. bind_sum (parse_nd e) (\<lambda>ref_id.
       let start = length (eb_structural b); st = append_int_attr (eb_structural b @ ''nd'') ''ref'' ref_id in
       Inr (b\<lparr>eb_structural := st, eb_structural_ranges := eb_structural_ranges b @ [(start, length st)]\<rparr>)))"

definition ElementBuf_member :: "'w XmlWriter \<Rightarrow> 'f XmlLib \<Rightarrow> ElementBuf \<Rightarrow> BytesStart \<Rightarrow> osc_error + ElementBuf" where
  "ElementBuf_member W L b e =
     bind_sum (ElementBuf_open b) (\<lambda>_. bind_sum (parse_member_into L e []) (\<lambda>(k, ref_id, role).
       let start = length (eb_structural b);
           st = append_attr W (eb_structural b @ ''member'') ''type'' (as_str k);
           st = append_int_attr st ''ref'' ref_id;
           st = append_attr_escaped W st ''role'' role in
       Inr (b\<lparr>eb_structural := st, eb_structural_ranges := eb_structural_ranges b @ [(start, length st)]\<rparr>)))"

section \<open>The byte sink\<close>

record 'w ByteSink =
  bs_writer :: 'w
  bs_open_action :: "OscAction option"
  bs_count :: nat
  bs_index :: "Element list option"
  bs_element :: ElementBuf

definition ByteSink_new :: "'w \<Rightarrow> OscAction option \<Rightarrow> nat \<Rightarrow> 'w ByteSink" where
  "ByteSink_new w open_action n = \<lparr>bs_writer = w, bs_open_action = open_action, bs_count = n, bs_index = None,
     bs_element = ElementBuf_new ''merge-changes''\<rparr>"

definition ByteSink_with_index :: "'w \<Rightarrow> OscAction option \<Rightarrow> nat \<Rightarrow> Element list \<Rightarrow> 'w ByteSink" where
  "ByteSink_with_index w open_action n index = (ByteSink_new w open_action n)\<lparr>bs_index := Some index\<rparr>"

definition buffered :: "'w ByteSink \<Rightarrow> osc_error + ElementBuf \<Rightarrow> 'w ByteSink sink_result" where
  "buffered s r = Some (case r of Inl err \<Rightarrow> (Inl err, s) | Inr b \<Rightarrow> (Inr (), s\<lparr>bs_element := b\<rparr>))"

definition section_events :: "OscAction option \<Rightarrow> OscAction \<Rightarrow> OutEvent list" where
  "section_events open_action action =
     (if open_action = Some action then []
      else (case open_action of Some prev \<Rightarrow> [OutEnd (action_tag prev)] | None \<Rightarrow> []) @ [OutStart (action_tag action) (length (action_tag action))])"

definition ByteSink_end_element :: "'w XmlWriter \<Rightarrow> 'w ByteSink \<Rightarrow> 'w ByteSink sink_result" where
  "ByteSink_end_element W s =
     (case ElementBuf_finish (bs_element s) of
        (None, b) \<Rightarrow> Some (Inr (), s\<lparr>bs_element := b\<rparr>)
      | (Some (action, k), b) \<Rightarrow>
          Some (case bind_sum (write_events W (section_events (bs_open_action s) action) (bs_writer s)) (\<lambda>w.
                     bind_sum (ElementBuf_write W b w k) (\<lambda>w'. Inr (length (w_bytes W w), w'))) of
             Inl err \<Rightarrow> (Inl err, s)
           | Inr (start, w) \<Rightarrow>
               (Inr (), \<lparr>bs_writer = w, bs_open_action = Some action, bs_count = bs_count s + 1,
                  bs_index = map_option (\<lambda>ix. ix @ [\<lparr>el_kind = k, el_action = action, el_id = eb_id b, el_version = om_version (eb_meta b),
                    el_start = start, el_end = length (w_bytes W w)\<rparr>]) (bs_index s),
                  bs_element = b\<rparr>)))"

definition byte_sink :: "'w XmlWriter \<Rightarrow> 'f XmlLib \<Rightarrow> 'w ByteSink OscSink" where
  "byte_sink W L = \<lparr>on_begin = (\<lambda>s action k e. buffered s (ElementBuf_begin W L (bs_element s) action k e)),
     on_tag = (\<lambda>s e. buffered s (ElementBuf_tag W L (bs_element s) e)), on_nd = (\<lambda>s e. buffered s (ElementBuf_nd (bs_element s) e)),
     on_member = (\<lambda>s e. buffered s (ElementBuf_member W L (bs_element s) e)), on_end = ByteSink_end_element W\<rparr>"

section \<open>The command\<close>

definition into_inner :: "'w XmlWriter \<Rightarrow> bool \<Rightarrow> 'w \<Rightarrow> osc_error + bytes" where
  "into_inner W gz w = (if gz then w_gzip W (w_bytes W w) else Inr (w_bytes W w))"

definition encode_batch :: "'w XmlWriter \<Rightarrow> 'f XmlLib \<Rightarrow> TagText \<Rightarrow> bool \<Rightarrow> LexBatch \<Rightarrow> (osc_error + bytes \<times> nat) option" where
  "encode_batch W L T is_gz batch =
     map_option (\<lambda>(r, s).
       bind_sum r (\<lambda>_.
       bind_sum (case bs_open_action s of Some prev \<Rightarrow> w_event W (bs_writer s) (OutEnd (action_tag prev)) | None \<Rightarrow> Inr (bs_writer s)) (\<lambda>w.
       bind_sum (into_inner W is_gz w) (\<lambda>bytes. Inr (bytes, bs_count s)))))
     (LexBatch_replay T batch (byte_sink W L) (ByteSink_new (w_new W) None 0))"

definition render_batch :: "'w XmlWriter \<Rightarrow> 'f XmlLib \<Rightarrow> TagText \<Rightarrow> LexBatch \<Rightarrow> (osc_error + Rendered) option" where
  "render_batch W L T batch =
     map_option (\<lambda>(r, s). bind_sum r (\<lambda>_. Inr \<lparr>rd_xml = w_bytes W (bs_writer s), rd_elements = (case bs_index s of Some ix \<Rightarrow> ix | None \<Rightarrow> [])\<rparr>))
     (LexBatch_replay T batch (byte_sink W L) (ByteSink_with_index (w_new W) None 0 []))"

definition rendered_bytes :: "Rendered \<Rightarrow> Element \<Rightarrow> bytes" where
  "rendered_bytes r e = slice (el_start e) (el_end e) (rd_xml r)"

definition build_prelude_bytes :: "'w XmlWriter \<Rightarrow> bool \<Rightarrow> osc_error + bytes" where
  "build_prelude_bytes W is_gz =
     bind_sum (write_events W [OutDecl, OutStart (append_attr W ''osmChange'' ''version'' ''0.6'') 9] (w_new W)) (into_inner W is_gz)"

definition build_postlude_bytes :: "'w XmlWriter \<Rightarrow> bool \<Rightarrow> osc_error + bytes" where
  "build_postlude_bytes W is_gz = bind_sum (w_event W (w_new W) (OutEnd ''osmChange'')) (into_inner W is_gz)"

text \<open>\<open>slice::chunks\<close>.\<close>

function chunks :: "nat \<Rightarrow> 'a list \<Rightarrow> 'a list list" where
  "chunks n xs = (if n = 0 \<or> xs = [] then [] else take n xs # chunks n (drop n xs))"
  by auto
termination by (relation "measure (\<lambda>(n, xs). length xs)") auto

declare chunks.simps [simp del]

definition emit_chunk :: "'w XmlWriter \<Rightarrow> bool \<Rightarrow> Rendered list \<Rightarrow> OscAction \<Rightarrow> (u32 \<times> u32) list \<Rightarrow> osc_error + bytes" where
  "emit_chunk W is_gz batches action chunk =
     bind_sum (w_event W (w_new W) (OutStart (action_tag action) (length (action_tag action)))) (\<lambda>w.
     let w = foldl (\<lambda>w (b, e). let r = batches ! unat b in w_splice W w (rendered_bytes r (rd_elements r ! unat e))) w chunk in
     bind_sum (w_event W w (OutEnd (action_tag action))) (into_inner W is_gz))"

text \<open>Collecting results: of several failing chunks the first is reported here, any of them by the pool.\<close>

fun try_collect :: "('e + 'a) list \<Rightarrow> 'e + 'a list" where
  "try_collect [] = Inr []"
| "try_collect (r # rs) = bind_sum r (\<lambda>x. bind_sum (try_collect rs) (\<lambda>xs. Inr (x # xs)))"

definition group_sections :: "nat \<Rightarrow> OscAction \<Rightarrow> (u32 \<times> u32) list \<Rightarrow> (OscAction \<times> (u32 \<times> u32) list) list" where
  "group_sections workers action places_in =
     (if places_in = [] then [] else map (\<lambda>c. (action, c)) (chunks (max ((length places_in + workers - 1) div workers) 1) places_in))"

definition all_sections :: "nat \<Rightarrow> Groups \<Rightarrow> (OscAction \<times> (u32 \<times> u32) list) list" where
  "all_sections workers groups =
     (case groups of (c, m, d) \<Rightarrow> group_sections workers Create c @ group_sections workers Modify m @ group_sections workers Delete d)"

text \<open>
  \<open>simplify::run\<close> once every input has been read and rendered: the output, the changes in and the changes
  out. A worker count of zero divides by zero.
\<close>

definition simplify_run :: "'w XmlWriter \<Rightarrow> bool \<Rightarrow> nat \<Rightarrow> bool \<Rightarrow> Rendered list \<Rightarrow> (osc_error + bytes \<times> nat \<times> nat) option" where
  "simplify_run W is_gz workers allow batches =
     (case dedupe batches allow of
        Inl err \<Rightarrow> Some (Inl err)
      | Inr groups \<Rightarrow>
          let changes_out = (case groups of (c, m, d) \<Rightarrow> length c + length m + length d) in
          if workers = 0 \<and> changes_out \<noteq> 0 then None
          else Some (
            bind_sum (try_collect (map (\<lambda>(a, c). emit_chunk W is_gz batches a c) (all_sections workers groups))) (\<lambda>all_chunks.
            bind_sum (build_prelude_bytes W is_gz) (\<lambda>prelude.
            bind_sum (build_postlude_bytes W is_gz) (\<lambda>postlude.
              Inr (prelude @ concat all_chunks @ postlude, sum_list (map (\<lambda>r. length (rd_elements r)) batches), changes_out))))))"

section \<open>The owned element\<close>

text \<open>
  What the sink is to write: the element as parsed, its structural children before its tags
  whatever their order in the source.
\<close>

datatype OwnedChild = OwnedNd i64 | OwnedRef ElementKind i64 string

fun child_text :: "'w XmlWriter \<Rightarrow> OwnedChild \<Rightarrow> string" where
  "child_text W (OwnedNd r) = append_int_attr ''nd'' ''ref'' r"
| "child_text W (OwnedRef k r role) =
     append_attr_escaped W (append_int_attr (append_attr W ''member'' ''type'' (as_str k)) ''ref'' r) ''role'' role"

fun child_name_len :: "OwnedChild \<Rightarrow> nat" where
  "child_name_len (OwnedNd _) = 2"
| "child_name_len (OwnedRef _ _ _) = 6"

definition tag_text_of :: "'w XmlWriter \<Rightarrow> string \<times> string \<Rightarrow> string" where
  "tag_text_of W kv = append_attr_escaped W (append_attr_escaped W ''tag'' ''k'' (fst kv)) ''v'' (snd kv)"

fun owned_child :: "'f XmlLib \<Rightarrow> Call \<Rightarrow> OwnedChild list \<times> (string \<times> string) list \<Rightarrow> osc_error + OwnedChild list \<times> (string \<times> string) list" where
  "owned_child L (CTag e) (st, tg) = bind_sum (parse_tag L e) (\<lambda>kv. Inr (st, tg @ [kv]))"
| "owned_child L (CNd e) (st, tg) = bind_sum (parse_nd e) (\<lambda>r. Inr (st @ [OwnedNd r], tg))"
| "owned_child L (CMember e) (st, tg) = bind_sum (parse_member L e) (\<lambda>m. Inr (st @ [OwnedRef (pm_kind m) (pm_ref_id m) (pm_role m)], tg))"
| "owned_child L _ c = Inr c"

fun owned_children :: "'f XmlLib \<Rightarrow> Call list \<Rightarrow> OwnedChild list \<times> (string \<times> string) list \<Rightarrow> osc_error + OwnedChild list \<times> (string \<times> string) list" where
  "owned_children L [] c = Inr c"
| "owned_children L (x # xs) c = bind_sum (owned_child L x c) (owned_children L xs)"

record Owned =
  ow_id :: i64
  ow_meta :: OwnedMetadata
  ow_has_meta :: bool
  ow_coords :: "(i32 \<times> i32) option"
  ow_structural :: "OwnedChild list"
  ow_tags :: "(string \<times> string) list"

definition parse_owned :: "'f XmlLib \<Rightarrow> OscObject \<Rightarrow> osc_error + Owned" where
  "parse_owned L b =
     bind_sum (parse_i64_attr (ob_tag b) ''id'') (\<lambda>i.
     bind_sum (scan_owned_metadata_into L (ob_tag b)) (\<lambda>(m, has_meta).
     bind_sum (element_coords L (ob_action b) (ob_kind b) (ob_tag b) i) (\<lambda>coords.
     bind_sum (owned_children L (ob_children b) ([], [])) (\<lambda>(st, tg).
       Inr \<lparr>ow_id = i, ow_meta = m, ow_has_meta = has_meta, ow_coords = coords, ow_structural = st, ow_tags = tg\<rparr>))))"

definition owned_events :: "'w XmlWriter \<Rightarrow> ElementKind \<Rightarrow> Owned \<Rightarrow> OutEvent list" where
  "owned_events W k ob =
     (let name = as_str k; head = head_text W k (ow_id ob) (ow_coords ob) (ow_meta ob) (ow_has_meta ob) in
      if ow_structural ob = [] \<and> ow_tags ob = [] then [OutEmpty head (length name)]
      else OutStart head (length name) # map (\<lambda>c. OutEmpty (child_text W c) (child_name_len c)) (ow_structural ob)
        @ map (\<lambda>kv. OutEmpty (tag_text_of W kv) 3) (ow_tags ob) @ [OutEnd name])"

section \<open>The buffers hold the element\<close>

definition pieces :: "string \<Rightarrow> (nat \<times> nat) list \<Rightarrow> string list \<Rightarrow> bool" where
  "pieces buf ranges texts \<longleftrightarrow> list_all (\<lambda>(s, e). s \<le> e \<and> e \<le> length buf) ranges \<and> map (\<lambda>(s, e). slice s e buf) ranges = texts"

lemma pieces_push:
  assumes "pieces buf ranges texts"
  shows "pieces (buf @ t) (ranges @ [(length buf, length buf + length t)]) (texts @ [t])"
proof -
  have b: "\<forall>x \<in> set ranges. fst x \<le> snd x \<and> snd x \<le> length buf" using assms by (auto simp: pieces_def list_all_iff)
  then have "map (\<lambda>(s, e). slice s e (buf @ t)) ranges = map (\<lambda>(s, e). slice s e buf) ranges" by auto
  then show ?thesis using assms b by (auto simp: pieces_def list_all_iff slice_append_right)
qed

lemma pieces_map: "pieces buf ranges texts \<Longrightarrow> map (\<lambda>(s, e). f (slice s e buf)) ranges = map f texts"
  by (auto simp: pieces_def)

lemma pieces_empty: "pieces buf ranges texts \<Longrightarrow> ranges = [] \<longleftrightarrow> texts = []"
  by (auto simp: pieces_def)

lemma attr_prefix [simp]:
  "append_attr W (a @ b) key v = a @ append_attr W b key v" "append_int_attr (a @ b) key n = a @ append_int_attr b key n"
  "append_attr_escaped W (a @ b) key v = a @ append_attr_escaped W b key v"
  by (simp_all add: append_attr_def append_int_attr_def append_attr_escaped_def)

lemma append_str_attr_out: "append_str_attr L e name out = bind_sum (parse_str_attr L e name) (\<lambda>t. Inr (out @ t))"
  by (auto simp: append_str_attr_def parse_str_attr_def bind_sum_def split: sum.splits option.splits)

text \<open>The buffer of an open element that has read these children.\<close>

definition buf_holds :: "'w XmlWriter \<Rightarrow> ElementBuf \<Rightarrow> OwnedChild list \<times> (string \<times> string) list \<Rightarrow> bool" where
  "buf_holds W b c \<longleftrightarrow>
     pieces (eb_structural b) (eb_structural_ranges b) (map (child_text W) (fst c)) \<and>
     pieces (eb_tags b) (eb_tag_ranges b) (map (tag_text_of W) (snd c)) \<and>
     list_all (\<lambda>(k, v, e). k \<le> v \<and> v \<le> e \<and> e \<le> length (eb_tag_text b)) (eb_tag_pairs b) \<and> tag_pairs b = snd c"

text \<open>The fields fixed when the element began.\<close>

definition buf_head :: "ElementBuf \<Rightarrow> i64 \<times> (OscAction \<times> ElementKind) option \<times> string \<times> OwnedMetadata" where
  "buf_head b = (eb_id b, eb_current b, eb_head b, eb_meta b)"

lemma tag_pairs_push:
  assumes "list_all (\<lambda>(k, v, e). k \<le> v \<and> v \<le> e \<and> e \<le> length (eb_tag_text b)) (eb_tag_pairs b)"
    "eb_tag_text b' = eb_tag_text b @ k @ v" "eb_tag_pairs b' = eb_tag_pairs b @ [(length (eb_tag_text b), length (eb_tag_text b @ k), length (eb_tag_text b @ k @ v))]"
  shows "list_all (\<lambda>(k, v, e). k \<le> v \<and> v \<le> e \<and> e \<le> length (eb_tag_text b')) (eb_tag_pairs b')" "tag_pairs b' = tag_pairs b @ [(k, v)]"
proof -
  have i: "\<forall>x \<in> set (eb_tag_pairs b). fst x \<le> fst (snd x) \<and> fst (snd x) \<le> snd (snd x) \<and> snd (snd x) \<le> length (eb_tag_text b)"
    using assms(1) by (auto simp: list_all_iff)
  then show "list_all (\<lambda>(k, v, e). k \<le> v \<and> v \<le> e \<and> e \<le> length (eb_tag_text b')) (eb_tag_pairs b')"
    using assms(2,3) by (auto simp: list_all_iff)
  have "map (\<lambda>(k, v, e). (slice k v (eb_tag_text b'), slice v e (eb_tag_text b'))) (eb_tag_pairs b) = tag_pairs b"
    unfolding tag_pairs_def assms(2) using i by (auto simp: slice_append_left)
  then show "tag_pairs b' = tag_pairs b @ [(k, v)]"
    using assms(2,3) by (simp add: tag_pairs_def [of b'] slice_def)
qed

lemma write_events_append: "write_events W (as @ bs) w = bind_sum (write_events W as w) (write_events W bs)"
  by (induction as arbitrary: w) (auto simp: bind_sum_def split: sum.splits)

lemma buf_child:
  assumes "buf_holds W (bs_element s) c" "eb_current (bs_element s) \<noteq> None" "child_ok a k x"
  shows "case owned_child L x c of
      Inl err \<Rightarrow> sink_call (byte_sink W L) s x = Some (Inl err, s)
    | Inr c' \<Rightarrow> (\<exists>b'. sink_call (byte_sink W L) s x = Some (Inr (), s\<lparr>bs_element := b'\<rparr>) \<and> buf_holds W b' c' \<and>
        buf_head b' = buf_head (bs_element s))"
proof -
  let ?b = "bs_element s"
  obtain st tg where c: "c = (st, tg)" by (cases c)
  obtain kd where op: "ElementBuf_open ?b = Inr kd" using assms(2) by (auto simp: ElementBuf_open_def)
  have h: "pieces (eb_structural ?b) (eb_structural_ranges ?b) (map (child_text W) st)" "pieces (eb_tags ?b) (eb_tag_ranges ?b) (map (tag_text_of W) tg)"
    "list_all (\<lambda>(k, v, e). k \<le> v \<and> v \<le> e \<and> e \<le> length (eb_tag_text ?b)) (eb_tag_pairs ?b)" "tag_pairs ?b = tg"
    using assms(1) by (simp_all add: buf_holds_def c)
  show ?thesis
  proof (cases x)
    case (CNd e)
    then show ?thesis using h pieces_push [OF h(1)]
      by (auto simp: c byte_sink_def buffered_def ElementBuf_nd_def op bind_sum_def buf_holds_def buf_head_def tag_pairs_def Let_def split: sum.splits)
  next
    case (CMember e)
    then show ?thesis using h pieces_push [OF h(1)]
      by (auto simp: c byte_sink_def buffered_def ElementBuf_member_def parse_member_def op bind_sum_def buf_holds_def buf_head_def tag_pairs_def Let_def
          split: sum.splits prod.splits)
  next
    case (CTag e)
    show ?thesis
    proof (cases "parse_tag L e")
      case (Inl err)
      then show ?thesis using CTag
        by (auto simp: c byte_sink_def buffered_def ElementBuf_tag_def append_str_attr_out parse_tag_def op bind_sum_def Let_def split: sum.splits)
    next
      case (Inr kv)
      then obtain k v where kv: "kv = (k, v)" "parse_str_attr L e ''k'' = Inr k" "parse_str_attr L e ''v'' = Inr v"
        by (auto simp: parse_tag_def bind_sum_def split: sum.splits)
      let ?t = "tag_text_of W (k, v)" and ?x = "eb_tag_text ?b"
      let ?b' = "?b\<lparr>eb_tags := eb_tags ?b @ ?t, eb_tag_ranges := eb_tag_ranges ?b @ [(length (eb_tags ?b), length (eb_tags ?b) + length ?t)],
        eb_tag_text := ?x @ k @ v, eb_tag_pairs := eb_tag_pairs ?b @ [(length ?x, length (?x @ k), length (?x @ k @ v))]\<rparr>"
      have "ElementBuf_tag W L ?b e = Inr ?b'"
        using kv by (simp add: ElementBuf_tag_def op bind_sum_def append_str_attr_out Let_def tag_text_of_def slice_def)
      moreover have "buf_holds W ?b' (st, tg @ [(k, v)])"
        using h pieces_push [OF h(2), of ?t] tag_pairs_push [OF h(3), of ?b' k v] by (simp add: buf_holds_def)
      ultimately show ?thesis using Inr kv CTag by (auto simp: c byte_sink_def buffered_def bind_sum_def buf_head_def)
    qed
  qed (use assms(3) in simp_all)
qed

lemma buf_children:
  assumes "buf_holds W (bs_element s) c" "eb_current (bs_element s) \<noteq> None" "\<forall>x \<in> set xs. child_ok a k x"
  shows "case owned_children L xs c of
      Inl err \<Rightarrow> (\<exists>b'. run_calls (byte_sink W L) s xs = Some (Inl err, s\<lparr>bs_element := b'\<rparr>))
    | Inr c' \<Rightarrow> (\<exists>b'. run_calls (byte_sink W L) s xs = Some (Inr (), s\<lparr>bs_element := b'\<rparr>) \<and> buf_holds W b' c' \<and>
        buf_head b' = buf_head (bs_element s))"
  using assms
proof (induction xs arbitrary: s c)
  case Nil
  then show ?case by (auto intro!: exI [of _ "bs_element s"])
next
  case (Cons x xs)
  have ok: "child_ok a k x" using Cons.prems(3) by simp
  note one = buf_child [OF Cons.prems(1,2) ok, of L]
  show ?case
  proof (cases "owned_child L x c")
    case (Inl err)
    then show ?thesis using one by (auto simp: bind_sum_def run_calls_Cons intro!: exI [of _ "bs_element s"])
  next
    case (Inr c1)
    then obtain b1 where b1: "sink_call (byte_sink W L) s x = Some (Inr (), s\<lparr>bs_element := b1\<rparr>)" "buf_holds W b1 c1"
      "buf_head b1 = buf_head (bs_element s)" using one by auto
    then have "eb_current b1 \<noteq> None" using Cons.prems(2) by (simp add: buf_head_def)
    with Cons.IH [of "s\<lparr>bs_element := b1\<rparr>" c1] b1 Cons.prems(3) Inr show ?thesis
      by (auto simp: bind_sum_def run_calls_Cons split: sum.splits)
  qed
qed

lemma buf_events:
  assumes "buf_holds W b (ow_structural ob, ow_tags ob)"
    "eb_head b = head_text W k (ow_id ob) (ow_coords ob) (ow_meta ob) (ow_has_meta ob)"
  shows "ElementBuf_events b k = owned_events W k ob"
proof -
  have p: "pieces (eb_structural b) (eb_structural_ranges b) (map (child_text W) (ow_structural ob))"
    "pieces (eb_tags b) (eb_tag_ranges b) (map (tag_text_of W) (ow_tags ob))"
    using assms(1) by (simp_all add: buf_holds_def)
  have len: "(if take 2 (child_text W c) = ''nd'' then 2 else 6) = child_name_len c" for c
    by (cases c) (simp_all add: append_attr_def append_int_attr_def append_attr_escaped_def)
  note pieces_map [OF p(1), of "\<lambda>t. OutEmpty t (if take 2 t = ''nd'' then 2 else 6)"] pieces_map [OF p(2), of "\<lambda>t. OutEmpty t 3"]
  then show ?thesis using assms(2) pieces_empty [OF p(1)] pieces_empty [OF p(2)]
    by (simp add: ElementBuf_events_def owned_events_def Let_def len comp_def)
qed

definition element_of :: "OscObject \<Rightarrow> Owned \<Rightarrow> nat \<Rightarrow> nat \<Rightarrow> Element" where
  "element_of b ob start fin = \<lparr>el_kind = ob_kind b, el_action = ob_action b, el_id = ow_id ob, el_version = om_version (ow_meta ob),
     el_start = start, el_end = fin\<rparr>"

lemma byte_sink_end:
  assumes "buf_holds W (bs_element s) (ow_structural ob, ow_tags ob)" "buf_head (bs_element s) = (ow_id ob, Some (ob_action b, ob_kind b),
      head_text W (ob_kind b) (ow_id ob) (ow_coords ob) (ow_meta ob) (ow_has_meta ob), ow_meta ob)"
  shows "ByteSink_end_element W s =
    Some (case bind_sum (write_events W (section_events (bs_open_action s) (ob_action b)) (bs_writer s)) (\<lambda>w.
               bind_sum (write_events W (owned_events W (ob_kind b) ob) w) (\<lambda>w'. Inr (w, w'))) of
       Inl err \<Rightarrow> (Inl err, s)
     | Inr (w, w') \<Rightarrow>
         (Inr (), \<lparr>bs_writer = w', bs_open_action = Some (ob_action b), bs_count = bs_count s + 1,
            bs_index = map_option (\<lambda>ix. ix @ [element_of b ob (length (w_bytes W w)) (length (w_bytes W w'))]) (bs_index s),
            bs_element = (bs_element s)\<lparr>eb_current := None\<rparr>\<rparr>))"
proof -
  let ?b = "(bs_element s)\<lparr>eb_current := None\<rparr>"
  have "buf_holds W ?b (ow_structural ob, ow_tags ob)" using assms(1) by (simp add: buf_holds_def tag_pairs_def)
  then have "ElementBuf_events ?b (ob_kind b) = owned_events W (ob_kind b) ob"
    by (rule buf_events) (use assms(2) in \<open>simp_all add: buf_head_def\<close>)
  then show ?thesis using assms(2)
    by (auto simp: ByteSink_end_element_def ElementBuf_finish_def ElementBuf_write_def buf_head_def element_of_def bind_sum_def
        split: sum.splits prod.splits)
qed

lemma emitted_step:
  assumes "object_ok b"
  shows "case parse_owned L b of
      Inl err \<Rightarrow> (\<exists>eb. run_calls (byte_sink W L) s (object_calls b) = Some (Inl err, s\<lparr>bs_element := eb\<rparr>))
    | Inr ob \<Rightarrow> (\<exists>eb. tag_pairs eb = ow_tags ob \<and> run_calls (byte_sink W L) s (object_calls b) =
        Some (case bind_sum (write_events W (section_events (bs_open_action s) (ob_action b)) (bs_writer s)) (\<lambda>w.
                   bind_sum (write_events W (owned_events W (ob_kind b) ob) w) (\<lambda>w'. Inr (w, w'))) of
           Inl err \<Rightarrow> (Inl err, s\<lparr>bs_element := eb\<rparr>)
         | Inr (w, w') \<Rightarrow>
             (Inr (), \<lparr>bs_writer = w', bs_open_action = Some (ob_action b), bs_count = bs_count s + 1,
                bs_index = map_option (\<lambda>ix. ix @ [element_of b ob (length (w_bytes W w)) (length (w_bytes W w'))]) (bs_index s),
                bs_element = eb\<lparr>eb_current := None\<rparr>\<rparr>)))"
proof -
  let ?a = "ob_action b" and ?k = "ob_kind b" and ?e = "ob_tag b"
  have calls: "run_calls (byte_sink W L) s (object_calls b) =
      after (buffered s (ElementBuf_begin W L (bs_element s) ?a ?k ?e)) (\<lambda>s. after (run_calls (byte_sink W L) s (ob_children b)) (ByteSink_end_element W))"
    by (simp add: object_calls_def run_calls_Cons run_calls_append byte_sink_def)
  show ?thesis
  proof (cases "ElementBuf_begin W L (bs_element s) ?a ?k ?e")
    case (Inl err)
    then have "parse_owned L b = Inl err"
      by (auto simp: ElementBuf_begin_def parse_owned_def bind_sum_def split: sum.splits)
    then show ?thesis using Inl by (auto simp: calls buffered_def intro!: exI [of _ "bs_element s"])
  next
    case (Inr b1)
    then obtain i m hm co where p: "parse_i64_attr ?e ''id'' = Inr i" "scan_owned_metadata_into L ?e = Inr (m, hm)"
      "element_coords L ?a ?k ?e i = Inr co" "buf_head b1 = (i, Some (?a, ?k), head_text W ?k i co m hm, m)" "buf_holds W b1 ([], [])"
      by (auto simp: ElementBuf_begin_def bind_sum_def buf_head_def buf_holds_def pieces_def tag_pairs_def split: sum.splits)
    have cur: "eb_current (bs_element (s\<lparr>bs_element := b1\<rparr>)) \<noteq> None" using p(4) by (simp add: buf_head_def)
    have h1: "buf_holds W (bs_element (s\<lparr>bs_element := b1\<rparr>)) ([], [])" using p(5) by simp
    note ch = buf_children [OF h1 cur assms [unfolded object_ok_def], of L]
    show ?thesis
    proof (cases "owned_children L (ob_children b) ([], [])")
      case (Inl err)
      then show ?thesis using ch p Inr by (auto simp: calls buffered_def parse_owned_def bind_sum_def)
    next
      case oc: (Inr c)
      obtain st tg where c: "c = (st, tg)" by (cases c)
      let ?ob = "\<lparr>ow_id = i, ow_meta = m, ow_has_meta = hm, ow_coords = co, ow_structural = st, ow_tags = tg\<rparr>"
      obtain b2 where b2: "run_calls (byte_sink W L) (s\<lparr>bs_element := b1\<rparr>) (ob_children b) = Some (Inr (), s\<lparr>bs_element := b2\<rparr>)"
        "buf_holds W b2 (st, tg)" "buf_head b2 = buf_head b1" using ch oc c by auto
      have po: "parse_owned L b = Inr ?ob" using p oc c by (simp add: parse_owned_def bind_sum_def)
      have en: "ByteSink_end_element W (s\<lparr>bs_element := b2\<rparr>) =
        Some (case bind_sum (write_events W (section_events (bs_open_action s) ?a) (bs_writer s)) (\<lambda>w.
                   bind_sum (write_events W (owned_events W ?k ?ob) w) (\<lambda>w'. Inr (w, w'))) of
           Inl err \<Rightarrow> (Inl err, s\<lparr>bs_element := b2\<rparr>)
         | Inr (w, w') \<Rightarrow>
             (Inr (), \<lparr>bs_writer = w', bs_open_action = Some ?a, bs_count = bs_count s + 1,
                bs_index = map_option (\<lambda>ix. ix @ [element_of b ?ob (length (w_bytes W w)) (length (w_bytes W w'))]) (bs_index s),
                bs_element = b2\<lparr>eb_current := None\<rparr>\<rparr>))"
        using byte_sink_end [of W "s\<lparr>bs_element := b2\<rparr>" ?ob b] b2(2,3) p(4) by (simp cong: sum.case_cong prod.case_cong)
      have "tag_pairs b2 = ow_tags ?ob" using b2(2) by (simp add: buf_holds_def)
      then show ?thesis unfolding po sum.case calls Inr buffered_def
        by (intro exI [of _ b2]) (simp add: b2(1) en)
    qed
  qed
qed

section \<open>The two readings of an element\<close>

text \<open>The overlay and the byte sink read the same identity and the same version claim.\<close>

lemma version_flag:
  "((x :: u8) OR META_FLAG_HIDDEN) AND META_FLAG_HAS_VERSION = x AND META_FLAG_HAS_VERSION"
  "(x OR META_FLAG_HAS_VERSION) AND META_FLAG_HAS_VERSION \<noteq> 0" "META_FLAG_HAS_VERSION \<noteq> 0"
  by (simp_all add: META_FLAG_HIDDEN_def META_FLAG_HAS_VERSION_def bit.conj_disj_distrib2)

lemma scans_agree:
  assumes "scan_meta_attrs (arena_meta_field L) as mu p = Inr (mu', p')" "scan_meta_attrs (owned_meta_field L) as om q = Inr (om', q')"
    "version_claim (fst mu) = om_version om"
  shows "version_claim (fst mu') = om_version om'"
  using assms
proof (induction "arena_meta_field L" as mu p arbitrary: om q rule: scan_meta_attrs.induct)
  case (3 key v as mu p)
  show ?case
  proof (cases "meta_field_of key")
    case None
    then show ?thesis using 3 by simp
  next
    case (Some field)
    obtain mu1 where a: "arena_meta_field L field v mu = Inr mu1" using 3(3) Some by (auto split: sum.splits)
    obtain om1 where o1: "owned_meta_field L field v om = Inr om1" using 3(4) Some by (auto split: sum.splits)
    have "version_claim (fst mu1) = om_version om1"
      using a o1 3(5) by (cases mu; cases field)
        (auto simp: arena_meta_field_def owned_meta_field_def bind_sum_def version_claim_def version_flag split: sum.splits option.splits if_splits)
    with 3(2) [OF Some a] 3(3,4) Some a o1 show ?thesis by simp
  qed
qed simp_all

lemma claims_agree:
  assumes "abs_meta L e = Inr (claim, md)" "scan_owned_metadata_into L e = Inr (m, hm)"
  shows "om_version m = claim"
proof -
  obtain am u p where s: "scan_meta_attrs (arena_meta_field L) (attributes e) (ArenaMeta_default, None) False = Inr ((am, u), p)" "claim = version_claim am"
    using assms(1) by (auto simp: abs_meta_def split: sum.splits)
  have "version_claim ArenaMeta_default = om_version OwnedMetadata_cleared"
    by (simp add: version_claim_def ArenaMeta_default_def OwnedMetadata_cleared_def)
  then show ?thesis using scans_agree [OF s(1) assms(2) [unfolded scan_owned_metadata_into_def]] s(2) by simp
qed

lemma readings_agree:
  assumes "abs_object L b = Inr (i, claim, f)" "parse_owned L b = Inr ob"
  shows "ow_id ob = i" "om_version (ow_meta ob) = claim" "f = Removed \<longleftrightarrow> ob_action b = Delete"
proof -
  obtain md where m: "abs_meta L (ob_tag b) = Inr (claim, md)" "parse_i64_attr (ob_tag b) ''id'' = Inr i"
    using assms(1) by (auto simp: abs_object_def bind_sum_def split: sum.splits if_splits)
  obtain om hm where ob: "scan_owned_metadata_into L (ob_tag b) = Inr (om, hm)" "ow_meta ob = om" "ow_id ob = i"
    using assms(2) m(2) by (auto simp: parse_owned_def bind_sum_def split: sum.splits)
  show "ow_id ob = i" "om_version (ow_meta ob) = claim" using claims_agree [OF m(1) ob(1)] ob by auto
  show "f = Removed \<longleftrightarrow> ob_action b = Delete"
    using assms(1) by (auto simp: abs_object_def bind_sum_def split: sum.splits if_splits)
qed

section \<open>Rendering whole documents\<close>

definition writer_total :: "'w XmlWriter \<Rightarrow> bool" where
  "writer_total W \<longleftrightarrow> (\<forall>w ev. \<exists>w'. w_event W w ev = Inr w')"

definition indexes :: "'f XmlLib \<Rightarrow> OscObject \<Rightarrow> Element \<Rightarrow> bool" where
  "indexes L b el \<longleftrightarrow> (case parse_owned L b of
     Inl _ \<Rightarrow> False
   | Inr ob \<Rightarrow> el_kind el = ob_kind b \<and> el_action el = ob_action b \<and> el_id el = ow_id ob \<and> el_version el = om_version (ow_meta ob))"

text \<open>The inputs of a simplified merge: every document recorded, every batch rendered, in input then batch order.\<close>

definition record_document :: "'f XmlLib \<Rightarrow> TagText \<Rightarrow> nat \<Rightarrow> XmlEvent list \<Rightarrow> (osc_error + LexBatch list) option" where
  "record_document L T n evs =
     (case drive_osc L (lex_sink T (collect_env n)) evs collect_new of
        None \<Rightarrow> None
      | Some (Inl err, _) \<Rightarrow> Some (Inl err)
      | Some (Inr _, x) \<Rightarrow>
          (case LexSink_finish (collect_env n) x of
             None \<Rightarrow> None
           | Some (Inl err, _) \<Rightarrow> Some (Inl err)
           | Some (Inr _, y) \<Rightarrow> Some (Inr (lx_consumer y))))"

fun render_batches :: "'w XmlWriter \<Rightarrow> 'f XmlLib \<Rightarrow> TagText \<Rightarrow> LexBatch list \<Rightarrow> (osc_error + Rendered list) option" where
  "render_batches W L T [] = Some (Inr [])"
| "render_batches W L T (b # bs) =
     (case render_batch W L T b of
        None \<Rightarrow> None
      | Some (Inl err) \<Rightarrow> Some (Inl err)
      | Some (Inr r) \<Rightarrow> map_option (map_sum id (\<lambda>rs. r # rs)) (render_batches W L T bs))"

fun render_inputs :: "'w XmlWriter \<Rightarrow> 'f XmlLib \<Rightarrow> TagText \<Rightarrow> nat \<Rightarrow> XmlEvent list list \<Rightarrow> (osc_error + Rendered list) option" where
  "render_inputs W L T n [] = Some (Inr [])"
| "render_inputs W L T n (evs # docs) =
     (case record_document L T n evs of
        None \<Rightarrow> None
      | Some (Inl err) \<Rightarrow> Some (Inl err)
      | Some (Inr bs) \<Rightarrow>
          (case render_batches W L T bs of
             None \<Rightarrow> None
           | Some (Inl err) \<Rightarrow> Some (Inl err)
           | Some (Inr rs) \<Rightarrow> map_option (map_sum id (\<lambda>rs'. rs @ rs')) (render_inputs W L T n docs)))"

lemma write_events_total: "writer_total W \<Longrightarrow> \<exists>w'. write_events W evs w = Inr w'"
  by (induction evs arbitrary: w) (auto simp: writer_total_def bind_sum_def, metis old.sum.simps(6))

lemma objects_indexed:
  assumes "writer_total W" "\<forall>b \<in> set obs. object_ok b \<and> (\<exists>ob. parse_owned L b = Inr ob)" "bs_index s = Some ix"
  shows "\<exists>s' els. run_calls (byte_sink W L) s (concat (map object_calls obs)) = Some (Inr (), s') \<and> bs_index s' = Some (ix @ els) \<and>
    list_all2 (indexes L) obs els"
  using assms(2,3)
proof (induction obs arbitrary: s ix)
  case (Cons b obs)
  obtain ob where ob: "parse_owned L b = Inr ob" using Cons.prems(1) by auto
  obtain w where w: "write_events W (section_events (bs_open_action s) (ob_action b)) (bs_writer s) = Inr w"
    using write_events_total [OF assms(1)] by blast
  obtain w' where w': "write_events W (owned_events W (ob_kind b) ob) w = Inr w'" using write_events_total [OF assms(1)] by blast
  let ?el = "element_of b ob (length (w_bytes W w)) (length (w_bytes W w'))"
  obtain s1 where s1: "run_calls (byte_sink W L) s (object_calls b) = Some (Inr (), s1)" "bs_index s1 = Some (ix @ [?el])"
    using emitted_step [of b W L s] Cons.prems ob w w' by (auto simp: bind_sum_def)
  from Cons.IH [OF _ s1(2)] Cons.prems(1) obtain s' els where
    "run_calls (byte_sink W L) s1 (concat (map object_calls obs)) = Some (Inr (), s')" "bs_index s' = Some (ix @ [?el] @ els)"
    "list_all2 (indexes L) obs els" by auto
  moreover have "indexes L b ?el" by (simp add: indexes_def ob element_of_def)
  ultimately show ?case using s1(1) by (auto simp: run_calls_append intro!: exI [of _ "?el # els"])
qed simp

lemma rendered_batch:
  assumes "writer_total W" "whole (batch_calls T b)" "\<forall>x \<in> set (objects_of (batch_calls T b)). \<exists>ob. parse_owned L x = Inr ob"
  obtains r where "render_batch W L T b = Some (Inr r)" "list_all2 (indexes L) (objects_of (batch_calls T b)) (rd_elements r)"
proof -
  note w = whole_objects [OF assms(2)]
  have "\<forall>x \<in> set (objects_of (batch_calls T b)). object_ok x \<and> (\<exists>ob. parse_owned L x = Inr ob)" using w assms(3) by blast
  from objects_indexed [OF assms(1) this, of "ByteSink_with_index (w_new W) None 0 []" "[]"] obtain s' els where
    "run_calls (byte_sink W L) (ByteSink_with_index (w_new W) None 0 []) (concat (map object_calls (objects_of (batch_calls T b)))) = Some (Inr (), s')"
    "bs_index s' = Some els" "list_all2 (indexes L) (objects_of (batch_calls T b)) els" by (auto simp: ByteSink_with_index_def)
  then show thesis using w by (intro that) (auto simp: render_batch_def replay_calls bind_sum_def)
qed

lemma objects_of_append: "whole as \<Longrightarrow> objects_of (as @ bs) = objects_of as @ objects_of bs"
proof -
  assume "whole as"
  then obtain obs where "as = concat (map object_calls obs)" "\<forall>b \<in> set obs. object_ok b" by (auto simp: whole_def)
  moreover have "objects_of (concat (map object_calls obs) @ bs) = obs @ objects_of bs" if "\<forall>b \<in> set obs. object_ok b" for obs
    using that by (induction obs) (simp_all add: objects_of_calls)
  ultimately show ?thesis by (simp add: objects_of_whole)
qed

lemma rendered_batches:
  assumes "writer_total W" "\<forall>b \<in> set bs. whole (batch_calls T b)"
    "\<forall>x \<in> set (objects_of (concat (map (batch_calls T) bs))). \<exists>ob. parse_owned L x = Inr ob"
  shows "\<exists>rs. render_batches W L T bs = Some (Inr rs) \<and> list_all2 (indexes L) (objects_of (concat (map (batch_calls T) bs))) (all_elements rs)"
  using assms(2,3)
proof (induction bs)
  case (Cons b bs)
  have w: "whole (batch_calls T b)" using Cons.prems by simp
  have sp: "objects_of (concat (map (batch_calls T) (b # bs))) = objects_of (batch_calls T b) @ objects_of (concat (map (batch_calls T) bs))"
    using objects_of_append [OF w] by simp
  have "\<forall>x \<in> set (objects_of (batch_calls T b)). \<exists>ob. parse_owned L x = Inr ob" using Cons.prems(2) unfolding sp by auto
  then obtain r where r: "render_batch W L T b = Some (Inr r)" "list_all2 (indexes L) (objects_of (batch_calls T b)) (rd_elements r)"
    by (rule rendered_batch [OF assms(1) w])
  obtain rs where "render_batches W L T bs = Some (Inr rs)" "list_all2 (indexes L) (objects_of (concat (map (batch_calls T) bs))) (all_elements rs)"
    using Cons.IH Cons.prems unfolding sp by auto
  then show ?case using r unfolding sp by (auto simp: all_elements_def intro!: list_all2_appendI)
qed (simp add: all_elements_def)

lemma rendered_inputs:
  assumes "writer_total W" "\<forall>evs \<in> set docs. document_fate L evs = Inr () \<and> (\<forall>ev \<in> set evs. event_faithful T ev)"
    "\<forall>x \<in> set (documents_objects L docs). \<exists>ob. parse_owned L x = Inr ob"
  shows "\<exists>rs. render_inputs W L T n docs = Some (Inr rs) \<and> list_all2 (indexes L) (documents_objects L docs) (all_elements rs)"
  using assms(2,3)
proof (induction docs)
  case (Cons evs docs)
  have f: "\<forall>ev \<in> set evs. event_faithful T ev" "doc_result (fst (doc_frames L evs drive_init)) = Inr ()"
    using Cons.prems(1) by (auto simp: document_fate_def)
  obtain x z where z: "drive_osc L (lex_sink T (collect_env n)) evs collect_new = Some (Inr (), x)" "LexSink_finish (collect_env n) x = Some (Inr (), z)"
    "concat (map (batch_calls T) (lx_consumer z)) = document_calls L evs" "\<forall>b \<in> set (lx_consumer z). whole (batch_calls T b)"
    by (rule record_batches [OF f, where n = n, folded document_calls_def])
  have sp: "documents_objects L (evs # docs) = objects_of (document_calls L evs) @ documents_objects L docs" by (simp add: documents_objects_def)
  have "\<forall>x \<in> set (objects_of (concat (map (batch_calls T) (lx_consumer z)))). \<exists>ob. parse_owned L x = Inr ob"
    using Cons.prems(2) z(3) unfolding sp by auto
  from rendered_batches [OF assms(1) z(4) this] obtain rs where rs: "render_batches W L T (lx_consumer z) = Some (Inr rs)"
    "list_all2 (indexes L) (objects_of (document_calls L evs)) (all_elements rs)" by (auto simp: z(3))
  obtain rs' where "render_inputs W L T n docs = Some (Inr rs')" "list_all2 (indexes L) (documents_objects L docs) (all_elements rs')"
    using Cons.IH Cons.prems unfolding sp by auto
  then show ?case using rs z unfolding sp by (auto simp: record_document_def all_elements_def intro!: list_all2_appendI)
qed (simp add: all_elements_def documents_objects_def)

text \<open>The index of the inputs is the list of changes the overlay applies.\<close>

definition same_change :: "Entry \<times> Final \<Rightarrow> Element \<Rightarrow> bool" where
  "same_change c el \<longleftrightarrow> fst c = change_entry el \<and> (snd c = Removed \<longleftrightarrow> el_action el = Delete) \<and> snd c \<noteq> NoChange"

lemma indexed_changes: "list_all2 (indexes L) obs els \<Longrightarrow> parse_changes L obs = Inr cs \<Longrightarrow> list_all2 same_change cs els"
proof (induction obs els arbitrary: cs rule: list_all2_induct)
  case (Cons b obs el els)
  obtain i claim f cs' where c: "abs_object L b = Inr (i, claim, f)" "parse_changes L obs = Inr cs'"
    "cs = (\<lparr>en_kind = ob_kind b, en_id = i, en_claim = claim\<rparr>, f) # cs'"
    using Cons.prems by (auto simp: bind_sum_def split: sum.splits)
  obtain ob where ob: "parse_owned L b = Inr ob" using Cons.hyps(1) by (auto simp: indexes_def split: sum.splits)
  have "same_change (\<lparr>en_kind = ob_kind b, en_id = i, en_claim = claim\<rparr>, f) el"
    using readings_agree [OF c(1) ob] abs_object_final [OF c(1)] Cons.hyps(1) ob by (auto simp: same_change_def indexes_def change_entry_def)
  then show ?case using Cons.IH c by simp
qed simp

lemma last_change_at:
  "\<forall>c \<in> set cs. snd c \<noteq> NoChange \<Longrightarrow> n < length cs \<Longrightarrow> en_kind (fst (cs ! n)) = k \<Longrightarrow> en_id (fst (cs ! n)) = i \<Longrightarrow>
    \<forall>m. n < m \<and> m < length cs \<longrightarrow> (en_kind (fst (cs ! m)), en_id (fst (cs ! m))) \<noteq> (k, i) \<Longrightarrow> last_change cs k i = snd (cs ! n)"
proof (induction cs rule: rev_induct)
  case (snoc c cs)
  show ?case
  proof (cases "n = length cs")
    case True
    then show ?thesis using snoc.prems by (cases c; cases "snd c") (auto simp: last_change_append)
  next
    case False
    then have n: "n < length cs" using snoc.prems by simp
    have "(en_kind (fst c), en_id (fst c)) \<noteq> (k, i)" using snoc.prems(5) n by (auto dest: spec [of _ "length cs"])
    moreover have "last_change cs k i = snd (cs ! n)"
      using snoc.prems n by (intro snoc.IH) (auto simp: nth_append split: if_splits)
    ultimately show ?thesis using n by (cases c) (auto simp: last_change_append nth_append split: Final.splits)
  qed
qed simp

lemma last_change_none: "(\<And>n. n < length cs \<Longrightarrow> (en_kind (fst (cs ! n)), en_id (fst (cs ! n))) \<noteq> (k, i)) \<Longrightarrow> last_change cs k i = NoChange"
proof (induction cs rule: rev_induct)
  case (snoc c cs)
  have "(en_kind (fst (cs ! n)), en_id (fst (cs ! n))) \<noteq> (k, i)" if "n < length cs" for n
    using snoc.prems [of n] that by (simp add: nth_append)
  then have "last_change cs k i = NoChange" by (rule snoc.IH)
  moreover have "(en_kind (fst c), en_id (fst c)) \<noteq> (k, i)" using snoc.prems [of "length cs"] by simp
  ultimately show ?case by (cases c) (auto simp: last_change_append)
qed simp

lemma last_change_element:
  assumes "list_all2 same_change cs els" "n < length els" "is_last els n"
  shows "last_change cs (el_kind (els ! n)) (el_id (els ! n)) = snd (cs ! n)"
proof (rule last_change_at)
  have c: "same_change (cs ! m) (els ! m)" if "m < length els" for m using assms(1) that by (simp add: list_all2_conv_all_nth)
  have len: "length cs = length els" by (rule list_all2_lengthD [OF assms(1)])
  show "\<forall>c \<in> set cs. snd c \<noteq> NoChange" using c len by (metis in_set_conv_nth same_change_def)
  show "n < length cs" "en_kind (fst (cs ! n)) = el_kind (els ! n)" "en_id (fst (cs ! n)) = el_id (els ! n)"
    using assms(2) c [OF assms(2)] len by (simp_all add: same_change_def change_entry_def)
  show "\<forall>m. n < m \<and> m < length cs \<longrightarrow> (en_kind (fst (cs ! m)), en_id (fst (cs ! m))) \<noteq> (el_kind (els ! n), el_id (els ! n))"
    using assms(3) c len by (auto simp: is_last_def list_all_iff object_at_def same_change_def change_entry_def)
qed

lemma last_of_object:
  assumes "n < length els" "object_at els n = q"
  obtains m where "m < length els" "object_at els m = q" "is_last els m"
  using assms last_of_iff [of q els "last_of els q"] by (auto simp: objects_sorted(2))

lemma last_change_iff:
  assumes "list_all2 same_change cs els" "f \<noteq> NoChange"
  shows "last_change cs k i = f \<longleftrightarrow> (\<exists>n < length els. is_last els n \<and> object_at els n = (k, i) \<and> snd (cs ! n) = f)"
proof
  assume f: "last_change cs k i = f"
  have len: "length cs = length els" by (rule list_all2_lengthD [OF assms(1)])
  have "\<exists>n < length els. object_at els n = (k, i)"
  proof (rule ccontr)
    assume "\<not> ?thesis"
    then have "(en_kind (fst (cs ! n)), en_id (fst (cs ! n))) \<noteq> (k, i)" if "n < length cs" for n
      using assms(1) that len by (auto simp: list_all2_conv_all_nth same_change_def change_entry_def object_at_def)
    then show False using last_change_none f assms(2) by blast
  qed
  then obtain m where m: "m < length els" "object_at els m = (k, i)" "is_last els m" using last_of_object by blast
  then show "\<exists>n < length els. is_last els n \<and> object_at els n = (k, i) \<and> snd (cs ! n) = f"
    using last_change_element [OF assms(1) m(1,3)] f by (auto simp: object_at_def)
next
  assume "\<exists>n < length els. is_last els n \<and> object_at els n = (k, i) \<and> snd (cs ! n) = f"
  then show "last_change cs k i = f" using last_change_element [OF assms(1)] by (auto simp: object_at_def)
qed

text \<open>The IDs of kind \<open>k\<close> among the changes at the given places.\<close>

definition ids_at :: "Rendered list \<Rightarrow> ElementKind \<Rightarrow> (u32 \<times> u32) list \<Rightarrow> i64 set" where
  "ids_at batches k ps = (\<lambda>(b, e). el_id (rd_elements (batches ! unat b) ! unat e)) `
     {p \<in> set ps. el_kind (rd_elements (batches ! unat (fst p)) ! unat (snd p)) = k}"

lemma image_filter_image: "f ` {p \<in> g ` A. Q p} = (\<lambda>n. f (g n)) ` {n \<in> A. Q (g n)}"
  by auto

lemma survivor_ids:
  assumes "sizes_ok batches"
  shows "ids_at batches k (survivors (all_elements batches) (places 0 batches) a) =
    {i. \<exists>n < length (all_elements batches). is_last (all_elements batches) n \<and> object_at (all_elements batches) n = (k, i) \<and>
      el_action (all_elements batches ! n) = a}"
proof -
  let ?es = "all_elements batches" and ?pl = "places 0 batches"
  have el: "rd_elements (batches ! unat (fst (?pl ! n))) ! unat (snd (?pl ! n)) = ?es ! n" if "n < length ?es" for n
    using places_element [of "[]" batches n] assms that by (simp add: sizes_ok_def)
  have sv: "set (survivors ?es ?pl a) = (\<lambda>n. ?pl ! n) ` {n. n < length ?es \<and> is_last ?es n \<and> el_action (?es ! n) = a}"
    by (auto simp: survivors_def)
  have "ids_at batches k (survivors ?es ?pl a) = (\<lambda>n. el_id (rd_elements (batches ! unat (fst (?pl ! n))) ! unat (snd (?pl ! n)))) `
      {n. n < length ?es \<and> is_last ?es n \<and> el_action (?es ! n) = a \<and>
        el_kind (rd_elements (batches ! unat (fst (?pl ! n))) ! unat (snd (?pl ! n))) = k}"
    unfolding ids_at_def split_def sv image_filter_image by (simp add: conj_assoc)
  also have "\<dots> = (\<lambda>n. el_id (?es ! n)) ` {n. n < length ?es \<and> is_last ?es n \<and> el_action (?es ! n) = a \<and> el_kind (?es ! n) = k}"
    by (rule image_cong) (auto simp: el)
  also have "\<dots> = {i. \<exists>n < length ?es. is_last ?es n \<and> object_at ?es n = (k, i) \<and> el_action (?es ! n) = a}"
    by (auto simp: object_at_def)
  finally show ?thesis .
qed

lemma survivor_sets:
  assumes "sizes_ok batches" "list_all2 same_change cs (all_elements batches)"
  shows "ids_at batches k (survivors (all_elements batches) (places 0 batches) Create) \<union>
      ids_at batches k (survivors (all_elements batches) (places 0 batches) Modify) = {i. \<exists>x. last_change cs k i = Upsert x}"
    "ids_at batches k (survivors (all_elements batches) (places 0 batches) Delete) = {i. last_change cs k i = Removed}"
proof -
  let ?es = "all_elements batches"
  have c: "(snd (cs ! n) = Removed \<longleftrightarrow> el_action (?es ! n) = Delete) \<and> snd (cs ! n) \<noteq> NoChange" if "n < length ?es" for n
    using assms(2) that by (auto simp: list_all2_conv_all_nth same_change_def)
  have up: "el_action (?es ! n) = Create \<or> el_action (?es ! n) = Modify \<longleftrightarrow> (\<exists>x. snd (cs ! n) = Upsert x)" if "n < length ?es" for n
    using c [OF that] by (cases "el_action (?es ! n)"; cases "snd (cs ! n)") auto
  have "(\<exists>x. last_change cs k i = Upsert x) \<longleftrightarrow> (\<exists>n < length ?es. is_last ?es n \<and> object_at ?es n = (k, i) \<and> (\<exists>x. snd (cs ! n) = Upsert x))" for i
    using last_change_iff [OF assms(2)] by blast
  then show "ids_at batches k (survivors ?es (places 0 batches) Create) \<union> ids_at batches k (survivors ?es (places 0 batches) Modify) =
      {i. \<exists>x. last_change cs k i = Upsert x}"
    unfolding survivor_ids [OF assms(1)] using up by blast
  show "ids_at batches k (survivors ?es (places 0 batches) Delete) = {i. last_change cs k i = Removed}"
    unfolding survivor_ids [OF assms(1)] using last_change_iff [OF assms(2), of Removed k] c by auto
qed

lemma same_change_entries: "list_all2 same_change cs els \<Longrightarrow> map change_entry els = map fst cs"
  by (auto simp: list_all2_conv_all_nth same_change_def intro!: nth_equalityI)

section \<open>Properties\<close>

text \<open>
  C10: the byte sink writes owned elements. Fed the callbacks of one element, the sink refuses
  it with the first error a parse into an owned element meets, writing nothing, and otherwise writes
  exactly the section change the element's action calls for and then the element: its start tag, its structural
  children in order, its tags in order, its end tag, or one empty tag when it has no child. The indexed
  sink records the element's kind, action, ID and version claim with the range its bytes occupy.
\<close>

theorem emitted_element:
  assumes "object_ok b"
  shows "case parse_owned L b of
      Inl err \<Rightarrow> (\<exists>eb. run_calls (byte_sink W L) s (object_calls b) = Some (Inl err, s\<lparr>bs_element := eb\<rparr>))
    | Inr ob \<Rightarrow> (\<exists>eb. tag_pairs eb = ow_tags ob \<and> run_calls (byte_sink W L) s (object_calls b) =
        Some (case bind_sum (write_events W (section_events (bs_open_action s) (ob_action b)) (bs_writer s)) (\<lambda>w.
                   bind_sum (write_events W (owned_events W (ob_kind b) ob) w) (\<lambda>w'. Inr (w, w'))) of
           Inl err \<Rightarrow> (Inl err, s\<lparr>bs_element := eb\<rparr>)
         | Inr (w, w') \<Rightarrow>
             (Inr (), \<lparr>bs_writer = w', bs_open_action = Some (ob_action b), bs_count = bs_count s + 1,
                bs_index = map_option (\<lambda>ix. ix @ [element_of b ob (length (w_bytes W w)) (length (w_bytes W w'))]) (bs_index s),
                bs_element = eb\<lparr>eb_current := None\<rparr>\<rparr>)))"
  by (rule emitted_step [OF assms])

text \<open>A writer that keeps its events and prints one byte for each.\<close>

definition log_writer :: "OutEvent list XmlWriter" where
  "log_writer = \<lparr>w_new = [], w_event = (\<lambda>w ev. Inr (w @ [ev])), w_bytes = (\<lambda>w. map (\<lambda>_. 0) w), w_splice = (\<lambda>w bs. w),
     w_gzip = Inr, xml_escape = (\<lambda>t. t), coord_digits = (\<lambda>_. ''0.0000000'')\<rparr>"

lemma log_writer_total: "writer_total log_writer"
  by (simp add: writer_total_def log_writer_def)

definition sample_object :: OscObject where
  "sample_object = \<lparr>ob_action = Modify, ob_kind = Way,
     ob_tag = \<lparr>tag_name = ''way'', attributes = [Some (''id'', ''5''), Some (''version'', ''3'')]\<rparr>,
     ob_children = [CTag \<lparr>tag_name = ''tag'', attributes = [Some (''k'', ''highway''), Some (''v'', ''path'')]\<rparr>,
       CNd \<lparr>tag_name = ''nd'', attributes = [Some (''ref'', ''9'')]\<rparr>]\<rparr>"

theorem emitted_element_witness:
  "\<exists>eb. run_calls (byte_sink log_writer sample_lib) (ByteSink_with_index [] None 0 []) (object_calls sample_object) =
    Some (Inr (), \<lparr>bs_writer = section_events None Modify @ [OutStart (''way id='' @ [quote] @ ''5'' @ [quote] @ '' version='' @ [quote] @ ''3'' @ [quote]) 3,
        OutEmpty (''nd ref='' @ [quote] @ ''9'' @ [quote]) 2,
        OutEmpty (''tag k='' @ [quote] @ ''highway'' @ [quote] @ '' v='' @ [quote] @ ''path'' @ [quote]) 3, OutEnd ''way''],
      bs_open_action = Some Modify, bs_count = 1,
      bs_index = Some [\<lparr>el_kind = Way, el_action = Modify, el_id = 5, el_version = Some 3, el_start = 1, el_end = 5\<rparr>], bs_element = eb\<rparr>)"
proof -
  have ok: "object_ok sample_object" by (simp add: object_ok_def sample_object_def)
  let ?ob = "\<lparr>ow_id = 5, ow_meta = OwnedMetadata_cleared\<lparr>om_version := Some 3\<rparr>, ow_has_meta = True, ow_coords = None,
    ow_structural = [OwnedNd 9], ow_tags = [(''highway'', ''path'')]\<rparr>"
  have p: "parse_owned sample_lib sample_object = Inr ?ob" by code_simp
  have s: "write_events log_writer (section_events (bs_open_action (ByteSink_with_index [] None 0 [])) (ob_action sample_object))
      (bs_writer (ByteSink_with_index [] None 0 [])) = Inr (section_events None Modify)"
    by code_simp
  have e: "write_events log_writer (owned_events log_writer (ob_kind sample_object) ?ob) (section_events None Modify) =
      Inr (section_events None Modify @ [OutStart (''way id='' @ [quote] @ ''5'' @ [quote] @ '' version='' @ [quote] @ ''3'' @ [quote]) 3,
        OutEmpty (''nd ref='' @ [quote] @ ''9'' @ [quote]) 2,
        OutEmpty (''tag k='' @ [quote] @ ''highway'' @ [quote] @ '' v='' @ [quote] @ ''path'' @ [quote]) 3, OutEnd ''way''])"
    by code_simp
  let ?w = "section_events None Modify" and ?w' = "section_events None Modify @ [OutStart (''way id='' @ [quote] @ ''5'' @ [quote] @ '' version='' @ [quote] @ ''3'' @ [quote]) 3,
        OutEmpty (''nd ref='' @ [quote] @ ''9'' @ [quote]) 2,
        OutEmpty (''tag k='' @ [quote] @ ''highway'' @ [quote] @ '' v='' @ [quote] @ ''path'' @ [quote]) 3, OutEnd ''way'']"
  have el: "element_of sample_object ?ob (length (w_bytes log_writer ?w)) (length (w_bytes log_writer ?w')) =
      \<lparr>el_kind = Way, el_action = Modify, el_id = 5, el_version = Some 3, el_start = 1, el_end = 5\<rparr>" by code_simp
  have ini: "bs_index (ByteSink_with_index [] None 0 []) = Some []" "bs_count (ByteSink_with_index [] None 0 []) + 1 = 1" "ob_action sample_object = Modify"
    by code_simp+
  have bind: "bind_sum (Inr x) g = g x" for x :: 'a and g :: "'a \<Rightarrow> osc_error + 'b" by (simp add: bind_sum_def)
  from emitted_element [OF ok, of log_writer sample_lib "ByteSink_with_index [] None 0 []", unfolded p sum.case s bind e prod.case]
  show ?thesis unfolding ini el option.map append_Nil by blast
qed

end
