(* ===== verification/Merge_Stream.thy ===== *)
theory Merge_Stream
  imports Emit
begin

text \<open>
  The streaming merge of merge-changes (\<open>commands/merge_changes/stream.rs\<close>): readers seal batches
  against a byte budget, workers encode them in any order, and one coordinator writes every member in
  input and batch order, spilling the members of inputs that are not the head yet. The coordinator is a
  function on its state per message; the whole is a step relation in which readers and deliveries
  interleave freely. What a scratch file holds is its bytes. Failures of threads, files and
  the output, cancellation and the counters are not modelled; a failed batch or reader is a
  message the coordinator refuses with.
\<close>

definition bt_remove :: "'k::linorder \<Rightarrow> ('k \<times> 'v) list \<Rightarrow> ('k \<times> 'v) list" where
  "bt_remove k m = filter (\<lambda>e. fst e \<noteq> k) m"

lemma bt_wf_remove: "bt_wf m \<Longrightarrow> bt_wf (bt_remove k m)"
  by (simp add: bt_wf_def bt_remove_def sorted_wrt_map sorted_wrt_filter)

lemma bt_get_remove: "bt_get (bt_remove k m) k' = (if k' = k then None else bt_get m k')"
  unfolding bt_remove_def by (induction m) auto

lemma length_bt_remove: "bt_wf m \<Longrightarrow> bt_get m k = Some v \<Longrightarrow> length m = Suc (length (bt_remove k m))"
proof (induction m)
  case (Cons e m)
  obtain k' v' where e: "e = (k', v')" by (cases e)
  show ?case
  proof (cases "k' = k")
    case True
    then have "bt_remove k m = m" using Cons.prems(1) by (auto simp: e bt_remove_def intro!: filter_True)
    then show ?thesis using True by (simp add: e bt_remove_def)
  next
    case False
    then show ?thesis using Cons by (simp add: e bt_remove_def)
  qed
qed simp

lemma length_bt_remove_less: "bt_get m k = Some v \<Longrightarrow> length (bt_remove k m) < length m"
  unfolding bt_remove_def by (auto dest!: map_of_SomeD intro!: length_filter_less)

section \<open>The ledger\<close>

record Ledger =
  lg_used :: nat
  lg_stopped :: bool
  lg_budget :: nat

definition Ledger_new :: "nat \<Rightarrow> Ledger" where
  "Ledger_new budget = \<lparr>lg_used = 0, lg_stopped = False, lg_budget = budget\<rparr>"

text \<open>\<open>None\<close>: the caller waits.\<close>

definition acquire :: "Ledger \<Rightarrow> nat \<Rightarrow> (osc_error + Ledger) option" where
  "acquire l n =
     (if lg_stopped l then Some (Inl (Internal ''merge-changes stopped after an earlier failure''))
      else if lg_used l = 0 \<or> lg_used l + n \<le> lg_budget l then Some (Inr (l\<lparr>lg_used := lg_used l + n\<rparr>))
      else None)"

definition release :: "Ledger \<Rightarrow> nat \<Rightarrow> Ledger" where
  "release l n = l\<lparr>lg_used := lg_used l - n\<rparr>"

definition stop :: "Ledger \<Rightarrow> Ledger" where
  "stop l = l\<lparr>lg_stopped := True\<rparr>"

section \<open>The coordinator\<close>

type_synonym Member = "bytes \<times> nat"

datatype 'a Msg = MsgMember nat nat nat "osc_error + 'a" | MsgReaderDone nat nat | MsgReaderFailed osc_error

datatype Sink = SinkPending | SinkSpill bytes | SinkClosed bytes | SinkOutput

record InputState =
  is_waiting :: "(nat \<times> bytes \<times> nat \<times> nat) list"
  is_next :: nat
  is_batches :: "nat option"
  is_changes :: nat
  is_sink :: Sink
  is_complete :: bool

record Coordinator =
  co_scratch :: bool
  co_ledger :: Ledger
  co_out :: bytes
  co_states :: "InputState list"
  co_head :: nat
  co_total :: nat
  co_started :: nat

definition reader_cap :: "nat \<Rightarrow> nat \<Rightarrow> nat" where
  "reader_cap readers n = max 1 (min readers (max n 1))"

datatype Parallelism = Auto | Fixed nat

definition Parallelism_fixed :: "Parallelism \<Rightarrow> nat option" where
  "Parallelism_fixed p = (case p of Auto \<Rightarrow> None | Fixed n \<Rightarrow> Some n)"

definition Parallelism_resolve :: "Parallelism \<Rightarrow> nat \<Rightarrow> nat" where
  "Parallelism_resolve p auto_workers = (case Parallelism_fixed p of Some n \<Rightarrow> n | None \<Rightarrow> auto_workers)"

definition stream_writes_scratch :: "nat \<Rightarrow> Parallelism \<Rightarrow> bool" where
  "stream_writes_scratch input_count p \<longleftrightarrow> input_count > 1 \<and> Parallelism_fixed p \<noteq> Some 1"

lemma one_reader: "\<not> stream_writes_scratch n p \<Longrightarrow> reader_cap (Parallelism_resolve p auto_workers) n = 1"
  by (auto simp: stream_writes_scratch_def reader_cap_def Parallelism_resolve_def)

text \<open>\<open>Coordinator::new\<close>, and the readers started before the loop.\<close>

definition Coordinator_new :: "nat \<Rightarrow> nat \<Rightarrow> bool \<Rightarrow> Ledger \<Rightarrow> Coordinator" where
  "Coordinator_new n readers scratch ledger =
     \<lparr>co_scratch = scratch, co_ledger = ledger, co_out = [],
      co_states = map (\<lambda>i. \<lparr>is_waiting = [], is_next = 0, is_batches = None, is_changes = 0,
        is_sink = (if i = 0 then SinkOutput else SinkPending), is_complete = False\<rparr>) [0..<n],
      co_head = 0, co_total = 0, co_started = min (reader_cap readers n) n\<rparr>"

text \<open>The loop of \<open>drain\<close> over the parts of the coordinator it changes: the input, the output, the total, the ledger.\<close>

function drain_loop :: "bool \<Rightarrow> InputState \<Rightarrow> bytes \<Rightarrow> nat \<Rightarrow> Ledger \<Rightarrow> osc_error + InputState \<times> bytes \<times> nat \<times> Ledger" where
  "drain_loop scratch st out tot l =
     (case bt_get (is_waiting st) (is_next st) of
        None \<Rightarrow> Inr (st, out, tot, l)
      | Some (bytes, changes, credit) \<Rightarrow>
          let st1 = st\<lparr>is_waiting := bt_remove (is_next st) (is_waiting st), is_next := is_next st + 1, is_changes := is_changes st + changes\<rparr> in
          if is_sink st1 = SinkPending \<and> \<not> scratch
          then Inl (Internal ''merge-changes input spilled on a run given no scratch directory'')
          else
            (case (if is_sink st1 = SinkPending then SinkSpill [] else is_sink st1) of
               SinkOutput \<Rightarrow> drain_loop scratch st1 (out @ bytes) (tot + changes) (release l credit)
             | SinkSpill content \<Rightarrow> drain_loop scratch (st1\<lparr>is_sink := SinkSpill (content @ bytes)\<rparr>) out tot (release l credit)
             | _ \<Rightarrow> Inl (Internal ''merge-changes member for an input with no open spill file'')))"
  by auto

termination
  by (relation "measure (\<lambda>(scratch, st, out, tot, l). length (is_waiting st))") (auto simp: Let_def dest: length_bt_remove_less)

declare drain_loop.simps [simp del]

definition drain :: "Coordinator \<Rightarrow> nat \<Rightarrow> osc_error + Coordinator" where
  "drain co input =
     (case drain_loop (co_scratch co) (co_states co ! input) (co_out co) (co_total co) (co_ledger co) of
        Inl err \<Rightarrow> Inl err
      | Inr (st, out, tot, l) \<Rightarrow>
          Inr (co\<lparr>co_states := (co_states co)[input := st], co_out := out, co_total := tot, co_ledger := l\<rparr>))"

definition close_if_complete :: "Coordinator \<Rightarrow> nat \<Rightarrow> bool \<times> Coordinator" where
  "close_if_complete co input =
     (let st = co_states co ! input in
      if is_complete st \<or> is_batches st \<noteq> Some (is_next st) then (False, co)
      else
        let st = st\<lparr>is_complete := True\<rparr>;
            st = (if input = co_head co then st
                  else case is_sink st of SinkSpill content \<Rightarrow> st\<lparr>is_sink := SinkClosed content\<rparr> | _ \<Rightarrow> st) in
        (True, co\<lparr>co_states := (co_states co)[input := st]\<rparr>))"

definition advance_head :: "Coordinator \<Rightarrow> Coordinator" where
  "advance_head co =
     (let head = co_head co + 1; co = co\<lparr>co_head := head\<rparr> in
      if length (co_states co) \<le> head then co
      else
        let st = co_states co ! head;
            spill = (case is_sink st of SinkSpill content \<Rightarrow> content | SinkClosed content \<Rightarrow> content | _ \<Rightarrow> []) in
        co\<lparr>co_states := (co_states co)[head := st\<lparr>is_sink := SinkOutput\<rparr>], co_total := co_total co + is_changes st, co_out := co_out co @ spill\<rparr>)"

definition start_next :: "bool \<Rightarrow> Coordinator \<Rightarrow> Coordinator" where
  "start_next freed co = (if freed \<and> co_started co < length (co_states co) then co\<lparr>co_started := co_started co + 1\<rparr> else co)"

text \<open>The head of the loop, and one message; an input the coordinator does not have is an index out of range.\<close>

definition head_done :: "Coordinator \<Rightarrow> bool" where
  "head_done co \<longleftrightarrow> (let st = co_states co ! co_head co in is_batches st = Some (is_next st))"

definition handle_msg :: "Coordinator \<Rightarrow> Member Msg \<Rightarrow> (osc_error + Coordinator) option" where
  "handle_msg co msg =
     (case msg of
        MsgMember input sq credit result \<Rightarrow>
          (case result of
             Inl err \<Rightarrow> Some (Inl err)
           | Inr (bytes, changes) \<Rightarrow>
               if length (co_states co) \<le> input then None
               else
                 let st = co_states co ! input;
                     beyond = (case is_batches st of Some b \<Rightarrow> b \<le> sq | None \<Rightarrow> False) in
                 if sq < is_next st \<or> beyond \<or> bt_get (is_waiting st) sq \<noteq> None
                 then Some (Inl (Internal ''merge-changes received a batch out of protocol''))
                 else
                   let st = st\<lparr>is_waiting := bt_entry sq (\<lambda>_. (bytes, changes, credit)) (is_waiting st)\<rparr> in
                   Some (case drain (co\<lparr>co_states := (co_states co)[input := st]\<rparr>) input of
                           Inl err \<Rightarrow> Inl err
                         | Inr co \<Rightarrow> Inr (case close_if_complete co input of (freed, co) \<Rightarrow> start_next freed co)))
      | MsgReaderDone input batches \<Rightarrow>
          if length (co_states co) \<le> input then None
          else
            let st = co_states co ! input in
            if is_batches st \<noteq> None \<or> batches < is_next st \<or> (is_waiting st \<noteq> [] \<and> batches \<le> fst (last (is_waiting st)))
            then Some (Inl (Internal ''merge-changes input reported an inconsistent batch count''))
            else
              let co = co\<lparr>co_states := (co_states co)[input := st\<lparr>is_batches := Some batches\<rparr>]\<rparr> in
              Some (Inr (case close_if_complete co input of (freed, co) \<Rightarrow> start_next freed co))
      | MsgReaderFailed err \<Rightarrow> Some (Inl err))"

section \<open>The system\<close>

text \<open>
  Each input is the list of its batches: the credit a batch takes and the member it encodes to. A reader has
  sealed a number of its batches; what it sealed and the coordinator has not received is with a worker or in
  the channel, from where it may come at any time.
\<close>

type_synonym Input = "(nat \<times> Member) list"

record Sys =
  sy_co :: Coordinator
  sy_sealed :: "nat \<Rightarrow> nat"

definition Sys_new :: "Input list \<Rightarrow> nat \<Rightarrow> bool \<Rightarrow> nat \<Rightarrow> Sys" where
  "Sys_new ins readers scratch budget =
     \<lparr>sy_co = Coordinator_new (length ins) readers scratch (Ledger_new budget), sy_sealed = (\<lambda>_. 0)\<rparr>"

definition awaiting :: "Sys \<Rightarrow> bool" where
  "awaiting y \<longleftrightarrow> co_head (sy_co y) < length (co_states (sy_co y)) \<and> \<not> head_done (sy_co y)"

definition in_flight :: "Sys \<Rightarrow> nat \<Rightarrow> nat \<Rightarrow> bool" where
  "in_flight y i s \<longleftrightarrow> is_next (co_states (sy_co y) ! i) \<le> s \<and> s < sy_sealed y i \<and> bt_get (is_waiting (co_states (sy_co y) ! i)) s = None"

inductive step :: "Input list \<Rightarrow> Sys \<Rightarrow> Sys \<Rightarrow> bool" for ins where
  seal: "i < co_started (sy_co y) \<Longrightarrow> sy_sealed y i < length (ins ! i) \<Longrightarrow>
    acquire (co_ledger (sy_co y)) (fst (ins ! i ! sy_sealed y i)) = Some (Inr l) \<Longrightarrow>
    step ins y \<lparr>sy_co = (sy_co y)\<lparr>co_ledger := l\<rparr>, sy_sealed = (sy_sealed y)(i := sy_sealed y i + 1)\<rparr>"
| member: "awaiting y \<Longrightarrow> i < length ins \<Longrightarrow> in_flight y i s \<Longrightarrow>
    handle_msg (sy_co y) (MsgMember i s (fst (ins ! i ! s)) (Inr (snd (ins ! i ! s)))) = Some (Inr co) \<Longrightarrow> step ins y (y\<lparr>sy_co := co\<rparr>)"
| reader_done: "awaiting y \<Longrightarrow> i < co_started (sy_co y) \<Longrightarrow> sy_sealed y i = length (ins ! i) \<Longrightarrow> is_batches (co_states (sy_co y) ! i) = None \<Longrightarrow>
    handle_msg (sy_co y) (MsgReaderDone i (length (ins ! i))) = Some (Inr co) \<Longrightarrow> step ins y (y\<lparr>sy_co := co\<rparr>)"
| advance: "co_head (sy_co y) < length (co_states (sy_co y)) \<Longrightarrow> head_done (sy_co y) \<Longrightarrow> step ins y (y\<lparr>sy_co := advance_head (sy_co y)\<rparr>)"

inductive reachable :: "Input list \<Rightarrow> nat \<Rightarrow> bool \<Rightarrow> nat \<Rightarrow> Sys \<Rightarrow> bool" for ins readers scratch budget where
  start: "reachable ins readers scratch budget (Sys_new ins readers scratch budget)"
| next_step: "reachable ins readers scratch budget y \<Longrightarrow> step ins y y' \<Longrightarrow> reachable ins readers scratch budget y'"

section \<open>Draining\<close>

definition byt :: "Input \<Rightarrow> nat \<Rightarrow> bytes" where
  "byt inp k = concat (map (\<lambda>b. fst (snd b)) (take k inp))"

definition chg :: "Input \<Rightarrow> nat \<Rightarrow> nat" where
  "chg inp k = sum_list (map (\<lambda>b. snd (snd b)) (take k inp))"

definition cred :: "Input \<Rightarrow> nat \<Rightarrow> nat" where
  "cred inp k = sum_list (map fst (take k inp))"

lemma prefix_simps [simp]:
  "byt inp 0 = []" "chg inp 0 = 0" "cred inp 0 = 0"
  by (simp_all add: byt_def chg_def cred_def)

lemma prefix_Suc:
  assumes "k < length inp"
  shows "byt inp (Suc k) = byt inp k @ fst (snd (inp ! k))" "chg inp (Suc k) = chg inp k + snd (snd (inp ! k))"
    "cred inp (Suc k) = cred inp k + fst (inp ! k)"
  using assms by (simp_all add: byt_def chg_def cred_def take_Suc_conv_app_nth)

lemma cred_mono: "k \<le> m \<Longrightarrow> cred inp k \<le> cred inp m"
proof -
  assume "k \<le> m"
  then obtain d where "m = k + d" by (auto simp: le_iff_add)
  then show ?thesis by (simp add: cred_def take_add)
qed

definition wait_entry :: "nat \<times> Member \<Rightarrow> bytes \<times> nat \<times> nat" where
  "wait_entry b = (fst (snd b), snd (snd b), fst b)"

definition waiting_ok :: "Input \<Rightarrow> nat \<Rightarrow> InputState \<Rightarrow> bool" where
  "waiting_ok inp sl st \<longleftrightarrow> bt_wf (is_waiting st) \<and> is_next st \<le> sl \<and> sl \<le> length inp \<and>
     (\<forall>s. bt_get (is_waiting st) s = None \<or> is_next st \<le> s \<and> s < sl \<and> bt_get (is_waiting st) s = Some (wait_entry (inp ! s)))"

definition spill_sink :: "Input \<Rightarrow> nat \<Rightarrow> Sink" where
  "spill_sink inp k = (if k = 0 then SinkPending else SinkSpill (byt inp k))"

lemma waiting_pop:
  assumes "waiting_ok inp sl st" "bt_get (is_waiting st) (is_next st) = Some x"
  shows "is_next st < sl" "sl \<le> length inp" "x = wait_entry (inp ! is_next st)"
    "waiting_ok inp sl (st\<lparr>is_waiting := bt_remove (is_next st) (is_waiting st), is_next := is_next st + 1, is_changes := c, is_sink := k\<rparr>)"
    "length (is_waiting st) = Suc (length (bt_remove (is_next st) (is_waiting st)))"
proof -
  have *: "is_next st < sl \<and> sl \<le> length inp \<and> x = wait_entry (inp ! is_next st)"
    using assms unfolding waiting_ok_def by (metis option.distinct(1) option.inject)
  then show "is_next st < sl" "sl \<le> length inp" "x = wait_entry (inp ! is_next st)" by simp_all
  show "waiting_ok inp sl (st\<lparr>is_waiting := bt_remove (is_next st) (is_waiting st), is_next := is_next st + 1, is_changes := c, is_sink := k\<rparr>)"
    using assms * by (simp add: waiting_ok_def bt_get_remove bt_wf_remove Suc_le_eq) (metis le_neq_implies_less)
  show "length (is_waiting st) = Suc (length (bt_remove (is_next st) (is_waiting st)))"
    using assms by (auto simp: waiting_ok_def intro!: length_bt_remove)
qed

definition drained :: "Input \<Rightarrow> nat \<Rightarrow> bool \<Rightarrow> bytes \<Rightarrow> nat \<Rightarrow> nat \<Rightarrow> InputState \<times> bytes \<times> nat \<times> Ledger \<Rightarrow> bool" where
  "drained inp sl d pre t0 others r = (case r of (st, out, tot, l) \<Rightarrow>
     waiting_ok inp sl st \<and> is_changes st = chg inp (is_next st) \<and>
     is_sink st = (if d then SinkOutput else spill_sink inp (is_next st)) \<and>
     out = pre @ (if d then byt inp (is_next st) else []) \<and> tot = t0 + (if d then chg inp (is_next st) else 0) \<and>
     lg_used l + cred inp (is_next st) = others + cred inp sl)"

lemma drain_loop_ok:
  assumes "drained inp sl d pre t0 others (st, out, tot, l)" "d \<or> scratch"
  shows "\<exists>st' out' tot' l'. drain_loop scratch st out tot l = Inr (st', out', tot', l') \<and>
    drained inp sl d pre t0 others (st', out', tot', l') \<and> bt_get (is_waiting st') (is_next st') = None \<and>
    is_batches st' = is_batches st \<and> is_complete st' = is_complete st \<and> is_next st \<le> is_next st' \<and>
    is_next st' + length (is_waiting st') = is_next st + length (is_waiting st) \<and>
    l' = l\<lparr>lg_used := lg_used l'\<rparr> \<and> lg_used l' \<le> lg_used l"
  using assms
proof (induction "length (is_waiting st)" arbitrary: st out tot l rule: less_induct)
  case less
  show ?case
  proof (cases "bt_get (is_waiting st) (is_next st)")
    case None
    then show ?thesis using less.prems by (subst drain_loop.simps) auto
  next
    case (Some x)
    have wok: "waiting_ok inp sl st" using less.prems(1) by (simp add: drained_def)
    note pop = waiting_pop[OF wok Some]
    have k: "is_next st < length inp" using pop(1,2) by simp
    let ?st = "st\<lparr>is_waiting := bt_remove (is_next st) (is_waiting st), is_next := is_next st + 1,
      is_changes := chg inp (Suc (is_next st)), is_sink := (if d then SinkOutput else spill_sink inp (Suc (is_next st)))\<rparr>"
    let ?out = "pre @ (if d then byt inp (Suc (is_next st)) else [])"
    let ?tot = "t0 + (if d then chg inp (Suc (is_next st)) else 0)"
    let ?l = "release l (fst (inp ! is_next st))"
    have used: "lg_used ?l + cred inp (Suc (is_next st)) = others + cred inp sl" "lg_used ?l \<le> lg_used l"
      using less.prems(1) cred_mono[of "Suc (is_next st)" sl inp] pop(1) k by (auto simp: drained_def release_def prefix_Suc)
    have step: "drain_loop scratch st out tot l = drain_loop scratch ?st ?out ?tot ?l"
      using less.prems k Some by (subst drain_loop.simps) (cases st; auto simp: pop(3) wait_entry_def drained_def prefix_Suc spill_sink_def Let_def add.assoc split: if_splits)
    have "drained inp sl d pre t0 others (?st, ?out, ?tot, ?l)" using used pop(4) by (simp add: drained_def)
    from less.hyps[OF _ this less.prems(2)] pop(5) obtain st' out' tot' l' where IH:
      "drain_loop scratch ?st ?out ?tot ?l = Inr (st', out', tot', l')" "drained inp sl d pre t0 others (st', out', tot', l')"
      "bt_get (is_waiting st') (is_next st') = None" "is_batches st' = is_batches st" "is_complete st' = is_complete st"
      "Suc (is_next st) \<le> is_next st'" "is_next st' + length (is_waiting st') = Suc (is_next st) + length (bt_remove (is_next st) (is_waiting st))"
      "l' = ?l\<lparr>lg_used := lg_used l'\<rparr>" "lg_used l' \<le> lg_used ?l"
      by auto
    have "l' = l\<lparr>lg_used := lg_used l'\<rparr>" using IH(8) by (simp add: release_def)
    then show ?thesis using IH step used(2) pop(5) by (intro exI[of _ st'] exI[of _ out'] exI[of _ tot'] exI[of _ l']) simp
  qed
qed

section \<open>The invariant\<close>

abbreviation st_of :: "Sys \<Rightarrow> nat \<Rightarrow> InputState" where
  "st_of y i \<equiv> co_states (sy_co y) ! i"

definition closed_sink :: "Input \<Rightarrow> nat \<Rightarrow> Sink" where
  "closed_sink inp k = (if k = 0 then SinkPending else SinkClosed (byt inp k))"

definition input_ok :: "nat \<Rightarrow> nat \<Rightarrow> Input \<Rightarrow> nat \<Rightarrow> InputState \<Rightarrow> bool" where
  "input_ok head i inp sl st \<longleftrightarrow>
     waiting_ok inp sl st \<and> bt_get (is_waiting st) (is_next st) = None \<and> is_changes st = chg inp (is_next st) \<and>
     (is_batches st = None \<or> is_batches st = Some (length inp) \<and> sl = length inp) \<and>
     (is_complete st \<longleftrightarrow> is_batches st = Some (is_next st)) \<and>
     is_sink st = (if i \<le> head then SinkOutput else if is_complete st then closed_sink inp (is_next st) else spill_sink inp (is_next st))"

definition completed :: "Sys \<Rightarrow> nat set" where
  "completed y = {i. i < length (co_states (sy_co y)) \<and> is_complete (st_of y i)}"

definition done_bytes :: "Input list \<Rightarrow> nat \<Rightarrow> bytes" where
  "done_bytes ins h = concat (map (\<lambda>inp. byt inp (length inp)) (take h ins))"

definition done_changes :: "Input list \<Rightarrow> nat \<Rightarrow> nat" where
  "done_changes ins h = sum_list (map (\<lambda>inp. chg inp (length inp)) (take h ins))"

definition max_credit :: "Input list \<Rightarrow> nat" where
  "max_credit ins = foldr max (map fst (concat ins)) 0"

definition shape_ok :: "Input list \<Rightarrow> bool \<Rightarrow> nat \<Rightarrow> Sys \<Rightarrow> bool" where
  "shape_ok ins scratch budget y \<longleftrightarrow>
     length (co_states (sy_co y)) = length ins \<and> co_head (sy_co y) \<le> length ins \<and> co_scratch (sy_co y) = scratch \<and>
     lg_budget (co_ledger (sy_co y)) = budget \<and> \<not> lg_stopped (co_ledger (sy_co y))"

definition readers_ok :: "Input list \<Rightarrow> nat \<Rightarrow> Sys \<Rightarrow> bool" where
  "readers_ok ins cap y \<longleftrightarrow>
     co_started (sy_co y) = min (length ins) (cap + card (completed y)) \<and>
     (\<forall>i < length ins. co_started (sy_co y) \<le> i \<longrightarrow> sy_sealed y i = 0 \<and> is_batches (st_of y i) = None) \<and>
     {0..<co_head (sy_co y)} \<subseteq> completed y \<and> (cap = 1 \<longrightarrow> completed y \<subseteq> {0..co_head (sy_co y)})"

definition ledger_ok :: "Input list \<Rightarrow> nat \<Rightarrow> Sys \<Rightarrow> bool" where
  "ledger_ok ins budget y \<longleftrightarrow>
     lg_used (co_ledger (sy_co y)) + (\<Sum>i<length ins. cred (ins ! i) (is_next (st_of y i))) = (\<Sum>i<length ins. cred (ins ! i) (sy_sealed y i)) \<and>
     lg_used (co_ledger (sy_co y)) \<le> max budget (max_credit ins)"

definition output_ok :: "Input list \<Rightarrow> Sys \<Rightarrow> bool" where
  "output_ok ins y \<longleftrightarrow> (let h = co_head (sy_co y) in
     co_out (sy_co y) = done_bytes ins h @ (if h < length ins then byt (ins ! h) (is_next (st_of y h)) else []) \<and>
     co_total (sy_co y) = done_changes ins h + (if h < length ins then chg (ins ! h) (is_next (st_of y h)) else 0))"

definition stream_inv :: "Input list \<Rightarrow> nat \<Rightarrow> bool \<Rightarrow> nat \<Rightarrow> Sys \<Rightarrow> bool" where
  "stream_inv ins cap scratch budget y \<longleftrightarrow> shape_ok ins scratch budget y \<and> readers_ok ins cap y \<and> ledger_ok ins budget y \<and> output_ok ins y \<and>
     (\<forall>i < length ins. input_ok (co_head (sy_co y)) i (ins ! i) (sy_sealed y i) (st_of y i))"

lemma sum_update:
  fixes f g :: "nat \<Rightarrow> nat"
  assumes "i < n" "\<And>j. j \<noteq> i \<Longrightarrow> g j = f j"
  shows "(\<Sum>j<n. g j) + f i = (\<Sum>j<n. f j) + g i"
proof -
  have "(\<Sum>j\<in>{..<n} - {i}. g j) = (\<Sum>j\<in>{..<n} - {i}. f j)" using assms(2) by (intro sum.cong) auto
  then show ?thesis using assms(1) sum.remove[of "{..<n}" i f] sum.remove[of "{..<n}" i g] by simp
qed

lemma inv_start: "stream_inv ins (reader_cap readers (length ins)) scratch budget (Sys_new ins readers scratch budget)"
proof -
  have c: "completed (Sys_new ins readers scratch budget) = {}"
    by (auto simp: completed_def Sys_new_def Coordinator_new_def)
  have "1 \<le> reader_cap readers (length ins)" by (simp add: reader_cap_def)
  then have "readers_ok ins (reader_cap readers (length ins)) (Sys_new ins readers scratch budget)"
    unfolding readers_ok_def c by (auto simp: Sys_new_def Coordinator_new_def)
  then show ?thesis
    by (auto simp: stream_inv_def shape_ok_def ledger_ok_def output_ok_def input_ok_def waiting_ok_def spill_sink_def
        done_bytes_def done_changes_def Sys_new_def Coordinator_new_def Ledger_new_def Let_def)
qed

text \<open>One input changes, and with it what it is entitled to change.\<close>

definition update_input :: "nat \<Rightarrow> InputState \<Rightarrow> nat \<Rightarrow> nat \<Rightarrow> bytes \<Rightarrow> nat \<Rightarrow> nat \<Rightarrow> Sys \<Rightarrow> Sys" where
  "update_input i st sl used out tot started y =
     \<lparr>sy_co = (sy_co y)\<lparr>co_states := (co_states (sy_co y))[i := st], co_ledger := (co_ledger (sy_co y))\<lparr>lg_used := used\<rparr>,
        co_out := out, co_total := tot, co_started := started\<rparr>,
      sy_sealed = (sy_sealed y)(i := sl)\<rparr>"

definition newly_complete :: "InputState \<Rightarrow> InputState \<Rightarrow> bool" where
  "newly_complete old st \<longleftrightarrow> is_complete st \<and> \<not> is_complete old"

definition may_update :: "Input list \<Rightarrow> nat \<Rightarrow> nat \<Rightarrow> nat \<Rightarrow> InputState \<Rightarrow> nat \<Rightarrow> nat \<Rightarrow> bytes \<Rightarrow> nat \<Rightarrow> nat \<Rightarrow> Sys \<Rightarrow> bool" where
  "may_update ins cap budget i st sl used out tot started y \<longleftrightarrow> (let co = sy_co y; inp = ins ! i in
     i < co_started co \<and> input_ok (co_head co) i inp sl st \<and> (is_complete (st_of y i) \<longrightarrow> is_complete st) \<and>
     (newly_complete (st_of y i) st \<longrightarrow> cap = 1 \<longrightarrow> i \<le> co_head co) \<and>
     used + cred inp (is_next st) + cred inp (sy_sealed y i) = lg_used (co_ledger co) + cred inp (is_next (st_of y i)) + cred inp sl \<and>
     used \<le> max budget (max_credit ins) \<and>
     out = (if i = co_head co then done_bytes ins i @ byt inp (is_next st) else co_out co) \<and>
     tot = (if i = co_head co then done_changes ins i + chg inp (is_next st) else co_total co) \<and>
     started = (if newly_complete (st_of y i) st \<and> co_started co < length ins then co_started co + 1 else co_started co))"

lemma inv_update:
  assumes inv: "stream_inv ins cap scratch budget y" and upd: "may_update ins cap budget i st sl used out tot started y"
  shows "stream_inv ins cap scratch budget (update_input i st sl used out tot started y)"
proof -
  let ?y = "update_input i st sl used out tot started y" and ?n = "length ins"
  note u = upd[unfolded may_update_def Let_def]
  have len: "length (co_states (sy_co y)) = ?n" and shape: "shape_ok ins scratch budget ?y"
    using inv by (auto simp: stream_inv_def shape_ok_def update_input_def)
  have i: "i < ?n" using u inv by (auto simp: stream_inv_def readers_ok_def)
  have st: "st_of ?y j = (if j = i then st else st_of y j)" for j using i len by (simp add: update_input_def)
  have comp: "completed ?y = (if newly_complete (st_of y i) st then insert i (completed y) else completed y)"
    using conjunct1[OF conjunct2[OF conjunct2[OF u]]] i len unfolding completed_def st newly_complete_def by (auto simp: update_input_def)
  have fin: "finite (completed y)" by (simp add: completed_def)
  have "i \<notin> completed y" if "newly_complete (st_of y i) st" using that by (simp add: completed_def newly_complete_def)
  then have card: "card (completed ?y) = card (completed y) + (if newly_complete (st_of y i) st then 1 else 0)" using fin by (simp add: comp)
  have simps: "co_started (sy_co ?y) = started" "co_head (sy_co ?y) = co_head (sy_co y)" "sy_sealed ?y = (sy_sealed y)(i := sl)"
    "lg_used (co_ledger (sy_co ?y)) = used" "co_out (sy_co ?y) = out" "co_total (sy_co ?y) = tot"
    by (simp_all add: update_input_def)
  note old = inv[unfolded stream_inv_def readers_ok_def]
  have s0: "co_started (sy_co y) = min ?n (cap + card (completed y))"
    and s1: "started = (if newly_complete (st_of y i) st \<and> co_started (sy_co y) < ?n then co_started (sy_co y) + 1 else co_started (sy_co y))"
    and s2: "i < co_started (sy_co y)" "newly_complete (st_of y i) st \<longrightarrow> cap = 1 \<longrightarrow> i \<le> co_head (sy_co y)"
    using old u by blast+
  have "started = min ?n (cap + card (completed ?y))" using s1 s0 unfolding card by auto
  moreover have "sy_sealed ?y j = 0 \<and> is_batches (st_of ?y j) = None" if "j < ?n" "started \<le> j" for j
  proof -
    have "co_started (sy_co y) \<le> j" "j \<noteq> i" using s1 s2 that by (auto split: if_splits)
    then show ?thesis using that(1) old by (simp add: st simps)
  qed
  moreover have "completed y \<subseteq> completed ?y" "cap = 1 \<Longrightarrow> completed ?y \<subseteq> completed y \<union> {0..co_head (sy_co y)}"
    using s2(2) by (auto simp: comp)
  ultimately have readers: "readers_ok ins cap ?y" using old unfolding readers_ok_def simps by blast
  have "(\<Sum>j<?n. cred (ins ! j) (is_next (st_of ?y j))) + cred (ins ! i) (is_next (st_of y i))
      = (\<Sum>j<?n. cred (ins ! j) (is_next (st_of y j))) + cred (ins ! i) (is_next st)"
    using sum_update[OF i, of "\<lambda>j. cred (ins ! j) (is_next (st_of ?y j))" "\<lambda>j. cred (ins ! j) (is_next (st_of y j))"] by (simp add: st)
  moreover have "(\<Sum>j<?n. cred (ins ! j) (sy_sealed ?y j)) + cred (ins ! i) (sy_sealed y i)
      = (\<Sum>j<?n. cred (ins ! j) (sy_sealed y j)) + cred (ins ! i) sl"
    using sum_update[OF i, of "\<lambda>j. cred (ins ! j) (sy_sealed ?y j)" "\<lambda>j. cred (ins ! j) (sy_sealed y j)"] by (simp add: simps)
  ultimately have ledger: "ledger_ok ins budget ?y"
    using inv u unfolding stream_inv_def ledger_ok_def simps by linarith
  have outp: "output_ok ins ?y"
    using inv u i unfolding stream_inv_def output_ok_def simps st Let_def by auto
  have ok: "input_ok (co_head (sy_co y)) i (ins ! i) sl st" using u by blast
  have "input_ok (co_head (sy_co ?y)) j (ins ! j) (sy_sealed ?y j) (st_of ?y j)" if "j < ?n" for j
    using old ok that by (cases "j = i") (simp_all add: st simps)
  then show ?thesis using shape readers ledger outp by (simp add: stream_inv_def)
qed

section \<open>The steps keep it\<close>

lemma input_facts:
  assumes "stream_inv ins cap scratch budget y" "i < length ins"
  shows "input_ok (co_head (sy_co y)) i (ins ! i) (sy_sealed y i) (st_of y i)" "i < length (co_states (sy_co y))"
  using assms by (simp_all add: stream_inv_def shape_ok_def)

lemma reader_facts:
  assumes "stream_inv ins cap scratch budget y"
  shows "co_started (sy_co y) = min (length ins) (cap + card (completed y))" "{0..<co_head (sy_co y)} \<subseteq> completed y"
    "cap = 1 \<Longrightarrow> completed y \<subseteq> {0..co_head (sy_co y)}"
    "i < length ins \<Longrightarrow> co_started (sy_co y) \<le> i \<Longrightarrow> sy_sealed y i = 0 \<and> is_batches (st_of y i) = None"
  using assms unfolding stream_inv_def readers_ok_def by blast+

lemma waiting_more: "waiting_ok inp sl st \<Longrightarrow> sl \<le> sl' \<Longrightarrow> sl' \<le> length inp \<Longrightarrow> waiting_ok inp sl' st"
  unfolding waiting_ok_def by (meson le_trans less_le_trans)

lemma started_bound: "stream_inv ins cap scratch budget y \<Longrightarrow> i < co_started (sy_co y) \<Longrightarrow> i < length ins"
  by (simp add: stream_inv_def readers_ok_def)

lemma max_credit_ge: "b \<in> set (concat ins) \<Longrightarrow> fst b \<le> max_credit ins"
proof -
  have "b \<in> set bs \<Longrightarrow> fst b \<le> foldr max (map fst bs) 0" for bs by (induction bs) auto
  then show "b \<in> set (concat ins) \<Longrightarrow> fst b \<le> max_credit ins" by (simp only: max_credit_def)
qed

lemma output_at:
  assumes "stream_inv ins cap scratch budget y" "i < length ins" "i = co_head (sy_co y)"
  shows "co_out (sy_co y) = done_bytes ins i @ byt (ins ! i) (is_next (st_of y i))"
    "co_total (sy_co y) = done_changes ins i + chg (ins ! i) (is_next (st_of y i))"
  using assms by (simp_all add: stream_inv_def output_ok_def Let_def)

lemma update_self:
  "i < length (co_states (sy_co y)) \<Longrightarrow>
   update_input i (st_of y i) sl used (co_out (sy_co y)) (co_total (sy_co y)) (co_started (sy_co y)) y
     = \<lparr>sy_co = (sy_co y)\<lparr>co_ledger := (co_ledger (sy_co y))\<lparr>lg_used := used\<rparr>\<rparr>, sy_sealed = (sy_sealed y)(i := sl)\<rparr>"
  by (simp add: update_input_def)

lemma update_co [simp]:
  "y\<lparr>sy_co := sy_co (update_input i st (sy_sealed y i) used out tot started y)\<rparr> = update_input i st (sy_sealed y i) used out tot started y"
  by (simp add: update_input_def)

lemma seal_inv:
  assumes inv: "stream_inv ins cap scratch budget y" and i: "i < co_started (sy_co y)" and s: "sy_sealed y i < length (ins ! i)"
    and acq: "acquire (co_ledger (sy_co y)) (fst (ins ! i ! sy_sealed y i)) = Some (Inr l)"
  shows "stream_inv ins cap scratch budget \<lparr>sy_co = (sy_co y)\<lparr>co_ledger := l\<rparr>, sy_sealed = (sy_sealed y)(i := sy_sealed y i + 1)\<rparr>"
proof -
  let ?c = "fst (ins ! i ! sy_sealed y i)" and ?used = "lg_used (co_ledger (sy_co y))"
  note n = started_bound[OF inv i] and ok = input_facts(1)[OF inv started_bound[OF inv i]]
  have l: "l = (co_ledger (sy_co y))\<lparr>lg_used := ?used + ?c\<rparr>" and room: "?used = 0 \<or> ?used + ?c \<le> budget"
    using acq inv by (auto simp: acquire_def stream_inv_def shape_ok_def split: if_splits)
  have "?c \<le> max_credit ins" using n s by (intro max_credit_ge) (auto intro!: bexI[of _ "ins ! i"])
  then have bound: "?used + ?c \<le> max budget (max_credit ins)" using room by auto
  have "input_ok (co_head (sy_co y)) i (ins ! i) (sy_sealed y i + 1) (st_of y i)"
    using ok s waiting_more[of "ins ! i" "sy_sealed y i" "st_of y i" "sy_sealed y i + 1"] by (simp add: input_ok_def)
  then have "may_update ins cap budget i (st_of y i) (sy_sealed y i + 1) (?used + ?c) (co_out (sy_co y)) (co_total (sy_co y)) (co_started (sy_co y)) y"
    using i bound output_at[OF inv n] s unfolding may_update_def Let_def newly_complete_def by (simp add: prefix_Suc)
  from inv_update[OF inv this] show ?thesis using input_facts(2)[OF inv n] by (simp add: update_self l)
qed

lemma length_bt_entry: "bt_get m k = None \<Longrightarrow> length (bt_entry k f m) = Suc (length m)"
  by (induction k f m rule: bt_entry.induct) (auto split: if_splits)

definition close_state :: "bool \<Rightarrow> InputState \<Rightarrow> InputState" where
  "close_state is_head st =
     (if is_complete st \<or> is_batches st \<noteq> Some (is_next st) then st
      else let st = st\<lparr>is_complete := True\<rparr> in
        if is_head then st else case is_sink st of SinkSpill content \<Rightarrow> st\<lparr>is_sink := SinkClosed content\<rparr> | _ \<Rightarrow> st)"

lemma close_state_simps [simp]:
  "is_waiting (close_state h st) = is_waiting st" "is_next (close_state h st) = is_next st" "is_batches (close_state h st) = is_batches st"
  "is_changes (close_state h st) = is_changes st"
  "is_complete (close_state h st) \<longleftrightarrow> is_complete st \<or> is_batches st = Some (is_next st)"
  by (auto simp: close_state_def Let_def split: Sink.splits)

lemma close_start:
  assumes "i < length (co_states co)" "\<not> is_complete (co_states co ! i)"
  shows "(case close_if_complete co i of (freed, co) \<Rightarrow> start_next freed co)
    = co\<lparr>co_states := (co_states co)[i := close_state (i = co_head co) (co_states co ! i)],
         co_started := (if is_complete (close_state (i = co_head co) (co_states co ! i)) \<and> co_started co < length (co_states co)
           then co_started co + 1 else co_started co)\<rparr>"
  using assms unfolding close_state_simps
  by (cases "is_batches (co_states co ! i) = Some (is_next (co_states co ! i))") (simp_all add: close_if_complete_def close_state_def start_next_def Let_def)

lemma close_input_ok:
  assumes "waiting_ok inp sl st" "bt_get (is_waiting st) (is_next st) = None" "is_changes st = chg inp (is_next st)"
    "is_batches st = None \<or> is_batches st = Some (length inp) \<and> sl = length inp" "\<not> is_complete st" "head \<le> i"
    "is_sink st = (if i = head then SinkOutput else spill_sink inp (is_next st))"
  shows "input_ok head i inp sl (close_state (i = head) st)"
proof -
  have "waiting_ok inp sl (close_state (i = head) st)" using assms(1) by (simp add: waiting_ok_def)
  moreover have "is_sink (close_state (i = head) st)
      = (if i \<le> head then SinkOutput else if is_batches st = Some (is_next st) then closed_sink inp (is_next st) else spill_sink inp (is_next st))"
    using assms(5-) by (auto simp: close_state_def spill_sink_def closed_sink_def Let_def)
  ultimately show ?thesis using assms by (simp add: input_ok_def)
qed

lemma credit_held:
  assumes inv: "stream_inv ins cap scratch budget y" and i: "i < length ins"
  obtains others where "lg_used (co_ledger (sy_co y)) + cred (ins ! i) (is_next (st_of y i)) = others + cred (ins ! i) (sy_sealed y i)"
proof -
  let ?n = "length ins" and ?next = "\<lambda>j. cred (ins ! j) (is_next (st_of y j))" and ?sealed = "\<lambda>j. cred (ins ! j) (sy_sealed y j)"
  have "?next j \<le> ?sealed j" if "j < ?n" for j
    using input_facts(1)[OF inv that] by (intro cred_mono) (simp add: input_ok_def waiting_ok_def)
  then have "(\<Sum>j\<in>{..<?n} - {i}. ?next j) \<le> (\<Sum>j\<in>{..<?n} - {i}. ?sealed j)" by (intro sum_mono) simp
  moreover have "lg_used (co_ledger (sy_co y)) + (\<Sum>j<?n. ?next j) = (\<Sum>j<?n. ?sealed j)"
    using inv by (simp add: stream_inv_def ledger_ok_def)
  ultimately have "?sealed i \<le> lg_used (co_ledger (sy_co y)) + ?next i"
    using i sum.remove[of "{..<?n}" i ?next] sum.remove[of "{..<?n}" i ?sealed] by simp
  then show ?thesis using that[of "lg_used (co_ledger (sy_co y)) + ?next i - ?sealed i"] by simp
qed

lemma one_reader_head:
  assumes inv: "stream_inv ins 1 scratch budget y" and aw: "awaiting y" and i: "i < co_started (sy_co y)"
  shows "i \<le> co_head (sy_co y)"
proof -
  let ?h = "co_head (sy_co y)"
  have h: "?h < length ins" using aw inv by (simp add: awaiting_def stream_inv_def shape_ok_def)
  have "\<not> is_complete (st_of y ?h)"
    using aw input_facts(1)[OF inv h] by (simp add: awaiting_def head_done_def input_ok_def Let_def)
  then have "?h \<notin> completed y" by (simp add: completed_def)
  moreover have "completed y \<subseteq> {0..?h}" by (rule reader_facts(3)[OF inv refl])
  ultimately have "completed y \<subseteq> {0..<?h}" by (metis atLeastLessThanSuc_atLeastAtMost atLeast0_lessThan_Suc subset_insert)
  then have "card (completed y) \<le> ?h" using card_mono[of "{0..<?h}"] by simp
  then show ?thesis using reader_facts(1)[OF inv] i by simp
qed

lemma delivered_input:
  assumes inv: "stream_inv ins cap scratch budget y" and plan: "scratch \<or> cap = 1" and aw: "awaiting y"
    and i: "i < co_started (sy_co y)" and nc: "\<not> is_complete (st_of y i)"
  shows "co_head (sy_co y) \<le> i" "i = co_head (sy_co y) \<or> scratch"
    "is_sink (st_of y i) = (if i = co_head (sy_co y) then SinkOutput else spill_sink (ins ! i) (is_next (st_of y i)))"
proof -
  have n: "i < length ins" using started_bound[OF inv i] .
  show ge: "co_head (sy_co y) \<le> i"
  proof (rule ccontr)
    assume "\<not> co_head (sy_co y) \<le> i"
    then have "i \<in> completed y" using reader_facts(2)[OF inv] by auto
    then show False using nc by (simp add: completed_def)
  qed
  show "i = co_head (sy_co y) \<or> scratch"
    using plan one_reader_head[OF _ aw i] inv ge by (cases "cap = 1") auto
  show "is_sink (st_of y i) = (if i = co_head (sy_co y) then SinkOutput else spill_sink (ins ! i) (is_next (st_of y i)))"
    using input_facts(1)[OF inv n] nc ge by (simp add: input_ok_def)
qed

lemma handle_member:
  assumes inv: "stream_inv ins cap scratch budget y" and plan: "scratch \<or> cap = 1" and aw: "awaiting y"
    and n: "i < length ins" and fl: "in_flight y i s"
  shows "\<exists>st used out tot started. handle_msg (sy_co y) (MsgMember i s (fst (ins ! i ! s)) (Inr (snd (ins ! i ! s))))
        = Some (Inr (sy_co (update_input i st (sy_sealed y i) used out tot started y))) \<and>
      may_update ins cap budget i st (sy_sealed y i) used out tot started y \<and>
      is_batches st = is_batches (st_of y i) \<and> is_next st + length (is_waiting st) = Suc (is_next (st_of y i) + length (is_waiting (st_of y i)))"
proof -
  let ?co = "sy_co y" and ?inp = "ins ! i" and ?sl = "sy_sealed y i" and ?h = "co_head (sy_co y)"
  let ?st1 = "(st_of y i)\<lparr>is_waiting := bt_entry s (\<lambda>_. wait_entry (?inp ! s)) (is_waiting (st_of y i))\<rparr>"
  note ok = input_facts(1)[OF inv n, unfolded input_ok_def] and len = input_facts(2)[OF inv n]
  have fl': "is_next (st_of y i) \<le> s" "s < ?sl" "bt_get (is_waiting (st_of y i)) s = None" using fl by (simp_all add: in_flight_def)
  have sl: "?sl \<le> length ?inp" and wf: "bt_wf (is_waiting (st_of y i))" using ok by (simp_all add: waiting_ok_def)
  have started: "i < co_started ?co"
    using reader_facts(4)[OF inv n] fl'(2) by (metis not_less not_less_zero)
  have nc: "\<not> is_complete (st_of y i)" using ok fl'(1,2) by auto
  note del = delivered_input[OF inv plan aw started nc]
  obtain others where others: "lg_used (co_ledger ?co) + cred ?inp (is_next (st_of y i)) = others + cred ?inp ?sl" using credit_held[OF inv n] .
  have w1: "waiting_ok ?inp ?sl ?st1" using ok fl' wf by (simp add: waiting_ok_def bt_wf_entry bt_get_entry)
  define pre where "pre = (if i = ?h then done_bytes ins i else co_out ?co)"
  define t0 where "t0 = (if i = ?h then done_changes ins i else co_total ?co)"
  have "drained ?inp ?sl (i = ?h) pre t0 others (?st1, co_out ?co, co_total ?co, co_ledger ?co)"
    using w1 conjunct1[OF conjunct2[OF conjunct2[OF ok]]] del(3) output_at[OF inv n] others by (simp add: drained_def pre_def t0_def)
  from drain_loop_ok[OF this del(2)] obtain st2 out tot l where
    dl: "drain_loop scratch ?st1 (co_out ?co) (co_total ?co) (co_ledger ?co) = Inr (st2, out, tot, l)"
    and dr: "drained ?inp ?sl (i = ?h) pre t0 others (st2, out, tot, l)" and g2: "bt_get (is_waiting st2) (is_next st2) = None"
    and same: "is_batches st2 = is_batches (st_of y i)" "is_complete st2 = is_complete (st_of y i)"
    and len2: "is_next st2 + length (is_waiting st2) = is_next ?st1 + length (is_waiting ?st1)"
    and l: "l = (co_ledger ?co)\<lparr>lg_used := lg_used l\<rparr>" and le: "lg_used l \<le> lg_used (co_ledger ?co)"
    by auto
  let ?st = "close_state (i = ?h) st2"
  have okst: "input_ok ?h i ?inp ?sl ?st"
    using dr g2 same ok nc del(1) by (intro close_input_ok) (simp_all add: drained_def)
  let ?started = "if newly_complete (st_of y i) ?st \<and> co_started ?co < length ins then co_started ?co + 1 else co_started ?co"
  have "may_update ins cap budget i ?st ?sl (lg_used l) out tot ?started y"
  proof -
    have "lg_used l \<le> max budget (max_credit ins)" using inv le by (simp add: stream_inv_def ledger_ok_def)
    moreover have "cap = 1 \<longrightarrow> i \<le> ?h" using one_reader_head[OF _ aw started] inv by auto
    ultimately show ?thesis using dr started okst nc others unfolding may_update_def Let_def by (simp add: drained_def pre_def t0_def)
  qed
  moreover have "handle_msg ?co (MsgMember i s (fst (?inp ! s)) (Inr (snd (?inp ! s))))
      = Some (Inr (sy_co (update_input i ?st ?sl (lg_used l) out tot ?started y)))"
  proof -
    let ?co2 = "?co\<lparr>co_states := (co_states ?co)[i := st2], co_out := out, co_total := tot, co_ledger := l\<rparr>"
    have scr: "co_scratch ?co = scratch" and lenco: "length (co_states ?co) = length ins" using inv by (simp_all add: stream_inv_def shape_ok_def)
    have guard: "\<not> s < is_next (st_of y i)" "\<not> (case is_batches (st_of y i) of Some b \<Rightarrow> b \<le> s | None \<Rightarrow> False)"
      using fl' ok sl by auto
    have "drain (?co\<lparr>co_states := (co_states ?co)[i := ?st1]\<rparr>) i = Inr ?co2"
      unfolding drain_def using dl scr len by simp
    then have "handle_msg ?co (MsgMember i s (fst (?inp ! s)) (Inr (snd (?inp ! s))))
        = Some (Inr (case close_if_complete ?co2 i of (freed, co) \<Rightarrow> start_next freed co))"
      using guard fl'(3) len by (simp add: handle_msg_def wait_entry_def Let_def split_beta)
    also have "(case close_if_complete ?co2 i of (freed, co) \<Rightarrow> start_next freed co) = sy_co (update_input i ?st ?sl (lg_used l) out tot ?started y)"
      using len nc same(2) lenco l by (subst close_start) (simp_all add: update_input_def newly_complete_def)
    finally show ?thesis .
  qed
  moreover have "is_next ?st + length (is_waiting ?st) = Suc (is_next (st_of y i) + length (is_waiting (st_of y i)))"
    using len2 fl'(3) by (simp add: length_bt_entry)
  ultimately show ?thesis using same(1) by (metis close_state_simps(3))
qed

lemma waiting_range:
  assumes "waiting_ok inp sl st" "k \<in> fst ` set (is_waiting st)"
  shows "is_next st \<le> k" "k < sl"
proof -
  have "bt_get (is_waiting st) k \<noteq> None" using assms(2) by (simp add: map_of_eq_None_iff)
  then show "is_next st \<le> k" "k < sl" using assms(1) by (auto simp: waiting_ok_def dest: spec[of _ k])
qed

lemma waiting_last:
  assumes "waiting_ok inp sl st" "is_waiting st \<noteq> []"
  shows "fst (last (is_waiting st)) < sl"
  using waiting_range(2)[OF assms(1)] assms(2) by simp

lemma handle_done:
  assumes inv: "stream_inv ins cap scratch budget y" and plan: "scratch \<or> cap = 1" and aw: "awaiting y"
    and i: "i < co_started (sy_co y)" and sl: "sy_sealed y i = length (ins ! i)" and b: "is_batches (st_of y i) = None"
  shows "\<exists>st started. handle_msg (sy_co y) (MsgReaderDone i (length (ins ! i)))
        = Some (Inr (sy_co (update_input i st (sy_sealed y i) (lg_used (co_ledger (sy_co y))) (co_out (sy_co y)) (co_total (sy_co y)) started y))) \<and>
      may_update ins cap budget i st (sy_sealed y i) (lg_used (co_ledger (sy_co y))) (co_out (sy_co y)) (co_total (sy_co y)) started y \<and>
      is_batches st \<noteq> None \<and> is_next st = is_next (st_of y i) \<and> is_waiting st = is_waiting (st_of y i)"
proof -
  let ?co = "sy_co y" and ?inp = "ins ! i" and ?h = "co_head (sy_co y)"
  let ?st1 = "(st_of y i)\<lparr>is_batches := Some (length ?inp)\<rparr>"
  have n: "i < length ins" using started_bound[OF inv i] .
  note ok = input_facts(1)[OF inv n] and len = input_facts(2)[OF inv n]
  have w: "waiting_ok ?inp (sy_sealed y i) (st_of y i)" and nc: "\<not> is_complete (st_of y i)" using ok b by (simp_all add: input_ok_def)
  note del = delivered_input[OF inv plan aw i nc]
  let ?st = "close_state (i = ?h) ?st1"
  let ?started = "if newly_complete (st_of y i) ?st \<and> co_started ?co < length ins then co_started ?co + 1 else co_started ?co"
  have "input_ok ?h i ?inp (sy_sealed y i) ?st"
    using ok sl nc del by (intro close_input_ok) (simp_all add: input_ok_def waiting_ok_def)
  moreover have "cap = 1 \<longrightarrow> i \<le> ?h" using one_reader_head[OF _ aw i] inv by auto
  moreover have "lg_used (co_ledger ?co) \<le> max budget (max_credit ins)" using inv by (simp add: stream_inv_def ledger_ok_def)
  ultimately have "may_update ins cap budget i ?st (sy_sealed y i) (lg_used (co_ledger ?co)) (co_out ?co) (co_total ?co) ?started y"
    using i nc output_at[OF inv n] unfolding may_update_def Let_def by simp
  moreover have "handle_msg ?co (MsgReaderDone i (length ?inp))
      = Some (Inr (sy_co (update_input i ?st (sy_sealed y i) (lg_used (co_ledger ?co)) (co_out ?co) (co_total ?co) ?started y)))"
  proof -
    let ?co1 = "?co\<lparr>co_states := (co_states ?co)[i := ?st1]\<rparr>"
    have lenco: "length (co_states ?co) = length ins" using inv by (simp add: stream_inv_def shape_ok_def)
    have "\<not> length ?inp < is_next (st_of y i)" "\<not> (is_waiting (st_of y i) \<noteq> [] \<and> length ?inp \<le> fst (last (is_waiting (st_of y i))))"
      using w waiting_last[OF w] sl by (auto simp: waiting_ok_def)
    then have "handle_msg ?co (MsgReaderDone i (length ?inp))
        = Some (Inr (case close_if_complete ?co1 i of (freed, co) \<Rightarrow> start_next freed co))"
      using b len by (simp add: handle_msg_def Let_def)
    also have "(case close_if_complete ?co1 i of (freed, co) \<Rightarrow> start_next freed co)
        = sy_co (update_input i ?st (sy_sealed y i) (lg_used (co_ledger ?co)) (co_out ?co) (co_total ?co) ?started y)"
      using len nc lenco by (subst close_start) (simp_all add: update_input_def newly_complete_def)
    finally show ?thesis .
  qed
  ultimately show ?thesis by (intro exI[of _ ?st] exI[of _ ?started]) simp
qed

lemma head_is_done:
  assumes inv: "stream_inv ins cap scratch budget y" and h: "co_head (sy_co y) < length ins" and hd: "head_done (sy_co y)"
  shows "is_complete (st_of y (co_head (sy_co y)))" "is_next (st_of y (co_head (sy_co y))) = length (ins ! co_head (sy_co y))"
  using input_facts(1)[OF inv h] hd by (auto simp: input_ok_def head_done_def Let_def)

lemma advance_inv:
  assumes inv: "stream_inv ins cap scratch budget y" and h: "co_head (sy_co y) < length (co_states (sy_co y))" and hd: "head_done (sy_co y)"
  shows "stream_inv ins cap scratch budget (y\<lparr>sy_co := advance_head (sy_co y)\<rparr>)"
proof -
  let ?co = "sy_co y" and ?h = "co_head (sy_co y)" and ?y = "y\<lparr>sy_co := advance_head (sy_co y)\<rparr>"
  have len: "length (co_states ?co) = length ins" using inv by (simp add: stream_inv_def shape_ok_def)
  note fin = head_is_done[OF inv h[unfolded len] hd]
  have st: "st_of ?y j = (if j = Suc ?h \<and> j < length ins then (st_of y j)\<lparr>is_sink := SinkOutput\<rparr> else st_of y j)" for j
    using len by (auto simp: advance_head_def Let_def nth_list_update)
  have same: "length (co_states (sy_co ?y)) = length ins" "co_head (sy_co ?y) = Suc ?h" "co_ledger (sy_co ?y) = co_ledger ?co"
    "co_started (sy_co ?y) = co_started ?co" "co_scratch (sy_co ?y) = co_scratch ?co" "sy_sealed ?y = sy_sealed y"
    using len by (simp_all add: advance_head_def Let_def)
  have nx: "is_next (st_of ?y j) = is_next (st_of y j)" "is_batches (st_of ?y j) = is_batches (st_of y j)"
    "is_complete (st_of ?y j) = is_complete (st_of y j)" for j unfolding st by simp_all
  have comp: "completed ?y = completed y" unfolding completed_def nx same len by simp
  have "?h \<in> completed y" using fin(1) h by (simp add: completed_def)
  then have "{0..<Suc ?h} \<subseteq> completed y" using reader_facts(2)[OF inv] by (auto simp: less_Suc_eq)
  moreover have "completed y \<subseteq> {0..Suc ?h}" if "cap = 1" using reader_facts(3)[OF inv that] by auto
  ultimately have readers: "readers_ok ins cap ?y"
    using reader_facts(1,4)[OF inv] unfolding readers_ok_def comp same nx by blast
  have ledger: "ledger_ok ins budget ?y" using inv unfolding stream_inv_def ledger_ok_def same nx by blast
  have sink: "(case is_sink (st_of y (Suc ?h)) of SinkSpill c \<Rightarrow> c | SinkClosed c \<Rightarrow> c | _ \<Rightarrow> []) = byt (ins ! Suc ?h) (is_next (st_of y (Suc ?h)))"
      "is_changes (st_of y (Suc ?h)) = chg (ins ! Suc ?h) (is_next (st_of y (Suc ?h)))" if "Suc ?h < length ins"
    using input_facts(1)[OF inv that] by (simp_all add: input_ok_def closed_sink_def spill_sink_def)
  have "co_out (sy_co ?y) = co_out ?co @ (if Suc ?h < length ins then byt (ins ! Suc ?h) (is_next (st_of y (Suc ?h))) else [])"
    "co_total (sy_co ?y) = co_total ?co + (if Suc ?h < length ins then chg (ins ! Suc ?h) (is_next (st_of y (Suc ?h))) else 0)"
    using sink len by (simp_all add: advance_head_def Let_def)
  moreover have "done_bytes ins (Suc ?h) = done_bytes ins ?h @ byt (ins ! ?h) (length (ins ! ?h))"
    "done_changes ins (Suc ?h) = done_changes ins ?h + chg (ins ! ?h) (length (ins ! ?h))"
    using h len by (simp_all add: done_bytes_def done_changes_def take_Suc_conv_app_nth)
  ultimately have outp: "output_ok ins ?y"
    using output_at[OF inv h[unfolded len] refl] fin(2) unfolding output_ok_def same nx Let_def by simp
  have "input_ok (Suc ?h) j (ins ! j) (sy_sealed y j) (st_of ?y j)" if "j < length ins" for j
    using input_facts(1)[OF inv that] that unfolding st by (cases "j = Suc ?h") (simp_all add: input_ok_def waiting_ok_def)
  then show ?thesis
    using inv readers ledger outp h len unfolding stream_inv_def shape_ok_def same by auto
qed

lemma step_inv:
  assumes "step ins y y'" "stream_inv ins cap scratch budget y" "scratch \<or> cap = 1"
  shows "stream_inv ins cap scratch budget y'"
  using assms
proof (induction rule: step.induct)
  case (seal i y l)
  then show ?case by (intro seal_inv)
next
  case (member y i s co)
  from handle_member[OF member.prems(1,2) member.hyps(1,2,3)] obtain st used out tot started where
    m: "handle_msg (sy_co y) (MsgMember i s (fst (ins ! i ! s)) (Inr (snd (ins ! i ! s))))
      = Some (Inr (sy_co (update_input i st (sy_sealed y i) used out tot started y)))"
    and may: "may_update ins cap budget i st (sy_sealed y i) used out tot started y" by blast
  have "y\<lparr>sy_co := co\<rparr> = update_input i st (sy_sealed y i) used out tot started y"
    using m member.hyps(4) by simp
  then show ?case using inv_update[OF member.prems(1) may] by simp
next
  case (reader_done y i co)
  from handle_done[OF reader_done.prems(1,2) reader_done.hyps(1-4)] obtain st started where
    m: "handle_msg (sy_co y) (MsgReaderDone i (length (ins ! i))) = Some (Inr (sy_co (update_input i st (sy_sealed y i)
      (lg_used (co_ledger (sy_co y))) (co_out (sy_co y)) (co_total (sy_co y)) started y)))"
    and may: "may_update ins cap budget i st (sy_sealed y i) (lg_used (co_ledger (sy_co y))) (co_out (sy_co y)) (co_total (sy_co y)) started y"
    by blast
  have "y\<lparr>sy_co := co\<rparr> = update_input i st (sy_sealed y i) (lg_used (co_ledger (sy_co y))) (co_out (sy_co y)) (co_total (sy_co y)) started y"
    using m reader_done.hyps(5) by simp
  then show ?case using inv_update[OF reader_done.prems(1) may] by simp
next
  case (advance y)
  then show ?case by (intro advance_inv)
qed

lemma reachable_inv:
  assumes "reachable ins readers scratch budget y" "scratch \<or> reader_cap readers (length ins) = 1"
  shows "stream_inv ins (reader_cap readers (length ins)) scratch budget y"
  using assms by (induction rule: reachable.induct) (auto intro: inv_start step_inv)

section \<open>Work left\<close>

definition input_work :: "Input \<Rightarrow> nat \<Rightarrow> InputState \<Rightarrow> nat" where
  "input_work inp sl st = 2 * (length inp - sl) + (sl - (is_next st + length (is_waiting st))) + (if is_batches st = None then 1 else 0)"

definition work :: "Input list \<Rightarrow> Sys \<Rightarrow> nat" where
  "work ins y = (\<Sum>i<length ins. input_work (ins ! i) (sy_sealed y i) (st_of y i)) + (length ins - co_head (sy_co y))"

lemma work_update:
  assumes "i < length ins" "length (co_states (sy_co y)) = length ins" "input_work (ins ! i) sl st < input_work (ins ! i) (sy_sealed y i) (st_of y i)"
  shows "work ins (update_input i st sl used out tot started y) < work ins y"
proof -
  let ?y = "update_input i st sl used out tot started y"
  have "(\<Sum>j<length ins. input_work (ins ! j) (sy_sealed ?y j) (st_of ?y j)) + input_work (ins ! i) (sy_sealed y i) (st_of y i)
      = (\<Sum>j<length ins. input_work (ins ! j) (sy_sealed y j) (st_of y j)) + input_work (ins ! i) (sy_sealed ?y i) (st_of ?y i)"
    using assms(1) by (rule sum_update) (simp add: update_input_def)
  then show ?thesis using assms by (simp add: work_def update_input_def)
qed

lemma waiting_count:
  assumes "waiting_ok inp sl st"
  shows "is_next st + length (is_waiting st) \<le> sl"
proof -
  have "distinct (map fst (is_waiting st))" using assms by (simp add: waiting_ok_def bt_wf_def strict_sorted_iff)
  then have "length (is_waiting st) = card (fst ` set (is_waiting st))" using distinct_card[of "map fst (is_waiting st)"] by simp
  also have "\<dots> \<le> card {is_next st..<sl}"
    by (intro card_mono subsetI) (simp_all only: finite_atLeastLessThan atLeastLessThan_iff waiting_range[OF assms] simp_thms)
  finally have "length (is_waiting st) \<le> sl - is_next st" by simp
  moreover have "is_next st \<le> sl" using assms by (simp add: waiting_ok_def)
  ultimately show ?thesis by simp
qed

lemma input_count: "input_ok head i inp sl st \<Longrightarrow> is_next st + length (is_waiting st) \<le> sl"
  unfolding input_ok_def by (elim conjE) (rule waiting_count)

lemma step_work:
  assumes "step ins y y'" "stream_inv ins cap scratch budget y" "scratch \<or> cap = 1"
  shows "work ins y' < work ins y"
proof -
  have len: "length (co_states (sy_co y)) = length ins" using assms(2) by (simp add: stream_inv_def shape_ok_def)
  have cnt: "is_next (st_of y i) + length (is_waiting (st_of y i)) \<le> sy_sealed y i" if "i < length ins" for i
    using input_facts(1)[OF assms(2) that] by (rule input_count)
  show ?thesis
    using assms(1)
  proof cases
    case (seal i l)
    have n: "i < length ins" using started_bound[OF assms(2) seal(2)] .
    have l: "l = (co_ledger (sy_co y))\<lparr>lg_used := lg_used l\<rparr>" using seal(4) by (auto simp: acquire_def split: if_splits)
    have "input_work (ins ! i) (sy_sealed y i + 1) (st_of y i) < input_work (ins ! i) (sy_sealed y i) (st_of y i)"
      using seal(3) cnt[OF n] by (simp add: input_work_def)
    note less = work_update[OF n len this, of "lg_used l" "co_out (sy_co y)" "co_total (sy_co y)" "co_started (sy_co y)"]
    have "y' = update_input i (st_of y i) (sy_sealed y i + 1) (lg_used l) (co_out (sy_co y)) (co_total (sy_co y)) (co_started (sy_co y)) y"
      using n len l by (simp add: seal(1) update_self)
    then show ?thesis using less by simp
  next
    case (member i s co)
    from handle_member[OF assms(2,3) member(2-4)] obtain st used out tot started where
      m: "co = sy_co (update_input i st (sy_sealed y i) used out tot started y)" "is_batches st = is_batches (st_of y i)"
        "is_next st + length (is_waiting st) = Suc (is_next (st_of y i) + length (is_waiting (st_of y i)))"
      and may: "may_update ins cap budget i st (sy_sealed y i) used out tot started y"
      using member(5) by auto
    have "is_next st + length (is_waiting st) \<le> sy_sealed y i" using may by (auto simp: may_update_def Let_def intro: input_count)
    then have "input_work (ins ! i) (sy_sealed y i) st < input_work (ins ! i) (sy_sealed y i) (st_of y i)" using m by (simp add: input_work_def)
    from work_update[OF member(3) len this] show ?thesis by (simp add: member(1) m(1))
  next
    case (reader_done i co)
    have n: "i < length ins" using started_bound[OF assms(2) reader_done(3)] .
    from handle_done[OF assms(2,3) reader_done(2-5)] obtain st started where
      m: "co = sy_co (update_input i st (sy_sealed y i) (lg_used (co_ledger (sy_co y))) (co_out (sy_co y)) (co_total (sy_co y)) started y)"
        "is_batches st \<noteq> None" "is_next st = is_next (st_of y i)" "is_waiting st = is_waiting (st_of y i)"
      using reader_done(6) by auto
    then have "input_work (ins ! i) (sy_sealed y i) st < input_work (ins ! i) (sy_sealed y i) (st_of y i)" using reader_done(5) by (simp add: input_work_def)
    from work_update[OF n len this] show ?thesis by (simp add: reader_done(1) m(1))
  next
    case advance
    have "st_of y' j = st_of y j \<or> st_of y' j = (st_of y j)\<lparr>is_sink := SinkOutput\<rparr>" for j
      by (cases "j = Suc (co_head (sy_co y))") (auto simp: advance(1) advance_head_def Let_def nth_list_update)
    then have "input_work inp sl (st_of y' j) = input_work inp sl (st_of y j)" for inp sl j
      by (metis InputState.select_convs(1,2,3) InputState.surjective InputState.update_convs(5) input_work_def)
    then show ?thesis using advance len by (simp add: work_def advance_head_def Let_def)
  qed
qed

section \<open>Progress\<close>

lemma next_in_flight:
  assumes inv: "stream_inv ins cap scratch budget y" and i: "i < length ins" and lt: "is_next (st_of y i) < sy_sealed y i"
  shows "in_flight y i (is_next (st_of y i))"
  using input_facts(1)[OF inv i] lt by (simp add: in_flight_def input_ok_def)

lemma member_moves:
  assumes "stream_inv ins cap scratch budget y" "scratch \<or> cap = 1" "awaiting y" "i < length ins" "in_flight y i s"
  shows "\<exists>y'. step ins y y'"
  using handle_member[OF assms] step.member[OF assms(3-5)] by blast

lemma blocked_reader:
  assumes inv: "stream_inv ins cap scratch budget y" and u: "lg_used (co_ledger (sy_co y)) \<noteq> 0"
  obtains i where "i < length ins" "is_next (st_of y i) < sy_sealed y i"
proof -
  have "\<exists>i < length ins. is_next (st_of y i) < sy_sealed y i"
  proof (rule ccontr)
    assume "\<not> (\<exists>i < length ins. is_next (st_of y i) < sy_sealed y i)"
    then have "cred (ins ! i) (sy_sealed y i) = cred (ins ! i) (is_next (st_of y i))" if "i < length ins" for i
      using that input_count[OF input_facts(1)[OF inv that]] by (metis add_leE le_neq_implies_less)
    then show False using inv u by (simp add: stream_inv_def ledger_ok_def)
  qed
  then show ?thesis using that by blast
qed

lemma inv_progress:
  assumes inv: "stream_inv ins cap scratch budget y" and plan: "scratch \<or> cap = 1" and cap: "1 \<le> cap"
    and h: "co_head (sy_co y) < length ins"
  shows "\<exists>y'. step ins y y'"
proof -
  let ?h = "co_head (sy_co y)"
  have len: "length (co_states (sy_co y)) = length ins" and shape: "\<not> lg_stopped (co_ledger (sy_co y))"
    using inv by (simp_all add: stream_inv_def shape_ok_def)
  show ?thesis
  proof (cases "head_done (sy_co y)")
    case True
    then show ?thesis using h len step.advance[of y] by auto
  next
    case False
    then have aw: "awaiting y" using h len by (simp add: awaiting_def)
    have "?h \<le> card (completed y)" using card_mono[OF _ reader_facts(2)[OF inv]] by (simp add: completed_def)
    then have started: "?h < co_started (sy_co y)" using reader_facts(1)[OF inv] cap h by simp
    note ok = input_facts(1)[OF inv h, unfolded input_ok_def]
    have ge: "is_next (st_of y ?h) \<le> sy_sealed y ?h" using input_count[OF input_facts(1)[OF inv h]] by simp
    consider "is_next (st_of y ?h) < sy_sealed y ?h" | "is_next (st_of y ?h) = sy_sealed y ?h" "sy_sealed y ?h < length (ins ! ?h)"
      | "is_next (st_of y ?h) = sy_sealed y ?h" "sy_sealed y ?h = length (ins ! ?h)"
      using ge ok unfolding waiting_ok_def by linarith
    then show ?thesis
    proof cases
      case 1
      then show ?thesis using member_moves[OF inv plan aw h next_in_flight[OF inv h]] by blast
    next
      case 2
      let ?c = "fst (ins ! ?h ! sy_sealed y ?h)"
      show ?thesis
      proof (cases "lg_used (co_ledger (sy_co y)) = 0")
        case True
        then have "acquire (co_ledger (sy_co y)) ?c = Some (Inr ((co_ledger (sy_co y))\<lparr>lg_used := lg_used (co_ledger (sy_co y)) + ?c\<rparr>))"
          using shape by (simp add: acquire_def)
        then show ?thesis using step.seal[OF started 2(2)] by blast
      next
        case False
        from blocked_reader[OF inv this] obtain i where "i < length ins" "is_next (st_of y i) < sy_sealed y i" .
        then show ?thesis using member_moves[OF inv plan aw _ next_in_flight[OF inv]] by blast
      qed
    next
      case 3
      then have "is_batches (st_of y ?h) = None" using False ok by (auto simp: head_done_def Let_def)
      then show ?thesis using handle_done[OF inv plan aw started 3(2)] step.reader_done[OF aw started 3(2)] by blast
    qed
  qed
qed

section \<open>Properties\<close>

definition open_spills :: "Sys \<Rightarrow> nat set" where
  "open_spills y = {i. i < length (co_states (sy_co y)) \<and> (\<exists>c. is_sink (st_of y i) = SinkSpill c)}"

lemma open_spills_cap:
  assumes inv: "stream_inv ins cap scratch budget y"
  shows "card (open_spills y) \<le> cap"
proof -
  let ?s = "co_started (sy_co y)"
  have len: "length (co_states (sy_co y)) = length ins" using inv by (simp add: stream_inv_def shape_ok_def)
  have comp: "completed y \<subseteq> {..<?s}"
  proof
    fix i
    assume i: "i \<in> completed y"
    then have n: "i < length ins" "is_complete (st_of y i)" by (simp_all add: completed_def len)
    then have "is_batches (st_of y i) \<noteq> None" using input_facts(1)[OF inv n(1)] by (simp add: input_ok_def)
    then show "i \<in> {..<?s}" using reader_facts(4)[OF inv n(1)] by force
  qed
  have "open_spills y \<subseteq> {..<?s} - completed y"
  proof
    fix i
    assume "i \<in> open_spills y"
    then obtain c where n: "i < length ins" and sink: "is_sink (st_of y i) = SinkSpill c" by (auto simp: open_spills_def len)
    note ok = input_facts(1)[OF inv n]
    have nc: "\<not> is_complete (st_of y i)" and "is_next (st_of y i) \<noteq> 0"
      using ok sink by (auto simp: input_ok_def closed_sink_def spill_sink_def split: if_splits)
    then have "sy_sealed y i \<noteq> 0" using input_count[OF ok] by simp
    then have "i < ?s" using reader_facts(4)[OF inv n] by force
    then show "i \<in> {..<?s} - completed y" using nc by (simp add: completed_def)
  qed
  then have "card (open_spills y) \<le> card ({..<?s} - completed y)" by (intro card_mono) auto
  also have "\<dots> = ?s - card (completed y)" using comp finite_subset[OF comp] by (simp add: card_Diff_subset)
  also have "\<dots> \<le> cap" using reader_facts(1)[OF inv] by simp
  finally show ?thesis .
qed

lemma plan_reader:
  assumes "stream_writes_scratch (length ins) p \<longrightarrow> scratch"
  shows "scratch \<or> reader_cap (Parallelism_resolve p auto_workers) (length ins) = 1"
  using assms one_reader by blast

lemma steps_reachable: "(step ins ^^ k) y y' \<Longrightarrow> reachable ins readers scratch budget y \<Longrightarrow> reachable ins readers scratch budget y'"
  by (induction k arbitrary: y') (auto intro: reachable.next_step)

lemma steps_work:
  assumes "(step ins ^^ k) y y'" "reachable ins readers scratch budget y" "scratch \<or> reader_cap readers (length ins) = 1"
  shows "work ins y' + k \<le> work ins y"
  using assms(1)
proof (induction k arbitrary: y')
  case (Suc k)
  then obtain z where z: "(step ins ^^ k) y z" "step ins z y'" by auto
  have "stream_inv ins (reader_cap readers (length ins)) scratch budget z"
    using reachable_inv[OF steps_reachable[OF z(1) assms(2)] assms(3)] .
  from step_work[OF z(2) this assms(3)] show ?case using Suc.IH[OF z(1)] by simp
qed simp

lemma work_start: "work ins (Sys_new ins readers scratch budget) = 2 * length (concat ins) + 2 * length ins"
proof -
  have "(\<Sum>i<length ins. 2 * length (ins ! i)) = 2 * length (concat ins)"
    by (simp add: length_concat sum_list_sum_nth atLeast0LessThan sum_distrib_left[symmetric])
  then show ?thesis by (simp add: work_def input_work_def Sys_new_def Coordinator_new_def sum_Suc)
qed

lemma done_upto:
  "done_bytes ins h = concat (map (\<lambda>b. fst (snd b)) (concat (take h ins)))" "done_changes ins h = (\<Sum>b\<leftarrow>concat (take h ins). snd (snd b))"
proof -
  have "concat (map (\<lambda>inp. byt inp (length inp)) xs) = concat (map (\<lambda>b. fst (snd b)) (concat xs))"
    "sum_list (map (\<lambda>inp. chg inp (length inp)) xs) = (\<Sum>b\<leftarrow>concat xs. snd (snd b))" for xs
    by (induction xs) (simp_all add: byt_def chg_def)
  then show "done_bytes ins h = concat (map (\<lambda>b. fst (snd b)) (concat (take h ins)))" "done_changes ins h = (\<Sum>b\<leftarrow>concat (take h ins). snd (snd b))"
    by (simp_all add: done_bytes_def done_changes_def)
qed

lemma cred_split: "k \<le> m \<Longrightarrow> cred inp m = (\<Sum>b\<leftarrow>drop k (take m inp). fst b) + cred inp k"
proof -
  assume "k \<le> m"
  then have "take m inp = take k inp @ drop k (take m inp)" by (metis append_take_drop_id min.absorb1 take_take)
  then have "sum_list (map fst (take m inp)) = sum_list (map fst (take k inp)) + sum_list (map fst (drop k (take m inp)))"
    by (metis map_append sum_list_append)
  then show ?thesis by (simp add: cred_def)
qed

lemma final_stuck:
  assumes inv: "stream_inv ins cap scratch budget y" and st: "step ins y y'"
  shows "co_head (sy_co y) < length ins"
proof (rule ccontr)
  assume "\<not> co_head (sy_co y) < length ins"
  then have h: "co_head (sy_co y) = length ins" and len: "length (co_states (sy_co y)) = length ins"
    using inv by (auto simp: stream_inv_def shape_ok_def)
  have sealed: "sy_sealed y i = length (ins ! i)" if "i < length ins" for i
  proof -
    have "i \<in> completed y" using reader_facts(2)[OF inv] that h by auto
    then show ?thesis using input_facts(1)[OF inv that] by (auto simp: completed_def input_ok_def)
  qed
  from st show False using sealed h len started_bound[OF inv] by cases (auto simp: awaiting_def)
qed

lemma run_completes:
  assumes "reachable ins readers scratch budget y" "scratch \<or> reader_cap readers (length ins) = 1"
  shows "\<exists>y'. reachable ins readers scratch budget y' \<and> co_head (sy_co y') = length ins"
  using assms(1)
proof (induction "work ins y" arbitrary: y rule: less_induct)
  case less
  have inv: "stream_inv ins (reader_cap readers (length ins)) scratch budget y" using reachable_inv[OF less.prems assms(2)] .
  show ?case
  proof (cases "co_head (sy_co y) < length ins")
    case True
    have "1 \<le> reader_cap readers (length ins)" by (simp add: reader_cap_def)
    from inv_progress[OF inv assms(2) this True] obtain y' where "step ins y y'" by blast
    then show ?thesis using less.hyps[OF step_work[OF _ inv assms(2)]] reachable.next_step[OF less.prems] by blast
  next
    case False
    then have "co_head (sy_co y) = length ins" using inv by (simp add: stream_inv_def shape_ok_def)
    then show ?thesis using less.prems by blast
  qed
qed

definition sample_inputs :: "Input list" where
  "sample_inputs = [[(3, ([7], 2)), (4, ([8], 1))], [(2, ([9], 1))]]"

lemma sample_plan: "stream_writes_scratch (length sample_inputs) Auto \<longrightarrow> True" by simp

text \<open>
  C16: the streaming merge writes every member, in input order and batch order, whatever the order in which
  readers seal and workers finish. When the coordinator's loop ends, the output is the concatenation of all
  members and the count is the sum of their changes. At every moment before, it is that concatenation up to
  the members of the head input not yet written.
\<close>

theorem stream_merge_ordered:
  assumes "stream_writes_scratch (length ins) p \<longrightarrow> scratch"
    and "reachable ins (Parallelism_resolve p auto_workers) scratch budget y"
  shows "(co_head (sy_co y) = length ins \<longrightarrow>
      co_out (sy_co y) = concat (map (\<lambda>b. fst (snd b)) (concat ins)) \<and> co_total (sy_co y) = (\<Sum>b\<leftarrow>concat ins. snd (snd b))) \<and>
    (co_head (sy_co y) < length ins \<longrightarrow>
      co_out (sy_co y) = concat (map (\<lambda>b. fst (snd b)) (concat (take (co_head (sy_co y)) ins)
        @ take (is_next (co_states (sy_co y) ! co_head (sy_co y))) (ins ! co_head (sy_co y)))))"
proof -
  have "stream_inv ins (reader_cap (Parallelism_resolve p auto_workers) (length ins)) scratch budget y"
    using reachable_inv[OF assms(2) plan_reader[OF assms(1)]] .
  then show ?thesis by (auto simp: stream_inv_def output_ok_def done_upto byt_def Let_def)
qed

theorem stream_merge_ordered_witness:
  "\<exists>y. reachable sample_inputs 2 True 5 y \<and> co_head (sy_co y) = 2 \<and> co_out (sy_co y) = [7, 8, 9] \<and> co_total (sy_co y) = 4"
proof -
  obtain y where y: "reachable sample_inputs 2 True 5 y" "co_head (sy_co y) = length sample_inputs"
    using run_completes[OF reachable.start] by blast
  then have "reachable sample_inputs (Parallelism_resolve Auto 2) True 5 y" by (simp add: Parallelism_resolve_def Parallelism_fixed_def)
  from stream_merge_ordered[OF sample_plan this] show ?thesis using y by (intro exI[of _ y]) (simp add: sample_inputs_def)
qed

text \<open>
  C15: the streaming merge never gets stuck. In every reachable state before the last input is written some
  reader, delivery or promotion can move, although readers wait for credit and members wait for earlier ones;
  and the coordinator accepts every message that can arrive: no interleaving makes it report a protocol
  error or spill without a scratch directory, given the one the plan asks for.
\<close>

theorem stream_merge_live:
  assumes "stream_writes_scratch (length ins) p \<longrightarrow> scratch"
    and "reachable ins (Parallelism_resolve p auto_workers) scratch budget y"
  shows "((\<exists>y'. step ins y y') \<longleftrightarrow> co_head (sy_co y) < length ins) \<and>
    (\<forall>i s. awaiting y \<and> i < length ins \<and> in_flight y i s \<longrightarrow>
      (\<exists>co. handle_msg (sy_co y) (MsgMember i s (fst (ins ! i ! s)) (Inr (snd (ins ! i ! s)))) = Some (Inr co))) \<and>
    (\<forall>i. awaiting y \<and> i < co_started (sy_co y) \<and> sy_sealed y i = length (ins ! i) \<and> is_batches (co_states (sy_co y) ! i) = None \<longrightarrow>
      (\<exists>co. handle_msg (sy_co y) (MsgReaderDone i (length (ins ! i))) = Some (Inr co)))"
proof -
  note plan = plan_reader[OF assms(1)]
  have inv: "stream_inv ins (reader_cap (Parallelism_resolve p auto_workers) (length ins)) scratch budget y" using reachable_inv[OF assms(2) plan] .
  have "1 \<le> reader_cap (Parallelism_resolve p auto_workers) (length ins)" by (simp add: reader_cap_def)
  then have "(\<exists>y'. step ins y y') \<longleftrightarrow> co_head (sy_co y) < length ins"
    using inv_progress[OF inv plan] final_stuck[OF inv] by blast
  then show ?thesis using handle_member[OF inv plan] handle_done[OF inv plan] by blast
qed

theorem stream_merge_live_witness:
  "\<exists>y'. step sample_inputs (Sys_new sample_inputs (Parallelism_resolve (Fixed 1) 4) False 5) y'"
proof -
  have "stream_writes_scratch (length sample_inputs) (Fixed 1) \<longrightarrow> False" by (simp add: stream_writes_scratch_def Parallelism_fixed_def)
  from stream_merge_live[OF this reachable.start] show ?thesis
    by (simp add: Sys_new_def Coordinator_new_def sample_inputs_def)
qed

text \<open>
  C17: the streaming merge ends: however readers, workers and the coordinator interleave, a run from the start
  has at most two steps per batch and two per input.
\<close>

theorem stream_merge_ends:
  assumes "stream_writes_scratch (length ins) p \<longrightarrow> scratch"
    and "(step ins ^^ k) (Sys_new ins (Parallelism_resolve p auto_workers) scratch budget) y"
  shows "k \<le> 2 * length (concat ins) + 2 * length ins"
  using steps_work[OF assms(2) reachable.start plan_reader[OF assms(1)]] by (simp add: work_start)

theorem stream_merge_ends_witness:
  "\<exists>y. (step sample_inputs ^^ 1) (Sys_new sample_inputs (Parallelism_resolve Auto 2) True 5) y \<and> (1::nat) \<le> 10"
proof -
  have "reachable sample_inputs (Parallelism_resolve Auto 2) True 5 (Sys_new sample_inputs (Parallelism_resolve Auto 2) True 5)" by (rule reachable.start)
  from reachable_inv[OF this] have "stream_inv sample_inputs (reader_cap (Parallelism_resolve Auto 2) (length sample_inputs)) True 5
    (Sys_new sample_inputs (Parallelism_resolve Auto 2) True 5)" by simp
  from inv_progress[OF this] obtain y where "(step sample_inputs ^^ 1) (Sys_new sample_inputs (Parallelism_resolve Auto 2) True 5) y"
    by (auto simp: reader_cap_def Sys_new_def Coordinator_new_def sample_inputs_def)
  with stream_merge_ends[OF sample_plan this] show ?thesis by (auto simp: sample_inputs_def)
qed

text \<open>
  C18: the streaming merge is bounded. The credit outstanding is what the batches sealed and not yet written
  took, it never exceeds the budget unless one batch alone does, and no more spill files are open than readers
  may run, whatever the number of inputs.
\<close>

theorem stream_merge_bounded:
  assumes "stream_writes_scratch (length ins) p \<longrightarrow> scratch"
    and "reachable ins (Parallelism_resolve p auto_workers) scratch budget y"
  shows "lg_used (co_ledger (sy_co y)) = (\<Sum>i<length ins. \<Sum>b\<leftarrow>drop (is_next (co_states (sy_co y) ! i)) (take (sy_sealed y i) (ins ! i)). fst b) \<and>
    lg_used (co_ledger (sy_co y)) \<le> max budget (max_credit ins) \<and>
    card (open_spills y) \<le> reader_cap (Parallelism_resolve p auto_workers) (length ins)"
proof -
  have inv: "stream_inv ins (reader_cap (Parallelism_resolve p auto_workers) (length ins)) scratch budget y"
    using reachable_inv[OF assms(2) plan_reader[OF assms(1)]] .
  have "cred (ins ! i) (sy_sealed y i) = (\<Sum>b\<leftarrow>drop (is_next (st_of y i)) (take (sy_sealed y i) (ins ! i)). fst b) + cred (ins ! i) (is_next (st_of y i))"
    if "i < length ins" for i
    using input_count[OF input_facts(1)[OF inv that]] by (intro cred_split) simp
  then have "(\<Sum>i<length ins. cred (ins ! i) (sy_sealed y i))
      = (\<Sum>i<length ins. \<Sum>b\<leftarrow>drop (is_next (st_of y i)) (take (sy_sealed y i) (ins ! i)). fst b) + (\<Sum>i<length ins. cred (ins ! i) (is_next (st_of y i)))"
    by (simp add: sum.distrib)
  then show ?thesis using inv open_spills_cap[OF inv] by (simp add: stream_inv_def ledger_ok_def)
qed

theorem stream_merge_bounded_witness:
  "\<exists>y. reachable sample_inputs (Parallelism_resolve Auto 2) True 5 y \<and> co_head (sy_co y) = 2 \<and>
     lg_used (co_ledger (sy_co y)) \<le> 5 \<and> card (open_spills y) \<le> 2"
proof -
  obtain y where y: "reachable sample_inputs (Parallelism_resolve Auto 2) True 5 y" "co_head (sy_co y) = length sample_inputs"
    using run_completes[OF reachable.start] by blast
  from stream_merge_bounded[OF sample_plan y(1)] show ?thesis using y
    by (intro exI[of _ y]) (simp add: sample_inputs_def max_credit_def reader_cap_def Parallelism_resolve_def Parallelism_fixed_def)
qed

end
