(* ===== verification/Merge_Collect.thy ===== *)
theory Merge_Collect
  imports Merge_Stream
begin

text \<open>
  The collecting coordinator of merge-changes (\<open>stream::collect_results\<close>), which \<open>--simplify\<close> and the OSC
  tags-filter run: results of encoded batches arrive in any order and are put in their slots. The messages
  are the list the channel delivers; \<open>None\<close> is an index out of range or a wait for a message that never comes.
\<close>

section \<open>Model\<close>

record 'a CollectState =
  cs_ledger :: Ledger
  cs_slots :: "'a option list list"
  cs_received :: "nat list"
  cs_batches :: "nat option list"
  cs_complete :: nat
  cs_started :: nat

definition CollectState_new :: "nat \<Rightarrow> nat \<Rightarrow> Ledger \<Rightarrow> 'a CollectState" where
  "CollectState_new n readers ledger =
     \<lparr>cs_ledger = ledger, cs_slots = replicate n [], cs_received = replicate n 0, cs_batches = replicate n None, cs_complete = 0,
      cs_started = min (reader_cap readers n) n\<rparr>"

definition protocol :: osc_error where
  "protocol = Internal ''merge-changes input answered out of protocol''"

definition resize_slot :: "nat \<Rightarrow> 'a option list \<Rightarrow> 'a option list" where
  "resize_slot sq slot = (if length slot \<le> sq then slot @ replicate (sq + 1 - length slot) None else slot)"

definition collect_msg :: "nat \<Rightarrow> 'a CollectState \<Rightarrow> 'a Msg \<Rightarrow> (osc_error + 'a CollectState) option" where
  "collect_msg n c msg =
     (case msg of
        MsgMember input sq credit result \<Rightarrow>
          (case result of
             Inl err \<Rightarrow> Some (Inl err)
           | Inr v \<Rightarrow>
               if n \<le> input then None
               else
                 let c = c\<lparr>cs_ledger := release (cs_ledger c) credit\<rparr>;
                     slot = resize_slot sq (cs_slots c ! input) in
                 if slot ! sq \<noteq> None \<or> (case cs_batches c ! input of Some b \<Rightarrow> b \<le> sq | None \<Rightarrow> False) then Some (Inl protocol)
                 else
                   let received = cs_received c ! input + 1 in
                   Some (Inr (c\<lparr>cs_slots := (cs_slots c)[input := slot[sq := Some v]], cs_received := (cs_received c)[input := received],
                     cs_complete := (if cs_batches c ! input = Some received then cs_complete c + 1 else cs_complete c)\<rparr>)))
      | MsgReaderDone input n_batches \<Rightarrow>
          if n \<le> input then None
          else if cs_batches c ! input \<noteq> None \<or> n_batches < cs_received c ! input \<or> n_batches < length (cs_slots c ! input) then Some (Inl protocol)
          else
            Some (Inr (c\<lparr>cs_batches := (cs_batches c)[input := Some n_batches],
              cs_complete := (if cs_received c ! input = n_batches then cs_complete c + 1 else cs_complete c),
              cs_started := (if cs_started c < n then cs_started c + 1 else cs_started c)\<rparr>))
      | MsgReaderFailed err \<Rightarrow> Some (Inl err))"

fun collect_loop :: "nat \<Rightarrow> 'a CollectState \<Rightarrow> 'a Msg list \<Rightarrow> (osc_error + 'a CollectState) option" where
  "collect_loop n c msgs =
     (if n \<le> cs_complete c then Some (Inr c)
      else case msgs of
        [] \<Rightarrow> None
      | m # ms \<Rightarrow> (case collect_msg n c m of Some (Inr c) \<Rightarrow> collect_loop n c ms | r \<Rightarrow> r))"

declare collect_loop.simps [simp del]

definition collect_slot :: "'a option list \<Rightarrow> osc_error + 'a list" where
  "collect_slot slot = (if None \<in> set slot then Inl protocol else Inr (map the slot))"

definition collect_results :: "nat \<Rightarrow> nat \<Rightarrow> Ledger \<Rightarrow> 'a Msg list \<Rightarrow> (osc_error + 'a list list) option" where
  "collect_results n readers ledger msgs =
     map_option (\<lambda>r. bind_sum r (\<lambda>c. try_collect (map collect_slot (cs_slots c)))) (collect_loop n (CollectState_new n readers ledger) msgs)"

section \<open>What arrives\<close>

type_synonym 'a Batches = "(nat \<times> 'a) list"

definition batch_msg :: "'a Batches list \<Rightarrow> nat \<Rightarrow> nat \<Rightarrow> 'a Msg" where
  "batch_msg ins i s = MsgMember i s (fst (ins ! i ! s)) (Inr (snd (ins ! i ! s)))"

definition done_msg :: "'a Batches list \<Rightarrow> nat \<Rightarrow> 'a Msg" where
  "done_msg ins i = MsgReaderDone i (length (ins ! i))"

definition all_msgs :: "'a Batches list \<Rightarrow> 'a Msg set" where
  "all_msgs ins = {batch_msg ins i s |i s. i < length ins \<and> s < length (ins ! i)} \<union> {done_msg ins i |i. i < length ins}"

lemma msg_eq [simp]:
  "batch_msg ins i s = batch_msg ins j t \<longleftrightarrow> i = j \<and> s = t" "done_msg ins i = done_msg ins j \<longleftrightarrow> i = j"
  "batch_msg ins i s \<noteq> done_msg ins j" "done_msg ins j \<noteq> batch_msg ins i s"
  by (auto simp: batch_msg_def done_msg_def)

definition arrived :: "'a Batches list \<Rightarrow> 'a Msg set \<Rightarrow> nat \<Rightarrow> nat set" where
  "arrived ins D i = {s. s < length (ins ! i) \<and> batch_msg ins i s \<in> D}"

lemma arrived_insert:
  "s < length (ins ! i) \<Longrightarrow> arrived ins (insert (batch_msg ins i s) D) i = insert s (arrived ins D i)"
  "j \<noteq> i \<Longrightarrow> arrived ins (insert (batch_msg ins i s) D) j = arrived ins D j"
  "arrived ins (insert (done_msg ins i) D) j = arrived ins D j"
  by (auto simp: arrived_def)

lemma arrived_finite [simp]: "finite (arrived ins D i)"
  by (simp add: arrived_def)

definition slot_ok :: "'a Batches list \<Rightarrow> nat \<Rightarrow> nat set \<Rightarrow> 'a option list \<Rightarrow> nat \<Rightarrow> bool" where
  "slot_ok ins i A slot received \<longleftrightarrow>
     length slot \<le> length (ins ! i) \<and> A \<subseteq> {..<length slot} \<and> received = card A \<and>
     (\<forall>s < length slot. slot ! s = (if s \<in> A then Some (snd (ins ! i ! s)) else None))"

definition collect_inv :: "'a Batches list \<Rightarrow> 'a Msg set \<Rightarrow> 'a CollectState \<Rightarrow> bool" where
  "collect_inv ins D c \<longleftrightarrow>
     length (cs_slots c) = length ins \<and> length (cs_received c) = length ins \<and> length (cs_batches c) = length ins \<and>
     (\<forall>i < length ins. slot_ok ins i (arrived ins D i) (cs_slots c ! i) (cs_received c ! i) \<and>
        cs_batches c ! i = (if done_msg ins i \<in> D then Some (length (ins ! i)) else None)) \<and>
     cs_complete c = card {i. i < length ins \<and> cs_batches c ! i = Some (cs_received c ! i)}"

lemma card_grow:
  fixes n :: nat
  assumes "i < n" "\<not> P i" "\<And>j. j \<noteq> i \<Longrightarrow> Q j = P j"
  shows "card {j. j < n \<and> Q j} = card {j. j < n \<and> P j} + (if Q i then 1 else (0::nat))"
proof -
  have *: "\<forall>j. Q j \<longleftrightarrow> P j \<or> j = i \<and> Q i" using assms(2,3) by metis
  show ?thesis
  proof (cases "Q i")
    case True
    then have "{j. j < n \<and> Q j} = insert i {j. j < n \<and> P j}" using * assms(1) by blast
    then show ?thesis using assms(2) True by simp
  next
    case False
    then have "{j. j < n \<and> Q j} = {j. j < n \<and> P j}" using * by blast
    then show ?thesis using False by simp
  qed
qed

lemma slot_insert:
  assumes ok: "slot_ok ins i A slot received" and s: "s < length (ins ! i)" "s \<notin> A" and fin: "finite A"
  shows "resize_slot s slot ! s = None" "slot_ok ins i (insert s A) ((resize_slot s slot)[s := Some (snd (ins ! i ! s))]) (received + 1)"
proof -
  let ?slot = "resize_slot s slot"
  have len: "length ?slot = max (length slot) (s + 1)" by (simp add: resize_slot_def)
  have old: "?slot ! t = (if t \<in> A then Some (snd (ins ! i ! t)) else None)" if "t < length ?slot" for t
  proof (cases "t < length slot")
    case True
    then show ?thesis using ok by (simp add: resize_slot_def slot_ok_def nth_append)
  next
    case False
    then have "t \<notin> A" using ok by (auto simp: slot_ok_def)
    then show ?thesis using that False by (auto simp: resize_slot_def nth_append split: if_splits)
  qed
  then show "?slot ! s = None" using s(2) len by simp
  have "insert s A \<subseteq> {..<length ?slot}" using ok by (auto simp: len slot_ok_def)
  then show "slot_ok ins i (insert s A) (?slot[s := Some (snd (ins ! i ! s))]) (received + 1)"
    using ok s fin old by (auto simp: slot_ok_def len nth_list_update)
qed

lemma slot_received: "slot_ok ins i (arrived ins D i) slot received \<Longrightarrow> s < length (ins ! i) \<Longrightarrow> s \<notin> arrived ins D i \<Longrightarrow> received < length (ins ! i)"
proof -
  assume "slot_ok ins i (arrived ins D i) slot received" "s < length (ins ! i)" "s \<notin> arrived ins D i"
  then have "received = card (arrived ins D i)" "arrived ins D i \<subset> {..<length (ins ! i)}" by (auto simp: slot_ok_def arrived_def)
  then show ?thesis using psubset_card_mono[of "{..<length (ins ! i)}" "arrived ins D i"] by simp
qed

lemma collect_batch:
  assumes inv: "collect_inv ins D c" and i: "i < length ins" and s: "s < length (ins ! i)" and new: "batch_msg ins i s \<notin> D"
  shows "\<exists>c'. collect_msg (length ins) c (batch_msg ins i s) = Some (Inr c') \<and> collect_inv ins (insert (batch_msg ins i s) D) c'"
proof -
  let ?A = "arrived ins D i" and ?v = "snd (ins ! i ! s)"
  have ok: "slot_ok ins i ?A (cs_slots c ! i) (cs_received c ! i)" and b: "cs_batches c ! i = (if done_msg ins i \<in> D then Some (length (ins ! i)) else None)"
    and len: "length (cs_slots c) = length ins" "length (cs_received c) = length ins" "length (cs_batches c) = length ins"
    using inv i by (simp_all add: collect_inv_def)
  have sA: "s \<notin> ?A" using new by (simp add: arrived_def)
  note ins' = slot_insert[OF ok s sA arrived_finite]
  have guard: "\<not> (case cs_batches c ! i of Some b \<Rightarrow> b \<le> s | None \<Rightarrow> False)" using b s by simp
  define c' where "c' = c\<lparr>cs_ledger := release (cs_ledger c) (fst (ins ! i ! s)),
      cs_slots := (cs_slots c)[i := (resize_slot s (cs_slots c ! i))[s := Some ?v]], cs_received := (cs_received c)[i := cs_received c ! i + 1],
      cs_complete := (if cs_batches c ! i = Some (cs_received c ! i + 1) then cs_complete c + 1 else cs_complete c)\<rparr>"
  have "collect_msg (length ins) c (batch_msg ins i s) = Some (Inr c')"
    using i ins'(1) guard by (simp add: collect_msg_def batch_msg_def Let_def c'_def)
  moreover have "collect_inv ins (insert (batch_msg ins i s) D) c'"
  proof -
    have "cs_batches c ! i \<noteq> Some (cs_received c ! i)" using b slot_received[OF ok s sA] by auto
    then have "card {j. j < length ins \<and> cs_batches c' ! j = Some (cs_received c' ! j)}
        = card {j. j < length ins \<and> cs_batches c ! j = Some (cs_received c ! j)} + (if cs_batches c' ! i = Some (cs_received c' ! i) then 1 else 0)"
      using i by (intro card_grow) (simp_all add: c'_def)
    then have "cs_complete c' = card {j. j < length ins \<and> cs_batches c' ! j = Some (cs_received c' ! j)}"
      using inv i len by (simp add: collect_inv_def c'_def)
    moreover have "slot_ok ins j (arrived ins (insert (batch_msg ins i s) D) j) (cs_slots c' ! j) (cs_received c' ! j) \<and>
        cs_batches c' ! j = (if done_msg ins j \<in> insert (batch_msg ins i s) D then Some (length (ins ! j)) else None)" if "j < length ins" for j
      using inv that ins'(2) len s by (cases "j = i") (simp_all add: collect_inv_def c'_def arrived_insert)
    ultimately show ?thesis using len by (simp add: collect_inv_def c'_def)
  qed
  ultimately show ?thesis by blast
qed

lemma collect_done:
  assumes inv: "collect_inv ins D c" and i: "i < length ins" and new: "done_msg ins i \<notin> D"
  shows "\<exists>c'. collect_msg (length ins) c (done_msg ins i) = Some (Inr c') \<and> collect_inv ins (insert (done_msg ins i) D) c'"
proof -
  have ok: "slot_ok ins i (arrived ins D i) (cs_slots c ! i) (cs_received c ! i)" and b: "cs_batches c ! i = None"
    and len: "length (cs_slots c) = length ins" "length (cs_received c) = length ins" "length (cs_batches c) = length ins"
    using inv i new by (simp_all add: collect_inv_def)
  have "card (arrived ins D i) \<le> length (ins ! i)" using card_mono[of "{..<length (ins ! i)}" "arrived ins D i"] by (auto simp: arrived_def)
  then have guard: "\<not> length (ins ! i) < cs_received c ! i" "\<not> length (ins ! i) < length (cs_slots c ! i)" using ok by (auto simp: slot_ok_def)
  define c' where "c' = c\<lparr>cs_batches := (cs_batches c)[i := Some (length (ins ! i))],
      cs_complete := (if cs_received c ! i = length (ins ! i) then cs_complete c + 1 else cs_complete c),
      cs_started := (if cs_started c < length ins then cs_started c + 1 else cs_started c)\<rparr>"
  have "collect_msg (length ins) c (done_msg ins i) = Some (Inr c')"
    using i b guard by (simp add: collect_msg_def done_msg_def c'_def)
  moreover have "collect_inv ins (insert (done_msg ins i) D) c'"
  proof -
    have "card {j. j < length ins \<and> cs_batches c' ! j = Some (cs_received c' ! j)}
        = card {j. j < length ins \<and> cs_batches c ! j = Some (cs_received c ! j)} + (if cs_batches c' ! i = Some (cs_received c' ! i) then 1 else 0)"
      using i b by (intro card_grow) (simp_all add: c'_def)
    then have "cs_complete c' = card {j. j < length ins \<and> cs_batches c' ! j = Some (cs_received c' ! j)}"
      using inv i len by (auto simp: collect_inv_def c'_def)
    moreover have "slot_ok ins j (arrived ins (insert (done_msg ins i) D) j) (cs_slots c' ! j) (cs_received c' ! j) \<and>
        cs_batches c' ! j = (if done_msg ins j \<in> insert (done_msg ins i) D then Some (length (ins ! j)) else None)" if "j < length ins" for j
      using inv that len by (cases "j = i") (simp_all add: collect_inv_def c'_def arrived_insert)
    ultimately show ?thesis using len by (simp add: collect_inv_def c'_def)
  qed
  ultimately show ?thesis by blast
qed

lemma try_collect_Inr: "try_collect (map Inr xs) = Inr xs"
  by (induction xs) (simp_all add: bind_sum_def)

lemma collect_ready:
  assumes inv: "collect_inv ins D c"
  shows "cs_complete c \<le> length ins" "all_msgs ins \<subseteq> D \<Longrightarrow> cs_complete c = length ins"
    "cs_complete c = length ins \<Longrightarrow> try_collect (map collect_slot (cs_slots c)) = Inr (map (map snd) ins)"
proof -
  let ?C = "{i. i < length ins \<and> cs_batches c ! i = Some (cs_received c ! i)}"
  have c: "cs_complete c = card ?C" and len: "length (cs_slots c) = length ins" using inv by (simp_all add: collect_inv_def)
  have sub: "?C \<subseteq> {..<length ins}" by auto
  show "cs_complete c \<le> length ins" using card_mono[OF _ sub] by (simp add: c)
  have ok: "slot_ok ins i (arrived ins D i) (cs_slots c ! i) (cs_received c ! i)"
      "cs_batches c ! i = (if done_msg ins i \<in> D then Some (length (ins ! i)) else None)" if "i < length ins" for i
    using inv that by (simp_all add: collect_inv_def)
  show "cs_complete c = length ins" if "all_msgs ins \<subseteq> D"
  proof -
    have "arrived ins D i = {..<length (ins ! i)}" "done_msg ins i \<in> D" if "i < length ins" for i
      using \<open>all_msgs ins \<subseteq> D\<close> that by (auto simp: all_msgs_def arrived_def)
    then have "?C = {..<length ins}" using ok by (auto simp: slot_ok_def)
    then show ?thesis by (simp add: c)
  qed
  show "try_collect (map collect_slot (cs_slots c)) = Inr (map (map snd) ins)" if "cs_complete c = length ins"
  proof -
    have C: "?C = {..<length ins}" using card_subset_eq[OF _ sub] that by (simp add: c)
    have "collect_slot (cs_slots c ! i) = Inr (map snd (ins ! i))" if i: "i < length ins" for i
    proof -
      have "i \<in> ?C" using C i by simp
      then have "cs_received c ! i = length (ins ! i)" using ok(2)[OF i] by (simp split: if_splits)
      then have "card (arrived ins D i) = card {..<length (ins ! i)}" using ok(1)[OF i] by (simp add: slot_ok_def)
      then have A: "arrived ins D i = {..<length (ins ! i)}" by (intro card_subset_eq) (auto simp: arrived_def)
      then have "length (cs_slots c ! i) = length (ins ! i)" using ok(1)[OF i] by (auto simp: slot_ok_def)
      then have "cs_slots c ! i = map Some (map snd (ins ! i))" using ok(1)[OF i] A by (intro nth_equalityI) (auto simp: slot_ok_def)
      then show ?thesis by (auto simp: collect_slot_def comp_def)
    qed
    then have "map collect_slot (cs_slots c) = map Inr (map (map snd) ins)" using len by (intro nth_equalityI) auto
    then show ?thesis using try_collect_Inr by metis
  qed
qed

lemma collect_loop_any:
  assumes "collect_inv ins D c" "distinct msgs" "set msgs \<inter> D = {}" "set msgs \<union> D = all_msgs ins"
  shows "\<exists>c' D'. collect_loop (length ins) c msgs = Some (Inr c') \<and> collect_inv ins D' c' \<and> cs_complete c' = length ins"
  using assms
proof (induction msgs arbitrary: c D)
  case Nil
  then have "cs_complete c = length ins" by (intro collect_ready(2)) auto
  then show ?case using Nil.prems(1) by (auto simp: collect_loop.simps)
next
  case (Cons m msgs)
  show ?case
  proof (cases "length ins \<le> cs_complete c")
    case True
    then show ?thesis using Cons.prems(1) collect_ready(1)[OF Cons.prems(1)] by (subst collect_loop.simps) auto
  next
    case False
    have "m \<in> all_msgs ins" "m \<notin> D" using Cons.prems by auto
    then obtain c' where c': "collect_msg (length ins) c m = Some (Inr c')" "collect_inv ins (insert m D) c'"
      using collect_batch[OF Cons.prems(1)] collect_done[OF Cons.prems(1)] unfolding all_msgs_def by blast
    have "\<exists>c'' D'. collect_loop (length ins) c' msgs = Some (Inr c'') \<and> collect_inv ins D' c'' \<and> cs_complete c'' = length ins"
      using Cons.prems by (intro Cons.IH[OF c'(2)]) auto
    then show ?thesis using False c'(1) by (subst collect_loop.simps) simp
  qed
qed

section \<open>Properties\<close>

text \<open>
  C19: the collecting coordinator returns every batch's result, per input in batch order, for every order in
  which the results and the readers' batch counts arrive: it never reports a protocol error, never waits for
  a message that does not come, and loses and repeats nothing.
\<close>

theorem collect_any_order:
  assumes "distinct msgs" "set msgs = all_msgs ins"
  shows "collect_results (length ins) readers ledger msgs = Some (Inr (map (map snd) ins))"
proof -
  have "collect_inv ins {} (CollectState_new (length ins) readers ledger)"
    by (simp add: collect_inv_def CollectState_new_def slot_ok_def arrived_def)
  from collect_loop_any[OF this assms(1)] assms(2) obtain c D where
    "collect_loop (length ins) (CollectState_new (length ins) readers ledger) msgs = Some (Inr c)" "collect_inv ins D c" "cs_complete c = length ins"
    by auto
  then show ?thesis using collect_ready(3) by (simp add: collect_results_def bind_sum_def)
qed

theorem collect_any_order_witness:
  "collect_results 2 1 (Ledger_new 9) [MsgReaderDone 1 1, MsgMember 0 1 4 (Inr ''b''), MsgMember 1 0 2 (Inr ''c''), MsgMember 0 0 3 (Inr ''a''), MsgReaderDone 0 2]
     = Some (Inr [[''a'', ''b''], [''c'']])"
proof -
  let ?ins = "[[(3, ''a''), (4, ''b'')], [(2, ''c'')]]"
  let ?msgs = "[MsgReaderDone 1 1, MsgMember 0 1 4 (Inr ''b''), MsgMember 1 0 2 (Inr ''c''), MsgMember 0 0 3 (Inr ''a''), MsgReaderDone 0 2]"
  have "set ?msgs = all_msgs ?ins"
    by (auto simp: all_msgs_def batch_msg_def done_msg_def less_Suc_eq)
  from collect_any_order[OF _ this, of 1 "Ledger_new 9"] show ?thesis by (simp add: numeral_2_eq_2)
qed

end
