(* ===== verification/Merge_Join.thy ===== *)
theory Merge_Join
  imports Schedule Osm_Id
begin

text \<open>
  The element-level merge join of diff and derive-changes (\<open>osc/merge_join.rs\<close>, \<open>content.rs\<close>), for inputs
  without indexdata. An element is its kind, its ID, the version it claims and its content tokens, a token that
  cannot be resolved being \<open>None\<close>; a block is its elements and the kind its block type names, if one. A source is
  the data blobs still to be read, each decoded or failing. What a sink is given before a failure is not
  modelled, nor are the locations of errors and the reused buffers.
\<close>

section \<open>Elements\<close>

record 'a MergeElement =
  me_kind :: ElementKind
  me_id :: i64
  me_version :: "i32 option"
  me_tokens :: "'a option list"

fun tokens_equal :: "'a option list \<Rightarrow> 'a option list \<Rightarrow> bool" where
  "tokens_equal [] [] = True"
| "tokens_equal (Some x # xs) (Some y # ys) = (x = y \<and> tokens_equal xs ys)"
| "tokens_equal _ _ = False"

definition content_equal :: "'a MergeElement \<Rightarrow> 'a MergeElement \<Rightarrow> bool" where
  "content_equal a b \<longleftrightarrow> me_kind a = me_kind b \<and> tokens_equal (me_tokens a) (me_tokens b)"

record 'a MergeBlock =
  mb_type :: "ElementKind option"
  mb_elements :: "'a MergeElement list"

record 'a BlockRun =
  br_block :: "'a MergeElement list"
  br_skip :: nat
  br_end :: "nat option"
  br_count :: u64

definition run_elements :: "'a BlockRun \<Rightarrow> 'a MergeElement list" where
  "run_elements r = (let rest = drop (br_skip r) (br_block r) in case br_end r of Some e \<Rightarrow> take (e - br_skip r) rest | None \<Rightarrow> rest)"

datatype 'a BlockMergeAction =
    BlobEqual u64
  | BlobOldOnly "'a BlockRun"
  | BlobNewOnly "'a BlockRun"
  | ElementEqual "'a MergeElement"
  | ElementModified "'a MergeElement" "'a MergeElement"
  | ElementOldOnly "'a MergeElement"
  | ElementNewOnly "'a MergeElement"

datatype merge_error =
    BadBlob
  | MixedBlock
  | UnsortedBlock ElementKind ElementKind
  | UnsortedElement ElementKind i64 i64
  | ForeignKind
  | IndexMismatch bool i64 i64
  | MissingIndexdata
  | BlobDisorder OrderViolation
  | Unsplittable ElementKind OsmIdKey nat
  | BadDetail
  | MergeInternal

datatype BlockKinds = KindsEmpty | KindsOne ElementKind | KindsSeveral

fun kinds_found :: "KindSet \<Rightarrow> ElementKind list \<Rightarrow> ElementKind option \<Rightarrow> BlockKinds" where
  "kinds_found ks [] found = (case found of None \<Rightarrow> KindsEmpty | Some k \<Rightarrow> KindsOne k)"
| "kinds_found ks (k # rest) found =
     (if KindSet_has ks k then if found \<noteq> None then KindsSeveral else kinds_found ks rest (Some k) else kinds_found ks rest found)"

definition element_kinds :: "'a MergeBlock \<Rightarrow> BlockKinds" where
  "element_kinds block = kinds_found (block_kinds me_kind (mb_elements block)) [Node, Way, Relation] None"

section \<open>Sources\<close>

record 'a StreamingBlocks =
  sb_reader :: "(merge_error + 'a MergeBlock) list"
  sb_stashed :: "'a MergeBlock option"
  sb_last_element :: "(u8 \<times> OsmIdKey) option"

definition StreamingBlocks_new :: "(merge_error + 'a MergeBlock) list \<Rightarrow> 'a StreamingBlocks" where
  "StreamingBlocks_new blobs = \<lparr>sb_reader = blobs, sb_stashed = None, sb_last_element = None\<rparr>"

definition next_block :: "'a StreamingBlocks \<Rightarrow> merge_error + 'a MergeBlock option \<times> 'a StreamingBlocks" where
  "next_block s =
     (case sb_stashed s of
        Some b \<Rightarrow> Inr (Some b, s\<lparr>sb_stashed := None\<rparr>)
      | None \<Rightarrow>
          (case sb_reader s of
             [] \<Rightarrow> Inr (None, s)
           | Inl err # _ \<Rightarrow> Inl err
           | Inr b # blobs \<Rightarrow> Inr (Some b, s\<lparr>sb_reader := blobs\<rparr>)))"

definition sb_left :: "'a StreamingBlocks \<Rightarrow> (merge_error + 'a MergeBlock) list" where
  "sb_left s = (case sb_stashed s of Some b \<Rightarrow> [Inr b] | None \<Rightarrow> []) @ sb_reader s"

lemma next_block_left:
  "sb_left s = [] \<Longrightarrow> next_block s = Inr (None, s)"
  "sb_left s = Inl err # bs \<Longrightarrow> next_block s = Inl err"
  "sb_left s = Inr b # bs \<Longrightarrow> \<exists>t. next_block s = Inr (Some b, t) \<and> sb_left t = bs \<and> sb_stashed t = None \<and> sb_last_element t = sb_last_element s"
  by (auto simp: next_block_def sb_left_def split: option.splits)

lemma next_block_less: "next_block s = Inr (Some b, t) \<Longrightarrow> length (sb_left t) < length (sb_left s)"
  using next_block_left[of s] by (cases "sb_left s" rule: list.exhaust[case_product sum.exhaust[of "hd (sb_left s)"]]) auto

function skip_kind :: "ElementKind \<Rightarrow> 'a StreamingBlocks \<Rightarrow> merge_error + 'a StreamingBlocks" where
  "skip_kind k s =
     (case next_block s of
        Inl err \<Rightarrow> Inl err
      | Inr (None, s) \<Rightarrow> Inr s
      | Inr (Some block, s) \<Rightarrow>
          (case element_kinds block of
             KindsEmpty \<Rightarrow> skip_kind k s
           | KindsOne k' \<Rightarrow>
               if k' = k then skip_kind k s
               else if k < k' then Inr (s\<lparr>sb_stashed := Some block\<rparr>)
               else Inl (UnsortedBlock k' k)
           | KindsSeveral \<Rightarrow> Inl MixedBlock))"
  by auto
termination by (relation "measure (\<lambda>(k, s). length (sb_left s))") (auto dest: next_block_less)

declare skip_kind.simps [simp del]

function next_phase_block :: "ElementKind \<Rightarrow> 'a StreamingBlocks \<Rightarrow> merge_error + 'a MergeBlock option \<times> 'a StreamingBlocks" where
  "next_phase_block k s =
     (case next_block s of
        Inl err \<Rightarrow> Inl err
      | Inr (None, s) \<Rightarrow> Inr (None, s)
      | Inr (Some block, s) \<Rightarrow>
          if mb_type block = Some k then Inr (Some block, s)
          else
            (case element_kinds block of
               KindsEmpty \<Rightarrow> next_phase_block k s
             | KindsOne k' \<Rightarrow>
                 if k' = k then Inr (Some block, s)
                 else if k < k' then Inr (None, s\<lparr>sb_stashed := Some block\<rparr>)
                 else Inl (UnsortedBlock k' k)
             | KindsSeveral \<Rightarrow> Inl MixedBlock))"
  by auto
termination by (relation "measure (\<lambda>(k, s). length (sb_left s))") (auto dest: next_block_less)

declare next_phase_block.simps [simp del]

definition admit_element :: "ElementKind \<Rightarrow> 'a MergeElement \<Rightarrow> 'a StreamingBlocks \<Rightarrow> merge_error + 'a StreamingBlocks" where
  "admit_element k e s =
     (if me_kind e \<noteq> k then Inl MixedBlock
      else
        let key = osm_id_key (me_id e) in
        case sb_last_element s of
          Some (last_kind, last_key) \<Rightarrow>
            if last_kind = ordinal k \<and> key < last_key then Inl (UnsortedElement k (me_id e) (osm_id_from_key last_key))
            else Inr (s\<lparr>sb_last_element := Some (ordinal k, key)\<rparr>)
        | None \<Rightarrow> Inr (s\<lparr>sb_last_element := Some (ordinal k, key)\<rparr>))"

text \<open>The same over the list of what is left to read.\<close>

fun phase_block :: "ElementKind \<Rightarrow> (merge_error + 'a MergeBlock) list \<Rightarrow> merge_error + 'a MergeBlock option \<times> (merge_error + 'a MergeBlock) list" where
  "phase_block k [] = Inr (None, [])"
| "phase_block k (Inl err # bs) = Inl err"
| "phase_block k (Inr b # bs) =
     (if mb_type b = Some k then Inr (Some b, bs)
      else
        (case element_kinds b of
           KindsEmpty \<Rightarrow> phase_block k bs
         | KindsOne k' \<Rightarrow> if k' = k then Inr (Some b, bs) else if k < k' then Inr (None, Inr b # bs) else Inl (UnsortedBlock k' k)
         | KindsSeveral \<Rightarrow> Inl MixedBlock))"

lemma next_phase_list:
  "case phase_block k (sb_left s) of
     Inl err \<Rightarrow> next_phase_block k s = Inl err
   | Inr (b, bs) \<Rightarrow> \<exists>t. next_phase_block k s = Inr (b, t) \<and> sb_left t = bs \<and> sb_last_element t = sb_last_element s"
proof (induction k "sb_left s" arbitrary: s rule: phase_block.induct)
  case (1 k)
  then show ?case by (subst next_phase_block.simps) (simp add: next_block_left(1)[OF 1[symmetric]] flip: 1)
next
  case (2 k err bs)
  then show ?case by (subst next_phase_block.simps) (simp add: next_block_left(2)[OF 2[symmetric]] flip: 2)
next
  case (3 k b bs)
  obtain t where t: "next_block s = Inr (Some b, t)" "sb_left t = bs" "sb_stashed t = None" "sb_last_element t = sb_last_element s"
    using next_block_left(3)[OF 3(2)[symmetric]] by blast
  show ?case
  proof (cases "mb_type b = Some k")
    case True
    then show ?thesis using t by (subst next_phase_block.simps) (simp flip: 3(2))
  next
    case False
    show ?thesis
    proof (cases "element_kinds b")
      case KindsEmpty
      then have "next_phase_block k s = next_phase_block k t" using t(1) False by (subst next_phase_block.simps) simp
      then show ?thesis using 3(1)[OF False KindsEmpty t(2)[symmetric]] False KindsEmpty t(4) by (auto simp: t(2) simp flip: 3(2) split: sum.splits)
    next
      case (KindsOne k')
      have "sb_left (t\<lparr>sb_stashed := Some b\<rparr>) = Inr b # bs" using t by (simp add: sb_left_def)
      moreover have "next_phase_block k s = (if k' = k then Inr (Some b, t) else if k < k' then Inr (None, t\<lparr>sb_stashed := Some b\<rparr>) else Inl (UnsortedBlock k' k))"
        using t(1) False KindsOne by (subst next_phase_block.simps) simp
      ultimately show ?thesis using t(2,4) False KindsOne by (simp flip: 3(2))
    next
      case KindsSeveral
      then show ?thesis using t False by (subst next_phase_block.simps) (simp flip: 3(2))
    qed
  qed
qed

lemma phase_block_less: "phase_block k bs = Inr (Some b, bs') \<Longrightarrow> length bs' < length bs"
  by (induction k bs rule: phase_block.induct) (auto split: if_splits BlockKinds.splits)

lemma next_phase_less: "next_phase_block k s = Inr (Some b, t) \<Longrightarrow> length (sb_left t) < length (sb_left s)"
  using next_phase_list[of k s] phase_block_less[of k "sb_left s"] by (auto split: sum.splits prod.splits)

text \<open>The macro \<open>pull_head\<close>: the next element of one side, refilling its block as needed.\<close>

function pull_head :: "ElementKind \<Rightarrow> 'a StreamingBlocks \<Rightarrow> 'a MergeElement list \<Rightarrow>
    merge_error + 'a MergeElement option \<times> 'a StreamingBlocks \<times> 'a MergeElement list" where
  "pull_head k s it =
     (case it of
        e # es \<Rightarrow> (case admit_element k e s of Inl err \<Rightarrow> Inl err | Inr s \<Rightarrow> Inr (Some e, s, es))
      | [] \<Rightarrow>
          (case next_phase_block k s of
             Inl err \<Rightarrow> Inl err
           | Inr (None, s) \<Rightarrow> Inr (None, s, [])
           | Inr (Some b, s) \<Rightarrow> pull_head k s (mb_elements b)))"
  by auto
termination by (relation "measure (\<lambda>(k, s, it). length (sb_left s))") (auto dest: next_phase_less)

declare pull_head.simps [simp del]

section \<open>The merge\<close>

record 'a Side =
  sd_src :: "'a StreamingBlocks"
  sd_iter :: "'a MergeElement list"
  sd_head :: "'a MergeElement option"
  sd_ended :: bool

definition Side_new :: "'a StreamingBlocks \<Rightarrow> 'a Side" where
  "Side_new s = \<lparr>sd_src = s, sd_iter = [], sd_head = None, sd_ended = False\<rparr>"

definition refill :: "ElementKind \<Rightarrow> 'a Side \<Rightarrow> merge_error + 'a Side" where
  "refill k sd =
     (if sd_head sd = None \<and> \<not> sd_ended sd
      then case pull_head k (sd_src sd) (sd_iter sd) of
             Inl err \<Rightarrow> Inl err
           | Inr (h, s, it) \<Rightarrow> Inr \<lparr>sd_src = s, sd_iter = it, sd_head = h, sd_ended = (h = None)\<rparr>
      else Inr sd)"

definition matched :: "'a MergeElement \<Rightarrow> 'a MergeElement \<Rightarrow> 'a BlockMergeAction" where
  "matched x y = (if content_equal x y then ElementEqual x else ElementModified x y)"

text \<open>The elements a side has left, for the measure of the loop.\<close>

definition elements_in :: "(merge_error + 'a MergeBlock) list \<Rightarrow> nat" where
  "elements_in bs = (\<Sum>b\<leftarrow>bs. case b of Inl _ \<Rightarrow> 0 | Inr b \<Rightarrow> length (mb_elements b))"

definition side_left :: "'a Side \<Rightarrow> nat" where
  "side_left sd = elements_in (sb_left (sd_src sd)) + length (sd_iter sd) + (if sd_head sd = None then 0 else 1)"

lemma phase_block_elements:
  "phase_block k bs = Inr (b, bs') \<Longrightarrow> elements_in bs' + (case b of Some b \<Rightarrow> length (mb_elements b) | None \<Rightarrow> 0) \<le> elements_in bs"
  by (induction k bs rule: phase_block.induct) (fastforce simp: elements_in_def split: if_splits BlockKinds.splits option.splits)+

lemma admit_left: "admit_element k e s = Inr t \<Longrightarrow> sb_left t = sb_left s"
  by (auto simp: admit_element_def sb_left_def Let_def split: if_splits option.splits prod.splits)

lemma pull_head_elements:
  "pull_head k s it = Inr (h, t, it') \<Longrightarrow>
   elements_in (sb_left t) + length it' + (if h = None then 0 else 1) \<le> elements_in (sb_left s) + length it"
proof (induction k s it rule: pull_head.induct)
  case (1 k s it)
  show ?case
  proof (cases it)
    case Nil
    show ?thesis
    proof (cases "phase_block k (sb_left s)")
      case (Inl err)
      then show ?thesis using 1(2) Nil next_phase_list[of k s] by (simp add: pull_head.simps[of k s])
    next
      case (Inr r)
      obtain b bs where r: "r = (b, bs)" by (cases r)
      obtain u where u: "next_phase_block k s = Inr (b, u)" "sb_left u = bs" using next_phase_list[of k s] Inr r by auto
      note e = phase_block_elements[OF Inr[unfolded r]]
      show ?thesis
      proof (cases b)
        case None
        then show ?thesis using 1(2) Nil u e by (auto simp: pull_head.simps[of k s])
      next
        case (Some block)
        then have "pull_head k u (mb_elements block) = Inr (h, t, it')" using 1(2) Nil u by (simp add: pull_head.simps[of k s])
        from 1(1)[OF Nil u(1) refl Some this] show ?thesis using e u Some by simp
      qed
    qed
  next
    case (Cons e es)
    then show ?thesis using 1(2) admit_left[of k e s] by (auto simp: pull_head.simps[of k s] split: sum.splits)
  qed
qed

lemma refill_left:
  assumes "refill k sd = Inr sd'"
  shows "side_left sd' \<le> side_left sd"
  using assms pull_head_elements[of k "sd_src sd" "sd_iter sd"]
  by (auto simp: refill_def side_left_def split: if_splits sum.splits)

lemma side_take: "sd_head sd \<noteq> None \<Longrightarrow> side_left (sd\<lparr>sd_head := None\<rparr>) < side_left sd"
  by (simp add: side_left_def)

function merge_loop :: "ElementKind \<Rightarrow> 'a Side \<Rightarrow> 'a Side \<Rightarrow> 'a BlockMergeAction list \<Rightarrow>
    merge_error + 'a BlockMergeAction list \<times> 'a StreamingBlocks \<times> 'a StreamingBlocks" where
  "merge_loop k old new acc =
     (case refill k old of
        Inl err \<Rightarrow> Inl err
      | Inr old \<Rightarrow>
          (case refill k new of
             Inl err \<Rightarrow> Inl err
           | Inr new \<Rightarrow>
               let old' = old\<lparr>sd_head := None\<rparr>; new' = new\<lparr>sd_head := None\<rparr> in
               (case (sd_head old, sd_head new) of
                  (None, None) \<Rightarrow> Inr (acc, sd_src old, sd_src new)
                | (Some x, None) \<Rightarrow> merge_loop k old' new (acc @ [ElementOldOnly x])
                | (None, Some y) \<Rightarrow> merge_loop k old new' (acc @ [ElementNewOnly y])
                | (Some x, Some y) \<Rightarrow>
                    (case osm_id_cmp (me_id x) (me_id y) of
                       Less \<Rightarrow> merge_loop k old' new (acc @ [ElementOldOnly x])
                     | Greater \<Rightarrow> merge_loop k old new' (acc @ [ElementNewOnly y])
                     | Equal \<Rightarrow> merge_loop k old' new' (acc @ [matched x y])))))"
  by auto
termination
  by (relation "measure (\<lambda>(k, old, new, acc). side_left old + side_left new)")
    (auto dest!: refill_left simp: side_left_def split: if_splits)

declare merge_loop.simps [simp del]

definition stream_merge_phase :: "ElementKind \<Rightarrow> 'a StreamingBlocks \<Rightarrow> 'a StreamingBlocks \<Rightarrow>
    merge_error + 'a BlockMergeAction list \<times> 'a StreamingBlocks \<times> 'a StreamingBlocks" where
  "stream_merge_phase k old_src new_src = merge_loop k (Side_new old_src) (Side_new new_src) []"

text \<open>The phases of a run: each kind merged when the type filter enables it, passed over otherwise.\<close>

fun run_phases :: "(ElementKind \<times> bool) list \<Rightarrow> 'a StreamingBlocks \<Rightarrow> 'a StreamingBlocks \<Rightarrow> merge_error + (ElementKind \<times> 'a BlockMergeAction list) list" where
  "run_phases [] old_src new_src = Inr []"
| "run_phases ((k, enabled) # rest) old_src new_src =
     (if enabled
      then case stream_merge_phase k old_src new_src of
             Inl err \<Rightarrow> Inl err
           | Inr (acts, old_src, new_src) \<Rightarrow> (case run_phases rest old_src new_src of Inl err \<Rightarrow> Inl err | Inr r \<Rightarrow> Inr ((k, acts) # r))
      else case skip_kind k old_src of
             Inl err \<Rightarrow> Inl err
           | Inr old_src \<Rightarrow> (case skip_kind k new_src of Inl err \<Rightarrow> Inl err | Inr new_src \<Rightarrow> run_phases rest old_src new_src))"

definition diff_element_stream :: "(ElementKind \<Rightarrow> bool) \<Rightarrow> (merge_error + 'a MergeBlock) list \<Rightarrow> (merge_error + 'a MergeBlock) list \<Rightarrow>
    merge_error + (ElementKind \<times> 'a BlockMergeAction list) list" where
  "diff_element_stream enabled old new =
     run_phases (map (\<lambda>k. (k, enabled k)) [Node, Way, Relation]) (StreamingBlocks_new old) (StreamingBlocks_new new)"

section \<open>The reference merge\<close>

text \<open>The merge of two ID-ordered sequences: what each element of either is.\<close>

fun merge_ref :: "'a MergeElement list \<Rightarrow> 'a MergeElement list \<Rightarrow> 'a BlockMergeAction list" where
  "merge_ref [] ys = map ElementNewOnly ys"
| "merge_ref xs [] = map ElementOldOnly xs"
| "merge_ref (x # xs) (y # ys) =
     (if osm_id_key (me_id x) < osm_id_key (me_id y) then ElementOldOnly x # merge_ref xs (y # ys)
      else if osm_id_key (me_id y) < osm_id_key (me_id x) then ElementNewOnly y # merge_ref (x # xs) ys
      else matched x y # merge_ref xs ys)"

lemma merge_ref_Nil [simp]: "merge_ref xs [] = map ElementOldOnly xs"
  by (cases xs) simp_all

lemma cmp_cases:
  "osm_id_cmp a b = (if osm_id_key a < osm_id_key b then Less else if osm_id_key b < osm_id_key a then Greater else Equal)"
  by (auto simp: osm_id_cmp_def cmp_def)

text \<open>What one side delivers in a phase, pulled to its end.\<close>

function pulls :: "ElementKind \<Rightarrow> 'a StreamingBlocks \<Rightarrow> 'a MergeElement list \<Rightarrow> merge_error + 'a MergeElement list \<times> 'a StreamingBlocks" where
  "pulls k s it =
     (case pull_head k s it of
        Inl err \<Rightarrow> Inl err
      | Inr (None, s, it) \<Rightarrow> Inr ([], s)
      | Inr (Some e, s, it) \<Rightarrow> (case pulls k s it of Inl err \<Rightarrow> Inl err | Inr (es, s) \<Rightarrow> Inr (e # es, s)))"
  by auto
termination
  by (relation "measure (\<lambda>(k, s, it). elements_in (sb_left s) + length it)") (auto dest!: pull_head_elements)

declare pulls.simps [simp del]

definition side_pulls :: "ElementKind \<Rightarrow> 'a Side \<Rightarrow> merge_error + 'a MergeElement list \<times> 'a StreamingBlocks" where
  "side_pulls k sd =
     (case sd_head sd of
        Some e \<Rightarrow> (case pulls k (sd_src sd) (sd_iter sd) of Inl err \<Rightarrow> Inl err | Inr (es, s) \<Rightarrow> Inr (e # es, s))
      | None \<Rightarrow> if sd_ended sd then Inr ([], sd_src sd) else pulls k (sd_src sd) (sd_iter sd))"

lemma refill_pulls:
  "refill k sd = Inl err \<Longrightarrow> side_pulls k sd = Inl err"
  "refill k sd = Inr sd' \<Longrightarrow> side_pulls k sd' = side_pulls k sd \<and> (sd_head sd' = None \<longrightarrow> sd_ended sd')"
  by (auto simp: refill_def side_pulls_def pulls.simps[of k "sd_src sd"] split: if_splits sum.splits option.splits)

lemma side_pulls_take:
  "sd_head sd = Some e \<Longrightarrow> \<not> sd_ended sd \<Longrightarrow>
   side_pulls k sd = (case side_pulls k (sd\<lparr>sd_head := None\<rparr>) of Inl err \<Rightarrow> Inl err | Inr (es, s) \<Rightarrow> Inr (e # es, s))"
  by (simp add: side_pulls_def)

definition side_wf :: "'a Side \<Rightarrow> bool" where
  "side_wf sd \<longleftrightarrow> (sd_head sd \<noteq> None \<longrightarrow> \<not> sd_ended sd)"

lemma refill_wf: "refill k sd = Inr sd' \<Longrightarrow> side_wf sd \<Longrightarrow> side_wf sd'"
  by (auto simp: refill_def side_wf_def split: if_splits sum.splits)

lemma side_wf_take [simp]: "side_wf (sd\<lparr>sd_head := None\<rparr>)"
  by (simp add: side_wf_def)

lemma refill_take: "refill k sd = Inr sd' \<Longrightarrow> sd_head sd' = Some e \<Longrightarrow> side_left (sd'\<lparr>sd_head := None\<rparr>) < side_left sd"
  using refill_left[of k sd sd'] side_take[of sd'] by simp

text \<open>One side seen by the loop: its pulls fail, are over, or give a head and the rest.\<close>

lemma side_step:
  assumes "side_wf sd"
  obtains (fail) err where "refill k sd = Inl err" "side_pulls k sd = Inl err"
  | (over) sd' where "refill k sd = Inr sd'" "sd_head sd' = None" "side_pulls k sd = Inr ([], sd_src sd')" "side_pulls k sd' = side_pulls k sd"
      "side_wf sd'" "side_left sd' \<le> side_left sd"
  | (head) sd' e where "refill k sd = Inr sd'" "sd_head sd' = Some e" "side_pulls k sd' = side_pulls k sd" "side_wf sd'" "side_left sd' \<le> side_left sd"
      "side_left (sd'\<lparr>sd_head := None\<rparr>) < side_left sd"
      "side_pulls k sd = (case side_pulls k (sd'\<lparr>sd_head := None\<rparr>) of Inl err \<Rightarrow> Inl err | Inr (es, s) \<Rightarrow> Inr (e # es, s))"
proof (cases "refill k sd")
  case (Inl err)
  then show ?thesis using fail refill_pulls(1) by blast
next
  case (Inr sd')
  note p = refill_pulls(2)[OF Inr] and w = refill_wf[OF Inr assms] and l = refill_left[OF Inr]
  show ?thesis
  proof (cases "sd_head sd'")
    case None
    then have "side_pulls k sd' = Inr ([], sd_src sd')" using p by (simp add: side_pulls_def[of k sd'])
    then have "side_pulls k sd = Inr ([], sd_src sd')" using p by simp
    then show ?thesis using over[OF Inr None] p w l by blast
  next
    case (Some e)
    then have "side_pulls k sd = (case side_pulls k (sd'\<lparr>sd_head := None\<rparr>) of Inl err \<Rightarrow> Inl err | Inr (es, s) \<Rightarrow> Inr (e # es, s))"
      using p w side_pulls_take[of sd' e k] by (simp add: side_wf_def)
    then show ?thesis using head[OF Inr Some] p w l refill_take[OF Inr Some] by blast
  qed
qed

lemma merge_loop_pulls:
  assumes "side_wf old" "side_wf new"
  shows "case (side_pulls k old, side_pulls k new) of
      (Inr (xs, so), Inr (ys, sn)) \<Rightarrow> merge_loop k old new acc = Inr (acc @ merge_ref xs ys, so, sn)
    | _ \<Rightarrow> \<exists>err. merge_loop k old new acc = Inl err"
  using assms
proof (induction "side_left old + side_left new" arbitrary: old new acc rule: less_induct)
  case less
  show ?case
  proof (cases rule: side_step[OF less.prems(1), of k, case_names fail over head])
    case (fail err)
    then show ?thesis by (simp add: merge_loop.simps[of k old])
  next
    case O: (over old')
    show ?thesis
    proof (cases rule: side_step[OF less.prems(2), of k, case_names fail over head])
      case (fail err)
      then show ?thesis using O by (simp add: merge_loop.simps[of k old])
    next
      case (over new')
      then show ?thesis using O by (simp add: merge_loop.simps[of k old] Let_def)
    next
      case (head new' y)
      let ?new = "new'\<lparr>sd_head := None\<rparr>"
      have "side_left old' + side_left ?new < side_left old + side_left new" using O head by simp
      from less.hyps[OF this O(5) side_wf_take, of "acc @ [ElementNewOnly y]"] show ?thesis
        using O head by (auto simp: merge_loop.simps[of k old] Let_def split: sum.splits)
    qed
  next
    case O: (head old' x)
    let ?old = "old'\<lparr>sd_head := None\<rparr>"
    show ?thesis
    proof (cases rule: side_step[OF less.prems(2), of k, case_names fail over head])
      case (fail err)
      then show ?thesis using O by (auto simp: merge_loop.simps[of k old] split: sum.splits)
    next
      case (over new')
      have "side_left ?old + side_left new' < side_left old + side_left new" using O over by simp
      from less.hyps[OF this side_wf_take over(5), of "acc @ [ElementOldOnly x]"] show ?thesis
        using O over by (auto simp: merge_loop.simps[of k old] Let_def split: sum.splits)
    next
      case (head new' y)
      let ?new = "new'\<lparr>sd_head := None\<rparr>"
      have lt: "side_left ?old + side_left new' < side_left old + side_left new" "side_left old' + side_left ?new < side_left old + side_left new"
        "side_left ?old + side_left ?new < side_left old + side_left new" using O head by simp_all
      note IH = less.hyps[OF lt(1) side_wf_take head(4), of "acc @ [ElementOldOnly x]"] less.hyps[OF lt(2) O(4) side_wf_take, of "acc @ [ElementNewOnly y]"]
        less.hyps[OF lt(3) side_wf_take side_wf_take, of "acc @ [matched x y]"]
      have loop: "merge_loop k old new acc =
        (if osm_id_key (me_id x) < osm_id_key (me_id y) then merge_loop k ?old new' (acc @ [ElementOldOnly x])
         else if osm_id_key (me_id y) < osm_id_key (me_id x) then merge_loop k old' ?new (acc @ [ElementNewOnly y])
         else merge_loop k ?old ?new (acc @ [matched x y]))"
        using O head by (simp add: merge_loop.simps[of k old] Let_def cmp_cases)
      show ?thesis
        unfolding loop using IH O(3,7) head(3,7) by (auto split: sum.splits)
    qed
  qed
qed

section \<open>What a phase takes from a file\<close>

text \<open>A source matters only by what is left to read and the last element seen, not by what is stashed.\<close>

definition same_source :: "'a StreamingBlocks \<Rightarrow> 'a StreamingBlocks \<Rightarrow> bool" where
  "same_source s t \<longleftrightarrow> sb_left s = sb_left t \<and> sb_last_element s = sb_last_element t"

lemma next_phase_same:
  "same_source s t \<Longrightarrow> rel_sum (=) (rel_prod (=) same_source) (next_phase_block k s) (next_phase_block k t)"
  using next_phase_list[of k s] next_phase_list[of k t]
  by (fastforce simp: same_source_def split: sum.splits prod.splits)

lemma next_phase_eq:
  "phase_block k (sb_left s) = phase_block k (sb_left t) \<Longrightarrow> sb_last_element s = sb_last_element t \<Longrightarrow>
   rel_sum (=) (rel_prod (=) same_source) (next_phase_block k s) (next_phase_block k t)"
  using next_phase_list[of k s] next_phase_list[of k t]
  by (fastforce simp: same_source_def split: sum.splits prod.splits)

lemma admit_same: "same_source s t \<Longrightarrow> rel_sum (=) same_source (admit_element k e s) (admit_element k e t)"
  by (auto simp: same_source_def admit_element_def sb_left_def Let_def split: option.splits prod.splits)

lemma pull_head_same:
  "same_source s t \<Longrightarrow> rel_sum (=) (rel_prod (=) (rel_prod same_source (=))) (pull_head k s it) (pull_head k t it)"
proof (induction k s it arbitrary: t rule: pull_head.induct)
  case (1 k s it)
  show ?case
  proof (cases it)
    case Nil
    show ?thesis
      using next_phase_same[OF 1(2), of k] 1(1)[OF Nil] Nil
      by (fastforce simp: pull_head.simps[of k s] pull_head.simps[of k t] elim!: rel_sum.cases split: option.splits)
  next
    case (Cons e es)
    then show ?thesis using admit_same[OF 1(2), of k e]
      by (auto simp: pull_head.simps[of k s] pull_head.simps[of k t] elim!: rel_sum.cases)
  qed
qed

lemma pulls_same:
  "same_source s t \<Longrightarrow> rel_sum (=) (rel_prod (=) same_source) (pulls k s it) (pulls k t it)"
proof (induction k s it arbitrary: t rule: pulls.induct)
  case (1 k s it)
  show ?case
    using pull_head_same[OF 1(2), of k it]
  proof (cases rule: rel_sum.cases)
    case (1 err err')
    then show ?thesis by (simp add: pulls.simps[of k s] pulls.simps[of k t])
  next
    case (2 r r')
    obtain h s' it' where r: "r = (h, s', it')" by (cases r)
    then obtain t' where r': "r' = (h, t', it')" "same_source s' t'" using 2 by (cases r') auto
    show ?thesis
    proof (cases h)
      case None
      then show ?thesis using 2 r r' by (simp add: pulls.simps[of k s] pulls.simps[of k t])
    next
      case (Some e)
      from "1.IH"[OF 2(1)[unfolded r Some] refl refl refl r'(2)] show ?thesis
        using 2 r r' Some by (auto simp: pulls.simps[of k s] pulls.simps[of k t] elim!: rel_sum.cases)
    qed
  qed
qed

lemma pulls_eq:
  assumes "phase_block k (sb_left s) = phase_block k (sb_left t)" "sb_last_element s = sb_last_element t"
  shows "rel_sum (=) (rel_prod (=) same_source) (pulls k s []) (pulls k t [])"
  using next_phase_eq[OF assms]
proof (cases rule: rel_sum.cases)
  case (1 err err')
  then show ?thesis by (simp add: pulls.simps[of k s] pulls.simps[of k t] pull_head.simps[of k s] pull_head.simps[of k t])
next
  case (2 r r')
  then obtain h s' t' where r: "r = (h, s')" "r' = (h, t')" "same_source s' t'" by (cases r; cases r') auto
  show ?thesis
  proof (cases h)
    case None
    then show ?thesis using 2 r by (simp add: pulls.simps[of k s] pulls.simps[of k t] pull_head.simps[of k s] pull_head.simps[of k t])
  next
    case (Some b)
    have "pulls k s [] = pulls k s' (mb_elements b)" "pulls k t [] = pulls k t' (mb_elements b)"
      using 2 r Some by (simp_all add: pulls.simps pull_head.simps[of k s] pull_head.simps[of k t])
    then show ?thesis using pulls_same[OF r(3)] by simp
  qed
qed

definition phase_ok :: "ElementKind \<Rightarrow> 'a MergeBlock \<Rightarrow> bool" where
  "phase_ok k b \<longleftrightarrow> (\<forall>e \<in> set (mb_elements b). me_kind e = k)"

definition later :: "ElementKind \<Rightarrow> 'a MergeBlock \<Rightarrow> bool" where
  "later k b \<longleftrightarrow> mb_elements b \<noteq> [] \<and> (\<exists>k'. k < k' \<and> phase_ok k' b)"

text \<open>A block type names a kind the block holds, unless the block is empty.\<close>

definition type_ok :: "'a MergeBlock \<Rightarrow> bool" where
  "type_ok b \<longleftrightarrow> (\<forall>k. mb_type b = Some k \<longrightarrow> mb_elements b = [] \<or> k \<in> me_kind ` set (mb_elements b))"

lemma element_kinds_eq:
  "element_kinds b = KindsEmpty \<longleftrightarrow> mb_elements b = []"
  "element_kinds b = KindsOne k \<longleftrightarrow> mb_elements b \<noteq> [] \<and> phase_ok k b"
  "element_kinds b = KindsSeveral \<longleftrightarrow> mb_elements b \<noteq> [] \<and> (\<forall>k. \<not> phase_ok k b)"
proof -
  let ?K = "me_kind ` set (mb_elements b)"
  have has: "KindSet_has (block_kinds me_kind (mb_elements b)) j \<longleftrightarrow> j \<in> ?K" for j
    using block_kinds_eq[of me_kind "mb_elements b"] by (auto simp: kinds_def)
  have every: "(\<forall>j. P j) \<longleftrightarrow> P Node \<and> P Way \<and> P Relation" for P by (metis ElementKind.exhaust)
  have ok: "phase_ok j b \<longleftrightarrow> (\<forall>i. i \<in> ?K \<longrightarrow> i = j)" for j by (auto simp: phase_ok_def)
  have "?K = {} \<longleftrightarrow> (\<forall>i. i \<notin> ?K)" by (simp only: set_eq_iff empty_iff simp_thms)
  then have emp: "mb_elements b = [] \<longleftrightarrow> Node \<notin> ?K \<and> Way \<notin> ?K \<and> Relation \<notin> ?K" unfolding every by simp
  have ek: "element_kinds b = (if Node \<in> ?K then if Way \<in> ?K \<or> Relation \<in> ?K then KindsSeveral else KindsOne Node
      else if Way \<in> ?K then if Relation \<in> ?K then KindsSeveral else KindsOne Way else if Relation \<in> ?K then KindsOne Relation else KindsEmpty)"
    by (simp add: element_kinds_def has)
  show "element_kinds b = KindsEmpty \<longleftrightarrow> mb_elements b = []" unfolding ek emp by simp
  show "element_kinds b = KindsOne k \<longleftrightarrow> mb_elements b \<noteq> [] \<and> phase_ok k b" unfolding ek emp ok every by (cases k) simp_all
  show "element_kinds b = KindsSeveral \<longleftrightarrow> mb_elements b \<noteq> [] \<and> (\<forall>k. \<not> phase_ok k b)" unfolding ek emp ok every by simp
qed

abbreviation elem_key :: "'a MergeElement \<Rightarrow> OsmIdKey" where
  "elem_key e \<equiv> osm_id_key (me_id e)"

definition follows :: "ElementKind \<Rightarrow> (u8 \<times> OsmIdKey) option \<Rightarrow> 'a MergeElement list \<Rightarrow> bool" where
  "follows k l es \<longleftrightarrow> sorted (map elem_key es) \<and> (case l of Some (ord, key) \<Rightarrow> ord = ordinal k \<longrightarrow> (\<forall>e \<in> set es. key \<le> elem_key e) | None \<Rightarrow> True)"

definition seen :: "ElementKind \<Rightarrow> (u8 \<times> OsmIdKey) option \<Rightarrow> 'a MergeElement list \<Rightarrow> (u8 \<times> OsmIdKey) option" where
  "seen k l es = (if es = [] then l else Some (ordinal k, elem_key (last es)))"

lemma follows_Cons: "follows k l (e # es) \<longleftrightarrow> follows k l [e] \<and> follows k (Some (ordinal k, elem_key e)) es"
  by (auto simp: follows_def split: option.splits)

lemma seen_Cons: "seen k l (e # es) = seen k (Some (ordinal k, elem_key e)) es"
  by (simp add: seen_def)

lemma seen_append: "seen k l (xs @ ys) = seen k (seen k l xs) ys"
  by (simp add: seen_def)

lemma follows_append: "follows k l (xs @ ys) \<longleftrightarrow> follows k l xs \<and> follows k (seen k l xs) ys"
proof (induction xs arbitrary: l)
  case Nil
  then show ?case by (simp add: seen_def) (simp add: follows_def split: option.splits)
next
  case (Cons x xs)
  then show ?case using follows_Cons[of k l x "xs @ ys"] follows_Cons[of k l x xs] by (simp add: seen_Cons)
qed

lemma admit_follows:
  "admit_element k e s = (if me_kind e = k \<and> follows k (sb_last_element s) [e] then Inr (s\<lparr>sb_last_element := Some (ordinal k, elem_key e)\<rparr>)
     else admit_element k e s) \<and> (\<not> (me_kind e = k \<and> follows k (sb_last_element s) [e]) \<longrightarrow> (\<exists>err. admit_element k e s = Inl err))"
  by (auto simp: admit_element_def follows_def Let_def not_less split: option.splits)

text \<open>The elements of a block taken by the phase, in order.\<close>

lemma pulls_block:
  "if (\<forall>e \<in> set es. me_kind e = k) \<and> follows k (sb_last_element s) es
   then pulls k s es = (case pulls k (s\<lparr>sb_last_element := seen k (sb_last_element s) es\<rparr>) [] of Inl err \<Rightarrow> Inl err | Inr (xs, t) \<Rightarrow> Inr (es @ xs, t))
   else \<exists>err. pulls k s es = Inl err"
proof (induction es arbitrary: s)
  case Nil
  then show ?case by (auto simp: seen_def follows_def split: sum.splits option.splits)
next
  case (Cons e es)
  let ?s = "s\<lparr>sb_last_element := Some (ordinal k, elem_key e)\<rparr>"
  show ?case
  proof (cases "me_kind e = k \<and> follows k (sb_last_element s) [e]")
    case True
    then have "pull_head k s (e # es) = Inr (Some e, ?s, es)" using admit_follows[of k e s] by (simp add: pull_head.simps)
    then have "pulls k s (e # es) = (case pulls k ?s es of Inl err \<Rightarrow> Inl err | Inr (xs, t) \<Rightarrow> Inr (e # xs, t))" by (simp add: pulls.simps[of k s])
    then show ?thesis using Cons.IH[of ?s] True follows_Cons[of k "sb_last_element s" e es] by (auto simp: seen_Cons split: sum.splits if_splits)
  next
    case False
    then obtain err where "admit_element k e s = Inl err" using admit_follows[of k e s] by blast
    then show ?thesis using False follows_Cons[of k "sb_last_element s" e es] by (auto simp: pulls.simps[of k s] pull_head.simps[of k s])
  qed
qed

text \<open>A phase over a list of blocks.\<close>

fun phase_list :: "ElementKind \<Rightarrow> (u8 \<times> OsmIdKey) option \<Rightarrow> 'a MergeBlock list \<Rightarrow> ('a MergeElement list \<times> (u8 \<times> OsmIdKey) option \<times> 'a MergeBlock list) option" where
  "phase_list k l [] = Some ([], l, [])"
| "phase_list k l (b # bs) =
     (if phase_ok k b
      then if follows k l (mb_elements b) then map_option (\<lambda>(es, r). (mb_elements b @ es, r)) (phase_list k (seen k l (mb_elements b)) bs) else None
      else if later k b then Some ([], l, b # bs) else None)"

lemma phase_pulls:
  assumes "sb_left s = map Inr bs" "\<forall>b \<in> set bs. type_ok b"
  shows "case phase_list k (sb_last_element s) bs of
      None \<Rightarrow> \<exists>err. pulls k s [] = Inl err
    | Some (es, l, bs') \<Rightarrow> \<exists>t. pulls k s [] = Inr (es, t) \<and> sb_left t = map Inr bs' \<and> sb_last_element t = l"
  using assms
proof (induction bs arbitrary: s)
  case Nil
  obtain t where "next_phase_block k s = Inr (None, t)" "sb_left t = []" "sb_last_element t = sb_last_element s"
    using next_phase_list[of k s] Nil by auto
  then show ?case by (simp add: pulls.simps[of k s] pull_head.simps[of k s])
next
  case (Cons b bs)
  define u where "u = s\<lparr>sb_stashed := None, sb_reader := map Inr bs\<rparr>"
  have u: "sb_left u = map Inr bs" "sb_last_element u = sb_last_element s" by (simp_all add: u_def sb_left_def)
  have list: "phase_block k (sb_left s) = phase_block k (Inr b # map Inr bs)" using Cons.prems(1) by simp
  consider (taken) "mb_type b = Some k \<or> mb_elements b \<noteq> [] \<and> phase_ok k b" | (empty) "mb_type b \<noteq> Some k" "mb_elements b = []"
    | (later) "mb_type b \<noteq> Some k" "later k b" | (bad) "mb_type b \<noteq> Some k" "\<not> phase_ok k b" "\<not> later k b"
    by (auto simp: phase_ok_def)
  then show ?case
  proof cases
    case taken
    then have "phase_block k (sb_left s) = Inr (Some b, map Inr bs)" using list element_kinds_eq(2)[of b k] by auto
    then obtain t where t: "next_phase_block k s = Inr (Some b, t)" "sb_left t = map Inr bs" "sb_last_element t = sb_last_element s"
      using next_phase_list[of k s] by auto
    then have p: "pulls k s [] = pulls k t (mb_elements b)" by (simp add: pulls.simps pull_head.simps[of k s])
    show ?thesis
    proof (cases "phase_ok k b \<and> follows k (sb_last_element s) (mb_elements b)")
      case True
      let ?t = "t\<lparr>sb_last_element := seen k (sb_last_element s) (mb_elements b)\<rparr>"
      have "pulls k s [] = (case pulls k ?t [] of Inl err \<Rightarrow> Inl err | Inr (xs, t) \<Rightarrow> Inr (mb_elements b @ xs, t))"
        using True pulls_block[of "mb_elements b" k t] t(3) p by (simp add: phase_ok_def)
      moreover have "sb_left ?t = map Inr bs" using t(2) by (simp add: sb_left_def)
      ultimately show ?thesis using Cons.IH[of ?t] Cons.prems(2) True by (auto split: option.splits)
    next
      case False
      then obtain err where err: "pulls k s [] = Inl err" using pulls_block[of "mb_elements b" k t] t(3) p by (auto simp: phase_ok_def split: if_splits)
      have "\<not> later k b" if "\<not> phase_ok k b"
      proof
        assume "later k b"
        then obtain k' where k': "k < k'" "mb_elements b \<noteq> []" "phase_ok k' b" by (auto simp: later_def)
        have "k \<in> me_kind ` set (mb_elements b)" using taken that k'(2) Cons.prems(2) by (auto simp: type_ok_def)
        then show False using k'(1,3) by (auto simp: phase_ok_def)
      qed
      then show ?thesis using err False by auto
    qed
  next
    case empty
    then have "phase_block k (sb_left s) = phase_block k (sb_left u)" using list u element_kinds_eq(1)[of b] by simp
    from pulls_eq[OF this u(2)[symmetric]] show ?thesis
      using Cons.IH[OF u(1)] Cons.prems(2) empty u(2)
      by (auto simp: phase_ok_def follows_def seen_def same_source_def elim!: rel_sum.cases split: option.splits)
  next
    case later
    then obtain k' where k': "k < k'" "mb_elements b \<noteq> []" "phase_ok k' b" by (auto simp: later_def)
    then have nk: "\<not> phase_ok k b" unfolding phase_ok_def by (metis last_in_set less_irrefl)
    have "phase_block k (sb_left s) = Inr (None, Inr b # map Inr bs)" using list later k' element_kinds_eq(2)[of b k'] by simp
    then obtain t where "next_phase_block k s = Inr (None, t)" "sb_left t = Inr b # map Inr bs" "sb_last_element t = sb_last_element s"
      using next_phase_list[of k s] by auto
    then show ?thesis using later nk by (simp add: pulls.simps[of k s] pull_head.simps[of k s])
  next
    case bad
    have "\<exists>err. phase_block k (sb_left s) = Inl err"
    proof (cases "element_kinds b")
      case KindsEmpty
      then show ?thesis using bad element_kinds_eq(1)[of b] by (simp add: phase_ok_def)
    next
      case (KindsOne k')
      then have "\<not> k < k'" "k' \<noteq> k" using bad element_kinds_eq(2)[of b k'] by (auto simp: later_def)
      then show ?thesis using bad KindsOne list by simp
    next
      case KindsSeveral
      then show ?thesis using bad list by simp
    qed
    then show ?thesis using next_phase_list[of k s] bad by (auto simp: pulls.simps[of k s] pull_head.simps[of k s])
  qed
qed

section \<open>The phases of a file\<close>

lemma skip_list:
  assumes "sb_left s = map Inr bs"
  shows "case dropWhile (phase_ok k) bs of
      [] \<Rightarrow> \<exists>t. skip_kind k s = Inr t \<and> sb_left t = [] \<and> sb_last_element t = sb_last_element s
    | b # bs' \<Rightarrow> if later k b then \<exists>t. skip_kind k s = Inr t \<and> sb_left t = map Inr (b # bs') \<and> sb_last_element t = sb_last_element s
        else \<exists>err. skip_kind k s = Inl err"
  using assms
proof (induction bs arbitrary: s)
  case Nil
  then show ?case using next_block_left(1)[of s] by (simp add: skip_kind.simps[of k s])
next
  case (Cons b bs)
  then obtain t where t: "next_block s = Inr (Some b, t)" "sb_left t = map Inr bs" "sb_stashed t = None" "sb_last_element t = sb_last_element s"
    using next_block_left(3)[of s b "map Inr bs"] by auto
  show ?case
  proof (cases "phase_ok k b")
    case True
    then have "element_kinds b = KindsEmpty \<or> element_kinds b = KindsOne k" using element_kinds_eq(1,2)[of b] by blast
    then have same: "skip_kind k s = skip_kind k t" using t(1) by (subst skip_kind.simps) auto
    have "dropWhile (phase_ok k) (b # bs) = dropWhile (phase_ok k) bs" using True by simp
    then show ?thesis using Cons.IH[OF t(2)] unfolding same t(4) by (simp only:)
  next
    case False
    have left: "sb_left (t\<lparr>sb_stashed := Some b\<rparr>) = Inr b # map Inr bs" using t by (simp add: sb_left_def)
    show ?thesis
    proof (cases "element_kinds b")
      case KindsEmpty
      then show ?thesis using False element_kinds_eq(1)[of b] by (simp add: phase_ok_def)
    next
      case (KindsOne k')
      then have k': "mb_elements b \<noteq> []" "phase_ok k' b" "k' \<noteq> k" using element_kinds_eq(2)[of b k'] False by auto
      have "later k b \<longleftrightarrow> k < k'"
      proof
        assume "later k b"
        then obtain j where "k < j" "phase_ok j b" by (auto simp: later_def)
        moreover have "j = k'" using \<open>phase_ok j b\<close> k'(1,2) unfolding phase_ok_def by (metis last_in_set)
        ultimately show "k < k'" by simp
      qed (use k' in \<open>auto simp: later_def\<close>)
      then show ?thesis using t KindsOne k'(3) False left by (auto simp: skip_kind.simps[of k s])
    next
      case KindsSeveral
      then have "\<not> later k b" using element_kinds_eq(3)[of b] by (auto simp: later_def)
      then show ?thesis using t(1) KindsSeveral False by (simp add: skip_kind.simps[of k s])
    qed
  qed
qed

lemma phase_list_eq:
  "phase_list k l bs =
     (let pre = takeWhile (phase_ok k) bs; post = dropWhile (phase_ok k) bs; es = concat (map mb_elements pre) in
      if follows k l es \<and> (post = [] \<or> later k (hd post)) then Some (es, seen k l es, post) else None)"
proof (induction bs arbitrary: l)
  case Nil
  then show ?case by (auto simp: seen_def follows_def split: option.splits)
next
  case (Cons b bs)
  have "follows k l []" by (auto simp: follows_def split: option.splits)
  then show ?case using Cons.IH[of "seen k l (mb_elements b)"] by (auto simp: Let_def follows_append seen_append) (auto simp: seen_def)
qed

definition elements_of :: "ElementKind \<Rightarrow> 'a MergeBlock list \<Rightarrow> 'a MergeElement list" where
  "elements_of k bs = filter (\<lambda>e. me_kind e = k) (concat (map mb_elements bs))"

text \<open>The layout \<open>Sort.Type_then_ID\<close> asks for: blocks of nodes, then of ways, then of relations, and the elements of the enabled kinds in ID order.\<close>

definition layered :: "'a MergeBlock list \<Rightarrow> bool" where
  "layered bs \<longleftrightarrow> (\<exists>ns ws rs. bs = ns @ ws @ rs \<and> list_all (phase_ok Node) ns \<and> list_all (phase_ok Way) ws \<and> list_all (phase_ok Relation) rs)"

definition ordered :: "(ElementKind \<Rightarrow> bool) \<Rightarrow> 'a MergeBlock list \<Rightarrow> bool" where
  "ordered enabled bs \<longleftrightarrow> (\<forall>k. enabled k \<longrightarrow> sorted (map elem_key (elements_of k bs)))"

text \<open>What is left after passing the blocks of a kind, when the next one is of a later kind.\<close>

definition pass :: "ElementKind \<Rightarrow> 'a MergeBlock list \<Rightarrow> 'a MergeBlock list option" where
  "pass k bs = (let post = dropWhile (phase_ok k) bs in if post = [] \<or> later k (hd post) then Some post else None)"

definition taken_by :: "ElementKind \<Rightarrow> 'a MergeBlock list \<Rightarrow> 'a MergeElement list" where
  "taken_by k bs = concat (map mb_elements (takeWhile (phase_ok k) bs))"

lemma phase_list_pass:
  "phase_list k l bs = (if follows k l (taken_by k bs) then map_option (\<lambda>post. (taken_by k bs, seen k l (taken_by k bs), post)) (pass k bs) else None)"
  by (auto simp: phase_list_eq pass_def taken_by_def Let_def)

lemma skip_pass:
  assumes "sb_left s = map Inr bs"
  shows "case pass k bs of
      Some post \<Rightarrow> \<exists>t. skip_kind k s = Inr t \<and> sb_left t = map Inr post \<and> sb_last_element t = sb_last_element s
    | None \<Rightarrow> \<exists>err. skip_kind k s = Inl err"
  using skip_list[OF assms, of k] by (cases "dropWhile (phase_ok k) bs") (auto simp: pass_def Let_def simp del: dropWhile_eq_Nil_conv)

lemma pass_layer:
  assumes "list_all (phase_ok k) as" "\<forall>b \<in> set bs. \<exists>k' > k. phase_ok k' b"
  shows "pass k (as @ bs) = Some (dropWhile (phase_ok k) bs)"
proof -
  have drop: "dropWhile (phase_ok k) (as @ bs) = dropWhile (phase_ok k) bs" using assms(1) by (simp add: dropWhile_append2 list_all_iff)
  have "later k (hd (dropWhile (phase_ok k) bs))" if ne: "dropWhile (phase_ok k) bs \<noteq> []"
  proof -
    let ?b = "hd (dropWhile (phase_ok k) bs)"
    have "?b \<in> set bs" using hd_in_set[OF ne] by (rule set_dropWhileD)
    then obtain k' where "k < k'" "phase_ok k' ?b" using assms(2) by blast
    moreover have "mb_elements ?b \<noteq> []" using hd_dropWhile[OF ne] by (auto simp: phase_ok_def)
    ultimately show ?thesis by (auto simp: later_def)
  qed
  then show ?thesis unfolding pass_def Let_def drop by presburger
qed

lemma pass_split: "pass k bs = Some post \<Longrightarrow> bs = takeWhile (phase_ok k) bs @ post"
  by (auto simp: pass_def Let_def split: if_splits)

lemma layered_passes:
  "layered bs \<longleftrightarrow> (\<exists>bs1 bs2. pass Node bs = Some bs1 \<and> pass Way bs1 = Some bs2 \<and> pass Relation bs2 = Some [])"
proof
  assume "layered bs"
  then obtain ns ws rs where bs: "bs = ns @ ws @ rs" and ok: "list_all (phase_ok Node) ns" "list_all (phase_ok Way) ws" "list_all (phase_ok Relation) rs"
    by (auto simp: layered_def)
  have lt: "Node < Way" "Node < Relation" "Way < Relation" by (simp_all add: less_ElementKind_def)
  have "\<forall>b \<in> set (ws @ rs). \<exists>k' > Node. phase_ok k' b" using ok lt unfolding list_all_iff by (metis Un_iff set_append)
  then have 1: "pass Node bs = Some (dropWhile (phase_ok Node) (ws @ rs))" unfolding bs using ok(1) by (intro pass_layer)
  obtain ws' rs' where 2: "dropWhile (phase_ok Node) (ws @ rs) = ws' @ rs'" "list_all (phase_ok Way) ws'" "list_all (phase_ok Relation) rs'"
  proof (cases "\<forall>b \<in> set ws. phase_ok Node b")
    case True
    then show ?thesis using that[of "[]" "dropWhile (phase_ok Node) rs"] ok(3) by (auto simp: dropWhile_append2 list_all_iff dest: set_dropWhileD)
  next
    case False
    then obtain b where "b \<in> set ws" "\<not> phase_ok Node b" by blast
    then have "dropWhile (phase_ok Node) (ws @ rs) = dropWhile (phase_ok Node) ws @ rs" by (rule dropWhile_append1)
    moreover have "list_all (phase_ok Way) (dropWhile (phase_ok Node) ws)" using ok(2) by (auto simp: list_all_iff dest: set_dropWhileD)
    ultimately show ?thesis using that[OF _ _ ok(3)] by simp
  qed
  have 3: "pass Way (ws' @ rs') = Some (dropWhile (phase_ok Way) rs')"
    using 2(2,3) lt(3) by (intro pass_layer) (simp, metis list_all_iff)
  have "list_all (phase_ok Relation) (dropWhile (phase_ok Way) rs')" using 2(3) by (auto simp: list_all_iff dest: set_dropWhileD)
  then have "pass Relation (dropWhile (phase_ok Way) rs' @ []) = Some []" using pass_layer[of Relation "dropWhile (phase_ok Way) rs'" "[]"] by simp
  then show "\<exists>bs1 bs2. pass Node bs = Some bs1 \<and> pass Way bs1 = Some bs2 \<and> pass Relation bs2 = Some []" using 1 2(1) 3 by simp
next
  assume "\<exists>bs1 bs2. pass Node bs = Some bs1 \<and> pass Way bs1 = Some bs2 \<and> pass Relation bs2 = Some []"
  then obtain bs1 bs2 where "bs = takeWhile (phase_ok Node) bs @ bs1" "bs1 = takeWhile (phase_ok Way) bs1 @ bs2" "bs2 = takeWhile (phase_ok Relation) bs2 @ []"
    using pass_split by blast
  then have "bs = takeWhile (phase_ok Node) bs @ takeWhile (phase_ok Way) bs1 @ takeWhile (phase_ok Relation) bs2" by simp
  then show "layered bs" unfolding layered_def
    by (intro exI[of _ "takeWhile (phase_ok Node) bs"] exI[of _ "takeWhile (phase_ok Way) bs1"] exI[of _ "takeWhile (phase_ok Relation) bs2"])
      (auto simp: list_all_iff dest: set_takeWhileD)
qed

text \<open>The elements each pass takes are those of its kind.\<close>

lemma elements_append: "elements_of k (as @ bs) = elements_of k as @ elements_of k bs"
  by (simp add: elements_of_def)

lemma elements_phase: "list_all (phase_ok j) bs \<Longrightarrow> elements_of k bs = (if k = j then concat (map mb_elements bs) else [])"
  by (induction bs) (auto simp: elements_of_def phase_ok_def)

lemma passes_take:
  assumes "pass Node bs = Some bs1" "pass Way bs1 = Some bs2" "pass Relation bs2 = Some []"
  shows "taken_by Node bs = elements_of Node bs" "taken_by Way bs1 = elements_of Way bs" "taken_by Relation bs2 = elements_of Relation bs"
proof -
  let ?N = "takeWhile (phase_ok Node) bs" and ?W = "takeWhile (phase_ok Way) bs1" and ?R = "takeWhile (phase_ok Relation) bs2"
  have bs: "bs = ?N @ ?W @ ?R" using pass_split[OF assms(1)] pass_split[OF assms(2)] pass_split[OF assms(3)] by simp
  have ok: "list_all (phase_ok Node) ?N" "list_all (phase_ok Way) ?W" "list_all (phase_ok Relation) ?R" by (auto simp: list_all_iff dest: set_takeWhileD)
  have "elements_of k bs = elements_of k ?N @ elements_of k ?W @ elements_of k ?R" for k by (subst bs) (simp add: elements_append)
  then show "taken_by Node bs = elements_of Node bs" "taken_by Way bs1 = elements_of Way bs" "taken_by Relation bs2 = elements_of Relation bs"
    using elements_phase[OF ok(1)] elements_phase[OF ok(2)] elements_phase[OF ok(3)] by (simp_all add: taken_by_def)
qed

definition fresh :: "ElementKind \<Rightarrow> (u8 \<times> OsmIdKey) option \<Rightarrow> bool" where
  "fresh k l \<longleftrightarrow> (case l of Some (ord, _) \<Rightarrow> ord < ordinal k | None \<Rightarrow> True)"

lemma fresh_follows: "fresh k l \<Longrightarrow> follows k l es \<longleftrightarrow> sorted (map elem_key es)"
  by (auto simp: fresh_def follows_def split: option.splits)

lemma fresh_seen: "fresh k l \<Longrightarrow> ordinal k < ordinal k' \<Longrightarrow> fresh k' (seen k l es)"
  by (auto simp: fresh_def seen_def split: option.splits)

fun spec_phases :: "(ElementKind \<times> bool) list \<Rightarrow> 'a MergeBlock list \<Rightarrow> 'a MergeBlock list \<Rightarrow> (ElementKind \<times> 'a BlockMergeAction list) list option" where
  "spec_phases [] old new = Some []"
| "spec_phases ((k, enabled) # rest) old new =
     (case (pass k old, pass k new) of
        (Some old', Some new') \<Rightarrow>
          if \<not> enabled then spec_phases rest old' new'
          else if sorted (map elem_key (taken_by k old)) \<and> sorted (map elem_key (taken_by k new))
          then map_option ((#) (k, merge_ref (taken_by k old) (taken_by k new))) (spec_phases rest old' new')
          else None
      | _ \<Rightarrow> None)"

lemma phase_spec:
  assumes "sb_left s = map Inr old" "sb_left t = map Inr new" "\<forall>b \<in> set old \<union> set new. type_ok b" "fresh k (sb_last_element s)" "fresh k (sb_last_element t)"
  shows "case (pass k old, pass k new) of
      (Some old', Some new') \<Rightarrow>
        if sorted (map elem_key (taken_by k old)) \<and> sorted (map elem_key (taken_by k new))
        then \<exists>s' t'. stream_merge_phase k s t = Inr (merge_ref (taken_by k old) (taken_by k new), s', t') \<and> sb_left s' = map Inr old' \<and> sb_left t' = map Inr new' \<and>
          sb_last_element s' = seen k (sb_last_element s) (taken_by k old) \<and> sb_last_element t' = seen k (sb_last_element t) (taken_by k new)
        else \<exists>err. stream_merge_phase k s t = Inl err
    | _ \<Rightarrow> \<exists>err. stream_merge_phase k s t = Inl err"
proof -
  have wf: "side_wf (Side_new s)" "side_wf (Side_new t)" by (simp_all add: Side_new_def side_wf_def)
  have sp: "side_pulls k (Side_new u) = pulls k u []" for u by (simp add: Side_new_def side_pulls_def)
  show ?thesis
    using phase_pulls[OF assms(1), of k] phase_pulls[OF assms(2), of k] assms(3) merge_loop_pulls[OF wf, of k "[]"]
    unfolding phase_list_pass fresh_follows[OF assms(4)] fresh_follows[OF assms(5)] sp stream_merge_phase_def
    by (auto split: option.splits if_splits)
qed

fun phases_asc :: "(ElementKind \<times> bool) list \<Rightarrow> bool" where
  "phases_asc [] = True"
| "phases_asc [p] = True"
| "phases_asc ((k, e) # (k', e') # rest) = (ordinal k < ordinal k' \<and> phases_asc ((k', e') # rest))"

lemma pass_types: "pass k bs = Some post \<Longrightarrow> \<forall>b \<in> set bs. P b \<Longrightarrow> \<forall>b \<in> set post. P b"
  by (metis Un_iff pass_split set_append)

lemma run_phases_spec:
  assumes "phases_asc ps" "sb_left s = map Inr old" "sb_left t = map Inr new" "\<forall>b \<in> set old \<union> set new. type_ok b"
    and "ps \<noteq> [] \<Longrightarrow> fresh (fst (hd ps)) (sb_last_element s) \<and> fresh (fst (hd ps)) (sb_last_element t)"
  shows "case spec_phases ps old new of None \<Rightarrow> \<exists>err. run_phases ps s t = Inl err | Some r \<Rightarrow> run_phases ps s t = Inr r"
  using assms
proof (induction ps arbitrary: s t old new)
  case (Cons p ps)
  obtain k en where p: "p = (k, en)" by (cases p)
  have fr: "fresh k (sb_last_element s)" "fresh k (sb_last_element t)" using Cons.prems(5) p by simp_all
  have asc: "phases_asc ps" using Cons.prems(1) p by (cases ps) auto
  have up: "fresh (fst (hd ps)) (seen k (sb_last_element s) xs) \<and> fresh (fst (hd ps)) (seen k (sb_last_element t) ys)" if "ps \<noteq> []" for xs ys :: "'a MergeElement list"
    using that Cons.prems(1) p fresh_seen[OF fr(1)] fresh_seen[OF fr(2)] by (cases ps) auto
  show ?case
  proof (cases "pass k old")
    case None
    then show ?thesis using phase_spec[OF Cons.prems(2-4) fr] skip_pass[OF Cons.prems(2), of k] p by auto
  next
    case O: (Some old')
    show ?thesis
    proof (cases "pass k new")
      case None
      then show ?thesis using O phase_spec[OF Cons.prems(2-4) fr] skip_pass[OF Cons.prems(2), of k] skip_pass[OF Cons.prems(3), of k] p by auto
    next
      case N: (Some new')
      have ty: "\<forall>b \<in> set old' \<union> set new'. type_ok b" using pass_types[OF O, of type_ok] pass_types[OF N, of type_ok] Cons.prems(4) by blast
      show ?thesis
      proof (cases en)
        case False
        obtain s' t' where s: "skip_kind k s = Inr s'" "sb_left s' = map Inr old'" "sb_last_element s' = sb_last_element s"
          and t: "skip_kind k t = Inr t'" "sb_left t' = map Inr new'" "sb_last_element t' = sb_last_element t"
          using skip_pass[OF Cons.prems(2), of k] skip_pass[OF Cons.prems(3), of k] O N by auto
        have "ps \<noteq> [] \<Longrightarrow> fresh (fst (hd ps)) (sb_last_element s') \<and> fresh (fst (hd ps)) (sb_last_element t')"
          using up[of "[]" "[]"] s(3) t(3) by (simp add: seen_def)
        from Cons.IH[OF asc s(2) t(2) ty this] show ?thesis using False p O N s(1) t(1) by (simp split: option.splits)
      next
        case en: True
        show ?thesis
        proof (cases "sorted (map elem_key (taken_by k old)) \<and> sorted (map elem_key (taken_by k new))")
          case True
          then obtain s' t' where st: "stream_merge_phase k s t = Inr (merge_ref (taken_by k old) (taken_by k new), s', t')" "sb_left s' = map Inr old'" "sb_left t' = map Inr new'"
            "sb_last_element s' = seen k (sb_last_element s) (taken_by k old)" "sb_last_element t' = seen k (sb_last_element t) (taken_by k new)"
            using phase_spec[OF Cons.prems(2-4) fr] O N by auto
          have "ps \<noteq> [] \<Longrightarrow> fresh (fst (hd ps)) (sb_last_element s') \<and> fresh (fst (hd ps)) (sb_last_element t')"
            using up st(4,5) by simp
          from Cons.IH[OF asc st(2,3) ty this] show ?thesis using True en p O N st(1) by (auto split: option.splits)
        next
          case False
          then show ?thesis using phase_spec[OF Cons.prems(2-4) fr] O N en p by auto
        qed
      qed
    qed
  qed
qed simp

lemma case_Inr_iff: "case x of None \<Rightarrow> \<exists>err. R = Inl err | Some r \<Rightarrow> R = Inr r \<Longrightarrow> R = Inr r \<longleftrightarrow> x = Some r"
  by (cases x) auto

lemma pass_last: "pass Relation bs = Some post \<Longrightarrow> post = []"
proof -
  assume "pass Relation bs = Some post"
  moreover have "\<not> later Relation b" for b :: "'a MergeBlock" 
  proof
    assume "later Relation b"
    then obtain k' where "Relation < k'" by (auto simp: later_def)
    then show False by (cases k') (simp_all add: less_ElementKind_def)
  qed
  ultimately show "post = []" by (auto simp: pass_def Let_def split: if_splits)
qed

lemma spec_phases_three:
  "spec_phases (map (\<lambda>k. (k, enabled k)) [Node, Way, Relation]) old new = Some r \<longleftrightarrow>
    layered old \<and> layered new \<and> ordered enabled old \<and> ordered enabled new \<and>
    r = map (\<lambda>k. (k, merge_ref (elements_of k old) (elements_of k new))) (filter enabled [Node, Way, Relation])"
proof (cases "layered old \<and> layered new")
  case True
  then obtain o1 o2 n1 n2 where o: "pass Node old = Some o1" "pass Way o1 = Some o2" "pass Relation o2 = Some []"
    and n: "pass Node new = Some n1" "pass Way n1 = Some n2" "pass Relation n2 = Some []"
    unfolding layered_passes by blast
  have every: "(\<forall>j. P j) \<longleftrightarrow> P Node \<and> P Way \<and> P Relation" for P by (metis ElementKind.exhaust)
  show ?thesis unfolding ordered_def every using True o n passes_take[OF o] passes_take[OF n] by auto
next
  case False
  have "spec_phases (map (\<lambda>k. (k, enabled k)) [Node, Way, Relation]) old new = None"
    using False unfolding layered_passes by (auto split: option.splits dest: pass_last)
  then show ?thesis using False by auto
qed

lemma stream_spec:
  assumes "\<forall>b \<in> set old \<union> set new. type_ok b"
  shows "diff_element_stream enabled (map Inr old) (map Inr new) = Inr r \<longleftrightarrow>
    layered old \<and> layered new \<and> ordered enabled old \<and> ordered enabled new \<and>
    r = map (\<lambda>k. (k, merge_ref (elements_of k old) (elements_of k new))) (filter enabled [Node, Way, Relation])"
proof -
  let ?ps = "map (\<lambda>k. (k, enabled k)) [Node, Way, Relation]"
  have "case spec_phases ?ps old new of None \<Rightarrow> \<exists>err. run_phases ?ps (StreamingBlocks_new (map Inr old)) (StreamingBlocks_new (map Inr new)) = Inl err
    | Some r \<Rightarrow> run_phases ?ps (StreamingBlocks_new (map Inr old)) (StreamingBlocks_new (map Inr new)) = Inr r"
    using assms by (intro run_phases_spec) (simp_all add: StreamingBlocks_new_def sb_left_def fresh_def)
  then have "diff_element_stream enabled (map Inr old) (map Inr new) = Inr r \<longleftrightarrow> spec_phases ?ps old new = Some r"
    unfolding diff_element_stream_def by (rule case_Inr_iff)
  then show ?thesis by (simp only: spec_phases_three)
qed

section \<open>Properties\<close>



end
