(* ===== verification/Block_Pair.thy ===== *)
theory Block_Pair
  imports Merge_Join Decompress Tally
begin

text \<open>
  The block-pair merge of diff and derive-changes over two indexed inputs (\<open>osc/merge_join.rs\<close>): one work
  unit is a window of ID keys and the frames of both inputs that reach into it. Bodies are decompressed by the
  model of \<open>read/decompress.rs\<close>; what a decompressed block parses to is the parameter \<open>bc_parse\<close>. A
  descriptor is its index claim, its provenance being used for errors only. Cancellation and the shadow
  counters are not modelled, nor is what a sink is given before a failure.
\<close>

section \<open>Blobs and windows\<close>

record ('z, 'a) BlockCodec =
  bc_proto :: Proto
  bc_decoders :: "'z Decoders"
  bc_parse :: "bytes \<Rightarrow> merge_error + 'a MergeElement list"

record Frame =
  fm_index :: BlobIndex
  fm_body :: bytes

definition desc_first_key :: "BlobIndex \<Rightarrow> OsmIdKey" where
  "desc_first_key ix = blob_osm_first_key (min_id ix) (max_id ix)"

definition desc_last_key :: "BlobIndex \<Rightarrow> OsmIdKey" where
  "desc_last_key ix = blob_osm_last_key (min_id ix) (max_id ix)"

record Window =
  wi_start :: "OsmIdKey option"
  wi_end :: "OsmIdKey option"

definition crosses :: "Window \<Rightarrow> BlobIndex \<Rightarrow> bool" where
  "crosses w ix \<longleftrightarrow>
     (case wi_start w of Some s \<Rightarrow> desc_first_key ix < s | None \<Rightarrow> False) \<or>
     (case wi_end w of Some e \<Rightarrow> e \<le> desc_last_key ix | None \<Rightarrow> False)"

record 'a BlockState =
  bs_block :: "'a MergeElement list"
  bs_skip :: nat
  bs_end :: "nat option"
  bs_clip_last :: "i64 option"
  bs_index :: BlobIndex

definition spent :: "'a BlockState \<Rightarrow> bool" where
  "spent bs \<longleftrightarrow> (case bs_end bs of Some e \<Rightarrow> e \<le> bs_skip bs | None \<Rightarrow> False)"

definition state_run :: "'a BlockState \<Rightarrow> 'a BlockRun" where
  "state_run bs = \<lparr>br_block = bs_block bs, br_skip = bs_skip bs, br_end = bs_end bs,
     br_count = (case bs_end bs of Some e \<Rightarrow> of_nat (e - min (bs_skip bs) e) | None \<Rightarrow> of_nat (length (bs_block bs) - bs_skip bs))\<rparr>"

text \<open>The loop of \<open>clip\<close> from element \<open>i\<close> on; the element count so far is \<open>i\<close>.\<close>

fun clip_loop :: "Window \<Rightarrow> nat \<Rightarrow> nat \<Rightarrow> i64 option \<Rightarrow> 'a MergeElement list \<Rightarrow> nat \<times> nat option \<times> i64 option" where
  "clip_loop w i sk inside [] = (min sk i, Some i, inside)"
| "clip_loop w i sk inside (e # es) =
     (if (case wi_end w of Some end_key \<Rightarrow> end_key \<le> elem_key e | None \<Rightarrow> False) then (min sk i, Some i, inside)
      else if (case wi_start w of Some start_key \<Rightarrow> elem_key e < start_key | None \<Rightarrow> False) then clip_loop w (i + 1) (i + 1) inside es
      else clip_loop w (i + 1) sk (Some (me_id e)) es)"

definition clip :: "'a MergeElement list \<Rightarrow> Window \<Rightarrow> nat \<times> nat option \<times> i64 option" where
  "clip block w = clip_loop w 0 0 None block"

section \<open>Sides\<close>

record BlockPairSide =
  ps_frames :: "Frame list"
  ps_next :: nat
  ps_current :: nat
  ps_held :: bool
  ps_win :: Window

definition BlockPairSide_new :: "Frame list \<Rightarrow> Window \<Rightarrow> BlockPairSide" where
  "BlockPairSide_new frames w = \<lparr>ps_frames = frames, ps_next = 0, ps_current = 0, ps_held = False, ps_win = w\<rparr>"

definition frame_at :: "BlockPairSide \<Rightarrow> nat \<Rightarrow> Frame option" where
  "frame_at side i = (if i < length (ps_frames side) then Some (ps_frames side ! i) else None)"

definition next_blob :: "BlockPairSide \<Rightarrow> BlobIndex option \<times> BlockPairSide" where
  "next_blob side =
     (if ps_held side then (map_option fm_index (frame_at side (ps_current side)), side\<lparr>ps_held := False\<rparr>)
      else case frame_at side (ps_next side) of
        None \<Rightarrow> (None, side)
      | Some f \<Rightarrow> (Some (fm_index f), side\<lparr>ps_current := ps_next side, ps_next := ps_next side + 1\<rparr>))"

definition hold :: "BlockPairSide \<Rightarrow> BlockPairSide" where
  "hold side = side\<lparr>ps_held := True\<rparr>"

definition body_of :: "BlockPairSide \<Rightarrow> bytes" where
  "body_of side = (case frame_at side (ps_current side) of Some f \<Rightarrow> fm_body f | None \<Rightarrow> [])"

definition side_payload :: "('z, 'a) BlockCodec \<Rightarrow> BlockPairSide \<Rightarrow> merge_error + (u8 \<times> bytes) option" where
  "side_payload C side = (case raw_blob_payload (bc_proto C) (body_of side) of Inl _ \<Rightarrow> Inl BadBlob | Inr p \<Rightarrow> Inr p)"

definition decode_body :: "('z, 'a) BlockCodec \<Rightarrow> bytes \<Rightarrow> merge_error + 'a MergeElement list" where
  "decode_body C body =
     (case decompress_blob_raw (bc_proto C) (bc_decoders C) body Vec_new of Inl _ \<Rightarrow> Inl BadBlob | Inr decompressed \<Rightarrow> bc_parse C decompressed)"

definition decode_side :: "('z, 'a) BlockCodec \<Rightarrow> BlockPairSide \<Rightarrow> BlobIndex \<Rightarrow> merge_error + 'a BlockState" where
  "decode_side C side ix =
     (case decode_body C (body_of side) of
        Inl err \<Rightarrow> Inl err
      | Inr block \<Rightarrow>
          (case KindSet_refuse_under (block_kinds me_kind block) (Some (kind ix)) of
             Inl _ \<Rightarrow> Inl ForeignKind
           | Inr _ \<Rightarrow>
               let (sk, e, inside) = (if crosses (ps_win side) ix then clip block (ps_win side) else (0, None, None)) in
               Inr \<lparr>bs_block = block, bs_skip = sk, bs_end = e, bs_clip_last = inside, bs_index = ix\<rparr>))"

definition blobs_left :: "BlockPairSide \<Rightarrow> nat" where
  "blobs_left side = (length (ps_frames side) - ps_next side) + (if ps_held side then 1 else 0)"

lemma next_blob_less: "next_blob side = (Some ix, side') \<Longrightarrow> blobs_left side' < blobs_left side"
  by (auto simp: next_blob_def blobs_left_def frame_at_def split: if_splits option.splits)

function next_decoded :: "('z, 'a) BlockCodec \<Rightarrow> BlockPairSide \<Rightarrow> merge_error + 'a BlockState option \<times> BlockPairSide" where
  "next_decoded C side =
     (case next_blob side of
        (None, side) \<Rightarrow> Inr (None, side)
      | (Some ix, side) \<Rightarrow>
          (case decode_side C side ix of
             Inl err \<Rightarrow> Inl err
           | Inr bs \<Rightarrow> if spent bs then next_decoded C side else Inr (Some bs, side)))"
  by auto
termination by (relation "measure (\<lambda>(C, side). blobs_left side)") (auto dest: next_blob_less[OF sym])

declare next_decoded.simps [simp del]

definition emit_block :: "'a BlockState \<Rightarrow> bool \<Rightarrow> 'a BlockMergeAction list" where
  "emit_block bs is_old = (if spent bs then [] else if is_old then [BlobOldOnly (state_run bs)] else [BlobNewOnly (state_run bs)])"

lemma next_decoded_less: "next_decoded C side = Inr (Some bs, side') \<Longrightarrow> blobs_left side' < blobs_left side"
proof (induction C side rule: next_decoded.induct)
  case (1 C side)
  obtain ix t where n: "next_blob side = (ix, t)" by (cases "next_blob side")
  show ?case
  proof (cases ix)
    case None
    then show ?thesis using 1(2) n by (simp add: next_decoded.simps[of C side])
  next
    case (Some i)
    note less = next_blob_less[OF n[unfolded Some]]
    show ?thesis
      using 1(2) n Some less 1(1)[OF n[symmetric] Some]
      by (fastforce simp: next_decoded.simps[of C side] split: sum.splits if_splits)
  qed
qed

function drain_remaining :: "('z, 'a) BlockCodec \<Rightarrow> bool \<Rightarrow> BlockPairSide \<Rightarrow> merge_error + 'a BlockMergeAction list" where
  "drain_remaining C is_old side =
     (case next_decoded C side of
        Inl err \<Rightarrow> Inl err
      | Inr (None, _) \<Rightarrow> Inr []
      | Inr (Some bs, side) \<Rightarrow> (case drain_remaining C is_old side of Inl err \<Rightarrow> Inl err | Inr acts \<Rightarrow> Inr (emit_block bs is_old @ acts)))"
  by auto
termination by (relation "measure (\<lambda>(C, is_old, side). blobs_left side)") (auto dest: next_decoded_less)

declare drain_remaining.simps [simp del]

section \<open>A pair of decoded blocks\<close>

definition blob_last :: "BlobIndex \<Rightarrow> i64" where
  "blob_last ix = blob_osm_last_id (min_id ix) (max_id ix)"

definition blob_entirely_before :: "BlobIndex \<Rightarrow> BlobIndex \<Rightarrow> bool" where
  "blob_entirely_before a b \<longleftrightarrow> blob_osm_last_key (min_id a) (max_id a) < blob_osm_first_key (min_id b) (max_id b)"

definition state_last :: "'a BlockState \<Rightarrow> i64" where
  "state_last bs =
     (case bs_clip_last bs of
        Some inside \<Rightarrow> if osm_id_cmp inside (blob_last (bs_index bs)) = Less then inside else blob_last (bs_index bs)
      | None \<Rightarrow> blob_last (bs_index bs))"

definition check_claimed_max :: "bool \<Rightarrow> BlobIndex \<Rightarrow> bool \<Rightarrow> i64 \<Rightarrow> merge_error + unit" where
  "check_claimed_max is_old ix has_more merge_up_to =
     (if \<not> has_more then Inr ()
      else if osm_id_cmp (blob_last ix) merge_up_to \<noteq> Greater then Inl (IndexMismatch is_old (blob_last ix) merge_up_to)
      else Inr ())"

record MergePairOutcome =
  mp_old_consumed :: nat
  mp_new_consumed :: nat
  mp_old_has_more :: bool
  mp_new_has_more :: bool

definition in_range :: "i64 \<Rightarrow> 'a MergeElement \<Rightarrow> bool" where
  "in_range merge_up_to e \<longleftrightarrow> osm_id_cmp (me_id e) merge_up_to \<noteq> Greater"

definition range_head :: "i64 \<Rightarrow> 'a MergeElement list \<Rightarrow> i64 option" where
  "range_head merge_up_to it = (case it of e # _ \<Rightarrow> if in_range merge_up_to e then Some (me_id e) else None | [] \<Rightarrow> None)"

definition pair_order :: "i64 option \<Rightarrow> i64 option \<Rightarrow> Ordering option" where
  "pair_order old_head new_head =
     (case (old_head, new_head) of
        (None, None) \<Rightarrow> None
      | (Some _, None) \<Rightarrow> Some Less
      | (None, Some _) \<Rightarrow> Some Greater
      | (Some o_id, Some n_id) \<Rightarrow> Some (osm_id_cmp o_id n_id))"

text \<open>The loop of \<open>element_merge_pair\<close>; the side an order names has a head, since the order comes from the heads.\<close>

lemma pair_order_heads:
  "pair_order (range_head u xs) (range_head u ys) = Some Less \<Longrightarrow> xs \<noteq> []"
  "pair_order (range_head u xs) (range_head u ys) = Some Greater \<Longrightarrow> ys \<noteq> []"
  "pair_order (range_head u xs) (range_head u ys) = Some Equal \<Longrightarrow> xs \<noteq> [] \<and> ys \<noteq> []"
  by (auto simp: pair_order_def range_head_def split: option.splits list.splits)

function pair_loop :: "i64 \<Rightarrow> 'a MergeElement list \<Rightarrow> 'a MergeElement list \<Rightarrow> nat \<Rightarrow> nat \<Rightarrow> 'a BlockMergeAction list \<Rightarrow>
    'a BlockMergeAction list \<times> MergePairOutcome" where
  "pair_loop u old_iter new_iter old_consumed new_consumed acc =
     (case pair_order (range_head u old_iter) (range_head u new_iter) of
        None \<Rightarrow> (acc, \<lparr>mp_old_consumed = old_consumed, mp_new_consumed = new_consumed, mp_old_has_more = (old_iter \<noteq> []), mp_new_has_more = (new_iter \<noteq> [])\<rparr>)
      | Some Less \<Rightarrow> pair_loop u (tl old_iter) new_iter (old_consumed + 1) new_consumed (acc @ [ElementOldOnly (hd old_iter)])
      | Some Greater \<Rightarrow> pair_loop u old_iter (tl new_iter) old_consumed (new_consumed + 1) (acc @ [ElementNewOnly (hd new_iter)])
      | Some Equal \<Rightarrow> pair_loop u (tl old_iter) (tl new_iter) (old_consumed + 1) (new_consumed + 1) (acc @ [matched (hd old_iter) (hd new_iter)]))"
  by auto
termination
  by (relation "measure (\<lambda>(u, xs, ys, _). length xs + length ys)") (auto dest!: pair_order_heads simp: neq_Nil_conv)

declare pair_loop.simps [simp del]

definition element_merge_pair :: "'a BlockState \<Rightarrow> 'a BlockState \<Rightarrow> i64 \<Rightarrow> 'a BlockMergeAction list \<times> MergePairOutcome" where
  "element_merge_pair os ns merge_up_to = pair_loop merge_up_to (run_elements (state_run os)) (run_elements (state_run ns)) 0 0 []"

definition merge_decoded_pair :: "'a BlockState option \<Rightarrow> 'a BlockState option \<Rightarrow>
    merge_error + 'a BlockMergeAction list \<times> 'a BlockState option \<times> 'a BlockState option" where
  "merge_decoded_pair old_decoded new_decoded =
     (case (old_decoded, new_decoded) of
        (Some os, Some ns) \<Rightarrow>
          let old_last = state_last os; new_last = state_last ns;
              merge_up_to = (if osm_id_cmp old_last new_last \<noteq> Greater then old_last else new_last);
              (acts, outcome) = element_merge_pair os ns merge_up_to in
          (case check_claimed_max True (bs_index os) (mp_old_has_more outcome) merge_up_to of
             Inl err \<Rightarrow> Inl err
           | Inr _ \<Rightarrow>
               (case check_claimed_max False (bs_index ns) (mp_new_has_more outcome) merge_up_to of
                  Inl err \<Rightarrow> Inl err
                | Inr _ \<Rightarrow>
                    Inr (acts,
                      if mp_old_has_more outcome then Some (os\<lparr>bs_skip := bs_skip os + mp_old_consumed outcome\<rparr>) else None,
                      if mp_new_has_more outcome then Some (ns\<lparr>bs_skip := bs_skip ns + mp_new_consumed outcome\<rparr>) else None)))
      | _ \<Rightarrow> Inl MergeInternal)"

section \<open>The merge of a unit\<close>

definition blobs_byte_equal :: "('z, 'a) BlockCodec \<Rightarrow> BlockPairSide \<Rightarrow> BlobIndex \<Rightarrow> BlockPairSide \<Rightarrow> BlobIndex \<Rightarrow> merge_error + bool" where
  "blobs_byte_equal C old op new np =
     (if min_id op \<noteq> min_id np \<or> max_id op \<noteq> max_id np \<or> count op \<noteq> count np then Inr False
      else if crosses (ps_win old) op then Inr False
      else
        (case side_payload C old of
           Inl err \<Rightarrow> Inl err
         | Inr a \<Rightarrow>
             (case side_payload C new of
                Inl err \<Rightarrow> Inl err
              | Inr b \<Rightarrow> Inr (case (a, b) of (Some (ak, ab), Some (bk, bb)) \<Rightarrow> ak = bk \<and> ab = bb | _ \<Rightarrow> False))))"

record 'a PairState =
  pr_old :: BlockPairSide
  pr_new :: BlockPairSide
  pr_old_decoded :: "'a BlockState option"
  pr_new_decoded :: "'a BlockState option"

text \<open>How an iteration goes on: the loop ends, the next iteration starts, or the fast path falls through to the slow path.\<close>

datatype 'a flow = Break | Continue "'a PairState" | Fall "'a PairState"

definition filter_spent :: "'a BlockState \<Rightarrow> 'a BlockState option" where
  "filter_spent bs = (if spent bs then None else Some bs)"

definition emit_and_drain :: "('z, 'a) BlockCodec \<Rightarrow> bool \<Rightarrow> BlockPairSide \<Rightarrow> BlobIndex \<Rightarrow> merge_error + 'a BlockMergeAction list" where
  "emit_and_drain C is_old side ix =
     (case decode_side C side ix of
        Inl err \<Rightarrow> Inl err
      | Inr bs \<Rightarrow> (case drain_remaining C is_old side of Inl err \<Rightarrow> Inl err | Inr acts \<Rightarrow> Inr (emit_block bs is_old @ acts)))"

definition fresh_step :: "('z, 'a) BlockCodec \<Rightarrow> bool \<Rightarrow> BlockPairSide \<Rightarrow> BlockPairSide \<Rightarrow> merge_error + 'a BlockMergeAction list \<times> 'a flow" where
  "fresh_step C skip_equal_blobs old new =
     (case next_blob old of (op, old) \<Rightarrow>
      case next_blob new of (np, new) \<Rightarrow>
        (case (op, np) of
           (None, None) \<Rightarrow> Inr ([], Break)
         | (Some op, None) \<Rightarrow> (case emit_and_drain C True old op of Inl err \<Rightarrow> Inl err | Inr acts \<Rightarrow> Inr (acts, Break))
         | (None, Some np) \<Rightarrow> (case emit_and_drain C False new np of Inl err \<Rightarrow> Inl err | Inr acts \<Rightarrow> Inr (acts, Break))
         | (Some op, Some np) \<Rightarrow>
             let st = \<lparr>pr_old = old, pr_new = new, pr_old_decoded = None, pr_new_decoded = None\<rparr> in
             if blob_entirely_before op np
             then (case decode_side C old op of Inl err \<Rightarrow> Inl err | Inr os \<Rightarrow> Inr (emit_block os True, Continue (st\<lparr>pr_new := hold new\<rparr>)))
             else if blob_entirely_before np op
             then (case decode_side C new np of Inl err \<Rightarrow> Inl err | Inr ns \<Rightarrow> Inr (emit_block ns False, Continue (st\<lparr>pr_old := hold old\<rparr>)))
             else
               (case if skip_equal_blobs then blobs_byte_equal C old op new np else Inr False of
                  Inl err \<Rightarrow> Inl err
                | Inr True \<Rightarrow> Inr ([BlobEqual (count op)], Continue st)
                | Inr False \<Rightarrow>
                    (case decode_side C old op of
                       Inl err \<Rightarrow> Inl err
                     | Inr os \<Rightarrow>
                         (case decode_side C new np of
                            Inl err \<Rightarrow> Inl err
                          | Inr ns \<Rightarrow> Inr ([], Fall (st\<lparr>pr_old_decoded := filter_spent os, pr_new_decoded := filter_spent ns\<rparr>)))))))"

definition fill_decoded :: "('z, 'a) BlockCodec \<Rightarrow> BlockPairSide \<Rightarrow> 'a BlockState option \<Rightarrow> merge_error + 'a BlockState option \<times> BlockPairSide" where
  "fill_decoded C side decoded = (case decoded of None \<Rightarrow> next_decoded C side | Some bs \<Rightarrow> Inr (Some bs, side))"

definition slow_match :: "BlockPairSide \<Rightarrow> BlockPairSide \<Rightarrow> 'a BlockState option \<Rightarrow> 'a BlockState option \<Rightarrow>
    merge_error + 'a BlockMergeAction list \<times> 'a PairState option" where
  "slow_match old new od nd =
     (let st = \<lparr>pr_old = old, pr_new = new, pr_old_decoded = None, pr_new_decoded = None\<rparr> in
      case (od, nd) of
        (None, None) \<Rightarrow> Inr ([], None)
      | (Some os, None) \<Rightarrow> Inr (emit_block os True, Some st)
      | (None, Some ns) \<Rightarrow> Inr (emit_block ns False, Some st)
      | (Some os, Some ns) \<Rightarrow>
          if blob_entirely_before (bs_index os) (bs_index ns) then Inr (emit_block os True, Some (st\<lparr>pr_new_decoded := Some ns\<rparr>))
          else if blob_entirely_before (bs_index ns) (bs_index os) then Inr (emit_block ns False, Some (st\<lparr>pr_old_decoded := Some os\<rparr>))
          else
            (case merge_decoded_pair (Some os) (Some ns) of
               Inl err \<Rightarrow> Inl err
             | Inr (acts, od, nd) \<Rightarrow> Inr (acts, Some (st\<lparr>pr_old_decoded := od, pr_new_decoded := nd\<rparr>))))"

definition slow_step :: "('z, 'a) BlockCodec \<Rightarrow> 'a PairState \<Rightarrow> merge_error + 'a BlockMergeAction list \<times> 'a PairState option" where
  "slow_step C st =
     (case fill_decoded C (pr_old st) (pr_old_decoded st) of
        Inl err \<Rightarrow> Inl err
      | Inr (od, old) \<Rightarrow>
          (case fill_decoded C (pr_new st) (pr_new_decoded st) of
             Inl err \<Rightarrow> Inl err
           | Inr (nd, new) \<Rightarrow> slow_match old new od nd))"

definition pair_step :: "('z, 'a) BlockCodec \<Rightarrow> bool \<Rightarrow> 'a PairState \<Rightarrow> merge_error + 'a BlockMergeAction list \<times> 'a PairState option" where
  "pair_step C skip_equal_blobs st =
     (if pr_old_decoded st = None \<and> pr_new_decoded st = None
      then case fresh_step C skip_equal_blobs (pr_old st) (pr_new st) of
             Inl err \<Rightarrow> Inl err
           | Inr (acts, Break) \<Rightarrow> Inr (acts, None)
           | Inr (acts, Continue st) \<Rightarrow> Inr (acts, Some st)
           | Inr (_, Fall st) \<Rightarrow> slow_step C st
      else slow_step C st)"

text \<open>The loop may go on for ever on blocks whose elements are out of order; not returning is \<open>None\<close>.\<close>

partial_function (option) pair_run :: "('z, 'a) BlockCodec \<Rightarrow> bool \<Rightarrow> 'a PairState \<Rightarrow> 'a BlockMergeAction list \<Rightarrow> (merge_error + 'a BlockMergeAction list) option" where
  "pair_run C skip_equal_blobs st acc =
     (case pair_step C skip_equal_blobs st of
        Inl err \<Rightarrow> Some (Inl err)
      | Inr (acts, None) \<Rightarrow> Some (Inr (acc @ acts))
      | Inr (acts, Some st) \<Rightarrow> pair_run C skip_equal_blobs st (acc @ acts))"

definition block_pair_merge_phase :: "('z, 'a) BlockCodec \<Rightarrow> bool \<Rightarrow> BlockPairSide \<Rightarrow> BlockPairSide \<Rightarrow> (merge_error + 'a BlockMergeAction list) option" where
  "block_pair_merge_phase C skip_equal_blobs old new =
     pair_run C skip_equal_blobs \<lparr>pr_old = old, pr_new = new, pr_old_decoded = None, pr_new_decoded = None\<rparr> []"

section \<open>A side as the list of its frames\<close>

definition side_ok :: "BlockPairSide \<Rightarrow> bool" where
  "side_ok side \<longleftrightarrow> ps_next side \<le> length (ps_frames side) \<and> (ps_held side \<longrightarrow> ps_next side = Suc (ps_current side))"

definition frames_left :: "BlockPairSide \<Rightarrow> Frame list" where
  "frames_left side = drop (if ps_held side then ps_current side else ps_next side) (ps_frames side)"

text \<open>The side just after \<open>next_blob\<close> gave the frame \<open>f\<close>.\<close>

definition gave :: "Frame \<Rightarrow> BlockPairSide \<Rightarrow> bool" where
  "gave f side \<longleftrightarrow> \<not> ps_held side \<and> ps_next side = Suc (ps_current side) \<and> frame_at side (ps_current side) = Some f"

lemma next_blob_Nil:
  assumes "side_ok side" "frames_left side = []"
  shows "next_blob side = (None, side)"
  using assms by (auto simp: side_ok_def frames_left_def next_blob_def frame_at_def split: if_splits)

lemma drop_is_Cons: "drop i xs = y # ys \<Longrightarrow> i < length xs" "drop i xs = y # ys \<Longrightarrow> xs ! i = y" "drop i xs = y # ys \<Longrightarrow> drop (Suc i) xs = ys"
  using nth_via_drop by (fastforce simp: linorder_not_le[symmetric]) (blast intro: nth_via_drop, metis drop_Suc list.sel(3) tl_drop)

lemma next_blob_Cons:
  assumes "side_ok side" "frames_left side = f # fs"
  obtains t where "next_blob side = (Some (fm_index f), t)" "side_ok t" "frames_left t = fs" "gave f t" "ps_win t = ps_win side"
proof (cases "ps_held side")
  case True
  then have "drop (ps_current side) (ps_frames side) = f # fs" using assms(2) by (simp add: frames_left_def)
  note i = drop_is_Cons[OF this]
  have "ps_next side = Suc (ps_current side)" using True assms(1) by (simp add: side_ok_def)
  then show ?thesis
    using i True by (intro that[of "side\<lparr>ps_held := False\<rparr>"]) (auto simp: next_blob_def frame_at_def side_ok_def frames_left_def gave_def)
next
  case False
  then have "drop (ps_next side) (ps_frames side) = f # fs" using assms(2) by (simp add: frames_left_def)
  note i = drop_is_Cons[OF this]
  show ?thesis
    using i False
    by (intro that[of "side\<lparr>ps_current := ps_next side, ps_next := ps_next side + 1\<rparr>"])
      (auto simp: next_blob_def frame_at_def side_ok_def frames_left_def gave_def)
qed

lemma gave_facts:
  assumes "gave f t" "frames_left t = fs"
  shows "body_of t = fm_body f" "side_ok (hold t)" "frames_left (hold t) = f # fs" "ps_win (hold t) = ps_win t"
  using assms by (auto simp: gave_def body_of_def hold_def side_ok_def frames_left_def frame_at_def Cons_nth_drop_Suc split: if_splits)

section \<open>The window part of a block\<close>

definition strict :: "'a MergeElement list \<Rightarrow> bool" where
  "strict es \<longleftrightarrow> sorted_wrt (\<lambda>a b. elem_key a < elem_key b) es"

definition past :: "Window \<Rightarrow> 'a MergeElement \<Rightarrow> bool" where
  "past w e \<longleftrightarrow> (case wi_end w of Some end_key \<Rightarrow> end_key \<le> elem_key e | None \<Rightarrow> False)"

definition below :: "Window \<Rightarrow> 'a MergeElement \<Rightarrow> bool" where
  "below w e \<longleftrightarrow> (case wi_start w of Some start_key \<Rightarrow> elem_key e < start_key | None \<Rightarrow> False)"

definition window_part :: "Window \<Rightarrow> 'a MergeElement list \<Rightarrow> 'a MergeElement list" where
  "window_part w es = filter (\<lambda>e. \<not> below w e \<and> \<not> past w e) es"

lemma strict_simps [simp]:
  "strict []" "strict (x # xs) \<longleftrightarrow> (\<forall>y \<in> set xs. elem_key x < elem_key y) \<and> strict xs"
  "strict (xs @ ys) \<longleftrightarrow> strict xs \<and> strict ys \<and> (\<forall>x \<in> set xs. \<forall>y \<in> set ys. elem_key x < elem_key y)"
  by (auto simp: strict_def sorted_wrt_append)

lemma clip_loop_Cons:
  "clip_loop w i sk l (e # es) =
     (if past w e then (min sk i, Some i, l) else if below w e then clip_loop w (i + 1) (i + 1) l es else clip_loop w (i + 1) sk (Some (me_id e)) es)"
  by (simp add: past_def below_def)

lemma past_mono: "past w a \<Longrightarrow> elem_key a < elem_key b \<Longrightarrow> past w b"
  by (auto simp: past_def split: option.splits)

lemma below_mono: "\<not> below w a \<Longrightarrow> elem_key a < elem_key b \<Longrightarrow> \<not> below w b"
  by (auto simp: below_def split: option.splits)

lemma window_part_Cons:
  "window_part w (e # es) = (if \<not> below w e \<and> \<not> past w e then e # window_part w es else window_part w es)"
  by (simp add: window_part_def)

lemma window_part_past: "past w e \<Longrightarrow> strict (e # es) \<Longrightarrow> window_part w (e # es) = []"
  by (auto simp: window_part_def filter_empty_conv intro: past_mono)

definition last_id :: "'a MergeElement list \<Rightarrow> i64 option" where
  "last_id es = (if es = [] then None else Some (me_id (last es)))"

lemma clip_inside:
  "strict es \<Longrightarrow> \<forall>e \<in> set es. \<not> below w e \<Longrightarrow> sk \<le> i \<Longrightarrow>
   clip_loop w i sk l es = (sk, Some (i + length (window_part w es)), if window_part w es = [] then l else last_id (window_part w es))
   \<and> window_part w es = take (length (window_part w es)) es"
proof (induction es arbitrary: i l)
  case (Cons e es)
  show ?case
  proof (cases "past w e")
    case True
    then show ?thesis using Cons.prems window_part_past[OF True Cons.prems(1)] by (simp add: clip_loop_Cons del: clip_loop.simps)
  next
    case False
    then show ?thesis using Cons.prems Cons.IH[of "i + 1" "Some (me_id e)"]
      by (simp add: clip_loop_Cons window_part_Cons last_id_def del: clip_loop.simps)
  qed
qed (simp add: window_part_def)

lemma clip_sorted:
  assumes "strict es"
  obtains s e where "clip_loop w i i None es = (i + s, Some (i + e), last_id (window_part w es))" "s \<le> e" "e \<le> length es"
    "take (e - s) (drop s es) = window_part w es"
  using assms
proof (induction es arbitrary: i thesis)
  case Nil
  show ?case by (rule Nil.prems(1)[of 0 0]) (simp_all add: window_part_def last_id_def)
next
  case (Cons x xs)
  show ?case
  proof (cases "past w x")
    case True
    then show ?thesis using Cons.prems(1)[of 0 0] window_part_past[OF True Cons.prems(2)] by (simp add: clip_loop_Cons last_id_def del: clip_loop.simps)
  next
    case np: False
    show ?thesis
    proof (cases "below w x")
      case True
      obtain s e where "clip_loop w (i + 1) (i + 1) None xs = (i + 1 + s, Some (i + 1 + e), last_id (window_part w xs))" "s \<le> e" "e \<le> length xs"
        "take (e - s) (drop s xs) = window_part w xs"
        using Cons.IH[of "i + 1"] Cons.prems(2) by auto
      then show ?thesis using True np by (intro Cons.prems(1)[of "Suc s" "Suc e"]) (simp_all add: clip_loop_Cons window_part_Cons del: clip_loop.simps)
    next
      case False
      have "\<forall>e \<in> set xs. \<not> below w e" using Cons.prems(2) below_mono[OF False] by auto
      then have *: "clip_loop w (i + 1) i (Some (me_id x)) xs = (i, Some (i + 1 + length (window_part w xs)), if window_part w xs = [] then Some (me_id x) else last_id (window_part w xs))"
        "window_part w xs = take (length (window_part w xs)) xs"
        using clip_inside[of xs w i "i + 1"] Cons.prems(2) by simp_all
      have "length (window_part w xs) \<le> length xs" by (simp add: window_part_def)
      then show ?thesis using False np * by (intro Cons.prems(1)[of 0 "Suc (length (window_part w xs))"])
          (simp_all add: clip_loop_Cons window_part_Cons last_id_def del: clip_loop.simps)
    qed
  qed
qed

section \<open>What a decoded block offers\<close>

text \<open>
  A frame whose index is exact for its block, all of one kind, in strictly ascending ID order and, where
  \<open>rs\<close> asks for it, with content tokens that all resolve (an element with one that does not is unequal to itself).
\<close>

definition reads_as :: "('z, 'a) BlockCodec \<Rightarrow> bool \<Rightarrow> ElementKind \<Rightarrow> Frame \<Rightarrow> 'a MergeElement list \<Rightarrow> bool" where
  "reads_as C rs k f es \<longleftrightarrow> decode_body C (fm_body f) = Inr es \<and> kind (fm_index f) = k \<and> (\<forall>e \<in> set es. me_kind e = k) \<and>
     exact_claim (fm_index f) (map me_id es) \<and> strict es \<and> (rs \<longrightarrow> (\<forall>e \<in> set es. content_equal e e))"

definition offers :: "'a BlockState \<Rightarrow> 'a MergeElement list \<Rightarrow> bool" where
  "offers bs es \<longleftrightarrow> run_elements (state_run bs) = es \<and> br_count (state_run bs) = of_nat (length es) \<and>
     (\<forall>n. bs_end bs = Some n \<longrightarrow> n \<le> length (bs_block bs)) \<and> strict es \<and>
     (\<forall>e \<in> set es. desc_first_key (bs_index bs) \<le> elem_key e \<and> elem_key e \<le> desc_last_key (bs_index bs)) \<and>
     (es \<noteq> [] \<longrightarrow> osm_id_key (state_last bs) = elem_key (last es)) \<and> (spent bs \<longleftrightarrow> es = [])"

lemma state_last_key:
  "osm_id_key (state_last bs) = (case bs_clip_last bs of Some i \<Rightarrow> min (osm_id_key i) (desc_last_key (bs_index bs)) | None \<Rightarrow> desc_last_key (bs_index bs))"
  by (auto simp: state_last_def blob_last_def desc_last_key_def last_id_key[symmetric] cmp_cases min_def split: option.splits)

lemma claim_bounds:
  assumes "exact_claim ix (map me_id es)" "e \<in> set es"
  shows "desc_first_key ix \<le> elem_key e" "elem_key e \<le> desc_last_key ix"
  using assms range_key_bounds[of "min_id ix" "me_id e" "max_id ix"]
  by (auto simp: exact_claim_def exact_range_def desc_first_key_def desc_last_key_def)

lemma strict_last: "strict es \<Longrightarrow> e \<in> set es \<Longrightarrow> elem_key e \<le> elem_key (last es)"
  by (induction es) (auto simp: less_imp_le)

lemma claim_last:
  assumes "exact_claim ix (map me_id es)" "strict es"
  shows "desc_last_key ix = elem_key (last es)"
proof -
  have ne: "es \<noteq> []" and r: "exact_range (min_id ix) (max_id ix) (set (map me_id es))" using assms(1) by (auto simp: exact_claim_def)
  obtain e where "e \<in> set es" "desc_last_key ix = elem_key e" using last_key_present[OF r] by (auto simp: desc_last_key_def)
  then have "desc_last_key ix \<le> elem_key (last es)" using strict_last[OF assms(2)] by simp
  then show ?thesis using claim_bounds(2)[OF assms(1), of "last es"] ne by simp
qed

lemma uncrossed_inside:
  assumes "\<not> crosses w ix" "exact_claim ix (map me_id es)"
  shows "window_part w es = es"
proof -
  have "\<not> below w e \<and> \<not> past w e" if "e \<in> set es" for e
    using assms(1) claim_bounds[OF assms(2) that] by (auto simp: crosses_def below_def past_def split: option.splits)
  then show ?thesis by (simp add: window_part_def)
qed

lemma window_part_set: "set (window_part w es) \<subseteq> set es"
  by (auto simp: window_part_def)

lemma strict_window_part: "strict es \<Longrightarrow> strict (window_part w es)"
  by (simp add: strict_def window_part_def sorted_wrt_filter)

lemma decode_reads:
  assumes "reads_as C rs k f es" "gave f t"
  obtains bs where "decode_side C t (fm_index f) = Inr bs" "bs_index bs = fm_index f" "offers bs (window_part (ps_win t) es)"
proof -
  let ?w = "ps_win t" and ?ix = "fm_index f"
  have r: "decode_body C (fm_body f) = Inr es" "kind ?ix = k" "\<forall>e \<in> set es. me_kind e = k" "exact_claim ?ix (map me_id es)" "strict es"
    using assms(1) by (simp_all add: reads_as_def)
  have k: "KindSet_refuse_under (block_kinds me_kind es) (Some (kind ?ix)) = Inr ()" using r(2,3) by (auto simp: refuse_under_ok block_kinds_eq)
  have ne: "es \<noteq> []" using r(4) by (simp add: exact_claim_def)
  have bounds: "\<forall>e \<in> set (window_part ?w es). desc_first_key ?ix \<le> elem_key e \<and> elem_key e \<le> desc_last_key ?ix"
    using claim_bounds[OF r(4)] window_part_set[of ?w es] by blast
  show ?thesis
  proof (cases "crosses ?w ?ix")
    case False
    let ?bs = "\<lparr>bs_block = es, bs_skip = 0, bs_end = None, bs_clip_last = None, bs_index = ?ix\<rparr>"
    have "decode_side C t ?ix = Inr ?bs" using r(1) k False by (simp add: decode_side_def gave_facts(1)[OF assms(2) refl])
    moreover have "offers ?bs (window_part ?w es)"
      using bounds r(5) ne claim_last[OF r(4,5)] uncrossed_inside[OF False r(4)]
      by (simp add: offers_def run_elements_def state_run_def spent_def state_last_key)
    ultimately show ?thesis using that by simp
  next
    case True
    obtain s e where c: "clip es ?w = (s, Some e, last_id (window_part ?w es))" "s \<le> e" "e \<le> length es" "take (e - s) (drop s es) = window_part ?w es"
      using clip_sorted[OF r(5), of ?w 0] by (auto simp: clip_def)
    let ?bs = "\<lparr>bs_block = es, bs_skip = s, bs_end = Some e, bs_clip_last = last_id (window_part ?w es), bs_index = ?ix\<rparr>"
    have "decode_side C t ?ix = Inr ?bs" using r(1) k True c(1) by (simp add: decode_side_def gave_facts(1)[OF assms(2) refl])
    moreover have "length (window_part ?w es) = e - s" using arg_cong[OF c(4), of length] c(2,3) by simp
    then have "offers ?bs (window_part ?w es)"
      using bounds c strict_window_part[OF r(5), of ?w]
      by (auto simp: offers_def run_elements_def state_run_def spent_def state_last_key last_id_def min_absorb1)
    ultimately show ?thesis using that by simp
  qed
qed

lemma run_advance: "run_elements (state_run (bs\<lparr>bs_skip := bs_skip bs + c\<rparr>)) = drop c (run_elements (state_run bs))"
  by (auto simp: run_elements_def state_run_def drop_take add.commute split: option.splits)

lemma run_count:
  "\<forall>n. bs_end bs = Some n \<longrightarrow> n \<le> length (bs_block bs) \<Longrightarrow> br_count (state_run bs) = of_nat (length (run_elements (state_run bs)))"
proof -
  assume "\<forall>n. bs_end bs = Some n \<longrightarrow> n \<le> length (bs_block bs)"
  then have "length (run_elements (state_run bs)) = (case bs_end bs of Some e \<Rightarrow> e - min (bs_skip bs) e | None \<Rightarrow> length (bs_block bs) - bs_skip bs)"
    by (auto simp: run_elements_def state_run_def min_def split: option.splits)
  then show ?thesis by (simp add: state_run_def split: option.splits)
qed

lemma offers_advance:
  assumes "offers bs es" "c < length es"
  shows "offers (bs\<lparr>bs_skip := bs_skip bs + c\<rparr>) (drop c es)"
proof -
  let ?bs = "bs\<lparr>bs_skip := bs_skip bs + c\<rparr>"
  have run: "run_elements (state_run ?bs) = drop c es" using assms(1) run_advance[of bs c] by (simp add: offers_def)
  have "\<not> spent ?bs"
  proof
    assume "spent ?bs"
    then have "run_elements (state_run ?bs) = []" by (auto simp: spent_def run_elements_def state_run_def split: option.splits)
    then show False using run assms(2) by simp
  qed
  moreover have "strict (drop c es)" using assms(1) append_take_drop_id[of c es] unfolding offers_def by (metis strict_simps(3))
  moreover have "state_last ?bs = state_last bs" by (simp add: state_last_def split: option.split)
  moreover have "br_count (state_run ?bs) = of_nat (length (drop c es))" using run_count[of ?bs] run assms(1) by (simp add: offers_def)
  ultimately show ?thesis using assms run by (auto simp: offers_def dest: in_set_dropD)
qed

section \<open>Merging by parts\<close>

lemma merge_ref_split:
  assumes "\<forall>a \<in> set x1. \<forall>b \<in> set y2. elem_key a < elem_key b" "\<forall>a \<in> set y1. \<forall>b \<in> set x2. elem_key a < elem_key b"
  shows "merge_ref (x1 @ x2) (y1 @ y2) = merge_ref x1 y1 @ merge_ref x2 y2"
  using assms
proof (induction x1 y1 rule: merge_ref.induct)
  case (1 ys)
  have "merge_ref x2 (b # bs) = ElementNewOnly b # merge_ref x2 bs" if "\<forall>a \<in> set x2. elem_key b < elem_key a" for b bs
    using that by (cases x2) (auto dest: less_asym)
  then have "merge_ref x2 (bs @ y2) = map ElementNewOnly bs @ merge_ref x2 y2" if "set bs \<subseteq> set ys" for bs
    using that 1(2) by (induction bs) auto
  from this[of ys] show ?case by simp
next
  case (2 x xs)
  have "merge_ref (a # as) y2 = ElementOldOnly a # merge_ref as y2" if "\<forall>b \<in> set y2. elem_key a < elem_key b" for a as
    using that by (cases y2) auto
  then have "merge_ref (as @ x2) y2 = map ElementOldOnly as @ merge_ref x2 y2" if "set as \<subseteq> set (x # xs)" for as
    using that 2(1) by (induction as) auto
  from this[of "x # xs"] show ?case by simp
next
  case (3 x xs y ys)
  then show ?case by auto
qed

lemma in_range_key: "in_range u e \<longleftrightarrow> elem_key e \<le> osm_id_key u"
  by (auto simp: in_range_def cmp_cases)

lemma pair_loop_ref:
  "pair_loop u xs ys oc nc acc =
     (acc @ merge_ref (takeWhile (in_range u) xs) (takeWhile (in_range u) ys),
      \<lparr>mp_old_consumed = oc + length (takeWhile (in_range u) xs), mp_new_consumed = nc + length (takeWhile (in_range u) ys),
       mp_old_has_more = (dropWhile (in_range u) xs \<noteq> []), mp_new_has_more = (dropWhile (in_range u) ys \<noteq> [])\<rparr>)"
proof (induction u xs ys oc nc acc rule: pair_loop.induct)
  case (1 u xs ys oc nc acc)
  show ?case
  proof (cases "pair_order (range_head u xs) (range_head u ys)")
    case None
    then have "takeWhile (in_range u) xs = []" "takeWhile (in_range u) ys = []" "dropWhile (in_range u) xs = xs" "dropWhile (in_range u) ys = ys"
      by (auto simp: pair_order_def range_head_def split: option.splits list.splits if_splits)
    then show ?thesis using None by (simp add: pair_loop.simps[of u xs])
  next
    case (Some ord)
    show ?thesis
    proof (cases ord)
      case Less
      then obtain x xs' where xs: "xs = x # xs'" "in_range u x" "\<And>y ys'. ys = y # ys' \<Longrightarrow> in_range u y \<Longrightarrow> elem_key x < elem_key y"
        using Some by (auto simp: pair_order_def range_head_def cmp_cases split: option.splits list.splits if_splits)
      have "merge_ref (x # takeWhile (in_range u) xs') (takeWhile (in_range u) ys) = ElementOldOnly x # merge_ref (takeWhile (in_range u) xs') (takeWhile (in_range u) ys)"
        using xs(3) by (cases ys) auto
      moreover have "pair_loop u xs ys oc nc acc = pair_loop u (tl xs) ys (oc + 1) nc (acc @ [ElementOldOnly (hd xs)])" using Some Less by (subst pair_loop.simps) simp
      ultimately show ?thesis unfolding 1(1)[OF Some Less] using xs(1,2) by simp
    next
      case Greater
      then obtain y ys' where ys: "ys = y # ys'" "in_range u y" "\<And>x xs'. xs = x # xs' \<Longrightarrow> in_range u x \<Longrightarrow> elem_key y < elem_key x"
        using Some by (auto simp: pair_order_def range_head_def cmp_cases split: option.splits list.splits if_splits)
      have "merge_ref (takeWhile (in_range u) xs) (y # takeWhile (in_range u) ys') = ElementNewOnly y # merge_ref (takeWhile (in_range u) xs) (takeWhile (in_range u) ys')"
        using ys(3) by (cases xs) force+
      moreover have "pair_loop u xs ys oc nc acc = pair_loop u xs (tl ys) oc (nc + 1) (acc @ [ElementNewOnly (hd ys)])" using Some Greater by (subst pair_loop.simps) simp
      ultimately show ?thesis unfolding 1(3)[OF Some Greater] using ys(1,2) by simp
    next
      case Equal
      then obtain x xs' y ys' where xy: "xs = x # xs'" "in_range u x" "ys = y # ys'" "in_range u y" "elem_key x = elem_key y"
        using Some by (auto simp: pair_order_def range_head_def cmp_cases split: option.splits list.splits if_splits)
      have "pair_loop u xs ys oc nc acc = pair_loop u (tl xs) (tl ys) (oc + 1) (nc + 1) (acc @ [matched (hd xs) (hd ys)])"
        using Some Equal by (subst pair_loop.simps) simp
      then show ?thesis unfolding 1(2)[OF Some Equal] using xy by simp
    qed
  qed
qed

lemma strict_takeWhile_key:
  assumes "strict es"
  shows "e \<in> set (takeWhile (in_range u) es) \<Longrightarrow> elem_key e \<le> osm_id_key u" "e \<in> set (dropWhile (in_range u) es) \<Longrightarrow> osm_id_key u < elem_key e"
  using assms by (induction es) (auto simp: in_range_key not_le dest: less_trans split: if_splits)

lemma strict_drop_end: "strict es \<Longrightarrow> es \<noteq> [] \<Longrightarrow> elem_key (last es) \<le> osm_id_key u \<Longrightarrow> dropWhile (in_range u) es = []"
  using strict_last by (fastforce simp: in_range_key)

text \<open>One side after a pair was merged up to \<open>u\<close>: consumed, or its state moved on.\<close>

definition holds_rest :: "'a BlockState option \<Rightarrow> 'a MergeElement list \<Rightarrow> bool" where
  "holds_rest dec rest \<longleftrightarrow> (case dec of None \<Rightarrow> rest = [] | Some bs \<Rightarrow> offers bs rest \<and> rest \<noteq> [])"

lemma advance_rest:
  assumes "offers bs es"
  shows "holds_rest (if dropWhile (in_range u) es \<noteq> [] then Some (bs\<lparr>bs_skip := bs_skip bs + length (takeWhile (in_range u) es)\<rparr>) else None) (dropWhile (in_range u) es)"
proof (cases "dropWhile (in_range u) es = []")
  case False
  have len: "length (takeWhile (in_range u) es) + length (dropWhile (in_range u) es) = length es" by (metis length_append takeWhile_dropWhile_id)
  have "0 < length (dropWhile (in_range u) es)" using False by (simp only: length_greater_0_conv not_False_eq_True)
  then have "length (takeWhile (in_range u) es) < length es" using len by linarith
  from offers_advance[OF assms this] False show ?thesis by (simp add: holds_rest_def dropWhile_eq_drop[symmetric])
qed (simp add: holds_rest_def)

lemma claimed_max_ok:
  assumes "offers bs es" "has_more = (dropWhile (in_range u) es \<noteq> [])"
  shows "check_claimed_max side (bs_index bs) has_more u = Inr ()"
proof (cases has_more)
  case True
  then obtain e where e: "e \<in> set (dropWhile (in_range u) es)" using assms(2) by (metis last_in_set)
  have "osm_id_key u < elem_key e" using e assms(1) strict_takeWhile_key(2) by (auto simp: offers_def)
  moreover have "elem_key e \<le> desc_last_key (bs_index bs)" using e assms(1) by (auto simp: offers_def dest: set_dropWhileD)
  ultimately have "osm_id_key u < desc_last_key (bs_index bs)" by simp
  then show ?thesis by (auto simp: check_claimed_max_def cmp_cases blob_last_def last_id_key desc_last_key_def)
qed (simp add: check_claimed_max_def)

lemma merge_pair_parts:
  assumes "offers os ro" "offers ns rn" "ro \<noteq> []" "rn \<noteq> []"
  obtains u od nd where "osm_id_key u = min (elem_key (last ro)) (elem_key (last rn))"
    "merge_decoded_pair (Some os) (Some ns) = Inr (merge_ref (takeWhile (in_range u) ro) (takeWhile (in_range u) rn), od, nd)"
    "holds_rest od (dropWhile (in_range u) ro)" "holds_rest nd (dropWhile (in_range u) rn)"
    "dropWhile (in_range u) ro = [] \<or> dropWhile (in_range u) rn = []"
proof -
  let ?u = "if osm_id_cmp (state_last os) (state_last ns) \<noteq> Greater then state_last os else state_last ns"
  have runs: "run_elements (state_run os) = ro" "run_elements (state_run ns) = rn" "strict ro" "strict rn"
    "osm_id_key (state_last os) = elem_key (last ro)" "osm_id_key (state_last ns) = elem_key (last rn)"
    using assms by (simp_all add: offers_def)
  have u: "osm_id_key ?u = min (elem_key (last ro)) (elem_key (last rn))" using runs(5,6) by (auto simp: cmp_cases min_def)
  define o1 n1 where "o1 = takeWhile (in_range ?u) ro" and "n1 = takeWhile (in_range ?u) rn"
  define o2 n2 where "o2 = dropWhile (in_range ?u) ro" and "n2 = dropWhile (in_range ?u) rn"
  have checks: "check_claimed_max True (bs_index os) (o2 \<noteq> []) ?u = Inr ()" "check_claimed_max False (bs_index ns) (n2 \<noteq> []) ?u = Inr ()"
    using claimed_max_ok[OF assms(1)] claimed_max_ok[OF assms(2)] o2_def n2_def by blast+
  have "element_merge_pair os ns ?u = (merge_ref o1 n1,
      \<lparr>mp_old_consumed = length o1, mp_new_consumed = length n1, mp_old_has_more = (o2 \<noteq> []), mp_new_has_more = (n2 \<noteq> [])\<rparr>)"
    unfolding element_merge_pair_def runs(1,2) pair_loop_ref o1_def n1_def o2_def n2_def by simp
  then have "merge_decoded_pair (Some os) (Some ns) = Inr (merge_ref o1 n1,
      if o2 \<noteq> [] then Some (os\<lparr>bs_skip := bs_skip os + length o1\<rparr>) else None, if n2 \<noteq> [] then Some (ns\<lparr>bs_skip := bs_skip ns + length n1\<rparr>) else None)"
    using checks unfolding merge_decoded_pair_def Let_def by simp
  moreover have "o2 = [] \<or> n2 = []"
    using strict_drop_end[OF runs(3) assms(3)] strict_drop_end[OF runs(4) assms(4)] u unfolding o2_def n2_def by (metis min_def order_refl)
  ultimately show ?thesis
    using that[OF u] advance_rest[OF assms(1)] advance_rest[OF assms(2)] unfolding o1_def n1_def o2_def n2_def by blast
qed

section \<open>Sinks\<close>

text \<open>
  The trait \<open>MergeSink\<close>: what a sink owes the merge is that a single-sided run records as its elements, and,
  where equal blobs are skipped, that an equal blob records as that many equal elements. Then what it has
  recorded does not depend on how the merge cut the two inputs.
\<close>

locale merge_sink =
  fixes sink_record :: "'a BlockMergeAction \<Rightarrow> 's \<Rightarrow> 's" and skip_equal :: bool
  assumes old_run: "br_count r = of_nat (length (run_elements r)) \<Longrightarrow> sink_record (BlobOldOnly r) = fold sink_record (map ElementOldOnly (run_elements r))"
    and new_run: "br_count r = of_nat (length (run_elements r)) \<Longrightarrow> sink_record (BlobNewOnly r) = fold sink_record (map ElementNewOnly (run_elements r))"
    and equal_blob: "skip_equal \<Longrightarrow> n = of_nat (length es) \<Longrightarrow> sink_record (BlobEqual n) = fold sink_record (map ElementEqual es)"
begin

definition sees :: "'a BlockMergeAction list \<Rightarrow> 'a BlockMergeAction list \<Rightarrow> bool" where
  "sees acts ref \<longleftrightarrow> fold sink_record acts = fold sink_record ref"

lemma sees_refl: "sees acts acts"
  by (simp add: sees_def)

lemma sees_append: "sees as rs \<Longrightarrow> sees bs qs \<Longrightarrow> sees (as @ bs) (rs @ qs)"
  by (simp add: sees_def)

lemma sees_emit_old: "offers bs es \<Longrightarrow> sees (emit_block bs True) (map ElementOldOnly es)"
  using old_run[of "state_run bs"] by (auto simp: sees_def emit_block_def offers_def)

lemma sees_emit_new: "offers bs es \<Longrightarrow> sees (emit_block bs False) (map ElementNewOnly es)"
  using new_run[of "state_run bs"] by (auto simp: sees_def emit_block_def offers_def)

end

section \<open>What a side holds\<close>

text \<open>The side still holds \<open>rest\<close> of its decoded block and the frames of \<open>blocks\<close>, all in strict order.\<close>

definition holds_side :: "('z, 'a) BlockCodec \<Rightarrow> bool \<Rightarrow> ElementKind \<Rightarrow> Window \<Rightarrow> BlockPairSide \<Rightarrow> 'a BlockState option \<Rightarrow>
    'a MergeElement list \<Rightarrow> 'a MergeElement list list \<Rightarrow> bool" where
  "holds_side C rs k w side dec rest blocks \<longleftrightarrow> side_ok side \<and> ps_win side = w \<and> list_all2 (reads_as C rs k) (frames_left side) blocks \<and>
     holds_rest dec rest \<and> strict (rest @ concat blocks)"

definition side_rest :: "Window \<Rightarrow> 'a MergeElement list \<Rightarrow> 'a MergeElement list list \<Rightarrow> 'a MergeElement list" where
  "side_rest w rest blocks = rest @ window_part w (concat blocks)"

lemma window_part_Nil [simp]: "window_part w [] = []"
  by (simp add: window_part_def)

lemma window_part_append: "window_part w (xs @ ys) = window_part w xs @ window_part w ys"
  by (simp add: window_part_def)

lemma side_rest_Cons: "side_rest w rest (b # bs) = rest @ window_part w b @ window_part w (concat bs)"
  by (simp add: side_rest_def window_part_append)

lemma side_rest_simps [simp]: "side_rest w rest [] = rest" "side_rest w [] bs = window_part w (concat bs)"
  by (simp_all add: side_rest_def window_part_def)

text \<open>A side with no decoded block: it is over, or its next blob decodes to the window part of its next block.\<close>

lemma holds_side_over:
  assumes "holds_side C rs k w side None rest []"
  shows "next_blob side = (None, side)" "rest = []"
  using assms next_blob_Nil[of side] by (auto simp: holds_side_def holds_rest_def)

lemma holds_side_next:
  assumes "holds_side C rs k w side None rest (b # bs)"
  obtains f t st where "next_blob side = (Some (fm_index f), t)" "decode_side C t (fm_index f) = Inr st" "bs_index st = fm_index f"
    "offers st (window_part w b)" "reads_as C rs k f b" "gave f t" "rest = []" "ps_win t = w"
    "holds_side C rs k w (hold t) None [] (b # bs)" "holds_side C rs k w t (filter_spent st) (window_part w b) bs" "holds_side C rs k w t None [] bs"
proof -
  have h: "side_ok side" "ps_win side = w" "rest = []" "strict (b @ concat bs)" and l: "list_all2 (reads_as C rs k) (frames_left side) (b # bs)"
    using assms by (auto simp: holds_side_def holds_rest_def)
  then obtain f fs where f: "frames_left side = f # fs" "reads_as C rs k f b" "list_all2 (reads_as C rs k) fs bs" by (auto simp: list_all2_Cons2)
  from next_blob_Cons[OF h(1) f(1)] obtain t where t: "next_blob side = (Some (fm_index f), t)" "side_ok t" "frames_left t = fs" "gave f t" "ps_win t = w"
    using h(2) by auto
  obtain st where st: "decode_side C t (fm_index f) = Inr st" "bs_index st = fm_index f" "offers st (window_part w b)"
    using decode_reads[OF f(2) t(4)] t(5) by metis
  have "holds_rest (filter_spent st) (window_part w b)" using st(3) by (auto simp: holds_rest_def filter_spent_def offers_def)
  moreover have "strict (window_part w b @ concat bs)" using h(4) strict_window_part window_part_set[of w b] by auto
  ultimately have "holds_side C rs k w t (filter_spent st) (window_part w b) bs" using t f(3) by (simp add: holds_side_def)
  moreover have "holds_side C rs k w (hold t) None [] (b # bs)" "holds_side C rs k w t None [] bs"
    using gave_facts(2-4)[OF t(4,3)] t f(2,3) h(4) by (simp_all add: holds_side_def holds_rest_def)
  ultimately show ?thesis using that t(1,4,5) st f(2) h(3) by blast
qed

lemma next_decoded_holds:
  assumes "holds_side C rs k w side None rest blocks"
  obtains dec t rest' blocks' where "next_decoded C side = Inr (dec, t)" "holds_side C rs k w t dec rest' blocks'" "side_rest w rest' blocks' = side_rest w rest blocks"
    "dec = None \<longrightarrow> blocks' = []" "length blocks' + (if dec = None then 0 else 1) \<le> length blocks"
  using assms
proof (induction blocks arbitrary: side rest thesis)
  case Nil
  then show ?case using holds_side_over[OF Nil.prems(2)] by (simp add: next_decoded.simps[of C side])
next
  case (Cons b bs)
  obtain f t st where n: "next_blob side = (Some (fm_index f), t)" "decode_side C t (fm_index f) = Inr st" "bs_index st = fm_index f"
    "offers st (window_part w b)" "reads_as C rs k f b" "gave f t" "rest = []" "ps_win t = w"
    "holds_side C rs k w (hold t) None [] (b # bs)" "holds_side C rs k w t (filter_spent st) (window_part w b) bs" "holds_side C rs k w t None [] bs"
    by (rule holds_side_next[OF Cons.prems(2)])
  show ?case
  proof (cases "spent st")
    case True
    then have e: "window_part w b = []" using n(4) by (simp add: offers_def)
    obtain dec u rest' blocks' where d: "next_decoded C t = Inr (dec, u)" "holds_side C rs k w u dec rest' blocks'" "side_rest w rest' blocks' = side_rest w [] bs"
      "dec = None \<longrightarrow> blocks' = []" "length blocks' + (if dec = None then 0 else 1) \<le> length bs"
      by (rule Cons.IH[OF _ n(11)])
    have "next_decoded C side = next_decoded C t" using n(1,2) True by (simp add: next_decoded.simps[of C side])
    moreover have "side_rest w [] bs = side_rest w rest (b # bs)" using e n(7) by (simp add: window_part_append)
    ultimately show ?thesis using d by (intro Cons.prems(1)[of dec u rest' blocks']) simp_all
  next
    case False
    then have "next_decoded C side = Inr (Some st, t)" using n(1,2) by (simp add: next_decoded.simps[of C side])
    moreover have "side_rest w (window_part w b) bs = side_rest w rest (b # bs)" using n(7) by (simp add: side_rest_def window_part_append)
    ultimately show ?thesis using n(10) False by (intro Cons.prems(1)[of "Some st" t "window_part w b" bs]) (simp_all add: filter_spent_def)
  qed
qed

lemma fill_holds:
  assumes "holds_side C rs k w side dec rest blocks"
  obtains dec' t rest' blocks' where "fill_decoded C side dec = Inr (dec', t)" "holds_side C rs k w t dec' rest' blocks'"
    "side_rest w rest' blocks' = side_rest w rest blocks" "dec' = None \<longrightarrow> blocks' = []"
    "length blocks' + (if dec' = None then 0 else 1) \<le> length blocks + (if dec = None then 0 else 1)"
proof (cases dec)
  case None
  obtain dec' t rest' blocks' where "next_decoded C side = Inr (dec', t)" "holds_side C rs k w t dec' rest' blocks'"
    "side_rest w rest' blocks' = side_rest w rest blocks" "dec' = None \<longrightarrow> blocks' = []" "length blocks' + (if dec' = None then 0 else 1) \<le> length blocks"
    by (rule next_decoded_holds[OF assms[unfolded None]])
  then show ?thesis using None by (intro that[of dec' t rest' blocks']) (simp_all add: fill_decoded_def)
next
  case (Some bs)
  then show ?thesis using assms that[of "Some bs" side rest blocks] by (simp add: fill_decoded_def)
qed

lemma payload_data:
  assumes "raw_blob_payload P a = Inr (Some p)" "WireBlob_parse P a = Inr blob"
  shows "\<exists>data. wb_data blob = Some data \<and> p = (case data of Raw b \<Rightarrow> (0, b) | Zlib b \<Rightarrow> (1, b) | Zstd b \<Rightarrow> (2, b))"
  using assms
  by (auto simp: raw_blob_payload_def parse_raw_envelope_eq envelope_of_def blob_RAW_def blob_ZLIB_DATA_def blob_ZSTD_DATA_def split: BlobData.splits)

lemma payload_decompresses:
  assumes "decoders_ok D stream" "raw_blob_payload P a = Inr (Some p)" "decompress_blob_raw P D a buf = Inr x"
  shows "\<exists>data. p = (case data of Raw b \<Rightarrow> (0, b) | Zlib b \<Rightarrow> (1, b) | Zstd b \<Rightarrow> (2, b)) \<and> payload_bytes D stream data = Some x"
proof (cases "WireBlob_parse P a")
  case (Inl e)
  then show ?thesis using assms(2) by (simp add: raw_blob_payload_def parse_raw_envelope_eq)
next
  case (Inr blob)
  obtain data where d: "wb_data blob = Some data" "p = (case data of Raw b \<Rightarrow> (0, b) | Zlib b \<Rightarrow> (1, b) | Zstd b \<Rightarrow> (2, b))"
    using payload_data[OF assms(2) Inr] by blast
  have "blob_bytes D stream blob = Some x" using raw_path_yields[OF assms(1), of P a buf] Inr assms(3) by (auto simp: yields_def split: option.splits)
  then have "payload_bytes D stream data = Some x" using d(1) by (auto simp: blob_bytes_def split: option.splits if_splits)
  then show ?thesis using d(2) by blast
qed

lemma same_payload:
  assumes "decoders_ok (bc_decoders C) stream" "raw_blob_payload (bc_proto C) a = Inr (Some p)" "raw_blob_payload (bc_proto C) b = Inr (Some p)"
    and "decode_body C a = Inr xs" "decode_body C b = Inr ys"
  shows "xs = ys"
proof -
  obtain x y where xy: "decompress_blob_raw (bc_proto C) (bc_decoders C) a Vec_new = Inr x" "bc_parse C x = Inr xs"
    "decompress_blob_raw (bc_proto C) (bc_decoders C) b Vec_new = Inr y" "bc_parse C y = Inr ys"
    using assms(4,5) by (auto simp: decode_body_def split: sum.splits)
  obtain d1 d2 where d: "p = (case d1 of Raw b \<Rightarrow> (0, b) | Zlib b \<Rightarrow> (1, b) | Zstd b \<Rightarrow> (2, b))" "payload_bytes (bc_decoders C) stream d1 = Some x"
    "p = (case d2 of Raw b \<Rightarrow> (0, b) | Zlib b \<Rightarrow> (1, b) | Zstd b \<Rightarrow> (2, b))" "payload_bytes (bc_decoders C) stream d2 = Some y"
    using payload_decompresses[OF assms(1,2) xy(1)] payload_decompresses[OF assms(1,3) xy(3)] by blast
  have "d1 = d2" using d(1,3) by (cases d1; cases d2; simp)
  then have "x = y" using d(2,4) by simp
  then show ?thesis using xy by simp
qed

lemma byte_equal_blocks:
  assumes "decoders_ok (bc_decoders C) stream" "blobs_byte_equal C t (fm_index f) u (fm_index g) = Inr True"
    and "reads_as C rs k f xs" "gave f t" "reads_as C rs k g ys" "gave g u"
  shows "xs = ys" "window_part (ps_win t) xs = xs" "count (fm_index f) = of_nat (length xs)"
proof -
  have c: "\<not> crosses (ps_win t) (fm_index f)"
    and p: "\<exists>p. raw_blob_payload (bc_proto C) (fm_body f) = Inr (Some p) \<and> raw_blob_payload (bc_proto C) (fm_body g) = Inr (Some p)"
    using assms(2) by (auto simp: blobs_byte_equal_def side_payload_def gave_facts(1)[OF assms(4) refl] gave_facts(1)[OF assms(6) refl]
        split: if_splits sum.splits option.splits)
  show "xs = ys" using p same_payload[OF assms(1)] assms(3,5) by (auto simp: reads_as_def)
  show "window_part (ps_win t) xs = xs" using uncrossed_inside[OF c, of xs] assms(3) by (simp add: reads_as_def)
  show "count (fm_index f) = of_nat (length xs)" using assms(3) by (simp add: reads_as_def exact_claim_def)
qed

lemma decoded_payload: "decode_body C a = Inr es \<Longrightarrow> \<exists>p. raw_blob_payload (bc_proto C) a = Inr p"
  by (auto simp: decode_body_def decompress_blob_raw_def raw_blob_payload_def Let_def split: sum.splits)

lemma byte_equal_decides:
  assumes "reads_as C rs k f xs" "gave f t" "reads_as C rs k g ys" "gave g u"
  shows "\<exists>r. blobs_byte_equal C t (fm_index f) u (fm_index g) = Inr r"
  using assms decoded_payload[of C "fm_body f" xs] decoded_payload[of C "fm_body g" ys]
  by (auto simp: blobs_byte_equal_def side_payload_def reads_as_def gave_facts(1)[OF assms(2) refl] gave_facts(1)[OF assms(4) refl])

lemma merge_ref_same: "\<forall>e \<in> set es. content_equal e e \<Longrightarrow> merge_ref es es = map ElementEqual es"
  by (induction es) (auto simp: matched_def)

text \<open>Everything a side still holds lies behind its decoded block, and at or past the first key its next frame claims.\<close>

lemma side_rest_order:
  assumes "holds_side C rs k w side dec rest blocks"
  shows "strict (side_rest w rest blocks)"
  using assms strict_window_part[of "concat blocks" w] window_part_set[of w "concat blocks"]
  by (auto simp: holds_side_def side_rest_def)

lemma frame_first:
  assumes "reads_as C rs k f b" "strict (b @ concat bs)" "e \<in> set (side_rest w [] (b # bs))"
  shows "desc_first_key (fm_index f) \<le> elem_key e"
proof -
  have x: "exact_claim (fm_index f) (map me_id b)" and ne: "b \<noteq> []" using assms(1) by (auto simp: reads_as_def exact_claim_def)
  consider "e \<in> set b" | "e \<in> set (concat bs)" using assms(3) window_part_set[of w b] window_part_set[of w "concat bs"] by (auto simp: side_rest_Cons)
  then show ?thesis
  proof cases
    case 1
    then show ?thesis using claim_bounds(1)[OF x] by blast
  next
    case 2
    then have "elem_key (hd b) < elem_key e" using assms(2) ne by auto
    then show ?thesis using claim_bounds(1)[OF x, of "hd b"] ne by simp
  qed
qed

lemma strict_behind: "strict (rest @ ys) \<Longrightarrow> rest \<noteq> [] \<Longrightarrow> e \<in> set ys \<Longrightarrow> elem_key (last rest) < elem_key e"
  by auto

lemma holds_side_suffix:
  assumes "holds_side C rs k w side dec rest blocks" "holds_rest dec' (dropWhile P rest)"
  shows "holds_side C rs k w side dec' (dropWhile P rest) blocks"
proof -
  have "strict (dropWhile P rest)" using assms(1) takeWhile_dropWhile_id[of P rest] unfolding holds_side_def by (metis strict_simps(3))
  then show ?thesis using assms by (auto simp: holds_side_def dest: set_dropWhileD)
qed

text \<open>Blocks whose claims are apart: the first lies before all the other side holds.\<close>

lemma claims_apart:
  assumes "blob_entirely_before (bs_index as) (bs_index bs)" "offers as xs" "offers bs ys" "ys \<noteq> []" "\<forall>b \<in> set zs. elem_key (last ys) < elem_key b"
  shows "\<forall>a \<in> set xs. \<forall>b \<in> set (ys @ zs). elem_key a < elem_key b"
proof (intro ballI)
  fix a b
  assume "a \<in> set xs" "b \<in> set (ys @ zs)"
  have lt: "desc_last_key (bs_index as) < desc_first_key (bs_index bs)" using assms(1) by (simp add: blob_entirely_before_def desc_last_key_def desc_first_key_def)
  have "elem_key a \<le> desc_last_key (bs_index as)" using \<open>a \<in> set xs\<close> assms(2) by (simp add: offers_def)
  moreover have first: "desc_first_key (bs_index bs) \<le> elem_key y" if "y \<in> set ys" for y using that assms(3) by (simp add: offers_def)
  have "desc_first_key (bs_index bs) \<le> elem_key b"
  proof (cases "b \<in> set ys")
    case False
    then have "elem_key (last ys) < elem_key b" using \<open>b \<in> set (ys @ zs)\<close> assms(5) by simp
    then show ?thesis using first[OF last_in_set[OF assms(4)]] by simp
  qed (rule first)
  ultimately show "elem_key a < elem_key b" using lt by simp
qed

text \<open>How much a state has left: its frames and its decoded blocks.\<close>

definition pair_left :: "'a PairState \<Rightarrow> 'a MergeElement list list \<Rightarrow> 'a MergeElement list list \<Rightarrow> nat" where
  "pair_left st ob nb = length ob + (if pr_old_decoded st = None then 0 else 1) + length nb + (if pr_new_decoded st = None then 0 else 1)"

definition holds_pair :: "('z, 'a) BlockCodec \<Rightarrow> bool \<Rightarrow> ElementKind \<Rightarrow> Window \<Rightarrow> 'a PairState \<Rightarrow>
    'a MergeElement list \<Rightarrow> 'a MergeElement list list \<Rightarrow> 'a MergeElement list \<Rightarrow> 'a MergeElement list list \<Rightarrow> bool" where
  "holds_pair C rs k w st ro ob rn nb \<longleftrightarrow>
     holds_side C rs k w (pr_old st) (pr_old_decoded st) ro ob \<and> holds_side C rs k w (pr_new st) (pr_new_decoded st) rn nb"

context merge_sink
begin

text \<open>An iteration ends the merge, having recorded all of it, or records a first part and leaves less.\<close>

definition good_step :: "('z, 'a) BlockCodec \<Rightarrow> ElementKind \<Rightarrow> Window \<Rightarrow> 'a MergeElement list \<Rightarrow> 'a MergeElement list \<Rightarrow> nat \<Rightarrow>
    'a BlockMergeAction list \<times> 'a PairState option \<Rightarrow> bool" where
  "good_step C k w xs ys m r \<longleftrightarrow>
     (case r of
        (acts, None) \<Rightarrow> sees acts (merge_ref xs ys)
      | (acts, Some st) \<Rightarrow> \<exists>ro ob rn nb ref. holds_pair C skip_equal k w st ro ob rn nb \<and> pair_left st ob nb < m \<and>
          sees acts ref \<and> merge_ref xs ys = ref @ merge_ref (side_rest w ro ob) (side_rest w rn nb))"

lemma drain_sees:
  assumes "holds_side C rs k w side None rest blocks"
  shows "\<exists>acts. drain_remaining C is_old side = Inr acts \<and> sees acts (map (if is_old then ElementOldOnly else ElementNewOnly) (side_rest w rest blocks))"
  using assms
proof (induction "length blocks" arbitrary: side rest blocks rule: less_induct)
  case less
  obtain dec t rest' blocks' where n: "next_decoded C side = Inr (dec, t)" "holds_side C rs k w t dec rest' blocks'"
    "side_rest w rest' blocks' = side_rest w rest blocks" "dec = None \<longrightarrow> blocks' = []" "length blocks' + (if dec = None then 0 else 1) \<le> length blocks"
    by (rule next_decoded_holds[OF less.prems])
  show ?case
  proof (cases dec)
    case None
    then have "side_rest w rest blocks = []" using n by (simp add: holds_side_def holds_rest_def flip: n(3))
    then show ?thesis using n(1) None by (simp add: drain_remaining.simps[of C is_old side] sees_refl)
  next
    case (Some bs)
    have o: "offers bs rest'" using n(2) Some by (simp add: holds_side_def holds_rest_def)
    have "holds_side C rs k w t None [] blocks'" using n(2) by (simp add: holds_side_def holds_rest_def)
    from less.hyps[OF _ this] n(5) Some obtain acts where a: "drain_remaining C is_old t = Inr acts"
      "sees acts (map (if is_old then ElementOldOnly else ElementNewOnly) (side_rest w [] blocks'))" by auto
    have "sees (emit_block bs is_old @ acts) (map (if is_old then ElementOldOnly else ElementNewOnly) (rest' @ side_rest w [] blocks'))"
      using sees_append[OF sees_emit_old[OF o] a(2)] sees_append[OF sees_emit_new[OF o] a(2)] by (cases is_old) simp_all
    moreover have "rest' @ side_rest w [] blocks' = side_rest w rest blocks" using n(3) by (simp add: side_rest_def)
    moreover have "drain_remaining C is_old side = Inr (emit_block bs is_old @ acts)" using n(1) a(1) Some by (simp add: drain_remaining.simps[of C is_old side])
    ultimately show ?thesis by metis
  qed
qed

lemma good_part:
  assumes "holds_side C skip_equal k w (pr_old st) (pr_old_decoded st) ro ob" "holds_side C skip_equal k w (pr_new st) (pr_new_decoded st) rn nb"
    and "pair_left st ob nb < m" "sees acts (merge_ref po pn)" "xs = po @ side_rest w ro ob" "ys = pn @ side_rest w rn nb"
    and "\<forall>a \<in> set po. \<forall>b \<in> set (side_rest w rn nb). elem_key a < elem_key b" "\<forall>a \<in> set pn. \<forall>b \<in> set (side_rest w ro ob). elem_key a < elem_key b"
  shows "good_step C k w xs ys m (acts, Some st)"
  using assms(1-4) merge_ref_split[OF assms(7,8)] unfolding good_step_def holds_pair_def assms(5,6) prod.case option.case by blast

lemma overlap_good:
  assumes o: "holds_side C skip_equal k w old (Some os) ro ob" and n: "holds_side C skip_equal k w new (Some ns) rn nb"
    and m: "length ob + 1 + (length nb + 1) \<le> m"
    and behind: "\<forall>b \<in> set (window_part w (concat ob)). elem_key (last ro) < elem_key b" "\<forall>b \<in> set (window_part w (concat nb)). elem_key (last rn) < elem_key b"
  shows "\<exists>acts od nd. merge_decoded_pair (Some os) (Some ns) = Inr (acts, od, nd) \<and>
    good_step C k w (side_rest w ro ob) (side_rest w rn nb) m (acts, Some \<lparr>pr_old = old, pr_new = new, pr_old_decoded = od, pr_new_decoded = nd\<rparr>)"
proof -
  have f: "offers os ro" "offers ns rn" "ro \<noteq> []" "rn \<noteq> []" and st: "strict ro" "strict rn" using o n by (simp_all add: holds_side_def holds_rest_def offers_def)
  obtain u od nd where u: "osm_id_key u = min (elem_key (last ro)) (elem_key (last rn))"
    "merge_decoded_pair (Some os) (Some ns) = Inr (merge_ref (takeWhile (in_range u) ro) (takeWhile (in_range u) rn), od, nd)"
    "holds_rest od (dropWhile (in_range u) ro)" "holds_rest nd (dropWhile (in_range u) rn)"
    "dropWhile (in_range u) ro = [] \<or> dropWhile (in_range u) rn = []"
    by (rule merge_pair_parts[OF f])
  let ?st = "\<lparr>pr_old = old, pr_new = new, pr_old_decoded = od, pr_new_decoded = nd\<rparr>"
  let ?o = "dropWhile (in_range u) ro" and ?n = "dropWhile (in_range u) rn"
  have le: "osm_id_key u \<le> elem_key (last ro)" "osm_id_key u \<le> elem_key (last rn)" using u(1) by simp_all
  have above: "osm_id_key u < elem_key b" if "b \<in> set (side_rest w ?o ob) \<union> set (side_rest w ?n nb)" for b
    using that strict_takeWhile_key(2)[OF st(1)] strict_takeWhile_key(2)[OF st(2)] behind le unfolding side_rest_def by (fastforce dest: le_less_trans)
  have sep: "\<forall>a \<in> set (takeWhile (in_range u) ro). \<forall>b \<in> set (side_rest w ?n nb). elem_key a < elem_key b"
    "\<forall>a \<in> set (takeWhile (in_range u) rn). \<forall>b \<in> set (side_rest w ?o ob). elem_key a < elem_key b"
    using strict_takeWhile_key(1)[OF st(1)] strict_takeWhile_key(1)[OF st(2)] above by (meson UnI1 UnI2 le_less_trans)+
  have sides: "holds_side C skip_equal k w old od ?o ob" "holds_side C skip_equal k w new nd ?n nb"
    using o n u(3,4) holds_side_suffix by blast+
  have "od = None \<or> nd = None" using u(3-5) by (auto simp: holds_rest_def split: option.splits)
  then have "good_step C k w (side_rest w ro ob) (side_rest w rn nb) m (merge_ref (takeWhile (in_range u) ro) (takeWhile (in_range u) rn), Some ?st)"
    using sides m sep
    by (intro good_part[where ro = ?o and ob = ob and rn = ?n and nb = nb and po = "takeWhile (in_range u) ro" and pn = "takeWhile (in_range u) rn"])
      (auto simp: pair_left_def sees_refl, simp_all add: side_rest_def)
  then show ?thesis using u(2) by blast
qed

lemma slow_match_good:
  assumes o: "holds_side C skip_equal k w old od ro ob" "od = None \<longrightarrow> ob = []" and n: "holds_side C skip_equal k w new nd rn nb" "nd = None \<longrightarrow> nb = []"
    and m: "length ob + (if od = None then 0 else 1) + (length nb + (if nd = None then 0 else 1)) \<le> m"
  shows "\<exists>r. slow_match old new od nd = Inr r \<and> good_step C k w (side_rest w ro ob) (side_rest w rn nb) m r"
proof -
  let ?st = "\<lparr>pr_old = old, pr_new = new, pr_old_decoded = None, pr_new_decoded = None\<rparr>"
  have o0: "holds_side C skip_equal k w old None [] ob" and n0: "holds_side C skip_equal k w new None [] nb"
    using o(1) n(1) by (simp_all add: holds_side_def holds_rest_def)
  have O: "od = None \<Longrightarrow> ro = [] \<and> ob = []" "\<And>os. od = Some os \<Longrightarrow> offers os ro \<and> ro \<noteq> []" using o by (auto simp: holds_side_def holds_rest_def)
  have N: "nd = None \<Longrightarrow> rn = [] \<and> nb = []" "\<And>ns. nd = Some ns \<Longrightarrow> offers ns rn \<and> rn \<noteq> []" using n by (auto simp: holds_side_def holds_rest_def)
  have bo: "\<forall>b \<in> set (window_part w (concat ob)). elem_key (last ro) < elem_key b" if "ro \<noteq> []"
    using that o(1) strict_behind[of ro "concat ob"] window_part_set[of w "concat ob"] by (auto simp: holds_side_def)
  have bn: "\<forall>b \<in> set (window_part w (concat nb)). elem_key (last rn) < elem_key b" if "rn \<noteq> []"
    using that n(1) strict_behind[of rn "concat nb"] window_part_set[of w "concat nb"] by (auto simp: holds_side_def)
  have emit_old: "good_step C k w (side_rest w ro ob) (side_rest w rn nb) m (emit_block os True, Some (?st\<lparr>pr_new_decoded := nd\<rparr>))"
    if "od = Some os" "\<forall>a \<in> set ro. \<forall>b \<in> set (side_rest w rn nb). elem_key a < elem_key b" for os
    by (rule good_part[where ro = "[]" and ob = ob and rn = rn and nb = nb and po = ro and pn = "[]"])
      (use that o0 n(1) sees_emit_old[of os ro] O(2) m in \<open>simp_all add: pair_left_def side_rest_def[of w ro]\<close>)
  have emit_new: "good_step C k w (side_rest w ro ob) (side_rest w rn nb) m (emit_block ns False, Some (?st\<lparr>pr_old_decoded := od\<rparr>))"
    if "nd = Some ns" "\<forall>a \<in> set rn. \<forall>b \<in> set (side_rest w ro ob). elem_key a < elem_key b" for ns
    by (rule good_part[where ro = ro and ob = ob and rn = "[]" and nb = nb and po = "[]" and pn = rn])
      (use that n0 o(1) sees_emit_new[of ns rn] N(2) m in \<open>simp_all add: pair_left_def side_rest_def[of w rn]\<close>)
  show ?thesis
  proof (cases od)
    case oN: None
    show ?thesis
      using oN O(1) N(1) emit_new by (cases nd) (simp_all add: slow_match_def good_step_def sees_refl)
  next
    case oS: (Some os)
    note f = O(2)[OF oS]
    show ?thesis
    proof (cases nd)
      case None
      then show ?thesis using oS N(1) emit_old[OF oS] by (simp add: slow_match_def)
    next
      case nS: (Some ns)
      note g = N(2)[OF nS]
      consider (before) "blob_entirely_before (bs_index os) (bs_index ns)" | (after) "\<not> blob_entirely_before (bs_index os) (bs_index ns)" "blob_entirely_before (bs_index ns) (bs_index os)"
        | (overlap) "\<not> blob_entirely_before (bs_index os) (bs_index ns)" "\<not> blob_entirely_before (bs_index ns) (bs_index os)" by blast
      then show ?thesis
      proof cases
        case before
        have "\<forall>a \<in> set ro. \<forall>b \<in> set (side_rest w rn nb). elem_key a < elem_key b"
          unfolding side_rest_def using f g bn by (intro claims_apart[OF before]) blast+
        from emit_old[OF oS this] show ?thesis using before oS nS by (simp add: slow_match_def)
      next
        case after
        have "\<forall>a \<in> set rn. \<forall>b \<in> set (side_rest w ro ob). elem_key a < elem_key b"
          unfolding side_rest_def using f g bo by (intro claims_apart[OF after(2)]) blast+
        from emit_new[OF nS this] show ?thesis using after oS nS by (simp add: slow_match_def)
      next
        case overlap
        have "length ob + 1 + (length nb + 1) \<le> m" using m oS nS by simp
        from overlap_good[OF o(1)[unfolded oS] n(1)[unfolded nS] this] f g bo bn show ?thesis using overlap oS nS by (fastforce simp: slow_match_def)
      qed
    qed
  qed
qed

lemma slow_step_good:
  assumes "holds_pair C skip_equal k w st ro ob rn nb" "pair_left st ob nb \<le> m"
  shows "\<exists>r. slow_step C st = Inr r \<and> good_step C k w (side_rest w ro ob) (side_rest w rn nb) m r"
proof -
  have h: "holds_side C skip_equal k w (pr_old st) (pr_old_decoded st) ro ob" "holds_side C skip_equal k w (pr_new st) (pr_new_decoded st) rn nb"
    using assms(1) by (simp_all add: holds_pair_def)
  obtain od old ro' ob' where o: "fill_decoded C (pr_old st) (pr_old_decoded st) = Inr (od, old)" "holds_side C skip_equal k w old od ro' ob'"
    "side_rest w ro' ob' = side_rest w ro ob" "od = None \<longrightarrow> ob' = []" "length ob' + (if od = None then 0 else 1) \<le> length ob + (if pr_old_decoded st = None then 0 else 1)"
    by (rule fill_holds[OF h(1)])
  obtain nd new rn' nb' where n: "fill_decoded C (pr_new st) (pr_new_decoded st) = Inr (nd, new)" "holds_side C skip_equal k w new nd rn' nb'"
    "side_rest w rn' nb' = side_rest w rn nb" "nd = None \<longrightarrow> nb' = []" "length nb' + (if nd = None then 0 else 1) \<le> length nb + (if pr_new_decoded st = None then 0 else 1)"
    by (rule fill_holds[OF h(2)])
  have "length ob' + (if od = None then 0 else 1) + (length nb' + (if nd = None then 0 else 1)) \<le> m" using o(5) n(5) assms(2) by (simp add: pair_left_def)
  from slow_match_good[OF o(2,4) n(2,4) this] show ?thesis using o(1,3) n(1,3) by (simp add: slow_step_def)
qed

lemma emit_and_drain_sees:
  assumes "holds_side C skip_equal k w t None [] bs" "decode_side C t ix = Inr st" "offers st es"
  shows "\<exists>acts. emit_and_drain C is_old t ix = Inr acts \<and> sees acts (map (if is_old then ElementOldOnly else ElementNewOnly) (es @ side_rest w [] bs))"
proof -
  obtain acts where a: "drain_remaining C is_old t = Inr acts" "sees acts (map (if is_old then ElementOldOnly else ElementNewOnly) (side_rest w [] bs))"
    using drain_sees[OF assms(1)] by blast
  have "sees (emit_block st is_old @ acts) (map (if is_old then ElementOldOnly else ElementNewOnly) (es @ side_rest w [] bs))"
    using sees_append[OF sees_emit_old[OF assms(3)] a(2)] sees_append[OF sees_emit_new[OF assms(3)] a(2)] by (cases is_old) simp_all
  then show ?thesis using a(1) assms(2) by (simp add: emit_and_drain_def)
qed

text \<open>The step \<open>fresh_step\<close> makes on two frames, by the claims and payloads of the pair.\<close>

definition good_flow :: "('z, 'a) BlockCodec \<Rightarrow> ElementKind \<Rightarrow> Window \<Rightarrow> 'a MergeElement list \<Rightarrow> 'a MergeElement list \<Rightarrow> nat \<Rightarrow>
    'a BlockMergeAction list \<times> 'a flow \<Rightarrow> bool" where
  "good_flow C k w xs ys m r \<longleftrightarrow>
     (case r of
        (acts, Break) \<Rightarrow> good_step C k w xs ys m (acts, None)
      | (acts, Continue st) \<Rightarrow> good_step C k w xs ys m (acts, Some st)
      | (acts, Fall st) \<Rightarrow> \<exists>ro ob rn nb. holds_pair C skip_equal k w st ro ob rn nb \<and> pair_left st ob nb \<le> m \<and>
          xs = side_rest w ro ob \<and> ys = side_rest w rn nb)"

lemma equal_good:
  assumes "holds_side C skip_equal k w t None [] bs" "holds_side C skip_equal k w u None [] cs" "length (b # bs) + length (c # cs) \<le> m"
    and "b = c" "window_part w b = b" "n = of_nat (length b)" "skip_equal" "\<forall>e \<in> set b. content_equal e e" "strict (b @ concat bs)" "strict (c @ concat cs)"
  shows "good_step C k w (side_rest w [] (b # bs)) (side_rest w [] (c # cs)) m
    ([BlobEqual n], Some \<lparr>pr_old = t, pr_new = u, pr_old_decoded = None, pr_new_decoded = None\<rparr>)"
proof -
  have "sees [BlobEqual n] (merge_ref b c)" using equal_blob[OF assms(7,6)] merge_ref_same[OF assms(8)] assms(4) by (simp add: sees_def)
  then show ?thesis
    by (intro good_part[where ro = "[]" and ob = bs and rn = "[]" and nb = cs and po = b and pn = c])
      (use assms(1-5,9,10) window_part_set[of w "concat bs"] window_part_set[of w "concat cs"] in \<open>auto simp: pair_left_def window_part_append\<close>)
qed

lemma fresh_pair_good:
  assumes dec: "decoders_ok (bc_decoders C) stream"
    and o: "holds_side C skip_equal k w old None [] (b # bs)" and n: "holds_side C skip_equal k w new None [] (c # cs)"
    and m: "length (b # bs) + length (c # cs) \<le> m"
  shows "\<exists>r. fresh_step C skip_equal old new = Inr r \<and> good_flow C k w (side_rest w [] (b # bs)) (side_rest w [] (c # cs)) m r"
proof -
  obtain f t st where f: "next_blob old = (Some (fm_index f), t)" "decode_side C t (fm_index f) = Inr st" "bs_index st = fm_index f"
    "offers st (window_part w b)" "reads_as C skip_equal k f b" "gave f t" "[] = ([] :: 'a MergeElement list)" "ps_win t = w"
    "holds_side C skip_equal k w (hold t) None [] (b # bs)" "holds_side C skip_equal k w t (filter_spent st) (window_part w b) bs" "holds_side C skip_equal k w t None [] bs"
    by (rule holds_side_next[OF o])
  obtain g u su where g: "next_blob new = (Some (fm_index g), u)" "decode_side C u (fm_index g) = Inr su" "bs_index su = fm_index g"
    "offers su (window_part w c)" "reads_as C skip_equal k g c" "gave g u" "[] = ([] :: 'a MergeElement list)" "ps_win u = w"
    "holds_side C skip_equal k w (hold u) None [] (c # cs)" "holds_side C skip_equal k w u (filter_spent su) (window_part w c) cs" "holds_side C skip_equal k w u None [] cs"
    by (rule holds_side_next[OF n])
  let ?st = "\<lparr>pr_old = t, pr_new = u, pr_old_decoded = None, pr_new_decoded = None\<rparr>"
  have sorted: "strict (b @ concat bs)" "strict (c @ concat cs)" using o n by (simp_all add: holds_side_def)
  have lasts: "e \<in> set (window_part w b) \<Longrightarrow> elem_key e \<le> desc_last_key (fm_index f)" "e \<in> set (window_part w c) \<Longrightarrow> elem_key e \<le> desc_last_key (fm_index g)" for e
    using f(3,4) g(3,4) by (simp_all add: offers_def)
  obtain eq where eq: "blobs_byte_equal C t (fm_index f) u (fm_index g) = Inr eq" using byte_equal_decides[OF f(5,6) g(5,6)] by blast
  consider (before) "blob_entirely_before (fm_index f) (fm_index g)"
    | (after) "\<not> blob_entirely_before (fm_index f) (fm_index g)" "blob_entirely_before (fm_index g) (fm_index f)"
    | (equal) "\<not> blob_entirely_before (fm_index f) (fm_index g)" "\<not> blob_entirely_before (fm_index g) (fm_index f)" "skip_equal" "eq"
    | (overlap) "\<not> blob_entirely_before (fm_index f) (fm_index g)" "\<not> blob_entirely_before (fm_index g) (fm_index f)" "\<not> (skip_equal \<and> eq)" by blast
  then show ?thesis
  proof cases
    case before
    have "\<forall>x \<in> set (window_part w b). \<forall>y \<in> set (side_rest w [] (c # cs)). elem_key x < elem_key y"
      using before lasts(1) frame_first[OF g(5) sorted(2)] unfolding blob_entirely_before_def desc_last_key_def desc_first_key_def
      by (meson le_less_trans less_le_trans)
    then have "good_step C k w (side_rest w [] (b # bs)) (side_rest w [] (c # cs)) m (emit_block st True, Some (?st\<lparr>pr_new := hold u\<rparr>))"
      by (intro good_part[where ro = "[]" and ob = bs and rn = "[]" and nb = "c # cs" and po = "window_part w b" and pn = "[]"])
        (use f(11) g(9) m sees_emit_old[OF f(4)] in \<open>simp_all add: pair_left_def window_part_append\<close>)
    then show ?thesis using f(1,2) g(1) before by (simp add: fresh_step_def good_flow_def)
  next
    case after
    have "\<forall>x \<in> set (window_part w c). \<forall>y \<in> set (side_rest w [] (b # bs)). elem_key x < elem_key y"
      using after(2) lasts(2) frame_first[OF f(5) sorted(1)] unfolding blob_entirely_before_def desc_last_key_def desc_first_key_def
      by (meson le_less_trans less_le_trans)
    then have "good_step C k w (side_rest w [] (b # bs)) (side_rest w [] (c # cs)) m (emit_block su False, Some (?st\<lparr>pr_old := hold t\<rparr>))"
      by (intro good_part[where ro = "[]" and ob = "b # bs" and rn = "[]" and nb = cs and po = "[]" and pn = "window_part w c"])
        (use f(9) g(11) m sees_emit_new[OF g(4)] in \<open>simp_all add: pair_left_def window_part_append\<close>)
    then show ?thesis using f(1) g(1,2) after by (simp add: fresh_step_def good_flow_def)
  next
    case equal
    have "good_step C k w (side_rest w [] (b # bs)) (side_rest w [] (c # cs)) m ([BlobEqual (count (fm_index f))], Some ?st)"
      using byte_equal_blocks[OF dec eq[unfolded eqTrueI[OF equal(4)]] f(5,6) g(5,6)] f(5,8,11) g(11) m sorted equal(3)
      by (intro equal_good) (simp_all add: reads_as_def)
    moreover have "fresh_step C skip_equal old new = Inr ([BlobEqual (count (fm_index f))], Continue ?st)"
      using f(1) g(1) equal eq by (simp add: fresh_step_def)
    ultimately show ?thesis by (simp add: good_flow_def)
  next
    case overlap
    let ?fall = "?st\<lparr>pr_old_decoded := filter_spent st, pr_new_decoded := filter_spent su\<rparr>"
    have "fresh_step C skip_equal old new = Inr ([], Fall ?fall)"
      using f(1,2) g(1,2) overlap eq by (cases eq) (simp_all add: fresh_step_def)
    moreover have "good_flow C k w (side_rest w [] (b # bs)) (side_rest w [] (c # cs)) m ([], Fall ?fall)"
      unfolding good_flow_def prod.case flow.case using f(10) g(10) m
      by (intro exI[of _ "window_part w b"] exI[of _ bs] exI[of _ "window_part w c"] exI[of _ cs])
        (simp add: holds_pair_def pair_left_def side_rest_def window_part_append)
    ultimately show ?thesis by blast
  qed
qed

lemma fresh_good:
  assumes "decoders_ok (bc_decoders C) stream" "holds_side C skip_equal k w old None ro ob" "holds_side C skip_equal k w new None rn nb"
    and "length ob + length nb \<le> m"
  shows "\<exists>r. fresh_step C skip_equal old new = Inr r \<and> good_flow C k w (side_rest w ro ob) (side_rest w rn nb) m r"
proof -
  have e: "ro = []" "rn = []" using assms(2,3) by (simp_all add: holds_side_def holds_rest_def)
  show ?thesis
  proof (cases ob)
    case oN: Nil
    note O = holds_side_over[OF assms(2)[unfolded oN]]
    show ?thesis
    proof (cases nb)
      case Nil
      then show ?thesis using oN O holds_side_over[OF assms(3)[unfolded Nil]] by (simp add: fresh_step_def good_flow_def good_step_def sees_refl)
    next
      case (Cons c cs)
      obtain g u su where g: "next_blob new = (Some (fm_index g), u)" "decode_side C u (fm_index g) = Inr su" "bs_index su = fm_index g"
        "offers su (window_part w c)" "reads_as C skip_equal k g c" "gave g u" "rn = []" "ps_win u = w"
        "holds_side C skip_equal k w (hold u) None [] (c # cs)" "holds_side C skip_equal k w u (filter_spent su) (window_part w c) cs" "holds_side C skip_equal k w u None [] cs"
        by (rule holds_side_next[OF assms(3)[unfolded Cons]])
      from emit_and_drain_sees[OF g(11,2,4), of False] show ?thesis
        using g(1) O oN Cons e by (auto simp: fresh_step_def good_flow_def good_step_def window_part_append)
    qed
  next
    case oC: (Cons b bs)
    show ?thesis
    proof (cases nb)
      case Nil
      obtain f t st where f: "next_blob old = (Some (fm_index f), t)" "decode_side C t (fm_index f) = Inr st" "bs_index st = fm_index f"
        "offers st (window_part w b)" "reads_as C skip_equal k f b" "gave f t" "ro = []" "ps_win t = w"
        "holds_side C skip_equal k w (hold t) None [] (b # bs)" "holds_side C skip_equal k w t (filter_spent st) (window_part w b) bs" "holds_side C skip_equal k w t None [] bs"
        by (rule holds_side_next[OF assms(2)[unfolded oC]])
      from emit_and_drain_sees[OF f(11,2,4), of True] show ?thesis
        using f(1) holds_side_over[OF assms(3)[unfolded Nil]] oC Nil e by (auto simp: fresh_step_def good_flow_def good_step_def window_part_append)
    next
      case (Cons c cs)
      show ?thesis using fresh_pair_good[OF assms(1), of k w old b bs new c cs m] assms(2-4) oC Cons e by simp
    qed
  qed
qed

lemma pair_step_good:
  assumes "decoders_ok (bc_decoders C) stream" "holds_pair C skip_equal k w st ro ob rn nb"
  shows "\<exists>r. pair_step C skip_equal st = Inr r \<and> good_step C k w (side_rest w ro ob) (side_rest w rn nb) (pair_left st ob nb) r"
proof (cases "pr_old_decoded st = None \<and> pr_new_decoded st = None")
  case False
  then show ?thesis using slow_step_good[OF assms(2) order_refl] by (auto simp: pair_step_def pair_left_def)
next
  case True
  let ?m = "pair_left st ob nb"
  have "length ob + length nb \<le> ?m" by (simp add: pair_left_def)
  then obtain acts fl where fl: "fresh_step C skip_equal (pr_old st) (pr_new st) = Inr (acts, fl)" "good_flow C k w (side_rest w ro ob) (side_rest w rn nb) ?m (acts, fl)"
    using fresh_good[OF assms(1), of k w "pr_old st" ro ob "pr_new st" rn nb ?m] assms(2) True by (auto simp: holds_pair_def)
  show ?thesis
  proof (cases fl)
    case Break
    then show ?thesis using fl True by (simp add: pair_step_def good_flow_def)
  next
    case (Continue st')
    then show ?thesis using fl True by (simp add: pair_step_def good_flow_def)
  next
    case (Fall st')
    then obtain ro' ob' rn' nb' where h: "holds_pair C skip_equal k w st' ro' ob' rn' nb'" "pair_left st' ob' nb' \<le> ?m"
      "side_rest w ro ob = side_rest w ro' ob'" "side_rest w rn nb = side_rest w rn' nb'" using fl(2) by (auto simp: good_flow_def)
    show ?thesis using slow_step_good[OF h(1,2)] fl(1) True Fall h by (simp add: pair_step_def)
  qed
qed

lemma pair_run_sees:
  assumes "decoders_ok (bc_decoders C) stream" "holds_pair C skip_equal k w st ro ob rn nb"
  shows "\<exists>acts. pair_run C skip_equal st acc = Some (Inr (acc @ acts)) \<and> sees acts (merge_ref (side_rest w ro ob) (side_rest w rn nb))"
  using assms(2)
proof (induction "pair_left st ob nb" arbitrary: st ro ob rn nb acc rule: less_induct)
  case less
  obtain acts r where r: "pair_step C skip_equal st = Inr (acts, r)" "good_step C k w (side_rest w ro ob) (side_rest w rn nb) (pair_left st ob nb) (acts, r)"
    using pair_step_good[OF assms(1) less.prems] by auto
  show ?case
  proof (cases r)
    case None
    then show ?thesis using r by (simp add: pair_run.simps[of C skip_equal st] good_step_def)
  next
    case (Some st')
    then obtain ro' ob' rn' nb' ref where n: "holds_pair C skip_equal k w st' ro' ob' rn' nb'" "pair_left st' ob' nb' < pair_left st ob nb"
      "sees acts ref" "merge_ref (side_rest w ro ob) (side_rest w rn nb) = ref @ merge_ref (side_rest w ro' ob') (side_rest w rn' nb')"
      using r(2) by (auto simp: good_step_def)
    obtain acts' where a: "pair_run C skip_equal st' (acc @ acts) = Some (Inr ((acc @ acts) @ acts'))" "sees acts' (merge_ref (side_rest w ro' ob') (side_rest w rn' nb'))"
      using less.hyps[OF n(2,1)] by blast
    have "pair_run C skip_equal st acc = Some (Inr (acc @ (acts @ acts')))" using r(1) a(1) Some by (simp add: pair_run.simps[of C skip_equal st])
    then show ?thesis using sees_append[OF n(3) a(2)] n(4) by auto
  qed
qed

text \<open>A unit whose frames are in order: the merge returns, and its sink has recorded the reference merge of the window.\<close>

lemma unit_sees:
  assumes "decoders_ok (bc_decoders C) stream" "list_all2 (reads_as C skip_equal k) olds ob" "list_all2 (reads_as C skip_equal k) news nb"
    and "strict (concat ob)" "strict (concat nb)"
  shows "\<exists>acts. block_pair_merge_phase C skip_equal (BlockPairSide_new olds w) (BlockPairSide_new news w) = Some (Inr acts) \<and>
    fold sink_record acts = fold sink_record (merge_ref (window_part w (concat ob)) (window_part w (concat nb)))"
proof -
  let ?st = "\<lparr>pr_old = BlockPairSide_new olds w, pr_new = BlockPairSide_new news w, pr_old_decoded = None, pr_new_decoded = None\<rparr>"
  have "holds_pair C skip_equal k w ?st [] ob [] nb"
    using assms(2-5) by (simp add: holds_pair_def holds_side_def holds_rest_def BlockPairSide_new_def side_ok_def frames_left_def)
  from pair_run_sees[OF assms(1) this, of "[]"] show ?thesis by (simp add: block_pair_merge_phase_def sees_def)
qed

end

section \<open>Spelling a unit out\<close>

text \<open>The sink that spells runs out into their elements; it needs every element, so equal blobs are not skipped.\<close>

definition spell :: "'a BlockMergeAction \<Rightarrow> 'a BlockMergeAction list \<Rightarrow> 'a BlockMergeAction list" where
  "spell a s = s @ (case a of BlobOldOnly r \<Rightarrow> map ElementOldOnly (run_elements r) | BlobNewOnly r \<Rightarrow> map ElementNewOnly (run_elements r) | _ \<Rightarrow> [a])"

lemma fold_spell:
  "fold spell (map ElementOldOnly es) s = s @ map ElementOldOnly es" "fold spell (map ElementNewOnly es) s = s @ map ElementNewOnly es"
  by (induction es arbitrary: s) (simp_all add: spell_def)

interpretation spelling: merge_sink spell False
  by unfold_locales (simp_all add: fun_eq_iff fold_spell, simp_all add: spell_def)

lemma fold_spell_ref: "fold spell (merge_ref xs ys) s = s @ merge_ref xs ys"
proof (induction xs ys arbitrary: s rule: merge_ref.induct)
  case (3 x xs y ys)
  then show ?case by (simp add: spell_def matched_def)
qed (simp_all add: fold_spell del: list.map)

section \<open>A codec for examples\<close>

text \<open>Stored bodies; the bytes of a decompressed block are the IDs of its nodes.\<close>

definition byte_element :: "u8 \<Rightarrow> unit MergeElement" where
  "byte_element b = \<lparr>me_kind = Node, me_id = ucast b, me_version = None, me_tokens = [Some ()]\<rparr>"

definition byte_codec :: "(unit, unit) BlockCodec" where
  "byte_codec = \<lparr>bc_proto = pb, bc_decoders = stored, bc_parse = (\<lambda>bs. Inr (map byte_element bs))\<rparr>"

definition byte_frame :: "i64 \<Rightarrow> i64 \<Rightarrow> bytes \<Rightarrow> Frame" where
  "byte_frame lo hi bs = \<lparr>fm_index = \<lparr>kind = Node, min_id = lo, max_id = hi, count = of_nat (length bs), bbox = None\<rparr>, fm_body = 10 # of_nat (length bs) # bs\<rparr>"

lemma byte_decodes:
  assumes "length bs \<le> MAX_BLOB_MESSAGE_SIZE" "WireBlob_parse pb (10 # of_nat (length bs) # bs) = Inr \<lparr>wb_data = Some (Raw bs), wb_raw_size = None\<rparr>"
  shows "decode_body byte_codec (fm_body (byte_frame lo hi bs)) = Inr (map byte_element bs)"
proof -
  have "blob_bytes stored (\<lambda>z input. (input, Ends)) \<lparr>wb_data = Some (Raw bs), wb_raw_size = None\<rparr> = Some bs"
    using assms(1) by (simp add: blob_bytes_def payload_bytes_def check_raw_size_def)
  then have "decompress_blob_raw pb stored (10 # of_nat (length bs) # bs) Vec_new = Inr bs"
    using assms(2) raw_path_yields[OF stored_ok, of pb "10 # of_nat (length bs) # bs" Vec_new] by (simp add: yields_def)
  then show ?thesis by (simp add: decode_body_def byte_codec_def byte_frame_def)
qed

lemma byte_reads:
  assumes "WireBlob_parse pb (10 # of_nat (length bs) # bs) = Inr \<lparr>wb_data = Some (Raw bs), wb_raw_size = None\<rparr>"
    and "length bs \<le> MAX_BLOB_MESSAGE_SIZE" "exact_claim (fm_index (byte_frame lo hi bs)) (map ucast bs)" "strict (map byte_element bs)"
  shows "reads_as byte_codec rs Node (byte_frame lo hi bs) (map byte_element bs)"
  using byte_decodes[OF assms(2,1), of lo hi] assms(3,4)
  by (auto simp: reads_as_def byte_element_def comp_def content_equal_def byte_frame_def)

section \<open>Properties\<close>

text \<open>
  One work unit of the indexed comparison. Over frames whose index is exact and whose elements ascend, the
  block-pair merge always returns, and its actions, runs spelled out, are the reference merge of the elements
  of both inputs inside the unit's window: whatever blobs the inputs are cut into, whichever blocks it emitted
  whole, held back, clipped or merged in parts.
\<close>

theorem unit_merge_exact:
  assumes "decoders_ok (bc_decoders C) stream" "list_all2 (reads_as C False k) olds ob" "list_all2 (reads_as C False k) news nb"
    and "strict (concat ob)" "strict (concat nb)"
  shows "\<exists>acts. block_pair_merge_phase C False (BlockPairSide_new olds w) (BlockPairSide_new news w) = Some (Inr acts) \<and>
    fold spell acts [] = merge_ref (window_part w (concat ob)) (window_part w (concat nb))"
  using spelling.unit_sees[OF assms, of w] fold_spell_ref[of _ _ "[]"] by auto

theorem unit_merge_exact_witness:
  "\<exists>acts. block_pair_merge_phase byte_codec False
      (BlockPairSide_new [byte_frame 1 2 [1, 2], byte_frame 7 9 [7, 9]] \<lparr>wi_start = None, wi_end = Some (osm_id_key 9)\<rparr>)
      (BlockPairSide_new [byte_frame 2 2 [2], byte_frame 7 8 [7, 8]] \<lparr>wi_start = None, wi_end = Some (osm_id_key 9)\<rparr>) = Some (Inr acts) \<and>
    fold spell acts [] = [ElementOldOnly (byte_element 1), ElementEqual (byte_element 2), ElementEqual (byte_element 7), ElementNewOnly (byte_element 8)]"
proof -
  have len: "n \<le> MAX_BLOB_MESSAGE_SIZE" if "n \<le> 2" for n using that by (simp add: MAX_BLOB_MESSAGE_SIZE_def)
  have r: "reads_as byte_codec False Node (byte_frame 1 2 [1, 2]) (map byte_element [1, 2])" "reads_as byte_codec False Node (byte_frame 7 9 [7, 9]) (map byte_element [7, 9])"
    "reads_as byte_codec False Node (byte_frame 2 2 [2]) (map byte_element [2])" "reads_as byte_codec False Node (byte_frame 7 8 [7, 8]) (map byte_element [7, 8])"
    by (rule byte_reads; (rule len)?; code_simp)+
  have s: "strict (concat [map byte_element [1, 2], map byte_element [7, 9]])" "strict (concat [map byte_element [2], map byte_element [7, 8]])"
    unfolding strict_def by code_simp+
  have "merge_ref (window_part \<lparr>wi_start = None, wi_end = Some (osm_id_key 9)\<rparr> (concat [map byte_element [1, 2], map byte_element [7, 9]]))
      (window_part \<lparr>wi_start = None, wi_end = Some (osm_id_key 9)\<rparr> (concat [map byte_element [2], map byte_element [7, 8]])) =
    [ElementOldOnly (byte_element 1), ElementEqual (byte_element 2), ElementEqual (byte_element 7), ElementNewOnly (byte_element 8)]" by code_simp
  moreover have "decoders_ok (bc_decoders byte_codec) (\<lambda>z input. (input, Ends))" using stored_ok by (simp add: byte_codec_def)
  ultimately show ?thesis
    using unit_merge_exact[of byte_codec _ Node "[byte_frame 1 2 [1, 2], byte_frame 7 9 [7, 9]]" "[map byte_element [1, 2], map byte_element [7, 9]]"
      "[byte_frame 2 2 [2], byte_frame 7 8 [7, 8]]" "[map byte_element [2], map byte_element [7, 8]]" "\<lparr>wi_start = None, wi_end = Some (osm_id_key 9)\<rparr>"] r s
    by simp
qed

section \<open>Disorder inside a block\<close>

lemma pair_run_stuck:
  assumes "pair_step C skip_equal_blobs st = Inr (acts, Some st)"
  shows "pair_run C skip_equal_blobs st acc = None"
proof -
  have "\<forall>acts. pair_step C skip_equal_blobs st \<noteq> Inr (acts, Some st)" if "pair_run C skip_equal_blobs st acc = Some y" for y
    by (rule pair_run.raw_induct[OF _ that, where P = "\<lambda>C sk st acc y. \<forall>acts. pair_step C sk st \<noteq> Inr (acts, Some st)"])
      (auto split: sum.splits option.splits)
  then show ?thesis using assms by (cases "pair_run C skip_equal_blobs st acc") auto
qed

definition disordered_frame :: Frame where
  "disordered_frame = byte_frame 5 100 [10, 5, 100]"

definition disordered_block :: "unit MergeElement list" where
  "disordered_block = map byte_element [10, 5, 100]"

lemma decode_disordered: "decode_body byte_codec (fm_body disordered_frame) = Inr disordered_block"
proof -
  have "WireBlob_parse pb (10 # of_nat (length [10, 5, 100]) # [10, 5, 100]) = Inr \<lparr>wb_data = Some (Raw [10, 5, 100]), wb_raw_size = None\<rparr>" by code_simp
  then show ?thesis unfolding disordered_frame_def disordered_block_def by (rule byte_decodes[rotated]) (simp add: MAX_BLOB_MESSAGE_SIZE_def)
qed

definition stuck_state :: "unit PairState" where
  "stuck_state =
     (let w = \<lparr>wi_start = None, wi_end = Some (osm_id_key 50)\<rparr>;
          side = \<lparr>ps_frames = [disordered_frame], ps_next = 1, ps_current = 0, ps_held = False, ps_win = w\<rparr>;
          dec = \<lparr>bs_block = disordered_block, bs_skip = 0, bs_end = Some 2,
                 bs_clip_last = Some 5, bs_index = fm_index disordered_frame\<rparr> in
      \<lparr>pr_old = side, pr_new = side, pr_old_decoded = Some dec, pr_new_decoded = Some dec\<rparr>)"

lemma stuck_step: "slow_step byte_codec stuck_state = Inr ([], Some stuck_state)"
  by code_simp


end
