(* ===== verification/Blob_Cursor.thy ===== *)
theory Blob_Cursor
  imports Block_Pair
begin

text \<open>
  One indexed input of the block-pair merge, read as one stream of frames in file order (\<open>BlobCursor\<close> and
  \<open>BlobOrderGuard\<close> of \<open>osc/merge_join.rs\<close>). The frame reader is the list of what it has still to give: a
  failure, or a frame with its type, its index as far as it could be read, and its payload, whose reading or
  skipping may fail. Locations of errors are not modelled.
\<close>

section \<open>The cursor\<close>

record ReaderFrame =
  rf_type :: BlobKind
  rf_index :: "BlobIndex option"
  rf_payload :: "merge_error + bytes"

record BlobCursor =
  cu_reader :: "(merge_error + ReaderFrame) list"
  cu_order :: OrderWatermark
  cu_started :: bool
  cu_exhausted :: bool
  cu_lookahead :: "BlobIndex option"
  cu_pending :: "merge_error + bytes"

definition BlobCursor_open :: "(merge_error + ReaderFrame) list \<Rightarrow> BlobCursor" where
  "BlobCursor_open frames = \<lparr>cu_reader = frames, cu_order = OrderWatermark_default, cu_started = False, cu_exhausted = False,
     cu_lookahead = None, cu_pending = Inl MergeInternal\<rparr>"

definition guard_index :: "OrderWatermark \<Rightarrow> BlobIndex \<Rightarrow> merge_error + OrderWatermark" where
  "guard_index order ix = (case observe order (ordinal (kind ix)) (min_id ix) (max_id ix) of Inl v \<Rightarrow> Inl (BlobDisorder v) | Inr w \<Rightarrow> Inr w)"

text \<open>The loop of \<open>advance\<close>: up to the next data header, or the end.\<close>

fun next_header_of :: "(merge_error + ReaderFrame) list \<Rightarrow> BlobCursor \<Rightarrow> merge_error + BlobCursor" where
  "next_header_of [] c = Inr (c\<lparr>cu_reader := [], cu_exhausted := True\<rparr>)"
| "next_header_of (Inl err # _) c = Inl err"
| "next_header_of (Inr f # rest) c =
     (if \<not> cu_started c
      then case rf_payload f of Inl err \<Rightarrow> Inl err | Inr _ \<Rightarrow> next_header_of rest (c\<lparr>cu_started := True\<rparr>)
      else if rf_type f \<noteq> OsmData
      then case rf_payload f of Inl err \<Rightarrow> Inl err | Inr _ \<Rightarrow> next_header_of rest c
      else
        (case rf_index f of
           None \<Rightarrow> (case rf_payload f of Inl err \<Rightarrow> Inl err | Inr _ \<Rightarrow> Inl MissingIndexdata)
         | Some ix \<Rightarrow>
             (case guard_index (cu_order c) ix of
                Inl err \<Rightarrow> Inl err
              | Inr order \<Rightarrow> Inr (c\<lparr>cu_reader := rest, cu_order := order, cu_lookahead := Some ix, cu_pending := rf_payload f\<rparr>))))"

definition cursor_advance :: "BlobCursor \<Rightarrow> merge_error + BlobCursor" where
  "cursor_advance c = (if cu_lookahead c \<noteq> None \<or> cu_exhausted c then Inr c else next_header_of (cu_reader c) c)"

definition cursor_left :: "BlobCursor \<Rightarrow> nat" where
  "cursor_left c = length (cu_reader c) + (if cu_lookahead c = None then 0 else 1)"

lemma next_header_left: "next_header_of rest c = Inr d \<Longrightarrow> cu_lookahead c = None \<Longrightarrow> cursor_left d \<le> length rest"
  by (induction rest c rule: next_header_of.induct) (auto simp: cursor_left_def split: if_splits sum.splits option.splits)

lemma advance_left: "cursor_advance c = Inr d \<Longrightarrow> cursor_left d \<le> cursor_left c"
  using next_header_left[of "cu_reader c" c d] by (auto simp: cursor_advance_def cursor_left_def split: if_splits)

function reaches :: "ElementKind \<Rightarrow> BlobCursor \<Rightarrow> merge_error + bool \<times> BlobCursor" where
  "reaches k c =
     (case cursor_advance c of
        Inl err \<Rightarrow> Inl err
      | Inr c \<Rightarrow>
          (case cu_lookahead c of
             None \<Rightarrow> Inr (False, c)
           | Some ix \<Rightarrow>
               if ordinal (kind ix) < ordinal k
               then (case cu_pending c of Inl err \<Rightarrow> Inl err | Inr _ \<Rightarrow> reaches k (c\<lparr>cu_lookahead := None\<rparr>))
               else Inr (kind ix = k, c)))"
  by auto
termination by (relation "measure (\<lambda>(k, c). cursor_left c)") (auto dest!: advance_left simp: cursor_left_def)

declare reaches.simps [simp del]

definition cursor_peek :: "ElementKind \<Rightarrow> BlobCursor \<Rightarrow> merge_error + BlobIndex option \<times> BlobCursor" where
  "cursor_peek k c = (case reaches k c of Inl err \<Rightarrow> Inl err | Inr (here, c) \<Rightarrow> Inr (if here then cu_lookahead c else None, c))"

definition next_of :: "ElementKind \<Rightarrow> BlobCursor \<Rightarrow> merge_error + Frame option \<times> BlobCursor" where
  "next_of k c =
     (case reaches k c of
        Inl err \<Rightarrow> Inl err
      | Inr (here, c) \<Rightarrow>
          if \<not> here then Inr (None, c)
          else
            (case cu_lookahead c of
               None \<Rightarrow> Inl MergeInternal
             | Some ix \<Rightarrow>
                 (case cu_pending c of
                    Inl err \<Rightarrow> Inl err
                  | Inr body \<Rightarrow> Inr (Some \<lparr>fm_index = ix, fm_body = body\<rparr>, c\<lparr>cu_lookahead := None\<rparr>))))"

function cursor_finish :: "BlobCursor \<Rightarrow> merge_error + BlobCursor" where
  "cursor_finish c =
     (case cursor_advance c of
        Inl err \<Rightarrow> Inl err
      | Inr c \<Rightarrow>
          (case cu_lookahead c of
             None \<Rightarrow> Inr c
           | Some _ \<Rightarrow> (case cu_pending c of Inl err \<Rightarrow> Inl err | Inr _ \<Rightarrow> cursor_finish (c\<lparr>cu_lookahead := None\<rparr>))))"
  by auto
termination by (relation "measure cursor_left") (auto dest!: advance_left simp: cursor_left_def)

declare cursor_finish.simps [simp del]

section \<open>What a cursor gives\<close>

text \<open>A readable input: its frames read, its data frames indexed, and the order guard content with them.\<close>

definition sound_frame :: "ReaderFrame \<Rightarrow> bool" where
  "sound_frame f \<longleftrightarrow> \<not> isl (rf_payload f) \<and> (rf_type f = OsmData \<longrightarrow> rf_index f \<noteq> None)"

definition frame_of :: "ReaderFrame \<Rightarrow> Frame" where
  "frame_of f = \<lparr>fm_index = the (rf_index f), fm_body = projr (rf_payload f)\<rparr>"

definition data_frames :: "ReaderFrame list \<Rightarrow> Frame list" where
  "data_frames fs = map frame_of (filter (\<lambda>f. rf_type f = OsmData) fs)"

definition guarded :: "OrderWatermark \<Rightarrow> Frame list \<Rightarrow> bool" where
  "guarded w fs \<longleftrightarrow> (\<exists>w'. watermark_observe_run w (map (\<lambda>f. (ordinal (kind (fm_index f)), min_id (fm_index f), max_id (fm_index f))) fs) = Inr w')"

definition gives :: "BlobCursor \<Rightarrow> Frame list \<Rightarrow> bool" where
  "gives c fs \<longleftrightarrow> (\<exists>rest. cu_reader c = map Inr rest \<and> list_all sound_frame rest \<and> (cu_exhausted c \<longrightarrow> rest = []) \<and>
     guarded (cu_order c) (data_frames (if cu_started c then rest else tl rest)) \<and> (\<not> cu_started c \<longrightarrow> cu_lookahead c = None) \<and>
     (case cu_lookahead c of
        None \<Rightarrow> fs = data_frames (if cu_started c then rest else tl rest)
      | Some ix \<Rightarrow> \<exists>body. cu_pending c = Inr body \<and> fs = \<lparr>fm_index = ix, fm_body = body\<rparr> # data_frames rest))"

definition shows_next :: "BlobCursor \<Rightarrow> Frame list \<Rightarrow> bool" where
  "shows_next c fs \<longleftrightarrow> gives c fs \<and> (case fs of [] \<Rightarrow> cu_lookahead c = None | f # _ \<Rightarrow> cu_lookahead c = Some (fm_index f) \<and> cu_pending c = Inr (fm_body f))"

lemma guarded_Cons:
  "guarded w (f # fs) \<longleftrightarrow> (\<exists>w'. guard_index w (fm_index f) = Inr w' \<and> guarded w' fs)"
  by (auto simp: guarded_def guard_index_def split: sum.splits)

lemma next_header_gives:
  assumes "list_all sound_frame rest" "guarded (cu_order c) (data_frames (if cu_started c then rest else tl rest))" "cu_lookahead c = None" "\<not> cu_exhausted c"
  shows "\<exists>d. next_header_of (map Inr rest) c = Inr d \<and> shows_next d (data_frames (if cu_started c then rest else tl rest))"
  using assms
proof (induction rest arbitrary: c)
  case Nil
  then show ?case by (auto simp: shows_next_def gives_def data_frames_def)
next
  case (Cons f rest)
  obtain body where b: "rf_payload f = Inr body" using Cons.prems(1) by (cases "rf_payload f") (auto simp: sound_frame_def)
  show ?case
  proof (cases "cu_started c")
    case False
    then show ?thesis using Cons.prems Cons.IH[of "c\<lparr>cu_started := True\<rparr>"] b by simp
  next
    case started: True
    show ?thesis
    proof (cases "rf_type f = OsmData")
      case False
      then show ?thesis using Cons.prems Cons.IH[of c] b started by (simp add: data_frames_def)
    next
      case True
      then obtain ix where ix: "rf_index f = Some ix" using Cons.prems(1) by (auto simp: sound_frame_def)
      have d: "data_frames (f # rest) = \<lparr>fm_index = ix, fm_body = body\<rparr> # data_frames rest" using True ix b by (simp add: data_frames_def frame_of_def)
      then obtain w where w: "guard_index (cu_order c) ix = Inr w" "guarded w (data_frames rest)" using Cons.prems(2) started by (auto simp: guarded_Cons)
      let ?d = "c\<lparr>cu_reader := map Inr rest, cu_order := w, cu_lookahead := Some ix, cu_pending := Inr body\<rparr>"
      have "next_header_of (map Inr (f # rest)) c = Inr ?d" using True ix b w(1) started by simp
      moreover have "shows_next ?d (data_frames (f # rest))"
        unfolding d using w(2) Cons.prems(1,4) started by (auto simp: shows_next_def gives_def)
      ultimately show ?thesis using started by auto
    qed
  qed
qed

lemma advance_gives:
  assumes "gives c fs"
  shows "\<exists>d. cursor_advance c = Inr d \<and> shows_next d fs"
proof (cases "cu_lookahead c")
  case None
  obtain rest where r: "cu_reader c = map Inr rest" "list_all sound_frame rest" "cu_exhausted c \<longrightarrow> rest = []"
    "guarded (cu_order c) (data_frames (if cu_started c then rest else tl rest))" "fs = data_frames (if cu_started c then rest else tl rest)"
    using assms None by (auto simp: gives_def)
  show ?thesis
  proof (cases "cu_exhausted c")
    case True
    then have "fs = []" using r(3,5) by (simp add: data_frames_def)
    then show ?thesis using assms None True by (simp add: cursor_advance_def shows_next_def)
  next
    case False
    then show ?thesis using next_header_gives[OF r(2,4) None False] None r(1,5) by (simp add: cursor_advance_def)
  qed
next
  case (Some ix)
  then show ?thesis using assms by (auto simp: cursor_advance_def shows_next_def gives_def)
qed

lemma gives_drop: "gives c (f # fs) \<Longrightarrow> cu_lookahead c = Some ix \<Longrightarrow> gives (c\<lparr>cu_lookahead := None\<rparr>) fs"
  by (auto simp: gives_def)

lemma reaches_gives:
  assumes "gives c fs"
  shows "let left = dropWhile (\<lambda>f. ordinal (kind (fm_index f)) < ordinal k) fs in
    \<exists>d. reaches k c = Inr (left \<noteq> [] \<and> kind (fm_index (hd left)) = k, d) \<and> shows_next d left"
  using assms
proof (induction fs arbitrary: c)
  case Nil
  then show ?case using advance_gives[OF Nil] by (auto simp: reaches.simps[of k c] shows_next_def)
next
  case (Cons f fs)
  obtain d where d: "cursor_advance c = Inr d" "shows_next d (f # fs)" using advance_gives[OF Cons.prems] by blast
  then have l: "cu_lookahead d = Some (fm_index f)" "cu_pending d = Inr (fm_body f)" "gives d (f # fs)" by (simp_all add: shows_next_def)
  show ?case
  proof (cases "ordinal (kind (fm_index f)) < ordinal k")
    case True
    then show ?thesis using d(1) l Cons.IH[OF gives_drop[OF l(3,1)]] by (simp add: reaches.simps[of k c])
  next
    case False
    then show ?thesis using d l by (simp add: reaches.simps[of k c])
  qed
qed

text \<open>A cursor at a kind: \<open>fs\<close> of that kind come next, \<open>ls\<close> of later kinds after them.\<close>

definition at_kind :: "ElementKind \<Rightarrow> BlobCursor \<Rightarrow> Frame list \<Rightarrow> Frame list \<Rightarrow> bool" where
  "at_kind k c fs ls \<longleftrightarrow> gives c (fs @ ls) \<and> (\<forall>f \<in> set fs. kind (fm_index f) = k) \<and> (\<forall>f \<in> set ls. ordinal k < ordinal (kind (fm_index f)))"

lemma reaches_at:
  assumes "at_kind k c fs ls"
  shows "\<exists>d. reaches k c = Inr (fs \<noteq> [], d) \<and> shows_next d (fs @ ls) \<and> at_kind k d fs ls"
proof -
  have drop: "dropWhile (\<lambda>f. ordinal (kind (fm_index f)) < ordinal k) (fs @ ls) = fs @ ls"
    using assms by (cases fs; cases ls) (auto simp: at_kind_def)
  have here: "(fs @ ls \<noteq> [] \<and> kind (fm_index (hd (fs @ ls))) = k) = (fs \<noteq> [])"
    using assms by (cases fs; cases ls) (auto simp: at_kind_def)
  have "gives c (fs @ ls)" using assms by (simp add: at_kind_def)
  from reaches_gives[OF this, of k] obtain d where d: "reaches k c = Inr (fs \<noteq> [], d)" "shows_next d (fs @ ls)" unfolding Let_def drop here by blast
  then have "at_kind k d fs ls" using assms by (simp add: at_kind_def shows_next_def)
  then show ?thesis using d by blast
qed

lemma peek_at:
  assumes "at_kind k c fs ls"
  shows "\<exists>d. cursor_peek k c = Inr (case fs of [] \<Rightarrow> None | f # _ \<Rightarrow> Some (fm_index f), d) \<and> at_kind k d fs ls"
  using reaches_at[OF assms] by (cases fs) (auto simp: cursor_peek_def shows_next_def)

lemma next_of_at:
  assumes "at_kind k c (f # fs) ls"
  shows "\<exists>d. next_of k c = Inr (Some f, d) \<and> at_kind k d fs ls"
proof -
  obtain d where d: "reaches k c = Inr (True, d)" "shows_next d (f # fs @ ls)" "at_kind k d (f # fs) ls" using reaches_at[OF assms] by auto
  then have "next_of k c = Inr (Some f, d\<lparr>cu_lookahead := None\<rparr>)" by (simp add: next_of_def shows_next_def)
  moreover have "at_kind k (d\<lparr>cu_lookahead := None\<rparr>) fs ls" using d gives_drop[of d f "fs @ ls"] by (simp add: at_kind_def shows_next_def)
  ultimately show ?thesis by blast
qed

lemma finish_gives: "gives c fs \<Longrightarrow> \<exists>d. cursor_finish c = Inr d"
proof (induction fs arbitrary: c)
  case Nil
  then show ?case using advance_gives[OF Nil] by (auto simp: cursor_finish.simps[of c] shows_next_def)
next
  case (Cons f fs)
  obtain d where d: "cursor_advance c = Inr d" "shows_next d (f # fs)" using advance_gives[OF Cons.prems] by blast
  then show ?case using Cons.IH[of "d\<lparr>cu_lookahead := None\<rparr>"] gives_drop[of d f fs] by (simp add: cursor_finish.simps[of c] shows_next_def)
qed

text \<open>The kinds of a file in order: at each kind, its frames come next.\<close>

lemma sorted_kinds_from:
  assumes "sorted (map (\<lambda>f. ordinal (kind (fm_index f))) fs)" "\<forall>f \<in> set fs. ordinal k \<le> ordinal (kind (fm_index f))"
  shows "fs = filter (\<lambda>f. kind (fm_index f) = k) fs @ filter (\<lambda>f. ordinal k < ordinal (kind (fm_index f))) fs"
  using assms
proof (induction fs)
  case (Cons f fs)
  show ?case
  proof (cases "kind (fm_index f) = k")
    case True
    then show ?thesis using Cons by simp
  next
    case False
    then have "ordinal k < ordinal (kind (fm_index f))" using Cons.prems(2) ordinal_inj[of "kind (fm_index f)" k] by (auto simp: less_le)
    then have "\<forall>g \<in> set (f # fs). ordinal k < ordinal (kind (fm_index g))" using Cons.prems(1) by (auto dest: less_le_trans)
    then show ?thesis by (auto simp: filter_empty_conv filter_id_conv)
  qed
qed simp

lemma sorted_kinds_split:
  assumes "sorted (map (\<lambda>f. ordinal (kind (fm_index f))) fs)"
  shows "dropWhile (\<lambda>f. ordinal (kind (fm_index f)) < ordinal k) fs =
    filter (\<lambda>f. kind (fm_index f) = k) fs @ filter (\<lambda>f. ordinal k < ordinal (kind (fm_index f))) fs"
  using assms
proof (induction fs)
  case (Cons f fs)
  show ?case
  proof (cases "ordinal (kind (fm_index f)) < ordinal k")
    case True
    then show ?thesis using Cons by auto
  next
    case False
    then have "\<forall>g \<in> set (f # fs). ordinal k \<le> ordinal (kind (fm_index g))" using Cons.prems by auto
    note split = sorted_kinds_from[OF Cons.prems this]
    have "dropWhile (\<lambda>f. ordinal (kind (fm_index f)) < ordinal k) (f # fs) = f # fs" using False by simp
    then show ?thesis using split by (rule trans)
  qed
qed simp

end
