(* ===== verification/Diff_Sink.thy ===== *)
theory Diff_Sink
  imports Block_Pair Timestamp
begin

text \<open>
  The sink of the diff command (\<open>commands/diff/mod.rs\<close>): the counts, and the compact lines when there is an
  output, from the actions of either merge; the chunks a work unit's text is handed over in; and the consumer
  that writes them. The details of a modified pair under \<open>--verbose\<close> are the parameter \<open>details\<close>, which may fail.
  Writing itself does not fail here.
\<close>

section \<open>Counts and lines\<close>

record DiffStats =
  df_common :: u64
  df_created :: u64
  df_modified :: u64
  df_deleted :: u64

definition DiffStats_default :: DiffStats where
  "DiffStats_default = \<lparr>df_common = 0, df_created = 0, df_modified = 0, df_deleted = 0\<rparr>"

definition has_differences :: "DiffStats \<Rightarrow> bool" where
  "has_differences s \<longleftrightarrow> 0 < df_created s \<or> 0 < df_modified s \<or> 0 < df_deleted s"

definition DiffStats_add :: "DiffStats \<Rightarrow> DiffStats \<Rightarrow> DiffStats" where
  "DiffStats_add s t = \<lparr>df_common = df_common s + df_common t, df_created = df_created s + df_created t,
     df_modified = df_modified s + df_modified t, df_deleted = df_deleted s + df_deleted t\<rparr>"

definition line :: "string \<Rightarrow> string" where
  "line t = t @ [CHR 0x0A]"

definition write_compact_line :: "char \<Rightarrow> char \<Rightarrow> i64 \<Rightarrow> i32 option \<Rightarrow> string" where
  "write_compact_line prefix type_ch i version =
     (case version of
        Some v \<Rightarrow> line ([prefix, type_ch] @ fmt_pad 0 (sint i) @ '' v'' @ fmt_pad 0 (sint v))
      | None \<Rightarrow> line ([prefix, type_ch] @ fmt_pad 0 (sint i)))"

definition write_modified_line :: "char \<Rightarrow> i64 \<Rightarrow> i32 option \<Rightarrow> i32 option \<Rightarrow> string" where
  "write_modified_line type_ch i old_version new_version =
     (let start = [CHR ''*'', type_ch] @ fmt_pad 0 (sint i) in
      case (old_version, new_version) of
        (Some ov, Some nv) \<Rightarrow>
          if ov \<noteq> nv then line (start @ '' v'' @ fmt_pad 0 (sint ov) @ '' -> v'' @ fmt_pad 0 (sint nv))
          else line (start @ '' v'' @ fmt_pad 0 (sint nv))
      | (None, Some v) \<Rightarrow> line (start @ '' v'' @ fmt_pad 0 (sint v))
      | (Some v, None) \<Rightarrow> line (start @ '' v'' @ fmt_pad 0 (sint v))
      | (None, None) \<Rightarrow> line start)"

record DiffOptions =
  do_suppress_common :: bool
  do_verbose :: bool

section \<open>The sink\<close>

record DiffSink =
  dk_output :: "string option"
  dk_stats :: DiffStats

definition DiffSink_new :: "string option \<Rightarrow> DiffSink" where
  "DiffSink_new out = \<lparr>dk_output = out, dk_stats = DiffStats_default\<rparr>"

definition put_text :: "string \<Rightarrow> DiffSink \<Rightarrow> DiffSink" where
  "put_text t s = s\<lparr>dk_output := map_option (\<lambda>out. out @ t) (dk_output s)\<rparr>"

type_synonym 'a details = "'a MergeElement \<Rightarrow> 'a MergeElement \<Rightarrow> merge_error + string"

definition element_line :: "char \<Rightarrow> ElementKind \<Rightarrow> 'a MergeElement \<Rightarrow> string" where
  "element_line prefix k e = write_compact_line prefix (type_char k) (me_id e) (me_version e)"

definition DiffSink_record :: "'a details \<Rightarrow> DiffOptions \<Rightarrow> ElementKind \<Rightarrow> 'a BlockMergeAction \<Rightarrow> DiffSink \<Rightarrow> merge_error + DiffSink" where
  "DiffSink_record details opts k action s =
     (let st = dk_stats s in
      case action of
        BlobEqual n \<Rightarrow> Inr (s\<lparr>dk_stats := st\<lparr>df_common := df_common st + n\<rparr>\<rparr>)
      | BlobOldOnly r \<Rightarrow>
          Inr ((put_text (concat (map (element_line (CHR ''-'') k) (run_elements r))) s)\<lparr>dk_stats := st\<lparr>df_deleted := df_deleted st + br_count r\<rparr>\<rparr>)
      | BlobNewOnly r \<Rightarrow>
          Inr ((put_text (concat (map (element_line (CHR ''+'') k) (run_elements r))) s)\<lparr>dk_stats := st\<lparr>df_created := df_created st + br_count r\<rparr>\<rparr>)
      | ElementEqual e \<Rightarrow>
          Inr ((if do_suppress_common opts then s else put_text (element_line (CHR '' '') k e) s)\<lparr>dk_stats := st\<lparr>df_common := df_common st + 1\<rparr>\<rparr>)
      | ElementModified old new \<Rightarrow>
          (let s' = put_text (write_modified_line (type_char k) (me_id old) (me_version old) (me_version new)) s;
               st' = st\<lparr>df_modified := df_modified st + 1\<rparr> in
           if dk_output s \<noteq> None \<and> do_verbose opts
           then (case details old new of Inl err \<Rightarrow> Inl err | Inr t \<Rightarrow> Inr ((put_text t s')\<lparr>dk_stats := st'\<rparr>))
           else Inr (s'\<lparr>dk_stats := st'\<rparr>))
      | ElementOldOnly e \<Rightarrow> Inr ((put_text (element_line (CHR ''-'') k e) s)\<lparr>dk_stats := st\<lparr>df_deleted := df_deleted st + 1\<rparr>\<rparr>)
      | ElementNewOnly e \<Rightarrow> Inr ((put_text (element_line (CHR ''+'') k e) s)\<lparr>dk_stats := st\<lparr>df_created := df_created st + 1\<rparr>\<rparr>))"

text \<open>Recording on a sink that may have failed: the first failure stays.\<close>

definition sink_step :: "'a details \<Rightarrow> DiffOptions \<Rightarrow> ElementKind \<Rightarrow> 'a BlockMergeAction \<Rightarrow> merge_error + DiffSink \<Rightarrow> merge_error + DiffSink" where
  "sink_step details opts k action r = (case r of Inl err \<Rightarrow> Inl err | Inr s \<Rightarrow> DiffSink_record details opts k action s)"

lemma sink_step_simps [simp]:
  "sink_step details opts k a (Inl err) = Inl err" "sink_step details opts k a (Inr s) = DiffSink_record details opts k a s"
  by (simp_all add: sink_step_def)

section \<open>The sink meets the contract of the merge\<close>

lemma put_text_put_text: "put_text b (put_text a s) = put_text (a @ b) s"
  by (simp add: put_text_def option.map_comp comp_def)

lemma put_text_Nil [simp]: "put_text [] s = s"
  by (cases s) (simp add: put_text_def option.map_ident)

lemma put_text_stats [simp]: "dk_stats (put_text t s) = dk_stats s" "put_text t (s\<lparr>dk_stats := st\<rparr>) = (put_text t s)\<lparr>dk_stats := st\<rparr>"
  by (simp_all add: put_text_def)

lemma fold_old_only:
  "fold (sink_step details opts k) (map ElementOldOnly es) (Inr s) =
     Inr ((put_text (concat (map (element_line (CHR ''-'') k) es)) s)\<lparr>dk_stats := dk_stats s\<lparr>df_deleted := df_deleted (dk_stats s) + of_nat (length es)\<rparr>\<rparr>)"
  by (induction es arbitrary: s) (simp_all add: sink_step_def DiffSink_record_def Let_def put_text_put_text add.assoc)

lemma fold_new_only:
  "fold (sink_step details opts k) (map ElementNewOnly es) (Inr s) =
     Inr ((put_text (concat (map (element_line (CHR ''+'') k) es)) s)\<lparr>dk_stats := dk_stats s\<lparr>df_created := df_created (dk_stats s) + of_nat (length es)\<rparr>\<rparr>)"
  by (induction es arbitrary: s) (simp_all add: sink_step_def DiffSink_record_def Let_def put_text_put_text add.assoc)

lemma fold_equal:
  "do_suppress_common opts \<Longrightarrow> fold (sink_step details opts k) (map ElementEqual es) (Inr s) =
     Inr (s\<lparr>dk_stats := dk_stats s\<lparr>df_common := df_common (dk_stats s) + of_nat (length es)\<rparr>\<rparr>)"
  by (induction es arbitrary: s) (simp_all add: sink_step_def DiffSink_record_def Let_def add.assoc)

lemma fold_failed: "fold (sink_step details opts k) as (Inl err) = Inl err"
  by (induction as) (simp_all add: sink_step_def)

interpretation diff_text: merge_sink "sink_step details opts k" "do_suppress_common opts" for details opts k
proof
  fix r :: "'a BlockRun"
  assume c: "br_count r = of_nat (length (run_elements r))"
  show "sink_step details opts k (BlobOldOnly r) = fold (sink_step details opts k) (map ElementOldOnly (run_elements r))"
  proof
    fix s show "sink_step details opts k (BlobOldOnly r) s = fold (sink_step details opts k) (map ElementOldOnly (run_elements r)) s"
      using c by (cases s) (simp_all add: fold_failed fold_old_only, simp_all add: sink_step_def DiffSink_record_def Let_def)
  qed
  show "sink_step details opts k (BlobNewOnly r) = fold (sink_step details opts k) (map ElementNewOnly (run_elements r))"
  proof
    fix s show "sink_step details opts k (BlobNewOnly r) s = fold (sink_step details opts k) (map ElementNewOnly (run_elements r)) s"
      using c by (cases s) (simp_all add: fold_failed fold_new_only, simp_all add: sink_step_def DiffSink_record_def Let_def)
  qed
next
  fix n :: u64 and es :: "'a MergeElement list"
  assume a: "do_suppress_common opts" "n = of_nat (length es)"
  show "sink_step details opts k (BlobEqual n) = fold (sink_step details opts k) (map ElementEqual es)"
  proof
    fix s show "sink_step details opts k (BlobEqual n) s = fold (sink_step details opts k) (map ElementEqual es) s"
      using a by (cases s) (simp_all add: fold_failed fold_equal, simp_all add: sink_step_def DiffSink_record_def Let_def)
  qed
qed

section \<open>Chunks of a unit\<close>

definition DIFF_OUTPUT_CHUNK_BYTES :: nat where
  "DIFF_OUTPUT_CHUNK_BYTES = 2 ^ 20"

text \<open>A unit's worker side: its sink and the chunks it has sent.\<close>

record UnitOutput =
  uo_sink :: DiffSink
  uo_sent :: "string list"

definition record_into :: "'a details \<Rightarrow> DiffOptions \<Rightarrow> ElementKind \<Rightarrow> 'a BlockMergeAction \<Rightarrow> UnitOutput \<Rightarrow> merge_error + UnitOutput" where
  "record_into details opts k action u =
     (case DiffSink_record details opts k action (uo_sink u) of
        Inl err \<Rightarrow> Inl err
      | Inr s \<Rightarrow>
          Inr (case dk_output s of
                 Some buf \<Rightarrow> if DIFF_OUTPUT_CHUNK_BYTES \<le> length buf then \<lparr>uo_sink = s\<lparr>dk_output := Some []\<rparr>, uo_sent = uo_sent u @ [buf]\<rparr> else u\<lparr>uo_sink := s\<rparr>
               | None \<Rightarrow> u\<lparr>uo_sink := s\<rparr>))"

definition finish_into :: "UnitOutput \<Rightarrow> string list \<times> DiffStats" where
  "finish_into u =
     (case dk_output (uo_sink u) of
        Some buf \<Rightarrow> (if buf \<noteq> [] then uo_sent u @ [buf] else uo_sent u, dk_stats (uo_sink u))
      | None \<Rightarrow> (uo_sent u, dk_stats (uo_sink u)))"

fun record_all :: "'a details \<Rightarrow> DiffOptions \<Rightarrow> ElementKind \<Rightarrow> 'a BlockMergeAction list \<Rightarrow> UnitOutput \<Rightarrow> merge_error + UnitOutput" where
  "record_all details opts k [] u = Inr u"
| "record_all details opts k (a # as) u = (case record_into details opts k a u of Inl err \<Rightarrow> Inl err | Inr u \<Rightarrow> record_all details opts k as u)"

record TextConsumer =
  tc_output :: "string option"
  tc_stats :: DiffStats

definition TextConsumer_item :: "string \<Rightarrow> TextConsumer \<Rightarrow> TextConsumer" where
  "TextConsumer_item item c = c\<lparr>tc_output := map_option (\<lambda>out. out @ item) (tc_output c)\<rparr>"

definition finish_unit :: "DiffStats \<Rightarrow> TextConsumer \<Rightarrow> TextConsumer" where
  "finish_unit st c = c\<lparr>tc_stats := DiffStats_add (tc_stats c) st\<rparr>"

definition consume_unit :: "string list \<times> DiffStats \<Rightarrow> TextConsumer \<Rightarrow> TextConsumer" where
  "consume_unit r c = finish_unit (snd r) (fold TextConsumer_item (fst r) c)"

text \<open>A consumer as a sink: what it would be had one sink recorded everything.\<close>

definition as_sink :: "TextConsumer \<Rightarrow> DiffSink" where
  "as_sink c = \<lparr>dk_output = tc_output c, dk_stats = tc_stats c\<rparr>"

definition put_before :: "string option \<Rightarrow> DiffStats \<Rightarrow> DiffSink \<Rightarrow> DiffSink" where
  "put_before out st s = \<lparr>dk_output = (case (out, dk_output s) of (Some o1, Some o2) \<Rightarrow> Some (o1 @ o2) | _ \<Rightarrow> None), dk_stats = DiffStats_add st (dk_stats s)\<rparr>"

definition joined :: "TextConsumer \<Rightarrow> UnitOutput \<Rightarrow> DiffSink" where
  "joined c u = put_before (map_option (\<lambda>out. out @ concat (uo_sent u)) (tc_output c)) (tc_stats c) (uo_sink u)"

definition same_output :: "TextConsumer \<Rightarrow> UnitOutput \<Rightarrow> bool" where
  "same_output c u \<longleftrightarrow> (tc_output c = None \<longleftrightarrow> dk_output (uo_sink u) = None)"

lemma fold_items: "fold TextConsumer_item items c = c\<lparr>tc_output := map_option (\<lambda>out. out @ concat items) (tc_output c)\<rparr>"
proof (induction items arbitrary: c)
  case Nil
  then show ?case by (cases c) (simp add: option.map_ident)
next
  case (Cons i items)
  then show ?case by (simp add: TextConsumer_item_def option.map_comp comp_def)
qed

lemma consume_joined: "same_output c u \<Longrightarrow> as_sink (consume_unit (finish_into u) c) = joined c u"
  by (auto simp: same_output_def consume_unit_def finish_into_def fold_items finish_unit_def as_sink_def joined_def put_before_def split: option.splits)

lemma put_before_text: "put_before out st (put_text t s) = put_text t (put_before out st s)"
  by (auto simp: put_before_def put_text_def split: option.splits)

lemma put_before_stats:
  "put_before out st (s\<lparr>dk_stats := t\<rparr>) = (put_before out st s)\<lparr>dk_stats := DiffStats_add st t\<rparr>" "dk_stats (put_before out st s) = DiffStats_add st (dk_stats s)"
  by (simp_all add: put_before_def)

lemma add_stats:
  "DiffStats_add st (t\<lparr>df_common := df_common t + n\<rparr>) = (DiffStats_add st t)\<lparr>df_common := df_common (DiffStats_add st t) + n\<rparr>"
  "DiffStats_add st (t\<lparr>df_created := df_created t + n\<rparr>) = (DiffStats_add st t)\<lparr>df_created := df_created (DiffStats_add st t) + n\<rparr>"
  "DiffStats_add st (t\<lparr>df_modified := df_modified t + n\<rparr>) = (DiffStats_add st t)\<lparr>df_modified := df_modified (DiffStats_add st t) + n\<rparr>"
  "DiffStats_add st (t\<lparr>df_deleted := df_deleted t + n\<rparr>) = (DiffStats_add st t)\<lparr>df_deleted := df_deleted (DiffStats_add st t) + n\<rparr>"
  by (simp_all add: DiffStats_add_def add.assoc)

lemma record_put_before:
  assumes "(out = None) = (dk_output s = None)"
  shows "DiffSink_record details opts k a (put_before out st s) = map_sum id (put_before out st) (DiffSink_record details opts k a s)"
proof -
  have "dk_output (put_before out st s) = None \<longleftrightarrow> dk_output s = None" using assms by (auto simp: put_before_def split: option.splits)
  then show ?thesis
    by (cases a) (simp_all add: DiffSink_record_def Let_def put_before_stats put_before_text add_stats split: sum.split)
qed

lemma record_output: "DiffSink_record details opts k a s = Inr t \<Longrightarrow> dk_output t = None \<longleftrightarrow> dk_output s = None"
  by (cases a) (auto simp: DiffSink_record_def Let_def put_text_def split: if_splits sum.splits)

lemma chunk_sent:
  "put_before (map_option (\<lambda>out. out @ concat (sent @ [buf])) base) st (s\<lparr>dk_output := Some []\<rparr>) =
   put_before (map_option (\<lambda>out. out @ concat sent) base) st (s\<lparr>dk_output := Some buf\<rparr>)"
  by (simp add: put_before_def split: option.split)

lemma record_joined:
  assumes "same_output c u"
  shows "rel_sum (=) (\<lambda>v s. same_output c v \<and> joined c v = s) (record_into details opts k a u) (DiffSink_record details opts k a (joined c u))"
proof -
  let ?base = "map_option (\<lambda>out. out @ concat (uo_sent u)) (tc_output c)"
  have r: "DiffSink_record details opts k a (joined c u) = map_sum id (put_before ?base (tc_stats c)) (DiffSink_record details opts k a (uo_sink u))"
    unfolding joined_def using assms by (intro record_put_before) (simp add: same_output_def)
  show ?thesis
  proof (cases "DiffSink_record details opts k a (uo_sink u)")
    case (Inl err)
    then show ?thesis using r by (simp add: record_into_def)
  next
    case (Inr s)
    have out: "dk_output s = None \<longleftrightarrow> tc_output c = None" using record_output[OF Inr] assms by (simp add: same_output_def)
    show ?thesis
    proof (cases "dk_output s")
      case None
      then show ?thesis using r Inr out by (simp add: record_into_def same_output_def joined_def)
    next
      case (Some buf)
      then have s: "s\<lparr>dk_output := Some buf\<rparr> = s" by (cases s) simp
      show ?thesis using r Inr out Some chunk_sent[of "uo_sent u" buf "tc_output c" "tc_stats c" s] unfolding s
        by (simp add: record_into_def same_output_def joined_def)
    qed
  qed
qed

lemma record_all_joined:
  assumes "same_output c u"
  shows "rel_sum (=) (\<lambda>v s. same_output c v \<and> joined c v = s) (record_all details opts k as u) (fold (sink_step details opts k) as (Inr (joined c u)))"
  using assms
proof (induction as arbitrary: u)
  case (Cons a as)
  note j = record_joined[OF Cons.prems, of details opts k a]
  show ?case
  proof (cases "record_into details opts k a u")
    case (Inl err)
    then have "DiffSink_record details opts k a (joined c u) = Inl err" using j by (auto elim: rel_sum.cases)
    then show ?thesis using Inl by (simp add: fold_failed)
  next
    case (Inr v)
    then have "DiffSink_record details opts k a (joined c u) = Inr (joined c v)" "same_output c v" using j by (auto elim: rel_sum.cases)
    then show ?thesis using Inr Cons.IH[of v] by simp
  qed
qed simp

definition unit_output :: "bool \<Rightarrow> UnitOutput" where
  "unit_output text = \<lparr>uo_sink = DiffSink_new (if text then Some [] else None), uo_sent = []\<rparr>"

lemma unit_output_joined:
  "same_output c (unit_output (tc_output c \<noteq> None))" "joined c (unit_output (tc_output c \<noteq> None)) = as_sink c"
  by (auto simp: same_output_def unit_output_def DiffSink_new_def joined_def put_before_def as_sink_def DiffStats_add_def DiffStats_default_def split: option.split)

end
