(* ===== verification/Diff_Units.thy ===== *)
theory Diff_Units
  imports Blob_Cursor Diff_Sink
begin

text \<open>
  The engine of the indexed comparison (\<open>commands/diff/units.rs\<close>, \<open>diff_block_pair\<close> of \<open>commands/diff/mod.rs\<close>): the
  planner that cuts each kind of two inputs into work units, the merge of each unit into its own sink, and the
  consumer that takes the units in order. The ordered pool delivers units in the order they were planned, so the
  run is that sequence; a planner failure ends it. Cancellation, markers and counters are not modelled.
\<close>

section \<open>The planner\<close>

definition DIFF_UNIT_TARGET_BYTES :: nat where "DIFF_UNIT_TARGET_BYTES = 32 * 2 ^ 20"

definition DIFF_UNIT_LONE_ELEMENTS :: u64 where "DIFF_UNIT_LONE_ELEMENTS = 2 ^ 17"

definition DIFF_UNIT_CAP_BYTES :: nat where "DIFF_UNIT_CAP_BYTES = 2 ^ 30"

record Unit =
  un_kind :: ElementKind
  un_window :: Window
  un_old :: "Frame list"
  un_new :: "Frame list"

text \<open>The unit being filled.\<close>

record UnitFill =
  uf_old :: "Frame list"
  uf_new :: "Frame list"
  uf_bytes :: nat
  uf_max_first :: "OsmIdKey option"
  uf_max_last_old :: "OsmIdKey option"
  uf_max_last_new :: "OsmIdKey option"
  uf_lone :: u64

definition frame_bytes :: "Frame list \<Rightarrow> nat" where
  "frame_bytes fs = (\<Sum>f\<leftarrow>fs. length (fm_body f))"

definition max_last_key :: "Frame list \<Rightarrow> OsmIdKey option" where
  "max_last_key fs = (if fs = [] then None else Some (fold max (map (desc_last_key \<circ> fm_index) (tl fs)) (desc_last_key (fm_index (hd fs)))))"

definition UnitFill_new :: "Frame list \<Rightarrow> Frame list \<Rightarrow> UnitFill" where
  "UnitFill_new carry_old carry_new = \<lparr>uf_old = carry_old, uf_new = carry_new, uf_bytes = frame_bytes carry_old + frame_bytes carry_new,
     uf_max_first = None, uf_max_last_old = max_last_key carry_old, uf_max_last_new = max_last_key carry_new, uf_lone = 0\<rparr>"

text \<open>The smaller of the next first keys with its side, the old input on a tie; the side is \<open>True\<close> for the new input.\<close>

definition next_side :: "BlobIndex option \<Rightarrow> BlobIndex option \<Rightarrow> (OsmIdKey \<times> bool) option" where
  "next_side p q =
     (case (p, q) of
        (None, None) \<Rightarrow> None
      | (Some a, None) \<Rightarrow> Some (desc_first_key a, False)
      | (None, Some b) \<Rightarrow> Some (desc_first_key b, True)
      | (Some a, Some b) \<Rightarrow> if desc_first_key a \<le> desc_first_key b then Some (desc_first_key a, False) else Some (desc_first_key b, True))"

definition unit_due :: "nat \<Rightarrow> UnitFill \<Rightarrow> bool" where
  "unit_due target f \<longleftrightarrow> target \<le> uf_bytes f \<or> DIFF_UNIT_LONE_ELEMENTS \<le> uf_lone f"

definition saturating_add :: "u64 \<Rightarrow> u64 \<Rightarrow> u64" where
  "saturating_add a b = (if unat a + unat b < 2 ^ 64 then a + b else - 1)"

definition max_opt :: "OsmIdKey option \<Rightarrow> OsmIdKey \<Rightarrow> OsmIdKey option" where
  "max_opt m x = Some (case m of None \<Rightarrow> x | Some y \<Rightarrow> max y x)"

definition take_frame :: "bool \<Rightarrow> BlobIndex option \<Rightarrow> Frame \<Rightarrow> UnitFill \<Rightarrow> UnitFill" where
  "take_frame is_new other_peek frame f =
     (let first = desc_first_key (fm_index frame);
          last = desc_last_key (fm_index frame);
          other_last = (if is_new then uf_max_last_old f else uf_max_last_new f);
          is_lone = (case other_peek of None \<Rightarrow> True | Some d \<Rightarrow> last < desc_first_key d) \<and> (case other_last of None \<Rightarrow> True | Some m \<Rightarrow> m < first);
          f = f\<lparr>uf_bytes := uf_bytes f + length (fm_body frame),
                uf_lone := (if is_lone then saturating_add (uf_lone f) (count (fm_index frame)) else uf_lone f),
                uf_max_first := max_opt (uf_max_first f) first\<rparr> in
      if is_new then f\<lparr>uf_max_last_new := max_opt (uf_max_last_new f) last, uf_new := uf_new f @ [frame]\<rparr>
      else f\<lparr>uf_max_last_old := max_opt (uf_max_last_old f) last, uf_old := uf_old f @ [frame]\<rparr>)"

lemma reaches_left: "reaches k c = Inr (here, d) \<Longrightarrow> cursor_left d \<le> cursor_left c \<and> (here \<longrightarrow> cu_lookahead d \<noteq> None)"
proof (induction k c rule: reaches.induct)
  case (1 k c)
  show ?case
  proof (cases "cursor_advance c")
    case (Inl err)
    then show ?thesis using 1(2) by (simp add: reaches.simps[of k c])
  next
    case (Inr e)
    note l = advance_left[OF Inr]
    show ?thesis
    proof (cases "cu_lookahead e")
      case None
      then show ?thesis using 1(2) Inr l by (simp add: reaches.simps[of k c])
    next
      case (Some ix)
      show ?thesis
        using 1(2) Inr l Some 1(1)[OF Inr Some] by (auto simp: reaches.simps[of k c] cursor_left_def split: if_splits sum.splits)
    qed
  qed
qed

lemma peek_left: "cursor_peek k c = Inr (p, d) \<Longrightarrow> cursor_left d \<le> cursor_left c"
  using reaches_left[of k c] by (auto simp: cursor_peek_def split: sum.splits)

lemma next_of_left: "next_of k c = Inr (Some f, d) \<Longrightarrow> cursor_left d < cursor_left c"
  using reaches_left[of k c] by (fastforce simp: next_of_def cursor_left_def split: sum.splits if_splits option.splits)

text \<open>
  One turn of the inner loop of \<open>plan_kind\<close>, which takes frames in order of first keys: the unit closes, at a cut or at
  the end of the kind, or took a frame.
\<close>

datatype fill_flow = Closed "OsmIdKey option" | Took

definition fill_step :: "ElementKind \<Rightarrow> nat \<Rightarrow> BlobCursor \<Rightarrow> BlobCursor \<Rightarrow> UnitFill \<Rightarrow> merge_error + fill_flow \<times> UnitFill \<times> BlobCursor \<times> BlobCursor" where
  "fill_step k target old new f =
     (case cursor_peek k old of
        Inl err \<Rightarrow> Inl err
      | Inr (p, old) \<Rightarrow>
          (case cursor_peek k new of
             Inl err \<Rightarrow> Inl err
           | Inr (q, new) \<Rightarrow>
               (case next_side p q of
                  None \<Rightarrow> Inr (Closed None, f, old, new)
                | Some (next_first, is_new) \<Rightarrow>
                    if unit_due target f \<and> (case uf_max_first f of Some m \<Rightarrow> m < next_first | None \<Rightarrow> False) then Inr (Closed (Some next_first), f, old, new)
                    else if DIFF_UNIT_CAP_BYTES \<le> uf_bytes f then Inl (Unsplittable k next_first (uf_bytes f))
                    else if is_new
                    then (case next_of k new of
                            Inl err \<Rightarrow> Inl err
                          | Inr (None, _) \<Rightarrow> Inl MergeInternal
                          | Inr (Some frame, new) \<Rightarrow> Inr (Took, take_frame True p frame f, old, new))
                    else (case next_of k old of
                            Inl err \<Rightarrow> Inl err
                          | Inr (None, _) \<Rightarrow> Inl MergeInternal
                          | Inr (Some frame, old) \<Rightarrow> Inr (Took, take_frame False q frame f, old, new)))))"

lemma take_frame_first: "uf_max_first (take_frame is_new p frame f) = max_opt (uf_max_first f) (desc_first_key (fm_index frame))"
  by (simp add: take_frame_def Let_def)

lemma max_opt_Some [simp]: "\<exists>a b. max_opt m x = Some (a, b)"
  by (simp add: max_opt_def)

lemma fill_step_left:
  assumes "fill_step k target old new f = Inr (fl, g, old', new')"
  shows "case fl of Took \<Rightarrow> cursor_left old' + cursor_left new' < cursor_left old + cursor_left new \<and> uf_max_first g \<noteq> None
    | Closed e \<Rightarrow> cursor_left old' + cursor_left new' \<le> cursor_left old + cursor_left new \<and> (e \<noteq> None \<longrightarrow> uf_max_first f \<noteq> None)"
  using assms unfolding fill_step_def
  by (auto simp: take_frame_first split: sum.splits prod.splits option.splits if_splits dest!: peek_left next_of_left)

function fill_unit :: "ElementKind \<Rightarrow> nat \<Rightarrow> BlobCursor \<Rightarrow> BlobCursor \<Rightarrow> UnitFill \<Rightarrow> merge_error + OsmIdKey option \<times> UnitFill \<times> BlobCursor \<times> BlobCursor" where
  "fill_unit k target old new f =
     (case fill_step k target old new f of
        Inl err \<Rightarrow> Inl err
      | Inr (Closed e, f, old, new) \<Rightarrow> Inr (e, f, old, new)
      | Inr (Took, f, old, new) \<Rightarrow> fill_unit k target old new f)"
  by auto
termination
  by (relation "measure (\<lambda>(k, target, old, new, f). cursor_left old + cursor_left new)") (auto dest: fill_step_left)

declare fill_unit.simps [simp del]

lemma fill_unit_left:
  "fill_unit k target old new f = Inr (e, g, old', new') \<Longrightarrow>
   cursor_left old' + cursor_left new' \<le> cursor_left old + cursor_left new \<and>
   (e \<noteq> None \<and> uf_max_first f = None \<longrightarrow> cursor_left old' + cursor_left new' < cursor_left old + cursor_left new)"
proof (induction k target old new f rule: fill_unit.induct)
  case (1 k target old new f)
  show ?case
  proof (cases "fill_step k target old new f")
    case (Inl err)
    then show ?thesis using 1(2) by (simp add: fill_unit.simps[of k target old])
  next
    case (Inr r)
    obtain fl h o1 n1 where r: "r = (fl, h, o1, n1)" by (cases r)
    show ?thesis
    proof (cases fl)
      case (Closed e')
      then show ?thesis using 1(2) Inr r fill_step_left[OF Inr[unfolded r]] by (auto simp: fill_unit.simps[of k target old])
    next
      case Took
      then have "fill_unit k target o1 n1 h = Inr (e, g, old', new')" using 1(2) Inr r by (simp add: fill_unit.simps[of k target old])
      from 1(1)[OF Inr r[symmetric] Took refl refl this] fill_step_left[OF Inr[unfolded r]] Took show ?thesis by auto
    qed
  qed
qed

definition carried :: "OsmIdKey \<Rightarrow> Frame list \<Rightarrow> Frame list" where
  "carried e fs = filter (\<lambda>f. e \<le> desc_last_key (fm_index f)) fs"

text \<open>The planner's messages: the units it sent, then whether it got to the end.\<close>

function plan_kind :: "ElementKind \<Rightarrow> nat \<Rightarrow> OsmIdKey option \<Rightarrow> Frame list \<Rightarrow> Frame list \<Rightarrow> BlobCursor \<Rightarrow> BlobCursor \<Rightarrow>
    Unit list \<times> (merge_error + BlobCursor \<times> BlobCursor)" where
  "plan_kind k target start carry_old carry_new old new =
     (case fill_unit k target old new (UnitFill_new carry_old carry_new) of
        Inl err \<Rightarrow> ([], Inl err)
      | Inr (e, f, old, new) \<Rightarrow>
          let unit = \<lparr>un_kind = k, un_window = \<lparr>wi_start = start, wi_end = e\<rparr>, un_old = uf_old f, un_new = uf_new f\<rparr> in
          (case e of
             None \<Rightarrow> ([unit], Inr (old, new))
           | Some b \<Rightarrow>
               (case plan_kind k target (Some b) (carried b (uf_old f)) (carried b (uf_new f)) old new of
                  (units, r) \<Rightarrow> (unit # units, r))))"
  by auto
termination
  by (relation "measure (\<lambda>(k, target, start, co, cn, old, new). cursor_left old + cursor_left new)")
    (auto dest!: fill_unit_left simp: UnitFill_new_def)

declare plan_kind.simps [simp del]

fun plan :: "ElementKind list \<Rightarrow> nat \<Rightarrow> BlobCursor \<Rightarrow> BlobCursor \<Rightarrow> Unit list \<times> merge_error option" where
  "plan [] target old new =
     (case cursor_finish old of
        Inl err \<Rightarrow> ([], Some err)
      | Inr _ \<Rightarrow> (case cursor_finish new of Inl err \<Rightarrow> ([], Some err) | Inr _ \<Rightarrow> ([], None)))"
| "plan (k # ks) target old new =
     (case reaches k old of
        Inl err \<Rightarrow> ([], Some err)
      | Inr (old_has, old) \<Rightarrow>
          (case reaches k new of
             Inl err \<Rightarrow> ([], Some err)
           | Inr (new_has, new) \<Rightarrow>
               if \<not> old_has \<and> \<not> new_has then plan ks target old new
               else
                 (case plan_kind k target None [] [] old new of
                    (units, Inl err) \<Rightarrow> (units, Some err)
                  | (units, Inr (old, new)) \<Rightarrow> (case plan ks target old new of (units', r) \<Rightarrow> (units @ units', r)))))"

section \<open>The run\<close>

definition merge_unit :: "('z, 'a) BlockCodec \<Rightarrow> 'a details \<Rightarrow> DiffOptions \<Rightarrow> bool \<Rightarrow> Unit \<Rightarrow> (merge_error + string list \<times> DiffStats) option" where
  "merge_unit C details opts text u =
     (case block_pair_merge_phase C (do_suppress_common opts) (BlockPairSide_new (un_old u) (un_window u)) (BlockPairSide_new (un_new u) (un_window u)) of
        None \<Rightarrow> None
      | Some (Inl err) \<Rightarrow> Some (Inl err)
      | Some (Inr acts) \<Rightarrow>
          Some (case record_all details opts (un_kind u) acts (unit_output text) of Inl err \<Rightarrow> Inl err | Inr out \<Rightarrow> Inr (finish_into out)))"

fun drive :: "('z, 'a) BlockCodec \<Rightarrow> 'a details \<Rightarrow> DiffOptions \<Rightarrow> bool \<Rightarrow> Unit list \<Rightarrow> TextConsumer \<Rightarrow> (merge_error + TextConsumer) option" where
  "drive C details opts text [] c = Some (Inr c)"
| "drive C details opts text (u # us) c =
     (case merge_unit C details opts text u of
        None \<Rightarrow> None
      | Some (Inl err) \<Rightarrow> Some (Inl err)
      | Some (Inr r) \<Rightarrow> drive C details opts text us (consume_unit r c))"

definition diff_block_pair :: "('z, 'a) BlockCodec \<Rightarrow> 'a details \<Rightarrow> DiffOptions \<Rightarrow> (ElementKind \<Rightarrow> bool) \<Rightarrow> string option \<Rightarrow> nat \<Rightarrow>
    (merge_error + ReaderFrame) list \<Rightarrow> (merge_error + ReaderFrame) list \<Rightarrow> (merge_error + TextConsumer) option" where
  "diff_block_pair C details opts enabled output target old new =
     (case plan (filter enabled [Node, Way, Relation]) target (BlobCursor_open old) (BlobCursor_open new) of
        (units, failed) \<Rightarrow>
          (case drive C details opts (output \<noteq> None) units \<lparr>tc_output = output, tc_stats = DiffStats_default\<rparr> of
             None \<Rightarrow> None
           | Some (Inl err) \<Rightarrow> Some (Inl err)
           | Some (Inr c) \<Rightarrow> Some (case failed of Some err \<Rightarrow> Inl err | None \<Rightarrow> Inr c)))"

section \<open>What a unit takes\<close>

definition heads_from :: "OsmIdKey \<Rightarrow> Frame list \<Rightarrow> bool" where
  "heads_from b fs \<longleftrightarrow> (case fs of [] \<Rightarrow> True | f # _ \<Rightarrow> b \<le> desc_first_key (fm_index f))"

definition peeked :: "Frame list \<Rightarrow> BlobIndex option" where
  "peeked fs = (case fs of [] \<Rightarrow> None | f # _ \<Rightarrow> Some (fm_index f))"

definition may_close :: "nat \<Rightarrow> UnitFill \<Rightarrow> OsmIdKey \<Rightarrow> bool" where
  "may_close target f b \<longleftrightarrow> unit_due target f \<and> (case uf_max_first f of Some m \<Rightarrow> m < b | None \<Rightarrow> False)"

lemma next_side_heads:
  "next_side (peeked fo) (peeked fn) = None \<longleftrightarrow> fo = [] \<and> fn = []"
  "next_side (peeked fo) (peeked fn) = Some (b, False) \<Longrightarrow> (\<exists>g gs. fo = g # gs \<and> desc_first_key (fm_index g) = b) \<and> heads_from b fo \<and> heads_from b fn"
  "next_side (peeked fo) (peeked fn) = Some (b, True) \<Longrightarrow> (\<exists>g gs. fn = g # gs \<and> desc_first_key (fm_index g) = b) \<and> heads_from b fo \<and> heads_from b fn"
  by (auto simp: next_side_def peeked_def heads_from_def split: list.splits if_splits)

lemma fill_step_at:
  assumes o: "at_kind k old fo lo" and n: "at_kind k new fn ln"
  obtains (over) old' new' where "fo = []" "fn = []" "fill_step k target old new f = Inr (Closed None, f, old', new')" "at_kind k old' fo lo" "at_kind k new' fn ln"
  | (closed) b old' new' where "fill_step k target old new f = Inr (Closed (Some b), f, old', new')" "may_close target f b" "heads_from b fo" "heads_from b fn"
      "at_kind k old' fo lo" "at_kind k new' fn ln"
  | (refused) b where "fill_step k target old new f = Inl (Unsplittable k b (uf_bytes f))" "\<not> may_close target f b" "DIFF_UNIT_CAP_BYTES \<le> uf_bytes f"
      "heads_from b fo" "heads_from b fn" "fo \<noteq> [] \<or> fn \<noteq> []"
  | (old) g gs old' new' where "fo = g # gs" "fill_step k target old new f = Inr (Took, take_frame False (peeked fn) g f, old', new')"
      "\<not> may_close target f (desc_first_key (fm_index g))" "uf_bytes f < DIFF_UNIT_CAP_BYTES" "heads_from (desc_first_key (fm_index g)) fn" "at_kind k old' gs lo" "at_kind k new' fn ln"
  | (new) g gs old' new' where "fn = g # gs" "fill_step k target old new f = Inr (Took, take_frame True (peeked fo) g f, old', new')"
      "\<not> may_close target f (desc_first_key (fm_index g))" "uf_bytes f < DIFF_UNIT_CAP_BYTES" "heads_from (desc_first_key (fm_index g)) fo" "at_kind k old' fo lo" "at_kind k new' gs ln"
proof -
  obtain old1 where p: "cursor_peek k old = Inr (peeked fo, old1)" "at_kind k old1 fo lo" using peek_at[OF o] by (auto simp: peeked_def)
  obtain new1 where q: "cursor_peek k new = Inr (peeked fn, new1)" "at_kind k new1 fn ln" using peek_at[OF n] by (auto simp: peeked_def)
  show ?thesis
  proof (cases "next_side (peeked fo) (peeked fn)")
    case None
    then show ?thesis using p q next_side_heads(1)[of fo fn] by (intro over[of old1 new1]) (simp_all add: fill_step_def)
  next
    case (Some r)
    obtain b is_new where r: "r = (b, is_new)" by (cases r)
    have heads: "heads_from b fo" "heads_from b fn" "fo \<noteq> [] \<or> fn \<noteq> []" using Some r next_side_heads(2,3)[of fo fn b] by (cases is_new; auto)+
    consider (close) "may_close target f b" | (cap) "\<not> may_close target f b" "DIFF_UNIT_CAP_BYTES \<le> uf_bytes f" | (go) "\<not> may_close target f b" "uf_bytes f < DIFF_UNIT_CAP_BYTES" by linarith
    then show ?thesis
    proof cases
      case close
      then show ?thesis using p q Some r heads by (intro closed[of b old1 new1]) (auto simp: fill_step_def may_close_def)
    next
      case cap
      then show ?thesis using p q Some r heads by (intro refused[of b]) (auto simp: fill_step_def may_close_def)
    next
      case go
      show ?thesis
      proof (cases is_new)
        case True
        then obtain g gs where g: "fn = g # gs" "desc_first_key (fm_index g) = b" using Some r next_side_heads(3)[of fo fn b] by auto
        obtain new2 where n2: "next_of k new1 = Inr (Some g, new2)" "at_kind k new2 gs ln" using next_of_at[of k new1 g gs ln] q(2) g(1) by auto
        show ?thesis using p q Some r heads go g n2 True by (intro new[of g gs old1 new2]) (auto simp: fill_step_def may_close_def)
      next
        case False
        then obtain g gs where g: "fo = g # gs" "desc_first_key (fm_index g) = b" using Some r next_side_heads(2)[of fo fn b] by auto
        obtain old2 where o2: "next_of k old1 = Inr (Some g, old2)" "at_kind k old2 gs lo" using next_of_at[of k old1 g gs lo] p(2) g(1) by auto
        show ?thesis using p q Some r heads go g o2 False by (intro old[of g gs old2 new1]) (auto simp: fill_step_def may_close_def)
      qed
    qed
  qed
qed

text \<open>A unit closed at \<open>e\<close>: it took a first part of each side, what is left starts at the cut or later, and the cut lies past the start.\<close>

definition past_start :: "OsmIdKey option \<Rightarrow> OsmIdKey \<Rightarrow> bool" where
  "past_start start b \<longleftrightarrow> (case start of None \<Rightarrow> True | Some s \<Rightarrow> s < b)"

definition closes :: "ElementKind \<Rightarrow> OsmIdKey option \<Rightarrow> Frame list \<Rightarrow> Frame list \<Rightarrow> Frame list \<Rightarrow> Frame list \<Rightarrow> UnitFill \<Rightarrow>
    OsmIdKey option \<times> UnitFill \<times> BlobCursor \<times> BlobCursor \<Rightarrow> bool" where
  "closes k start fo lo fn ln f r \<longleftrightarrow>
     (case r of (e, g, old, new) \<Rightarrow> \<exists>to ro tn rn. fo = to @ ro \<and> fn = tn @ rn \<and> uf_old g = uf_old f @ to \<and> uf_new g = uf_new f @ tn \<and>
        at_kind k old ro lo \<and> at_kind k new rn ln \<and>
        (case e of None \<Rightarrow> ro = [] \<and> rn = [] | Some b \<Rightarrow> heads_from b ro \<and> heads_from b rn \<and> past_start start b))"

definition started_from :: "OsmIdKey option \<Rightarrow> UnitFill \<Rightarrow> Frame list \<Rightarrow> Frame list \<Rightarrow> bool" where
  "started_from start f fo fn \<longleftrightarrow>
     (case start of None \<Rightarrow> True
      | Some s \<Rightarrow> (case uf_max_first f of None \<Rightarrow> heads_from s fo \<and> heads_from s fn | Some m \<Rightarrow> s \<le> m))"

lemma take_frame_sides:
  "uf_old (take_frame False p g f) = uf_old f @ [g]" "uf_new (take_frame False p g f) = uf_new f"
  "uf_old (take_frame True p g f) = uf_old f" "uf_new (take_frame True p g f) = uf_new f @ [g]"
  "uf_bytes (take_frame b p g f) = uf_bytes f + length (fm_body g)"
  by (simp_all add: take_frame_def Let_def)

lemma started_take:
  "started_from start f (g # fo) fn \<Longrightarrow> started_from start (take_frame False p g f) fo fn"
  "started_from start f fo (g # fn) \<Longrightarrow> started_from start (take_frame True p g f) fo fn"
  by (auto simp: started_from_def take_frame_first max_opt_def heads_from_def max_def split: option.splits dest: order_trans)

lemma closes_take:
  "closes k start fo lo fn ln (take_frame False p g f) r \<Longrightarrow> closes k start (g # fo) lo fn ln f r"
  "closes k start fo lo fn ln (take_frame True p g f) r \<Longrightarrow> closes k start fo lo (g # fn) ln f r"
  unfolding closes_def take_frame_sides by (auto intro: exI[of _ "g # _"]; metis append_Cons append_Nil append_assoc)+

lemma closed_past:
  assumes "may_close target f b" "started_from start f fo fn"
  shows "past_start start b"
proof (cases start)
  case (Some s)
  then show ?thesis using assms
    by (cases "uf_max_first f") (simp_all add: may_close_def started_from_def past_start_def le_less_trans del: less_prod_simp)
qed (simp add: past_start_def)

lemma fill_unit_closes:
  assumes "at_kind k old fo lo" "at_kind k new fn ln" "started_from start f fo fn"
  shows "case fill_unit k target old new f of Inl err \<Rightarrow> (\<exists>b n. err = Unsplittable k b n) | Inr r \<Rightarrow> closes k start fo lo fn ln f r"
  using assms
proof (induction "length fo + length fn" arbitrary: old new fo fn f rule: less_induct)
  case less
  show ?case
  proof (cases rule: fill_step_at[OF less.prems(1,2), of target f, case_names over closed refused old new])
    case (over old' new')
    then show ?thesis by (auto simp: fill_unit.simps[of k target old] closes_def)
  next
    case (closed b old' new')
    have "past_start start b" using closed_past[OF closed(2) less.prems(3)] .
    then show ?thesis using closed by (auto simp: fill_unit.simps[of k target old] closes_def intro!: exI[of _ "[]"])
  next
    case (refused b)
    then show ?thesis by (simp add: fill_unit.simps[of k target old])
  next
    case (old g gs old' new')
    then have "case fill_unit k target old' new' (take_frame False (peeked fn) g f) of Inl err \<Rightarrow> (\<exists>b n. err = Unsplittable k b n)
      | Inr r \<Rightarrow> closes k start gs lo fn ln (take_frame False (peeked fn) g f) r"
      using less.prems(3) by (intro less.hyps) (auto intro: started_take)
    then show ?thesis using old(1,2) closes_take(1) by (auto simp: fill_unit.simps[of k target old] split: sum.splits)
  next
    case (new g gs old' new')
    then have "case fill_unit k target old' new' (take_frame True (peeked fo) g f) of Inl err \<Rightarrow> (\<exists>b n. err = Unsplittable k b n)
      | Inr r \<Rightarrow> closes k start fo lo gs ln (take_frame True (peeked fo) g f) r"
      using less.prems(3) by (intro less.hyps) (auto intro: started_take)
    then show ?thesis using new(1,2) closes_take(2) by (auto simp: fill_unit.simps[of k target old] split: sum.splits)
  qed
qed

section \<open>Windows cut a kind without loss\<close>

abbreviation between :: "OsmIdKey option \<Rightarrow> OsmIdKey option \<Rightarrow> Window" where
  "between s e \<equiv> \<lparr>wi_start = s, wi_end = e\<rparr>"

lemma window_keys:
  "e \<in> set (window_part (between s (Some b)) xs) \<Longrightarrow> elem_key e < b"
  "e \<in> set (window_part (between (Some b) t) xs) \<Longrightarrow> b \<le> elem_key e"
  by (simp_all add: window_part_def past_def below_def not_le not_less)

lemma window_cut:
  assumes "strict xs" "past_start s b"
  shows "window_part (between s None) xs = window_part (between s (Some b)) xs @ window_part (between (Some b) None) xs"
  using assms(1)
proof (induction xs)
  case (Cons x xs)
  show ?case
  proof (cases "elem_key x < b")
    case True
    then have "\<not> b \<le> elem_key x" by simp
    then show ?thesis using Cons True by (simp add: window_part_Cons past_def below_def)
  next
    case False
    have "b \<le> elem_key y" if "y \<in> set xs" for y using False Cons.prems that by (auto simp: not_less intro: order_trans less_imp_le)
    then have "window_part (between s (Some b)) (x # xs) = []" using False by (auto simp: window_part_def past_def filter_empty_conv not_less)
    moreover have "\<not> below (between s None) e" if "b \<le> elem_key e" for e :: "'a MergeElement"
      using assms(2) that by (auto simp: below_def past_start_def not_less split: option.splits)
    ultimately show ?thesis
      using False \<open>\<And>y. y \<in> set xs \<Longrightarrow> b \<le> elem_key y\<close>
      by (simp add: window_part_def below_def past_def not_less filter_cong[of xs xs])
  qed
qed simp

lemma frames_behind:
  assumes "list_all2 (reads_as C rs k) fs bs" "heads_from b fs" "strict (concat bs)" "e \<in> set (concat bs)"
  shows "b \<le> elem_key e"
proof (cases fs)
  case Nil
  then show ?thesis using assms by simp
next
  case (Cons f fs')
  then obtain c cs where c: "bs = c # cs" "reads_as C rs k f c" using assms(1) by (auto simp: list_all2_Cons1)
  have x: "exact_claim (fm_index f) (map me_id c)" "c \<noteq> []" using c(2) by (auto simp: reads_as_def exact_claim_def)
  have le: "b \<le> desc_first_key (fm_index f)" using assms(2) Cons by (simp add: heads_from_def)
  have first: "b \<le> elem_key y" if "y \<in> set c" for y using claim_bounds(1)[OF x(1) that] le by (rule order_trans[rotated])
  show ?thesis
  proof (cases "e \<in> set c")
    case False
    then have "elem_key (hd c) < elem_key e" using assms(3,4) c(1) x(2) by auto
    then show ?thesis using first[of "hd c"] x(2) by (auto intro: order_trans less_imp_le)
  qed (rule first)
qed

lemma window_behind: "\<forall>e \<in> set ys. b \<le> elem_key e \<Longrightarrow> window_part (between s (Some b)) (xs @ ys) = window_part (between s (Some b)) xs"
  by (auto simp: window_part_append) (auto simp: window_part_def past_def filter_empty_conv)

lemma carried_blocks:
  assumes "list_all2 (reads_as C rs k) fs bs"
  shows "\<exists>cs. list_all2 (reads_as C rs k) (carried b fs) cs \<and> window_part (between (Some b) None) (concat cs) = window_part (between (Some b) None) (concat bs) \<and>
    (\<forall>xs. strict (concat bs @ xs) \<longrightarrow> strict (concat cs @ xs)) \<and> set (concat cs) \<subseteq> set (concat bs)"
  using assms
proof (induction fs bs rule: list_all2_induct)
  case Nil
  then show ?case by (auto simp: carried_def)
next
  case (Cons f fs c bs)
  obtain cs where cs: "list_all2 (reads_as C rs k) (carried b fs) cs" "window_part (between (Some b) None) (concat cs) = window_part (between (Some b) None) (concat bs)"
    "\<forall>xs. strict (concat bs @ xs) \<longrightarrow> strict (concat cs @ xs)" "set (concat cs) \<subseteq> set (concat bs)" using Cons.IH by blast
  show ?case
  proof (cases "b \<le> desc_last_key (fm_index f)")
    case True
    have "strict (concat (c # cs) @ xs)" if "strict (concat (c # bs) @ xs)" for xs
    proof -
      have "strict c" "strict (concat bs @ xs)" "\<forall>x \<in> set c. \<forall>y \<in> set (concat bs @ xs). elem_key x < elem_key y" using that unfolding concat.simps append_assoc strict_simps(3) by blast+
      moreover have "set (concat cs @ xs) \<subseteq> set (concat bs @ xs)" using cs(4) by auto
      ultimately show ?thesis using cs(3) unfolding concat.simps append_assoc strict_simps(3)[of c] by blast
    qed
    moreover have "list_all2 (reads_as C rs k) (carried b (f # fs)) (c # cs)" using True cs(1) Cons.hyps(1) by (simp add: carried_def)
    moreover have "window_part (between (Some b) None) (concat (c # cs)) = window_part (between (Some b) None) (concat (c # bs))" "set (concat (c # cs)) \<subseteq> set (concat (c # bs))"
      using cs(2,4) by (auto simp: window_part_append)
    ultimately show ?thesis by blast
  next
    case False
    have "elem_key e < b" if "e \<in> set c" for e
      using False claim_bounds(2)[of "fm_index f" c e] that Cons.hyps(1) by (auto simp: reads_as_def not_le intro: le_less_trans)
    then have "window_part (between (Some b) None) c = []" by (auto simp: window_part_def below_def filter_empty_conv)
    then show ?thesis using False cs by (intro exI[of _ cs]) (auto simp: carried_def window_part_append)
  qed
qed

section \<open>The run as one sink\<close>

text \<open>The consumer after a run is the sink that recorded everything itself.\<close>

definition from_sink :: "DiffSink \<Rightarrow> TextConsumer" where
  "from_sink s = \<lparr>tc_output = dk_output s, tc_stats = dk_stats s\<rparr>"

lemma from_as_sink [simp]: "from_sink (as_sink c) = c" "as_sink (from_sink s) = s"
  by (simp_all add: from_sink_def as_sink_def)

definition record_ref :: "'a details \<Rightarrow> DiffOptions \<Rightarrow> ElementKind \<Rightarrow> 'a BlockMergeAction list \<Rightarrow> TextConsumer \<Rightarrow> merge_error + TextConsumer" where
  "record_ref details opts k acts c = map_sum id from_sink (fold (sink_step details opts k) acts (Inr (as_sink c)))"

definition then_drive :: "merge_error + TextConsumer \<Rightarrow> (TextConsumer \<Rightarrow> (merge_error + TextConsumer) option) \<Rightarrow> (merge_error + TextConsumer) option" where
  "then_drive r rest = (case r of Inl err \<Rightarrow> Some (Inl err) | Inr c \<Rightarrow> rest c)"

lemma record_ref_append:
  "record_ref details opts k (as @ bs) c = (case record_ref details opts k as c of Inl err \<Rightarrow> Inl err | Inr d \<Rightarrow> record_ref details opts k bs d)"
  by (cases "fold (sink_step details opts k) as (Inr (as_sink c))") (simp_all add: record_ref_def fold_failed)

lemma then_drive_append:
  "then_drive (record_ref details opts k (as @ bs) c) rest = then_drive (record_ref details opts k as c) (\<lambda>d. then_drive (record_ref details opts k bs d) rest)"
  by (simp add: record_ref_append then_drive_def split: sum.split)

lemma fold_sink_output:
  "fold (sink_step details opts k) acts (Inr s) = Inr t \<Longrightarrow> dk_output t = None \<longleftrightarrow> dk_output s = None"
proof (induction acts arbitrary: s)
  case (Cons a acts)
  then show ?case by (cases "DiffSink_record details opts k a s") (auto simp: fold_failed dest: record_output)
qed simp

lemma record_ref_output: "record_ref details opts k acts c = Inr d \<Longrightarrow> tc_output d = None \<longleftrightarrow> tc_output c = None"
  using fold_sink_output[of details opts k acts "as_sink c"]
  by (cases "fold (sink_step details opts k) acts (Inr (as_sink c))") (auto simp: record_ref_def from_sink_def as_sink_def)

lemma drive_unit:
  assumes "block_pair_merge_phase C (do_suppress_common opts) (BlockPairSide_new (un_old u) (un_window u)) (BlockPairSide_new (un_new u) (un_window u)) = Some (Inr acts)"
    and "fold (sink_step details opts (un_kind u)) acts = fold (sink_step details opts (un_kind u)) ref" "text \<longleftrightarrow> tc_output c \<noteq> None"
  shows "drive C details opts text (u # us) c = then_drive (record_ref details opts (un_kind u) ref c) (drive C details opts text us)"
proof -
  note same = unit_output_joined[of c]
  have same_text: "unit_output text = unit_output (tc_output c \<noteq> None)" using assms(3) by simp
  note j = record_all_joined[OF same(1), of details opts "un_kind u" acts, unfolded same(2) assms(2)]
  show ?thesis
  proof (cases "record_all details opts (un_kind u) acts (unit_output text)")
    case (Inl err)
    then have "fold (sink_step details opts (un_kind u)) ref (Inr (as_sink c)) = Inl err" using j same_text by (auto elim: rel_sum.cases)
    then show ?thesis using Inl assms(1) by (simp add: merge_unit_def record_ref_def then_drive_def)
  next
    case (Inr out)
    then have o: "same_output c out" "fold (sink_step details opts (un_kind u)) ref (Inr (as_sink c)) = Inr (joined c out)" using j same_text by (auto elim: rel_sum.cases)
    then have "from_sink (joined c out) = consume_unit (finish_into out) c" using consume_joined[OF o(1)] by (metis from_as_sink(1))
    then show ?thesis using Inr assms(1) o(2) by (simp add: merge_unit_def record_ref_def then_drive_def)
  qed
qed

text \<open>One kind: the units the planner cuts it into, driven in order, record the reference merge of what the kind holds from the start on.\<close>

definition side_of :: "('z, 'a) BlockCodec \<Rightarrow> bool \<Rightarrow> ElementKind \<Rightarrow> Frame list \<Rightarrow> Frame list \<Rightarrow> 'a MergeElement list list \<Rightarrow> 'a MergeElement list list \<Rightarrow> bool" where
  "side_of C rs k carry fs cb bs \<longleftrightarrow> list_all2 (reads_as C rs k) carry cb \<and> list_all2 (reads_as C rs k) fs bs \<and> strict (concat cb @ concat bs)"

lemma side_of_cut:
  assumes "side_of C rs k carry (ts @ rs') cb bs" "heads_from b rs'" "past_start start b"
  obtains tb rb cb' where "list_all2 (reads_as C rs k) (carry @ ts) (cb @ tb)" "strict (concat (cb @ tb))" "side_of C rs k (carried b (carry @ ts)) rs' cb' rb"
    "window_part (between start None) (concat cb @ concat bs) = window_part (between start (Some b)) (concat (cb @ tb)) @ window_part (between (Some b) None) (concat cb' @ concat rb)"
proof -
  obtain tb rb where l: "bs = tb @ rb" "list_all2 (reads_as C rs k) ts tb" "list_all2 (reads_as C rs k) rs' rb"
    using assms(1) by (auto simp: side_of_def list_all2_append1)
  have all: "list_all2 (reads_as C rs k) (carry @ ts) (cb @ tb)" using assms(1) l(2) by (simp add: side_of_def list_all2_appendI)
  have st: "strict (concat (cb @ tb) @ concat rb)" using assms(1) l(1) by (simp add: side_of_def)
  obtain cb' where c: "list_all2 (reads_as C rs k) (carried b (carry @ ts)) cb'" "window_part (between (Some b) None) (concat cb') = window_part (between (Some b) None) (concat (cb @ tb))"
    "\<forall>xs. strict (concat (cb @ tb) @ xs) \<longrightarrow> strict (concat cb' @ xs)" using carried_blocks[OF all] by blast
  have behind: "\<forall>e \<in> set (concat rb). b \<le> elem_key e" using frames_behind[OF l(3) assms(2)] st by auto
  have "window_part (between start None) (concat cb @ concat bs) = window_part (between start None) (concat (cb @ tb) @ concat rb)" using l(1) by simp
  also have "\<dots> = window_part (between start (Some b)) (concat (cb @ tb)) @ window_part (between (Some b) None) (concat (cb @ tb) @ concat rb)"
    unfolding window_cut[OF st assms(3)] window_behind[OF behind] ..
  also have "\<dots> = window_part (between start (Some b)) (concat (cb @ tb)) @ window_part (between (Some b) None) (concat cb' @ concat rb)"
    unfolding window_part_append[of _ _ "concat rb"] c(2) ..
  finally have parts: "window_part (between start None) (concat cb @ concat bs) =
    window_part (between start (Some b)) (concat (cb @ tb)) @ window_part (between (Some b) None) (concat cb' @ concat rb)" .
  have s1: "strict (concat (cb @ tb))" using st by (simp only: strict_simps(3))
  have s2: "side_of C rs k (carried b (carry @ ts)) rs' cb' rb" unfolding side_of_def using c(1) l(3) c(3)[rule_format, OF st] by blast
  show ?thesis by (rule that[OF all s1 s2 parts])
qed

lemma then_drive_cong: "(\<And>d. r = Inr d \<Longrightarrow> f d = g d) \<Longrightarrow> then_drive r f = then_drive r g"
  by (simp add: then_drive_def split: sum.split)

lemma unit_drives:
  assumes "decoders_ok (bc_decoders C) stream" "list_all2 (reads_as C (do_suppress_common opts) k) olds ob" "list_all2 (reads_as C (do_suppress_common opts) k) news nb"
    and "strict (concat ob)" "strict (concat nb)" "text \<longleftrightarrow> tc_output c \<noteq> None"
  shows "drive C details opts text (\<lparr>un_kind = k, un_window = w, un_old = olds, un_new = news\<rparr> # us) c =
    then_drive (record_ref details opts k (merge_ref (window_part w (concat ob)) (window_part w (concat nb))) c) (drive C details opts text us)"
proof -
  obtain acts where "block_pair_merge_phase C (do_suppress_common opts) (BlockPairSide_new olds w) (BlockPairSide_new news w) = Some (Inr acts)"
    "fold (sink_step details opts k) acts = fold (sink_step details opts k) (merge_ref (window_part w (concat ob)) (window_part w (concat nb)))"
    using diff_text.unit_sees[OF assms(1-5), of w details k] by blast
  then show ?thesis using assms(6) drive_unit[of C opts "\<lparr>un_kind = k, un_window = w, un_old = olds, un_new = news\<rparr>" acts details] by simp
qed

lemma cut_drives:
  assumes "decoders_ok (bc_decoders C) stream" "list_all2 (reads_as C (do_suppress_common opts) k) olds ob" "list_all2 (reads_as C (do_suppress_common opts) k) news nb"
    and "strict (concat ob)" "strict (concat nb)" "text \<longleftrightarrow> tc_output c \<noteq> None"
    and rest: "\<forall>us d. (text \<longleftrightarrow> tc_output d \<noteq> None) \<longrightarrow> drive C details opts text (units @ us) d =
      then_drive (record_ref details opts k (merge_ref (window_part (between (Some b) None) xs) (window_part (between (Some b) None) ys)) d) (drive C details opts text us)"
  shows "drive C details opts text ((\<lparr>un_kind = k, un_window = between start (Some b), un_old = olds, un_new = news\<rparr> # units) @ us) c =
    then_drive (record_ref details opts k (merge_ref (window_part (between start (Some b)) (concat ob) @ window_part (between (Some b) None) xs)
      (window_part (between start (Some b)) (concat nb) @ window_part (between (Some b) None) ys)) c) (drive C details opts text us)"
proof -
  let ?x = "window_part (between start (Some b)) (concat ob)" and ?y = "window_part (between start (Some b)) (concat nb)"
  have split: "merge_ref (?x @ window_part (between (Some b) None) xs) (?y @ window_part (between (Some b) None) ys) =
    merge_ref ?x ?y @ merge_ref (window_part (between (Some b) None) xs) (window_part (between (Some b) None) ys)"
    by (intro merge_ref_split ballI; blast dest: window_keys intro: less_le_trans)
  show ?thesis
    unfolding split then_drive_append append_Cons unit_drives[OF assms(1-6)]
    using assms(6) rest by (intro then_drive_cong) (auto dest: record_ref_output)
qed

lemma plan_kind_drives:
  assumes dec: "decoders_ok (bc_decoders C) stream"
    and "at_kind k old fo lo" "side_of C (do_suppress_common opts) k co fo cbo bo" "at_kind k new fn ln" "side_of C (do_suppress_common opts) k cn fn cbn bn"
    and "case start of None \<Rightarrow> True | Some s \<Rightarrow> heads_from s fo \<and> heads_from s fn"
    and "plan_kind k target start co cn old new = (units, r)"
  shows "case r of Inl err \<Rightarrow> (\<exists>b n. err = Unsplittable k b n)
    | Inr (old', new') \<Rightarrow> at_kind k old' [] lo \<and> at_kind k new' [] ln \<and>
       (\<forall>us c. (text \<longleftrightarrow> tc_output c \<noteq> None) \<longrightarrow> drive C details opts text (units @ us) c =
         then_drive (record_ref details opts k (merge_ref (window_part (between start None) (concat cbo @ concat bo)) (window_part (between start None) (concat cbn @ concat bn))) c)
           (drive C details opts text us))"
  using assms(2-)
proof (induction "cursor_left old + cursor_left new" arbitrary: start co cn old new fo fn cbo bo cbn bn units r rule: less_induct)
  case less
  let ?f = "UnitFill_new co cn"
  have "started_from start ?f fo fn" using less.prems(5) by (auto simp: started_from_def UnitFill_new_def split: option.splits)
  note fill = fill_unit_closes[OF less.prems(1,3) this, of target]
  show ?case
  proof (cases "fill_unit k target old new ?f")
    case (Inl err)
    then show ?thesis using fill less.prems(6) by (auto simp: plan_kind.simps[of k target start])
  next
    case (Inr x)
    obtain e g old1 new1 where x: "x = (e, g, old1, new1)" by (cases x)
    obtain to ro tn rn where t: "fo = to @ ro" "fn = tn @ rn" "uf_old g = co @ to" "uf_new g = cn @ tn" "at_kind k old1 ro lo" "at_kind k new1 rn ln"
      and e: "case e of None \<Rightarrow> ro = [] \<and> rn = [] | Some b \<Rightarrow> heads_from b ro \<and> heads_from b rn \<and> past_start start b"
      using fill Inr x by (auto simp: closes_def UnitFill_new_def)
    show ?thesis
    proof (cases e)
      case None
      then have r: "units = [\<lparr>un_kind = k, un_window = between start None, un_old = co @ fo, un_new = cn @ fn\<rparr>]" "r = Inr (old1, new1)" "ro = []" "rn = []"
        using less.prems(6) Inr x t e by (simp_all add: plan_kind.simps[of k target start])
      have "list_all2 (reads_as C (do_suppress_common opts) k) (co @ fo) (cbo @ bo)" "list_all2 (reads_as C (do_suppress_common opts) k) (cn @ fn) (cbn @ bn)"
        "strict (concat (cbo @ bo))" "strict (concat (cbn @ bn))" using less.prems(2,4) by (auto simp: side_of_def intro: list_all2_appendI)
      from unit_drives[OF dec this] show ?thesis using r t(5,6) by simp
    next
      case (Some b)
      then have b: "heads_from b ro" "heads_from b rn" "past_start start b" using e by simp_all
      obtain tbo rbo cbo' where o: "list_all2 (reads_as C (do_suppress_common opts) k) (co @ to) (cbo @ tbo)" "strict (concat (cbo @ tbo))"
        "side_of C (do_suppress_common opts) k (carried b (co @ to)) ro cbo' rbo"
        "window_part (between start None) (concat cbo @ concat bo) = window_part (between start (Some b)) (concat (cbo @ tbo)) @ window_part (between (Some b) None) (concat cbo' @ concat rbo)"
        by (rule side_of_cut[OF less.prems(2)[unfolded t(1)] b(1,3)])
      obtain tbn rbn cbn' where n: "list_all2 (reads_as C (do_suppress_common opts) k) (cn @ tn) (cbn @ tbn)" "strict (concat (cbn @ tbn))"
        "side_of C (do_suppress_common opts) k (carried b (cn @ tn)) rn cbn' rbn"
        "window_part (between start None) (concat cbn @ concat bn) = window_part (between start (Some b)) (concat (cbn @ tbn)) @ window_part (between (Some b) None) (concat cbn' @ concat rbn)"
        by (rule side_of_cut[OF less.prems(4)[unfolded t(2)] b(2,3)])
      obtain units' where u: "plan_kind k target (Some b) (carried b (co @ to)) (carried b (cn @ tn)) old1 new1 = (units', r)"
        "units = \<lparr>un_kind = k, un_window = between start (Some b), un_old = co @ to, un_new = cn @ tn\<rparr> # units'"
        using less.prems(6) Inr x t Some by (auto simp: plan_kind.simps[of k target start] Let_def split: prod.splits)
      have lt: "cursor_left old1 + cursor_left new1 < cursor_left old + cursor_left new"
        using fill_unit_left[OF Inr[unfolded x]] Some by (simp add: UnitFill_new_def)
      have "case Some b of None \<Rightarrow> True | Some s \<Rightarrow> heads_from s ro \<and> heads_from s rn" using b by simp
      note IH = less.hyps[OF lt t(5) o(3) t(6) n(3) this u(1)]
      show ?thesis
      proof (cases r)
        case (Inr y)
        show ?thesis using IH cut_drives[OF dec o(1) n(1) o(2) n(2)] unfolding o(4) n(4) u(2) Inr by (auto split: prod.splits)
      qed (use IH in simp)
    qed
  qed
qed

section \<open>No refusal of duplicate-free input\<close>

text \<open>
  A claim that spans both signs has key 0 as its first key; every other claim starts at its first element. So of the
  frames of one input, each lies before the start of every later one that does not span the signs, and only one spans them.
\<close>

definition spans :: "BlobIndex \<Rightarrow> bool" where
  "spans ix \<longleftrightarrow> min_id ix <s 0 \<and> 0 <s max_id ix"

definition apart :: "Frame \<Rightarrow> Frame \<Rightarrow> bool" where
  "apart f g \<longleftrightarrow> (\<not> spans (fm_index g) \<longrightarrow> desc_last_key (fm_index f) < desc_first_key (fm_index g)) \<and> \<not> (spans (fm_index f) \<and> spans (fm_index g))"

definition key_ordered :: "Frame list \<Rightarrow> bool" where
  "key_ordered fs \<longleftrightarrow> sorted_wrt apart fs \<and> (\<forall>f \<in> set fs. desc_first_key (fm_index f) \<le> desc_last_key (fm_index f))"

lemma reads_apart:
  assumes "reads_as C rs k f xs" "reads_as C rs k g ys" "\<forall>x \<in> set xs. \<forall>y \<in> set ys. elem_key x < elem_key y"
  shows "apart f g"
proof -
  let ?f = "fm_index f" and ?g = "fm_index g"
  have x: "exact_range (min_id ?f) (max_id ?f) (me_id ` set xs)" and y: "exact_range (min_id ?g) (max_id ?g) (me_id ` set ys)"
    using assms(1,2) by (simp_all add: reads_as_def exact_claim_def)
  have lt: "osm_id_key i < osm_id_key j" if "i \<in> me_id ` set xs" "j \<in> me_id ` set ys" for i j using assms(3) that by auto
  obtain i where i: "i \<in> me_id ` set xs" "desc_last_key ?f = osm_id_key i" using last_key_present[OF x] by (auto simp: desc_last_key_def)
  have ends: "min_id ?g \<in> me_id ` set ys" "max_id ?g \<in> me_id ` set ys" "max_id ?f \<in> me_id ` set xs" using x y by (simp_all add: exact_range_def)
  have "desc_last_key ?f < desc_first_key ?g" if "\<not> spans ?g"
    using that lt[OF i(1) ends(1)] lt[OF i(1) ends(2)] i(2) by (auto simp: desc_first_key_def blob_osm_first_key_def spans_def signed_simps not_less not_le)
  moreover have "\<not> (spans ?f \<and> spans ?g)"
    using lt[OF ends(3,1)] by (auto simp: spans_def osm_id_key_less osm_before_def signed_simps)
  ultimately show ?thesis by (simp add: apart_def)
qed

lemma list_all2_member: "list_all2 P xs ys \<Longrightarrow> x \<in> set xs \<Longrightarrow> \<exists>y \<in> set ys. P x y"
  by (induction xs ys rule: list_all2_induct) auto

lemma reads_key_ordered:
  assumes "list_all2 (reads_as C rs k) fs bs" "strict (concat bs)"
  shows "key_ordered fs"
  using assms
proof (induction fs bs rule: list_all2_induct)
  case (Cons f fs b bs)
  have "apart f g" if g: "g \<in> set fs" for g
  proof -
    obtain c where "c \<in> set bs" "reads_as C rs k g c" using list_all2_member[OF Cons.hyps(2) g] by blast
    then show ?thesis using Cons.hyps(1) Cons.prems by (intro reads_apart[of C rs k f b]) auto
  qed
  moreover have "desc_first_key (fm_index f) \<le> desc_last_key (fm_index f)"
  proof -
    have "exact_claim (fm_index f) (map me_id b)" "hd b \<in> set b" using Cons.hyps(1) by (auto simp: reads_as_def exact_claim_def)
    from claim_bounds[OF this] show ?thesis by (rule order_trans)
  qed
  ultimately show ?case using Cons by (simp add: key_ordered_def)
qed (simp add: key_ordered_def)

text \<open>At most one later frame starts at or below a key no frame ends below: the one that spans the signs.\<close>

lemma low_starts:
  assumes "key_ordered fs" "\<forall>f \<in> set fs. spans (fm_index f)"
  shows "length fs \<le> 1"
proof (rule ccontr)
  assume "\<not> length fs \<le> 1"
  then obtain f g gs where "fs = f # g # gs" by (cases fs rule: remdups_adj.cases) auto
  then show False using assms by (auto simp: key_ordered_def apart_def)
qed

lemma key_ordered_filter: "key_ordered fs \<Longrightarrow> key_ordered (filter P fs)"
  by (simp add: key_ordered_def sorted_wrt_filter)

definition low :: "OsmIdKey \<Rightarrow> Frame list \<Rightarrow> nat" where
  "low m fs = length (filter (\<lambda>f. desc_first_key (fm_index f) \<le> m) fs)"

lemma low_after:
  assumes "key_ordered (g # fs)" "m \<le> desc_last_key (fm_index g)"
  shows "low m fs \<le> 1"
proof -
  have "spans (fm_index f)" if "f \<in> set fs" "desc_first_key (fm_index f) \<le> m" for f
    using assms that by (fastforce simp: key_ordered_def apart_def)
  then show ?thesis using assms(1) key_ordered_filter[of fs] unfolding low_def by (intro low_starts) (auto simp: key_ordered_def)
qed

lemma low_heads: "key_ordered fs \<Longrightarrow> heads_from m fs \<Longrightarrow> low m fs \<le> 2"
proof (cases fs)
  case (Cons g gs)
  assume "key_ordered fs" "heads_from m fs"
  then have "m \<le> desc_last_key (fm_index g)" using Cons by (auto simp: key_ordered_def heads_from_def intro: order_trans)
  then have "low m gs \<le> 1" using low_after[of g gs m] \<open>key_ordered fs\<close> Cons by simp
  then show ?thesis using Cons by (simp add: low_def)
qed (simp add: low_def)

lemma carry_few:
  assumes "key_ordered fs" "\<forall>f \<in> set fs. desc_first_key (fm_index f) < b \<and> b \<le> desc_last_key (fm_index f)"
  shows "length fs \<le> 2"
proof (cases fs)
  case (Cons g gs)
  have "filter (\<lambda>f. desc_first_key (fm_index f) \<le> b) gs = gs" using assms(2) Cons by (auto simp: filter_id_conv less_imp_le)
  then show ?thesis using low_after[of g gs b] assms Cons by (simp add: low_def)
qed simp

text \<open>Bodies within the frame limit: a unit closes within nine of them.\<close>

definition sized :: "Frame list \<Rightarrow> bool" where
  "sized fs \<longleftrightarrow> (\<forall>f \<in> set fs. length (fm_body f) \<le> 2 ^ 25)"

definition fits :: "UnitFill \<Rightarrow> Frame list \<Rightarrow> Frame list \<Rightarrow> bool" where
  "fits f fo fn \<longleftrightarrow>
     (case uf_max_first f of
        None \<Rightarrow> uf_bytes f \<le> 4 * 2 ^ 25
      | Some m \<Rightarrow> uf_bytes f + 2 ^ 25 * (low m fo + low m fn) \<le> 9 * 2 ^ 25)"

lemma fits_bytes: "fits f fo fn \<Longrightarrow> uf_bytes f < DIFF_UNIT_CAP_BYTES"
  by (auto simp: fits_def DIFF_UNIT_CAP_BYTES_def split: option.splits)

lemma fits_swap: "fits f fo fn \<longleftrightarrow> fits f fn fo"
  by (simp add: fits_def add.commute split: option.split)

lemma low_Cons: "low m (g # gs) = (if desc_first_key (fm_index g) \<le> m then 1 else 0) + low m gs"
  by (simp add: low_def)

lemma fits_take:
  assumes "fits f (g # gs) fn" "key_ordered (g # gs)" "key_ordered fn" "heads_from (desc_first_key (fm_index g)) fn" "length (fm_body g) \<le> 2 ^ 25"
    and "\<not> may_close target f (desc_first_key (fm_index g))" "target \<le> 2 ^ 25" "uf_bytes f' = uf_bytes f + length (fm_body g)"
    and "uf_max_first f' = max_opt (uf_max_first f) (desc_first_key (fm_index g))"
  shows "fits f' gs fn"
proof -
  let ?b = "desc_first_key (fm_index g)"
  have new: "low ?b gs \<le> 1" "low ?b fn \<le> 2"
    using low_after[OF assms(2), of ?b] low_heads[OF assms(3,4)] assms(2) by (simp_all add: key_ordered_def)
  show ?thesis
  proof (cases "uf_max_first f")
    case None
    then show ?thesis using assms(1,5,8,9) new by (simp add: fits_def max_opt_def)
  next
    case (Some m)
    show ?thesis
    proof (cases "?b \<le> m")
      case True
      then have "max_opt (Some m) ?b = Some m" by (simp add: max_opt_def max_absorb1)
      then show ?thesis using True assms(1,5,8,9) Some by (simp add: fits_def low_Cons)
    next
      case False
      then have "m < ?b" "max_opt (Some m) ?b = Some ?b" by (simp_all add: max_opt_def max_absorb2)
      moreover have "uf_bytes f < 2 ^ 25" using assms(6,7) Some \<open>m < ?b\<close> by (simp add: may_close_def unit_due_def)
      ultimately show ?thesis using assms(5,8,9) Some new by (simp add: fits_def)
    qed
  qed
qed

definition starts_low :: "OsmIdKey option \<Rightarrow> UnitFill \<Rightarrow> bool" where
  "starts_low start f \<longleftrightarrow> (\<forall>h \<in> set (uf_old f @ uf_new f). (\<exists>s. start = Some s \<and> desc_first_key (fm_index h) < s) \<or>
     (\<exists>m. uf_max_first f = Some m \<and> desc_first_key (fm_index h) \<le> m))"

lemma max_opt_le: "\<exists>m'. max_opt m x = Some m' \<and> x \<le> m' \<and> (\<forall>y. m = Some y \<longrightarrow> y \<le> m')"
  by (auto simp: max_opt_def split: option.split)

lemma starts_low_take:
  assumes "starts_low start f"
  shows "starts_low start (take_frame is_new p g f)"
proof -
  obtain m' where m: "max_opt (uf_max_first f) (desc_first_key (fm_index g)) = Some m'" "desc_first_key (fm_index g) \<le> m'" "\<forall>y. uf_max_first f = Some y \<longrightarrow> y \<le> m'"
    using max_opt_le by blast
  have "(\<exists>s. start = Some s \<and> desc_first_key (fm_index h) < s) \<or> desc_first_key (fm_index h) \<le> m'" if "h = g \<or> h \<in> set (uf_old f @ uf_new f)" for h
    using that
  proof
    assume "h \<in> set (uf_old f @ uf_new f)"
    then consider "\<exists>s. start = Some s \<and> desc_first_key (fm_index h) < s" | y where "uf_max_first f = Some y" "desc_first_key (fm_index h) \<le> y"
      using assms unfolding starts_low_def by blast
    then show ?thesis using m(3) by cases (blast intro: order_trans)+
  qed (use m(2) in simp)
  then show ?thesis unfolding starts_low_def take_frame_first m(1) by (cases is_new) (auto simp: take_frame_sides)
qed

lemma starts_low_closed:
  assumes "starts_low start f" "may_close target f b" "started_from start f fo fn" "h \<in> set (uf_old f @ uf_new f)"
  shows "desc_first_key (fm_index h) < b"
proof -
  consider s where "start = Some s" "desc_first_key (fm_index h) < s" | m where "uf_max_first f = Some m" "desc_first_key (fm_index h) \<le> m"
    using assms(1,4) unfolding starts_low_def by blast
  then show ?thesis
  proof cases
    case (1 s)
    then have "s < b" using closed_past[OF assms(2,3)] by (simp add: past_start_def)
    with 1(2) show ?thesis by (rule less_trans)
  next
    case (2 m)
    then have "m < b" using assms(2) by (simp add: may_close_def)
    with 2(2) show ?thesis by (rule le_less_trans)
  qed
qed

lemma fill_unit_fits:
  assumes "at_kind k old fo lo" "at_kind k new fn ln" "key_ordered fo" "key_ordered fn" "sized fo" "sized fn" "target \<le> 2 ^ 25"
    and "fits f fo fn" "started_from start f fo fn" "starts_low start f"
  shows "\<exists>e g old' new'. fill_unit k target old new f = Inr (e, g, old', new') \<and>
    (\<forall>b. e = Some b \<longrightarrow> (\<forall>h \<in> set (uf_old g @ uf_new g). desc_first_key (fm_index h) < b))"
  using assms
proof (induction "length fo + length fn" arbitrary: old new fo fn f rule: less_induct)
  case less
  show ?case
  proof (cases rule: fill_step_at[OF less.prems(1,2), of target f, case_names over closed refused old new])
    case (over old' new')
    then show ?thesis by (simp add: fill_unit.simps[of k target old])
  next
    case (closed b old' new')
    then show ?thesis using starts_low_closed[OF less.prems(10) closed(2) less.prems(9)] by (auto simp: fill_unit.simps[of k target old])
  next
    case (refused b)
    then show ?thesis using fits_bytes[OF less.prems(8)] by simp
  next
    case (old g gs old' new')
    have "key_ordered gs" "sized gs" "length (fm_body g) \<le> 2 ^ 25" using less.prems(3,5) old(1) by (simp_all add: key_ordered_def sized_def)
    moreover have "fits (take_frame False (peeked fn) g f) gs fn"
      by (rule fits_take[where f = f and g = g and target = target]) (use less.prems old calculation(3) in \<open>simp_all add: take_frame_sides take_frame_first\<close>)
    moreover have "started_from start (take_frame False (peeked fn) g f) gs fn" using less.prems(9) old(1) by (auto intro: started_take)
    ultimately show ?thesis using less.hyps[OF _ old(6,7)] less.prems(4,6,7) old(1,2) starts_low_take[OF less.prems(10)]
      by (simp add: fill_unit.simps[of k target old])
  next
    case (new g gs old' new')
    have "key_ordered gs" "sized gs" "length (fm_body g) \<le> 2 ^ 25" using less.prems(4,6) new(1) by (simp_all add: key_ordered_def sized_def)
    moreover have "fits (take_frame True (peeked fo) g f) gs fo"
      by (rule fits_take[where f = f and g = g and target = target]) (use less.prems new calculation(3) fits_swap[of f fo] in \<open>simp_all add: take_frame_sides take_frame_first\<close>)
    then have "fits (take_frame True (peeked fo) g f) fo gs" by (simp only: fits_swap)
    moreover have "started_from start (take_frame True (peeked fo) g f) fo gs" using less.prems(9) new(1) by (auto intro: started_take)
    ultimately show ?thesis using less.hyps[OF _ new(6,7)] less.prems(3,5,7) new(1,2) starts_low_take[OF less.prems(10)]
      by (simp add: fill_unit.simps[of k target old])
  qed
qed

definition fits_side :: "OsmIdKey option \<Rightarrow> Frame list \<Rightarrow> Frame list \<Rightarrow> bool" where
  "fits_side start carry fs \<longleftrightarrow> key_ordered (carry @ fs) \<and> sized (carry @ fs) \<and> length carry \<le> 2 \<and>
     (case start of None \<Rightarrow> carry = [] | Some s \<Rightarrow> heads_from s fs \<and> (\<forall>h \<in> set carry. desc_first_key (fm_index h) < s))"

lemma key_ordered_append: "key_ordered (xs @ ys) \<longleftrightarrow> key_ordered xs \<and> key_ordered ys \<and> (\<forall>x \<in> set xs. \<forall>y \<in> set ys. apart x y)"
  by (auto simp: key_ordered_def sorted_wrt_append)

lemma fits_side_cut:
  assumes "fits_side start carry (ts @ rs)" "heads_from b rs" "\<forall>h \<in> set (carry @ ts). desc_first_key (fm_index h) < b"
  shows "fits_side (Some b) (carried b (carry @ ts)) rs"
proof -
  have o: "key_ordered (carried b (carry @ ts) @ rs)" "sized (carried b (carry @ ts) @ rs)"
    using assms(1) by (auto simp: fits_side_def carried_def key_ordered_append key_ordered_filter sized_def)
  moreover have "length (carried b (carry @ ts)) \<le> 2"
    using o(1) assms(3) by (intro carry_few[of _ b]) (auto simp: key_ordered_append carried_def)
  ultimately show ?thesis using assms(2,3) by (auto simp: fits_side_def carried_def)
qed

lemma frame_bytes_sized: "sized fs \<Longrightarrow> frame_bytes fs \<le> 2 ^ 25 * length fs"
  by (induction fs) (auto simp: sized_def frame_bytes_def)

lemma plan_kind_fits:
  assumes "at_kind k old fo lo" "at_kind k new fn ln" "fits_side start co fo" "fits_side start cn fn" "target \<le> 2 ^ 25"
  shows "\<exists>units p. plan_kind k target start co cn old new = (units, Inr p)"
  using assms
proof (induction "cursor_left old + cursor_left new" arbitrary: start co cn old new fo fn rule: less_induct)
  case less
  let ?f = "UnitFill_new co cn"
  have s: "started_from start ?f fo fn" using less.prems(3,4) by (auto simp: started_from_def UnitFill_new_def fits_side_def split: option.splits)
  have l: "starts_low start ?f" using less.prems(3,4) by (auto simp: starts_low_def UnitFill_new_def fits_side_def split: option.splits)
  have b: "key_ordered fo" "key_ordered fn" "sized fo" "sized fn" "sized co" "sized cn" "length co \<le> 2" "length cn \<le> 2"
    using less.prems(3,4) by (auto simp: fits_side_def key_ordered_append sized_def)
  have "fits ?f fo fn" using frame_bytes_sized[OF b(5)] frame_bytes_sized[OF b(6)] b(7,8) by (simp add: fits_def UnitFill_new_def)
  from fill_unit_fits[OF less.prems(1,2) b(1-4) less.prems(5) this s l] obtain e g old1 new1 where
    f: "fill_unit k target old new ?f = Inr (e, g, old1, new1)" "\<And>b h. e = Some b \<Longrightarrow> h \<in> set (uf_old g @ uf_new g) \<Longrightarrow> desc_first_key (fm_index h) < b" by blast
  show ?case
  proof (cases e)
    case None
    then show ?thesis using f(1) by (simp add: plan_kind.simps[of k target start])
  next
    case (Some b)
    obtain to ro tn rn where t: "fo = to @ ro" "fn = tn @ rn" "uf_old g = co @ to" "uf_new g = cn @ tn" "at_kind k old1 ro lo" "at_kind k new1 rn ln" "heads_from b ro" "heads_from b rn"
      using fill_unit_closes[OF less.prems(1,2) s, of target] f(1) Some by (auto simp: closes_def UnitFill_new_def)
    have lt: "cursor_left old1 + cursor_left new1 < cursor_left old + cursor_left new" using fill_unit_left[OF f(1)] Some by (simp add: UnitFill_new_def)
    have "fits_side (Some b) (carried b (uf_old g)) ro" "fits_side (Some b) (carried b (uf_new g)) rn"
      unfolding t(3,4) using less.prems(3,4) t f(2)[OF Some] by (auto intro!: fits_side_cut)
    from less.hyps[OF lt t(5,6) this less.prems(5)] show ?thesis using f(1) Some by (auto simp: plan_kind.simps[of k target start] Let_def)
  qed
qed

section \<open>All kinds\<close>

definition kind_elements :: "ElementKind \<Rightarrow> 'a MergeElement list list \<Rightarrow> 'a MergeElement list" where
  "kind_elements k blocks = filter (\<lambda>e. me_kind e = k) (concat blocks)"

text \<open>A file: every frame read and exactly indexed, kinds in order, the IDs of each kind strictly ascending, bodies within the frame limit.\<close>

definition file_ok :: "('z, 'a) BlockCodec \<Rightarrow> bool \<Rightarrow> Frame list \<Rightarrow> 'a MergeElement list list \<Rightarrow> bool" where
  "file_ok C rs fs blocks \<longleftrightarrow> list_all2 (\<lambda>f b. reads_as C rs (kind (fm_index f)) f b) fs blocks \<and>
     sorted (map (\<lambda>f. ordinal (kind (fm_index f))) fs) \<and> (\<forall>k. strict (kind_elements k blocks)) \<and> sized fs"

lemma kind_units_blocks:
  assumes "list_all2 (\<lambda>f b. reads_as C rs (kind (fm_index f)) f b) fs blocks"
  shows "\<exists>bs. list_all2 (reads_as C rs k) (filter (\<lambda>f. kind (fm_index f) = k) fs) bs \<and> concat bs = kind_elements k blocks"
  using assms
proof (induction fs blocks rule: list_all2_induct)
  case Nil
  then show ?case by (auto simp: kind_elements_def)
next
  case (Cons f fs b blocks)
  obtain bs where bs: "list_all2 (reads_as C rs k) (filter (\<lambda>f. kind (fm_index f) = k) fs) bs" "concat bs = kind_elements k blocks" using Cons.IH by blast
  have "filter (\<lambda>e. me_kind e = k) b = (if kind (fm_index f) = k then b else [])"
    using Cons.hyps(1) by (auto simp: reads_as_def filter_id_conv filter_empty_conv)
  then show ?case using bs Cons.hyps(1)
    by (cases "kind (fm_index f) = k") (auto simp: kind_elements_def intro: exI[of _ "b # bs"] exI[of _ bs])
qed

lemma file_ok_later:
  assumes "file_ok C rs fs blocks"
  shows "\<exists>bs. file_ok C rs (filter (\<lambda>f. ordinal k < ordinal (kind (fm_index f))) fs) bs \<and> (\<forall>k'. ordinal k < ordinal k' \<longrightarrow> kind_elements k' bs = kind_elements k' blocks)"
proof -
  have "list_all2 (\<lambda>f b. reads_as C rs (kind (fm_index f)) f b) fs blocks" using assms by (simp add: file_ok_def)
  then have "\<exists>bs. list_all2 (\<lambda>f b. reads_as C rs (kind (fm_index f)) f b) (filter (\<lambda>f. ordinal k < ordinal (kind (fm_index f))) fs) bs \<and>
    (\<forall>k'. kind_elements k' bs = (if ordinal k < ordinal k' then kind_elements k' blocks else []))"
  proof (induction fs blocks rule: list_all2_induct)
    case Nil
    then show ?case by (auto simp: kind_elements_def)
  next
    case (Cons f fs b blocks)
    obtain bs where bs: "list_all2 (\<lambda>f b. reads_as C rs (kind (fm_index f)) f b) (filter (\<lambda>f. ordinal k < ordinal (kind (fm_index f))) fs) bs"
      "\<forall>k'. kind_elements k' bs = (if ordinal k < ordinal k' then kind_elements k' blocks else [])" using Cons.IH by blast
    have b: "filter (\<lambda>e. me_kind e = k') b = (if kind (fm_index f) = k' then b else [])" for k'
      using Cons.hyps(1) by (auto simp: reads_as_def filter_id_conv filter_empty_conv)
    show ?case
      using bs Cons.hyps(1) b by (cases "ordinal k < ordinal (kind (fm_index f))")
        (auto simp: kind_elements_def intro!: exI[of _ "if ordinal k < ordinal (kind (fm_index f)) then b # bs else bs"])
  qed
  then obtain bs where bs: "list_all2 (\<lambda>f b. reads_as C rs (kind (fm_index f)) f b) (filter (\<lambda>f. ordinal k < ordinal (kind (fm_index f))) fs) bs"
    "\<forall>k'. kind_elements k' bs = (if ordinal k < ordinal k' then kind_elements k' blocks else [])" by blast
  then have "file_ok C rs (filter (\<lambda>f. ordinal k < ordinal (kind (fm_index f))) fs) bs"
    using assms by (auto simp: file_ok_def sorted_map sorted_wrt_filter sized_def)
  then show ?thesis using bs(2) by auto
qed

text \<open>The reference run: for each kind in turn, the reference merge recorded.\<close>

fun record_kinds :: "'a details \<Rightarrow> DiffOptions \<Rightarrow> ElementKind list \<Rightarrow> (ElementKind \<Rightarrow> 'a MergeElement list) \<Rightarrow> (ElementKind \<Rightarrow> 'a MergeElement list) \<Rightarrow>
    TextConsumer \<Rightarrow> merge_error + TextConsumer" where
  "record_kinds details opts [] xs ys c = Inr c"
| "record_kinds details opts (k # ks) xs ys c =
     (case record_ref details opts k (merge_ref (xs k) (ys k)) c of Inl err \<Rightarrow> Inl err | Inr c \<Rightarrow> record_kinds details opts ks xs ys c)"

lemma record_kinds_cong:
  "\<forall>k \<in> set ks. xs k = xs' k \<and> ys k = ys' k \<Longrightarrow> record_kinds details opts ks xs ys c = record_kinds details opts ks xs' ys' c"
  by (induction ks arbitrary: c) (auto split: sum.split)

lemma window_all [simp]: "window_part (between None None) xs = xs"
  by (simp add: window_part_def below_def past_def)

lemma reaches_kind:
  assumes "gives c fs" "file_ok C rs fs blocks"
  shows "\<exists>d. reaches k c = Inr (filter (\<lambda>f. kind (fm_index f) = k) fs \<noteq> [], d) \<and>
    at_kind k d (filter (\<lambda>f. kind (fm_index f) = k) fs) (filter (\<lambda>f. ordinal k < ordinal (kind (fm_index f))) fs)"
proof -
  let ?k = "filter (\<lambda>f. kind (fm_index f) = k) fs" and ?l = "filter (\<lambda>f. ordinal k < ordinal (kind (fm_index f))) fs"
  have split: "dropWhile (\<lambda>f. ordinal (kind (fm_index f)) < ordinal k) fs = ?k @ ?l" using assms(2) by (intro sorted_kinds_split) (simp add: file_ok_def)
  obtain d where d: "reaches k c = Inr (?k @ ?l \<noteq> [] \<and> kind (fm_index (hd (?k @ ?l))) = k, d)" "shows_next d (?k @ ?l)"
    using reaches_gives[OF assms(1), of k] unfolding Let_def split by blast
  have at: "at_kind k d ?k ?l" using d(2) by (auto simp: at_kind_def shows_next_def)
  have "(?k @ ?l \<noteq> [] \<and> kind (fm_index (hd (?k @ ?l))) = k) = (?k \<noteq> [])"
  proof (cases ?k)
    case Nil
    show ?thesis
    proof (cases ?l)
      case (Cons h hs)
      then have "h \<in> set ?l" by simp
      then have "kind (fm_index h) \<noteq> k" by auto
      then show ?thesis using Nil Cons by simp
    qed (use Nil in simp)
  next
    case (Cons h hs)
    then have "h \<in> set ?k" by simp
    then have "kind (fm_index h) = k" by auto
    then show ?thesis using Cons by simp
  qed
  then show ?thesis using d(1) at by auto
qed


lemma record_ref_Nil [simp]: "record_ref details opts k [] c = Inr c"
  by (simp add: record_ref_def)

text \<open>One kind: its units, driven, record the reference merge of the kind and leave both cursors behind it.\<close>

lemma kind_drives:
  assumes dec: "decoders_ok (bc_decoders C) stream" and target: "target \<le> 2 ^ 25"
    and old: "at_kind k old fo lo" "list_all2 (reads_as C (do_suppress_common opts) k) fo bo" "strict (concat bo)" "sized fo"
    and new: "at_kind k new fn ln" "list_all2 (reads_as C (do_suppress_common opts) k) fn bn" "strict (concat bn)" "sized fn"
  obtains units old' new' where "plan_kind k target None [] [] old new = (units, Inr (old', new'))" "gives old' lo" "gives new' ln"
    "\<And>us c. (text \<longleftrightarrow> tc_output c \<noteq> None) \<Longrightarrow> drive C details opts text (units @ us) c =
       then_drive (record_ref details opts k (merge_ref (concat bo) (concat bn)) c) (drive C details opts text us)"
proof -
  have fits: "fits_side None [] fo" "fits_side None [] fn"
    using old new reads_key_ordered by (auto simp: fits_side_def)
  have sides: "side_of C (do_suppress_common opts) k [] fo [] bo" "side_of C (do_suppress_common opts) k [] fn [] bn"
    using old new by (simp_all add: side_of_def)
  obtain units old' new' where p: "plan_kind k target None [] [] old new = (units, Inr (old', new'))"
    using plan_kind_fits[OF old(1) new(1) fits target] by auto
  from plan_kind_drives[OF dec old(1) sides(1) new(1) sides(2) _ p, of "text" details]
  have "at_kind k old' [] lo \<and> at_kind k new' [] ln \<and> (\<forall>us c. (text \<longleftrightarrow> tc_output c \<noteq> None) \<longrightarrow> drive C details opts text (units @ us) c =
       then_drive (record_ref details opts k (merge_ref (concat bo) (concat bn)) c) (drive C details opts text us))" by simp
  then show ?thesis using that[OF p] by (auto simp: at_kind_def)
qed

text \<open>A file split at a kind.\<close>

lemma file_at:
  assumes "gives c fs" "file_ok C rs fs blocks"
  obtains fk fl bk bl d where "reaches k c = Inr (fk \<noteq> [], d)" "at_kind k d fk fl" "list_all2 (reads_as C rs k) fk bk" "concat bk = kind_elements k blocks"
    "strict (concat bk)" "sized fk" "file_ok C rs fl bl" "\<And>k'. ordinal k < ordinal k' \<Longrightarrow> kind_elements k' bl = kind_elements k' blocks"
proof -
  let ?fk = "filter (\<lambda>f. kind (fm_index f) = k) fs"
  obtain d where d: "reaches k c = Inr (?fk \<noteq> [], d)" "at_kind k d ?fk (filter (\<lambda>f. ordinal k < ordinal (kind (fm_index f))) fs)"
    using reaches_kind[OF assms] by blast
  obtain bk where bk: "list_all2 (reads_as C rs k) ?fk bk" "concat bk = kind_elements k blocks"
    using kind_units_blocks[of C rs fs blocks k] assms(2) by (auto simp: file_ok_def)
  have "strict (concat bk)" "sized ?fk" using assms(2) bk(2) by (auto simp: file_ok_def sized_def)
  then show ?thesis using that[OF d bk] file_ok_later[OF assms(2), of k] by blast
qed

lemma plan_drives:
  assumes dec: "decoders_ok (bc_decoders C) stream" and target: "target \<le> 2 ^ 25"
    and "gives old fo" "file_ok C (do_suppress_common opts) fo ob" "gives new fn" "file_ok C (do_suppress_common opts) fn nb"
    and "sorted_wrt (\<lambda>k k'. ordinal k < ordinal k') ks"
  shows "\<exists>units. plan ks target old new = (units, None) \<and>
    (\<forall>c. (text \<longleftrightarrow> tc_output c \<noteq> None) \<longrightarrow> drive C details opts text units c = Some (record_kinds details opts ks (\<lambda>k. kind_elements k ob) (\<lambda>k. kind_elements k nb) c))"
  using assms(3-)
proof (induction ks arbitrary: old new fo ob fn nb)
  case Nil
  then show ?case using finish_gives[of old fo] finish_gives[of new fn] by auto
next
  case (Cons k ks)
  obtain fo' lo bo lob old1 where o: "reaches k old = Inr (fo' \<noteq> [], old1)" "at_kind k old1 fo' lo" "list_all2 (reads_as C (do_suppress_common opts) k) fo' bo"
    "concat bo = kind_elements k ob" "strict (concat bo)" "sized fo'" "file_ok C (do_suppress_common opts) lo lob" "\<And>k'. ordinal k < ordinal k' \<Longrightarrow> kind_elements k' lob = kind_elements k' ob"
    using file_at[OF Cons.prems(1,2)] by metis
  obtain fn' ln bn lnb new1 where n: "reaches k new = Inr (fn' \<noteq> [], new1)" "at_kind k new1 fn' ln" "list_all2 (reads_as C (do_suppress_common opts) k) fn' bn"
    "concat bn = kind_elements k nb" "strict (concat bn)" "sized fn'" "file_ok C (do_suppress_common opts) ln lnb" "\<And>k'. ordinal k < ordinal k' \<Longrightarrow> kind_elements k' lnb = kind_elements k' nb"
    using file_at[OF Cons.prems(3,4)] by metis
  have asc: "\<forall>k' \<in> set ks. ordinal k < ordinal k'" "sorted_wrt (\<lambda>k k'. ordinal k < ordinal k') ks" using Cons.prems(5) by simp_all
  have rest: "record_kinds details opts ks (\<lambda>k. kind_elements k lob) (\<lambda>k. kind_elements k lnb) c = record_kinds details opts ks (\<lambda>k. kind_elements k ob) (\<lambda>k. kind_elements k nb) c" for c
    using asc(1) o(8) n(8) by (intro record_kinds_cong) simp
  show ?case
  proof (cases "fo' = [] \<and> fn' = []")
    case True
    then have "kind_elements k ob = []" "kind_elements k nb = []" using o(3,4) n(3,4) by auto
    moreover have "gives old1 lo" "gives new1 ln" using o(2) n(2) True by (simp_all add: at_kind_def)
    note Cons.IH[OF this(1) o(7) this(2) n(7) asc(2)]
    ultimately show ?thesis using True o(1) n(1) rest by simp
  next
    case False
    obtain units old2 new2 where u: "plan_kind k target None [] [] old1 new1 = (units, Inr (old2, new2))" "gives old2 lo" "gives new2 ln"
      "\<And>us c. (text \<longleftrightarrow> tc_output c \<noteq> None) \<Longrightarrow> drive C details opts text (units @ us) c =
         then_drive (record_ref details opts k (merge_ref (concat bo) (concat bn)) c) (drive C details opts text us)"
      using kind_drives[OF dec target o(2,3,5,6) n(2,3,5,6)] by metis
    obtain units' where u': "plan ks target old2 new2 = (units', None)"
      "\<And>c. (text \<longleftrightarrow> tc_output c \<noteq> None) \<Longrightarrow> drive C details opts text units' c = Some (record_kinds details opts ks (\<lambda>k. kind_elements k ob) (\<lambda>k. kind_elements k nb) c)"
      using Cons.IH[OF u(2) o(7) u(3) n(7) asc(2)] unfolding rest by blast
    have "plan (k # ks) target old new = (units @ units', None)" using False o(1) n(1) u(1) u'(1) by auto
    moreover have "drive C details opts text (units @ units') c = Some (record_kinds details opts (k # ks) (\<lambda>k. kind_elements k ob) (\<lambda>k. kind_elements k nb) c)"
      if "text \<longleftrightarrow> tc_output c \<noteq> None" for c
      using u(4)[OF that] o(4) n(4) that u'(2) record_ref_output[of details opts k _ c] by (auto simp: then_drive_def split: sum.split)
    ultimately show ?thesis by blast
  qed
qed

end
