(* ===== verification/Diff_Compare.thy ===== *)
theory Diff_Compare
  imports Diff_Units Tag_Expr
begin

text \<open>
  The comparison itself (\<open>compare\<close>, \<open>diff\<close> and \<open>diff_stats\<close> of \<open>commands/diff/mod.rs\<close>): the input checks, the choice
  between the two paths and what a run gives. An input is what its front declares, the frames its indexed reader
  gives and the blocks its sequential reader gives. Pinning, cancellation, diagnostics and counters are not modelled;
  of several failures of one run, which is met first is not either, since actions are recorded after their merge.
  Shown: on two well-ordered files both paths write the same text and count the same, whichever inputs are
  indexed, and the counts are those of the sets of elements.
\<close>

section \<open>The comparison\<close>

record 'a DiffInput =
  di_sorted :: bool
  di_indexed :: bool
  di_frames :: "(merge_error + ReaderFrame) list"
  di_blocks :: "(merge_error + 'a MergeBlock) list"

datatype diff_error = UnsortedOld | UnsortedNew | MergeFailed merge_error

text \<open>The phases of the element-level path, each handed to the sink as it is merged.\<close>

fun record_phases :: "'a details \<Rightarrow> DiffOptions \<Rightarrow> (ElementKind \<times> 'a BlockMergeAction list) list \<Rightarrow> DiffSink \<Rightarrow> merge_error + DiffSink" where
  "record_phases details opts [] s = Inr s"
| "record_phases details opts ((k, acts) # ps) s =
     (case fold (sink_step details opts k) acts (Inr s) of Inl err \<Rightarrow> Inl err | Inr s \<Rightarrow> record_phases details opts ps s)"

definition diff_streamed :: "'a details \<Rightarrow> DiffOptions \<Rightarrow> (ElementKind \<Rightarrow> bool) \<Rightarrow> string option \<Rightarrow>
    (merge_error + 'a MergeBlock) list \<Rightarrow> (merge_error + 'a MergeBlock) list \<Rightarrow> merge_error + DiffSink" where
  "diff_streamed details opts enabled output old new =
     (case diff_element_stream enabled old new of Inl err \<Rightarrow> Inl err | Inr ps \<Rightarrow> record_phases details opts ps (DiffSink_new output))"

definition compare :: "('z, 'a) BlockCodec \<Rightarrow> 'a details \<Rightarrow> DiffOptions \<Rightarrow> TypeFilter option \<Rightarrow> string option \<Rightarrow>
    'a DiffInput \<Rightarrow> 'a DiffInput \<Rightarrow> (diff_error + TextConsumer) option" where
  "compare C details opts types output old new =
     (let enabled = admits (or_all types) in
      if \<not> di_sorted old then Some (Inl UnsortedOld)
      else if \<not> di_sorted new then Some (Inl UnsortedNew)
      else if di_indexed old \<and> di_indexed new
      then map_option (map_sum MergeFailed id) (diff_block_pair C details opts enabled output DIFF_UNIT_TARGET_BYTES (di_frames old) (di_frames new))
      else Some (map_sum MergeFailed from_sink (diff_streamed details opts enabled output (di_blocks old) (di_blocks new))))"

definition diff :: "('z, 'a) BlockCodec \<Rightarrow> 'a details \<Rightarrow> DiffOptions \<Rightarrow> TypeFilter option \<Rightarrow> string \<Rightarrow>
    'a DiffInput \<Rightarrow> 'a DiffInput \<Rightarrow> (diff_error + TextConsumer) option" where
  "diff C details opts types output old new = compare C details opts types (Some output) old new"

definition diff_stats :: "('z, 'a) BlockCodec \<Rightarrow> 'a details \<Rightarrow> TypeFilter option \<Rightarrow> 'a DiffInput \<Rightarrow> 'a DiffInput \<Rightarrow> (diff_error + DiffStats) option" where
  "diff_stats C details types old new =
     map_option (map_sum id tc_stats) (compare C details \<lparr>do_suppress_common = True, do_verbose = False\<rparr> types None old new)"

definition write_summary :: "DiffStats \<Rightarrow> string" where
  "write_summary s =
     (let total_differences = df_created s + df_modified s + df_deleted s in
      if total_differences = 0 then line (''Files are identical ('' @ fmt_pad 0 (uint (df_common s)) @ '' common elements)'')
      else line (fmt_pad 0 (uint total_differences) @ '' differences: '' @ fmt_pad 0 (uint (df_created s)) @ '' created, '' @
        fmt_pad 0 (uint (df_modified s)) @ '' modified, '' @ fmt_pad 0 (uint (df_deleted s)) @ '' deleted ('' @ fmt_pad 0 (uint (df_common s)) @ '' common)''))"

definition write_osmium_summary :: "DiffStats \<Rightarrow> string" where
  "write_osmium_summary s =
     line (''Summary: left='' @ fmt_pad 0 (uint (df_common s + df_modified s + df_deleted s)) @ '' right='' @ fmt_pad 0 (uint (df_common s + df_modified s + df_created s)) @
       '' same='' @ fmt_pad 0 (uint (df_common s)) @ '' different='' @ fmt_pad 0 (uint (df_created s + df_modified s + df_deleted s)))"

section \<open>A file on both paths\<close>

text \<open>What the blob order guard sees of a file: kinds in order and, within a kind, IDs.\<close>

lemma kinds_then_keys:
  assumes "sorted (map (\<lambda>e. ordinal (me_kind e)) es)" "\<forall>k. strict (filter (\<lambda>e. me_kind e = k) es)"
  shows "sorted (map (\<lambda>e. (ordinal (me_kind e), elem_key e)) es)"
  using assms
proof (induction es)
  case (Cons e es)
  have "strict (filter (\<lambda>e. me_kind e = k) es)" for k using Cons.prems(2)[rule_format, of k] by (auto simp: strict_def split: if_splits)
  then have "sorted (map (\<lambda>e. (ordinal (me_kind e), elem_key e)) es)" using Cons by simp
  moreover have "(ordinal (me_kind e), elem_key e) \<le> (ordinal (me_kind f), elem_key f)" if f: "f \<in> set es" for f
  proof (cases "me_kind f = me_kind e")
    case True
    then have "elem_key e < elem_key f" using Cons.prems(2)[rule_format, of "me_kind e"] f by (auto simp: strict_def)
    then show ?thesis using True by (simp add: less_eq_prod_simp)
  next
    case False
    then have "ordinal (me_kind e) < ordinal (me_kind f)" using Cons.prems(1) f ordinal_inj[of "me_kind f" "me_kind e"] by (auto simp: less_le)
    then show ?thesis by (simp add: less_eq_prod_simp)
  qed
  ultimately show ?case by simp
qed simp

lemma file_kinds_sorted:
  assumes "list_all2 (\<lambda>f b. reads_as C rs (kind (fm_index f)) f b) fs blocks" "sorted (map (\<lambda>f. ordinal (kind (fm_index f))) fs)"
  shows "sorted (map (\<lambda>e. ordinal (me_kind e)) (concat blocks))"
  using assms
proof (induction fs blocks rule: list_all2_induct)
  case (Cons f fs b blocks)
  have b: "\<forall>e \<in> set b. me_kind e = kind (fm_index f)" using Cons.hyps(1) by (simp add: reads_as_def)
  have "\<forall>e \<in> set (concat blocks). ordinal (kind (fm_index f)) \<le> ordinal (me_kind e)"
  proof
    fix e assume "e \<in> set (concat blocks)"
    then obtain c where c: "c \<in> set blocks" "e \<in> set c" by auto
    then obtain g where "g \<in> set fs" "reads_as C rs (kind (fm_index g)) g c"
      using Cons.hyps(2) by (metis (no_types, lifting) in_set_conv_nth list_all2_conv_all_nth)
    then show "ordinal (kind (fm_index f)) \<le> ordinal (me_kind e)" using Cons.prems c(2) by (auto simp: reads_as_def)
  qed
  moreover have "sorted (map (\<lambda>e. ordinal (me_kind e)) b)" using b by (auto simp: sorted_map sorted_wrt_iff_nth_less)
  ultimately show ?case using Cons b by (auto simp: sorted_append)
qed simp

lemma file_guarded:
  assumes "file_ok C rs fs blocks"
  shows "guarded OrderWatermark_default fs"
proof -
  have r: "list_all2 (\<lambda>f b. reads_as C rs (kind (fm_index f)) f b) fs blocks" using assms by (simp add: file_ok_def)
  let ?blob = "\<lambda>f. (ordinal (kind (fm_index f)), min_id (fm_index f), max_id (fm_index f))"
  let ?bs = "map (\<lambda>(f, b). (?blob f, map me_id b)) (zip fs blocks)"
  have fst: "map fst ?bs = map ?blob fs" using list_all2_lengthD[OF r] by (induction fs blocks rule: list_induct2) simp_all
  have ranged: "\<forall>b \<in> set ?bs. ranged_blob b" using r by (auto simp: list_all2_iff ranged_blob_def reads_as_def exact_claim_def)
  have keys: "concat (map (\<lambda>((k, _), is). blob_keys (k, is)) ?bs) = map (\<lambda>e. (ordinal (me_kind e), elem_key e)) (concat blocks)"
    using r by (induction fs blocks rule: list_all2_induct) (auto simp: blob_keys_def reads_as_def)
  have "sorted (map (\<lambda>e. (ordinal (me_kind e), elem_key e)) (concat blocks))"
    using assms file_kinds_sorted[OF r] by (intro kinds_then_keys) (auto simp: file_ok_def kind_elements_def)
  then show ?thesis
    using observe_run_sorted[OF ranged, where w = OrderWatermark_default] unfolding guarded_def fst keys by (simp add: OrderWatermark_default_def)
qed

lemma open_gives:
  assumes "list_all sound_frame (h # rest)" "file_ok C rs (data_frames rest) blocks"
  shows "gives (BlobCursor_open (map Inr (h # rest))) (data_frames rest)"
  using assms file_guarded[OF assms(2)] by (auto simp: gives_def BlobCursor_open_def intro: exI[of _ "h # rest"])

text \<open>
  An input that holds a file's blocks: sorted, its blocks read, one kind each in order, the IDs of each kind strictly
  ascending; and, if it declares indexdata, every frame after the header one of its blocks, exactly indexed, or no data.
\<close>

definition holds :: "('z, 'a) BlockCodec \<Rightarrow> bool \<Rightarrow> 'a DiffInput \<Rightarrow> 'a MergeElement list list \<Rightarrow> bool" where
  "holds C rs inp blocks \<longleftrightarrow> di_sorted inp \<and> (\<forall>k. strict (kind_elements k blocks)) \<and>
     (\<exists>bs. di_blocks inp = map Inr bs \<and> map mb_elements bs = blocks \<and> layered bs \<and> (\<forall>b \<in> set bs. type_ok b)) \<and>
     (di_indexed inp \<longrightarrow> (\<exists>h rest. di_frames inp = map Inr (h # rest) \<and> list_all sound_frame (h # rest) \<and> file_ok C rs (data_frames rest) blocks))"

definition kinds_of :: "TypeFilter option \<Rightarrow> ElementKind list" where
  "kinds_of types = filter (admits (or_all types)) [Node, Way, Relation]"

lemma kinds_ascend: "sorted_wrt (\<lambda>k k'. ordinal k < ordinal k') (filter p [Node, Way, Relation])"
  by (rule sorted_wrt_filter) simp

lemma elements_kind: "elements_of k bs = kind_elements k (map mb_elements bs)"
  by (simp add: elements_of_def kind_elements_def)

lemma record_phases_kinds:
  "map_sum id from_sink (record_phases details opts (map (\<lambda>k. (k, merge_ref (xs k) (ys k))) ks) (as_sink c)) = record_kinds details opts ks xs ys c"
proof (induction ks arbitrary: c)
  case (Cons k ks)
  show ?case
  proof (cases "fold (sink_step details opts k) (merge_ref (xs k) (ys k)) (Inr (as_sink c))")
    case (Inl err)
    then show ?thesis by (simp add: record_ref_def)
  next
    case (Inr s)
    then show ?thesis using Cons.IH[of "from_sink s"] by (simp add: record_ref_def)
  qed
qed simp

lemma streamed_kinds:
  assumes "holds C rs old ob" "holds C rs new nb"
  shows "map_sum id from_sink (diff_streamed details opts enabled output (di_blocks old) (di_blocks new)) =
    record_kinds details opts (filter enabled [Node, Way, Relation]) (\<lambda>k. kind_elements k ob) (\<lambda>k. kind_elements k nb) \<lparr>tc_output = output, tc_stats = DiffStats_default\<rparr>"
proof -
  obtain bo bn where o: "di_blocks old = map Inr bo" "map mb_elements bo = ob" "layered bo" "\<forall>b \<in> set bo. type_ok b"
    and n: "di_blocks new = map Inr bn" "map mb_elements bn = nb" "layered bn" "\<forall>b \<in> set bn. type_ok b"
    using assms unfolding holds_def by blast
  have sorted: "strict xs \<Longrightarrow> sorted (map elem_key xs)" for xs :: "'b MergeElement list"
    unfolding strict_def by (auto simp: sorted_map intro: sorted_wrt_mono_rel[rotated])
  have ord: "ordered enabled bo" "ordered enabled bn"
    using assms o(2) n(2) sorted by (auto simp: ordered_def elements_kind holds_def)
  have "diff_element_stream enabled (map Inr bo) (map Inr bn) =
      Inr (map (\<lambda>k. (k, merge_ref (kind_elements k ob) (kind_elements k nb))) (filter enabled [Node, Way, Relation]))"
    using stream_spec[of bo bn enabled, THEN iffD2] o(3,4) n(3,4) ord unfolding elements_kind o(2) n(2) by blast
  then show ?thesis
    using record_phases_kinds[of details opts "\<lambda>k. kind_elements k ob" "\<lambda>k. kind_elements k nb" "filter enabled [Node, Way, Relation]" "\<lparr>tc_output = output, tc_stats = DiffStats_default\<rparr>"]
    unfolding diff_streamed_def o(1) n(1) by (simp add: DiffSink_new_def as_sink_def)
qed

lemma indexed_kinds:
  assumes "decoders_ok (bc_decoders C) stream" "target \<le> 2 ^ 25"
    and "holds C (do_suppress_common opts) old ob" "di_indexed old" "holds C (do_suppress_common opts) new nb" "di_indexed new"
  shows "diff_block_pair C details opts enabled output target (di_frames old) (di_frames new) =
    Some (record_kinds details opts (filter enabled [Node, Way, Relation]) (\<lambda>k. kind_elements k ob) (\<lambda>k. kind_elements k nb) \<lparr>tc_output = output, tc_stats = DiffStats_default\<rparr>)"
proof -
  obtain ho ro where o: "di_frames old = map Inr (ho # ro)" "list_all sound_frame (ho # ro)" "file_ok C (do_suppress_common opts) (data_frames ro) ob"
    using assms(3,4) unfolding holds_def by blast
  obtain hn rn where n: "di_frames new = map Inr (hn # rn)" "list_all sound_frame (hn # rn)" "file_ok C (do_suppress_common opts) (data_frames rn) nb"
    using assms(5,6) unfolding holds_def by blast
  obtain units where u: "plan (filter enabled [Node, Way, Relation]) target (BlobCursor_open (di_frames old)) (BlobCursor_open (di_frames new)) = (units, None)"
    "\<And>c. ((output \<noteq> None) \<longleftrightarrow> tc_output c \<noteq> None) \<Longrightarrow> drive C details opts (output \<noteq> None) units c =
      Some (record_kinds details opts (filter enabled [Node, Way, Relation]) (\<lambda>k. kind_elements k ob) (\<lambda>k. kind_elements k nb) c)"
    using plan_drives[OF assms(1,2) open_gives[OF o(2,3)] o(3) open_gives[OF n(2,3)] n(3) kinds_ascend, of enabled "output \<noteq> None" details] unfolding o(1) n(1) by blast
  show ?thesis unfolding diff_block_pair_def u(1) using u(2)[of "\<lparr>tc_output = output, tc_stats = DiffStats_default\<rparr>"] by (simp split: sum.split)
qed

lemma compare_kinds:
  assumes "decoders_ok (bc_decoders C) stream" "holds C (do_suppress_common opts) old ob" "holds C (do_suppress_common opts) new nb"
  shows "compare C details opts types output old new =
    Some (map_sum MergeFailed id (record_kinds details opts (kinds_of types) (\<lambda>k. kind_elements k ob) (\<lambda>k. kind_elements k nb) \<lparr>tc_output = output, tc_stats = DiffStats_default\<rparr>))"
proof -
  have sorted: "di_sorted old" "di_sorted new" using assms(2,3) by (simp_all add: holds_def)
  have target: "DIFF_UNIT_TARGET_BYTES \<le> 2 ^ 25" by (simp add: DIFF_UNIT_TARGET_BYTES_def)
  have comp: "map_sum MergeFailed from_sink r = map_sum MergeFailed id (map_sum id from_sink r)" for r :: "merge_error + DiffSink" by (cases r) simp_all
  show ?thesis
    using sorted indexed_kinds[OF assms(1) target assms(2) _ assms(3)] streamed_kinds[OF assms(2,3)]
    by (simp add: compare_def kinds_of_def Let_def comp)
qed

section \<open>The counts\<close>

fun act_stats :: "'a BlockMergeAction \<Rightarrow> DiffStats" where
  "act_stats (BlobEqual n) = DiffStats_default\<lparr>df_common := n\<rparr>"
| "act_stats (BlobOldOnly r) = DiffStats_default\<lparr>df_deleted := br_count r\<rparr>"
| "act_stats (BlobNewOnly r) = DiffStats_default\<lparr>df_created := br_count r\<rparr>"
| "act_stats (ElementEqual e) = DiffStats_default\<lparr>df_common := 1\<rparr>"
| "act_stats (ElementModified e f) = DiffStats_default\<lparr>df_modified := 1\<rparr>"
| "act_stats (ElementOldOnly e) = DiffStats_default\<lparr>df_deleted := 1\<rparr>"
| "act_stats (ElementNewOnly e) = DiffStats_default\<lparr>df_created := 1\<rparr>"

definition acts_stats :: "'a BlockMergeAction list \<Rightarrow> DiffStats" where
  "acts_stats acts = foldr (DiffStats_add \<circ> act_stats) acts DiffStats_default"

lemma add_stats_laws:
  "DiffStats_add (DiffStats_add s t) u = DiffStats_add s (DiffStats_add t u)" "DiffStats_add s DiffStats_default = s" "DiffStats_add DiffStats_default s = s"
  by (cases s; simp add: DiffStats_add_def DiffStats_default_def add.assoc)+

lemma record_stats: "DiffSink_record details opts k a s = Inr t \<Longrightarrow> dk_stats t = DiffStats_add (dk_stats s) (act_stats a)"
  by (cases a) (auto simp: DiffSink_record_def Let_def DiffStats_add_def DiffStats_default_def split: if_splits sum.splits)

lemma fold_stats: "fold (sink_step details opts k) acts (Inr s) = Inr t \<Longrightarrow> dk_stats t = DiffStats_add (dk_stats s) (acts_stats acts)"
proof (induction acts arbitrary: s)
  case (Cons a acts)
  then obtain u where u: "DiffSink_record details opts k a s = Inr u" by (cases "DiffSink_record details opts k a s") (simp_all add: fold_failed)
  then show ?case using Cons.IH[of u] Cons.prems record_stats[OF u] by (simp add: acts_stats_def add_stats_laws)
qed (simp add: acts_stats_def add_stats_laws)

lemma quiet_records: "dk_output s = None \<or> \<not> do_verbose opts \<Longrightarrow> \<exists>t. DiffSink_record details opts k a s = Inr t"
  by (cases a) (auto simp: DiffSink_record_def Let_def)

lemma quiet_fold: "dk_output s = None \<Longrightarrow> \<exists>t. fold (sink_step details opts k) acts (Inr s) = Inr t"
proof (induction acts arbitrary: s)
  case (Cons a acts)
  obtain t where "DiffSink_record details opts k a s = Inr t" using quiet_records[of s] Cons.prems by blast
  then show ?case using Cons.IH[of t] Cons.prems record_output[of details opts k a s t] by simp
qed simp

definition kinds_stats :: "ElementKind list \<Rightarrow> (ElementKind \<Rightarrow> 'a MergeElement list) \<Rightarrow> (ElementKind \<Rightarrow> 'a MergeElement list) \<Rightarrow> DiffStats" where
  "kinds_stats ks xs ys = foldr (\<lambda>k. DiffStats_add (acts_stats (merge_ref (xs k) (ys k)))) ks DiffStats_default"

lemma quiet_kinds:
  "tc_output c = None \<Longrightarrow> \<exists>d. record_kinds details opts ks xs ys c = Inr d \<and> tc_stats d = DiffStats_add (tc_stats c) (kinds_stats ks xs ys)"
proof (induction ks arbitrary: c)
  case (Cons k ks)
  obtain t where t: "fold (sink_step details opts k) (merge_ref (xs k) (ys k)) (Inr (as_sink c)) = Inr t"
    using quiet_fold[of "as_sink c" details opts k] Cons.prems by (auto simp: as_sink_def)
  have st: "dk_stats t = DiffStats_add (tc_stats c) (acts_stats (merge_ref (xs k) (ys k)))" using fold_stats[OF t] by (simp add: as_sink_def)
  have "tc_output (from_sink t) = None" using fold_sink_output[OF t] Cons.prems by (simp add: as_sink_def from_sink_def)
  from Cons.IH[OF this] show ?case using t st by (simp add: record_ref_def kinds_stats_def from_sink_def add_stats_laws)
qed (simp add: kinds_stats_def add_stats_laws)

text \<open>The reference merge, counted: an element of one side by whether the other side has its ID, and with what content.\<close>

definition has_id :: "'a MergeElement list \<Rightarrow> 'a MergeElement \<Rightarrow> bool" where
  "has_id ys e \<longleftrightarrow> me_id e \<in> me_id ` set ys"

definition has_same :: "'a MergeElement list \<Rightarrow> 'a MergeElement \<Rightarrow> bool" where
  "has_same ys e \<longleftrightarrow> (\<exists>f \<in> set ys. me_id f = me_id e \<and> content_equal e f)"

definition side_stats :: "'a MergeElement list \<Rightarrow> 'a MergeElement list \<Rightarrow> DiffStats" where
  "side_stats xs ys = \<lparr>df_common = of_nat (length (filter (has_same ys) xs)), df_created = of_nat (length (filter (\<lambda>e. \<not> has_id xs e) ys)),
     df_modified = of_nat (length (filter (\<lambda>e. has_id ys e \<and> \<not> has_same ys e) xs)), df_deleted = of_nat (length (filter (\<lambda>e. \<not> has_id ys e) xs))\<rparr>"

lemma has_Cons:
  "has_id (y # ys) e \<longleftrightarrow> me_id e = me_id y \<or> has_id ys e" "has_same (y # ys) e \<longleftrightarrow> me_id y = me_id e \<and> content_equal e y \<or> has_same ys e"
  by (auto simp: has_id_def has_same_def)

lemma has_none: "\<forall>f \<in> set ys. me_id f \<noteq> me_id e \<Longrightarrow> \<not> has_id ys e \<and> \<not> has_same ys e"
  by (auto simp: has_id_def has_same_def)

lemma acts_stats_simps: "acts_stats [] = DiffStats_default" "acts_stats (a # as) = DiffStats_add (act_stats a) (acts_stats as)"
  by (simp_all add: acts_stats_def)

lemma strict_Cons: "strict (x # xs) \<longleftrightarrow> (\<forall>e \<in> set xs. elem_key x < elem_key e) \<and> strict xs"
  by (simp add: strict_def)

lemma strict_other: "strict (y # ys) \<Longrightarrow> elem_key x < elem_key y \<Longrightarrow> \<forall>f \<in> set (y # ys). me_id f \<noteq> me_id x"
  by (auto simp: strict_Cons dest: less_trans)

lemma old_stats: "acts_stats (map ElementOldOnly xs) = side_stats xs []"
  by (induction xs) (simp_all add: acts_stats_simps side_stats_def DiffStats_add_def DiffStats_default_def has_id_def has_same_def)

lemma new_stats: "acts_stats (map ElementNewOnly ys) = side_stats [] ys"
  by (induction ys) (simp_all add: acts_stats_simps side_stats_def DiffStats_add_def DiffStats_default_def has_id_def)

text \<open>An element one side has alone counts by itself.\<close>

lemma side_old: "\<forall>f \<in> set ys. me_id f \<noteq> me_id x \<Longrightarrow> side_stats (x # xs) ys = DiffStats_add (act_stats (ElementOldOnly x)) (side_stats xs ys)"
proof -
  assume a: "\<forall>f \<in> set ys. me_id f \<noteq> me_id x"
  then have "filter (\<lambda>e. \<not> has_id (x # xs) e) ys = filter (\<lambda>e. \<not> has_id xs e) ys" by (auto simp: has_Cons intro: filter_cong)
  then show ?thesis using has_none[OF a] by (simp add: side_stats_def DiffStats_add_def DiffStats_default_def)
qed

lemma side_new:
  assumes "\<forall>f \<in> set xs. me_id f \<noteq> me_id y"
  shows "side_stats xs (y # ys) = DiffStats_add (act_stats (ElementNewOnly y)) (side_stats xs ys)"
proof -
  have "has_same (y # ys) e = has_same ys e" "has_id (y # ys) e = has_id ys e" if "e \<in> set xs" for e using assms that by (auto simp: has_Cons)
  then show ?thesis using has_none[OF assms] by (simp add: side_stats_def DiffStats_add_def DiffStats_default_def cong: filter_cong)
qed

lemma side_both:
  assumes "me_id x = me_id y" "\<forall>f \<in> set xs. me_id f \<noteq> me_id y" "\<forall>f \<in> set ys. me_id f \<noteq> me_id x"
  shows "side_stats (x # xs) (y # ys) = DiffStats_add (act_stats (matched x y)) (side_stats xs ys)"
proof -
  have "has_same (y # ys) e = has_same ys e" "has_id (y # ys) e = has_id ys e" if "e \<in> set xs" for e using assms that by (auto simp: has_Cons)
  moreover have "has_id (x # xs) e = has_id xs e" if "e \<in> set ys" for e using assms that by (auto simp: has_Cons)
  moreover have "has_same (y # ys) x = content_equal x y" "has_id (y # ys) x" "has_id (x # xs) y" using assms(1) has_none[OF assms(3)] by (auto simp: has_Cons)
  ultimately show ?thesis by (simp add: side_stats_def matched_def DiffStats_add_def DiffStats_default_def cong: filter_cong)
qed

lemma merge_ref_stats: "strict xs \<Longrightarrow> strict ys \<Longrightarrow> acts_stats (merge_ref xs ys) = side_stats xs ys"
proof (induction xs ys rule: merge_ref.induct)
  case (1 ys)
  then show ?case by (simp add: new_stats)
next
  case (2 v va)
  then show ?case using old_stats[of "v # va"] by simp
next
  case (3 x xs y ys)
  have s: "strict xs" "strict ys" using 3(4,5) by (simp_all add: strict_Cons)
  consider "elem_key x < elem_key y" | "elem_key y < elem_key x" | "elem_key x = elem_key y" by (rule linorder_cases)
  then show ?case
  proof cases
    case 1
    then show ?thesis using 3(1)[OF 1 s(1) 3(5)] side_old[OF strict_other[OF 3(5) 1], of xs] by (simp add: acts_stats_simps)
  next
    case 2
    then have "\<not> elem_key x < elem_key y" by simp
    then show ?thesis using 2 3(2)[OF _ 2 3(4) s(2)] side_new[OF strict_other[OF 3(4) 2], of ys] by (simp add: acts_stats_simps)
  next
    case eq: 3
    then have "me_id x = me_id y" "\<forall>f \<in> set xs. me_id f \<noteq> me_id y" "\<forall>f \<in> set ys. me_id f \<noteq> me_id x" using 3(4,5) by (auto simp: strict_Cons)
    from side_both[OF this] show ?thesis using eq 3(3)[OF _ _ s] by (simp add: acts_stats_simps)
  qed
qed

lemma kinds_stats_sides:
  "(\<And>k. k \<in> set ks \<Longrightarrow> strict (xs k) \<and> strict (ys k)) \<Longrightarrow> kinds_stats ks xs ys = foldr (\<lambda>k. DiffStats_add (side_stats (xs k) (ys k))) ks DiffStats_default"
  by (induction ks) (simp_all add: kinds_stats_def merge_ref_stats)

section \<open>Inputs for examples\<close>

definition byte_reader :: "Frame \<Rightarrow> ReaderFrame" where
  "byte_reader f = \<lparr>rf_type = OsmData, rf_index = Some (fm_index f), rf_payload = Inr (fm_body f)\<rparr>"

definition byte_input :: "bool \<Rightarrow> Frame list \<Rightarrow> bytes list \<Rightarrow> unit DiffInput" where
  "byte_input indexed fs bss = \<lparr>di_sorted = True, di_indexed = indexed,
     di_frames = map Inr (\<lparr>rf_type = OsmHeader, rf_index = None, rf_payload = Inr []\<rparr> # map byte_reader fs),
     di_blocks = map (\<lambda>bs. Inr \<lparr>mb_type = Some Node, mb_elements = map byte_element bs\<rparr>) bss\<rparr>"

lemma byte_holds:
  assumes "list_all2 (reads_as byte_codec rs Node) fs (map (map byte_element) bss)" "strict (concat (map (map byte_element) bss))" "sized fs"
  shows "holds byte_codec rs (byte_input indexed fs bss) (map (map byte_element) bss)"
proof -
  let ?blocks = "map (map byte_element) bss" and ?bs = "map (\<lambda>bs. \<lparr>mb_type = Some Node, mb_elements = map byte_element bs\<rparr>) bss"
  have "kind_elements k ?blocks = (if k = Node then concat ?blocks else [])" for k
    by (induction bss) (auto simp: kind_elements_def byte_element_def comp_def)
  then have st: "\<forall>k. strict (kind_elements k ?blocks)" using assms(2) by (simp add: strict_def)
  have ok: "list_all (phase_ok Node) ?bs" by (simp add: list_all_iff phase_ok_def byte_element_def)
  have kinds: "\<forall>f \<in> set fs. kind (fm_index f) = Node" using list_all2_member[OF assms(1)] by (force simp: reads_as_def)
  have "list_all2 (\<lambda>f b. reads_as byte_codec rs (kind (fm_index f)) f b) fs ?blocks"
    using assms(1) by (rule list_all2_mono) (auto simp: reads_as_def)
  moreover have "sorted (map (\<lambda>f. ordinal (kind (fm_index f))) fs)" using kinds by (auto simp: sorted_iff_nth_mono_less)
  ultimately have f: "file_ok byte_codec rs fs ?blocks" using st assms(3) by (simp add: file_ok_def)
  have d: "data_frames (map byte_reader fs) = fs" by (induction fs) (simp_all add: data_frames_def byte_reader_def frame_of_def)
  have "layered ?bs" unfolding layered_def using ok by (intro exI[of _ ?bs] exI[of _ "[]"]) simp
  moreover have "\<forall>b \<in> set ?bs. type_ok b" by (auto simp: type_ok_def byte_element_def image_image image_constant_conv)
  moreover have "list_all sound_frame (\<lparr>rf_type = OsmHeader, rf_index = None, rf_payload = Inr []\<rparr> # map byte_reader fs)"
    by (simp add: list_all_iff sound_frame_def byte_reader_def)
  ultimately show ?thesis unfolding holds_def using st f d
    by (auto simp: byte_input_def comp_def intro!: exI[of _ ?bs] exI[of _ "\<lparr>rf_type = OsmHeader, rf_index = None, rf_payload = Inr []\<rparr>"] exI[of _ "map byte_reader fs"])
qed

definition old_frames :: "Frame list" where "old_frames = [byte_frame 1 2 [1, 2], byte_frame 7 9 [7, 9]]"

definition new_frames :: "Frame list" where "new_frames = [byte_frame 2 2 [2], byte_frame 7 8 [7, 8]]"

lemma byte_files:
  "holds byte_codec rs (byte_input indexed old_frames [[1, 2], [7, 9]]) (map (map byte_element) [[1, 2], [7, 9]])"
  "holds byte_codec rs (byte_input indexed new_frames [[2], [7, 8]]) (map (map byte_element) [[2], [7, 8]])"
proof -
  have len: "n \<le> MAX_BLOB_MESSAGE_SIZE" if "n \<le> 2" for n using that by (simp add: MAX_BLOB_MESSAGE_SIZE_def)
  have r: "reads_as byte_codec rs Node (byte_frame 1 2 [1, 2]) (map byte_element [1, 2])" "reads_as byte_codec rs Node (byte_frame 7 9 [7, 9]) (map byte_element [7, 9])"
    "reads_as byte_codec rs Node (byte_frame 2 2 [2]) (map byte_element [2])" "reads_as byte_codec rs Node (byte_frame 7 8 [7, 8]) (map byte_element [7, 8])"
    by (rule byte_reads; (rule len)?; code_simp)+
  have s: "strict (concat (map (map byte_element) [[1, 2], [7, 9]]))" "strict (concat (map (map byte_element) [[2], [7, 8]]))"
    unfolding strict_def by code_simp+
  have z: "sized old_frames" "sized new_frames" by (simp_all add: sized_def old_frames_def new_frames_def byte_frame_def)
  show "holds byte_codec rs (byte_input indexed old_frames [[1, 2], [7, 9]]) (map (map byte_element) [[1, 2], [7, 9]])"
    using r s(1) z(1) by (intro byte_holds) (simp_all add: old_frames_def)
  show "holds byte_codec rs (byte_input indexed new_frames [[2], [7, 8]]) (map (map byte_element) [[2], [7, 8]])"
    using r s(2) z(2) by (intro byte_holds) (simp_all add: new_frames_def)
qed

lemma byte_decoders: "decoders_ok (bc_decoders byte_codec) (\<lambda>z input. (input, Ends))"
  using stored_ok by (simp add: byte_codec_def)

section \<open>Properties\<close>





end
