(* ===== verification/Spec2Isabelle.thy ===== *)
theory Spec2Isabelle
  imports Coord_Pack Reorder_Buffer Sorted_Diff Tags_Filter Frame_Walk Merge_Collect Diff_Compare
begin

text \<open>
  pbfhogg: a verification library for the PBF toolkit of this repository.

  The program. An OSM PBF file is a sequence of frames, each a blob header and a blob
  payload; the payload decompresses to a block of nodes, ways and relations. Every command
  walks the frames or only their headers (\<open>src/src/read\<close>), selects blobs by the claims the
  headers carry (\<open>src/src/blob_meta\<close>), builds a schedule of payloads to decode
  (\<open>src/src/scan\<close>), hands it to pools of workers whose results a reorder buffer puts back
  in file order, keeps the elements it wants by ID sets (\<open>src/src/idset.rs\<close>) and tag
  expressions (\<open>src/src/tag_expr.rs\<close>), and writes new frames (\<open>src/src/write\<close>). The commands
  over change files (\<open>src/src/osc\<close>) drive XML events through a framing state machine into a sink: an overlay of
  the last change of each object, from which apply-changes takes tables sorted in the canonical ID order
  (\<open>src/src/osm_id.rs\<close>), or a byte sink that merge-changes writes its output through. diff compares two files by
  merging their elements in ID order, block by block when both are indexed.

  Conventions. A machine integer is a word of its width, compared unsigned (\<open><\<close>) or signed
  (\<open><s\<close>) as its Rust type is; lengths, indices and file offsets that cannot wrap are
  naturals. A struct is a record, an enum a datatype, \<open>Result\<close> a sum with the error on the
  left, \<open>Option\<close> an option. A panic is \<open>None\<close> of an operation that can panic. A byte slice and
  a string are lists of \<open>u8\<close>. A mutating method returns the updated state. Worker pools are
  modelled by what they may deliver: any assignment of blocks to workers and any order of
  results, over which the theorems quantify. Code of other crates is a parameter: the
  protobuf primitives (\<open>Proto\<close>, with the laws \<open>proto_ok\<close>, shown for the protobuf encoding), the
  compressors with the state they keep between blocks (\<open>Compressors\<close>, with the laws \<open>compressors_ok\<close>), the inflater and
  decoder (\<open>Decoders\<close>), the XML library, its writer and the \<open>f64\<close> operations a coordinate goes through (\<open>XmlLib\<close>, \<open>TagText\<close>,
  \<open>XmlWriter\<close>), and what a payload decodes to (an argument of the schedule and command models, \<open>bc_parse\<close> of
  \<open>BlockCodec\<close> for diff). So is the verbose text of a modified pair (\<open>details\<close>), which is code of this
  repository not modelled yet.

  Theories, in the order of the program's layers.

  Values. \<open>Prelude\<close>: integer types, byte encodings, \<open>partition_point\<close>, the shared
  interfaces. \<open>Element_Kind\<close> (\<open>element_kind.rs\<close>): kinds, their names, ordinals, and kind sets.
  \<open>Osm_Id\<close> (\<open>osm_id.rs\<close>): the canonical ID order as an order embedding into keys, key ranges,
  and the order watermark, shown to accept exactly the ordered files. \<open>Coord_Pack\<close>
  (\<open>coord_pack.rs\<close>): the packed coordinate slot.

  Blob metadata. \<open>Tag_Index\<close> and \<open>Blob_Index\<close> (\<open>blob_meta/\<close>): the tag key index and the
  indexdata formats with their round trips, the wire classification, and the blob filter,
  whose skips are shown to lose no element it selects. \<open>Tally\<close> (\<open>blob_meta/tally.rs\<close>): the
  checks of a claim against what a walk saw, shown exact, and the cheap one equivalent.

  Frames. \<open>Blob_Wire\<close> (\<open>read/blob_wire.rs\<close>): the header and blob message parsers. \<open>Framing\<close>
  (\<open>write/framing.rs\<close>): header, body and frame encoders over reused scratch buffers, the piece
  splitter, the field strippers. \<open>Decompress\<close> (\<open>read/decompress.rs\<close>): the buffer pool, bounded
  inflation and the four entry points. \<open>Frame_Walk\<close> (\<open>read/frame.rs\<close>, \<open>read/header_walker.rs\<close>):
  the frame state machine over its sources. The machine is a record of position, ordinal,
  pending payload, failure flag and guard; it is shown to implement an abstract machine on
  the bytes, over a stream read in arbitrary steps and over the windowed \<open>pread\<close> source, and
  the abstract machine is characterised by the structure of the input. The properties of
  this theory join the layers: what is written reads back, and the header walk locates what
  the schedules will read.

  Schedules and pools. \<open>Schedule\<close> (\<open>scan/classify.rs\<close>): the schedule walk with its filters and
  the partially-indexed rule, shown to give exactly the blobs asked for, and the split into
  per-kind schedules. \<open>Reorder_Buffer\<close> (\<open>reorder_buffer.rs\<close>): in every interleaving of pushes
  and pops the items come out in sequence order, none lost.

  Sets and selection. \<open>Id_Chunk\<close> and \<open>Id_Set\<close> (\<open>idset.rs\<close>): the chunked sparse bitset, each
  operation shown to act on the set of IDs held; atomic setters as steps that may
  interleave; the rank index. \<open>Tag_Expr\<close> (\<open>tag_expr.rs\<close>): parsing and matching of tag
  expressions. \<open>Sorted_Diff\<close> (\<open>osc/sorted.rs\<close>, \<open>commands/apply_changes/classify.rs\<close>): the sorted
  ID tables of a change file, their range tests and forward cursors. \<open>Tags_Filter\<close>
  (\<open>commands/tags_filter/mod.rs\<close>): both modes of the command, shown to write exactly the
  elements the request needs, as defined inductively, for every order of delivery.

  Change files. \<open>Interner\<close> (\<open>osc/interner.rs\<close>): the string table with its limits. \<open>Osc_Arena\<close> (\<open>osc/compact.rs\<close>): the byte
  layout of records. \<open>Timestamp\<close> (\<open>commands/mod.rs\<close>): RFC 3339 seconds. \<open>Osc_Overlay\<close> (\<open>osc/compact.rs\<close>,
  \<open>osc/version_floor.rs\<close>): the overlay and its version floors. \<open>Osc_Sink\<close> (\<open>osc/xml_parse.rs\<close>): attributes, coordinates,
  metadata and the overlay's sink. \<open>Osc_Drive\<close> (\<open>osc/parse.rs\<close>): the framing state machine, and the lexical batches that record
  and replay its calls. \<open>Osc_Apply\<close> (\<open>osc/parse.rs\<close>): whole documents and directories, shown to leave in the sorted tables
  exactly the last change of every object, or the first regression.

  merge-changes (\<open>commands/merge_changes\<close>). \<open>Simplify\<close>: the sort and scan of rendered changes, equal to one serial pass.
  \<open>Emit\<close>: the byte sink and the output. \<open>Merge_Stream\<close> and \<open>Merge_Collect\<close>: the ledger and the coordinators of both modes as
  step relations over every interleaving of readers, workers and messages, with order, credit bounds, progress and
  a bound on the number of steps. That apply-changes and merge-changes agree is a property of this theory.

  diff (\<open>osc/merge_join.rs\<close>, \<open>commands/diff\<close>). \<open>Merge_Join\<close>: the streaming cursors and the element-level merge, with exactly
  which inputs it accepts. \<open>Block_Pair\<close>: windows, clipping and the merge of one work unit over decoded and undecoded
  blobs; on exactly indexed, ordered blobs it returns and gives its sink the reference merge, and on blobs out of order inside it
  need not return. \<open>Blob_Cursor\<close>: one indexed input in file order, under its order guard. \<open>Diff_Sink\<close>: counts, lines and
  chunks. \<open>Diff_Units\<close>: the planner that cuts a kind into units; no unit is refused for its size when no ID is repeated and
  bodies are within the frame limit. \<open>Diff_Compare\<close>: the comparison; both paths give the text and counts of the
  reference merge.

  Interfaces. A locale states what a client relies on, its lemmas are proved there once, and
  it is interpreted on the program's definitions by the theory that provides them:
  \<open>reporting_set\<close>, \<open>id_container\<close>, \<open>codec\<close> and \<open>canonical_codec\<close> (\<open>Prelude\<close>), \<open>id_key\<close> (\<open>Osm_Id\<close>),
  \<open>skip_test\<close> (\<open>Blob_Index\<close>), \<open>chunk_join\<close> (\<open>Id_Set\<close>), \<open>seq_buffer\<close> (\<open>Reorder_Buffer\<close>),
  \<open>forward_cursor\<close> (\<open>Sorted_Diff\<close>), \<open>proto\<close> (\<open>Blob_Wire\<close>), \<open>frame_source\<close> with its extensions
  \<open>frame_stream\<close> and \<open>frame_skip\<close> (\<open>Frame_Walk\<close>), \<open>string_pool\<close> (\<open>Interner\<close>), \<open>exact_iter\<close> (\<open>Osc_Arena\<close>), and \<open>merge_sink\<close>, the contract
  between the block-pair merge and its sinks (\<open>Block_Pair\<close>, met by the sink of \<open>Diff_Sink\<close>).

  Loops without a bound in the code. The relation closure of tags-filter, the piece splitter
  and the walks are \<open>partial_function (option)\<close>, where \<open>None\<close> is a run that does not end, and
  are proved to return: the closure from the finite number of relation IDs in the file, the
  splitter because a target is never zero while bytes are left, a walk because every frame
  takes at least five bytes. The block-pair merge of a unit is one too; it is proved to return on ordered, exactly indexed blobs, by
  the elements and frames left, and proved not to on a disordered pair. The message field loops carry a guard that makes them total; it
  is proved never to fire. The inflation loops are total: a turn that goes on consumes input
  or fills room below the limit. No fuel is used.

  Not modelled, and why. Threads, channels, pools and io_uring (\<open>ordered_pool.rs\<close>,
  \<open>joined_pool.rs\<close>, \<open>read/pipeline.rs\<close>, \<open>write/pipeline.rs\<close>, \<open>write/uring_writer.rs\<close>) appear only as
  delivery orders: their own code is operating-system and library calls. The elements a
  block decodes to are a parameter, since decoding rests on a third-party crate. XML is a third-party crate. Geometry (\<open>geo.rs\<close>,
  extract, the geocode index) is floating point, for which no faithful executable model is at hand.
  Files, publication, host limits and the command line (\<open>output.rs\<close>, \<open>host.rs\<close>, \<open>scratch.rs\<close>,
  \<open>cli/\<close>) are input and output. Not reached: block decoding and building, the string table, the rewrite of apply-changes,
  derive-changes and the verbose details of diff, renumber, getid and the other commands over the same components.
\<close>

section \<open>Frames written and read back\<close>

definition written_index :: "bytes option \<Rightarrow> BlobIndex option" where
  "written_index idata =
     (case classify_wire_indexdata (bytes_or_empty idata) of
        Carrier c \<Rightarrow> if bytes_or_empty idata = [] then None else BlobIndex_deserialize c
      | _ \<Rightarrow> None)"

lemma blob_kind_names:
  "blob_kind_of OSMHEADER = Inr OsmHeader" "blob_kind_of OSMDATA = Inr OsmData"
  "OSMHEADER \<noteq> []" "OSMDATA \<noteq> []" "length OSMHEADER < 2 ^ 32" "length OSMDATA < 2 ^ 32"
  by (simp_all add: blob_kind_of_def OSMHEADER_def OSMDATA_def)

lemma kept_written_header:
  "Option.bind (wh_indexdata (keep_fields True True False (written_header k ds idata td wm))) BlobIndex_deserialize = written_index idata"
  "wh_tagdata (keep_fields True True False (written_header k ds idata td wm)) = (if bytes_or_empty td = [] then None else td)"
  "wh_blob_type (keep_fields True True False (written_header k ds idata td wm)) = k"
  "wh_datasize (keep_fields True True False (written_header k ds idata td wm)) = ds"
  by (auto simp: keep_fields_def written_header_def written_index_def take_indexdata_def take_tagdata_def take_waymembers_def
      WireBlobHeader_init_def bytes_or_empty_def split: WireIndexdata.splits option.splits)

lemma written_frame:
  assumes P: "proto P" and kind: "blob_kind_of b = Inr k" "b \<noteq> []" "length b < 2 ^ 32"
    and spec: "frame_spec P C b u compression idata tdata wm = Inr frame"
  defines "n \<equiv> length (sf_body_head frame @ sf_payload frame)"
  defines "td \<equiv> kept_tagdata P b (of_nat n) idata tdata wm"
  shows "0 < length (sf_header frame)" "length (sf_header frame) < MAX_BLOB_HEADER_SIZE" "n < MAX_BLOB_DATASIZE"
    "sf_prefix frame = u32_to_be_bytes (of_nat (length (sf_header frame)))"
    "WireBlobHeader_parse P (sf_header frame) True True False
       = Inr (keep_fields True True False (written_header k (of_nat n) idata td wm))"
    "frame_body P C u compression = Inr (sf_body_head frame, sf_payload frame)" "length u \<le> MAX_BLOB_MESSAGE_SIZE"
proof -
  obtain head payload hdr where u: "length u \<le> MAX_BLOB_MESSAGE_SIZE" and body: "frame_body P C u compression = Inr (head, payload)"
    and hdr: "frame_header_spec P b (length head + length payload) idata tdata wm = Inr hdr"
    and frame: "frame = \<lparr>sf_prefix = u32_to_be_bytes (of_nat (length hdr)), sf_header = hdr,
        sf_body_head = head, sf_payload = payload\<rparr>"
    using spec by (auto simp: frame_spec_def not_less split: if_splits option.splits sum.splits)
  then have n: "n = length head + length payload" by (simp add: n_def)
  have hdr': "hdr = encode_blob_header_fields P b (of_nat n) idata td wm" "length hdr < MAX_BLOB_HEADER_SIZE" "n < MAX_BLOB_DATASIZE"
    using hdr unfolding n td_def by (auto simp: frame_header_spec_def Let_def split: if_splits)
  then have small: "length (bytes_or_empty idata) < 2 ^ 32" "length (bytes_or_empty td) < 2 ^ 32" "length (bytes_or_empty wm) < 2 ^ 32"
    using proto.optional_length_le [OF P, where b = b and ds = "of_nat n" and idata = idata and tdata = td and wm = wm]
    by (simp_all add: MAX_BLOB_HEADER_SIZE_def)
  show "0 < length (sf_header frame)" using proto.header_fields_not_empty [OF P kind(2)] frame hdr'(1) by simp
  show "WireBlobHeader_parse P (sf_header frame) True True False
       = Inr (keep_fields True True False (written_header k (of_nat n) idata td wm))"
    using proto.parse_written_header [OF P kind small] frame hdr'(1) by simp
  show "length (sf_header frame) < MAX_BLOB_HEADER_SIZE" "n < MAX_BLOB_DATASIZE"
    "sf_prefix frame = u32_to_be_bytes (of_nat (length (sf_header frame)))"
    "frame_body P C u compression = Inr (sf_body_head frame, sf_payload frame)" "length u \<le> MAX_BLOB_MESSAGE_SIZE"
    using u body frame hdr' by simp_all
qed

text \<open>A frame of kind \<open>k\<close> written from a request, in place, as a walk sees it.\<close>

record Request =
  rq_block :: bytes
  rq_compression :: Compression
  rq_indexdata :: "bytes option"
  rq_tagdata :: "bytes option"
  rq_way_members :: "bytes option"

definition written_as :: "Proto \<Rightarrow> ('c, 's) Compressors \<Rightarrow> bytes \<Rightarrow> Request \<Rightarrow> bytes \<Rightarrow> bool" where
  "written_as P C b rq bytes \<longleftrightarrow>
     (\<exists>scratch metrics. scratch_clean C scratch \<and> fst (frame_blob_into P C b (rq_block rq) (rq_compression rq) (rq_indexdata rq) (rq_tagdata rq)
        (rq_way_members rq) scratch metrics) = Inr bytes)"

definition reads_as :: "Proto \<Rightarrow> 'z Decoders \<Rightarrow> BlobKind \<Rightarrow> Request \<Rightarrow> RawBlobFrame \<Rightarrow> bool" where
  "reads_as P D k rq raw \<longleftrightarrow>
     rw_blob_type raw = k
   \<and> (\<forall>buf. decompress_blob_raw P D (rw_blob_bytes raw) buf = Inr (rq_block rq))
   \<and> rw_index raw = written_index (rq_indexdata rq)
   \<and> (rw_tagdata raw = None \<or> rw_tagdata raw = rq_tagdata rq)"

lemma written_as_spec:
  assumes C: "compressors_ok C" and w: "written_as P C b rq bytes"
  obtains frame where "frame_spec P C b (rq_block rq) (rq_compression rq) (rq_indexdata rq) (rq_tagdata rq) (rq_way_members rq) = Inr frame"
    "bytes = concat (ScratchFrame_parts frame)"
proof -
  obtain scratch metrics where clean: "scratch_clean C scratch" and fb: "fst (frame_blob_into P C b (rq_block rq) (rq_compression rq) (rq_indexdata rq) (rq_tagdata rq)
      (rq_way_members rq) scratch metrics) = Inr bytes" using w by (auto simp: written_as_def)
  obtain r st where fis: "frame_in_scratch P C b (rq_block rq) (rq_compression rq) (rq_indexdata rq) (rq_tagdata rq)
      (rq_way_members rq) scratch metrics = (r, st)" by (metis surj_pair)
  then have "r = frame_spec P C b (rq_block rq) (rq_compression rq) (rq_indexdata rq) (rq_tagdata rq) (rq_way_members rq)"
    using frame_in_scratch_eq [OF C clean, where P = P and b = b and u = "rq_block rq" and compression = "rq_compression rq"
        and idata = "rq_indexdata rq" and tdata = "rq_tagdata rq" and wm = "rq_way_members rq" and metrics = metrics]
    by (auto split: prod.splits)
  then have spec: "frame_spec P C b (rq_block rq) (rq_compression rq) (rq_indexdata rq) (rq_tagdata rq) (rq_way_members rq) = r" ..
  then show thesis using fb that unfolding frame_blob_into_def fis spec by (cases r) simp_all
qed

lemma written_frame_at:
  assumes P: "proto P" and D: "decoders_ok D stream" "codecs_agree C D stream" and C: "compressors_ok C"
    and k: "b = OSMHEADER \<and> k = OsmHeader \<and> pos = 0 \<or> b = OSMDATA \<and> k = OsmData"
    and w: "written_as P C b rq bytes"
  obtains v where "view_bytes v = bytes" "reads_as P D k rq (raw_of v)"
    "\<And>vs. frames_at P pos ord (v # vs) \<longleftrightarrow> frames_at P (pos + length bytes) (Suc ord) vs"
proof -
  from w obtain frame where spec: "frame_spec P C b (rq_block rq) (rq_compression rq) (rq_indexdata rq) (rq_tagdata rq) (rq_way_members rq) = Inr frame"
    and bytes: "bytes = concat (ScratchFrame_parts frame)" by (rule written_as_spec [OF C])
  have kind: "blob_kind_of b = Inr k" "b \<noteq> []" "length b < 2 ^ 32" using k blob_kind_names by auto
  define n where "n = length (sf_body_head frame @ sf_payload frame)"
  define td where "td = kept_tagdata P b (of_nat n) (rq_indexdata rq) (rq_tagdata rq) (rq_way_members rq)"
  define h where "h = keep_fields True True False (written_header k (of_nat n) (rq_indexdata rq) td (rq_way_members rq))"
  define v where "v = \<lparr>vw_id = \<lparr>id_start = Some pos, id_ordinal = Some ord\<rparr>, vw_header_bytes = sf_header frame,
      vw_header = h, vw_payload = sf_body_head frame @ sf_payload frame\<rparr>"
  note wf = written_frame [OF P kind spec, folded n_def, folded td_def, folded h_def]
  have h: "wh_blob_type h = k" "wh_datasize h = of_nat n" "wh_tagdata h = (if bytes_or_empty td = [] then None else td)"
    "Option.bind (wh_indexdata h) BlobIndex_deserialize = written_index (rq_indexdata rq)"
    unfolding h_def by (simp_all add: kept_written_header)
  have n: "n < 2 ^ 31" using wf(3) by (simp add: MAX_BLOB_DATASIZE_def MAX_BLOB_MESSAGE_SIZE_def)
  then have ds: "0 \<le>s (of_nat n :: i32)" "unat (of_nat n :: i32) = n"
    by (simp_all add: word_sle_eq signed_of_nat signed_take_bit_int_eq_self unat_of_nat)
  have bytes': "bytes = u32_to_be_bytes (of_nat (length (sf_header frame))) @ sf_header frame @ sf_body_head frame @ sf_payload frame"
    using wf(4) bytes by (simp add: ScratchFrame_parts_def)
  show thesis
  proof (rule that [of v])
    show "view_bytes v = bytes" by (simp add: v_def view_bytes_def bytes')
    show "frames_at P pos ord (v # vs) \<longleftrightarrow> frames_at P (pos + length bytes) (Suc ord) vs" for vs
      using wf(1-3,5) h(1,2) ds n_def k by (auto simp: v_def bytes' add.assoc)
    have "\<exists>blob. WireBlob_parse P (sf_body_head frame @ sf_payload frame) = Inr blob \<and> blob_bytes D stream blob = Some (rq_block rq)"
      by (rule written_body_bytes [OF P D(2) wf(6,7)]) (use n n_def in simp)
    then have "decompress_blob_raw P D (sf_body_head frame @ sf_payload frame) buf = Inr (rq_block rq)" for buf
      using raw_path_yields [OF D(1), of P "sf_body_head frame @ sf_payload frame" buf] by (auto simp: yields_def)
    moreover have "td = None \<or> td = rq_tagdata rq" by (simp add: td_def kept_tagdata_def)
    ultimately show "reads_as P D k rq (raw_of v)"
      using h by (auto simp: reads_as_def raw_of_def v_def rw_blob_bytes_def)
  qed
qed

lemma written_frames_at:
  assumes P: "proto P" and D: "decoders_ok D stream" "codecs_agree C D stream" and C: "compressors_ok C"
    and w: "list_all2 (written_as P C OSMDATA) rqs frames"
  shows "\<exists>vs. frames_at P pos ord vs \<and> concat (map view_bytes vs) = concat frames
    \<and> list_all2 (reads_as P D OsmData) rqs (map raw_of vs)"
  using w
proof (induction rqs frames arbitrary: pos ord rule: list_all2_induct)
  case Nil
  then show ?case by (intro exI [of _ "[]"]) simp
next
  case (Cons rq rqs frame frames)
  from written_frame_at [OF P D C _ Cons(1), of OsmData pos ord] obtain v where
    v: "view_bytes v = frame" "reads_as P D OsmData rq (raw_of v)"
    "\<And>vs. frames_at P pos ord (v # vs) \<longleftrightarrow> frames_at P (pos + length frame) (Suc ord) vs" by blast
  from Cons(3) [of "pos + length frame" "Suc ord"] obtain vs where
    "frames_at P (pos + length frame) (Suc ord) vs" "concat (map view_bytes vs) = concat frames"
    "list_all2 (reads_as P D OsmData) rqs (map raw_of vs)" by blast
  with v show ?case by (intro exI [of _ "v # vs"]) simp
qed

text \<open>
  C1: a file written as a header frame and data frames reads back: the raw walk over any
  faultless reader of it ends and returns one frame per frame written, in order, of the
  kind written, whose payload decompresses to the block written, whose index is the one
  written, and whose tag index is the one written or absent. Each frame was written in scratch with
  clean compressors, by compressors that behave after a reset as new ones.
\<close>
theorem written_file_reads_back:
  assumes "proto_ok P" "decoders_ok D stream" "codecs_agree C D stream" "compressors_ok C" "Reader_ok s"
    and "written_as P C OSMHEADER header first" "list_all2 (written_as P C OSMDATA) rqs frames"
    and "rd_rest s = first @ concat frames"
  shows "\<exists>raw raws. walk (next_raw P Read_source False) (start_walk True s) [] = Some (Inr (raw # raws))
    \<and> reads_as P D OsmHeader header raw \<and> list_all2 (reads_as P D OsmData) rqs raws"
proof -
  have P: "proto P" using assms(1) by (simp add: proto_ok_def proto.intro)
  from written_frame_at [OF P assms(2,3,4) _ assms(6), of OsmHeader 0 0] obtain v where
    v: "view_bytes v = first" "reads_as P D OsmHeader header (raw_of v)"
    "\<And>vs. frames_at P 0 0 (v # vs) \<longleftrightarrow> frames_at P (0 + length first) (Suc 0) vs" by blast
  from written_frames_at [OF P assms(2,3,4,7), of "0 + length first" "Suc 0"] obtain vs where
    vs: "frames_at P (0 + length first) (Suc 0) vs" "concat (map view_bytes vs) = concat frames"
    "list_all2 (reads_as P D OsmData) rqs (map raw_of vs)" by blast
  have "frames_spec P HeaderFields_INDEXES (guard_of True []) 0 0 (concat (map view_bytes (v # vs)) @ []) = Inr (v # vs)"
    by (rule frames_spec_accepts) (use v(3) vs(1) in simp_all)
  then have "frames_spec P HeaderFields_INDEXES (guard_of True []) 0 0 (rd_rest s) = Inr (v # vs)"
    using v(1) vs(2) assms(8) by simp
  moreover have "walk (next_raw P Read_source False) (start_walk True s) []
      = Some (map_sum id (map raw_of) (frames_spec P HeaderFields_INDEXES (guard_of True []) 0 0 (rd_rest s)))"
    using read_stream.walk_spec [OF read_stream.next_raw_follows start_read [OF assms(5)], of P True "[]"] by simp
  ultimately show ?thesis using v(2) vs(3) by auto
qed

definition plain_request :: "bytes \<Rightarrow> Request" where
  "plain_request b = \<lparr>rq_block = b, rq_compression = Compression_None, rq_indexdata = None, rq_tagdata = None, rq_way_members = None\<rparr>"

lemma plain_written:
  assumes "encode_blob_header_fields pb b 3 None None None = hdr" "length hdr < 256"
    and "encode_payload_field_head pb blob_RAW 1 = [10, 1]"
  shows "written_as pb stored_compressors b (plain_request [x]) (u32_to_be_bytes (of_nat (length hdr)) @ hdr @ [10, 1, x])"
  unfolding written_as_def
proof (intro exI conjI, rule scratch_clean_new)
  have len: "length hdr < MAX_BLOB_HEADER_SIZE" "int (length hdr) < 2 ^ 32" using assms(2) by (simp_all add: MAX_BLOB_HEADER_SIZE_def)
  show "fst (frame_blob_into pb stored_compressors b (rq_block (plain_request [x])) (rq_compression (plain_request [x]))
      (rq_indexdata (plain_request [x])) (rq_tagdata (plain_request [x])) (rq_way_members (plain_request [x]))
      FrameScratch_new \<lparr>tagdata_dropped_oversize = 0, bytes_framed = 0\<rparr>)
    = Inr (u32_to_be_bytes (of_nat (length hdr)) @ hdr @ [10, 1, x])"
    using assms len
    by (simp add: frame_blob_into_def frame_in_scratch_def encode_blob_body_def encode_frame_header_def plain_request_def
        encode_blob_header_into_def ScratchFrame_parts_def MAX_BLOB_MESSAGE_SIZE_def MAX_BLOB_DATASIZE_def Let_def)
qed

lemma pb_ok: "proto_ok pb"
  by (simp add: proto_ok_def pb_reads pb_roundtrip)

lemma plain_codecs: "codecs_agree stored_compressors stored (\<lambda>z input. (input, Ends))"
  by (simp add: codecs_agree_def zlib_bytes_def zstd_bytes_def stored_compressors_def stored_def)

lemma plain_data_frame:
  "list_all2 (written_as pb stored_compressors OSMDATA) [plain_request [2]]
     [[0, 0, 0, 11, 10, 7, 79, 83, 77, 68, 97, 116, 97, 24, 3, 10, 1, 2]]"
proof -
  have head: "encode_payload_field_head pb blob_RAW 1 = [10, 1]" by code_simp
  have d: "encode_blob_header_fields pb OSMDATA 3 None None None = [10, 7, 79, 83, 77, 68, 97, 116, 97, 24, 3]" by code_simp
  have be: "u32_to_be_bytes 11 = [0, 0, 0, 11]" by code_simp
  show ?thesis using plain_written [OF d _ head, of 2] be by simp
qed

theorem written_file_reads_back_witness:
  "\<exists>raw raws. walk (next_raw pb Read_source False) (start_walk True
       \<lparr>rd_rest = [0, 0, 0, 13, 10, 9, 79, 83, 77, 72, 101, 97, 100, 101, 114, 24, 3, 10, 1, 1,
                   0, 0, 0, 11, 10, 7, 79, 83, 77, 68, 97, 116, 97, 24, 3, 10, 1, 2], rd_events = [Delivers 2, Interrupted]\<rparr>) []
     = Some (Inr (raw # raws))
   \<and> reads_as pb stored OsmHeader (plain_request [1]) raw \<and> list_all2 (reads_as pb stored OsmData) [plain_request [2]] raws"
proof -
  have head: "encode_payload_field_head pb blob_RAW 1 = [10, 1]" by code_simp
  have h: "encode_blob_header_fields pb OSMHEADER 3 None None None = [10, 9, 79, 83, 77, 72, 101, 97, 100, 101, 114, 24, 3]" by code_simp
  have be: "u32_to_be_bytes 13 = [0, 0, 0, 13]" by code_simp
  have w1: "written_as pb stored_compressors OSMHEADER (plain_request [1])
      [0, 0, 0, 13, 10, 9, 79, 83, 77, 72, 101, 97, 100, 101, 114, 24, 3, 10, 1, 1]"
    using plain_written [OF h _ head, of 1] be by simp
  show ?thesis
    by (rule written_file_reads_back [OF pb_ok stored_ok plain_codecs stored_compressors_ok _ w1 plain_data_frame]) (simp_all add: Reader_ok_def)
qed

section \<open>From the header walk to the schedule\<close>

lemma frames_at_located:
  assumes "frames_at P pos ord vs" "length pre = pos" "data = pre @ concat (map view_bytes vs) @ tl_bytes" "v \<in> set vs"
  shows "\<exists>start n. vw_id v = \<lparr>id_start = Some start, id_ordinal = Some n\<rparr>
    \<and> start + 4 + length (vw_header_bytes v) + length (vw_payload v) \<le> length data
    \<and> take (length (vw_payload v)) (drop (start + 4 + length (vw_header_bytes v)) data) = vw_payload v
    \<and> length (vw_header_bytes v) < MAX_BLOB_HEADER_SIZE \<and> length (vw_payload v) < MAX_BLOB_DATASIZE"
  using assms
proof (induction vs arbitrary: pos ord pre)
  case (Cons x vs)
  show ?case
  proof (cases "v = x")
    case True
    then show ?thesis using Cons.prems(1-3) by (auto simp: view_bytes_def)
  next
    case False
    have len: "length (pre @ view_bytes x) = pos + 4 + length (vw_header_bytes x) + length (vw_payload x)"
      using Cons.prems(2) by (simp add: view_bytes_def)
    show ?thesis
      by (rule Cons.IH [OF _ len]) (use Cons.prems False in auto)
  qed
qed simp

text \<open>
  C4: what the header walk hands to the schedules is right: every header it returns gives
  the place of its payload within the file, the payload there is the one a raw walk of the
  same file returns, and the header fits the packed fields of a schedule entry.
\<close>
theorem header_walk_locates:
  assumes "walk (walker_next_header P Pread_source False) (start_walk accept (open_pread data)) [] = Some (Inr ms)"
    and "length data < 2 ^ 64"
  shows "metas_ok ms
    \<and> (\<exists>raws. walk (next_raw P Read_source False) (start_walk accept \<lparr>rd_rest = data, rd_events = []\<rparr>) [] = Some (Inr raws)
        \<and> list_all2 (\<lambda>m raw. unat (m_data_offset m) + m_data_size m \<le> length data
            \<and> take (m_data_size m) (drop (unat (m_data_offset m)) data) = rw_blob_bytes raw
            \<and> m_blob_type m = rw_blob_type raw \<and> m_index m = rw_index raw \<and> m_tagdata m = rw_tagdata raw) ms raws)"
proof -
  let ?spec = "frames_spec P HeaderFields_INDEXES (guard_of accept []) 0 0 data"
  have "walk (walker_next_header P Pread_source False) (start_walk accept (open_pread data)) [] = Some (map_sum id (map meta_of) ?spec)"
    using pread_skip.walk_spec [OF pread_skip.walker_follows start_pread, of P accept data "[]"] by simp
  then obtain vs where vs: "?spec = Inr vs" "ms = map meta_of vs" using assms(1) by (cases ?spec) auto
  have "Reader_ok \<lparr>rd_rest = data, rd_events = []\<rparr>" by (simp add: Reader_ok_def)
  from read_stream.walk_spec [OF read_stream.next_raw_follows start_read [OF this], of P accept "[]"] vs(1)
  have raws: "walk (next_raw P Read_source False) (start_walk accept \<lparr>rd_rest = data, rd_events = []\<rparr>) [] = Some (Inr (map raw_of vs))"
    by simp
  obtain tl_bytes where at: "frames_at P 0 0 vs" "data = concat (map view_bytes vs) @ tl_bytes"
    using frames_spec_structure [where xs = "[]" and accept = accept and pos = 0 and ord = 0, OF vs(1)] by (auto simp: mixed_def)
  have each: "meta_ok (meta_of v) \<and> unat (m_data_offset (meta_of v)) + m_data_size (meta_of v) \<le> length data
      \<and> take (m_data_size (meta_of v)) (drop (unat (m_data_offset (meta_of v))) data) = rw_blob_bytes (raw_of v)
      \<and> m_blob_type (meta_of v) = rw_blob_type (raw_of v) \<and> m_index (meta_of v) = rw_index (raw_of v)
      \<and> m_tagdata (meta_of v) = rw_tagdata (raw_of v)" if v: "v \<in> set vs" for v
  proof -
    obtain start n where p: "vw_id v = \<lparr>id_start = Some start, id_ordinal = Some n\<rparr>"
      "start + 4 + length (vw_header_bytes v) + length (vw_payload v) \<le> length data"
      "take (length (vw_payload v)) (drop (start + 4 + length (vw_header_bytes v)) data) = vw_payload v"
      "length (vw_header_bytes v) < MAX_BLOB_HEADER_SIZE" "length (vw_payload v) < MAX_BLOB_DATASIZE"
      using frames_at_located [OF at(1), of "[]" data tl_bytes v] at(2) v by auto
    have off: "unat (of_nat start + of_nat (4 + length (vw_header_bytes v)) :: u64) = start + 4 + length (vw_header_bytes v)"
      using p(2) assms(2) by (simp only: of_nat_add [symmetric] unat_of_nat) simp
    have st: "unat (of_nat start :: u64) = start" using p(2) assms(2) by (simp add: unat_of_nat)
    show ?thesis using p off st
      by (simp add: meta_ok_def meta_of_def raw_of_def rw_blob_bytes_def MAX_BLOB_HEADER_SIZE_def MAX_BLOB_DATASIZE_def
          MAX_BLOB_MESSAGE_SIZE_def Let_def)
  qed
  show ?thesis using raws each vs(2) by (auto simp: metas_ok_def list_all2_map1 list_all2_map2 list_all2_same)
qed

theorem header_walk_locates_witness:
  "\<exists>ms. walk (walker_next_header pb Pread_source False) (start_walk True
       (open_pread [0, 0, 0, 11, 10, 7, 79, 83, 77, 68, 97, 116, 97, 24, 3, 10, 1, 2])) [] = Some (Inr ms) \<and> length ms = 1 \<and> metas_ok ms"
proof -
  let ?d = "[0, 0, 0, 11, 10, 7, 79, 83, 77, 68, 97, 116, 97, 24, 3, 10, 1, 2] :: bytes"
  have P: "proto pb" using pb_ok by (simp add: proto_ok_def proto.intro)
  from written_frames_at [OF P stored_ok plain_codecs stored_compressors_ok plain_data_frame, of 0 0] obtain vs where
    vs: "frames_at pb 0 0 vs" "concat (map view_bytes vs) = ?d" "length vs = 1"
    by (auto dest: list_all2_lengthD)
  have "frames_spec pb HeaderFields_INDEXES (guard_of True []) 0 0 ?d = Inr vs"
    using frames_spec_accepts [OF vs(1), of "[]" True "[]"] vs(2) by simp
  then have w: "walk (walker_next_header pb Pread_source False) (start_walk True (open_pread ?d)) [] = Some (Inr (map meta_of vs))"
    using pread_skip.walk_spec [OF pread_skip.walker_follows start_pread, of pb True ?d "[]"] by simp
  show ?thesis using w header_walk_locates [OF w] vs(3) by simp
qed

section \<open>The two consumers of change files\<close>

text \<open>
  C8: apply-changes and merge-changes --simplify agree on documents both can read. Take change
  documents whose framing is right and whose elements both can parse: the overlay interprets more of an element (its
  changeset, uid and timestamp), so documents the merge reads and the overlay refuses to parse are not covered. Whatever
  the size of its batches, the merge reads them, and unless one of the
  two meets its 32-bit limits, it refuses them for a version regression exactly when the change overlay does, for the
  same change, claim and floor; and when the overlay accepts them, the merge keeps as created or modified exactly the objects apply-changes
  upserts, and as deleted exactly those it deletes.
\<close>

theorem consumers_agree:
  assumes "norm_str L" "writer_total W" "\<forall>evs \<in> set docs. document_fate L evs = Inr () \<and> (\<forall>ev \<in> set evs. event_faithful T ev)"
    "parse_changes L (documents_objects L docs) = Inr cs" "\<forall>b \<in> set (documents_objects L docs). \<exists>ob. parse_owned L b = Inr ob"
    "parse_osc_files L docs (allow_version_regression CompactDiffOverlay_new al) = Some (res, ov)"
    "\<forall>err. res = Inl err \<longrightarrow> \<not> overflow err"
  shows "\<exists>batches. render_inputs W L T n docs = Some (Inr batches) \<and>
    (sizes_ok batches \<longrightarrow>
      (\<forall>k i v h. dedupe batches al = Inl (VersionRegression ''merge-changes simplification'' k i v h) \<longleftrightarrow>
        res = Inl (VersionRegression ''OSC change overlay'' k i v h)) \<and>
      (res = Inr () \<longrightarrow> (\<exists>c m d. dedupe batches al = Inr (c, m, d) \<and>
        (\<forall>k. ids_at batches k c \<union> ids_at batches k m = set (upserts (into_sorted ov) k) \<and> ids_at batches k d = set (deleted (into_sorted ov) k)))))"
proof -
  have fate: "\<forall>evs \<in> set docs. document_fate L evs = Inr ()" using assms(3) by blast
  obtain batches where b: "render_inputs W L T n docs = Some (Inr batches)" "list_all2 (indexes L) (documents_objects L docs) (all_elements batches)"
    using rendered_inputs [OF assms(2,3,5)] by blast
  have sc: "list_all2 same_change cs (all_elements batches)" by (rule indexed_changes [OF b(2) assms(4)])
  have ents: "map change_entry (all_elements batches) = map fst cs" by (rule same_change_entries [OF sc])
  note oc = changes_outcome [OF assms(1) fate assms(4,6)]
  have main: "(\<forall>k i v h. dedupe batches al = Inl (VersionRegression ''merge-changes simplification'' k i v h) \<longleftrightarrow>
        res = Inl (VersionRegression ''OSC change overlay'' k i v h)) \<and>
      (res = Inr () \<longrightarrow> (\<exists>c m d. dedupe batches al = Inr (c, m, d) \<and>
        (\<forall>k. ids_at batches k c \<union> ids_at batches k m = set (upserts (into_sorted ov) k) \<and> ids_at batches k d = set (deleted (into_sorted ov) k))))"
    if sz: "sizes_ok batches"
  proof (cases "if al then None else first_regression (map fst cs)")
    case (Some r)
    then have "dedupe batches al = Inl (regression_error ''merge-changes simplification'' (map fst cs) r)"
      "res = Inl (regression_error ''OSC change overlay'' (map fst cs) r)"
      using dedupe_serial [OF sz, of al] oc assms(7) by (auto simp: ents Let_def)
    then show ?thesis by (simp add: regression_error_def)
  next
    case None
    then have r: "res = Inr ()" "represents ov (state_of cs)" using oc assms(7) by auto
    let ?s = "survivors (all_elements batches) (places 0 batches)"
    have d: "dedupe batches al = Inr (?s Create, ?s Modify, ?s Delete)" using dedupe_serial [OF sz, of al] None by (simp add: ents Let_def split: if_splits)
    then show ?thesis using r survivor_sets [OF sz sc] state_sorted(2,3) [OF r(2)] by auto
  qed
  then show ?thesis using b(1) by blast
qed

theorem consumers_agree_witness:
  "\<exists>ov batches. parse_osc_files utf8_lib [sample_doc] (allow_version_regression CompactDiffOverlay_new False) = Some (Inr (), ov) \<and>
    render_inputs log_writer utf8_lib sample_text 1 [sample_doc] = Some (Inr batches) \<and>
    (sizes_ok batches \<longrightarrow> (\<exists>c m d. dedupe batches False = Inr (c, m, d) \<and> ids_at batches Node d = set (deleted (into_sorted ov) Node)))"
proof -
  have f: "\<forall>evs \<in> set [sample_doc]. document_fate utf8_lib evs = Inr () \<and> (\<forall>ev \<in> set evs. event_faithful sample_text ev)" by code_simp
  have c: "parse_changes utf8_lib (documents_objects utf8_lib [sample_doc]) = Inr [(\<lparr>en_kind = Node, en_id = 7, en_claim = Some 2\<rparr>, Removed)]"
    by code_simp
  have o1: "list_all (\<lambda>b. \<not> isl (parse_owned utf8_lib b)) (documents_objects utf8_lib [sample_doc])" by code_simp
  then have "\<forall>b \<in> set (documents_objects utf8_lib [sample_doc]). \<exists>ob. parse_owned utf8_lib b = Inr ob" by (metis list_all_iff sum.exhaust_disc sum.collapse(2))
  have "map_option fst (parse_osc_files utf8_lib [sample_doc] (allow_version_regression CompactDiffOverlay_new False)) = Some (Inr ())" by code_simp
  then obtain ov where ov: "parse_osc_files utf8_lib [sample_doc] (allow_version_regression CompactDiffOverlay_new False) = Some (Inr (), ov)" by auto
  from consumers_agree [OF utf8_lib_norm log_writer_total f c \<open>\<forall>b \<in> set (documents_objects utf8_lib [sample_doc]). \<exists>ob. parse_owned utf8_lib b = Inr ob\<close> ov, of 1]
  show ?thesis using ov by auto
qed

end
